(* ===== verification/Prelude.thy ===== *)
theory Prelude
  imports Main "HOL-Library.Monad_Syntax" "HOL-Library.Word"
begin

text \<open>
  Shared vocabulary of the development: the three-valued result of Rust's \<open>Ord::cmp\<close>,
  the checked operations whose failure is a panic of the source (subtraction of unsigned
  integers, pushes into a fixed-capacity \<open>ArrayVec\<close>, indexing), and the list lemmas that
  several components use. A computation that may panic has an \<open>option\<close> type: \<open>None\<close> is
  the panic.
\<close>

named_theorems checked_simps \<open>unfolding rules of the checked (possibly panicking) operations\<close>

section \<open>Three-valued comparison\<close>

datatype ordering = Less | Equal | Greater

definition cmp_of :: "'a::linorder \<Rightarrow> 'a \<Rightarrow> ordering" where
  "cmp_of a b = (if a < b then Less else if a = b then Equal else Greater)"

fun then_with :: "ordering \<Rightarrow> ordering \<Rightarrow> ordering" where
  "then_with Equal o2 = o2"
| "then_with Less o2 = Less"
| "then_with Greater o2 = Greater"

lemma cmp_of_Less [simp]: "cmp_of a b = Less \<longleftrightarrow> a < b"
  by (auto simp: cmp_of_def)

lemma cmp_of_Equal [simp]: "cmp_of a b = Equal \<longleftrightarrow> a = b"
  by (auto simp: cmp_of_def)

lemma cmp_of_Greater [simp]: "cmp_of a b = Greater \<longleftrightarrow> b < a"
  by (auto simp: cmp_of_def)

section \<open>Checked operations\<close>

definition csub :: "nat \<Rightarrow> nat \<Rightarrow> nat option" where
  "csub a b = (if b \<le> a then Some (a - b) else None)"

definition av_push :: "nat \<Rightarrow> 'a list \<Rightarrow> 'a \<Rightarrow> 'a list option" where
  "av_push cap xs x = (if length xs < cap then Some (xs @ [x]) else None)"

definition av_extend :: "nat \<Rightarrow> 'a list \<Rightarrow> 'a list \<Rightarrow> 'a list option" where
  "av_extend cap xs ys = (if length xs + length ys \<le> cap then Some (xs @ ys) else None)"

definition assert_opt :: "bool \<Rightarrow> unit option" where
  "assert_opt b = (if b then Some () else None)"

fun last_opt :: "'a list \<Rightarrow> 'a option" where
  "last_opt [] = None"
| "last_opt (x # xs) = Some (last (x # xs))"

fun first_opt :: "'a list \<Rightarrow> 'a option" where
  "first_opt [] = None"
| "first_opt (x # xs) = Some x"

definition nth_opt :: "'a list \<Rightarrow> nat \<Rightarrow> 'a option" where
  "nth_opt xs i = (if i < length xs then Some (xs ! i) else None)"

text \<open>The suffix slice \<open>xs[i..]\<close> panics when \<open>i\<close> is beyond the end, as does the prefix \<open>xs[..i]\<close>.\<close>

definition slice_from :: "nat \<Rightarrow> 'a list \<Rightarrow> 'a list option" where
  "slice_from i xs = (if i \<le> length xs then Some (drop i xs) else None)"

definition slice_to :: "nat \<Rightarrow> 'a list \<Rightarrow> 'a list option" where
  "slice_to i xs = (if i \<le> length xs then Some (take i xs) else None)"

lemma slice_from_in [checked_simps]: "i \<le> length xs \<Longrightarrow> slice_from i xs = Some (drop i xs)"
  by (simp add: slice_from_def)

lemma slice_to_in [checked_simps]: "i \<le> length xs \<Longrightarrow> slice_to i xs = Some (take i xs)"
  by (simp add: slice_to_def)

lemma csub_le [checked_simps]: "b \<le> a \<Longrightarrow> csub a b = Some (a - b)"
  by (simp add: csub_def)

lemma csub_eq_Some: "csub a b = Some c \<longleftrightarrow> b \<le> a \<and> c = a - b"
  by (auto simp: csub_def)

lemma av_push_room [checked_simps]: "length xs < cap \<Longrightarrow> av_push cap xs x = Some (xs @ [x])"
  by (simp add: av_push_def)

lemma av_extend_room [checked_simps]:
  "length xs + length ys \<le> cap \<Longrightarrow> av_extend cap xs ys = Some (xs @ ys)"
  by (simp add: av_extend_def)

lemma assert_opt_True [checked_simps]: "b \<Longrightarrow> assert_opt b = Some ()"
  by (simp add: assert_opt_def)

lemma last_opt_ne [checked_simps]: "xs \<noteq> [] \<Longrightarrow> last_opt xs = Some (last xs)"
  by (cases xs) auto

lemma last_opt_SomeD: "last_opt xs = Some x \<Longrightarrow> xs \<noteq> [] \<and> x = last xs \<and> x \<in> set xs"
  by (cases xs) auto

lemma last_opt_iff: "last_opt xs = (if xs = [] then None else Some (last xs))"
  by (cases xs) auto

lemma first_opt_iff: "first_opt xs = (if xs = [] then None else Some (hd xs))"
  by (cases xs) auto

lemma first_opt_ne [checked_simps]: "xs \<noteq> [] \<Longrightarrow> first_opt xs = Some (hd xs)"
  by (cases xs) auto

lemma first_opt_SomeD: "first_opt xs = Some x \<Longrightarrow> xs \<noteq> [] \<and> x = hd xs \<and> x \<in> set xs"
  by (cases xs) auto

lemma nth_opt_in [checked_simps]: "i < length xs \<Longrightarrow> nth_opt xs i = Some (xs ! i)"
  by (simp add: nth_opt_def)

lemma nth_opt_out: "length xs \<le> i \<Longrightarrow> nth_opt xs i = None"
  by (simp add: nth_opt_def)

section \<open>Lists\<close>

lemma butlast_append_last: "xs \<noteq> [] \<Longrightarrow> butlast xs @ [last xs] = xs"
  by simp

lemma sum_list_map_butlast_last:
  "xs \<noteq> [] \<Longrightarrow> sum_list (map f xs) = sum_list (map f (butlast xs)) + (f (last xs) :: nat)"
  by (cases xs rule: rev_cases) auto

lemma concat_map_butlast_last:
  "xs \<noteq> [] \<Longrightarrow> concat (map f xs) = concat (map f (butlast xs)) @ f (last xs)"
  by (cases xs rule: rev_cases) auto

lemma concat_map_hd_tl: "xs \<noteq> [] \<Longrightarrow> concat (map f xs) = f (hd xs) @ concat (map f (tl xs))"
  by (cases xs) auto

lemma size_le_size_list [simp]: "x \<in> set xs \<Longrightarrow> f x \<le> size_list f xs"
  by (rule size_list_estimation'[OF _ order.refl])

end
