(* ===== verification/Clock.thy ===== *)
theory Clock
  imports Prelude
begin

text \<open>
  The \<open>clock\<close> crate (\<open>crates/clock/src/clock.rs\<close>): replica ids, Lamport timestamps and
  version vectors (\<open>Global\<close>). Sequence numbers are \<open>u32\<close> and replica ids \<open>u16\<close>; both keep
  their width. \<open>tick\<close> and \<open>observe\<close> increment with the wrap-around of a release build, and
  the theorems that need it assume the counter is not at its maximum. The
  \<open>debug_assert_ne!\<close> of \<open>Global::observe\<close> is compiled out of a release build and has no
  branch here. A version vector is read through \<open>global_get\<close>; \<open>wf_global\<close> is the
  normal form (no trailing zero) that every operation keeps, and on normal forms the
  comparisons of the code are exactly the pointwise ones.
\<close>

section \<open>Replica ids and Lamport timestamps\<close>

type_synonym replica_id = "16 word"
type_synonym seq = "32 word"

definition REPLICA_LOCAL :: replica_id where "REPLICA_LOCAL = 0"
definition REPLICA_REMOTE_SERVER :: replica_id where "REPLICA_REMOTE_SERVER = 1"
definition REPLICA_AGENT :: replica_id where "REPLICA_AGENT = 2"
definition REPLICA_LOCAL_BRANCH :: replica_id where "REPLICA_LOCAL_BRANCH = 3"
definition REPLICA_FIRST_COLLAB_ID :: replica_id where "REPLICA_FIRST_COLLAB_ID = 8"

definition is_remote :: "replica_id \<Rightarrow> bool" where
  "is_remote r \<longleftrightarrow> r = REPLICA_REMOTE_SERVER \<or> REPLICA_FIRST_COLLAB_ID \<le> r"

datatype lamport = Lamport (lvalue: seq) (lreplica: replica_id)

definition lamport_cmp :: "lamport \<Rightarrow> lamport \<Rightarrow> ordering" where
  "lamport_cmp a b =
     then_with (cmp_of (lvalue a) (lvalue b)) (cmp_of (lreplica a) (lreplica b))"

instantiation lamport :: linorder
begin

definition less_eq_lamport :: "lamport \<Rightarrow> lamport \<Rightarrow> bool" where
  "less_eq_lamport a b \<longleftrightarrow>
     lvalue a < lvalue b \<or> (lvalue a = lvalue b \<and> lreplica a \<le> lreplica b)"

definition less_lamport :: "lamport \<Rightarrow> lamport \<Rightarrow> bool" where
  "less_lamport a b \<longleftrightarrow>
     lvalue a < lvalue b \<or> (lvalue a = lvalue b \<and> lreplica a < lreplica b)"

instance
proof
  fix x y z :: lamport
  show "(x < y) = (x \<le> y \<and> \<not> y \<le> x)"
    by (auto simp: less_eq_lamport_def less_lamport_def)
  show "x \<le> x" by (simp add: less_eq_lamport_def)
  show "x \<le> y \<Longrightarrow> y \<le> z \<Longrightarrow> x \<le> z" by (auto simp: less_eq_lamport_def)
  show "x \<le> y \<Longrightarrow> y \<le> x \<Longrightarrow> x = y"
    by (cases x; cases y) (auto simp: less_eq_lamport_def)
  show "x \<le> y \<or> y \<le> x" by (auto simp: less_eq_lamport_def)
qed

end

lemma lamport_cmp_eq: "lamport_cmp a b = cmp_of a b"
  by (cases a; cases b) (auto simp: lamport_cmp_def cmp_of_def less_lamport_def)

definition LAMPORT_MIN :: lamport where "LAMPORT_MIN = Lamport 0 0"
definition LAMPORT_MAX :: lamport where "LAMPORT_MAX = Lamport (- 1) (- 1)"

lemma LAMPORT_MIN_least [simp]: "LAMPORT_MIN \<le> t"
  by (auto simp: LAMPORT_MIN_def less_eq_lamport_def word_neq_0_conv)

lemma LAMPORT_MAX_greatest [simp]: "t \<le> LAMPORT_MAX"
  by (auto simp: LAMPORT_MAX_def less_eq_lamport_def order.strict_iff_order)

definition lamport_new :: "replica_id \<Rightarrow> lamport" where
  "lamport_new r = Lamport 1 r"

definition as_u64 :: "lamport \<Rightarrow> 64 word" where
  "as_u64 t = or (push_bit 32 (ucast (lvalue t))) (ucast (lreplica t))"

text \<open>\<open>tick\<close> returns the current timestamp and advances the clock; the pair is
  (returned timestamp, new clock).\<close>

definition tick :: "lamport \<Rightarrow> lamport \<times> lamport" where
  "tick c = (c, Lamport (lvalue c + 1) (lreplica c))"

definition lamport_observe :: "lamport \<Rightarrow> lamport \<Rightarrow> lamport" where
  "lamport_observe c t = Lamport (max (lvalue c) (lvalue t) + 1) (lreplica c)"

section \<open>Version vectors\<close>

record global =
  gvalues :: "seq list"

definition global_new :: global where
  "global_new = \<lparr>gvalues = []\<rparr>"

definition resize :: "nat \<Rightarrow> 'a \<Rightarrow> 'a list \<Rightarrow> 'a list" where
  "resize n d xs = take n xs @ replicate (n - length xs) d"

definition global_get :: "global \<Rightarrow> replica_id \<Rightarrow> seq" where
  "global_get g r = (case nth_opt (gvalues g) (unat r) of None \<Rightarrow> 0 | Some v \<Rightarrow> v)"

definition global_observe :: "global \<Rightarrow> lamport \<Rightarrow> global" where
  "global_observe g t =
     (if lvalue t > 0 then
        let i = unat (lreplica t); new_len = i + 1;
            vs = (if new_len > length (gvalues g) then resize new_len 0 (gvalues g)
                  else gvalues g)
        in g\<lparr>gvalues := vs[i := max (vs ! i) (lvalue t)]\<rparr>
      else g)"

text \<open>The loop \<open>for (l, r) in xs.iter_mut().zip(ys)\<close>, which writes only the common prefix.\<close>

fun zip_update :: "('a \<Rightarrow> 'b \<Rightarrow> 'a) \<Rightarrow> 'a list \<Rightarrow> 'b list \<Rightarrow> 'a list" where
  "zip_update f (x # xs) (y # ys) = f x y # zip_update f xs ys"
| "zip_update f xs _ = xs"

definition global_join :: "global \<Rightarrow> global \<Rightarrow> global" where
  "global_join g h =
     (let vs = (if length (gvalues h) > length (gvalues g)
                then resize (length (gvalues h)) 0 (gvalues g) else gvalues g)
      in g\<lparr>gvalues := zip_update max vs (gvalues h)\<rparr>)"

definition meet_entry :: "seq \<Rightarrow> seq \<Rightarrow> seq" where
  "meet_entry l r = (if l = 0 then r else if r = 0 then l else min l r)"

fun meet_loop :: "nat \<Rightarrow> seq list \<Rightarrow> seq list \<Rightarrow> nat \<Rightarrow> seq list \<times> nat" where
  "meet_loop ix (x # xs) (y # ys) new_len =
     (let l = meet_entry x y;
          (r, n) = meet_loop (ix + 1) xs ys (if l \<noteq> 0 then ix + 1 else new_len)
      in (l # r, n))"
| "meet_loop ix xs _ new_len = (xs, new_len)"

definition global_meet :: "global \<Rightarrow> global \<Rightarrow> global" where
  "global_meet g h =
     (let vs = (if length (gvalues h) > length (gvalues g)
                then resize (length (gvalues h)) 0 (gvalues g) else gvalues g);
          (ws, new_len) = meet_loop 0 vs (gvalues h) 0
      in g\<lparr>gvalues := (if length (gvalues h) = length ws then take new_len ws else ws)\<rparr>)"

definition global_observed :: "global \<Rightarrow> lamport \<Rightarrow> bool" where
  "global_observed g t \<longleftrightarrow> global_get g (lreplica t) \<ge> lvalue t"

definition global_observed_any :: "global \<Rightarrow> global \<Rightarrow> bool" where
  "global_observed_any g h \<longleftrightarrow>
     list_ex (\<lambda>(l, r). r > 0 \<and> l \<ge> r) (zip (gvalues g) (gvalues h))"

definition global_observed_all :: "global \<Rightarrow> global \<Rightarrow> bool" where
  "global_observed_all g h \<longleftrightarrow>
     (if length (gvalues g) < length (gvalues h) then False
      else list_all (\<lambda>(l, r). l \<ge> r) (zip (gvalues g) (gvalues h)))"

definition global_changed_since :: "global \<Rightarrow> global \<Rightarrow> bool" where
  "global_changed_since g h \<longleftrightarrow>
     length (gvalues g) > length (gvalues h)
     \<or> list_ex (\<lambda>(l, r). l > r) (zip (gvalues g) (gvalues h))"

text \<open>\<open>iter\<close>: the timestamps of every index, the replica id being the index cast to
  \<open>u16\<close>; \<open>most_recent\<close> is \<open>Iterator::max_by_key\<close>, which keeps the last maximum.\<close>

definition global_iter :: "global \<Rightarrow> lamport list" where
  "global_iter g = map (\<lambda>(i, v). Lamport v (of_nat i)) (enumerate 0 (gvalues g))"

fun max_by_key :: "('a \<Rightarrow> 'b::linorder) \<Rightarrow> 'a list \<Rightarrow> 'a option" where
  "max_by_key f [] = None"
| "max_by_key f (x # xs) = Some (foldl (\<lambda>m y. if f m \<le> f y then y else m) x xs)"

definition most_recent :: "global \<Rightarrow> lamport option" where
  "most_recent g = max_by_key lvalue (global_iter g)"

definition global_from_iter :: "lamport list \<Rightarrow> global" where
  "global_from_iter ts = foldl global_observe global_new ts"

section \<open>The normal form of version vectors\<close>

text \<open>At most one entry per \<open>u16\<close> replica id and no trailing zero.\<close>

definition wf_global :: "global \<Rightarrow> bool" where
  "wf_global g \<longleftrightarrow> length (gvalues g) \<le> 2 ^ 16 \<and> (gvalues g \<noteq> [] \<longrightarrow> last (gvalues g) \<noteq> 0)"

definition nth0 :: "seq list \<Rightarrow> nat \<Rightarrow> seq" where
  "nth0 xs i = (if i < length xs then xs ! i else 0)"

lemma global_get_nth0: "global_get g r = nth0 (gvalues g) (unat r)"
  by (simp add: global_get_def nth_opt_def nth0_def)

lemma nth0_Cons [simp]: "nth0 (x # xs) i = (case i of 0 \<Rightarrow> x | Suc j \<Rightarrow> nth0 xs j)"
  by (simp add: nth0_def split: nat.splits)

lemma nth0_Nil [simp]: "nth0 [] i = 0"
  by (simp add: nth0_def)

lemma length_resize [simp]: "length (resize n d xs) = n"
  by (simp add: resize_def)

lemma nth0_resize: "length xs \<le> n \<Longrightarrow> nth0 (resize n 0 xs) i = nth0 xs i"
  by (auto simp: nth0_def resize_def nth_append)

lemma length_zip_update [simp]: "length (zip_update f xs ys) = length xs"
  by (induction f xs ys rule: zip_update.induct) auto

lemma nth0_out: "length xs \<le> i \<Longrightarrow> nth0 xs i = 0"
  by (simp add: nth0_def)

lemma nth0_zip_update:
  "length ys \<le> length xs \<Longrightarrow> (\<And>x. f x 0 = x) \<Longrightarrow>
   nth0 (zip_update f xs ys) i = (if i < length xs then f (nth0 xs i) (nth0 ys i) else 0)"
  by (induction f xs ys arbitrary: i rule: zip_update.induct)
     (auto split: nat.splits simp: nth0_out)

lemma replica_lt: "unat (r :: replica_id) < 2 ^ 16"
  using unsigned_less[of r] by simp

lemma unat_of_nat_replica: "i < 2 ^ 16 \<Longrightarrow> unat (of_nat i :: replica_id) = i"
  by (simp add: unat_of_nat take_bit_eq_mod)

lemma all_replica: "(\<forall>r :: replica_id. P (unat r)) \<longleftrightarrow> (\<forall>i < 2 ^ 16. P i)"
proof
  assume *: "\<forall>r :: replica_id. P (unat r)"
  show "\<forall>i < 2 ^ 16. P i"
  proof (intro allI impI)
    fix i :: nat assume "i < 2 ^ 16"
    then show "P i" using *[rule_format, of "of_nat i"] unat_of_nat_replica by simp
  qed
next
  assume "\<forall>i < 2 ^ 16. P i"
  then show "\<forall>r :: replica_id. P (unat r)" using replica_lt by blast
qed

lemma ex_replica: "(\<exists>r :: replica_id. P (unat r)) \<longleftrightarrow> (\<exists>i < 2 ^ 16. P i)"
  using all_replica[of "\<lambda>i. \<not> P i"] by blast

lemma wf_global_last:
  assumes "wf_global g" "gvalues g \<noteq> []"
  shows "nth0 (gvalues g) (length (gvalues g) - 1) \<noteq> 0"
  using assms by (simp add: wf_global_def nth0_def last_conv_nth)

text \<open>On normal forms a version vector is determined by its reads, so an equation between
  version vectors is a pointwise one.\<close>

lemma get_eq_nth0:
  assumes "length xs \<le> 2 ^ 16" "length ys \<le> 2 ^ 16"
    and "\<forall>r :: replica_id. nth0 xs (unat r) = nth0 ys (unat r)"
  shows "nth0 xs i = nth0 ys i"
proof (cases "i < 2 ^ 16")
  case True
  then show ?thesis using assms(3) unat_of_nat_replica[OF True] by metis
next
  case False
  then show ?thesis using assms(1,2) by (simp add: nth0_def)
qed

lemma length_le_of_reads:
  assumes g: "wf_global g" and h: "wf_global h"
    and nz: "\<And>r. global_get g r \<noteq> 0 \<Longrightarrow> global_get h r \<noteq> 0"
  shows "length (gvalues g) \<le> length (gvalues h)"
proof (cases "gvalues g = []")
  case False
  let ?i = "length (gvalues g) - 1"
  have i: "?i < 2 ^ 16" using g False by (cases "gvalues g") (auto simp: wf_global_def)
  have "global_get g (of_nat ?i) \<noteq> 0"
    using wf_global_last[OF g False] unat_of_nat_replica[OF i] by (simp add: global_get_nth0)
  then have "nth0 (gvalues h) ?i \<noteq> 0"
    using nz unat_of_nat_replica[OF i] by (metis global_get_nth0)
  then show ?thesis by (auto simp: nth0_def split: if_splits)
qed simp

lemma global_eqI:
  assumes g: "wf_global g" and h: "wf_global h" and eq: "\<And>r. global_get g r = global_get h r"
  shows "g = h"
proof -
  have len: "length (gvalues g) = length (gvalues h)"
    using length_le_of_reads[OF g h] length_le_of_reads[OF h g] eq by (metis le_antisym)
  have "nth0 (gvalues g) i = nth0 (gvalues h) i" for i
    using get_eq_nth0[of "gvalues g" "gvalues h"] g h eq
    by (simp add: wf_global_def global_get_nth0)
  then have "gvalues g = gvalues h"
    using len by (metis nth_equalityI nth0_def)
  then show ?thesis by simp
qed

section \<open>Operations on version vectors\<close>

lemma global_get_new [simp]: "global_get global_new r = 0"
  by (simp add: global_get_nth0 global_new_def)

lemma wf_global_new [simp]: "wf_global global_new"
  by (simp add: wf_global_def global_new_def)

lemma nth0_list_update: "i < length xs \<Longrightarrow> nth0 (xs[i := v]) j = (if j = i then v else nth0 xs j)"
  by (auto simp: nth0_def)

lemma global_get_observe:
  "global_get (global_observe g t) r =
     (if r = lreplica t then max (global_get g r) (lvalue t) else global_get g r)"
proof -
  have inj: "unat r = unat (lreplica t) \<longleftrightarrow> r = lreplica t"
    by (metis word_unat_eq_iff)
  let ?i = "unat (lreplica t)"
  let ?vs = "if ?i + 1 > length (gvalues g) then resize (?i + 1) 0 (gvalues g) else gvalues g"
  have len: "?i < length ?vs" by simp
  have n: "nth0 ?vs j = nth0 (gvalues g) j" for j by (simp add: nth0_resize)
  have "?vs ! ?i = nth0 (gvalues g) ?i" using n[of ?i] len by (simp add: nth0_def del: length_resize)
  then show ?thesis
    using n
    by (auto simp: global_get_nth0 global_observe_def Let_def nth0_list_update inj
          word_neq_0_conv not_less)
qed

lemma last_update_max:
  "i < length xs \<Longrightarrow> last xs \<noteq> 0 \<or> i = length xs - 1 \<Longrightarrow> 0 < v \<Longrightarrow>
   last (xs[i := max (xs ! i) (v :: seq)]) \<noteq> 0"
  by (cases "xs = []") (auto simp: last_list_update max_def word_neq_0_conv)

lemma wf_global_observe:
  assumes "wf_global g"
  shows "wf_global (global_observe g t)"
proof (cases "lvalue t > 0")
  case True
  have lt: "unat (lreplica t) < 2 ^ 16" by (rule replica_lt)
  show ?thesis
  proof (cases "unat (lreplica t) + 1 > length (gvalues g)")
    case True
    then show ?thesis using assms \<open>lvalue t > 0\<close> lt last_update_max
      by (auto simp: wf_global_def global_observe_def Let_def simp del: max_def)
  next
    case False
    then show ?thesis
      using assms \<open>lvalue t > 0\<close> lt
        last_update_max[of "unat (lreplica t)" "gvalues g" "lvalue t"]
      by (auto simp: wf_global_def global_observe_def Let_def)
  qed
qed (use assms in \<open>simp add: global_observe_def\<close>)

lemma global_get_join: "global_get (global_join g h) r = max (global_get g r) (global_get h r)"
proof -
  have "nth0 (gvalues (global_join g h)) i = max (nth0 (gvalues g) i) (nth0 (gvalues h) i)" for i
    by (auto simp: global_join_def Let_def nth0_zip_update nth0_resize)
       (auto simp: nth0_def)
  then show ?thesis by (simp add: global_get_nth0)
qed

lemma wf_global_join:
  assumes "wf_global g" "wf_global h"
  shows "wf_global (global_join g h)"
proof -
  let ?j = "global_join g h"
  have len: "length (gvalues ?j) = max (length (gvalues g)) (length (gvalues h))"
    by (auto simp: global_join_def Let_def)
  have nth: "nth0 (gvalues ?j) i = max (nth0 (gvalues g) i) (nth0 (gvalues h) i)" for i
    by (auto simp: global_join_def Let_def nth0_zip_update nth0_resize) (auto simp: nth0_out)
  have "last (gvalues ?j) \<noteq> 0" if "gvalues ?j \<noteq> []"
  proof -
    have "last (gvalues ?j) = nth0 (gvalues ?j) (length (gvalues ?j) - 1)"
      using that by (simp add: last_conv_nth nth0_def)
    moreover have "nth0 (gvalues ?j) (length (gvalues ?j) - 1) \<noteq> 0"
    proof (cases "length (gvalues h) \<le> length (gvalues g)")
      case True
      then show ?thesis
        using wf_global_last[OF assms(1)] that len unfolding nth
        by (metis list.size(3) length_0_conv max.absorb1 max.strict_coboundedI1 word_neq_0_conv)
    next
      case False
      then show ?thesis
        using wf_global_last[OF assms(2)] len unfolding nth
        by (metis linorder_le_cases list.size(3) max.absorb2 max.strict_coboundedI2 word_neq_0_conv
              le0)
    qed
    ultimately show ?thesis by simp
  qed
  then show ?thesis using assms len by (simp add: wf_global_def)
qed

lemma global_observed_all_iff:
  assumes "wf_global h" "length (gvalues g) \<le> 2 ^ 16"
  shows "global_observed_all g h \<longleftrightarrow> (\<forall>r. global_get h r \<le> global_get g r)"
proof (cases "length (gvalues g) < length (gvalues h)")
  case True
  let ?i = "length (gvalues h) - 1"
  have ne: "gvalues h \<noteq> []" using True by auto
  have i: "?i < 2 ^ 16" using assms(1) ne by (cases "gvalues h") (auto simp: wf_global_def)
  have "nth0 (gvalues h) ?i \<noteq> 0" by (rule wf_global_last[OF assms(1) ne])
  moreover have "nth0 (gvalues g) ?i = 0" using True by (simp add: nth0_out)
  ultimately have "\<not> global_get h (of_nat ?i) \<le> global_get g (of_nat ?i)"
    using unat_of_nat_replica[OF i] by (simp add: global_get_nth0 word_neq_0_conv not_le)
  then show ?thesis using True by (auto simp: global_observed_all_def)
next
  case False
  have "list_all (\<lambda>(l, r). r \<le> l) (zip (gvalues g) (gvalues h))
        \<longleftrightarrow> (\<forall>i < length (gvalues h). nth0 (gvalues h) i \<le> nth0 (gvalues g) i)"
    using False by (auto simp: list_all_length nth0_def)
  also have "\<dots> \<longleftrightarrow> (\<forall>i < 2 ^ 16. nth0 (gvalues h) i \<le> nth0 (gvalues g) i)"
    using False assms by (auto simp: nth0_def wf_global_def)
  also have "\<dots> \<longleftrightarrow> (\<forall>r. global_get h r \<le> global_get g r)"
    unfolding global_get_nth0 by (rule all_replica[symmetric])
  finally show ?thesis using False by (simp add: global_observed_all_def)
qed

lemma changed_since_not_observed_all:
  "global_changed_since g h \<longleftrightarrow> \<not> global_observed_all h g"
proof -
  have "list_ex (\<lambda>(l, r). r < l) (zip xs ys) \<longleftrightarrow> \<not> list_all (\<lambda>(l, r). r \<le> l) (zip ys xs)"
    for xs ys :: "seq list"
    by (induction xs ys rule: list_induct2') (simp_all add: not_le)
  then show ?thesis by (auto simp: global_changed_since_def global_observed_all_def)
qed

lemma global_observed_any_iff:
  assumes "length (gvalues g) \<le> 2 ^ 16" "length (gvalues h) \<le> 2 ^ 16"
  shows "global_observed_any g h \<longleftrightarrow> (\<exists>r. 0 < global_get h r \<and> global_get h r \<le> global_get g r)"
proof -
  let ?P = "\<lambda>i. 0 < nth0 (gvalues h) i \<and> nth0 (gvalues h) i \<le> nth0 (gvalues g) i"
  have "global_observed_any g h
        \<longleftrightarrow> (\<exists>i < min (length (gvalues g)) (length (gvalues h)). ?P i)"
    unfolding global_observed_any_def list_ex_length length_zip
    by (rule ex_cong1, rule conj_cong[OF refl]) (simp add: nth0_def)
  also have "\<dots> \<longleftrightarrow> (\<exists>i < 2 ^ 16. ?P i)"
  proof
    assume "\<exists>i < 2 ^ 16. ?P i"
    then obtain i where i: "?P i" by blast
    have "i < length (gvalues h)" using i nth0_out[of "gvalues h" i] by (metis not_le less_irrefl)
    moreover have "i < length (gvalues g)"
      using i nth0_out[of "gvalues g" i] by (metis not_le leD le_cases)
    ultimately show "\<exists>i < min (length (gvalues g)) (length (gvalues h)). ?P i"
      using i by (metis min_less_iff_conj)
  next
    assume "\<exists>i < min (length (gvalues g)) (length (gvalues h)). ?P i"
    then obtain i where i: "i < length (gvalues g)" "?P i" by (metis min_less_iff_conj)
    have "i < 2 ^ 16" using i(1) assms(1) by (rule less_le_trans)
    then show "\<exists>i < 2 ^ 16. ?P i" using i(2) by blast
  qed
  also have "\<dots> \<longleftrightarrow> (\<exists>r. 0 < global_get h r \<and> global_get h r \<le> global_get g r)"
    unfolding global_get_nth0 by (rule ex_replica[symmetric])
  finally show ?thesis .
qed

lemma nth0_meet_loop:
  "length ys \<le> length xs \<Longrightarrow>
   nth0 (fst (meet_loop ix xs ys n)) i =
     (if i < length ys then meet_entry (nth0 xs i) (nth0 ys i) else nth0 xs i)"
  by (induction ix xs ys n arbitrary: i rule: meet_loop.induct)
     (auto simp: Let_def nth0_out split: prod.splits nat.splits)

lemma length_meet_loop [simp]: "length (fst (meet_loop ix xs ys n)) = length xs"
  by (induction ix xs ys n rule: meet_loop.induct) (auto simp: Let_def split: prod.splits)

lemma meet_loop_len:
  "length xs = length ys \<Longrightarrow> meet_loop ix xs ys n = (r, n') \<Longrightarrow>
   (n' = n \<and> (\<forall>k. nth0 r k = 0))
   \<or> (\<exists>j. n' = ix + j + 1 \<and> nth0 r j \<noteq> 0 \<and> (\<forall>k > j. nth0 r k = 0))"
proof (induction ix xs ys n arbitrary: r n' rule: meet_loop.induct)
  case (1 ix x xs y ys n)
  let ?l = "meet_entry x y"
  let ?n = "if ?l \<noteq> 0 then ix + 1 else n"
  obtain r2 n2 where rec: "meet_loop (ix + 1) xs ys ?n = (r2, n2)" by fastforce
  then have r: "r = ?l # r2" and n': "n' = n2" using "1.prems" by (auto simp: Let_def)
  have "(n2 = ?n \<and> (\<forall>k. nth0 r2 k = 0))
        \<or> (\<exists>j. n2 = ix + 1 + j + 1 \<and> nth0 r2 j \<noteq> 0 \<and> (\<forall>k > j. nth0 r2 k = 0))"
    using "1.IH"[OF refl _ rec] "1.prems"(1) by simp
  then show ?case
  proof
    assume *: "n2 = ?n \<and> (\<forall>k. nth0 r2 k = 0)"
    show ?thesis
    proof (cases "?l = 0")
      case True
      then show ?thesis using * r n' by (simp split: nat.splits)
    next
      case False
      then have "n' = ix + 0 + 1 \<and> nth0 r 0 \<noteq> 0 \<and> (\<forall>k > 0. nth0 r k = 0)"
        using * r n' by (auto split: nat.splits)
      then show ?thesis by blast
    qed
  next
    assume "\<exists>j. n2 = ix + 1 + j + 1 \<and> nth0 r2 j \<noteq> 0 \<and> (\<forall>k > j. nth0 r2 k = 0)"
    then obtain j where j: "n2 = ix + 1 + j + 1" "nth0 r2 j \<noteq> 0" "\<forall>k > j. nth0 r2 k = 0" by blast
    then have "n' = ix + Suc j + 1 \<and> nth0 r (Suc j) \<noteq> 0 \<and> (\<forall>k > Suc j. nth0 r k = 0)"
      using r n' by (auto split: nat.splits)
    then show ?thesis by blast
  qed
qed auto

lemma meet_entry_0 [simp]: "meet_entry x 0 = x" "meet_entry 0 y = y"
  by (auto simp: meet_entry_def)

lemma nth0_take: "(\<forall>k \<ge> n. nth0 xs k = 0) \<Longrightarrow> nth0 (take n xs) i = nth0 xs i"
  by (auto simp: nth0_def not_less)

lemma nth0_meet:
  "nth0 (gvalues (global_meet g h)) i = meet_entry (nth0 (gvalues g) i) (nth0 (gvalues h) i)"
proof -
  let ?vs = "if length (gvalues h) > length (gvalues g)
             then resize (length (gvalues h)) 0 (gvalues g) else gvalues g"
  obtain ws n where m: "meet_loop 0 ?vs (gvalues h) 0 = (ws, n)" by fastforce
  have len: "length ws = length ?vs" using length_meet_loop[of 0 ?vs "gvalues h" 0] m by simp
  have ws: "nth0 ws i = meet_entry (nth0 (gvalues g) i) (nth0 (gvalues h) i)" for i
    using nth0_meet_loop[of "gvalues h" ?vs 0 0 i] m
    by (auto simp: nth0_resize nth0_out split: if_splits)
  show ?thesis
  proof (cases "length (gvalues h) = length ws")
    case True
    then have "length ?vs = length (gvalues h)" using len by simp
    from meet_loop_len[OF this m] have "\<forall>k \<ge> n. nth0 ws k = 0" by auto
    then show ?thesis using True m ws by (simp add: global_meet_def Let_def nth0_take)
  next
    case False
    then show ?thesis using m ws by (simp add: global_meet_def Let_def)
  qed
qed

lemma global_get_meet: "global_get (global_meet g h) r = meet_entry (global_get g r) (global_get h r)"
  by (simp add: global_get_nth0 nth0_meet)

lemma wf_global_meet:
  assumes g: "wf_global g" and h: "wf_global h"
  shows "wf_global (global_meet g h)"
proof -
  let ?vs = "if length (gvalues h) > length (gvalues g)
             then resize (length (gvalues h)) 0 (gvalues g) else gvalues g"
  obtain ws n where m: "meet_loop 0 ?vs (gvalues h) 0 = (ws, n)" by fastforce
  have len: "length ws = length ?vs" using length_meet_loop[of 0 ?vs "gvalues h" 0] m by simp
  show ?thesis
  proof (cases "length (gvalues h) = length ws")
    case True
    then have "length ?vs = length (gvalues h)" using len by simp
    from meet_loop_len[OF this m]
    have "n = 0 \<or> (n \<le> length ws \<and> ws ! (n - 1) \<noteq> 0 \<and> 0 < n)"
      by (auto simp: nth0_def split: if_splits)
    then show ?thesis using True m h
      by (auto simp: wf_global_def global_meet_def Let_def last_conv_nth min_def)
  next
    case False
    then have lt: "length (gvalues h) < length (gvalues g)" using len by (auto split: if_splits)
    have ne: "gvalues g \<noteq> []" using lt by auto
    have eq: "gvalues (global_meet g h) = ws" using False m by (simp add: global_meet_def Let_def)
    have "nth0 (gvalues h) (length (gvalues g) - 1) = 0" using lt by (simp add: nth0_out)
    then have "nth0 ws (length (gvalues g) - 1) \<noteq> 0"
      using nth0_meet[of g h] wf_global_last[OF g ne] by (simp add: eq)
    then show ?thesis using g len lt ne
      by (auto simp: wf_global_def eq nth0_def last_conv_nth split: if_splits)
  qed
qed

lemma wf_global_from_iter: "wf_global (global_from_iter ts)"
  unfolding global_from_iter_def by (induction ts rule: rev_induct) (auto intro: wf_global_observe)

lemma global_observed_observe:
  "global_observed (global_observe g t) u \<longleftrightarrow>
   global_observed g u \<or> (lreplica u = lreplica t \<and> lvalue u \<le> lvalue t)"
  by (auto simp: global_observed_def global_get_observe le_max_iff_disj)

lemma global_observed_join:
  "global_observed (global_join g h) u \<longleftrightarrow> global_observed g u \<or> global_observed h u"
  by (auto simp: global_observed_def global_get_join le_max_iff_disj)

lemma global_observed_all_observed:
  assumes "wf_global h" "wf_global g" "global_observed_all g h" "global_observed h t"
  shows "global_observed g t"
  using assms global_observed_all_iff[of h g]
  by (auto simp: global_observed_def wf_global_def intro: order_trans)

section \<open>The packed timestamp\<close>

lemma unat_as_u64: "unat (as_u64 t) = unat (lvalue t) * 2 ^ 32 + unat (lreplica t)"
proof -
  have d: "and (push_bit 32 (ucast (lvalue t) :: 64 word)) (ucast (lreplica t)) = 0"
    by (rule bit_eqI) (auto simp: bit_simps dest: bit_imp_le_length)
  have v: "unat (lvalue t) < 2 ^ 32" and r: "unat (lreplica t) < 2 ^ 16"
    using unsigned_less[of "lvalue t"] unsigned_less[of "lreplica t"] by simp_all
  have "as_u64 t = push_bit 32 (ucast (lvalue t)) + ucast (lreplica t)"
    unfolding as_u64_def using d by (simp add: disjunctive_add_eq_or)
  moreover have "unat (push_bit 32 (ucast (lvalue t) :: 64 word)) = unat (lvalue t) * 2 ^ 32"
    using v by (simp add: push_bit_eq_mult unat_word_ariths unsigned_ucast_eq take_bit_nat_eq_self)
  moreover have "unat (ucast (lreplica t) :: 64 word) = unat (lreplica t)"
    using r by (simp add: unsigned_ucast_eq take_bit_nat_eq_self)
  ultimately show ?thesis using v r by (simp add: unat_word_ariths)
qed

section \<open>Properties of the clock\<close>

lemma less_max_plus_one:
  assumes "max a b \<noteq> (- 1 :: seq)"
  shows "a < max a b + 1" "b < max a b + 1"
proof -
  have "1 + max a b \<noteq> 0" using assms by (metis add.commute add_eq_0_iff2)
  from unatSuc[OF this] have "max a b < max a b + 1"
    by (simp add: word_less_nat_alt add.commute)
  then show "a < max a b + 1" "b < max a b + 1" by (auto simp: max_def split: if_splits)
qed

text \<open>C14: observing a timestamp and ticking again gives a timestamp that is strictly later than
  both the observed one and every timestamp the local clock has issued, unless the 32-bit
  sequence number is exhausted.\<close>

theorem observe_then_tick_later:
  assumes "lvalue c \<noteq> - 1" "lvalue t \<noteq> - 1"
  shows "t < fst (tick (lamport_observe c t)) \<and> c < fst (tick (lamport_observe c t))
         \<and> lreplica (fst (tick (lamport_observe c t))) = lreplica c"
proof -
  have "max (lvalue c) (lvalue t) \<noteq> - 1" using assms by (simp add: max_def)
  from less_max_plus_one[OF this] show ?thesis
    by (simp add: tick_def lamport_observe_def less_lamport_def)
qed

theorem observe_then_tick_later_witness:
  "Lamport 7 2 < fst (tick (lamport_observe (Lamport 5 1) (Lamport 7 2)))"
  using observe_then_tick_later[of "Lamport 5 1" "Lamport 7 2"] by simp

text \<open>the packed 64-bit form of a timestamp orders timestamps exactly as \<open>Ord for Lamport\<close>
  does, so it can be used as a sort key.\<close>

theorem as_u64_order_embedding: "as_u64 s < as_u64 t \<longleftrightarrow> lamport_cmp s t = Less"
proof -
  have "unat (lreplica s) < 2 ^ 16" "unat (lreplica t) < 2 ^ 16" by (rule replica_lt)+
  then show ?thesis
    unfolding lamport_cmp_eq cmp_of_Less word_less_nat_alt unat_as_u64 less_lamport_def
      word_unat_eq_iff by auto
qed

text \<open>\<open>Global::join\<close> is the least upper bound of two version vectors in the order that
  \<open>observed_all\<close> decides, and keeps the normal form.\<close>

theorem join_least_upper_bound:
  assumes "wf_global g" "wf_global h"
  shows "wf_global (global_join g h) \<and> global_observed_all (global_join g h) g
    \<and> global_observed_all (global_join g h) h
    \<and> (\<forall>k. wf_global k \<and> global_observed_all k g \<and> global_observed_all k h
          \<longrightarrow> global_observed_all k (global_join g h))"
  using assms wf_global_join[OF assms]
  by (auto simp: global_observed_all_iff wf_global_def[of "global_join g h"] global_get_join
        dest: wf_global_def[THEN iffD1, THEN conjunct1])

theorem join_least_upper_bound_witness:
  "global_observed_all (global_join \<lparr>gvalues = [3, 1]\<rparr> \<lparr>gvalues = [2, 5, 4]\<rparr>) \<lparr>gvalues = [3, 1]\<rparr>"
  using join_least_upper_bound[of "\<lparr>gvalues = [3, 1]\<rparr>" "\<lparr>gvalues = [2, 5, 4]\<rparr>"]
  by (simp add: wf_global_def)

end
