(* ===== verification/SumTree.thy ===== *)
theory SumTree
  imports Prelude
begin

text \<open>
  The B+ tree of \<open>crates/sum_tree/src/sum_tree.rs\<close>. A node caches the summary of its
  subtree and the summaries of its children or items; \<open>ArrayVec\<close> fields have capacity
  \<open>2 * TREE_BASE\<close> and a push beyond it panics, which is \<open>None\<close> here, as are the \<open>unwrap\<close>
  of an empty child list, the \<open>unreachable!\<close> arms and an underflowing height difference.
  The \<open>Item\<close> and \<open>Summary\<close> traits are the record \<open>summary_ops\<close>, an argument of every
  operation (the summary's context \<open>cx\<close> is fixed in it); what an implementation of the
  traits promises is the locale \<open>summary_laws\<close>. \<open>Arc::make_mut\<close> and the cloning of nodes
  are value semantics. Heights are \<open>u8\<close> in the code and unbounded here.
\<close>

section \<open>Items, summaries and nodes\<close>

definition TREE_BASE :: nat where "TREE_BASE = 6"

abbreviation CAP :: nat where "CAP \<equiv> 2 * TREE_BASE"

record ('a, 's) summary_ops =
  sm_zero :: 's
  sm_add :: "'s \<Rightarrow> 's \<Rightarrow> 's"
  sm_item :: "'a \<Rightarrow> 's"

datatype bias = Left | Right

definition bias_invert :: "bias \<Rightarrow> bias" where
  "bias_invert b = (case b of Left \<Rightarrow> Right | Right \<Rightarrow> Left)"

datatype ('a, 's) stree =
    Internal nat 's "'s list" "('a, 's) stree list"
  | Leaf 's "'a list" "'s list"

fun is_leaf :: "('a, 's) stree \<Rightarrow> bool" where
  "is_leaf (Internal h s css cts) = False"
| "is_leaf (Leaf s xs xss) = True"

fun height :: "('a, 's) stree \<Rightarrow> nat" where
  "height (Internal h s css cts) = h"
| "height (Leaf s xs xss) = 0"

fun summary :: "('a, 's) stree \<Rightarrow> 's" where
  "summary (Internal h s css cts) = s"
| "summary (Leaf s xs xss) = s"

fun child_summaries :: "('a, 's) stree \<Rightarrow> 's list" where
  "child_summaries (Internal h s css cts) = css"
| "child_summaries (Leaf s xs xss) = xss"

fun child_trees :: "('a, 's) stree \<Rightarrow> ('a, 's) stree list option" where
  "child_trees (Internal h s css cts) = Some cts"
| "child_trees (Leaf s xs xss) = None"

fun leaf_items :: "('a, 's) stree \<Rightarrow> 'a list option" where
  "leaf_items (Leaf s xs xss) = Some xs"
| "leaf_items (Internal h s css cts) = None"

fun is_underflowing :: "('a, 's) stree \<Rightarrow> bool" where
  "is_underflowing (Internal h s css cts) = (length cts < TREE_BASE)"
| "is_underflowing (Leaf s xs xss) = (length xs < TREE_BASE)"

fun is_empty :: "('a, 's) stree \<Rightarrow> bool" where
  "is_empty (Internal h s css cts) = False"
| "is_empty (Leaf s xs xss) = (xs = [])"

text \<open>\<open>sum\<close>: the fold of a node's child summaries, from zero.\<close>

definition sums :: "('a, 's) summary_ops \<Rightarrow> 's list \<Rightarrow> 's" where
  "sums S ss = foldl (sm_add S) (sm_zero S) ss"

lemma sums_snoc: "sums S (ss @ [s]) = sm_add S (sums S ss) s"
  by (simp add: sums_def)

definition stree_new :: "('a, 's) summary_ops \<Rightarrow> ('a, 's) stree" where
  "stree_new S = Leaf (sm_zero S) [] []"

definition from_summary :: "'s \<Rightarrow> ('a, 's) stree" where
  "from_summary s = Leaf s [] []"

section \<open>Appending trees\<close>

text \<open>The end of both arms of \<open>push_tree_recursive\<close>: the node keeps everything when it fits
  and splits at the midpoint otherwise.\<close>

definition midpoint :: "nat \<Rightarrow> nat" where
  "midpoint n = (n + n mod 2) div 2"

definition push_children ::
  "('a, 's) summary_ops \<Rightarrow> nat \<Rightarrow> 's \<Rightarrow> 's list \<Rightarrow> ('a, 's) stree list \<Rightarrow> 's list
   \<Rightarrow> ('a, 's) stree list \<Rightarrow> (('a, 's) stree \<times> ('a, 's) stree option) option" where
  "push_children S h s css cts summaries_to_append trees_to_append =
     (let child_count = length cts + length trees_to_append in
      if child_count > CAP then do {
        let m = midpoint child_count;
        let all_summaries = css @ summaries_to_append;
        let all_trees = cts @ trees_to_append;
        left_summaries \<leftarrow> av_extend CAP [] (take m all_summaries);
        right_summaries \<leftarrow> av_extend CAP [] (drop m all_summaries);
        left_trees \<leftarrow> av_extend CAP [] (take m all_trees);
        right_trees \<leftarrow> av_extend CAP [] (drop m all_trees);
        Some (Internal h (sums S left_summaries) left_summaries left_trees,
              Some (Internal h (sums S right_summaries) right_summaries right_trees))
      } else do {
        css' \<leftarrow> av_extend CAP css summaries_to_append;
        cts' \<leftarrow> av_extend CAP cts trees_to_append;
        Some (Internal h s css' cts', None)
      })"

definition push_items ::
  "('a, 's) summary_ops \<Rightarrow> 's \<Rightarrow> 'a list \<Rightarrow> 's list \<Rightarrow> ('a, 's) stree
   \<Rightarrow> (('a, 's) stree \<times> ('a, 's) stree option) option" where
  "push_items S s xs xss other = do {
     other_items \<leftarrow> leaf_items other;
     let child_count = length xs + length other_items;
     if child_count > CAP then do {
       let m = midpoint child_count;
       let all_items = xs @ other_items;
       let all_summaries = xss @ child_summaries other;
       left_items \<leftarrow> av_extend CAP [] (take m all_items);
       right_items \<leftarrow> av_extend CAP [] (drop m all_items);
       left_summaries \<leftarrow> av_extend CAP [] (take m all_summaries);
       right_summaries \<leftarrow> av_extend CAP [] (drop m all_summaries);
       Some (Leaf (sums S left_summaries) left_items left_summaries,
             Some (Leaf (sums S right_summaries) right_items right_summaries))
     } else do {
       xs' \<leftarrow> av_extend CAP xs other_items;
       xss' \<leftarrow> av_extend CAP xss (child_summaries other);
       Some (Leaf (sm_add S s (summary other)) xs' xss', None)
     }
   }"

text \<open>\<open>push_tree_recursive\<close> returns the updated node and the node split off to its right.\<close>

function push_tree_recursive ::
  "('a, 's) summary_ops \<Rightarrow> ('a, 's) stree \<Rightarrow> ('a, 's) stree
   \<Rightarrow> (('a, 's) stree \<times> ('a, 's) stree option) option" where
  "push_tree_recursive S (Internal h s css cts) other = do {
     let s' = sm_add S s (summary other);
     height_delta \<leftarrow> csub h (height other);
     if height_delta = 0 then do {
       other_trees \<leftarrow> child_trees other;
       summaries_to_append \<leftarrow> av_extend CAP [] (child_summaries other);
       trees_to_append \<leftarrow> av_extend CAP [] other_trees;
       push_children S h s' css cts summaries_to_append trees_to_append
     } else if height_delta = 1 \<and> \<not> is_underflowing other then do {
       summaries_to_append \<leftarrow> av_push CAP [] (summary other);
       trees_to_append \<leftarrow> av_push CAP [] other;
       push_children S h s' css cts summaries_to_append trees_to_append
     } else do {
       last_child \<leftarrow> last_opt cts;
       (last_child', tree_to_append) \<leftarrow> push_tree_recursive S last_child other;
       _ \<leftarrow> last_opt css;
       let css' = butlast css @ [summary last_child'];
       let cts' = butlast cts @ [last_child'];
       case tree_to_append of
         None \<Rightarrow> push_children S h s' css' cts' [] []
       | Some split_tree \<Rightarrow> do {
           summaries_to_append \<leftarrow> av_push CAP [] (summary split_tree);
           trees_to_append \<leftarrow> av_push CAP [] split_tree;
           push_children S h s' css' cts' summaries_to_append trees_to_append
         }
     }
   }"
| "push_tree_recursive S (Leaf s xs xss) other = push_items S s xs xss other"
  by pat_completeness auto
termination
  by (relation "measure (\<lambda>(S, t, other). size t)")
     (auto dest!: last_opt_SomeD simp: less_Suc_eq_le trans_le_add2 size_le_size_list)

text \<open>\<open>merge_into_right\<close>: \<open>small\<close> and \<open>large\<close> at the same height; the result is the
  updated \<open>large\<close> and the node split off to its left.\<close>

fun merge_into_right ::
  "('a, 's) summary_ops \<Rightarrow> ('a, 's) stree \<Rightarrow> ('a, 's) stree
   \<Rightarrow> (('a, 's) stree \<times> ('a, 's) stree option) option" where
  "merge_into_right S (Internal hs ss scss scts) (Internal h s css cts) =
     (let total_child_count = length cts + length scts in
      if total_child_count \<le> CAP then do {
        all_trees \<leftarrow> av_extend CAP scts cts;
        all_summaries \<leftarrow> av_extend CAP scss css;
        Some (Internal h (sm_add S ss s) all_summaries all_trees, None)
      } else do {
        let m = (total_child_count + 1) div 2;
        left_trees \<leftarrow> av_extend CAP [] (take m (scts @ cts));
        cts' \<leftarrow> av_extend CAP [] (drop m (scts @ cts));
        left_summaries \<leftarrow> av_extend CAP [] (take m (scss @ css));
        css' \<leftarrow> av_extend CAP [] (drop m (scss @ css));
        Some (Internal h (sums S css') css' cts',
              Some (Internal h (sums S left_summaries) left_summaries left_trees))
      })"
| "merge_into_right S (Leaf ss sxs sxss) (Leaf s xs xss) =
     (let total_child_count = length sxs + length xs in
      if total_child_count \<le> CAP then do {
        all_items \<leftarrow> av_extend CAP sxs xs;
        all_summaries \<leftarrow> av_extend CAP sxss xss;
        Some (Leaf (sm_add S ss s) all_items all_summaries, None)
      } else do {
        let m = (total_child_count + 1) div 2;
        left_items \<leftarrow> av_extend CAP [] (take m (sxs @ xs));
        xs' \<leftarrow> av_extend CAP [] (drop m (sxs @ xs));
        left_summaries \<leftarrow> av_extend CAP [] (take m (sxss @ xss));
        xss' \<leftarrow> av_extend CAP [] (drop m (sxss @ xss));
        Some (Leaf (sums S xss') xs' xss',
              Some (Leaf (sums S left_summaries) left_items left_summaries))
      })"
| "merge_into_right S small large = None"

text \<open>The arm of \<open>append_large\<close> that inserts a node in front of the children.\<close>

definition prepend_child ::
  "('a, 's) summary_ops \<Rightarrow> nat \<Rightarrow> 's \<Rightarrow> 's list \<Rightarrow> ('a, 's) stree list \<Rightarrow> ('a, 's) stree
   \<Rightarrow> (('a, 's) stree \<times> ('a, 's) stree option) option" where
  "prepend_child S h s css cts tree =
     (if length cts < CAP then do {
        css' \<leftarrow> av_extend CAP [summary tree] css;
        cts' \<leftarrow> av_extend CAP [tree] cts;
        Some (Internal h s css' cts', None)
      } else do {
        new_child_summaries \<leftarrow> av_extend CAP [summary tree] (take TREE_BASE css);
        new_child_trees \<leftarrow> av_extend CAP [tree] (take TREE_BASE cts);
        let css' = drop TREE_BASE css;
        Some (Internal h (sums S css') css' (drop TREE_BASE cts),
              Some (Internal h (sums S new_child_summaries) new_child_summaries new_child_trees))
      })"

function append_large ::
  "('a, 's) summary_ops \<Rightarrow> ('a, 's) stree \<Rightarrow> ('a, 's) stree
   \<Rightarrow> (('a, 's) stree \<times> ('a, 's) stree option) option" where
  "append_large S small (Leaf s xs xss) =
     (if height small = 0 then
        if \<not> is_underflowing small then Some (Leaf s xs xss, Some small)
        else merge_into_right S small (Leaf s xs xss)
      else None)"
| "append_large S small (Internal h s css cts) =
     (if height small = h then
        if \<not> is_underflowing small then Some (Internal h s css cts, Some small)
        else merge_into_right S small (Internal h s css cts)
      else do {
        let s' = sm_add S (summary small) s;
        first \<leftarrow> first_opt cts;
        (first', res) \<leftarrow> append_large S small first;
        _ \<leftarrow> first_opt css;
        let css' = summary first' # tl css;
        let cts' = first' # tl cts;
        case res of
          None \<Rightarrow> Some (Internal h s' css' cts', None)
        | Some tree \<Rightarrow> prepend_child S h s' css' cts' tree
      })"
  by pat_completeness auto
termination
  by (relation "measure (\<lambda>(S, small, t). size t)")
     (auto dest!: first_opt_SomeD simp: less_Suc_eq_le trans_le_add2 size_le_size_list)

definition from_child_trees ::
  "('a, 's) summary_ops \<Rightarrow> ('a, 's) stree \<Rightarrow> ('a, 's) stree \<Rightarrow> ('a, 's) stree option" where
  "from_child_trees S left right = do {
     let h = height left + 1;
     css1 \<leftarrow> av_push CAP [] (summary left);
     css \<leftarrow> av_push CAP css1 (summary right);
     cts1 \<leftarrow> av_push CAP [] left;
     cts \<leftarrow> av_push CAP cts1 right;
     Some (Internal h (sums S css) css cts)
   }"

definition stree_append ::
  "('a, 's) summary_ops \<Rightarrow> ('a, 's) stree \<Rightarrow> ('a, 's) stree \<Rightarrow> ('a, 's) stree option" where
  "stree_append S self other =
     (if is_empty self then Some other
      else if \<not> is_leaf other \<or> leaf_items other \<noteq> Some [] then
        if height self < height other then do {
          (other', res) \<leftarrow> append_large S self other;
          case res of Some tree \<Rightarrow> from_child_trees S tree other' | None \<Rightarrow> Some other'
        } else do {
          (self', res) \<leftarrow> push_tree_recursive S self other;
          case res of Some split_tree \<Rightarrow> from_child_trees S self' split_tree
          | None \<Rightarrow> Some self'
        }
      else Some self)"

definition stree_push ::
  "('a, 's) summary_ops \<Rightarrow> ('a, 's) stree \<Rightarrow> 'a \<Rightarrow> ('a, 's) stree option" where
  "stree_push S self item = stree_append S self (Leaf (sm_item S item) [item] [sm_item S item])"

definition from_item :: "('a, 's) summary_ops \<Rightarrow> 'a \<Rightarrow> ('a, 's) stree option" where
  "from_item S item = stree_push S (stree_new S) item"

section \<open>Contents and well-formedness\<close>

fun tree_items :: "('a, 's) stree \<Rightarrow> 'a list" where
  "tree_items (Internal h s css cts) = concat (map tree_items cts)"
| "tree_items (Leaf s xs xss) = xs"

definition sumof :: "('a, 's) summary_ops \<Rightarrow> 'a list \<Rightarrow> 's" where
  "sumof S xs = sums S (map (sm_item S) xs)"

text \<open>A node below the root (or a non-empty root): at least one child or item, at most
  \<open>CAP\<close>, uniform height, and all cached summaries up to date.\<close>

fun wf_node :: "('a, 's) summary_ops \<Rightarrow> ('a, 's) stree \<Rightarrow> bool" where
  "wf_node S (Internal h s css cts) \<longleftrightarrow>
     cts \<noteq> [] \<and> length cts \<le> CAP \<and> css = map summary cts \<and>
     s = sumof S (concat (map tree_items cts)) \<and>
     (\<forall>t \<in> set cts. wf_node S t \<and> h = Suc (height t))"
| "wf_node S (Leaf s xs xss) \<longleftrightarrow>
     xs \<noteq> [] \<and> length xs \<le> CAP \<and> xss = map (sm_item S) xs \<and> s = sumof S xs"

definition wf_tree :: "('a, 's) summary_ops \<Rightarrow> ('a, 's) stree \<Rightarrow> bool" where
  "wf_tree S t \<longleftrightarrow> t = stree_new S \<or> wf_node S t"

definition wf_kids :: "('a, 's) summary_ops \<Rightarrow> nat \<Rightarrow> ('a, 's) stree list \<Rightarrow> bool" where
  "wf_kids S k cts \<longleftrightarrow> (\<forall>t \<in> set cts. wf_node S t \<and> height t = k)"

lemma wf_kids_simps [simp]:
  "wf_kids S k []"
  "wf_kids S k (t # ts) \<longleftrightarrow> wf_node S t \<and> height t = k \<and> wf_kids S k ts"
  "wf_kids S k (ts @ us) \<longleftrightarrow> wf_kids S k ts \<and> wf_kids S k us"
  by (auto simp: wf_kids_def)

lemma wf_kids_take_drop: "wf_kids S k ts \<Longrightarrow> wf_kids S k (take n ts) \<and> wf_kids S k (drop n ts)"
  by (auto simp: wf_kids_def dest: in_set_takeD in_set_dropD)

lemma wf_node_Internal:
  "wf_node S (Internal h s css cts) \<longleftrightarrow>
     cts \<noteq> [] \<and> length cts \<le> CAP \<and> css = map summary cts \<and>
     s = sumof S (concat (map tree_items cts)) \<and> h \<noteq> 0 \<and> wf_kids S (h - 1) cts"
  by (cases h; cases cts) (auto simp: wf_kids_def)

lemma wf_node_items: "wf_node S t \<Longrightarrow> tree_items t \<noteq> []"
proof (induction t)
  case (Internal h s css cts)
  then show ?case by (cases cts) auto
qed simp

lemma wf_node_summary: "wf_node S t \<Longrightarrow> summary t = sumof S (tree_items t)"
  by (cases t) auto

lemma wf_node_height0: "wf_node S t \<Longrightarrow> height t = 0 \<longleftrightarrow> is_leaf t"
  by (cases t) (auto simp: wf_node_Internal simp del: wf_node.simps(1))

lemma wf_node_not_empty: "wf_node S t \<Longrightarrow> \<not> is_empty t"
  by (cases t) auto

lemma wf_tree_items_empty: "wf_tree S t \<Longrightarrow> tree_items t = [] \<longleftrightarrow> t = stree_new S"
  by (auto simp: wf_tree_def stree_new_def wf_node_items)

lemma wf_tree_is_empty: "wf_tree S t \<Longrightarrow> is_empty t \<longleftrightarrow> tree_items t = []"
  by (auto simp: wf_tree_def stree_new_def wf_node_items wf_node_not_empty)

lemma wf_tree_new [simp]: "wf_tree S (stree_new S)"
  by (simp add: wf_tree_def)

lemma tree_items_new [simp]: "tree_items (stree_new S) = []"
  by (simp add: stree_new_def)

lemma wf_tree_summary: "wf_tree S t \<Longrightarrow> summary t = sumof S (tree_items t)"
  by (auto simp: wf_tree_def stree_new_def sumof_def sums_def wf_node_summary)

lemma av_push_Nil [simp]: "av_push CAP [] x = Some [x]"
  by (simp add: av_push_def TREE_BASE_def)

lemma CAP_pos [simp]: "0 < TREE_BASE" "0 < CAP" "TREE_BASE \<noteq> 0" "TREE_BASE \<le> CAP" "1 < CAP" "Suc 0 < CAP"
  by (simp_all add: TREE_BASE_def)

text \<open>The result of an operation that may split a node: the contents are in the node and
  the node split off to its right (or, for the left variant, to its left).\<close>

definition split_right ::
  "('a, 's) summary_ops \<Rightarrow> nat \<Rightarrow> 'a list \<Rightarrow> ('a, 's) stree \<times> ('a, 's) stree option \<Rightarrow> bool" where
  "split_right S h xs r \<longleftrightarrow> wf_node S (fst r) \<and> height (fst r) = h \<and>
     (case snd r of None \<Rightarrow> tree_items (fst r) = xs
      | Some u \<Rightarrow> wf_node S u \<and> height u = h \<and> tree_items (fst r) @ tree_items u = xs)"

definition split_left ::
  "('a, 's) summary_ops \<Rightarrow> nat \<Rightarrow> 'a list \<Rightarrow> ('a, 's) stree \<times> ('a, 's) stree option \<Rightarrow> bool" where
  "split_left S h xs r \<longleftrightarrow> wf_node S (fst r) \<and> height (fst r) = h \<and>
     (case snd r of None \<Rightarrow> tree_items (fst r) = xs
      | Some u \<Rightarrow> wf_node S u \<and> height u = h \<and> tree_items u @ tree_items (fst r) = xs)"

section \<open>The contract of summaries\<close>

text \<open>
  What the tree relies on: over the item sequences of interest (\<open>ok\<close>, closed under
  taking parts), the summary of a concatenation is the sum of the summaries. Adding an
  empty sequence on the right is not required to be neutral, because for the key
  summaries (where adding overwrites) it is not, and the tree never does it.
\<close>

locale summary_laws =
  fixes S :: "('a, 's) summary_ops" and ok :: "'a list \<Rightarrow> bool"
  assumes ok_append: "ok (xs @ ys) \<Longrightarrow> ok xs \<and> ok ys"
    and sum_append:
      "ok (xs @ ys) \<Longrightarrow> ys \<noteq> [] \<Longrightarrow> sm_add S (sumof S xs) (sumof S ys) = sumof S (xs @ ys)"
    and zero_item: "ok [x] \<Longrightarrow> sm_add S (sm_zero S) (sm_item S x) = sm_item S x"

context summary_laws
begin

lemma ok_appendD1: "ok (xs @ ys) \<Longrightarrow> ok xs"
  and ok_appendD2: "ok (xs @ ys) \<Longrightarrow> ok ys"
  using ok_append by blast+

lemma sums_children:
  assumes "wf_kids S k cts" "ok (concat (map tree_items cts))"
  shows "sums S (map summary cts) = sumof S (concat (map tree_items cts))"
  using assms
proof (induction cts rule: rev_induct)
  case Nil
  then show ?case by (simp add: sumof_def)
next
  case (snoc c cts)
  have "sums S (map summary (cts @ [c])) = sm_add S (sums S (map summary cts)) (summary c)"
    by (simp add: sums_def)
  also have "\<dots> = sm_add S (sumof S (concat (map tree_items cts))) (sumof S (tree_items c))"
    using snoc by (simp add: wf_node_summary[of S] ok_appendD1)
  also have "\<dots> = sumof S (concat (map tree_items (cts @ [c])))"
    using snoc.prems sum_append[of "concat (map tree_items cts)" "tree_items c"]
    by (simp add: wf_node_items[of S])
  finally show ?case .
qed

lemma wf_node_of_children:
  assumes "wf_kids S k cts" "cts \<noteq> []" "length cts \<le> CAP" "ok (concat (map tree_items cts))"
  shows "wf_node S (Internal (Suc k) (sums S (map summary cts)) (map summary cts) cts)"
  using assms sums_children[OF assms(1,4)]
  by (simp add: wf_node_Internal del: wf_node.simps(1))

lemma wf_leaf_of_items:
  "xs \<noteq> [] \<Longrightarrow> length xs \<le> CAP \<Longrightarrow>
   wf_node S (Leaf (sums S (map (sm_item S) xs)) xs (map (sm_item S) xs))"
  by (simp add: sumof_def)

lemma midpoint_bounds:
  assumes "CAP < n" "n \<le> 2 * CAP"
  shows "0 < midpoint n" "midpoint n < n" "midpoint n \<le> CAP" "n - midpoint n \<le> CAP"
  using assms by (auto simp: midpoint_def TREE_BASE_def)

lemma ceil_half_bounds:
  assumes "CAP < n" "n \<le> 2 * CAP"
  shows "0 < (n + 1) div 2" "(n + 1) div 2 < n" "(n + 1) div 2 \<le> CAP" "n - (n + 1) div 2 \<le> CAP"
  using assms by (auto simp: TREE_BASE_def)

text \<open>Splitting a sequence of children (or items) in two gives two well-formed nodes.\<close>

lemma split_children:
  assumes kids: "wf_kids S k cts" and ok: "ok (concat (map tree_items cts))"
    and n: "0 < m" "m < length cts" "m \<le> CAP" "length cts - m \<le> CAP"
    and l: "ls = map summary (take m cts)" and r: "rs = map summary (drop m cts)"
  shows "wf_node S (Internal (Suc k) (sums S ls) ls (take m cts))"
    and "wf_node S (Internal (Suc k) (sums S rs) rs (drop m cts))"
proof -
  have "concat (map tree_items cts)
        = concat (map tree_items (take m cts)) @ concat (map tree_items (drop m cts))"
    by (metis append_take_drop_id concat_append map_append)
  then have oks: "ok (concat (map tree_items (take m cts)))" "ok (concat (map tree_items (drop m cts)))"
    using ok ok_appendD1 ok_appendD2 by metis+
  show "wf_node S (Internal (Suc k) (sums S ls) ls (take m cts))"
    unfolding l using wf_kids_take_drop[OF kids] n oks by (intro wf_node_of_children) auto
  show "wf_node S (Internal (Suc k) (sums S rs) rs (drop m cts))"
    unfolding r using wf_kids_take_drop[OF kids] n oks by (intro wf_node_of_children) auto
qed

lemma concat_take_drop_items:
  "concat (map tree_items (take m cts)) @ concat (map tree_items (drop m cts))
   = concat (map tree_items cts)"
  by (metis append_take_drop_id concat_append map_append)

lemma push_children_ok:
  assumes "wf_kids S k (cts @ ta)" "ok (concat (map tree_items (cts @ ta)))"
    and "cts \<noteq> []" "length cts \<le> CAP" "length ta \<le> CAP"
    and "s = sumof S (concat (map tree_items (cts @ ta)))"
  shows "\<exists>r. push_children S (Suc k) s (map summary cts) cts (map summary ta) ta = Some r
           \<and> split_right S (Suc k) (concat (map tree_items (cts @ ta))) r"
proof (cases "length cts + length ta > CAP")
  case True
  let ?n = "length (cts @ ta)"
  have m: "0 < midpoint ?n" "midpoint ?n < ?n" "midpoint ?n \<le> CAP" "?n - midpoint ?n \<le> CAP"
    using midpoint_bounds[of ?n] True assms(4,5) by auto
  note nodes = split_children[OF assms(1,2) m refl refl]
  have "split_right S (Suc k) (concat (map tree_items (cts @ ta)))
    (Internal (Suc k) (sums S (take (midpoint ?n) (map summary cts @ map summary ta)))
       (take (midpoint ?n) (map summary cts @ map summary ta)) (take (midpoint ?n) (cts @ ta)),
     Some (Internal (Suc k) (sums S (drop (midpoint ?n) (map summary cts @ map summary ta)))
       (drop (midpoint ?n) (map summary cts @ map summary ta)) (drop (midpoint ?n) (cts @ ta))))"
    using nodes unfolding split_right_def
    by (simp add: take_map drop_map concat_take_drop_items
          flip: map_append concat_append del: wf_node.simps take_append drop_append)
  moreover have "push_children S (Suc k) s (map summary cts) cts (map summary ta) ta =
    Some (Internal (Suc k) (sums S (take (midpoint ?n) (map summary cts @ map summary ta)))
       (take (midpoint ?n) (map summary cts @ map summary ta)) (take (midpoint ?n) (cts @ ta)),
     Some (Internal (Suc k) (sums S (drop (midpoint ?n) (map summary cts @ map summary ta)))
       (drop (midpoint ?n) (map summary cts @ map summary ta)) (drop (midpoint ?n) (cts @ ta))))"
    using True m unfolding push_children_def Let_def
    by (simp add: checked_simps del: take_append drop_append)
  ultimately show ?thesis by blast
next
  case False
  have "wf_node S (Internal (Suc k) s (map summary (cts @ ta)) (cts @ ta))"
    using assms False by (simp add: wf_node_Internal del: wf_node.simps(1))
  then show ?thesis
    using False by (simp add: push_children_def checked_simps split_right_def)
qed

lemma split_items:
  assumes "0 < m" "m < length xs" "m \<le> CAP" "length xs - m \<le> CAP"
    and "ls = map (sm_item S) (take m xs)" "rs = map (sm_item S) (drop m xs)"
  shows "wf_node S (Leaf (sums S ls) (take m xs) ls)" "wf_node S (Leaf (sums S rs) (drop m xs) rs)"
  using assms by (auto simp: sumof_def)

lemma push_items_ok:
  assumes "wf_node S (Leaf s xs xss)" "wf_node S (Leaf os ys yss)" "ok (xs @ ys)"
  shows "\<exists>r. push_items S s xs xss (Leaf os ys yss) = Some r \<and> split_right S 0 (xs @ ys) r"
proof (cases "length xs + length ys > CAP")
  case True
  let ?n = "length (xs @ ys)"
  have m: "0 < midpoint ?n" "midpoint ?n < ?n" "midpoint ?n \<le> CAP" "?n - midpoint ?n \<le> CAP"
    using midpoint_bounds[of ?n] True assms(1,2) by auto
  note nodes = split_items[OF m refl refl]
  have maps: "xss = map (sm_item S) xs" "yss = map (sm_item S) ys" using assms(1,2) by simp_all
  show ?thesis
    using True m nodes unfolding push_items_def Let_def maps
    by (simp add: checked_simps split_right_def take_map drop_map flip: map_append
          del: take_append drop_append wf_node.simps)
next
  case False
  then show ?thesis
    using assms sum_append[of xs ys] by (auto simp: push_items_def checked_simps split_right_def)
qed

lemma wf_leaf_cases:
  assumes "wf_node S t" "height t = 0"
  obtains s xs xss where "t = Leaf s xs xss"
  using assms wf_node_height0[of S t] by (cases t) auto

lemma last_child_items:
  "cts \<noteq> [] \<Longrightarrow>
   concat (map tree_items cts) = concat (map tree_items (butlast cts)) @ tree_items (last cts)"
  by (rule concat_map_butlast_last)

lemma push_tree_recursive_ok:
  "wf_node S t \<Longrightarrow> wf_node S other \<Longrightarrow> height other \<le> height t \<Longrightarrow>
   ok (tree_items t @ tree_items other) \<Longrightarrow>
   \<exists>r. push_tree_recursive S t other = Some r
       \<and> split_right S (height t) (tree_items t @ tree_items other) r"
proof (induction t)
  case (Leaf s xs xss)
  then obtain os ys yss where "other = Leaf os ys yss" by (metis height.simps(2) le_zero_eq wf_leaf_cases)
  then show ?case using Leaf push_items_ok[of s xs xss os ys yss] by simp
next
  case (Internal h s css cts)
  let ?xs = "concat (map tree_items cts)"
  obtain k where h: "h = Suc k" and kids: "wf_kids S k cts" and ne: "cts \<noteq> []"
    and cap: "length cts \<le> CAP" and css: "css = map summary cts" and s: "s = sumof S ?xs"
    using Internal.prems(1) by (cases h) (auto simp: wf_node_Internal simp del: wf_node.simps)
  have ok: "ok (?xs @ tree_items other)" using Internal.prems(4) by simp
  have s': "sm_add S s (summary other) = sumof S (?xs @ tree_items other)"
    using sum_append[OF ok wf_node_items[OF Internal.prems(2)]] s
      wf_node_summary[OF Internal.prems(2)] by simp
  have le: "height other \<le> Suc k" using Internal.prems(3) h by simp
  consider (same) "height other = Suc k"
    | (one) "height other = k" "\<not> is_underflowing other"
    | (deep) "height other \<le> k" "height other \<noteq> k \<or> is_underflowing other"
    using le by linarith
  then show ?case
  proof cases
    case same
    then obtain os oss ots where other: "other = Internal (Suc k) os oss ots"
      by (cases other) auto
    have o: "wf_kids S k ots" "length ots \<le> CAP" "oss = map summary ots"
      using Internal.prems(2) unfolding other by (simp_all add: wf_node_Internal del: wf_node.simps)
    then show ?thesis
      using push_children_ok[of k cts ots "sumof S (?xs @ tree_items other)"] kids ne cap ok s'
      by (simp add: h other css csub_def checked_simps)
  next
    case one
    have "\<exists>r. push_children S (Suc k) (sumof S (?xs @ tree_items other)) css cts
            (map summary [other]) [other] = Some r
          \<and> split_right S (Suc k) (concat (map tree_items (cts @ [other]))) r"
      unfolding css using kids one Internal.prems(2) ok ne cap
      by (intro push_children_ok) (auto simp: TREE_BASE_def)
    then show ?thesis using one s' by (simp add: h csub_def checked_simps)
  next
    case deep
    let ?l = "last cts" and ?b = "concat (map tree_items (butlast cts))"
    have xs: "?xs = ?b @ tree_items ?l" by (rule last_child_items[OF ne])
    have l: "wf_node S ?l" "height ?l = k" and b: "wf_kids S k (butlast cts)"
      using kids ne by (auto simp: wf_kids_def dest: in_set_butlastD)
    have okl: "ok (tree_items ?l @ tree_items other)" using ok xs ok_appendD2 by simp
    from Internal.IH[of ?l] obtain r where r: "push_tree_recursive S ?l other = Some r"
      and sr: "split_right S k (tree_items ?l @ tree_items other) r"
      using l okl deep(1) ne Internal.prems(2) by auto
    obtain t' u where rr: "r = (t', u)" by fastforce
    have len: "length (butlast cts @ [t']) = length cts" using ne by simp
    have lo: "last_opt cts = Some ?l" "last_opt css = Some (last css)"
      using ne by (simp_all add: checked_simps css)
    have dl: "csub (Suc k) (height other) = Some (Suc k - height other)" using le by (simp add: csub_def)
    have d0: "Suc k - height other \<noteq> 0" using deep(1) by simp
    have d1: "\<not> (Suc k - height other = 1 \<and> \<not> is_underflowing other)" using deep by auto
    show ?thesis
    proof (cases u)
      case None
      have st: "wf_node S t'" "height t' = k" "tree_items t' = tree_items ?l @ tree_items other"
        using sr by (simp_all add: rr None split_right_def)
      have eq: "concat (map tree_items ((butlast cts @ [t']) @ [])) = ?xs @ tree_items other"
        using st(3) xs by simp
      have "push_tree_recursive S (Internal h s css cts) other
        = push_children S (Suc k) (sumof S (?xs @ tree_items other))
            (map summary (butlast cts @ [t'])) (butlast cts @ [t']) (map summary []) []"
        using d0 d1 lo by (auto simp add: h dl r rr None css map_butlast s' Let_def)
      then show ?thesis
        using push_children_ok[of k "butlast cts @ [t']" "[]" "sumof S (?xs @ tree_items other)"]
          st b len cap ok unfolding eq by (simp add: h)
    next
      case (Some v)
      have sv: "wf_node S t'" "height t' = k" "wf_node S v" "height v = k"
        "tree_items t' @ tree_items v = tree_items ?l @ tree_items other"
        using sr by (simp_all add: rr Some split_right_def)
      have eq: "concat (map tree_items ((butlast cts @ [t']) @ [v])) = ?xs @ tree_items other"
        using sv(5) xs by simp
      have "\<exists>r. push_children S (Suc k) (sumof S (?xs @ tree_items other))
              (map summary (butlast cts @ [t'])) (butlast cts @ [t']) (map summary [v]) [v] = Some r
            \<and> split_right S (Suc k) (concat (map tree_items ((butlast cts @ [t']) @ [v]))) r"
        using sv b len cap ok
        by (intro push_children_ok) (auto simp: eq[simplified] xs TREE_BASE_def)
      moreover have "push_tree_recursive S (Internal h s css cts) other
        = push_children S (Suc k) (sumof S (?xs @ tree_items other))
            (map summary (butlast cts @ [t'])) (butlast cts @ [t']) (map summary [v]) [v]"
        using d0 d1 lo by (auto simp add: h dl r rr Some css map_butlast s' Let_def)
      ultimately show ?thesis unfolding eq by (simp add: h)
    qed
  qed
qed

lemma merge_into_right_ok:
  assumes "wf_node S a" "wf_node S b" "height a = height b" "ok (tree_items a @ tree_items b)"
  shows "\<exists>r. merge_into_right S a b = Some r
           \<and> split_left S (height b) (tree_items a @ tree_items b) r"
proof (cases b)
  case (Leaf s xs xss)
  then obtain ss sxs sxss where a: "a = Leaf ss sxs sxss" using assms by (metis height.simps(2) wf_leaf_cases)
  have maps: "xss = map (sm_item S) xs" "sxss = map (sm_item S) sxs" "ss = sumof S sxs" "s = sumof S xs"
    "xs \<noteq> []" "length xs \<le> CAP" "length sxs \<le> CAP"
    using assms(1,2) a Leaf by simp_all
  show ?thesis
  proof (cases "length xs + length sxs \<le> CAP")
    case True
    then show ?thesis using maps sum_append[of sxs xs] assms(4)
      by (auto simp: a Leaf Let_def checked_simps split_left_def)
  next
    case False
    let ?n = "length (sxs @ xs)"
    have m: "0 < (?n + 1) div 2" "(?n + 1) div 2 < ?n" "(?n + 1) div 2 \<le> CAP"
      "?n - (?n + 1) div 2 \<le> CAP"
      using ceil_half_bounds[of ?n] False maps by auto
    show ?thesis using False m split_items[OF m refl refl]
      by (simp add: a Leaf Let_def maps(1,2) checked_simps split_left_def take_map drop_map
            add.commute flip: map_append del: take_append drop_append wf_node.simps)
  qed
next
  case (Internal h s css cts)
  obtain ss scss scts where a: "a = Internal h ss scss scts"
  proof (cases a)
    case (Internal hs ss scss scts)
    then show ?thesis using assms(3) \<open>b = Internal h s css cts\<close> that by simp
  next
    case (Leaf x2 y2 z2)
    then show ?thesis using assms(2,3) \<open>b = Internal h s css cts\<close>
      by (simp add: wf_node_Internal del: wf_node.simps)
  qed
  obtain k where k: "h = Suc k" and b: "wf_kids S k cts" "length cts \<le> CAP" "css = map summary cts"
    "s = sumof S (concat (map tree_items cts))" "cts \<noteq> []"
    using assms(2) Internal by (cases h) (simp_all add: wf_node_Internal del: wf_node.simps)
  have a': "wf_kids S k scts" "length scts \<le> CAP" "scss = map summary scts"
    "ss = sumof S (concat (map tree_items scts))" "scts \<noteq> []"
    using assms(1) a k by (simp_all add: wf_node_Internal del: wf_node.simps)
  have kids: "wf_kids S k (scts @ cts)" using a' b by simp
  have ok: "ok (concat (map tree_items (scts @ cts)))" using assms(4) a Internal by simp
  show ?thesis
  proof (cases "length cts + length scts \<le> CAP")
    case True
    have "concat (map tree_items cts) \<noteq> []"
      using wf_node_items[OF assms(2)] Internal by simp
    then have "sm_add S ss s = sumof S (concat (map tree_items (scts @ cts)))"
      using sum_append ok a'(4) b(4) by simp
    moreover have "wf_node S (Internal h (sumof S (concat (map tree_items (scts @ cts))))
        (map summary (scts @ cts)) (scts @ cts))"
      using True kids a'(5) k by (simp add: wf_node_Internal del: wf_node.simps)
    ultimately show ?thesis using True a' b
      by (simp add: a Internal Let_def checked_simps split_left_def del: wf_node.simps)
  next
    case False
    let ?n = "length (scts @ cts)"
    have m: "0 < (?n + 1) div 2" "(?n + 1) div 2 < ?n" "(?n + 1) div 2 \<le> CAP"
      "?n - (?n + 1) div 2 \<le> CAP"
      using ceil_half_bounds[of ?n] False a'(2) b(2) by auto
    show ?thesis using False m split_children[OF kids ok m refl refl]
      by (simp add: a Internal k Let_def a'(3) b(3) checked_simps split_left_def take_map drop_map
            add.commute concat_take_drop_items flip: map_append concat_append
            del: take_append drop_append wf_node.simps)
  qed
qed

lemma prepend_child_ok:
  assumes "wf_kids S k (tree # cts)" "cts \<noteq> []" "length cts \<le> CAP"
    and "ok (concat (map tree_items (tree # cts)))"
    and "s = sumof S (concat (map tree_items (tree # cts)))"
  shows "\<exists>r. prepend_child S (Suc k) s (map summary cts) cts tree = Some r
           \<and> split_left S (Suc k) (concat (map tree_items (tree # cts))) r"
proof (cases "length cts < CAP")
  case True
  have "wf_node S (Internal (Suc k) s (map summary (tree # cts)) (tree # cts))"
    using assms True by (simp add: wf_node_Internal del: wf_node.simps)
  then show ?thesis using True
    by (simp add: prepend_child_def checked_simps split_left_def del: wf_node.simps)
next
  case False
  then have len: "length cts = CAP" using assms(3) by simp
  have m: "0 < TREE_BASE + 1" "TREE_BASE + 1 < length (tree # cts)" "TREE_BASE + 1 \<le> CAP"
    "length (tree # cts) - (TREE_BASE + 1) \<le> CAP"
    using len by (auto simp: TREE_BASE_def)
  note sc = split_children[OF assms(1,4) m refl refl]
  have cat: "concat (map tree_items (tree # take TREE_BASE cts))
      @ concat (map tree_items (drop TREE_BASE cts)) = concat (map tree_items (tree # cts))"
    using concat_take_drop_items[of TREE_BASE cts] by simp
  show ?thesis using sc False m(3) cat len
    by (simp add: prepend_child_def Let_def checked_simps split_left_def take_map drop_map
          del: wf_node.simps)
qed

lemma append_large_ok:
  "wf_node S small \<Longrightarrow> wf_node S t \<Longrightarrow> height small \<le> height t \<Longrightarrow>
   ok (tree_items small @ tree_items t) \<Longrightarrow>
   \<exists>r. append_large S small t = Some r
       \<and> split_left S (height t) (tree_items small @ tree_items t) r"
proof (induction t)
  case (Leaf s xs xss)
  show ?case
  proof (cases "is_underflowing small")
    case True
    then show ?thesis using Leaf merge_into_right_ok[of small "Leaf s xs xss"] by simp
  next
    case False
    then show ?thesis using Leaf by (simp add: split_left_def)
  qed
next
  case (Internal h s css cts)
  let ?t = "Internal h s css cts"
  show ?case
  proof (cases "height small = h")
    case same: True
    show ?thesis
    proof (cases "is_underflowing small")
      case True
      then show ?thesis using Internal.prems same merge_into_right_ok[of small ?t] by simp
    next
      case False
      then show ?thesis using Internal.prems same by (simp add: split_left_def)
    qed
  next
    case False
    obtain k where h: "h = Suc k" and kids: "wf_kids S k cts" and ne: "cts \<noteq> []"
      and cap: "length cts \<le> CAP" and css: "css = map summary cts"
      and s: "s = sumof S (concat (map tree_items cts))"
      using Internal.prems(2) by (cases h) (auto simp: wf_node_Internal simp del: wf_node.simps)
    let ?r = "concat (map tree_items (tl cts))"
    have xs: "concat (map tree_items cts) = tree_items (hd cts) @ ?r"
      by (rule concat_map_hd_tl[OF ne])
    have ok: "ok (tree_items small @ tree_items (hd cts) @ ?r)" using Internal.prems(4) xs by simp
    have okf: "ok (tree_items small @ tree_items (hd cts))" using ok ok_appendD1 by (metis append_assoc)
    have f: "wf_node S (hd cts)" "height (hd cts) = k" and tl: "wf_kids S k (tl cts)"
      using kids ne by (auto simp: wf_kids_def dest: list.set_sel(2))
    have "height small \<le> k" using Internal.prems(3) False h by simp
    then obtain r where r: "append_large S small (hd cts) = Some r"
      and sl: "split_left S k (tree_items small @ tree_items (hd cts)) r"
      using Internal.IH[of "hd cts"] Internal.prems(1) f okf ne by auto
    obtain t' u where rr: "r = (t', u)" by fastforce
    have s': "sm_add S (summary small) s = sumof S (tree_items small @ tree_items (hd cts) @ ?r)"
      using sum_append[of "tree_items small" "concat (map tree_items cts)"] ok xs s
        wf_node_summary[OF Internal.prems(1)] wf_node_items[OF Internal.prems(2)] by simp
    have fo: "first_opt cts = Some (hd cts)" "first_opt css = Some (hd css)"
      "tl css = map summary (tl cts)"
      using ne by (simp_all add: checked_simps css map_tl)
    have len: "length (t' # tl cts) = length cts" using ne by simp
    show ?thesis
    proof (cases u)
      case None
      have st: "wf_node S t'" "height t' = k" "tree_items t' = tree_items small @ tree_items (hd cts)"
        using sl by (simp_all add: rr None split_left_def)
      have "wf_node S (Internal h (sumof S (tree_items small @ tree_items (hd cts) @ ?r))
              (map summary (t' # tl cts)) (t' # tl cts))"
        using st tl len cap h by (simp add: wf_node_Internal del: wf_node.simps)
      then show ?thesis using False h r rr None fo s' st xs
        by (simp add: split_left_def Let_def del: wf_node.simps)
    next
      case (Some v)
      have sv: "wf_node S t'" "height t' = k" "wf_node S v" "height v = k"
        "tree_items v @ tree_items t' = tree_items small @ tree_items (hd cts)"
        using sl by (simp_all add: rr Some split_left_def)
      have eq: "concat (map tree_items (v # t' # tl cts)) = tree_items small @ tree_items (hd cts) @ ?r"
        using sv(5) by simp
      have eq2: "tree_items v @ tree_items t' @ ?r = tree_items small @ tree_items (hd cts) @ ?r"
        using sv(5) by (metis append_assoc)
      have "\<exists>r. prepend_child S (Suc k) (sumof S (tree_items small @ tree_items (hd cts) @ ?r))
              (map summary (t' # tl cts)) (t' # tl cts) v = Some r
            \<and> split_left S (Suc k) (concat (map tree_items (v # t' # tl cts))) r"
        using sv(1-4) tl len cap ok
        by (intro prepend_child_ok) (simp_all add: eq2)
      then show ?thesis using False h r rr Some fo s' xs unfolding eq
        by (simp add: Let_def del: wf_node.simps)
    qed
  qed
qed

lemma from_child_trees_ok:
  assumes "wf_node S a" "wf_node S b" "height a = height b" "ok (tree_items a @ tree_items b)"
  shows "\<exists>t. from_child_trees S a b = Some t \<and> wf_node S t
           \<and> tree_items t = tree_items a @ tree_items b \<and> height t = Suc (height a)"
proof -
  have "wf_node S (Internal (Suc (height a)) (sums S (map summary [a, b])) (map summary [a, b]) [a, b])"
    using assms by (intro wf_node_of_children) (auto simp: TREE_BASE_def)
  then show ?thesis
    by (simp add: from_child_trees_def Let_def av_push_def TREE_BASE_def del: wf_node.simps)
qed

lemma stree_append_ok:
  assumes "wf_tree S a" "wf_tree S b" "ok (tree_items a @ tree_items b)"
  shows "\<exists>t. stree_append S a b = Some t \<and> wf_tree S t
           \<and> tree_items t = tree_items a @ tree_items b
           \<and> height t \<le> Suc (max (height a) (height b))"
proof (cases "is_empty a")
  case True
  then show ?thesis using assms wf_tree_is_empty[OF assms(1)] by (simp add: stree_append_def)
next
  case ne: False
  then have a: "wf_node S a" using assms(1) by (auto simp: wf_tree_def stree_new_def)
  show ?thesis
  proof (cases "b = stree_new S")
    case True
    then show ?thesis using ne assms(1)
      by (simp add: stree_append_def) (simp add: stree_new_def)
  next
    case False
    then have b: "wf_node S b" using assms(2) by (simp add: wf_tree_def)
    then have cond: "\<not> is_leaf b \<or> leaf_items b \<noteq> Some []" by (cases b) auto
    show ?thesis
    proof (cases "height a < height b")
      case True
      obtain r where r: "append_large S a b = Some r"
        and sl: "split_left S (height b) (tree_items a @ tree_items b) r"
        using append_large_ok[OF a b _ assms(3)] True by auto
      then show ?thesis
      proof (cases "snd r")
        case None
        then show ?thesis using r sl True cond ne
          by (cases r) (auto simp: stree_append_def split_left_def wf_tree_def)
      next
        case (Some u)
        then have "\<exists>t. from_child_trees S u (fst r) = Some t \<and> wf_node S t
           \<and> tree_items t = tree_items u @ tree_items (fst r) \<and> height t = Suc (height u)"
          using sl assms(3) by (intro from_child_trees_ok) (auto simp: split_left_def)
        then show ?thesis using r sl True cond ne Some
          by (cases r) (auto simp: stree_append_def split_left_def wf_tree_def)
      qed
    next
      case ge: False
      obtain r where r: "push_tree_recursive S a b = Some r"
        and sr: "split_right S (height a) (tree_items a @ tree_items b) r"
        using push_tree_recursive_ok[OF a b _ assms(3)] ge by auto
      then show ?thesis
      proof (cases "snd r")
        case None
        then show ?thesis using r sr ge cond ne
          by (cases r) (auto simp: stree_append_def split_right_def wf_tree_def)
      next
        case (Some u)
        then have "\<exists>t. from_child_trees S (fst r) u = Some t \<and> wf_node S t
           \<and> tree_items t = tree_items (fst r) @ tree_items u \<and> height t = Suc (height (fst r))"
          using sr assms(3) by (intro from_child_trees_ok) (auto simp: split_right_def)
        then show ?thesis using r sr ge cond ne Some
          by (cases r) (auto simp: stree_append_def split_right_def wf_tree_def)
      qed
    qed
  qed
qed

end

end
