(* ===== verification/SumTreeOps.thy ===== *)
theory SumTreeOps
  imports SumTree
begin

text \<open>
  The remaining operations of \<open>SumTree\<close> that do not need a cursor
  (\<open>crates/sum_tree/src/sum_tree.rs\<close>): bulk construction (\<open>from_iter\<close> and its parallel
  twin), \<open>extend\<close>, updates of the first and last item, \<open>extent\<close>, and the searches
  \<open>find\<close>, \<open>find_exact\<close> and \<open>find_with_prev\<close>. Each is proved against the list of items:
  construction yields a well-formed tree of exactly the given items, a search agrees with
  a scan of the items.
\<close>

section \<open>Bulk construction\<close>

text \<open>The first loop of \<open>from_iter\<close>: full leaves of \<open>2 * TREE_BASE\<close> items.\<close>

definition leaf_of_chunk :: "('a, 's) summary_ops \<Rightarrow> 'a list \<Rightarrow> ('a, 's) stree" where
  "leaf_of_chunk S xs =
     (let xss = map (sm_item S) xs in Leaf (foldl (sm_add S) (hd xss) (tl xss)) xs xss)"

function chunks :: "'b list \<Rightarrow> 'b list list" where
  "chunks xs = (if xs = [] then [] else take CAP xs # chunks (drop CAP xs))"
  by pat_completeness auto
termination
  by (relation "measure length") (auto simp: TREE_BASE_def)

declare chunks.simps [simp del]

definition leaf_nodes :: "('a, 's) summary_ops \<Rightarrow> 'a list \<Rightarrow> ('a, 's) stree list" where
  "leaf_nodes S xs = map (leaf_of_chunk S) (chunks xs)"

lemma chunks_Nil [simp]: "chunks [] = []"
  by (simp add: chunks.simps)

lemma chunks_unfold: "xs \<noteq> [] \<Longrightarrow> chunks xs = take CAP xs # chunks (drop CAP xs)"
  by (subst chunks.simps) simp

lemma concat_chunks [simp]: "concat (chunks xs) = xs"
  by (induction xs rule: chunks.induct) (subst chunks.simps, simp)

lemma chunks_bounds: "c \<in> set (chunks xs) \<Longrightarrow> c \<noteq> [] \<and> length c \<le> CAP"
proof (induction xs rule: chunks.induct)
  case (1 xs)
  then show ?case
    by (cases "xs = []") (auto simp: chunks_unfold TREE_BASE_def)
qed

lemma ceil_div_12: "0 < n \<Longrightarrow> 1 + (n - 12 + 11) div 12 = (n + 11) div (12 :: nat)"
proof (cases "12 \<le> n")
  case True
  then obtain m where "n = m + 12" by (metis add.commute le_Suc_ex)
  then show ?thesis by (simp add: add.assoc[symmetric])
next
  case False
  moreover assume "0 < n"
  ultimately have "(n + 11) div 12 = 1" by (intro div_nat_eqI) auto
  then show ?thesis using False by simp
qed

lemma length_chunks: "length (chunks xs) = (length xs + (CAP - 1)) div CAP"
proof (induction xs rule: chunks.induct)
  case (1 xs)
  show ?case
  proof (cases "xs = []")
    case False
    then have "length (chunks xs) = 1 + (length xs - CAP + (CAP - 1)) div CAP"
      using 1 by (simp add: chunks_unfold)
    moreover have "1 + (length xs - 12 + 11) div 12 = (length xs + 11) div 12"
      using False by (intro ceil_div_12) simp
    ultimately show ?thesis by (simp add: TREE_BASE_def)
  qed (simp add: TREE_BASE_def)
qed

text \<open>One pass of the second loop: the children of one level are pushed into parent nodes,
  the current parent being flushed when it is full.\<close>

type_synonym ('a, 's) partial_parent = "'s \<times> 's list \<times> ('a, 's) stree list"

fun parent_pass ::
  "('a, 's) summary_ops \<Rightarrow> nat \<Rightarrow> ('a, 's) stree list \<Rightarrow> ('a, 's) partial_parent option
   \<Rightarrow> ('a, 's) stree list \<Rightarrow> ('a, 's) stree list option" where
  "parent_pass S h [] current parents =
     Some (parents @ (case current of None \<Rightarrow> [] | Some (s, css, cts) \<Rightarrow> [Internal h s css cts]))"
| "parent_pass S h (child # children) current parents = do {
     let (s, css, cts) = (case current of None \<Rightarrow> (sm_zero S, [], []) | Some p \<Rightarrow> p);
     let s' = sm_add S s (summary child);
     css' \<leftarrow> av_push CAP css (summary child);
     cts' \<leftarrow> av_push CAP cts child;
     if length cts' = CAP
     then parent_pass S h children None (parents @ [Internal h s' css' cts'])
     else parent_pass S h children (Some (s', css', cts')) parents
   }"

definition pending :: "('a, 's) partial_parent option \<Rightarrow> nat" where
  "pending current = (case current of None \<Rightarrow> 0 | Some (s, css, cts) \<Rightarrow> length cts)"

lemma parent_pass_length:
  "parent_pass S h nodes current parents = Some r \<Longrightarrow>
   (\<forall>s css cts. current = Some (s, css, cts) \<longrightarrow> cts \<noteq> []) \<Longrightarrow> pending current < CAP \<Longrightarrow>
   length r = length parents + (length nodes + pending current + (CAP - 1)) div CAP"
proof (induction S h nodes current parents rule: parent_pass.induct)
  case (1 S h current parents)
  then show ?case
  proof (cases current)
    case (Some p)
    then have "(pending current + (CAP - 1)) div CAP = 1"
      using "1.prems" by (cases p) (auto simp: pending_def TREE_BASE_def neq_Nil_conv)
    then show ?thesis using "1.prems"(1) Some by (cases p) auto
  qed (auto simp: pending_def TREE_BASE_def)
next
  case (2 S h child children current parents)
  obtain s css cts where cur: "(case current of None \<Rightarrow> (sm_zero S, [], []) | Some p \<Rightarrow> p) = (s, css, cts)"
    by (metis prod_cases3)
  have pend: "pending current = length cts"
    using cur by (auto simp: pending_def split: option.splits)
  obtain css' where css': "av_push CAP css (summary child) = Some css'"
    using "2.prems"(1) cur by (auto simp: Let_def bind_eq_Some_conv)
  have cts': "av_push CAP cts child = Some (cts @ [child])"
    using "2.prems"(3) pend by (simp add: av_push_def)
  show ?case
  proof (cases "Suc (length cts) = CAP")
    case True
    have "length r = length parents + 1 + (length children + 0 + (CAP - 1)) div CAP"
      using "2.IH"(1)[OF refl cur[symmetric] refl refl css' cts'] "2.prems"(1) cur css' cts' True
      by (simp add: Let_def pending_def TREE_BASE_def)
    then show ?thesis using True pend by (simp add: TREE_BASE_def)
  next
    case False
    then have "length cts + 1 < CAP" using "2.prems"(3) pend by simp
    then show ?thesis
      using "2.IH"(2)[OF refl cur[symmetric] refl refl css' cts'] "2.prems"(1) cur css' cts' False pend
      by (simp add: Let_def pending_def)
  qed
qed

text \<open>The second loop: passes until one node is left.\<close>

function build_levels ::
  "('a, 's) summary_ops \<Rightarrow> nat \<Rightarrow> ('a, 's) stree list \<Rightarrow> ('a, 's) stree list option" where
  "build_levels S h nodes =
     (if length nodes > 1 then do {
        parents \<leftarrow> parent_pass S (h + 1) nodes None [];
        build_levels S (h + 1) parents
      } else Some nodes)"
  by pat_completeness auto
termination
proof (relation "measure (\<lambda>(S, h, nodes). length nodes)", goal_cases)
  case (2 S h nodes parents)
  from parent_pass_length[OF 2(2)] have "length parents = (length nodes + (CAP - 1)) div CAP"
    by (simp add: pending_def)
  then show ?case using 2(1) by (simp add: TREE_BASE_def)
qed simp

declare build_levels.simps [simp del]

definition stree_from_iter ::
  "('a, 's) summary_ops \<Rightarrow> 'a list \<Rightarrow> ('a, 's) stree option" where
  "stree_from_iter S xs = do {
     nodes \<leftarrow> build_levels S 0 (leaf_nodes S xs);
     if nodes = [] then Some (stree_new S) else last_opt nodes
   }"

text \<open>\<open>from_par_iter\<close>: the same levels by chunks, every summary folded from the first child.\<close>

definition parent_of_chunk ::
  "('a, 's) summary_ops \<Rightarrow> nat \<Rightarrow> ('a, 's) stree list \<Rightarrow> ('a, 's) stree" where
  "parent_of_chunk S h cts =
     (let css = map summary cts in Internal h (foldl (sm_add S) (hd css) (tl css)) css cts)"

definition par_pass ::
  "('a, 's) summary_ops \<Rightarrow> nat \<Rightarrow> ('a, 's) stree list \<Rightarrow> ('a, 's) stree list" where
  "par_pass S h nodes = map (parent_of_chunk S h) (chunks nodes)"

function par_levels ::
  "('a, 's) summary_ops \<Rightarrow> nat \<Rightarrow> ('a, 's) stree list \<Rightarrow> ('a, 's) stree list" where
  "par_levels S h nodes =
     (if length nodes > 1 then par_levels S (h + 1) (par_pass S (h + 1) nodes) else nodes)"
  by pat_completeness auto
termination
  by (relation "measure (\<lambda>(S, h, nodes). length nodes)") (auto simp: par_pass_def length_chunks TREE_BASE_def)

declare par_levels.simps [simp del]

definition stree_from_par_iter ::
  "('a, 's) summary_ops \<Rightarrow> 'a list \<Rightarrow> ('a, 's) stree option" where
  "stree_from_par_iter S xs =
     (let nodes = par_levels S 0 (leaf_nodes S xs) in
      if nodes = [] then Some (stree_new S) else last_opt nodes)"

definition stree_extend ::
  "('a, 's) summary_ops \<Rightarrow> ('a, 's) stree \<Rightarrow> 'a list \<Rightarrow> ('a, 's) stree option" where
  "stree_extend S self xs = do { other \<leftarrow> stree_from_iter S xs; stree_append S self other }"

definition stree_par_extend ::
  "('a, 's) summary_ops \<Rightarrow> ('a, 's) stree \<Rightarrow> 'a list \<Rightarrow> ('a, 's) stree option" where
  "stree_par_extend S self xs = do { other \<leftarrow> stree_from_par_iter S xs; stree_append S self other }"

section \<open>First and last\<close>

text \<open>\<open>leftmost_leaf\<close> and \<open>rightmost_leaf\<close> unwrap the first or last child of every node.\<close>

function leftmost_leaf :: "('a, 's) stree \<Rightarrow> ('a, 's) stree option" where
  "leftmost_leaf (Leaf s xs xss) = Some (Leaf s xs xss)"
| "leftmost_leaf (Internal h s css cts) = do { c \<leftarrow> first_opt cts; leftmost_leaf c }"
  by pat_completeness auto
termination
  by (relation "measure size")
     (auto dest!: first_opt_SomeD simp: less_Suc_eq_le trans_le_add2 size_le_size_list)

function rightmost_leaf :: "('a, 's) stree \<Rightarrow> ('a, 's) stree option" where
  "rightmost_leaf (Leaf s xs xss) = Some (Leaf s xs xss)"
| "rightmost_leaf (Internal h s css cts) = do { c \<leftarrow> last_opt cts; rightmost_leaf c }"
  by pat_completeness auto
termination
  by (relation "measure size")
     (auto dest!: last_opt_SomeD simp: less_Suc_eq_le trans_le_add2 size_le_size_list)

text \<open>The outer option is the panic, the inner one \<open>Option<&T>\<close>.\<close>

definition stree_first :: "('a, 's) stree \<Rightarrow> 'a option option" where
  "stree_first t = do { l \<leftarrow> leftmost_leaf t; xs \<leftarrow> leaf_items l; Some (first_opt xs) }"

definition stree_last :: "('a, 's) stree \<Rightarrow> 'a option option" where
  "stree_last t = do { l \<leftarrow> rightmost_leaf t; xs \<leftarrow> leaf_items l; Some (last_opt xs) }"

definition stree_last_summary :: "('a, 's) stree \<Rightarrow> 's option option" where
  "stree_last_summary t = do { l \<leftarrow> rightmost_leaf t; Some (last_opt (child_summaries l)) }"

function update_last_recursive ::
  "('a, 's) summary_ops \<Rightarrow> ('a \<Rightarrow> 'a) \<Rightarrow> ('a, 's) stree \<Rightarrow> (('a, 's) stree \<times> 's option) option" where
  "update_last_recursive S f (Internal h s css cts) = do {
     _ \<leftarrow> last_opt css;
     last_child \<leftarrow> last_opt cts;
     (last_child', last_summary) \<leftarrow> update_last_recursive S f last_child;
     last_summary' \<leftarrow> last_summary;
     let css' = butlast css @ [last_summary'];
     let s' = sums S css';
     Some (Internal h s' css' (butlast cts @ [last_child']), Some s')
   }"
| "update_last_recursive S f (Leaf s xs xss) =
     (case (last_opt xs, last_opt xss) of
        (Some item, Some item_summary) \<Rightarrow>
          (let item' = f item;
               xss' = butlast xss @ [sm_item S item'];
               s' = sums S xss'
           in Some (Leaf s' (butlast xs @ [item']) xss', Some s'))
      | _ \<Rightarrow> Some (Leaf s xs xss, None))"
  by pat_completeness auto
termination
  by (relation "measure (\<lambda>(S, f, t). size t)")
     (auto dest!: last_opt_SomeD simp: less_Suc_eq_le trans_le_add2 size_le_size_list)

definition stree_update_last ::
  "('a, 's) summary_ops \<Rightarrow> ('a \<Rightarrow> 'a) \<Rightarrow> ('a, 's) stree \<Rightarrow> ('a, 's) stree option" where
  "stree_update_last S f t = map_option fst (update_last_recursive S f t)"

function update_first_recursive ::
  "('a, 's) summary_ops \<Rightarrow> ('a \<Rightarrow> 'a) \<Rightarrow> ('a, 's) stree \<Rightarrow> (('a, 's) stree \<times> 's option) option" where
  "update_first_recursive S f (Internal h s css cts) = do {
     _ \<leftarrow> first_opt css;
     first_child \<leftarrow> first_opt cts;
     (first_child', first_summary) \<leftarrow> update_first_recursive S f first_child;
     first_summary' \<leftarrow> first_summary;
     let css' = first_summary' # tl css;
     let s' = sums S css';
     Some (Internal h s' css' (first_child' # tl cts), Some s')
   }"
| "update_first_recursive S f (Leaf s xs xss) =
     (case (first_opt xs, first_opt xss) of
        (Some item, Some item_summary) \<Rightarrow>
          (let item' = f item;
               xss' = sm_item S item' # tl xss;
               s' = sums S xss'
           in Some (Leaf s' (item' # tl xs) xss', Some s'))
      | _ \<Rightarrow> Some (Leaf s xs xss, None))"
  by pat_completeness auto
termination
  by (relation "measure (\<lambda>(S, f, t). size t)")
     (auto dest!: first_opt_SomeD simp: less_Suc_eq_le trans_le_add2 size_le_size_list)

definition stree_update_first ::
  "('a, 's) summary_ops \<Rightarrow> ('a \<Rightarrow> 'a) \<Rightarrow> ('a, 's) stree \<Rightarrow> ('a, 's) stree option" where
  "stree_update_first S f t = map_option fst (update_first_recursive S f t)"

section \<open>Searching\<close>

text \<open>
  A dimension measures summaries (\<open>zero\<close>, \<open>add_summary\<close>); a seek target is the
  comparison of the target with a position. \<open>passes\<close> is the condition under which a search
  moves past a position: the target is beyond it, or at it with a right bias.
\<close>

record ('d, 's) dim_ops =
  dm_zero :: 'd
  dm_add :: "'d \<Rightarrow> 's \<Rightarrow> 'd"

type_synonym 'd seek_target = "'d \<Rightarrow> ordering"

definition passes :: "bias \<Rightarrow> ordering \<Rightarrow> bool" where
  "passes bias c \<longleftrightarrow> c = Greater \<or> (c = Equal \<and> bias = Right)"

definition extent :: "('d, 's) dim_ops \<Rightarrow> ('a, 's) stree \<Rightarrow> 'd" where
  "extent D t = dm_add D (dm_zero D) (summary t)"

text \<open>The scan of an internal node: the child that holds the target, or the position after
  the last child.\<close>

fun find_child ::
  "('d, 's) dim_ops \<Rightarrow> 'd seek_target \<Rightarrow> bias \<Rightarrow> 'd \<Rightarrow> (('a, 's) stree \<times> 's) list
   \<Rightarrow> ('a, 's) stree option \<times> 'd" where
  "find_child D target bias pos [] = (None, pos)"
| "find_child D target bias pos ((child, s) # rest) =
     (let child_end = dm_add D pos s; comparison = target child_end in
      if comparison = Less \<or> (comparison = Equal \<and> bias = Left) then (Some child, pos)
      else find_child D target bias child_end rest)"

fun find_item ::
  "bool \<Rightarrow> ('d, 's) dim_ops \<Rightarrow> 'd seek_target \<Rightarrow> bias \<Rightarrow> 'd \<Rightarrow> ('a \<times> 's) list
   \<Rightarrow> ('a \<times> 'd) option \<times> 'd" where
  "find_item exact D target bias pos [] = (None, pos)"
| "find_item exact D target bias pos ((item, s) # rest) =
     (let child_end = dm_add D pos s; comparison = target child_end;
          entry_found = (if exact then comparison = Equal
                         else comparison = Less \<or> (comparison = Equal \<and> bias = Left)) in
      if entry_found then (Some (item, child_end), pos)
      else find_item exact D target bias child_end rest)"

lemma find_child_set: "find_child D target bias pos cs = (Some c, p) \<Longrightarrow> c \<in> fst ` set cs"
  by (induction D target bias pos cs rule: find_child.induct)
     (auto simp: Let_def split: if_splits)

lemma find_child_size:
  "find_child D target bias pos (zip cts css) = (Some c, p) \<Longrightarrow> size c \<le> size_list size cts"
  by (auto dest!: find_child_set set_zip_leftD intro: size_le_size_list)

function find_iterate ::
  "bool \<Rightarrow> ('d, 's) dim_ops \<Rightarrow> 'd seek_target \<Rightarrow> bias \<Rightarrow> 'd \<Rightarrow> ('a, 's) stree
   \<Rightarrow> ('a \<times> 'd) option \<times> 'd" where
  "find_iterate exact D target bias pos (Internal h s css cts) =
     (case find_child D target bias pos (zip cts css) of
        (Some child, pos') \<Rightarrow> find_iterate exact D target bias pos' child
      | (None, pos') \<Rightarrow> (None, pos'))"
| "find_iterate exact D target bias pos (Leaf s xs xss) =
     find_item exact D target bias pos (zip xs xss)"
  by pat_completeness auto
termination
  by (relation "measure (\<lambda>(exact, D, target, bias, pos, t). size t)")
     (auto dest!: sym[of _ "find_child _ _ _ _ _"] find_child_size)

definition stree_find_gen ::
  "bool \<Rightarrow> ('d, 's) dim_ops \<Rightarrow> ('a, 's) stree \<Rightarrow> 'd seek_target \<Rightarrow> bias \<Rightarrow> 'd \<times> 'd \<times> 'a option" where
  "stree_find_gen exact D t target bias =
     (let tree_end = extent D t; comparison = target tree_end in
      if comparison = Greater \<or> (comparison = Equal \<and> bias = Right)
      then (tree_end, tree_end, None)
      else case find_iterate exact D target bias (dm_zero D) t of
             (Some (item, e), pos) \<Rightarrow> (pos, e, Some item)
           | (None, pos) \<Rightarrow> (pos, pos, None))"

definition stree_find_exact ::
  "('d, 's) dim_ops \<Rightarrow> ('a, 's) stree \<Rightarrow> 'd seek_target \<Rightarrow> bias \<Rightarrow> 'd \<times> 'd \<times> 'a option" where
  "stree_find_exact = stree_find_gen True"

definition stree_find ::
  "('d, 's) dim_ops \<Rightarrow> ('a, 's) stree \<Rightarrow> 'd seek_target \<Rightarrow> bias \<Rightarrow> 'd \<times> 'd \<times> 'a option" where
  "stree_find = stree_find_gen False"

text \<open>\<open>find_with_prev\<close> also returns the item before the one found.\<close>

fun find_child_prev ::
  "('d, 's) dim_ops \<Rightarrow> 'd seek_target \<Rightarrow> bias \<Rightarrow> 'a option \<Rightarrow> 'd \<Rightarrow> (('a, 's) stree \<times> 's) list
   \<Rightarrow> (('a, 's) stree option \<times> 'a option \<times> 'd) option" where
  "find_child_prev D target bias prev pos [] = Some (None, prev, pos)"
| "find_child_prev D target bias prev pos ((child, s) # rest) =
     (let child_end = dm_add D pos s; comparison = target child_end in
      if comparison = Less \<or> (comparison = Equal \<and> bias = Left) then Some (Some child, prev, pos)
      else do { l \<leftarrow> stree_last child; find_child_prev D target bias l child_end rest })"

fun find_item_prev ::
  "('d, 's) dim_ops \<Rightarrow> 'd seek_target \<Rightarrow> bias \<Rightarrow> 'a option \<Rightarrow> 'd \<Rightarrow> ('a \<times> 's) list
   \<Rightarrow> ('a option \<times> 'a \<times> 'd) option \<times> 'd" where
  "find_item_prev D target bias prev pos [] = (None, pos)"
| "find_item_prev D target bias prev pos ((item, s) # rest) =
     (let child_end = dm_add D pos s; comparison = target child_end in
      if comparison = Less \<or> (comparison = Equal \<and> bias = Left)
      then (Some (prev, item, child_end), pos)
      else find_item_prev D target bias (Some item) child_end rest)"

lemma find_child_prev_set:
  "find_child_prev D target bias prev pos cs = Some (Some c, p) \<Longrightarrow> c \<in> fst ` set cs"
  by (induction D target bias prev pos cs rule: find_child_prev.induct)
     (auto simp: Let_def bind_eq_Some_conv split: if_splits)

lemma find_child_prev_size:
  "find_child_prev D target bias prev pos (zip cts css) = Some (Some c, p) \<Longrightarrow>
   size c \<le> size_list size cts"
  by (auto dest!: find_child_prev_set set_zip_leftD intro: size_le_size_list)

function find_with_prev_iterate ::
  "('d, 's) dim_ops \<Rightarrow> 'd seek_target \<Rightarrow> bias \<Rightarrow> 'a option \<Rightarrow> 'd \<Rightarrow> ('a, 's) stree
   \<Rightarrow> (('a option \<times> 'a \<times> 'd) option \<times> 'd) option" where
  "find_with_prev_iterate D target bias prev pos (Internal h s css cts) =
     (case find_child_prev D target bias prev pos (zip cts css) of
        None \<Rightarrow> None
      | Some (Some child, prev', pos') \<Rightarrow> find_with_prev_iterate D target bias prev' pos' child
      | Some (None, prev', pos') \<Rightarrow> Some (None, pos'))"
| "find_with_prev_iterate D target bias prev pos (Leaf s xs xss) =
     Some (find_item_prev D target bias prev pos (zip xs xss))"
  by pat_completeness auto
termination
  by (relation "measure (\<lambda>(D, target, bias, prev, pos, t). size t)")
     (auto dest!: sym[of _ "find_child_prev _ _ _ _ _ _"] find_child_prev_size)

definition stree_find_with_prev ::
  "('d, 's) dim_ops \<Rightarrow> ('a, 's) stree \<Rightarrow> 'd seek_target \<Rightarrow> bias
   \<Rightarrow> ('d \<times> 'd \<times> ('a option \<times> 'a) option) option" where
  "stree_find_with_prev D t target bias =
     (let tree_end = extent D t; comparison = target tree_end in
      if comparison = Greater \<or> (comparison = Equal \<and> bias = Right)
      then Some (tree_end, tree_end, None)
      else do {
        r \<leftarrow> find_with_prev_iterate D target bias None (dm_zero D) t;
        Some (case r of
            (Some (prev, item, e), pos) \<Rightarrow> (pos, e, Some (prev, item))
          | (None, pos) \<Rightarrow> (pos, pos, None))
      })"

section \<open>Correctness of construction\<close>

context summary_laws
begin

lemma foldl_hd_sumof:
  assumes "xs \<noteq> []" "ok xs"
  shows "foldl (sm_add S) (sm_item S (hd xs)) (map (sm_item S) (tl xs)) = sumof S xs"
proof (cases xs)
  case (Cons x ys)
  then have "ok [x]" using assms(2) ok_append[of "[x]" ys] by simp
  then show ?thesis using Cons by (simp add: sumof_def sums_def zero_item)
qed (use assms in simp)

lemma leaf_of_chunk_ok:
  assumes "xs \<noteq> []" "length xs \<le> CAP" "ok xs"
  shows "wf_node S (leaf_of_chunk S xs)" "tree_items (leaf_of_chunk S xs) = xs"
    "height (leaf_of_chunk S xs) = 0"
  using assms foldl_hd_sumof[OF assms(1,3)] by (auto simp: leaf_of_chunk_def hd_map map_tl)

lemma ok_concatD: "ok (concat xss) \<Longrightarrow> xs \<in> set xss \<Longrightarrow> ok xs"
  by (metis concat.simps(2) concat_append ok_append split_list)

lemma leaf_nodes_ok:
  assumes "ok xs"
  shows "wf_kids S 0 (leaf_nodes S xs)" "concat (map tree_items (leaf_nodes S xs)) = xs"
    "leaf_nodes S xs = [] \<longleftrightarrow> xs = []" "length (leaf_nodes S xs) = (length xs + (CAP - 1)) div CAP"
proof -
  have c: "c \<noteq> []" "length c \<le> CAP" "ok c" if "c \<in> set (chunks xs)" for c
    using that chunks_bounds ok_concatD[of "chunks xs" c] assms by auto
  show "wf_kids S 0 (leaf_nodes S xs)"
    using c leaf_of_chunk_ok by (auto simp: leaf_nodes_def wf_kids_def)
  have "map (\<lambda>c. tree_items (leaf_of_chunk S c)) (chunks xs) = map (\<lambda>c. c) (chunks xs)"
    using c leaf_of_chunk_ok(2) by (intro map_cong) auto
  then show "concat (map tree_items (leaf_nodes S xs)) = xs"
    by (simp add: leaf_nodes_def o_def)
  show "leaf_nodes S xs = [] \<longleftrightarrow> xs = []"
    by (cases "xs = []") (auto simp: leaf_nodes_def chunks_unfold)
  show "length (leaf_nodes S xs) = (length xs + (CAP - 1)) div CAP"
    by (simp add: leaf_nodes_def length_chunks)
qed

lemma parent_pass_ok:
  "wf_kids S k nodes \<Longrightarrow>
   (\<forall>s css cts. current = Some (s, css, cts) \<longrightarrow>
      cts \<noteq> [] \<and> length cts < CAP \<and> wf_kids S k cts \<and> css = map summary cts \<and> s = sums S css) \<Longrightarrow>
   ok (concat (map tree_items ((case current of None \<Rightarrow> [] | Some (s, css, cts) \<Rightarrow> cts) @ nodes))) \<Longrightarrow>
   \<exists>r. parent_pass S (Suc k) nodes current parents = Some (parents @ r) \<and> wf_kids S (Suc k) r
     \<and> concat (map tree_items r)
        = concat (map tree_items ((case current of None \<Rightarrow> [] | Some (s, css, cts) \<Rightarrow> cts) @ nodes))"
proof (induction nodes arbitrary: current parents)
  case Nil
  then show ?case
  proof (cases current)
    case (Some p)
    then obtain s css cts where p: "current = Some (s, css, cts)" by (cases p) auto
    then have "wf_node S (Internal (Suc k) (sums S (map summary cts)) (map summary cts) cts)"
      using Nil by (intro wf_node_of_children) auto
    then show ?thesis using Nil p by (simp del: wf_node.simps)
  qed simp
next
  case (Cons c nodes)
  obtain s css cts where cur: "(case current of None \<Rightarrow> (sm_zero S, [], []) | Some p \<Rightarrow> p) = (s, css, cts)"
    by (metis prod_cases3)
  have cts: "length cts < CAP" "wf_kids S k cts" "css = map summary cts" "s = sums S css"
    and cat: "(case current of None \<Rightarrow> [] | Some (s, css, cts) \<Rightarrow> cts) = cts"
    using cur Cons.prems(2) by (auto simp: sums_def split: option.splits)
  have kids: "wf_kids S k (cts @ [c])" "wf_kids S k nodes" using Cons.prems(1) cts(2) by auto
  have ok: "ok (concat (map tree_items ((cts @ [c]) @ nodes)))" using Cons.prems(3) unfolding cat by simp
  have step: "parent_pass S (Suc k) (c # nodes) current parents =
    (if length (cts @ [c]) = CAP
     then parent_pass S (Suc k) nodes None
       (parents @ [Internal (Suc k) (sums S (map summary (cts @ [c]))) (map summary (cts @ [c])) (cts @ [c])])
     else parent_pass S (Suc k) nodes
       (Some (sums S (map summary (cts @ [c])), map summary (cts @ [c]), cts @ [c])) parents)"
    using cur cts by (simp add: Let_def checked_simps sums_snoc)
  show ?case
  proof (cases "length (cts @ [c]) = CAP")
    case True
    let ?p = "Internal (Suc k) (sums S (map summary (cts @ [c]))) (map summary (cts @ [c])) (cts @ [c])"
    have p: "wf_node S ?p" using kids True ok ok_appendD1 by (intro wf_node_of_children) auto
    have "ok (concat (map tree_items nodes))" using ok ok_appendD2[of "concat (map tree_items (cts @ [c]))"] by simp
    then obtain r where "parent_pass S (Suc k) nodes None (parents @ [?p]) = Some ((parents @ [?p]) @ r)"
      "wf_kids S (Suc k) r" "concat (map tree_items r) = concat (map tree_items nodes)"
      using Cons.IH[of None "parents @ [?p]"] kids by auto
    then have "parent_pass S (Suc k) (c # nodes) current parents = Some (parents @ ?p # r)
        \<and> wf_kids S (Suc k) (?p # r)
        \<and> concat (map tree_items (?p # r)) = concat (map tree_items (cts @ c # nodes))"
      using step True p by (simp del: wf_node.simps)
    then show ?thesis unfolding cat by (metis append_Cons append_Nil)
  next
    case False
    then show ?thesis
      using step Cons.IH[of "Some (sums S (map summary (cts @ [c])), map summary (cts @ [c]), cts @ [c])" parents]
        kids cts ok unfolding cat by (simp del: map_append sum_list_append)
  qed
qed

lemma build_levels_ok:
  "wf_kids S h nodes \<Longrightarrow> nodes \<noteq> [] \<Longrightarrow> ok (concat (map tree_items nodes)) \<Longrightarrow>
   \<exists>t. build_levels S h nodes = Some [t] \<and> wf_node S t
      \<and> tree_items t = concat (map tree_items nodes)
      \<and> (\<forall>m. length nodes \<le> CAP ^ m \<longrightarrow> height t \<le> h + m)"
proof (induction nodes arbitrary: h rule: length_induct)
  case (1 nodes)
  show ?case
  proof (cases "length nodes > 1")
    case False
    then obtain t where "nodes = [t]" using "1.prems"(2) by (cases nodes) auto
    then show ?thesis using "1.prems" by (subst build_levels.simps) simp
  next
    case True
    obtain r where r: "parent_pass S (h + 1) nodes None [] = Some r" "wf_kids S (h + 1) r"
      "concat (map tree_items r) = concat (map tree_items nodes)"
      using parent_pass_ok[of h nodes None "[]"] "1.prems" by auto
    have len: "length r = (length nodes + (CAP - 1)) div CAP"
      using parent_pass_length[OF r(1)] by (simp add: pending_def)
    have lt: "length r < length nodes" using len True by (simp add: TREE_BASE_def)
    have ne: "r \<noteq> []" using len True by (auto simp: TREE_BASE_def)
    obtain t where t: "build_levels S (h + 1) r = Some [t]" "wf_node S t"
      "tree_items t = concat (map tree_items r)" "\<forall>m. length r \<le> CAP ^ m \<longrightarrow> height t \<le> h + 1 + m"
      using "1.IH"[rule_format, OF lt r(2) ne] r(3) "1.prems"(3) by auto
    have "height t \<le> h + m" if m: "length nodes \<le> CAP ^ m" for m
    proof (cases m)
      case 0
      then show ?thesis using m True by simp
    next
      case (Suc j)
      have "length r \<le> (CAP * CAP ^ j + (CAP - 1)) div CAP"
        unfolding len using m Suc by (intro div_le_mono) simp
      also have "\<dots> = CAP ^ j" by (simp add: TREE_BASE_def)
      finally have "length r \<le> CAP ^ j" .
      then show ?thesis using t(4) Suc by auto
    qed
    then show ?thesis using True t r by (subst build_levels.simps) auto
  qed
qed

lemma stree_from_iter_ok:
  assumes "ok xs"
  shows "\<exists>t. stree_from_iter S xs = Some t \<and> wf_tree S t \<and> tree_items t = xs
           \<and> (\<forall>m. length xs \<le> CAP ^ Suc m \<longrightarrow> height t \<le> m)"
proof (cases "xs = []")
  case True
  then show ?thesis
    by (auto simp: stree_from_iter_def leaf_nodes_def build_levels.simps stree_new_def wf_tree_def)
next
  case False
  note ln = leaf_nodes_ok[OF assms]
  obtain t where t: "build_levels S 0 (leaf_nodes S xs) = Some [t]" "wf_node S t" "tree_items t = xs"
    "\<forall>m. length (leaf_nodes S xs) \<le> CAP ^ m \<longrightarrow> height t \<le> m"
    using build_levels_ok[OF ln(1)] ln False assms by auto
  have "length (leaf_nodes S xs) \<le> CAP ^ m" if "length xs \<le> CAP ^ Suc m" for m
  proof -
    have "length (leaf_nodes S xs) \<le> (CAP * CAP ^ m + (CAP - 1)) div CAP"
      unfolding ln(4) using that by (intro div_le_mono) simp
    also have "\<dots> = CAP ^ m" by (simp add: TREE_BASE_def)
    finally show ?thesis .
  qed
  then show ?thesis using t by (auto simp: stree_from_iter_def wf_tree_def)
qed

text \<open>The parallel construction builds the same tree.\<close>

lemma parent_pass_fill:
  assumes "cs \<noteq> []" "length cts + length cs \<le> CAP"
    and "\<forall>s css cts'. current = Some (s, css, cts') \<longrightarrow> cts' \<noteq> []"
    and "(case current of None \<Rightarrow> (sm_zero S, [], []) | Some p \<Rightarrow> p) = (s, css, cts)" "length css = length cts"
  shows "parent_pass S h (cs @ rest) current parents =
    (if length cts + length cs = CAP
     then parent_pass S h rest None
       (parents @ [Internal h (foldl (sm_add S) s (map summary cs)) (css @ map summary cs) (cts @ cs)])
     else parent_pass S h rest
       (Some (foldl (sm_add S) s (map summary cs), css @ map summary cs, cts @ cs)) parents)"
  using assms
proof (induction cs arbitrary: current s css cts)
  case (Cons c cs)
  show ?case
  proof (cases "cs = []")
    case True
    then show ?thesis using Cons.prems by (simp add: Let_def checked_simps)
  next
    case False
    then have "Suc (length cts) < CAP" using Cons.prems(2) by (cases cs) auto
    then show ?thesis
      using Cons.IH[of "cts @ [c]" "Some (sm_add S s (summary c), css @ [summary c], cts @ [c])"
          "sm_add S s (summary c)" "css @ [summary c]"] Cons.prems False
      by (simp add: Let_def checked_simps)
  qed
qed simp

lemma parent_pass_chunks:
  "parent_pass S h nodes None parents = Some (parents @ map
     (\<lambda>cts. Internal h (sums S (map summary cts)) (map summary cts) cts) (chunks nodes))"
proof (induction nodes arbitrary: parents rule: chunks.induct)
  case (1 nodes)
  show ?case
  proof (cases "nodes = []")
    case True
    then show ?thesis by simp
  next
    case False
    let ?c = "take CAP nodes"
    have ne: "?c \<noteq> []" using False by (simp add: TREE_BASE_def)
    note fill = parent_pass_fill[of ?c "[]" None "sm_zero S" "[]" h "drop CAP nodes" parents, OF ne]
    show ?thesis
    proof (cases "length nodes < CAP")
      case True
      then show ?thesis using fill ne by (simp add: chunks_unfold[OF False] sums_def)
    next
      case full: False
      then show ?thesis using fill 1[OF False] by (simp add: chunks_unfold[OF False] sums_def)
    qed
  qed
qed

lemma par_pass_eq:
  assumes "wf_kids S k nodes" "ok (concat (map tree_items nodes))"
  shows "parent_pass S h nodes None [] = Some (par_pass S h nodes)"
proof -
  have "sums S (map summary cts) = foldl (sm_add S) (hd (map summary cts)) (tl (map summary cts))"
    if c: "cts \<in> set (chunks nodes)" for cts
  proof -
    obtain t ts where cts: "cts = t # ts" using chunks_bounds[OF c] by (cases cts) auto
    obtain as bs where "chunks nodes = as @ cts # bs" using c by (meson split_list)
    then have "nodes = concat as @ (t # ts) @ concat bs"
      using concat_chunks[of nodes] cts by simp
    then have t: "wf_node S t" "ok (tree_items t)"
      using assms ok_appendD1[of "tree_items t"] ok_appendD2[of "concat (map tree_items (concat as))"]
      by auto
    have "sm_add S (sm_zero S) (summary t) = summary t"
      using sum_append[of "[]" "tree_items t"] t wf_node_items[OF t(1)] wf_node_summary[OF t(1)]
      by (simp add: sumof_def sums_def)
    then show ?thesis by (simp add: cts sums_def)
  qed
  then show ?thesis
    by (simp add: parent_pass_chunks par_pass_def parent_of_chunk_def Let_def)
qed

lemma par_levels_eq:
  "wf_kids S h nodes \<Longrightarrow> ok (concat (map tree_items nodes)) \<Longrightarrow>
   build_levels S h nodes = Some (par_levels S h nodes)"
proof (induction nodes arbitrary: h rule: length_induct)
  case (1 nodes)
  show ?case
  proof (cases "length nodes > 1")
    case True
    note pp = par_pass_eq[OF "1.prems", of "h + 1"]
    obtain r where r: "parent_pass S (h + 1) nodes None [] = Some r" "wf_kids S (h + 1) r"
      "concat (map tree_items r) = concat (map tree_items nodes)"
      using parent_pass_ok[of h nodes None "[]"] "1.prems" by auto
    have "length r < length nodes"
      using parent_pass_length[OF r(1)] True by (simp add: pending_def TREE_BASE_def)
    then show ?thesis using 1 r pp True
      by (subst build_levels.simps, subst par_levels.simps) simp
  qed (subst build_levels.simps, subst par_levels.simps, simp)
qed

lemma stree_from_par_iter_eq: "ok xs \<Longrightarrow> stree_from_par_iter S xs = stree_from_iter S xs"
  using par_levels_eq[OF leaf_nodes_ok(1)] leaf_nodes_ok(2)
  by (simp add: stree_from_par_iter_def stree_from_iter_def Let_def)

lemma stree_push_ok:
  assumes "wf_tree S t" "ok (tree_items t @ [x])"
  shows "\<exists>t'. stree_push S t x = Some t' \<and> wf_tree S t' \<and> tree_items t' = tree_items t @ [x]
           \<and> height t' \<le> Suc (height t)"
proof -
  have "sm_add S (sm_zero S) (sm_item S x) = sm_item S x"
    using zero_item assms(2) ok_appendD2 by blast
  then have "wf_tree S (Leaf (sm_item S x) [x] [sm_item S x])"
    by (simp add: wf_tree_def sumof_def sums_def TREE_BASE_def)
  from stree_append_ok[OF assms(1) this] show ?thesis using assms(2) by (simp add: stree_push_def)
qed

lemma stree_from_item_ok:
  "ok [x] \<Longrightarrow> \<exists>t. from_item S x = Some t \<and> wf_tree S t \<and> tree_items t = [x]"
  using stree_push_ok[of "stree_new S" x] by (auto simp: from_item_def)

lemma stree_extend_ok:
  assumes "wf_tree S t" "ok (tree_items t @ xs)"
  shows "\<exists>t'. stree_extend S t xs = Some t' \<and> wf_tree S t' \<and> tree_items t' = tree_items t @ xs"
proof -
  obtain u where "stree_from_iter S xs = Some u" "wf_tree S u" "tree_items u = xs"
    using stree_from_iter_ok assms(2) ok_appendD2 by blast
  then show ?thesis using stree_append_ok[OF assms(1), of u] assms(2) by (auto simp: stree_extend_def)
qed

lemma update_last_recursive_ok:
  "wf_node S t \<Longrightarrow> ok (butlast (tree_items t) @ [f (last (tree_items t))]) \<Longrightarrow>
   \<exists>t'. update_last_recursive S f t = Some (t', Some (summary t')) \<and> wf_node S t'
     \<and> height t' = height t \<and> tree_items t' = butlast (tree_items t) @ [f (last (tree_items t))]"
proof (induction t)
  case (Leaf s xs xss)
  then have "Suc (length xs - Suc 0) \<le> CAP" by (cases xs) auto
  then show ?case using Leaf by (simp add: checked_simps Let_def sumof_def map_butlast)
next
  case (Internal h s css cts)
  obtain k where h: "h = Suc k" and kids: "wf_kids S k cts" and ne: "cts \<noteq> []"
    and cap: "length cts \<le> CAP" and css: "css = map summary cts"
    using Internal.prems(1) by (cases h) (auto simp: wf_node_Internal simp del: wf_node.simps)
  let ?b = "concat (map tree_items (butlast cts))" and ?l = "last cts"
  have l: "wf_node S ?l" "height ?l = k" and b: "wf_kids S k (butlast cts)"
    using kids ne by (auto simp: wf_kids_def dest: in_set_butlastD)
  have lne: "tree_items ?l \<noteq> []" using wf_node_items[OF l(1)] .
  have items: "tree_items (Internal h s css cts) = ?b @ tree_items ?l"
    using last_child_items[OF ne] by simp
  let ?new = "butlast (tree_items ?l) @ [f (last (tree_items ?l))]"
  have new: "butlast (tree_items (Internal h s css cts)) @ [f (last (tree_items (Internal h s css cts)))]
      = ?b @ ?new"
    unfolding items using lne by (simp add: butlast_append)
  have ok: "ok (?b @ ?new)" using Internal.prems(2) new by simp
  obtain t' where t': "update_last_recursive S f ?l = Some (t', Some (summary t'))" "wf_node S t'"
    "height t' = k" "tree_items t' = ?new"
    using Internal.IH[of ?l] l ne ok_appendD2[OF ok] by auto
  have "wf_node S (Internal (Suc k) (sums S (map summary (butlast cts @ [t'])))
          (map summary (butlast cts @ [t'])) (butlast cts @ [t']))"
  proof (rule wf_node_of_children)
    show "wf_kids S k (butlast cts @ [t'])" using b t' by simp
    show "length (butlast cts @ [t']) \<le> CAP" using cap ne by (cases cts) auto
    show "ok (concat (map tree_items (butlast cts @ [t'])))" using ok t'(4) by simp
  qed simp
  then show ?case unfolding new using t' ne
    by (simp add: h css checked_simps Let_def map_butlast del: wf_node.simps)
qed

lemma stree_update_last_ok:
  assumes "wf_tree S t" "tree_items t \<noteq> []" "ok (butlast (tree_items t) @ [f (last (tree_items t))])"
  shows "\<exists>t'. stree_update_last S f t = Some t' \<and> wf_tree S t' \<and> height t' = height t
     \<and> tree_items t' = butlast (tree_items t) @ [f (last (tree_items t))]"
  using update_last_recursive_ok[of t f] assms
  by (auto simp: wf_tree_def stree_update_last_def)

lemma update_first_recursive_ok:
  "wf_node S t \<Longrightarrow> ok (f (hd (tree_items t)) # tl (tree_items t)) \<Longrightarrow>
   \<exists>t'. update_first_recursive S f t = Some (t', Some (summary t')) \<and> wf_node S t'
     \<and> height t' = height t \<and> tree_items t' = f (hd (tree_items t)) # tl (tree_items t)"
proof (induction t)
  case (Leaf s xs xss)
  then have "Suc (length xs - Suc 0) \<le> CAP" by (cases xs) auto
  then show ?case using Leaf by (simp add: checked_simps Let_def sumof_def map_tl)
next
  case (Internal h s css cts)
  obtain k where h: "h = Suc k" and kids: "wf_kids S k cts" and ne: "cts \<noteq> []"
    and cap: "length cts \<le> CAP" and css: "css = map summary cts"
    using Internal.prems(1) by (cases h) (auto simp: wf_node_Internal simp del: wf_node.simps)
  let ?r = "concat (map tree_items (tl cts))" and ?f = "hd cts"
  have l: "wf_node S ?f" "height ?f = k" and b: "wf_kids S k (tl cts)"
    using kids ne by (auto simp: wf_kids_def dest: list.set_sel(2))
  have lne: "tree_items ?f \<noteq> []" using wf_node_items[OF l(1)] .
  let ?new = "f (hd (tree_items ?f)) # tl (tree_items ?f)"
  have items: "tree_items (Internal h s css cts) = tree_items ?f @ ?r"
    using concat_map_hd_tl[OF ne] by simp
  have new: "f (hd (tree_items (Internal h s css cts))) # tl (tree_items (Internal h s css cts))
      = ?new @ ?r"
    unfolding items using lne by simp
  have ok: "ok (?new @ ?r)" using Internal.prems(2) new by simp
  obtain t' where t': "update_first_recursive S f ?f = Some (t', Some (summary t'))" "wf_node S t'"
    "height t' = k" "tree_items t' = ?new"
    using Internal.IH[of ?f] l ne ok_appendD1[OF ok] by auto
  have "wf_node S (Internal (Suc k) (sums S (map summary (t' # tl cts)))
          (map summary (t' # tl cts)) (t' # tl cts))"
  proof (rule wf_node_of_children)
    show "wf_kids S k (t' # tl cts)" using b t' by simp
    show "length (t' # tl cts) \<le> CAP" using cap ne by (cases cts) auto
    show "ok (concat (map tree_items (t' # tl cts)))" using ok t'(4) by simp
  qed simp
  then show ?case unfolding new using t' ne
    by (simp add: h css checked_simps Let_def map_tl del: wf_node.simps)
qed

lemma stree_update_first_ok:
  assumes "wf_tree S t" "tree_items t \<noteq> []" "ok (f (hd (tree_items t)) # tl (tree_items t))"
  shows "\<exists>t'. stree_update_first S f t = Some t' \<and> wf_tree S t' \<and> height t' = height t
     \<and> tree_items t' = f (hd (tree_items t)) # tl (tree_items t)"
  using update_first_recursive_ok[of t f] assms
  by (auto simp: wf_tree_def stree_update_first_def)

end

lemma rightmost_leaf_ok:
  "wf_node S t \<Longrightarrow> \<exists>s xs xss. rightmost_leaf t = Some (Leaf s xs xss) \<and> xs \<noteq> []
     \<and> last xs = last (tree_items t) \<and> wf_node S (Leaf s xs xss)"
proof (induction t)
  case (Internal h s css cts)
  then have ne: "cts \<noteq> []" and l: "wf_node S (last cts)" by auto
  then have "last (tree_items (Internal h s css cts)) = last (tree_items (last cts))"
    using concat_map_butlast_last[OF ne, of tree_items] wf_node_items[OF l] by simp
  then show ?case using Internal.IH[OF last_in_set[OF ne] l] ne by (simp add: checked_simps)
qed simp

lemma leftmost_leaf_ok:
  "wf_node S t \<Longrightarrow> \<exists>s xs xss. leftmost_leaf t = Some (Leaf s xs xss) \<and> xs \<noteq> []
     \<and> hd xs = hd (tree_items t) \<and> wf_node S (Leaf s xs xss)"
proof (induction t)
  case (Internal h s css cts)
  then have ne: "cts \<noteq> []" and l: "wf_node S (hd cts)" by auto
  then have "hd (tree_items (Internal h s css cts)) = hd (tree_items (hd cts))"
    using concat_map_hd_tl[OF ne, of tree_items] wf_node_items[OF l] by simp
  then show ?case using Internal.IH[OF hd_in_set[OF ne] l] ne by (simp add: checked_simps)
qed simp

lemma stree_last_ok: "wf_tree S t \<Longrightarrow> stree_last t = Some (last_opt (tree_items t))"
  using rightmost_leaf_ok[of S t] wf_node_items[of S t]
  by (auto simp: wf_tree_def stree_last_def stree_new_def last_opt_iff)

lemma stree_first_ok: "wf_tree S t \<Longrightarrow> stree_first t = Some (first_opt (tree_items t))"
  using leftmost_leaf_ok[of S t] wf_node_items[of S t]
  by (auto simp: wf_tree_def stree_first_def stree_new_def first_opt_iff)

end
