(* ===== verification/Seek.thy ===== *)
theory Seek
  imports SumTreeOps
begin

text \<open>
  What a search in a \<open>SumTree\<close> finds. The contract between a dimension and the summaries
  it measures are the locales \<open>dim_laws\<close> and \<open>seek_laws\<close>; a seek target is admissible on a sequence of items
  when its comparison with the running position never increases along the sequence. Under
  this contract the descents of \<open>find\<close>, \<open>find_exact\<close> and \<open>find_with_prev\<close> are proved equal
  to a left-to-right scan of the items.
\<close>

section \<open>Positions and scans\<close>

definition dpos :: "('d, 's) dim_ops \<Rightarrow> ('a, 's) summary_ops \<Rightarrow> 'a list \<Rightarrow> 'd" where
  "dpos D S xs = (if xs = [] then dm_zero D else dm_add D (dm_zero D) (sumof S xs))"

text \<open>The scan: move items to the left while the prefix extended by the next one satisfies \<open>P\<close>.\<close>

fun scan :: "('a list \<Rightarrow> bool) \<Rightarrow> 'a list \<Rightarrow> 'a list \<Rightarrow> 'a list \<times> 'a list" where
  "scan P pre [] = (pre, [])"
| "scan P pre (x # xs) = (if P (pre @ [x]) then scan P (pre @ [x]) xs else (pre, x # xs))"

fun cmp_rank :: "ordering \<Rightarrow> nat" where
  "cmp_rank Less = 0"
| "cmp_rank Equal = 1"
| "cmp_rank Greater = 2"

definition mono_target ::
  "('d, 's) dim_ops \<Rightarrow> ('a, 's) summary_ops \<Rightarrow> 'd seek_target \<Rightarrow> 'a list \<Rightarrow> bool" where
  "mono_target D S target items \<longleftrightarrow>
     (\<forall>p q r. items = p @ q @ r \<and> p \<noteq> [] \<longrightarrow>
        cmp_rank (target (dpos D S (p @ q))) \<le> cmp_rank (target (dpos D S p)))"

definition passed :: "('d, 's) dim_ops \<Rightarrow> ('a, 's) summary_ops \<Rightarrow> 'd seek_target \<Rightarrow> bias \<Rightarrow> 'a list \<Rightarrow> bool" where
  "passed D S target bias xs = passes bias (target (dpos D S xs))"

definition seek_scan ::
  "('d, 's) dim_ops \<Rightarrow> ('a, 's) summary_ops \<Rightarrow> 'd seek_target \<Rightarrow> bias \<Rightarrow> 'a list \<Rightarrow> 'a list
   \<Rightarrow> 'a list \<times> 'a list" where
  "seek_scan D S target bias = scan (passed D S target bias)"

lemma passes_not: "\<not> passes bias c \<longleftrightarrow> c = Less \<or> (c = Equal \<and> bias = Left)"
  by (cases c; cases bias) (auto simp: passes_def)

lemma found_iff: "c = Less \<or> (c = Equal \<and> bias = Left) \<longleftrightarrow> \<not> passes bias c"
  by (simp add: passes_not)

lemma passed_iff: "c = Greater \<or> (c = Equal \<and> bias = Right) \<longleftrightarrow> passes bias c"
  by (simp add: passes_def)

lemma passes_rank: "passes bias c \<Longrightarrow> cmp_rank c \<le> cmp_rank c' \<Longrightarrow> passes bias c'"
  by (cases c; cases c') (auto simp: passes_def)

lemma mono_target_passed:
  "mono_target D S target items \<Longrightarrow> items = p @ q @ r \<Longrightarrow> p \<noteq> [] \<Longrightarrow>
   passed D S target bias (p @ q) \<Longrightarrow> passed D S target bias p"
  unfolding mono_target_def passed_def by (blast intro: passes_rank)

lemma mono_targetD:
  "mono_target D S target (p @ q @ r) \<Longrightarrow> p \<noteq> [] \<Longrightarrow>
   cmp_rank (target (dpos D S (p @ q))) \<le> cmp_rank (target (dpos D S p))"
  unfolding mono_target_def by blast

lemma mono_target_appendD: "mono_target D S target (xs @ ys) \<Longrightarrow> mono_target D S target xs"
  unfolding mono_target_def by (metis append.assoc)

lemma last_opt_append: "ys \<noteq> [] \<Longrightarrow> last_opt (xs @ ys) = last_opt ys"
  by (simp add: last_opt_iff)

lemma scan_append_items: "scan P pre xs = (p, r) \<Longrightarrow> p @ r = pre @ xs"
  by (induction P pre xs rule: scan.induct) (auto split: if_splits)

lemma scan_prefix: "scan P pre xs = (p, r) \<Longrightarrow> \<exists>q. p = pre @ q"
  by (induction P pre xs rule: scan.induct) (force split: if_splits)+

lemma scan_stop: "scan P pre xs = (p, x # r) \<Longrightarrow> \<not> P (p @ [x])"
  by (induction P pre xs rule: scan.induct) (auto split: if_splits)

lemma scan_passed: "scan P pre xs = (p, r) \<Longrightarrow> p \<noteq> pre \<Longrightarrow> P p"
proof (induction P pre xs rule: scan.induct)
  case (2 P pre x xs)
  then show ?case by (cases "p = pre @ [x]") (auto split: if_splits)
qed simp

lemma scan_all:
  "(\<And>q r. ys = q @ r \<Longrightarrow> q \<noteq> [] \<Longrightarrow> P (pre @ q)) \<Longrightarrow> scan P pre (ys @ zs) = scan P (pre @ ys) zs"
proof (induction ys arbitrary: pre)
  case (Cons y ys)
  have "scan P (pre @ [y]) (ys @ zs) = scan P ((pre @ [y]) @ ys) zs"
  proof (rule Cons.IH)
    show "P ((pre @ [y]) @ q)" if "ys = q @ r" "q \<noteq> []" for q r
      using Cons.prems[of "y # q" r] that by simp
  qed
  then show ?case using Cons.prems[of "[y]" ys] by simp
qed simp

lemma scan_app:
  "scan P pre (xs @ zs) = (case scan P pre xs of (p, []) \<Rightarrow> scan P p zs | (p, x # r) \<Rightarrow> (p, (x # r) @ zs))"
  by (induction P pre xs rule: scan.induct) auto

lemma scan_within:
  "\<not> P (pre @ ys) \<Longrightarrow> ys \<noteq> [] \<Longrightarrow> scan P pre ys = (p, r) \<Longrightarrow>
   scan P pre (ys @ zs) = (p, r @ zs) \<and> r \<noteq> []"
proof (induction P pre ys rule: scan.induct)
  case (2 P pre x xs)
  then show ?case by (cases "xs = []") (auto split: if_splits)
qed simp

lemma scan_mono_skip:
  assumes "mono_target D S target items" "items = pre @ ys @ zs" "passed D S target bias (pre @ ys)"
  shows "seek_scan D S target bias pre (ys @ zs) = seek_scan D S target bias (pre @ ys) zs"
  unfolding seek_scan_def
proof (rule scan_all)
  fix q r assume "ys = q @ r" "q \<noteq> []"
  then show "passed D S target bias (pre @ q)"
    using mono_target_passed[OF assms(1), of "pre @ q" r zs bias] assms by simp
qed

definition exact_at ::
  "('d, 's) dim_ops \<Rightarrow> ('a, 's) summary_ops \<Rightarrow> 'd seek_target \<Rightarrow> 'a list \<times> 'a list
   \<Rightarrow> ('a \<times> 'd) option \<times> 'd \<Rightarrow> bool" where
  "exact_at D S target r found \<longleftrightarrow> (case r of
       (p, []) \<Rightarrow> fst found = None
     | (p, x # _) \<Rightarrow>
         (if target (dpos D S (p @ [x])) = Equal
          then found = (Some (x, dpos D S (p @ [x])), dpos D S p) else fst found = None))"

section \<open>The contract of dimensions\<close>

text \<open>Cursors need a dimension to add up along the items; searches from the root also read the summary
  of an empty tree.\<close>

locale dim_laws = summary_laws S ok for S :: "('a, 's) summary_ops" and ok :: "'a list \<Rightarrow> bool" +
  fixes D :: "('d, 's) dim_ops"
  assumes dim_append: "ok (xs @ ys) \<Longrightarrow> ys \<noteq> [] \<Longrightarrow> dm_add D (dpos D S xs) (sumof S ys) = dpos D S (xs @ ys)"

context dim_laws
begin

lemma item_sumof: "ok [x] \<Longrightarrow> sm_item S x = sumof S [x]"
  by (simp add: sumof_def sums_def zero_item)

lemma dim_item: "ok (xs @ [x]) \<Longrightarrow> dm_add D (dpos D S xs) (sm_item S x) = dpos D S (xs @ [x])"
  using dim_append[of xs "[x]"] item_sumof ok_appendD2 by simp

lemma dim_child:
  "wf_node S t \<Longrightarrow> ok (xs @ tree_items t) \<Longrightarrow>
   dm_add D (dpos D S xs) (summary t) = dpos D S (xs @ tree_items t)"
  by (simp add: wf_node_summary[of S] dim_append wf_node_items)

lemma dpos_Nil [simp]: "dpos D S [] = dm_zero D"
  by (simp add: dpos_def)

lemma extent_items: "wf_tree S t \<Longrightarrow> tree_items t \<noteq> [] \<Longrightarrow> extent D t = dpos D S (tree_items t)"
  using wf_tree_summary[of S t] by (simp add: extent_def dpos_def)

lemma find_child_ok:
  assumes "wf_kids S k cts" "ok (pre @ concat (map tree_items cts) @ zs)"
    "mono_target D S target (pre @ concat (map tree_items cts) @ zs)"
    "find_child D target bias (dpos D S pre) (zip cts (map summary cts)) = (r, p)"
  shows "case r of
      None \<Rightarrow> p = dpos D S (pre @ concat (map tree_items cts)) \<and>
        seek_scan D S target bias pre (concat (map tree_items cts) @ zs)
          = seek_scan D S target bias (pre @ concat (map tree_items cts)) zs
    | Some c \<Rightarrow> (\<exists>as bs. cts = as @ c # bs \<and> p = dpos D S (pre @ concat (map tree_items as)) \<and>
        \<not> passed D S target bias (pre @ concat (map tree_items as) @ tree_items c) \<and>
        find_child_prev D target bias (last_opt pre) (dpos D S pre) (zip cts (map summary cts))
          = Some (Some c, last_opt (pre @ concat (map tree_items as)), p) \<and>
        seek_scan D S target bias pre (concat (map tree_items cts) @ zs)
          = seek_scan D S target bias (pre @ concat (map tree_items as))
              (tree_items c @ concat (map tree_items bs) @ zs))"
  using assms
proof (induction cts arbitrary: pre)
  case (Cons c cts)
  have okc: "ok (pre @ tree_items c)"
    using Cons.prems(2) ok_appendD1[of "pre @ tree_items c"] by simp
  have wfc: "wf_node S c" using Cons.prems(1) by simp
  note pos = dim_child[OF wfc okc]
  have l: "stree_last c = Some (last_opt (tree_items c))"
    using stree_last_ok[of S c] wfc by (simp add: wf_tree_def)
  show ?case
  proof (cases "passed D S target bias (pre @ tree_items c)")
    case True
    have prev: "find_child_prev D target bias (last_opt pre) (dpos D S pre) (zip (c # cts) (map summary (c # cts)))
      = find_child_prev D target bias (last_opt (pre @ tree_items c)) (dpos D S (pre @ tree_items c))
         (zip cts (map summary cts))"
      using True l wf_node_items[OF wfc] by (simp add: Let_def found_iff pos passed_def last_opt_append)
    have skip: "seek_scan D S target bias pre (tree_items c @ concat (map tree_items cts) @ zs)
      = seek_scan D S target bias (pre @ tree_items c) (concat (map tree_items cts) @ zs)"
      by (rule scan_mono_skip[OF Cons.prems(3) _ True]) simp
    have rec: "find_child D target bias (dpos D S (pre @ tree_items c)) (zip cts (map summary cts)) = (r, p)"
      using Cons.prems(4) True by (simp add: Let_def found_iff pos passed_def)
    have "wf_kids S k cts" "ok ((pre @ tree_items c) @ concat (map tree_items cts) @ zs)"
      "mono_target D S target ((pre @ tree_items c) @ concat (map tree_items cts) @ zs)"
      using Cons.prems by simp_all
    from Cons.IH[OF this rec] show ?thesis
    proof (cases r)
      case (Some d)
      then obtain as bs where d: "cts = as @ d # bs"
        "p = dpos D S ((pre @ tree_items c) @ concat (map tree_items as))"
        "\<not> passed D S target bias ((pre @ tree_items c) @ concat (map tree_items as) @ tree_items d)"
        "find_child_prev D target bias (last_opt (pre @ tree_items c)) (dpos D S (pre @ tree_items c))
           (zip cts (map summary cts))
         = Some (Some d, last_opt ((pre @ tree_items c) @ concat (map tree_items as)), p)"
        "seek_scan D S target bias (pre @ tree_items c) (concat (map tree_items cts) @ zs)
          = seek_scan D S target bias ((pre @ tree_items c) @ concat (map tree_items as))
              (tree_items d @ concat (map tree_items bs) @ zs)"
        using \<open>wf_kids S k cts\<close> Cons.IH[OF _ _ _ rec] Cons.prems by auto
      then have "c # cts = (c # as) @ d # bs \<and> p = dpos D S (pre @ concat (map tree_items (c # as))) \<and>
        \<not> passed D S target bias (pre @ concat (map tree_items (c # as)) @ tree_items d) \<and>
        find_child_prev D target bias (last_opt pre) (dpos D S pre) (zip (c # cts) (map summary (c # cts)))
          = Some (Some d, last_opt (pre @ concat (map tree_items (c # as))), p) \<and>
        seek_scan D S target bias pre (concat (map tree_items (c # cts)) @ zs)
          = seek_scan D S target bias (pre @ concat (map tree_items (c # as)))
              (tree_items d @ concat (map tree_items bs) @ zs)"
        unfolding prev using skip by simp
      then show ?thesis unfolding Some option.case by blast
    qed (use skip in simp)
  next
    case False
    then have "r = Some c" "p = dpos D S pre"
      using Cons.prems(4) by (simp_all add: Let_def found_iff pos passed_def)
    then have "c # cts = [] @ c # cts \<and> p = dpos D S (pre @ concat (map tree_items [])) \<and>
        \<not> passed D S target bias (pre @ concat (map tree_items []) @ tree_items c) \<and>
        find_child_prev D target bias (last_opt pre) (dpos D S pre) (zip (c # cts) (map summary (c # cts)))
          = Some (Some c, last_opt (pre @ concat (map tree_items [])), p) \<and>
        seek_scan D S target bias pre (concat (map tree_items (c # cts)) @ zs)
          = seek_scan D S target bias (pre @ concat (map tree_items []))
              (tree_items c @ concat (map tree_items cts) @ zs)"
      using False \<open>p = dpos D S pre\<close> by (simp add: Let_def found_iff pos passed_def)
    then show ?thesis unfolding \<open>r = Some c\<close> option.case by blast
  qed
qed simp

lemma find_item_ok:
  assumes "ok (pre @ xs)"
  shows "find_item False D target bias (dpos D S pre) (zip xs (map (sm_item S) xs)) =
    (case seek_scan D S target bias pre xs of
       (p, []) \<Rightarrow> (None, dpos D S p)
     | (p, x # r) \<Rightarrow> (Some (x, dpos D S (p @ [x])), dpos D S p))"
  using assms
proof (induction xs arbitrary: pre)
  case (Cons x xs)
  have "ok (pre @ [x])" using Cons.prems ok_appendD1[of "pre @ [x]" xs] by simp
  then show ?case using Cons.IH[of "pre @ [x]"] Cons.prems
    by (simp add: Let_def found_iff dim_item seek_scan_def passed_def)
qed (simp add: seek_scan_def)

lemma find_child_None:
  assumes wf: "wf_node S (Internal h s css cts)" and ok: "ok (pre @ concat (map tree_items cts))"
    and mono: "mono_target D S target (pre @ concat (map tree_items cts))"
    and stop: "\<not> passed D S target bias (pre @ concat (map tree_items cts))"
    and fc: "find_child D target bias (dpos D S pre) (zip cts css) = (r, p)"
  shows "r \<noteq> None"
proof
  assume None: "r = None"
  obtain k where kids: "wf_kids S k cts" and css: "css = map summary cts"
    using wf by (auto simp: wf_node_Internal simp del: wf_node.simps)
  have "seek_scan D S target bias pre (concat (map tree_items cts)) = (pre @ concat (map tree_items cts), [])"
    using find_child_ok[OF kids _ _ fc[unfolded css], of "[]"] ok mono None by (simp add: seek_scan_def)
  moreover have "concat (map tree_items cts) \<noteq> []" using wf_node_items[OF wf] by simp
  ultimately show False
    using scan_within[of "passed D S target bias" pre "concat (map tree_items cts)" "pre @ concat (map tree_items cts)" "[]" "[]"] stop
    unfolding seek_scan_def by blast
qed

lemma find_iterate_ok:
  assumes "wf_node S t" "ok (pre @ tree_items t @ zs)" "mono_target D S target (pre @ tree_items t @ zs)"
    and "\<not> passed D S target bias (pre @ tree_items t)"
  shows "\<exists>p x r. seek_scan D S target bias pre (tree_items t @ zs) = (p, x # r)
           \<and> find_iterate False D target bias (dpos D S pre) t = (Some (x, dpos D S (p @ [x])), dpos D S p)"
  using assms
proof (induction t arbitrary: pre zs)
  case (Leaf s xs xss)
  obtain p r where scan: "seek_scan D S target bias pre xs = (p, r)" by force
  have w: "seek_scan D S target bias pre (xs @ zs) = (p, r @ zs) \<and> r \<noteq> []"
    using scan_within[of "passed D S target bias" pre xs p r zs] scan Leaf.prems
    by (simp add: seek_scan_def)
  then obtain x r' where r: "r = x # r'" by (cases r) auto
  have "ok (pre @ xs)" using Leaf.prems(2) ok_appendD1[of "pre @ xs" zs] by simp
  then show ?case using w scan Leaf.prems(1) by (simp add: find_item_ok r)
next
  case (Internal h s css cts)
  obtain k where kids: "wf_kids S k cts" and css: "css = map summary cts"
    using Internal.prems(1) by (auto simp: wf_node_Internal simp del: wf_node.simps)
  obtain r p where fc: "find_child D target bias (dpos D S pre) (zip cts css) = (r, p)" by force
  have prems: "ok (pre @ concat (map tree_items cts) @ zs)"
      "mono_target D S target (pre @ concat (map tree_items cts) @ zs)"
    using Internal.prems by simp_all
  note ch = find_child_ok[OF kids prems fc[unfolded css]]
  have "r \<noteq> None" using find_child_None[OF Internal.prems(1) _ _ _ fc] Internal.prems prems
      ok_appendD1[of "pre @ concat (map tree_items cts)" zs]
      mono_target_appendD[of D S target "pre @ concat (map tree_items cts)" zs] by simp
  then obtain c where Some: "r = Some c" by blast
  then obtain as bs where c: "cts = as @ c # bs" "p = dpos D S (pre @ concat (map tree_items as))"
    "\<not> passed D S target bias ((pre @ concat (map tree_items as)) @ tree_items c)"
    "seek_scan D S target bias pre (concat (map tree_items cts) @ zs)
        = seek_scan D S target bias (pre @ concat (map tree_items as))
            (tree_items c @ concat (map tree_items bs) @ zs)"
    using ch by auto
  have "c \<in> set cts" "wf_node S c" using c(1) kids by auto
  have it: "find_iterate False D target bias (dpos D S pre) (Internal h s css cts)
      = find_iterate False D target bias (dpos D S (pre @ concat (map tree_items as))) c"
    using fc Some c(2) by simp
  have sc: "seek_scan D S target bias pre (tree_items (Internal h s css cts) @ zs)
      = seek_scan D S target bias (pre @ concat (map tree_items as))
          (tree_items c @ concat (map tree_items bs) @ zs)"
    using c(4) by simp
  show ?case unfolding it sc
    using prems c(1,3) by (intro Internal.IH[OF \<open>c \<in> set cts\<close> \<open>wf_node S c\<close>]) simp_all
qed

text \<open>In a tree with items the search is the scan, whatever an empty summary measures.\<close>

lemma stree_find_items:
  assumes "wf_tree S t" "ok (tree_items t)" "mono_target D S target (tree_items t)" "tree_items t \<noteq> []"
  shows "stree_find D t target bias =
    (case seek_scan D S target bias [] (tree_items t) of
       (p, []) \<Rightarrow> (dpos D S p, dpos D S p, None)
     | (p, x # r) \<Rightarrow> (dpos D S p, dpos D S (p @ [x]), Some x))"
proof -
  have wf: "wf_node S t" using assms(1,4) by (auto simp: wf_tree_def)
  note extent = extent_items[OF assms(1,4)]
  show ?thesis
  proof (cases "passed D S target bias (tree_items t)")
    case True
    have "seek_scan D S target bias [] (tree_items t @ []) = seek_scan D S target bias ([] @ tree_items t) []"
      by (rule scan_mono_skip[OF assms(3)]) (use True in simp_all)
    then have "seek_scan D S target bias [] (tree_items t) = (tree_items t, [])"
      by (simp add: seek_scan_def)
    then show ?thesis using True
      by (simp add: stree_find_def stree_find_gen_def Let_def passed_iff passed_def extent)
  next
    case False
    have "\<exists>p x r. seek_scan D S target bias [] (tree_items t) = (p, x # r) \<and>
      find_iterate False D target bias (dm_zero D) t = (Some (x, dpos D S (p @ [x])), dpos D S p)"
      using find_iterate_ok[OF wf, of "[]" "[]" target bias] assms False by simp
    then obtain p x r where "seek_scan D S target bias [] (tree_items t) = (p, x # r)"
      "find_iterate False D target bias (dm_zero D) t = (Some (x, dpos D S (p @ [x])), dpos D S p)"
      by blast
    then show ?thesis using False
      by (simp add: stree_find_def stree_find_gen_def Let_def passed_iff passed_def extent)
  qed
qed

end

locale seek_laws = dim_laws S ok D
  for S :: "('a, 's) summary_ops" and ok :: "'a list \<Rightarrow> bool" and D :: "('d, 's) dim_ops" +
  assumes dim_zero: "dm_add D (dm_zero D) (sm_zero S) = dm_zero D"

context seek_laws
begin

lemma extent_ok: "wf_tree S t \<Longrightarrow> extent D t = dpos D S (tree_items t)"
  using wf_tree_summary[of S t]
  by (cases "tree_items t = []") (auto simp: extent_def dpos_def sumof_def sums_def dim_zero)

lemma stree_find_ok:
  assumes "wf_tree S t" "ok (tree_items t)" "mono_target D S target (tree_items t)"
  shows "stree_find D t target bias =
    (case seek_scan D S target bias [] (tree_items t) of
       (p, []) \<Rightarrow> (dpos D S p, dpos D S p, None)
     | (p, x # r) \<Rightarrow> (dpos D S p, dpos D S (p @ [x]), Some x))"
proof (cases "tree_items t = []")
  case True
  then have "t = stree_new S" using wf_tree_items_empty[OF assms(1)] by simp
  then show ?thesis
    using extent_ok[OF assms(1)]
    by (simp add: stree_find_def stree_find_gen_def Let_def stree_new_def seek_scan_def)
qed (rule stree_find_items[OF assms])

text \<open>\<open>find_exact\<close> with a left bias returns an item exactly when the scan stops on one whose
  end is the target; positions beyond the target differ from it.\<close>

lemma find_item_exact_ok:
  assumes "ok (pre @ xs)" "mono_target D S target (pre @ xs)"
  shows "exact_at D S target (seek_scan D S target Left pre xs)
     (find_item True D target bias (dpos D S pre) (zip xs (map (sm_item S) xs)))"
  using assms
proof (induction xs arbitrary: pre)
  case (Cons x xs)
  have okx: "ok (pre @ [x])" using Cons.prems ok_appendD1[of "pre @ [x]" xs] by simp
  have prems: "ok ((pre @ [x]) @ xs)" "mono_target D S target ((pre @ [x]) @ xs)"
    using Cons.prems by simp_all
  show ?case
  proof (cases "passed D S target Left (pre @ [x])")
    case True
    then have "target (dpos D S (pre @ [x])) \<noteq> Equal" by (simp add: passed_def passes_def)
    then have "find_item True D target bias (dpos D S pre) (zip (x # xs) (map (sm_item S) (x # xs)))
      = find_item True D target bias (dpos D S (pre @ [x])) (zip xs (map (sm_item S) xs))"
      by (simp add: Let_def dim_item[OF okx])
    moreover have "seek_scan D S target Left pre (x # xs) = seek_scan D S target Left (pre @ [x]) xs"
      using True by (simp add: seek_scan_def)
    ultimately show ?thesis using Cons.IH[OF prems] by simp
  next
    case stop: False
    have less: "fst (find_item True D target bias (dpos D S (pre @ ys)) (zip zs (map (sm_item S) zs))) = None"
      if "target (dpos D S (pre @ [x])) = Less" "x # xs = ys @ zs" "ys \<noteq> []" for ys zs
      using that
    proof (induction zs arbitrary: ys)
      case (Cons z zs)
      have "ok (pre @ ys @ [z])"
        using \<open>ok (pre @ x # xs)\<close> Cons.prems(2) ok_appendD1[of "pre @ ys @ [z]" zs] by simp
      moreover obtain y ys' where ys: "ys = y # ys'" using Cons.prems(3) by (cases ys) auto
      then have "cmp_rank (target (dpos D S ((pre @ [x]) @ ys' @ [z]))) \<le> cmp_rank (target (dpos D S (pre @ [x])))"
        using mono_targetD[of D S target "pre @ [x]" "ys' @ [z]" zs] \<open>mono_target D S target (pre @ x # xs)\<close>
          Cons.prems(2) ys by simp
      then have "target (dpos D S ((pre @ ys) @ [z])) = Less"
        using Cons.prems(1,2) ys by (cases "target (dpos D S ((pre @ ys) @ [z]))") auto
      ultimately show ?case
        using Cons.IH[of "ys @ [z]"] Cons.prems by (simp add: Let_def dim_item)
    qed simp
    have "target (dpos D S (pre @ [x])) = Less \<or> target (dpos D S (pre @ [x])) = Equal"
      using stop by (auto simp: passed_def passes_not)
    then show ?thesis using stop less[of "[x]" xs]
      by (auto simp: Let_def dim_item[OF okx] seek_scan_def exact_at_def)
  qed
qed (simp add: seek_scan_def exact_at_def)

lemma find_iterate_exact_ok:
  assumes "wf_node S t" "ok (pre @ tree_items t @ zs)" "mono_target D S target (pre @ tree_items t @ zs)"
    and "\<not> passed D S target Left (pre @ tree_items t)"
  shows "exact_at D S target (seek_scan D S target Left pre (tree_items t @ zs))
     (find_iterate True D target Left (dpos D S pre) t)"
  using assms
proof (induction t arbitrary: pre zs)
  case (Leaf s xs xss)
  obtain p r where scan: "seek_scan D S target Left pre xs = (p, r)" by force
  have w: "seek_scan D S target Left pre (xs @ zs) = (p, r @ zs) \<and> r \<noteq> []"
    using scan_within[of "passed D S target Left" pre xs p r zs] scan Leaf.prems
    by (simp add: seek_scan_def)
  then obtain x r' where r: "r = x # r'" by (cases r) auto
  have "ok (pre @ xs)" "mono_target D S target (pre @ xs)"
    using Leaf.prems(2,3) ok_appendD1[of "pre @ xs" zs] mono_target_appendD[of D S target "pre @ xs" zs]
    by simp_all
  from find_item_exact_ok[OF this] show ?case using w scan Leaf.prems(1) by (simp add: r exact_at_def)
next
  case (Internal h s css cts)
  obtain k where kids: "wf_kids S k cts" and css: "css = map summary cts"
    using Internal.prems(1) by (auto simp: wf_node_Internal simp del: wf_node.simps)
  obtain r p where fc: "find_child D target Left (dpos D S pre) (zip cts css) = (r, p)" by force
  have prems: "ok (pre @ concat (map tree_items cts) @ zs)"
      "mono_target D S target (pre @ concat (map tree_items cts) @ zs)"
    using Internal.prems by simp_all
  note ch = find_child_ok[OF kids prems fc[unfolded css]]
  have "r \<noteq> None" using find_child_None[OF Internal.prems(1) _ _ _ fc] Internal.prems prems
      ok_appendD1[of "pre @ concat (map tree_items cts)" zs]
      mono_target_appendD[of D S target "pre @ concat (map tree_items cts)" zs] by simp
  then obtain c where Some: "r = Some c" by blast
  then obtain as bs where c: "cts = as @ c # bs" "p = dpos D S (pre @ concat (map tree_items as))"
    "\<not> passed D S target Left ((pre @ concat (map tree_items as)) @ tree_items c)"
    "seek_scan D S target Left pre (concat (map tree_items cts) @ zs)
        = seek_scan D S target Left (pre @ concat (map tree_items as))
            (tree_items c @ concat (map tree_items bs) @ zs)"
    using ch by auto
  have "c \<in> set cts" "wf_node S c" using c(1) kids by auto
  have it: "find_iterate True D target Left (dpos D S pre) (Internal h s css cts)
      = find_iterate True D target Left (dpos D S (pre @ concat (map tree_items as))) c"
    using fc Some c(2) by simp
  have sc: "seek_scan D S target Left pre (tree_items (Internal h s css cts) @ zs)
      = seek_scan D S target Left (pre @ concat (map tree_items as))
          (tree_items c @ concat (map tree_items bs) @ zs)"
    using c(4) by simp
  show ?case unfolding it sc
    using prems c(1,3) by (intro Internal.IH[OF \<open>c \<in> set cts\<close> \<open>wf_node S c\<close>]) simp_all
qed

lemma stree_find_exact_ok:
  assumes "wf_tree S t" "ok (tree_items t)" "mono_target D S target (tree_items t)"
  shows "case seek_scan D S target Left [] (tree_items t) of
       (p, []) \<Rightarrow> snd (snd (stree_find_exact D t target Left)) = None
     | (p, x # r) \<Rightarrow> (if target (dpos D S (p @ [x])) = Equal
         then stree_find_exact D t target Left = (dpos D S p, dpos D S (p @ [x]), Some x)
         else snd (snd (stree_find_exact D t target Left)) = None)"
proof (cases "tree_items t = []")
  case True
  then have "t = stree_new S" using wf_tree_items_empty[OF assms(1)] by simp
  then show ?thesis
    by (simp add: stree_find_exact_def stree_find_gen_def Let_def stree_new_def seek_scan_def)
next
  case ne: False
  then have wf: "wf_node S t" using assms(1) by (auto simp: wf_tree_def)
  show ?thesis
  proof (cases "passed D S target Left (tree_items t)")
    case True
    have "seek_scan D S target Left [] (tree_items t @ []) = seek_scan D S target Left ([] @ tree_items t) []"
      by (rule scan_mono_skip[OF assms(3)]) (use True in simp_all)
    then have "seek_scan D S target Left [] (tree_items t) = (tree_items t, [])"
      by (simp add: seek_scan_def)
    then show ?thesis using True
      by (simp add: stree_find_exact_def stree_find_gen_def Let_def passes_def passed_def extent_ok[OF assms(1)])
  next
    case False
    let ?it = "find_iterate True D target Left (dm_zero D) t"
    have "exact_at D S target (seek_scan D S target Left [] (tree_items t)) ?it"
      using find_iterate_exact_ok[OF wf, of "[]" "[]" target] assms False by simp
    moreover have "stree_find_exact D t target Left = (case ?it of
        (Some (item, e), pos) \<Rightarrow> (pos, e, Some item) | (None, pos) \<Rightarrow> (pos, pos, None))"
      using False
      by (simp add: stree_find_exact_def stree_find_gen_def Let_def passes_def passed_def extent_ok[OF assms(1)])
    ultimately show ?thesis
      by (auto simp: exact_at_def split: prod.splits list.splits option.splits if_splits)
  qed
qed

text \<open>\<open>find_with_prev\<close>: the item found together with the item before it.\<close>

lemma find_item_prev_ok:
  assumes "ok (pre @ xs)"
  shows "find_item_prev D target bias (last_opt pre) (dpos D S pre) (zip xs (map (sm_item S) xs)) =
    (case seek_scan D S target bias pre xs of
       (p, []) \<Rightarrow> (None, dpos D S p)
     | (p, x # r) \<Rightarrow> (Some (last_opt p, x, dpos D S (p @ [x])), dpos D S p))"
  using assms
proof (induction xs arbitrary: pre)
  case (Cons x xs)
  have "ok (pre @ [x])" using Cons.prems ok_appendD1[of "pre @ [x]" xs] by simp
  then show ?case using Cons.IH[of "pre @ [x]"] Cons.prems
    by (simp add: Let_def found_iff dim_item seek_scan_def passed_def last_opt_append)
qed (simp add: seek_scan_def)

lemma find_with_prev_iterate_ok:
  assumes "wf_node S t" "ok (pre @ tree_items t @ zs)" "mono_target D S target (pre @ tree_items t @ zs)"
    and "\<not> passed D S target bias (pre @ tree_items t)"
  shows "\<exists>p x r. seek_scan D S target bias pre (tree_items t @ zs) = (p, x # r)
     \<and> find_with_prev_iterate D target bias (last_opt pre) (dpos D S pre) t
         = Some (Some (last_opt p, x, dpos D S (p @ [x])), dpos D S p)"
  using assms
proof (induction t arbitrary: pre zs)
  case (Leaf s xs xss)
  obtain p r where scan: "seek_scan D S target bias pre xs = (p, r)" by force
  have w: "seek_scan D S target bias pre (xs @ zs) = (p, r @ zs) \<and> r \<noteq> []"
    using scan_within[of "passed D S target bias" pre xs p r zs] scan Leaf.prems
    by (simp add: seek_scan_def)
  then obtain x r' where r: "r = x # r'" by (cases r) auto
  have "ok (pre @ xs)" using Leaf.prems(2) ok_appendD1[of "pre @ xs" zs] by simp
  then show ?case using w scan Leaf.prems(1) by (simp add: find_item_prev_ok r)
next
  case (Internal h s css cts)
  obtain k where kids: "wf_kids S k cts" and css: "css = map summary cts"
    using Internal.prems(1) by (auto simp: wf_node_Internal simp del: wf_node.simps)
  obtain r p where fc: "find_child D target bias (dpos D S pre) (zip cts css) = (r, p)" by force
  have prems: "ok (pre @ concat (map tree_items cts) @ zs)"
      "mono_target D S target (pre @ concat (map tree_items cts) @ zs)"
    using Internal.prems by simp_all
  note ch = find_child_ok[OF kids prems fc[unfolded css]]
  have "r \<noteq> None" using find_child_None[OF Internal.prems(1) _ _ _ fc] Internal.prems prems
      ok_appendD1[of "pre @ concat (map tree_items cts)" zs]
      mono_target_appendD[of D S target "pre @ concat (map tree_items cts)" zs] by simp
  then obtain c where Some: "r = Some c" by blast
  then obtain as bs where c: "cts = as @ c # bs" "p = dpos D S (pre @ concat (map tree_items as))"
    "\<not> passed D S target bias ((pre @ concat (map tree_items as)) @ tree_items c)"
    "find_child_prev D target bias (last_opt pre) (dpos D S pre) (zip cts css)
       = Some (Some c, last_opt (pre @ concat (map tree_items as)), p)"
    "seek_scan D S target bias pre (concat (map tree_items cts) @ zs)
        = seek_scan D S target bias (pre @ concat (map tree_items as))
            (tree_items c @ concat (map tree_items bs) @ zs)"
    using ch css by auto
  have "c \<in> set cts" "wf_node S c" using c(1) kids by auto
  have it: "find_with_prev_iterate D target bias (last_opt pre) (dpos D S pre) (Internal h s css cts)
      = find_with_prev_iterate D target bias (last_opt (pre @ concat (map tree_items as)))
          (dpos D S (pre @ concat (map tree_items as))) c"
    using c(2,4) by simp
  have sc: "seek_scan D S target bias pre (tree_items (Internal h s css cts) @ zs)
      = seek_scan D S target bias (pre @ concat (map tree_items as))
          (tree_items c @ concat (map tree_items bs) @ zs)"
    using c(5) by simp
  show ?case unfolding it sc
    using prems c(1,3) by (intro Internal.IH[OF \<open>c \<in> set cts\<close> \<open>wf_node S c\<close>]) simp_all
qed

lemma stree_find_with_prev_ok:
  assumes "wf_tree S t" "ok (tree_items t)" "mono_target D S target (tree_items t)"
  shows "stree_find_with_prev D t target bias = Some
    (case seek_scan D S target bias [] (tree_items t) of
       (p, []) \<Rightarrow> (dpos D S p, dpos D S p, None)
     | (p, x # r) \<Rightarrow> (dpos D S p, dpos D S (p @ [x]), Some (last_opt p, x)))"
proof (cases "tree_items t = []")
  case True
  then have "t = stree_new S" using wf_tree_items_empty[OF assms(1)] by simp
  then show ?thesis
    using extent_ok[OF assms(1)]
    by (simp add: stree_find_with_prev_def Let_def stree_new_def seek_scan_def)
next
  case ne: False
  then have wf: "wf_node S t" using assms(1) by (auto simp: wf_tree_def)
  show ?thesis
  proof (cases "passed D S target bias (tree_items t)")
    case True
    have "seek_scan D S target bias [] (tree_items t @ []) = seek_scan D S target bias ([] @ tree_items t) []"
      by (rule scan_mono_skip[OF assms(3)]) (use True in simp_all)
    then have "seek_scan D S target bias [] (tree_items t) = (tree_items t, [])"
      by (simp add: seek_scan_def)
    then show ?thesis using True
      by (simp add: stree_find_with_prev_def Let_def passed_iff passed_def extent_ok[OF assms(1)])
  next
    case False
    have "\<exists>p x r. seek_scan D S target bias [] (tree_items t) = (p, x # r) \<and>
      find_with_prev_iterate D target bias (last_opt []) (dm_zero D) t
        = Some (Some (last_opt p, x, dpos D S (p @ [x])), dpos D S p)"
      using find_with_prev_iterate_ok[OF wf, of "[]" "[]" target bias] assms False by simp
    then obtain p x r where "seek_scan D S target bias [] (tree_items t) = (p, x # r)"
      "find_with_prev_iterate D target bias None (dm_zero D) t
        = Some (Some (last_opt p, x, dpos D S (p @ [x])), dpos D S p)"
      by auto
    then show ?thesis using False
      by (simp add: stree_find_with_prev_def Let_def passed_iff passed_def extent_ok[OF assms(1)])
  qed
qed

end

end
