(* ===== verification/Cursor.thy ===== *)
theory Cursor
  imports Seek
begin

text \<open>
  The cursors of \<open>crates/sum_tree/src/cursor.rs\<close>: a stack of (node, child index, position)
  entries from the root to the current leaf, with the seeking loop shared by \<open>seek\<close>,
  \<open>seek_forward\<close>, \<open>slice\<close> and \<open>summary\<close>, the filtered walks in both directions, the plain
  iterator and the filter cursor. Stacks are lists with the innermost entry first; a push
  beyond the capacity of 16 entries panics. Closures passed as filters are pure predicates.
\<close>

section \<open>State\<close>

definition STACK_CAP :: nat where
  "STACK_CAP = 16"

record ('a, 's, 'd) stack_entry =
  se_tree :: "('a, 's) stree"
  se_index :: nat
  se_position :: 'd

record ('a, 's, 'd) cursor =
  c_tree :: "('a, 's) stree"
  c_stack :: "('a, 's, 'd) stack_entry list"
  c_position :: 'd
  c_did_seek :: bool
  c_at_end :: bool

definition entry :: "('a, 's) stree \<Rightarrow> nat \<Rightarrow> 'd \<Rightarrow> ('a, 's, 'd) stack_entry" where
  "entry t i p = \<lparr>se_tree = t, se_index = i, se_position = p\<rparr>"

definition stack_push :: "'e list \<Rightarrow> 'e \<Rightarrow> 'e list option" where
  "stack_push st e = (if length st < STACK_CAP then Some (e # st) else None)"

definition cursor_new :: "('d, 's) dim_ops \<Rightarrow> ('a, 's) stree \<Rightarrow> ('a, 's, 'd) cursor" where
  "cursor_new D t = \<lparr>c_tree = t, c_stack = [], c_position = dm_zero D, c_did_seek = False,
     c_at_end = is_empty t\<rparr>"

definition cursor_reset :: "('d, 's) dim_ops \<Rightarrow> ('a, 's, 'd) cursor \<Rightarrow> ('a, 's, 'd) cursor" where
  "cursor_reset D c = c\<lparr>c_did_seek := False, c_at_end := is_empty (c_tree c), c_stack := [],
     c_position := dm_zero D\<rparr>"

section \<open>Reading the cursor\<close>

definition cursor_item :: "('a, 's, 'd) cursor \<Rightarrow> 'a option option" where
  "cursor_item c = do {
     _ \<leftarrow> assert_opt (c_did_seek c);
     case c_stack c of
       [] \<Rightarrow> Some None
     | e # _ \<Rightarrow> do {
         xs \<leftarrow> leaf_items (se_tree e);
         if se_index e = length xs then Some None else map_option Some (nth_opt xs (se_index e))
       }
   }"

definition cursor_item_summary :: "('a, 's, 'd) cursor \<Rightarrow> 's option option" where
  "cursor_item_summary c = do {
     _ \<leftarrow> assert_opt (c_did_seek c);
     case c_stack c of
       [] \<Rightarrow> Some None
     | e # _ \<Rightarrow> do {
         _ \<leftarrow> leaf_items (se_tree e);
         let xss = child_summaries (se_tree e);
         if se_index e = length xss then Some None else map_option Some (nth_opt xss (se_index e))
       }
   }"

definition cursor_end :: "('d, 's) dim_ops \<Rightarrow> ('a, 's, 'd) cursor \<Rightarrow> 'd option" where
  "cursor_end D c = do {
     s \<leftarrow> cursor_item_summary c;
     Some (case s of None \<Rightarrow> c_position c | Some s' \<Rightarrow> dm_add D (c_position c) s')
   }"

fun next_leaf :: "('a, 's, 'd) stack_entry list \<Rightarrow> ('a, 's) stree option option" where
  "next_leaf [] = Some None"
| "next_leaf (e # es) = do {
     cts \<leftarrow> child_trees (se_tree e);
     n \<leftarrow> csub (length cts) 1;
     if se_index e < n
     then do { c \<leftarrow> nth_opt cts (se_index e + 1); map_option Some (leftmost_leaf c) }
     else next_leaf es
   }"

fun prev_leaf :: "('a, 's, 'd) stack_entry list \<Rightarrow> ('a, 's) stree option option" where
  "prev_leaf [] = Some None"
| "prev_leaf (e # es) =
     (if se_index e \<noteq> 0
      then do {
        cts \<leftarrow> child_trees (se_tree e);
        c \<leftarrow> nth_opt cts (se_index e - 1);
        map_option Some (rightmost_leaf c)
      } else prev_leaf es)"

definition cursor_next_item :: "('a, 's, 'd) cursor \<Rightarrow> 'a option option" where
  "cursor_next_item c = do {
     _ \<leftarrow> assert_opt (c_did_seek c);
     case c_stack c of
       e # es \<Rightarrow> do {
         xs \<leftarrow> leaf_items (se_tree e);
         n \<leftarrow> csub (length xs) 1;
         if se_index e = n then do {
           l \<leftarrow> next_leaf es;
           case l of
             None \<Rightarrow> Some None
           | Some leaf \<Rightarrow> do { ys \<leftarrow> leaf_items leaf; y \<leftarrow> first_opt ys; Some (Some y) }
         } else map_option Some (nth_opt xs (se_index e + 1))
       }
     | [] \<Rightarrow> if c_at_end c then Some None else stree_first (c_tree c)
   }"

definition cursor_prev_item :: "('a, 's, 'd) cursor \<Rightarrow> 'a option option" where
  "cursor_prev_item c = do {
     _ \<leftarrow> assert_opt (c_did_seek c);
     case c_stack c of
       e # es \<Rightarrow>
         if se_index e = 0 then do {
           l \<leftarrow> prev_leaf es;
           case l of
             None \<Rightarrow> Some None
           | Some leaf \<Rightarrow> do { ys \<leftarrow> leaf_items leaf; y \<leftarrow> last_opt ys; Some (Some y) }
         } else do {
           xs \<leftarrow> leaf_items (se_tree e);
           map_option Some (nth_opt xs (se_index e - 1))
         }
     | [] \<Rightarrow> if c_at_end c then stree_last (c_tree c) else Some None
   }"

section \<open>Seeking\<close>

text \<open>What a seek does with the items and subtrees it passes (\<open>begin_leaf\<close> does nothing in
  every implementation of the trait and is left out).\<close>

record ('a, 's, 'g) seek_aggregate =
  ag_end_leaf :: "'g \<Rightarrow> 'g option"
  ag_push_item :: "'g \<Rightarrow> 'a \<Rightarrow> 's \<Rightarrow> 'g option"
  ag_push_tree :: "'g \<Rightarrow> ('a, 's) stree \<Rightarrow> 's \<Rightarrow> 'g option"

fun seek_children ::
  "('d, 's) dim_ops \<Rightarrow> 'd seek_target \<Rightarrow> bias \<Rightarrow> ('a, 's, 'g) seek_aggregate
   \<Rightarrow> 'd \<times> 'g \<times> nat \<times> 'd \<Rightarrow> (('a, 's) stree \<times> 's) list
   \<Rightarrow> (('d \<times> 'g \<times> nat \<times> 'd) \<times> ('a, 's) stree option) option" where
  "seek_children D target bias A st [] = Some (st, None)"
| "seek_children D target bias A (pos, g, i, ep) ((child, s) # rest) =
     (let child_end = dm_add D pos s; comparison = target child_end in
      if comparison = Greater \<or> (comparison = Equal \<and> bias = Right)
      then do {
        g' \<leftarrow> ag_push_tree A g child s;
        seek_children D target bias A (child_end, g', i + 1, child_end) rest
      } else Some ((pos, g, i, ep), Some child))"

text \<open>The items of a leaf; the flag says that the target was reached.\<close>

fun seek_items ::
  "('d, 's) dim_ops \<Rightarrow> 'd seek_target \<Rightarrow> bias \<Rightarrow> ('a, 's, 'g) seek_aggregate
   \<Rightarrow> 'd \<times> 'g \<times> nat \<Rightarrow> ('a \<times> 's) list \<Rightarrow> (('d \<times> 'g \<times> nat) \<times> bool) option" where
  "seek_items D target bias A st [] = Some (st, False)"
| "seek_items D target bias A (pos, g, i) ((item, s) # rest) =
     (let child_end = dm_add D pos s; comparison = target child_end in
      if comparison = Greater \<or> (comparison = Equal \<and> bias = Right)
      then do {
        g' \<leftarrow> ag_push_item A g item s;
        seek_items D target bias A (child_end, g', i + 1) rest
      } else Some ((pos, g, i), True))"

text \<open>Termination: every round of a loop consumes part of the tree that lies ahead of
  (or, for the backward walk, behind) the stack.\<close>

fun tweight :: "('a, 's) stree \<Rightarrow> nat" where
  "tweight (Internal h s css cts) = 2 + length css + sum_list (map tweight cts)"
| "tweight (Leaf s xs xss) = 2 + length xss"

fun kids :: "('a, 's) stree \<Rightarrow> ('a, 's) stree list" where
  "kids (Internal h s css cts) = cts"
| "kids (Leaf s xs xss) = []"

definition ahead :: "nat \<Rightarrow> ('a, 's) stree \<Rightarrow> nat" where
  "ahead k t = 1 + sum_list (map tweight (drop k (kids t)))"

definition stack_ahead :: "bool \<Rightarrow> ('a, 's, 'd) stack_entry list \<Rightarrow> nat" where
  "stack_ahead moved st = (case st of [] \<Rightarrow> 0 | e # es \<Rightarrow>
     ahead (if moved then se_index e + 1 else se_index e) (se_tree e)
     + sum_list (map (\<lambda>f. ahead (se_index f + 1) (se_tree f)) es))"

lemma ahead_push:
  assumes "k \<le> i" "i < length (kids t)"
  shows "ahead (Suc i) t + ahead 0 (kids t ! i) < ahead k t"
proof -
  have "drop k (kids t) = take (i - k) (drop k (kids t)) @ (kids t ! i) # drop (Suc i) (kids t)"
    using assms id_take_nth_drop[of "i - k" "drop k (kids t)"] by simp
  then have "sum_list (map tweight (drop k (kids t))) \<ge> tweight (kids t ! i) + sum_list (map tweight (drop (Suc i) (kids t)))"
    by (metis le_add2 list.simps(9) map_append sum_list.Cons sum_list_append)
  moreover have "ahead 0 (kids t ! i) < tweight (kids t ! i)" by (cases "kids t ! i") (auto simp: ahead_def)
  ultimately show ?thesis unfolding ahead_def by linarith
qed

lemma ahead_pos [simp]: "0 < ahead k t"
  by (simp add: ahead_def)

lemma stack_ahead_pop: "stack_ahead True es < stack_ahead m (e # es)"
  by (cases es) (auto simp: stack_ahead_def)

lemma stack_ahead_push:
  assumes "(if m then se_index e + 1 else se_index e) \<le> i" "i < length (kids (se_tree e))"
    "se_tree e' = se_tree e" "se_index e' = i" "se_tree f = kids (se_tree e) ! i" "se_index f = 0"
  shows "stack_ahead False (f # e' # es) < stack_ahead m (e # es)"
  using ahead_push[OF assms(1,2)] assms(3-6) by (simp add: stack_ahead_def)

lemma seek_children_found:
  "seek_children D target bias A (pos, g, i, ep) (zip kts kss) = Some ((pos', g', i', ep'), Some c) \<Longrightarrow>
   i \<le> i' \<and> i' - i < length kts \<and> c = kts ! (i' - i)"
proof (induction kts arbitrary: pos g i ep kss)
  case (Cons k kts)
  then obtain s kss' where [simp]: "kss = s # kss'" by (cases kss) auto
  show ?case
  proof (cases "passes bias (target (dm_add D pos s))")
    case True
    then obtain g'' where "seek_children D target bias A (dm_add D pos s, g'', Suc i, dm_add D pos s) (zip kts kss')
        = Some ((pos', g', i', ep'), Some c)"
      using Cons.prems by (auto simp: Let_def passed_iff bind_eq_Some_conv)
    from Cons.IH[OF this] show ?thesis by (auto simp: nth_Cons' Suc_diff_le)
  qed (use Cons.prems in \<open>auto simp: Let_def passed_iff\<close>)
qed simp

lemma seek_push_weight:
  assumes "se_tree e = Internal h s css cts" "i = (if m then Suc (se_index e) else se_index e)" "i \<le> length cts"
    "seek_children D target bias A (pos, g, i, ep) (zip (drop i cts) (drop i css)) = Some ((pos', g', i', ep'), Some c)"
  shows "stack_ahead False (entry c 0 pos' # entry (Internal h s css cts) i' ep' # es) < stack_ahead m (e # es)"
  using seek_children_found[OF assms(4)] assms(1-3)
  by (intro stack_ahead_push[of m e i']) (auto simp: entry_def)

lemmas seek_push_weights = seek_push_weight[where m = True, simplified] seek_push_weight[where m = False, simplified]

function seek_loop ::
  "('d, 's) dim_ops \<Rightarrow> 'd seek_target \<Rightarrow> bias \<Rightarrow> ('a, 's, 'g) seek_aggregate
   \<Rightarrow> ('a, 's, 'd) stack_entry list \<Rightarrow> 'd \<Rightarrow> 'g \<Rightarrow> bool
   \<Rightarrow> (('a, 's, 'd) stack_entry list \<times> 'd \<times> 'g) option" where
  "seek_loop D target bias A [] pos g ascending = Some ([], pos, g)"
| "seek_loop D target bias A (e # es) pos g ascending =
     (case se_tree e of
        Internal h s css cts \<Rightarrow>
          let i = (if ascending then se_index e + 1 else se_index e);
              ep = (if ascending then pos else se_position e) in
          (case (slice_from i cts, slice_from i css) of
             (Some kts, Some kss) \<Rightarrow>
               (case seek_children D target bias A (pos, g, i, ep) (zip kts kss) of
                  None \<Rightarrow> None
                | Some ((pos', g', i', ep'), Some child) \<Rightarrow>
                    (case stack_push (entry (se_tree e) i' ep' # es) (entry child 0 pos') of
                       None \<Rightarrow> None
                     | Some st \<Rightarrow> seek_loop D target bias A st pos' g' False)
                | Some ((pos', g', i', ep'), None) \<Rightarrow> seek_loop D target bias A es pos' g' True)
           | _ \<Rightarrow> None)
      | Leaf s xs xss \<Rightarrow>
          (case (slice_from (se_index e) xs, slice_from (se_index e) xss) of
             (Some its, Some ss) \<Rightarrow>
               (case seek_items D target bias A (pos, g, se_index e) (zip its ss) of
                  None \<Rightarrow> None
                | Some ((pos', g', i'), reached) \<Rightarrow>
                    (case ag_end_leaf A g' of
                       None \<Rightarrow> None
                     | Some g'' \<Rightarrow>
                         if reached then Some (entry (se_tree e) i' (se_position e) # es, pos', g'')
                         else seek_loop D target bias A es pos' g'' True))
           | _ \<Rightarrow> None))"
  by pat_completeness auto
termination
  by (relation "measure (\<lambda>(D, target, bias, A, st, pos, g, m). stack_ahead m st)")
     (auto simp: stack_ahead_pop slice_from_def stack_push_def split: if_splits intro: seek_push_weights)

declare seek_loop.simps(2) [simp del]

text \<open>\<open>seek_internal\<close>: the result is whether the target was found, the moved cursor and the
  aggregate.\<close>

definition seek_internal ::
  "('d, 's) dim_ops \<Rightarrow> 'd seek_target \<Rightarrow> bias \<Rightarrow> ('a, 's, 'g) seek_aggregate
   \<Rightarrow> ('a, 's, 'd) cursor \<Rightarrow> 'g \<Rightarrow> (bool \<times> ('a, 's, 'd) cursor \<times> 'g) option" where
  "seek_internal D target bias A c g = do {
     _ \<leftarrow> assert_opt (target (c_position c) \<noteq> Less);
     st \<leftarrow> (if c_did_seek c then Some (c_stack c)
           else stack_push (c_stack c) (entry (c_tree c) 0 (dm_zero D)));
     (st', pos', g') \<leftarrow> seek_loop D target bias A st (c_position c) g False;
     let c' = c\<lparr>c_stack := st', c_position := pos', c_did_seek := True, c_at_end := (st' = [])\<rparr>;
     e \<leftarrow> (if bias = Left then cursor_end D c' else Some pos');
     Some (target e = Equal, c', g')
   }"

definition unit_aggregate :: "('a, 's, unit) seek_aggregate" where
  "unit_aggregate = \<lparr>ag_end_leaf = Some, ag_push_item = (\<lambda>g x s. Some g), ag_push_tree = (\<lambda>g t s. Some g)\<rparr>"

definition cursor_seek ::
  "('d, 's) dim_ops \<Rightarrow> 'd seek_target \<Rightarrow> bias \<Rightarrow> ('a, 's, 'd) cursor
   \<Rightarrow> (bool \<times> ('a, 's, 'd) cursor) option" where
  "cursor_seek D target bias c = do {
     (found, c', _) \<leftarrow> seek_internal D target bias unit_aggregate (cursor_reset D c) ();
     Some (found, c')
   }"

definition cursor_seek_forward ::
  "('d, 's) dim_ops \<Rightarrow> 'd seek_target \<Rightarrow> bias \<Rightarrow> ('a, 's, 'd) cursor
   \<Rightarrow> (bool \<times> ('a, 's, 'd) cursor) option" where
  "cursor_seek_forward D target bias c = do {
     (found, c', _) \<leftarrow> seek_internal D target bias unit_aggregate c ();
     Some (found, c')
   }"

text \<open>The slice aggregate: whole subtrees are appended, the items of a leaf are collected and
  appended as a new leaf when the leaf is left.\<close>

record ('a, 's) slice_state =
  sl_tree :: "('a, 's) stree"
  sl_items :: "'a list"
  sl_summaries :: "'s list"
  sl_summary :: 's

definition slice_new :: "('a, 's) summary_ops \<Rightarrow> ('a, 's) slice_state" where
  "slice_new S = \<lparr>sl_tree = stree_new S, sl_items = [], sl_summaries = [], sl_summary = sm_zero S\<rparr>"

definition slice_end_leaf ::
  "('a, 's) summary_ops \<Rightarrow> ('a, 's) slice_state \<Rightarrow> ('a, 's) slice_state option" where
  "slice_end_leaf S g = do {
     t \<leftarrow> stree_append S (sl_tree g) (Leaf (sl_summary g) (sl_items g) (sl_summaries g));
     Some \<lparr>sl_tree = t, sl_items = [], sl_summaries = [], sl_summary = sm_zero S\<rparr>
   }"

definition slice_push_item ::
  "('a, 's) summary_ops \<Rightarrow> ('a, 's) slice_state \<Rightarrow> 'a \<Rightarrow> 's \<Rightarrow> ('a, 's) slice_state option" where
  "slice_push_item S g item s = do {
     xs \<leftarrow> av_push CAP (sl_items g) item;
     xss \<leftarrow> av_push CAP (sl_summaries g) s;
     Some (g\<lparr>sl_items := xs, sl_summaries := xss, sl_summary := sm_add S (sl_summary g) s\<rparr>)
   }"

definition slice_push_tree ::
  "('a, 's) summary_ops \<Rightarrow> ('a, 's) slice_state \<Rightarrow> ('a, 's) stree \<Rightarrow> 's \<Rightarrow> ('a, 's) slice_state option" where
  "slice_push_tree S g t s = do { t' \<leftarrow> stree_append S (sl_tree g) t; Some (g\<lparr>sl_tree := t'\<rparr>) }"

definition slice_aggregate ::
  "('a, 's) summary_ops \<Rightarrow> ('a, 's, ('a, 's) slice_state) seek_aggregate" where
  "slice_aggregate S = \<lparr>ag_end_leaf = slice_end_leaf S, ag_push_item = slice_push_item S,
     ag_push_tree = slice_push_tree S\<rparr>"

definition cursor_slice ::
  "('a, 's) summary_ops \<Rightarrow> ('d, 's) dim_ops \<Rightarrow> 'd seek_target \<Rightarrow> bias \<Rightarrow> ('a, 's, 'd) cursor
   \<Rightarrow> (('a, 's) stree \<times> ('a, 's, 'd) cursor) option" where
  "cursor_slice S D target bias c = do {
     (_, c', g) \<leftarrow> seek_internal D target bias (slice_aggregate S) c (slice_new S);
     Some (sl_tree g, c')
   }"

definition seek_end :: "'d seek_target" where
  "seek_end d = Greater"

definition cursor_suffix ::
  "('a, 's) summary_ops \<Rightarrow> ('d, 's) dim_ops \<Rightarrow> ('a, 's, 'd) cursor
   \<Rightarrow> (('a, 's) stree \<times> ('a, 's, 'd) cursor) option" where
  "cursor_suffix S D c = cursor_slice S D seek_end Right c"

definition summary_aggregate :: "('e, 's) dim_ops \<Rightarrow> ('a, 's, 'e) seek_aggregate" where
  "summary_aggregate E = \<lparr>ag_end_leaf = Some, ag_push_item = (\<lambda>g x s. Some (dm_add E g s)),
     ag_push_tree = (\<lambda>g t s. Some (dm_add E g s))\<rparr>"

definition cursor_summary ::
  "('e, 's) dim_ops \<Rightarrow> ('d, 's) dim_ops \<Rightarrow> 'd seek_target \<Rightarrow> bias \<Rightarrow> ('a, 's, 'd) cursor
   \<Rightarrow> ('e \<times> ('a, 's, 'd) cursor) option" where
  "cursor_summary E D target bias c = do {
     (_, c', g) \<leftarrow> seek_internal D target bias (summary_aggregate E) c (dm_zero E);
     Some (g, c')
   }"

section \<open>Walking forward\<close>

text \<open>Skip the children (or items) rejected by the filter, moving the index, the position of
  the entry and the position of the cursor.\<close>

fun fwd_skip :: "('d, 's) dim_ops \<Rightarrow> ('s \<Rightarrow> bool) \<Rightarrow> nat \<Rightarrow> 'd \<Rightarrow> 'd \<Rightarrow> 's list \<Rightarrow> nat \<times> 'd \<times> 'd" where
  "fwd_skip D F i ep pos [] = (i, ep, pos)"
| "fwd_skip D F i ep pos (s # ss) =
     (if F s then (i, ep, pos) else fwd_skip D F (i + 1) (dm_add D ep s) (dm_add D pos s) ss)"

lemma fwd_skip_index: "fwd_skip D F i ep pos ss = (i', ep', pos') \<Longrightarrow> i \<le> i'"
  by (induction D F i ep pos ss rule: fwd_skip.induct) (auto split: if_splits)

lemma fwd_push_weight:
  assumes "se_tree e = Internal h s css cts" "(if m then Suc (se_index e) else se_index e) \<le> i" "i < length cts"
  shows "stack_ahead False (entry (cts ! i) 0 p # entry (Internal h s css cts) i q # es) < stack_ahead m (e # es)"
  using assms by (intro stack_ahead_push[of m e i]) (auto simp: entry_def)

lemmas fwd_push_weights = fwd_push_weight[where m = True, simplified] fwd_push_weight[where m = False, simplified]

text \<open>The flag of the result is the early return on an accepted item.\<close>

function fwd_loop ::
  "('d, 's) dim_ops \<Rightarrow> ('s \<Rightarrow> bool) \<Rightarrow> ('a, 's, 'd) stack_entry list \<Rightarrow> 'd \<Rightarrow> bool
   \<Rightarrow> (('a, 's, 'd) stack_entry list \<times> 'd \<times> bool) option" where
  "fwd_loop D F [] pos descend = Some ([], pos, False)"
| "fwd_loop D F (e # es) pos descend =
     (case se_tree e of
        Internal h s css cts \<Rightarrow>
          (case fwd_skip D F (if descend then se_index e else se_index e + 1)
                  (if descend then se_position e else pos) pos
                  (drop (if descend then se_index e else se_index e + 1) css) of
             (i', ep', pos') \<Rightarrow>
               (case nth_opt cts i' of
                  Some subtree \<Rightarrow>
                    (case stack_push (entry (se_tree e) i' ep' # es) (entry subtree 0 pos') of
                       None \<Rightarrow> None
                     | Some st \<Rightarrow> fwd_loop D F st pos' True)
                | None \<Rightarrow> fwd_loop D F es pos' False))
      | Leaf s xs xss \<Rightarrow>
          (case (if descend then Some (se_index e, se_position e, pos)
                 else map_option (\<lambda>s. (se_index e + 1, dm_add D (se_position e) s, dm_add D pos s))
                        (nth_opt xss (se_index e))) of
             None \<Rightarrow> None
           | Some (i, ep, pos1) \<Rightarrow>
               (case fwd_skip D F i ep pos1 (drop i xss) of
                  (i', ep', pos') \<Rightarrow>
                    if i' < length xss then Some (entry (se_tree e) i' ep' # es, pos', True)
                    else fwd_loop D F es pos' False)))"
  by pat_completeness auto
termination
  by (relation "measure (\<lambda>(D, F, st, pos, d). stack_ahead (\<not> d) st)")
     (auto simp: stack_ahead_pop nth_opt_def stack_push_def split: if_splits dest!: fwd_skip_index[OF sym] intro: fwd_push_weights)

declare fwd_loop.simps(2) [simp del]

definition search_forward ::
  "('d, 's) dim_ops \<Rightarrow> ('s \<Rightarrow> bool) \<Rightarrow> ('a, 's, 'd) cursor \<Rightarrow> ('a, 's, 'd) cursor option" where
  "search_forward D F c = do {
     (c1, descend) \<leftarrow>
       (if c_stack c = [] then
          (if c_at_end c then Some (c\<lparr>c_did_seek := True\<rparr>, False)
           else do {
             st \<leftarrow> stack_push [] (entry (c_tree c) 0 (dm_zero D));
             Some (c\<lparr>c_stack := st, c_did_seek := True\<rparr>, True)
           })
        else Some (c, False));
     (st', pos', returned) \<leftarrow> fwd_loop D F (c_stack c1) (c_position c1) descend;
     Some (if returned then c1\<lparr>c_stack := st', c_position := pos'\<rparr>
           else c1\<lparr>c_stack := st', c_position := pos', c_at_end := (st' = [])\<rparr>)
   }"

definition cursor_next :: "('d, 's) dim_ops \<Rightarrow> ('a, 's, 'd) cursor \<Rightarrow> ('a, 's, 'd) cursor option" where
  "cursor_next D c = search_forward D (\<lambda>_. True) c"

section \<open>Walking backward\<close>

definition behind :: "nat \<Rightarrow> ('a, 's) stree \<Rightarrow> nat" where
  "behind k t = 1 + k + sum_list (map tweight (take k (kids t)))"

definition stack_behind :: "bool \<Rightarrow> ('a, 's, 'd) stack_entry list \<Rightarrow> nat" where
  "stack_behind descending st = (case st of [] \<Rightarrow> 0 | e # es \<Rightarrow>
     behind (if descending then se_index e + 1 else se_index e) (se_tree e)
     + sum_list (map (\<lambda>f. behind (se_index f) (se_tree f)) es))"

lemma behind_mono: "behind i t < behind (Suc i) t"
proof -
  have "take (Suc i) (kids t) = take i (kids t) @ drop i (take (Suc i) (kids t))"
    by (metis append_take_drop_id lessI less_imp_le min.absorb1 take_take)
  then have "sum_list (map tweight (take i (kids t))) \<le> sum_list (map tweight (take (Suc i) (kids t)))"
    by (metis le_add1 map_append sum_list_append)
  then show ?thesis by (simp add: behind_def)
qed

lemma behind_push:
  assumes "i < length (kids t)" "child_summaries (kids t ! i) \<noteq> []"
  shows "behind i t + behind (length (child_summaries (kids t ! i))) (kids t ! i) < behind (Suc i) t"
proof -
  have "take (Suc i) (kids t) = take i (kids t) @ [kids t ! i]"
    using assms(1) by (rule take_Suc_conv_app_nth)
  moreover have "behind (length (child_summaries (kids t ! i))) (kids t ! i) \<le> tweight (kids t ! i)"
  proof (cases "kids t ! i")
    case (Internal h s css cts)
    have "sum_list (map tweight (take n cts)) \<le> sum_list (map tweight cts)" for n
      by (metis append_take_drop_id le_add1 map_append sum_list_append)
    then show ?thesis by (simp add: Internal behind_def le_SucI)
  qed (simp add: behind_def)
  ultimately show ?thesis by (simp add: behind_def)
qed

lemma stack_behind_pop: "stack_behind False es < stack_behind m (e # es)"
  by (cases es) (auto simp: stack_behind_def behind_def)

lemma stack_behind_step:
  assumes "se_tree e = t" "m \<or> 0 < se_index e" "i = (if m then se_index e else se_index e - Suc 0)"
  shows "stack_behind False (entry t i p # es) < stack_behind m (e # es)"
  using assms behind_mono[of i t] by (auto simp: stack_behind_def entry_def split: if_splits)

lemma stack_behind_push:
  assumes "se_tree e = Internal h s css cts" "m \<or> 0 < se_index e"
    "i = (if m then se_index e else se_index e - Suc 0)"
    "i < length cts" "Suc 0 \<le> length (child_summaries (cts ! i))"
  shows "stack_behind True (entry (cts ! i) (length (child_summaries (cts ! i)) - Suc 0) p
           # entry (Internal h s css cts) i q # es) < stack_behind m (e # es)"
proof -
  have n: "Suc (length (child_summaries (cts ! i)) - Suc 0) = length (child_summaries (cts ! i))"
    "child_summaries (cts ! i) \<noteq> []"
    using assms(5) by auto
  show ?thesis using behind_push[of i "se_tree e"] assms n
    by (auto simp add: stack_behind_def entry_def n(1) split: if_splits)
qed

lemmas stack_behind_steps =
  stack_behind_step[where m = True, simplified] stack_behind_step[where m = False, simplified]
  stack_behind_push[where m = True, simplified] stack_behind_push[where m = False, simplified]

function bwd_loop ::
  "('d, 's) dim_ops \<Rightarrow> ('s \<Rightarrow> bool) \<Rightarrow> ('a, 's, 'd) stack_entry list \<Rightarrow> 'd \<Rightarrow> bool
   \<Rightarrow> (('a, 's, 'd) stack_entry list \<times> 'd) option" where
  "bwd_loop D F [] pos descending = Some ([], pos)"
| "bwd_loop D F (e # es) pos descending =
     (let pos0 = (case es of f # _ \<Rightarrow> se_position f | [] \<Rightarrow> dm_zero D) in
      if \<not> descending \<and> se_index e = 0 then bwd_loop D F es pos0 False
      else let i = (if descending then se_index e else se_index e - 1);
               css = child_summaries (se_tree e) in
      (case (slice_to i css, nth_opt css i) of
         (Some before, Some s) \<Rightarrow>
           let pos1 = foldl (dm_add D) pos0 before; e' = entry (se_tree e) i pos1 in
           (case se_tree e of
              Internal h _ _ cts \<Rightarrow>
                if F s then
                  (case nth_opt cts i of
                     None \<Rightarrow> None
                   | Some child \<Rightarrow>
                       (case csub (length (child_summaries child)) 1 of
                          None \<Rightarrow> None
                        | Some j \<Rightarrow>
                            (case stack_push (e' # es) (entry child j (dm_zero D)) of
                               None \<Rightarrow> None
                             | Some st \<Rightarrow> bwd_loop D F st pos1 True)))
                else bwd_loop D F (e' # es) pos1 False
            | Leaf _ _ _ \<Rightarrow>
                if F s then Some (e' # es, pos1) else bwd_loop D F (e' # es) pos1 False)
       | _ \<Rightarrow> None))"
  by pat_completeness auto
termination
  by (relation "measure (\<lambda>(D, F, st, pos, d). stack_behind d st)")
     (auto simp: stack_behind_pop nth_opt_def stack_push_def csub_def split: if_splits
        intro: stack_behind_steps)

declare bwd_loop.simps(2) [simp del]

definition search_backward ::
  "('d, 's) dim_ops \<Rightarrow> ('s \<Rightarrow> bool) \<Rightarrow> ('a, 's, 'd) cursor \<Rightarrow> ('a, 's, 'd) cursor option" where
  "search_backward D F c = do {
     let c1 = (if c_did_seek c then c else c\<lparr>c_did_seek := True, c_at_end := True\<rparr>);
     c2 \<leftarrow> (if c_at_end c1 then do {
              st \<leftarrow> (if is_empty (c_tree c1) then Some (c_stack c1)
                    else stack_push (c_stack c1)
                           (entry (c_tree c1) (length (child_summaries (c_tree c1)))
                              (dm_add D (dm_zero D) (summary (c_tree c1)))));
              Some (c1\<lparr>c_position := dm_zero D, c_at_end := is_empty (c_tree c1), c_stack := st\<rparr>)
            } else Some c1);
     (st', pos') \<leftarrow> bwd_loop D F (c_stack c2) (c_position c2) False;
     Some (c2\<lparr>c_stack := st', c_position := pos'\<rparr>)
   }"

definition cursor_prev :: "('d, 's) dim_ops \<Rightarrow> ('a, 's, 'd) cursor \<Rightarrow> ('a, 's, 'd) cursor option" where
  "cursor_prev D c = search_backward D (\<lambda>_. True) c"

section \<open>Iterators\<close>

text \<open>A cursor and a filter cursor as iterators: the item under the cursor is returned and the
  cursor moves to the next one (the next accepted one).\<close>

definition filter_iter_next ::
  "('d, 's) dim_ops \<Rightarrow> ('s \<Rightarrow> bool) \<Rightarrow> ('a, 's, 'd) cursor \<Rightarrow> ('a option \<times> ('a, 's, 'd) cursor) option" where
  "filter_iter_next D F c = do {
     c1 \<leftarrow> (if c_did_seek c then Some c else search_forward D F c);
     it \<leftarrow> cursor_item c1;
     case it of
       None \<Rightarrow> Some (None, c1)
     | Some x \<Rightarrow> do { c2 \<leftarrow> search_forward D F c1; Some (Some x, c2) }
   }"

definition cursor_iter_next ::
  "('d, 's) dim_ops \<Rightarrow> ('a, 's, 'd) cursor \<Rightarrow> ('a option \<times> ('a, 's, 'd) cursor) option" where
  "cursor_iter_next D c = do {
     c1 \<leftarrow> (if c_did_seek c then Some c else cursor_next D c);
     it \<leftarrow> cursor_item c1;
     case it of
       None \<Rightarrow> Some (None, c1)
     | Some x \<Rightarrow> do { c2 \<leftarrow> cursor_next D c1; Some (Some x, c2) }
   }"

text \<open>\<open>SumTree::items\<close>: the loop over a cursor of the trivial dimension. A loop that did not
  end would be \<open>None\<close>, like a panic.\<close>

definition unit_dim :: "(unit, 's) dim_ops" where
  "unit_dim = \<lparr>dm_zero = (), dm_add = (\<lambda>_ _. ())\<rparr>"

partial_function (option) items_loop ::
  "('a, 's, unit) cursor \<Rightarrow> 'a list \<Rightarrow> 'a list option" where
  "items_loop c items =
     (case cursor_item c of
        None \<Rightarrow> None
      | Some None \<Rightarrow> Some items
      | Some (Some item) \<Rightarrow>
          (case cursor_next unit_dim c of
             None \<Rightarrow> None
           | Some c' \<Rightarrow> items_loop c' (items @ [item])))"

definition stree_items :: "('a, 's) stree \<Rightarrow> 'a list option" where
  "stree_items t = do { c \<leftarrow> cursor_next unit_dim (cursor_new unit_dim t); items_loop c [] }"

text \<open>The iterator without positions.\<close>

record ('a, 's) iter =
  it_tree :: "('a, 's) stree"
  it_stack :: "('a, 's, unit) stack_entry list"

definition iter_new :: "('a, 's) stree \<Rightarrow> ('a, 's) iter" where
  "iter_new t = \<lparr>it_tree = t, it_stack = []\<rparr>"

function iter_loop ::
  "('a, 's, unit) stack_entry list \<Rightarrow> bool
   \<Rightarrow> ('a option \<times> ('a, 's, unit) stack_entry list) option" where
  "iter_loop [] descend = Some (None, [])"
| "iter_loop (e # es) descend =
     (let i = (if descend then se_index e else se_index e + 1) in
      case se_tree e of
        Internal h s css cts \<Rightarrow>
          (case nth_opt cts i of
             Some subtree \<Rightarrow>
               (case stack_push (entry (se_tree e) i () # es) (entry subtree 0 ()) of
                  None \<Rightarrow> None
                | Some st \<Rightarrow> iter_loop st True)
           | None \<Rightarrow> iter_loop es False)
      | Leaf s xs xss \<Rightarrow>
          (case nth_opt xs i of
             Some item \<Rightarrow> Some (Some item, entry (se_tree e) i () # es)
           | None \<Rightarrow> iter_loop es False))"
  by pat_completeness auto
termination
  by (relation "measure (\<lambda>(st, d). stack_ahead (\<not> d) st)")
     (auto simp: stack_ahead_pop nth_opt_def stack_push_def split: if_splits intro: fwd_push_weights)

declare iter_loop.simps(2) [simp del]

definition iter_next :: "('a, 's) iter \<Rightarrow> ('a option \<times> ('a, 's) iter) option" where
  "iter_next it = do {
     (st, descend) \<leftarrow> (if it_stack it = []
        then do { st \<leftarrow> stack_push [] (entry (it_tree it) 0 ()); Some (st, True) }
        else Some (it_stack it, False));
     (item, st') \<leftarrow> iter_loop st descend;
     Some (item, it\<lparr>it_stack := st'\<rparr>)
   }"

definition iter_last :: "('a, 's) iter \<Rightarrow> 'a option option" where
  "iter_last it = do { l \<leftarrow> rightmost_leaf (it_tree it); stree_last l }"

definition iter_size_hint :: "('a, 's) iter \<Rightarrow> nat option" where
  "iter_size_hint it =
     (case it_stack it of
        e # _ \<Rightarrow> csub (length (child_summaries (se_tree e))) (se_index e)
      | [] \<Rightarrow> Some (length (child_summaries (it_tree it))))"

text \<open>The iterator of the tree, run to its end.\<close>

partial_function (option) collect_iter :: "('a, 's) iter \<Rightarrow> 'a list \<Rightarrow> 'a list option" where
  "collect_iter it acc =
     (case iter_next it of
        None \<Rightarrow> None
      | Some (None, _) \<Rightarrow> Some acc
      | Some (Some x, it') \<Rightarrow> collect_iter it' (acc @ [x]))"

end
