(* ===== verification/CursorSeek.thy ===== *)
theory CursorSeek
  imports Cursor
begin

text \<open>
  Correctness of the seeking loop. A stack is related to the split of the items it stands
  for by \<open>cursor_ctx\<close> and \<open>stack_at\<close>; the contract of an aggregate is the locale
  \<open>seek_aggregate\<close>, discharged for the trivial one, for slices (which yield a well-formed tree
  of exactly the items passed) and for summaries.
\<close>

section \<open>The meaning of a stack\<close>

text \<open>\<open>cursor_ctx D S root es t pre post\<close>: the entries \<open>es\<close> lead from the root to the subtree
  \<open>t\<close>, with the items \<open>pre\<close> before it and \<open>post\<close> after it, and their positions are right.\<close>

inductive cursor_ctx ::
  "('d, 's) dim_ops \<Rightarrow> ('a, 's) summary_ops \<Rightarrow> ('a, 's) stree
   \<Rightarrow> ('a, 's, 'd) stack_entry list \<Rightarrow> ('a, 's) stree \<Rightarrow> 'a list \<Rightarrow> 'a list \<Rightarrow> bool"
  for D S root where
  ctx_root: "cursor_ctx D S root [] root [] []"
| ctx_child: "cursor_ctx D S root es (Internal h s css cts) pre post \<Longrightarrow> i < length cts \<Longrightarrow>
    cursor_ctx D S root
      (entry (Internal h s css cts) i (dpos D S (pre @ concat (map tree_items (take i cts)))) # es)
      (cts ! i) (pre @ concat (map tree_items (take i cts)))
      (concat (map tree_items (drop (Suc i) cts)) @ post)"

inductive_cases cursor_ctx_NilE: "cursor_ctx D S root [] t pre post"
inductive_cases cursor_ctx_ConsE: "cursor_ctx D S root (e # es) t pre post"

definition stack_at ::
  "('d, 's) dim_ops \<Rightarrow> ('a, 's) summary_ops \<Rightarrow> ('a, 's) stree
   \<Rightarrow> ('a, 's, 'd) stack_entry list \<Rightarrow> 'a list \<Rightarrow> 'a list \<Rightarrow> bool" where
  "stack_at D S root st pre post \<longleftrightarrow>
     (case st of
        [] \<Rightarrow> pre = tree_items root \<and> post = []
      | e # es \<Rightarrow> (\<exists>s xs xss pre0 post0. se_tree e = Leaf s xs xss \<and>
          cursor_ctx D S root es (Leaf s xs xss) pre0 post0 \<and> se_index e < length xs \<and>
          pre = pre0 @ take (se_index e) xs \<and> post = drop (se_index e) xs @ post0))"

text \<open>A cursor that has been moved stands between \<open>pre\<close> and \<open>post\<close>.\<close>

definition cursor_at ::
  "('d, 's) dim_ops \<Rightarrow> ('a, 's) summary_ops \<Rightarrow> ('a, 's, 'd) cursor \<Rightarrow> 'a list \<Rightarrow> 'a list \<Rightarrow> bool" where
  "cursor_at D S c pre post \<longleftrightarrow>
     wf_tree S (c_tree c) \<and> height (c_tree c) < STACK_CAP \<and> c_did_seek c \<and>
     c_position c = dpos D S pre \<and> c_at_end c = (c_stack c = []) \<and>
     stack_at D S (c_tree c) (c_stack c) pre post"

text \<open>A cursor that may be moved forward: a fresh one stands before the first item.\<close>

definition cursor_fresh :: "('d, 's) dim_ops \<Rightarrow> ('a, 's) summary_ops \<Rightarrow> ('a, 's, 'd) cursor \<Rightarrow> bool" where
  "cursor_fresh D S c \<longleftrightarrow> wf_tree S (c_tree c) \<and> height (c_tree c) < STACK_CAP \<and> \<not> c_did_seek c \<and>
     c_stack c = [] \<and> c_position c = dm_zero D \<and> c_at_end c = is_empty (c_tree c)"

definition cursor_ready ::
  "('d, 's) dim_ops \<Rightarrow> ('a, 's) summary_ops \<Rightarrow> ('a, 's, 'd) cursor \<Rightarrow> 'a list \<Rightarrow> 'a list \<Rightarrow> bool" where
  "cursor_ready D S c pre post \<longleftrightarrow>
     cursor_at D S c pre post \<or> (cursor_fresh D S c \<and> pre = [] \<and> post = tree_items (c_tree c))"

definition node_before :: "nat \<Rightarrow> ('a, 's) stree \<Rightarrow> 'a list" where
  "node_before i t = (case t of
     Internal h s css cts \<Rightarrow> concat (map tree_items (take i cts)) | Leaf s xs xss \<Rightarrow> take i xs)"

definition node_after :: "nat \<Rightarrow> ('a, 's) stree \<Rightarrow> 'a list" where
  "node_after i t = (case t of
     Internal h s css cts \<Rightarrow> concat (map tree_items (drop i cts)) | Leaf s xs xss \<Rightarrow> drop i xs)"

lemma node_before_after: "node_before i t @ node_after i t = tree_items t"
  by (cases t) (auto simp: node_before_def node_after_def simp flip: concat_append map_append)

lemma node_parts_0 [simp]: "node_before 0 t = []" "node_after 0 t = tree_items t"
  by (cases t; simp add: node_before_def node_after_def)+

lemma concat_split_nth:
  "i < length cts \<Longrightarrow> concat (map f cts)
     = concat (map f (take i cts)) @ f (cts ! i) @ concat (map f (drop (Suc i) cts))"
  by (subst id_take_nth_drop[of i cts]) simp_all

lemma concat_drop_nth:
  "i < length cts \<Longrightarrow> concat (map f (drop i cts)) = f (cts ! i) @ concat (map f (drop (Suc i) cts))"
  by (simp flip: Cons_nth_drop_Suc)

lemma concat_take_nth:
  "i < length cts \<Longrightarrow> concat (map f (take (Suc i) cts)) = concat (map f (take i cts)) @ f (cts ! i)"
  by (simp add: take_Suc_conv_app_nth)

lemma cursor_ctx_items:
  "cursor_ctx D S root es t pre post \<Longrightarrow> pre @ tree_items t @ post = tree_items root"
  by (induction rule: cursor_ctx.induct) (simp_all add: concat_split_nth)

lemma cursor_ctx_wf:
  "cursor_ctx D S root es t pre post \<Longrightarrow> wf_node S root \<Longrightarrow>
   wf_node S t \<and> length es + height t = height root"
proof (induction rule: cursor_ctx.induct)
  case (ctx_child es h s css cts pre post i)
  then have "wf_node S (Internal h s css cts)" by simp
  then have "wf_node S (cts ! i)" "h = Suc (height (cts ! i))" using ctx_child(2) by auto
  then show ?case using ctx_child by simp
qed simp

lemma stack_at_items: "stack_at D S root st pre post \<Longrightarrow> pre @ post = tree_items root"
proof (cases st)
  case (Cons e es)
  assume "stack_at D S root st pre post"
  then obtain s xs xss pre0 post0 where ctx: "cursor_ctx D S root es (Leaf s xs xss) pre0 post0"
    and p: "pre = pre0 @ take (se_index e) xs" "post = drop (se_index e) xs @ post0"
    by (auto simp: stack_at_def Cons)
  show ?thesis using cursor_ctx_items[OF ctx] unfolding p
    by (metis append.assoc append_take_drop_id tree_items.simps(2))
qed (simp add: stack_at_def)

lemma stack_at_empty: "stack_at D S root st pre post \<Longrightarrow> st = [] \<longleftrightarrow> post = []"
  by (cases st) (auto simp: stack_at_def)

lemma cursor_at_items: "cursor_at D S c pre post \<Longrightarrow> pre @ post = tree_items (c_tree c)"
  by (auto simp: cursor_at_def dest: stack_at_items)

lemma cursor_ready_items: "cursor_ready D S c pre post \<Longrightarrow> pre @ post = tree_items (c_tree c)"
  by (auto simp: cursor_ready_def dest: cursor_at_items)

lemma cursor_new_fresh: "wf_tree S t \<Longrightarrow> height t < STACK_CAP \<Longrightarrow> cursor_fresh D S (cursor_new D t)"
  by (simp add: cursor_fresh_def cursor_new_def)

lemma cursor_reset_fresh:
  "wf_tree S (c_tree c) \<Longrightarrow> height (c_tree c) < STACK_CAP \<Longrightarrow> cursor_fresh D S (cursor_reset D c)"
  by (simp add: cursor_fresh_def cursor_reset_def)

lemma c_tree_reset [simp]: "c_tree (cursor_reset D c) = c_tree c" "c_tree (cursor_new D t) = t"
  by (simp_all add: cursor_reset_def cursor_new_def)

lemma cursor_at_wf_root:
  assumes "cursor_at D S c pre post" "c_stack c = e # es"
  shows "wf_node S (c_tree c)"
proof -
  have "wf_tree S (c_tree c)" "c_tree c \<noteq> stree_new S"
    using assms cursor_at_items[OF assms(1)] by (auto simp: cursor_at_def stack_at_def)
  then show ?thesis by (simp add: wf_tree_def)
qed

text \<open>The entry of the leaf under the cursor.\<close>

lemma cursor_at_leaf:
  assumes "cursor_at D S c pre post" "c_stack c = e # es"
  obtains s xs pre0 post0 where "se_tree e = Leaf s xs (map (sm_item S) xs)"
    "cursor_ctx D S (c_tree c) es (Leaf s xs (map (sm_item S) xs)) pre0 post0" "se_index e < length xs"
    "pre = pre0 @ take (se_index e) xs" "post = drop (se_index e) xs @ post0"
    "wf_node S (Leaf s xs (map (sm_item S) xs))"
proof -
  obtain s xs xss pre0 post0 where l: "se_tree e = Leaf s xs xss"
    "cursor_ctx D S (c_tree c) es (Leaf s xs xss) pre0 post0" "se_index e < length xs"
    "pre = pre0 @ take (se_index e) xs" "post = drop (se_index e) xs @ post0"
    using assms by (auto simp: cursor_at_def stack_at_def)
  have "wf_node S (Leaf s xs xss)"
    using cursor_ctx_wf[OF l(2) cursor_at_wf_root[OF assms]] by simp
  then show thesis using l by (intro that[of s xs pre0 post0]) auto
qed

lemma cursor_item_ok:
  assumes "cursor_at D S c pre post"
  shows "cursor_item c = Some (first_opt post)"
    "cursor_item_summary c = Some (map_option (sm_item S) (first_opt post))"
proof -
  have "cursor_item c = Some (first_opt post) \<and>
    cursor_item_summary c = Some (map_option (sm_item S) (first_opt post))"
  proof (cases "c_stack c")
    case Nil
    then show ?thesis using assms
      by (auto simp: cursor_at_def stack_at_def cursor_item_def cursor_item_summary_def assert_opt_def)
  next
    case (Cons e es)
    obtain s xs pre0 post0 where l: "se_tree e = Leaf s xs (map (sm_item S) xs)" "se_index e < length xs"
      "post = drop (se_index e) xs @ post0"
      using cursor_at_leaf[OF assms Cons] by metis
    have "first_opt post = Some (xs ! se_index e)"
      using l(2) by (simp add: l(3) flip: Cons_nth_drop_Suc)
    then show ?thesis using assms Cons l
      by (auto simp: cursor_at_def cursor_item_def cursor_item_summary_def assert_opt_def nth_opt_def)
  qed
  then show "cursor_item c = Some (first_opt post)"
    "cursor_item_summary c = Some (map_option (sm_item S) (first_opt post))" by auto
qed

section \<open>The contract of an aggregate\<close>

text \<open>\<open>R g ys zs\<close>: the state \<open>g\<close> holds the items \<open>ys\<close> of the subtrees and leaves passed, and the
  pending items \<open>zs\<close> of the current leaf.\<close>

locale aggregate_laws = summary_laws S ok
  for S :: "('a, 's) summary_ops" and ok :: "'a list \<Rightarrow> bool" +
  fixes A :: "('a, 's, 'g) seek_aggregate" and R :: "'g \<Rightarrow> 'a list \<Rightarrow> 'a list \<Rightarrow> bool"
  assumes agg_item: "R g ys zs \<Longrightarrow> length zs < CAP \<Longrightarrow> ok (ys @ zs @ [x]) \<Longrightarrow>
      \<exists>g'. ag_push_item A g x (sm_item S x) = Some g' \<and> R g' ys (zs @ [x])"
    and agg_leaf: "R g ys zs \<Longrightarrow> length zs \<le> CAP \<Longrightarrow> ok (ys @ zs) \<Longrightarrow>
      \<exists>g'. ag_end_leaf A g = Some g' \<and> R g' (ys @ zs) []"
    and agg_tree: "R g ys [] \<Longrightarrow> wf_node S t \<Longrightarrow> ok (ys @ tree_items t) \<Longrightarrow>
      \<exists>g'. ag_push_tree A g t (summary t) = Some g' \<and> R g' (ys @ tree_items t) []"

locale seeking = dim_laws S ok D + aggregate_laws S ok A R
  for S :: "('a, 's) summary_ops" and ok :: "'a list \<Rightarrow> bool" and D :: "('d, 's) dim_ops"
    and A :: "('a, 's, 'g) seek_aggregate" and R :: "'g \<Rightarrow> 'a list \<Rightarrow> 'a list \<Rightarrow> bool"

text \<open>The outcome of a seek that started at \<open>base\<close> and stops between \<open>p\<close> and \<open>r\<close>.\<close>

definition seek_result ::
  "('d, 's) dim_ops \<Rightarrow> ('a, 's) summary_ops \<Rightarrow> ('g \<Rightarrow> 'a list \<Rightarrow> 'a list \<Rightarrow> bool)
   \<Rightarrow> ('a, 's) stree \<Rightarrow> 'a list \<Rightarrow> 'a list \<times> 'a list
   \<Rightarrow> (('a, 's, 'd) stack_entry list \<times> 'd \<times> 'g) option \<Rightarrow> bool" where
  "seek_result D S R root base pr out \<longleftrightarrow>
     (\<exists>st g ys. out = Some (st, dpos D S (fst pr), g) \<and> fst pr = base @ ys \<and> R g ys [] \<and>
        stack_at D S root st (fst pr) (snd pr))"

text \<open>The state at a node: the first \<open>i\<close> children or items are passed.\<close>

definition at_node :: "('a, 's, 'd) stack_entry \<Rightarrow> bool \<Rightarrow> nat \<Rightarrow> 'd \<Rightarrow> bool" where
  "at_node e m i pos \<longleftrightarrow> (case se_tree e of
       Leaf s xs xss \<Rightarrow> i = se_index e \<and> i \<le> length xs
     | Internal h s css cts \<Rightarrow> i = (if m then Suc (se_index e) else se_index e) \<and> i \<le> length cts
         \<and> (m \<or> se_position e = pos))"

context seeking
begin

lemma seek_items_ok:
  assumes "R g ys zs" "length zs + length its \<le> CAP" "ok (base @ ys @ zs @ its)"
  shows "\<exists>g' q r. seek_scan D S target bias (base @ ys @ zs) its = (base @ ys @ zs @ q, r) \<and> its = q @ r \<and>
     seek_items D target bias A (dpos D S (base @ ys @ zs), g, i) (zip its (map (sm_item S) its))
       = Some ((dpos D S (base @ ys @ zs @ q), g', i + length q), r \<noteq> []) \<and> R g' ys (zs @ q)"
  using assms
proof (induction its arbitrary: g zs i)
  case (Cons x its)
  have ok1: "ok (base @ ys @ zs @ [x])"
    using Cons.prems(3) ok_appendD1[of "base @ ys @ zs @ [x]" its] by simp
  then have pos: "dm_add D (dpos D S (base @ ys @ zs)) (sm_item S x) = dpos D S (base @ ys @ zs @ [x])"
    using dim_item[of "base @ ys @ zs" x] by simp
  show ?case
  proof (cases "passed D S target bias (base @ ys @ zs @ [x])")
    case True
    obtain g1 where g1: "ag_push_item A g x (sm_item S x) = Some g1" "R g1 ys (zs @ [x])"
      using agg_item[OF Cons.prems(1), of x] Cons.prems(2) ok_appendD2[OF ok1] by auto
    obtain g' q r where q: "seek_scan D S target bias (base @ ys @ zs @ [x]) its = (base @ ys @ zs @ [x] @ q, r)"
      "its = q @ r" "seek_items D target bias A (dpos D S (base @ ys @ zs @ [x]), g1, Suc i)
        (zip its (map (sm_item S) its)) = Some ((dpos D S (base @ ys @ zs @ [x] @ q), g', Suc i + length q), r \<noteq> [])"
      "R g' ys (zs @ [x] @ q)"
      using Cons.IH[OF g1(2), of "Suc i"] Cons.prems(2,3) by auto
    show ?thesis using True q g1 pos
      by (intro exI[of _ g'] exI[of _ "x # q"] exI[of _ r])
         (simp add: Let_def passed_iff passed_def seek_scan_def)
  next
    case False
    then show ?thesis using Cons.prems(1) pos
      by (intro exI[of _ g] exI[of _ "[]"] exI[of _ "x # its"])
         (simp add: Let_def passed_iff passed_def seek_scan_def)
  qed
qed (auto simp: seek_scan_def)

lemma seek_loop_Leaf:
  "se_tree e = Leaf s xs xss \<Longrightarrow> length xss = length xs \<Longrightarrow> se_index e \<le> length xs \<Longrightarrow>
   seek_loop D target bias A (e # es) pos g m =
     (case seek_items D target bias A (pos, g, se_index e) (zip (drop (se_index e) xs) (drop (se_index e) xss)) of
        None \<Rightarrow> None
      | Some ((pos', g', i'), reached) \<Rightarrow>
          (case ag_end_leaf A g' of
             None \<Rightarrow> None
           | Some g'' \<Rightarrow> if reached then Some (entry (se_tree e) i' (se_position e) # es, pos', g'')
                        else seek_loop D target bias A es pos' g'' True))"
  by (simp add: slice_from_def seek_loop.simps)

lemma seek_loop_Internal:
  "se_tree e = Internal h s css cts \<Longrightarrow> length css = length cts \<Longrightarrow>
   i = (if m then Suc (se_index e) else se_index e) \<Longrightarrow> ep = (if m then pos else se_position e) \<Longrightarrow>
   i \<le> length cts \<Longrightarrow>
   seek_loop D target bias A (e # es) pos g m =
     (case seek_children D target bias A (pos, g, i, ep) (zip (drop i cts) (drop i css)) of
        None \<Rightarrow> None
      | Some ((pos', g', i', ep'), Some child) \<Rightarrow>
          (case stack_push (entry (se_tree e) i' ep' # es) (entry child 0 pos') of
             None \<Rightarrow> None
           | Some st \<Rightarrow> seek_loop D target bias A st pos' g' False)
      | Some ((pos', g', i', ep'), None) \<Rightarrow> seek_loop D target bias A es pos' g' True)"
  by (cases m) (simp_all add: slice_from_def Let_def seek_loop.simps)

lemma seek_node_ok:
  assumes "cursor_ctx D S root es t pre post" "wf_node S root" "height root < STACK_CAP"
    "ok (tree_items root)" "mono_target D S target (tree_items root)"
    "se_tree e = t" "at_node e m i (dpos D S (pre @ node_before i t))"
    "R g ys []" "base @ ys = pre @ node_before i t"
    "seek_scan D S target bias (pre @ node_before i t) (node_after i t) = (p, r)"
  shows "(r \<noteq> [] \<longrightarrow> seek_result D S R root base (p, r @ post)
            (seek_loop D target bias A (e # es) (dpos D S (pre @ node_before i t)) g m)) \<and>
         (r = [] \<longrightarrow> (\<exists>g'. R g' (ys @ node_after i t) [] \<and>
            seek_loop D target bias A (e # es) (dpos D S (pre @ node_before i t)) g m
            = seek_loop D target bias A es (dpos D S (pre @ tree_items t)) g' True))"
  using assms
proof (induction t arbitrary: es pre post e m i g ys p r)
  case (Leaf s xs xss)
  note ctx = Leaf.prems(1)
  have wf: "wf_node S (Leaf s xs xss)" using cursor_ctx_wf[OF ctx Leaf.prems(2)] by simp
  have i: "i = se_index e" "i \<le> length xs" using Leaf.prems(6,7) by (auto simp: at_node_def)
  let ?its = "drop i xs"
  have all: "base @ ys @ ?its @ post = tree_items root"
    using cursor_ctx_items[OF ctx] Leaf.prems(9)
    by (metis append.assoc node_before_after node_after_def stree.simps(6))
  have ok: "ok (base @ ys @ [] @ ?its)"
    using Leaf.prems(4) ok_appendD1[of "base @ ys @ [] @ ?its" post] all by simp
  have "length ?its \<le> CAP" using wf by auto
  then obtain g1 q r1 where it: "seek_scan D S target bias (base @ ys) ?its = (base @ ys @ q, r1)" "?its = q @ r1"
    "seek_items D target bias A (dpos D S (base @ ys), g, i) (zip ?its (map (sm_item S) ?its))
       = Some ((dpos D S (base @ ys @ q), g1, i + length q), r1 \<noteq> [])" "R g1 ys q"
    using seek_items_ok[OF Leaf.prems(8) _ ok, of target bias i] unfolding append_Nil append_Nil2 list.size add_0 by blast
  have pr: "p = base @ ys @ q" "r = r1"
    using Leaf.prems(9,10) it(1) by (simp_all add: node_after_def)
  have okq: "ok (ys @ q)"
    using ok it(2) ok_appendD2[of base "(ys @ q) @ r1"] ok_appendD1[of "ys @ q" r1] by simp
  have lq: "length q \<le> CAP" using it(2) wf
    by (metis diff_le_self le_trans length_append length_drop le_add1 wf_node.simps(2))
  obtain g2 where g2: "ag_end_leaf A g1 = Some g2" "R g2 (ys @ q) []"
    using agg_leaf[OF it(4) lq okq] by blast
  have loop: "seek_loop D target bias A (e # es) (dpos D S (base @ ys)) g m =
     (if r1 \<noteq> [] then Some (entry (Leaf s xs xss) (i + length q) (se_position e) # es, dpos D S (base @ ys @ q), g2)
      else seek_loop D target bias A es (dpos D S (base @ ys @ q)) g2 True)"
    using seek_loop_Leaf[OF Leaf.prems(6), of target bias es "dpos D S (base @ ys)" g m] it(3) g2(1) i wf
      Leaf.prems(6) by (simp add: drop_map)
  show ?case
  proof (cases "r1 = []")
    case True
    have "base @ ys @ q = pre @ xs"
      using True it(2) Leaf.prems(9) by (metis append.assoc append.right_neutral
        append_take_drop_id node_before_def stree.simps(6))
    then show ?thesis using True g2(2) loop it(2) pr Leaf.prems(9) by (auto simp: node_after_def)
  next
    case False
    have n: "i + length q < length xs"
    proof -
      have "length xs - i = length q + length r1" using it(2) by (metis length_append length_drop)
      moreover have "0 < length r1" using False by simp
      ultimately show ?thesis using i(2) by linarith
    qed
    have "drop (i + length q) xs = drop (length q) (drop i xs)" by (simp add: add.commute)
    then have d: "drop (i + length q) xs = r1" using it(2) by simp
    have t: "take (i + length q) xs = take i xs @ q" using it(2) by (simp add: take_add)
    have "stack_at D S root (entry (Leaf s xs xss) (i + length q) (se_position e) # es) p (r @ post)"
      using ctx n pr Leaf.prems(9) d t unfolding stack_at_def
      by (auto simp: entry_def node_before_def)
    then show ?thesis
      using False loop g2(2) pr Leaf.prems(9) by (auto simp: seek_result_def)
  qed
next
  case (Internal h s css cts)
  let ?t = "Internal h s css cts"
  note ctx = Internal.prems(1) and cap = Internal.prems(3) and ok = Internal.prems(4)
  have wf: "wf_node S ?t" and len: "length es + height ?t = height root"
    using cursor_ctx_wf[OF ctx Internal.prems(2)] by simp_all
  have css: "css = map summary cts" and wfc: "\<And>i. i < length cts \<Longrightarrow> wf_node S (cts ! i)"
    using wf by auto
  have h0: "0 < height ?t" using wf_node_height0[OF wf] by auto
  have before: "node_before i ?t = concat (map tree_items (take i cts))" for i
    by (simp add: node_before_def)
  have after: "node_after i ?t = concat (map tree_items (drop i cts))" for i
    by (simp add: node_after_def)
  have okt: "ok (pre @ tree_items ?t)" and mono: "mono_target D S target (pre @ tree_items ?t)"
    using Internal.prems(4,5) cursor_ctx_items[OF ctx] ok_appendD1[of "pre @ tree_items ?t" post]
      mono_target_appendD[of D S target "pre @ tree_items ?t" post] by simp_all
  show ?case using Internal.prems(6-10)
  proof (induction "length cts - i" arbitrary: e m i g ys p r)
    case 0
    have i: "i = (if m then Suc (se_index e) else se_index e)" "i = length cts"
      using 0 by (auto simp: at_node_def)
    have "node_after i ?t = []" "node_before i ?t = tree_items ?t"
      using i(2) by (simp_all add: after before)
    moreover have "seek_loop D target bias A (e # es) (dpos D S (pre @ tree_items ?t)) g m
        = seek_loop D target bias A es (dpos D S (pre @ tree_items ?t)) g True"
      using seek_loop_Internal[OF 0(2) _ i(1) refl] i(2) css by simp
    ultimately show ?case using 0 by (auto simp: seek_scan_def)
  next
    case (Suc k)
    let ?c = "cts ! i" and ?pos = "dpos D S (pre @ node_before i ?t)"
      and ?pos1 = "dpos D S (pre @ node_before (Suc i) ?t)"
    have i: "i = (if m then Suc (se_index e) else se_index e)" "i < length cts" "m \<or> se_position e = ?pos"
      using Suc.prems(1,2) Suc.hyps(2) by (auto simp: at_node_def)
    have b1: "node_before (Suc i) ?t = node_before i ?t @ tree_items ?c"
      and a1: "node_after i ?t = tree_items ?c @ node_after (Suc i) ?t"
      using i(2) by (simp_all only: before after concat_take_nth concat_drop_nth)
    have all: "pre @ tree_items ?t = (pre @ node_before i ?t) @ tree_items ?c @ node_after (Suc i) ?t"
      using node_before_after[of i ?t] by (simp only: a1 append_assoc)
    have okc: "ok ((pre @ node_before i ?t) @ tree_items ?c)"
      using okt ok_appendD1[of "(pre @ node_before i ?t) @ tree_items ?c" "node_after (Suc i) ?t"]
      unfolding all by simp
    have ce: "dm_add D ?pos (summary ?c) = ?pos1"
      using dim_child[OF wfc[OF i(2)] okc] by (simp add: b1)
    have ep: "(if m then ?pos else se_position e) = ?pos" using i(3) by auto
    have zip: "zip (drop i cts) (drop i css) = (?c, summary ?c) # zip (drop (Suc i) cts) (drop (Suc i) css)"
      using i(2) by (simp add: css flip: Cons_nth_drop_Suc)
    have lcss: "length css = length cts" by (simp add: css)
    note loop = seek_loop_Internal[OF Suc.prems(1) lcss i(1) ep[symmetric] less_imp_le[OF i(2)],
        of target bias es g]
    show ?case
    proof (cases "passed D S target bias (pre @ node_before (Suc i) ?t)")
      case True
      have "ok (ys @ tree_items ?c)" using okc Suc.prems(4) ok_appendD2[of base] by (metis append.assoc)
      then obtain g1 where g1: "ag_push_tree A g ?c (summary ?c) = Some g1" "R g1 (ys @ tree_items ?c) []"
        using agg_tree[OF Suc.prems(3) wfc[OF i(2)]] by blast
      let ?e1 = "entry ?t (Suc i) ?pos1"
      have e1: "se_tree ?e1 = ?t" "Suc i = (if False then Suc (se_index ?e1) else se_index ?e1)"
        "?pos1 = (if False then ?pos1 else se_position ?e1)"
        by (simp_all add: entry_def)
      have sc: "seek_children D target bias A (?pos, g, i, ?pos) (zip (drop i cts) (drop i css))
          = seek_children D target bias A (?pos1, g1, Suc i, ?pos1) (zip (drop (Suc i) cts) (drop (Suc i) css))"
        unfolding zip using True g1(1) by (simp add: Let_def ce passed_iff passed_def)
      have step: "seek_loop D target bias A (e # es) ?pos g m = seek_loop D target bias A (?e1 # es) ?pos1 g1 False"
        unfolding loop seek_loop_Internal[OF e1(1) lcss e1(2,3) Suc_leI[OF i(2)], of target bias es g1]
          sc Suc.prems(1) e1(1) ..
      have "at_node ?e1 False (Suc i) ?pos1" using i(2) by (simp add: at_node_def entry_def)
      moreover have "seek_scan D S target bias (pre @ node_before (Suc i) ?t) (node_after (Suc i) ?t) = (p, r)"
        using scan_mono_skip[OF mono all, of bias] True Suc.prems(5) by (simp add: a1 b1)
      ultimately have "(r \<noteq> [] \<longrightarrow> seek_result D S R root base (p, r @ post)
            (seek_loop D target bias A (?e1 # es) ?pos1 g1 False)) \<and>
         (r = [] \<longrightarrow> (\<exists>g'. R g' ((ys @ tree_items ?c) @ node_after (Suc i) ?t) [] \<and>
            seek_loop D target bias A (?e1 # es) ?pos1 g1 False
            = seek_loop D target bias A es (dpos D S (pre @ tree_items ?t)) g' True))"
        using g1(2) Suc.hyps(2) Suc.prems(4)
        by (intro Suc.hyps(1)) (simp_all add: b1 entry_def)
      then show ?thesis by (simp only: step a1 append_assoc)
    next
      case False
      let ?f = "entry ?t i ?pos" and ?e1 = "entry ?c 0 ?pos"
      have "length (?f # es) < STACK_CAP" using len h0 cap by simp
      then have step: "seek_loop D target bias A (e # es) ?pos g m
          = seek_loop D target bias A (?e1 # ?f # es) ?pos g False"
        unfolding loop zip using False by (simp add: Let_def ce passed_iff passed_def Suc.prems(1) stack_push_def)
      have cctx: "cursor_ctx D S root (?f # es) ?c (pre @ node_before i ?t) (node_after (Suc i) ?t @ post)"
        using ctx_child[OF ctx i(2)] by (simp only: before after)
      obtain q u where sc: "seek_scan D S target bias (pre @ node_before i ?t) (tree_items ?c) = (q, u)" by force
      have "seek_scan D S target bias (pre @ node_before i ?t) (tree_items ?c @ node_after (Suc i) ?t)
          = (q, u @ node_after (Suc i) ?t) \<and> u \<noteq> []"
        using scan_within[of "passed D S target bias" "pre @ node_before i ?t" "tree_items ?c" q u] False sc
          wf_node_items[OF wfc[OF i(2)]] by (simp add: seek_scan_def b1)
      then have pr: "p = q" "r = u @ node_after (Suc i) ?t" "u \<noteq> []"
        using Suc.prems(5) by (simp_all add: a1)
      have "at_node ?e1 False 0 (dpos D S ((pre @ node_before i ?t) @ node_before 0 ?c))"
        by (cases ?c) (auto simp: at_node_def entry_def)
      then have "seek_result D S R root base (q, u @ node_after (Suc i) ?t @ post)
            (seek_loop D target bias A (?e1 # ?f # es) ?pos g False)"
        using Internal.IH[OF nth_mem[OF i(2)] cctx Internal.prems(2-5), of ?e1 False 0 g ys q u] sc pr(3)
          Suc.prems(3,4) by (simp add: entry_def)
      then show ?thesis using pr by (simp add: step)
    qed
  qed
qed

lemma seek_ascend_ok:
  assumes "cursor_ctx D S root es t pre post" "wf_node S root" "height root < STACK_CAP"
    "ok (tree_items root)" "mono_target D S target (tree_items root)"
    "R g ys []" "base @ ys = pre @ tree_items t"
    "seek_scan D S target bias (pre @ tree_items t) post = (p, r)"
  shows "seek_result D S R root base (p, r)
     (seek_loop D target bias A es (dpos D S (pre @ tree_items t)) g True)"
  using assms
proof (induction es arbitrary: t pre post g ys p r)
  case Nil
  from Nil.prems(1) have "t = root" "pre = []" "post = []" by (auto elim: cursor_ctx_NilE)
  then show ?case using Nil.prems by (auto simp: seek_result_def stack_at_def seek_scan_def)
next
  case (Cons f es)
  obtain h s css cts pre0 post0 i where
    f: "f = entry (Internal h s css cts) i (dpos D S (pre0 @ concat (map tree_items (take i cts))))"
    and ctx: "cursor_ctx D S root es (Internal h s css cts) pre0 post0" "i < length cts"
    and t: "t = cts ! i" "pre = pre0 @ concat (map tree_items (take i cts))"
      "post = concat (map tree_items (drop (Suc i) cts)) @ post0"
    using Cons.prems(1) by (auto elim: cursor_ctx_ConsE)
  let ?t = "Internal h s css cts"
  have pre: "pre @ tree_items t = pre0 @ node_before (Suc i) ?t"
    using ctx(2) by (simp add: t node_before_def concat_take_nth)
  have post: "post = node_after (Suc i) ?t @ post0" by (simp add: t node_after_def)
  have nd: "at_node f True (Suc i) (dpos D S (pre0 @ node_before (Suc i) ?t))"
    using ctx(2) by (simp add: f at_node_def entry_def)
  obtain q u where sc: "seek_scan D S target bias (pre0 @ node_before (Suc i) ?t) (node_after (Suc i) ?t) = (q, u)"
    by force
  have all: "seek_scan D S target bias (pre0 @ node_before (Suc i) ?t) (node_after (Suc i) ?t @ post0)
    = (case u of [] \<Rightarrow> seek_scan D S target bias q post0 | x # v \<Rightarrow> (q, u @ post0))"
    using sc unfolding seek_scan_def by (subst scan_app) (auto split: list.splits)
  have pr: "(case u of [] \<Rightarrow> seek_scan D S target bias q post0 | x # v \<Rightarrow> (q, u @ post0)) = (p, r)"
    using Cons.prems(8) all by (simp only: pre post)
  have "se_tree f = ?t" by (simp add: f entry_def)
  note node = seek_node_ok[OF ctx(1) Cons.prems(2-5) this nd Cons.prems(6) Cons.prems(7)[unfolded pre] sc]
  show ?case
  proof (cases "u = []")
    case True
    then obtain g' where g': "R g' (ys @ node_after (Suc i) ?t) []"
      "seek_loop D target bias A (f # es) (dpos D S (pre0 @ node_before (Suc i) ?t)) g True
        = seek_loop D target bias A es (dpos D S (pre0 @ tree_items ?t)) g' True"
      using node by blast
    have q: "q = pre0 @ tree_items ?t"
      using scan_append_items[OF sc[unfolded seek_scan_def]] True node_before_after[of "Suc i" ?t] by simp
    have "base @ ys @ node_after (Suc i) ?t = pre0 @ tree_items ?t"
      using Cons.prems(7) pre node_before_after[of "Suc i" ?t] by (metis append.assoc)
    then show ?thesis unfolding pre g'(2)
      using Cons.IH[OF ctx(1) Cons.prems(2-5) g'(1)] pr True by (simp add: q)
  next
    case False
    then have "p = q" "r = u @ post0" using pr by (auto split: list.splits)
    then show ?thesis unfolding pre using node False by blast
  qed
qed

lemma seek_from_root_ok:
  assumes "wf_tree S root" "height root < STACK_CAP" "ok (tree_items root)"
    "mono_target D S target (tree_items root)" "R g [] []"
    "seek_scan D S target bias [] (tree_items root) = (p, r)"
  shows "seek_result D S R root [] (p, r)
     (seek_loop D target bias A [entry root 0 (dm_zero D)] (dm_zero D) g False)"
proof (cases "root = stree_new S")
  case True
  have "ok ([] @ [])" using assms(3) True by simp
  then obtain g' where "ag_end_leaf A g = Some g'" "R g' [] []"
    using agg_leaf[OF assms(5)] by auto
  moreover have "p = []" "r = []" using assms(6) True by (simp_all add: seek_scan_def)
  ultimately show ?thesis
    by (simp add: True seek_result_def stack_at_def seek_loop.simps entry_def stree_new_def slice_from_def)
next
  case False
  then have wf: "wf_node S root" using assms(1) by (simp add: wf_tree_def)
  have nd: "at_node (entry root 0 (dm_zero D)) False 0 (dpos D S ([] @ node_before 0 root))"
    by (cases root) (auto simp: at_node_def entry_def)
  have "(r \<noteq> [] \<longrightarrow> seek_result D S R root [] (p, r @ []) (seek_loop D target bias A
        [entry root 0 (dm_zero D)] (dpos D S ([] @ node_before 0 root)) g False)) \<and>
     (r = [] \<longrightarrow> (\<exists>g'. R g' ([] @ node_after 0 root) [] \<and> seek_loop D target bias A
        [entry root 0 (dm_zero D)] (dpos D S ([] @ node_before 0 root)) g False
      = seek_loop D target bias A [] (dpos D S ([] @ tree_items root)) g' True))"
    by (rule seek_node_ok[OF ctx_root wf assms(2-4) _ nd assms(5)])
       (use assms(6) in \<open>simp_all add: entry_def\<close>)
  moreover have "p = tree_items root" if "r = []"
    using scan_append_items[OF assms(6)[unfolded seek_scan_def]] that by simp
  ultimately show ?thesis by (cases "r = []") (auto simp: seek_result_def stack_at_def)
qed

lemma seek_internal_ok:
  assumes "cursor_ready D S c pre post" "ok (pre @ post)" "mono_target D S target (pre @ post)"
    "target (dpos D S pre) \<noteq> Less" "R g [] []" "seek_scan D S target bias pre post = (p, r)"
  shows "\<exists>c' g' ys. p = pre @ ys \<and> R g' ys [] \<and> cursor_at D S c' p r \<and> c_tree c' = c_tree c \<and>
     seek_internal D target bias A c g = Some
       (target (if bias = Left then dpos D S (p @ take 1 r) else dpos D S p) = Equal, c', g')"
proof -
  have items: "tree_items (c_tree c) = pre @ post" using cursor_ready_items[OF assms(1)] by simp
  let ?st = "if c_did_seek c then c_stack c else [entry (c_tree c) 0 (dm_zero D)]"
  have wf: "wf_tree S (c_tree c)" "height (c_tree c) < STACK_CAP" "c_position c = dpos D S pre"
    using assms(1) by (auto simp: cursor_ready_def cursor_at_def cursor_fresh_def)
  have st: "(if c_did_seek c then Some (c_stack c)
           else stack_push (c_stack c) (entry (c_tree c) 0 (dm_zero D))) = Some ?st"
    using assms(1) by (auto simp: cursor_ready_def cursor_at_def cursor_fresh_def stack_push_def STACK_CAP_def)
  have "seek_result D S R (c_tree c) pre (p, r) (seek_loop D target bias A ?st (dpos D S pre) g False)"
  proof (cases "c_did_seek c")
    case False
    then have "pre = []" "post = tree_items (c_tree c)"
      using assms(1) by (auto simp: cursor_ready_def cursor_at_def)
    then show ?thesis using seek_from_root_ok[OF wf(1,2), of target g bias p r] assms(2-6) False by simp
  next
    case True
    then have at: "cursor_at D S c pre post" using assms(1) by (auto simp: cursor_ready_def cursor_fresh_def)
    show ?thesis
    proof (cases "c_stack c")
      case Nil
      then have "pre = tree_items (c_tree c)" "post = []" using at by (auto simp: cursor_at_def stack_at_def)
      then show ?thesis using True Nil assms(5,6) by (auto simp: seek_result_def stack_at_def seek_scan_def)
    next
      case (Cons e es)
      obtain s xs pre0 post0 where l: "se_tree e = Leaf s xs (map (sm_item S) xs)"
        "cursor_ctx D S (c_tree c) es (Leaf s xs (map (sm_item S) xs)) pre0 post0" "se_index e < length xs"
        "pre = pre0 @ take (se_index e) xs" "post = drop (se_index e) xs @ post0"
        using cursor_at_leaf[OF at Cons] by metis
      let ?t = "Leaf s xs (map (sm_item S) xs)" and ?i = "se_index e"
      note root = cursor_at_wf_root[OF at Cons] wf(2) assms(2,3)[folded items]
      have pre: "pre = pre0 @ node_before ?i ?t" and post: "post = node_after ?i ?t @ post0"
        by (simp_all add: l(4,5) node_before_def node_after_def)
      have nd: "at_node e False ?i (dpos D S (pre0 @ node_before ?i ?t))"
        using l(3) by (simp add: at_node_def l(1))
      obtain q u where sc: "seek_scan D S target bias (pre0 @ node_before ?i ?t) (node_after ?i ?t) = (q, u)"
        by force
      have pr: "(case u of [] \<Rightarrow> seek_scan D S target bias q post0 | x # v \<Rightarrow> (q, u @ post0)) = (p, r)"
        using assms(6) sc unfolding pre post seek_scan_def by (subst (asm) scan_app) (auto split: list.splits)
      note node = seek_node_ok[OF l(2) root l(1) nd assms(5) _ sc, of pre, unfolded append_Nil append_Nil2, OF pre]
      show ?thesis
      proof (cases "u = []")
        case True
        then obtain g' where g': "R g' (node_after ?i ?t) []"
          "seek_loop D target bias A (e # es) (dpos D S (pre0 @ node_before ?i ?t)) g False
            = seek_loop D target bias A es (dpos D S (pre0 @ tree_items ?t)) g' True"
          using node by blast
        have q: "q = pre0 @ tree_items ?t"
          using scan_append_items[OF sc[unfolded seek_scan_def]] True node_before_after[of ?i ?t] by simp
        have "pre @ node_after ?i ?t = pre0 @ tree_items ?t"
          unfolding pre append_assoc node_before_after ..
        from seek_ascend_ok[OF l(2) root g'(1) this] show ?thesis
          using \<open>c_did_seek c\<close> Cons pr True g'(2) by (simp add: q pre)
      next
        case False
        then have "p = q" "r = u @ post0" using pr by (auto split: list.splits)
        then show ?thesis using node False \<open>c_did_seek c\<close> Cons by (simp add: pre)
      qed
    qed
  qed
  then obtain st' g' ys where res: "seek_loop D target bias A ?st (dpos D S pre) g False = Some (st', dpos D S p, g')"
    "p = pre @ ys" "R g' ys []" "stack_at D S (c_tree c) st' p r"
    by (auto simp: seek_result_def)
  define c' where "c' = c\<lparr>c_stack := st', c_position := dpos D S p, c_did_seek := True, c_at_end := (st' = [])\<rparr>"
  have at: "cursor_at D S c' p r" using wf(1,2) res(4) by (simp add: cursor_at_def c'_def)
  have "p @ r = pre @ post" using scan_append_items[OF assms(6)[unfolded seek_scan_def]] .
  have "cursor_end D c' = Some (dpos D S (p @ take 1 r))"
  proof (cases r)
    case (Cons x r')
    have "ok (p @ [x])" using assms(2) \<open>p @ r = pre @ post\<close> ok_appendD1[of "p @ [x]" r'] Cons by simp
    then show ?thesis using cursor_item_ok(2)[OF at] Cons by (simp add: cursor_end_def c'_def dim_item)
  qed (use cursor_item_ok(2)[OF at] in \<open>simp add: cursor_end_def c'_def\<close>)
  then have "seek_internal D target bias A c g = Some
       (target (if bias = Left then dpos D S (p @ take 1 r) else dpos D S p) = Equal, c', g')"
    unfolding seek_internal_def using st res(1) assms(4) wf(3)
    by (simp add: assert_opt_def Let_def flip: c'_def)
  then show ?thesis using res at by (auto simp: c'_def)
qed

end

end
