(* ===== verification/CursorOps.thy ===== *)
theory CursorOps
  imports CursorSeek
begin

text \<open>
  The operations of a cursor built on the seeking loop: \<open>seek\<close>, \<open>seek_forward\<close>, \<open>slice\<close>,
  \<open>suffix\<close> and \<open>summary\<close> move to the place a scan of the items finds, and the last three
  return exactly the items passed (as a well-formed tree) or their summary. The reads
  next to the cursor, \<open>next_item\<close> and \<open>prev_item\<close>, return its neighbours.
\<close>

section \<open>The aggregates keep their contract\<close>

definition slice_rel ::
  "('a, 's) summary_ops \<Rightarrow> ('a, 's) slice_state \<Rightarrow> 'a list \<Rightarrow> 'a list \<Rightarrow> bool" where
  "slice_rel S g ys zs \<longleftrightarrow> wf_tree S (sl_tree g) \<and> tree_items (sl_tree g) = ys \<and> sl_items g = zs \<and>
     sl_summaries g = map (sm_item S) zs \<and> sl_summary g = sumof S zs"

sublocale dim_laws \<subseteq> unit_seek: seeking S ok D unit_aggregate "\<lambda>_ _ _. True"
  by unfold_locales (simp_all add: unit_aggregate_def)

sublocale dim_laws \<subseteq> slice_seek: seeking S ok D "slice_aggregate S" "slice_rel S"
proof (unfold_locales, goal_cases)
  case (1 g ys zs x)
  then show ?case
    by (simp add: slice_rel_def slice_aggregate_def slice_push_item_def checked_simps sumof_def sums_def)
next
  case (2 g ys zs)
  have "wf_tree S (Leaf (sl_summary g) (sl_items g) (sl_summaries g))"
    using 2(1,2) by (cases "zs = []")
      (auto simp: slice_rel_def wf_tree_def stree_new_def sumof_def sums_def)
  from stree_append_ok[OF _ this, of "sl_tree g"] show ?case
    using 2 by (auto simp: slice_rel_def slice_aggregate_def slice_end_leaf_def sumof_def sums_def)
next
  case (3 g ys t)
  then show ?case using stree_append_ok[of "sl_tree g" t]
    by (auto simp: slice_rel_def slice_aggregate_def slice_push_tree_def wf_tree_def)
qed

locale summarizing = dim_laws S ok D + out: dim_laws S ok E
  for S :: "('a, 's) summary_ops" and ok :: "'a list \<Rightarrow> bool"
    and D :: "('d, 's) dim_ops" and E :: "('e, 's) dim_ops"

sublocale summarizing \<subseteq> sum_seek: seeking S ok D "summary_aggregate E" "\<lambda>g ys zs. g = dpos E S (ys @ zs)"
proof (unfold_locales, goal_cases)
  case (1 g ys zs x)
  then show ?case using out.dim_item[of "ys @ zs" x] by (simp add: summary_aggregate_def)
next
  case (2 g ys zs)
  then show ?case by (simp add: summary_aggregate_def)
next
  case (3 g ys t)
  then show ?case using out.dim_child[of t ys] by (simp add: summary_aggregate_def)
qed

section \<open>Seeking\<close>

lemma slice_rel_new: "slice_rel S (slice_new S) [] []"
  by (simp add: slice_rel_def slice_new_def sumof_def sums_def)

context dim_laws
begin

lemma cursor_seek_forward_ok:
  assumes "cursor_ready D S c pre post" "ok (pre @ post)" "mono_target D S target (pre @ post)"
    "target (dpos D S pre) \<noteq> Less" "seek_scan D S target bias pre post = (p, r)"
  shows "\<exists>c'. cursor_seek_forward D target bias c = Some
       (target (if bias = Left then dpos D S (p @ take 1 r) else dpos D S p) = Equal, c')
     \<and> cursor_at D S c' p r \<and> c_tree c' = c_tree c"
  using unit_seek.seek_internal_ok[OF assms(1-4) _ assms(5), of "()"]
  by (auto simp: cursor_seek_forward_def)

lemma cursor_seek_ok:
  assumes "wf_tree S (c_tree c)" "height (c_tree c) < STACK_CAP" "ok (tree_items (c_tree c))"
    "mono_target D S target (tree_items (c_tree c))" "target (dm_zero D) \<noteq> Less"
    "seek_scan D S target bias [] (tree_items (c_tree c)) = (p, r)"
  shows "\<exists>c'. cursor_seek D target bias c = Some
       (target (if bias = Left then dpos D S (p @ take 1 r) else dpos D S p) = Equal, c')
     \<and> cursor_at D S c' p r \<and> c_tree c' = c_tree c"
proof -
  have "cursor_ready D S (cursor_reset D c) [] (tree_items (c_tree c))"
    using cursor_reset_fresh[OF assms(1,2)] by (simp add: cursor_ready_def)
  from unit_seek.seek_internal_ok[OF this _ _ _ _ assms(6), of "()"] show ?thesis
    using assms(3-5) by (auto simp: cursor_seek_def)
qed

text \<open>A slice holds the items passed, as a well-formed tree.\<close>

lemma cursor_slice_ok:
  assumes "cursor_ready D S c pre post" "ok (pre @ post)" "mono_target D S target (pre @ post)"
    "target (dpos D S pre) \<noteq> Less" "seek_scan D S target bias pre post = (p, r)"
  shows "\<exists>t c'. cursor_slice S D target bias c = Some (t, c') \<and> wf_tree S t \<and> p = pre @ tree_items t
     \<and> cursor_at D S c' p r \<and> c_tree c' = c_tree c"
  using slice_seek.seek_internal_ok[OF assms(1-4) slice_rel_new assms(5)]
  by (auto simp: cursor_slice_def slice_rel_def)

lemma seek_scan_end: "seek_scan D S seek_end bias pre post = (pre @ post, [])"
  by (induction post arbitrary: pre) (auto simp: seek_scan_def passed_def passes_def seek_end_def)

lemma mono_target_end: "mono_target D S seek_end items"
  by (simp add: mono_target_def seek_end_def)

lemma cursor_suffix_ok:
  assumes "cursor_ready D S c pre post" "ok (pre @ post)"
  shows "\<exists>t c'. cursor_suffix S D c = Some (t, c') \<and> wf_tree S t \<and> tree_items t = post
     \<and> cursor_at D S c' (pre @ post) []"
  using cursor_slice_ok[OF assms mono_target_end _ seek_scan_end, of Right]
  by (auto simp: cursor_suffix_def seek_end_def)

end

context summarizing
begin

lemma cursor_summary_ok:
  assumes "cursor_ready D S c pre post" "ok (pre @ post)" "mono_target D S target (pre @ post)"
    "target (dpos D S pre) \<noteq> Less" "seek_scan D S target bias pre post = (p, r)"
  shows "\<exists>c' ys. p = pre @ ys \<and> cursor_summary E D target bias c = Some (dpos E S ys, c')
     \<and> cursor_at D S c' p r \<and> c_tree c' = c_tree c"
proof -
  have "dm_zero E = dpos E S ([] @ [])" by simp
  from sum_seek.seek_internal_ok[OF assms(1-4) this assms(5)] show ?thesis
    by (auto simp: cursor_summary_def)
qed

end

section \<open>The neighbours of the cursor\<close>

lemma cursor_ctx_child_wf:
  assumes "cursor_ctx D S root es (Internal h s css cts) pre post" "wf_node S root" "i < length cts"
  shows "wf_node S (cts ! i)"
  using cursor_ctx_wf[OF assms(1,2)] assms(3) by auto

lemma next_leaf_ok:
  "cursor_ctx D S root es t pre post \<Longrightarrow> wf_node S root \<Longrightarrow>
   (post = [] \<longrightarrow> next_leaf es = Some None) \<and>
   (post \<noteq> [] \<longrightarrow> (\<exists>s xs xss. next_leaf es = Some (Some (Leaf s xs xss)) \<and> xs \<noteq> [] \<and> hd xs = hd post))"
proof (induction rule: cursor_ctx.induct)
  case (ctx_child es h s css cts pre post i)
  have n: "csub (length cts) 1 = Some (length cts - 1)" using ctx_child.hyps(2) by (simp add: csub_def)
  show ?case
  proof (cases "i < length cts - 1")
    case True
    then have si: "Suc i < length cts" by simp
    have wf: "wf_node S (cts ! Suc i)"
      using cursor_ctx_child_wf[OF ctx_child.hyps(1) ctx_child.prems si] .
    obtain s' xs xss where l: "leftmost_leaf (cts ! Suc i) = Some (Leaf s' xs xss)" "xs \<noteq> []"
      "hd xs = hd (tree_items (cts ! Suc i))"
      using leftmost_leaf_ok[OF wf] by blast
    have "concat (map tree_items (drop (Suc i) cts)) = tree_items (cts ! Suc i) @ concat (map tree_items (drop (Suc (Suc i)) cts))"
      by (rule concat_drop_nth[OF si])
    then show ?thesis using l n si True wf_node_items[OF wf] by (simp add: entry_def nth_opt_def)
  next
    case False
    then have "drop (Suc i) cts = []" using ctx_child.hyps(2) by simp
    then show ?thesis using ctx_child.IH[OF ctx_child.prems] n False by (simp add: entry_def)
  qed
qed simp

lemma prev_leaf_ok:
  "cursor_ctx D S root es t pre post \<Longrightarrow> wf_node S root \<Longrightarrow>
   (pre = [] \<longrightarrow> prev_leaf es = Some None) \<and>
   (pre \<noteq> [] \<longrightarrow> (\<exists>s xs xss. prev_leaf es = Some (Some (Leaf s xs xss)) \<and> xs \<noteq> [] \<and> last xs = last pre))"
proof (induction rule: cursor_ctx.induct)
  case (ctx_child es h s css cts pre post i)
  show ?case
  proof (cases i)
    case 0
    then show ?thesis using ctx_child.IH[OF ctx_child.prems] by (simp add: entry_def)
  next
    case (Suc j)
    then have j: "j < length cts" using ctx_child.hyps(2) by simp
    have wf: "wf_node S (cts ! j)"
      using cursor_ctx_child_wf[OF ctx_child.hyps(1) ctx_child.prems j] .
    obtain s' xs xss where l: "rightmost_leaf (cts ! j) = Some (Leaf s' xs xss)" "xs \<noteq> []"
      "last xs = last (tree_items (cts ! j))"
      using rightmost_leaf_ok[OF wf] by blast
    have "concat (map tree_items (take i cts)) = concat (map tree_items (take j cts)) @ tree_items (cts ! j)"
      unfolding Suc by (rule concat_take_nth[OF j])
    then show ?thesis using l j Suc wf_node_items[OF wf] by (simp add: entry_def nth_opt_def)
  qed
qed simp

lemma cursor_next_item_ok:
  assumes "cursor_at D S c pre post"
  shows "cursor_next_item c = Some (first_opt (tl post))"
proof (cases "c_stack c")
  case Nil
  then show ?thesis using assms
    by (auto simp: cursor_at_def stack_at_def cursor_next_item_def assert_opt_def)
next
  case (Cons e es)
  obtain s xs pre0 post0 where l: "se_tree e = Leaf s xs (map (sm_item S) xs)"
    "cursor_ctx D S (c_tree c) es (Leaf s xs (map (sm_item S) xs)) pre0 post0" "se_index e < length xs"
    "post = drop (se_index e) xs @ post0"
    using cursor_at_leaf[OF assms Cons] by metis
  have seek: "c_did_seek c" and n: "csub (length xs) 1 = Some (length xs - 1)"
    using assms l(3) by (auto simp: cursor_at_def csub_def)
  note nl = next_leaf_ok[OF l(2) cursor_at_wf_root[OF assms Cons]]
  have tl: "tl post = drop (Suc (se_index e)) xs @ post0"
    using l(3) by (simp add: l(4) flip: Cons_nth_drop_Suc)
  show ?thesis
  proof (cases "se_index e = length xs - 1")
    case True
    then have "tl post = post0" using tl by simp
    then show ?thesis using True nl seek Cons l(1) n
      by (cases "post0 = []") (auto simp: cursor_next_item_def assert_opt_def first_opt_iff)
  next
    case False
    then have "Suc (se_index e) < length xs" using l(3) by simp
    then show ?thesis using False seek Cons l(1) n
      by (simp add: tl cursor_next_item_def assert_opt_def nth_opt_def first_opt_iff hd_append hd_drop_conv_nth)
  qed
qed

lemma cursor_prev_item_ok:
  assumes "cursor_at D S c pre post"
  shows "cursor_prev_item c = Some (last_opt pre)"
proof (cases "c_stack c")
  case Nil
  then have "wf_tree S (c_tree c)" "pre = tree_items (c_tree c)" "c_did_seek c" "c_at_end c"
    using assms by (auto simp: cursor_at_def stack_at_def)
  then show ?thesis using Nil stree_last_ok[of S "c_tree c"]
    by (simp add: cursor_prev_item_def assert_opt_def)
next
  case (Cons e es)
  obtain s xs pre0 post0 where l: "se_tree e = Leaf s xs (map (sm_item S) xs)"
    "cursor_ctx D S (c_tree c) es (Leaf s xs (map (sm_item S) xs)) pre0 post0" "se_index e < length xs"
    "pre = pre0 @ take (se_index e) xs"
    using cursor_at_leaf[OF assms Cons] by metis
  have seek: "c_did_seek c" using assms by (auto simp: cursor_at_def)
  note pl = prev_leaf_ok[OF l(2) cursor_at_wf_root[OF assms Cons]]
  show ?thesis
  proof (cases "se_index e")
    case 0
    then show ?thesis using pl seek Cons l(4)
      by (cases "pre0 = []") (auto simp: cursor_prev_item_def assert_opt_def last_opt_iff)
  next
    case (Suc j)
    then have "take (se_index e) xs = take j xs @ [xs ! j]" using l(3) by (simp add: take_Suc_conv_app_nth)
    then show ?thesis using Suc seek Cons l
      by (simp add: cursor_prev_item_def assert_opt_def nth_opt_def last_opt_iff)
  qed
qed

end
