(* ===== verification/CursorWalk.thy ===== *)
theory CursorWalk
  imports CursorOps
begin

text \<open>
  Walking with a cursor: \<open>search_forward\<close> and \<open>search_backward\<close> stop at the next and the
  previous item whose summary the filter accepts, provided the filter accepts the summary of
  every run of items that contains an accepted one. From this follow \<open>next\<close>, \<open>prev\<close>,
  \<open>SumTree::items\<close> and the two iterators.
\<close>

section \<open>Admissible filters\<close>

definition filter_ok :: "('a, 's) summary_ops \<Rightarrow> ('s \<Rightarrow> bool) \<Rightarrow> 'a list \<Rightarrow> bool" where
  "filter_ok S F items \<longleftrightarrow>
     (\<forall>p xs q. items = p @ xs @ q \<and> (\<exists>x \<in> set xs. F (sm_item S x)) \<longrightarrow> F (sumof S xs))"

definition rejected :: "('a, 's) summary_ops \<Rightarrow> ('s \<Rightarrow> bool) \<Rightarrow> 'a \<Rightarrow> bool" where
  "rejected S F x \<longleftrightarrow> \<not> F (sm_item S x)"

lemma filter_ok_True [simp]: "filter_ok S (\<lambda>_. True) items"
  by (simp add: filter_ok_def)

lemma filter_ok_rejected:
  "filter_ok S F (p @ xs @ q) \<Longrightarrow> \<not> F (sumof S xs) \<Longrightarrow> x \<in> set xs \<Longrightarrow> rejected S F x"
  unfolding filter_ok_def rejected_def by blast

lemma rejected_none: "takeWhile (rejected S (\<lambda>_. True)) xs = []" "dropWhile (rejected S (\<lambda>_. True)) xs = xs"
  by (cases xs; simp add: rejected_def)+

lemma filter_ok_appendD: "filter_ok S F (xs @ ys) \<Longrightarrow> filter_ok S F xs"
  unfolding filter_ok_def by (metis append.assoc)

text \<open>A cursor before the first item: fresh, or moved back beyond the start.\<close>

definition cursor_start :: "('d, 's) dim_ops \<Rightarrow> ('a, 's) summary_ops \<Rightarrow> ('a, 's, 'd) cursor \<Rightarrow> bool" where
  "cursor_start D S c \<longleftrightarrow> wf_tree S (c_tree c) \<and> height (c_tree c) < STACK_CAP \<and>
     c_stack c = [] \<and> c_position c = dm_zero D \<and> c_at_end c = is_empty (c_tree c)"

lemma cursor_fresh_start: "cursor_fresh D S c \<Longrightarrow> cursor_start D S c"
  by (simp add: cursor_fresh_def cursor_start_def)

section \<open>Forward\<close>

definition fwd_result ::
  "('d, 's) dim_ops \<Rightarrow> ('a, 's) summary_ops \<Rightarrow> ('a, 's) stree \<Rightarrow> 'a list \<Rightarrow> 'a list
   \<Rightarrow> (('a, 's, 'd) stack_entry list \<times> 'd \<times> bool) option \<Rightarrow> bool" where
  "fwd_result D S root p r out \<longleftrightarrow>
     (\<exists>st. out = Some (st, dpos D S p, r \<noteq> []) \<and> stack_at D S root st p r)"

text \<open>At a node the walk goes on at child or item \<open>i\<close>; unless it is descending, the child or
  item before is the current one.\<close>

definition fwd_at_node :: "('a, 's, 'd) stack_entry \<Rightarrow> bool \<Rightarrow> nat \<Rightarrow> 'd \<Rightarrow> bool" where
  "fwd_at_node e m i pos \<longleftrightarrow> (case se_tree e of
       Leaf s xs xss \<Rightarrow> i = (if m then se_index e else Suc (se_index e)) \<and> se_index e < length xs
     | Internal h s css cts \<Rightarrow> i = (if m then se_index e else Suc (se_index e)) \<and> i \<le> length cts
         \<and> (m \<longrightarrow> se_position e = pos))"

text \<open>The position with which the walk arrives at the node.\<close>

definition fwd_start :: "('d, 's) dim_ops \<Rightarrow> ('a, 's) summary_ops \<Rightarrow> 'a list \<Rightarrow> ('a, 's, 'd) stack_entry \<Rightarrow> nat \<Rightarrow> 'd" where
  "fwd_start D S pre e i = (case se_tree e of
       Leaf s xs xss \<Rightarrow> dpos D S (pre @ take (se_index e) xs)
     | Internal h s css cts \<Rightarrow> dpos D S (pre @ node_before i (se_tree e)))"

context dim_laws
begin

lemma fwd_skip_items:
  assumes "ok (pre @ its)"
  shows "\<exists>ep'. fwd_skip D F i ep (dpos D S pre) (map (sm_item S) its) =
     (i + length (takeWhile (rejected S F) its), ep', dpos D S (pre @ takeWhile (rejected S F) its))"
  using assms
proof (induction its arbitrary: pre i ep)
  case (Cons x its)
  have "ok (pre @ [x])" using Cons.prems ok_appendD1[of "pre @ [x]" its] by simp
  then show ?case using Cons.IH[of "pre @ [x]" "Suc i"] Cons.prems
    by (auto simp: rejected_def dim_item)
qed simp

lemma fwd_loop_Leaf:
  assumes "se_tree e = Leaf s xs (map (sm_item S) xs)" "ok (pre @ xs)"
    "i = (if m then se_index e else Suc (se_index e))" "se_index e < length xs"
    "pos = dpos D S (pre @ take (se_index e) xs)"
  shows "\<exists>ep. fwd_loop D F (e # es) pos m =
     (let q = takeWhile (rejected S F) (drop i xs) in
      if i + length q < length xs
      then Some (entry (Leaf s xs (map (sm_item S) xs)) (i + length q) ep # es, dpos D S (pre @ take i xs @ q), True)
      else fwd_loop D F es (dpos D S (pre @ take i xs @ q)) False)"
proof -
  have okp: "ok (pre @ take i xs @ drop i xs)" "ok (pre @ take (Suc (se_index e)) xs)"
    using assms(2) ok_appendD1[of "pre @ take (Suc (se_index e)) xs" "drop (Suc (se_index e)) xs"] by simp_all
  have step: "dm_add D pos (sm_item S (xs ! se_index e)) = dpos D S (pre @ take (Suc (se_index e)) xs)"
    using dim_item[of "pre @ take (se_index e) xs" "xs ! se_index e"] okp(2) assms(4,5)
    by (simp add: take_Suc_conv_app_nth)
  obtain ep where "fwd_skip D F i (if m then se_position e else dm_add D (se_position e) (sm_item S (xs ! se_index e)))
      (dpos D S (pre @ take i xs)) (map (sm_item S) (drop i xs))
    = (i + length (takeWhile (rejected S F) (drop i xs)), ep, dpos D S (pre @ take i xs @ takeWhile (rejected S F) (drop i xs)))"
    using fwd_skip_items[of "pre @ take i xs" "drop i xs"] okp by force
  then show ?thesis using assms step
    by (cases m) (auto simp: fwd_loop.simps nth_opt_def drop_map Let_def)
qed

lemma fwd_loop_Internal:
  "se_tree e = Internal h s css cts \<Longrightarrow> i = (if m then se_index e else Suc (se_index e)) \<Longrightarrow>
   ep = (if m then se_position e else pos) \<Longrightarrow>
   fwd_loop D F (e # es) pos m =
     (case fwd_skip D F i ep pos (drop i css) of
        (i', ep', pos') \<Rightarrow>
          (case nth_opt cts i' of
             Some subtree \<Rightarrow>
               (case stack_push (entry (se_tree e) i' ep' # es) (entry subtree 0 pos') of
                  None \<Rightarrow> None
                | Some st \<Rightarrow> fwd_loop D F st pos' True)
           | None \<Rightarrow> fwd_loop D F es pos' False))"
  by (cases m) (simp_all add: fwd_loop.simps)

lemma fwd_node_ok:
  assumes "cursor_ctx D S root es t pre post" "wf_node S root" "height root < STACK_CAP"
    "ok (tree_items root)" "filter_ok S F (tree_items root)"
    "se_tree e = t" "fwd_at_node e m i (fwd_start D S pre e i)"
    "q = takeWhile (rejected S F) (node_after i t)" "r = dropWhile (rejected S F) (node_after i t)"
  shows "(r \<noteq> [] \<longrightarrow> fwd_result D S root (pre @ node_before i t @ q) (r @ post)
            (fwd_loop D F (e # es) (fwd_start D S pre e i) m)) \<and>
         (r = [] \<longrightarrow> fwd_loop D F (e # es) (fwd_start D S pre e i) m
            = fwd_loop D F es (dpos D S (pre @ tree_items t)) False)"
  using assms
proof (induction t arbitrary: es pre post e m i q r)
  case (Leaf s xs xss)
  note ctx = Leaf.prems(1)
  have wf: "wf_node S (Leaf s xs xss)" using cursor_ctx_wf[OF ctx Leaf.prems(2)] by simp
  then have xss: "xss = map (sm_item S) xs" by simp
  have i: "i = (if m then se_index e else Suc (se_index e))" "se_index e < length xs"
    using Leaf.prems(6,7) by (auto simp: fwd_at_node_def)
  have q: "q = takeWhile (rejected S F) (drop i xs)" "r = dropWhile (rejected S F) (drop i xs)"
    using Leaf.prems(8,9) by (simp_all add: node_after_def)
  have qr: "drop i xs = q @ r" by (simp add: q)
  have ok: "ok (pre @ xs)"
    using Leaf.prems(4) cursor_ctx_items[OF ctx] ok_appendD1[of "pre @ xs" post] by simp
  have st: "fwd_start D S pre e i = dpos D S (pre @ take (se_index e) xs)"
    by (simp add: fwd_start_def Leaf.prems(6))
  obtain ep where loop: "fwd_loop D F (e # es) (fwd_start D S pre e i) m =
      (if i + length q < length xs
      then Some (entry (Leaf s xs xss) (i + length q) ep # es, dpos D S (pre @ take i xs @ q), True)
      else fwd_loop D F es (dpos D S (pre @ take i xs @ q)) False)"
    using fwd_loop_Leaf[OF Leaf.prems(6)[unfolded xss] ok i st, of F es]
    unfolding Let_def q(1)[symmetric] xss[symmetric] by blast
  have len: "length xs - i = length q + length r" using qr by (metis length_append length_drop)
  show ?case
  proof (cases "r = []")
    case True
    then have "\<not> i + length q < length xs" "take i xs @ q = xs" using len qr i by auto
    then show ?thesis using True loop by simp
  next
    case False
    then have n: "i + length q < length xs" using len i by (cases r) auto
    have "drop (i + length q) xs = drop (length q) (drop i xs)" by (simp add: add.commute)
    then have d: "drop (i + length q) xs = r" using qr by simp
    have t: "take (i + length q) xs = take i xs @ q" using qr by (simp add: take_add)
    have "stack_at D S root (entry (Leaf s xs xss) (i + length q) ep # es) (pre @ take i xs @ q) (r @ post)"
      using ctx n d t unfolding stack_at_def by (auto simp: entry_def)
    then show ?thesis using False loop n by (simp add: fwd_result_def node_before_def)
  qed
next
  case (Internal h s css cts)
  let ?t = "Internal h s css cts"
  note ctx = Internal.prems(1) and cap = Internal.prems(3)
  have wf: "wf_node S ?t" and len: "length es + height ?t = height root"
    using cursor_ctx_wf[OF ctx Internal.prems(2)] by simp_all
  have css: "css = map summary cts" and wfc: "\<And>i. i < length cts \<Longrightarrow> wf_node S (cts ! i)"
    using wf by auto
  have lcss: "length css = length cts" by (simp add: css)
  have h0: "0 < height ?t" using wf_node_height0[OF wf] by auto
  have before: "node_before i ?t = concat (map tree_items (take i cts))" for i
    by (simp add: node_before_def)
  have after: "node_after i ?t = concat (map tree_items (drop i cts))" for i
    by (simp add: node_after_def)
  have okt: "ok (pre @ tree_items ?t)" and filt: "filter_ok S F (pre @ tree_items ?t)"
    using Internal.prems(4,5) cursor_ctx_items[OF ctx] ok_appendD1[of "pre @ tree_items ?t" post]
      filter_ok_appendD[of S F "pre @ tree_items ?t" post] by simp_all
  have start: "fwd_start D S pre e i = dpos D S (pre @ node_before i ?t)" if "se_tree e = ?t"
    for e i using that by (simp add: fwd_start_def)
  show ?case using Internal.prems(6-9)
  proof (induction "length cts - i" arbitrary: e m i q r)
    case 0
    have i: "i = (if m then se_index e else Suc (se_index e))" "i = length cts"
      using 0 by (auto simp: fwd_at_node_def)
    have "node_after i ?t = []" "node_before i ?t = tree_items ?t"
      using i(2) by (simp_all add: after before)
    then show ?case using 0 fwd_loop_Internal[OF 0(2) i(1) refl] i(2) css
      by (simp add: start[OF 0(2)] nth_opt_def)
  next
    case (Suc k)
    let ?c = "cts ! i" and ?pos = "dpos D S (pre @ node_before i ?t)"
      and ?pos1 = "dpos D S (pre @ node_before (Suc i) ?t)"
    have i: "i = (if m then se_index e else Suc (se_index e))" "i < length cts" "m \<longrightarrow> se_position e = ?pos"
      using Suc.prems(1,2) Suc.hyps(2) by (auto simp: fwd_at_node_def start)
    have b1: "node_before (Suc i) ?t = node_before i ?t @ tree_items ?c"
      and a1: "node_after i ?t = tree_items ?c @ node_after (Suc i) ?t"
      using i(2) by (simp_all only: before after concat_take_nth concat_drop_nth)
    have all: "pre @ tree_items ?t = (pre @ node_before i ?t) @ tree_items ?c @ node_after (Suc i) ?t"
      using node_before_after[of i ?t] by (simp only: a1 append_assoc)
    have okc: "ok ((pre @ node_before i ?t) @ tree_items ?c)"
      using okt ok_appendD1[of "(pre @ node_before i ?t) @ tree_items ?c" "node_after (Suc i) ?t"]
      unfolding all by simp
    have ce: "dm_add D ?pos (summary ?c) = ?pos1"
      using dim_child[OF wfc[OF i(2)] okc] by (simp add: b1)
    have ep: "?pos = (if m then se_position e else ?pos)" using i(3) by simp
    have dr: "drop i css = summary ?c # drop (Suc i) css"
      using i(2) by (simp add: css flip: Cons_nth_drop_Suc)
    have at1: "fwd_at_node e1 True (Suc i) ?pos1" if "e1 = entry ?t (Suc i) ?pos1" for e1 :: "('a, 's, 'd) stack_entry"
      using i(2) that by (simp add: fwd_at_node_def entry_def)
    have atf: "fwd_at_node f False (Suc i) ?pos1" if "f = entry ?t i ?pos" for f :: "('a, 's, 'd) stack_entry"
      using i(2) that by (simp add: fwd_at_node_def entry_def)
    let ?q1 = "takeWhile (rejected S F) (node_after (Suc i) ?t)" and ?r1 = "dropWhile (rejected S F) (node_after (Suc i) ?t)"
    have IH: "(?r1 \<noteq> [] \<longrightarrow> fwd_result D S root (pre @ node_before (Suc i) ?t @ ?q1) (?r1 @ post)
            (fwd_loop D F (f # es) ?pos1 m')) \<and>
         (?r1 = [] \<longrightarrow> fwd_loop D F (f # es) ?pos1 m' = fwd_loop D F es (dpos D S (pre @ tree_items ?t)) False)"
      if "se_tree f = ?t" "fwd_at_node f m' (Suc i) ?pos1" for f m'
      using Suc.hyps(1)[of "Suc i" f m' ?q1 ?r1] Suc.hyps(2) that by (simp add: start)
    note loop = fwd_loop_Internal[OF Suc.prems(1) i(1) ep, of F es]
    show ?case
    proof (cases "F (summary ?c)")
      case False
      let ?e1 = "entry ?t (Suc i) ?pos1"
      have e1: "se_tree ?e1 = ?t" "Suc i = (if True then se_index ?e1 else Suc (se_index ?e1))"
        "?pos1 = (if True then se_position ?e1 else ?pos1)"
        by (simp_all add: entry_def)
      have sk: "fwd_skip D F i ?pos ?pos (drop i css) = fwd_skip D F (Suc i) ?pos1 ?pos1 (drop (Suc i) css)"
        using False by (simp add: dr ce)
      have step: "fwd_loop D F (e # es) ?pos m = fwd_loop D F (?e1 # es) ?pos1 True"
        unfolding loop fwd_loop_Internal[OF e1, of F es] sk Suc.prems(1) e1(1) ..
      have rej: "\<And>x. x \<in> set (tree_items ?c) \<Longrightarrow> rejected S F x"
        using filter_ok_rejected[OF filt[unfolded all]] False wf_node_summary[OF wfc[OF i(2)]] by simp
      then have "q = tree_items ?c @ ?q1" "r = ?r1"
        using Suc.prems(3,4) by (simp_all add: a1)
      then show ?thesis using IH[OF e1(1) at1[OF refl]] by (simp add: start[OF Suc.prems(1)] step b1)
    next
      case True
      let ?f = "entry ?t i ?pos" and ?e1 = "entry ?c 0 ?pos"
      have "length (?f # es) < STACK_CAP" using len h0 cap by simp
      then have step: "fwd_loop D F (e # es) ?pos m = fwd_loop D F (?e1 # ?f # es) ?pos True"
        unfolding loop dr using True i(2) by (simp add: Suc.prems(1) stack_push_def nth_opt_def)
      have cctx: "cursor_ctx D S root (?f # es) ?c (pre @ node_before i ?t) (node_after (Suc i) ?t @ post)"
        using ctx_child[OF ctx i(2)] by (simp only: before after)
      have f1: "fwd_start D S (pre @ node_before i ?t) ?e1 0 = ?pos"
        by (cases ?c) (auto simp: fwd_start_def entry_def)
      have at: "fwd_at_node ?e1 True 0 (fwd_start D S (pre @ node_before i ?t) ?e1 0)"
        unfolding f1 using wf_node_items[OF wfc[OF i(2)]] by (cases ?c) (auto simp: fwd_at_node_def entry_def)
      have ce1: "se_tree ?e1 = ?c" by (simp add: entry_def)
      have ft: "se_tree ?f = ?t" by (simp add: entry_def)
      let ?qc = "takeWhile (rejected S F) (tree_items ?c)" and ?rc = "dropWhile (rejected S F) (tree_items ?c)"
      have child: "(?rc \<noteq> [] \<longrightarrow> fwd_result D S root (pre @ node_before i ?t @ ?qc) (?rc @ node_after (Suc i) ?t @ post)
            (fwd_loop D F (?e1 # ?f # es) ?pos True)) \<and>
         (?rc = [] \<longrightarrow> fwd_loop D F (?e1 # ?f # es) ?pos True = fwd_loop D F (?f # es) ?pos1 False)"
        using Internal.IH[OF nth_mem[OF i(2)] cctx Internal.prems(2-5) ce1 at refl refl]
        by (simp add: f1 b1)
      show ?thesis
      proof (cases "?rc = []")
        case True
        then have "\<forall>x \<in> set (tree_items ?c). rejected S F x" by simp
        then have "q = tree_items ?c @ ?q1" "r = ?r1"
          using Suc.prems(3,4) by (simp_all add: a1)
        then show ?thesis using IH[OF ft atf[OF refl]] child True by (simp add: start[OF Suc.prems(1)] step b1)
      next
        case False
        then obtain x where "x \<in> set (tree_items ?c)" "\<not> rejected S F x" by auto
        then have "q = ?qc" "r = ?rc @ node_after (Suc i) ?t"
          using Suc.prems(3,4) by (auto simp: a1 takeWhile_append dropWhile_append)
        moreover have "r \<noteq> []" using calculation(2) False by simp
        ultimately show ?thesis using child False by (simp add: start[OF Suc.prems(1)] step) blast
      qed
    qed
  qed
qed

lemma fwd_ascend_ok:
  assumes "cursor_ctx D S root es t pre post" "wf_node S root" "height root < STACK_CAP"
    "ok (tree_items root)" "filter_ok S F (tree_items root)"
  shows "fwd_result D S root (pre @ tree_items t @ takeWhile (rejected S F) post)
     (dropWhile (rejected S F) post) (fwd_loop D F es (dpos D S (pre @ tree_items t)) False)"
  using assms
proof (induction es arbitrary: t pre post)
  case Nil
  from Nil.prems(1) have "t = root" "pre = []" "post = []" by (auto elim: cursor_ctx_NilE)
  then show ?case by (simp add: fwd_result_def stack_at_def)
next
  case (Cons f es)
  obtain h s css cts pre0 post0 i where
    f: "f = entry (Internal h s css cts) i (dpos D S (pre0 @ concat (map tree_items (take i cts))))"
    and ctx: "cursor_ctx D S root es (Internal h s css cts) pre0 post0" "i < length cts"
    and t: "t = cts ! i" "pre = pre0 @ concat (map tree_items (take i cts))"
      "post = concat (map tree_items (drop (Suc i) cts)) @ post0"
    using Cons.prems(1) by (auto elim: cursor_ctx_ConsE)
  let ?t = "Internal h s css cts" and ?rej = "rejected S F"
  have pre: "pre @ tree_items t = pre0 @ node_before (Suc i) ?t"
    using ctx(2) by (simp add: t node_before_def concat_take_nth)
  have post: "post = node_after (Suc i) ?t @ post0" by (simp add: t node_after_def)
  have st: "fwd_start D S pre0 f (Suc i) = dpos D S (pre @ tree_items t)"
    unfolding pre by (simp add: fwd_start_def f entry_def)
  have nd: "fwd_at_node f False (Suc i) (fwd_start D S pre0 f (Suc i))"
    using ctx(2) by (simp add: f fwd_at_node_def entry_def)
  have ft: "se_tree f = ?t" by (simp add: f entry_def)
  note node = fwd_node_ok[OF ctx(1) Cons.prems(2-5) ft nd refl refl]
  note pre' = pre[symmetric, unfolded append_assoc[symmetric]]
  show ?case
  proof (cases "dropWhile ?rej (node_after (Suc i) ?t) = []")
    case True
    then have all: "takeWhile ?rej post = node_after (Suc i) ?t @ takeWhile ?rej post0"
      "dropWhile ?rej post = dropWhile ?rej post0"
      by (simp_all add: post)
    have e: "pre @ tree_items t @ takeWhile ?rej post = pre0 @ tree_items ?t @ takeWhile ?rej post0"
      unfolding all using pre node_before_after[of "Suc i" ?t] by (metis append.assoc)
    show ?thesis using node Cons.IH[OF ctx(1) Cons.prems(2-5)] True
      unfolding e all(2) st[symmetric] by simp
  next
    case False
    then obtain x where "x \<in> set (node_after (Suc i) ?t)" "\<not> ?rej x" by auto
    then have all: "takeWhile ?rej post = takeWhile ?rej (node_after (Suc i) ?t)"
      "dropWhile ?rej post = dropWhile ?rej (node_after (Suc i) ?t) @ post0"
      by (auto simp: post takeWhile_append dropWhile_append)
    have e: "pre @ tree_items t @ takeWhile ?rej post = pre0 @ node_before (Suc i) ?t @ takeWhile ?rej (node_after (Suc i) ?t)"
      unfolding all using pre by (metis append.assoc)
    show ?thesis using node False unfolding e all(2) st[symmetric] by simp
  qed
qed

text \<open>\<open>search_forward\<close> from the start reaches the first accepted item, otherwise the first accepted
  item after the current one.\<close>

lemma fwd_from_root_ok:
  assumes "wf_tree S root" "tree_items root \<noteq> []" "height root < STACK_CAP" "ok (tree_items root)"
    "filter_ok S F (tree_items root)"
  shows "fwd_result D S root (takeWhile (rejected S F) (tree_items root))
     (dropWhile (rejected S F) (tree_items root)) (fwd_loop D F [entry root 0 (dm_zero D)] (dm_zero D) True)"
proof -
  have wf: "wf_node S root" using assms(1,2) by (auto simp: wf_tree_def)
  let ?e = "entry root 0 (dm_zero D)"
  have st: "fwd_start D S [] ?e 0 = dm_zero D" by (cases root) (auto simp: fwd_start_def entry_def)
  have nd: "fwd_at_node ?e True 0 (fwd_start D S [] ?e 0)"
    unfolding st using assms(2) by (cases root) (auto simp: fwd_at_node_def entry_def)
  have "se_tree ?e = root" by (simp add: entry_def)
  note node = fwd_node_ok[OF ctx_root wf assms(3-5) this nd refl refl]
  show ?thesis
  proof (cases "dropWhile (rejected S F) (tree_items root) = []")
    case True
    then have tw: "takeWhile (rejected S F) (tree_items root) = tree_items root" by simp
    show ?thesis unfolding tw True using node True by (simp add: st fwd_result_def stack_at_def)
  qed (use node in \<open>simp add: st\<close>)
qed

lemma search_forward_start_ok:
  assumes "cursor_start D S c" "ok (tree_items (c_tree c))" "filter_ok S F (tree_items (c_tree c))"
  shows "\<exists>c'. search_forward D F c = Some c' \<and> c_tree c' = c_tree c \<and>
     cursor_at D S c' (takeWhile (rejected S F) (tree_items (c_tree c))) (dropWhile (rejected S F) (tree_items (c_tree c)))"
proof (cases "tree_items (c_tree c) = []")
  case True
  then show ?thesis using assms(1) wf_tree_is_empty[of S "c_tree c"]
    by (simp add: cursor_start_def search_forward_def cursor_at_def stack_at_def)
next
  case False
  have c: "wf_tree S (c_tree c)" "height (c_tree c) < STACK_CAP" "c_stack c = []" "c_position c = dm_zero D"
    "\<not> c_at_end c"
    using assms(1) False wf_tree_is_empty[of S "c_tree c"] by (auto simp: cursor_start_def)
  have push: "stack_push [] (entry (c_tree c) 0 (dm_zero D)) = Some [entry (c_tree c) 0 (dm_zero D)]"
    by (simp add: stack_push_def STACK_CAP_def)
  obtain st where st: "fwd_loop D F [entry (c_tree c) 0 (dm_zero D)] (dm_zero D) True
      = Some (st, dpos D S (takeWhile (rejected S F) (tree_items (c_tree c))),
          dropWhile (rejected S F) (tree_items (c_tree c)) \<noteq> [])"
    "stack_at D S (c_tree c) st (takeWhile (rejected S F) (tree_items (c_tree c)))
          (dropWhile (rejected S F) (tree_items (c_tree c)))"
    using fwd_from_root_ok[OF c(1) False c(2) assms(2,3)] by (auto simp: fwd_result_def)
  then show ?thesis using c stack_at_empty[OF st(2)] push
    by (auto simp: search_forward_def cursor_at_def)
qed

lemma fwd_from_leaf_ok:
  assumes "cursor_at D S c pre post" "c_stack c = e # es" "ok (pre @ post)" "filter_ok S F (pre @ post)"
  shows "fwd_result D S (c_tree c) (pre @ take 1 post @ takeWhile (rejected S F) (tl post))
     (dropWhile (rejected S F) (tl post)) (fwd_loop D F (e # es) (dpos D S pre) False)"
proof -
  obtain s xs pre0 post0 where l: "se_tree e = Leaf s xs (map (sm_item S) xs)"
    "cursor_ctx D S (c_tree c) es (Leaf s xs (map (sm_item S) xs)) pre0 post0" "se_index e < length xs"
    "pre = pre0 @ take (se_index e) xs" "post = drop (se_index e) xs @ post0"
    using cursor_at_leaf[OF assms(1) assms(2)] by metis
  have items: "tree_items (c_tree c) = pre @ post" using cursor_at_items[OF assms(1)] by simp
  have c: "c_did_seek c" "c_position c = dpos D S pre" "height (c_tree c) < STACK_CAP" "wf_tree S (c_tree c)"
    "\<not> c_at_end c"
    using assms(1,2) by (auto simp: cursor_at_def)
  note root = cursor_at_wf_root[OF assms(1) assms(2)] c(3) assms(3,4)[folded items]
  let ?t = "Leaf s xs (map (sm_item S) xs)" and ?i = "se_index e" and ?rej = "rejected S F"
  have st: "fwd_start D S pre0 e (Suc ?i) = dpos D S pre" by (simp add: fwd_start_def l(1,4))
  have nd: "fwd_at_node e False (Suc ?i) (fwd_start D S pre0 e (Suc ?i))"
    using l(3) by (simp add: fwd_at_node_def l(1))
  note node = fwd_node_ok[OF l(2) root l(1) nd refl refl]
  have post: "post = xs ! ?i # drop (Suc ?i) xs @ post0" using l(3) by (simp add: l(5) flip: Cons_nth_drop_Suc)
  have nodes: "node_before (Suc ?i) ?t = take ?i xs @ [xs ! ?i]" "node_after (Suc ?i) ?t = drop (Suc ?i) xs"
    using l(3) by (simp_all add: node_before_def node_after_def take_Suc_conv_app_nth)
  show ?thesis
  proof (cases "dropWhile ?rej (drop (Suc ?i) xs) = []")
    case True
    then have tw: "takeWhile ?rej (tl post) = drop (Suc ?i) xs @ takeWhile ?rej post0"
      and dw: "dropWhile ?rej (tl post) = dropWhile ?rej post0" by (simp_all add: post)
    have e: "pre @ take 1 post @ takeWhile ?rej (tl post) = pre0 @ xs @ takeWhile ?rej post0"
      unfolding tw using arg_cong[OF id_take_nth_drop[OF l(3)], of "\<lambda>ys. pre0 @ ys @ takeWhile ?rej post0"]
      by (simp add: l(4) post)
    show ?thesis unfolding e dw using node True fwd_ascend_ok[OF l(2) root]
      by (simp add: st nodes)
  next
    case False
    then obtain x where "x \<in> set (drop (Suc ?i) xs)" "\<not> ?rej x" by auto
    then have "takeWhile ?rej (tl post) = takeWhile ?rej (drop (Suc ?i) xs)"
      "dropWhile ?rej (tl post) = dropWhile ?rej (drop (Suc ?i) xs) @ post0"
      by (auto simp: post takeWhile_append dropWhile_append)
    then show ?thesis using node False by (simp add: st nodes post l(4))
  qed
qed

lemma search_forward_at_ok:
  assumes "cursor_at D S c pre post" "ok (pre @ post)" "filter_ok S F (pre @ post)"
  shows "\<exists>c'. search_forward D F c = Some c' \<and> c_tree c' = c_tree c \<and>
     cursor_at D S c' (pre @ take 1 post @ takeWhile (rejected S F) (tl post)) (dropWhile (rejected S F) (tl post))"
proof (cases "c_stack c")
  case Nil
  then show ?thesis using assms(1)
    by (auto simp: search_forward_def cursor_at_def stack_at_def)
next
  case (Cons e es)
  let ?rej = "rejected S F"
  have c: "c_did_seek c" "c_position c = dpos D S pre" "height (c_tree c) < STACK_CAP" "wf_tree S (c_tree c)"
    "\<not> c_at_end c"
    using assms(1) Cons by (auto simp: cursor_at_def)
  obtain st' where st': "fwd_loop D F (e # es) (dpos D S pre) False =
      Some (st', dpos D S (pre @ take 1 post @ takeWhile ?rej (tl post)), dropWhile ?rej (tl post) \<noteq> [])"
    "stack_at D S (c_tree c) st' (pre @ take 1 post @ takeWhile ?rej (tl post)) (dropWhile ?rej (tl post))"
    using fwd_from_leaf_ok[OF assms(1) Cons assms(2,3)] by (auto simp: fwd_result_def)
  then show ?thesis using c Cons stack_at_empty[OF st'(2)]
    by (auto simp: search_forward_def cursor_at_def)
qed

lemma cursor_next_start_ok:
  assumes "cursor_start D S c" "ok (tree_items (c_tree c))"
  shows "\<exists>c'. cursor_next D c = Some c' \<and> c_tree c' = c_tree c \<and> cursor_at D S c' [] (tree_items (c_tree c))"
proof -
  have "rejected S (\<lambda>_. True) = (\<lambda>_. False)" by (simp add: rejected_def fun_eq_iff)
  moreover have "takeWhile (\<lambda>_. False) xs = []" "dropWhile (\<lambda>_. False) xs = xs" for xs :: "'a list"
    by (cases xs; simp)+
  ultimately show ?thesis using search_forward_start_ok[OF assms, of "\<lambda>_. True"]
    by (simp add: cursor_next_def)
qed

lemma cursor_next_at_ok:
  assumes "cursor_at D S c pre post" "ok (pre @ post)"
  shows "\<exists>c'. cursor_next D c = Some c' \<and> c_tree c' = c_tree c \<and> cursor_at D S c' (pre @ take 1 post) (tl post)"
proof -
  have "rejected S (\<lambda>_. True) = (\<lambda>_. False)" by (simp add: rejected_def fun_eq_iff)
  moreover have "takeWhile (\<lambda>_. False) xs = []" "dropWhile (\<lambda>_. False) xs = xs" for xs :: "'a list"
    by (cases xs; simp)+
  ultimately show ?thesis using search_forward_at_ok[OF assms, of "\<lambda>_. True"]
    by (simp add: cursor_next_def)
qed

end

section \<open>All items\<close>

sublocale summary_laws \<subseteq> unit_dim: dim_laws S ok unit_dim
  by unfold_locales (simp_all add: unit_dim_def)

context summary_laws
begin

lemma items_loop_ok:
  "cursor_at unit_dim S c pre post \<Longrightarrow> ok (pre @ post) \<Longrightarrow> items_loop c items = Some (items @ post)"
proof (induction post arbitrary: c pre items)
  case Nil
  then show ?case using cursor_item_ok(1)[OF Nil(1)] by (subst items_loop.simps) simp
next
  case (Cons x post)
  obtain c' where c': "cursor_next unit_dim c = Some c'" "cursor_at unit_dim S c' (pre @ [x]) post"
    using unit_dim.cursor_next_at_ok[OF Cons.prems] by auto
  have "ok ((pre @ [x]) @ post)" using Cons.prems(2) by simp
  from Cons.IH[OF c'(2) this] have "items_loop c' (items @ [x]) = Some ((items @ [x]) @ post)" .
  then show ?case using cursor_item_ok(1)[OF Cons.prems(1)] c'(1)
    by (subst items_loop.simps) simp
qed

lemma stree_items_ok:
  assumes "wf_tree S t" "height t < STACK_CAP" "ok (tree_items t)"
  shows "stree_items t = Some (tree_items t)"
proof -
  have "cursor_start unit_dim S (cursor_new unit_dim t)"
    using cursor_fresh_start[OF cursor_new_fresh[OF assms(1,2)]] .
  then obtain c where "cursor_next unit_dim (cursor_new unit_dim t) = Some c" "cursor_at unit_dim S c [] (tree_items t)"
    using unit_dim.cursor_next_start_ok[of "cursor_new unit_dim t"] assms(3) by auto
  then show ?thesis using items_loop_ok[of c "[]" "tree_items t" "[]"] assms(3)
    by (simp add: stree_items_def)
qed

end

section \<open>Iterators\<close>

text \<open>A filter cursor used as an iterator yields the accepted items in order.\<close>

context dim_laws
begin

lemma filter_iter_next_ok:
  assumes "cursor_at D S c pre post" "ok (pre @ post)" "filter_ok S F (pre @ post)"
  shows "\<exists>c'. filter_iter_next D F c = Some (first_opt post, c') \<and> c_tree c' = c_tree c \<and>
     (if post = [] then c' = c else
       cursor_at D S c' (pre @ take 1 post @ takeWhile (rejected S F) (tl post)) (dropWhile (rejected S F) (tl post)))"
proof -
  have "c_did_seek c" using assms(1) by (simp add: cursor_at_def)
  then show ?thesis using cursor_item_ok(1)[OF assms(1)] search_forward_at_ok[OF assms]
    by (cases post) (auto simp: filter_iter_next_def)
qed

lemma cursor_iter_next_ok:
  assumes "cursor_at D S c pre post" "ok (pre @ post)"
  shows "\<exists>c'. cursor_iter_next D c = Some (first_opt post, c') \<and> c_tree c' = c_tree c \<and>
     cursor_at D S c' (pre @ take 1 post) (tl post)"
proof -
  have "c_did_seek c" using assms(1) by (simp add: cursor_at_def)
  then show ?thesis using cursor_item_ok(1)[OF assms(1)] cursor_next_at_ok[OF assms] assms(1)
    by (cases post) (auto simp: cursor_iter_next_def)
qed

end

text \<open>The plain iterator runs the walk of the trivial dimension without a filter.\<close>

definition iter_stack_ok :: "('a, 's) summary_ops \<Rightarrow> ('a, 's, unit) stack_entry list \<Rightarrow> bool \<Rightarrow> bool" where
  "iter_stack_ok S st d \<longleftrightarrow> (\<forall>e \<in> set st. wf_node S (se_tree e)) \<and>
     (\<forall>e \<in> set (tl st). \<not> is_leaf (se_tree e)) \<and>
     (\<not> d \<longrightarrow> (case st of e # _ \<Rightarrow> (case se_tree e of Leaf s xs xss \<Rightarrow> se_index e < length xs | _ \<Rightarrow> True) | [] \<Rightarrow> True))"

definition stack_item :: "('a, 's, 'd) stack_entry list \<Rightarrow> 'a option" where
  "stack_item st = (case st of e # _ \<Rightarrow> (case se_tree e of Leaf s xs xss \<Rightarrow> nth_opt xs (se_index e) | _ \<Rightarrow> None) | [] \<Rightarrow> None)"

lemma fwd_skip_True: "fwd_skip D (\<lambda>_. True) i ep pos ss = (i, ep, pos)"
  by (cases ss) auto

lemma iter_stack_ok_pop: "iter_stack_ok S (e # es) d \<Longrightarrow> iter_stack_ok S es False"
  by (cases es) (auto simp: iter_stack_ok_def split: stree.splits)

lemma iter_stack_ok_push:
  assumes "iter_stack_ok S (e # es) d" "se_tree e = Internal h s css cts" "i < length cts"
  shows "iter_stack_ok S (entry (cts ! i) 0 p # entry (Internal h s css cts) i q # es) True"
  using assms by (auto simp: iter_stack_ok_def entry_def)

lemma iter_loop_fwd:
  "iter_stack_ok S st d \<Longrightarrow>
   iter_loop st d = map_option (\<lambda>(st', _, found). (if found then stack_item st' else None, st'))
     (fwd_loop unit_dim (\<lambda>_. True) st () d)"
proof (induction st d rule: iter_loop.induct)
  case (2 e es d)
  let ?i = "if d then se_index e else se_index e + 1"
  show ?case
  proof (cases "se_tree e")
    case (Internal h s css cts)
    note IH1 = "2.IH"(2)[OF refl Internal] and IH2 = "2.IH"(1)[OF refl Internal]
    show ?thesis
    proof (cases "?i < length cts")
      case True
      let ?st = "entry (cts ! ?i) 0 () # entry (Internal h s css cts) ?i () # es"
      have "iter_loop ?st True = map_option (\<lambda>(st', _, found). (if found then stack_item st' else None, st'))
          (fwd_loop unit_dim (\<lambda>_. True) ?st () True)" if "Suc (length es) < STACK_CAP"
      proof (rule IH1)
        show "nth_opt cts ?i = Some (cts ! ?i)" using True by (simp add: nth_opt_def)
        show "stack_push (entry (se_tree e) ?i () # es) (entry (cts ! ?i) 0 ()) = Some ?st"
          using that by (simp add: stack_push_def Internal)
        show "iter_stack_ok S ?st True" by (rule iter_stack_ok_push[OF "2.prems" Internal True])
      qed
      then show ?thesis using True
        by (subst iter_loop.simps, subst fwd_loop.simps)
           (auto simp: Internal fwd_skip_True nth_opt_def stack_push_def Let_def)
    next
      case False
      then show ?thesis using IH2 iter_stack_ok_pop[OF "2.prems"]
        by (subst iter_loop.simps, subst fwd_loop.simps)
           (auto simp: Internal fwd_skip_True nth_opt_def Let_def)
    qed
  next
    case (Leaf s xs xss)
    then have len: "length xss = length xs" and idx: "\<not> d \<longrightarrow> se_index e < length xs"
      using "2.prems" by (auto simp: iter_stack_ok_def)
    note IH3 = "2.IH"(3)[OF refl Leaf]
    show ?thesis
    proof (cases "?i < length xs")
      case True
      then show ?thesis using len idx
        by (subst iter_loop.simps, subst fwd_loop.simps, cases d)
           (auto simp: Leaf fwd_skip_True nth_opt_def stack_item_def entry_def Let_def)
    next
      case False
      then show ?thesis using IH3 iter_stack_ok_pop[OF "2.prems"] len idx
        by (subst iter_loop.simps, subst fwd_loop.simps, cases d)
           (auto simp: Leaf fwd_skip_True nth_opt_def Let_def)
    qed
  qed
qed simp

text \<open>The iterator has yielded \<open>pre\<close>, the last of which is under its stack, and \<open>post\<close> is left.\<close>

definition iter_at :: "('a, 's) summary_ops \<Rightarrow> ('a, 's) iter \<Rightarrow> 'a list \<Rightarrow> 'a list \<Rightarrow> bool" where
  "iter_at S it pre post \<longleftrightarrow> wf_tree S (it_tree it) \<and> height (it_tree it) < STACK_CAP \<and>
     pre @ post = tree_items (it_tree it) \<and>
     (if it_stack it = [] then pre = [] else
       pre \<noteq> [] \<and> stack_at unit_dim S (it_tree it) (it_stack it) (butlast pre) (last pre # post))"

lemma stack_at_iter_ok:
  assumes "stack_at unit_dim S root st pre post" "wf_node S root"
  shows "iter_stack_ok S st False" "stack_item st = first_opt post"
proof -
  have "iter_stack_ok S st False \<and> stack_item st = first_opt post"
  proof (cases st)
    case Nil
    then show ?thesis using assms(1) by (simp add: iter_stack_ok_def stack_item_def stack_at_def)
  next
    case (Cons e es)
    obtain s xs xss pre0 post0 where l: "se_tree e = Leaf s xs xss"
      "cursor_ctx unit_dim S root es (Leaf s xs xss) pre0 post0" "se_index e < length xs"
      "post = drop (se_index e) xs @ post0"
      using assms(1) by (auto simp: stack_at_def Cons)
    have "(\<forall>f \<in> set es. wf_node S (se_tree f) \<and> \<not> is_leaf (se_tree f)) \<and> wf_node S t"
      if "cursor_ctx unit_dim S root es t p q" for es t p q
      using that assms(2)
    proof (induction rule: cursor_ctx.induct)
      case (ctx_child es h s css cts pre post i)
      then show ?case by (auto simp: entry_def)
    qed simp
    from this[OF l(2)] show ?thesis using l
      by (simp add: Cons iter_stack_ok_def stack_item_def nth_opt_def first_opt_iff hd_append hd_drop_conv_nth)
  qed
  then show "iter_stack_ok S st False" "stack_item st = first_opt post" by auto
qed

context summary_laws
begin

lemma iter_next_ok:
  assumes "iter_at S it pre post" "ok (pre @ post)"
  shows "\<exists>it'. iter_next it = Some (first_opt post, it') \<and> it_tree it' = it_tree it \<and>
     (if post = [] then it_stack it' = [] else iter_at S it' (pre @ [hd post]) (tl post))"
proof -
  let ?t = "it_tree it"
  have t: "wf_tree S ?t" "height ?t < STACK_CAP" "tree_items ?t = pre @ post"
    using assms(1) by (auto simp: iter_at_def)
  have result: "\<exists>it'. iter_next it = Some (first_opt post, it') \<and> it_tree it' = ?t \<and>
      (if post = [] then it_stack it' = [] else iter_at S it' (pre @ [hd post]) (tl post))"
    if loop: "iter_next it = do {
          (item, st') \<leftarrow> map_option (\<lambda>(st', _, found). (if found then stack_item st' else None, st')) out;
          Some (item, it\<lparr>it_stack := st'\<rparr>) }"
      and out: "fwd_result unit_dim S ?t pre post out" and wf: "wf_node S ?t" for out
  proof -
    obtain st where st: "out = Some (st, (), post \<noteq> [])" "stack_at unit_dim S ?t st pre post"
      using out by (auto simp: fwd_result_def)
    note si = stack_at_iter_ok[OF st(2) wf] stack_at_empty[OF st(2)]
    have "iter_next it = Some (first_opt post, it\<lparr>it_stack := st\<rparr>)"
      using loop st(1) si(2) by auto
    moreover have "if post = [] then st = [] else iter_at S (it\<lparr>it_stack := st\<rparr>) (pre @ [hd post]) (tl post)"
      using t st(2) si(3) by (auto simp: iter_at_def)
    ultimately show ?thesis by (auto split: if_splits)
  qed
  show ?thesis
  proof (cases "?t = stree_new S")
    case True
    then have "pre = []" "post = []" using t(3) by simp_all
    then show ?thesis using assms(1) True
      by (auto simp: iter_at_def iter_next_def stack_push_def STACK_CAP_def iter_loop.simps entry_def stree_new_def nth_opt_def)
  next
    case False
    then have wf: "wf_node S ?t" using t(1) by (simp add: wf_tree_def)
    show ?thesis
    proof (cases "it_stack it = []")
      case True
      let ?st = "[entry ?t 0 ()]"
      have pre: "pre = []" using assms(1) True by (simp add: iter_at_def)
      have "iter_stack_ok S ?st True" using wf by (simp add: iter_stack_ok_def entry_def)
      from iter_loop_fwd[OF this] have "iter_next it = do {
          (item, st') \<leftarrow> map_option (\<lambda>(st', _, found). (if found then stack_item st' else None, st'))
             (fwd_loop unit_dim (\<lambda>_. True) ?st () True);
          Some (item, it\<lparr>it_stack := st'\<rparr>) }"
        using True by (simp add: iter_next_def stack_push_def STACK_CAP_def)
      moreover have "fwd_result unit_dim S ?t pre post (fwd_loop unit_dim (\<lambda>_. True) ?st () True)"
        using unit_dim.fwd_from_root_ok[OF t(1) _ t(2), of "\<lambda>_. True"] t(3) assms(2) wf_node_items[OF wf] pre
        by (simp add: rejected_none)
      ultimately show ?thesis using result wf by blast
    next
      case False
      let ?p = "butlast pre" and ?q = "last pre # post"
      let ?c = "\<lparr>c_tree = ?t, c_stack = it_stack it, c_position = (), c_did_seek = True, c_at_end = False\<rparr>"
      have ne: "pre \<noteq> []" and sat: "stack_at unit_dim S ?t (it_stack it) ?p ?q"
        using assms(1) False by (auto simp: iter_at_def)
      have items: "?p @ ?q = pre @ post" using ne by (metis append.assoc append_Cons append_Nil append_butlast_last_id)
      have "cursor_at unit_dim S ?c ?p ?q" using t sat False by (simp add: cursor_at_def)
      moreover obtain e es where st: "it_stack it = e # es" using False by (cases "it_stack it") auto
      ultimately have "fwd_result unit_dim S ?t pre post (fwd_loop unit_dim (\<lambda>_. True) (it_stack it) () False)"
        using unit_dim.fwd_from_leaf_ok[of ?c ?p ?q e es "\<lambda>_. True"] assms(2) items ne
        by (simp add: rejected_none)
      moreover have "iter_next it = do {
          (item, st') \<leftarrow> map_option (\<lambda>(st', _, found). (if found then stack_item st' else None, st'))
             (fwd_loop unit_dim (\<lambda>_. True) (it_stack it) () False);
          Some (item, it\<lparr>it_stack := st'\<rparr>) }"
        using False iter_loop_fwd[OF stack_at_iter_ok(1)[OF sat wf]] by (simp add: iter_next_def)
      ultimately show ?thesis using result wf by blast
    qed
  qed
qed

end

text \<open>After the last item the lower bound of \<open>size_hint\<close> is one, although nothing is left.\<close>

lemma iter_size_hint_last:
  assumes "iter_at S it pre []" "pre \<noteq> []" "it_stack it \<noteq> []"
  shows "iter_size_hint it = Some 1"
proof -
  obtain e es where st: "it_stack it = e # es" using assms(3) by (cases "it_stack it") auto
  have sat: "stack_at unit_dim S (it_tree it) (e # es) (butlast pre) [last pre]"
    using assms st by (auto simp: iter_at_def)
  then obtain s xs xss pre0 post0 where l: "se_tree e = Leaf s xs xss"
    "cursor_ctx unit_dim S (it_tree it) es (Leaf s xs xss) pre0 post0" "se_index e < length xs"
    "[last pre] = drop (se_index e) xs @ post0"
    by (auto simp: stack_at_def)
  have "it_tree it \<noteq> stree_new S" using assms(1,2) by (auto simp: iter_at_def)
  then have "wf_node S (it_tree it)" using assms(1) by (simp add: iter_at_def wf_tree_def)
  then have "length xss = length xs" using cursor_ctx_wf[OF l(2)] by auto
  moreover have "length (drop (se_index e) xs) = 1"
    using l(3,4) by (cases "drop (se_index e) xs") auto
  ultimately show ?thesis using l(3) by (simp add: iter_size_hint_def st l(1) csub_def)
qed

context summary_laws
begin

lemma collect_iter_ok:
  "iter_at S it pre post \<Longrightarrow> ok (pre @ post) \<Longrightarrow> collect_iter it acc = Some (acc @ post)"
proof (induction post arbitrary: it pre acc)
  case Nil
  obtain it' where "iter_next it = Some (None, it')"
    using iter_next_ok[OF Nil] by auto
  then show ?case by (subst collect_iter.simps) simp
next
  case (Cons x post)
  obtain it' where it': "iter_next it = Some (Some x, it')" "iter_at S it' (pre @ [x]) post"
    using iter_next_ok[OF Cons.prems] by auto
  have "ok ((pre @ [x]) @ post)" using Cons.prems(2) by simp
  from Cons.IH[OF it'(2) this] show ?case using it'(1) by (subst collect_iter.simps) simp
qed

lemma collect_new_iter:
  assumes "wf_tree S t" "height t < STACK_CAP" "ok (tree_items t)"
  shows "collect_iter (iter_new t) [] = Some (tree_items t)"
  using collect_iter_ok[of "iter_new t" "[]" "tree_items t" "[]"] assms by (simp add: iter_at_def iter_new_def)

end

end
