(* ===== verification/CursorBack.thy ===== *)
theory CursorBack
  imports CursorWalk
begin

text \<open>
  Walking backward with a cursor: \<open>search_backward\<close> stops at the last accepted item before the
  cursor, or in front of the first item when there is none; \<open>prev\<close> undoes \<open>next\<close>.
\<close>

section \<open>The last accepted item\<close>

definition bsplit :: "('a, 's) summary_ops \<Rightarrow> ('s \<Rightarrow> bool) \<Rightarrow> 'a list \<Rightarrow> 'a list \<times> 'a list" where
  "bsplit S F xs = (rev (dropWhile (rejected S F) (rev xs)), rev (takeWhile (rejected S F) (rev xs)))"

lemma bsplit_Nil [simp]: "bsplit S F [] = ([], [])"
  by (simp add: bsplit_def)

lemma bsplit_items: "bsplit S F xs = (p, r) \<Longrightarrow> p @ r = xs"
  by (auto simp: bsplit_def simp flip: rev_append)

lemma bsplit_reject:
  "(\<And>y. y \<in> set ys \<Longrightarrow> rejected S F y) \<Longrightarrow>
   bsplit S F (xs @ ys) = (fst (bsplit S F xs), snd (bsplit S F xs) @ ys)"
  by (simp add: bsplit_def takeWhile_append dropWhile_append)

lemma bsplit_none: "bsplit S F xs = ([], r) \<Longrightarrow> r = xs \<and> (\<forall>x \<in> set xs. rejected S F x)"
  by (auto simp: bsplit_def) (metis rev_rev_ident takeWhile_eq_all_conv set_rev)

lemma bsplit_found: "fst (bsplit S F ys) \<noteq> [] \<Longrightarrow> bsplit S F (xs @ ys) = (xs @ fst (bsplit S F ys), snd (bsplit S F ys))"
  by (auto simp: bsplit_def takeWhile_append dropWhile_append)

lemma bsplit_accept: "\<not> rejected S F x \<Longrightarrow> bsplit S F (xs @ [x]) = (xs @ [x], [])"
  by (simp add: bsplit_def)

lemma bsplit_True: "bsplit S (\<lambda>_. True) xs = (xs, [])"
  by (simp add: bsplit_def rejected_none)

section \<open>The backward loop\<close>

definition bwd_at_node :: "('a, 's, 'd) stack_entry \<Rightarrow> bool \<Rightarrow> nat \<Rightarrow> bool" where
  "bwd_at_node e d k \<longleftrightarrow> k = (if d then Suc (se_index e) else se_index e) \<and>
     k \<le> length (child_summaries (se_tree e))"

definition bwd_result ::
  "('d, 's) dim_ops \<Rightarrow> ('a, 's) summary_ops \<Rightarrow> ('a, 's) stree \<Rightarrow> 'a list \<Rightarrow> 'a list
   \<Rightarrow> (('a, 's, 'd) stack_entry list \<times> 'd) option \<Rightarrow> bool" where
  "bwd_result D S root p r out \<longleftrightarrow>
     (\<exists>st. out = Some (st, dpos D S p) \<and> st \<noteq> [] \<and> stack_at D S root st p r)"

lemma ctx_position:
  "cursor_ctx D S root es t pre post \<Longrightarrow>
   (case es of f # _ \<Rightarrow> se_position f | [] \<Rightarrow> dm_zero D) = dpos D S pre"
  by (induction rule: cursor_ctx.induct) (simp_all add: entry_def dpos_def)

context dim_laws
begin

lemma foldl_dims:
  assumes "wf_node S t" "ok (pre @ tree_items t)" "i \<le> length (child_summaries t)"
  shows "foldl (dm_add D) (dpos D S pre) (take i (child_summaries t)) = dpos D S (pre @ node_before i t)"
  using assms(3)
proof (induction i)
  case (Suc i)
  have i: "i < length (child_summaries t)" using Suc.prems by simp
  have "dm_add D (dpos D S (pre @ node_before i t)) (child_summaries t ! i) = dpos D S (pre @ node_before (Suc i) t)"
  proof (cases t)
    case (Leaf s xs xss)
    then have li: "i < length xs" and xi: "child_summaries t ! i = sm_item S (xs ! i)"
      and b: "node_before (Suc i) t = node_before i t @ [xs ! i]"
      using i assms(1) by (auto simp: node_before_def take_Suc_conv_app_nth)
    have "ok (pre @ node_before (Suc i) t)"
      using assms(2) ok_appendD1[of "pre @ node_before (Suc i) t" "node_after (Suc i) t"]
      by (simp add: node_before_after)
    then show ?thesis using dim_item[of "pre @ node_before i t"] by (simp add: xi b)
  next
    case (Internal h s css cts)
    then have li: "i < length cts" and xi: "child_summaries t ! i = summary (cts ! i)" and wf: "wf_node S (cts ! i)"
      using i assms(1) by auto
    then have b: "node_before (Suc i) t = node_before i t @ tree_items (cts ! i)"
      by (simp add: Internal node_before_def concat_take_nth)
    have "ok (pre @ node_before (Suc i) t)"
      using assms(2) ok_appendD1[of "pre @ node_before (Suc i) t" "node_after (Suc i) t"]
      by (simp add: node_before_after)
    then show ?thesis using dim_child[OF wf, of "pre @ node_before i t"] by (simp add: xi b)
  qed
  then show ?case using Suc i by (simp add: take_Suc_conv_app_nth)
qed simp

text \<open>One round of the loop at a node whose positions are right.\<close>

lemma bwd_step:
  assumes "cursor_ctx D S root es t pre post" "wf_node S t" "ok (pre @ tree_items t)"
    "se_tree e = t" "bwd_at_node e d (Suc i)"
  shows "bwd_loop D F (e # es) pos d =
    (let pos1 = dpos D S (pre @ node_before i t); e' = entry t i pos1 in
     if F (child_summaries t ! i)
     then (case t of
       Internal h s css cts \<Rightarrow>
         (case nth_opt cts i of None \<Rightarrow> None | Some child \<Rightarrow>
           (case csub (length (child_summaries child)) 1 of None \<Rightarrow> None | Some j \<Rightarrow>
             (case stack_push (e' # es) (entry child j (dm_zero D)) of None \<Rightarrow> None
              | Some st \<Rightarrow> bwd_loop D F st pos1 True)))
     | Leaf s xs xss \<Rightarrow> Some (e' # es, pos1))
     else bwd_loop D F (e' # es) pos1 False)"
proof -
  have i: "(if d then se_index e else se_index e - 1) = i" "\<not> (\<not> d \<and> se_index e = 0)"
    "i < length (child_summaries t)"
    using assms(4,5) by (auto simp: bwd_at_node_def split: if_splits)
  have sl: "slice_to i (child_summaries t) = Some (take i (child_summaries t))"
    "nth_opt (child_summaries t) i = Some (child_summaries t ! i)"
    using i(3) by (simp_all add: slice_to_def nth_opt_def)
  have fd: "foldl (dm_add D) (dpos D S pre) (take i (child_summaries t)) = dpos D S (pre @ node_before i t)"
    using foldl_dims[OF assms(2,3), of i] i(3) by simp
  show ?thesis
    by (subst bwd_loop.simps, unfold ctx_position[OF assms(1)] assms(4) Let_def i(1) sl option.case prod.case fd)
       (use i(2) in \<open>cases t; auto\<close>)
qed

lemma bwd_pop:
  assumes "cursor_ctx D S root es t pre post" "bwd_at_node e d 0"
  shows "bwd_loop D F (e # es) pos d = bwd_loop D F es (dpos D S pre) False"
  using assms(2)
  by (subst bwd_loop.simps, subst ctx_position[OF assms(1)]) (auto simp: bwd_at_node_def split: if_splits)

lemma bwd_node_ok:
  assumes "cursor_ctx D S root es t pre post" "wf_node S root" "height root < STACK_CAP"
    "ok (tree_items root)" "filter_ok S F (tree_items root)"
    "se_tree e = t" "bwd_at_node e d k" "bsplit S F (node_before k t) = (p, r)"
  shows "(p \<noteq> [] \<longrightarrow> bwd_result D S root (pre @ butlast p) (last p # r @ node_after k t @ post)
            (bwd_loop D F (e # es) pos d)) \<and>
         (p = [] \<longrightarrow> bwd_loop D F (e # es) pos d = bwd_loop D F es (dpos D S pre) False)"
  using assms
proof (induction t arbitrary: es pre post e d k p r pos)
  case (Leaf s xs xss)
  let ?t = "Leaf s xs xss"
  note ctx = Leaf.prems(1)
  have wf: "wf_node S ?t" using cursor_ctx_wf[OF ctx Leaf.prems(2)] by simp
  have ok: "ok (pre @ tree_items ?t)"
    using Leaf.prems(4) cursor_ctx_items[OF ctx] ok_appendD1[of "pre @ tree_items ?t" post] by simp
  show ?case using Leaf.prems(6-8)
  proof (induction k arbitrary: e d p r pos)
    case 0
    then show ?case using bwd_pop[OF ctx 0(2)] by (simp add: node_before_def)
  next
    case (Suc i)
    have i: "i < length xs" using Suc.prems(1,2) wf by (auto simp: bwd_at_node_def)
    have b: "node_before (Suc i) ?t = take i xs @ [xs ! i]" and a: "node_after i ?t = xs ! i # node_after (Suc i) ?t"
      using i by (simp_all add: node_before_def node_after_def take_Suc_conv_app_nth Cons_nth_drop_Suc)
    have css: "xss ! i = sm_item S (xs ! i)" using wf i by simp
    note step = bwd_step[OF ctx wf ok Suc.prems(1,2), of F pos]
    let ?pos1 = "dpos D S (pre @ node_before i ?t)"
    show ?case
    proof (cases "rejected S F (xs ! i)")
      case False
      then have "p = take i xs @ [xs ! i]" "r = []"
        using Suc.prems(3) by (simp_all add: b bsplit_accept)
      moreover have "stack_at D S root (entry ?t i ?pos1 # es) (pre @ take i xs) (xs ! i # node_after (Suc i) ?t @ post)"
        using ctx i a by (auto simp: stack_at_def entry_def node_after_def)
      ultimately show ?thesis using False step
        by (simp add: css rejected_def Let_def bwd_result_def node_before_def)
    next
      case True
      obtain r' where r': "bsplit S F (node_before i ?t) = (p, r')" "r = r' @ [xs ! i]"
        using Suc.prems(3)[unfolded b] True bsplit_reject[of "[xs ! i]" S F "take i xs"]
        by (cases "bsplit S F (take i xs)") (auto simp: node_before_def)
      have "bwd_at_node (entry ?t i ?pos1) False i" "se_tree (entry ?t i ?pos1) = ?t"
        using i wf by (simp_all add: bwd_at_node_def entry_def)
      from Suc.IH[OF this(2,1) r'(1), of ?pos1] show ?thesis using True step
        by (simp add: css rejected_def Let_def a r'(2))
    qed
  qed
next
  case (Internal h s css cts)
  let ?t = "Internal h s css cts"
  note ctx = Internal.prems(1) and cap = Internal.prems(3)
  have wf: "wf_node S ?t" and len: "length es + height ?t = height root"
    using cursor_ctx_wf[OF ctx Internal.prems(2)] by simp_all
  have css: "css = map summary cts" and wfc: "\<And>i. i < length cts \<Longrightarrow> wf_node S (cts ! i)"
    using wf by auto
  have h0: "0 < height ?t" using wf_node_height0[OF wf] by auto
  have okt: "ok (pre @ tree_items ?t)" and filt: "filter_ok S F (pre @ tree_items ?t)"
    using Internal.prems(4,5) cursor_ctx_items[OF ctx] ok_appendD1[of "pre @ tree_items ?t" post]
      filter_ok_appendD[of S F "pre @ tree_items ?t" post] by simp_all
  show ?case using Internal.prems(6-8)
  proof (induction k arbitrary: e d p r pos)
    case 0
    then show ?case using bwd_pop[OF ctx 0(2)] by simp
  next
    case (Suc i)
    let ?c = "cts ! i" and ?pos1 = "dpos D S (pre @ node_before i ?t)"
    let ?f = "entry ?t i ?pos1"
    have i: "i < length cts" using Suc.prems(1,2) css by (auto simp: bwd_at_node_def)
    have b: "node_before (Suc i) ?t = node_before i ?t @ tree_items ?c"
      and a: "node_after i ?t = tree_items ?c @ node_after (Suc i) ?t"
      using i by (simp_all add: node_before_def node_after_def concat_take_nth concat_drop_nth)
    have all: "pre @ tree_items ?t = (pre @ node_before i ?t) @ tree_items ?c @ node_after (Suc i) ?t"
      using node_before_after[of i ?t] by (simp only: a append_assoc)
    have ci: "child_summaries ?t ! i = summary ?c" using i by (simp add: css)
    note step = bwd_step[OF ctx wf okt Suc.prems(1,2), of F pos, unfolded ci]
    have f: "se_tree ?f = ?t" "bwd_at_node ?f False i" using i css by (simp_all add: bwd_at_node_def entry_def)
    have skip: ?case if rej: "\<And>x. x \<in> set (tree_items ?c) \<Longrightarrow> rejected S F x"
      and loop: "bwd_loop D F (e # es) pos d = bwd_loop D F (?f # es) pos2 False" for pos2
    proof -
      obtain r' where r': "bsplit S F (node_before i ?t) = (p, r')" "r = r' @ tree_items ?c"
        using Suc.prems(3)[unfolded b] bsplit_reject[of "tree_items ?c" S F "node_before i ?t", OF rej]
        by (cases "bsplit S F (node_before i ?t)") auto
      from Suc.IH[OF f r'(1), of pos2] show ?thesis by (simp add: loop a r'(2))
    qed
    show ?case
    proof (cases "F (summary ?c)")
      case False
      then have "bwd_loop D F (e # es) pos d = bwd_loop D F (?f # es) ?pos1 False"
        using step by (simp add: Let_def)
      moreover have "\<And>x. x \<in> set (tree_items ?c) \<Longrightarrow> rejected S F x"
        using filter_ok_rejected[OF filt[unfolded all]] False wf_node_summary[OF wfc[OF i]] by simp
      ultimately show ?thesis using skip by blast
    next
      case True
      let ?n = "length (child_summaries ?c)"
      let ?e1 = "entry ?c (?n - 1) (dm_zero D)"
      have n: "0 < ?n" using wfc[OF i] by (cases ?c) auto
      have "length (?f # es) < STACK_CAP" using len h0 cap by simp
      then have step': "bwd_loop D F (e # es) pos d = bwd_loop D F (?e1 # ?f # es) ?pos1 True"
        using step True i n by (simp add: Let_def stack_push_def nth_opt_def csub_def Suc_le_eq)
      have cctx: "cursor_ctx D S root (?f # es) ?c (pre @ node_before i ?t) (node_after (Suc i) ?t @ post)"
        using ctx_child[OF ctx i] by (simp add: node_before_def node_after_def)
      have e1: "se_tree ?e1 = ?c" "bwd_at_node ?e1 True ?n" using n by (simp_all add: bwd_at_node_def entry_def)
      have full: "node_before ?n ?c = tree_items ?c" "node_after ?n ?c = []"
        using wfc[OF i] by (cases ?c; auto simp: node_before_def node_after_def)+
      obtain pc rc where sc: "bsplit S F (tree_items ?c) = (pc, rc)" by force
      note child = Internal.IH[OF nth_mem[OF i] cctx Internal.prems(2-5) e1 sc[folded full(1)], of ?pos1]
      show ?thesis
      proof (cases "pc = []")
        case True
        then have "\<And>x. x \<in> set (tree_items ?c) \<Longrightarrow> rejected S F x" using bsplit_none sc by blast
        moreover have "bwd_loop D F (e # es) pos d = bwd_loop D F (?f # es) ?pos1 False"
          using child True step' by simp
        ultimately show ?thesis using skip by blast
      next
        case False
        then have "p = node_before i ?t @ pc" "r = rc"
          using Suc.prems(3)[unfolded b] bsplit_found[of S F "tree_items ?c" "node_before i ?t"] sc by auto
        then show ?thesis using child False step' by (simp add: full butlast_append)
      qed
    qed
  qed
qed

lemma bwd_ascend_ok:
  assumes "cursor_ctx D S root es t pre post" "wf_node S root" "height root < STACK_CAP"
    "ok (tree_items root)" "filter_ok S F (tree_items root)" "bsplit S F pre = (p, r)"
  shows "(p \<noteq> [] \<longrightarrow> bwd_result D S root (butlast p) (last p # r @ tree_items t @ post)
            (bwd_loop D F es (dpos D S pre) False)) \<and>
         (p = [] \<longrightarrow> bwd_loop D F es (dpos D S pre) False = Some ([], dm_zero D))"
  using assms
proof (induction es arbitrary: t pre post p r)
  case Nil
  from Nil.prems(1) have "pre = []" by (auto elim: cursor_ctx_NilE)
  then show ?case using Nil.prems(6) by simp
next
  case (Cons f es)
  obtain h s css cts pre0 post0 i where
    f: "f = entry (Internal h s css cts) i (dpos D S (pre0 @ concat (map tree_items (take i cts))))"
    and ctx: "cursor_ctx D S root es (Internal h s css cts) pre0 post0" "i < length cts"
    and t: "t = cts ! i" "pre = pre0 @ concat (map tree_items (take i cts))"
      "post = concat (map tree_items (drop (Suc i) cts)) @ post0"
    using Cons.prems(1) by (auto elim: cursor_ctx_ConsE)
  let ?t = "Internal h s css cts"
  have pre: "pre = pre0 @ node_before i ?t" by (simp add: t node_before_def)
  have post: "tree_items t @ post = node_after i ?t @ post0"
    using ctx(2) by (simp add: t node_after_def concat_drop_nth)
  have "length css = length cts" using cursor_ctx_wf[OF ctx(1) Cons.prems(2)] by auto
  then have nd: "se_tree f = ?t" "bwd_at_node f False i"
    using ctx(2) by (simp_all add: f bwd_at_node_def entry_def)
  obtain p1 r1 where sc: "bsplit S F (node_before i ?t) = (p1, r1)" by force
  note node = bwd_node_ok[OF ctx(1) Cons.prems(2-5) nd sc, of "dpos D S pre"]
  show ?case
  proof (cases "p1 = []")
    case False
    then have "p = pre0 @ p1" "r = r1"
      using Cons.prems(6) bsplit_found[of S F "node_before i ?t" pre0] sc by (auto simp: pre)
    then show ?thesis using node False by (simp add: post butlast_append)
  next
    case True
    then have rej: "r1 = node_before i ?t" "\<And>x. x \<in> set (node_before i ?t) \<Longrightarrow> rejected S F x"
      using bsplit_none sc by blast+
    obtain r0 where r0: "bsplit S F pre0 = (p, r0)" "r = r0 @ node_before i ?t"
      using Cons.prems(6) bsplit_reject[of "node_before i ?t" S F pre0, OF rej(2)] by (cases "bsplit S F pre0") (auto simp: pre)
    have e: "r @ tree_items t @ post = r0 @ tree_items ?t @ post0"
      unfolding r0(2) post append_assoc by (simp only: node_before_after flip: append_assoc)
    show ?thesis unfolding e using Cons.IH[OF ctx(1) Cons.prems(2-5) r0(1)] node True by simp
  qed
qed

lemma search_backward_at_ok:
  assumes "cursor_at D S c pre post" "ok (pre @ post)" "filter_ok S F (pre @ post)" "bsplit S F pre = (p, r)"
  shows "\<exists>c'. search_backward D F c = Some c' \<and> c_tree c' = c_tree c \<and> c_did_seek c' \<and>
     (if p = [] then cursor_start D S c' else cursor_at D S c' (butlast p) (last p # r @ post))"
proof -
  let ?t = "c_tree c"
  have c: "c_did_seek c" "height ?t < STACK_CAP" "wf_tree S ?t" "c_at_end c = (c_stack c = [])"
    "c_position c = dpos D S pre"
    using assms(1) by (auto simp: cursor_at_def)
  have items: "tree_items ?t = pre @ post" using cursor_at_items[OF assms(1)] by simp
  have result: "\<exists>c'. search_backward D F c = Some c' \<and> c_tree c' = ?t \<and> c_did_seek c' \<and>
     (if p = [] then cursor_start D S c' else cursor_at D S c' (butlast p) (last p # r @ post))"
    if loop: "search_backward D F c = map_option (\<lambda>(st, pos). c\<lparr>c_at_end := False, c_stack := st, c_position := pos\<rparr>) out"
      and out: "(p \<noteq> [] \<longrightarrow> bwd_result D S ?t (butlast p) (last p # r @ post) out)
        \<and> (p = [] \<longrightarrow> out = Some ([], dm_zero D))"
      and ne: "pre @ post \<noteq> []" for out
  proof (cases "p = []")
    case True
    then show ?thesis using loop out c items ne wf_tree_is_empty[OF c(3)] by (simp add: cursor_start_def)
  next
    case False
    then show ?thesis using loop out c by (auto simp: bwd_result_def cursor_at_def)
  qed
  show ?thesis
  proof (cases "c_stack c")
    case Nil
    then have pre: "pre = tree_items ?t" "post = []" using assms(1) by (auto simp: cursor_at_def stack_at_def)
    show ?thesis
    proof (cases "tree_items ?t = []")
      case True
      then have "p = []" using assms(4) pre by simp
      then show ?thesis using c Nil True wf_tree_is_empty[OF c(3)]
        by (simp add: search_backward_def cursor_start_def Let_def)
    next
      case False
      then have wf: "wf_node S ?t" "\<not> is_empty ?t"
        using c(3) wf_tree_is_empty[OF c(3)] by (auto simp: wf_tree_def)
      let ?n = "length (child_summaries ?t)"
      let ?e = "entry ?t ?n (dm_add D (dm_zero D) (summary ?t))"
      have e: "se_tree ?e = ?t" "bwd_at_node ?e False ?n" by (simp_all add: entry_def bwd_at_node_def)
      have full: "node_before ?n ?t = tree_items ?t" "node_after ?n ?t = []"
        using wf(1) by (cases ?t; auto simp: node_before_def node_after_def)+
      have "search_backward D F c = map_option (\<lambda>(st, pos). c\<lparr>c_at_end := False, c_stack := st, c_position := pos\<rparr>)
          (bwd_loop D F [?e] (dm_zero D) False)"
        using c Nil wf(2)
        by (cases "bwd_loop D F [?e] (dm_zero D) False")
           (auto simp: search_backward_def Let_def stack_push_def STACK_CAP_def)
      moreover have "(p \<noteq> [] \<longrightarrow> bwd_result D S ?t (butlast p) (last p # r @ post) (bwd_loop D F [?e] (dm_zero D) False))
        \<and> (p = [] \<longrightarrow> bwd_loop D F [?e] (dm_zero D) False = Some ([], dm_zero D))"
        using bwd_node_ok[OF ctx_root wf(1) c(2) assms(2,3)[folded items] e assms(4)[unfolded pre(1) full(1)[symmetric]],
            of "dm_zero D"] unfolding full pre(2) append_Nil append_Nil2 dpos_Nil by simp
      ultimately show ?thesis by (rule result) (use False items in simp)
    qed
  next
    case (Cons e es)
    obtain s xs pre0 post0 where l: "se_tree e = Leaf s xs (map (sm_item S) xs)"
      "cursor_ctx D S ?t es (Leaf s xs (map (sm_item S) xs)) pre0 post0" "se_index e < length xs"
      "pre = pre0 @ take (se_index e) xs" "post = drop (se_index e) xs @ post0"
      using cursor_at_leaf[OF assms(1) Cons] by metis
    let ?l = "Leaf s xs (map (sm_item S) xs)" and ?i = "se_index e"
    note root = cursor_at_wf_root[OF assms(1) Cons] c(2) assms(2,3)[folded items]
    have pre: "pre = pre0 @ node_before ?i ?l" and post: "post = node_after ?i ?l @ post0"
      by (simp_all add: l(4,5) node_before_def node_after_def)
    have nd: "bwd_at_node e False ?i" using l(3) by (simp add: bwd_at_node_def l(1))
    obtain p1 r1 where sc: "bsplit S F (node_before ?i ?l) = (p1, r1)" by force
    note node = bwd_node_ok[OF l(2) root l(1) nd sc, of "dpos D S pre"]
    have "search_backward D F c = map_option (\<lambda>(st, pos). c\<lparr>c_at_end := False, c_stack := st, c_position := pos\<rparr>)
        (bwd_loop D F (e # es) (dpos D S pre) False)"
      using c Cons by (cases "bwd_loop D F (e # es) (dpos D S pre) False") (auto simp: search_backward_def Let_def)
    moreover have "(p \<noteq> [] \<longrightarrow> bwd_result D S ?t (butlast p) (last p # r @ post) (bwd_loop D F (e # es) (dpos D S pre) False))
        \<and> (p = [] \<longrightarrow> bwd_loop D F (e # es) (dpos D S pre) False = Some ([], dm_zero D))"
    proof (cases "p1 = []")
      case False
      then have "p = pre0 @ p1" "r = r1"
        using assms(4)[unfolded pre] bsplit_found[of S F "node_before ?i ?l" pre0] sc by auto
      then show ?thesis using node False by (simp add: post butlast_append)
    next
      case True
      then have rej: "r1 = node_before ?i ?l" "\<And>x. x \<in> set (node_before ?i ?l) \<Longrightarrow> rejected S F x"
        using bsplit_none sc by blast+
      obtain r0 where r0: "bsplit S F pre0 = (p, r0)" "r = r0 @ node_before ?i ?l"
        using assms(4)[unfolded pre] bsplit_reject[of "node_before ?i ?l" S F pre0, OF rej(2)]
        by (cases "bsplit S F pre0") auto
      have e: "r @ post = r0 @ tree_items ?l @ post0"
        unfolding r0(2) post append_assoc by (simp only: node_before_after flip: append_assoc)
      show ?thesis unfolding e using bwd_ascend_ok[OF l(2) root r0(1)] node True by simp
    qed
    moreover have "pre @ post \<noteq> []" using l(3,5) by simp
    ultimately show ?thesis by (rule result)
  qed
qed

text \<open>\<open>prev\<close> moves to the item before the cursor, and \<open>prev\<close> undoes \<open>next\<close>.\<close>

lemma cursor_prev_at_ok:
  assumes "cursor_at D S c pre post" "ok (pre @ post)"
  shows "\<exists>c'. cursor_prev D c = Some c' \<and> c_tree c' = c_tree c \<and> c_did_seek c' \<and>
     (if pre = [] then cursor_start D S c' else cursor_at D S c' (butlast pre) (last pre # post))"
  using search_backward_at_ok[OF assms filter_ok_True bsplit_True] unfolding cursor_prev_def append_Nil .

end

end
