(* ===== verification/Keyed.thy ===== *)
theory Keyed
  imports CursorBack
begin

text \<open>
  The keyed operations of \<open>SumTree\<close> (\<open>crates/sum_tree/src/sum_tree.rs\<close>, \<open>impl KeyedItem\<close>):
  \<open>insert_or_replace\<close>, \<open>remove\<close>, the batched \<open>edit\<close> and \<open>get\<close>, on trees whose items are
  strictly sorted by key. The contract of a key type (the dimension that holds the key of the
  last item) is the locale \<open>keyed_laws\<close>.
\<close>

section \<open>Operations\<close>

text \<open>Skip the item under the cursor when it has the key, returning it.\<close>

definition take_key ::
  "('k::linorder, 's) dim_ops \<Rightarrow> ('a \<Rightarrow> 'k) \<Rightarrow> 'k \<Rightarrow> ('a, 's, 'k) cursor
   \<Rightarrow> ('a option \<times> ('a, 's, 'k) cursor) option" where
  "take_key D key k c = do {
     it \<leftarrow> cursor_item c;
     case it of
       None \<Rightarrow> Some (None, c)
     | Some x \<Rightarrow>
         if key x = k then do { c' \<leftarrow> cursor_next D c; Some (Some x, c') } else Some (None, c)
   }"

definition keyed_insert_or_replace ::
  "('a, 's) summary_ops \<Rightarrow> ('k::linorder, 's) dim_ops \<Rightarrow> ('a \<Rightarrow> 'k) \<Rightarrow> ('a, 's) stree \<Rightarrow> 'a
   \<Rightarrow> (('a, 's) stree \<times> 'a option) option" where
  "keyed_insert_or_replace S D key t item = do {
     (new_tree, c) \<leftarrow> cursor_slice S D (cmp_of (key item)) Left (cursor_new D t);
     (replaced, c) \<leftarrow> take_key D key (key item) c;
     new_tree \<leftarrow> stree_push S new_tree item;
     (rest, c) \<leftarrow> cursor_suffix S D c;
     new_tree \<leftarrow> stree_append S new_tree rest;
     Some (new_tree, replaced)
   }"

definition keyed_remove ::
  "('a, 's) summary_ops \<Rightarrow> ('k::linorder, 's) dim_ops \<Rightarrow> ('a \<Rightarrow> 'k) \<Rightarrow> ('a, 's) stree \<Rightarrow> 'k
   \<Rightarrow> (('a, 's) stree \<times> 'a option) option" where
  "keyed_remove S D key t k = do {
     (new_tree, c) \<leftarrow> cursor_slice S D (cmp_of k) Left (cursor_new D t);
     (removed, c) \<leftarrow> take_key D key k c;
     (rest, c) \<leftarrow> cursor_suffix S D c;
     new_tree \<leftarrow> stree_append S new_tree rest;
     Some (new_tree, removed)
   }"

datatype ('a, 'k) edit = Insert 'a | Remove 'k

fun edit_key :: "('a \<Rightarrow> 'k) \<Rightarrow> ('a, 'k) edit \<Rightarrow> 'k" where
  "edit_key key (Insert item) = key item"
| "edit_key key (Remove k) = k"

text \<open>The loop over the sorted edits: the cursor, the tree built so far, the buffered items and
  the items removed.\<close>

fun edit_loop ::
  "('a, 's) summary_ops \<Rightarrow> ('k::linorder, 's) dim_ops \<Rightarrow> ('a \<Rightarrow> 'k) \<Rightarrow> ('a, 'k) edit list
   \<Rightarrow> ('a, 's, 'k) cursor \<Rightarrow> ('a, 's) stree \<Rightarrow> 'a list \<Rightarrow> 'a list
   \<Rightarrow> (('a, 's, 'k) cursor \<times> ('a, 's) stree \<times> 'a list \<times> 'a list) option" where
  "edit_loop S D key [] c new_tree buffered removed = Some (c, new_tree, buffered, removed)"
| "edit_loop S D key (e # es) c new_tree buffered removed = do {
     let new_key = edit_key key e;
     old_item \<leftarrow> cursor_item c;
     (c, new_tree, buffered) \<leftarrow>
       (if (case old_item of None \<Rightarrow> False | Some x \<Rightarrow> key x < new_key) then do {
          new_tree \<leftarrow> stree_extend S new_tree buffered;
          (slice, c) \<leftarrow> cursor_slice S D (cmp_of new_key) Left c;
          new_tree \<leftarrow> stree_append S new_tree slice;
          Some (c, new_tree, [])
        } else Some (c, new_tree, buffered));
     (old, c) \<leftarrow> take_key D key new_key c;
     edit_loop S D key es c new_tree
       (case e of Insert item \<Rightarrow> buffered @ [item] | Remove k \<Rightarrow> buffered)
       (case old of None \<Rightarrow> removed | Some x \<Rightarrow> removed @ [x])
   }"

text \<open>The body of \<open>edit\<close>, on edits that are sorted by key.\<close>

definition keyed_edit_sorted ::
  "('a, 's) summary_ops \<Rightarrow> ('k::linorder, 's) dim_ops \<Rightarrow> ('a \<Rightarrow> 'k) \<Rightarrow> ('a, 's) stree
   \<Rightarrow> ('a, 'k) edit list \<Rightarrow> (('a, 's) stree \<times> 'a list) option" where
  "keyed_edit_sorted S D key t edits = do {
     (_, c) \<leftarrow> cursor_seek D (cmp_of (dm_zero D)) Left (cursor_new D t);
     (c, new_tree, buffered, removed) \<leftarrow> edit_loop S D key edits c (stree_new S) [] [];
     new_tree \<leftarrow> stree_extend S new_tree buffered;
     (rest, c) \<leftarrow> cursor_suffix S D c;
     new_tree \<leftarrow> stree_append S new_tree rest;
     Some (new_tree, removed)
   }"

text \<open>The sort of the source is unstable: the order it gives to edits with equal keys is not specified.
  With distinct keys there is one sorted order only; what holds for every order of repeated
  keys is stated of \<open>keyed_edit_sorted\<close>.\<close>

definition keyed_edit ::
  "('a, 's) summary_ops \<Rightarrow> ('k::linorder, 's) dim_ops \<Rightarrow> ('a \<Rightarrow> 'k) \<Rightarrow> ('a, 's) stree
   \<Rightarrow> ('a, 'k) edit list \<Rightarrow> (('a, 's) stree \<times> 'a list) option" where
  "keyed_edit S D key t edits =
     (if edits = [] then Some (t, []) else keyed_edit_sorted S D key t (sort_key (edit_key key) edits))"

definition keyed_get :: "('k::linorder, 's) dim_ops \<Rightarrow> ('a, 's) stree \<Rightarrow> 'k \<Rightarrow> 'a option" where
  "keyed_get D t k = snd (snd (stree_find_exact D t (cmp_of k) Left))"

section \<open>What the operations do to the items\<close>

definition list_insert :: "('a \<Rightarrow> 'k::linorder) \<Rightarrow> 'a \<Rightarrow> 'a list \<Rightarrow> 'a list" where
  "list_insert key x xs = filter (\<lambda>y. key y < key x) xs @ x # filter (\<lambda>y. key x < key y) xs"

definition list_remove :: "('a \<Rightarrow> 'k::linorder) \<Rightarrow> 'k \<Rightarrow> 'a list \<Rightarrow> 'a list" where
  "list_remove key k xs = filter (\<lambda>y. key y \<noteq> k) xs"

definition list_find :: "('a \<Rightarrow> 'k::linorder) \<Rightarrow> 'k \<Rightarrow> 'a list \<Rightarrow> 'a option" where
  "list_find key k xs = find (\<lambda>x. key x = k) xs"

fun inserted :: "('a, 'k) edit list \<Rightarrow> 'a list" where
  "inserted [] = []"
| "inserted (Insert x # es) = x # inserted es"
| "inserted (Remove k # es) = inserted es"

definition edits_sorted :: "('a \<Rightarrow> 'k::linorder) \<Rightarrow> ('a, 'k) edit list \<Rightarrow> bool" where
  "edits_sorted key es \<longleftrightarrow> sorted_wrt (\<lambda>d e. edit_key key d < edit_key key e) es"

definition edit_keys :: "('a \<Rightarrow> 'k::linorder) \<Rightarrow> ('a, 'k) edit list \<Rightarrow> 'k set" where
  "edit_keys key es = edit_key key ` set es"

lemma edit_keys_simps [simp]:
  "edit_keys key [] = {}" "edit_keys key (e # es) = insert (edit_key key e) (edit_keys key es)"
  by (auto simp: edit_keys_def)

lemma edits_sorted_Cons:
  "edits_sorted key (e # es) \<longleftrightarrow> (\<forall>k \<in> edit_keys key es. edit_key key e < k) \<and> edits_sorted key es"
  by (auto simp: edits_sorted_def edit_keys_def)

lemma inserted_map: "inserted (map (\<lambda>x. Insert (f x)) xs) = map f xs"
  by (induction xs) auto

lemma inserted_Insert: "inserted (map Insert xs) = xs"
  by (induction xs) auto

lemma edit_keys_Insert: "edit_keys key (map Insert xs) = key ` set xs"
  by (induction xs) auto

lemma set_inserted: "set (inserted es) = {x. Insert x \<in> set es}"
  by (induction es rule: inserted.induct) auto

lemma sort_key_edits:
  assumes "distinct (map (edit_key key) es)"
  shows "edits_sorted key (sort_key (edit_key key) es)"
proof -
  let ?es = "sort_key (edit_key key) es"
  have "distinct (map (edit_key key) ?es)" using assms by (simp add: distinct_map)
  moreover have "sorted (map (edit_key key) ?es)" by simp
  ultimately have "sorted_wrt (<) (map (edit_key key) ?es)" by (simp add: strict_sorted_iff)
  then show ?thesis by (simp add: edits_sorted_def sorted_wrt_map)
qed

section \<open>The contract of keys\<close>

definition key_sorted :: "('a \<Rightarrow> 'k::linorder) \<Rightarrow> ('a \<Rightarrow> bool) \<Rightarrow> 'a list \<Rightarrow> bool" where
  "key_sorted key valid xs \<longleftrightarrow> sorted_wrt (\<lambda>x y. key x < key y) xs \<and> (\<forall>x \<in> set xs. valid x)"

locale keyed_laws = seek_laws S "key_sorted key valid" D
  for S :: "('a, 's) summary_ops" and key :: "'a \<Rightarrow> 'k::linorder" and valid :: "'a \<Rightarrow> bool"
    and D :: "('k, 's) dim_ops" +
  assumes dpos_key: "key_sorted key valid xs \<Longrightarrow> xs \<noteq> [] \<Longrightarrow> dpos D S xs = key (last xs)"
    and zero_least: "dm_zero D \<le> k"

lemma key_sorted_append:
  "key_sorted key valid (xs @ ys) \<longleftrightarrow> key_sorted key valid xs \<and> key_sorted key valid ys \<and>
     (\<forall>x \<in> set xs. \<forall>y \<in> set ys. key x < key y)"
  by (auto simp: key_sorted_def sorted_wrt_append)

lemma key_sorted_Cons:
  "key_sorted key valid (x # xs) \<longleftrightarrow> valid x \<and> (\<forall>y \<in> set xs. key x < key y) \<and> key_sorted key valid xs"
  by (auto simp: key_sorted_def)

lemma key_sorted_simps [simp]: "key_sorted key valid []" "key_sorted key valid [x] \<longleftrightarrow> valid x"
  by (simp_all add: key_sorted_def)

lemma key_sorted_filter: "key_sorted key valid xs \<Longrightarrow> key_sorted key valid (filter P xs)"
  by (auto simp: key_sorted_def sorted_wrt_filter)

lemma key_sorted_split:
  assumes "key_sorted key valid xs"
  shows "takeWhile (\<lambda>x. key x < k) xs = filter (\<lambda>x. key x < k) xs"
    "dropWhile (\<lambda>x. key x < k) xs = filter (\<lambda>x. k \<le> key x) xs"
proof -
  have "takeWhile (\<lambda>x. key x < k) xs = filter (\<lambda>x. key x < k) xs \<and>
    dropWhile (\<lambda>x. key x < k) xs = filter (\<lambda>x. k \<le> key x) xs"
    using assms
  proof (induction xs)
    case (Cons x xs)
    then have gt: "\<And>y. y \<in> set xs \<Longrightarrow> key x < key y" by (simp add: key_sorted_Cons)
    show ?case
    proof (cases "key x < k")
      case False
      then have "k < key y" if "y \<in> set xs" for y using gt[OF that] by simp
      then have "filter (\<lambda>x. key x < k) xs = []" "filter (\<lambda>x. k \<le> key x) xs = xs"
        by (auto intro!: filter_False filter_True simp: not_less less_imp_le)
      then show ?thesis using False by simp
    qed (use Cons in \<open>simp add: key_sorted_Cons\<close>)
  qed simp
  then show "takeWhile (\<lambda>x. key x < k) xs = filter (\<lambda>x. key x < k) xs"
    "dropWhile (\<lambda>x. key x < k) xs = filter (\<lambda>x. k \<le> key x) xs" by auto
qed

lemma filter_less_ge:
  "key_sorted key valid xs \<Longrightarrow> filter (\<lambda>x. key x < k) xs @ filter (\<lambda>x. k \<le> key x) xs = xs"
  using key_sorted_split[of key valid xs k] by (metis takeWhile_dropWhile_id)

lemma key_sorted_single:
  "key_sorted key valid xs \<Longrightarrow>
   filter (\<lambda>x. key x = k) xs = (case find (\<lambda>x. key x = k) xs of None \<Rightarrow> [] | Some x \<Rightarrow> [x])"
proof (induction xs)
  case (Cons x xs)
  then have "key x \<noteq> key y" if "y \<in> set xs" for y using that by (fastforce simp: key_sorted_Cons)
  then have "key x = k \<Longrightarrow> filter (\<lambda>y. key y = k) xs = []" by (auto intro!: filter_False) metis
  then show ?case using Cons by (simp add: key_sorted_Cons)
qed simp

lemma key_sorted_from:
  assumes "key_sorted key valid xs"
  shows "filter (\<lambda>x. k \<le> key x) xs = (case filter (\<lambda>x. key x = k) xs of
     [] \<Rightarrow> filter (\<lambda>x. k < key x) xs | y # _ \<Rightarrow> y # filter (\<lambda>x. k < key x) xs)"
  using assms
proof (induction xs)
  case (Cons x xs)
  then have gt: "\<And>y. y \<in> set xs \<Longrightarrow> key x < key y" by (simp add: key_sorted_Cons)
  consider "key x = k" | "key x < k" | "k < key x" by fastforce
  then show ?case
  proof cases
    case 1
    then have "filter (\<lambda>y. k < key y) xs = xs" "filter (\<lambda>y. k \<le> key y) xs = xs"
      using gt by (auto intro!: filter_True simp: less_imp_le)
    then show ?thesis using 1 by simp
  next
    case 2
    then show ?thesis using Cons by (auto simp: key_sorted_Cons split: list.splits)
  next
    case 3
    then have g: "k < key y" if "y \<in> set xs" for y using gt[OF that] by simp
    then have "filter (\<lambda>y. k < key y) xs = xs" "filter (\<lambda>y. k \<le> key y) xs = xs" "filter (\<lambda>y. key y = k) xs = []"
      by (auto intro!: filter_True filter_False simp: less_imp_le)
    then show ?thesis using 3 by (simp add: less_imp_le)
  qed
qed simp

context keyed_laws
begin

lemma key_target_mono:
  assumes "key_sorted key valid xs"
    and anti: "\<And>a b. a \<le> b \<Longrightarrow> cmp_rank (target b) \<le> cmp_rank (target a)"
  shows "mono_target D S target xs"
  unfolding mono_target_def
proof (intro allI impI)
  fix p q r assume "xs = p @ q @ r \<and> p \<noteq> []"
  then have "key_sorted key valid (p @ q)" "p \<noteq> []" using assms(1) by (auto simp: key_sorted_append)
  moreover from this have "key (last p) \<le> key (last (p @ q))"
    by (cases q rule: rev_cases) (auto simp: key_sorted_append less_imp_le)
  ultimately have "dpos D S p \<le> dpos D S (p @ q)"
    using dpos_key[of "p @ q"] dpos_key[of p] by (simp add: key_sorted_append)
  then show "cmp_rank (target (dpos D S (p @ q))) \<le> cmp_rank (target (dpos D S p))" by (rule anti)
qed

lemma cmp_of_anti: "a \<le> b \<Longrightarrow> cmp_rank (cmp_of k b) \<le> cmp_rank (cmp_of k a)" for k :: 'k
  by (auto simp: cmp_of_def)

lemma key_scan:
  "key_sorted key valid (pre @ post) \<Longrightarrow>
   seek_scan D S target bias pre post =
     (pre @ takeWhile (\<lambda>x. passes bias (target (key x))) post, dropWhile (\<lambda>x. passes bias (target (key x))) post)"
proof (induction post arbitrary: pre)
  case (Cons x post)
  have "dpos D S (pre @ [x]) = key x"
    using dpos_key[of "pre @ [x]"] Cons.prems by (simp add: key_sorted_append key_sorted_Cons)
  then show ?case using Cons.IH[of "pre @ [x]"] Cons.prems
    by (simp add: seek_scan_def passed_def)
qed (simp add: seek_scan_def)

lemma passes_Left_key: "passes Left (cmp_of k k') \<longleftrightarrow> k' < k"
  by (simp add: passes_def)

lemma passes_Right_key: "passes Right (cmp_of k k') \<longleftrightarrow> k' \<le> k"
  by (auto simp: passes_def)

lemma key_slice_ok:
  assumes "cursor_ready D S c pre post" "key_sorted key valid (pre @ post)" "\<forall>x \<in> set pre. key x \<le> k"
  shows "\<exists>t c'. cursor_slice S D (cmp_of k) Left c = Some (t, c') \<and> wf_tree S t \<and>
     tree_items t = filter (\<lambda>x. key x < k) post \<and> c_tree c' = c_tree c \<and>
     cursor_at D S c' (pre @ filter (\<lambda>x. key x < k) post) (filter (\<lambda>x. k \<le> key x) post)"
proof -
  have pos: "cmp_of k (dpos D S pre) \<noteq> Less"
    using assms(2,3) dpos_key[of pre] zero_least[of k]
    by (cases "pre = []") (auto simp: cmp_of_def key_sorted_append not_less)
  have "key_sorted key valid post" using assms(2) by (simp add: key_sorted_append)
  note sp = key_sorted_split[OF this]
  have sc: "seek_scan D S (cmp_of k) Left pre post
     = (pre @ filter (\<lambda>x. key x < k) post, filter (\<lambda>x. k \<le> key x) post)"
    using key_scan[OF assms(2), of "cmp_of k" Left] by (simp add: passes_Left_key sp)
  from cursor_slice_ok[OF assms(1,2) key_target_mono[OF assms(2) cmp_of_anti] pos sc]
  show ?thesis by auto
qed

lemma take_key_ok:
  assumes "cursor_at D S c pre (filter (\<lambda>x. k \<le> key x) post)" and ks: "key_sorted key valid post"
    and ks': "key_sorted key valid (pre @ filter (\<lambda>x. k \<le> key x) post)"
  shows "\<exists>c'. take_key D key k c = Some (list_find key k post, c') \<and> c_tree c' = c_tree c \<and>
     cursor_at D S c' (pre @ filter (\<lambda>x. key x = k) post) (filter (\<lambda>x. k < key x) post)"
proof -
  note list_find_def [simp]
  note from_k = key_sorted_from[OF ks, of k]
  have one: "filter (\<lambda>x. key x = k) post = (case find (\<lambda>x. key x = k) post of None \<Rightarrow> [] | Some x \<Rightarrow> [x])"
    using key_sorted_single[OF ks] .
  show ?thesis
  proof (cases "find (\<lambda>x. key x = k) post")
    case None
    then have gt: "filter (\<lambda>x. k \<le> key x) post = filter (\<lambda>x. k < key x) post" using from_k one by simp
    then have "first_opt (filter (\<lambda>x. k \<le> key x) post) = Some y \<Longrightarrow> key y \<noteq> k" for y
      by (cases "filter (\<lambda>x. k < key x) post") (auto dest: filter_eq_ConsD)
    then show ?thesis using assms(1) None cursor_item_ok(1)[OF assms(1)] gt one
      by (cases "first_opt (filter (\<lambda>x. k \<le> key x) post)") (auto simp: take_key_def)
  next
    case (Some x)
    have x: "filter (\<lambda>x. k \<le> key x) post = x # filter (\<lambda>x. k < key x) post"
      using from_k one by (simp add: Some)
    have "x \<in> set (filter (\<lambda>x. key x = k) post)" unfolding one Some by simp
    then have kx: "key x = k" by simp
    show ?thesis using kx x Some one cursor_item_ok(1)[OF assms(1)] cursor_next_at_ok[OF assms(1) ks']
      by (auto simp: take_key_def)
  qed
qed

lemma key_start:
  assumes "wf_tree S t" "height t < STACK_CAP"
  shows "cursor_ready D S (cursor_new D t) [] (tree_items t)"
  using cursor_new_fresh[OF assms, of D] by (simp add: cursor_ready_def)

lemma filter_le_split: "key_sorted key valid xs \<Longrightarrow>
  filter (\<lambda>x. key x < k) xs @ filter (\<lambda>x. key x = k) xs @ filter (\<lambda>x. k < key x) xs = xs"
proof (induction xs)
  case (Cons x xs)
  then have "\<And>y. y \<in> set xs \<Longrightarrow> key x < key y" by (simp add: key_sorted_Cons)
  then have "k \<le> key x \<Longrightarrow> filter (\<lambda>x. key x < k) xs = [] \<and> filter (\<lambda>x. key x = k) xs = []"
    by (force intro!: filter_False)
  then show ?case using Cons by (cases "k < key x") (auto simp: key_sorted_Cons not_less)
qed simp

lemma list_remove_split:
  "key_sorted key valid xs \<Longrightarrow>
   filter (\<lambda>x. key x < k) xs @ filter (\<lambda>x. k < key x) xs = list_remove key k xs"
proof (induction xs)
  case (Cons x xs)
  then have "\<And>y. y \<in> set xs \<Longrightarrow> key x < key y" by (simp add: key_sorted_Cons)
  then have "k \<le> key x \<Longrightarrow> filter (\<lambda>x. key x < k) xs = []" by (force intro!: filter_False)
  then show ?case using Cons by (cases "k < key x") (auto simp: key_sorted_Cons not_less list_remove_def)
qed (simp add: list_remove_def)

lemma key_seek_ok:
  assumes "wf_tree S t" "height t < STACK_CAP" "key_sorted key valid (tree_items t)"
  shows "\<exists>b c. cursor_seek D (cmp_of k) Left (cursor_new D t) = Some (b, c) \<and>
     cursor_at D S c (filter (\<lambda>x. key x < k) (tree_items t)) (filter (\<lambda>x. k \<le> key x) (tree_items t))"
proof -
  have "seek_scan D S (cmp_of k) Left [] (tree_items t) =
      (filter (\<lambda>x. key x < k) (tree_items t), filter (\<lambda>x. k \<le> key x) (tree_items t))"
    using key_scan[of "[]" "tree_items t" "cmp_of k" Left] assms(3) key_sorted_split[OF assms(3), of k]
    by (simp add: passes_Left_key)
  moreover have "cmp_of k (dm_zero D) \<noteq> Less" using zero_least[of k] by (auto simp: not_less)
  ultimately show ?thesis
    using cursor_seek_ok[of "cursor_new D t" "cmp_of k" Left] assms
      key_target_mono[OF assms(3), of "cmp_of k", OF cmp_of_anti]
    by (auto simp: cursor_new_def)
qed

lemma keyed_insert_ok:
  assumes "wf_tree S t" "height t < STACK_CAP" "key_sorted key valid (tree_items t)" "valid x"
  shows "\<exists>t'. keyed_insert_or_replace S D key t x = Some (t', list_find key (key x) (tree_items t)) \<and>
     wf_tree S t' \<and> tree_items t' = list_insert key x (tree_items t) \<and> key_sorted key valid (tree_items t')"
proof -
  let ?k = "key x" and ?xs = "tree_items t"
  let ?lo = "filter (\<lambda>y. key y < ?k) ?xs" and ?hi = "filter (\<lambda>y. ?k < key y) ?xs"
  obtain t1 c1 where 1: "cursor_slice S D (cmp_of ?k) Left (cursor_new D t) = Some (t1, c1)" "wf_tree S t1"
    "tree_items t1 = ?lo" "cursor_at D S c1 ?lo (filter (\<lambda>y. ?k \<le> key y) ?xs)"
    using key_slice_ok[OF key_start[OF assms(1,2)], of ?k] assms(3) by auto
  have items1: "?lo @ filter (\<lambda>y. ?k \<le> key y) ?xs = ?xs"
    using key_sorted_split[OF assms(3), of ?k] by (metis takeWhile_dropWhile_id)
  obtain c2 where 2: "take_key D key ?k c1 = Some (list_find key ?k ?xs, c2)"
    "cursor_at D S c2 (?lo @ filter (\<lambda>y. key y = ?k) ?xs) ?hi"
    using take_key_ok[OF 1(4) assms(3)] assms(3) items1 by auto
  have srt: "key_sorted key valid (list_insert key x ?xs)"
    using key_sorted_filter[OF assms(3)] assms(4)
    by (auto simp: list_insert_def key_sorted_append key_sorted_Cons)
  have ok1: "key_sorted key valid (?lo @ [x])"
    using srt by (simp add: list_insert_def key_sorted_append key_sorted_Cons)
  obtain t2 where t2: "stree_push S t1 x = Some t2" "wf_tree S t2" "tree_items t2 = ?lo @ [x]"
    using stree_push_ok[OF 1(2)] ok1 1(3) by auto
  have "(?lo @ filter (\<lambda>y. key y = ?k) ?xs) @ ?hi = ?xs" using filter_le_split[OF assms(3), of ?k] by simp
  then obtain t3 c3 where t3: "cursor_suffix S D c2 = Some (t3, c3)" "wf_tree S t3" "tree_items t3 = ?hi"
    using cursor_suffix_ok[of c2 "?lo @ filter (\<lambda>y. key y = ?k) ?xs" ?hi] 2(2) assms(3)
    by (auto simp: cursor_ready_def)
  obtain t' where t': "stree_append S t2 t3 = Some t'" "wf_tree S t'" "tree_items t' = list_insert key x ?xs"
    using stree_append_ok[OF t2(2) t3(2)] srt t2(3) t3(3) by (auto simp: list_insert_def)
  show ?thesis using 1(1) 2(1) t2(1) t3(1) t' srt by (simp add: keyed_insert_or_replace_def)
qed

lemma keyed_remove_ok:
  assumes "wf_tree S t" "height t < STACK_CAP" "key_sorted key valid (tree_items t)"
  shows "\<exists>t'. keyed_remove S D key t k = Some (t', list_find key k (tree_items t)) \<and>
     wf_tree S t' \<and> tree_items t' = list_remove key k (tree_items t)"
proof -
  let ?xs = "tree_items t"
  let ?lo = "filter (\<lambda>y. key y < k) ?xs" and ?hi = "filter (\<lambda>y. k < key y) ?xs"
  obtain t1 c1 where 1: "cursor_slice S D (cmp_of k) Left (cursor_new D t) = Some (t1, c1)" "wf_tree S t1"
    "tree_items t1 = ?lo" "cursor_at D S c1 ?lo (filter (\<lambda>y. k \<le> key y) ?xs)"
    using key_slice_ok[OF key_start[OF assms(1,2)], of k] assms(3) by auto
  have items1: "?lo @ filter (\<lambda>y. k \<le> key y) ?xs = ?xs"
    using key_sorted_split[OF assms(3), of k] by (metis takeWhile_dropWhile_id)
  obtain c2 where 2: "take_key D key k c1 = Some (list_find key k ?xs, c2)"
    "cursor_at D S c2 (?lo @ filter (\<lambda>y. key y = k) ?xs) ?hi"
    using take_key_ok[OF 1(4) assms(3)] assms(3) items1 by auto
  have "(?lo @ filter (\<lambda>y. key y = k) ?xs) @ ?hi = ?xs" using filter_le_split[OF assms(3), of k] by simp
  then obtain t3 c3 where t3: "cursor_suffix S D c2 = Some (t3, c3)" "wf_tree S t3" "tree_items t3 = ?hi"
    using cursor_suffix_ok[of c2 "?lo @ filter (\<lambda>y. key y = k) ?xs" ?hi] 2(2) assms(3)
    by (auto simp: cursor_ready_def)
  have srt: "key_sorted key valid (?lo @ ?hi)"
    unfolding list_remove_split[OF assms(3)] list_remove_def by (rule key_sorted_filter[OF assms(3)])
  obtain t' where t': "stree_append S t1 t3 = Some t'" "wf_tree S t'" "tree_items t' = ?lo @ ?hi"
    using stree_append_ok[OF 1(2) t3(2)] srt 1(3) t3(3) by auto
  show ?thesis using 1(1) 2(1) t3(1) t' list_remove_split[OF assms(3)] by (simp add: keyed_remove_def)
qed

lemma key_find_split:
  assumes "key_sorted key valid xs"
  shows "list_find key k xs = (case filter (\<lambda>x. k \<le> key x) xs of
     [] \<Rightarrow> None | y # _ \<Rightarrow> if key y = k then Some y else None)"
proof -
  note from_k = key_sorted_from[OF assms, of k] and one = key_sorted_single[OF assms, of k]
  show ?thesis
  proof (cases "find (\<lambda>x. key x = k) xs")
    case None
    then have "filter (\<lambda>x. k \<le> key x) xs = filter (\<lambda>x. k < key x) xs" using from_k one by simp
    then show ?thesis using None
      by (cases "filter (\<lambda>x. k < key x) xs") (auto simp: list_find_def dest: filter_eq_ConsD)
  next
    case (Some x)
    have "x \<in> set (filter (\<lambda>x. key x = k) xs)" unfolding one Some by simp
    then have "key x = k" by simp
    then show ?thesis using from_k one Some by (simp add: list_find_def)
  qed
qed

lemma keyed_get_ok:
  assumes "wf_tree S t" "key_sorted key valid (tree_items t)"
  shows "keyed_get D t k = list_find key k (tree_items t)"
proof -
  let ?xs = "tree_items t"
  have sc: "seek_scan D S (cmp_of k) Left [] ?xs = (filter (\<lambda>x. key x < k) ?xs, filter (\<lambda>x. k \<le> key x) ?xs)"
    using key_scan[of "[]" ?xs "cmp_of k" Left] assms(2) key_sorted_split[OF assms(2), of k]
    by (simp add: passes_Left_key)
  note ex = stree_find_exact_ok[OF assms key_target_mono[OF assms(2), of "cmp_of k", OF cmp_of_anti], unfolded sc]
  have items1: "filter (\<lambda>y. key y < k) ?xs @ filter (\<lambda>y. k \<le> key y) ?xs = ?xs"
    using key_sorted_split[OF assms(2), of k] by (metis takeWhile_dropWhile_id)
  show ?thesis
  proof (cases "filter (\<lambda>x. k \<le> key x) ?xs")
    case Nil
    then show ?thesis using ex key_find_split[OF assms(2), of k] by (simp add: keyed_get_def)
  next
    case (Cons x r)
    have "key_sorted key valid (filter (\<lambda>x. key x < k) ?xs @ x # r)"
      using items1 Cons assms(2) by simp
    then have "dpos D S (filter (\<lambda>x. key x < k) ?xs @ [x]) = key x"
      using dpos_key[of "filter (\<lambda>x. key x < k) ?xs @ [x]"] by (simp add: key_sorted_append key_sorted_Cons)
    then show ?thesis using ex Cons key_find_split[OF assms(2), of k]
      by (auto simp: keyed_get_def split: if_splits)
  qed
qed

text \<open>The part of an edit before the item is handled: flush the buffer and copy the items below
  the key.\<close>

lemma edit_advance_ok:
  assumes at: "cursor_at D S c pre post" and srt: "key_sorted key valid (pre @ post)"
    and nt: "wf_tree S nt" and L: "key_sorted key valid (tree_items nt @ buf)"
    and Lp: "\<forall>x \<in> set (tree_items nt @ buf). \<forall>y \<in> set post. key x < key y"
    and pk: "\<forall>x \<in> set pre. key x < k"
  shows "\<exists>c1 nt1 buf1. cursor_item c = Some (first_opt post) \<and>
     (if (case first_opt post of None \<Rightarrow> False | Some x \<Rightarrow> key x < k) then do {
          new_tree \<leftarrow> stree_extend S nt buf;
          (slice, c) \<leftarrow> cursor_slice S D (cmp_of k) Left c;
          new_tree \<leftarrow> stree_append S new_tree slice;
          Some (c, new_tree, [])
        } else Some (c, nt, buf)) = Some (c1, nt1, buf1) \<and> wf_tree S nt1 \<and>
     tree_items nt1 @ buf1 = tree_items nt @ buf @ filter (\<lambda>x. key x < k) post \<and> c_tree c1 = c_tree c \<and>
     cursor_at D S c1 (pre @ filter (\<lambda>x. key x < k) post) (filter (\<lambda>x. k \<le> key x) post)"
proof (cases "case first_opt post of None \<Rightarrow> False | Some x \<Rightarrow> key x < k")
  case True
  obtain nt0 where nt0: "stree_extend S nt buf = Some nt0" "wf_tree S nt0" "tree_items nt0 = tree_items nt @ buf"
    using stree_extend_ok[OF nt L] by blast
  obtain sl c1 where sl: "cursor_slice S D (cmp_of k) Left c = Some (sl, c1)" "wf_tree S sl"
    "tree_items sl = filter (\<lambda>x. key x < k) post" "c_tree c1 = c_tree c"
    "cursor_at D S c1 (pre @ filter (\<lambda>x. key x < k) post) (filter (\<lambda>x. k \<le> key x) post)"
    using key_slice_ok[of c pre post k] at srt pk by (auto simp: cursor_ready_def less_imp_le)
  have "key_sorted key valid (tree_items nt0 @ tree_items sl)"
    using L Lp srt key_sorted_filter[of key valid post]
    by (auto simp: nt0(3) sl(3) key_sorted_append)
  then obtain nt1 where "stree_append S nt0 sl = Some nt1" "wf_tree S nt1"
    "tree_items nt1 = tree_items nt @ buf @ filter (\<lambda>x. key x < k) post"
    using stree_append_ok[OF nt0(2) sl(2)] nt0(3) sl(3) by auto
  then show ?thesis using True nt0(1) sl cursor_item_ok(1)[OF at] by auto
next
  case False
  have "key_sorted key valid post" using srt by (simp add: key_sorted_append)
  then have "\<forall>x \<in> set post. k \<le> key x"
    using False by (cases post) (auto simp: key_sorted_Cons not_less intro: less_imp_le le_less_trans)
  then have "filter (\<lambda>x. key x < k) post = []" "filter (\<lambda>x. k \<le> key x) post = post"
    by (auto intro!: filter_False filter_True simp: not_less)
  then show ?thesis using False nt at cursor_item_ok(1)[OF at] by auto
qed

lemma edit_loop_ok:
  assumes "edits_sorted key es" "\<forall>x \<in> set (inserted es). valid x"
    and "cursor_at D S c pre post" "key_sorted key valid (pre @ post)"
    and "wf_tree S nt" "key_sorted key valid (tree_items nt @ buf)"
    and "\<forall>x \<in> set (tree_items nt @ buf). \<forall>y \<in> set post. key x < key y"
    and "\<forall>k \<in> edit_keys key es. \<forall>x \<in> set (tree_items nt @ buf) \<union> set pre. key x < k"
  shows "\<exists>c' nt' buf' pre' post'. edit_loop S D key es c nt buf removed =
       Some (c', nt', buf', removed @ filter (\<lambda>x. key x \<in> edit_keys key es) post) \<and>
     cursor_at D S c' pre' post' \<and> pre' @ post' = pre @ post \<and> wf_tree S nt' \<and>
     key_sorted key valid (tree_items nt' @ buf' @ post') \<and>
     set (tree_items nt' @ buf' @ post') = set (tree_items nt @ buf) \<union>
       {x \<in> set post. key x \<notin> edit_keys key es} \<union> set (inserted es)"
  using assms
proof (induction es arbitrary: c pre post nt buf removed)
  case Nil
  then have "key_sorted key valid (tree_items nt @ buf @ post)" by (auto simp: key_sorted_append)
  then show ?case using Nil.prems(3,5)
    by (intro exI[of _ c] exI[of _ nt] exI[of _ buf] exI[of _ pre] exI[of _ post]) auto
next
  case (Cons e es)
  define k where "k = edit_key key e"
  let ?lo = "filter (\<lambda>x. key x < k) post" and ?eq = "filter (\<lambda>x. key x = k) post" and ?hi = "filter (\<lambda>x. k < key x) post"
  have srt: "key_sorted key valid post" using Cons.prems(4) by (simp add: key_sorted_append)
  have later: "\<forall>k' \<in> edit_keys key es. k < k'" and es: "edits_sorted key es"
    using Cons.prems(1) by (simp_all add: edits_sorted_Cons k_def)
  have pk: "\<forall>x \<in> set (tree_items nt @ buf) \<union> set pre. key x < k" using Cons.prems(8) by (simp add: k_def)
  obtain c1 nt1 buf1 where 1: "cursor_item c = Some (first_opt post)"
    "(if (case first_opt post of None \<Rightarrow> False | Some x \<Rightarrow> key x < k) then do {
          new_tree \<leftarrow> stree_extend S nt buf;
          (slice, c) \<leftarrow> cursor_slice S D (cmp_of k) Left c;
          new_tree \<leftarrow> stree_append S new_tree slice;
          Some (c, new_tree, [])
        } else Some (c, nt, buf)) = Some (c1, nt1, buf1)" "wf_tree S nt1"
    "tree_items nt1 @ buf1 = tree_items nt @ buf @ ?lo"
    "cursor_at D S c1 (pre @ ?lo) (filter (\<lambda>x. k \<le> key x) post)"
    using edit_advance_ok[OF Cons.prems(3-7), of k] pk by auto
  have lohi: "?lo @ filter (\<lambda>x. k \<le> key x) post = post"
    using key_sorted_split[OF srt, of k] by (metis takeWhile_dropWhile_id)
  have s1: "key_sorted key valid ((pre @ ?lo) @ filter (\<lambda>x. k \<le> key x) post)"
    using Cons.prems(4) unfolding append_assoc lohi .
  obtain c2 where 2: "take_key D key k c1 = Some (list_find key k post, c2)"
    "cursor_at D S c2 ((pre @ ?lo) @ ?eq) ?hi"
    using take_key_ok[OF 1(5) srt s1] by blast
  have split: "?lo @ ?eq @ ?hi = post" by (rule filter_le_split[OF srt])
  let ?buf2 = "case e of Insert item \<Rightarrow> buf1 @ [item] | Remove k \<Rightarrow> buf1"
  let ?new = "case e of Insert item \<Rightarrow> [item] | Remove k \<Rightarrow> []"
  let ?rm2 = "case list_find key k post of None \<Rightarrow> removed | Some x \<Rightarrow> removed @ [x]"
  have L2: "tree_items nt1 @ ?buf2 = tree_items nt @ buf @ ?lo @ ?new" using 1(4) by (cases e) auto
  have newk: "\<forall>x \<in> set ?new. key x = k \<and> valid x" using Cons.prems(2) by (cases e) (auto simp: k_def)
  have new1: "key_sorted key valid ?new" using newk by (cases e) auto
  have sL2: "key_sorted key valid (tree_items nt1 @ ?buf2)"
    unfolding L2 using Cons.prems(6,7) pk key_sorted_filter[OF srt] new1 newk
    by (auto simp: key_sorted_append)
  have IH: "\<exists>c' nt' buf' pre' post'. edit_loop S D key es c2 nt1 ?buf2 ?rm2 =
       Some (c', nt', buf', ?rm2 @ filter (\<lambda>x. key x \<in> edit_keys key es) ?hi) \<and>
     cursor_at D S c' pre' post' \<and> pre' @ post' = ((pre @ ?lo) @ ?eq) @ ?hi \<and> wf_tree S nt' \<and>
     key_sorted key valid (tree_items nt' @ buf' @ post') \<and>
     set (tree_items nt' @ buf' @ post') = set (tree_items nt1 @ ?buf2) \<union>
       {x \<in> set ?hi. key x \<notin> edit_keys key es} \<union> set (inserted es)"
  proof (rule Cons.IH[OF es _ 2(2) _ 1(3) sL2])
    show "\<forall>x \<in> set (inserted es). valid x" using Cons.prems(2) by (cases e) auto
    show "key_sorted key valid (((pre @ ?lo) @ ?eq) @ ?hi)" using Cons.prems(4) split by simp
    show "\<forall>x \<in> set (tree_items nt1 @ ?buf2). \<forall>y \<in> set ?hi. key x < key y"
      unfolding L2 using pk newk by (auto intro: less_trans)
    show "\<forall>k \<in> edit_keys key es. \<forall>x \<in> set (tree_items nt1 @ ?buf2) \<union> set ((pre @ ?lo) @ ?eq). key x < k"
      unfolding L2 using pk newk later by (auto intro: less_trans)
  qed
  have rm: "?rm2 @ filter (\<lambda>x. key x \<in> edit_keys key es) ?hi
      = removed @ filter (\<lambda>x. key x \<in> edit_keys key (e # es)) post"
  proof -
    have "filter (\<lambda>x. key x \<in> edit_keys key (e # es)) ?lo = []"
      using later by (fastforce simp: filter_empty_conv k_def[symmetric])
    moreover have "filter (\<lambda>x. key x \<in> edit_keys key (e # es)) ?eq = ?eq"
      by (rule filter_True) (simp add: k_def[symmetric])
    moreover have "filter (\<lambda>x. key x \<in> edit_keys key (e # es)) ?hi = filter (\<lambda>x. key x \<in> edit_keys key es) ?hi"
      by (rule filter_cong) (auto simp: k_def[symmetric])
    ultimately have "filter (\<lambda>x. key x \<in> edit_keys key (e # es)) (?lo @ ?eq @ ?hi) = ?eq @ filter (\<lambda>x. key x \<in> edit_keys key es) ?hi"
      by (simp only: filter_append append_Nil)
    moreover have "?eq = (case list_find key k post of None \<Rightarrow> [] | Some x \<Rightarrow> [x])"
      unfolding list_find_def by (rule key_sorted_single[OF srt])
    ultimately show ?thesis unfolding split by (auto split: option.splits)
  qed
  have sets: "set (tree_items nt1 @ ?buf2) \<union> {x \<in> set ?hi. key x \<notin> edit_keys key es} \<union> set (inserted es)
      = set (tree_items nt @ buf) \<union> {x \<in> set post. key x \<notin> edit_keys key (e # es)} \<union> set (inserted (e # es))"
  proof -
    have "edit_keys key (e # es) = insert k (edit_keys key es)" by (simp add: k_def)
    then have "{x \<in> set post. key x \<notin> edit_keys key (e # es)} = set ?lo \<union> {x \<in> set ?hi. key x \<notin> edit_keys key es}"
      using later by (auto simp: not_less_iff_gr_or_eq)
    moreover have "inserted (e # es) = ?new @ inserted es" by (cases e) auto
    ultimately show ?thesis unfolding L2 by auto
  qed
  have step: "edit_loop S D key (e # es) c nt buf removed = edit_loop S D key es c2 nt1 ?buf2 ?rm2"
    using 1(1,2) 2(1) by (simp add: k_def[symmetric] Let_def)
  have pp: "((pre @ ?lo) @ ?eq) @ ?hi = pre @ post" using split by simp
  show ?case using IH unfolding step rm sets pp .
qed

lemma keyed_edit_ok:
  assumes "wf_tree S t" "height t < STACK_CAP" "key_sorted key valid (tree_items t)"
    and "distinct (map (edit_key key) edits)" "\<forall>x \<in> set (inserted edits). valid x"
  shows "\<exists>t'. keyed_edit S D key t edits =
       Some (t', filter (\<lambda>x. key x \<in> edit_keys key edits) (tree_items t)) \<and> wf_tree S t' \<and>
     key_sorted key valid (tree_items t') \<and>
     set (tree_items t') = {x \<in> set (tree_items t). key x \<notin> edit_keys key edits} \<union> set (inserted edits)"
proof (cases "edits = []")
  case True
  then show ?thesis using assms by (simp add: keyed_edit_def)
next
  case False
  let ?xs = "tree_items t" and ?es = "sort_key (edit_key key) edits"
  have keys: "edit_keys key ?es = edit_keys key edits" and ins: "set (inserted ?es) = set (inserted edits)"
    by (simp_all add: edit_keys_def set_inserted)
  have "passes Left (cmp_of (dm_zero D) (key x)) = False" for x
    using zero_least[of "key x"] by (simp add: passes_Left_key not_less)
  then have sc: "seek_scan D S (cmp_of (dm_zero D)) Left [] ?xs = ([], ?xs)"
    using key_scan[of "[]" ?xs "cmp_of (dm_zero D)" Left] assms(3) by (cases ?xs) simp_all
  obtain b c where c: "cursor_seek D (cmp_of (dm_zero D)) Left (cursor_new D t) = Some (b, c)" "cursor_at D S c [] ?xs"
    using cursor_seek_ok[of "cursor_new D t" "cmp_of (dm_zero D)" Left "[]" ?xs]
      key_target_mono[OF assms(3), of "cmp_of (dm_zero D)", OF cmp_of_anti] assms(1-3) sc
    by (auto simp: cmp_of_def)
  obtain c' nt buf pre' post' where l: "edit_loop S D key ?es c (stree_new S) [] [] =
       Some (c', nt, buf, [] @ filter (\<lambda>x. key x \<in> edit_keys key ?es) ?xs)"
     "cursor_at D S c' pre' post'" "pre' @ post' = [] @ ?xs" "wf_tree S nt"
     "key_sorted key valid (tree_items nt @ buf @ post')"
     "set (tree_items nt @ buf @ post') = set (tree_items (stree_new S) @ []) \<union>
       {x \<in> set ?xs. key x \<notin> edit_keys key ?es} \<union> set (inserted ?es)"
    using edit_loop_ok[OF sort_key_edits[OF assms(4)] _ c(2), of "stree_new S" "[]" "[]"] assms(3,5) ins
    by auto
  obtain nt1 where nt1: "stree_extend S nt buf = Some nt1" "wf_tree S nt1" "tree_items nt1 = tree_items nt @ buf"
    using stree_extend_ok[OF l(4), of buf] l(5) by (auto simp: key_sorted_append)
  obtain rest c2 where rest: "cursor_suffix S D c' = Some (rest, c2)" "wf_tree S rest" "tree_items rest = post'"
    using cursor_suffix_ok[of c' pre' post'] l(2,3) assms(3) by (auto simp: cursor_ready_def)
  obtain t' where t': "stree_append S nt1 rest = Some t'" "wf_tree S t'" "tree_items t' = tree_items nt @ buf @ post'"
    using stree_append_ok[OF nt1(2) rest(2)] nt1(3) rest(3) l(5) by auto
  show ?thesis using False c(1) l(1,5,6) nt1(1) rest(1) t' keys ins
    by (simp add: keyed_edit_def keyed_edit_sorted_def)
qed

end

end
