(* ===== verification/TreeMapProps.thy ===== *)
theory TreeMapProps
  imports TreeMap
begin

text \<open>
  The ordered map refines a finite map: every operation succeeds on a well-formed map and acts
  as the corresponding update of \<open>tm_map\<close>. The set is proved correct from the map's contract.
\<close>

section \<open>Abstraction and invariant\<close>

abbreviation entries_sorted :: "('k::linorder, 'v) map_entry list \<Rightarrow> bool" where
  "entries_sorted \<equiv> key_sorted map_entry_key (\<lambda>_. True)"

definition pair_of :: "('k, 'v) map_entry \<Rightarrow> 'k \<times> 'v" where
  "pair_of e = (me_key e, me_value e)"

definition tm_list :: "('k, 'v) tree_map \<Rightarrow> ('k \<times> 'v) list" where
  "tm_list t = map pair_of (tree_items t)"

definition tm_map :: "('k, 'v) tree_map \<Rightarrow> 'k \<rightharpoonup> 'v" where
  "tm_map t = map_of (tm_list t)"

definition tm_inv :: "('k::linorder, 'v) tree_map \<Rightarrow> bool" where
  "tm_inv t \<longleftrightarrow> wf_tree map_summary t \<and> entries_sorted (tree_items t)"

definition tm_room :: "('k, 'v) tree_map \<Rightarrow> bool" where
  "tm_room t \<longleftrightarrow> height t < STACK_CAP"

lemma entries_sorted_iff: "entries_sorted xs \<longleftrightarrow> sorted_wrt (\<lambda>x y. me_key x < me_key y) xs"
  by (simp add: key_sorted_def map_entry_key_def)

lemma entries_sorted_keys: "entries_sorted xs \<longleftrightarrow> sorted_wrt (<) (map me_key xs)"
  by (simp add: entries_sorted_iff sorted_wrt_map)

lemma entries_distinct: "entries_sorted xs \<Longrightarrow> distinct (map me_key xs)"
  unfolding entries_sorted_iff by (induction xs) auto

lemma map_of_entries:
  assumes "entries_sorted xs"
  shows "map_of (map pair_of xs) k = Some v \<longleftrightarrow> (\<exists>e \<in> set xs. me_key e = k \<and> me_value e = v)"
proof -
  have "distinct (map fst (map pair_of xs))"
    using entries_distinct[OF assms] by (simp add: o_def pair_of_def)
  then have "map_of (map pair_of xs) k = Some v \<longleftrightarrow> (k, v) \<in> set (map pair_of xs)" by (rule map_of_eq_Some_iff)
  also have "\<dots> \<longleftrightarrow> (\<exists>e \<in> set xs. me_key e = k \<and> me_value e = v)" by (auto simp: pair_of_def)
  finally show ?thesis .
qed

lemma tm_map_iff: "tm_inv t \<Longrightarrow> tm_map t k = Some v \<longleftrightarrow> (\<exists>e \<in> set (tree_items t). me_key e = k \<and> me_value e = v)"
  by (simp add: tm_map_def tm_list_def tm_inv_def map_of_entries)

lemma option_eqI: "(\<And>v. a = Some v \<longleftrightarrow> b = Some v) \<Longrightarrow> a = b"
  by (cases a; cases b) auto

lemma tm_map_eqI:
  assumes "tm_inv t" "\<And>k v. (\<exists>e \<in> set (tree_items t). me_key e = k \<and> me_value e = v) \<longleftrightarrow> m k = Some v"
  shows "tm_map t = m"
proof
  fix k
  show "tm_map t k = m k"
    by (rule option_eqI) (simp only: tm_map_iff[OF assms(1)] assms(2))
qed

lemma list_find_map: "entries_sorted xs \<Longrightarrow>
  map_option me_value (list_find map_entry_key (Some k) xs) = map_of (map pair_of xs) k"
  unfolding list_find_def by (induction xs) (auto simp: map_entry_key_def pair_of_def key_sorted_Cons)

lemma filter_key_less: "filter (\<lambda>x. map_entry_key x < Some k) xs = filter (\<lambda>x. me_key x < k) xs"
  "filter (\<lambda>x. Some k < map_entry_key x) xs = filter (\<lambda>x. k < me_key x) xs"
  "filter (\<lambda>x. map_entry_key x = Some k) xs = filter (\<lambda>x. me_key x = k) xs"
  by (simp_all add: map_entry_key_def)

lemma tm_inv_new: "tm_inv tm_new" "tm_map tm_new = Map.empty" "tm_room tm_new"
  by (simp_all add: tm_inv_def tm_new_def tm_map_def tm_list_def tm_room_def stree_new_def wf_tree_def STACK_CAP_def)

section \<open>Lookup, insertion and removal\<close>

lemma tm_get_ok: "tm_inv t \<Longrightarrow> tm_get t k = tm_map t k"
proof -
  assume inv: "tm_inv t"
  let ?xs = "tree_items t"
  have srt: "entries_sorted ?xs" and wf: "wf_tree map_summary t" using inv by (simp_all add: tm_inv_def)
  note sp = key_sorted_split[OF srt, of "Some k"]
  have sc: "seek_scan map_dim map_summary (key_target k) Left [] ?xs
     = (filter (\<lambda>x. map_entry_key x < Some k) ?xs, filter (\<lambda>x. Some k \<le> map_entry_key x) ?xs)"
    using tm.key_scan[of "[]" ?xs "key_target k" Left] srt by (simp add: tm.passes_Left_key sp)
  have mono: "mono_target map_dim map_summary (key_target k) ?xs"
    by (rule tm.key_target_mono[OF srt tm.cmp_of_anti])
  have "snd (snd (stree_find map_dim t (key_target k) Left)) = first_opt (filter (\<lambda>x. Some k \<le> map_entry_key x) ?xs)"
    unfolding tm.stree_find_ok[OF wf srt mono] sc by (auto split: list.splits)
  moreover have "tm_map t k = map_option me_value (list_find map_entry_key (Some k) ?xs)"
    using list_find_map[OF srt] by (simp add: tm_map_def tm_list_def)
  ultimately show ?thesis unfolding tm_get_def tm.key_find_split[OF srt, of "Some k"]
    by (auto split: list.splits)
qed

lemma tm_insert_or_replace_ok:
  assumes "tm_inv t" "tm_room t"
  shows "\<exists>t'. tm_insert_or_replace t k v = Some (t', tm_map t k) \<and> tm_inv t' \<and> tm_map t' = (tm_map t)(k \<mapsto> v)"
proof -
  have srt: "entries_sorted (tree_items t)" using assms(1) by (simp add: tm_inv_def)
  have key: "map_entry_key (entry_of (k, v)) = Some k" by (simp add: map_entry_key_def entry_of_def)
  obtain t' where t': "keyed_insert_or_replace map_summary map_dim map_entry_key t (entry_of (k, v))
      = Some (t', list_find map_entry_key (Some k) (tree_items t))" "tm_inv t'"
    "tree_items t' = list_insert map_entry_key (entry_of (k, v)) (tree_items t)"
    using tm.keyed_insert_ok[of t "entry_of (k, v)"] assms by (auto simp: tm_inv_def tm_room_def key)
  have "tm_map t' = (tm_map t)(k \<mapsto> v)"
  proof (rule tm_map_eqI[OF t'(2)])
    fix k' v'
    show "(\<exists>e \<in> set (tree_items t'). me_key e = k' \<and> me_value e = v') \<longleftrightarrow> ((tm_map t)(k \<mapsto> v)) k' = Some v'"
      using tm_map_iff[OF assms(1), of k' v']
      by (auto simp: t'(3) list_insert_def key filter_key_less entry_of_def map_entry_key_def)
  qed
  then show ?thesis using t' list_find_map[OF srt, of k]
    by (simp add: tm_insert_or_replace_def tm_map_def tm_list_def)
qed

lemma tm_insert_ok:
  assumes "tm_inv t" "tm_room t"
  shows "\<exists>t'. tm_insert t k v = Some t' \<and> tm_inv t' \<and> tm_map t' = (tm_map t)(k \<mapsto> v)"
  using tm_insert_or_replace_ok[OF assms, of k v]
  by (auto simp: tm_insert_or_replace_def tm_insert_def bind_eq_Some_conv)

text \<open>The cursor of \<open>remove\<close> and \<open>update\<close> after the slice below the key.\<close>

lemma tm_key_cursor:
  assumes "tm_inv t" "tm_room t"
  obtains new_tree c where
    "cursor_slice map_summary map_dim (key_target k) Left (cursor_new map_dim t) = Some (new_tree, c)"
    "wf_tree map_summary new_tree" "tree_items new_tree = filter (\<lambda>x. me_key x < k) (tree_items t)"
    "cursor_at map_dim map_summary c (filter (\<lambda>x. me_key x < k) (tree_items t))
       (filter (\<lambda>x. Some k \<le> map_entry_key x) (tree_items t))"
    "case list_find map_entry_key (Some k) (tree_items t) of
       None \<Rightarrow> (\<exists>e. cursor_end map_dim c = Some e \<and> key_target k e \<noteq> Equal) \<and>
         filter (\<lambda>x. Some k \<le> map_entry_key x) (tree_items t) = filter (\<lambda>x. k < me_key x) (tree_items t)
     | Some x \<Rightarrow> cursor_end map_dim c = Some (Some k) \<and> cursor_item c = Some (Some x) \<and> me_key x = k \<and>
         filter (\<lambda>x. Some k \<le> map_entry_key x) (tree_items t) = x # filter (\<lambda>x. k < me_key x) (tree_items t)"
proof -
  let ?xs = "tree_items t"
  let ?lo = "filter (\<lambda>x. me_key x < k) ?xs" and ?ge = "filter (\<lambda>x. Some k \<le> map_entry_key x) ?xs"
  have wf: "wf_tree map_summary t" "height t < STACK_CAP" and srt: "entries_sorted ?xs"
    using assms by (simp_all add: tm_inv_def tm_room_def)
  obtain nt c where c: "cursor_slice map_summary map_dim (key_target k) Left (cursor_new map_dim t) = Some (nt, c)"
    "wf_tree map_summary nt" "tree_items nt = ?lo" "cursor_at map_dim map_summary c ?lo ?ge"
    using tm.key_slice_ok[OF tm.key_start[OF wf], of "Some k"] srt by (auto simp: filter_key_less)
  have ce: "cursor_end map_dim c = Some (case ?ge of [] \<Rightarrow> dpos map_dim map_summary ?lo | x # _ \<Rightarrow> map_entry_key x)"
    using cursor_item_ok(2)[OF c(4)] c(4)
    by (cases ?ge) (auto simp: cursor_end_def cursor_at_def map_dim_def map_summary_def)
  have lt: "dpos map_dim map_summary ?lo \<noteq> Some k"
    by (cases "?lo = []") (auto simp: dpos_map dest: last_in_set)
  note fs = tm.key_find_split[OF srt, of "Some k"] and from_k = key_sorted_from[OF srt, of "Some k", unfolded filter_key_less]
    and one = key_sorted_single[OF srt, of "Some k", unfolded filter_key_less, folded list_find_def]
  show thesis
  proof (cases "list_find map_entry_key (Some k) ?xs")
    case None
    then have "?ge = filter (\<lambda>x. k < me_key x) ?xs" using from_k one by simp
    moreover have "key_target k e \<noteq> Equal" if "cursor_end map_dim c = Some e" for e
      using that ce lt fs None by (auto split: list.splits if_splits)
    ultimately show thesis using that[OF c] None ce by simp
  next
    case (Some x)
    have "x \<in> set (filter (\<lambda>x. me_key x = k) ?xs)" unfolding one Some by simp
    then have kx: "me_key x = k" by simp
    have "?ge = x # filter (\<lambda>x. k < me_key x) ?xs" using from_k one Some by simp
    then show thesis using that[OF c] Some ce cursor_item_ok(1)[OF c(4)] kx by (simp add: map_entry_key_def)
  qed
qed

lemma tm_finish:
  assumes "cursor_at map_dim map_summary c pre post" "entries_sorted (pre @ post)"
    "wf_tree map_summary nt" "entries_sorted (tree_items nt @ post)"
  shows "\<exists>rest c' t'. cursor_suffix map_summary map_dim c = Some (rest, c') \<and>
     stree_append map_summary nt rest = Some t' \<and> tm_inv t' \<and> tree_items t' = tree_items nt @ post"
proof -
  obtain rest c' where r: "cursor_suffix map_summary map_dim c = Some (rest, c')" "wf_tree map_summary rest"
    "tree_items rest = post"
    using tm.cursor_suffix_ok[of c pre post] assms(1,2) by (auto simp: cursor_ready_def)
  then show ?thesis using tm.stree_append_ok[OF assms(3) r(2)] assms(4) by (auto simp: tm_inv_def)
qed

lemma entries_filter: "entries_sorted xs \<Longrightarrow> entries_sorted (filter P xs)"
  by (rule key_sorted_filter)

lemma tm_remove_ok:
  assumes "tm_inv t" "tm_room t"
  shows "\<exists>t'. tm_remove t k = Some (t', tm_map t k) \<and> tm_inv t' \<and> tm_map t' = (tm_map t)(k := None)"
proof -
  let ?xs = "tree_items t"
  let ?lo = "filter (\<lambda>x. me_key x < k) ?xs" and ?ge = "filter (\<lambda>x. Some k \<le> map_entry_key x) ?xs"
    and ?hi = "filter (\<lambda>x. k < me_key x) ?xs"
  have srt: "entries_sorted ?xs" using assms(1) by (simp add: tm_inv_def)
  obtain nt c where c: "cursor_slice map_summary map_dim (key_target k) Left (cursor_new map_dim t) = Some (nt, c)"
    "wf_tree map_summary nt" "tree_items nt = ?lo" "cursor_at map_dim map_summary c ?lo ?ge"
    "case list_find map_entry_key (Some k) ?xs of
       None \<Rightarrow> (\<exists>e. cursor_end map_dim c = Some e \<and> key_target k e \<noteq> Equal) \<and> ?ge = ?hi
     | Some x \<Rightarrow> cursor_end map_dim c = Some (Some k) \<and> cursor_item c = Some (Some x) \<and> me_key x = k \<and> ?ge = x # ?hi"
    by (rule tm_key_cursor[OF assms])
  have all: "?lo @ ?ge = ?xs"
    using filter_less_ge[OF srt, of "Some k"] by (simp add: filter_key_less)
  have find: "map_option me_value (list_find map_entry_key (Some k) ?xs) = tm_map t k"
    using list_find_map[OF srt] by (simp add: tm_map_def tm_list_def)
  have rem: "?lo @ ?hi = filter (\<lambda>x. me_key x \<noteq> k) ?xs"
    using tm.list_remove_split[OF srt, of "Some k"] by (simp add: filter_key_less list_remove_def map_entry_key_def)
  have srt': "entries_sorted (?lo @ ?hi)" unfolding rem by (rule entries_filter[OF srt])
  have map: "tm_map t' = (tm_map t)(k := None)" if "tm_inv t'" "tree_items t' = ?lo @ ?hi" for t'
    by (rule tm_map_eqI[OF that(1)]) (use tm_map_iff[OF assms(1)] in \<open>auto simp: that(2) rem\<close>)
  show ?thesis
  proof (cases "list_find map_entry_key (Some k) ?xs")
    case None
    then have ge: "?ge = ?hi" using c(5) by simp
    obtain rest c' t' where "cursor_suffix map_summary map_dim c = Some (rest, c')"
      "stree_append map_summary nt rest = Some t'" "tm_inv t'" "tree_items t' = ?lo @ ?hi"
      using tm_finish[OF c(4)[unfolded ge] _ c(2)] srt' by (auto simp: c(3))
    then show ?thesis using c(1,5) None find map[of t'] by (auto simp: tm_remove_def)
  next
    case (Some x)
    then have ge: "?ge = x # ?hi" using c(5) by simp
    obtain c1 where c1: "cursor_next map_dim c = Some c1" "cursor_at map_dim map_summary c1 (?lo @ [x]) ?hi"
      using tm.cursor_next_at_ok[OF c(4)] srt all by (auto simp: ge)
    have "entries_sorted ((?lo @ [x]) @ ?hi)" using srt all by (simp add: ge)
    from tm_finish[OF c1(2) this c(2)] obtain rest c' t' where "cursor_suffix map_summary map_dim c1 = Some (rest, c')"
      "stree_append map_summary nt rest = Some t'" "tm_inv t'" "tree_items t' = ?lo @ ?hi"
      using srt' by (auto simp: c(3))
    then show ?thesis using c(1,5) c1(1) Some find map[of t'] by (auto simp: tm_remove_def)
  qed
qed

lemma tm_update_ok:
  assumes "tm_inv t" "tm_room t"
  shows "\<exists>t'. tm_update t k f = Some (t', map_option (snd \<circ> f) (tm_map t k)) \<and> tm_inv t' \<and>
     tm_map t' = (tm_map t)(k := map_option (fst \<circ> f) (tm_map t k))"
proof -
  let ?xs = "tree_items t"
  let ?lo = "filter (\<lambda>x. me_key x < k) ?xs" and ?ge = "filter (\<lambda>x. Some k \<le> map_entry_key x) ?xs"
    and ?hi = "filter (\<lambda>x. k < me_key x) ?xs"
  have srt: "entries_sorted ?xs" using assms(1) by (simp add: tm_inv_def)
  obtain nt c where c: "cursor_slice map_summary map_dim (key_target k) Left (cursor_new map_dim t) = Some (nt, c)"
    "wf_tree map_summary nt" "tree_items nt = ?lo" "cursor_at map_dim map_summary c ?lo ?ge"
    "case list_find map_entry_key (Some k) ?xs of
       None \<Rightarrow> (\<exists>e. cursor_end map_dim c = Some e \<and> key_target k e \<noteq> Equal) \<and> ?ge = ?hi
     | Some x \<Rightarrow> cursor_end map_dim c = Some (Some k) \<and> cursor_item c = Some (Some x) \<and> me_key x = k \<and> ?ge = x # ?hi"
    by (rule tm_key_cursor[OF assms])
  have all: "?lo @ ?ge = ?xs"
    using filter_less_ge[OF srt, of "Some k"] by (simp add: filter_key_less)
  have find: "map_option me_value (list_find map_entry_key (Some k) ?xs) = tm_map t k"
    using list_find_map[OF srt] by (simp add: tm_map_def tm_list_def)
  show ?thesis
  proof (cases "list_find map_entry_key (Some k) ?xs")
    case None
    then have ge: "?ge = ?hi" using c(5) by simp
    have sx: "entries_sorted (?lo @ ?hi)" "?lo @ ?hi = ?xs" using srt all by (simp_all add: ge)
    obtain rest c' t' where r: "cursor_suffix map_summary map_dim c = Some (rest, c')"
      "stree_append map_summary nt rest = Some t'" "tm_inv t'" "tree_items t' = ?xs"
      using tm_finish[OF c(4)[unfolded ge] sx(1) c(2)] sx by (auto simp: c(3))
    then have "tm_map t' = tm_map t" by (simp add: tm_map_def tm_list_def)
    moreover have nk: "tm_map t k = None" using find None by simp
    moreover have "(tm_map t)(k := None) = tm_map t" using nk by (rule fun_upd_idem)
    ultimately show ?thesis using r c(1,5) None by (auto simp: tm_update_def)
  next
    case (Some x)
    then have ge: "?ge = x # ?hi" and kx: "me_key x = k" using c(5) by simp_all
    define y where "y = x\<lparr>me_value := fst (f (me_value x))\<rparr>"
    have ky: "me_key y = k" "me_value y = fst (f (me_value x))" by (simp_all add: y_def kx)
    obtain c1 where c1: "cursor_next map_dim c = Some c1" "cursor_at map_dim map_summary c1 (?lo @ [x]) ?hi"
      using tm.cursor_next_at_ok[OF c(4)] srt all by (auto simp: ge)
    have sx: "entries_sorted ((?lo @ [x]) @ ?hi)" "?lo @ x # ?hi = ?xs" using srt all by (simp_all add: ge)
    have sy: "entries_sorted ((?lo @ [y]) @ ?hi)"
      using sx(1) unfolding entries_sorted_keys by (simp add: ky kx)
    obtain nt1 where nt1: "stree_push map_summary nt y = Some nt1" "wf_tree map_summary nt1" "tree_items nt1 = ?lo @ [y]"
      using tm.stree_push_ok[OF c(2), of y] sy by (auto simp: c(3) key_sorted_append)
    from tm_finish[OF c1(2) sx(1) nt1(2)] obtain rest c' t' where r: "cursor_suffix map_summary map_dim c1 = Some (rest, c')"
      "stree_append map_summary nt1 rest = Some t'" "tm_inv t'" "tree_items t' = ?lo @ y # ?hi"
      using sy by (auto simp: nt1(3))
    have "tm_map t k = Some (me_value x)" using find Some by simp
    moreover have "tm_map t' = (tm_map t)(k \<mapsto> me_value y)"
    proof (rule tm_map_eqI[OF r(3)])
      fix k' v'
      show "(\<exists>e \<in> set (tree_items t'). me_key e = k' \<and> me_value e = v') \<longleftrightarrow> ((tm_map t)(k \<mapsto> me_value y)) k' = Some v'"
        using tm_map_iff[OF assms(1), of k' v'] sx(2)[symmetric] by (auto simp: r(4) ky kx)
    qed
    ultimately show ?thesis using r c(1,5) c1(1) nt1(1) Some ky
      by (auto simp: tm_update_def y_def[symmetric])
  qed
qed

section \<open>Traversals\<close>

lemma tm_collect_cursor:
  "cursor_at map_dim map_summary c pre post \<Longrightarrow> entries_sorted (pre @ post) \<Longrightarrow>
   collect_cursor map_dim c acc = Some (acc @ post)"
proof (induction post arbitrary: c pre acc)
  case Nil
  obtain c' where "cursor_iter_next map_dim c = Some (None, c')"
    using tm.cursor_iter_next_ok[OF Nil] by auto
  then show ?case by (subst collect_cursor.simps) simp
next
  case (Cons x post)
  obtain c' where c': "cursor_iter_next map_dim c = Some (Some x, c')" "cursor_at map_dim map_summary c' (pre @ [x]) post"
    using tm.cursor_iter_next_ok[OF Cons.prems] by auto
  have "entries_sorted ((pre @ [x]) @ post)" using Cons.prems(2) by simp
  from Cons.IH[OF c'(2) this] show ?case using c'(1) by (subst collect_cursor.simps) simp
qed

lemma tm_iter_ok:
  assumes "tm_inv t" "tm_room t"
  shows "tm_iter t = Some (tm_list t)" "tm_values t = Some (map snd (tm_list t))"
proof -
  have "iter_at map_summary (iter_new t) [] (tree_items t)"
    using assms by (simp add: iter_at_def iter_new_def tm_inv_def tm_room_def)
  then have "collect_iter (iter_new t) [] = Some (tree_items t)"
    using tm.collect_iter_ok[of "iter_new t" "[]" "tree_items t" "[]"] assms(1) by (simp add: tm_inv_def)
  then show "tm_iter t = Some (tm_list t)" "tm_values t = Some (map snd (tm_list t))"
    by (simp_all add: tm_iter_def tm_values_def tm_list_def pair_of_def fun_eq_iff)
qed

lemma tm_first_last_ok:
  assumes "tm_inv t"
  shows "tm_first t = Some (first_opt (tm_list t))" "tm_last t = Some (last_opt (tm_list t))"
  using assms stree_first_ok[of map_summary t] stree_last_ok[of map_summary t]
  by (auto simp: tm_inv_def tm_first_def tm_last_def tm_list_def pair_of_def first_opt_iff last_opt_iff hd_map last_map)

lemma key_sorted_while:
  assumes "key_sorted key valid xs" "\<And>x y. key x < key y \<Longrightarrow> P y \<Longrightarrow> P x"
  shows "takeWhile P xs = filter P xs" "dropWhile P xs = filter (\<lambda>x. \<not> P x) xs"
proof -
  have "takeWhile P xs = filter P xs \<and> dropWhile P xs = filter (\<lambda>x. \<not> P x) xs"
    using assms(1)
  proof (induction xs)
    case (Cons x xs)
    then have gt: "\<And>y. y \<in> set xs \<Longrightarrow> key x < key y" by (simp add: key_sorted_Cons)
    show ?case
    proof (cases "P x")
      case False
      then have "\<not> P y" if "y \<in> set xs" for y using gt[OF that] assms(2) by blast
      then have "filter P xs = []" "filter (\<lambda>x. \<not> P x) xs = xs" by (auto intro!: filter_False filter_True)
      then show ?thesis using False by simp
    qed (use Cons in \<open>simp add: key_sorted_Cons\<close>)
  qed simp
  then show "takeWhile P xs = filter P xs" "dropWhile P xs = filter (\<lambda>x. \<not> P x) xs" by auto
qed

lemma tm_seek_key:
  assumes "tm_inv t" "tm_room t" "c_tree c = t"
    and anti: "\<And>a b. a \<le> b \<Longrightarrow> cmp_rank (target b) \<le> cmp_rank (target a)" and "target None \<noteq> Less"
  shows "\<exists>b c'. cursor_seek map_dim target bias c = Some (b, c') \<and> c_tree c' = t \<and>
    cursor_at map_dim map_summary c' (filter (\<lambda>x. passes bias (target (map_entry_key x))) (tree_items t))
      (filter (\<lambda>x. \<not> passes bias (target (map_entry_key x))) (tree_items t))"
proof -
  have srt: "entries_sorted (tree_items t)" and wf: "wf_tree map_summary t" "height t < STACK_CAP"
    using assms(1,2) by (simp_all add: tm_inv_def tm_room_def)
  have "passes bias (target (map_entry_key x))" if "map_entry_key x < map_entry_key y"
    "passes bias (target (map_entry_key y))" for x y :: "('a, 'b) map_entry"
    using passes_rank[OF that(2) anti[OF less_imp_le[OF that(1)]]] .
  note sw = key_sorted_while[OF srt this]
  have mono: "mono_target map_dim map_summary target (tree_items t)"
    by (rule tm.key_target_mono[OF srt anti])
  have sc: "seek_scan map_dim map_summary target bias [] (tree_items t) =
     (filter (\<lambda>x. passes bias (target (map_entry_key x))) (tree_items t),
      filter (\<lambda>x. \<not> passes bias (target (map_entry_key x))) (tree_items t))"
    using tm.key_scan[of "[]" "tree_items t" target bias] srt by (simp only: sw append_Nil)
  have "target (dm_zero map_dim) \<noteq> Less" using assms(5) by (simp add: map_dim_def)
  from tm.cursor_seek_ok[of c target bias, unfolded assms(3), OF wf srt mono this sc]
  show ?thesis by blast
qed

lemma tm_iter_from_ok:
  assumes "tm_inv t" "tm_room t"
  shows "tm_iter_from t k = Some (filter (\<lambda>(k', v). k \<le> k') (tm_list t))"
proof -
  have srt: "entries_sorted (tree_items t)" using assms(1) by (simp add: tm_inv_def)
  obtain b c where c: "cursor_seek map_dim (key_target k) Left (cursor_new map_dim t) = Some (b, c)"
    "cursor_at map_dim map_summary c (filter (\<lambda>x. me_key x < k) (tree_items t)) (filter (\<lambda>x. k \<le> me_key x) (tree_items t))"
    using tm_seek_key[OF assms, of "cursor_new map_dim t" "key_target k" Left, OF _ tm.cmp_of_anti]
    by (auto simp: tm.passes_Left_key map_entry_key_def not_less)
  have "entries_sorted (filter (\<lambda>x. me_key x < k) (tree_items t) @ filter (\<lambda>x. k \<le> me_key x) (tree_items t))"
    using filter_less_ge[OF srt, of "Some k"] srt by (simp add: filter_key_less map_entry_key_def)
  from tm_collect_cursor[OF c(2) this] show ?thesis using c(1)
    by (simp add: tm_iter_from_def tm_list_def filter_map o_def pair_of_def)
qed

text \<open>\<open>closest\<close> returns the entry with the greatest key not above the given one.\<close>

lemma tm_closest_ok:
  assumes "tm_inv t" "tm_room t"
  shows "tm_closest t k = Some (last_opt (filter (\<lambda>(k', v). k' \<le> k) (tm_list t)))"
proof -
  let ?p = "filter (\<lambda>x. me_key x \<le> k) (tree_items t)" and ?r = "filter (\<lambda>x. \<not> me_key x \<le> k) (tree_items t)"
  have srt: "entries_sorted (tree_items t)" using assms(1) by (simp add: tm_inv_def)
  obtain b c where c: "cursor_seek map_dim (key_target k) Right (cursor_new map_dim t) = Some (b, c)"
    "cursor_at map_dim map_summary c ?p ?r" "c_tree c = t"
    using tm_seek_key[OF assms, of "cursor_new map_dim t" "key_target k" Right, OF _ tm.cmp_of_anti]
    by (auto simp: tm.passes_Right_key map_entry_key_def)
  have sp: "entries_sorted (?p @ ?r)"
    using cursor_at_items[OF c(2)] srt by (simp only: c(3))
  obtain c' where c': "cursor_prev map_dim c = Some c'" "c_did_seek c'"
    "if ?p = [] then cursor_start map_dim map_summary c'
     else cursor_at map_dim map_summary c' (butlast ?p) (last ?p # ?r)"
    using tm.cursor_prev_at_ok[OF c(2) sp] by blast
  have "cursor_item c' = Some (last_opt ?p)"
  proof (cases "?p = []")
    case True
    then show ?thesis using c'(2,3) by (simp add: cursor_item_def assert_opt_def cursor_start_def)
  next
    case False
    then show ?thesis using c'(3) cursor_item_ok(1)[of map_dim map_summary c' "butlast ?p" "last ?p # ?r"]
      by (simp add: last_opt_iff)
  qed
  then show ?thesis using c(1) c'(1)
    by (simp add: tm_closest_def tm_list_def filter_map o_def pair_of_def last_opt_iff last_map)
qed

section \<open>Bulk operations\<close>

lemma map_adaptor_anti:
  assumes "\<And>a b. a \<le> b \<Longrightarrow> cmp_rank (cmp b) \<le> cmp_rank (cmp a)" "a \<le> b"
  shows "cmp_rank (map_adaptor cmp b) \<le> cmp_rank (map_adaptor cmp a)"
proof -
  have "cmp_rank x \<le> 2" for x by (cases x) auto
  then show ?thesis using assms by (cases a; cases b) (auto simp: map_adaptor_def numeral_2_eq_2)
qed

lemma passes_adaptor: "passes Left (map_adaptor cmp (map_entry_key x)) \<longleftrightarrow> cmp (me_key x) = Greater"
  by (auto simp: passes_def map_adaptor_def map_entry_key_def)

text \<open>\<open>remove_range\<close> drops the entries from the start to before the end of the range; the end must
  not be before the start.\<close>

lemma tm_remove_range_ok:
  assumes "tm_inv t" "tm_room t"
    and "\<And>a b. a \<le> b \<Longrightarrow> cmp_rank (start_cmp b) \<le> cmp_rank (start_cmp a)"
    and "\<And>a b. a \<le> b \<Longrightarrow> cmp_rank (end_cmp b) \<le> cmp_rank (end_cmp a)"
    and "\<And>k. start_cmp k = Greater \<Longrightarrow> end_cmp k = Greater"
  shows "\<exists>t'. tm_remove_range t start_cmp end_cmp = Some t' \<and> tm_inv t' \<and>
     tm_list t' = filter (\<lambda>(k, v). start_cmp k = Greater \<or> end_cmp k \<noteq> Greater) (tm_list t)"
proof -
  let ?xs = "tree_items t"
  let ?lo = "filter (\<lambda>x. start_cmp (me_key x) = Greater) ?xs" and ?ge = "filter (\<lambda>x. start_cmp (me_key x) \<noteq> Greater) ?xs"
    and ?be = "filter (\<lambda>x. end_cmp (me_key x) = Greater) ?xs" and ?hi = "filter (\<lambda>x. end_cmp (me_key x) \<noteq> Greater) ?xs"
  have srt: "entries_sorted ?xs" and wf: "wf_tree map_summary t" "height t < STACK_CAP"
    using assms(1,2) by (simp_all add: tm_inv_def tm_room_def)
  have anti: "\<And>a b. a \<le> b \<Longrightarrow> cmp_rank (map_adaptor start_cmp b) \<le> cmp_rank (map_adaptor start_cmp a)"
    "\<And>a b. a \<le> b \<Longrightarrow> cmp_rank (map_adaptor end_cmp b) \<le> cmp_rank (map_adaptor end_cmp a)"
    using map_adaptor_anti assms(3,4) by blast+
  have down: "start_cmp (me_key x) = Greater" if "map_entry_key x < map_entry_key y" "start_cmp (me_key y) = Greater" for x y :: "('a, 'b) map_entry"
    using assms(3)[of "me_key x" "me_key y"] that by (cases "start_cmp (me_key x)") (auto simp: map_entry_key_def less_imp_le)
  note sw = key_sorted_while[OF srt down]
  have sc: "seek_scan map_dim map_summary (map_adaptor start_cmp) Left [] ?xs = (?lo, ?ge)"
    using tm.key_scan[of "[]" ?xs "map_adaptor start_cmp" Left] srt by (simp add: passes_adaptor sw)
  have mono: "mono_target map_dim map_summary (map_adaptor start_cmp) ?xs"
    by (rule tm.key_target_mono[OF srt]) (rule anti(1))
  have "map_adaptor start_cmp (dpos map_dim map_summary []) \<noteq> Less"
    by (simp add: map_adaptor_def dpos_map)
  from tm.cursor_slice_ok[OF tm.key_start[OF wf] _ _ this sc] obtain nt c where c:
    "cursor_slice map_summary map_dim (map_adaptor start_cmp) Left (cursor_new map_dim t) = Some (nt, c)"
    "wf_tree map_summary nt" "tree_items nt = ?lo" "c_tree c = t"
    using srt mono unfolding append_Nil c_tree_reset(2) by metis
  have an: "map_adaptor end_cmp None \<noteq> Less" by (simp add: map_adaptor_def)
  obtain b c1 where c1: "cursor_seek map_dim (map_adaptor end_cmp) Left c = Some (b, c1)"
    "cursor_at map_dim map_summary c1 ?be ?hi" "c_tree c1 = t"
    using tm_seek_key[of t c "map_adaptor end_cmp" Left, OF assms(1,2) c(4) anti(2)] an
    unfolding passes_adaptor by blast
  have all: "?be @ ?hi = ?xs" using cursor_at_items[OF c1(2)] c1(3) by simp
  have res: "?lo @ ?hi = filter (\<lambda>x. start_cmp (me_key x) = Greater \<or> end_cmp (me_key x) \<noteq> Greater) ?xs"
  proof -
    let ?P = "\<lambda>x. start_cmp (me_key x) = Greater \<or> end_cmp (me_key x) \<noteq> Greater"
    have "filter ?P ?hi = ?hi" by (rule filter_True) simp
    moreover have "filter ?P ?be = filter (\<lambda>x. start_cmp (me_key x) = Greater) ?be"
      by (rule filter_cong) auto
    moreover have "filter (\<lambda>x. start_cmp (me_key x) = Greater) ?be = ?lo"
      unfolding filter_filter by (rule filter_cong) (use assms(5) in auto)
    ultimately have "filter ?P (?be @ ?hi) = ?lo @ ?hi" by (simp only: filter_append)
    then show ?thesis by (simp only: all)
  qed
  have "entries_sorted (tree_items nt @ ?hi)" unfolding c(3) res by (rule entries_filter[OF srt])
  from tm_finish[OF c1(2) _ c(2) this] obtain rest c2 t' where r: "cursor_suffix map_summary map_dim c1 = Some (rest, c2)"
    "stree_append map_summary nt rest = Some t'" "tm_inv t'" "tree_items t' = ?lo @ ?hi"
    using all srt by (auto simp: c(3))
  then show ?thesis using c(1) c1(1)
    by (simp add: tm_remove_range_def tm_list_def res filter_map o_def pair_of_def)
qed

lemma retain_loop_ok:
  "cursor_at map_dim map_summary c pre post \<Longrightarrow> entries_sorted (pre @ post) \<Longrightarrow> wf_tree map_summary nm \<Longrightarrow>
   entries_sorted (tree_items nm @ post) \<Longrightarrow>
   \<exists>t'. retain_loop P c nm = Some t' \<and> tm_inv t' \<and>
     tree_items t' = tree_items nm @ filter (\<lambda>e. P (me_key e) (me_value e)) post"
proof (induction post arbitrary: c pre nm)
  case Nil
  then show ?case using cursor_item_ok(1)[OF Nil(1)] by (subst retain_loop.simps) (simp add: tm_inv_def)
next
  case (Cons x post)
  obtain c' where c': "cursor_next map_dim c = Some c'" "cursor_at map_dim map_summary c' (pre @ [x]) post"
    using tm.cursor_next_at_ok[OF Cons.prems(1,2)] by auto
  have srt: "entries_sorted ((pre @ [x]) @ post)" using Cons.prems(2) by simp
  show ?case
  proof (cases "P (me_key x) (me_value x)")
    case True
    obtain nm' where nm': "stree_push map_summary nm x = Some nm'" "wf_tree map_summary nm'" "tree_items nm' = tree_items nm @ [x]"
      using tm.stree_push_ok[OF Cons.prems(3), of x] Cons.prems(4) by (auto simp: key_sorted_append key_sorted_Cons)
    have "entries_sorted (tree_items nm' @ post)" using Cons.prems(4) by (simp add: nm'(3))
    from Cons.IH[OF c'(2) srt nm'(2) this] show ?thesis
      using True c'(1) nm' cursor_item_ok(1)[OF Cons.prems(1)] by (subst retain_loop.simps) simp
  next
    case False
    have "entries_sorted (tree_items nm @ post)" using Cons.prems(4) by (simp add: key_sorted_append key_sorted_Cons)
    from Cons.IH[OF c'(2) srt Cons.prems(3) this] show ?thesis
      using False c'(1) cursor_item_ok(1)[OF Cons.prems(1)] by (subst retain_loop.simps) simp
  qed
qed

lemma tm_retain_ok:
  assumes "tm_inv t" "tm_room t"
  shows "\<exists>t'. tm_retain t P = Some t' \<and> tm_inv t' \<and> tm_list t' = filter (\<lambda>(k, v). P k v) (tm_list t)"
proof -
  have wf: "wf_tree map_summary t" "height t < STACK_CAP" and srt: "entries_sorted (tree_items t)"
    using assms by (simp_all add: tm_inv_def tm_room_def)
  have "cursor_start map_dim map_summary (cursor_new map_dim t)"
    using cursor_fresh_start[OF cursor_new_fresh[OF wf]] .
  then obtain c where c: "cursor_next map_dim (cursor_new map_dim t) = Some c" "cursor_at map_dim map_summary c [] (tree_items t)"
    using tm.cursor_next_start_ok[of "cursor_new map_dim t"] srt by auto
  then show ?thesis using retain_loop_ok[OF c(2), of "stree_new map_summary" P] srt
    by (auto simp: tm_retain_def tm_list_def filter_map o_def pair_of_def)
qed

text \<open>Extending by pairs with distinct keys updates the map with them.\<close>

lemma tm_extend_ok:
  assumes "tm_inv t" "tm_room t" "distinct (map fst kvs)"
  shows "\<exists>t'. tm_extend t kvs = Some t' \<and> tm_inv t' \<and> tm_map t' = tm_map t ++ map_of kvs"
proof -
  let ?es = "map (\<lambda>kv. Insert (entry_of kv)) kvs :: (('a, 'b) map_entry, 'a option) edit list"
  have keys: "edit_keys map_entry_key ?es = Some ` fst ` set kvs"
    by (simp add: edit_keys_def map_entry_key_def entry_of_def image_image)
  have "map (edit_key map_entry_key) ?es = map Some (map fst kvs)"
    by (simp add: map_entry_key_def entry_of_def)
  then have dist: "distinct (map (edit_key map_entry_key) ?es)" using assms(3) by (simp only: distinct_map) simp
  have wf: "wf_tree map_summary t" "height t < STACK_CAP" "entries_sorted (tree_items t)"
    using assms(1,2) by (simp_all add: tm_inv_def tm_room_def)
  obtain t' where t': "keyed_edit map_summary map_dim map_entry_key t ?es =
      Some (t', filter (\<lambda>x. map_entry_key x \<in> edit_keys map_entry_key ?es) (tree_items t))" "tm_inv t'"
    "set (tree_items t') = {x \<in> set (tree_items t). map_entry_key x \<notin> edit_keys map_entry_key ?es} \<union> set (inserted ?es)"
    using tm.keyed_edit_ok[OF wf dist] by (auto simp: tm_inv_def)
  have "tm_map t' = tm_map t ++ map_of kvs"
  proof (rule tm_map_eqI[OF t'(2)])
    fix k v
    have "map_of kvs k = Some v \<longleftrightarrow> (k, v) \<in> set kvs" using assms(3) by (rule map_of_eq_Some_iff)
    moreover have "map_of kvs k = None \<longleftrightarrow> k \<notin> fst ` set kvs" by (rule map_of_eq_None_iff)
    moreover have "(\<exists>e \<in> set (map entry_of kvs). me_key e = k \<and> me_value e = v) \<longleftrightarrow> (k, v) \<in> set kvs"
      by (force simp: entry_of_def)
    ultimately show "(\<exists>e \<in> set (tree_items t'). me_key e = k \<and> me_value e = v) \<longleftrightarrow> (tm_map t ++ map_of kvs) k = Some v"
      unfolding t'(3) keys inserted_map map_add_Some_iff tm_map_iff[OF assms(1)]
      by (auto simp: map_entry_key_def)
  qed
  then show ?thesis using t' by (simp add: tm_extend_def)
qed

lemma tm_from_ordered_entries_ok:
  assumes "sorted_wrt (<) (map fst kvs)"
  shows "\<exists>t. tm_from_ordered_entries kvs = Some t \<and> tm_inv t \<and> tm_list t = kvs"
proof -
  have "map me_key (map entry_of kvs) = map fst kvs" by (simp add: entry_of_def)
  then have "entries_sorted (map entry_of kvs)" using assms by (simp only: entries_sorted_keys)
  then show ?thesis using tm.stree_from_iter_ok[of "map entry_of kvs"]
    by (auto simp: tm_from_ordered_entries_def tm_inv_def tm_list_def pair_of_def entry_of_def map_idI)
qed

lemma tm_insert_tree_ok:
  assumes "tm_inv t" "tm_room t" "tm_inv u" "tm_room u"
  shows "\<exists>t'. tm_insert_tree t u = Some t' \<and> tm_inv t' \<and> tm_map t' = tm_map t ++ tm_map u"
proof -
  have "distinct (map fst (tm_list u))"
    using entries_distinct[of "tree_items u"] assms(3) by (simp add: tm_inv_def tm_list_def o_def pair_of_def)
  from tm_extend_ok[OF assms(1,2) this] show ?thesis
    using tm_iter_ok[OF assms(3,4)] by (simp add: tm_insert_tree_def tm_map_def)
qed

end
