(* ===== verification/TreeSet.thy ===== *)
theory TreeSet
  imports TreeMapProps
begin

text \<open>
  The ordered set of \<open>crates/sum_tree/src/tree_map.rs\<close> as a client of the ordered map: its
  operations are those of the map with unit values, and what they do to the set of elements
  follows from the contract \<open>ordered_map\<close> alone.
\<close>

section \<open>The contract of an ordered map\<close>

locale ordered_map =
  fixes lookup :: "'m \<Rightarrow> 'k \<Rightarrow> 'v option"
    and insert_op :: "'m \<Rightarrow> 'k \<Rightarrow> 'v \<Rightarrow> 'm option"
    and remove_op :: "'m \<Rightarrow> 'k \<Rightarrow> ('m \<times> 'v option) option"
    and inv :: "'m \<Rightarrow> bool" and room :: "'m \<Rightarrow> bool" and repr :: "'m \<Rightarrow> 'k \<rightharpoonup> 'v"
  assumes lookup_ok: "inv m \<Longrightarrow> lookup m k = repr m k"
    and insert_ok: "inv m \<Longrightarrow> room m \<Longrightarrow>
      \<exists>m'. insert_op m k v = Some m' \<and> inv m' \<and> repr m' = (repr m)(k \<mapsto> v)"
    and remove_ok: "inv m \<Longrightarrow> room m \<Longrightarrow>
      \<exists>m'. remove_op m k = Some (m', repr m k) \<and> inv m' \<and> repr m' = (repr m)(k := None)"

context ordered_map
begin

lemma lookup_insert:
  assumes "inv m" "room m" "insert_op m k v = Some m'"
  shows "lookup m' k' = (if k' = k then Some v else lookup m k')"
  using insert_ok[OF assms(1,2), of k v] assms by (auto simp: lookup_ok)

lemma lookup_remove:
  assumes "inv m" "room m" "remove_op m k = Some (m', old)"
  shows "old = lookup m k" "lookup m' k' = (if k' = k then None else lookup m k')"
  using remove_ok[OF assms(1,2), of k] assms by (auto simp: lookup_ok)

lemma dom_insert: "inv m \<Longrightarrow> room m \<Longrightarrow> \<exists>m'. insert_op m k v = Some m' \<and> inv m' \<and> dom (repr m') = insert k (dom (repr m))"
  using insert_ok[of m k v] by fastforce

lemma dom_remove: "inv m \<Longrightarrow> room m \<Longrightarrow>
  \<exists>m' old. remove_op m k = Some (m', old) \<and> (old \<noteq> None) = (k \<in> dom (repr m)) \<and> inv m' \<and> dom (repr m') = dom (repr m) - {k}"
  using remove_ok[of m k] by fastforce

end

interpretation omap: ordered_map tm_get tm_insert tm_remove tm_inv tm_room tm_map
  by unfold_locales (simp_all add: tm_get_ok tm_insert_ok tm_remove_ok)

section \<open>The set\<close>

definition ts_elems :: "'k tree_set \<Rightarrow> 'k set" where
  "ts_elems s = dom (tm_map s)"

lemma ts_contains_ok: "tm_inv s \<Longrightarrow> ts_contains s k \<longleftrightarrow> k \<in> ts_elems s"
  by (auto simp: ts_contains_def ts_elems_def omap.lookup_ok)

lemma ts_insert_ok:
  assumes "tm_inv s" "tm_room s"
  shows "\<exists>s'. ts_insert s k = Some s' \<and> tm_inv s' \<and> ts_elems s' = insert k (ts_elems s)"
  using omap.dom_insert[OF assms] by (simp add: ts_insert_def ts_elems_def)

lemma ts_remove_ok:
  assumes "tm_inv s" "tm_room s"
  shows "\<exists>s'. ts_remove s k = Some (s', k \<in> ts_elems s) \<and> tm_inv s' \<and> ts_elems s' = ts_elems s - {k}"
  using omap.dom_remove[OF assms, of k] by (auto simp: ts_remove_def ts_elems_def)

lemma ts_elems_list: "ts_elems s = set (map fst (tm_list s))"
  by (simp add: ts_elems_def tm_map_def dom_map_of_conv_image_fst)

lemma ts_iter_ok:
  assumes "tm_inv s" "tm_room s"
  shows "ts_iter s = Some (map fst (tm_list s))" "sorted_wrt (<) (map fst (tm_list s))"
    "set (map fst (tm_list s)) = ts_elems s"
  using tm_iter_ok[OF assms] assms(1)
  by (simp_all add: ts_iter_def ts_elems_list tm_inv_def entries_sorted_keys tm_list_def pair_of_def o_def)

lemma ts_from_ordered_entries_ok:
  assumes "sorted_wrt (<) ks"
  shows "\<exists>s. ts_from_ordered_entries ks = Some s \<and> tm_inv s \<and> ts_elems s = set ks"
  using tm_from_ordered_entries_ok[of "map (\<lambda>k. (k, ())) ks"] assms
  by (auto simp: ts_from_ordered_entries_def ts_elems_list o_def image_image)

lemma ts_extend_ok:
  assumes "tm_inv s" "tm_room s" "distinct ks"
  shows "\<exists>s'. ts_extend s ks = Some s' \<and> tm_inv s' \<and> ts_elems s' = ts_elems s \<union> set ks"
  using tm_extend_ok[OF assms(1,2), of "map (\<lambda>k. (k, ())) ks"] assms(3)
  by (auto simp: ts_extend_def ts_elems_def o_def dom_map_of_conv_image_fst image_image)

lemma ts_is_empty_ok: "tm_inv s \<Longrightarrow> ts_is_empty s \<longleftrightarrow> ts_elems s = {}"
  using wf_tree_is_empty[of map_summary s]
  by (auto simp: ts_is_empty_def tm_is_empty_def tm_inv_def ts_elems_list tm_list_def)

lemma ts_iter_from_ok:
  assumes "tm_inv s" "tm_room s"
  shows "ts_iter_from s k = Some (filter (\<lambda>k'. k \<le> k') (map fst (tm_list s)))"
  using tm_iter_from_ok[OF assms, of k] by (simp add: ts_iter_from_def filter_map o_def case_prod_beta')


end
