(* ===== verification/TreeClaims.thy ===== *)
theory TreeClaims
  imports TreeSet "HOL-Library.Multiset"
begin

text \<open>
  The properties of the tree, its cursors, the keyed operations and the ordered map, stated for
  every summary and dimension that keeps its contract. The witnesses apply them to a map of
  fourteen entries, a tree of height one. The second part is on batches of edits that repeat a key.
\<close>

section \<open>A sample map\<close>

definition sample :: "(nat, nat) tree_map" where
  "sample = the (tm_from_ordered_entries (map (\<lambda>k. (k, 10 * k)) [0..<14]))"

lemma sample_ok:
  "tm_inv sample" "tm_list sample = map (\<lambda>k. (k, 10 * k)) [0..<14]"
proof -
  have "sorted_wrt (<) (map fst (map (\<lambda>k. (k, 10 * k)) [0..<14 :: nat]))" by (simp add: o_def)
  from tm_from_ordered_entries_ok[OF this] show "tm_inv sample" "tm_list sample = map (\<lambda>k. (k, 10 * k)) [0..<14]"
    by (auto simp: sample_def)
qed

lemma sample_height: "height sample = 1"
  by code_simp

lemma sample_room: "tm_room sample"
  by (simp add: tm_room_def sample_height STACK_CAP_def)

lemma sample_items: "tree_items sample = map (\<lambda>k. entry_of (k, 10 * k)) [0..<14]"
  by code_simp

lemmas sample_wf = sample_ok(1)[unfolded tm_inv_def, THEN conjunct1]
  and sample_sorted = sample_ok(1)[unfolded tm_inv_def, THEN conjunct2]

lemmas sample_laws = tm.summary_laws_axioms tm.seek_laws_axioms tm.keyed_laws_axioms tm.dim_laws_axioms

lemma sample_target:
  "mono_target map_dim map_summary (key_target k) (tree_items sample)"
  by (rule tm.key_target_mono[OF sample_sorted tm.cmp_of_anti])

section \<open>The tree\<close>

text \<open>C1: Appending two well-formed trees never panics and yields a well-formed tree (uniform
  height, at most twelve children or items per node, every cached summary the sum of its items)
  of the items of the first followed by those of the second, at most one level higher than the
  higher of the two.\<close>

theorem stree_append_correct:
  assumes "summary_laws S ok" "wf_tree S a" "wf_tree S b" "ok (tree_items a @ tree_items b)"
  shows "\<exists>t. stree_append S a b = Some t \<and> wf_tree S t \<and> tree_items t = tree_items a @ tree_items b
     \<and> height t \<le> Suc (max (height a) (height b))"
  by (rule summary_laws.stree_append_ok[OF assms])

theorem stree_append_correct_witness:
  "\<exists>t. stree_append map_summary sample tm_new = Some t \<and> wf_tree map_summary t \<and>
     tree_items t = tree_items sample \<and> height t \<le> 2"
  using stree_append_correct[OF sample_laws(1) sample_wf tm_inv_new(1)[unfolded tm_inv_def, THEN conjunct1]]
    sample_sorted by (simp add: sample_height tm_new_def stree_new_def numeral_2_eq_2)

text \<open>C11: Building a tree from any number of items, sequentially or in parallel, gives the same
  well-formed tree of exactly those items, whose height is logarithmic in their number with base
  twelve.\<close>

theorem stree_from_iter_correct:
  assumes "summary_laws S ok" "ok xs"
  shows "\<exists>t. stree_from_iter S xs = Some t \<and> stree_from_par_iter S xs = Some t \<and> wf_tree S t \<and>
     tree_items t = xs \<and> (\<forall>m. length xs \<le> CAP ^ Suc m \<longrightarrow> height t \<le> m)"
  using summary_laws.stree_from_iter_ok[OF assms] summary_laws.stree_from_par_iter_eq[OF assms] by auto

theorem stree_from_iter_correct_witness:
  "\<exists>t. stree_from_iter map_summary [entry_of (1 :: nat, ''a''), entry_of (2, ''b'')] = Some t \<and>
     tree_items t = [entry_of (1, ''a''), entry_of (2, ''b'')]"
  using stree_from_iter_correct[OF sample_laws(1), of "[entry_of (1 :: nat, ''a''), entry_of (2, ''b'')]"]
  by (auto simp: key_sorted_def map_entry_key_def entry_of_def)

text \<open>A search for a target whose comparison never grows along the tree stops where a scan
  of the items stops: \<open>find\<close> returns the start and end position of the first item not passed,
  and \<open>find_with_prev\<close> also the item before it.\<close>

theorem stree_find_is_scan:
  assumes "seek_laws S ok D" "wf_tree S t" "ok (tree_items t)" "mono_target D S target (tree_items t)"
  shows "stree_find D t target bias =
      (case seek_scan D S target bias [] (tree_items t) of
         (p, []) \<Rightarrow> (dpos D S p, dpos D S p, None)
       | (p, x # r) \<Rightarrow> (dpos D S p, dpos D S (p @ [x]), Some x)) \<and>
    stree_find_with_prev D t target bias = Some
      (case seek_scan D S target bias [] (tree_items t) of
         (p, []) \<Rightarrow> (dpos D S p, dpos D S p, None)
       | (p, x # r) \<Rightarrow> (dpos D S p, dpos D S (p @ [x]), Some (last_opt p, x)))"
  using seek_laws.stree_find_ok[OF assms] seek_laws.stree_find_with_prev_ok[OF assms] by simp

theorem stree_find_is_scan_witness:
  "snd (snd (stree_find map_dim sample (key_target 5) Left)) = Some (entry_of (5, 50))"
  using stree_find_is_scan[OF sample_laws(2) sample_wf sample_sorted sample_target, of 5 Left]
  by (simp add: sample_items seek_scan_def passed_def passes_def dpos_map entry_of_def upt_rec)

text \<open>C12: A slice taken from a cursor, fresh or already moved, returns a well-formed tree of
  exactly the items between the cursor and the place where a scan stops, and leaves the cursor
  there; the suffix then returns the rest.\<close>

theorem cursor_slice_suffix:
  assumes "dim_laws S ok D" "cursor_ready D S c pre post" "ok (pre @ post)"
    "mono_target D S target (pre @ post)" "target (dpos D S pre) \<noteq> Less"
    "seek_scan D S target bias pre post = (p, r)"
  shows "\<exists>t c' u c''. cursor_slice S D target bias c = Some (t, c') \<and> wf_tree S t \<and> p = pre @ tree_items t \<and>
     cursor_at D S c' p r \<and> cursor_suffix S D c' = Some (u, c'') \<and> wf_tree S u \<and> tree_items u = r \<and>
     cursor_at D S c'' (pre @ post) []"
proof -
  obtain t c' where c': "cursor_slice S D target bias c = Some (t, c')" "wf_tree S t" "p = pre @ tree_items t"
    "cursor_at D S c' p r"
    using dim_laws.cursor_slice_ok[OF assms] by blast
  have "p @ r = pre @ post" using scan_append_items[OF assms(6)[unfolded seek_scan_def]] .
  then show ?thesis using dim_laws.cursor_suffix_ok[OF assms(1), of c' p r] c' assms(3)
    by (auto simp: cursor_ready_def)
qed

theorem cursor_slice_suffix_witness:
  "\<exists>t c'. cursor_slice map_summary map_dim (key_target 5) Left (cursor_new map_dim sample) = Some (t, c') \<and>
     tree_items t = map (\<lambda>k. entry_of (k, 10 * k)) [0..<5]"
proof -
  have sc: "seek_scan map_dim map_summary (key_target 5) Left [] (tree_items sample)
      = (map (\<lambda>k. entry_of (k, 10 * k)) [0..<5], map (\<lambda>k. entry_of (k, 10 * k)) [5..<14])"
    by (simp add: sample_items seek_scan_def passed_def passes_def dpos_map entry_of_def upt_rec)
  have "\<exists>t c' u c''. cursor_slice map_summary map_dim (key_target 5) Left (cursor_new map_dim sample) = Some (t, c') \<and>
     wf_tree map_summary t \<and> map (\<lambda>k. entry_of (k, 10 * k)) [0..<5] = [] @ tree_items t \<and>
     cursor_at map_dim map_summary c' (map (\<lambda>k. entry_of (k, 10 * k)) [0..<5]) (map (\<lambda>k. entry_of (k, 10 * k)) [5..<14]) \<and>
     cursor_suffix map_summary map_dim c' = Some (u, c'') \<and> wf_tree map_summary u \<and>
     tree_items u = map (\<lambda>k. entry_of (k, 10 * k)) [5..<14] \<and>
     cursor_at map_dim map_summary c'' ([] @ tree_items sample) []"
    by (rule cursor_slice_suffix[OF sample_laws(4) tm.key_start[OF sample_wf] _ _ _ sc])
      (use sample_sorted sample_target in \<open>simp_all add: sample_height STACK_CAP_def dpos_map\<close>)
  then show ?thesis by auto
qed

section \<open>Walking\<close>

text \<open>From a moved cursor, \<open>search_forward\<close> stops on the next item the filter accepts, or at
  the end, and \<open>search_backward\<close> on the previous one, or before the first item, if the filter
  accepts the summary of every run of items that contains an accepted one.\<close>

theorem cursor_search_correct:
  assumes "dim_laws S ok D" "cursor_at D S c pre post" "ok (pre @ post)" "filter_ok S F (pre @ post)"
    "bsplit S F pre = (p, r)"
  shows "(\<exists>c'. search_forward D F c = Some c' \<and>
       cursor_at D S c' (pre @ take 1 post @ takeWhile (rejected S F) (tl post)) (dropWhile (rejected S F) (tl post))) \<and>
     (\<exists>c'. search_backward D F c = Some c' \<and>
       (if p = [] then cursor_start D S c' else cursor_at D S c' (butlast p) (last p # r @ post)))"
  using dim_laws.search_forward_at_ok[OF assms(1-4)] dim_laws.search_backward_at_ok[OF assms] by blast

lemma sample_cursor:
  "\<exists>c. cursor_next map_dim (cursor_new map_dim sample) = Some c \<and>
     cursor_at map_dim map_summary c [] (tree_items sample)"
proof -
  have "height sample < STACK_CAP" by (simp add: sample_height STACK_CAP_def)
  from cursor_fresh_start[OF cursor_new_fresh[OF sample_wf this]] show ?thesis
    using tm.cursor_next_start_ok[of "cursor_new map_dim sample"] sample_sorted by auto
qed

theorem cursor_search_correct_witness:
  "\<exists>c c'. cursor_at map_dim map_summary c [] (tree_items sample) \<and>
     search_forward map_dim (\<lambda>s. True) c = Some c' \<and>
     cursor_at map_dim map_summary c' [entry_of (0, 0)] (tl (tree_items sample))"
proof -
  obtain c where c: "cursor_at map_dim map_summary c [] (tree_items sample)" using sample_cursor by blast
  have "tree_items sample = entry_of (0, 0) # tl (tree_items sample)" by (simp add: sample_items upt_rec)
  then show ?thesis
    using cursor_search_correct[OF sample_laws(4) c, of "\<lambda>_. True" "[]" "[]"] c sample_sorted
    by (auto simp: rejected_none) (metis append_Cons append_Nil take0 take_Suc_Cons)
qed

text \<open>\<open>next\<close> moves one item forward and a following \<open>prev\<close> returns to where the cursor was;
  \<open>next_item\<close> and \<open>prev_item\<close> read the two neighbours without moving.\<close>

theorem cursor_next_prev:
  assumes "dim_laws S ok D" "cursor_at D S c pre (x # post)" "ok (pre @ x # post)"
  shows "\<exists>c1 c2. cursor_next D c = Some c1 \<and> cursor_at D S c1 (pre @ [x]) post \<and>
     cursor_prev D c1 = Some c2 \<and> cursor_at D S c2 pre (x # post) \<and>
     cursor_item c = Some (Some x) \<and> cursor_next_item c = Some (first_opt post) \<and>
     cursor_prev_item c = Some (last_opt pre)"
proof -
  obtain c1 where c1: "cursor_next D c = Some c1" "cursor_at D S c1 (pre @ [x]) post"
    using dim_laws.cursor_next_at_ok[OF assms(1,2)] assms(3) by auto
  have "ok ((pre @ [x]) @ post)" using assms(3) by simp
  from dim_laws.cursor_prev_at_ok[OF assms(1) c1(2) this] show ?thesis
    using c1 cursor_item_ok(1)[OF assms(2)] cursor_next_item_ok[OF assms(2)] cursor_prev_item_ok[OF assms(2)]
    by auto
qed

theorem cursor_next_prev_witness:
  "\<exists>c c1 c2. cursor_next map_dim c = Some c1 \<and> cursor_prev map_dim c1 = Some c2 \<and>
     cursor_at map_dim map_summary c2 [] (tree_items sample)"
proof -
  obtain c where c: "cursor_at map_dim map_summary c [] (tree_items sample)" using sample_cursor by blast
  have e: "tree_items sample = entry_of (0, 0) # tl (tree_items sample)" by (simp add: sample_items upt_rec)
  show ?thesis
    using cursor_next_prev[OF sample_laws(4), of c "[]" "entry_of (0, 0)" "tl (tree_items sample)"] c sample_sorted
    unfolding e[symmetric] by auto
qed

text \<open>Each call of the iterator yields the next item of the tree; after the last one it
  returns nothing, and the traversal \<open>items\<close> returns the whole list.\<close>

theorem iter_yields_items:
  assumes "summary_laws S ok" "iter_at S it pre post" "ok (pre @ post)"
  shows "stree_items (it_tree it) = Some (pre @ post) \<and>
     (\<exists>it'. iter_next it = Some (first_opt post, it') \<and>
        (if post = [] then it_stack it' = [] else iter_at S it' (pre @ [hd post]) (tl post)))"
proof
  have wf: "wf_tree S (it_tree it)" "height (it_tree it) < STACK_CAP" "tree_items (it_tree it) = pre @ post"
    using assms(2) by (auto simp: iter_at_def)
  then show "stree_items (it_tree it) = Some (pre @ post)"
    using summary_laws.stree_items_ok[OF assms(1) wf(1,2)] assms(3) by simp
  show "\<exists>it'. iter_next it = Some (first_opt post, it') \<and>
        (if post = [] then it_stack it' = [] else iter_at S it' (pre @ [hd post]) (tl post))"
    using summary_laws.iter_next_ok[OF assms] by blast
qed

theorem iter_yields_items_witness:
  "\<exists>it'. iter_next (iter_new sample) = Some (Some (entry_of (0, 0)), it')"
  using iter_yields_items[OF sample_laws(1), of "iter_new sample" "[]" "tree_items sample"] sample_wf sample_sorted
  by (auto simp: iter_at_def iter_new_def sample_height STACK_CAP_def) (simp_all add: sample_items upt_rec)

text \<open>When the last item has been yielded, the lower bound of the iterator's \<open>size_hint\<close> is
  one although no item is left.\<close>

theorem size_hint_overestimates:
  assumes "iter_at S it pre []" "pre \<noteq> []" "it_stack it \<noteq> []"
  shows "iter_size_hint it = Some 1"
  by (rule iter_size_hint_last[OF assms])

theorem size_hint_overestimates_witness:
  "\<exists>it. iter_at map_summary it [entry_of (7 :: nat, ''x'')] [] \<and> iter_size_hint it = Some 1"
proof -
  let ?x = "entry_of (7 :: nat, ''x'')"
  let ?t = "Leaf (Some 7) [?x] [Some 7]"
  let ?it = "\<lparr>it_tree = ?t, it_stack = [entry ?t 0 ()]\<rparr>"
  have leaf: "wf_node map_summary ?t"
    by (simp add: sumof_map map_entry_key_def entry_of_def TREE_BASE_def)
       (simp add: map_summary_def map_entry_key_def)
  then have "iter_at map_summary ?it [?x] []"
    by (auto simp: iter_at_def wf_tree_def stack_at_def entry_def STACK_CAP_def intro!: ctx_root)
  then show ?thesis using size_hint_overestimates[of map_summary ?it "[?x]"] by auto
qed

section \<open>Keyed operations\<close>

text \<open>On a tree strictly sorted by key, inserting an item replaces the item with the same key
  (which is returned) or puts it in its place, and removing a key takes out the item with that
  key; \<open>get\<close> finds the item with the key.\<close>

theorem keyed_ops_correct:
  assumes "keyed_laws S key valid D" "wf_tree S t" "height t < STACK_CAP" "key_sorted key valid (tree_items t)" "valid x"
  shows "keyed_get D t k = list_find key k (tree_items t) \<and>
     (\<exists>t'. keyed_insert_or_replace S D key t x = Some (t', list_find key (key x) (tree_items t)) \<and>
        wf_tree S t' \<and> tree_items t' = list_insert key x (tree_items t)) \<and>
     (\<exists>t'. keyed_remove S D key t k = Some (t', list_find key k (tree_items t)) \<and>
        wf_tree S t' \<and> tree_items t' = list_remove key k (tree_items t))"
  using keyed_laws.keyed_get_ok[OF assms(1,2,4)] keyed_laws.keyed_insert_ok[OF assms]
    keyed_laws.keyed_remove_ok[OF assms(1-4)] by blast

theorem keyed_ops_correct_witness:
  "keyed_get map_dim sample (Some 3) = Some (entry_of (3, 30)) \<and>
   (\<exists>t'. keyed_remove map_summary map_dim map_entry_key sample (Some 3) = Some (t', Some (entry_of (3, 30))) \<and>
      tree_items t' = list_remove map_entry_key (Some 3) (tree_items sample))"
proof -
  have "list_find map_entry_key (Some 3) (tree_items sample) = Some (entry_of (3, 30))"
    by (simp add: sample_items list_find_def map_entry_key_def entry_of_def upt_rec)
  then show ?thesis
    using keyed_ops_correct[OF sample_laws(3) sample_wf _ sample_sorted TrueI, of "Some 3"]
    by (auto simp: sample_height STACK_CAP_def)
qed

text \<open>A batch of edits with distinct keys removes the items with those keys, adds the inserted
  ones, keeps the tree sorted, and returns the removed items in order.\<close>

theorem keyed_edit_correct:
  assumes "keyed_laws S key valid D" "wf_tree S t" "height t < STACK_CAP" "key_sorted key valid (tree_items t)"
    "distinct (map (edit_key key) edits)" "\<forall>x \<in> set (inserted edits). valid x"
  shows "\<exists>t'. keyed_edit S D key t edits =
       Some (t', filter (\<lambda>x. key x \<in> edit_keys key edits) (tree_items t)) \<and> wf_tree S t' \<and>
     key_sorted key valid (tree_items t') \<and>
     set (tree_items t') = {x \<in> set (tree_items t). key x \<notin> edit_keys key edits} \<union> set (inserted edits)"
  by (rule keyed_laws.keyed_edit_ok[OF assms])

theorem keyed_edit_correct_witness:
  "\<exists>t' rem. keyed_edit map_summary map_dim map_entry_key sample [Insert (entry_of (20, 1)), Remove (Some 3)] = Some (t', rem) \<and>
     rem = [entry_of (3, 30)] \<and> key_sorted map_entry_key (\<lambda>_. True) (tree_items t')"
  using keyed_edit_correct[OF sample_laws(3) sample_wf _ sample_sorted, of "[Insert (entry_of (20, 1)), Remove (Some 3)]"]
proof -
  let ?es = "[Insert (entry_of (20, 1)), Remove (Some 3)] :: ((nat, nat) map_entry, nat option) edit list"
  have d: "distinct (map (edit_key map_entry_key) ?es)" by (simp add: map_entry_key_def entry_of_def)
  have f: "filter (\<lambda>x. map_entry_key x \<in> edit_keys map_entry_key ?es) (tree_items sample) = [entry_of (3, 30)]"
    by (simp add: sample_items map_entry_key_def entry_of_def edit_keys_def upt_rec)
  have h: "height sample < STACK_CAP" by (simp add: sample_height STACK_CAP_def)
  show ?thesis using keyed_edit_correct[OF sample_laws(3) sample_wf h sample_sorted d] unfolding f by blast
qed

section \<open>The ordered map and set\<close>

text \<open>C13: The map refines a finite map: \<open>get\<close>, \<open>insert_or_replace\<close>, \<open>remove\<close> and \<open>update\<close> never
  panic, return what the finite map gives, and change it at the one key.\<close>

theorem tree_map_refines_map:
  assumes "tm_inv t" "tm_room t"
  shows "tm_get t k = tm_map t k \<and>
     (\<exists>t'. tm_insert_or_replace t k v = Some (t', tm_map t k) \<and> tm_inv t' \<and> tm_map t' = (tm_map t)(k \<mapsto> v)) \<and>
     (\<exists>t'. tm_remove t k = Some (t', tm_map t k) \<and> tm_inv t' \<and> tm_map t' = (tm_map t)(k := None)) \<and>
     (\<exists>t'. tm_update t k f = Some (t', map_option (snd \<circ> f) (tm_map t k)) \<and> tm_inv t' \<and>
        tm_map t' = (tm_map t)(k := map_option (fst \<circ> f) (tm_map t k)))"
  using tm_get_ok[OF assms(1)] tm_insert_or_replace_ok[OF assms] tm_remove_ok[OF assms] tm_update_ok[OF assms] by blast

theorem tree_map_refines_map_witness:
  "tm_get sample 3 = Some 30 \<and> (\<exists>t'. tm_remove sample 3 = Some (t', Some 30) \<and> tm_map t' 3 = None)"
proof -
  have "tm_map sample 3 = Some 30" by (simp add: tm_map_def sample_ok(2) upt_rec)
  then show ?thesis using tree_map_refines_map[OF sample_ok(1) sample_room, of 3] by fastforce
qed

text \<open>\<open>closest\<close> returns the entry with the greatest key not above the given one, \<open>iter_from\<close> the
  entries from a key on, \<open>retain\<close> keeps the entries of the predicate, and \<open>remove_range\<close> drops the
  entries between a start and an end that is not before it.\<close>

theorem tree_map_ranges:
  assumes "tm_inv t" "tm_room t"
    and "\<And>a b. a \<le> b \<Longrightarrow> cmp_rank (start_cmp b) \<le> cmp_rank (start_cmp a)"
    and "\<And>a b. a \<le> b \<Longrightarrow> cmp_rank (end_cmp b) \<le> cmp_rank (end_cmp a)"
    and "\<And>k. start_cmp k = Greater \<Longrightarrow> end_cmp k = Greater"
  shows "tm_closest t k = Some (last_opt (filter (\<lambda>(k', v). k' \<le> k) (tm_list t))) \<and>
     tm_iter_from t k = Some (filter (\<lambda>(k', v). k \<le> k') (tm_list t)) \<and>
     (\<exists>t'. tm_retain t P = Some t' \<and> tm_inv t' \<and> tm_list t' = filter (\<lambda>(k, v). P k v) (tm_list t)) \<and>
     (\<exists>t'. tm_remove_range t start_cmp end_cmp = Some t' \<and> tm_inv t' \<and>
        tm_list t' = filter (\<lambda>(k, v). start_cmp k = Greater \<or> end_cmp k \<noteq> Greater) (tm_list t))"
  using tm_closest_ok[OF assms(1,2)] tm_iter_from_ok[OF assms(1,2)] tm_retain_ok[OF assms(1,2)]
    tm_remove_range_ok[of t start_cmp end_cmp, OF assms] by blast

theorem tree_map_ranges_witness:
  "tm_closest sample 5 = Some (Some (5, 50)) \<and>
   (\<exists>t'. tm_remove_range sample (cmp_of 2) (cmp_of 12) = Some t' \<and>
      tm_list t' = [(0, 0), (1, 10), (12, 120), (13, 130)])"
proof -
  have anti: "cmp_rank (cmp_of k b) \<le> cmp_rank (cmp_of k a)" if "a \<le> b" for a b k :: nat
    using that by (auto simp: cmp_of_def)
  have lt: "cmp_of 2 k = Greater \<Longrightarrow> cmp_of 12 k = Greater" for k :: nat
    by (auto simp: cmp_of_def split: if_splits)
  have c: "last_opt (filter (\<lambda>(k', v). k' \<le> 5) (tm_list sample)) = Some (5, 50)"
    "filter (\<lambda>(k, v). cmp_of 2 k = Greater \<or> cmp_of 12 k \<noteq> Greater) (tm_list sample) =
       [(0, 0), (1, 10), (12, 120), (13, 130)]"
    by (simp_all add: sample_ok(2) upt_rec cmp_of_def)
  show ?thesis
    using tree_map_ranges[of sample "cmp_of 2" "cmp_of 12" 5, OF sample_ok(1) sample_room anti anti lt]
    unfolding c by blast
qed

text \<open>Extending a map by pairs with distinct keys, or by another map, overrides it with them.\<close>

theorem tree_map_extend:
  assumes "tm_inv t" "tm_room t" "distinct (map fst kvs)" "tm_inv u" "tm_room u"
  shows "(\<exists>t'. tm_extend t kvs = Some t' \<and> tm_inv t' \<and> tm_map t' = tm_map t ++ map_of kvs) \<and>
     (\<exists>t'. tm_insert_tree t u = Some t' \<and> tm_inv t' \<and> tm_map t' = tm_map t ++ tm_map u)"
  using tm_extend_ok[OF assms(1-3)] tm_insert_tree_ok[OF assms(1,2,4,5)] by blast

theorem tree_map_extend_witness:
  "\<exists>t'. tm_extend sample [(3, 0), (99, 1)] = Some t' \<and> tm_map t' 3 = Some 0 \<and> tm_map t' 99 = Some 1"
  using tree_map_extend[OF sample_ok(1) sample_room, of "[(3, 0), (99, 1)]" tm_new] tm_inv_new
  by fastforce

text \<open>The set operations act on the set of elements: \<open>contains\<close> is membership, \<open>insert\<close> and
  \<open>extend\<close> add, \<open>remove\<close> takes out and says whether the element was there, and the iterator
  yields the elements in increasing order.\<close>

theorem tree_set_refines_set:
  assumes "tm_inv s" "tm_room s" "distinct ks"
  shows "ts_contains s k = (k \<in> ts_elems s) \<and>
     (\<exists>s'. ts_insert s k = Some s' \<and> tm_inv s' \<and> ts_elems s' = insert k (ts_elems s)) \<and>
     (\<exists>s'. ts_remove s k = Some (s', k \<in> ts_elems s) \<and> tm_inv s' \<and> ts_elems s' = ts_elems s - {k}) \<and>
     (\<exists>s'. ts_extend s ks = Some s' \<and> tm_inv s' \<and> ts_elems s' = ts_elems s \<union> set ks) \<and>
     (\<exists>xs. ts_iter s = Some xs \<and> sorted_wrt (<) xs \<and> set xs = ts_elems s)"
  using ts_contains_ok[OF assms(1)] ts_insert_ok[OF assms(1,2)] ts_remove_ok[OF assms(1,2)]
    ts_extend_ok[OF assms] ts_iter_ok[OF assms(1,2)] by blast

theorem tree_set_refines_set_witness:
  "\<exists>s'. ts_insert (tm_new :: nat tree_set) 4 = Some s' \<and> ts_elems s' = {4}"
proof -
  have e: "ts_elems (tm_new :: nat tree_set) = {}" by (simp add: ts_elems_def tm_inv_new(2))
  show ?thesis using tree_set_refines_set[OF tm_inv_new(1,3), of "[1, 2 :: nat]" 4] unfolding e by auto
qed

section \<open>Edits with repeated keys\<close>

text \<open>Batches of edits that repeat a key. \<open>edit\<close> compares an edit with the item under the cursor, never with the
  items it has buffered, so that it stores every inserted item, whatever order the unstable sort gives to
  equal keys; the tree is then sorted, but not strictly. \<open>TreeMap::extend\<close> passes such batches on.\<close>

text \<open>What is needed of the summaries: they add up along all items, sorted or not.\<close>

locale keyed_repeats = keyed_laws S key valid D + any: seek_laws S "\<lambda>_. True" D
  for S :: "('a, 's) summary_ops" and key :: "'a \<Rightarrow> 'k::linorder" and valid :: "'a \<Rightarrow> bool" and D :: "('k, 's) dim_ops"

context keyed_repeats
begin

lemma edit_advance_all:
  assumes at: "cursor_at D S c pre post" and srt: "key_sorted key valid (pre @ post)"
    and nt: "wf_tree S nt" and pk: "\<forall>x \<in> set pre. key x \<le> k"
  shows "\<exists>c1 nt1 buf1. cursor_item c = Some (first_opt post) \<and>
     (if (case first_opt post of None \<Rightarrow> False | Some x \<Rightarrow> key x < k) then do {
          new_tree \<leftarrow> stree_extend S nt buf;
          (slice, c) \<leftarrow> cursor_slice S D (cmp_of k) Left c;
          new_tree \<leftarrow> stree_append S new_tree slice;
          Some (c, new_tree, [])
        } else Some (c, nt, buf)) = Some (c1, nt1, buf1) \<and> wf_tree S nt1 \<and>
     tree_items nt1 @ buf1 = tree_items nt @ buf @ filter (\<lambda>x. key x < k) post \<and>
     cursor_at D S c1 (pre @ filter (\<lambda>x. key x < k) post) (filter (\<lambda>x. k \<le> key x) post)"
proof (cases "case first_opt post of None \<Rightarrow> False | Some x \<Rightarrow> key x < k")
  case True
  obtain nt0 where nt0: "stree_extend S nt buf = Some nt0" "wf_tree S nt0" "tree_items nt0 = tree_items nt @ buf"
    using any.stree_extend_ok[OF nt TrueI] by blast
  obtain sl c1 where sl: "cursor_slice S D (cmp_of k) Left c = Some (sl, c1)" "wf_tree S sl"
    "tree_items sl = filter (\<lambda>x. key x < k) post"
    "cursor_at D S c1 (pre @ filter (\<lambda>x. key x < k) post) (filter (\<lambda>x. k \<le> key x) post)"
    using key_slice_ok[of c pre post k] at srt pk by (auto simp: cursor_ready_def)
  obtain nt1 where "stree_append S nt0 sl = Some nt1" "wf_tree S nt1"
    "tree_items nt1 = tree_items nt @ buf @ filter (\<lambda>x. key x < k) post"
    using any.stree_append_ok[OF nt0(2) sl(2) TrueI] nt0(3) sl(3) by auto
  then show ?thesis using True nt0(1) sl cursor_item_ok(1)[OF at] by auto
next
  case False
  have "key_sorted key valid post" using srt by (simp add: key_sorted_append)
  then have "\<forall>x \<in> set post. k \<le> key x"
    using False by (cases post) (auto simp: key_sorted_Cons not_less intro: less_imp_le le_less_trans)
  then have "filter (\<lambda>x. key x < k) post = []" "filter (\<lambda>x. k \<le> key x) post = post"
    by (auto intro!: filter_False filter_True simp: not_less)
  then show ?thesis using False nt at cursor_item_ok(1)[OF at] by auto
qed

text \<open>The loop keeps the items whose keys are not edited and adds every inserted item.\<close>

lemma edit_loop_all:
  assumes "sorted (map (edit_key key) es)"
    and "cursor_at D S c pre post" "key_sorted key valid (pre @ post)" "wf_tree S nt"
    and "sorted (map key (tree_items nt @ buf @ post))"
    and "\<forall>k \<in> edit_keys key es. \<forall>x \<in> set (tree_items nt @ buf) \<union> set pre. key x \<le> k"
  shows "\<exists>c' nt' buf' pre' post' removed'. edit_loop S D key es c nt buf removed = Some (c', nt', buf', removed') \<and>
     cursor_at D S c' pre' post' \<and> pre' @ post' = pre @ post \<and> wf_tree S nt' \<and>
     sorted (map key (tree_items nt' @ buf' @ post')) \<and>
     mset (tree_items nt' @ buf' @ post') = mset (tree_items nt @ buf) +
       mset (filter (\<lambda>x. key x \<notin> edit_keys key es) post) + mset (inserted es)"
  using assms
proof (induction es arbitrary: c pre post nt buf removed)
  case Nil
  then show ?case
    by (intro exI[of _ c] exI[of _ nt] exI[of _ buf] exI[of _ pre] exI[of _ post] exI[of _ removed]) auto
next
  case (Cons e es)
  define k where "k = edit_key key e"
  let ?lo = "filter (\<lambda>x. key x < k) post" and ?eq = "filter (\<lambda>x. key x = k) post" and ?hi = "filter (\<lambda>x. k < key x) post"
  have srt: "key_sorted key valid post" using Cons.prems(3) by (simp add: key_sorted_append)
  have later: "\<forall>k' \<in> edit_keys key es. k \<le> k'" and es: "sorted (map (edit_key key) es)"
    using Cons.prems(1) by (auto simp: edit_keys_def k_def)
  have pk: "\<forall>x \<in> set (tree_items nt @ buf) \<union> set pre. key x \<le> k" using Cons.prems(6) by (simp add: k_def)
  obtain c1 nt1 buf1 where 1: "cursor_item c = Some (first_opt post)"
    "(if (case first_opt post of None \<Rightarrow> False | Some x \<Rightarrow> key x < k) then do {
          new_tree \<leftarrow> stree_extend S nt buf;
          (slice, c) \<leftarrow> cursor_slice S D (cmp_of k) Left c;
          new_tree \<leftarrow> stree_append S new_tree slice;
          Some (c, new_tree, [])
        } else Some (c, nt, buf)) = Some (c1, nt1, buf1)" "wf_tree S nt1"
    "tree_items nt1 @ buf1 = tree_items nt @ buf @ ?lo"
    "cursor_at D S c1 (pre @ ?lo) (filter (\<lambda>x. k \<le> key x) post)"
    using edit_advance_all[OF Cons.prems(2-4), of k] pk by blast
  have s1: "key_sorted key valid ((pre @ ?lo) @ filter (\<lambda>x. k \<le> key x) post)"
    using Cons.prems(3) filter_less_ge[OF srt, of k] by simp
  obtain c2 where 2: "take_key D key k c1 = Some (list_find key k post, c2)"
    "cursor_at D S c2 ((pre @ ?lo) @ ?eq) ?hi"
    using take_key_ok[OF 1(5) srt s1] by blast
  have split: "?lo @ ?eq @ ?hi = post" by (rule filter_le_split[OF srt])
  let ?buf2 = "case e of Insert item \<Rightarrow> buf1 @ [item] | Remove k \<Rightarrow> buf1"
  let ?new = "case e of Insert item \<Rightarrow> [item] | Remove k \<Rightarrow> []"
  let ?rm2 = "case list_find key k post of None \<Rightarrow> removed | Some x \<Rightarrow> removed @ [x]"
  have L2: "tree_items nt1 @ ?buf2 = tree_items nt @ buf @ ?lo @ ?new" using 1(4) by (cases e) auto
  have newk: "\<forall>x \<in> set ?new. key x = k" "sorted (map key ?new)" by (cases e; simp add: k_def)+
  have "sorted (map key (tree_items nt @ buf @ ?lo))" "sorted (map key ?hi)"
    using Cons.prems(5) split by (auto simp: sorted_append sorted_filter)
  then have s2: "sorted (map key ((tree_items nt @ buf @ ?lo @ ?new) @ ?hi))"
    using pk newk by (auto simp: sorted_append intro: order_trans less_imp_le)
  have IH: "\<exists>c' nt' buf' pre' post' removed'. edit_loop S D key es c2 nt1 ?buf2 ?rm2 = Some (c', nt', buf', removed') \<and>
     cursor_at D S c' pre' post' \<and> pre' @ post' = ((pre @ ?lo) @ ?eq) @ ?hi \<and> wf_tree S nt' \<and>
     sorted (map key (tree_items nt' @ buf' @ post')) \<and>
     mset (tree_items nt' @ buf' @ post') = mset (tree_items nt1 @ ?buf2) +
       mset (filter (\<lambda>x. key x \<notin> edit_keys key es) ?hi) + mset (inserted es)"
  proof (rule Cons.IH[OF es 2(2) _ 1(3)])
    show "key_sorted key valid (((pre @ ?lo) @ ?eq) @ ?hi)" using Cons.prems(3) split by simp
    show "sorted (map key (tree_items nt1 @ ?buf2 @ ?hi))" using s2 unfolding L2[symmetric] by simp
    show "\<forall>k \<in> edit_keys key es. \<forall>x \<in> set (tree_items nt1 @ ?buf2) \<union> set ((pre @ ?lo) @ ?eq). key x \<le> k"
    proof (intro ballI)
      fix k' x assume k': "k' \<in> edit_keys key es" and x: "x \<in> set (tree_items nt1 @ ?buf2) \<union> set ((pre @ ?lo) @ ?eq)"
      have "key x \<le> k" using x pk newk(1) unfolding L2 by (auto intro: less_imp_le)
      then show "key x \<le> k'" using later k' by (blast intro: order_trans)
    qed
  qed
  have kept: "mset (filter (\<lambda>x. key x \<notin> edit_keys key (e # es)) post) = mset ?lo + mset (filter (\<lambda>x. key x \<notin> edit_keys key es) ?hi)"
  proof -
    have "filter (\<lambda>x. key x \<notin> edit_keys key (e # es)) ?lo = ?lo"
      by (rule filter_True) (use later in \<open>auto simp: k_def[symmetric]\<close>)
    moreover have "filter (\<lambda>x. key x \<notin> edit_keys key (e # es)) ?eq = []"
      by (rule filter_False) (simp add: k_def[symmetric])
    moreover have "filter (\<lambda>x. key x \<notin> edit_keys key (e # es)) ?hi = filter (\<lambda>x. key x \<notin> edit_keys key es) ?hi"
      by (rule filter_cong) (auto simp: k_def[symmetric])
    ultimately have "filter (\<lambda>x. key x \<notin> edit_keys key (e # es)) (?lo @ ?eq @ ?hi) = ?lo @ filter (\<lambda>x. key x \<notin> edit_keys key es) ?hi"
      by (simp only: filter_append append_Nil)
    then show ?thesis unfolding split by simp
  qed
  have "mset (tree_items nt1 @ ?buf2) + mset (filter (\<lambda>x. key x \<notin> edit_keys key es) ?hi) + mset (inserted es)
      = mset (tree_items nt @ buf) + mset (filter (\<lambda>x. key x \<notin> edit_keys key (e # es)) post) + mset (inserted (e # es))"
    unfolding L2 kept by (cases e) simp_all
  moreover have "edit_loop S D key (e # es) c nt buf removed = edit_loop S D key es c2 nt1 ?buf2 ?rm2"
    using 1(1,2) 2(1) by (simp add: k_def[symmetric] Let_def)
  moreover have "((pre @ ?lo) @ ?eq) @ ?hi = pre @ post" using split by simp
  ultimately show ?case using IH by simp
qed

lemma keyed_edit_all:
  assumes "wf_tree S t" "height t < STACK_CAP" "key_sorted key valid (tree_items t)" "sorted (map (edit_key key) es)"
  shows "\<exists>t' removed. keyed_edit_sorted S D key t es = Some (t', removed) \<and> wf_tree S t' \<and> sorted (map key (tree_items t')) \<and>
     mset (tree_items t') = mset (filter (\<lambda>x. key x \<notin> edit_keys key es) (tree_items t)) + mset (inserted es)"
proof -
  let ?xs = "tree_items t"
  have "passes Left (cmp_of (dm_zero D) (key x)) = False" for x
    using zero_least[of "key x"] by (simp add: passes_Left_key not_less)
  then have sc: "seek_scan D S (cmp_of (dm_zero D)) Left [] ?xs = ([], ?xs)"
    using key_scan[of "[]" ?xs "cmp_of (dm_zero D)" Left] assms(3) by (cases ?xs) simp_all
  obtain b c where c: "cursor_seek D (cmp_of (dm_zero D)) Left (cursor_new D t) = Some (b, c)" "cursor_at D S c [] ?xs"
    using cursor_seek_ok[of "cursor_new D t" "cmp_of (dm_zero D)" Left "[]" ?xs]
      key_target_mono[OF assms(3), of "cmp_of (dm_zero D)", OF cmp_of_anti] assms(1-3) sc
    by (auto simp: cmp_of_def)
  have s: "sorted (map key ?xs)" using assms(3) by (auto simp: key_sorted_def sorted_map intro: sorted_wrt_mono_rel[rotated])
  from edit_loop_all[OF assms(4) c(2), of "stree_new S" "[]" "[]"] assms(3) s
  obtain c' nt buf pre' post' removed where l: "edit_loop S D key es c (stree_new S) [] [] = Some (c', nt, buf, removed)"
     "cursor_at D S c' pre' post'" "pre' @ post' = ?xs" "wf_tree S nt" "sorted (map key (tree_items nt @ buf @ post'))"
     "mset (tree_items nt @ buf @ post') = mset (filter (\<lambda>x. key x \<notin> edit_keys key es) ?xs) + mset (inserted es)" by auto
  obtain nt1 where nt1: "stree_extend S nt buf = Some nt1" "wf_tree S nt1" "tree_items nt1 = tree_items nt @ buf"
    using any.stree_extend_ok[OF l(4) TrueI] by blast
  obtain rest c2 where rest: "cursor_suffix S D c' = Some (rest, c2)" "wf_tree S rest" "tree_items rest = post'"
    using cursor_suffix_ok[of c' pre' post'] l(2,3) assms(3) by (auto simp: cursor_ready_def)
  obtain t' where t': "stree_append S nt1 rest = Some t'" "wf_tree S t'" "tree_items t' = tree_items nt @ buf @ post'"
    using any.stree_append_ok[OF nt1(2) rest(2) TrueI] nt1(3) rest(3) by auto
  show ?thesis using c(1) l(1,5,6) nt1(1) rest(1) t' by (simp add: keyed_edit_sorted_def)
qed

end

interpretation tmr: keyed_repeats map_summary map_entry_key "\<lambda>_. True" map_dim
  by (unfold_locales; (auto simp: sumof_map dpos_map)?; simp add: map_summary_def map_dim_def)

section \<open>Removing one of several entries with a key\<close>

lemma map_scan:
  "\<forall>x \<in> set xs. me_key x < k \<Longrightarrow> me_key e = k \<Longrightarrow>
   seek_scan map_dim map_summary (key_target k) Left pre (xs @ e # ys) = (pre @ xs, e # ys)"
proof (induction xs arbitrary: pre)
  case (Cons x xs)
  then show ?case using Cons.IH[of "pre @ [x]"] by (simp add: seek_scan_def passed_def passes_def dpos_map)
qed (simp add: seek_scan_def passed_def passes_def dpos_map)

lemma map_target_mono:
  assumes "sorted (map me_key xs)"
  shows "mono_target map_dim map_summary (key_target k) xs"
  unfolding mono_target_def
proof (intro allI impI)
  fix p q r assume a: "xs = p @ q @ r \<and> p \<noteq> []"
  have "me_key (last p) \<le> me_key (last (p @ q))"
    using a assms by (cases q rule: rev_cases) (auto simp: sorted_append)
  then show "cmp_rank (key_target k (dpos map_dim map_summary (p @ q))) \<le> cmp_rank (key_target k (dpos map_dim map_summary p))"
    using a by (auto simp: dpos_map cmp_of_def)
qed

lemma tm_remove_one:
  assumes wf: "wf_tree map_summary t" "height t < STACK_CAP" and srt: "sorted (map me_key (tree_items t))"
    and k: "k \<in> me_key ` set (tree_items t)"
  shows "\<exists>t' e. tm_remove t k = Some (t', Some (me_value e)) \<and> e \<in> set (tree_items t) \<and> me_key e = k \<and>
     mset (tree_items t') = mset (tree_items t) - {#e#}"
proof -
  obtain lo e hi where s: "tree_items t = lo @ e # hi" "me_key e = k" "\<forall>x \<in> set lo. me_key x \<noteq> k"
    using k split_list_first_prop[of "tree_items t" "\<lambda>x. me_key x = k"] by auto
  then have lo: "\<forall>x \<in> set lo. me_key x < k" using srt by (fastforce simp: sorted_append)
  have cr: "cursor_ready map_dim map_summary (cursor_new map_dim t) [] (lo @ e # hi)"
    using cursor_new_fresh[OF wf, of map_dim] by (simp add: cursor_ready_def cursor_new_def s(1))
  have mono: "mono_target map_dim map_summary (key_target k) ([] @ lo @ e # hi)" using map_target_mono[OF srt] s(1) by simp
  have nl: "key_target k (dpos map_dim map_summary []) \<noteq> Less" by (simp add: dpos_map)
  obtain nt c where c: "cursor_slice map_summary map_dim (key_target k) Left (cursor_new map_dim t) = Some (nt, c)"
    "wf_tree map_summary nt" "lo = tree_items nt" "cursor_at map_dim map_summary c lo (e # hi)"
    using tmr.any.cursor_slice_ok[OF cr TrueI mono nl map_scan[OF lo s(2), of "[]"], unfolded append_Nil] by blast
  have it: "cursor_item c = Some (Some e)" using cursor_item_ok(1)[OF c(4)] by simp
  have ce: "cursor_end map_dim c = Some (Some k)"
    using cursor_item_ok(2)[OF c(4)] s(2) by (simp add: cursor_end_def map_dim_def map_summary_def map_entry_key_def)
  obtain c1 where c1: "cursor_next map_dim c = Some c1" "cursor_at map_dim map_summary c1 (lo @ [e]) hi"
    using tmr.any.cursor_next_at_ok[OF c(4) TrueI] by auto
  obtain rest c2 where r: "cursor_suffix map_summary map_dim c1 = Some (rest, c2)" "wf_tree map_summary rest" "tree_items rest = hi"
    using tmr.any.cursor_suffix_ok[OF _ TrueI, of c1 "lo @ [e]" hi] c1(2) by (auto simp: cursor_ready_def)
  obtain t' where t': "stree_append map_summary nt rest = Some t'" "tree_items t' = lo @ hi"
    using tmr.any.stree_append_ok[OF c(2) r(2) TrueI] c(3) r(3) by auto
  have "tm_remove t k = Some (t', Some (me_value e))"
    using c(1) ce it c1(1) r(1) t'(1) by (simp add: tm_remove_def)
  then show ?thesis using s t'(2) by auto
qed

section \<open>Extending a map by repeated keys\<close>

text \<open>The entries of a map that was extended by pairs: those with other keys, and every pair.\<close>

definition extended_by :: "('k::linorder, 'v) tree_map \<Rightarrow> ('k \<times> 'v) list \<Rightarrow> ('k, 'v) tree_map \<Rightarrow> bool" where
  "extended_by t kvs t' \<longleftrightarrow> wf_tree map_summary t' \<and> sorted (map fst (tm_list t')) \<and>
     mset (tm_list t') = mset (filter (\<lambda>kv. fst kv \<notin> fst ` set kvs) (tm_list t)) + mset kvs"

abbreviation insert_pairs :: "('k \<times> 'v) list \<Rightarrow> (('k, 'v) map_entry, 'k option) edit list" where
  "insert_pairs kvs \<equiv> map (\<lambda>kv. Insert (entry_of kv)) kvs"

lemma sorted_map_mono: "sorted (map f xs) \<Longrightarrow> (\<And>x y. f x \<le> f y \<Longrightarrow> g x \<le> g y) \<Longrightarrow> sorted (map g xs)"
  by (induction xs) auto

lemma insort_key_map: "insort_key f (g x) (map g xs) = map g (insort_key (\<lambda>y. f (g y)) x xs)"
  by (induction xs) auto

lemma sort_key_map: "sort_key f (map g xs) = map g (sort_key (\<lambda>y. f (g y)) xs)"
  by (induction xs) (simp_all add: insort_key_map)

lemma extend_sorted_ok:
  assumes "tm_inv t" "tm_room t" "mset es = mset kvs" "sorted (map fst es)"
  shows "\<exists>t' removed. keyed_edit_sorted map_summary map_dim map_entry_key t (insert_pairs es) = Some (t', removed) \<and> extended_by t kvs t'"
proof -
  let ?es = "insert_pairs es"
  have eq: "map (edit_key map_entry_key) ?es = map (\<lambda>kv. Some (fst kv)) es" by (simp add: map_entry_key_def entry_of_def)
  have "sorted (map (edit_key map_entry_key) ?es)" unfolding eq by (rule sorted_map_mono[OF assms(4)]) simp
  from tmr.keyed_edit_all[OF _ _ _ this, of t] assms(1,2)
  obtain t' removed where t': "keyed_edit_sorted map_summary map_dim map_entry_key t ?es = Some (t', removed)" "wf_tree map_summary t'"
    "sorted (map map_entry_key (tree_items t'))"
    "mset (tree_items t') = mset (filter (\<lambda>x. map_entry_key x \<notin> edit_keys map_entry_key ?es) (tree_items t)) + mset (inserted ?es)"
    by (auto simp: tm_inv_def tm_room_def)
  have "set es = set kvs" using assms(3) by (metis set_mset_mset)
  then have K: "(\<lambda>x. map_entry_key x \<notin> edit_keys map_entry_key ?es) = (\<lambda>x. fst (pair_of x) \<notin> fst ` set kvs)"
    by (auto simp: fun_eq_iff edit_keys_def map_entry_key_def entry_of_def pair_of_def image_iff)
  have "mset (tree_items t') = mset (filter (\<lambda>x. fst (pair_of x) \<notin> fst ` set kvs) (tree_items t) @ map entry_of es)"
    using t'(4) unfolding K inserted_map by simp
  from arg_cong[OF this, of "image_mset pair_of"]
  have "mset (map pair_of (tree_items t')) =
      mset (map pair_of (filter (\<lambda>x. fst (pair_of x) \<notin> fst ` set kvs) (tree_items t))) + mset (map pair_of (map entry_of es))"
    by (simp only: mset_map mset_append image_mset_union)
  moreover have "map pair_of (map entry_of es) = es" by (simp add: pair_of_def entry_of_def map_idI)
  ultimately have "mset (map pair_of (tree_items t')) =
      mset (map pair_of (filter (\<lambda>x. fst (pair_of x) \<notin> fst ` set kvs) (tree_items t))) + mset es" by (simp only:)
  then have "mset (tm_list t') = mset (filter (\<lambda>kv. fst kv \<notin> fst ` set kvs) (tm_list t)) + mset kvs"
    unfolding tm_list_def filter_map o_def assms(3) .
  moreover have "sorted (map fst (tm_list t'))"
    using sorted_map_mono[OF t'(3), of "fst \<circ> pair_of"] by (simp add: tm_list_def pair_of_def map_entry_key_def)
  ultimately show ?thesis using t'(1,2) by (auto simp: extended_by_def)
qed

lemma extended_inv: "extended_by t kvs t' \<Longrightarrow> tm_inv t \<Longrightarrow> tm_inv t' \<longleftrightarrow> distinct (map fst kvs)"
proof -
  assume e: "extended_by t kvs t'" and t: "tm_inv t"
  have ks: "map me_key (tree_items u) = map fst (tm_list u)" for u :: "('a, 'b) tree_map"
    by (simp add: tm_list_def pair_of_def)
  have "mset (map fst (tm_list t')) = mset (map fst (filter (\<lambda>kv. fst kv \<notin> fst ` set kvs) (tm_list t) @ kvs))"
    using e unfolding extended_by_def mset_map by simp
  then have "distinct (map fst (tm_list t')) \<longleftrightarrow> distinct (map fst (filter (\<lambda>kv. fst kv \<notin> fst ` set kvs) (tm_list t) @ kvs))"
    by (rule mset_eq_imp_distinct_iff)
  moreover have "distinct (map fst (tm_list t))" using entries_distinct[of "tree_items t"] t ks[of t] by (simp add: tm_inv_def)
  then have "distinct (map fst (filter (\<lambda>kv. fst kv \<notin> fst ` set kvs) (tm_list t)))" by (rule distinct_map_filter)
  ultimately have "distinct (map fst (tm_list t')) \<longleftrightarrow> distinct (map fst kvs)" by auto
  then show ?thesis using e ks[of t'] by (simp add: tm_inv_def entries_sorted_keys extended_by_def strict_sorted_iff)
qed

lemma extended_remove:
  assumes "extended_by t kvs t'" "tm_room t'" "k \<in> fst ` set kvs"
  shows "\<exists>t'' v. tm_remove t' k = Some (t'', Some v) \<and> (k, v) \<in> set kvs \<and> mset (tm_list t'') = mset (tm_list t') - {#(k, v)#}"
proof -
  have wf: "wf_tree map_summary t'" "height t' < STACK_CAP" "sorted (map me_key (tree_items t'))"
    using assms(1,2) by (simp_all add: extended_by_def tm_room_def tm_list_def pair_of_def o_def)
  have set: "set (tm_list t') = set (filter (\<lambda>kv. fst kv \<notin> fst ` set kvs) (tm_list t)) \<union> set kvs"
    using assms(1) unfolding extended_by_def by (metis set_mset_mset set_mset_union)
  have "k \<in> fst ` set (tm_list t')" using assms(3) unfolding set by auto
  then have "k \<in> me_key ` set (tree_items t')" by (force simp: tm_list_def pair_of_def)
  from tm_remove_one[OF wf this] obtain t'' e where e: "tm_remove t' k = Some (t'', Some (me_value e))" "e \<in> set (tree_items t')"
    "me_key e = k" "mset (tree_items t'') = mset (tree_items t') - {#e#}" by blast
  have "pair_of e \<in> set (tm_list t')" using e(2) by (simp add: tm_list_def)
  then have "(k, me_value e) \<in> set kvs" using assms(3) e(3) unfolding set by (auto simp: pair_of_def)
  moreover have "mset (tm_list t'') = mset (tm_list t') - {#(k, me_value e)#}"
    using e by (simp add: tm_list_def pair_of_def image_mset_Diff)
  ultimately show ?thesis using e(1) by blast
qed

text \<open>C15: Extending a map stores every pair, also those that repeat a key, in whatever order the unstable sort
  puts equal keys: the entries are those of the map with other keys and all the pairs, sorted by key. So
  the invariant of maps holds afterwards exactly if no key was repeated, and removing a key takes out one of its
  entries only.\<close>

theorem extend_stores_every_pair:
  assumes "tm_inv t" "tm_room t"
  shows "(\<exists>t'. tm_extend t kvs = Some t' \<and> extended_by t kvs t') \<and>
    (\<forall>es. mset es = mset kvs \<and> sorted (map fst es) \<longrightarrow>
      (\<exists>t' removed. keyed_edit_sorted map_summary map_dim map_entry_key t (insert_pairs es) = Some (t', removed) \<and>
        extended_by t kvs t' \<and> (tm_inv t' \<longleftrightarrow> distinct (map fst kvs)) \<and>
        (tm_room t' \<longrightarrow> (\<forall>k \<in> fst ` set kvs. \<exists>t'' v. tm_remove t' k = Some (t'', Some v) \<and> (k, v) \<in> set kvs \<and>
           mset (tm_list t'') = mset (tm_list t') - {#(k, v)#}))))"
proof (intro conjI allI impI)
  let ?key = "\<lambda>kv. edit_key map_entry_key (Insert (entry_of kv))"
  have "sorted (map ?key (sort_key ?key kvs))" by simp
  then have "sorted (map fst (sort_key ?key kvs))"
    by (rule sorted_map_mono) (simp add: map_entry_key_def entry_of_def)
  from extend_sorted_ok[OF assms _ this, of kvs]
  obtain t' removed where t': "keyed_edit_sorted map_summary map_dim map_entry_key t (insert_pairs (sort_key ?key kvs)) = Some (t', removed)"
    "extended_by t kvs t'" by auto
  show "\<exists>t'. tm_extend t kvs = Some t' \<and> extended_by t kvs t'"
  proof (cases "kvs = []")
    case True
    then show ?thesis using assms(1)
      by (simp add: tm_extend_def keyed_edit_def extended_by_def tm_inv_def entries_sorted_keys tm_list_def pair_of_def strict_sorted_iff o_def)
  next
    case False
    then show ?thesis using t' by (simp add: tm_extend_def keyed_edit_def sort_key_map)
  qed
next
  fix es :: "('a \<times> 'b) list" assume es: "mset es = mset kvs \<and> sorted (map fst es)"
  obtain t' removed where t': "keyed_edit_sorted map_summary map_dim map_entry_key t (insert_pairs es) = Some (t', removed)"
    "extended_by t kvs t'" using extend_sorted_ok[OF assms, of es kvs] es by blast
  then show "\<exists>t' removed. keyed_edit_sorted map_summary map_dim map_entry_key t (insert_pairs es) = Some (t', removed) \<and>
        extended_by t kvs t' \<and> (tm_inv t' \<longleftrightarrow> distinct (map fst kvs)) \<and>
        (tm_room t' \<longrightarrow> (\<forall>k \<in> fst ` set kvs. \<exists>t'' v. tm_remove t' k = Some (t'', Some v) \<and> (k, v) \<in> set kvs \<and>
           mset (tm_list t'') = mset (tm_list t') - {#(k, v)#}))"
    using extended_inv[OF t'(2) assms(1)] extended_remove[OF t'(2)] by blast
qed

theorem extend_stores_every_pair_witness:
  "\<exists>t'. tm_extend tm_new [(1, ''a''), (1 :: nat, ''b'')] = Some t' \<and> mset (tm_list t') = {#(1, ''a''), (1, ''b'')#} \<and> \<not> tm_inv t'"
proof -
  let ?kvs = "[(1, ''a''), (1 :: nat, ''b'')]"
  obtain t' where t': "tm_extend tm_new ?kvs = Some t'" "extended_by tm_new ?kvs t'"
    using extend_stores_every_pair[OF tm_inv_new(1,3), of ?kvs] by blast
  have "tm_list (tm_new :: (nat, string) tree_map) = []" by (simp add: tm_list_def tm_new_def)
  then have "mset (tm_list t') = {#(1, ''a''), (1, ''b'')#}" using t'(2) by (simp add: extended_by_def)
  then show ?thesis using t' extended_inv[OF t'(2) tm_inv_new(1)] by auto
qed

end
