(* ===== verification/Locator.thy ===== *)
theory Locator
  imports Prelude "HOL-Library.List_Lexorder"
begin

text \<open>
  Locators (\<open>crates/text/src/locator.rs\<close>): the identifiers that order the fragments of a
  buffer. A locator is a list of 64-bit digits compared lexicographically, as the derived
  \<open>Ord\<close> of the wrapped \<open>SmallVec\<close> does. The lemmas show that \<open>between\<close> terminates, stays
  strictly between its arguments, keeps the normal form that makes this possible for ever
  (the last digit is not zero), and does not grow under repeated appending.
\<close>

type_synonym u64 = "64 word"
type_synonym locator = "u64 list"

abbreviation U64_MAX :: u64 where "U64_MAX \<equiv> - 1"

definition locator_min :: locator where "locator_min = [0]"

definition locator_max :: locator where "locator_max = [U64_MAX]"

text \<open>\<open>assign\<close> resizes the receiver with zeros and copies the other slice over it; the copy
  panics when the lengths differ.\<close>

definition locator_assign :: "locator \<Rightarrow> locator \<Rightarrow> locator option" where
  "locator_assign self other =
     (let resized = take (length other) self @ replicate (length other - length self) 0 in
      if length resized = length other then Some other else None)"

definition saturating_sub64 :: "u64 \<Rightarrow> u64 \<Rightarrow> u64" where
  "saturating_sub64 a b = (if b \<le> a then a - b else 0)"

definition mid_digit :: "u64 \<Rightarrow> u64 \<Rightarrow> u64" where
  "mid_digit l r = l + drop_bit 48 (saturating_sub64 r l)"

text \<open>The loop of \<open>between\<close> over the two digit streams, \<open>lhs\<close> continued with zeros and
  \<open>rhs\<close> with the greatest digit. It ends at the latest one step after both lists have
  ended.\<close>

fun digit_or :: "u64 \<Rightarrow> locator \<Rightarrow> u64" where
  "digit_or d [] = d"
| "digit_or d (x # xs) = x"

lemma mid_digit_end: "0 < mid_digit 0 U64_MAX"
  by (simp add: mid_digit_def saturating_sub64_def) code_simp

function locator_between :: "locator \<Rightarrow> locator \<Rightarrow> locator" where
  "locator_between lhs rhs =
     (let l = digit_or 0 lhs; r = digit_or U64_MAX rhs; mid = mid_digit l r in
      if l < mid then [mid] else mid # locator_between (tl lhs) (tl rhs))"
  by pat_completeness auto
termination
proof (relation "measure (\<lambda>(l, r). length l + length r)", goal_cases)
  case (2 lhs rhs l r mid)
  then show ?case using mid_digit_end by (cases lhs; cases rhs) auto
qed simp

declare locator_between.simps [simp del]

definition locator_len :: "locator \<Rightarrow> nat" where
  "locator_len l = length l"

definition locator_is_empty :: "locator \<Rightarrow> bool" where
  "locator_is_empty l \<longleftrightarrow> locator_len l = 0"

section \<open>The digit in the middle\<close>

lemma unat_mid_digit: "unat (mid_digit l r) = unat l + (unat r - unat l) div 2 ^ 48"
proof -
  let ?d = "(unat r - unat l) div 2 ^ 48"
  have d: "unat (drop_bit 48 (saturating_sub64 r l)) = ?d"
    by (auto simp: saturating_sub64_def unat_drop_bit_eq drop_bit_nat_def unat_sub word_le_nat_alt)
  have "?d \<le> unat r - unat l" by simp
  moreover have r: "unat r < 2 ^ 64" and l: "unat l < 2 ^ 64"
    by (rule order_less_le_trans[OF unsigned_less]; simp)+
  ultimately have "unat l + ?d < 2 ^ 64"
    using r l by (cases "unat l \<le> unat r") auto
  then show ?thesis unfolding mid_digit_def using d by (simp add: unat_word_ariths)
qed

lemma mid_digit_ge: "l \<le> mid_digit l r"
  by (simp add: word_le_nat_alt unat_mid_digit)

lemma mid_digit_less: "l < r \<Longrightarrow> mid_digit l r < r"
proof -
  assume "l < r"
  then have "0 < unat r - unat l" by (simp add: word_less_nat_alt)
  then have "(unat r - unat l) div 2 ^ 48 < unat r - unat l" by simp
  then show ?thesis by (simp add: word_less_nat_alt unat_mid_digit)
qed

lemma mid_digit_same: "mid_digit l l = l"
  by (simp add: mid_digit_def saturating_sub64_def)

section \<open>Between two locators\<close>

lemma between_unfold:
  "locator_between lhs rhs =
     (let l = digit_or 0 lhs; mid = mid_digit l (digit_or U64_MAX rhs) in
      if l < mid then [mid] else l # locator_between (tl lhs) (tl rhs))"
  using mid_digit_ge[of "digit_or 0 lhs" "digit_or U64_MAX rhs"]
  by (subst locator_between.simps) (auto simp: Let_def)

lemma between_greater: "lhs < locator_between lhs rhs"
proof (induction lhs rhs rule: locator_between.induct)
  case (1 lhs rhs)
  then show ?case by (subst between_unfold) (cases lhs; auto simp: Let_def not_less)
qed

lemma between_less:
  "lhs < rhs \<Longrightarrow> last rhs \<noteq> 0 \<Longrightarrow> locator_between lhs rhs < rhs"
proof (induction lhs rhs rule: locator_between.induct)
  case (1 lhs rhs)
  let ?l = "digit_or 0 lhs" and ?mid = "mid_digit (digit_or 0 lhs) (digit_or U64_MAX rhs)"
  from 1(2) obtain r rs where rhs: "rhs = r # rs" by (cases rhs) auto
  have le: "?l \<le> r" using 1(2) rhs by (cases lhs) auto
  show ?case
  proof (cases "?l < r")
    case True
    then show ?thesis using mid_digit_less[OF True] rhs
      by (subst between_unfold) (auto simp: Let_def)
  next
    case False
    then have eq: "?l = r" using le by simp
    have rs: "rs \<noteq> []" "tl lhs < rs"
      using 1(2,3) rhs eq by (cases lhs; cases rs; auto)+
    have "locator_between (tl lhs) rs < rs"
      using 1(1)[OF refl refl refl] rhs rs 1(3) eq by (simp add: mid_digit_same)
    then show ?thesis using eq rhs by (subst between_unfold) (simp add: Let_def mid_digit_same)
  qed
qed

lemma between_ne [simp]: "locator_between lhs rhs \<noteq> []"
  by (subst between_unfold) (simp add: Let_def)

lemma between_last: "last (locator_between lhs rhs) \<noteq> 0"
proof (induction lhs rhs rule: locator_between.induct)
  case (1 lhs rhs)
  then show ?case
    by (subst between_unfold) (auto simp: Let_def not_less)
qed

lemma between_length: "length (locator_between lhs rhs) \<le> Suc (max (length lhs) (length rhs))"
proof (induction lhs rhs rule: locator_between.induct)
  case (1 lhs rhs)
  show ?case
  proof (cases "lhs = [] \<and> rhs = []")
    case True
    then show ?thesis using mid_digit_end by (subst between_unfold) (simp add: Let_def)
  next
    case False
    have IH: "digit_or 0 lhs \<ge> mid_digit (digit_or 0 lhs) (digit_or U64_MAX rhs) \<Longrightarrow>
      length (locator_between (tl lhs) (tl rhs)) \<le> Suc (max (length (tl lhs)) (length (tl rhs)))"
      using 1 by (simp add: not_less)
    have "Suc (max (length lhs - 1) (length rhs - 1)) \<le> max (length lhs) (length rhs)"
      using False by (cases lhs; cases rhs) auto
    then show ?thesis using IH by (subst between_unfold) (auto simp: Let_def not_less)
  qed
qed

section \<open>Properties\<close>

text \<open>C18: A locator drawn between two others is strictly greater than the first, strictly less
  than the second when that one ends in a non-zero digit and is above the first, and itself ends
  in a non-zero digit, so that further locators always fit on both sides of it.\<close>

theorem between_strict:
  assumes "lhs < rhs" "last rhs \<noteq> 0"
  shows "lhs < locator_between lhs rhs \<and> locator_between lhs rhs < rhs \<and> last (locator_between lhs rhs) \<noteq> 0"
  using between_greater between_less[OF assms] between_last by blast

theorem between_strict_witness:
  "[1, 5] < locator_between [1, 5] [1, 6] \<and> locator_between [1, 5] [1, 6] < [1, 6]"
  using between_strict[of "[1, 5]" "[1, 6]"] by simp

lemma less_append: "xs < (xs :: 'a::linorder list) @ [y]"
  by (induction xs) auto

lemma between_zeros:
  "locator_between lhs (lhs @ replicate n 0) = lhs @ replicate n 0 @ [mid_digit 0 U64_MAX]"
proof (induction lhs)
  case Nil
  show ?case
  proof (induction n)
    case 0
    then show ?case using mid_digit_end by (subst between_unfold) (simp add: Let_def)
  next
    case (Suc n)
    then show ?case by (subst between_unfold) (simp add: Let_def mid_digit_same)
  qed
next
  case (Cons a lhs)
  then show ?case by (subst between_unfold) (simp add: Let_def mid_digit_same)
qed

text \<open>The result of \<open>between\<close> has at most one digit more than the longer of its arguments;
  when the second argument extends the first by zeros only, the result is above both.\<close>

theorem between_bounds:
  "length (locator_between lhs rhs) \<le> Suc (max (length lhs) (length rhs)) \<and>
   lhs @ replicate n 0 < locator_between lhs (lhs @ replicate n 0)"
  using between_length less_append[of "lhs @ replicate n 0"] by (simp add: between_zeros)

text \<open>Repeated appending in front of the greatest locator, as sequential typing does.\<close>

fun append_locator :: "nat \<Rightarrow> locator" where
  "append_locator 0 = locator_min"
| "append_locator (Suc n) = locator_between (append_locator n) locator_max"

lemma append_locator_digit:
  "n \<le> 2 ^ 48 - 2 ^ 32 \<Longrightarrow>
   \<exists>d. append_locator n = [d] \<and> unat d \<le> n * (2 ^ 16 - 1)"
proof (induction n)
  case 0
  then show ?case by (simp add: locator_min_def)
next
  case (Suc n)
  then obtain d where d: "append_locator n = [d]" "unat d \<le> n * (2 ^ 16 - 1)" by auto
  have m: "unat U64_MAX = 2 ^ 64 - 1" by (simp add: unsigned_minus_1_eq_mask mask_eq_exp_minus_1)
  have b: "n * (2 ^ 16 - 1) \<le> (2 ^ 48 - 2 ^ 32) * (2 ^ 16 - 1)" using Suc(2) by simp
  have room: "2 ^ 48 \<le> 2 ^ 64 - 1 - unat d" using d(2) b by simp
  have step: "0 < (2 ^ 64 - 1 - unat d) div 2 ^ 48" using room by (simp add: div_greater_zero_iff)
  have "(2 ^ 64 - 1 - unat d) div 2 ^ 48 \<le> (2 ^ 64 - 1) div 2 ^ 48" by (rule div_le_mono) simp
  then have up: "(2 ^ 64 - 1 - unat d) div 2 ^ 48 \<le> 2 ^ 16 - 1" by simp
  have "d < mid_digit d U64_MAX" using step by (simp add: word_less_nat_alt unat_mid_digit m)
  then have "append_locator (Suc n) = [mid_digit d U64_MAX]"
    by (simp add: d(1) locator_max_def) (subst between_unfold, simp)
  moreover have "unat (mid_digit d U64_MAX) \<le> Suc n * (2 ^ 16 - 1)"
    using d(2) up by (simp add: unat_mid_digit m)
  ultimately show ?case by blast
qed

text \<open>Sequential appending keeps locators at one digit for more than \<open>2 ^ 47\<close> steps.\<close>

theorem append_stays_short:
  assumes "n \<le> 2 ^ 48 - 2 ^ 32"
  shows "locator_len (append_locator n) = 1"
  using append_locator_digit[OF assms] by (auto simp: locator_len_def)

theorem append_stays_short_witness: "locator_len (append_locator 100000) = 1"
  by (rule append_stays_short) simp

end
