(* ===== verification/UndoMap.thy ===== *)
theory UndoMap
  imports Clock Keyed "HOL-Library.Product_Lexorder"
begin

text \<open>
  The undo map of a buffer (\<open>crates/text/src/undo_map.rs\<close>): a sum tree of entries keyed by the
  edit they undo and the undo operation they come from, whose value is the undo count that the
  operation gave the edit. An edit is undone when the greatest of its counts is odd. The lemmas
  show that the map is the finite map it stands for, and that undo operations commute.
\<close>

type_synonym undo_key = "lamport \<times> lamport"

record undo_entry =
  ue_key :: undo_key
  ue_count :: seq

record undo_operation =
  uo_timestamp :: lamport
  uo_version :: global
  uo_counts :: "(lamport \<times> seq) list"

text \<open>The summary of \<open>UndoMapKey\<close> is the greatest key; the key is its own dimension.\<close>

definition undo_summary :: "(undo_entry, undo_key) summary_ops" where
  "undo_summary = \<lparr>sm_zero = (LAMPORT_MIN, LAMPORT_MIN), sm_add = max, sm_item = ue_key\<rparr>"

definition undo_dim :: "(undo_key, undo_key) dim_ops" where
  "undo_dim = \<lparr>dm_zero = (LAMPORT_MIN, LAMPORT_MIN), dm_add = max\<rparr>"

type_synonym undo_map = "(undo_entry, undo_key) stree"

definition um_new :: undo_map where
  "um_new = stree_new undo_summary"

definition um_insert :: "undo_map \<Rightarrow> undo_operation \<Rightarrow> undo_map option" where
  "um_insert m undo = map_option fst (keyed_edit undo_summary undo_dim ue_key m
     (map (\<lambda>(edit_id, count). Insert \<lparr>ue_key = (edit_id, uo_timestamp undo), ue_count = count\<rparr>)
       (uo_counts undo)))"

text \<open>The loop shared by \<open>undo_count\<close> and \<open>was_undone\<close>: it runs over the entries of the edit
  and takes the greatest count of those that \<open>seen\<close> accepts.\<close>

partial_function (option) um_count_loop ::
  "lamport \<Rightarrow> (lamport \<Rightarrow> bool) \<Rightarrow> (undo_entry, undo_key, undo_key) cursor \<Rightarrow> seq \<Rightarrow> seq option" where
  "um_count_loop edit_id seen c undo_count =
     (case cursor_iter_next undo_dim c of
        None \<Rightarrow> None
      | Some (None, _) \<Rightarrow> Some undo_count
      | Some (Some e, c') \<Rightarrow>
          if fst (ue_key e) \<noteq> edit_id then Some undo_count
          else um_count_loop edit_id seen c'
            (if seen (snd (ue_key e)) then max undo_count (ue_count e) else undo_count))"

definition um_undo_count :: "undo_map \<Rightarrow> lamport \<Rightarrow> seq option" where
  "um_undo_count m edit_id = do {
     (_, c) \<leftarrow> cursor_seek undo_dim (cmp_of (edit_id, LAMPORT_MIN)) Left (cursor_new undo_dim m);
     um_count_loop edit_id (\<lambda>_. True) c 0
   }"

definition um_is_undone :: "undo_map \<Rightarrow> lamport \<Rightarrow> bool option" where
  "um_is_undone m edit_id = map_option (\<lambda>n. n mod 2 = 1) (um_undo_count m edit_id)"

definition um_was_undone :: "undo_map \<Rightarrow> lamport \<Rightarrow> global \<Rightarrow> bool option" where
  "um_was_undone m edit_id version = do {
     (_, c) \<leftarrow> cursor_seek undo_dim (cmp_of (edit_id, LAMPORT_MIN)) Left (cursor_new undo_dim m);
     n \<leftarrow> um_count_loop edit_id (global_observed version) c 0;
     Some (n mod 2 = 1)
   }"

section \<open>The contract of keys\<close>

lemma undo_min_least: "(LAMPORT_MIN, LAMPORT_MIN) \<le> (k :: undo_key)"
  using LAMPORT_MIN_least[of "fst k"] LAMPORT_MIN_least[of "snd k"] by (cases k) (auto simp: order_le_less)

lemma sumof_undo:
  "sorted_wrt (\<lambda>x y. ue_key x < ue_key y) xs \<Longrightarrow>
   sumof undo_summary xs = (if xs = [] then (LAMPORT_MIN, LAMPORT_MIN) else ue_key (last xs))"
proof (induction xs rule: rev_induct)
  case (snoc x xs)
  have "xs \<noteq> [] \<Longrightarrow> ue_key (last xs) \<le> ue_key x"
    using snoc.prems by (auto simp: sorted_wrt_append intro: less_imp_le)
  then show ?case using snoc undo_min_least[of "ue_key x"]
    by (auto simp: sumof_def sums_snoc sorted_wrt_append undo_summary_def max_def)
qed (simp add: sumof_def sums_def undo_summary_def)

lemma dpos_undo:
  "key_sorted ue_key (\<lambda>_. True) xs \<Longrightarrow>
   dpos undo_dim undo_summary xs = (if xs = [] then (LAMPORT_MIN, LAMPORT_MIN) else ue_key (last xs))"
  using undo_min_least by (auto simp: dpos_def sumof_undo key_sorted_def undo_dim_def max_def)

interpretation um: keyed_laws undo_summary ue_key "\<lambda>_. True" undo_dim
proof unfold_locales
  fix xs ys :: "undo_entry list" and x :: undo_entry and k :: undo_key
  show "key_sorted ue_key (\<lambda>_. True) (xs @ ys) \<Longrightarrow>
    key_sorted ue_key (\<lambda>_. True) xs \<and> key_sorted ue_key (\<lambda>_. True) ys"
    by (simp add: key_sorted_append)
  show "sm_add undo_summary (sm_zero undo_summary) (sm_item undo_summary x) = sm_item undo_summary x"
    using undo_min_least[of "ue_key x"] by (simp add: undo_summary_def max_def)
  show "dm_add undo_dim (dm_zero undo_dim) (sm_zero undo_summary) = dm_zero undo_dim"
    by (simp add: undo_dim_def undo_summary_def)
  show "dm_zero undo_dim \<le> k" using undo_min_least by (simp add: undo_dim_def)
  assume srt: "key_sorted ue_key (\<lambda>_. True) (xs @ ys)" and "ys \<noteq> []"
  then have le: "(if xs = [] then (LAMPORT_MIN, LAMPORT_MIN) else ue_key (last xs)) \<le> ue_key (last ys)"
    using undo_min_least by (auto simp: key_sorted_append less_imp_le)
  show "sm_add undo_summary (sumof undo_summary xs) (sumof undo_summary ys) = sumof undo_summary (xs @ ys)"
    using srt \<open>ys \<noteq> []\<close> le
    by (simp add: sumof_undo key_sorted_def sorted_wrt_append) (auto simp: undo_summary_def max_absorb2)
  show "dm_add undo_dim (dpos undo_dim undo_summary xs) (sumof undo_summary ys) = dpos undo_dim undo_summary (xs @ ys)"
    using srt \<open>ys \<noteq> []\<close> le dpos_undo[OF srt] dpos_undo[of xs]
    by (simp add: key_sorted_append) (auto simp: sumof_undo key_sorted_def undo_dim_def max_absorb2)
next
  show "dpos undo_dim undo_summary xs = ue_key (last xs)" if "key_sorted ue_key (\<lambda>_. True) xs" "xs \<noteq> []"
    for xs using that by (simp add: dpos_undo)
qed

section \<open>The finite map an undo map stands for\<close>

definition um_inv :: "undo_map \<Rightarrow> bool" where
  "um_inv m \<longleftrightarrow> wf_tree undo_summary m \<and> height m < STACK_CAP \<and> key_sorted ue_key (\<lambda>_. True) (tree_items m)"

definition um_map :: "undo_map \<Rightarrow> undo_key \<rightharpoonup> seq" where
  "um_map m = map_of (map (\<lambda>e. (ue_key e, ue_count e)) (tree_items m))"

text \<open>The counts that the operation gives, by key; and the greatest count of an edit among the
  undo operations that \<open>seen\<close> accepts.\<close>

definition undo_counts :: "undo_operation \<Rightarrow> undo_key \<rightharpoonup> seq" where
  "undo_counts u = map_of (map (\<lambda>(edit_id, n). ((edit_id, uo_timestamp u), n)) (uo_counts u))"

definition counts_of :: "(undo_key \<rightharpoonup> seq) \<Rightarrow> lamport \<Rightarrow> (lamport \<Rightarrow> bool) \<Rightarrow> seq set" where
  "counts_of f edit_id seen = {n. \<exists>undo_id. seen undo_id \<and> f (edit_id, undo_id) = Some n}"

definition max_count :: "(undo_key \<rightharpoonup> seq) \<Rightarrow> lamport \<Rightarrow> (lamport \<Rightarrow> bool) \<Rightarrow> seq" where
  "max_count f edit_id seen = Max (insert 0 (counts_of f edit_id seen))"

lemma um_map_eq_Some:
  assumes "key_sorted ue_key (\<lambda>_. True) (tree_items m)"
  shows "um_map m k = Some n \<longleftrightarrow> (\<exists>e \<in> set (tree_items m). ue_key e = k \<and> ue_count e = n)"
proof -
  have "distinct (map ue_key (tree_items m))"
    using assms by (auto simp: key_sorted_def sorted_wrt_map[symmetric] strict_sorted_iff)
  then have "distinct (map fst (map (\<lambda>e. (ue_key e, ue_count e)) (tree_items m)))" by (simp add: o_def)
  then show ?thesis unfolding um_map_def by (subst map_of_eq_Some_iff) auto
qed

lemma um_map_ext:
  assumes "um_inv m" "um_inv m'" "set (tree_items m) = set (tree_items m')"
  shows "um_map m = um_map m'"
proof
  fix k
  have "um_map m k = Some n \<longleftrightarrow> um_map m' k = Some n" for n
    using assms by (simp add: um_inv_def um_map_eq_Some)
  then show "um_map m k = um_map m' k" by (metis not_None_eq)
qed

lemma um_new_ok: "um_inv um_new" "um_map um_new = Map.empty"
  by (simp_all add: um_inv_def um_new_def stree_new_def wf_tree_def um_map_def STACK_CAP_def)

section \<open>Reading the counts\<close>

lemma um_count_loop_ok:
  assumes "cursor_at undo_dim undo_summary c pre post" "key_sorted ue_key (\<lambda>_. True) (pre @ post)"
  shows "um_count_loop edit_id seen c n = Some
    (fold max (map ue_count (filter (seen \<circ> snd \<circ> ue_key) (takeWhile (\<lambda>e. fst (ue_key e) = edit_id) post))) n)"
  using assms
proof (induction post arbitrary: c pre n)
  case Nil
  obtain c' where "cursor_iter_next undo_dim c = Some (None, c')"
    using um.cursor_iter_next_ok[OF Nil] by auto
  then show ?case by (subst um_count_loop.simps) simp
next
  case (Cons e post)
  obtain c' where c': "cursor_iter_next undo_dim c = Some (Some e, c')" "cursor_at undo_dim undo_summary c' (pre @ [e]) post"
    using um.cursor_iter_next_ok[OF Cons.prems] by auto
  have "key_sorted ue_key (\<lambda>_. True) ((pre @ [e]) @ post)" using Cons.prems(2) by simp
  from Cons.IH[OF c'(2) this] show ?case using c'(1) by (subst um_count_loop.simps) (simp add: max.commute o_def)
qed

lemma takeWhile_edit:
  assumes "key_sorted ue_key (\<lambda>_. True) xs"
  shows "takeWhile (\<lambda>e. fst (ue_key e) = edit_id) (filter (\<lambda>e. (edit_id, LAMPORT_MIN) \<le> ue_key e) xs) =
     filter (\<lambda>e. fst (ue_key e) = edit_id) xs"
  using assms
proof (induction xs)
  case (Cons x xs)
  then have gt: "\<And>y. y \<in> set xs \<Longrightarrow> ue_key x < ue_key y" by (simp add: key_sorted_Cons)
  have le: "fst (ue_key x) = edit_id \<Longrightarrow> (edit_id, LAMPORT_MIN) \<le> ue_key x"
    using LAMPORT_MIN_least[of "snd (ue_key x)"] by (cases "ue_key x") auto
  show ?case
  proof (cases "(edit_id, LAMPORT_MIN) \<le> ue_key x \<and> fst (ue_key x) \<noteq> edit_id")
    case True
    then have "edit_id < fst (ue_key x)" by (cases "ue_key x") (auto simp: order_le_less)
    moreover have "fst (ue_key x) \<le> fst (ue_key y)" if "y \<in> set xs" for y
      using gt[OF that] by (cases "ue_key x"; cases "ue_key y") auto
    ultimately have "filter (\<lambda>e. fst (ue_key e) = edit_id) xs = []" by (fastforce intro!: filter_False)
    then show ?thesis using True by simp
  qed (use Cons le in \<open>auto simp: key_sorted_Cons\<close>)
qed simp

lemma um_seek_count:
  assumes "um_inv m"
  shows "\<exists>b c. cursor_seek undo_dim (cmp_of (edit_id, LAMPORT_MIN)) Left (cursor_new undo_dim m) = Some (b, c) \<and>
    um_count_loop edit_id seen c 0 = Some (max_count (um_map m) edit_id seen)"
proof -
  let ?xs = "tree_items m" and ?k = "(edit_id, LAMPORT_MIN)"
  have m: "wf_tree undo_summary m" "height m < STACK_CAP" "key_sorted ue_key (\<lambda>_. True) ?xs"
    using assms by (simp_all add: um_inv_def)
  obtain b c where c: "cursor_seek undo_dim (cmp_of ?k) Left (cursor_new undo_dim m) = Some (b, c)"
    "cursor_at undo_dim undo_summary c (filter (\<lambda>x. ue_key x < ?k) ?xs) (filter (\<lambda>x. ?k \<le> ue_key x) ?xs)"
    using um.key_seek_ok[OF m] by blast
  have "key_sorted ue_key (\<lambda>_. True) (filter (\<lambda>x. ue_key x < ?k) ?xs @ filter (\<lambda>x. ?k \<le> ue_key x) ?xs)"
    using filter_less_ge[OF m(3)] m(3) by simp
  note loop = um_count_loop_ok[OF c(2) this, of edit_id seen 0, unfolded takeWhile_edit[OF m(3)]]
  let ?ns = "map ue_count (filter (seen \<circ> snd \<circ> ue_key) (filter (\<lambda>e. fst (ue_key e) = edit_id) ?xs))"
  have "set ?ns = counts_of (um_map m) edit_id seen"
    by (force simp: counts_of_def um_map_eq_Some[OF m(3)])
  then have "fold max ?ns 0 = max_count (um_map m) edit_id seen"
    by (simp only: max_count_def Max.set_eq_fold[symmetric] list.set)
  then show ?thesis using c(1) loop by auto
qed

lemma um_counts_ok:
  assumes "um_inv m"
  shows "um_undo_count m edit_id = Some (max_count (um_map m) edit_id (\<lambda>_. True))"
    "um_is_undone m edit_id = Some (max_count (um_map m) edit_id (\<lambda>_. True) mod 2 = 1)"
    "um_was_undone m edit_id v = Some (max_count (um_map m) edit_id (global_observed v) mod 2 = 1)"
  using um_seek_count[OF assms, of edit_id "\<lambda>_. True"] um_seek_count[OF assms, of edit_id "global_observed v"]
  by (auto simp: um_undo_count_def um_is_undone_def um_was_undone_def)

section \<open>Recording an undo operation\<close>

definition undo_edits :: "undo_operation \<Rightarrow> (undo_entry, undo_key) edit list" where
  "undo_edits u = map (\<lambda>(edit_id, n). Insert \<lparr>ue_key = (edit_id, uo_timestamp u), ue_count = n\<rparr>) (uo_counts u)"

lemma undo_edits_ok:
  "inserted (undo_edits u) = map (\<lambda>(edit_id, n). \<lparr>ue_key = (edit_id, uo_timestamp u), ue_count = n\<rparr>) (uo_counts u)"
  "map (edit_key ue_key) (undo_edits u) = map (\<lambda>(edit_id, n). (edit_id, uo_timestamp u)) (uo_counts u)"
  using inserted_map[of "\<lambda>(edit_id, n). \<lparr>ue_key = (edit_id, uo_timestamp u), ue_count = n\<rparr>" "uo_counts u"]
  by (simp_all add: undo_edits_def split_def)

lemma um_insert_ok:
  assumes "um_inv m" "distinct (map fst (uo_counts u))"
  shows "\<exists>m'. um_insert m u = Some m' \<and> wf_tree undo_summary m' \<and>
    key_sorted ue_key (\<lambda>_. True) (tree_items m') \<and> um_map m' = um_map m ++ undo_counts u"
proof -
  let ?es = "undo_edits u"
  have m: "wf_tree undo_summary m" "height m < STACK_CAP" "key_sorted ue_key (\<lambda>_. True) (tree_items m)"
    using assms by (simp_all add: um_inv_def)
  have d: "distinct (map (edit_key ue_key) ?es)"
    using assms(2) by (auto simp: undo_edits_ok split_def distinct_map inj_on_def)
  obtain m' where m': "keyed_edit undo_summary undo_dim ue_key m ?es =
      Some (m', filter (\<lambda>x. ue_key x \<in> edit_keys ue_key ?es) (tree_items m))"
    "wf_tree undo_summary m'" "key_sorted ue_key (\<lambda>_. True) (tree_items m')"
    "set (tree_items m') = {x \<in> set (tree_items m). ue_key x \<notin> edit_keys ue_key ?es} \<union> set (inserted ?es)"
    using um.keyed_edit_ok[OF m d] by auto
  have ks: "edit_keys ue_key ?es = (\<lambda>(edit_id, n). (edit_id, uo_timestamp u)) ` set (uo_counts u)"
    unfolding edit_keys_def set_map[symmetric] undo_edits_ok by (simp add: split_def)
  have kd: "distinct (map fst (map (\<lambda>(edit_id, n). ((edit_id, uo_timestamp u), n)) (uo_counts u)))"
    using assms(2) by (auto simp: split_def distinct_map inj_on_def)
  have uc: "undo_counts u k = Some n \<longleftrightarrow> (\<exists>e n'. (e, n') \<in> set (uo_counts u) \<and> k = (e, uo_timestamp u) \<and> n = n')" for k n
    unfolding undo_counts_def by (subst map_of_eq_Some_iff[OF kd]) auto
  have un: "undo_counts u k = None \<longleftrightarrow> k \<notin> edit_keys ue_key ?es" for k
    unfolding ks undo_counts_def map_of_eq_None_iff by (force simp: split_def image_iff)
  have "um_map m' k = Some n \<longleftrightarrow> (um_map m ++ undo_counts u) k = Some n" for k n
    unfolding um_map_eq_Some[OF m'(3)] m'(4) map_add_Some_iff un uc um_map_eq_Some[OF m(3)] undo_edits_ok
    by (force simp: split_def)
  then have "um_map m' = um_map m ++ undo_counts u" by (intro ext) (metis not_None_eq)
  then show ?thesis using m' by (simp add: um_insert_def undo_edits_def)
qed

section \<open>Properties\<close>

text \<open>C19: The undo map refines a finite map from edits and undo operations to counts: recording an
  operation overrides it with the counts of the operation, and an edit is undone, now or at an
  earlier version, exactly when the greatest of its counts seen there is odd.\<close>

theorem undo_map_refines_map:
  assumes "um_inv m" "distinct (map fst (uo_counts u))"
  shows "(\<exists>m'. um_insert m u = Some m' \<and> wf_tree undo_summary m' \<and>
       key_sorted ue_key (\<lambda>_. True) (tree_items m') \<and> um_map m' = um_map m ++ undo_counts u) \<and>
     um_is_undone m edit_id = Some (max_count (um_map m) edit_id (\<lambda>_. True) mod 2 = 1) \<and>
     um_was_undone m edit_id v = Some (max_count (um_map m) edit_id (global_observed v) mod 2 = 1)"
  using um_insert_ok[OF assms] um_counts_ok[OF assms(1)] by blast

theorem undo_map_refines_map_witness:
  "um_is_undone um_new (Lamport 1 2) = Some False \<and>
   (\<exists>m'. um_insert um_new \<lparr>uo_timestamp = Lamport 5 0, uo_version = global_new, uo_counts = [(Lamport 1 2, 1)]\<rparr> = Some m' \<and>
      um_map m' (Lamport 1 2, Lamport 5 0) = Some 1)"
  using undo_map_refines_map[OF um_new_ok(1),
      of "\<lparr>uo_timestamp = Lamport 5 0, uo_version = global_new, uo_counts = [(Lamport 1 2, 1)]\<rparr>" "Lamport 1 2" global_new]
  by (auto simp: um_new_ok(2) max_count_def counts_of_def undo_counts_def)

text \<open>Undo operations with different timestamps commute: recorded in either order they lead to
  the same map, and so to the same undone edits at every replica.\<close>

theorem undo_operations_commute:
  assumes "um_inv m" "distinct (map fst (uo_counts u))" "distinct (map fst (uo_counts w))"
    and "uo_timestamp u \<noteq> uo_timestamp w"
    and "um_insert m u = Some mu" "um_insert mu w = Some muw" "height mu < STACK_CAP" "height muw < STACK_CAP"
    and "um_insert m w = Some mw" "um_insert mw u = Some mwu" "height mw < STACK_CAP" "height mwu < STACK_CAP"
  shows "um_map muw = um_map mwu \<and> um_is_undone muw edit_id = um_is_undone mwu edit_id \<and>
    um_was_undone muw edit_id v = um_was_undone mwu edit_id v"
proof -
  have mu: "um_inv mu" "um_map mu = um_map m ++ undo_counts u"
    using um_insert_ok[OF assms(1,2)] assms(5,7) by (auto simp: um_inv_def)
  have mw: "um_inv mw" "um_map mw = um_map m ++ undo_counts w"
    using um_insert_ok[OF assms(1,3)] assms(9,11) by (auto simp: um_inv_def)
  have muw: "um_inv muw" "um_map muw = um_map mu ++ undo_counts w"
    using um_insert_ok[OF mu(1) assms(3)] assms(6,8) by (auto simp: um_inv_def)
  have mwu: "um_inv mwu" "um_map mwu = um_map mw ++ undo_counts u"
    using um_insert_ok[OF mw(1) assms(2)] assms(10,12) by (auto simp: um_inv_def)
  have "dom (undo_counts u) \<inter> dom (undo_counts w) = {}"
    using assms(4) by (auto simp: undo_counts_def dom_map_of_conv_image_fst split_def)
  then have "undo_counts u ++ undo_counts w = undo_counts w ++ undo_counts u" by (rule map_add_comm)
  then have "um_map muw = um_map mwu" using mu(2) mw(2) muw(2) mwu(2) by (simp only: map_add_assoc[symmetric])
  then show ?thesis using um_counts_ok[OF muw(1)] um_counts_ok[OF mwu(1)] by simp
qed

definition sample_undo :: "nat \<Rightarrow> undo_operation" where
  "sample_undo n = \<lparr>uo_timestamp = Lamport (of_nat n) 0, uo_version = global_new,
     uo_counts = [(Lamport 1 0, of_nat n), (Lamport 2 0, 1)]\<rparr>"

definition sample_undone :: "nat list \<Rightarrow> undo_map" where
  "sample_undone ns = fold (\<lambda>n m. the (um_insert m (sample_undo n))) ns um_new"

lemma sample_undone_steps:
  "um_insert um_new (sample_undo 5) = Some (sample_undone [5])"
  "um_insert (sample_undone [5]) (sample_undo 6) = Some (sample_undone [5, 6])"
  "um_insert um_new (sample_undo 6) = Some (sample_undone [6])"
  "um_insert (sample_undone [6]) (sample_undo 5) = Some (sample_undone [6, 5])"
  by code_simp+

lemma sample_undone_heights:
  "height (sample_undone [5]) = 0" "height (sample_undone [5, 6]) = 0"
  "height (sample_undone [6]) = 0" "height (sample_undone [6, 5]) = 0"
  by code_simp+

theorem undo_operations_commute_witness:
  "um_map (sample_undone [5, 6]) = um_map (sample_undone [6, 5])"
  using undo_operations_commute[OF um_new_ok(1) _ _ _ sample_undone_steps(1,2) _ _ sample_undone_steps(3,4)]
  by (simp add: sample_undone_heights STACK_CAP_def) (simp add: sample_undo_def)

end
