(* ===== verification/OperationQueue.thy ===== *)
theory OperationQueue
  imports Clock Keyed
begin

text \<open>
  The queue of deferred operations (\<open>crates/text/src/operation_queue.rs\<close>): a sum tree of
  operations keyed by their timestamps. The summary and the dimension assert that keys increase
  when they are added up; \<open>Panicked\<close> is the value after such an assertion has failed, and the
  lemmas show that it is not reached when every timestamp is above the least one. The
  operation type and its timestamp function \<open>ts\<close> (the trait \<open>Operation\<close>) are parameters.
\<close>

datatype 'a checked = Val 'a | Panicked

instantiation checked :: (linorder) linorder
begin

fun less_eq_checked :: "'a checked \<Rightarrow> 'a checked \<Rightarrow> bool" where
  "less_eq_checked x Panicked = True"
| "less_eq_checked Panicked (Val y) = False"
| "less_eq_checked (Val x) (Val y) = (x \<le> y)"

definition less_checked :: "'a checked \<Rightarrow> 'a checked \<Rightarrow> bool" where
  "less_checked x y \<longleftrightarrow> x \<le> y \<and> \<not> y \<le> x"

instance
proof
  fix x y z :: "'a checked"
  show "(x < y) = (x \<le> y \<and> \<not> y \<le> x)" by (rule less_checked_def)
  show "x \<le> x" by (cases x) auto
  show "x \<le> y \<Longrightarrow> y \<le> z \<Longrightarrow> x \<le> z" by (cases x; cases y; cases z) auto
  show "x \<le> y \<Longrightarrow> y \<le> x \<Longrightarrow> x = y" by (cases x; cases y) auto
  show "x \<le> y \<or> y \<le> x" by (cases x; cases y) auto
qed

end

lemma less_checked_Val [simp]: "Val x < Val y \<longleftrightarrow> x < y"
  by (auto simp: less_checked_def)

record op_summary =
  os_key :: lamport
  os_len :: nat

text \<open>\<open>OperationSummary::add_summary\<close>, with its assertion.\<close>

fun op_summary_add :: "op_summary checked \<Rightarrow> op_summary checked \<Rightarrow> op_summary checked" where
  "op_summary_add (Val a) (Val b) =
     (if os_key a < os_key b then Val \<lparr>os_key = os_key b, os_len = os_len a + os_len b\<rparr> else Panicked)"
| "op_summary_add _ _ = Panicked"

definition op_summary_zero :: "op_summary checked" where
  "op_summary_zero = Val \<lparr>os_key = LAMPORT_MIN, os_len = 0\<rparr>"

definition op_key :: "('op \<Rightarrow> lamport) \<Rightarrow> 'op \<Rightarrow> lamport checked" where
  "op_key ts x = Val (ts x)"

definition op_item_summary :: "('op \<Rightarrow> lamport) \<Rightarrow> 'op \<Rightarrow> op_summary checked" where
  "op_item_summary ts x = Val \<lparr>os_key = ts x, os_len = 1\<rparr>"

definition oq_summary :: "('op \<Rightarrow> lamport) \<Rightarrow> ('op, op_summary checked) summary_ops" where
  "oq_summary ts = \<lparr>sm_zero = op_summary_zero, sm_add = op_summary_add, sm_item = op_item_summary ts\<rparr>"

text \<open>\<open>OperationKey::add_summary\<close>, with its assertion.\<close>

fun op_key_add :: "lamport checked \<Rightarrow> op_summary checked \<Rightarrow> lamport checked" where
  "op_key_add (Val k) (Val s) = (if k \<le> os_key s then Val (os_key s) else Panicked)"
| "op_key_add _ _ = Panicked"

definition oq_dim :: "(lamport checked, op_summary checked) dim_ops" where
  "oq_dim = \<lparr>dm_zero = Val LAMPORT_MIN, dm_add = op_key_add\<rparr>"

type_synonym 'op op_queue = "('op, op_summary checked) stree"

definition oq_new :: "('op \<Rightarrow> lamport) \<Rightarrow> 'op op_queue" where
  "oq_new ts = stree_new (oq_summary ts)"

definition oq_len :: "'op op_queue \<Rightarrow> nat option" where
  "oq_len q = (case summary q of Val s \<Rightarrow> Some (os_len s) | Panicked \<Rightarrow> None)"

definition oq_is_empty :: "'op op_queue \<Rightarrow> bool option" where
  "oq_is_empty q = map_option (\<lambda>n. n = 0) (oq_len q)"

text \<open>\<open>dedup_by_key\<close> keeps the first of each run of equal keys.\<close>

fun dedup_by_key :: "('a \<Rightarrow> 'k) \<Rightarrow> 'a list \<Rightarrow> 'a list" where
  "dedup_by_key f (x # y # xs) =
     (if f x = f y then dedup_by_key f (x # xs) else x # dedup_by_key f (y # xs))"
| "dedup_by_key f xs = xs"

definition oq_insert :: "('op \<Rightarrow> lamport) \<Rightarrow> 'op op_queue \<Rightarrow> 'op list \<Rightarrow> 'op op_queue option" where
  "oq_insert ts q ops = map_option fst (keyed_edit (oq_summary ts) oq_dim (op_key ts) q
     (map Insert (dedup_by_key ts (sort_key ts ops))))"

definition oq_drain :: "('op \<Rightarrow> lamport) \<Rightarrow> 'op op_queue \<Rightarrow> 'op op_queue \<times> 'op op_queue" where
  "oq_drain ts q = (q, stree_new (oq_summary ts))"

definition oq_iter :: "'op op_queue \<Rightarrow> 'op list option" where
  "oq_iter q = collect_iter (iter_new q) []"

section \<open>The contract of keys\<close>

definition op_valid :: "('op \<Rightarrow> lamport) \<Rightarrow> 'op \<Rightarrow> bool" where
  "op_valid ts x \<longleftrightarrow> LAMPORT_MIN < ts x"

abbreviation ops_sorted :: "('op \<Rightarrow> lamport) \<Rightarrow> 'op list \<Rightarrow> bool" where
  "ops_sorted ts \<equiv> key_sorted (op_key ts) (op_valid ts)"

definition op_sum :: "('op \<Rightarrow> lamport) \<Rightarrow> 'op list \<Rightarrow> op_summary" where
  "op_sum ts xs = \<lparr>os_key = (if xs = [] then LAMPORT_MIN else ts (last xs)), os_len = length xs\<rparr>"

lemma sumof_oq: "ops_sorted ts xs \<Longrightarrow> sumof (oq_summary ts) xs = Val (op_sum ts xs)"
proof (induction xs rule: rev_induct)
  case Nil
  show ?case by (simp add: sumof_def sums_def oq_summary_def op_sum_def op_summary_zero_def)
next
  case (snoc x xs)
  then have "sums (oq_summary ts) (map (sm_item (oq_summary ts)) xs) = Val (op_sum ts xs)"
    by (simp add: key_sorted_append sumof_def)
  moreover have "os_key (op_sum ts xs) < ts x"
    using snoc.prems by (auto simp: key_sorted_append op_sum_def op_key_def op_valid_def)
  ultimately show ?case
    by (simp add: sumof_def sums_snoc) (simp add: oq_summary_def op_item_summary_def op_sum_def)
qed

lemma dpos_oq: "ops_sorted ts xs \<Longrightarrow> dpos oq_dim (oq_summary ts) xs = Val (os_key (op_sum ts xs))"
  by (auto simp: dpos_def sumof_oq oq_dim_def op_sum_def)

lemma op_sum_append:
  assumes "ops_sorted ts (xs @ ys)" "ys \<noteq> []"
  shows "os_key (op_sum ts xs) < os_key (op_sum ts ys)"
    "op_sum ts (xs @ ys) = \<lparr>os_key = os_key (op_sum ts ys), os_len = os_len (op_sum ts xs) + os_len (op_sum ts ys)\<rparr>"
proof -
  have "last ys \<in> set ys" using assms(2) by simp
  moreover from this have "op_valid ts (last ys)" using assms(1) by (simp add: key_sorted_def)
  ultimately show "os_key (op_sum ts xs) < os_key (op_sum ts ys)"
    using assms by (auto simp: op_sum_def key_sorted_append op_key_def op_valid_def)
qed (use assms in \<open>simp add: op_sum_def\<close>)

interpretation oq: keyed_laws "oq_summary ts" "op_key ts" "op_valid ts" oq_dim for ts :: "'op \<Rightarrow> lamport"
proof unfold_locales
  fix xs ys :: "'op list" and x :: 'op and k :: "lamport checked"
  show "ops_sorted ts (xs @ ys) \<Longrightarrow> ops_sorted ts xs \<and> ops_sorted ts ys"
    by (simp add: key_sorted_append)
  show "ops_sorted ts [x] \<Longrightarrow> sm_add (oq_summary ts) (sm_zero (oq_summary ts)) (sm_item (oq_summary ts) x) = sm_item (oq_summary ts) x"
    by (simp add: oq_summary_def op_summary_zero_def op_item_summary_def op_valid_def)
  show "dm_add oq_dim (dm_zero oq_dim) (sm_zero (oq_summary ts)) = dm_zero oq_dim"
    by (simp add: oq_dim_def oq_summary_def op_summary_zero_def)
  show "dm_zero oq_dim \<le> k" by (cases k) (simp_all add: oq_dim_def)
  show "dpos oq_dim (oq_summary ts) xs = op_key ts (last xs)" if "ops_sorted ts xs" "xs \<noteq> []"
    using that by (simp add: dpos_oq op_sum_def op_key_def)
  assume srt: "ops_sorted ts (xs @ ys)" and ne: "ys \<noteq> []"
  then have s: "ops_sorted ts xs" "ops_sorted ts ys" by (simp_all add: key_sorted_append)
  note sa = op_sum_append[OF srt ne]
  show "sm_add (oq_summary ts) (sumof (oq_summary ts) xs) (sumof (oq_summary ts) ys) = sumof (oq_summary ts) (xs @ ys)"
    unfolding sumof_oq[OF s(1)] sumof_oq[OF s(2)] sumof_oq[OF srt] using sa by (simp add: oq_summary_def)
  show "dm_add oq_dim (dpos oq_dim (oq_summary ts) xs) (sumof (oq_summary ts) ys) = dpos oq_dim (oq_summary ts) (xs @ ys)"
    unfolding dpos_oq[OF s(1)] sumof_oq[OF s(2)] dpos_oq[OF srt] using sa by (simp add: oq_dim_def less_imp_le)
qed

section \<open>Operations\<close>

definition oq_inv :: "('op \<Rightarrow> lamport) \<Rightarrow> 'op op_queue \<Rightarrow> bool" where
  "oq_inv ts q \<longleftrightarrow> wf_tree (oq_summary ts) q \<and> height q < STACK_CAP \<and> ops_sorted ts (tree_items q)"

lemma set_dedup: "f ` set (dedup_by_key f xs) = f ` set xs" "set (dedup_by_key f xs) \<subseteq> set xs"
  by (induction f xs rule: dedup_by_key.induct) auto

lemma dedup_strict: "sorted (map f xs) \<Longrightarrow> sorted_wrt (<) (map f (dedup_by_key f xs))"
proof (induction f xs rule: dedup_by_key.induct)
  case (1 f x y xs)
  show ?case
  proof (cases "f x = f y")
    case True
    then show ?thesis using 1 by simp
  next
    case False
    then have lt: "\<forall>z \<in> f ` set (y # xs). f x < z" using 1(3) by force
    have "f ` set (dedup_by_key f (y # xs)) = f ` set (y # xs)" by (rule set_dedup)
    then have "\<forall>z \<in> f ` set (dedup_by_key f (y # xs)). f x < z" using lt by (simp only:)
    then show ?thesis using 1 False by simp
  qed
qed auto

lemma dedup_sort_distinct: "distinct (map f (dedup_by_key f (sort_key f ops)))"
  using dedup_strict[of f "sort_key f ops"] by (simp add: strict_sorted_iff)

lemma oq_new_ok: "oq_inv ts (oq_new ts)" "tree_items (oq_new ts) = []"
  by (simp_all add: oq_inv_def oq_new_def stree_new_def wf_tree_def STACK_CAP_def)

lemma oq_len_ok:
  assumes "wf_tree (oq_summary ts) q" "ops_sorted ts (tree_items q)"
  shows "oq_len q = Some (length (tree_items q))"
  using wf_tree_summary[OF assms(1)] sumof_oq[OF assms(2)] by (simp add: oq_len_def op_sum_def)

lemma op_key_in: "op_key ts x \<in> op_key ts ` A \<longleftrightarrow> ts x \<in> ts ` A"
  by (auto simp: op_key_def)

lemma oq_insert_ok:
  assumes "oq_inv ts q" "\<forall>x \<in> set ops. op_valid ts x"
  shows "\<exists>q'. oq_insert ts q ops = Some q' \<and> wf_tree (oq_summary ts) q' \<and> ops_sorted ts (tree_items q') \<and>
    ts ` set (tree_items q') = ts ` set (tree_items q) \<union> ts ` set ops \<and>
    set (tree_items q') \<subseteq> {x \<in> set (tree_items q). ts x \<notin> ts ` set ops} \<union> set ops"
proof -
  let ?ops = "dedup_by_key ts (sort_key ts ops)" and ?es = "map Insert (dedup_by_key ts (sort_key ts ops)) :: ('a, lamport checked) edit list"
  have q: "wf_tree (oq_summary ts) q" "height q < STACK_CAP" "ops_sorted ts (tree_items q)"
    using assms(1) by (simp_all add: oq_inv_def)
  have inj: "op_key ts x = op_key ts y \<longleftrightarrow> ts x = ts y" for x y by (simp add: op_key_def)
  have "map (edit_key (op_key ts)) ?es = map (op_key ts) ?ops" by simp
  then have d: "distinct (map (edit_key (op_key ts)) ?es)"
    using dedup_sort_distinct[of ts ops] by (simp add: distinct_map inj_on_def inj)
  have s: "set ?ops \<subseteq> set ops" "ts ` set ?ops = ts ` set ops"
    using set_dedup(2)[of ts "sort_key ts ops"] set_dedup(1)[of ts "sort_key ts ops"] unfolding set_sort by blast+
  have v: "\<forall>x \<in> set (inserted ?es). op_valid ts x" using s(1) assms(2) by (auto simp: inserted_Insert)
  have ks: "op_key ts x \<in> edit_keys (op_key ts) ?es \<longleftrightarrow> ts x \<in> ts ` set ops" for x
    unfolding edit_keys_Insert op_key_in s(2) by (rule refl)
  obtain q' where q': "keyed_edit (oq_summary ts) oq_dim (op_key ts) q ?es =
      Some (q', filter (\<lambda>x. op_key ts x \<in> edit_keys (op_key ts) ?es) (tree_items q))"
    "wf_tree (oq_summary ts) q'" "ops_sorted ts (tree_items q')"
    "set (tree_items q') = {x \<in> set (tree_items q). op_key ts x \<notin> edit_keys (op_key ts) ?es} \<union> set (inserted ?es)"
    using oq.keyed_edit_ok[OF q d v] by blast
  have "ts ` set (tree_items q') = ts ` set (tree_items q) \<union> ts ` set ops"
    unfolding q'(4) ks inserted_Insert image_Un s(2) by auto
  moreover have "set (tree_items q') \<subseteq> {x \<in> set (tree_items q). ts x \<notin> ts ` set ops} \<union> set ops"
    unfolding q'(4) ks inserted_Insert using s(1) by auto
  ultimately show ?thesis using q'(1-3) by (simp add: oq_insert_def)
qed

section \<open>Properties\<close>

text \<open>C20: Inserting operations whose timestamps are above the least one never panics; the queue then
  holds one operation for each timestamp it held or was given, new operations replacing queued
  ones with the same timestamp, in the order of the timestamps; its length is their number, the
  iterator yields them in order, and draining returns all of them and empties the queue.\<close>

theorem operation_queue_correct:
  assumes "oq_inv ts q" "\<forall>x \<in> set ops. op_valid ts x"
  shows "(\<exists>q'. oq_insert ts q ops = Some q' \<and> wf_tree (oq_summary ts) q' \<and>
       sorted_wrt (\<lambda>x y. ts x < ts y) (tree_items q') \<and>
       ts ` set (tree_items q') = ts ` set (tree_items q) \<union> ts ` set ops \<and>
       set (tree_items q') \<subseteq> {x \<in> set (tree_items q). ts x \<notin> ts ` set ops} \<union> set ops \<and>
       oq_len q' = Some (length (tree_items q'))) \<and>
     oq_iter q = Some (tree_items q) \<and> fst (oq_drain ts q) = q \<and> oq_is_empty (snd (oq_drain ts q)) = Some True"
proof (intro conjI)
  obtain q' where q': "oq_insert ts q ops = Some q'" "wf_tree (oq_summary ts) q'" "ops_sorted ts (tree_items q')"
    "ts ` set (tree_items q') = ts ` set (tree_items q) \<union> ts ` set ops"
    "set (tree_items q') \<subseteq> {x \<in> set (tree_items q). ts x \<notin> ts ` set ops} \<union> set ops"
    using oq_insert_ok[OF assms] by blast
  have "sorted_wrt (\<lambda>x y. ts x < ts y) (tree_items q')" using q'(3) by (simp add: key_sorted_def op_key_def)
  then show "\<exists>q'. oq_insert ts q ops = Some q' \<and> wf_tree (oq_summary ts) q' \<and>
       sorted_wrt (\<lambda>x y. ts x < ts y) (tree_items q') \<and>
       ts ` set (tree_items q') = ts ` set (tree_items q) \<union> ts ` set ops \<and>
       set (tree_items q') \<subseteq> {x \<in> set (tree_items q). ts x \<notin> ts ` set ops} \<union> set ops \<and>
       oq_len q' = Some (length (tree_items q'))"
    using q' oq_len_ok[OF q'(2,3)] by blast
  show "oq_iter q = Some (tree_items q)"
    using oq.collect_new_iter[of ts q] assms(1) by (simp add: oq_iter_def oq_inv_def)
  show "fst (oq_drain ts q) = q" "oq_is_empty (snd (oq_drain ts q)) = Some True"
    using oq_len_ok[of ts "oq_new ts"] oq_new_ok[of ts]
    by (simp_all add: oq_drain_def oq_is_empty_def oq_inv_def flip: oq_new_def)
qed

theorem operation_queue_correct_witness:
  "\<exists>q'. oq_insert fst (oq_new fst) [(Lamport 2 0, ''b''), (Lamport 1 0, ''a''), (Lamport 2 0, ''b'')] = Some q' \<and>
     fst ` set (tree_items q') = {Lamport 1 0, Lamport 2 0}"
proof -
  have v: "\<forall>x \<in> set [(Lamport 2 0, ''b''), (Lamport 1 0, ''a''), (Lamport 2 0, ''b'')]. op_valid fst x"
    by (auto simp: op_valid_def LAMPORT_MIN_def less_lamport_def)
  from operation_queue_correct[OF oq_new_ok(1) v, THEN conjunct1] show ?thesis
    by (auto simp: oq_new_ok(2) insert_commute)
qed

text \<open>An operation with the least timestamp trips the assertion of the summary as soon as a
  second operation is queued with it.\<close>

theorem least_timestamp_panics:
  "\<exists>q q'. oq_insert fst (oq_new fst) [(LAMPORT_MIN, ''a'')] = Some q \<and> oq_len q = Some 1 \<and>
     oq_insert fst q [(Lamport 1 0, ''b'')] = Some q' \<and> oq_len q' = None"
proof (intro exI conjI)
  let ?q = "the (oq_insert fst (oq_new fst) [(LAMPORT_MIN, ''a'')])"
  show "oq_insert fst (oq_new fst) [(LAMPORT_MIN, ''a'')] = Some ?q" "oq_len ?q = Some 1"
    "oq_insert fst ?q [(Lamport 1 0, ''b'')] = Some (the (oq_insert fst ?q [(Lamport 1 0, ''b'')]))"
    "oq_len (the (oq_insert fst ?q [(Lamport 1 0, ''b'')])) = None"
    by code_simp+
qed

end
