(* ===== verification/Patch.thy ===== *)
theory Patch
  imports Prelude
begin

text \<open>
  Patches (\<open>crates/text/src/patch.rs\<close>): lists of replaced ranges between two versions of a text,
  with their composition and the translation of positions, on \<open>usize\<close> offsets. A subtraction that
  would go below zero is \<open>None\<close>. The specification is \<open>patch_between\<close>: outside the replaced
  ranges the two texts agree, in order. The lemmas show that \<open>compose\<close> of a patch from \<open>A\<close> to
  \<open>B\<close> with one from \<open>B\<close> to \<open>C\<close> is a patch from \<open>A\<close> to \<open>C\<close>.
\<close>

section \<open>Edits and patches\<close>

record text_edit =
  old_start :: nat
  old_end :: nat
  new_start :: nat
  new_end :: nat

type_synonym patch = "text_edit list"

definition edit_is_empty :: "text_edit \<Rightarrow> bool" where
  "edit_is_empty e \<longleftrightarrow> old_start e = old_end e \<and> new_start e = new_end e"

definition old_len :: "text_edit \<Rightarrow> nat option" where
  "old_len e = csub (old_end e) (old_start e)"

definition new_len :: "text_edit \<Rightarrow> nat option" where
  "new_len e = csub (new_end e) (new_start e)"

definition patch_new :: "text_edit list \<Rightarrow> patch" where
  "patch_new edits = edits"

definition patch_is_empty :: "patch \<Rightarrow> bool" where
  "patch_is_empty p \<longleftrightarrow> p = []"

definition invert_edit :: "text_edit \<Rightarrow> text_edit" where
  "invert_edit e = \<lparr>old_start = new_start e, old_end = new_end e, new_start = old_start e, new_end = old_end e\<rparr>"

definition patch_invert :: "patch \<Rightarrow> patch" where
  "patch_invert p = map invert_edit p"

definition patch_clear :: "patch \<Rightarrow> patch" where
  "patch_clear p = []"

definition push_maybe_empty :: "patch \<Rightarrow> text_edit \<Rightarrow> patch" where
  "push_maybe_empty p e =
     (case last_opt p of
        Some l \<Rightarrow>
          if old_start e \<le> old_end l
          then butlast p @ [l\<lparr>old_end := old_end e, new_end := new_end e\<rparr>]
          else p @ [e]
      | None \<Rightarrow> p @ [e])"

definition patch_push :: "patch \<Rightarrow> text_edit \<Rightarrow> patch" where
  "patch_push p e = (if edit_is_empty e then p else push_maybe_empty p e)"

definition patch_retain_mut :: "(text_edit \<Rightarrow> text_edit \<times> bool) \<Rightarrow> patch \<Rightarrow> patch" where
  "patch_retain_mut f p = map fst (filter snd (map f p))"

section \<open>Composition\<close>

text \<open>The position reached in the two outer texts and the patch built so far: \<open>old_start\<close>,
  \<open>new_start\<close> and \<open>composed\<close> of the code.\<close>

record composition =
  cp_old :: nat
  cp_new :: nat
  cp_composed :: patch

definition compose_push :: "composition \<Rightarrow> nat \<Rightarrow> nat \<Rightarrow> composition" where
  "compose_push s old_e new_e =
     \<lparr>cp_old = old_e, cp_new = new_e,
      cp_composed = patch_push (cp_composed s)
        \<lparr>old_start = cp_old s, old_end = old_e, new_start = cp_new s, new_end = new_e\<rparr>\<rparr>"

definition catch_up :: "composition \<Rightarrow> nat \<Rightarrow> composition" where
  "catch_up s n = s\<lparr>cp_old := cp_old s + n, cp_new := cp_new s + n\<rparr>"

text \<open>An old edit that ends before the next new edit starts, and a new edit that ends before the
  next old edit starts, are copied.\<close>

definition copy_old :: "composition \<Rightarrow> text_edit \<Rightarrow> composition option" where
  "copy_old s e = do {
     catchup \<leftarrow> csub (old_start e) (cp_old s);
     let s = catch_up s catchup;
     ol \<leftarrow> old_len e;
     nl \<leftarrow> new_len e;
     Some (compose_push s (cp_old s + ol) (cp_new s + nl))
   }"

definition copy_new :: "composition \<Rightarrow> text_edit \<Rightarrow> composition option" where
  "copy_new s e = do {
     catchup \<leftarrow> csub (new_start e) (cp_new s);
     let s = catch_up s catchup;
     ol \<leftarrow> old_len e;
     nl \<leftarrow> new_len e;
     Some (compose_push s (cp_old s + ol) (cp_new s + nl))
   }"

text \<open>Two edits that touch: first the part of one that lies in front of the other, then the part
  they share, which uses up one of them.\<close>

definition compose_front ::
  "composition \<Rightarrow> text_edit \<Rightarrow> text_edit \<Rightarrow> (composition \<times> text_edit \<times> text_edit) option" where
  "compose_front s old_edit new_edit =
     (if new_start old_edit < old_start new_edit then do {
        catchup \<leftarrow> csub (old_start old_edit) (cp_old s);
        let s = catch_up s catchup;
        overshoot \<leftarrow> csub (old_start new_edit) (new_start old_edit);
        let old_e = min (cp_old s + overshoot) (old_end old_edit);
        let new_e = cp_new s + overshoot;
        Some (compose_push s old_e new_e,
              old_edit\<lparr>old_start := old_e, new_start := new_start old_edit + overshoot\<rparr>, new_edit)
      } else do {
        catchup \<leftarrow> csub (new_start new_edit) (cp_new s);
        let s = catch_up s catchup;
        overshoot \<leftarrow> csub (new_start old_edit) (old_start new_edit);
        let old_e = cp_old s + overshoot;
        let new_e = min (cp_new s + overshoot) (new_end new_edit);
        Some (compose_push s old_e new_e,
              old_edit, new_edit\<lparr>old_start := old_start new_edit + overshoot, new_start := new_e\<rparr>)
      })"

datatype rest = OldRest text_edit | NewRest text_edit

definition compose_shared :: "composition \<Rightarrow> text_edit \<Rightarrow> text_edit \<Rightarrow> (composition \<times> rest) option" where
  "compose_shared s old_edit new_edit =
     (if new_end old_edit > old_end new_edit then do {
        ol \<leftarrow> old_len old_edit;
        ol' \<leftarrow> old_len new_edit;
        nl \<leftarrow> new_len new_edit;
        let old_e = cp_old s + min ol ol';
        let new_e = cp_new s + nl;
        Some (compose_push s old_e new_e,
              OldRest (old_edit\<lparr>old_start := old_e, new_start := old_end new_edit\<rparr>))
      } else do {
        ol \<leftarrow> old_len old_edit;
        nl \<leftarrow> new_len old_edit;
        nl' \<leftarrow> new_len new_edit;
        let old_e = cp_old s + ol;
        let new_e = cp_new s + min nl nl';
        Some (compose_push s old_e new_e,
              NewRest (new_edit\<lparr>old_start := new_end old_edit, new_start := new_e\<rparr>))
      })"

fun olds_first :: "patch \<Rightarrow> patch \<Rightarrow> bool" where
  "olds_first [] news = False"
| "olds_first (o1 # olds) [] = True"
| "olds_first (o1 # olds) (n1 # news) = (new_end o1 < old_start n1)"

fun news_first :: "patch \<Rightarrow> patch \<Rightarrow> bool" where
  "news_first olds [] = False"
| "news_first [] (n1 # news) = True"
| "news_first (o1 # olds) (n1 # news) = (old_end n1 < new_start o1)"

function compose_loop :: "patch \<Rightarrow> patch \<Rightarrow> composition \<Rightarrow> composition option" where
  "compose_loop olds news s =
     (if olds_first olds news then
        (case copy_old s (hd olds) of None \<Rightarrow> None | Some s \<Rightarrow> compose_loop (tl olds) news s)
      else if news_first olds news then
        (case copy_new s (hd news) of None \<Rightarrow> None | Some s \<Rightarrow> compose_loop olds (tl news) s)
      else case (olds, news) of
        (o1 # olds', n1 # news') \<Rightarrow>
          (case compose_front s o1 n1 of None \<Rightarrow> None | Some (s, o2, n2) \<Rightarrow>
            (case compose_shared s o2 n2 of
               None \<Rightarrow> None
             | Some (s, OldRest o3) \<Rightarrow> compose_loop (o3 # olds') news' s
             | Some (s, NewRest n3) \<Rightarrow> compose_loop olds' (n3 # news') s))
      | _ \<Rightarrow> Some s)"
  by pat_completeness auto
termination
proof (relation "measure (\<lambda>(olds, news, s). length olds + length news)", goal_cases)
  case (2 olds news s x)
  then show ?case by (cases olds) auto
next
  case (3 olds news s x)
  then show ?case by (cases news; cases olds) auto
qed auto

declare compose_loop.simps [simp del]

definition patch_compose :: "patch \<Rightarrow> text_edit list \<Rightarrow> patch option" where
  "patch_compose p new_edits =
     map_option cp_composed (compose_loop p new_edits \<lparr>cp_old = 0, cp_new = 0, cp_composed = []\<rparr>)"

section \<open>Translating positions\<close>

text \<open>\<open>binary_search_by\<close> on increasing keys: \<open>Inl\<close> the index of the key, or \<open>Inr\<close> the place
  where it would be inserted.\<close>

definition search_index :: "nat list \<Rightarrow> nat \<Rightarrow> nat + nat" where
  "search_index ks k =
     (let i = length (takeWhile (\<lambda>x. x < k) ks) in if nth_opt ks i = Some k then Inl i else Inr i)"

definition search_edit :: "patch \<Rightarrow> nat \<Rightarrow> nat option" where
  "search_edit p old =
     (case search_index (map old_start p) old of
        Inl ix \<Rightarrow> Some ix
      | Inr ix \<Rightarrow> if ix = 0 then None else Some (ix - 1))"

definition old_to_new :: "patch \<Rightarrow> nat \<Rightarrow> nat" where
  "old_to_new p old =
     (case search_edit p old of
        None \<Rightarrow> old
      | Some ix \<Rightarrow>
          (case nth_opt p ix of
             None \<Rightarrow> old
           | Some e \<Rightarrow> if old \<ge> old_end e then new_end e + (old - old_end e) else new_start e))"

definition empty_edit :: "nat \<Rightarrow> nat \<Rightarrow> text_edit" where
  "empty_edit old new = \<lparr>old_start = old, old_end = old, new_start = new, new_end = new\<rparr>"

definition edit_for_old_position :: "patch \<Rightarrow> nat \<Rightarrow> text_edit" where
  "edit_for_old_position p old =
     (case search_edit p old of
        None \<Rightarrow> empty_edit old old
      | Some ix \<Rightarrow>
          (case nth_opt p ix of
             None \<Rightarrow> empty_edit old old
           | Some e \<Rightarrow> if old > old_end e then empty_edit old (new_end e + (old - old_end e)) else e))"

section \<open>What a patch means\<close>

text \<open>\<open>kept A B i j i' j'\<close>: the text of \<open>A\<close> from \<open>i\<close> to \<open>i'\<close> is that of \<open>B\<close> from \<open>j\<close> to \<open>j'\<close>.
  \<open>patch_seg\<close>: the edits lead from \<open>(i, j)\<close> to \<open>(i', j')\<close>, keeping the text between them.\<close>

definition kept :: "'c list \<Rightarrow> 'c list \<Rightarrow> nat \<Rightarrow> nat \<Rightarrow> nat \<Rightarrow> nat \<Rightarrow> bool" where
  "kept A B i j i' j' \<longleftrightarrow> i \<le> i' \<and> j \<le> j' \<and> i' \<le> length A \<and> j' \<le> length B \<and> i' - i = j' - j \<and>
     (\<forall>k < i' - i. A ! (i + k) = B ! (j + k))"

definition edit_ordered :: "text_edit \<Rightarrow> bool" where
  "edit_ordered e \<longleftrightarrow> old_start e \<le> old_end e \<and> new_start e \<le> new_end e"

fun patch_seg :: "'c list \<Rightarrow> 'c list \<Rightarrow> nat \<Rightarrow> nat \<Rightarrow> patch \<Rightarrow> nat \<Rightarrow> nat \<Rightarrow> bool" where
  "patch_seg A B i j [] i' j' \<longleftrightarrow> kept A B i j i' j'"
| "patch_seg A B i j (e # es) i' j' \<longleftrightarrow> kept A B i j (old_start e) (new_start e) \<and> edit_ordered e \<and>
     patch_seg A B (old_end e) (new_end e) es i' j'"

definition patch_between :: "'c list \<Rightarrow> 'c list \<Rightarrow> patch \<Rightarrow> bool" where
  "patch_between A B p \<longleftrightarrow> patch_seg A B 0 0 p (length A) (length B)"

text \<open>The normal form that \<open>Patch::new\<close> asserts in debug builds: there is kept text between any
  two edits.\<close>

fun patch_normal :: "patch \<Rightarrow> bool" where
  "patch_normal (e # f # es) \<longleftrightarrow> old_end e < old_start f \<and> new_end e < new_start f \<and> patch_normal (f # es)"
| "patch_normal es \<longleftrightarrow> True"

lemma keptI:
  assumes "i' = i + n" "j' = j + n" "i + n \<le> length A" "j + n \<le> length B" "\<And>k. k < n \<Longrightarrow> A ! (i + k) = B ! (j + k)"
  shows "kept A B i j i' j'"
  using assms by (simp add: kept_def)

lemma kept_iff:
  "kept A B i j i' j' \<longleftrightarrow> (\<exists>n. i' = i + n \<and> j' = j + n \<and> i + n \<le> length A \<and> j + n \<le> length B \<and>
     (\<forall>k < n. A ! (i + k) = B ! (j + k)))" (is "_ \<longleftrightarrow> ?r")
proof
  assume "kept A B i j i' j'"
  then show ?r by (intro exI[of _ "i' - i"]) (auto simp: kept_def)
qed (auto simp: kept_def)

lemma kept_refl: "i \<le> length A \<Longrightarrow> j \<le> length B \<Longrightarrow> kept A B i j i j"
  by (simp add: kept_def)

lemma kept_append:
  assumes "kept A B i j i1 j1" "kept A B i1 j1 i2 j2" shows "kept A B i j i2 j2"
proof -
  obtain n where n: "i1 = i + n" "j1 = j + n" "\<forall>k < n. A ! (i + k) = B ! (j + k)"
    using assms(1) unfolding kept_iff by blast
  obtain m where m: "i2 = i1 + m" "j2 = j1 + m" "i1 + m \<le> length A" "j1 + m \<le> length B"
    "\<forall>k < m. A ! (i1 + k) = B ! (j1 + k)"
    using assms(2) unfolding kept_iff by blast
  have "A ! (i + k) = B ! (j + k)" if "k < n + m" for k
  proof (cases "k < n")
    case True
    then show ?thesis using n(3) by blast
  next
    case False
    define l where "l = k - n"
    have l: "k = n + l" "l < m" using that False by (simp_all add: l_def)
    then have "A ! (i1 + l) = B ! (j1 + l)" using m(5) by blast
    then show ?thesis by (simp only: l(1) n(1,2) add.assoc)
  qed
  then have all: "\<forall>k < n + m. A ! (i + k) = B ! (j + k)" by blast
  show ?thesis unfolding kept_iff
    by (intro exI[of _ "n + m"] conjI all) (use m(1-4) n(1,2) in simp_all)
qed

lemma kept_trans:
  assumes "kept A B i j i' j'" "kept B C j k j' k'" shows "kept A C i k i' k'"
  using assms by (auto simp: kept_def)

lemma kept_split:
  assumes "kept A B i j i' j'" "n \<le> i' - i"
  shows "kept A B i j (i + n) (j + n)" "kept A B (i + n) (j + n) i' j'"
proof -
  obtain m where m: "i' = i + m" "j' = j + m" "i + m \<le> length A" "j + m \<le> length B"
    "\<forall>k < m. A ! (i + k) = B ! (j + k)" using assms(1) unfolding kept_iff by blast
  have n: "n \<le> m" using assms(2) m(1) by simp
  then have l: "\<forall>k < n. A ! (i + k) = B ! (j + k)" using m(5) by simp
  show "kept A B i j (i + n) (j + n)" unfolding kept_iff
    by (intro exI[of _ n] conjI l) (use m(1-4) n in simp_all)
  have "A ! (i + n + k) = B ! (j + n + k)" if "k < m - n" for k
    using m(5)[rule_format, of "n + k"] that by (simp add: add.assoc)
  then have r: "\<forall>k < m - n. A ! (i + n + k) = B ! (j + n + k)" by blast
  show "kept A B (i + n) (j + n) i' j'" unfolding kept_iff
    by (intro exI[of _ "m - n"] conjI r) (use m(1-4) n in simp_all)
qed

lemma kept_sym: "kept A B i j i' j' \<Longrightarrow> kept B A j i j' i'"
  by (auto simp: kept_def)

lemma patch_seg_bounds:
  "patch_seg A B i j es i' j' \<Longrightarrow> i \<le> i' \<and> j \<le> j' \<and> i' \<le> length A \<and> j' \<le> length B"
proof (induction es arbitrary: i j)
  case (Cons e es)
  then show ?case by (fastforce simp: kept_def edit_ordered_def)
qed (simp add: kept_def)

lemma patch_seg_snoc:
  "patch_seg A B i j (es @ [e]) i' j' \<longleftrightarrow> patch_seg A B i j es (old_start e) (new_start e) \<and> edit_ordered e \<and>
     kept A B (old_end e) (new_end e) i' j'"
  by (induction es arbitrary: i j) auto

lemma patch_seg_extend:
  "patch_seg A B i j es i1 j1 \<Longrightarrow> kept A B i1 j1 i2 j2 \<Longrightarrow> patch_seg A B i j es i2 j2"
  by (induction es arbitrary: i j) (auto intro: kept_append)

lemma patch_seg_skip:
  "patch_seg A B i j (e # es) i' j' \<Longrightarrow> n \<le> old_start e - i \<Longrightarrow> patch_seg A B (i + n) (j + n) (e # es) i' j'"
  by (auto intro: kept_split(2))

lemma patch_seg_skip_Nil:
  "patch_seg A B i j [] i' j' \<Longrightarrow> n \<le> i' - i \<Longrightarrow> patch_seg A B (i + n) (j + n) [] i' j'"
  by (auto intro: kept_split(2))

lemma patch_normal_Cons:
  "patch_normal (e # es) \<longleftrightarrow> patch_normal es \<and>
     (case es of [] \<Rightarrow> True | f # _ \<Rightarrow> old_end e < old_start f \<and> new_end e < new_start f)"
  by (cases es) auto

lemma patch_normal_snoc:
  "patch_normal (es @ [e]) \<longleftrightarrow> patch_normal es \<and>
     (es = [] \<or> (old_end (last es) < old_start e \<and> new_end (last es) < new_start e))"
  by (induction es rule: patch_normal.induct) auto

section \<open>Pushing\<close>

lemma patch_push_ok:
  assumes "patch_seg A B 0 0 p (old_start e) (new_start e)" "edit_ordered e"
    "old_end e \<le> length A" "new_end e \<le> length B" "patch_normal p"
  shows "patch_seg A B 0 0 (patch_push p e) (old_end e) (new_end e) \<and> patch_normal (patch_push p e)"
proof (cases "edit_is_empty e")
  case True
  then show ?thesis using assms by (simp add: patch_push_def edit_is_empty_def)
next
  case ne: False
  have refl: "kept A B (old_end e) (new_end e) (old_end e) (new_end e)" using assms by (simp add: kept_def)
  show ?thesis
  proof (cases p rule: rev_cases)
    case Nil
    then show ?thesis using assms ne refl by (simp add: patch_push_def push_maybe_empty_def)
  next
    case (snoc q l)
    then have l: "patch_seg A B 0 0 q (old_start l) (new_start l)" "edit_ordered l"
      "kept A B (old_end l) (new_end l) (old_start e) (new_start e)"
      using assms(1) by (simp_all add: patch_seg_snoc)
    show ?thesis
    proof (cases "old_start e \<le> old_end l")
      case True
      then have "old_start e = old_end l" "new_start e = new_end l" using l(3) by (auto simp: kept_def)
      moreover from this have "patch_push p e = q @ [l\<lparr>old_end := old_end e, new_end := new_end e\<rparr>]"
        using ne snoc by (simp add: patch_push_def push_maybe_empty_def last_opt_iff)
      ultimately show ?thesis using l assms snoc refl
        by (auto simp: patch_seg_snoc patch_normal_snoc edit_ordered_def)
    next
      case False
      then have "patch_push p e = p @ [e]"
        using ne snoc by (simp add: patch_push_def push_maybe_empty_def last_opt_iff)
      moreover have "new_end l < new_start e" using False l(3) by (auto simp: kept_def)
      moreover have "last p = l" using snoc by simp
      ultimately show ?thesis using assms refl False by (simp add: patch_seg_snoc patch_normal_snoc)
    qed
  qed
qed

section \<open>The composition is a patch between the outer texts\<close>

definition composing :: "'c list \<Rightarrow> 'c list \<Rightarrow> composition \<Rightarrow> bool" where
  "composing A C s \<longleftrightarrow> patch_seg A C 0 0 (cp_composed s) (cp_old s) (cp_new s) \<and> patch_normal (cp_composed s)"

text \<open>\<open>between_texts\<close>: the old edits left over lead from the position in \<open>A\<close>, and the new
  ones to the position in \<open>C\<close>, through a common position \<open>b\<close> of \<open>B\<close>.\<close>

definition between_texts ::
  "'c list \<Rightarrow> 'c list \<Rightarrow> 'c list \<Rightarrow> patch \<Rightarrow> patch \<Rightarrow> nat \<Rightarrow> composition \<Rightarrow> bool" where
  "between_texts A B C olds news b s \<longleftrightarrow> composing A C s \<and>
     patch_seg A B (cp_old s) b olds (length A) (length B) \<and> patch_seg B C b (cp_new s) news (length B) (length C)"

lemma compose_push_fields [simp]:
  "cp_old (compose_push s oe ne) = oe" "cp_new (compose_push s oe ne) = ne"
  by (simp_all add: compose_push_def)

lemma catch_up_fields [simp]:
  "cp_old (catch_up s n) = cp_old s + n" "cp_new (catch_up s n) = cp_new s + n"
  "cp_composed (catch_up s n) = cp_composed s"
  by (simp_all add: catch_up_def)

lemma compose_push_ok:
  assumes "composing A C s" "cp_old s \<le> oe" "oe \<le> length A" "cp_new s \<le> ne" "ne \<le> length C"
  shows "composing A C (compose_push s oe ne)"
  using patch_push_ok[of A C "cp_composed s" "\<lparr>old_start = cp_old s, old_end = oe, new_start = cp_new s, new_end = ne\<rparr>"]
    assms by (simp add: composing_def compose_push_def edit_ordered_def)

lemma catch_up_ok:
  assumes "composing A C s" "kept A C (cp_old s) (cp_new s) (cp_old s + n) (cp_new s + n)"
  shows "composing A C (catch_up s n)"
  using assms by (auto simp: composing_def intro: patch_seg_extend)

lemma news_skip:
  assumes "patch_seg B C b k news (length B) (length C)" "b + n \<le> length B"
    "\<And>e es. news = e # es \<Longrightarrow> b + n \<le> old_start e"
  shows "patch_seg B C (b + n) (k + n) news (length B) (length C) \<and> kept B C b k (b + n) (k + n)"
proof (cases news)
  case Nil
  then have "kept B C b k (length B) (length C)" "n \<le> length B - b" using assms by simp_all
  from kept_split[OF this] show ?thesis using Nil by simp
next
  case (Cons e es)
  then have "kept B C b k (old_start e) (new_start e)" "n \<le> old_start e - b" using assms by fastforce+
  from kept_split[OF this] show ?thesis using Cons assms(1) by simp
qed

lemma olds_skip:
  assumes "patch_seg A B i b olds (length A) (length B)" "b + n \<le> length B"
    "\<And>e es. olds = e # es \<Longrightarrow> b + n \<le> new_start e"
  shows "patch_seg A B (i + n) (b + n) olds (length A) (length B) \<and> kept A B i b (i + n) (b + n)"
proof (cases olds)
  case Nil
  then have k: "kept A B i b (length A) (length B)" using assms by simp
  then have "n \<le> length A - i" using assms(2) by (simp add: kept_def)
  from kept_split[OF k this] show ?thesis using Nil by simp
next
  case (Cons e es)
  then have k: "kept A B i b (old_start e) (new_start e)" "b + n \<le> new_start e" using assms by auto
  then have "n \<le> old_start e - i" by (simp add: kept_def)
  from kept_split[OF k(1) this] show ?thesis using Cons assms(1) by simp
qed

lemma copy_old_ok:
  assumes "between_texts A B C (e # olds) news b s" "\<And>n ns. news = n # ns \<Longrightarrow> new_end e < old_start n"
  shows "\<exists>s'. copy_old s e = Some s' \<and> between_texts A B C olds news (new_end e) s'"
proof -
  have e: "kept A B (cp_old s) b (old_start e) (new_start e)" "edit_ordered e"
    "patch_seg A B (old_end e) (new_end e) olds (length A) (length B)"
    and c: "composing A C s" and n: "patch_seg B C b (cp_new s) news (length B) (length C)"
    using assms(1) by (simp_all add: between_texts_def)
  obtain k where k: "old_start e = cp_old s + k" "new_start e = b + k" using e(1) unfolding kept_iff by blast
  obtain ol nl where l: "old_end e = old_start e + ol" "new_end e = new_start e + nl"
    using e(2) by (auto simp: edit_ordered_def le_iff_add)
  have en: "new_end e \<le> length B" "old_end e \<le> length A" using patch_seg_bounds[OF e(3)] by simp_all
  have "\<And>f fs. news = f # fs \<Longrightarrow> b + (k + nl) \<le> old_start f" using assms(2) k l by fastforce
  from news_skip[OF n _ this] have
    sk: "patch_seg B C (b + (k + nl)) (cp_new s + (k + nl)) news (length B) (length C)"
      "kept B C b (cp_new s) (b + (k + nl)) (cp_new s + (k + nl))"
    using en k l by simp_all
  have "kept B C b (cp_new s) (b + k) (cp_new s + k)" using kept_split(1)[OF sk(2), of k] by simp
  then have "composing A C (catch_up s k)"
    using catch_up_ok[OF c kept_trans] e(1) k by metis
  moreover have "cp_new s + (k + nl) \<le> length C" using sk(2) by (simp add: kept_def)
  ultimately have "composing A C (compose_push (catch_up s k) (cp_old s + k + ol) (cp_new s + k + nl))"
    using en k l by (intro compose_push_ok) (simp_all add: add.assoc)
  then show ?thesis using e(3) sk(1) k l
    by (simp add: copy_old_def between_texts_def old_len_def new_len_def csub_def add.assoc)
qed

lemma copy_new_ok:
  assumes "between_texts A B C olds (e # news) b s" "\<And>f fs. olds = f # fs \<Longrightarrow> old_end e < new_start f"
  shows "\<exists>s'. copy_new s e = Some s' \<and> between_texts A B C olds news (old_end e) s'"
proof -
  have e: "kept B C b (cp_new s) (old_start e) (new_start e)" "edit_ordered e"
    "patch_seg B C (old_end e) (new_end e) news (length B) (length C)"
    and c: "composing A C s" and n: "patch_seg A B (cp_old s) b olds (length A) (length B)"
    using assms(1) by (simp_all add: between_texts_def)
  obtain k where k: "old_start e = b + k" "new_start e = cp_new s + k" using e(1) unfolding kept_iff by blast
  obtain ol nl where l: "old_end e = old_start e + ol" "new_end e = new_start e + nl"
    using e(2) by (auto simp: edit_ordered_def le_iff_add)
  have en: "new_end e \<le> length C" "old_end e \<le> length B" using patch_seg_bounds[OF e(3)] by simp_all
  have "\<And>f fs. olds = f # fs \<Longrightarrow> b + (k + ol) \<le> new_start f" using assms(2) k l by fastforce
  from olds_skip[OF n _ this] have
    sk: "patch_seg A B (cp_old s + (k + ol)) (b + (k + ol)) olds (length A) (length B)"
      "kept A B (cp_old s) b (cp_old s + (k + ol)) (b + (k + ol))"
    using en k l by simp_all
  have "kept A B (cp_old s) b (cp_old s + k) (b + k)" using kept_split(1)[OF sk(2), of k] by simp
  then have "composing A C (catch_up s k)"
    using catch_up_ok[OF c kept_trans] e(1) k by metis
  moreover have "cp_old s + (k + ol) \<le> length A" using sk(2) by (simp add: kept_def)
  ultimately have "composing A C (compose_push (catch_up s k) (cp_old s + k + ol) (cp_new s + k + nl))"
    using en k l by (intro compose_push_ok) (simp_all add: add.assoc)
  then show ?thesis using e(3) sk(1) k l
    by (simp add: copy_new_def between_texts_def old_len_def new_len_def csub_def add.assoc)
qed

lemma compose_front_ok:
  assumes "between_texts A B C (e # olds) (f # news) b s" "old_start f \<le> new_end e" "new_start e \<le> old_end f"
  shows "\<exists>s' e' f'. compose_front s e f = Some (s', e', f') \<and>
    between_texts A B C (e' # olds) (f' # news) (old_start f') s' \<and>
    cp_old s' = old_start e' \<and> cp_new s' = new_start f' \<and> new_start e' = old_start f' \<and>
    old_end e' = old_end e \<and> new_end e' = new_end e \<and> old_end f' = old_end f \<and> new_end f' = new_end f"
proof -
  have e: "kept A B (cp_old s) b (old_start e) (new_start e)" "edit_ordered e"
    "patch_seg A B (old_end e) (new_end e) olds (length A) (length B)"
    and f: "kept B C b (cp_new s) (old_start f) (new_start f)" "edit_ordered f"
    "patch_seg B C (old_end f) (new_end f) news (length B) (length C)"
    and c: "composing A C s" using assms(1) by (simp_all add: between_texts_def)
  obtain i where i: "old_start e = cp_old s + i" "new_start e = b + i" using e(1) unfolding kept_iff by blast
  obtain j where j: "old_start f = b + j" "new_start f = cp_new s + j" using f(1) unfolding kept_iff by blast
  have bounds: "old_end e \<le> length A" "new_end e \<le> length B" "old_end f \<le> length B" "new_end f \<le> length C"
    using patch_seg_bounds[OF e(3)] patch_seg_bounds[OF f(3)] by simp_all
  show ?thesis
  proof (cases "new_start e < old_start f")
    case True
    then obtain m where m: "j = i + m" using i j by (metis add_less_cancel_left less_imp_le le_iff_add)
    let ?s = "catch_up s i" and ?oe = "min (cp_old s + i + m) (old_end e)"
    let ?s' = "compose_push ?s ?oe (cp_new s + i + m)"
    let ?e = "e\<lparr>old_start := ?oe, new_start := new_start e + m\<rparr>"
    have "kept B C b (cp_new s) (b + i) (cp_new s + i)" using kept_split(1)[OF f(1), of i] j m by simp
    then have "composing A C ?s" using catch_up_ok[OF c kept_trans] e(1) i by metis
    then have "composing A C ?s'"
      using e(2) f(2) bounds i j m by (intro compose_push_ok) (auto simp: edit_ordered_def)
    moreover have "kept A B ?oe (b + i + m) ?oe (b + i + m)" "kept B C (b + j) (cp_new s + j) (b + j) (cp_new s + j)"
      using bounds f(2) assms(2) i j m by (auto intro!: kept_refl simp: edit_ordered_def)
    ultimately have "between_texts A B C (?e # olds) (f # news) (old_start f) ?s'"
      using e f assms(2) i j m by (auto simp: between_texts_def edit_ordered_def add.assoc)
    then show ?thesis using True i j m by (simp add: compose_front_def csub_def Let_def add.assoc)
  next
    case False
    then obtain m where m: "i = j + m" using i j by (metis add_le_cancel_left not_less le_iff_add)
    let ?s = "catch_up s j" and ?ne = "min (cp_new s + j + m) (new_end f)"
    let ?s' = "compose_push ?s (cp_old s + j + m) ?ne"
    let ?f = "f\<lparr>old_start := old_start f + m, new_start := ?ne\<rparr>"
    have "kept A B (cp_old s) b (cp_old s + j) (b + j)" using kept_split(1)[OF e(1), of j] i m by simp
    then have "composing A C ?s" using catch_up_ok[OF c kept_trans] f(1) j by metis
    then have "composing A C ?s'"
      using e(2) f(2) bounds i j m by (intro compose_push_ok) (auto simp: edit_ordered_def)
    moreover have "kept B C (b + j + m) ?ne (b + j + m) ?ne" "kept A B (cp_old s + i) (b + i) (cp_old s + i) (b + i)"
      using bounds e(2) assms(3) i j m by (auto intro!: kept_refl simp: edit_ordered_def)
    ultimately have "between_texts A B C (e # olds) (?f # news) (old_start ?f) ?s'"
      using e f assms(3) i j m by (auto simp: between_texts_def edit_ordered_def add.assoc)
    then show ?thesis using False i j m by (simp add: compose_front_def csub_def Let_def add.assoc)
  qed
qed

lemma compose_shared_ok:
  assumes "between_texts A B C (e # olds) (f # news) b s" "cp_old s = old_start e" "cp_new s = new_start f"
    "new_start e = b" "old_start f = b"
  shows "\<exists>s' r. compose_shared s e f = Some (s', r) \<and>
    (case r of OldRest e' \<Rightarrow> \<exists>b'. between_texts A B C (e' # olds) news b' s'
     | NewRest f' \<Rightarrow> \<exists>b'. between_texts A B C olds (f' # news) b' s')"
proof -
  have e: "edit_ordered e" "patch_seg A B (old_end e) (new_end e) olds (length A) (length B)"
    and f: "edit_ordered f" "patch_seg B C (old_end f) (new_end f) news (length B) (length C)"
    and c: "composing A C s" using assms(1) by (simp_all add: between_texts_def)
  have bounds: "old_end e \<le> length A" "new_end e \<le> length B" "old_end f \<le> length B" "new_end f \<le> length C"
    using patch_seg_bounds[OF e(2)] patch_seg_bounds[OF f(2)] by simp_all
  obtain ol nl where l: "old_end e = old_start e + ol" "new_end e = b + nl"
    using e(1) assms(4) by (auto simp: edit_ordered_def le_iff_add)
  obtain ol' nl' where l': "old_end f = b + ol'" "new_end f = new_start f + nl'"
    using f(1) assms(5) by (auto simp: edit_ordered_def le_iff_add)
  show ?thesis
  proof (cases "new_end e > old_end f")
    case True
    let ?s = "compose_push s (old_start e + min ol ol') (new_end f)"
    let ?e = "e\<lparr>old_start := old_start e + min ol ol', new_start := old_end f\<rparr>"
    have "composing A C ?s" using c bounds l l' assms by (intro compose_push_ok) auto
    moreover have "kept A B (old_start e + min ol ol') (old_end f) (old_start e + min ol ol') (old_end f)"
      using bounds l by (intro kept_refl) auto
    ultimately have "between_texts A B C (?e # olds) news (old_end f) ?s"
      using e f True l by (auto simp: between_texts_def edit_ordered_def)
    then show ?thesis using True l l' assms(2-5)
      by (auto simp: compose_shared_def old_len_def new_len_def csub_def Let_def)
  next
    case False
    let ?s = "compose_push s (old_end e) (new_start f + min nl nl')"
    let ?f = "f\<lparr>old_start := new_end e, new_start := new_start f + min nl nl'\<rparr>"
    have "composing A C ?s" using c bounds l l' assms by (intro compose_push_ok) auto
    moreover have "kept B C (new_end e) (new_start f + min nl nl') (new_end e) (new_start f + min nl nl')"
      using bounds l' by (intro kept_refl) auto
    ultimately have "between_texts A B C olds (?f # news) (new_end e) ?s"
      using e f False l l' by (auto simp: between_texts_def edit_ordered_def)
    then show ?thesis using False l l' assms(2-5)
      by (auto simp: compose_shared_def old_len_def new_len_def csub_def Let_def)
  qed
qed

lemma compose_loop_ok:
  "between_texts A B C olds news b s \<Longrightarrow>
   \<exists>s'. compose_loop olds news s = Some s' \<and> patch_between A C (cp_composed s') \<and> patch_normal (cp_composed s')"
proof (induction olds news s arbitrary: b rule: compose_loop.induct)
  case (1 olds news s)
  consider (old) "olds_first olds news" | (new) "\<not> olds_first olds news" "news_first olds news"
    | (both) "\<not> olds_first olds news" "\<not> news_first olds news" by blast
  then show ?case
  proof cases
    case old
    then obtain e es where o: "olds = e # es" by (cases olds) auto
    then have "\<And>n ns. news = n # ns \<Longrightarrow> new_end e < old_start n" using old by auto
    then obtain s' where s': "copy_old s e = Some s'" "between_texts A B C es news (new_end e) s'"
      using copy_old_ok[of A B C e es news b s] 1(5) o by blast
    have "copy_old s (hd olds) = Some s'" using s'(1) o by simp
    from 1(1)[OF old this, of "new_end e"] show ?thesis using s' old o by (subst compose_loop.simps) simp
  next
    case new
    then obtain e es where o: "news = e # es" by (cases news) auto
    then have "\<And>n ns. olds = n # ns \<Longrightarrow> old_end e < new_start n" using new by auto
    then obtain s' where s': "copy_new s e = Some s'" "between_texts A B C olds es (old_end e) s'"
      using copy_new_ok[of A B C olds e es b s] 1(5) o by blast
    have "copy_new s (hd news) = Some s'" using s'(1) o by simp
    from 1(2)[OF new this, of "old_end e"] show ?thesis using s' new o by (subst compose_loop.simps) simp
  next
    case both
    show ?thesis
    proof (cases "olds = [] \<or> news = []")
      case True
      then have "olds = []" "news = []" using both by (cases olds; cases news; auto)+
      moreover from this have "kept A B (cp_old s) b (length A) (length B)" "kept B C b (cp_new s) (length B) (length C)"
        "composing A C s" using 1(5) by (simp_all add: between_texts_def)
      ultimately show ?thesis
        by (subst compose_loop.simps)
          (auto simp: composing_def patch_between_def intro: patch_seg_extend kept_trans)
    next
      case False
      then obtain e es f fs where ol: "olds = e # es" "news = f # fs" by (meson neq_Nil_conv)
      then have le: "old_start f \<le> new_end e" "new_start e \<le> old_end f" using both by auto
      obtain s1 e1 f1 where 2: "compose_front s e f = Some (s1, e1, f1)"
        "between_texts A B C (e1 # es) (f1 # fs) (old_start f1) s1" "cp_old s1 = old_start e1"
        "cp_new s1 = new_start f1" "new_start e1 = old_start f1"
        using compose_front_ok[OF 1(5)[unfolded ol] le] by blast
      obtain s2 r where 3: "compose_shared s1 e1 f1 = Some (s2, r)"
        "case r of OldRest e' \<Rightarrow> \<exists>b'. between_texts A B C (e' # es) fs b' s2
         | NewRest f' \<Rightarrow> \<exists>b'. between_texts A B C es (f' # fs) b' s2"
        using compose_shared_ok[OF 2(2-5) refl] by blast
      show ?thesis
      proof (cases r)
        case (OldRest e')
        then obtain b' where b': "between_texts A B C (e' # es) fs b' s2" using 3(2) by auto
        from 1(3)[OF both _ ol 2(1) refl refl 3(1) refl OldRest b'] show ?thesis
          using both ol 2(1) 3(1) OldRest by (subst compose_loop.simps) simp
      next
        case (NewRest f')
        then obtain b' where b': "between_texts A B C es (f' # fs) b' s2" using 3(2) by auto
        from 1(4)[OF both _ ol 2(1) refl refl 3(1) refl NewRest b'] show ?thesis
          using both ol 2(1) 3(1) NewRest by (subst compose_loop.simps) simp
      qed
    qed
  qed
qed

lemma patch_compose_ok:
  assumes "patch_between A B p" "patch_between B C q"
  shows "\<exists>r. patch_compose p q = Some r \<and> patch_between A C r \<and> patch_normal r"
proof -
  have "between_texts A B C p q 0 \<lparr>cp_old = 0, cp_new = 0, cp_composed = []\<rparr>"
    using assms by (simp add: between_texts_def composing_def patch_between_def kept_refl)
  from compose_loop_ok[OF this] show ?thesis by (auto simp: patch_compose_def)
qed

section \<open>Inversion\<close>

lemma patch_seg_invert:
  "patch_seg A B i j p i' j' \<Longrightarrow> patch_seg B A j i (patch_invert p) j' i'"
  by (induction p arbitrary: i j) (auto simp: patch_invert_def invert_edit_def edit_ordered_def intro: kept_sym)

lemma patch_invert_ok: "patch_between A B p \<Longrightarrow> patch_between B A (patch_invert p)"
  by (simp add: patch_between_def patch_seg_invert)

lemma patch_normal_invert: "patch_normal (patch_invert p) = patch_normal p"
  by (induction p rule: patch_normal.induct) (auto simp: patch_invert_def invert_edit_def)

section \<open>Positions\<close>

text \<open>The translation as a walk over the edits.\<close>

fun walk_position :: "nat \<Rightarrow> nat \<Rightarrow> patch \<Rightarrow> nat \<Rightarrow> nat" where
  "walk_position i j [] old = j + (old - i)"
| "walk_position i j (e # es) old =
     (if old < old_start e then j + (old - i)
      else if old < old_end e then new_start e
      else walk_position (old_end e) (new_end e) es old)"

lemma normal_starts:
  assumes "patch_seg A B i j p i' j'" "patch_normal p"
  shows "sorted_wrt (<) (map old_start p)"
  using assms
proof (induction p arbitrary: i j)
  case (Cons e es)
  then have IH: "sorted_wrt (<) (map old_start es)" by (auto simp: patch_normal_Cons)
  show ?case
  proof (cases es)
    case (Cons f fs)
    then have "old_start e < old_start f" using Cons.prems by (auto simp: edit_ordered_def)
    then show ?thesis using IH Cons by auto
  qed simp
qed simp

lemma filter_below_none:
  "\<forall>x \<in> set xs. f a < f x \<Longrightarrow> \<not> f a < (k :: nat) \<Longrightarrow>
   filter (\<lambda>x. f x < k) xs = [] \<and> filter (\<lambda>x. \<not> f x < k) xs = xs"
  by (auto simp: filter_empty_conv filter_id_conv)

lemma takeWhile_less_sorted:
  assumes "sorted_wrt (<) ks"
  shows "takeWhile (\<lambda>x. x < k) ks = filter (\<lambda>x. x < k) (ks :: nat list)"
  using assms filter_below_none[of _ "\<lambda>x. x"] by (induction ks) auto

text \<open>The search returns the last edit that starts at or before the position.\<close>

lemma search_edit_last:
  assumes "sorted_wrt (<) (map old_start p)"
  shows "Option.bind (search_edit p old) (nth_opt p) = last_opt (filter (\<lambda>e. old_start e \<le> old) p)"
proof -
  let ?ks = "map old_start p" and ?i = "length (filter (\<lambda>x. x < old) (map old_start p))"
  define a where "a = filter (\<lambda>e. old_start e < old) p"
  define b where "b = filter (\<lambda>e. \<not> old_start e < old) p"
  have ab: "p = a @ b"
  proof -
    have "filter (\<lambda>e. old_start e < old) q @ filter (\<lambda>e. \<not> old_start e < old) q = q"
      if "sorted_wrt (<) (map old_start q)" for q
      using that
    proof (induction q)
      case (Cons e q)
      then show ?case using filter_below_none[of q old_start e old] by (cases "old_start e < old") auto
    qed simp
    from this[OF assms] show ?thesis unfolding a_def b_def by (rule sym)
  qed
  have i: "?i = length a" by (simp add: a_def filter_map o_def)
  have "\<forall>e \<in> set a. old_start e \<le> old" by (auto simp: a_def)
  then have lea: "filter (\<lambda>e. old_start e \<le> old) a = a" by (rule filter_True)
  have geb: "\<And>e. e \<in> set b \<Longrightarrow> old \<le> old_start e" by (auto simp: b_def)
  have si: "search_index ?ks old = (if nth_opt ?ks (length a) = Some old then Inl (length a) else Inr (length a))"
    by (simp only: search_index_def Let_def takeWhile_less_sorted[OF assms] i)
  show ?thesis
  proof (cases b)
    case Nil
    then have "nth_opt ?ks (length a) = None" using ab by (simp add: nth_opt_def)
    then show ?thesis using si ab Nil lea
      by (cases a rule: rev_cases) (auto simp: search_edit_def nth_opt_def last_opt_iff)
  next
    case (Cons f fs)
    then have n: "nth_opt ?ks (length a) = Some (old_start f)"
      using ab nth_append_length[of "map old_start a" "old_start f" "map old_start fs"] by (simp add: nth_opt_def)
    have gt: "\<And>e. e \<in> set fs \<Longrightarrow> old < old_start e" using assms geb ab Cons by (fastforce simp: sorted_wrt_append)
    then have fs: "filter (\<lambda>e. old_start e \<le> old) fs = []" by (auto simp: filter_empty_conv not_le)
    show ?thesis
    proof (cases "old_start f = old")
      case True
      then show ?thesis using si n ab Cons fs lea
        by (simp add: search_edit_def nth_opt_def last_opt_iff nth_append)
    next
      case False
      then have "filter (\<lambda>e. old_start e \<le> old) p = a" using ab Cons lea fs geb[of f] by auto
      then show ?thesis using si n ab Cons False
        by (cases a rule: rev_cases) (auto simp: search_edit_def nth_opt_def last_opt_iff nth_append)
    qed
  qed
qed

lemma old_to_new_last:
  assumes "sorted_wrt (<) (map old_start p)"
  shows "old_to_new p old = (case last_opt (filter (\<lambda>e. old_start e \<le> old) p) of None \<Rightarrow> old
     | Some e \<Rightarrow> if old \<ge> old_end e then new_end e + (old - old_end e) else new_start e)"
  unfolding search_edit_last[OF assms, symmetric]
  by (auto simp: old_to_new_def split: option.splits)

lemma walk_position_last:
  assumes "patch_seg A B i j p i' j'" "patch_normal p" "i \<le> old"
  shows "walk_position i j p old = (case last_opt (filter (\<lambda>e. old_start e \<le> old) p) of None \<Rightarrow> j + (old - i)
     | Some e \<Rightarrow> if old \<ge> old_end e then new_end e + (old - old_end e) else new_start e)"
  using assms
proof (induction p arbitrary: i j)
  case (Cons e es)
  then have seg: "patch_seg A B (old_end e) (new_end e) es i' j'" "patch_normal es" "edit_ordered e"
    by (auto simp: patch_normal_Cons)
  have srt: "sorted_wrt (<) (map old_start (e # es))" using normal_starts[OF Cons.prems(1,2)] .
  consider "old < old_start e" | "old_start e \<le> old" "old < old_end e" | "old_end e \<le> old" by linarith
  then show ?case
  proof cases
    case 1
    then have "filter (\<lambda>e. old_start e \<le> old) (e # es) = []" using srt by (fastforce simp: filter_empty_conv)
    then show ?thesis using 1 by (simp only: last_opt.simps) simp
  next
    case 2
    have "old < old_start f" if "f \<in> set es" for f
    proof (cases es)
      case (Cons g gs)
      then have "old_end e < old_start g" using Cons.prems(2) by simp
      then show ?thesis using that srt Cons 2 by auto
    qed (use that in simp)
    then have "filter (\<lambda>e. old_start e \<le> old) es = []" by (auto simp: filter_empty_conv not_le)
    then show ?thesis using 2 by simp
  next
    case 3
    then have "old_start e \<le> old" using seg(3) by (simp add: edit_ordered_def)
    then show ?thesis using Cons.IH[OF seg(1,2) 3] 3 by (simp add: last_opt_iff)
  qed
qed simp

lemma old_to_new_walk:
  assumes "patch_between A B p" "patch_normal p"
  shows "old_to_new p old = walk_position 0 0 p old"
proof -
  have seg: "patch_seg A B 0 0 p (length A) (length B)" using assms(1) by (simp add: patch_between_def)
  show ?thesis using walk_position_last[OF seg assms(2), of old] old_to_new_last[OF normal_starts[OF seg assms(2)]]
    by (simp cong: option.case_cong)
qed

definition untouched :: "patch \<Rightarrow> nat \<Rightarrow> bool" where
  "untouched p old \<longleftrightarrow> (\<forall>e \<in> set p. old < old_start e \<or> old_end e < old)"

lemma walk_position_ok:
  assumes "patch_seg A B i j p i' j'" "i \<le> old" "old \<le> i'"
  shows "j \<le> walk_position i j p old" "walk_position i j p old \<le> j'"
  using assms
proof (induction p arbitrary: i j)
  case (Cons e es)
  { case 1
    with Cons show ?case by (fastforce simp: kept_def edit_ordered_def)
  next
    case 2
    then have "new_end e \<le> j'" using patch_seg_bounds by fastforce
    with 2 Cons.IH(2)[of "old_end e" "new_end e"] show ?case by (auto simp: kept_def edit_ordered_def)
  }
qed (auto simp: kept_def)

lemma walk_position_untouched:
  assumes "patch_seg A B i j p i' j'" "i \<le> old" "old \<le> i'" "untouched p old"
  shows "old < i' \<longrightarrow> walk_position i j p old < j' \<and> A ! old = B ! walk_position i j p old"
    and "untouched (patch_invert p) (walk_position i j p old)"
    and "walk_position j i (patch_invert p) (walk_position i j p old) = old"
proof -
  have "(old < i' \<longrightarrow> walk_position i j p old < j' \<and> A ! old = B ! walk_position i j p old) \<and>
    untouched (patch_invert p) (walk_position i j p old) \<and>
    walk_position j i (patch_invert p) (walk_position i j p old) = old"
    using assms
  proof (induction p arbitrary: i j)
    case Nil
    then obtain n where "i' = i + n" "j' = j + n" "\<forall>k < n. A ! (i + k) = B ! (j + k)"
      by (auto simp: kept_iff)
    moreover obtain k where "old = i + k" using Nil(2) by (metis le_iff_add)
    ultimately show ?case by (simp add: patch_invert_def untouched_def)
  next
    case (Cons e es)
    then have kp: "kept A B i j (old_start e) (new_start e)" and eo: "edit_ordered e"
      and seg: "patch_seg A B (old_end e) (new_end e) es i' j'" and un: "untouched es old" by (auto simp: untouched_def)
    obtain n where n: "old_start e = i + n" "new_start e = j + n" "\<forall>k < n. A ! (i + k) = B ! (j + k)"
      using kp unfolding kept_iff by blast
    have up: "i' \<ge> old_end e" "j' \<ge> new_end e" using patch_seg_bounds[OF seg] by simp_all
    show ?case
    proof (cases "old < old_start e")
      case True
      then obtain k where k: "old = i + k" "k < n" using Cons.prems(2) n(1) by (metis le_iff_add nat_add_left_cancel_less)
      have "new_start e \<le> new_start f \<and> new_start f \<le> new_end f" if "f \<in> set es" for f
        using that seg eo
      proof (induction es arbitrary: e)
        case (Cons g gs)
        then show ?case by (fastforce simp: kept_def edit_ordered_def)
      qed simp
      then have "\<And>f. f \<in> set es \<Longrightarrow> j + k < new_start f" using k(2) n(2) by fastforce
      then show ?thesis using True k n up eo
        by (auto simp: patch_invert_def invert_edit_def untouched_def edit_ordered_def)
    next
      case False
      then have lt: "old_end e < old" using Cons.prems(4) by (auto simp: untouched_def)
      note IH = Cons.IH[OF seg less_imp_le[OF lt] Cons.prems(3) un]
      have "new_end e < walk_position (old_end e) (new_end e) es old"
      proof (rule ccontr)
        assume "\<not> ?thesis"
        then have "walk_position (old_end e) (new_end e) es old = new_end e"
          using walk_position_ok(1)[OF seg less_imp_le[OF lt] Cons.prems(3)] by simp
        moreover have "walk_position (new_end e) (old_end e) (patch_invert es) (new_end e) \<le> old_end e \<or>
            \<not> untouched (patch_invert es) (new_end e)"
          using seg by (cases es) (auto simp: patch_invert_def invert_edit_def untouched_def kept_def edit_ordered_def)
        ultimately show False using IH lt by auto
      qed
      then show ?thesis using IH False lt eo
        by (auto simp: patch_invert_def invert_edit_def untouched_def edit_ordered_def)
    qed
  qed
  then show "old < i' \<longrightarrow> walk_position i j p old < j' \<and> A ! old = B ! walk_position i j p old"
    "untouched (patch_invert p) (walk_position i j p old)"
    "walk_position j i (patch_invert p) (walk_position i j p old) = old" by blast+
qed

lemma walk_position_mono:
  assumes "patch_seg A B i j p i' j'" "i \<le> old" "old \<le> old'" "old' \<le> i'"
  shows "walk_position i j p old \<le> walk_position i j p old'"
  using assms
proof (induction p arbitrary: i j)
  case (Cons e es)
  then have seg: "patch_seg A B (old_end e) (new_end e) es i' j'" and eo: "edit_ordered e"
    and kp: "kept A B i j (old_start e) (new_start e)" by auto
  have ge: "old_end e \<le> old' \<Longrightarrow> new_end e \<le> walk_position (old_end e) (new_end e) es old'"
    using walk_position_ok(1)[OF seg _ Cons.prems(4)] .
  show ?case using Cons.IH[OF seg _ Cons.prems(3,4)] Cons.prems(2,3) eo kp ge
    by (auto simp: edit_ordered_def kept_def)
qed (auto simp: kept_def)

section \<open>Properties\<close>

text \<open>C16: The composition of a patch from one text to a second with a patch from the second to a
  third never fails and is a patch from the first to the third, in the normal form that keeps
  text between any two edits.\<close>

theorem compose_correct:
  assumes "patch_between A B p" "patch_between B C q"
  shows "\<exists>r. patch_compose p q = Some r \<and> patch_between A C r \<and> patch_normal r"
  by (rule patch_compose_ok[OF assms])

theorem compose_correct_witness:
  "\<exists>r. patch_compose [\<lparr>old_start = 1, old_end = 2, new_start = 1, new_end = 4\<rparr>]
       [\<lparr>old_start = 0, old_end = 2, new_start = 0, new_end = 1\<rparr>] = Some r \<and>
     patch_between ''abc'' ''?yzc'' r"
proof -
  have "patch_between ''abc'' ''axyzc'' [\<lparr>old_start = 1, old_end = 2, new_start = 1, new_end = 4\<rparr>]"
    "patch_between ''axyzc'' ''?yzc'' [\<lparr>old_start = 0, old_end = 2, new_start = 0, new_end = 1\<rparr>]"
    by (auto simp: patch_between_def edit_ordered_def kept_def less_Suc_eq numeral_eq_Suc)
  from compose_correct[OF this] show ?thesis by blast
qed

text \<open>C17: Translating a position keeps the order of positions and stays within the new text; a
  position that no edit touches is translated to one with the same character, and translating
  back with the inverted patch, a patch from the new text to the old one, returns it.\<close>

theorem old_to_new_correct:
  assumes "patch_between A B p" "patch_normal p" "old \<le> length A"
  shows "old_to_new p old \<le> length B \<and>
    (\<forall>old' \<le> old. old_to_new p old' \<le> old_to_new p old) \<and>
    patch_between B A (patch_invert p) \<and>
    (untouched p old \<longrightarrow> old_to_new (patch_invert p) (old_to_new p old) = old \<and>
       (old < length A \<longrightarrow> A ! old = B ! old_to_new p old))"
proof -
  have seg: "patch_seg A B 0 0 p (length A) (length B)" using assms(1) by (simp add: patch_between_def)
  note w = old_to_new_walk[OF assms(1,2)]
  have "patch_normal (patch_invert p)" using assms(2) by (simp add: patch_normal_invert)
  note w' = old_to_new_walk[OF patch_invert_ok[OF assms(1)] this]
  show ?thesis unfolding w w'
    using walk_position_ok(2)[OF seg le0 assms(3)] walk_position_mono[OF seg le0 _ assms(3)]
      walk_position_untouched[OF seg le0 assms(3)] patch_invert_ok[OF assms(1)] by blast
qed

theorem old_to_new_correct_witness:
  "''abcd'' ! 3 = ''axyzcd'' ! old_to_new [\<lparr>old_start = 1, old_end = 2, new_start = 1, new_end = 4\<rparr>] 3"
proof -
  let ?p = "[\<lparr>old_start = 1, old_end = 2, new_start = 1, new_end = 4\<rparr>]"
  have b: "patch_between ''abcd'' ''axyzcd'' ?p"
    by (auto simp: patch_between_def edit_ordered_def kept_def less_Suc_eq numeral_eq_Suc)
  have n: "patch_normal ?p" and l: "3 \<le> length ''abcd''" and l': "3 < length ''abcd''" by simp_all
  have u: "untouched ?p 3" by (simp add: untouched_def)
  from old_to_new_correct[OF b n l] u l' show ?thesis by blast
qed

end
