(* ===== verification/Selection.thy ===== *)
theory Selection
  imports Prelude
begin

text \<open>
  Selections (\<open>crates/text/src/selection.rs\<close>): a range with a direction, whose head moves and
  whose tail stays. Positions are any linear order, the floating-point goals a type parameter.
  The lemmas show what each operation does to head and tail and which keep the range ordered.
\<close>

datatype 'f selection_goal =
    NoGoal
  | HorizontalPosition 'f
  | HorizontalRange (goal_start: 'f) (goal_end: 'f)
  | WrappedHorizontalPosition nat 'f

record ('t, 'f) selection =
  sel_id :: nat
  sel_start :: 't
  sel_end :: 't
  sel_reversed :: bool
  sel_goal :: "'f selection_goal"

definition sel_head :: "('t, 'f) selection \<Rightarrow> 't" where
  "sel_head s = (if sel_reversed s then sel_start s else sel_end s)"

definition sel_tail :: "('t, 'f) selection \<Rightarrow> 't" where
  "sel_tail s = (if sel_reversed s then sel_end s else sel_start s)"

definition sel_map :: "('t \<Rightarrow> 'u) \<Rightarrow> ('t, 'f) selection \<Rightarrow> ('u, 'f) selection" where
  "sel_map f s = \<lparr>sel_id = sel_id s, sel_start = f (sel_start s), sel_end = f (sel_end s),
     sel_reversed = sel_reversed s, sel_goal = sel_goal s\<rparr>"

definition collapse_to :: "'t \<Rightarrow> 'f selection_goal \<Rightarrow> ('t, 'f) selection \<Rightarrow> ('t, 'f) selection" where
  "collapse_to p new_goal s = s\<lparr>sel_start := p, sel_end := p, sel_goal := new_goal, sel_reversed := False\<rparr>"

definition sel_is_empty :: "('t, 'f) selection \<Rightarrow> bool" where
  "sel_is_empty s \<longleftrightarrow> sel_start s = sel_end s"

definition set_head :: "'t::linorder \<Rightarrow> 'f selection_goal \<Rightarrow> ('t, 'f) selection \<Rightarrow> ('t, 'f) selection" where
  "set_head head new_goal s =
     (let s = (if cmp_of head (sel_tail s) = Less then
                 (let s = (if \<not> sel_reversed s then s\<lparr>sel_end := sel_start s, sel_reversed := True\<rparr> else s)
                  in s\<lparr>sel_start := head\<rparr>)
               else
                 (let s = (if sel_reversed s then s\<lparr>sel_start := sel_end s, sel_reversed := False\<rparr> else s)
                  in s\<lparr>sel_end := head\<rparr>))
      in s\<lparr>sel_goal := new_goal\<rparr>)"

definition set_tail :: "'t::linorder \<Rightarrow> 'f selection_goal \<Rightarrow> ('t, 'f) selection \<Rightarrow> ('t, 'f) selection" where
  "set_tail tail new_goal s =
     (let s = (if cmp_of tail (sel_head s) \<noteq> Greater then
                 (let s = (if sel_reversed s then s\<lparr>sel_end := sel_start s, sel_reversed := False\<rparr> else s)
                  in s\<lparr>sel_start := tail\<rparr>)
               else
                 (let s = (if \<not> sel_reversed s then s\<lparr>sel_start := sel_end s, sel_reversed := True\<rparr> else s)
                  in s\<lparr>sel_end := tail\<rparr>))
      in s\<lparr>sel_goal := new_goal\<rparr>)"

definition set_head_tail ::
  "'t::linorder \<Rightarrow> 't \<Rightarrow> 'f selection_goal \<Rightarrow> ('t, 'f) selection \<Rightarrow> ('t, 'f) selection" where
  "set_head_tail head tail new_goal s =
     (let s = (if head < tail then s\<lparr>sel_reversed := True, sel_start := head, sel_end := tail\<rparr>
               else s\<lparr>sel_reversed := False, sel_start := tail, sel_end := head\<rparr>)
      in s\<lparr>sel_goal := new_goal\<rparr>)"

definition swap_head_tail :: "('t, 'f) selection \<Rightarrow> ('t, 'f) selection" where
  "swap_head_tail s =
     (if sel_reversed s then s\<lparr>sel_reversed := False\<rparr>
      else s\<lparr>sel_start := sel_end s, sel_end := sel_start s\<rparr>)"

definition sel_range :: "('t, 'f) selection \<Rightarrow> 't \<times> 't" where
  "sel_range s = (sel_start s, sel_end s)"

definition sel_len :: "(nat, 'f) selection \<Rightarrow> nat option" where
  "sel_len s = csub (sel_end s) (sel_start s)"

definition sel_from_offset :: "'t \<Rightarrow> ('t, 'f) selection" where
  "sel_from_offset offset = \<lparr>sel_id = 0, sel_start = offset, sel_end = offset, sel_reversed = False, sel_goal = NoGoal\<rparr>"

definition sel_equals :: "'t \<times> 't \<Rightarrow> ('t, 'f) selection \<Rightarrow> bool" where
  "sel_equals r s \<longleftrightarrow> sel_start s = fst r \<and> sel_end s = snd r"

section \<open>Properties\<close>

definition sel_ordered :: "('t::linorder, 'f) selection \<Rightarrow> bool" where
  "sel_ordered s \<longleftrightarrow> sel_start s \<le> sel_end s"

lemmas selection_defs = sel_head_def sel_tail_def set_head_def set_tail_def set_head_tail_def
  swap_head_tail_def collapse_to_def sel_ordered_def Let_def

text \<open>Moving the head keeps the tail, moving the tail keeps the head, and both keep the range
  ordered, turning the selection around when the moved end passes the fixed one.\<close>

theorem selection_moves:
  assumes "sel_ordered s"
  shows "sel_head (set_head x g s) = x \<and> sel_tail (set_head x g s) = sel_tail s \<and> sel_ordered (set_head x g s) \<and>
     sel_tail (set_tail x g s) = x \<and> sel_head (set_tail x g s) = sel_head s \<and> sel_ordered (set_tail x g s) \<and>
     sel_head (set_head_tail x y g s) = x \<and> sel_tail (set_head_tail x y g s) = y \<and>
     sel_ordered (set_head_tail x y g s) \<and> sel_ordered (collapse_to x g s)"
  using assms by (auto simp: selection_defs)

theorem selection_moves_witness:
  "sel_tail (set_head (3 :: nat) NoGoal (set_head 9 NoGoal (sel_from_offset 5 :: (nat, nat) selection))) = 5"
proof -
  let ?s = "sel_from_offset 5 :: (nat, nat) selection"
  have s: "sel_ordered ?s" "sel_tail ?s = 5" by (simp_all add: sel_ordered_def sel_from_offset_def sel_tail_def)
  have 1: "sel_ordered (set_head 9 NoGoal ?s)" "sel_tail (set_head 9 NoGoal ?s) = sel_tail ?s"
    using selection_moves[OF s(1), of 9 NoGoal] by blast+
  have "sel_tail (set_head 3 NoGoal (set_head 9 NoGoal ?s)) = sel_tail (set_head 9 NoGoal ?s)"
    using selection_moves[OF 1(1), of 3 NoGoal] by blast
  then show ?thesis using 1(2) s(2) by (simp only:)
qed

text \<open>Swapping exchanges head and tail, but on a selection that runs forward and is not empty
  it leaves the start of the range behind its end.\<close>

theorem swap_breaks_order:
  "sel_head (swap_head_tail s) = sel_tail s \<and> sel_tail (swap_head_tail s) = sel_head s \<and>
   sel_ordered (swap_head_tail s) = (if sel_reversed s then sel_ordered s else sel_end s \<le> sel_start s)"
  by (auto simp: selection_defs)

end
