(* ===== verification/Subscription.thy ===== *)
theory Subscription
  imports Patch
begin

text \<open>
  Subscriptions to the edits of a buffer (\<open>crates/text/src/subscription.rs\<close>). A subscription is a
  shared cell with a patch; the topic holds weak references to the cells. The store maps the
  address of a cell to its patch while a strong reference to it exists, so that dropping a
  subscription removes its address. The invariant: the patch of a live subscription leads from
  the text at its last \<open>consume\<close> to the current text.
\<close>

type_synonym sub_id = nat
type_synonym sub_store = "sub_id \<rightharpoonup> patch"
type_synonym topic = "sub_id list"

definition topic_new :: topic where
  "topic_new = []"

text \<open>\<open>subscribe\<close> allocates a cell: the address is one that no cell, live or referenced, has.\<close>

definition topic_subscribe :: "sub_id \<Rightarrow> topic \<Rightarrow> sub_store \<Rightarrow> topic \<times> sub_store" where
  "topic_subscribe fresh t st = (t @ [fresh], st(fresh \<mapsto> []))"

fun publish :: "text_edit list \<Rightarrow> topic \<Rightarrow> sub_store \<Rightarrow> (topic \<times> sub_store) option" where
  "publish edits [] st = Some ([], st)"
| "publish edits (i # is) st =
     (case st i of
        None \<Rightarrow> publish edits is st
      | Some p \<Rightarrow> do {
          p' \<leftarrow> patch_compose p edits;
          (is', st') \<leftarrow> publish edits is (st(i \<mapsto> p'));
          Some (i # is', st')
        })"

definition topic_publish :: "text_edit list \<Rightarrow> topic \<Rightarrow> sub_store \<Rightarrow> (topic \<times> sub_store) option" where
  "topic_publish edits t st = publish edits t st"

definition sub_consume :: "sub_id \<Rightarrow> sub_store \<Rightarrow> (patch \<times> sub_store) option" where
  "sub_consume i st = do { p \<leftarrow> st i; Some (p, st(i \<mapsto> [])) }"

definition sub_drop :: "sub_id \<Rightarrow> sub_store \<Rightarrow> sub_store" where
  "sub_drop i st = st(i := None)"

section \<open>Publishing\<close>

text \<open>\<open>follows seen cur t st\<close>: the addresses of the topic differ, every live cell is referenced by
  the topic, and its patch leads from the text its owner has seen to the current one.\<close>

definition follows :: "(sub_id \<Rightarrow> 'c list) \<Rightarrow> 'c list \<Rightarrow> topic \<Rightarrow> sub_store \<Rightarrow> bool" where
  "follows seen cur t st \<longleftrightarrow> distinct t \<and> dom st \<subseteq> set t \<and> (\<forall>i p. st i = Some p \<longrightarrow> patch_between (seen i) cur p)"

lemma publish_ok:
  assumes "distinct t" "\<And>i p. i \<in> set t \<Longrightarrow> st i = Some p \<Longrightarrow> patch_between (seen i) cur p"
    "patch_between cur new edits"
  shows "\<exists>st'. publish edits t st = Some (filter (\<lambda>i. st i \<noteq> None) t, st') \<and> dom st' = dom st \<and>
    (\<forall>i \<in> set t. \<forall>p. st' i = Some p \<longrightarrow> patch_between (seen i) new p) \<and> (\<forall>i. i \<notin> set t \<longrightarrow> st' i = st i)"
  using assms
proof (induction t arbitrary: st)
  case (Cons i t)
  show ?case
  proof (cases "st i")
    case None
    obtain st' where st': "publish edits t st = Some (filter (\<lambda>i. st i \<noteq> None) t, st')" "dom st' = dom st"
      "\<forall>i \<in> set t. \<forall>p. st' i = Some p \<longrightarrow> patch_between (seen i) new p" "\<forall>i. i \<notin> set t \<longrightarrow> st' i = st i"
      using Cons.IH[of st] Cons.prems by auto
    have "st' i = None" using st'(4) Cons.prems(1) None by simp
    then show ?thesis using st' None by auto
  next
    case (Some p)
    obtain p' where p': "patch_compose p edits = Some p'" "patch_between (seen i) new p'"
      using patch_compose_ok[of "seen i" cur p new edits] Cons.prems(2)[of i p] Some assms(3) by auto
    let ?st = "st(i \<mapsto> p')"
    have "\<And>j q. j \<in> set t \<Longrightarrow> ?st j = Some q \<Longrightarrow> patch_between (seen j) cur q"
      using Cons.prems(1,2) by (auto split: if_splits)
    then have "\<exists>st'. publish edits t ?st = Some (filter (\<lambda>j. ?st j \<noteq> None) t, st') \<and> dom st' = dom ?st \<and>
      (\<forall>i \<in> set t. \<forall>p. st' i = Some p \<longrightarrow> patch_between (seen i) new p) \<and> (\<forall>i. i \<notin> set t \<longrightarrow> st' i = ?st i)"
      using Cons.prems(1,3) by (intro Cons.IH) simp_all
    then obtain st' where st': "publish edits t ?st = Some (filter (\<lambda>j. ?st j \<noteq> None) t, st')" "dom st' = dom ?st"
      "\<forall>i \<in> set t. \<forall>p. st' i = Some p \<longrightarrow> patch_between (seen i) new p" "\<forall>i. i \<notin> set t \<longrightarrow> st' i = ?st i"
      by blast
    have "filter (\<lambda>j. ?st j \<noteq> None) t = filter (\<lambda>j. st j \<noteq> None) t"
      using Some by (auto intro: filter_cong)
    moreover have "st' i = Some p'" using st'(4) Cons.prems(1) by simp
    moreover have "dom ?st = dom st" using Some by auto
    ultimately show ?thesis using st' Some p' by auto
  qed
qed simp

lemma topic_publish_ok:
  assumes "follows seen cur t st" "patch_between cur new edits"
  shows "\<exists>t' st'. topic_publish edits t st = Some (t', st') \<and> follows seen new t' st' \<and> set t' = dom st' \<and> dom st' = dom st"
proof -
  have t: "distinct t" "dom st \<subseteq> set t" "\<And>i p. st i = Some p \<Longrightarrow> patch_between (seen i) cur p"
    using assms(1) by (auto simp: follows_def)
  obtain st' where st': "publish edits t st = Some (filter (\<lambda>i. st i \<noteq> None) t, st')" "dom st' = dom st"
    "\<forall>i \<in> set t. \<forall>p. st' i = Some p \<longrightarrow> patch_between (seen i) new p"
    using publish_ok[of t st seen cur new edits] t assms(2) by blast
  have "set (filter (\<lambda>i. st i \<noteq> None) t) = dom st'" using t(2) st'(2) by auto
  moreover have "follows seen new (filter (\<lambda>i. st i \<noteq> None) t) st'"
    unfolding follows_def
  proof (intro conjI allI impI)
    fix i p assume "st' i = Some p"
    then show "patch_between (seen i) new p" using st'(2,3) t(2) by blast
  qed (use t st'(2) in auto)
  ultimately show ?thesis using st'(1,2) by (auto simp: topic_publish_def)
qed

text \<open>C25: Publishing the edits from the current text to a new one never fails, brings the patch of
  every live subscription up to the new text, and drops the dead references from the topic;
  consuming returns the patch since the last consumption and starts over from the current text;
  subscribing starts from the current text.\<close>

theorem subscriptions_follow:
  assumes "follows seen cur t st" "patch_between cur new edits"
  shows "(\<exists>t' st'. topic_publish edits t st = Some (t', st') \<and> follows seen new t' st' \<and>
       set t' = dom st' \<and> dom st' = dom st) \<and>
     (\<forall>i \<in> dom st. \<exists>p st'. sub_consume i st = Some (p, st') \<and> patch_between (seen i) cur p \<and>
       follows (seen(i := cur)) cur t st') \<and>
     (\<forall>i. i \<notin> set t \<longrightarrow> (case topic_subscribe i t st of (t', st') \<Rightarrow> follows (seen(i := cur)) cur t' st')) \<and>
     follows seen cur t (sub_drop i st)"
proof (intro conjI ballI allI impI)
  have t: "distinct t" "dom st \<subseteq> set t" "\<And>i p. st i = Some p \<Longrightarrow> patch_between (seen i) cur p"
    using assms(1) by (auto simp: follows_def)
  show "\<exists>t' st'. topic_publish edits t st = Some (t', st') \<and> follows seen new t' st' \<and>
      set t' = dom st' \<and> dom st' = dom st" by (rule topic_publish_ok[OF assms])
  have nil: "patch_between cur cur []" by (simp add: patch_between_def kept_def)
  show "\<exists>p st'. sub_consume i st = Some (p, st') \<and> patch_between (seen i) cur p \<and> follows (seen(i := cur)) cur t st'"
    if "i \<in> dom st" for i
    using that t nil subsetD[OF t(2) that] by (auto simp: sub_consume_def follows_def)
  show "case topic_subscribe i t st of (t', st') \<Rightarrow> follows (seen(i := cur)) cur t' st'" if "i \<notin> set t" for i
    using that t nil by (auto simp: topic_subscribe_def follows_def)
  show "follows seen cur t (sub_drop i st)"
    using t by (auto simp: sub_drop_def follows_def split: if_splits)
qed

theorem subscriptions_follow_witness:
  "\<exists>t' st'. topic_publish [\<lparr>old_start = 1, old_end = 2, new_start = 1, new_end = 4\<rparr>] [7, 8] [7 \<mapsto> []] = Some (t', st') \<and>
     set t' = {7} \<and> follows (\<lambda>_. ''abc'') ''axyzc'' t' st'"
proof -
  have f: "follows (\<lambda>_. ''abc'') ''abc'' [7, 8] [7 \<mapsto> []]"
    by (auto simp: follows_def patch_between_def kept_def split: if_splits)
  have b: "patch_between ''abc'' ''axyzc'' [\<lparr>old_start = 1, old_end = 2, new_start = 1, new_end = 4\<rparr>]"
    by (auto simp: patch_between_def edit_ordered_def kept_def less_Suc_eq numeral_eq_Suc)
  show ?thesis using subscriptions_follow[OF f b, THEN conjunct1] by auto
qed

end
