(* ===== verification/BitSelect.thy ===== *)
theory BitSelect
  imports Prelude "HOL-Library.Word"
begin

text \<open>
  Selecting the n-th set bit of a word (\<open>nth_set_bit\<close> and \<open>nth_set_bit_u64\<close> in
  \<open>crates/rope/src/chunk.rs\<close>): the branchless search that counts bits in parallel. The words keep
  their width, so that the wrap-around on which the search rests is that of the machine. The lemmas
  follow the packed counters: a word is the sum of its fields, and a step of the search halves the
  block that holds the wanted bit.
\<close>

unbundle bit_operations_syntax

section \<open>The bit operations of the standard library\<close>

definition count_ones :: "'a::len word \<Rightarrow> nat" where
  "count_ones w = length (filter (bit w) [0..<LENGTH('a)])"

definition trailing_zeros :: "'a::len word \<Rightarrow> nat" where
  "trailing_zeros w = length (takeWhile (\<lambda>i. \<not> bit w i) [0..<LENGTH('a)])"

definition leading_zeros :: "'a::len word \<Rightarrow> nat" where
  "leading_zeros w = length (takeWhile (\<lambda>i. \<not> bit w i) (rev [0..<LENGTH('a)]))"

definition reverse_bits :: "'a::len word \<Rightarrow> 'a word" where
  "reverse_bits w = horner_sum of_bool 2 (map (\<lambda>i. bit w (LENGTH('a) - 1 - i)) [0..<LENGTH('a)])"

section \<open>The search\<close>

text \<open>The four parallel counters, and one step of the search: \<open>s -= (t - n & 256) >> w\<close>,
  \<open>n -= t & (t - n >> 8)\<close>.\<close>

definition bit_counts ::
  "64 word \<Rightarrow> 64 word \<times> 64 word \<times> 64 word \<times> 64 word" where
  "bit_counts v =
     (let a = v - (drop_bit 1 v AND 0x5555555555555555);
          b = (a AND 0x3333333333333333) + (drop_bit 2 a AND 0x3333333333333333);
          c = (b + drop_bit 4 b) AND 0x0F0F0F0F0F0F0F0F;
          d = (c + drop_bit 8 c) AND 0x00FF00FF00FF00FF
      in (a, b, c, d))"

definition select_step :: "64 word \<Rightarrow> nat \<Rightarrow> 64 word \<times> 64 word \<Rightarrow> 64 word \<times> 64 word" where
  "select_step t w sn = (case sn of (s, n) \<Rightarrow>
     (s - drop_bit w ((t - n) AND 256), n - (t AND drop_bit 8 (t - n))))"

text \<open>A shift by a word takes its amount modulo the width.\<close>

definition shr64 :: "64 word \<Rightarrow> 64 word \<Rightarrow> 64 word" where
  "shr64 v k = drop_bit (unat k mod 64) v"

definition nth_set_bit_u64 :: "64 word \<Rightarrow> 64 word \<Rightarrow> 64 word" where
  "nth_set_bit_u64 w n =
     (let v = reverse_bits w;
          (a, b, c, d) = bit_counts v;
          sn = (64, n);
          sn = select_step (drop_bit 32 d + drop_bit 48 d) 3 sn;
          sn = select_step (shr64 d (fst sn - 16) AND 0xff) 4 sn;
          sn = select_step (shr64 c (fst sn - 8) AND 0xf) 5 sn;
          sn = select_step (shr64 b (fst sn - 4) AND 0x7) 6 sn;
          sn = select_step (shr64 a (fst sn - 2) AND 0x3) 7 sn;
          t = shr64 v (fst sn - 1) AND 0x1;
          s = fst sn - drop_bit 8 ((t - snd sn) AND 256)
      in 65 - s - 1)"

definition nth_set_bit :: "128 word \<Rightarrow> nat \<Rightarrow> nat" where
  "nth_set_bit v n =
     (let low = ucast v :: 64 word;
          high = ucast (drop_bit 64 v) :: 64 word;
          low_count = count_ones low
      in if n > low_count then 64 + unat (nth_set_bit_u64 high (of_nat (n - low_count)))
         else unat (nth_set_bit_u64 low (of_nat n)))"

section \<open>Packed fields\<close>

definition pack :: "nat \<Rightarrow> (nat \<Rightarrow> nat) \<Rightarrow> nat \<Rightarrow> nat" where
  "pack k f n = (\<Sum>j<n. f j * 2 ^ (k * j))"

lemma pack_0 [simp]: "pack k f 0 = 0"
  by (simp add: pack_def)

lemma pack_Suc: "pack k f (Suc n) = f 0 + 2 ^ k * pack k (\<lambda>j. f (Suc j)) n"
  unfolding pack_def sum.lessThan_Suc_shift sum_distrib_left
  by (simp add: power_add mult_ac)

lemma pack_numeral: "pack k f (numeral n) = f 0 + 2 ^ k * pack k (\<lambda>j. f (Suc j)) (pred_numeral n)"
  by (simp add: numeral_eq_Suc pack_Suc)

lemma pack_cong: "(\<And>j. j < n \<Longrightarrow> f j = g j) \<Longrightarrow> pack k f n = pack k g n"
  by (simp add: pack_def)

lemma nibbles_less: "(\<And>j. j < n \<Longrightarrow> f j < 2 ^ k) \<Longrightarrow> pack k f n < 2 ^ (k * n)"
proof (induction n arbitrary: f)
  case (Suc n)
  have "pack k (\<lambda>j. f (Suc j)) n < 2 ^ (k * n)" using Suc by simp
  then have "2 ^ k * Suc (pack k (\<lambda>j. f (Suc j)) n) \<le> 2 ^ k * 2 ^ (k * n)" by (intro mult_le_mono2) simp
  moreover have "f 0 < 2 ^ k" using Suc.prems[of 0] by simp
  ultimately show ?case by (simp add: pack_Suc power_add)
qed simp

lemma pack_add: "pack k f n + pack k g n = pack k (\<lambda>j. f j + g j) n"
  by (simp add: pack_def sum.distrib distrib_right)

lemma pack_diff: "(\<And>j. j < n \<Longrightarrow> g j \<le> f j) \<Longrightarrow> pack k f n - pack k g n = pack k (\<lambda>j. f j - g j) n"
  using pack_add[of k "\<lambda>j. f j - g j" n g] pack_cong[of n "\<lambda>j. f j - g j + g j" f k] by simp

lemma pack_le: "(\<And>j. j < n \<Longrightarrow> g j \<le> f j) \<Longrightarrow> pack k g n \<le> pack k f n"
  unfolding pack_def by (rule sum_mono) simp

lemma pack_pair: "pack k f (2 * n) = pack (2 * k) (\<lambda>j. f (2 * j) + 2 ^ k * f (2 * j + 1)) n"
proof (induction n arbitrary: f)
  case (Suc n)
  have "pack k f (2 * Suc n) = f 0 + 2 ^ k * (f 1 + 2 ^ k * pack k (\<lambda>j. f (j + 2)) (2 * n))"
    by (simp add: pack_Suc)
  moreover have "(2 :: nat) ^ (2 * k) = 2 ^ k * 2 ^ k" by (simp add: mult_2 power_add)
  ultimately show ?case unfolding Suc.IH by (simp add: pack_Suc distrib_left mult.assoc)
qed simp

lemma bit_field:
  assumes "a < (2 :: nat) ^ k"
  shows "bit (a + 2 ^ k * m) i \<longleftrightarrow> (if i < k then bit a i else bit m (i - k))"
proof -
  have "take_bit k (a + 2 ^ k * m) = a" "drop_bit k (a + 2 ^ k * m) = m"
    using assms by (simp_all add: take_bit_eq_mod drop_bit_eq_div)
  then have "bit a i \<longleftrightarrow> i < k \<and> bit (a + 2 ^ k * m) i" "bit m (i - k) \<longleftrightarrow> bit (a + 2 ^ k * m) (k + (i - k))"
    by (metis bit_take_bit_iff, metis bit_drop_bit_eq comp_apply)
  then show ?thesis by (cases "i < k") simp_all
qed


lemma bit_less: "a < (2 :: nat) ^ k \<Longrightarrow> bit a i \<Longrightarrow> i < k"
  using bit_field[of a k 0 i] by (auto split: if_splits)

lemma pack_drop:
  "(\<And>j. f j < 2 ^ k) \<Longrightarrow> (\<And>j. n \<le> j \<Longrightarrow> f j = 0) \<Longrightarrow> drop_bit (k * i) (pack k f n) = pack k (\<lambda>j. f (j + i)) n"
proof (induction i arbitrary: f)
  case (Suc i)
  have one: "drop_bit k (pack k f n) = pack k (\<lambda>j. f (Suc j)) n"
  proof (cases n)
    case (Suc m)
    have "pack k (\<lambda>j. f (Suc j)) n = pack k (\<lambda>j. f (Suc j)) m + f (Suc m) * 2 ^ (k * m)"
      by (simp add: pack_def Suc)
    moreover have "f (Suc m) = 0" using Suc.prems(2)[of "Suc m"] Suc by simp
    ultimately show ?thesis using Suc.prems(1)[of 0] by (simp add: Suc pack_Suc drop_bit_eq_div)
  qed simp
  have "drop_bit (k * Suc i) (pack k f n) = drop_bit (k * i) (drop_bit k (pack k f n))"
    by (simp add: drop_bit_drop_bit add.commute)
  also have "\<dots> = pack k (\<lambda>j. f (Suc (j + i))) n"
    unfolding one using Suc.IH[of "\<lambda>j. f (Suc j)"] Suc.prems by simp
  finally show ?case by simp
qed simp

lemma mask_nat: "bit (2 ^ k - 1 :: nat) i \<longleftrightarrow> i < k"
  by (metis bit_mask_iff mask_eq_exp_minus_1 possible_bit_nat)

lemma pack_and_even:
  assumes "\<And>j. f j < 2 ^ k"
  shows "pack k f (2 * n) AND pack (2 * k) (\<lambda>_. 2 ^ k - 1) n = pack (2 * k) (\<lambda>j. f (2 * j)) n"
  using assms
proof (induction n arbitrary: f)
  case (Suc n)
  let ?R = "pack k (\<lambda>j. f (Suc (Suc j))) (2 * n)" and ?M = "pack (2 * k) (\<lambda>_. 2 ^ k - 1) n"
  have sq: "(2 :: nat) ^ (2 * k) = 2 ^ k * 2 ^ k" by (simp add: mult_2 power_add)
  have k: "(2 :: nat) ^ k - 1 < 2 ^ k" by simp
  then have k2: "(2 :: nat) ^ k - 1 < 2 ^ (2 * k)" "f 0 < 2 ^ (2 * k)"
    unfolding sq using less_le_trans[OF k, of "2 ^ k * 2 ^ k"] less_le_trans[OF Suc.prems[of 0], of "2 ^ k * 2 ^ k"]
    by simp_all
  have l: "f 0 + 2 ^ k * f 1 < 2 ^ (2 * k)"
  proof -
    have "2 ^ k * Suc (f 1) \<le> 2 ^ k * 2 ^ k" using Suc.prems[of 1] by (intro mult_le_mono2) simp
    then show ?thesis using Suc.prems[of 0] unfolding sq by simp
  qed
  have "pack k f (2 * Suc n) = (f 0 + 2 ^ k * f 1) + 2 ^ (2 * k) * ?R"
    by (simp add: pack_Suc sq distrib_left mult.assoc)
  moreover have "pack (2 * k) (\<lambda>_. 2 ^ k - 1) (Suc n) = (2 ^ k - 1) + 2 ^ (2 * k) * ?M" by (rule pack_Suc)
  ultimately have "pack k f (2 * Suc n) AND pack (2 * k) (\<lambda>_. 2 ^ k - 1) (Suc n) =
      ((f 0 + 2 ^ k * f 1) + 2 ^ (2 * k) * ?R) AND ((2 ^ k - 1) + 2 ^ (2 * k) * ?M)" by (rule arg_cong2)
  also have "\<dots> = f 0 + 2 ^ (2 * k) * (?R AND ?M)"
  proof (rule bit_eqI)
    fix i
    show "bit (((f 0 + 2 ^ k * f 1) + 2 ^ (2 * k) * ?R) AND ((2 ^ k - 1) + 2 ^ (2 * k) * ?M)) i =
        bit (f 0 + 2 ^ (2 * k) * (?R AND ?M)) i"
      unfolding bit_and_iff bit_field[OF l] bit_field[OF k2(1)] bit_field[OF k2(2)] bit_field[OF Suc.prems[of 0]]
        mask_nat using bit_less[OF Suc.prems[of 0], of i] by auto
  qed
  also have "?R AND ?M = pack (2 * k) (\<lambda>j. f (Suc (Suc (2 * j)))) n"
    using Suc.IH[of "\<lambda>j. f (Suc (Suc j))"] Suc.prems by simp
  finally show ?case by (simp add: pack_Suc)
qed simp

lemma pack_field:
  assumes "\<And>j. f j < 2 ^ k" "\<And>j. n \<le> j \<Longrightarrow> f j = 0" "f i < 2 ^ l" "l \<le> k"
  shows "take_bit l (drop_bit (k * i) (pack k f n)) = f i"
proof -
  have "drop_bit (k * i) (pack k f n) = pack k (\<lambda>j. f (j + i)) n" by (rule pack_drop) (use assms in auto)
  also have "take_bit l \<dots> = f i"
  proof (cases n)
    case 0
    then show ?thesis using assms(2)[of i] by simp
  next
    case (Suc m)
    have "2 ^ l dvd (2 ^ k * x :: nat)" for x using assms(4) by (simp add: le_imp_power_dvd)
    then show ?thesis using assms(3) by (simp add: Suc pack_Suc take_bit_eq_mod mod_add_eq dvd_imp_mod_0)
       (metis add.right_neutral dvd_eq_mod_eq_0 mod_add_right_eq mod_less)
  qed
  finally show ?thesis .
qed


section \<open>The counters\<close>

text \<open>The number of ones among the \<open>w\<close> bits from \<open>i\<close> on.\<close>

definition ones :: "'a::len word \<Rightarrow> nat \<Rightarrow> nat \<Rightarrow> nat" where
  "ones v i w = (\<Sum>j\<in>{i..<i + w}. of_bool (bit v j))"

lemma ones_le: "ones v i w \<le> w"
proof -
  have "ones v i w \<le> (\<Sum>j\<in>{i..<i + w}. 1)" unfolding ones_def by (rule sum_mono) simp
  then show ?thesis by simp
qed

lemma ones_add: "ones v i (w + w') = ones v i w + ones v (i + w) w'"
  unfolding ones_def
  using sum.atLeastLessThan_concat[of i "i + w" "i + (w + w')" "\<lambda>j. of_bool (bit v j) :: nat"] by (simp add: add.assoc)

lemma ones_beyond: "LENGTH('a) \<le> i \<Longrightarrow> ones (v :: 'a::len word) i w = 0"
  by (auto simp: ones_def dest: bit_imp_le_length)

lemma ones_one: "ones v i (Suc 0) = of_bool (bit v i)"
  by (simp add: ones_def)

lemma ones_two: "ones v i 2 = of_bool (bit v i) + of_bool (bit v (Suc i))"
  using ones_add[of v i 1 1] unfolding one_add_one by (simp add: ones_one)

lemma ones_0 [simp]: "ones v i 0 = 0"
  by (simp add: ones_def)

lemma unat_pack: "unat v = pack 1 (\<lambda>j. of_bool (bit v j)) LENGTH('a)" for v :: "'a::len word"
proof -
  have "unat v = take_bit LENGTH('a) (unat v)" by (metis take_bit_length_eq unsigned_take_bit_eq)
  also have "\<dots> = horner_sum of_bool 2 (map (bit (unat v)) [0..<LENGTH('a)])" by (simp add: horner_sum_bit_eq_take_bit)
  also have "\<dots> = (\<Sum>j<LENGTH('a). of_bool (bit v j) * 2 ^ j)"
    by (simp add: horner_sum_eq_sum atLeast0LessThan bit_unsigned_iff possible_bit_nat)
  finally show ?thesis by (simp add: pack_def)
qed

lemma counts_pack:
  fixes v :: "64 word"
  assumes "bit_counts v = (a, b, c, d)"
  shows "unat a = pack 2 (\<lambda>j. ones v (2 * j) 2) 32" "unat b = pack 4 (\<lambda>j. ones v (4 * j) 4) 16"
    "unat c = pack 8 (\<lambda>j. ones v (8 * j) 8) 8" "unat d = pack 16 (\<lambda>j. ones v (16 * j) 16) 4"
proof -
  let ?b = "\<lambda>j. of_bool (bit v j) :: nat"
  have lt: "ones v i 2 < 4" "ones v i 4 < 16" "ones v i 8 < 256" for i
    using ones_le[of v i 2] ones_le[of v i 4] ones_le[of v i 8] by simp_all
  have far: "ones v i w = 0" if "64 \<le> i" for i w using ones_beyond[of i v] that by simp
  have m1: "pack 2 (\<lambda>_. 2 ^ 1 - 1) 32 = 0x5555555555555555" and m2: "pack 4 (\<lambda>_. 2 ^ 2 - 1) 16 = 0x3333333333333333"
    and m4: "pack 8 (\<lambda>_. 2 ^ 4 - 1) 8 = 0x0F0F0F0F0F0F0F0F" and m8: "pack 16 (\<lambda>_. 2 ^ 8 - 1) 4 = 0x00FF00FF00FF00FF"
    by (simp_all add: pack_numeral pack_Suc)
  have a: "a = v - (drop_bit 1 v AND 0x5555555555555555)"
    and b: "b = (a AND 0x3333333333333333) + (drop_bit 2 a AND 0x3333333333333333)"
    and c: "c = (b + drop_bit 4 b) AND 0x0F0F0F0F0F0F0F0F"
    and d: "d = (c + drop_bit 8 c) AND 0x00FF00FF00FF00FF"
    using assms by (auto simp: bit_counts_def Let_def)
  have halves: "unat (w AND m) = pack (2 * k) (\<lambda>j. f (2 * j)) n"
      "unat (drop_bit k w AND m) = pack (2 * k) (\<lambda>j. f (2 * j + 1)) n"
    if "unat w = pack k f (2 * n)" "unat m = pack (2 * k) (\<lambda>_. 2 ^ k - 1) n"
      "\<And>j. f j < 2 ^ k" "\<And>j. 2 * n \<le> j \<Longrightarrow> f j = 0" for w m :: "64 word" and f k n
    using pack_and_even[of f k n] pack_and_even[of "\<lambda>j. f (j + 1)" k n] pack_drop[of f k "2 * n" 1] that
    by (simp_all add: unsigned_and_eq unat_drop_bit_eq)
  have merge: "ones v (2 * k * j) k + ones v (2 * k * j + k) k = ones v (2 * k * j) (2 * k)" for k j
    by (simp add: ones_add mult_2)
  have beyond: "of_bool (bit v j) < (2 :: nat)" "64 \<le> j \<Longrightarrow> \<not> bit v j" for j
    using bit_imp_le_length[of v j] by auto
  have v: "unat v = pack 1 ?b (2 * 32)" using unat_pack[of v] by simp
  have v': "unat (drop_bit 1 v AND 0x5555555555555555) = pack 2 (\<lambda>j. ?b (2 * j + 1)) 32"
    using halves(2)[OF v, of "0x5555555555555555"] m1 beyond by simp
  show A: "unat a = pack 2 (\<lambda>j. ones v (2 * j) 2) 32"
  proof -
    have "unat v = pack 2 (\<lambda>j. ?b (2 * j) + 2 * ?b (2 * j + 1)) 32" unfolding v pack_pair by simp
    moreover from this have "unat (drop_bit 1 v AND 0x5555555555555555) \<le> unat v" unfolding v' by (simp add: pack_le)
    moreover have "ones v (2 * j) 2 = ?b (2 * j) + 2 * ?b (2 * j + 1) - ?b (2 * j + 1)" for j
      by (simp add: ones_two)
    ultimately show ?thesis unfolding a using v' by (subst unat_sub) (simp_all add: word_le_nat_alt pack_diff)
  qed
  show B: "unat b = pack 4 (\<lambda>j. ones v (4 * j) 4) 16"
  proof -
    have h: "unat (a AND 0x3333333333333333) = pack 4 (\<lambda>j. ones v (2 * (2 * j)) 2) 16"
      "unat (drop_bit 2 a AND 0x3333333333333333) = pack 4 (\<lambda>j. ones v (2 * (2 * j + 1)) 2) 16"
      using halves[of a 2 "\<lambda>j. ones v (2 * j) 2" 16 "0x3333333333333333"] A m2 lt far by simp_all
    have "pack 4 (\<lambda>j. ones v (2 * (2 * j)) 2) 16 + pack 4 (\<lambda>j. ones v (2 * (2 * j + 1)) 2) 16 =
        pack 4 (\<lambda>j. ones v (4 * j) 4) 16" (is "?l = ?r")
      unfolding pack_add using merge[of 2] by (simp add: algebra_simps)
    moreover have "?r < 2 ^ (4 * 16)" using nibbles_less[of 16 _ 4] lt by simp
    ultimately show ?thesis unfolding b by (simp add: unat_word_ariths h)
  qed
  show C: "unat c = pack 8 (\<lambda>j. ones v (8 * j) 8) 8"
  proof -
    let ?f = "\<lambda>j. ones v (4 * j) 4 + ones v (4 * Suc j) 4"
    have d: "unat (drop_bit 4 b) = pack 4 (\<lambda>j. ones v (4 * Suc j) 4) 16"
      using pack_drop[of "\<lambda>j. ones v (4 * j) 4" 4 16 1] lt far by (simp add: unat_drop_bit_eq B)
    have f: "?f j < 2 ^ 4" for j using ones_le[of v "4 * j" 4] ones_le[of v "4 * Suc j" 4] by simp
    have s: "unat (b + drop_bit 4 b) = pack 4 ?f (2 * 8)"
      using nibbles_less[of 16 ?f 4] f by (simp add: unat_word_ariths d B pack_add)
    have "unat c = pack 8 (\<lambda>j. ?f (2 * j)) 8"
      using halves(1)[OF s, of "0x0F0F0F0F0F0F0F0F"] m4 f far unfolding c by simp
    then show ?thesis using merge[of 4] by (simp add: algebra_simps)
  qed
  show "unat d = pack 16 (\<lambda>j. ones v (16 * j) 16) 4"
  proof -
    let ?f = "\<lambda>j. ones v (8 * j) 8 + ones v (8 * Suc j) 8"
    have d8: "unat (drop_bit 8 c) = pack 8 (\<lambda>j. ones v (8 * Suc j) 8) 8"
      using pack_drop[of "\<lambda>j. ones v (8 * j) 8" 8 8 1] lt far by (simp add: unat_drop_bit_eq C)
    have f: "?f j < 2 ^ 8" for j using ones_le[of v "8 * j" 8] ones_le[of v "8 * Suc j" 8] by simp
    have s: "unat (c + drop_bit 8 c) = pack 8 ?f (2 * 4)"
      using nibbles_less[of 8 ?f 8] f by (simp add: unat_word_ariths d8 C pack_add)
    have "unat d = pack 16 (\<lambda>j. ?f (2 * j)) 4"
      using halves(1)[OF s, of "0x00FF00FF00FF00FF"] m8 f far unfolding d by simp
    then show ?thesis using merge[of 8] by (simp add: algebra_simps)
  qed
qed


section \<open>A step of the search\<close>

text \<open>The comparison by the borrow: the low part of the counter is at most 64, what the first counter
  carries above it does not matter.\<close>

lemma and_256: "(x AND 256 :: 64 word) = (if bit x 8 then 256 else 0)"
proof (rule bit_eqI)
  fix i
  have "bit (256 :: 64 word) i \<longleftrightarrow> i = 8"
    using bit_exp_iff[where 'a = "64 word", of 8 i] by auto
  then show "bit (x AND 256) i = bit (if bit x 8 then 256 else 0 :: 64 word) i" by (auto simp: bit_and_iff)
qed

lemma select_step_ok:
  assumes t: "unat t = l + 2 ^ 16 * m" "l \<le> 64" "m < 2 ^ 8" and n: "unat n \<le> 64"
    and w: "w \<le> 8"
  shows "select_step t w (s, n) = (if l < unat n then (s - 2 ^ (8 - w), n - of_nat l) else (s, n))"
proof (cases "l < unat n")
  case False
  have tn: "unat (t - n) = (l - unat n) + 2 ^ 16 * m"
    using False t by (subst unat_sub) (simp_all add: word_le_nat_alt)
  have b: "bit (t - n) i \<longleftrightarrow> bit ((l - unat n) + 2 ^ 16 * m) i" for i
    unfolding tn[symmetric] by (simp add: bit_unsigned_iff possible_bit_nat)
  have l: "l - unat n < 2 ^ 16" "l - unat n < 2 ^ 7" "l < 2 ^ 16" "l < 2 ^ 7" using t by auto
  have "\<not> bit (t - n) 8" unfolding b bit_field[OF l(1)] using bit_less[OF l(2), of 8] by auto
  moreover have "t AND drop_bit 8 (t - n) = 0"
  proof (rule bit_eqI)
    fix i
    have "bit t i \<longleftrightarrow> bit (l + 2 ^ 16 * m) i"
      unfolding t(1)[symmetric] by (simp add: bit_unsigned_iff possible_bit_nat)
    then show "bit (t AND drop_bit 8 (t - n)) i \<longleftrightarrow> bit (0 :: 64 word) i"
      unfolding bit_and_iff bit_drop_bit_eq comp_apply b bit_field[OF l(1)] bit_field[OF l(3)]
      using bit_less[OF l(2), of "8 + i"] bit_less[OF l(4), of i] bit_less[OF t(3), of "8 + i - 16"] by auto
  qed
  ultimately show ?thesis using False by (simp add: select_step_def and_256)
next
  case True
  define x where "x = unat n - l"
  have x: "0 < x" "x \<le> 64" "unat n = l + x" using True n by (auto simp: x_def)
  obtain m' where tn: "unat (t - n) = (2 ^ 16 - x) + 2 ^ 16 * m'" and m': "m = 0 \<or> m' < 2 ^ 8"
  proof (cases m)
    case 0
    then have "t < n" using t True by (simp add: word_less_nat_alt)
    then have "unat (t - n) = 2 ^ 64 - x"
      using unat_sub_if' [of t n] x t 0 by (simp add: word_le_nat_alt not_le)
    then show ?thesis using x by (intro that[of "2 ^ 48 - 1"]) (simp_all add: 0)
  next
    case (Suc k)
    then have "n \<le> t" using t n by (simp add: word_le_nat_alt)
    then have "unat (t - n) = l + 2 ^ 16 * m - (l + x)" using t(1) x(3) by (simp add: unat_sub)
    then show ?thesis using x t(3) Suc by (intro that[of k]) simp_all
  qed
  have b: "bit (t - n) i \<longleftrightarrow> bit ((2 ^ 16 - x) + 2 ^ 16 * m') i" for i
    unfolding tn[symmetric] by (simp add: bit_unsigned_iff possible_bit_nat)
  have bx: "bit (2 ^ 16 - x) i \<longleftrightarrow> (if i < 6 then bit (64 - x) i else i < 16)" for i
    using bit_field[of "64 - x" 6 "2 ^ 10 - 1" i] mask_nat[of 10 "i - 6"] x by auto
  have l: "2 ^ 16 - x < 2 ^ 16" "l < 2 ^ 16" "l < 2 ^ 7" using t x by auto
  have "bit (t - n) 8" unfolding b bit_field[OF l(1)] bx by simp
  moreover have "t AND drop_bit 8 (t - n) = of_nat l"
  proof (rule bit_eqI)
    fix i
    have bt: "bit t i \<longleftrightarrow> bit (l + 2 ^ 16 * m) i"
      unfolding t(1)[symmetric] by (simp add: bit_unsigned_iff possible_bit_nat)
    have bl: "bit (of_nat l :: 64 word) i \<longleftrightarrow> bit l i"
      using bit_less[OF l(3), of i] by (auto simp: bit_of_nat_iff)
    show "bit (t AND drop_bit 8 (t - n)) i \<longleftrightarrow> bit (of_nat l :: 64 word) i"
    proof (cases "i < 16")
      case True
      then show ?thesis using bit_less[OF l(3), of i]
        unfolding bit_and_iff bit_drop_bit_eq comp_apply b bit_field[OF l(1)] bt bl bit_field[OF l(2)] bx by auto
    next
      case False
      then have "\<not> bit l i" using bit_less[OF l(3), of i] by auto
      moreover have "\<not> (bit m (i - 16) \<and> bit m' (8 + i - 16))"
        using m' False bit_less[of m' 8 "8 + i - 16"] by auto
      ultimately show ?thesis using False
        unfolding bit_and_iff bit_drop_bit_eq comp_apply b bit_field[OF l(1)] bt bl bit_field[OF l(2)] by simp
    qed
  qed
  moreover have "drop_bit w (256 :: 64 word) = 2 ^ (8 - w)"
    using w drop_bit_exp_eq[where 'a = "64 word", of w 8] by simp
  ultimately show ?thesis using True by (simp add: select_step_def and_256)
qed


text \<open>The wanted bit is the \<open>n\<close>-th from above in the block of \<open>w\<close> bits below \<open>s\<close>.\<close>

definition sel_inv :: "64 word \<Rightarrow> nat \<Rightarrow> nat \<Rightarrow> 64 word \<times> 64 word \<Rightarrow> bool" where
  "sel_inv v N w sn \<longleftrightarrow> (case sn of (s, n) \<Rightarrow>
     unat s \<le> 64 \<and> w \<le> unat s \<and> w dvd unat s \<and> 1 \<le> unat n \<and> unat n \<le> ones v (unat s - w) w \<and>
     ones v (unat s) (64 - unat s) + unat n = N)"

lemma sel_inv_step:
  assumes inv: "sel_inv v N (2 * h) (s, n)" and h: "h = 2 ^ (8 - w)" "w \<le> 8" "h \<le> 32"
    and t: "unat t = ones v (unat s - h) h + 2 ^ 16 * m" "m < 2 ^ 8"
  shows "sel_inv v N h (select_step t w (s, n))"
proof -
  let ?l = "ones v (unat s - h) h"
  from inv have s: "unat s \<le> 64" "2 * h \<le> unat s" "2 * h dvd unat s"
    and n: "1 \<le> unat n" "unat n \<le> ones v (unat s - 2 * h) (2 * h)" "ones v (unat s) (64 - unat s) + unat n = N"
    by (simp_all add: sel_inv_def)
  have hs: "h dvd unat s" using s(3) by (rule dvd_mult_right)
  have h0: "0 < h" using h by simp
  have split: "ones v (unat s - 2 * h) (2 * h) = ones v (unat s - 2 * h) h + ?l"
    using ones_add[of v "unat s - 2 * h" h h] s(2) by (simp add: mult_2)
  have l: "?l \<le> 32" using ones_le[of v "unat s - h" h] h(3) by simp
  have n64: "unat n \<le> 64" using n(2) ones_le[of v "unat s - 2 * h" "2 * h"] h(3) by simp
  have step: "select_step t w (s, n) = (if ?l < unat n then (s - 2 ^ (8 - w), n - of_nat ?l) else (s, n))"
    by (rule select_step_ok[OF t(1) _ t(2) n64 h(2)]) (use l in simp)
  show ?thesis
  proof (cases "?l < unat n")
    case False
    then show ?thesis using s n hs unfolding step sel_inv_def by simp
  next
    case True
    have "unat (2 ^ (8 - w) :: 64 word) = h"
    proof -
      have "(2 ^ (8 - w) :: 64 word) = of_nat h" by (simp add: h(1))
      then show ?thesis using h(3) by (simp add: unat_of_nat)
    qed
    then have s': "unat (s - 2 ^ (8 - w)) = unat s - h" using s(2) by (subst unat_sub) (simp_all add: word_le_nat_alt)
    have "unat (of_nat ?l :: 64 word) = ?l" using l by (simp add: unat_of_nat)
    then have n': "unat (n - of_nat ?l) = unat n - ?l" using True by (subst unat_sub) (simp_all add: word_le_nat_alt)
    have "64 - (unat s - h) = h + (64 - unat s)" "unat s - h + h = unat s" using s by linarith+
    then have "ones v (unat s - h) (64 - (unat s - h)) = ?l + ones v (unat s) (64 - unat s)"
      using ones_add[of v "unat s - h" h "64 - unat s"] by simp
    moreover have "unat s - h - h = unat s - 2 * h" by simp
    moreover have "unat s - h \<le> 64" "h \<le> unat s - h" using s by linarith+
    moreover have "1 \<le> unat n - ?l" "unat n - ?l \<le> ones v (unat s - 2 * h) h" using n(2) True split by linarith+
    ultimately show ?thesis using True n(3) hs unfolding step sel_inv_def by (simp add: s' n' dvd_diff_nat)
  qed
qed

lemma shr_field:
  fixes c :: "64 word"
  assumes c: "unat c = pack w (\<lambda>j. ones v (w * j) w) m" and s: "w dvd unat s" "w \<le> unat s" "unat s \<le> 64"
    and w: "0 < w" "w * m = LENGTH('a)" "w < 2 ^ l" "l \<le> w" and k: "unat k = w" "unat mk = 2 ^ l - 1"
  shows "unat (shr64 c (s - k) AND mk) = ones (v :: 'a::len word) (unat s - w) w"
proof -
  define i where "i = unat s div w - 1"
  have i: "unat s - w = w * i" using s(1) w(1) by (auto simp: i_def algebra_simps elim!: dvdE)
  have sk: "unat (s - k) = w * i" using s(2) k(1) i by (subst unat_sub) (simp_all add: word_le_nat_alt)
  have "w * i < 64" using s w(1) i by linarith
  then have "unat (shr64 c (s - k) AND mk) = take_bit l (drop_bit (w * i) (unat c))"
    by (simp add: shr64_def sk unsigned_and_eq unat_drop_bit_eq k(2) take_bit_eq_mask mask_eq_exp_minus_1)
  also have "\<dots> = ones v (w * i) w"
    unfolding c
  proof (rule pack_field)
    have "(2 :: nat) ^ l \<le> 2 ^ w" using w(4) by simp
    then show "ones v (w * j) w < 2 ^ w" for j using ones_le[of v "w * j" w] w(3) by linarith
    show "ones v (w * j) w = 0" if "m \<le> j" for j
      using ones_beyond[of "w * j" v w] that w(2)[symmetric] by simp
    show "ones v (w * i) w < 2 ^ l" using ones_le[of v "w * i" w] w(3) by linarith
  qed (rule w(4))
  finally show ?thesis by (simp add: i)
qed

lemma nth_set_bit_u64_inv:
  assumes "1 \<le> unat n" "unat n \<le> ones (reverse_bits v) 0 64"
  shows "\<exists>s. nth_set_bit_u64 v n = 64 - s \<and> 1 \<le> unat s \<and> unat s \<le> 64 \<and> bit (reverse_bits v) (unat s - 1) \<and>
    ones (reverse_bits v) (unat s) (64 - unat s) + 1 = unat n"
proof -
  define r where "r = reverse_bits v"
  obtain a b c d where cnt: "bit_counts r = (a, b, c, d)" by (cases "bit_counts r")
  note packs = counts_pack[OF cnt]
  define t1 where "t1 = drop_bit 32 d + drop_bit 48 d"
  obtain s1 n1 where p1: "select_step t1 3 (64, n) = (s1, n1)" by (cases "select_step t1 3 (64, n)")
  obtain s2 n2 where p2: "select_step (shr64 d (s1 - 16) AND 0xff) 4 (s1, n1) = (s2, n2)"
    by (cases "select_step (shr64 d (s1 - 16) AND 0xff) 4 (s1, n1)")
  obtain s3 n3 where p3: "select_step (shr64 c (s2 - 8) AND 0xf) 5 (s2, n2) = (s3, n3)"
    by (cases "select_step (shr64 c (s2 - 8) AND 0xf) 5 (s2, n2)")
  obtain s4 n4 where p4: "select_step (shr64 b (s3 - 4) AND 0x7) 6 (s3, n3) = (s4, n4)"
    by (cases "select_step (shr64 b (s3 - 4) AND 0x7) 6 (s3, n3)")
  obtain s5 n5 where p5: "select_step (shr64 a (s4 - 2) AND 0x3) 7 (s4, n4) = (s5, n5)"
    by (cases "select_step (shr64 a (s4 - 2) AND 0x3) 7 (s4, n4)")
  obtain s6 n6 where p6: "select_step (shr64 r (s5 - 1) AND 0x1) 8 (s5, n5) = (s6, n6)"
    by (cases "select_step (shr64 r (s5 - 1) AND 0x1) 8 (s5, n5)")
  have s6: "s6 = s5 - drop_bit 8 (((shr64 r (s5 - 1) AND 0x1) - n5) AND 256)"
    using p6 unfolding select_step_def by simp
  have res: "nth_set_bit_u64 v n = 65 - s6 - 1"
    unfolding nth_set_bit_u64_def Let_def r_def[symmetric] cnt prod.case p1[unfolded t1_def] fst_conv snd_conv
      p2 p3 p4 p5 s6 ..
  let ?N = "unat n"
  have i0: "sel_inv r ?N 64 (64, n)" using assms by (simp add: sel_inv_def r_def)
  have far: "ones r i w = 0" if "64 \<le> i" for i w using ones_beyond[of i r] that by simp
  have drops: "unat (drop_bit (16 * i) d) = pack 16 (\<lambda>j. ones r (16 * (j + i)) 16) 4" for i
  proof -
    have "ones r j 16 < 2 ^ 16" for j using ones_le[of r j 16] by simp
    then show ?thesis using pack_drop[of "\<lambda>j. ones r (16 * j) 16" 16 4 i] far
      by (simp add: unat_drop_bit_eq packs(4))
  qed
  have "unat (drop_bit 32 d) = ones r 32 16 + 2 ^ 16 * ones r 48 16" "unat (drop_bit 48 d) = ones r 48 16"
    using drops[of 2] drops[of 3] by (simp_all add: pack_numeral pack_Suc far)
  then have "unat t1 = (ones r 32 16 + 2 ^ 16 * ones r 48 16 + ones r 48 16) mod 2 ^ 64"
    unfolding t1_def unat_word_ariths by simp
  also have "\<dots> = ones r 32 16 + 2 ^ 16 * ones r 48 16 + ones r 48 16"
    using ones_le[of r 32 16] ones_le[of r 48 16] by (intro mod_less) simp
  finally have t1: "unat t1 = ones r 32 32 + 2 ^ 16 * ones r 48 16"
    using ones_add[of r 32 16 16] by simp
  have t1': "unat t1 = ones r (unat (64 :: 64 word) - 32) 32 + 2 ^ 16 * ones r 48 16" "ones r 48 16 < 2 ^ 8"
    using t1 ones_le[of r 48 16] by simp_all
  have next_step: "sel_inv r ?N h (s', n')"
    if "sel_inv r ?N (2 * h) (s, m)" "h = 2 ^ (8 - w)" "w \<le> 8" "h \<le> 32" "unat t = ones r (unat s - h) h"
      "select_step t w (s, m) = (s', n')" for h s m w t s' n'
    using sel_inv_step[OF that(1-4), of t 0] that(5,6) by simp
  have field: "unat (shr64 e (s - k) AND mk) = ones r (unat s - w) w"
    if "sel_inv r ?N (2 * w) (s, m)" "unat e = pack w (\<lambda>j. ones r (w * j) w) q" "0 < w" "w * q = 64"
      "w < 2 ^ l" "l \<le> w" "unat k = w" "unat mk = 2 ^ l - 1" for w s m e q l k mk
  proof -
    have "w dvd unat s" "w \<le> unat s" "unat s \<le> 64" using that(1) by (auto simp: sel_inv_def dvd_mult_right)
    then show ?thesis using that by (intro shr_field) simp_all
  qed
  have i0': "sel_inv r ?N (2 * 32) (64, n)" using i0 by simp
  have i1: "sel_inv r ?N 32 (s1, n1)" using sel_inv_step[OF i0' _ _ _ t1', of 3] unfolding p1 by simp
  then have j: "sel_inv r ?N (2 * 16) (s1, n1)" by simp
  have i2: "sel_inv r ?N 16 (s2, n2)"
    by (rule next_step[OF j _ _ _ field[OF j packs(4), of 8] p2]) simp_all
  then have j: "sel_inv r ?N (2 * 8) (s2, n2)" by simp
  have i3: "sel_inv r ?N 8 (s3, n3)"
    by (rule next_step[OF j _ _ _ field[OF j packs(3), of 4] p3]) simp_all
  then have j: "sel_inv r ?N (2 * 4) (s3, n3)" by simp
  have i4: "sel_inv r ?N 4 (s4, n4)"
    by (rule next_step[OF j _ _ _ field[OF j packs(2), of 3] p4]) simp_all
  then have j: "sel_inv r ?N (2 * 2) (s4, n4)" by simp
  have i5: "sel_inv r ?N 2 (s5, n5)"
    by (rule next_step[OF j _ _ _ field[OF j packs(1), of 2] p5]) simp_all
  then have j: "sel_inv r ?N (2 * 1) (s5, n5)" by simp
  have pr: "unat r = pack 1 (\<lambda>j. ones r (1 * j) 1) 64" using unat_pack[of r] by (simp add: ones_one)
  have "sel_inv r ?N 1 (s6, n6)"
    by (rule next_step[OF j _ _ _ field[OF j pr, of 1] p6]) simp_all
  then have "1 \<le> unat s6" "unat s6 \<le> 64" "1 \<le> unat n6" "unat n6 \<le> of_bool (bit r (unat s6 - 1))"
      "ones r (unat s6) (64 - unat s6) + unat n6 = unat n"
    by (simp_all add: sel_inv_def ones_one)
  then show ?thesis unfolding r_def[symmetric] res
    by (intro exI[of _ s6]; cases "bit r (unat s6 - 1)") auto
qed


section \<open>Counting ones\<close>

lemma count_ones_eq: "count_ones w = ones w 0 LENGTH('a)" for w :: "'a::len word"
  unfolding count_ones_def ones_def
  by (simp add: sum.If_cases length_filter_conv_card Collect_conj_eq flip: distinct_card)
     (rule arg_cong[where f = card], auto)

lemma ones_cong: "(\<And>j. i \<le> j \<Longrightarrow> j < i + w \<Longrightarrow> bit u j = bit v (j + k)) \<Longrightarrow> ones u i w = ones v (i + k) w"
  unfolding ones_def by (rule sum.reindex_cong[of "\<lambda>j. j - k"])
    (auto simp: inj_on_def image_iff Bex_def intro!: exI[of _ "_ + k"])

lemma bit_reverse_bits: "bit (reverse_bits w) i \<longleftrightarrow> i < LENGTH('a) \<and> bit w (LENGTH('a) - 1 - i)" for w :: "'a::len word"
  by (auto simp: reverse_bits_def bit_horner_sum_bit_word_iff)

lemma ones_reverse:
  fixes v :: "64 word"
  assumes "s \<le> 64" shows "ones (reverse_bits v) s (64 - s) = ones v 0 (64 - s)"
  unfolding ones_def
  by (rule sum.reindex_bij_witness[of _ "\<lambda>j. 63 - j" "\<lambda>j. 63 - j"])
    (use assms in \<open>auto simp: bit_reverse_bits\<close>)

lemma nth_set_bit_u64_ok:
  fixes v :: "64 word"
  assumes "1 \<le> unat n" "unat n \<le> ones v 0 64"
  shows "bit v (unat (nth_set_bit_u64 v n)) \<and> ones v 0 (unat (nth_set_bit_u64 v n)) + 1 = unat n"
proof -
  have "unat n \<le> ones (reverse_bits v) 0 64" using ones_reverse[of 0 v] assms(2) by simp
  from nth_set_bit_u64_inv[OF assms(1) this] obtain s where s: "nth_set_bit_u64 v n = 64 - s" "1 \<le> unat s"
    "unat s \<le> 64" "bit (reverse_bits v) (unat s - 1)" "ones (reverse_bits v) (unat s) (64 - unat s) + 1 = unat n" by blast
  have "unat (64 - s) = 64 - unat s" using s(3) by (subst unat_sub) (simp_all add: word_le_nat_alt)
  then show ?thesis using s ones_reverse[OF s(3), of v] by (simp add: bit_reverse_bits)
qed

lemma nth_set_bit_ok:
  assumes "1 \<le> n" "n \<le> ones v 0 128"
  shows "bit v (nth_set_bit v n) \<and> ones v 0 (nth_set_bit v n) + 1 = n"
proof -
  define low high where "low = (ucast v :: 64 word)" and "high = (ucast (drop_bit 64 v) :: 64 word)"
  have bl: "bit low j \<longleftrightarrow> j < 64 \<and> bit v j" and bh: "bit high j \<longleftrightarrow> j < 64 \<and> bit v (64 + j)" for j
    unfolding low_def high_def by (auto simp: bit_ucast_iff bit_drop_bit_eq dest: bit_imp_le_length)
  have ol: "ones low 0 w = ones v 0 w" if "w \<le> 64" for w
    using ones_cong[of 0 w low v 0] that bl by auto
  have oh: "ones high 0 w = ones v 64 w" if "w \<le> 64" for w
    using ones_cong[of 0 w high v 64] that bh by (auto simp: add.commute)
  have lc: "count_ones low = ones v 0 64" using count_ones_eq[of low] ol[of 64] by simp
  have tot: "ones v 0 128 = ones v 0 64 + ones v 64 64" using ones_add[of v 0 64 64] by simp
  have le: "ones v 0 64 \<le> 64" "ones v 64 64 \<le> 64" by (rule ones_le)+
  show ?thesis
  proof (cases "n > ones v 0 64")
    case True
    define i where "i = unat (nth_set_bit_u64 high (of_nat (n - ones v 0 64)))"
    have n: "unat (of_nat (n - ones v 0 64) :: 64 word) = n - ones v 0 64"
      using assms tot le by (simp add: unat_of_nat)
    have "bit high i \<and> ones high 0 i + 1 = n - ones v 0 64"
      using nth_set_bit_u64_ok[of "of_nat (n - ones v 0 64)" high] True assms tot oh[of 64] unfolding n i_def by simp
    then have "bit v (64 + i)" "ones v 64 i + 1 = n - ones v 0 64" using bh[of i] oh[of i] by auto
    moreover have "nth_set_bit v n = 64 + i" using True lc
      unfolding nth_set_bit_def Let_def low_def[symmetric] high_def[symmetric] i_def by simp
    ultimately show ?thesis using True ones_add[of v 0 64 i] by simp
  next
    case False
    define i where "i = unat (nth_set_bit_u64 low (of_nat n))"
    have n: "unat (of_nat n :: 64 word) = n" using False le by (simp add: unat_of_nat)
    have "bit low i \<and> ones low 0 i + 1 = n"
      using nth_set_bit_u64_ok[of "of_nat n" low] False assms ol[of 64] unfolding n i_def by simp
    then have "bit v i" "ones v 0 i + 1 = n" using bl[of i] ol[of i] by auto
    moreover have "nth_set_bit v n = i" using False lc
      unfolding nth_set_bit_def Let_def low_def[symmetric] high_def[symmetric] i_def by simp
    ultimately show ?thesis by simp
  qed
qed


lemma ones_take_bit: "ones (take_bit k w) i n = (if i + n \<le> k then ones w i n else if k \<le> i then 0 else ones w i (k - i))"
proof -
  have "ones (take_bit k w) i n = ones w i n" if "i + n \<le> k" for n
    using ones_cong[of i n "take_bit k w" w 0] that by (simp add: bit_take_bit_iff)
  moreover have "ones (take_bit k w) i n = 0" if "k \<le> i" for i n
    using that by (auto simp: ones_def bit_take_bit_iff)
  moreover have "ones (take_bit k w) i n = ones (take_bit k w) i (k - i) + ones (take_bit k w) k (n - (k - i))"
    if "i < k" "k < i + n" using ones_add[of "take_bit k w" i "k - i" "n - (k - i)"] that by simp
  ultimately show ?thesis by auto
qed

lemma count_take_bit: "i \<le> LENGTH('a) \<Longrightarrow> count_ones (take_bit i w) = ones w 0 i" for w :: "'a::len word"
  by (simp add: count_ones_eq ones_take_bit)

text \<open>C30: The branchless search returns the position of the n-th set bit: the bit there is set, and
  exactly \<open>n - 1\<close> bits below it are.\<close>

theorem nth_set_bit_selects:
  assumes "1 \<le> n" "n \<le> count_ones v"
  shows "bit v (nth_set_bit v n) \<and> count_ones (take_bit (nth_set_bit v n) v) = n - 1"
proof -
  have *: "bit v (nth_set_bit v n)" "ones v 0 (nth_set_bit v n) + 1 = n"
    using nth_set_bit_ok[of n v] assms by (simp_all add: count_ones_eq)
  then show ?thesis using bit_imp_le_length[OF *(1)] by (simp add: count_take_bit)
qed

theorem nth_set_bit_selects_witness:
  "bit (5 :: 128 word) (nth_set_bit 5 2) \<and> count_ones (take_bit (nth_set_bit 5 2) (5 :: 128 word)) = 1"
proof -
  have "count_ones (5 :: 128 word) = 2" by code_simp
  then show ?thesis using nth_set_bit_selects[of 2 5] by simp
qed

end
