(* ===== verification/Bitmap.thy ===== *)
theory Bitmap
  imports BitSelect
begin

text \<open>
  The bitmaps of a chunk (\<open>crates/rope/src/chunk.rs\<close>): 128-bit words with one bit per byte of
  text, the masks that select a prefix or suffix, and the shifts. The lemmas read a bitmap as the
  list of its flags, so that masking is \<open>take\<close>, shifting is \<open>drop\<close> and
  counting ones is counting flags.
\<close>

type_synonym bitmap = "128 word"

definition MAX_BASE :: nat where "MAX_BASE = 128"
definition MIN_BASE :: nat where "MIN_BASE = MAX_BASE div 2"

lemma bases [simp]: "MAX_BASE = 128" "MIN_BASE = 64"
  by (simp_all add: MAX_BASE_def MIN_BASE_def)

text \<open>Shifts: the operators take the amount modulo the width (a release build), the unbounded
  ones shift everything out.\<close>

definition shl :: "bitmap \<Rightarrow> nat \<Rightarrow> bitmap" where
  "shl w n = push_bit (n mod 128) w"

definition shr :: "bitmap \<Rightarrow> nat \<Rightarrow> bitmap" where
  "shr w n = drop_bit (n mod 128) w"

definition unbounded_shl :: "bitmap \<Rightarrow> nat \<Rightarrow> bitmap" where
  "unbounded_shl w n = (if n < 128 then push_bit n w else 0)"

definition unbounded_shr :: "bitmap \<Rightarrow> nat \<Rightarrow> bitmap" where
  "unbounded_shr w n = (if n < 128 then drop_bit n w else 0)"

definition saturating_shl_mask :: "nat \<Rightarrow> bitmap" where
  "saturating_shl_mask offset = unbounded_shl 1 offset - 1"

definition saturating_shr_mask :: "nat \<Rightarrow> bitmap" where
  "saturating_shr_mask offset = NOT (unbounded_shr (- 1) offset)"

section \<open>Bitmaps as lists of flags\<close>

definition bits :: "bool list \<Rightarrow> bitmap" where
  "bits fl = horner_sum of_bool 2 fl"

lemma bit_bits: "bit (bits fl) i \<longleftrightarrow> i < 128 \<and> i < length fl \<and> fl ! i"
  by (auto simp: bits_def bit_horner_sum_bit_word_iff)

lemma bits_Nil [simp]: "bits [] = 0"
  by (simp add: bits_def)

lemma bits_append:
  assumes "length xs + length ys \<le> 128"
  shows "bits xs OR push_bit (length xs) (bits ys) = bits (xs @ ys)"
  by (rule bit_eqI) (use assms in \<open>auto simp: bit_or_iff bit_push_bit_iff bit_bits nth_append\<close>)

lemma saturating_shl_mask_eq: "saturating_shl_mask n = mask n"
proof (cases "n < 128")
  case True
  then show ?thesis by (simp add: saturating_shl_mask_def unbounded_shl_def mask_eq_exp_minus_1)
next
  case False
  then have "(mask n :: bitmap) = - 1" by (intro bit_eqI) (auto simp: bit_mask_iff)
  then show ?thesis using False by (simp add: saturating_shl_mask_def unbounded_shl_def)
qed

lemma bits_take: "bits fl AND mask n = bits (take n fl)"
  by (rule bit_eqI) (auto simp: bit_and_iff bit_bits bit_mask_iff)

lemma bits_drop: "length fl \<le> 128 \<Longrightarrow> drop_bit n (bits fl) = bits (drop n fl)"
  by (rule bit_eqI) (auto simp: bit_drop_bit_eq bit_bits)

lemma bit_shl: "n < 128 \<Longrightarrow> bit (shl w n) i \<longleftrightarrow> n \<le> i \<and> i < 128 \<and> bit w (i - n)"
  by (auto simp: shl_def bit_push_bit_iff)

lemma shl_mask: "n < 128 \<Longrightarrow> shl 1 n - 1 = mask n"
  by (simp add: shl_def mask_eq_exp_minus_1)

lemma shr_bits: "length fl \<le> 128 \<Longrightarrow> n < 128 \<Longrightarrow> shr (bits fl) n = bits (drop n fl)"
  by (simp add: shr_def bits_drop)

lemma saturating_shr_mask_bits:
  assumes "length fl \<le> 128" "n \<le> 128"
  shows "bits fl AND saturating_shr_mask n = bits (replicate (min (128 - n) (length fl)) False @ drop (128 - n) fl)"
proof (rule bit_eqI)
  fix i
  have "bit (saturating_shr_mask n) i \<longleftrightarrow> i < 128 \<and> 128 - n \<le> i"
    using assms(2) by (auto simp: saturating_shr_mask_def unbounded_shr_def bit_not_iff bit_drop_bit_eq bit_mask_iff)
  then show "bit (bits fl AND saturating_shr_mask n) i =
      bit (bits (replicate (min (128 - n) (length fl)) False @ drop (128 - n) fl)) i"
    using assms by (auto simp: bit_and_iff bit_bits nth_append)
qed

definition cnt :: "bool list \<Rightarrow> nat" where
  "cnt fl = length (filter (\<lambda>b. b) fl)"

lemma cnt_simps [simp]:
  "cnt [] = 0" "cnt (b # fl) = of_bool b + cnt fl" "cnt (xs @ ys) = cnt xs + cnt ys"
  "cnt (replicate n False) = 0"
  by (simp_all add: cnt_def)

lemma cnt_le: "cnt fl \<le> length fl"
  by (simp add: cnt_def)

lemma ones_bits:
  assumes "length fl \<le> 128" shows "ones (bits fl) 0 n = cnt (take n fl)"
proof (induction n)
  case (Suc n)
  have "ones (bits fl) 0 (Suc n) = cnt (take n fl) + of_bool (bit (bits fl) n)"
    using ones_add[of "bits fl" 0 n 1] Suc by (simp add: ones_one)
  also have "\<dots> = cnt (take (Suc n) fl)"
    using assms by (cases "n < length fl") (simp_all add: take_Suc_conv_app_nth bit_bits)
  finally show ?case .
qed simp

lemma count_ones_bits: "length fl \<le> 128 \<Longrightarrow> count_ones (bits fl) = cnt fl"
  by (simp add: count_ones_eq ones_bits)

lemma takeWhile_upt:
  assumes "n \<le> m" "\<And>i. i < n \<Longrightarrow> P i" "n < m \<Longrightarrow> \<not> P n"
  shows "length (takeWhile P [0..<m]) = n"
proof -
  have "[0..<m] = [0..<n] @ [n..<m]" using upt_add_eq_append[of 0 n "m - n"] assms(1) by simp
  moreover have "takeWhile P ([0..<n] @ [n..<m]) = [0..<n] @ takeWhile P [n..<m]"
    using assms(2) by (intro takeWhile_append2) simp
  moreover have "takeWhile P [n..<m] = []" using assms(3) by (cases "n < m") (simp_all add: upt_rec[of n m])
  ultimately show ?thesis by simp
qed

lemma takeWhile_less: "True \<in> set fl \<Longrightarrow> length (takeWhile Not fl) < length fl"
  by (induction fl) auto

lemma trailing_zeros_bits:
  assumes "length fl \<le> 128"
  shows "trailing_zeros (bits fl) = (if True \<in> set fl then length (takeWhile Not fl) else 128)"
  unfolding trailing_zeros_def
proof (rule takeWhile_upt)
  have n: "length (takeWhile Not fl) < length fl" if "True \<in> set fl" using that by (rule takeWhile_less)
  show "(if True \<in> set fl then length (takeWhile Not fl) else 128) \<le> LENGTH(128)" using n assms by auto
  show "\<not> bit (bits fl) i" if "i < (if True \<in> set fl then length (takeWhile Not fl) else 128)" for i
    using that nth_length_takeWhile set_takeWhileD[of "fl ! i" Not fl] takeWhile_nth[of i Not fl]
    by (auto simp: bit_bits in_set_conv_nth split: if_splits)
  show "\<not> \<not> bit (bits fl) (if True \<in> set fl then length (takeWhile Not fl) else 128)"
    if "(if True \<in> set fl then length (takeWhile Not fl) else 128) < LENGTH(128)"
    using that n nth_length_takeWhile[of Not fl] by (auto simp: bit_bits split: if_splits)
qed

lemma leading_zeros_bits:
  assumes "length fl \<le> 128"
  shows "leading_zeros (bits fl) = 128 - length fl + length (takeWhile Not (rev fl))"
proof -
  have "rev [0..<128] = rev [length fl..<128] @ rev [0..<length fl]"
    using assms upt_add_eq_append[of 0 "length fl" "128 - length fl"] by (simp flip: rev_append)
  moreover have "\<forall>i \<in> set (rev [length fl..<128]). \<not> bit (bits fl) i" by (simp add: bit_bits)
  moreover have "length (takeWhile (\<lambda>i. \<not> bit (bits fl) i) (rev [0..<length fl])) = length (takeWhile Not (rev fl))"
  proof -
    have "rev fl = map (bit (bits fl)) (rev [0..<length fl])"
      using assms by (auto simp: rev_map[symmetric] bit_bits intro: nth_equalityI)
    then show ?thesis by (simp add: takeWhile_map comp_def)
  qed
  ultimately show ?thesis
    using takeWhile_append2[of "rev [length fl..<128]" "\<lambda>i. \<not> bit (bits fl) i" "rev [0..<length fl]"]
    by (simp add: leading_zeros_def)
qed

lemma bits_0_iff: "length fl \<le> 128 \<Longrightarrow> bits fl = 0 \<longleftrightarrow> True \<notin> set fl"
  by (auto simp: bit_eq_iff bit_bits in_set_conv_nth)

lemma bitmap_ne_0: "w \<noteq> 0 \<longleftrightarrow> (\<exists>j < 128. bit w j)" for w :: bitmap
  using bit_imp_le_length[of w] by (auto simp: bit_eq_iff)

lemma bit_unbounded_shl_1: "bit (unbounded_shl 1 i) j \<longleftrightarrow> j = i \<and> i < 128"
  using bit_exp_iff[where 'a = "128 word", of i j] by (auto simp: unbounded_shl_def)

end
