(* ===== verification/Points.thy ===== *)
theory Points
  imports Prelude
begin

text \<open>
  Positions in a text (\<open>crates/rope/src/point.rs\<close>, \<open>point_utf16.rs\<close>, \<open>offset_utf16.rs\<close>,
  \<open>unclipped.rs\<close>): row and column with their arithmetic and order, and offsets in UTF-16 code
  units. The fields are natural numbers: sums are exact as long as the texts have fewer than
  \<open>2 ^ 32\<close> rows and columns, and a subtraction below zero is \<open>None\<close>. The lemmas show that the
  comparison of the packed words is the lexicographic order and that differences are undone
  by sums.
\<close>

section \<open>Points\<close>

datatype point = Point (row: nat) (column: nat)

definition point_zero :: point where
  "point_zero = Point 0 0"

definition POINT_MAX :: point where
  "POINT_MAX = Point (2 ^ 32 - 1) (2 ^ 32 - 1)"

definition point_row_range :: "nat \<times> nat \<Rightarrow> point \<times> point" where
  "point_row_range r = (Point (fst r) 0, Point (snd r) 0)"

definition point_is_zero :: "point \<Rightarrow> bool" where
  "point_is_zero p \<longleftrightarrow> row p = 0 \<and> column p = 0"

definition point_add :: "point \<Rightarrow> point \<Rightarrow> point" where
  "point_add a b = (if row b = 0 then Point (row a) (column a + column b) else Point (row a + row b) (column b))"

definition point_sub :: "point \<Rightarrow> point \<Rightarrow> point option" where
  "point_sub a b =
     (if row a = row b then do { c \<leftarrow> csub (column a) (column b); Some (Point 0 c) }
      else do { r \<leftarrow> csub (row a) (row b); Some (Point r (column a)) })"

text \<open>\<open>cmp\<close> on a 64-bit target packs row and column into one word.\<close>

definition point_pack :: "point \<Rightarrow> nat" where
  "point_pack p = row p * 2 ^ 32 + column p"

definition point_cmp :: "point \<Rightarrow> point \<Rightarrow> ordering" where
  "point_cmp a b = cmp_of (point_pack a) (point_pack b)"

definition point_saturating_sub :: "point \<Rightarrow> point \<Rightarrow> point option" where
  "point_saturating_sub a b = (if point_cmp a b = Less then Some point_zero else point_sub a b)"

instantiation point :: linorder
begin

definition less_eq_point :: "point \<Rightarrow> point \<Rightarrow> bool" where
  "less_eq_point a b \<longleftrightarrow> row a < row b \<or> (row a = row b \<and> column a \<le> column b)"

definition less_point :: "point \<Rightarrow> point \<Rightarrow> bool" where
  "less_point a b \<longleftrightarrow> row a < row b \<or> (row a = row b \<and> column a < column b)"

instance
proof
  fix x y z :: point
  show "(x < y) = (x \<le> y \<and> \<not> y \<le> x)" by (auto simp: less_eq_point_def less_point_def)
  show "x \<le> x" by (simp add: less_eq_point_def)
  show "x \<le> y \<Longrightarrow> y \<le> z \<Longrightarrow> x \<le> z" by (auto simp: less_eq_point_def)
  show "x \<le> y \<Longrightarrow> y \<le> x \<Longrightarrow> x = y" by (cases x; cases y) (auto simp: less_eq_point_def)
  show "x \<le> y \<or> y \<le> x" by (auto simp: less_eq_point_def)
qed

end

lemmas point_order = less_eq_point_def less_point_def

lemma pack_less:
  "c < (2 :: nat) ^ 32 \<Longrightarrow> c' < 2 ^ 32 \<Longrightarrow> r * 2 ^ 32 + c < r' * 2 ^ 32 + c' \<longleftrightarrow> r < r' \<or> (r = r' \<and> c < c')"
proof -
  assume c: "c < (2 :: nat) ^ 32" "c' < 2 ^ 32"
  consider "r < r'" | "r = r'" | "r' < r" by linarith
  then show ?thesis
  proof cases
    case 1
    then have "Suc r * 2 ^ 32 \<le> r' * 2 ^ 32" by (intro mult_le_mono1) simp
    then show ?thesis using 1 c by simp
  next
    case 3
    then have "Suc r' * 2 ^ 32 \<le> r * 2 ^ 32" by (intro mult_le_mono1) simp
    then show ?thesis using 3 c by simp
  qed simp
qed

lemma point_cmp_eq:
  assumes "column a < 2 ^ 32" "column b < 2 ^ 32"
  shows "point_cmp a b = cmp_of a b"
proof -
  have "point_pack a < point_pack b \<longleftrightarrow> a < b" "point_pack b < point_pack a \<longleftrightarrow> b < a"
    using pack_less[OF assms] pack_less[OF assms(2,1)] by (simp_all add: point_pack_def less_point_def)
  then show ?thesis by (auto simp: point_cmp_def cmp_of_def)
qed

lemma point_add_assoc: "point_add (point_add a b) c = point_add a (point_add b c)"
  by (auto simp: point_add_def)

lemma point_add_zero [simp]: "point_add a point_zero = a" "point_add point_zero a = a"
  by (cases a; simp add: point_add_def point_zero_def)+

lemma point_sub_ok:
  assumes "a \<le> b" obtains d where "point_sub b a = Some d" "point_add a d = b"
proof (cases "row b = row a")
  case True
  show ?thesis
    by (rule that[of "Point 0 (column b - column a)"])
      (use assms True in \<open>cases b; auto simp: point_sub_def point_add_def csub_def point_order\<close>)+
next
  case False
  then have "row a < row b" using assms by (auto simp: point_order)
  then show ?thesis
    by (intro that[of "Point (row b - row a) (column b)"])
      (use False in \<open>cases b; auto simp: point_sub_def point_add_def csub_def\<close>)+
qed

lemma point_sub_add: "point_sub (point_add a d) a = Some d"
  by (cases d) (auto simp: point_sub_def point_add_def csub_def)

lemma point_add_mono: "point_add a b \<le> point_add a c \<longleftrightarrow> b \<le> c"
  by (auto simp: point_add_def point_order)

lemma point_le_add [simp]: "a \<le> point_add a d"
  by (auto simp: point_add_def point_order)

section \<open>Points in UTF-16 code units\<close>

datatype point16 = Point16 (row16: nat) (column16: nat)

definition point16_zero :: point16 where
  "point16_zero = Point16 0 0"

definition POINT16_MAX :: point16 where
  "POINT16_MAX = Point16 (2 ^ 32 - 1) (2 ^ 32 - 1)"

definition point16_is_zero :: "point16 \<Rightarrow> bool" where
  "point16_is_zero p \<longleftrightarrow> row16 p = 0 \<and> column16 p = 0"

definition point16_add :: "point16 \<Rightarrow> point16 \<Rightarrow> point16" where
  "point16_add a b =
     (if row16 b = 0 then Point16 (row16 a) (column16 a + column16 b) else Point16 (row16 a + row16 b) (column16 b))"

definition point16_sub :: "point16 \<Rightarrow> point16 \<Rightarrow> point16 option" where
  "point16_sub a b =
     (if row16 a = row16 b then do { c \<leftarrow> csub (column16 a) (column16 b); Some (Point16 0 c) }
      else do { r \<leftarrow> csub (row16 a) (row16 b); Some (Point16 r (column16 a)) })"

definition point16_cmp :: "point16 \<Rightarrow> point16 \<Rightarrow> ordering" where
  "point16_cmp a b = cmp_of (row16 a * 2 ^ 32 + column16 a) (row16 b * 2 ^ 32 + column16 b)"

definition point16_saturating_sub :: "point16 \<Rightarrow> point16 \<Rightarrow> point16 option" where
  "point16_saturating_sub a b = (if point16_cmp a b = Less then Some point16_zero else point16_sub a b)"

instantiation point16 :: linorder
begin

definition less_eq_point16 :: "point16 \<Rightarrow> point16 \<Rightarrow> bool" where
  "less_eq_point16 a b \<longleftrightarrow> row16 a < row16 b \<or> (row16 a = row16 b \<and> column16 a \<le> column16 b)"

definition less_point16 :: "point16 \<Rightarrow> point16 \<Rightarrow> bool" where
  "less_point16 a b \<longleftrightarrow> row16 a < row16 b \<or> (row16 a = row16 b \<and> column16 a < column16 b)"

instance
proof
  fix x y z :: point16
  show "(x < y) = (x \<le> y \<and> \<not> y \<le> x)" by (auto simp: less_eq_point16_def less_point16_def)
  show "x \<le> x" by (simp add: less_eq_point16_def)
  show "x \<le> y \<Longrightarrow> y \<le> z \<Longrightarrow> x \<le> z" by (auto simp: less_eq_point16_def)
  show "x \<le> y \<Longrightarrow> y \<le> x \<Longrightarrow> x = y" by (cases x; cases y) (auto simp: less_eq_point16_def)
  show "x \<le> y \<or> y \<le> x" by (auto simp: less_eq_point16_def)
qed

end

lemmas point16_order = less_eq_point16_def less_point16_def

lemma point16_cmp_eq:
  assumes "column16 a < 2 ^ 32" "column16 b < 2 ^ 32"
  shows "point16_cmp a b = cmp_of a b"
proof -
  have "row16 a * 2 ^ 32 + column16 a < row16 b * 2 ^ 32 + column16 b \<longleftrightarrow> a < b"
    "row16 b * 2 ^ 32 + column16 b < row16 a * 2 ^ 32 + column16 a \<longleftrightarrow> b < a"
    using pack_less[OF assms] pack_less[OF assms(2,1)] by (simp_all add: less_point16_def)
  then show ?thesis by (auto simp: point16_cmp_def cmp_of_def)
qed

lemma point16_add_assoc: "point16_add (point16_add a b) c = point16_add a (point16_add b c)"
  by (auto simp: point16_add_def)

lemma point16_add_zero [simp]: "point16_add a point16_zero = a" "point16_add point16_zero a = a"
  by (cases a; simp add: point16_add_def point16_zero_def)+

lemma point16_sub_add: "point16_sub (point16_add a d) a = Some d"
  by (cases d) (auto simp: point16_sub_def point16_add_def csub_def)

lemma point16_sub_ok:
  assumes "a \<le> b" shows "\<exists>d. point16_sub b a = Some d \<and> point16_add a d = b"
proof (cases "row16 b = row16 a")
  case True
  then show ?thesis using assms
    by (intro exI[of _ "Point16 0 (column16 b - column16 a)"])
      (cases b; auto simp: point16_sub_def point16_add_def csub_def point16_order)
next
  case False
  then have "row16 a < row16 b" using assms by (auto simp: point16_order)
  then show ?thesis using False
    by (intro exI[of _ "Point16 (row16 b - row16 a) (column16 b)"])
      (cases b; auto simp: point16_sub_def point16_add_def csub_def)
qed

section \<open>Offsets in UTF-16 code units and unclipped values\<close>

datatype offset16 = Offset16 (units: nat)

definition offset16_add :: "offset16 \<Rightarrow> offset16 \<Rightarrow> offset16" where
  "offset16_add a b = Offset16 (units a + units b)"

definition offset16_sub :: "offset16 \<Rightarrow> offset16 \<Rightarrow> offset16 option" where
  "offset16_sub a b = map_option Offset16 (csub (units a) (units b))"

datatype 'a unclipped = Unclipped (clipped: 'a)

definition unclipped_add :: "('a \<Rightarrow> 'a \<Rightarrow> 'a) \<Rightarrow> 'a unclipped \<Rightarrow> 'a unclipped \<Rightarrow> 'a unclipped" where
  "unclipped_add add a b = Unclipped (add (clipped a) (clipped b))"

definition unclipped_sub ::
  "('a \<Rightarrow> 'a \<Rightarrow> 'a option) \<Rightarrow> 'a unclipped \<Rightarrow> 'a unclipped \<Rightarrow> 'a unclipped option" where
  "unclipped_sub sub a b = map_option Unclipped (sub (clipped a) (clipped b))"

section \<open>Properties\<close>

text \<open>The comparison of points by one packed word is the lexicographic order of rows and columns
  as long as columns fit into 32 bits; the difference of a point and an earlier one exists and
  adding it back returns the point; and the saturating difference of a later point is zero.\<close>

theorem point_arithmetic:
  assumes "column a < 2 ^ 32" "column b < 2 ^ 32"
  shows "point_cmp a b = then_with (cmp_of (row a) (row b)) (cmp_of (column a) (column b)) \<and>
    (point_cmp a b \<noteq> Less \<longrightarrow>
       (\<exists>d. point_sub a b = Some d \<and> point_saturating_sub a b = Some d \<and> point_add b d = a)) \<and>
    (point_cmp a b = Less \<longrightarrow> point_saturating_sub a b = Some point_zero)"
proof (intro conjI impI)
  show "point_cmp a b = then_with (cmp_of (row a) (row b)) (cmp_of (column a) (column b))"
    unfolding point_cmp_eq[OF assms] by (cases a; cases b) (auto simp: cmp_of_def less_point_def)
  assume nl: "point_cmp a b \<noteq> Less"
  then have "b \<le> a" unfolding point_cmp_eq[OF assms] by simp
  then obtain d where "point_sub a b = Some d" "point_add b d = a" by (rule point_sub_ok)
  then show "\<exists>d. point_sub a b = Some d \<and> point_saturating_sub a b = Some d \<and> point_add b d = a"
    using nl by (simp add: point_saturating_sub_def)
qed (simp add: point_saturating_sub_def)

theorem point_arithmetic_witness:
  "point_cmp (Point 2 7) (Point 1 9) = Greater \<and> point_sub (Point 2 7) (Point 1 9) = Some (Point 1 7)"
  using point_arithmetic[of "Point 2 7" "Point 1 9"] by (simp add: point_sub_def csub_def cmp_of_def)

end
