(* ===== verification/TextSummary.thy ===== *)
theory TextSummary
  imports Points SumTreeOps
begin

text \<open>
  Text and its summaries (\<open>TextSummary\<close> in \<open>crates/rope/src/rope.rs\<close>). A Rust string is the list
  of its characters, a character its Unicode scalar value. The summary of a string is a fold over
  its characters; the main lemma is that it is a homomorphism: the sum of two summaries is the
  summary of the concatenation. With it every dimension of a rope keeps the contracts of the sum
  tree.
\<close>

section \<open>Characters and strings\<close>

type_synonym uchar = nat
type_synonym str = "uchar list"

text \<open>Rust's \<open>char\<close>: a Unicode scalar value.\<close>

definition is_scalar :: "uchar \<Rightarrow> bool" where
  "is_scalar c \<longleftrightarrow> c < 0xD800 \<or> (0xE000 \<le> c \<and> c < 0x110000)"

abbreviation NEWLINE :: uchar where "NEWLINE \<equiv> 10"
abbreviation TAB :: uchar where "TAB \<equiv> 9"

definition len_utf8 :: "uchar \<Rightarrow> nat" where
  "len_utf8 c = (if c < 0x80 then 1 else if c < 0x800 then 2 else if c < 0x10000 then 3 else 4)"

definition len_utf16 :: "uchar \<Rightarrow> nat" where
  "len_utf16 c = (if c < 0x10000 then 1 else 2)"

definition str_len :: "str \<Rightarrow> nat" where
  "str_len s = sum_list (map len_utf8 s)"

lemma len_utf8_pos [simp]: "0 < len_utf8 c" "Suc 0 \<le> len_utf8 c" "len_utf8 c \<noteq> 0"
  by (auto simp: len_utf8_def)

lemma len_utf8_le [simp]: "len_utf8 c \<le> 4"
  by (simp add: len_utf8_def)

lemma str_len_simps [simp]:
  "str_len [] = 0" "str_len (c # s) = len_utf8 c + str_len s" "str_len (s @ t) = str_len s + str_len t"
  by (simp_all add: str_len_def)

lemma str_len_0 [simp]: "str_len s = 0 \<longleftrightarrow> s = []"
  by (cases s) auto

section \<open>Summaries\<close>

record text_summary =
  ts_len :: nat
  ts_chars :: nat
  ts_len_utf16 :: nat
  ts_lines :: point
  ts_first_line_chars :: nat
  ts_last_line_chars :: nat
  ts_last_line_len_utf16 :: nat
  ts_longest_row :: nat
  ts_longest_row_chars :: nat

definition text_zero :: text_summary where
  "text_zero = \<lparr>ts_len = 0, ts_chars = 0, ts_len_utf16 = 0, ts_lines = point_zero, ts_first_line_chars = 0,
     ts_last_line_chars = 0, ts_last_line_len_utf16 = 0, ts_longest_row = 0, ts_longest_row_chars = 0\<rparr>"

definition lines_utf16 :: "text_summary \<Rightarrow> point16" where
  "lines_utf16 s = Point16 (row (ts_lines s)) (ts_last_line_len_utf16 s)"

definition text_newline :: text_summary where
  "text_newline = \<lparr>ts_len = 1, ts_chars = 1, ts_len_utf16 = 1, ts_lines = Point 1 0, ts_first_line_chars = 0,
     ts_last_line_chars = 0, ts_last_line_len_utf16 = 0, ts_longest_row = 0, ts_longest_row_chars = 0\<rparr>"

definition add_newline :: "text_summary \<Rightarrow> text_summary" where
  "add_newline s = s\<lparr>ts_len := ts_len s + 1, ts_len_utf16 := ts_len_utf16 s + (ts_len_utf16 s + 1),
     ts_last_line_chars := 0, ts_last_line_len_utf16 := 0, ts_lines := point_add (ts_lines s) (Point 1 0)\<rparr>"

text \<open>\<open>add_assign\<close>, statement by statement.\<close>

definition add_longest_joined :: "text_summary \<Rightarrow> text_summary \<Rightarrow> text_summary" where
  "add_longest_joined s t =
     (let joined_chars = ts_last_line_chars s + ts_first_line_chars t in
      if joined_chars > ts_longest_row_chars s
      then s\<lparr>ts_longest_row := row (ts_lines s), ts_longest_row_chars := joined_chars\<rparr> else s)"

definition add_longest_other :: "text_summary \<Rightarrow> text_summary \<Rightarrow> text_summary" where
  "add_longest_other s t =
     (if ts_longest_row_chars t > ts_longest_row_chars s
      then s\<lparr>ts_longest_row := row (ts_lines s) + ts_longest_row t,
             ts_longest_row_chars := ts_longest_row_chars t\<rparr> else s)"

definition add_line_ends :: "text_summary \<Rightarrow> text_summary \<Rightarrow> text_summary" where
  "add_line_ends s t =
     (let s = (if row (ts_lines s) = 0
               then s\<lparr>ts_first_line_chars := ts_first_line_chars s + ts_first_line_chars t\<rparr> else s) in
      if row (ts_lines t) = 0
      then s\<lparr>ts_last_line_chars := ts_last_line_chars s + ts_first_line_chars t,
             ts_last_line_len_utf16 := ts_last_line_len_utf16 s + ts_last_line_len_utf16 t\<rparr>
      else s\<lparr>ts_last_line_chars := ts_last_line_chars t,
             ts_last_line_len_utf16 := ts_last_line_len_utf16 t\<rparr>)"

definition text_add :: "text_summary \<Rightarrow> text_summary \<Rightarrow> text_summary" where
  "text_add s t =
     (let s = add_line_ends (add_longest_other (add_longest_joined s t) t) t in
      s\<lparr>ts_chars := ts_chars s + ts_chars t, ts_len := ts_len s + ts_len t,
        ts_len_utf16 := ts_len_utf16 s + ts_len_utf16 t, ts_lines := point_add (ts_lines s) (ts_lines t)\<rparr>)"

text \<open>\<open>From<&str>\<close>: one step of the loop, and the loop.\<close>

definition text_step :: "text_summary \<Rightarrow> uchar \<Rightarrow> text_summary" where
  "text_step s c =
     (let s = s\<lparr>ts_chars := ts_chars s + 1, ts_len_utf16 := ts_len_utf16 s + len_utf16 c\<rparr>;
          s = (if c = NEWLINE
               then s\<lparr>ts_lines := point_add (ts_lines s) (Point 1 0), ts_last_line_len_utf16 := 0,
                      ts_last_line_chars := 0\<rparr>
               else s\<lparr>ts_lines := Point (row (ts_lines s)) (column (ts_lines s) + len_utf8 c),
                      ts_last_line_len_utf16 := ts_last_line_len_utf16 s + len_utf16 c,
                      ts_last_line_chars := ts_last_line_chars s + 1\<rparr>);
          s = (if row (ts_lines s) = 0 then s\<lparr>ts_first_line_chars := ts_last_line_chars s\<rparr> else s)
      in if ts_last_line_chars s > ts_longest_row_chars s
         then s\<lparr>ts_longest_row := row (ts_lines s), ts_longest_row_chars := ts_last_line_chars s\<rparr> else s)"

definition text_of :: "str \<Rightarrow> text_summary" where
  "text_of s = (foldl text_step text_zero s)\<lparr>ts_len := str_len s\<rparr>"

section \<open>The summary is a homomorphism\<close>

definition text_ok :: "text_summary \<Rightarrow> bool" where
  "text_ok s \<longleftrightarrow> ts_last_line_chars s \<le> ts_longest_row_chars s \<and>
     (row (ts_lines s) = 0 \<longrightarrow> ts_first_line_chars s = ts_last_line_chars s \<and>
        ts_longest_row_chars s = ts_last_line_chars s \<and> ts_longest_row s = 0)"

definition text_push :: "text_summary \<Rightarrow> uchar \<Rightarrow> text_summary" where
  "text_push s c = (text_step s c)\<lparr>ts_len := ts_len s + len_utf8 c\<rparr>"

lemma foldl_step_len [simp]: "ts_len (foldl text_step s t) = ts_len s"
  by (induction t arbitrary: s) (simp_all add: text_step_def Let_def)

lemma text_step_len: "text_step (s\<lparr>ts_len := n\<rparr>) c = (text_step s c)\<lparr>ts_len := n\<rparr>"
  by (simp add: text_step_def Let_def)

lemma text_of_Nil [simp]: "text_of [] = text_zero"
  by (simp add: text_of_def text_zero_def)

lemma text_of_snoc: "text_of (s @ [c]) = text_push (text_of s) c"
  by (simp add: text_of_def text_push_def text_step_len)

lemma text_ok_zero [simp]: "text_ok text_zero"
  by (simp add: text_ok_def text_zero_def)

lemma text_ok_push: "text_ok s \<Longrightarrow> text_ok (text_push s c)"
  by (auto simp: text_ok_def text_push_def text_step_def Let_def point_add_def)

lemma text_of_ok [simp]: "text_ok (text_of s)"
  by (induction s rule: rev_induct) (simp_all add: text_of_snoc text_ok_push)

lemma text_add_fields:
  "ts_len (text_add s t) = ts_len s + ts_len t"
  "ts_chars (text_add s t) = ts_chars s + ts_chars t"
  "ts_len_utf16 (text_add s t) = ts_len_utf16 s + ts_len_utf16 t"
  "ts_lines (text_add s t) = point_add (ts_lines s) (ts_lines t)"
  "ts_first_line_chars (text_add s t) =
     (if row (ts_lines s) = 0 then ts_first_line_chars s + ts_first_line_chars t else ts_first_line_chars s)"
  "ts_last_line_chars (text_add s t) =
     (if row (ts_lines t) = 0 then ts_last_line_chars s + ts_first_line_chars t else ts_last_line_chars t)"
  "ts_last_line_len_utf16 (text_add s t) =
     (if row (ts_lines t) = 0 then ts_last_line_len_utf16 s + ts_last_line_len_utf16 t else ts_last_line_len_utf16 t)"
  "ts_longest_row_chars (text_add s t) =
     max (max (ts_longest_row_chars s) (ts_last_line_chars s + ts_first_line_chars t)) (ts_longest_row_chars t)"
  "ts_longest_row (text_add s t) =
     (if ts_longest_row_chars t > max (ts_longest_row_chars s) (ts_last_line_chars s + ts_first_line_chars t)
      then row (ts_lines s) + ts_longest_row t
      else if ts_last_line_chars s + ts_first_line_chars t > ts_longest_row_chars s then row (ts_lines s)
      else ts_longest_row s)"
  by (simp_all add: text_add_def add_longest_joined_def add_longest_other_def add_line_ends_def Let_def)

lemma text_push_fields:
  "ts_len (text_push s c) = ts_len s + len_utf8 c"
  "ts_chars (text_push s c) = ts_chars s + 1"
  "ts_len_utf16 (text_push s c) = ts_len_utf16 s + len_utf16 c"
  "ts_lines (text_push s c) =
     (if c = NEWLINE then Point (row (ts_lines s) + 1) 0 else Point (row (ts_lines s)) (column (ts_lines s) + len_utf8 c))"
  "ts_first_line_chars (text_push s c) =
     (if c \<noteq> NEWLINE \<and> row (ts_lines s) = 0 then ts_last_line_chars s + 1 else ts_first_line_chars s)"
  "ts_last_line_chars (text_push s c) = (if c = NEWLINE then 0 else ts_last_line_chars s + 1)"
  "ts_last_line_len_utf16 (text_push s c) = (if c = NEWLINE then 0 else ts_last_line_len_utf16 s + len_utf16 c)"
  "ts_longest_row_chars (text_push s c) =
     (if c = NEWLINE then ts_longest_row_chars s else max (ts_longest_row_chars s) (ts_last_line_chars s + 1))"
  "ts_longest_row (text_push s c) =
     (if c \<noteq> NEWLINE \<and> ts_last_line_chars s + 1 > ts_longest_row_chars s then row (ts_lines s) else ts_longest_row s)"
  by (simp_all add: text_push_def text_step_def Let_def point_add_def)

lemma text_add_zero [simp]: "text_ok s \<Longrightarrow> text_add s text_zero = s"
  by (rule text_summary.equality)
    (simp_all add: text_add_fields text_ok_def text_zero_def max_def flip: point_zero_def; simp add: point_zero_def)+

lemma text_add_push:
  assumes "text_ok s" "text_ok t"
  shows "text_add s (text_push t c) = text_push (text_add s t) c"
proof (cases "c = NEWLINE")
  case True
  then show ?thesis using assms
    by (intro text_summary.equality) (simp_all add: text_add_fields text_push_fields text_ok_def point_add_def)
next
  case False
  show ?thesis
  proof (cases "row (ts_lines t) = 0")
    case True
    then have "ts_first_line_chars t = ts_last_line_chars t" "ts_longest_row_chars t = ts_last_line_chars t"
      "ts_longest_row t = 0" using assms(2) by (simp_all add: text_ok_def)
    then show ?thesis using True False assms(1)
      by (intro text_summary.equality)
        (auto simp: text_add_fields text_push_fields text_ok_def point_add_def max_def)
  next
    case row: False
    have "ts_last_line_chars t \<le> ts_longest_row_chars t" using assms(2) by (simp add: text_ok_def)
    then show ?thesis using row False
      by (intro text_summary.equality)
        (auto simp: text_add_fields text_push_fields point_add_def max_def)
  qed
qed

lemma text_of_append: "text_of (s @ t) = text_add (text_of s) (text_of t)"
proof (induction t rule: rev_induct)
  case (snoc c t)
  then show ?case
    using text_of_snoc[of "s @ t" c] by (simp add: text_of_snoc text_add_push)
qed simp

section \<open>What the fields are\<close>

text \<open>\<open>split('\n')\<close>: the lines of a string, without their newlines.\<close>

fun split_nl :: "str \<Rightarrow> str list" where
  "split_nl [] = [[]]"
| "split_nl (c # s) = (if c = NEWLINE then [] # split_nl s else (c # hd (split_nl s)) # tl (split_nl s))"

definition point_parse_str :: "str \<Rightarrow> point" where
  "point_parse_str s = foldl (\<lambda>_ (r, line). Point r (str_len line)) point_zero (enumerate 0 (split_nl s))"

lemma split_nl_ne [simp]: "split_nl s \<noteq> []"
  by (cases s) auto

lemma split_nl_snoc:
  "split_nl (s @ [c]) = (if c = NEWLINE then split_nl s @ [[]] else butlast (split_nl s) @ [last (split_nl s) @ [c]])"
proof (induction s)
  case (Cons d s)
  obtain l ls where "split_nl s = l # ls" by (cases "split_nl s") auto
  then show ?case using Cons by auto
qed simp

lemma point_parse_str_eq: "point_parse_str s = Point (length (split_nl s) - 1) (str_len (last (split_nl s)))"
proof -
  have "foldl (\<lambda>_ (r, line). Point r (str_len line)) p (enumerate n xs) =
      (if xs = [] then p else Point (n + length xs - 1) (str_len (last xs)))" for p n xs
    by (induction xs arbitrary: p n) auto
  from this[of point_zero 0 "split_nl s"] show ?thesis by (simp add: point_parse_str_def)
qed

definition longest_line :: "str list \<Rightarrow> nat \<Rightarrow> bool" where
  "longest_line ls i \<longleftrightarrow> i < length ls \<and> (\<forall>l \<in> set ls. length l \<le> length (ls ! i)) \<and>
     (\<forall>j < i. length (ls ! j) < length (ls ! i))"

lemma text_of_fields:
  "ts_len (text_of s) = str_len s"
  "ts_chars (text_of s) = length s"
  "ts_len_utf16 (text_of s) = sum_list (map len_utf16 s)"
  "ts_lines (text_of s) = point_parse_str s"
  "ts_first_line_chars (text_of s) = length (hd (split_nl s))"
  "ts_last_line_chars (text_of s) = length (last (split_nl s))"
  "ts_last_line_len_utf16 (text_of s) = sum_list (map len_utf16 (last (split_nl s)))"
proof -
  have "ts_len (text_of s) = str_len s \<and> ts_chars (text_of s) = length s \<and>
    ts_len_utf16 (text_of s) = sum_list (map len_utf16 s) \<and> ts_lines (text_of s) = point_parse_str s \<and>
    ts_first_line_chars (text_of s) = length (hd (split_nl s)) \<and>
    ts_last_line_chars (text_of s) = length (last (split_nl s)) \<and>
    ts_last_line_len_utf16 (text_of s) = sum_list (map len_utf16 (last (split_nl s)))"
  proof (induction s rule: rev_induct)
    case Nil
    show ?case by (simp add: text_zero_def point_parse_str_eq point_zero_def)
  next
    case (snoc c s)
    obtain ls l where ls: "split_nl s = ls @ [l]" by (metis append_butlast_last_id split_nl_ne)
    show ?case
    proof (cases "ls = []")
      case True
      then show ?thesis using snoc ls by (simp add: text_of_snoc text_push_fields split_nl_snoc point_parse_str_eq)
    next
      case False
      then have "row (ts_lines (text_of s)) \<noteq> 0" using snoc ls by (simp add: point_parse_str_eq)
      then show ?thesis using snoc ls False
        by (simp add: text_of_snoc text_push_fields split_nl_snoc point_parse_str_eq)
    qed
  qed
  then show "ts_len (text_of s) = str_len s" "ts_chars (text_of s) = length s"
    "ts_len_utf16 (text_of s) = sum_list (map len_utf16 s)" "ts_lines (text_of s) = point_parse_str s"
    "ts_first_line_chars (text_of s) = length (hd (split_nl s))"
    "ts_last_line_chars (text_of s) = length (last (split_nl s))"
    "ts_last_line_len_utf16 (text_of s) = sum_list (map len_utf16 (last (split_nl s)))" by blast+
qed

lemma text_of_longest:
  "longest_line (split_nl s) (ts_longest_row (text_of s)) \<and>
   ts_longest_row_chars (text_of s) = length (split_nl s ! ts_longest_row (text_of s))"
proof (induction s rule: rev_induct)
  case Nil
  show ?case by (simp add: text_zero_def longest_line_def)
next
  case (snoc c s)
  let ?i = "ts_longest_row (text_of s)"
  obtain ls l where ls: "split_nl s = ls @ [l]" by (metis append_butlast_last_id split_nl_ne)
  have IH: "?i < Suc (length ls)" "\<forall>k \<in> set (ls @ [l]). length k \<le> length ((ls @ [l]) ! ?i)"
    "\<forall>j < ?i. length ((ls @ [l]) ! j) < length ((ls @ [l]) ! ?i)"
    "ts_longest_row_chars (text_of s) = length ((ls @ [l]) ! ?i)"
    using snoc ls by (simp_all add: longest_line_def)
  have last: "ts_last_line_chars (text_of s) = length l" "row (ts_lines (text_of s)) = length ls"
    using ls by (simp_all add: text_of_fields point_parse_str_eq)
  show ?case
  proof (cases "c = NEWLINE")
    case True
    have "(ls @ [l, []]) ! j = (ls @ [l]) ! j" if "j \<le> ?i" for j
      using that IH(1) by (auto simp: nth_append less_Suc_eq)
    then show ?thesis using True IH ls
      by (auto simp: text_of_snoc text_push_fields split_nl_snoc longest_line_def)
  next
    case c: False
    have n: "(ls @ [l @ [c]]) ! j = (if j < length ls then (ls @ [l]) ! j else l @ [c])" if "j \<le> length ls" for j
      using that by (auto simp: nth_append)
    show ?thesis
    proof (cases "length l + 1 > length ((ls @ [l]) ! ?i)")
      case True
      then have "\<forall>k \<in> set ls. length k < length l + 1" using IH(2) by fastforce
      then show ?thesis using True c ls last IH(4)
        by (auto simp: text_of_snoc text_push_fields split_nl_snoc longest_line_def max_def nth_append less_Suc_eq_le less_imp_le)
    next
      case False
      then have "?i < length ls" using IH(1) by (auto simp: nth_append less_Suc_eq split: if_splits)
      then show ?thesis using False c ls last IH
        by (auto simp: text_of_snoc text_push_fields split_nl_snoc longest_line_def max_def nth_append)
    qed
  qed
qed

text \<open>The fields that the code keeps in 32 bits: the row and the column of \<open>lines\<close> and the five that follow.
  None is greater than the length of the text in bytes.\<close>

definition u32_fields :: "text_summary \<Rightarrow> nat list" where
  "u32_fields x = [row (ts_lines x), column (ts_lines x), ts_first_line_chars x, ts_last_line_chars x,
     ts_last_line_len_utf16 x, ts_longest_row x, ts_longest_row_chars x]"

lemma len_utf16_le: "len_utf16 c \<le> len_utf8 c"
  by (simp add: len_utf16_def len_utf8_def)

lemma utf16_le_len: "sum_list (map len_utf16 s) \<le> str_len s"
  unfolding str_len_def by (rule sum_list_mono) (rule len_utf16_le)

lemma length_le_len: "length s \<le> str_len s"
proof (induction s)
  case (Cons c s)
  then show ?case using len_utf8_pos(2)[of c] by (simp del: len_utf8_pos)
qed simp

lemma split_nl_le: "l \<in> set (split_nl s) \<Longrightarrow> str_len l \<le> str_len s"
  "length (split_nl s) \<le> Suc (length s)"
proof (induction s arbitrary: l)
  case (Cons c s)
  { case 1
    have "hd (split_nl s) \<in> set (split_nl s)" "set (tl (split_nl s)) \<subseteq> set (split_nl s)"
      by (cases "split_nl s"; auto)+
    then show ?case using 1 Cons(1) by (fastforce split: if_splits)
  next
    case 2
    then show ?case using Cons(2) by simp
  }
qed simp_all

lemma u32_fields_fit:
  assumes "str_len s < n"
  shows "\<forall>x \<in> set (u32_fields (text_of s)). x < n"
proof -
  let ?ls = "split_nl s" and ?i = "ts_longest_row (text_of s)"
  have i: "?i < length ?ls" "ts_longest_row_chars (text_of s) = length (?ls ! ?i)"
    using text_of_longest[of s] by (simp_all add: longest_line_def)
  have l: "str_len l \<le> str_len s" "length l \<le> str_len s" if "l \<in> set ?ls" for l
    using split_nl_le(1)[OF that] length_le_len[of l] by simp_all
  have "length (?ls ! ?i) \<le> str_len s" "length ?ls - 1 \<le> str_len s" "?i \<le> str_len s"
    using i(1) l(2) split_nl_le(2)[of s] length_le_len[of s] by simp_all
  moreover have "str_len (last ?ls) \<le> str_len s" "length (last ?ls) \<le> str_len s" "length (hd ?ls) \<le> str_len s"
    using l by simp_all
  moreover have "sum_list (map len_utf16 (last ?ls)) \<le> str_len s"
    using utf16_le_len[of "last ?ls"] l(1)[of "last ?ls"] by simp
  ultimately show ?thesis using assms i(2) by (simp add: u32_fields_def text_of_fields point_parse_str_eq)
qed

section \<open>Dimensions\<close>

text \<open>The dimensions of a rope over its summaries: bytes, UTF-16 code units, points in either unit,
  the whole summary, and pairs of dimensions.\<close>

definition bytes_dim :: "(nat, text_summary) dim_ops" where
  "bytes_dim = \<lparr>dm_zero = 0, dm_add = (\<lambda>n s. n + ts_len s)\<rparr>"

definition utf16_dim :: "(offset16, text_summary) dim_ops" where
  "utf16_dim = \<lparr>dm_zero = Offset16 0, dm_add = (\<lambda>n s. offset16_add n (Offset16 (ts_len_utf16 s)))\<rparr>"

definition point_dim :: "(point, text_summary) dim_ops" where
  "point_dim = \<lparr>dm_zero = point_zero, dm_add = (\<lambda>p s. point_add p (ts_lines s))\<rparr>"

definition point16_dim :: "(point16, text_summary) dim_ops" where
  "point16_dim = \<lparr>dm_zero = point16_zero, dm_add = (\<lambda>p s. point16_add p (lines_utf16 s))\<rparr>"

definition text_dim :: "(text_summary, text_summary) dim_ops" where
  "text_dim = \<lparr>dm_zero = text_zero, dm_add = text_add\<rparr>"

definition pair_dim :: "('d, 's) dim_ops \<Rightarrow> ('e, 's) dim_ops \<Rightarrow> ('d \<times> 'e, 's) dim_ops" where
  "pair_dim D E = \<lparr>dm_zero = (dm_zero D, dm_zero E), dm_add = (\<lambda>(d, e) s. (dm_add D d s, dm_add E e s))\<rparr>"

lemma lines_utf16_add: "text_ok s \<Longrightarrow> text_ok t \<Longrightarrow> lines_utf16 (text_add s t) = point16_add (lines_utf16 s) (lines_utf16 t)"
  by (auto simp: lines_utf16_def text_add_fields point16_add_def point_add_def)

section \<open>Properties\<close>

text \<open>C26: For texts of fewer than \<open>2 ^ 32\<close> bytes every field that is a \<open>u32\<close> in the code is below \<open>2 ^ 32\<close>,
  so that no sum wraps, and: the sum of the summaries of two strings is the summary of their concatenation, so that a
  rope may summarise its text chunk by chunk; and the fields are the lengths in bytes, characters
  and UTF-16 units, the position after the last byte, the lengths of the first and last line, and
  the first of the longest lines.\<close>

theorem text_summary_homomorphism:
  assumes "str_len (s @ t) < 2 ^ 32"
  shows "(\<forall>x \<in> {text_of s, text_of t, text_of (s @ t)}. \<forall>n \<in> set (u32_fields x). n < 2 ^ 32) \<and>
   text_of (s @ t) = text_add (text_of s) (text_of t) \<and>
   lines_utf16 (text_of (s @ t)) = point16_add (lines_utf16 (text_of s)) (lines_utf16 (text_of t)) \<and>
   ts_len (text_of s) = str_len s \<and> ts_chars (text_of s) = length s \<and>
   ts_len_utf16 (text_of s) = sum_list (map len_utf16 s) \<and> ts_lines (text_of s) = point_parse_str s \<and>
   ts_first_line_chars (text_of s) = length (hd (split_nl s)) \<and>
   ts_last_line_chars (text_of s) = length (last (split_nl s)) \<and>
   ts_last_line_len_utf16 (text_of s) = sum_list (map len_utf16 (last (split_nl s))) \<and>
   longest_line (split_nl s) (ts_longest_row (text_of s)) \<and>
   ts_longest_row_chars (text_of s) = length (split_nl s ! ts_longest_row (text_of s))"
proof -
  have "str_len s < 2 ^ 32" "str_len t < 2 ^ 32" using assms by simp_all
  then have "\<forall>x \<in> {text_of s, text_of t, text_of (s @ t)}. \<forall>n \<in> set (u32_fields x). n < 2 ^ 32"
    using u32_fields_fit assms by blast
  then show ?thesis
    using text_of_append[of s t] lines_utf16_add[OF text_of_ok text_of_ok, of s t] text_of_fields[of s] text_of_longest[of s]
    by (intro conjI) (assumption | simp only:)+
qed

theorem text_summary_homomorphism_witness:
  "text_add (text_of [104, 105, 10]) (text_of [0xE9, 33]) = text_of [104, 105, 10, 0xE9, 33] \<and>
   ts_lines (text_of [104, 105, 10]) = Point 1 0 \<and> ts_longest_row_chars (text_of [104, 105, 10]) = 2"
  using text_summary_homomorphism[of "[104, 105, 10]" "[0xE9, 33]"]
  by (auto simp: len_utf8_def point_parse_str_eq longest_line_def less_Suc_eq nth_Cons')

text \<open>\<open>add_newline\<close> is not the addition of a newline: it doubles the length in UTF-16 units
  before it adds one, and does not count the character.\<close>

theorem add_newline_wrong:
  "ts_len_utf16 (add_newline (text_of s)) = 2 * sum_list (map len_utf16 s) + 1 \<and>
   ts_len_utf16 (text_of (s @ [NEWLINE])) = sum_list (map len_utf16 s) + 1 \<and>
   ts_chars (add_newline (text_of s)) = length s \<and> ts_chars (text_of (s @ [NEWLINE])) = length s + 1 \<and>
   text_of [NEWLINE] = text_newline"
  by (simp add: add_newline_def text_of_fields(2,3) len_utf16_def text_newline_def)
     (simp add: text_of_def text_step_def text_zero_def point_add_def point_zero_def len_utf8_def len_utf16_def)

end
