(* ===== verification/Chunk.thy ===== *)
theory Chunk
  imports Bitmap TextSummary
begin

text \<open>
  Chunks of text (\<open>Chunk\<close> and \<open>ChunkSlice\<close> in \<open>crates/rope/src/chunk.rs\<close>): at most 128 bytes with
  bitmaps of the character starts, the UTF-16 units, the newlines and the tabs. Both types carry
  the same fields and are one record here. The invariant is that the bitmaps are those of the
  text; every operation that builds or cuts chunks keeps it.
\<close>

section \<open>Strings in bytes\<close>

text \<open>The UTF-8 encoding of a character, and the boundaries between characters.\<close>

definition utf8 :: "uchar \<Rightarrow> nat list" where
  "utf8 c =
     (if c < 0x80 then [c]
      else if c < 0x800 then [0xC0 + c div 0x40, 0x80 + c mod 0x40]
      else if c < 0x10000 then [0xE0 + c div 0x1000, 0x80 + c div 0x40 mod 0x40, 0x80 + c mod 0x40]
      else [0xF0 + c div 0x40000, 0x80 + c div 0x1000 mod 0x40, 0x80 + c div 0x40 mod 0x40, 0x80 + c mod 0x40])"

definition as_bytes :: "str \<Rightarrow> nat list" where
  "as_bytes s = concat (map utf8 s)"

fun boundaries :: "str \<Rightarrow> nat list" where
  "boundaries [] = [0]"
| "boundaries (c # s) = 0 # map (\<lambda>i. len_utf8 c + i) (boundaries s)"

definition str_is_char_boundary :: "str \<Rightarrow> nat \<Rightarrow> bool" where
  "str_is_char_boundary s i \<longleftrightarrow> i \<in> set (boundaries s)"

definition str_floor_char_boundary :: "str \<Rightarrow> nat \<Rightarrow> nat" where
  "str_floor_char_boundary s i = last (filter (\<lambda>b. b \<le> i) (boundaries s))"

definition str_ceil_char_boundary :: "str \<Rightarrow> nat \<Rightarrow> nat" where
  "str_ceil_char_boundary s i =
     (case filter (\<lambda>b. i \<le> b) (boundaries s) of [] \<Rightarrow> str_len s | b # _ \<Rightarrow> b)"

fun str_split_at :: "str \<Rightarrow> nat \<Rightarrow> (str \<times> str) option" where
  "str_split_at s 0 = Some ([], s)"
| "str_split_at [] (Suc n) = None"
| "str_split_at (c # s) (Suc n) =
     (if len_utf8 c \<le> Suc n then map_option (\<lambda>(a, b). (c # a, b)) (str_split_at s (Suc n - len_utf8 c)) else None)"

definition str_slice :: "str \<Rightarrow> nat \<Rightarrow> nat \<Rightarrow> str option" where
  "str_slice s i j = do {
     n \<leftarrow> csub j i;
     (_, b) \<leftarrow> str_split_at s i;
     (b, _) \<leftarrow> str_split_at b n;
     Some b
   }"

definition is_utf8_char_boundary :: "nat \<Rightarrow> bool" where
  "is_utf8_char_boundary b \<longleftrightarrow> (if b < 128 then int b else int b - 256) \<ge> - 0x40"

section \<open>Chunks\<close>

record chunk =
  ck_chars :: bitmap
  ck_utf16 :: bitmap
  ck_newlines :: bitmap
  ck_tabs :: bitmap
  ck_text :: str

definition chunk_empty :: chunk where
  "chunk_empty = \<lparr>ck_chars = 0, ck_utf16 = 0, ck_newlines = 0, ck_tabs = 0, ck_text = []\<rparr>"

text \<open>\<open>new\<close> fills the bitmaps in groups of eight bytes.\<close>

definition group_bits :: "(nat \<Rightarrow> bool) \<Rightarrow> nat list \<Rightarrow> 8 word" where
  "group_bits p bs = foldl (\<lambda>acc (ix, b). acc OR push_bit ix (of_bool (p b))) 0 (enumerate 0 bs)"

fun group_bytes :: "(nat \<Rightarrow> bool) \<Rightarrow> nat list \<Rightarrow> 8 word list" where
  "group_bytes p [] = []"
| "group_bytes p (b # bs) = group_bits p (take 8 (b # bs)) # group_bytes p (drop 8 (b # bs))"

definition from_le_bytes :: "8 word list \<Rightarrow> bitmap" where
  "from_le_bytes gs = horner_sum ucast 256 gs"

definition byte_bitmap :: "(nat \<Rightarrow> bool) \<Rightarrow> nat list \<Rightarrow> bitmap" where
  "byte_bitmap p bs = (let gs = group_bytes p bs in from_le_bytes (gs @ replicate (16 - length gs) 0))"

definition chunk_new :: "str \<Rightarrow> chunk option" where
  "chunk_new s =
     (if MAX_BASE < str_len s then None
      else let bs = as_bytes s;
               chars = byte_bitmap is_utf8_char_boundary bs
           in Some \<lparr>ck_chars = chars, ck_utf16 = shl (byte_bitmap (\<lambda>b. b \<ge> 240) bs) 1 OR chars,
                    ck_newlines = byte_bitmap (\<lambda>b. b = NEWLINE) bs, ck_tabs = byte_bitmap (\<lambda>b. b = TAB) bs,
                    ck_text = s\<rparr>)"

text \<open>\<open>ArrayString::push_str\<close>\<close>

definition push_text :: "str \<Rightarrow> str \<Rightarrow> str option" where
  "push_text s t = (if str_len s + str_len t \<le> MAX_BASE then Some (s @ t) else None)"

definition chunk_append :: "chunk \<Rightarrow> chunk \<Rightarrow> chunk option" where
  "chunk_append k t =
     (if ck_text t = [] then Some k
      else do {
        let base_ix = str_len (ck_text k);
        text \<leftarrow> push_text (ck_text k) (ck_text t);
        Some \<lparr>ck_chars = ck_chars k OR shl (ck_chars t) base_ix,
              ck_utf16 = ck_utf16 k OR shl (ck_utf16 t) base_ix,
              ck_newlines = ck_newlines k OR shl (ck_newlines t) base_ix,
              ck_tabs = ck_tabs k OR shl (ck_tabs t) base_ix,
              ck_text = text\<rparr>
      })"

definition chunk_prepend :: "chunk \<Rightarrow> chunk \<Rightarrow> chunk option" where
  "chunk_prepend k t =
     (if ck_text t = [] then Some k
      else if ck_text k = [] then chunk_new (ck_text t)
      else do {
        let shift = str_len (ck_text t);
        text \<leftarrow> push_text [] (ck_text t);
        text \<leftarrow> push_text text (ck_text k);
        Some \<lparr>ck_chars = ck_chars t OR shl (ck_chars k) shift,
              ck_utf16 = ck_utf16 t OR shl (ck_utf16 k) shift,
              ck_newlines = ck_newlines t OR shl (ck_newlines k) shift,
              ck_tabs = ck_tabs t OR shl (ck_tabs k) shift,
              ck_text = text\<rparr>
      })"

definition chunk_push_str :: "chunk \<Rightarrow> str \<Rightarrow> chunk option" where
  "chunk_push_str k s = do { c \<leftarrow> chunk_new s; chunk_append k c }"

definition chunk_prepend_str :: "chunk \<Rightarrow> str \<Rightarrow> chunk option" where
  "chunk_prepend_str k s = do { c \<leftarrow> chunk_new s; chunk_prepend k c }"

text \<open>An offset is one into the chunk or just behind it, for which the cast to \<open>u32\<close> changes nothing.\<close>

definition chunk_is_char_boundary :: "chunk \<Rightarrow> nat \<Rightarrow> bool" where
  "chunk_is_char_boundary k offset \<longleftrightarrow>
     unbounded_shl 1 offset AND ck_chars k \<noteq> 0 \<or> offset = str_len (ck_text k)"

fun floor_loop :: "nat list \<Rightarrow> nat \<Rightarrow> nat" where
  "floor_loop bs 0 = 0"
| "floor_loop bs (Suc i) = (if is_utf8_char_boundary (bs ! Suc i) then Suc i else floor_loop bs i)"

definition chunk_floor_char_boundary :: "chunk \<Rightarrow> nat \<Rightarrow> nat" where
  "chunk_floor_char_boundary k index =
     (if index \<ge> str_len (ck_text k) then str_len (ck_text k) else floor_loop (as_bytes (ck_text k)) index)"

text \<open>\<open>assert_char_boundary\<close>: with \<open>PANIC\<close> a failure stops the program, without it is logged.\<close>

definition assert_char_boundary :: "bool \<Rightarrow> chunk \<Rightarrow> nat \<Rightarrow> bool option" where
  "assert_char_boundary panic k offset =
     (if chunk_is_char_boundary k offset then Some True else if panic then None else Some False)"

definition chunk_split_at :: "chunk \<Rightarrow> nat \<Rightarrow> (chunk \<times> chunk) option" where
  "chunk_split_at k mid =
     (if mid = MAX_BASE then Some (k, chunk_empty)
      else do {
        let mask = shl 1 mid - 1;
        (l, r) \<leftarrow> str_split_at (ck_text k) mid;
        Some (\<lparr>ck_chars = ck_chars k AND mask, ck_utf16 = ck_utf16 k AND mask,
               ck_newlines = ck_newlines k AND mask, ck_tabs = ck_tabs k AND mask, ck_text = l\<rparr>,
              \<lparr>ck_chars = shr (ck_chars k) mid, ck_utf16 = shr (ck_utf16 k) mid,
               ck_newlines = shr (ck_newlines k) mid, ck_tabs = shr (ck_tabs k) mid, ck_text = r\<rparr>)
      })"

text \<open>The ends of a slice are moved to character boundaries.\<close>

definition slice_start :: "chunk \<Rightarrow> nat \<Rightarrow> nat option" where
  "slice_start k i = do {
     ok \<leftarrow> assert_char_boundary False k i;
     Some (if ok then i else str_ceil_char_boundary (ck_text k) i)
   }"

definition slice_end :: "chunk \<Rightarrow> nat \<Rightarrow> nat \<Rightarrow> nat option" where
  "slice_end k i j = do {
     ok \<leftarrow> assert_char_boundary False k j;
     Some (if ok then j else if j < i then i else str_floor_char_boundary (ck_text k) j)
   }"

definition chunk_slice :: "chunk \<Rightarrow> nat \<Rightarrow> nat \<Rightarrow> chunk option" where
  "chunk_slice k i j =
     (if i = MAX_BASE then Some chunk_empty
      else do {
        i \<leftarrow> slice_start k i;
        j \<leftarrow> slice_end k i j;
        let mask = unbounded_shl 1 j - 1;
        text \<leftarrow> str_slice (ck_text k) i j;
        Some \<lparr>ck_chars = shr (ck_chars k AND mask) i, ck_utf16 = shr (ck_utf16 k AND mask) i,
              ck_newlines = shr (ck_newlines k AND mask) i, ck_tabs = shr (ck_tabs k AND mask) i,
              ck_text = text\<rparr>
      })"

section \<open>Flags of characters\<close>

definition cflags :: "uchar \<Rightarrow> bool list" where
  "cflags c = True # replicate (len_utf8 c - 1) False"

definition uflags :: "uchar \<Rightarrow> bool list" where
  "uflags c = (if len_utf16 c = 2 then [True, True, False, False] else cflags c)"

definition wflags :: "uchar \<Rightarrow> bool list" where
  "wflags c = (len_utf16 c = 2) # replicate (len_utf8 c - 1) False"

definition eflags :: "uchar \<Rightarrow> uchar \<Rightarrow> bool list" where
  "eflags d c = (c = d) # replicate (len_utf8 c - 1) False"

definition flags :: "(uchar \<Rightarrow> bool list) \<Rightarrow> str \<Rightarrow> bool list" where
  "flags f s = concat (map f s)"

lemma flags_simps [simp]: "flags f [] = []" "flags f (c # s) = f c @ flags f s" "flags f (s @ t) = flags f s @ flags f t"
  by (simp_all add: flags_def)

lemma length_flag [simp]:
  "length (cflags c) = len_utf8 c" "length (uflags c) = len_utf8 c" "length (wflags c) = len_utf8 c"
  "length (eflags d c) = len_utf8 c"
  by (auto simp: cflags_def uflags_def wflags_def eflags_def len_utf8_def len_utf16_def)

lemma length_flags:
  "length (flags cflags s) = str_len s" "length (flags uflags s) = str_len s"
  "length (flags wflags s) = str_len s" "length (flags (eflags d) s) = str_len s"
  by (induction s) simp_all

definition canon :: "str \<Rightarrow> chunk" where
  "canon s = \<lparr>ck_chars = bits (flags cflags s), ck_utf16 = bits (flags uflags s),
     ck_newlines = bits (flags (eflags NEWLINE) s), ck_tabs = bits (flags (eflags TAB) s), ck_text = s\<rparr>"

lemma canon_Nil: "canon [] = chunk_empty"
  by (simp add: canon_def chunk_empty_def)

lemma canon_text [simp]: "ck_text (canon s) = s"
  by (simp add: canon_def)

text \<open>The invariant of a chunk.\<close>

definition chunk_ok :: "chunk \<Rightarrow> bool" where
  "chunk_ok k \<longleftrightarrow> str_len (ck_text k) \<le> MAX_BASE \<and> k = canon (ck_text k)"

lemma chunk_ok_canon [simp]: "chunk_ok (canon s) \<longleftrightarrow> str_len s \<le> 128"
  by (simp add: chunk_ok_def)

lemma chunk_okE: assumes "chunk_ok k" obtains s where "k = canon s" "str_len s \<le> 128"
  using assms unfolding chunk_ok_def by (metis bases(1))

section \<open>Building chunks\<close>

lemma length_utf8 [simp]: "length (utf8 c) = len_utf8 c"
  by (simp add: utf8_def len_utf8_def)

lemma length_as_bytes [simp]: "length (as_bytes s) = str_len s"
  by (induction s) (simp_all add: as_bytes_def)

lemma group_bits_eq: "length bs \<le> 8 \<Longrightarrow> group_bits p bs = horner_sum of_bool 2 (map p bs)"
proof (induction bs rule: rev_induct)
  case (snoc b bs)
  have "group_bits p (bs @ [b]) = group_bits p bs OR push_bit (length bs) (of_bool (p b))"
    by (simp add: group_bits_def enumerate_append_eq)
  also have "\<dots> = horner_sum of_bool 2 (map p (bs @ [b]))"
  proof (rule bit_eqI)
    fix n
    have "bit (push_bit (length bs) (of_bool (p b)) :: 8 word) n \<longleftrightarrow> p b \<and> n = length bs \<and> n < 8"
      using bit_exp_iff[where 'a = "8 word", of "length bs" n] by auto
    then show "bit (group_bits p bs OR push_bit (length bs) (of_bool (p b))) n =
        bit (horner_sum of_bool 2 (map p (bs @ [b])) :: 8 word) n"
      using snoc by (auto simp: bit_or_iff bit_horner_sum_bit_word_iff nth_append less_Suc_eq)
  qed
  finally show ?case .
qed (simp add: group_bits_def)

lemma ucast_group_bits: "length bs \<le> 8 \<Longrightarrow> ucast (group_bits p bs) = bits (map p bs)"
  by (rule bit_eqI) (auto simp: group_bits_eq bits_def bit_ucast_iff bit_horner_sum_bit_word_iff)

lemma from_le_bytes_groups: "from_le_bytes (group_bytes p bs @ replicate n 0) = bits (map p bs)"
proof (induction p bs rule: group_bytes.induct)
  case (1 p)
  show ?case by (induction n) (simp_all add: from_le_bytes_def)
next
  case (2 p b bs)
  let ?xs = "take 8 (b # bs)" and ?ys = "drop 8 (b # bs)"
  have "ucast (group_bits p ?xs) = bits (map p ?xs)"
    by (rule ucast_group_bits) simp
  moreover have "bits (map p (?xs @ ?ys)) = bits (map p ?xs) + 256 * bits (map p ?ys)"
  proof (cases "?ys = []")
    case False
    then have "length ?xs = 8" by simp
    then show ?thesis by (simp only: map_append bits_def horner_sum_append length_map) simp
  qed (simp del: append_take_drop_id)
  ultimately show ?case using 2 by (simp add: from_le_bytes_def del: take_Suc_Cons drop_Suc_Cons)
qed

lemma byte_bitmap_eq: "byte_bitmap p bs = bits (map p bs)"
  unfolding byte_bitmap_def Let_def by (rule from_le_bytes_groups)

text \<open>What the bytes of a scalar value tell.\<close>

lemma scalar_bytes:
  assumes "is_scalar c"
  shows "map is_utf8_char_boundary (utf8 c) = cflags c"
    "map (\<lambda>b. b \<ge> 240) (utf8 c) = wflags c"
    "map (\<lambda>b. b = NEWLINE) (utf8 c) = eflags NEWLINE c" "map (\<lambda>b. b = TAB) (utf8 c) = eflags TAB c"
proof -
  have "c < 0x110000" using assms by (auto simp: is_scalar_def)
  have d: "c < 0x800 \<Longrightarrow> c div 64 < 32" "c < 0x10000 \<Longrightarrow> c div 4096 < 16" by (simp_all add: less_mult_imp_div_less)
  have m: "\<not> 64 \<le> x mod 64" "\<not> 112 \<le> x mod 64" for x :: nat
    using mod_less_divisor[of 64 x] by linarith+
  consider "c < 0x80" | "0x80 \<le> c" "c < 0x800" | "0x800 \<le> c" "c < 0x10000" | "0x10000 \<le> c" by linarith
  note cs = this
  have r: "replicate 2 False = [False, False]" "replicate 3 False = [False, False, False]"
    by (simp_all add: numeral_2_eq_2 numeral_3_eq_3)
  show "map is_utf8_char_boundary (utf8 c) = cflags c"
    by (cases rule: cs) (use d in \<open>simp_all add: utf8_def cflags_def len_utf8_def is_utf8_char_boundary_def r m\<close>)
  show "map (\<lambda>b. b \<ge> 240) (utf8 c) = wflags c"
    by (cases rule: cs) (use d in \<open>simp_all add: utf8_def wflags_def len_utf8_def len_utf16_def r m\<close>)
  show "map (\<lambda>b. b = NEWLINE) (utf8 c) = eflags NEWLINE c"
    by (cases rule: cs) (simp_all add: utf8_def len_utf8_def eflags_def r)
  show "map (\<lambda>b. b = TAB) (utf8 c) = eflags TAB c"
    by (cases rule: cs) (simp_all add: utf8_def len_utf8_def eflags_def r)
qed

lemma bytes_flags:
  assumes "list_all is_scalar s"
  shows "map is_utf8_char_boundary (as_bytes s) = flags cflags s"
    "map (\<lambda>b. b \<ge> 240) (as_bytes s) = flags wflags s"
    "map (\<lambda>b. b = NEWLINE) (as_bytes s) = flags (eflags NEWLINE) s"
    "map (\<lambda>b. b = TAB) (as_bytes s) = flags (eflags TAB) s"
  using assms by (induction s) (simp_all add: as_bytes_def scalar_bytes)

lemma utf16_flags:
  assumes "str_len s \<le> 128"
  shows "shl (bits (flags wflags s)) 1 OR bits (flags cflags s) =
    bits (flags uflags s)"
proof (rule bit_eqI)
  have "i < str_len s \<Longrightarrow> flags uflags s ! i \<longleftrightarrow> (0 < i \<and> flags wflags s ! (i - 1)) \<or> flags cflags s ! i" for i
  proof (induction s arbitrary: i)
    case (Cons c s)
    show ?case
    proof (cases "i < len_utf8 c")
      case True
      have r: "replicate 2 False = [False, False]" "replicate 3 False = [False, False, False]"
        by (simp_all add: numeral_2_eq_2 numeral_3_eq_3)
      have "uflags c ! i \<longleftrightarrow> (0 < i \<and> wflags c ! (i - 1)) \<or> cflags c ! i"
        using True by (auto simp: uflags_def cflags_def wflags_def nth_Cons' len_utf16_def len_utf8_def split: if_splits)
      moreover have "i - 1 < len_utf8 c" using True by simp
      ultimately show ?thesis using True by (simp add: nth_append)
    next
      case False
      have "wflags c ! (len_utf8 c - 1) = False"
        by (auto simp: wflags_def nth_Cons' len_utf16_def len_utf8_def)
      moreover have "0 < i" using False len_utf8_pos(1)[of c] by linarith
      moreover have "i - len_utf8 c < str_len s" using Cons.prems False by simp
      ultimately show ?thesis using False Cons.IH[of "i - len_utf8 c"]
        by (cases "i = len_utf8 c") (auto simp: nth_append not_less diff_right_commute)
    qed
  qed simp
  note u = this
  have e: "\<not> flags wflags s ! (str_len s - 1)" if "s \<noteq> []"
  proof -
    obtain t c where "s = t @ [c]" using \<open>s \<noteq> []\<close> by (cases s rule: rev_cases) auto
    moreover have "\<not> wflags c ! (len_utf8 c - 1)" by (auto simp: wflags_def nth_Cons' len_utf16_def len_utf8_def)
    ultimately show ?thesis by (cases "len_utf8 c") (simp_all add: nth_append length_flags)
  qed
  fix i
  have "bit (shl (bits (flags wflags s)) 1) i \<longleftrightarrow> 1 \<le> i \<and> i < 128 \<and> i - 1 < str_len s \<and> flags wflags s ! (i - 1)"
    by (simp add: bit_shl bit_bits length_flags) auto
  moreover have "i < str_len s" if "1 \<le> i" "i - 1 < str_len s" "flags wflags s ! (i - 1)"
  proof (rule ccontr)
    assume "\<not> i < str_len s"
    then have "i - 1 = str_len s - 1" "s \<noteq> []" using that by auto
    then show False using e that(3) by simp
  qed
  ultimately have "bit (shl (bits (flags wflags s)) 1) i \<longleftrightarrow> 0 < i \<and> i < str_len s \<and> flags wflags s ! (i - 1)"
    using assms by auto
  then show "bit (shl (bits (flags wflags s)) 1 OR bits (flags cflags s)) i = bit (bits (flags uflags s)) i"
    using assms u[of i] by (auto simp: bit_or_iff bit_bits length_flags)
qed

lemma chunk_new_ok:
  assumes "list_all is_scalar s"
  shows "chunk_new s = (if str_len s \<le> MAX_BASE then Some (canon s) else None)"
  using assms by (auto simp: chunk_new_def byte_bitmap_eq bytes_flags utf16_flags[simplified] canon_def Let_def)

section \<open>Cutting and joining chunks\<close>

lemma canon_simps:
  "ck_chars (canon s) = bits (flags cflags s)" "ck_utf16 (canon s) = bits (flags uflags s)"
  "ck_newlines (canon s) = bits (flags (eflags NEWLINE) s)" "ck_tabs (canon s) = bits (flags (eflags TAB) s)"
  by (simp_all add: canon_def)

lemma shl_bits_OR:
  assumes "length xs + length ys \<le> 128" "ys \<noteq> []"
  shows "bits xs OR shl (bits ys) (length xs) = bits (xs @ ys)"
proof -
  have "length xs < 128" using assms by (cases ys) auto
  then show ?thesis using bits_append[OF assms(1)] by (simp add: shl_def)
qed

lemma flags_ne:
  assumes "s \<noteq> []" shows "flags cflags s \<noteq> []" "flags uflags s \<noteq> []" "flags (eflags d) s \<noteq> []"
proof -
  have "0 < str_len s" using assms str_len_0[of s] by linarith
  then have "0 < length (flags cflags s)" "0 < length (flags uflags s)" "0 < length (flags (eflags d) s)"
    by (simp_all only: length_flags)
  then show "flags cflags s \<noteq> []" "flags uflags s \<noteq> []" "flags (eflags d) s \<noteq> []" 
    by simp_all
qed

lemma join_canon:
  assumes "str_len s + str_len t \<le> 128" "t \<noteq> []"
  shows "\<lparr>ck_chars = ck_chars (canon s) OR shl (ck_chars (canon t)) (str_len s),
      ck_utf16 = ck_utf16 (canon s) OR shl (ck_utf16 (canon t)) (str_len s),
      ck_newlines = ck_newlines (canon s) OR shl (ck_newlines (canon t)) (str_len s),
      ck_tabs = ck_tabs (canon s) OR shl (ck_tabs (canon t)) (str_len s), ck_text = s @ t\<rparr> = canon (s @ t)"
  using assms shl_bits_OR[of "flags cflags s" "flags cflags t"] shl_bits_OR[of "flags uflags s" "flags uflags t"]
    shl_bits_OR[of "flags (eflags NEWLINE) s" "flags (eflags NEWLINE) t"]
    shl_bits_OR[of "flags (eflags TAB) s" "flags (eflags TAB) t"]
  by (simp add: canon_def length_flags flags_ne)

lemma chunk_append_ok:
  assumes "str_len s \<le> 128"
  shows "chunk_append (canon s) (canon t) = (if str_len s + str_len t \<le> 128 then Some (canon (s @ t)) else None)"
proof (cases "t = []")
  case False
  then show ?thesis using join_canon[of s t] by (simp add: chunk_append_def push_text_def Let_def)
qed (use assms in \<open>simp add: chunk_append_def\<close>)

lemma chunk_prepend_ok:
  assumes "str_len s \<le> 128" "list_all is_scalar t"
  shows "chunk_prepend (canon s) (canon t) = (if str_len t + str_len s \<le> 128 then Some (canon (t @ s)) else None)"
proof (cases "t = [] \<or> s = []")
  case True
  then show ?thesis using assms by (auto simp: chunk_prepend_def chunk_new_ok)
next
  case False
  then show ?thesis using join_canon[of t s] by (simp add: chunk_prepend_def push_text_def Let_def)
qed

text \<open>Boundaries and splitting of strings.\<close>

lemma boundaries_iff: "i \<in> set (boundaries s) \<longleftrightarrow> (\<exists>a b. s = a @ b \<and> i = str_len a)"
proof (induction s arbitrary: i)
  case (Cons c s)
  have "i \<in> set (boundaries (c # s)) \<longleftrightarrow> i = 0 \<or> (\<exists>a b. s = a @ b \<and> i = len_utf8 c + str_len a)"
  proof -
    have "i \<in> set (boundaries (c # s)) \<longleftrightarrow> i = 0 \<or> (\<exists>j \<in> set (boundaries s). i = len_utf8 c + j)" by auto
    then show ?thesis unfolding Bex_def Cons.IH by blast
  qed
  also have "\<dots> \<longleftrightarrow> (\<exists>a b. c # s = a @ b \<and> i = str_len a)" (is "?l \<longleftrightarrow> ?r")
  proof
    assume ?l
    then show ?r
    proof (elim disjE exE conjE)
      fix a b assume "s = a @ b" "i = len_utf8 c + str_len a"
      then show ?r by (intro exI[of _ "c # a"] exI[of _ b]) simp
    qed (auto intro!: exI[of _ "[]"])
  qed (auto simp: Cons_eq_append_conv)
  finally show ?case .
qed simp

lemma str_boundary_iff: "str_is_char_boundary s i \<longleftrightarrow> (\<exists>a b. s = a @ b \<and> i = str_len a)"
  by (simp add: str_is_char_boundary_def boundaries_iff)

lemma str_len_inj: "a @ b = a' @ b' \<Longrightarrow> str_len a = str_len a' \<Longrightarrow> a = a' \<and> b = b'"
  by (auto simp: append_eq_append_conv2)

lemma str_split_at_append: "str_split_at (a @ b) (str_len a) = Some (a, b)"
proof (induction a)
  case (Cons c a)
  obtain n where n: "len_utf8 c + str_len a = Suc n" by (cases "len_utf8 c + str_len a") auto
  then have "len_utf8 c \<le> Suc n" "Suc n - len_utf8 c = str_len a" by linarith+
  then show ?case using Cons by (simp add: n)
qed simp

lemma str_split_at_Some: "str_split_at s i = Some (a, b) \<longleftrightarrow> s = a @ b \<and> i = str_len a"
proof
  show "str_split_at s i = Some (a, b) \<Longrightarrow> s = a @ b \<and> i = str_len a"
    by (induction s i arbitrary: a b rule: str_split_at.induct) (auto split: if_splits)
qed (auto simp: str_split_at_append)

lemma str_split_at_None: "str_split_at s i = None \<longleftrightarrow> \<not> str_is_char_boundary s i"
  unfolding str_boundary_iff by (metis not_None_eq old.prod.exhaust str_split_at_Some)

lemma take_flags: "take (str_len a) (flags cflags (a @ b)) = flags cflags a"
  "take (str_len a) (flags uflags (a @ b)) = flags uflags a"
  "take (str_len a) (flags (eflags d) (a @ b)) = flags (eflags d) a"
  "drop (str_len a) (flags cflags (a @ b)) = flags cflags b"
  "drop (str_len a) (flags uflags (a @ b)) = flags uflags b"
  "drop (str_len a) (flags (eflags d) (a @ b)) = flags (eflags d) b"
  by (simp_all add: length_flags)

lemma str_len_128: "a @ b = s \<Longrightarrow> str_len s \<le> 128 \<Longrightarrow> str_len a \<le> 128 \<and> str_len b \<le> 128"
  by auto

lemma chunk_split_at_ok:
  assumes "str_len s \<le> 128"
  shows "chunk_split_at (canon s) mid =
     (if mid = 128 then Some (canon s, canon [])
      else map_option (\<lambda>(a, b). (canon a, canon b)) (str_split_at s mid))"
proof (cases "mid = 128")
  case True
  then show ?thesis by (simp add: chunk_split_at_def canon_Nil)
next
  case False
  show ?thesis
  proof (cases "str_split_at s mid")
    case None
    then show ?thesis using False by (simp add: chunk_split_at_def Let_def)
  next
    case (Some ab)
    then obtain a b where s: "s = a @ b" "mid = str_len a" "str_split_at s mid = Some (a, b)"
      by (cases ab) (auto simp: str_split_at_Some)
    then have mid: "mid < 128" "str_len a + str_len b \<le> 128" using assms False by auto
    have "canon s = canon (a @ b)" using s by simp
    then show ?thesis using False s mid
      by (simp add: chunk_split_at_def Let_def shl_mask bits_take shr_bits canon_simps length_flags take_flags
          canon_def[of a] canon_def[of b])
  qed
qed

lemma cflags_nth: "i < str_len s \<Longrightarrow> flags cflags s ! i \<longleftrightarrow> str_is_char_boundary s i"
proof (induction s arbitrary: i)
  case (Cons c s)
  have b: "str_is_char_boundary (c # s) i \<longleftrightarrow> i = 0 \<or> (len_utf8 c \<le> i \<and> str_is_char_boundary s (i - len_utf8 c))"
    unfolding str_is_char_boundary_def by (auto simp: image_iff intro!: bexI[of _ "i - len_utf8 c"])
  show ?case
  proof (cases "i < len_utf8 c")
    case True
    then have "cflags c ! i \<longleftrightarrow> i = 0" by (auto simp: cflags_def nth_Cons')
    then show ?thesis unfolding b using True by (simp add: nth_append)
  next
    case False
    then have "i \<noteq> 0" "i - len_utf8 c < str_len s" using Cons.prems by (cases "i = 0"; simp)+
    then show ?thesis unfolding b using False Cons.IH[of "i - len_utf8 c"] by (simp add: nth_append)
  qed
qed simp

lemma boundary_le: "str_is_char_boundary s i \<Longrightarrow> i \<le> str_len s"
  by (auto simp: str_boundary_iff)

lemma boundary_ends [simp]: "str_is_char_boundary s 0" "str_is_char_boundary s (str_len s)"
  unfolding str_boundary_iff by (auto intro: exI[of _ "[]"])

lemma chunk_is_char_boundary_ok:
  assumes "str_len s \<le> 128"
  shows "chunk_is_char_boundary (canon s) i \<longleftrightarrow> str_is_char_boundary s i"
proof -
  have "unbounded_shl 1 i AND ck_chars (canon s) \<noteq> 0 \<longleftrightarrow> i < str_len s \<and> flags cflags s ! i"
  proof -
    have "bit (unbounded_shl 1 i AND bits (flags cflags s)) j \<longleftrightarrow> j = i \<and> i < str_len s \<and> flags cflags s ! i" for j
      unfolding bit_and_iff bit_unbounded_shl_1 bit_bits length_flags using assms by auto
    then have "unbounded_shl 1 i AND bits (flags cflags s) \<noteq> 0 \<longleftrightarrow> i < str_len s \<and> flags cflags s ! i \<and> i < 128"
      unfolding bitmap_ne_0 by (simp only:) blast
    then show ?thesis unfolding canon_simps using assms by linarith
  qed
  then show ?thesis
    using cflags_nth[of i s] boundary_le[of s i] by (auto simp: chunk_is_char_boundary_def)
qed

section \<open>Slices\<close>

lemma boundaries_sorted: "sorted (boundaries s)"
  by (induction s) (auto simp: sorted_map sorted_wrt_map elim!: sorted_wrt_mono_rel[rotated])

lemma zero_boundary [simp]: "0 \<in> set (boundaries s)"
  by (cases s) auto

lemma sorted_le_last: "sorted xs \<Longrightarrow> x \<in> set xs \<Longrightarrow> x \<le> last xs" for x :: nat
  by (induction xs rule: rev_induct) (auto simp: sorted_append)

lemma floor_boundary:
  "str_is_char_boundary s (str_floor_char_boundary s i)" "str_floor_char_boundary s i \<le> i"
  "str_is_char_boundary s b \<Longrightarrow> b \<le> i \<Longrightarrow> b \<le> str_floor_char_boundary s i"
proof -
  let ?fs = "filter (\<lambda>b. b \<le> i) (boundaries s)"
  have "0 \<in> set ?fs" by simp
  then have ne: "?fs \<noteq> []" by (metis empty_iff empty_set)
  have "sorted ?fs" using boundaries_sorted by (rule sorted_filter[where f = "\<lambda>x. x", simplified])
  then have top: "\<forall>x \<in> set ?fs. x \<le> last ?fs" using sorted_le_last by blast
  show "str_is_char_boundary s (str_floor_char_boundary s i)" "str_floor_char_boundary s i \<le> i"
    using last_in_set[OF ne] by (auto simp: str_floor_char_boundary_def str_is_char_boundary_def)
  show "str_is_char_boundary s b \<Longrightarrow> b \<le> i \<Longrightarrow> b \<le> str_floor_char_boundary s i"
    using top by (auto simp: str_floor_char_boundary_def str_is_char_boundary_def)
qed

lemma ceil_boundary:
  "str_is_char_boundary s (str_ceil_char_boundary s i)"
  "i \<le> str_len s \<Longrightarrow> i \<le> str_ceil_char_boundary s i"
  "str_is_char_boundary s b \<Longrightarrow> i \<le> b \<Longrightarrow> str_ceil_char_boundary s i \<le> b"
proof -
  let ?fs = "filter (\<lambda>b. i \<le> b) (boundaries s)"
  have s: "sorted ?fs" using boundaries_sorted by (rule sorted_filter[where f = "\<lambda>x. x", simplified])
  show "str_is_char_boundary s (str_ceil_char_boundary s i)"
  proof (cases ?fs)
    case Nil
    then show ?thesis by (simp add: str_ceil_char_boundary_def)
  next
    case (Cons f fs)
    then have "f \<in> set (boundaries s)" by (metis filter_is_subset list.set_intros(1) subsetD)
    then show ?thesis using Cons by (simp add: str_ceil_char_boundary_def str_is_char_boundary_def)
  qed
  show "i \<le> str_ceil_char_boundary s i" if "i \<le> str_len s"
  proof (cases ?fs)
    case (Cons f fs)
    have "f \<in> set ?fs" unfolding Cons by simp
    then have "i \<le> f" by (simp only: set_filter mem_Collect_eq)
    then show ?thesis using Cons by (simp add: str_ceil_char_boundary_def)
  qed (use that in \<open>simp add: str_ceil_char_boundary_def\<close>)
  show "str_ceil_char_boundary s i \<le> b" if "str_is_char_boundary s b" "i \<le> b"
  proof -
    have "b \<in> set ?fs" using that by (simp add: str_is_char_boundary_def)
    then show ?thesis using s by (cases ?fs) (auto simp: str_ceil_char_boundary_def)
  qed
qed

lemma slice_start_ok:
  "str_len s \<le> 128 \<Longrightarrow>
   slice_start (canon s) i = Some (if str_is_char_boundary s i then i else str_ceil_char_boundary s i)"
  by (simp add: slice_start_def assert_char_boundary_def chunk_is_char_boundary_ok)

lemma slice_end_ok:
  "str_len s \<le> 128 \<Longrightarrow>
   slice_end (canon s) i j = Some (if str_is_char_boundary s j then j else if j < i then i else str_floor_char_boundary s j)"
  by (simp add: slice_end_def assert_char_boundary_def chunk_is_char_boundary_ok)

lemma str_slice_Some: "str_slice s i j = Some b \<longleftrightarrow> (\<exists>a c. s = a @ b @ c \<and> i = str_len a \<and> j = str_len a + str_len b)"
proof
  assume "str_slice s i j = Some b"
  then show "\<exists>a c. s = a @ b @ c \<and> i = str_len a \<and> j = str_len a + str_len b"
    by (auto simp: str_slice_def csub_def str_split_at_Some bind_eq_Some_conv split: if_splits prod.splits)
next
  assume "\<exists>a c. s = a @ b @ c \<and> i = str_len a \<and> j = str_len a + str_len b"
  then obtain a c where "s = a @ b @ c" "i = str_len a" "j = str_len a + str_len b" by blast
  then show "str_slice s i j = Some b" by (simp add: str_slice_def csub_def str_split_at_append)
qed

lemma slice_bits:
  assumes "s = a @ b @ c" "str_len s \<le> 128" "str_len a < 128"
  shows "\<lparr>ck_chars = shr (ck_chars (canon s) AND mask (str_len a + str_len b)) (str_len a),
    ck_utf16 = shr (ck_utf16 (canon s) AND mask (str_len a + str_len b)) (str_len a),
    ck_newlines = shr (ck_newlines (canon s) AND mask (str_len a + str_len b)) (str_len a),
    ck_tabs = shr (ck_tabs (canon s) AND mask (str_len a + str_len b)) (str_len a), ck_text = b\<rparr> = canon b"
  using assms(2,3) unfolding assms(1)
  by (simp add: canon_def[of b] canon_simps bits_take shr_bits length_flags)

text \<open>A slice between any offsets, the ends moved to characters, is the chunk of the substring,
  as long as the start stays below the capacity.\<close>

definition moved_start :: "str \<Rightarrow> nat \<Rightarrow> nat" where
  "moved_start s i = (if str_is_char_boundary s i then i else str_ceil_char_boundary s i)"

definition moved_end :: "str \<Rightarrow> nat \<Rightarrow> nat \<Rightarrow> nat" where
  "moved_end s i j =
     (if str_is_char_boundary s j then j else if j < moved_start s i then moved_start s i else str_floor_char_boundary s j)"

lemma chunk_slice_ok:
  assumes "str_len s \<le> 128" "moved_start s i < 128" "i \<noteq> 128"
  shows "chunk_slice (canon s) i j = map_option canon (str_slice s (moved_start s i) (moved_end s i j))"
proof -
  let ?i = "moved_start s i" and ?j = "moved_end s i j"
  have *: "slice_start (canon s) i = Some ?i" "slice_end (canon s) ?i j = Some ?j"
    by (simp_all add: slice_start_ok slice_end_ok moved_start_def moved_end_def assms(1))
  show ?thesis
  proof (cases "str_slice s ?i ?j")
    case None
    then show ?thesis using assms(3) by (simp add: chunk_slice_def * Let_def)
  next
    case (Some b)
    then obtain a c where s: "s = a @ b @ c" "?i = str_len a" "?j = str_len a + str_len b"
      by (auto simp: str_slice_Some)
    have "unbounded_shl 1 ?j - 1 = mask (str_len a + str_len b)"
      using saturating_shl_mask_eq[of ?j] by (simp add: saturating_shl_mask_def s(3))
    then show ?thesis using assms(3) Some slice_bits[OF s(1) assms(1)] assms(2) unfolding chunk_slice_def
      by (simp add: *[unfolded s(2)] Let_def s(2))
  qed
qed

lemma floor_loop_eq:
  assumes "list_all is_scalar s" "i < str_len s"
  shows "floor_loop (as_bytes s) i = str_floor_char_boundary s i"
  using assms(2)
proof (induction i)
  case 0
  show ?case using floor_boundary(2)[of s 0] by simp
next
  case (Suc i)
  have b: "is_utf8_char_boundary (as_bytes s ! Suc i) \<longleftrightarrow> str_is_char_boundary s (Suc i)"
    using bytes_flags(1)[OF assms(1)] Suc.prems cflags_nth[of "Suc i" s]
    by (metis length_as_bytes nth_map)
  show ?case
  proof (cases "str_is_char_boundary s (Suc i)")
    case True
    then show ?thesis using b floor_boundary(2)[of s "Suc i"] floor_boundary(3)[of s "Suc i" "Suc i"] by simp
  next
    case False
    have "str_floor_char_boundary s (Suc i) \<noteq> Suc i" using False floor_boundary(1)[of s "Suc i"] by metis
    then have "str_floor_char_boundary s (Suc i) \<le> i" using floor_boundary(2)[of s "Suc i"] by simp
    then have "str_floor_char_boundary s (Suc i) = str_floor_char_boundary s i"
      using floor_boundary(1)[of s "Suc i"] floor_boundary(1,2)[of s i]
      by (intro antisym floor_boundary(3)) simp_all
    then show ?thesis using b False Suc by simp
  qed
qed

lemma floor_beyond: "str_len s \<le> i \<Longrightarrow> str_floor_char_boundary s i = str_len s"
  using boundary_le[OF floor_boundary(1)[of s i]] floor_boundary(3)[of s "str_len s" i] by simp

lemma chunk_slice_parts:
  assumes "str_len (a @ b @ c) \<le> 128"
  shows "chunk_slice (canon (a @ b @ c)) (str_len a) (str_len a + str_len b) = Some (canon b)"
proof (cases "str_len a < 128")
  case True
  have "str_is_char_boundary (a @ b @ c) (str_len a)" "str_is_char_boundary (a @ b @ c) (str_len a + str_len b)"
    unfolding str_boundary_iff by (auto intro: exI[of _ "a @ b"])
  then show ?thesis
    using True assms str_slice_Some[of "a @ b @ c" "str_len a" "str_len a + str_len b" b]
    by (auto simp: chunk_slice_ok moved_start_def moved_end_def)
next
  case False
  moreover have "str_len (a @ b @ c) = str_len a + (str_len b + str_len c)" by simp
  ultimately have "str_len a = 128" "str_len b = 0" using assms by linarith+
  then have "str_len a = 128" "b = []" by simp_all
  then show ?thesis by (simp add: chunk_slice_def canon_Nil)
qed

section \<open>Properties\<close>

text \<open>C27: Building chunks. A chunk made from text has the bitmaps of the text, appending and prepending
  chunks or strings gives the chunk of the concatenation or stops when 128 bytes are exceeded.\<close>

theorem chunk_building_correct:
  assumes "chunk_ok k" "chunk_ok t" "list_all is_scalar (ck_text t)" "list_all is_scalar s"
  shows "chunk_new s = (if str_len s \<le> MAX_BASE then Some (canon s) else None) \<and>
    chunk_append k t =
      (if str_len (ck_text k) + str_len (ck_text t) \<le> MAX_BASE then Some (canon (ck_text k @ ck_text t)) else None) \<and>
    chunk_prepend k t =
      (if str_len (ck_text t) + str_len (ck_text k) \<le> MAX_BASE then Some (canon (ck_text t @ ck_text k)) else None) \<and>
    chunk_push_str k s = (if str_len (ck_text k) + str_len s \<le> MAX_BASE then Some (canon (ck_text k @ s)) else None)"
proof -
  obtain a where a: "k = canon a" "str_len a \<le> 128" using assms(1) by (rule chunk_okE)
  obtain b where b: "t = canon b" "str_len b \<le> 128" using assms(2) by (rule chunk_okE)
  show ?thesis using assms(3,4) a(2)
    by (simp add: a(1) b(1) chunk_new_ok chunk_append_ok chunk_prepend_ok chunk_push_str_def)
qed

theorem chunk_building_correct_witness:
  "chunk_append (canon [104, 0x1F600]) (canon [10]) = Some (canon [104, 0x1F600, 10]) \<and>
   chunk_push_str (canon [104]) [0xE9] = Some (canon [104, 0xE9])"
proof -
  have "chunk_ok (canon [104, 0x1F600])" "chunk_ok (canon [10])" "chunk_ok (canon [104])"
    by (simp_all add: len_utf8_def)
  moreover have "list_all is_scalar [10]" "list_all is_scalar [0xE9]" by (simp_all add: is_scalar_def)
  ultimately show ?thesis
    using chunk_building_correct[of "canon [104, 0x1F600]" "canon [10]" "[]"]
      chunk_building_correct[of "canon [104]" "canon [10]" "[0xE9]"] by (simp add: len_utf8_def)
qed

text \<open>Cutting chunks. Splitting at an offset gives the chunks of the two parts of the text, and a
  slice between character boundaries is the chunk of the substring; the
  boundary tests on the bitmap and on the bytes are those of the text.\<close>

theorem chunk_cutting_correct:
  assumes "chunk_ok k" "ck_text k = a @ b @ c"
  shows "chunk_split_at k (str_len a) = Some (canon a, canon (b @ c)) \<and>
    chunk_slice k (str_len a) (str_len a + str_len b) = Some (canon b) \<and>
    (chunk_is_char_boundary k i \<longleftrightarrow> str_is_char_boundary (ck_text k) i) \<and>
    (list_all is_scalar (ck_text k) \<longrightarrow> chunk_floor_char_boundary k i = str_floor_char_boundary (ck_text k) i)"
proof -
  have k: "k = canon (a @ b @ c)" "str_len (a @ b @ c) \<le> 128"
    using assms unfolding chunk_ok_def by simp_all
  have "b @ c = []" if "str_len a = 128" using k(2) that by simp
  then have "chunk_split_at k (str_len a) = Some (canon a, canon (b @ c))"
    using k str_split_at_append[of a "b @ c"] by (auto simp: chunk_split_at_ok)
  then show ?thesis using chunk_slice_parts[OF k(2)] k
    by (simp add: chunk_is_char_boundary_ok chunk_floor_char_boundary_def floor_loop_eq floor_beyond)
qed

theorem chunk_cutting_correct_witness:
  "chunk_split_at (canon [104, 0x1F600, 10]) 1 = Some (canon [104], canon [0x1F600, 10]) \<and>
   chunk_slice (canon [104, 0x1F600, 10]) 1 5 = Some (canon [0x1F600])"
  using chunk_cutting_correct[of "canon [104, 0x1F600, 10]" "[104]" "[0x1F600]" "[10]"] by (simp add: len_utf8_def)

text \<open>In a full chunk, a slice that starts inside the last character ends up with an empty text
  whose bitmaps are those of the whole chunk: the start is moved to 128, the shift by 128 is a
  shift by 0 (the guard for the capacity is tested before the start is moved).\<close>

theorem slice_inside_last_char:
  assumes "str_len (s @ [c]) = MAX_BASE" "str_len s < i" "i < MAX_BASE"
  shows "\<exists>k. chunk_slice (canon (s @ [c])) i MAX_BASE = Some k \<and> ck_text k = [] \<and>
    ck_chars k = ck_chars (canon (s @ [c])) \<and> ck_chars k \<noteq> 0"
proof -
  let ?s = "s @ [c]"
  have len: "str_len ?s = 128" using assms(1) by simp
  have nb: "\<not> str_is_char_boundary ?s i"
  proof
    assume "str_is_char_boundary ?s i"
    then obtain a b where ab: "?s = a @ b" "i = str_len a" by (auto simp: str_boundary_iff)
    then consider "b = []" | "\<exists>b'. s = a @ b'" by (cases b rule: rev_cases) auto
    then show False using ab assms(2,3) len by cases auto
  qed
  have "str_ceil_char_boundary ?s i = 128"
  proof -
    let ?b = "str_ceil_char_boundary ?s i"
    have "str_is_char_boundary ?s ?b" "i \<le> ?b" using ceil_boundary(1)[of ?s i] ceil_boundary(2)[of i ?s] len assms(3) by auto
    then obtain a b where ab: "?s = a @ b" "?b = str_len a" by (auto simp: str_boundary_iff)
    then consider "b = []" | "\<exists>b'. s = a @ b'" by (cases b rule: rev_cases) auto
    then show ?thesis using ab \<open>i \<le> ?b\<close> assms(2) len by cases auto
  qed
  then have st: "slice_start (canon ?s) i = Some 128" "slice_end (canon ?s) 128 128 = Some 128"
    using nb len boundary_ends(2)[of ?s] by (auto simp: slice_start_ok slice_end_ok)
  have sl: "str_slice ?s 128 128 = Some []"
    unfolding str_slice_Some using len by (intro exI[of _ ?s] exI[of _ "[]"]) simp
  have full: "unbounded_shl 1 128 - 1 = (- 1 :: bitmap)" by (simp add: unbounded_shl_def)
  have "bit (ck_chars (canon ?s)) 0"
    using cflags_nth[of 0 ?s] len by (simp add: canon_simps bit_bits length_flags)
  then have "ck_chars (canon ?s) \<noteq> 0" by (metis bit_0_eq bot_apply bot_bool_def)
  then show ?thesis using assms(3) by (simp add: chunk_slice_def st sl full Let_def shr_def)
qed

theorem slice_inside_last_char_witness:
  "\<exists>k. chunk_slice (canon (replicate 126 97 @ [0xE9])) 127 MAX_BASE = Some k \<and> ck_text k = [] \<and> ck_chars k \<noteq> 0"
proof -
  have "str_len (replicate n 97) = n" for n by (induction n) (simp_all add: len_utf8_def)
  then show ?thesis using slice_inside_last_char[of "replicate 126 97" "0xE9" 127] by (auto simp: len_utf8_def)
qed

end
