(* ===== verification/ChunkSummary.thy ===== *)
theory ChunkSummary
  imports Chunk
begin

text \<open>
  The summary of a chunk (\<open>ChunkSlice::text_summary\<close> and its parts in
  \<open>crates/rope/src/chunk.rs\<close>): lengths, lines and the longest row are read off the bitmaps by
  counting ones and zeros. The main lemma is that the summary of a chunk is the summary of
  its text.
\<close>

section \<open>Reading the bitmaps\<close>

text \<open>The subtraction in \<open>chunk_lines\<close> does not go below zero: the bits beyond the text are clear
  (lemma \<open>lines_no_underflow\<close>).\<close>

definition chunk_len :: "chunk \<Rightarrow> nat" where
  "chunk_len k = str_len (ck_text k)"

definition chunk_len_utf16 :: "chunk \<Rightarrow> nat" where
  "chunk_len_utf16 k = count_ones (ck_utf16 k)"

definition chunk_lines :: "chunk \<Rightarrow> point" where
  "chunk_lines k = Point (count_ones (ck_newlines k)) (leading_zeros (ck_newlines k) - (128 - str_len (ck_text k)))"

definition chunk_first_line_chars :: "chunk \<Rightarrow> nat" where
  "chunk_first_line_chars k = count_ones (ck_chars k AND saturating_shl_mask (trailing_zeros (ck_newlines k)))"

definition chunk_last_line_chars :: "chunk \<Rightarrow> nat" where
  "chunk_last_line_chars k = count_ones (ck_chars k AND saturating_shr_mask (leading_zeros (ck_newlines k)))"

definition chunk_last_line_len_utf16 :: "chunk \<Rightarrow> nat" where
  "chunk_last_line_len_utf16 k = count_ones (ck_utf16 k AND saturating_shr_mask (leading_zeros (ck_newlines k)))"

text \<open>The loop of \<open>longest_row\<close>: the remaining bitmaps, the characters seen, the row, and the longest
  row with its length.\<close>

lemma trailing_zeros_bit:
  fixes w :: "'a::len word"
  assumes "w \<noteq> 0" shows "trailing_zeros w < LENGTH('a)" "bit w (trailing_zeros w)"
proof -
  obtain i where i: "bit w i" using assms by (auto simp: bit_eq_iff)
  then have "i < LENGTH('a)" by (rule bit_imp_le_length)
  then have "takeWhile (\<lambda>i. \<not> bit w i) [0..<LENGTH('a)] \<noteq> [0..<LENGTH('a)]"
    using i by (metis atLeastLessThan_iff set_takeWhileD set_upt zero_le)
  moreover from this show "trailing_zeros w < LENGTH('a)" unfolding trailing_zeros_def
    by (metis diff_zero length_takeWhile_le length_upt nat_less_le take_all takeWhile_eq_take order_refl)
  ultimately show "bit w (trailing_zeros w)"
    using nth_length_takeWhile[of "\<lambda>i. \<not> bit w i" "[0..<LENGTH('a)]"] unfolding trailing_zeros_def by auto
qed

function longest_row_loop ::
  "bitmap \<Rightarrow> bitmap \<Rightarrow> nat \<Rightarrow> nat \<Rightarrow> nat \<Rightarrow> nat \<Rightarrow> nat \<times> nat \<times> nat" where
  "longest_row_loop chars newlines total_chars r longest_row longest_row_chars =
     (if newlines > 0 then
        let newline_ix = trailing_zeros newlines;
            row_chars = count_ones (chars AND (shl 1 newline_ix - 1)) mod 256;
            total_chars = total_chars + row_chars;
            longer = row_chars > longest_row_chars
        in longest_row_loop (shr (shr chars newline_ix) 1) (shr (shr newlines newline_ix) 1) (total_chars + 1) (r + 1)
             (if longer then r else longest_row) (if longer then row_chars else longest_row_chars)
      else
        let row_chars = count_ones chars mod 256;
            total_chars = total_chars + row_chars
        in if row_chars > longest_row_chars then (r, row_chars, total_chars)
           else (longest_row, longest_row_chars, total_chars))"
  by pat_completeness auto

termination
proof (relation "measure (\<lambda>(_, newlines, _). unat newlines)")
  fix newlines :: bitmap and chars total_chars r longest_row longest_row_chars newline_ix row_chars total longer
  assume "newlines > 0"
  then have "0 < unat newlines" by (simp add: word_less_nat_alt)
  have "unat (shr (shr newlines n) 1) < unat newlines" for n
  proof -
    have "unat (shr (shr newlines n) 1) = unat newlines div 2 ^ (n mod 128) div 2"
      by (simp only: shr_def unat_drop_bit_eq) (simp add: drop_bit_eq_div)
    also have "\<dots> \<le> unat newlines div 2" by (intro div_le_mono div_le_dividend)
    also have "\<dots> < unat newlines" using \<open>0 < unat newlines\<close> by simp
    finally show ?thesis .
  qed
  then show "((shr (shr chars newline_ix) 1, shr (shr newlines newline_ix) 1, total + 1, r + 1,
      if longer then r else longest_row, if longer then row_chars else longest_row_chars),
      chars, newlines, total_chars, r, longest_row, longest_row_chars) \<in> measure (\<lambda>(_, newlines, _). unat newlines)"
    by simp
qed simp

declare longest_row_loop.simps [simp del]

definition chunk_longest_row :: "chunk \<Rightarrow> nat \<times> nat \<times> nat" where
  "chunk_longest_row k = longest_row_loop (ck_chars k) (ck_newlines k) 0 0 0 0"

definition chunk_text_summary :: "chunk \<Rightarrow> text_summary" where
  "chunk_text_summary k =
     (let (longest_row, longest_row_chars, chars) = chunk_longest_row k
      in \<lparr>ts_len = chunk_len k, ts_chars = chars, ts_len_utf16 = chunk_len_utf16 k, ts_lines = chunk_lines k,
          ts_first_line_chars = chunk_first_line_chars k, ts_last_line_chars = chunk_last_line_chars k,
          ts_last_line_len_utf16 = chunk_last_line_len_utf16 k, ts_longest_row = longest_row,
          ts_longest_row_chars = longest_row_chars\<rparr>)"

section \<open>Lines of text\<close>

lemma split_nl_append: "split_nl (a @ NEWLINE # b) = split_nl a @ split_nl b"
  by (induction a) auto

lemma split_nl_line: "NEWLINE \<notin> set l \<Longrightarrow> split_nl l = [l]"
  by (induction l) auto

lemma first_line: obtains "NEWLINE \<notin> set s" | l b where "s = l @ NEWLINE # b" "NEWLINE \<notin> set l"
  by (metis split_list_first)

lemma last_line: obtains "NEWLINE \<notin> set s" | a l where "s = a @ NEWLINE # l" "NEWLINE \<notin> set l"
  by (metis split_list_last)

lemma cnt_cflags: "cnt (flags cflags s) = length s"
  by (induction s) (simp_all add: cflags_def)

lemma cnt_uflags: "cnt (flags uflags s) = sum_list (map len_utf16 s)"
  by (induction s) (simp_all add: uflags_def cflags_def len_utf16_def)

lemma nflags_simps: "eflags NEWLINE c = (if c = NEWLINE then [True] else replicate (len_utf8 c) False)"
proof (cases "c = NEWLINE")
  case False
  then show ?thesis using len_utf8_pos(1)[of c] by (cases "len_utf8 c") (simp_all add: eflags_def)
qed (simp add: eflags_def len_utf8_def)

lemma nflags_line: "NEWLINE \<notin> set l \<Longrightarrow> flags (eflags NEWLINE) l = replicate (str_len l) False"
  by (induction l) (auto simp: nflags_simps replicate_add)

lemma nflags_newline: "flags (eflags NEWLINE) (a @ NEWLINE # l) = flags (eflags NEWLINE) a @ True # flags (eflags NEWLINE) l"
  by (simp add: nflags_simps)

lemma cnt_nflags: "cnt (flags (eflags NEWLINE) s) = length (split_nl s) - 1"
proof (induction s)
  case (Cons c s)
  moreover have "0 < length (split_nl s)" by simp
  ultimately show ?case by (auto simp: nflags_simps)
qed simp

text \<open>The zeros around the newlines.\<close>

lemma takeWhile_zeros: "takeWhile Not (replicate n False @ True # xs) = replicate n False"
  by (induction n) auto

lemma leading_zeros_nflags:
  assumes "str_len s \<le> 128"
  shows "leading_zeros (bits (flags (eflags NEWLINE) s)) = 128 - str_len s + str_len (last (split_nl s))"
proof -
  have "length (takeWhile Not (rev (flags (eflags NEWLINE) s))) = str_len (last (split_nl s))"
  proof (cases s rule: last_line)
    case 1
    then show ?thesis by (simp add: nflags_line split_nl_line)
  next
    case (2 a l)
    have "takeWhile Not (rev (flags (eflags NEWLINE) s)) = replicate (str_len l) False"
      unfolding 2(1) nflags_newline using nflags_line[OF 2(2)]
      by (simp add: takeWhile_zeros)
    then show ?thesis using 2 by (simp add: split_nl_append split_nl_line)
  qed
  then show ?thesis using assms by (simp add: leading_zeros_bits length_flags)
qed

lemma trailing_zeros_nflags:
  assumes "str_len s \<le> 128"
  shows "trailing_zeros (bits (flags (eflags NEWLINE) s)) =
    (if NEWLINE \<in> set s then str_len (hd (split_nl s)) else 128)"
proof (cases s rule: first_line)
  case 1
  then show ?thesis using assms by (simp add: trailing_zeros_bits length_flags nflags_line)
next
  case (2 l b)
  have "takeWhile Not (flags (eflags NEWLINE) s) = replicate (str_len l) False"
    unfolding 2(1) nflags_newline nflags_line[OF 2(2)] by (rule takeWhile_zeros)
  moreover have "True \<in> set (flags (eflags NEWLINE) s)" unfolding 2(1) nflags_newline by simp
  ultimately show ?thesis using assms 2 by (simp add: trailing_zeros_bits length_flags split_nl_append split_nl_line)
qed

lemma lines_no_underflow:
  "chunk_ok k \<Longrightarrow> 128 - str_len (ck_text k) \<le> leading_zeros (ck_newlines k)"
  by (erule chunk_okE) (simp add: canon_simps leading_zeros_nflags)

lemma chunk_lines_ok:
  "str_len s \<le> 128 \<Longrightarrow> chunk_lines (canon s) = point_parse_str s"
  by (simp add: chunk_lines_def canon_simps leading_zeros_nflags count_ones_bits length_flags cnt_nflags point_parse_str_eq)

lemma chunk_first_line_ok:
  assumes "str_len s \<le> 128"
  shows "chunk_first_line_chars (canon s) = length (hd (split_nl s))"
proof (cases s rule: first_line)
  case 1
  then show ?thesis using assms
    by (simp add: chunk_first_line_chars_def canon_simps trailing_zeros_nflags saturating_shl_mask_eq bits_take
        count_ones_bits length_flags cnt_cflags split_nl_line)
next
  case (2 l b)
  have "take (str_len l) (flags cflags s) = flags cflags l" by (simp add: 2(1) length_flags)
  moreover have "NEWLINE \<in> set s" "hd (split_nl s) = l" using 2 by (simp_all add: split_nl_line split_nl_append)
  moreover have "str_len l \<le> 128" using assms 2(1) by simp
  ultimately show ?thesis using assms
    by (simp add: chunk_first_line_chars_def canon_simps trailing_zeros_nflags saturating_shl_mask_eq bits_take
        count_ones_bits length_flags cnt_cflags)
qed

lemma last_line_flags:
  assumes "str_len s \<le> 128" "f = cflags \<or> f = uflags"
  shows "count_ones (bits (flags f s) AND saturating_shr_mask (leading_zeros (bits (flags (eflags NEWLINE) s)))) =
    cnt (flags f (last (split_nl s)))"
proof -
  have len: "length (flags f s) = str_len s" for s using assms(2) by (auto simp: length_flags)
  have lf: "length (f c) = len_utf8 c" for c using assms(2) by auto
  have le: "str_len (last (split_nl s)) \<le> str_len s"
    by (cases s rule: last_line) (auto simp: split_nl_line split_nl_append)
  have d: "drop (str_len s - str_len (last (split_nl s))) (flags f s) = flags f (last (split_nl s))"
  proof (cases s rule: last_line)
    case (2 a l)
    have "flags f s = flags f (a @ [NEWLINE]) @ flags f l" by (simp add: 2(1))
    moreover have "str_len s - str_len l = length (flags f (a @ [NEWLINE]))" by (simp add: 2(1) len lf)
    ultimately show ?thesis using 2 by (simp add: split_nl_append split_nl_line)
  qed (simp add: split_nl_line)
  have "128 - (128 - str_len s + str_len (last (split_nl s))) = str_len s - str_len (last (split_nl s))"
    using assms(1) by simp
  then show ?thesis using assms(1) le d
    by (simp add: leading_zeros_nflags saturating_shr_mask_bits count_ones_bits len)
qed

section \<open>The longest row\<close>

lemma text_of_line:
  assumes "NEWLINE \<notin> set l"
  shows "ts_lines (text_of l) = Point 0 (str_len l)" "ts_first_line_chars (text_of l) = length l"
    "ts_longest_row (text_of l) = 0" "ts_longest_row_chars (text_of l) = length l"
    "ts_last_line_chars (text_of l) = length l"
  using text_of_fields[of l] text_of_longest[of l] assms
  by (auto simp: split_nl_line point_parse_str_eq longest_line_def)

lemma shr_shr_flags:
  assumes "length (xs @ b # ys) \<le> 128" shows "shr (shr (bits (xs @ b # ys)) (length xs)) 1 = bits ys"
proof -
  have "length xs < 128" using assms by simp
  then have "shr (bits (xs @ b # ys)) (length xs) = bits (b # ys)" using assms by (simp add: shr_bits)
  then show ?thesis using assms shr_bits[of "b # ys" 1] by simp
qed

lemma longest_row_loop_ok:
  assumes "str_len s \<le> 128" "length a + length s \<le> 128" "a = [] \<or> last a = NEWLINE"
  shows "longest_row_loop (bits (flags cflags s)) (bits (flags (eflags NEWLINE) s)) (length a) (row (ts_lines (text_of a)))
      (ts_longest_row (text_of a)) (ts_longest_row_chars (text_of a)) =
    (ts_longest_row (text_of (a @ s)), ts_longest_row_chars (text_of (a @ s)), length (a @ s))"
  using assms
proof (induction s arbitrary: a rule: length_induct)
  case (1 s)
  have last0: "ts_last_line_chars (text_of a) = 0"
  proof (cases a rule: rev_cases)
    case (snoc b c)
    then show ?thesis using 1(4) by (simp add: text_of_fields(6) split_nl_snoc)
  qed (simp add: text_zero_def)
  have len: "length s \<le> 128" using 1(3) by simp
  show ?case
  proof (cases s rule: first_line)
    case 1
    have "bits (flags (eflags NEWLINE) s) = 0"
      using \<open>str_len s \<le> 128\<close> nflags_line[OF 1] by (simp add: bits_0_iff)
    then show ?thesis using len \<open>str_len s \<le> 128\<close> last0 text_of_line[OF 1]
      by (subst longest_row_loop.simps)
        (simp add: count_ones_bits length_flags cnt_cflags text_of_append text_add_fields Let_def)
  next
    case (2 l b)
    define a' where "a' = a @ l @ [NEWLINE]"
    let ?c = "bits (flags cflags s)" and ?n = "bits (flags (eflags NEWLINE) s)"
    have le: "str_len l < 128" "str_len b \<le> 128" "length a' + length b \<le> 128" "length l \<le> 128" "length b < length s"
      using \<open>str_len s \<le> 128\<close> 1(3) unfolding 2(1) a'_def by (simp_all add: len_utf8_def)
    have tz: "trailing_zeros ?n = str_len l"
      using trailing_zeros_nflags[OF \<open>str_len s \<le> 128\<close>] 2 by (simp add: split_nl_append split_nl_line)
    have n0: "?n > 0"
    proof -
      have "True \<in> set (flags (eflags NEWLINE) s)" unfolding 2(1) nflags_newline by simp
      then show ?thesis using \<open>str_len s \<le> 128\<close> by (simp add: word_gt_0 bits_0_iff length_flags)
    qed
    have rc: "count_ones (?c AND (shl 1 (str_len l) - 1)) mod 256 = length l"
      using le(1,4) by (simp add: shl_mask bits_take 2(1) length_flags count_ones_bits cnt_cflags)
    have sc: "shr (shr ?c (str_len l)) 1 = bits (flags cflags b)"
      using shr_shr_flags[of "flags cflags l" True "flags cflags b"] \<open>str_len s \<le> 128\<close>
      by (simp add: 2(1) length_flags cflags_def len_utf8_def)
    have sn: "shr (shr ?n (str_len l)) 1 = bits (flags (eflags NEWLINE) b)"
      using shr_shr_flags[of "flags (eflags NEWLINE) l" True "flags (eflags NEWLINE) b"] \<open>str_len s \<le> 128\<close>
      unfolding 2(1) nflags_newline by (simp add: length_flags len_utf8_def)
    have a': "ts_longest_row (text_of a') =
        (if length l > ts_longest_row_chars (text_of a) then row (ts_lines (text_of a)) else ts_longest_row (text_of a))"
      "ts_longest_row_chars (text_of a') =
        (if length l > ts_longest_row_chars (text_of a) then length l else ts_longest_row_chars (text_of a))"
      "row (ts_lines (text_of a')) = row (ts_lines (text_of a)) + 1" "length a' = length a + length l + 1"
      using text_of_snoc[of "a @ l" NEWLINE] last0 text_of_line[OF 2(2)]
      by (simp_all add: a'_def text_push_fields text_of_append text_add_fields point_add_def)
    have IH: "longest_row_loop (bits (flags cflags b)) (bits (flags (eflags NEWLINE) b)) (length a')
        (row (ts_lines (text_of a'))) (ts_longest_row (text_of a')) (ts_longest_row_chars (text_of a')) =
      (ts_longest_row (text_of (a' @ b)), ts_longest_row_chars (text_of (a' @ b)), length (a' @ b))"
      by (rule 1(1)[rule_format, OF le(5) le(2) le(3)]) (simp add: a'_def)
    have "a' @ b = a @ s" by (simp add: a'_def 2(1))
    then show ?thesis using IH n0
      by (subst longest_row_loop.simps) (simp add: Let_def tz rc sc[unfolded One_nat_def] sn[unfolded One_nat_def] a' split: if_splits)
  qed
qed


lemma chunk_longest_row_ok:
  "str_len s \<le> 128 \<Longrightarrow>
   chunk_longest_row (canon s) = (ts_longest_row (text_of s), ts_longest_row_chars (text_of s), length s)"
proof -
  assume a: "str_len s \<le> 128"
  have "length s \<le> str_len s"
  proof (induction s)
    case (Cons c s)
    have "1 \<le> len_utf8 c" by simp
    then show ?case using Cons by (simp only: str_len_simps list.size)
  qed simp
  then show ?thesis using a longest_row_loop_ok[of s "[]"]
    by (simp add: chunk_longest_row_def canon_simps text_zero_def point_zero_def)
qed

lemma chunk_text_summary_ok: "str_len s \<le> 128 \<Longrightarrow> chunk_text_summary (canon s) = text_of s"
  using last_line_flags[of s cflags] last_line_flags[of s uflags]
  by (intro text_summary.equality)
    (simp_all add: chunk_text_summary_def chunk_longest_row_ok text_of_fields chunk_len_def chunk_len_utf16_def
      chunk_lines_ok chunk_first_line_ok chunk_last_line_chars_def chunk_last_line_len_utf16_def canon_simps
      count_ones_bits length_flags cnt_uflags cnt_cflags)

text \<open>The summary that a chunk computes from its bitmaps (the loop over the newlines included, which
  ends because every round clears the lowest newline) is the summary of its text.\<close>

theorem chunk_text_summary_correct:
  assumes "chunk_ok k" shows "chunk_text_summary k = text_of (ck_text k)"
  using assms by (rule chunk_okE) (simp add: chunk_text_summary_ok)

theorem chunk_text_summary_correct_witness:
  "chunk_text_summary (canon [104, 10, 0x1F600]) = text_of [104, 10, 0x1F600]"
  using chunk_text_summary_correct[of "canon [104, 10, 0x1F600]"] by (simp add: len_utf8_def)

end
