(* ===== verification/ChunkPos.thy ===== *)
theory ChunkPos
  imports ChunkSummary
begin

text \<open>
  Positions in a chunk (\<open>ChunkSlice\<close> in \<open>crates/rope/src/chunk.rs\<close>): byte offsets, points, UTF-16
  offsets and points, their conversions and their clipping to characters. A log message of a
  release build (\<open>debug_panic\<close>) has no effect. The grapheme boundaries of a line, which an
  external crate computes, are a parameter.
\<close>

section \<open>Conversions\<close>

definition chunk_offset_to_point :: "chunk \<Rightarrow> nat \<Rightarrow> point" where
  "chunk_offset_to_point k offset =
     (let m = ck_newlines k AND (unbounded_shl 1 offset - 1);
          newline_ix = 128 - leading_zeros m
      in Point (count_ones m) (offset - newline_ix))"

definition offset_range_for_row :: "chunk \<Rightarrow> nat \<Rightarrow> nat \<times> nat" where
  "offset_range_for_row k r =
     (let row_start = (if r > 0 then nth_set_bit (ck_newlines k) r + 1 else 0);
          row_len = (if row_start = MAX_BASE then 0
                     else min (trailing_zeros (shr (ck_newlines k) row_start)) (str_len (ck_text k) - row_start))
      in (row_start, row_start + row_len))"

definition chunk_point_to_offset :: "chunk \<Rightarrow> point \<Rightarrow> nat" where
  "chunk_point_to_offset k p =
     (if row p > row (chunk_lines k) then chunk_len k
      else let (i, j) = offset_range_for_row k (row p)
           in if column p > j - i then j else i + column p)"

definition chunk_offset_to_offset_utf16 :: "chunk \<Rightarrow> nat \<Rightarrow> nat" where
  "chunk_offset_to_offset_utf16 k offset = count_ones (ck_utf16 k AND (unbounded_shl 1 offset - 1))"

definition chunk_point_to_offset_utf16 :: "chunk \<Rightarrow> point \<Rightarrow> nat" where
  "chunk_point_to_offset_utf16 k p =
     (if row p > row (chunk_lines k) then chunk_len_utf16 k
      else chunk_offset_to_offset_utf16 k (chunk_point_to_offset k p))"

definition chunk_offset_utf16_to_offset :: "chunk \<Rightarrow> nat \<Rightarrow> nat" where
  "chunk_offset_utf16_to_offset k target =
     (if target = 0 then 0
      else let ix = nth_set_bit (ck_utf16 k) target + 1
           in if ix = MAX_BASE then MAX_BASE
              else ix + min (trailing_zeros (shr (ck_utf16 k) ix)) (str_len (ck_text k) - ix))"

definition chunk_offset_to_point_utf16 :: "chunk \<Rightarrow> nat \<Rightarrow> point16" where
  "chunk_offset_to_point_utf16 k offset =
     (let mask = saturating_shl_mask offset;
          r = count_ones (ck_newlines k AND saturating_shl_mask offset);
          newline_ix = 128 - leading_zeros (ck_newlines k AND mask)
      in Point16 r (if newline_ix = MAX_BASE then 0 else count_ones (shr (ck_utf16 k AND mask) newline_ix)))"

definition chunk_point_to_point_utf16 :: "chunk \<Rightarrow> point \<Rightarrow> point16" where
  "chunk_point_to_point_utf16 k p = chunk_offset_to_point_utf16 k (chunk_point_to_offset k p)"

text \<open>The loops that move an offset until a test holds; going left from zero leaves the string.\<close>

partial_function (option) move_until :: "(nat \<Rightarrow> bool) \<Rightarrow> bias \<Rightarrow> nat \<Rightarrow> nat option" where
  "move_until stop b i =
     (if stop i then Some i
      else case b of
        Left \<Rightarrow> if i = 0 then None else move_until stop b (i - 1)
      | Right \<Rightarrow> move_until stop b (i + 1))"

definition chunk_point_utf16_to_offset :: "chunk \<Rightarrow> point16 \<Rightarrow> nat option" where
  "chunk_point_utf16_to_offset k p =
     (if row16 p > row (chunk_lines k) then Some (chunk_len k)
      else do {
        let (i, j) = offset_range_for_row k (row16 p);
        line \<leftarrow> chunk_slice k i j;
        if column16 p > chunk_last_line_len_utf16 line then Some j
        else if column16 p > 0 then
          move_until (str_is_char_boundary (ck_text k)) Left (i + chunk_offset_utf16_to_offset line (column16 p))
        else Some i
      })"

definition chunk_unclipped_point_utf16_to_point :: "chunk \<Rightarrow> point16 unclipped \<Rightarrow> point option" where
  "chunk_unclipped_point_utf16_to_point k p =
     (let max_point = chunk_lines k; r = row16 (clipped p); col = column16 (clipped p) in
      if r > row max_point then Some max_point
      else do {
        let (i, j) = offset_range_for_row k r;
        line \<leftarrow> chunk_slice k i j;
        if col = 0 then Some (Point r 0)
        else if col \<ge> chunk_len_utf16 line then Some (Point r (chunk_len line))
        else do {
          column \<leftarrow> move_until (str_is_char_boundary (ck_text line)) Left (chunk_offset_utf16_to_offset line col);
          Some (Point r column)
        }
      })"

definition chunk_clip_offset_utf16 :: "chunk \<Rightarrow> nat \<Rightarrow> bias \<Rightarrow> nat option" where
  "chunk_clip_offset_utf16 k target b =
     (if target = 0 then Some 0
      else if target \<ge> chunk_len_utf16 k then Some (chunk_len_utf16 k)
      else do {
        i \<leftarrow> move_until (str_is_char_boundary (ck_text k)) b (chunk_offset_utf16_to_offset k target);
        Some (chunk_offset_to_offset_utf16 k i)
      })"

definition chunk_clip_point_utf16 :: "chunk \<Rightarrow> point16 unclipped \<Rightarrow> bias \<Rightarrow> point16 option" where
  "chunk_clip_point_utf16 k p b =
     (let max_point = chunk_lines k; r = row16 (clipped p) in
      if r > row max_point then Some (Point16 (row max_point) (chunk_last_line_len_utf16 k))
      else do {
        let (i, j) = offset_range_for_row k r;
        line \<leftarrow> chunk_slice k i j;
        column \<leftarrow> chunk_clip_offset_utf16 line (column16 (clipped p)) b;
        Some (Point16 r column)
      })"

text \<open>\<open>grapheme text i\<close> tells whether offset \<open>i\<close> is a grapheme boundary of \<open>text\<close>.\<close>

definition chunk_clip_point :: "(str \<Rightarrow> nat \<Rightarrow> bool) \<Rightarrow> chunk \<Rightarrow> point \<Rightarrow> bias \<Rightarrow> point option" where
  "chunk_clip_point grapheme k p b =
     (let max_point = chunk_lines k in
      if row p > row max_point then Some max_point
      else do {
        let (i, j) = offset_range_for_row k (row p);
        line \<leftarrow> chunk_slice k i j;
        if column p = 0 then Some p
        else if column p \<ge> chunk_len line then Some (Point (row p) (chunk_len line))
        else let bytes = as_bytes (ck_text line) in
          if bytes ! (column p - 1) < 128 \<and> bytes ! column p < 128 then Some (Point (row p) (column p))
          else do {
            c \<leftarrow> move_until (\<lambda>c. chunk_is_char_boundary line c \<and> grapheme (ck_text line) c) b (column p);
            Some (Point (row p) c)
          }
      })"

text \<open>The iterator over the tabs of a chunk.\<close>

record tabs_iter =
  ti_tabs :: bitmap
  ti_chars :: bitmap

definition chunk_tabs_iter :: "chunk \<Rightarrow> tabs_iter" where
  "chunk_tabs_iter k = \<lparr>ti_tabs = ck_tabs k, ti_chars = ck_chars k\<rparr>"

record tab_position =
  tp_byte_offset :: nat
  tp_char_offset :: nat

definition tabs_next :: "tabs_iter \<Rightarrow> tab_position option \<times> tabs_iter" where
  "tabs_next t =
     (if ti_tabs t = 0 then (None, t)
      else let tab_offset = trailing_zeros (ti_tabs t);
               chars_mask = shl 1 tab_offset - 1
           in (Some \<lparr>tp_byte_offset = tab_offset, tp_char_offset = count_ones (ti_chars t AND chars_mask)\<rparr>,
               t\<lparr>ti_tabs := ti_tabs t XOR shl 1 tab_offset\<rparr>))"

end
