(* ===== verification/Rope.thy ===== *)
theory Rope
  imports ChunkPos CursorOps
begin

text \<open>
  The rope (\<open>crates/rope/src/rope.rs\<close>): a \<open>SumTree\<close> of chunks summarised by their text, with
  editing (\<open>push\<close>, \<open>append\<close>, \<open>slice\<close>, \<open>replace\<close>, \<open>push_front\<close>), its cursor, and the
  conversions between positions. A rope is its tree; the closure that \<open>update_last\<close> and
  \<open>update_first\<close> run once on the outer chunk is evaluated on that chunk first, so that its
  panics and its effect on the captured text are seen, and its result is then stored. An
  underflow of unsigned subtraction is \<open>None\<close>, like a panic.
\<close>

section \<open>Data\<close>

text \<open>A \<open>ChunkSummary\<close> is the text summary it wraps.\<close>

definition chunk_sum :: "(chunk, text_summary) summary_ops" where
  "chunk_sum = \<lparr>sm_zero = text_zero, sm_add = text_add, sm_item = chunk_text_summary\<rparr>"

type_synonym rope = "(chunk, text_summary) stree"

definition rope_new :: rope where
  "rope_new = stree_new chunk_sum"

section \<open>Editing\<close>

text \<open>Where the last chunk takes text: all of it when it fits, else what fills the chunk to
  \<open>MIN_BASE\<close>, up to the end of a character.\<close>

definition push_split_ix :: "chunk \<Rightarrow> str \<Rightarrow> nat option" where
  "push_split_ix c text =
     (if str_len (ck_text c) + str_len text \<le> MAX_BASE then Some (str_len text)
      else move_until (str_is_char_boundary text) Right (min (MIN_BASE - str_len (ck_text c)) (str_len text)))"

definition push_into_last :: "rope \<Rightarrow> str \<Rightarrow> (rope \<times> str) option" where
  "push_into_last r text = do {
     last_chunk \<leftarrow> stree_last r;
     case last_chunk of
       None \<Rightarrow> Some (r, text)
     | Some c \<Rightarrow> do {
         split_ix \<leftarrow> push_split_ix c text;
         (suffix, remainder) \<leftarrow> str_split_at text split_ix;
         c' \<leftarrow> chunk_push_str c suffix;
         r' \<leftarrow> stree_update_last chunk_sum (\<lambda>_. c') r;
         Some (r', remainder)
       }
   }"

partial_function (option) split_chunks :: "str \<Rightarrow> str list option" where
  "split_chunks text =
     (if text = [] then Some []
      else do {
        split_ix \<leftarrow> move_until (str_is_char_boundary text) Left (min MAX_BASE (str_len text));
        (c, remainder) \<leftarrow> str_split_at text split_ix;
        cs \<leftarrow> split_chunks remainder;
        Some (c # cs)
      })"

fun chunks_new :: "str list \<Rightarrow> chunk list option" where
  "chunks_new [] = Some []"
| "chunks_new (s # ss) = do { c \<leftarrow> chunk_new s; cs \<leftarrow> chunks_new ss; Some (c # cs) }"

definition PARALLEL_THRESHOLD :: nat where
  "PARALLEL_THRESHOLD = 84 * (2 * TREE_BASE)"

definition NUM_CHUNKS :: nat where
  "NUM_CHUNKS = 4"

definition rope_push_large :: "rope \<Rightarrow> str \<Rightarrow> rope option" where
  "rope_push_large r text = do {
     new_chunks \<leftarrow> split_chunks text;
     cs \<leftarrow> chunks_new new_chunks;
     if length new_chunks \<ge> PARALLEL_THRESHOLD then stree_par_extend chunk_sum r cs
     else stree_extend chunk_sum r cs
   }"

definition rope_push :: "rope \<Rightarrow> str \<Rightarrow> rope option" where
  "rope_push r text = do {
     (r, text) \<leftarrow> push_into_last r text;
     if text = [] then Some r
     else if str_len text > NUM_CHUNKS * MAX_BASE - NUM_CHUNKS * 4 then rope_push_large r text
     else do {
       new_chunks \<leftarrow> split_chunks text;
       _ \<leftarrow> assert_opt (length new_chunks \<le> NUM_CHUNKS);
       cs \<leftarrow> chunks_new new_chunks;
       stree_extend chunk_sum r cs
     }
   }"

definition chunk_split_ix :: "chunk \<Rightarrow> chunk \<Rightarrow> nat option" where
  "chunk_split_ix c k =
     (if str_len (ck_text c) + chunk_len k \<le> MAX_BASE then Some (chunk_len k)
      else move_until (chunk_is_char_boundary k) Right (min (MIN_BASE - str_len (ck_text c)) (chunk_len k)))"

text \<open>\<open>ChunkSlice::into\<close> copies the text into the buffer of a chunk.\<close>

definition chunk_into :: "chunk \<Rightarrow> chunk option" where
  "chunk_into k = (if str_len (ck_text k) \<le> MAX_BASE then Some k else None)"

definition rope_push_chunk :: "rope \<Rightarrow> chunk \<Rightarrow> rope option" where
  "rope_push_chunk r k = do {
     last_chunk \<leftarrow> stree_last r;
     (r, k) \<leftarrow> (case last_chunk of
         None \<Rightarrow> Some (r, k)
       | Some c \<Rightarrow> do {
           split_ix \<leftarrow> chunk_split_ix c k;
           (suffix, remainder) \<leftarrow> chunk_split_at k split_ix;
           c' \<leftarrow> chunk_append c suffix;
           r' \<leftarrow> stree_update_last chunk_sum (\<lambda>_. c') r;
           Some (r', remainder)
         });
     if ck_text k = [] then Some r else do { c \<leftarrow> chunk_into k; stree_push chunk_sum r c }
   }"

definition small_chunk :: "chunk \<Rightarrow> bool" where
  "small_chunk c \<longleftrightarrow> str_len (ck_text c) < MIN_BASE"

definition rope_append :: "rope \<Rightarrow> rope \<Rightarrow> rope option" where
  "rope_append r other = do {
     first_chunk \<leftarrow> stree_first other;
     case first_chunk of
       None \<Rightarrow> stree_append chunk_sum r other
     | Some c \<Rightarrow> do {
         last_chunk \<leftarrow> stree_last r;
         if (case last_chunk of Some l \<Rightarrow> small_chunk l | None \<Rightarrow> False) \<or> small_chunk c then do {
           r \<leftarrow> rope_push_chunk r c;
           chunks \<leftarrow> cursor_next unit_dim (cursor_new unit_dim other);
           chunks \<leftarrow> cursor_next unit_dim chunks;
           (suffix, _) \<leftarrow> cursor_suffix chunk_sum unit_dim chunks;
           stree_append chunk_sum r suffix
         } else stree_append chunk_sum r other
       }
   }"

definition rope_len :: "rope \<Rightarrow> nat" where
  "rope_len r = extent bytes_dim r"

definition rope_is_empty :: "rope \<Rightarrow> bool" where
  "rope_is_empty r \<longleftrightarrow> rope_len r = 0"

definition rope_summary :: "rope \<Rightarrow> text_summary" where
  "rope_summary r = summary r"

definition rope_max_point :: "rope \<Rightarrow> point" where
  "rope_max_point r = extent point_dim r"

definition rope_max_point_utf16 :: "rope \<Rightarrow> point16" where
  "rope_max_point_utf16 r = extent point16_dim r"

definition rope_from_str :: "str \<Rightarrow> rope option" where
  "rope_from_str text = rope_push rope_new text"

definition rope_push_front :: "rope \<Rightarrow> str \<Rightarrow> rope option" where
  "rope_push_front r text =
     (if text = [] then Some r
      else if rope_is_empty r then rope_push r text
      else do {
        first_chunk \<leftarrow> stree_first r;
        case first_chunk of
          Some c \<Rightarrow>
            if str_len (ck_text c) + str_len text \<le> MAX_BASE then do {
              c' \<leftarrow> chunk_prepend_str c text;
              stree_update_first chunk_sum (\<lambda>_. c') r
            } else do { new \<leftarrow> rope_from_str text; rope_append new r }
        | None \<Rightarrow> do { new \<leftarrow> rope_from_str text; rope_append new r }
      })"

section \<open>The cursor of a rope\<close>

record rope_cursor =
  rc_rope :: rope
  rc_chunks :: "(chunk, text_summary, nat) cursor"
  rc_offset :: nat

definition rope_cursor_new :: "rope \<Rightarrow> nat \<Rightarrow> rope_cursor option" where
  "rope_cursor_new r offset = do {
     (_, chunks) \<leftarrow> cursor_seek bytes_dim (cmp_of offset) Right (cursor_new bytes_dim r);
     Some \<lparr>rc_rope = r, rc_chunks = chunks, rc_offset = offset\<rparr>
   }"

definition rope_cursor_seek_forward :: "rope_cursor \<Rightarrow> nat \<Rightarrow> rope_cursor option" where
  "rope_cursor_seek_forward c end_offset = do {
     _ \<leftarrow> assert_opt (end_offset \<ge> rc_offset c);
     _ \<leftarrow> assert_opt (end_offset \<le> rope_len (rc_rope c));
     (_, chunks) \<leftarrow> cursor_seek_forward bytes_dim (cmp_of end_offset) Right (rc_chunks c);
     Some (c\<lparr>rc_chunks := chunks, rc_offset := end_offset\<rparr>)
   }"

text \<open>The part of the chunk under the cursor between its offset and \<open>end_offset\<close>.\<close>

definition cursor_chunk_part :: "rope_cursor \<Rightarrow> nat \<Rightarrow> chunk option option" where
  "cursor_chunk_part c end_offset = do {
     start_chunk \<leftarrow> cursor_item (rc_chunks c);
     case start_chunk of
       None \<Rightarrow> Some None
     | Some k \<Rightarrow> do {
         start_ix \<leftarrow> csub (rc_offset c) (c_position (rc_chunks c));
         chunk_end \<leftarrow> cursor_end bytes_dim (rc_chunks c);
         end_ix \<leftarrow> csub (min end_offset chunk_end) (c_position (rc_chunks c));
         map_option Some (chunk_slice k start_ix end_ix)
       }
   }"

definition rope_cursor_slice :: "rope_cursor \<Rightarrow> nat \<Rightarrow> (rope \<times> rope_cursor) option" where
  "rope_cursor_slice c end_offset = do {
     _ \<leftarrow> assert_opt (end_offset \<ge> rc_offset c);
     _ \<leftarrow> assert_opt (end_offset \<le> rope_len (rc_rope c));
     part \<leftarrow> cursor_chunk_part c end_offset;
     slice \<leftarrow> (case part of None \<Rightarrow> Some rope_new | Some k \<Rightarrow> rope_push_chunk rope_new k);
     chunk_end \<leftarrow> cursor_end bytes_dim (rc_chunks c);
     (slice, chunks) \<leftarrow>
       (if end_offset > chunk_end then do {
          chunks \<leftarrow> cursor_next bytes_dim (rc_chunks c);
          (middle, chunks) \<leftarrow> cursor_slice chunk_sum bytes_dim (cmp_of end_offset) Right chunks;
          slice \<leftarrow> rope_append slice middle;
          end_chunk \<leftarrow> cursor_item chunks;
          case end_chunk of
            None \<Rightarrow> Some (slice, chunks)
          | Some k \<Rightarrow> do {
              end_ix \<leftarrow> csub end_offset (c_position chunks);
              part \<leftarrow> chunk_slice k 0 end_ix;
              slice \<leftarrow> rope_push_chunk slice part;
              Some (slice, chunks)
            }
        } else Some (slice, rc_chunks c));
     Some (slice, c\<lparr>rc_chunks := chunks, rc_offset := end_offset\<rparr>)
   }"

text \<open>A text dimension: a dimension that also measures a part of a chunk.\<close>

record 'd text_dimension =
  td_dim :: "('d, text_summary) dim_ops"
  td_from_chunk :: "chunk \<Rightarrow> 'd"
  td_add :: "'d \<Rightarrow> 'd \<Rightarrow> 'd"

definition rope_cursor_summary :: "'d text_dimension \<Rightarrow> rope_cursor \<Rightarrow> nat \<Rightarrow> ('d \<times> rope_cursor) option" where
  "rope_cursor_summary E c end_offset = do {
     _ \<leftarrow> assert_opt (end_offset \<ge> rc_offset c);
     _ \<leftarrow> assert_opt (end_offset \<le> rope_len (rc_rope c));
     part \<leftarrow> cursor_chunk_part c end_offset;
     let total = dm_zero (td_dim E);
     let total = (case part of None \<Rightarrow> total | Some k \<Rightarrow> td_add E total (td_from_chunk E k));
     chunk_end \<leftarrow> cursor_end bytes_dim (rc_chunks c);
     (total, chunks) \<leftarrow>
       (if end_offset > chunk_end then do {
          chunks \<leftarrow> cursor_next bytes_dim (rc_chunks c);
          (middle, chunks) \<leftarrow> cursor_summary (td_dim E) bytes_dim (cmp_of end_offset) Right chunks;
          let total = td_add E total middle;
          end_chunk \<leftarrow> cursor_item chunks;
          case end_chunk of
            None \<Rightarrow> Some (total, chunks)
          | Some k \<Rightarrow> do {
              end_ix \<leftarrow> csub end_offset (c_position chunks);
              part \<leftarrow> chunk_slice k 0 end_ix;
              Some (td_add E total (td_from_chunk E part), chunks)
            }
        } else Some (total, rc_chunks c));
     Some (total, c\<lparr>rc_chunks := chunks, rc_offset := end_offset\<rparr>)
   }"

definition rope_cursor_suffix :: "rope_cursor \<Rightarrow> rope option" where
  "rope_cursor_suffix c = map_option fst (rope_cursor_slice c (extent bytes_dim (rc_rope c)))"

definition rope_slice :: "rope \<Rightarrow> nat \<Rightarrow> nat \<Rightarrow> rope option" where
  "rope_slice r i j = do {
     c \<leftarrow> rope_cursor_new r 0;
     c \<leftarrow> rope_cursor_seek_forward c i;
     (s, _) \<leftarrow> rope_cursor_slice c j;
     Some s
   }"

definition rope_replace :: "rope \<Rightarrow> nat \<Rightarrow> nat \<Rightarrow> str \<Rightarrow> rope option" where
  "rope_replace r i j text = do {
     c \<leftarrow> rope_cursor_new r 0;
     (prefix, c) \<leftarrow> rope_cursor_slice c i;
     new \<leftarrow> rope_append rope_new prefix;
     c \<leftarrow> rope_cursor_seek_forward c j;
     new \<leftarrow> rope_push new text;
     suffix \<leftarrow> rope_cursor_suffix c;
     rope_append new suffix
   }"

end
