(* ===== verification/ChunkPosProps.thy ===== *)
theory ChunkPosProps
  imports ChunkPos
begin

text \<open>
  What the conversions of \<open>ChunkPos\<close> compute: on the chunk of a string they agree with the
  positions of the string, are inverse to each other, and clipping ends at the nearest character.
\<close>

section \<open>Selecting a row\<close>

lemma ones_mono_bit:
  assumes "bit v p" "p < q" shows "ones v 0 p < ones v 0 q"
proof -
  obtain k where "q = p + (1 + k)" using less_imp_add_positive[OF assms(2)]
    by (metis Suc_pred' add.commute plus_1_eq_Suc)
  then show ?thesis using ones_add[of v 0 p "1 + k"] ones_add[of v p 1 k] assms(1) by (simp add: ones_one)
qed

lemma nth_set_bit_eq:
  assumes "bit v p" "ones v 0 p + 1 = n" shows "nth_set_bit v n = p"
proof -
  have p: "p < 128" using bit_imp_le_length[OF assms(1)] by simp
  have "ones v 0 (p + 1) \<le> ones v 0 128" using ones_add[of v 0 "p + 1" "127 - p"] p by simp
  then have "n \<le> ones v 0 128" using assms ones_add[of v 0 p 1] by (simp add: ones_one)
  then have "bit v (nth_set_bit v n)" "ones v 0 (nth_set_bit v n) + 1 = n"
    using nth_set_bit_ok[of n v] assms(2) by auto
  then show ?thesis using ones_mono_bit[of v p] ones_mono_bit[of v "nth_set_bit v n" p] assms
    by (metis add_right_cancel less_irrefl nat_neq_iff)
qed

lemma nth_flag:
  assumes "length (xs @ True # ys) \<le> 128"
  shows "nth_set_bit (bits (xs @ True # ys)) (cnt xs + 1) = length xs"
  by (rule nth_set_bit_eq) (use assms in \<open>simp_all add: bit_bits ones_bits\<close>)

text \<open>Row \<open>r\<close> of a text lies between a prefix that ends at its start and a rest that begins at its end.\<close>

definition row_at :: "str \<Rightarrow> nat \<Rightarrow> str \<Rightarrow> str \<Rightarrow> str \<Rightarrow> bool" where
  "row_at s r a l b \<longleftrightarrow> s = a @ l @ b \<and> NEWLINE \<notin> set l \<and> (a = [] \<or> last a = NEWLINE) \<and>
     (b = [] \<or> hd b = NEWLINE) \<and> cnt (flags (eflags NEWLINE) a) = r"

lemma row_at_exists:
  assumes "r < length (split_nl s)" shows "\<exists>a b. row_at s r a (split_nl s ! r) b"
  using assms
proof (induction r arbitrary: s)
  case 0
  show ?case
  proof (cases s rule: first_line)
    case 1
    then show ?thesis by (intro exI[of _ "[]"]) (simp add: row_at_def split_nl_line)
  next
    case (2 l b)
    then show ?thesis by (intro exI[of _ "[]"] exI[of _ "NEWLINE # b"]) (simp add: row_at_def split_nl_line split_nl_append)
  qed
next
  case (Suc r)
  show ?case
  proof (cases s rule: first_line)
    case 1
    then show ?thesis using Suc.prems by (simp add: split_nl_line)
  next
    case (2 l t)
    then have sp: "split_nl s = l # split_nl t" by (simp add: split_nl_line split_nl_append)
    then have "\<exists>a b. row_at t r a (split_nl t ! r) b" using Suc by simp
    then obtain a b where ab: "row_at t r a (split_nl t ! r) b" by blast
    have "row_at s (Suc r) (l @ NEWLINE # a) (split_nl t ! r) b"
      using ab 2 by (auto simp: row_at_def nflags_line nflags_simps)
    then show ?thesis using sp by auto
  qed
qed

lemma row_at_range:
  assumes "row_at s r a l b" "str_len s \<le> 128"
  shows "offset_range_for_row (canon s) r = (str_len a, str_len a + str_len l)"
proof -
  let ?n = "bits (flags (eflags NEWLINE) s)"
  from assms have s: "s = a @ l @ b" "NEWLINE \<notin> set l" "a = [] \<or> last a = NEWLINE" "b = [] \<or> hd b = NEWLINE"
    "cnt (flags (eflags NEWLINE) a) = r" by (simp_all add: row_at_def)
  have start: "(if r > 0 then nth_set_bit ?n r + 1 else 0) = str_len a"
  proof (cases a rule: rev_cases)
    case Nil
    then show ?thesis using s(5) by simp
  next
    case (snoc a' c)
    then have c: "c = NEWLINE" using s(3) by simp
    let ?xs = "flags (eflags NEWLINE) a'"
    have f: "flags (eflags NEWLINE) s = ?xs @ True # flags (eflags NEWLINE) (l @ b)"
      using nflags_newline[of a' "l @ b"] s(1) snoc c by simp
    have "length (flags (eflags NEWLINE) s) \<le> 128" using assms(2) by (simp add: length_flags)
    then have "nth_set_bit ?n (cnt ?xs + 1) = str_len a'"
      unfolding f using nth_flag[of ?xs "flags (eflags NEWLINE) (l @ b)"] by (simp add: length_flags)
    moreover have "r = cnt ?xs + 1" using s(5) snoc c by (simp add: nflags_simps)
    ultimately show ?thesis using snoc c by (simp add: len_utf8_def)
  qed
  have len: "(if str_len a = 128 then 0 else min (trailing_zeros (shr ?n (str_len a))) (str_len s - str_len a)) = str_len l"
  proof (cases "str_len a = 128")
    case True
    then show ?thesis using assms(2) s(1) by simp
  next
    case False
    then have a: "str_len a < 128" "str_len l + str_len b \<le> 128" using assms(2) s(1) by simp_all
    have "shr ?n (str_len a) = bits (flags (eflags NEWLINE) (l @ b))"
      using a(1) assms(2) by (simp add: s(1) shr_bits length_flags)
    moreover have "min (trailing_zeros (bits (flags (eflags NEWLINE) (l @ b)))) (str_len (l @ b)) = str_len l"
    proof (cases "b = []")
      case True
      then show ?thesis using trailing_zeros_nflags[of l] a(2) s(2) by simp
    next
      case False
      then obtain b' where "b = NEWLINE # b'" using s(4) by (cases b) auto
      then show ?thesis using trailing_zeros_nflags[of "l @ b"] a(2) s(2) by (simp add: split_nl_append split_nl_line)
    qed
    ultimately show ?thesis using False s(1) by simp
  qed
  show ?thesis by (simp only: offset_range_for_row_def canon_simps canon_text Let_def bases start len)
qed

text \<open>The start of a row, and the range of a row.\<close>

definition row_start :: "str \<Rightarrow> nat \<Rightarrow> nat" where
  "row_start s r = sum_list (map (\<lambda>l. str_len l + 1) (take r (split_nl s)))"

lemma row_at_start: "row_at s r a l b \<Longrightarrow> row_start s r = str_len a \<and> split_nl s ! r = l \<and> r < length (split_nl s)"
proof -
  assume "row_at s r a l b"
  then have s: "s = a @ l @ b" "NEWLINE \<notin> set l" "a = [] \<or> last a = NEWLINE" "b = [] \<or> hd b = NEWLINE"
    "cnt (flags (eflags NEWLINE) a) = r" by (simp_all add: row_at_def)
  have sum: "sum_list (map (\<lambda>l. str_len l + 1) (split_nl t)) = str_len t + 1" for t
  proof (induction t)
    case (Cons c t)
    obtain l ls where "split_nl t = l # ls" by (cases "split_nl t") auto
    then show ?case using Cons by (auto simp: len_utf8_def[of NEWLINE])
  qed simp
  obtain ls where lb: "split_nl (l @ b) = l # ls"
    using s(2,4) by (cases b) (auto simp: split_nl_line split_nl_append)
  show ?thesis
  proof (cases a rule: rev_cases)
    case Nil
    then show ?thesis using s lb by (simp add: row_start_def)
  next
    case (snoc a' c)
    then have c: "c = NEWLINE" using s(3) by simp
    have sp: "split_nl s = split_nl a' @ l # ls" using split_nl_append[of a' "l @ b"] s(1) snoc c lb by simp
    have "r = cnt (flags (eflags NEWLINE) a') + 1" using s(5) snoc c by (simp add: nflags_simps)
    then have "r = length (split_nl a')" using cnt_nflags[of a'] by (cases "split_nl a'") auto
    then show ?thesis using sp sum[of a'] snoc c by (simp add: row_start_def len_utf8_def)
  qed
qed

lemma offset_in_row:
  assumes "i \<le> str_len s"
  shows "\<exists>r a l b col. row_at s r a l b \<and> i = str_len a + col \<and> col \<le> str_len l"
  using assms
proof (induction s arbitrary: i rule: length_induct)
  case (1 s)
  show ?case
  proof (cases s rule: first_line)
    case 1
    then have "row_at s 0 [] s []" by (simp add: row_at_def)
    then show ?thesis using \<open>i \<le> str_len s\<close> by (intro exI) auto
  next
    case (2 l t)
    show ?thesis
    proof (cases "i \<le> str_len l")
      case True
      have "row_at s 0 [] l (NEWLINE # t)" using 2 by (simp add: row_at_def)
      then show ?thesis using True by (intro exI) auto
    next
      case False
      then have "i - str_len l - 1 \<le> str_len t" "length t < length s" using \<open>i \<le> str_len s\<close> 2(1) by (simp_all add: len_utf8_def)
      then obtain r a l' b col where t: "row_at t r a l' b" "i - str_len l - 1 = str_len a + col" "col \<le> str_len l'"
        using 1(1) by blast
      have "row_at s (Suc r) (l @ NEWLINE # a) l' b"
        using t(1) 2 by (auto simp: row_at_def nflags_line nflags_simps)
      moreover have "i = str_len (l @ NEWLINE # a) + col" using t(2) False by (simp add: len_utf8_def)
      ultimately show ?thesis using t(3) by blast
    qed
  qed
qed

section \<open>Offsets and points\<close>

lemma row_flags:
  assumes "row_at s r a l b" "col \<le> str_len l"
  shows "take (str_len a + col) (flags (eflags NEWLINE) s) = flags (eflags NEWLINE) a @ replicate col False"
    "cnt (flags (eflags NEWLINE) a @ replicate col False) = r"
    "length (takeWhile Not (rev (flags (eflags NEWLINE) a @ replicate col False))) = col"
proof -
  have s: "s = a @ l @ b" "NEWLINE \<notin> set l" "a = [] \<or> last a = NEWLINE" "cnt (flags (eflags NEWLINE) a) = r"
    using assms(1) by (simp_all add: row_at_def)
  show "take (str_len a + col) (flags (eflags NEWLINE) s) = flags (eflags NEWLINE) a @ replicate col False"
    using assms(2) by (simp add: s(1) length_flags nflags_line[OF s(2)])
  show "cnt (flags (eflags NEWLINE) a @ replicate col False) = r" using s(4) by simp
  show "length (takeWhile Not (rev (flags (eflags NEWLINE) a @ replicate col False))) = col"
  proof (cases a rule: rev_cases)
    case (snoc a' c)
    then have "c = NEWLINE" using s(3) by simp
    then show ?thesis using snoc by (simp add: nflags_simps takeWhile_zeros)
  qed simp
qed

lemma row_mask:
  assumes "row_at s r a l b" "col \<le> str_len l" "str_len s \<le> 128"
  shows "count_ones (ck_newlines (canon s) AND mask (str_len a + col)) = r"
    "leading_zeros (ck_newlines (canon s) AND mask (str_len a + col)) = 128 - str_len a"
proof -
  have "str_len a + col \<le> 128" using assms by (auto simp: row_at_def)
  moreover have "length (flags (eflags NEWLINE) a @ replicate col False) = str_len a + col" by (simp add: length_flags)
  ultimately show "count_ones (ck_newlines (canon s) AND mask (str_len a + col)) = r"
    "leading_zeros (ck_newlines (canon s) AND mask (str_len a + col)) = 128 - str_len a"
    using row_flags[OF assms(1,2)]
    by (simp_all only: canon_simps bits_take count_ones_bits leading_zeros_bits)
qed

lemma mask_eqs: "unbounded_shl 1 i - 1 = (mask i :: bitmap)"
  using saturating_shl_mask_eq[of i] by (simp add: saturating_shl_mask_def)

lemma chunk_offset_to_point_row:
  assumes "row_at s r a l b" "col \<le> str_len l" "str_len s \<le> 128"
  shows "chunk_offset_to_point (canon s) (str_len a + col) = Point r col"
proof -
  have "str_len a \<le> 128" using assms by (auto simp: row_at_def)
  then show ?thesis by (simp add: chunk_offset_to_point_def Let_def mask_eqs row_mask[OF assms])
qed

lemma row_at_less: "row_at s r a l b \<Longrightarrow> r < length (split_nl s)"
  using row_at_start by blast

lemma chunk_point_to_offset_row:
  assumes "row_at s r a l b" "str_len s \<le> 128"
  shows "chunk_point_to_offset (canon s) (Point r col) = str_len a + min col (str_len l)"
proof -
  have "\<not> length (split_nl s) - 1 < r" using row_at_less[OF assms(1)] by linarith
  then show ?thesis using assms(2)
  by (simp add: chunk_point_to_offset_def chunk_lines_ok point_parse_str_eq row_at_range[OF assms])
qed

lemma chunk_point_to_offset_beyond:
  "str_len s \<le> 128 \<Longrightarrow> length (split_nl s) \<le> row p \<Longrightarrow> chunk_point_to_offset (canon s) p = str_len s"
proof -
  assume a: "str_len s \<le> 128" "length (split_nl s) \<le> row p"
  have "0 < length (split_nl s)" by simp
  then have "length (split_nl s) - 1 < row p" using a(2) by linarith
  then show ?thesis using a(1) by (simp add: chunk_point_to_offset_def chunk_lines_ok point_parse_str_eq chunk_len_def)
qed

lemma row_at_prefix:
  assumes "row_at s r a l b" "str_len a + col = str_len p" "col \<le> str_len l" "s = p @ q"
  obtains l1 l2 where "p = a @ l1" "l = l1 @ l2" "str_len l1 = col"
proof -
  have "a @ (l @ b) = p @ q" using assms(1,4) by (simp add: row_at_def)
  then consider u where "a = p @ u" "u @ l @ b = q" | u where "p = a @ u" "l @ b = u @ q"
    by (auto simp: append_eq_append_conv2)
  then show ?thesis
  proof cases
    case 1
    then have "u = []" "col = 0" using assms(2) by auto
    then show ?thesis using 1 that[of "[]" l] by simp
  next
    case 2
    from 2(2) consider v where "l = u @ v" | v where "u = l @ v" by (auto simp: append_eq_append_conv2)
    then show ?thesis
    proof cases
      case (2 v)
      then have "v = []" using assms(2,3) \<open>p = a @ u\<close> by auto
      then show ?thesis using that[of l "[]"] 2 \<open>p = a @ u\<close> assms(2) by auto
    next
      case (1 v)
      then show ?thesis using that[of u v] \<open>p = a @ u\<close> assms(2) by auto
    qed
  qed
qed

lemma row_prefix_point:
  assumes "row_at s r a l b" "l = l1 @ l2"
  shows "point_parse_str (a @ l1) = Point r (str_len l1)"
proof -
  have s: "NEWLINE \<notin> set l1" "a = [] \<or> last a = NEWLINE" "cnt (flags (eflags NEWLINE) a) = r"
    using assms by (auto simp: row_at_def)
  show ?thesis
  proof (cases a rule: rev_cases)
    case Nil
    then show ?thesis using s by (simp add: point_parse_str_eq split_nl_line)
  next
    case (snoc a' c)
    then have c: "c = NEWLINE" using s(2) by simp
    have "r = cnt (flags (eflags NEWLINE) a') + 1" using s(3) snoc c by (simp add: nflags_simps)
    then have "r = length (split_nl a')" using cnt_nflags[of a'] by (cases "split_nl a'") auto
    then show ?thesis using snoc c s(1) split_nl_append[of a' l1] by (simp add: point_parse_str_eq split_nl_line)
  qed
qed

lemma chunk_offset_to_point_prefix:
  assumes "str_len (p @ q) \<le> 128"
  shows "chunk_offset_to_point (canon (p @ q)) (str_len p) = point_parse_str p"
proof -
  have "str_len p \<le> str_len (p @ q)" by simp
  then obtain r a l b col where r: "row_at (p @ q) r a l b" "str_len p = str_len a + col" "col \<le> str_len l"
    using offset_in_row by blast
  obtain l1 l2 where l: "p = a @ l1" "l = l1 @ l2" "str_len l1 = col"
    using row_at_prefix[OF r(1) r(2)[symmetric] r(3)] by blast
  show ?thesis using chunk_offset_to_point_row[OF r(1,3) assms] row_prefix_point[OF r(1) l(2)] l r(2) by simp
qed

section \<open>UTF-16 offsets\<close>

abbreviation utf16 :: "str \<Rightarrow> nat" where "utf16 s \<equiv> sum_list (map len_utf16 s)"

lemma len_utf16_cases: "len_utf16 c = 1 \<or> len_utf16 c = 2"
  by (simp add: len_utf16_def)

lemma cnt_uflag: "cnt (uflags c) = len_utf16 c"
  using cnt_uflags[of "[c]"] by simp

lemma utf16_0: "utf16 s = 0 \<longleftrightarrow> s = []"
  by (cases s) (auto simp: len_utf16_def)

lemma chunk_offset_to_offset_utf16_prefix:
  assumes "str_len (p @ q) \<le> 128"
  shows "chunk_offset_to_offset_utf16 (canon (p @ q)) (str_len p) = utf16 p"
proof -
  have "take (str_len p) (flags uflags (p @ q)) = flags uflags p" by (rule take_flags)
  then show ?thesis using assms
    by (simp add: chunk_offset_to_offset_utf16_def mask_eqs canon_simps bits_take count_ones_bits length_flags cnt_uflags
        del: flags_simps)
qed

text \<open>The offset of a code unit is where the next flag stands.\<close>

lemma offset_utf16_flag:
  assumes "flags uflags s = xs @ True # replicate m False @ ys" "ys = [] \<or> hd ys" "str_len s \<le> 128"
  shows "chunk_offset_utf16_to_offset (canon s) (cnt xs + 1) = length xs + 1 + m"
proof -
  have len: "length xs + 1 + m + length ys = str_len s" using length_flags(2)[of s] assms(1) by simp
  have n: "nth_set_bit (bits (flags uflags s)) (cnt xs + 1) = length xs"
    unfolding assms(1) using nth_flag[of xs "replicate m False @ ys"] len assms(3) by simp
  show ?thesis
  proof (cases "length xs + 1 = 128")
    case True
    then show ?thesis using len assms(3) n by (simp add: chunk_offset_utf16_to_offset_def canon_simps)
  next
    case False
    then have "length xs + 1 < 128" using len assms(3) by linarith
    moreover have "drop (length xs + 1) (flags uflags s) = replicate m False @ ys" by (simp add: assms(1))
    ultimately have shr: "shr (bits (flags uflags s)) (length xs + 1) = bits (replicate m False @ ys)"
      using assms(3) by (simp add: shr_bits length_flags)
    have le: "length (replicate m False @ ys) \<le> 128" using len assms(3) by simp
    have "min (trailing_zeros (bits (replicate m False @ ys))) (str_len s - (length xs + 1)) = m"
    proof (cases ys)
      case Nil
      then show ?thesis using le len by (simp add: trailing_zeros_bits)
    next
      case (Cons y ys')
      then have "ys = True # ys'" using assms(2) by simp
      then show ?thesis using le len by (simp add: trailing_zeros_bits takeWhile_zeros)
    qed
    then show ?thesis using False n shr by (simp add: chunk_offset_utf16_to_offset_def canon_simps Let_def)
  qed
qed

lemma hd_uflags: "flags uflags s = [] \<or> hd (flags uflags s)"
  by (cases s) (simp_all add: uflags_def cflags_def)

lemma chunk_offset_utf16_prefix:
  assumes "str_len (p @ q) \<le> 128"
  shows "chunk_offset_utf16_to_offset (canon (p @ q)) (utf16 p) = str_len p"
proof (cases p rule: rev_cases)
  case Nil
  then show ?thesis by (simp add: chunk_offset_utf16_to_offset_def)
next
  case (snoc p' c)
  obtain xs m where xs: "uflags c = xs @ True # replicate m False" "cnt xs + 1 = len_utf16 c"
  proof (cases "len_utf16 c = 2")
    case True
    then show ?thesis using that[of "[True]" 2] by (simp add: uflags_def numeral_2_eq_2)
  next
    case False
    then show ?thesis using that[of "[]" "len_utf8 c - 1"] len_utf16_cases[of c] by (simp add: uflags_def cflags_def)
  qed
  have f: "flags uflags (p @ q) = (flags uflags p' @ xs) @ True # replicate m False @ flags uflags q"
    by (simp add: snoc xs(1))
  have n: "cnt (flags uflags p' @ xs) + 1 = utf16 p" using xs(2) by (simp add: snoc cnt_uflags)
  have len: "length (flags uflags p' @ xs) + 1 + m = str_len p"
    using arg_cong[OF xs(1), of length] by (simp add: snoc length_flags)
  show ?thesis using offset_utf16_flag[OF f hd_uflags assms] unfolding n len .
qed

lemma chunk_offset_utf16_middle:
  assumes "str_len (p @ c # q) \<le> 128" "len_utf16 c = 2"
  shows "chunk_offset_utf16_to_offset (canon (p @ c # q)) (utf16 p + 1) = str_len p + 1"
proof -
  have f: "flags uflags (p @ c # q) = flags uflags p @ True # replicate 0 False @ [True, False, False] @ flags uflags q"
    using assms(2) by (simp add: uflags_def)
  show ?thesis using offset_utf16_flag[OF f _ assms(1)] by (simp add: cnt_uflags length_flags)
qed

text \<open>Where a UTF-16 offset falls: between two characters or inside a surrogate pair.\<close>

lemma utf16_cases:
  assumes "t \<le> utf16 s"
  obtains (at) p q where "s = p @ q" "t = utf16 p"
    | (inside) p c q where "s = p @ c # q" "t = utf16 p + 1" "len_utf16 c = 2"
proof -
  have "(\<exists>p q. s = p @ q \<and> t = utf16 p) \<or> (\<exists>p c q. s = p @ c # q \<and> t = utf16 p + 1 \<and> len_utf16 c = 2)"
    using assms
  proof (induction s arbitrary: t)
    case (Cons d s)
    show ?case
    proof (cases "len_utf16 d \<le> t")
      case True
      then have "t - len_utf16 d \<le> utf16 s" using Cons.prems by simp
      from Cons.IH[OF this] show ?thesis
      proof (elim disjE exE conjE)
        fix p q assume "s = p @ q" "t - len_utf16 d = utf16 p"
        then have "d # s = (d # p) @ q \<and> t = utf16 (d # p)" using True by simp
        then show ?thesis by blast
      next
        fix p c q assume "s = p @ c # q" "t - len_utf16 d = utf16 p + 1" "len_utf16 c = 2"
        then have "d # s = (d # p) @ c # q \<and> t = utf16 (d # p) + 1 \<and> len_utf16 c = 2" using True by simp
        then show ?thesis by blast
      qed
    next
      case False
      then consider "t = 0" | "t = 1" "len_utf16 d = 2" using len_utf16_cases[of d] by linarith
      then show ?thesis
      proof cases
        case 1
        then show ?thesis by - (rule disjI1, rule exI[of _ "[]"], rule exI[of _ "d # s"], simp)
      next
        case 2
        then show ?thesis by - (rule disjI2, rule exI[of _ "[]"], rule exI[of _ d], rule exI[of _ s], simp)
      qed
    qed
  qed simp
  then show ?thesis using that by blast
qed

section \<open>Clipping loops\<close>

lemma move_left:
  assumes "stop i" "i \<le> j" "\<And>x. i < x \<Longrightarrow> x \<le> j \<Longrightarrow> \<not> stop x"
  shows "move_until stop Left j = Some i"
  using assms(2,3)
proof (induction "j - i" arbitrary: j)
  case 0
  then show ?case using assms(1) by (subst move_until.simps) simp
next
  case (Suc n)
  then have "\<not> stop j" "j \<noteq> 0" "n = j - 1 - i" by simp_all
  then show ?case using Suc by (subst move_until.simps) simp
qed

lemma move_right:
  assumes "stop i" "j \<le> i" "\<And>x. j \<le> x \<Longrightarrow> x < i \<Longrightarrow> \<not> stop x"
  shows "move_until stop Right j = Some i"
  using assms(2,3)
proof (induction "i - j" arbitrary: j)
  case 0
  then show ?case using assms(1) by (subst move_until.simps) simp
next
  case (Suc n)
  then have "\<not> stop j" "n = i - (j + 1)" by simp_all
  then show ?case using Suc by (subst move_until.simps) simp
qed

lemma not_boundary_inside:
  assumes "str_len p < x" "x < str_len p + len_utf8 c" shows "\<not> str_is_char_boundary (p @ c # q) x"
proof
  assume "str_is_char_boundary (p @ c # q) x"
  then obtain a b where ab: "p @ c # q = a @ b" "x = str_len a" by (auto simp: str_boundary_iff)
  then consider u where "p = a @ u" | u where "a = p @ u" "c # q = u @ b" by (auto simp: append_eq_append_conv2)
  then show False
  proof cases
    case 1
    then show ?thesis using ab(2) assms(1) by simp
  next
    case 2
    then show ?thesis using ab(2) assms by (cases u) auto
  qed
qed

lemma boundary_prefix [simp]: "str_is_char_boundary (p @ q) (str_len p)" "str_is_char_boundary (p @ c # q) (str_len p + len_utf8 c)"
  unfolding str_boundary_iff by (auto intro: exI[of _ "p @ [c]"])

lemma chunk_clip_offset_utf16_at:
  assumes "str_len (p @ q) \<le> 128"
  shows "chunk_clip_offset_utf16 (canon (p @ q)) (utf16 p) b = Some (utf16 p)"
proof -
  have tot: "chunk_len_utf16 (canon (p @ q)) = utf16 p + utf16 q"
    using assms by (simp add: chunk_len_utf16_def canon_simps count_ones_bits length_flags cnt_uflags)
  have mv: "move_until (str_is_char_boundary (p @ q)) b (str_len p) = Some (str_len p)"
    by (subst move_until.simps) simp
  show ?thesis using tot mv
    by (auto simp: chunk_clip_offset_utf16_def utf16_0 chunk_offset_utf16_prefix[OF assms]
        chunk_offset_to_offset_utf16_prefix[OF assms])
qed

lemma chunk_clip_offset_utf16_inside:
  assumes "str_len (p @ c # q) \<le> 128" "len_utf16 c = 2"
  shows "chunk_clip_offset_utf16 (canon (p @ c # q)) (utf16 p + 1) b =
    Some (case b of Left \<Rightarrow> utf16 p | Right \<Rightarrow> utf16 p + 2)"
proof -
  let ?s = "p @ c # q"
  have four: "len_utf8 c = 4" using assms(2) by (auto simp: len_utf8_def len_utf16_def split: if_splits)
  have tot: "chunk_len_utf16 (canon ?s) = utf16 p + 2 + utf16 q"
    using assms by (simp add: chunk_len_utf16_def canon_simps count_ones_bits length_flags cnt_uflags cnt_uflag)
  have l: "move_until (str_is_char_boundary ?s) Left (str_len p + 1) = Some (str_len p)"
    by (rule move_left) (simp_all add: not_boundary_inside four)
  have r: "move_until (str_is_char_boundary ?s) Right (str_len p + 1) = Some (str_len p + 4)"
    using boundary_prefix(2)[of p c q] by (intro move_right) (simp_all add: not_boundary_inside four)
  have u: "chunk_offset_to_offset_utf16 (canon ?s) (str_len p) = utf16 p"
    "chunk_offset_to_offset_utf16 (canon ?s) (str_len p + 4) = utf16 p + 2"
    using chunk_offset_to_offset_utf16_prefix[of p "c # q"] chunk_offset_to_offset_utf16_prefix[of "p @ [c]" q] assms four
    by simp_all
  show ?thesis using l r u tot unfolding chunk_clip_offset_utf16_def chunk_offset_utf16_middle[OF assms]
    by (cases b) simp_all
qed

section \<open>UTF-16 points\<close>

lemma row_line:
  assumes "row_at s r a l b" "str_len s \<le> 128"
  shows "offset_range_for_row (canon s) r = (str_len a, str_len a + str_len l)"
    "chunk_slice (canon s) (str_len a) (str_len a + str_len l) = Some (canon l)"
    "\<not> row (chunk_lines (canon s)) < r" "str_len l \<le> 128" "split_nl l = [l]"
proof -
  have s: "s = a @ l @ b" "NEWLINE \<notin> set l" using assms(1) by (simp_all add: row_at_def)
  show "offset_range_for_row (canon s) r = (str_len a, str_len a + str_len l)" by (rule row_at_range[OF assms])
  show "chunk_slice (canon s) (str_len a) (str_len a + str_len l) = Some (canon l)"
    using chunk_slice_parts[of a l b] assms(2) s(1) by simp
  show "\<not> row (chunk_lines (canon s)) < r"
    using row_at_less[OF assms(1)] assms(2) by (simp add: chunk_lines_ok point_parse_str_eq)
  show "str_len l \<le> 128" "split_nl l = [l]" using assms(2) s by (simp_all add: split_nl_line)
qed

lemma chunk_last_line_len_utf16_ok:
  "str_len s \<le> 128 \<Longrightarrow> chunk_last_line_len_utf16 (canon s) = utf16 (last (split_nl s))"
  using last_line_flags[of s uflags] by (simp add: chunk_last_line_len_utf16_def canon_simps cnt_uflags)

lemma chunk_len_utf16_ok: "str_len s \<le> 128 \<Longrightarrow> chunk_len_utf16 (canon s) = utf16 s"
  by (simp add: chunk_len_utf16_def canon_simps count_ones_bits length_flags cnt_uflags)

lemma chunk_offset_to_point_utf16_row:
  assumes "row_at s r a (l1 @ l2) b" "str_len s \<le> 128"
  shows "chunk_offset_to_point_utf16 (canon s) (str_len a + str_len l1) = Point16 r (utf16 l1)"
proof -
  have s: "s = (a @ l1) @ (l2 @ b)" "str_len a \<le> 128" using assms by (auto simp: row_at_def)
  have le: "str_len l1 \<le> str_len (l1 @ l2)" by simp
  have "ck_utf16 (canon s) AND mask (str_len a + str_len l1) = bits (flags uflags (a @ l1))"
    using take_flags(2)[of "a @ l1" "l2 @ b"] by (simp add: canon_simps bits_take s(1) del: flags_simps)
  moreover have "shr (bits (flags uflags (a @ l1))) (str_len a) = bits (flags uflags l1)" if "str_len a < 128"
    using that assms(2) by (simp add: shr_bits length_flags s(1))
  moreover have "l1 = []" if "\<not> str_len a < 128"
  proof -
    have "str_len s = str_len a + (str_len l1 + (str_len l2 + str_len b))" by (simp add: s(1))
    then have "str_len l1 = 0" using that assms(2) by linarith
    then show ?thesis by simp
  qed
  moreover have "str_len l1 \<le> 128" using assms(2) s(1) by simp
  ultimately show ?thesis using s(2) row_mask[OF assms(1) le assms(2)]
    by (cases "str_len a < 128")
      (simp_all add: chunk_offset_to_point_utf16_def Let_def saturating_shl_mask_eq count_ones_bits length_flags cnt_uflags)
qed

text \<open>The longest prefix of a line within a number of code units.\<close>

fun utf16_prefix :: "str \<Rightarrow> nat \<Rightarrow> str" where
  "utf16_prefix [] t = []"
| "utf16_prefix (c # s) t = (if len_utf16 c \<le> t then c # utf16_prefix s (t - len_utf16 c) else [])"

lemma utf16_prefix_all: "utf16 s \<le> t \<Longrightarrow> utf16_prefix s t = s"
  by (induction s t rule: utf16_prefix.induct) auto

lemma utf16_prefix_at: "utf16_prefix (p @ q) (utf16 p) = p"
proof (induction p)
  case Nil
  show ?case by (cases q) (auto simp: len_utf16_def)
qed simp

lemma utf16_prefix_inside: "len_utf16 c = 2 \<Longrightarrow> utf16_prefix (p @ c # q) (utf16 p + 1) = p"
  by (induction p) simp_all

lemma utf16_prefix_prefix: "\<exists>q. s = utf16_prefix s t @ q"
  by (induction s t rule: utf16_prefix.induct) auto

lemma chunk_offset_utf16_floor:
  assumes "t \<le> utf16 l" "str_len l \<le> 128" "s = a @ l @ b"
  shows "move_until (str_is_char_boundary s) Left (str_len a + chunk_offset_utf16_to_offset (canon l) t) =
    Some (str_len a + str_len (utf16_prefix l t))"
  using assms(1)
proof (cases rule: utf16_cases)
  case (at p q)
  have "str_is_char_boundary (a @ p @ q @ b) (str_len a + str_len p)"
    using boundary_prefix(1)[of "a @ p" "q @ b"] by simp
  then show ?thesis using at chunk_offset_utf16_prefix[of p q] assms(2,3)
    by (subst move_until.simps) (simp add: utf16_prefix_at)
next
  case (inside p c q)
  have four: "len_utf8 c = 4" using inside(3) by (auto simp: len_utf8_def len_utf16_def split: if_splits)
  have s: "s = (a @ p) @ c # (q @ b)" using inside assms(3) by simp
  have "move_until (str_is_char_boundary s) Left (str_len (a @ p) + 1) = Some (str_len (a @ p))"
    unfolding s using boundary_prefix(1)[of "a @ p" "c # (q @ b)"] not_boundary_inside[of "a @ p" _ c "q @ b"] four
    by (intro move_left) auto
  then show ?thesis using inside chunk_offset_utf16_middle[of p c q] assms(2) utf16_prefix_inside[of c p q]
    by (simp add: add.assoc)
qed

lemma chunk_point_utf16_to_offset_row:
  assumes "row_at s r a l b" "str_len s \<le> 128"
  shows "chunk_point_utf16_to_offset (canon s) (Point16 r col) = Some (str_len a + str_len (utf16_prefix l col))"
proof (cases "utf16 l < col")
  case True
  then show ?thesis using row_line[OF assms]
    by (simp add: chunk_point_utf16_to_offset_def chunk_last_line_len_utf16_ok utf16_prefix_all)
next
  case False
  have "utf16_prefix l 0 = []" by (cases l) (auto simp: len_utf16_def)
  moreover have "s = a @ l @ b" using assms(1) by (simp add: row_at_def)
  ultimately show ?thesis using False row_line[OF assms] chunk_offset_utf16_floor[of col l s a b]
    by (auto simp: chunk_point_utf16_to_offset_def chunk_last_line_len_utf16_ok)
qed

lemma chunk_unclipped_row:
  assumes "row_at s r a l b" "str_len s \<le> 128"
  shows "chunk_unclipped_point_utf16_to_point (canon s) (Unclipped (Point16 r col)) =
    Some (Point r (str_len (utf16_prefix l col)))"
proof -
  have z: "utf16_prefix l 0 = []" by (cases l) (auto simp: len_utf16_def)
  have m: "Option.bind x (\<lambda>c. Some (Point r c)) = map_option (Point r) x" for x by (cases x) simp_all
  have "chunk_unclipped_point_utf16_to_point (canon s) (Unclipped (Point16 r col)) =
      (if col = 0 then Some (Point r 0) else if utf16 l \<le> col then Some (Point r (str_len l))
       else map_option (Point r) (move_until (str_is_char_boundary l) Left (chunk_offset_utf16_to_offset (canon l) col)))"
    using row_line[OF assms]
    by (simp add: chunk_unclipped_point_utf16_to_point_def chunk_len_utf16_ok chunk_len_def Let_def m)
  then show ?thesis using z row_line(4)[OF assms] chunk_offset_utf16_floor[of col l l "[]" "[]"]
    by (simp add: utf16_prefix_all)
qed

text \<open>Clipping a UTF-16 offset to a character: down to the prefix, or up past the surrogate pair.\<close>

definition utf16_clip :: "str \<Rightarrow> nat \<Rightarrow> bias \<Rightarrow> nat" where
  "utf16_clip s t b =
     (let p = utf16_prefix s t in
      if b = Left \<or> utf16 s \<le> t \<or> utf16 p = t then utf16 p else utf16 p + 2)"

lemma chunk_clip_offset_utf16_ok:
  assumes "str_len s \<le> 128"
  shows "chunk_clip_offset_utf16 (canon s) t b = Some (utf16_clip s t b)"
proof (cases "t \<le> utf16 s")
  case True
  then show ?thesis
  proof (cases rule: utf16_cases)
    case (at p q)
    then show ?thesis using chunk_clip_offset_utf16_at[of p q b] assms by (simp add: utf16_clip_def utf16_prefix_at)
  next
    case (inside p c q)
    have "utf16_prefix s t = p" using utf16_prefix_inside[OF inside(3)] inside(1,2) by simp
    moreover have "\<not> utf16 s \<le> t" using inside by simp
    moreover have "chunk_clip_offset_utf16 (canon s) t b = Some (case b of Left \<Rightarrow> utf16 p | Right \<Rightarrow> utf16 p + 2)"
      using chunk_clip_offset_utf16_inside[of p c q b] assms inside by simp
    ultimately show ?thesis using inside(2) by (cases b) (simp_all add: utf16_clip_def)
  qed
next
  case False
  then show ?thesis
    by (simp add: chunk_clip_offset_utf16_def chunk_len_utf16_ok assms utf16_clip_def utf16_prefix_all)
qed

lemma chunk_clip_point_utf16_row:
  assumes "row_at s r a l b" "str_len s \<le> 128"
  shows "chunk_clip_point_utf16 (canon s) (Unclipped (Point16 r col)) bias = Some (Point16 r (utf16_clip l col bias))"
  using row_line[OF assms] by (simp add: chunk_clip_point_utf16_def Let_def chunk_clip_offset_utf16_ok)

section \<open>Clipping points to graphemes\<close>

text \<open>What is relied on of the grapheme boundaries of a line, a text without newlines: both ends are boundaries,
  and so is the place between two ASCII characters (only the place between a carriage return and a newline is
  not one, and a line holds no newline).\<close>

definition graphemes_ok :: "(str \<Rightarrow> nat \<Rightarrow> bool) \<Rightarrow> str \<Rightarrow> bool" where
  "graphemes_ok g l \<longleftrightarrow> g l 0 \<and> g l (str_len l) \<and>
     (\<forall>i. 0 < i \<and> i < str_len l \<and> as_bytes l ! (i - 1) < 128 \<and> as_bytes l ! i < 128 \<longrightarrow> g l i)"

definition clip_stop :: "(str \<Rightarrow> nat \<Rightarrow> bool) \<Rightarrow> str \<Rightarrow> nat \<Rightarrow> bool" where
  "clip_stop g l i \<longleftrightarrow> str_is_char_boundary l i \<and> g l i"

definition clipped_to :: "(nat \<Rightarrow> bool) \<Rightarrow> bias \<Rightarrow> nat \<Rightarrow> nat \<Rightarrow> bool" where
  "clipped_to stop b i c \<longleftrightarrow> stop c \<and>
     (case b of Left \<Rightarrow> c \<le> i \<and> (\<forall>x. stop x \<and> x \<le> i \<longrightarrow> x \<le> c)
      | Right \<Rightarrow> i \<le> c \<and> (\<forall>x. stop x \<and> i \<le> x \<longrightarrow> c \<le> x))"

lemma clipped_here: "stop i \<Longrightarrow> clipped_to stop b i i"
  by (cases b) (simp_all add: clipped_to_def)

lemma move_until_clipped:
  assumes "stop 0" "stop n" "i \<le> n"
  shows "\<exists>c. move_until stop b i = Some c \<and> clipped_to stop b i c"
proof (cases b)
  case Left
  define c where "c = Max {x. stop x \<and> x \<le> i}"
  have fin: "finite {x. stop x \<and> x \<le> i}" by (rule finite_subset[of _ "{..i}"]) auto
  have "c \<in> {x. stop x \<and> x \<le> i}" unfolding c_def by (rule Max_in[OF fin]) (use assms(1) in auto)
  moreover have "\<forall>x. stop x \<and> x \<le> i \<longrightarrow> x \<le> c" unfolding c_def using Max_ge[OF fin] by simp
  ultimately show ?thesis unfolding Left clipped_to_def
    by (intro exI[of _ c] conjI move_left) (auto simp: not_le)
next
  case Right
  define c where "c = (LEAST x. stop x \<and> i \<le> x)"
  have c: "stop c" "i \<le> c" using LeastI[of "\<lambda>x. stop x \<and> i \<le> x" n] assms(2,3) unfolding c_def by auto
  have "\<forall>x. stop x \<and> i \<le> x \<longrightarrow> c \<le> x" unfolding c_def by (auto intro: Least_le)
  then show ?thesis unfolding Right clipped_to_def using c
    by (intro exI[of _ c] conjI move_right) (auto simp: not_le)
qed

lemma chunk_clip_point_line:
  assumes "row_at s r a l b" "str_len s \<le> 128"
  shows "chunk_clip_point g (canon s) (Point r col) bias =
      (if col = 0 then Some (Point r 0) else if str_len l \<le> col then Some (Point r (str_len l))
       else if as_bytes l ! (col - 1) < 128 \<and> as_bytes l ! col < 128 then Some (Point r col)
       else map_option (Point r) (move_until (clip_stop g l) bias col))"
proof -
  have m: "Option.bind x (\<lambda>c. Some (Point r c)) = map_option (Point r) x" for x by (cases x) simp_all
  have "(\<lambda>c. chunk_is_char_boundary (canon l) c \<and> g l c) = clip_stop g l"
    using row_line(4)[OF assms] by (auto simp: clip_stop_def chunk_is_char_boundary_ok)
  then show ?thesis using row_line[OF assms] by (simp add: chunk_clip_point_def Let_def m chunk_len_def)
qed

lemma chunk_clip_point_row:
  assumes "row_at s r a l b" "str_len s \<le> 128" "graphemes_ok g l" "list_all is_scalar l"
  shows "\<exists>c. chunk_clip_point g (canon s) (Point r col) bias = Some (Point r c) \<and>
    clipped_to (clip_stop g l) bias (min col (str_len l)) c"
proof -
  have stop0: "clip_stop g l 0" "clip_stop g l (str_len l)" using assms(3) by (simp_all add: clip_stop_def graphemes_ok_def)
  note line = chunk_clip_point_line[OF assms(1,2), of g col bias]
  consider (zero) "col = 0" | (beyond) "0 < col" "str_len l \<le> col" | (ascii) "0 < col" "col < str_len l"
      "as_bytes l ! (col - 1) < 128 \<and> as_bytes l ! col < 128"
    | (loop) "0 < col" "col < str_len l" "\<not> (as_bytes l ! (col - 1) < 128 \<and> as_bytes l ! col < 128)" by linarith
  then show ?thesis
  proof cases
    case zero
    then show ?thesis using line clipped_here[of "clip_stop g l" 0] stop0 by simp
  next
    case beyond
    then show ?thesis using line clipped_here[of "clip_stop g l" "str_len l"] stop0 by simp
  next
    case ascii
    have "is_utf8_char_boundary (as_bytes l ! col)" using ascii(3) by (simp add: is_utf8_char_boundary_def)
    then have "flags cflags l ! col" using bytes_flags(1)[OF assms(4)] ascii(2) by (metis length_as_bytes nth_map)
    then have "clip_stop g l col"
      using ascii assms(3) cflags_nth[of col l] by (auto simp: clip_stop_def graphemes_ok_def)
    then show ?thesis using line ascii clipped_here[of "clip_stop g l" col] by simp
  next
    case loop
    obtain c where "move_until (clip_stop g l) bias col = Some c" "clipped_to (clip_stop g l) bias col c"
      using move_until_clipped[of "clip_stop g l" "str_len l" col bias] stop0 loop(2) by auto
    then show ?thesis using line loop by auto
  qed
qed

section \<open>Tabs\<close>

text \<open>The iterator that has passed the prefix \<open>p\<close> of \<open>p @ q\<close>.\<close>

definition tabs_after :: "str \<Rightarrow> str \<Rightarrow> tabs_iter" where
  "tabs_after p q = \<lparr>ti_tabs = bits (replicate (str_len p) False @ flags (eflags TAB) q),
     ti_chars = bits (flags cflags (p @ q))\<rparr>"

lemma tflags_none: "TAB \<notin> set q \<Longrightarrow> flags (eflags TAB) q = replicate (str_len q) False"
proof (induction q)
  case (Cons c q)
  then show ?case by (cases "len_utf8 c") (auto simp: eflags_def replicate_add)
qed simp

lemma tabs_next_none:
  assumes "TAB \<notin> set q" "str_len (p @ q) \<le> 128" shows "fst (tabs_next (tabs_after p q)) = None"
  using assms by (simp add: tabs_next_def tabs_after_def tflags_none bits_0_iff)

lemma tabs_next_some:
  assumes "TAB \<notin> set u" "str_len (p @ u @ TAB # v) \<le> 128"
  shows "tabs_next (tabs_after p (u @ TAB # v)) =
    (Some \<lparr>tp_byte_offset = str_len (p @ u), tp_char_offset = length (p @ u)\<rparr>, tabs_after (p @ u @ [TAB]) v)"
proof -
  let ?n = "str_len p + str_len u"
  let ?f = "replicate ?n False @ True # flags (eflags TAB) v"
  have tab: "eflags TAB TAB = [True]" "len_utf8 TAB = 1" by (simp_all add: eflags_def len_utf8_def)
  have f: "replicate (str_len p) False @ flags (eflags TAB) (u @ TAB # v) = ?f"
    by (simp add: tflags_none[OF assms(1)] tab replicate_add)
  have len: "length ?f \<le> 128" using assms(2) by (simp add: length_flags tab)
  then have n: "?n < 128" by simp
  have tz: "trailing_zeros (bits ?f) = ?n" by (simp add: trailing_zeros_bits[OF len] takeWhile_zeros)
  have ne: "bits ?f \<noteq> 0" by (simp add: bits_0_iff[OF len])
  have x: "bits ?f XOR shl 1 ?n = bits (replicate (Suc ?n) False @ flags (eflags TAB) v)"
  proof (rule bit_eqI)
    fix i
    have "bit (shl 1 ?n) i \<longleftrightarrow> i = ?n" using n bit_shl[OF n, of 1 i] by (auto simp: bit_1_iff)
    then show "bit (bits ?f XOR shl 1 ?n) i = bit (bits (replicate (Suc ?n) False @ flags (eflags TAB) v)) i"
      using len n by (auto simp: bit_xor_iff bit_bits nth_append nth_Cons' simp del: replicate_Suc)
  qed
  have c: "count_ones (bits (flags cflags (p @ u @ TAB # v)) AND (shl 1 ?n - 1)) = length (p @ u)"
  proof -
    have "take ?n (flags cflags (p @ u @ TAB # v)) = flags cflags (p @ u)"
      using take_flags(1)[of "p @ u" "TAB # v"] by simp
    then show ?thesis using n assms(2)
      by (simp add: shl_mask bits_take count_ones_bits length_flags cnt_cflags del: flags_simps)
  qed
  show ?thesis using ne tz x c
    unfolding tabs_next_def tabs_after_def f by (simp add: Let_def tab)
qed

section \<open>Properties\<close>

lemma row_of_prefix:
  assumes "s = p @ q"
  obtains r a l1 l2 b where "row_at s r a (l1 @ l2) b" "p = a @ l1" "point_parse_str p = Point r (str_len l1)"
    "lines_utf16 (text_of p) = Point16 r (utf16 l1)"
proof -
  have "str_len p \<le> str_len s" by (simp add: assms)
  then obtain r a l b col where r: "row_at s r a l b" "str_len p = str_len a + col" "col \<le> str_len l"
    using offset_in_row by blast
  obtain l1 l2 where l: "p = a @ l1" "l = l1 @ l2" "str_len l1 = col"
    using row_at_prefix[OF r(1) r(2)[symmetric] r(3) assms] by blast
  have pt: "point_parse_str p = Point r (str_len l1)" using row_prefix_point[OF r(1) l(2)] l(1) by simp
  have "row_at p r a l1 []" using r(1) l(2) unfolding row_at_def l(1) by auto
  then have "split_nl p ! r = l1" "r < length (split_nl p)" using row_at_start by blast+
  moreover have "length (split_nl p) - 1 = r" using pt by (simp add: point_parse_str_eq)
  ultimately have "last (split_nl p) = l1" by (simp add: last_conv_nth)
  then have "lines_utf16 (text_of p) = Point16 r (utf16 l1)" using pt by (simp add: lines_utf16_def text_of_fields)
  then show ?thesis using that r(1) l pt by blast
qed

text \<open>The positions of a prefix.\<close>

lemma chunk_prefix_positions:
  assumes "chunk_ok k" "ck_text k = p @ q"
  shows "chunk_offset_to_point k (str_len p) = point_parse_str p \<and>
    chunk_point_to_offset k (point_parse_str p) = str_len p \<and>
    chunk_offset_to_offset_utf16 k (str_len p) = sum_list (map len_utf16 p) \<and>
    chunk_offset_utf16_to_offset k (sum_list (map len_utf16 p)) = str_len p \<and>
    chunk_offset_to_point_utf16 k (str_len p) = lines_utf16 (text_of p) \<and>
    chunk_point_utf16_to_offset k (lines_utf16 (text_of p)) = Some (str_len p) \<and>
    chunk_unclipped_point_utf16_to_point k (Unclipped (lines_utf16 (text_of p))) = Some (point_parse_str p)"
proof -
  have k: "k = canon (p @ q)" "str_len (p @ q) \<le> 128" using assms by (simp_all add: chunk_ok_def)
  obtain r a l1 l2 b where r: "row_at (p @ q) r a (l1 @ l2) b" "p = a @ l1" "point_parse_str p = Point r (str_len l1)"
    "lines_utf16 (text_of p) = Point16 r (utf16 l1)" using row_of_prefix[OF refl] by blast
  have len: "str_len p = str_len a + str_len l1" by (simp add: r(2))
  show ?thesis
    unfolding k(1) r(3,4)
    using chunk_offset_to_point_prefix[OF k(2)] chunk_point_to_offset_row[OF r(1) k(2), of "str_len l1"]
      chunk_offset_to_offset_utf16_prefix[OF k(2)] chunk_offset_utf16_prefix[OF k(2)]
      chunk_offset_to_point_utf16_row[OF r(1) k(2)] chunk_point_utf16_to_offset_row[OF r(1) k(2), of "utf16 l1"]
      chunk_unclipped_row[OF r(1) k(2), of "utf16 l1"] utf16_prefix_at[of l1 l2] r(3) len
    by simp
qed

text \<open>C28: The positions of a chunk. At every character boundary of the text, the point, the UTF-16 offset
  and the UTF-16 point are the length of the text before it in the respective unit, and every
  conversion back gives the boundary again.\<close>

theorem chunk_positions_correct:
  assumes "chunk_ok k" "ck_text k = p @ q"
  shows "chunk_offset_to_point k (str_len p) = point_parse_str p \<and>
    chunk_point_to_offset k (point_parse_str p) = str_len p \<and>
    chunk_offset_to_offset_utf16 k (str_len p) = sum_list (map len_utf16 p) \<and>
    chunk_offset_utf16_to_offset k (sum_list (map len_utf16 p)) = str_len p \<and>
    chunk_offset_to_point_utf16 k (str_len p) = lines_utf16 (text_of p) \<and>
    chunk_point_utf16_to_offset k (lines_utf16 (text_of p)) = Some (str_len p) \<and>
    chunk_unclipped_point_utf16_to_point k (Unclipped (lines_utf16 (text_of p))) = Some (point_parse_str p)"
  by (rule chunk_prefix_positions[OF assms])

theorem chunk_positions_correct_witness:
  "chunk_offset_to_point_utf16 (canon [10, 0x1F600, 97]) 5 = Point16 1 2 \<and>
   chunk_point_utf16_to_offset (canon [10, 0x1F600, 97]) (Point16 1 2) = Some 5"
proof -
  have "lines_utf16 (text_of [10, 0x1F600]) = Point16 1 2"
    by (simp add: lines_utf16_def text_of_fields point_parse_str_eq len_utf16_def)
  then show ?thesis
    using chunk_positions_correct[of "canon [10, 0x1F600, 97]" "[10, 0x1F600]" "[97]"] by (simp add: len_utf8_def)
qed

text \<open>Positions that are not boundaries. A byte offset anywhere in the text survives the way through
  its point; a point beyond the end of its row or of the text is cut to the end; a UTF-16 column
  inside a surrogate pair goes down to the character before, and clipping moves it to the side of the bias.\<close>

theorem chunk_positions_clamped:
  assumes "chunk_ok k" "i \<le> str_len (ck_text k)"
  shows "chunk_point_to_offset k (chunk_offset_to_point k i) = i \<and>
    (let ls = split_nl (ck_text k) in
     if r < length ls then
       chunk_point_to_offset k (Point r col) = row_start (ck_text k) r + min col (str_len (ls ! r)) \<and>
       chunk_point_utf16_to_offset k (Point16 r col) = Some (row_start (ck_text k) r + str_len (utf16_prefix (ls ! r) col)) \<and>
       chunk_clip_point_utf16 k (Unclipped (Point16 r col)) bias = Some (Point16 r (utf16_clip (ls ! r) col bias))
     else chunk_point_to_offset k (Point r col) = str_len (ck_text k) \<and>
       chunk_point_utf16_to_offset k (Point16 r col) = Some (str_len (ck_text k)) \<and>
       chunk_clip_point_utf16 k (Unclipped (Point16 r col)) bias = Some (lines_utf16 (text_of (ck_text k)))) \<and>
    chunk_clip_offset_utf16 k t bias = Some (utf16_clip (ck_text k) t bias)"
proof -
  obtain s where s: "k = canon s" "str_len s \<le> 128" using assms(1) by (rule chunk_okE)
  have i: "chunk_point_to_offset (canon s) (chunk_offset_to_point (canon s) i) = i"
  proof -
    obtain q a l b c where q: "row_at s q a l b" "i = str_len a + c" "c \<le> str_len l"
      using offset_in_row[of i s] assms(2) s(1) by auto
    show ?thesis unfolding q(2) chunk_offset_to_point_row[OF q(1,3) s(2)] chunk_point_to_offset_row[OF q(1) s(2)]
      using q(3) by simp
  qed
  show ?thesis
  proof (cases "r < length (split_nl s)")
    case True
    then obtain a b where r: "row_at s r a (split_nl s ! r) b" using row_at_exists by blast
    have "row_start s r = str_len a" using row_at_start[OF r] by blast
    then show ?thesis using True i s chunk_point_to_offset_row[OF r s(2), of col]
        chunk_point_utf16_to_offset_row[OF r s(2), of col] chunk_clip_point_utf16_row[OF r s(2), of col bias]
      by (simp add: Let_def chunk_clip_offset_utf16_ok)
  next
    case False
    have "0 < length (split_nl s)" by simp
    then have "length (split_nl s) - 1 < r" using False by linarith
    then show ?thesis using False i s
      by (simp add: Let_def chunk_clip_offset_utf16_ok chunk_point_to_offset_beyond chunk_point_utf16_to_offset_def
          chunk_clip_point_utf16_def chunk_lines_ok point_parse_str_eq chunk_len_def chunk_last_line_len_utf16_ok
          lines_utf16_def text_of_fields)
  qed
qed

theorem chunk_positions_clamped_witness:
  "chunk_point_to_offset (canon [97, 10]) (Point 0 9) = 1 \<and>
   chunk_point_utf16_to_offset (canon [97, 10]) (Point16 0 9) = Some 1"
proof -
  have "utf16_prefix [97] 9 = [97]" by (rule utf16_prefix_all) (simp add: len_utf16_def)
  then show ?thesis
    using chunk_positions_clamped[of "canon [97, 10]" 0 0 9] by (simp add: Let_def len_utf8_def row_start_def)
qed

text \<open>C29: Clipping a point ends, in the row of the point, at the nearest place in the direction of the bias
  that is a character boundary and a grapheme boundary; the loop ends because both ends of a line are
  such places.\<close>

theorem chunk_clip_point_correct:
  assumes "chunk_ok k" "r < length (split_nl (ck_text k))" "l = split_nl (ck_text k) ! r"
    and "graphemes_ok g l" "list_all is_scalar l"
  shows "\<exists>c. chunk_clip_point g k (Point r col) bias = Some (Point r c) \<and> str_is_char_boundary l c \<and> g l c \<and>
    (case bias of
       Left \<Rightarrow> c \<le> col \<and> (\<forall>x. str_is_char_boundary l x \<and> g l x \<and> x \<le> col \<longrightarrow> x \<le> c)
     | Right \<Rightarrow> min col (str_len l) \<le> c \<and> (\<forall>x. str_is_char_boundary l x \<and> g l x \<and> col \<le> x \<longrightarrow> c \<le> x))"
proof -
  obtain s where s: "k = canon s" "str_len s \<le> 128" using assms(1) by (rule chunk_okE)
  have "\<exists>a b. row_at s r a l b" using row_at_exists[of r s] assms(2,3) s(1) by simp
  then obtain a b where "row_at s r a l b" by blast
  then obtain c where c: "chunk_clip_point g k (Point r col) bias = Some (Point r c)"
      "clipped_to (clip_stop g l) bias (min col (str_len l)) c"
    using chunk_clip_point_row[OF _ s(2) assms(4,5)] s(1) by blast
  then show ?thesis using boundary_le[of l]
    by (cases bias) (fastforce simp: clipped_to_def clip_stop_def)+
qed

text \<open>A line with a combining accent: the accent belongs to the letter before it.\<close>

theorem chunk_clip_point_correct_witness:
  "\<exists>c. chunk_clip_point (\<lambda>l i. i \<noteq> 1) (canon [101, 0x301]) (Point 0 1) Left = Some (Point 0 c) \<and> c \<le> 1 \<and> c \<noteq> 1"
proof -
  have "i = 1 \<or> i = 2" if "0 < i" "i < 3" for i :: nat using that by linarith
  then have "graphemes_ok (\<lambda>l i. i \<noteq> 1) [101, 0x301]"
    by (auto simp: graphemes_ok_def len_utf8_def as_bytes_def utf8_def)
  then show ?thesis
    using chunk_clip_point_correct[of "canon [101, 0x301]" 0 "[101, 0x301]" "\<lambda>l i. i \<noteq> 1" 1 Left]
    by (auto simp: len_utf8_def is_scalar_def)
qed

text \<open>The iterator over the tabs of a chunk yields every tab in order, with its byte offset and the number
  of characters before it, and ends after the last one.\<close>

theorem tabs_iteration:
  assumes "chunk_ok k" "ck_text k = p @ q"
  shows "chunk_tabs_iter k = tabs_after [] (ck_text k) \<and>
    (TAB \<notin> set q \<longrightarrow> fst (tabs_next (tabs_after p q)) = None) \<and>
    (\<forall>u v. q = u @ TAB # v \<and> TAB \<notin> set u \<longrightarrow>
       tabs_next (tabs_after p q) =
         (Some \<lparr>tp_byte_offset = str_len (p @ u), tp_char_offset = length (p @ u)\<rparr>, tabs_after (p @ u @ [TAB]) v))"
proof -
  obtain s where s: "k = canon s" "str_len s \<le> 128" using assms(1) by (rule chunk_okE)
  then have pq: "s = p @ q" "str_len (p @ q) \<le> 128" using assms(2) by simp_all
  have "chunk_tabs_iter k = tabs_after [] (ck_text k)"
    by (simp add: s(1) chunk_tabs_iter_def tabs_after_def canon_simps)
  then show ?thesis using tabs_next_none[of q p] tabs_next_some[of _ p] pq(2) by auto
qed

theorem tabs_iteration_witness:
  "fst (tabs_next (chunk_tabs_iter (canon [0xE9, 9, 97]))) = Some \<lparr>tp_byte_offset = 2, tp_char_offset = 1\<rparr>"
proof -
  have "chunk_ok (canon [0xE9, 9, 97])" by (simp add: len_utf8_def)
  then have t: "chunk_tabs_iter (canon [0xE9, 9, 97]) = tabs_after [] [0xE9, 9, 97] \<and>
    (TAB \<notin> set [0xE9, 9, 97] \<longrightarrow> fst (tabs_next (tabs_after [] [0xE9, 9, 97])) = None) \<and>
    (\<forall>u v. [0xE9, 9, 97] = u @ TAB # v \<and> TAB \<notin> set u \<longrightarrow>
       tabs_next (tabs_after [] [0xE9, 9, 97]) =
         (Some \<lparr>tp_byte_offset = str_len ([] @ u), tp_char_offset = length ([] @ u)\<rparr>, tabs_after ([] @ u @ [TAB]) v))"
    using tabs_iteration[of "canon [0xE9, 9, 97]" "[]" "[0xE9, 9, 97]"] by simp
  have "chunk_tabs_iter (canon [0xE9, 9, 97]) = tabs_after [] [0xE9, 9, 97]" using t by simp
  moreover have "tabs_next (tabs_after [] [0xE9, 9, 97]) =
      (Some \<lparr>tp_byte_offset = str_len ([] @ [0xE9]), tp_char_offset = length ([] @ [0xE9 :: nat])\<rparr>,
       tabs_after ([] @ [0xE9] @ [TAB]) [97])"
    using t[THEN conjunct2, THEN conjunct2, THEN spec, THEN spec, THEN mp, of "[0xE9]" "[97]"] by simp
  ultimately show ?thesis by (simp add: len_utf8_def)
qed

end
