(* ===== verification/RopeProps.thy ===== *)
theory RopeProps
  imports Rope ChunkPosProps CursorBack
begin

text \<open>
  Editing a rope: every operation keeps the invariant (a well-formed tree of non-empty chunks
  with correct bitmaps) and does to the text what its name says. The summaries of chunks
  satisfy the contracts of the sum tree, so that the tree and cursor lemmas apply.
\<close>

section \<open>The contracts of the sum tree\<close>

definition chunks_ok :: "chunk list \<Rightarrow> bool" where
  "chunks_ok ks \<longleftrightarrow> list_all chunk_ok ks"

definition chunks_text :: "chunk list \<Rightarrow> str" where
  "chunks_text ks = concat (map ck_text ks)"

lemma chunks_text_simps [simp]:
  "chunks_text [] = []" "chunks_text (k # ks) = ck_text k @ chunks_text ks"
  "chunks_text (xs @ ys) = chunks_text xs @ chunks_text ys"
  by (simp_all add: chunks_text_def)

lemma chunks_ok_simps [simp]:
  "chunks_ok []" "chunks_ok (k # ks) \<longleftrightarrow> chunk_ok k \<and> chunks_ok ks" "chunks_ok (xs @ ys) \<longleftrightarrow> chunks_ok xs \<and> chunks_ok ys"
  by (simp_all add: chunks_ok_def)

lemma chunk_ok_summary: "chunk_ok k \<Longrightarrow> chunk_text_summary k = text_of (ck_text k)"
  by (erule chunk_okE) (simp add: chunk_text_summary_ok)

lemma text_zero_add: "text_add text_zero (text_of s) = text_of s"
  using text_of_append[of "[]" s] by simp

lemma sumof_text: "chunks_ok ks \<Longrightarrow> sumof chunk_sum ks = text_of (chunks_text ks)"
proof (induction ks rule: rev_induct)
  case Nil
  show ?case by (simp add: sumof_def sums_def chunk_sum_def)
next
  case (snoc k ks)
  then have "sumof chunk_sum (ks @ [k]) = text_add (text_of (chunks_text ks)) (text_of (ck_text k))"
    by (simp add: sumof_def sums_def chunk_sum_def chunk_ok_summary)
  then show ?case by (simp add: text_of_append)
qed

interpretation rope_laws: summary_laws chunk_sum chunks_ok
proof (unfold_locales, goal_cases)
  case (2 xs ys)
  then show ?case using sumof_text[of "xs @ ys"] sumof_text[of xs] sumof_text[of ys]
    by (simp add: text_of_append chunk_sum_def[unfolded])
next
  case (3 x)
  then show ?case by (simp add: chunk_sum_def chunk_ok_summary text_zero_add)
qed simp

text \<open>A dimension over texts: it measures a text and adds up along concatenations.\<close>

locale text_measure =
  fixes D :: "('d, text_summary) dim_ops" and measure :: "str \<Rightarrow> 'd"
  assumes measure_zero: "dm_zero D = measure []"
    and measure_add: "dm_add D (measure s) (text_of t) = measure (s @ t)"

context text_measure
begin

lemma dpos_measure: "chunks_ok ks \<Longrightarrow> dpos D chunk_sum ks = measure (chunks_text ks)"
  using measure_add[of "[]" "chunks_text ks"] by (simp add: dpos_def sumof_text measure_zero)

lemma measure_seek_laws: "seek_laws chunk_sum chunks_ok D"
proof (unfold_locales, goal_cases)
  case (1 xs ys)
  then show ?case by (simp add: dpos_measure sumof_text measure_add)
next
  case 2
  then show ?case using measure_add[of "[]" "[]"] by (simp add: chunk_sum_def measure_zero)
qed

lemmas measure_dim_laws = seek_laws.axioms(1)[OF measure_seek_laws]

end

interpretation bytes: text_measure bytes_dim str_len
  by unfold_locales (simp_all add: bytes_dim_def text_of_fields)

interpretation utf16_units: text_measure utf16_dim "\<lambda>s. Offset16 (utf16 s)"
  by unfold_locales (simp_all add: utf16_dim_def text_of_fields offset16_add_def)

interpretation points: text_measure point_dim point_parse_str
proof (unfold_locales, goal_cases)
  case 1
  show ?case by (simp add: point_dim_def point_parse_str_eq point_zero_def)
next
  case (2 s t)
  show ?case using arg_cong[OF text_of_append[of s t], of ts_lines]
    by (simp add: point_dim_def text_of_fields text_add_fields)
qed

interpretation points16: text_measure point16_dim "\<lambda>s. lines_utf16 (text_of s)"
proof (unfold_locales, goal_cases)
  case 1
  show ?case by (simp add: point16_dim_def point16_zero_def lines_utf16_def text_zero_def point_zero_def)
next
  case (2 s t)
  show ?case using lines_utf16_add[OF text_of_ok text_of_ok, of s t] by (simp add: point16_dim_def text_of_append)
qed

interpretation texts: text_measure text_dim text_of
  by unfold_locales (simp_all add: text_dim_def text_of_append)

text \<open>Pairs of dimensions measure both.\<close>

lemma pair_measure:
  "text_measure D f \<Longrightarrow> text_measure E g \<Longrightarrow> text_measure (pair_dim D E) (\<lambda>s. (f s, g s))"
  by (simp add: text_measure_def pair_dim_def)

interpretation bytes_seek: seek_laws chunk_sum chunks_ok bytes_dim
  by (rule bytes.measure_seek_laws)

interpretation text_sums: summarizing chunk_sum chunks_ok bytes_dim text_dim
  using bytes.measure_dim_laws texts.measure_dim_laws by (rule summarizing.intro)

section \<open>The invariant of a rope\<close>

definition rope_ok :: "rope \<Rightarrow> bool" where
  "rope_ok r \<longleftrightarrow> wf_tree chunk_sum r \<and> (\<forall>k \<in> set (tree_items r). chunk_ok k \<and> ck_text k \<noteq> [])"

definition rope_text :: "rope \<Rightarrow> str" where
  "rope_text r = chunks_text (tree_items r)"

lemma rope_okD: "rope_ok r \<Longrightarrow> wf_tree chunk_sum r" "rope_ok r \<Longrightarrow> chunks_ok (tree_items r)"
  by (auto simp: rope_ok_def chunks_ok_def list_all_iff)

lemma rope_new_ok [simp]: "rope_ok rope_new" "rope_text rope_new = []"
  by (simp_all add: rope_ok_def rope_text_def rope_new_def)

lemma rope_text_empty: "rope_ok r \<Longrightarrow> rope_text r = [] \<longleftrightarrow> tree_items r = []"
  by (cases "tree_items r") (auto simp: rope_ok_def rope_text_def)

lemma rope_extent: "text_measure D f \<Longrightarrow> rope_ok r \<Longrightarrow> extent D r = f (rope_text r)"
  using seek_laws.extent_ok[OF text_measure.measure_seek_laws, of D f r] text_measure.dpos_measure[of D f "tree_items r"]
    rope_okD[of r] by (simp add: rope_text_def)

lemma rope_len_ok: "rope_ok r \<Longrightarrow> rope_len r = str_len (rope_text r)"
  unfolding rope_len_def by (rule rope_extent[OF bytes.text_measure_axioms])

lemma rope_summary_ok: "rope_ok r \<Longrightarrow> rope_summary r = text_of (rope_text r)"
  using wf_tree_summary[OF rope_okD(1), of r] sumof_text[OF rope_okD(2), of r]
  by (simp add: rope_summary_def rope_text_def)

section \<open>Pushing text\<close>

lemma inside_char:
  assumes "i \<le> str_len s" "\<not> str_is_char_boundary s i"
  obtains p c q where "s = p @ c # q" "str_len p < i" "i < str_len p + len_utf8 c"
proof -
  let ?f = "str_floor_char_boundary s i"
  obtain p u where u: "s = p @ u" "?f = str_len p" using floor_boundary(1)[of s i] by (auto simp: str_boundary_iff)
  have f: "?f \<le> i" "?f \<noteq> i" using floor_boundary(1,2)[of s i] assms(2) by metis+
  then obtain c q where cq: "u = c # q" using u assms(1) by (cases u) auto
  have "i < str_len p + len_utf8 c"
  proof (rule ccontr)
    assume "\<not> i < str_len p + len_utf8 c"
    then have "str_len p + len_utf8 c \<le> ?f"
      using floor_boundary(3)[of s "str_len p + len_utf8 c" i] boundary_prefix(2)[of p c q] u cq by simp
    then show False using u(2) len_utf8_pos(1)[of c] by linarith
  qed
  then show ?thesis using that u cq f by simp
qed

lemma move_until_here: "stop i \<Longrightarrow> move_until stop b i = Some i"
  by (subst move_until.simps) simp

lemma move_until_boundary:
  assumes "i \<le> str_len s"
  shows "\<exists>j. move_until (str_is_char_boundary s) b i = Some j \<and> str_is_char_boundary s j \<and>
    (if b = Left then j \<le> i \<and> i < j + 4 else i \<le> j \<and> j < i + 4)"
proof (cases "str_is_char_boundary s i")
  case True
  then show ?thesis using move_until_here[of "str_is_char_boundary s" i b] by simp
next
  case False
  obtain p c q where s: "s = p @ c # q" "str_len p < i" "i < str_len p + len_utf8 c"
    using inside_char[OF assms False] by blast
  have four: "len_utf8 c \<le> 4" by simp
  have l: "move_until (str_is_char_boundary s) Left i = Some (str_len p)"
    unfolding s(1) using not_boundary_inside[of p _ c q] s(2,3) by (intro move_left) auto
  have r: "move_until (str_is_char_boundary s) Right i = Some (str_len p + len_utf8 c)"
    unfolding s(1) using boundary_prefix(2)[of p c q] not_boundary_inside[of p _ c q] s(2,3) by (intro move_right) auto
  have b: "str_is_char_boundary s (str_len p)" "str_is_char_boundary s (str_len p + len_utf8 c)"
    unfolding s(1) by (rule boundary_prefix)+
  have ar: "str_len p \<le> i" "i < str_len p + 4" "i \<le> str_len p + len_utf8 c" "str_len p + len_utf8 c < i + 4"
    using s(2,3) four by linarith+
  show ?thesis
  proof (cases b)
    case Left
    then show ?thesis using l b(1) ar by simp
  next
    case Right
    then show ?thesis using r b(2) ar by simp
  qed
qed

lemma boundary_split:
  assumes "str_is_char_boundary s j" obtains p q where "str_split_at s j = Some (p, q)" "s = p @ q" "str_len p = j"
  using assms by (metis str_boundary_iff str_split_at_append)

lemma split_chunks_ok:
  "\<exists>cs. split_chunks s = Some cs \<and> concat cs = s \<and> (\<forall>c \<in> set cs. c \<noteq> [] \<and> str_len c \<le> 128) \<and>
     (\<forall>n. str_len s \<le> n * 125 \<longrightarrow> length cs \<le> n)"
proof (induction s rule: length_induct)
  case (1 s)
  show ?case
  proof (cases "s = []")
    case True
    then show ?thesis by (subst split_chunks.simps) auto
  next
    case False
    have "min MAX_BASE (str_len s) \<le> str_len s" by simp
    then obtain j where j: "move_until (str_is_char_boundary s) Left (min MAX_BASE (str_len s)) = Some j"
      "str_is_char_boundary s j" "j \<le> min 128 (str_len s)" "min 128 (str_len s) < j + 4"
      using move_until_boundary[of "min MAX_BASE (str_len s)" s Left] by auto
    obtain p q where pq: "str_split_at s j = Some (p, q)" "s = p @ q" "str_len p = j" by (rule boundary_split[OF j(2)])
    have "p \<noteq> []"
    proof
      assume "p = []"
      then have "str_len s < 4" using j(4) pq(3) by simp
      then have "min MAX_BASE (str_len s) = str_len s" by simp
      then have "j = str_len s" using j(1) move_until_here[of "str_is_char_boundary s" "str_len s" Left] by simp
      then show False using \<open>p = []\<close> pq False by simp
    qed
    then have "length q < length s" using pq(2) by simp
    then obtain cs where cs: "split_chunks q = Some cs" "concat cs = q" "\<forall>c \<in> set cs. c \<noteq> [] \<and> str_len c \<le> 128"
      "\<forall>n. str_len q \<le> n * 125 \<longrightarrow> length cs \<le> n" using 1 by blast
    have "split_chunks s = Some (p # cs)" using False j(1) pq(1) cs(1) by (subst split_chunks.simps) simp
    moreover have "length (p # cs) \<le> n" if n: "str_len s \<le> n * 125" for n
    proof (cases n)
      case 0
      then show ?thesis using n False by simp
    next
      case (Suc m)
      have "str_len q \<le> m * 125"
      proof (cases "str_len s \<le> 128")
        case True
        then have "j = str_len s"
          using j(1) move_until_here[of "str_is_char_boundary s" "str_len s" Left] by (simp add: min_absorb2)
        then have "q = []" using pq by auto
        then show ?thesis by simp
      next
        case False
        then have "125 \<le> j" using j(4) by simp
        then show ?thesis using n Suc pq by simp
      qed
      then show ?thesis using cs(4) Suc by simp
    qed
    ultimately show ?thesis using cs(2,3) pq j(3) \<open>p \<noteq> []\<close> by (intro exI[of _ "p # cs"]) auto
  qed
qed


lemma chunks_new_ok:
  "\<forall>s \<in> set ss. str_len s \<le> 128 \<and> list_all is_scalar s \<Longrightarrow> chunks_new ss = Some (map canon ss)"
  by (induction ss) (simp_all add: chunk_new_ok)

lemma chunks_text_canon [simp]: "chunks_text (map canon ss) = concat ss"
  by (induction ss) simp_all

lemma rope_ok_items: "wf_tree chunk_sum r \<Longrightarrow> (\<forall>k \<in> set (tree_items r). chunk_ok k \<and> ck_text k \<noteq> []) \<Longrightarrow> rope_ok r"
  by (simp add: rope_ok_def)

lemma chunks_okI: "\<forall>k \<in> set ks. chunk_ok k \<and> ck_text k \<noteq> [] \<Longrightarrow> chunks_ok ks"
  by (auto simp: chunks_ok_def list_all_iff)

lemma rope_last_ok: "rope_ok r \<Longrightarrow> stree_last r = Some (last_opt (tree_items r))"
  by (rule stree_last_ok[of chunk_sum]) (rule rope_okD)

lemma rope_first_ok: "rope_ok r \<Longrightarrow> stree_first r = Some (first_opt (tree_items r))"
  by (rule stree_first_ok[of chunk_sum]) (rule rope_okD)

text \<open>Storing another chunk at the end or at the start.\<close>

lemma rope_update_last:
  assumes "rope_ok r" "tree_items r = ks @ [k]" "chunk_ok k'" "ck_text k' \<noteq> []"
  shows "\<exists>r'. stree_update_last chunk_sum (\<lambda>_. k') r = Some r' \<and> rope_ok r' \<and> tree_items r' = ks @ [k'] \<and>
     height r' = height r"
proof -
  have ks: "\<forall>k \<in> set ks. chunk_ok k \<and> ck_text k \<noteq> []" using assms(1,2) by (auto simp: rope_ok_def)
  have "chunks_ok (butlast (tree_items r) @ [k'])" using chunks_okI[OF ks] assms(2,3) by simp
  then obtain r' where "stree_update_last chunk_sum (\<lambda>_. k') r = Some r'" "wf_tree chunk_sum r'"
    "tree_items r' = ks @ [k']" "height r' = height r"
    using rope_laws.stree_update_last_ok[OF rope_okD(1)[OF assms(1)], of "\<lambda>_. k'"] assms(2) by auto
  then show ?thesis using ks assms(3,4) by (auto simp: rope_ok_def)
qed

lemma rope_update_first:
  assumes "rope_ok r" "tree_items r = k # ks" "chunk_ok k'" "ck_text k' \<noteq> []"
  shows "\<exists>r'. stree_update_first chunk_sum (\<lambda>_. k') r = Some r' \<and> rope_ok r' \<and> tree_items r' = k' # ks"
proof -
  have ks: "\<forall>k \<in> set ks. chunk_ok k \<and> ck_text k \<noteq> []" using assms(1,2) by (auto simp: rope_ok_def)
  have "chunks_ok (k' # tl (tree_items r))" using chunks_okI[OF ks] assms(2,3) by simp
  then obtain r' where "stree_update_first chunk_sum (\<lambda>_. k') r = Some r'" "wf_tree chunk_sum r'"
    "tree_items r' = k' # ks"
    using rope_laws.stree_update_first_ok[OF rope_okD(1)[OF assms(1)], of "\<lambda>_. k'"] assms(2) by auto
  then show ?thesis using ks assms(3,4) by (auto simp: rope_ok_def)
qed

lemma rope_extend_ok:
  assumes "rope_ok r" "\<forall>s \<in> set ss. s \<noteq> [] \<and> str_len s \<le> 128"
  shows "\<exists>r'. stree_extend chunk_sum r (map canon ss) = Some r' \<and> rope_ok r' \<and> rope_text r' = rope_text r @ concat ss"
proof -
  have ss: "\<forall>k \<in> set (map canon ss). chunk_ok k \<and> ck_text k \<noteq> []" using assms(2) by simp
  have "chunks_ok (tree_items r @ map canon ss)" using chunks_okI[OF ss] rope_okD(2)[OF assms(1)] by simp
  from rope_laws.stree_extend_ok[OF rope_okD(1)[OF assms(1)] this] obtain r' where
    "stree_extend chunk_sum r (map canon ss) = Some r'" "wf_tree chunk_sum r'" "tree_items r' = tree_items r @ map canon ss"
    by blast
  then show ?thesis using assms by (auto simp: rope_ok_def rope_text_def)
qed

text \<open>How much a chunk takes.\<close>

lemma push_split_ix_ok:
  assumes "str_len (ck_text c) \<le> 128"
  shows "\<exists>j. push_split_ix c s = Some j \<and> str_is_char_boundary s j \<and> str_len (ck_text c) + j \<le> 128"
proof (cases "str_len (ck_text c) + str_len s \<le> 128")
  case True
  then show ?thesis by (simp add: push_split_ix_def)
next
  case False
  have "min (MIN_BASE - str_len (ck_text c)) (str_len s) \<le> str_len s" by simp
  then obtain j where j: "move_until (str_is_char_boundary s) Right (min (MIN_BASE - str_len (ck_text c)) (str_len s)) = Some j"
    "str_is_char_boundary s j" "j < min (MIN_BASE - str_len (ck_text c)) (str_len s) + 4"
    using move_until_boundary[of "min (MIN_BASE - str_len (ck_text c)) (str_len s)" s Right] by auto
  have "str_len (ck_text c) + j \<le> 128"
  proof (cases "str_len (ck_text c) < 64")
    case True
    then show ?thesis using j(3) by simp
  next
    case False
    then have "j = 0" using j(1) move_until_here[of "str_is_char_boundary s" 0 Right] by simp
    then show ?thesis using assms by simp
  qed
  then show ?thesis using False j by (simp add: push_split_ix_def)
qed

lemma push_into_last_ok:
  assumes "rope_ok r" "list_all is_scalar s"
  shows "\<exists>r' t u. push_into_last r s = Some (r', u) \<and> rope_ok r' \<and> s = t @ u \<and> rope_text r' = rope_text r @ t"
proof (cases "tree_items r" rule: rev_cases)
  case Nil
  then show ?thesis using assms by (simp add: push_into_last_def rope_last_ok)
next
  case (snoc ks k)
  then have k: "chunk_ok k" "ck_text k \<noteq> []" using assms(1) by (auto simp: rope_ok_def)
  obtain a where a: "k = canon a" "str_len a \<le> 128" using k(1) by (rule chunk_okE)
  obtain j where j: "push_split_ix k s = Some j" "str_is_char_boundary s j" "str_len a + j \<le> 128"
    using push_split_ix_ok[of k s] a by auto
  obtain p q where pq: "str_split_at s j = Some (p, q)" "s = p @ q" "str_len p = j" by (rule boundary_split[OF j(2)])
  have push: "chunk_push_str k p = Some (canon (a @ p))"
    using assms(2) j(3) pq a by (simp add: chunk_push_str_def chunk_new_ok chunk_append_ok)
  obtain r' where r': "stree_update_last chunk_sum (\<lambda>_. canon (a @ p)) r = Some r'" "rope_ok r'"
    "tree_items r' = ks @ [canon (a @ p)]"
    using rope_update_last[OF assms(1) snoc, of "canon (a @ p)"] k(2) a j(3) pq(3) by auto
  have "push_into_last r s = Some (r', q)"
    using snoc j(1) pq(1) push r'(1) by (simp add: push_into_last_def rope_last_ok[OF assms(1)] last_opt_iff)
  then show ?thesis using r'(2,3) pq(2) snoc a by (intro exI[of _ r'] exI[of _ p] exI[of _ q]) (simp add: rope_text_def)
qed

lemma rope_push_ok:
  assumes "rope_ok r" "list_all is_scalar s"
  shows "\<exists>r'. rope_push r s = Some r' \<and> rope_ok r' \<and> rope_text r' = rope_text r @ s"
proof -
  obtain r1 t u where 1: "push_into_last r s = Some (r1, u)" "rope_ok r1" "s = t @ u" "rope_text r1 = rope_text r @ t"
    using push_into_last_ok[OF assms] by blast
  obtain cs where cs: "split_chunks u = Some cs" "concat cs = u" "\<forall>c \<in> set cs. c \<noteq> [] \<and> str_len c \<le> 128"
    "\<forall>n. str_len u \<le> n * 125 \<longrightarrow> length cs \<le> n" using split_chunks_ok[of u] by blast
  have scalars: "\<forall>c \<in> set cs. str_len c \<le> 128 \<and> list_all is_scalar c"
    using cs(2,3) assms(2) 1(3) by (auto simp: list_all_iff)
  have new: "chunks_new cs = Some (map canon cs)" by (rule chunks_new_ok[OF scalars])
  obtain r2 where r2: "stree_extend chunk_sum r1 (map canon cs) = Some r2" "rope_ok r2" "rope_text r2 = rope_text r1 @ u"
    using rope_extend_ok[OF 1(2) cs(3)] cs(2) by auto
  have "chunks_ok (map canon cs)" using cs(3) by (auto simp: chunks_ok_def list_all_iff)
  then have par: "stree_par_extend chunk_sum r1 (map canon cs) = Some r2"
    using r2(1) rope_laws.stree_from_par_iter_eq[of "map canon cs"] by (simp add: stree_par_extend_def stree_extend_def)
  show ?thesis
  proof (cases "u = []")
    case True
    then show ?thesis using 1 by (simp add: rope_push_def)
  next
    case False
    have "length cs \<le> 4" if "\<not> str_len u > NUM_CHUNKS * MAX_BASE - NUM_CHUNKS * 4"
      using cs(4)[rule_format, of 4] that by (simp add: NUM_CHUNKS_def)
    then have "rope_push r s = Some r2"
      using False 1(1) cs(1) new r2(1) par
      by (simp add: rope_push_def rope_push_large_def assert_opt_def NUM_CHUNKS_def)
    then show ?thesis using r2 1(3,4) by simp
  qed
qed

end
