(* ===== verification/RopeEdit.thy ===== *)
theory RopeEdit
  imports RopeProps
begin

text \<open>
  Editing with chunks and ropes: appending, pushing to the front, cutting out slices and
  replacing ranges.
\<close>

section \<open>Pushing chunks\<close>

lemma height_rope_new [simp]: "height rope_new = 0"
  by (simp add: rope_new_def stree_new_def)

lemma chunk_split_ix_eq: "str_len s \<le> 128 \<Longrightarrow> chunk_split_ix c (canon s) = push_split_ix c s"
proof -
  assume "str_len s \<le> 128"
  then have "chunk_is_char_boundary (canon s) = str_is_char_boundary s"
    by (intro ext) (rule chunk_is_char_boundary_ok)
  then show ?thesis by (simp add: chunk_split_ix_def push_split_ix_def chunk_len_def)
qed

lemma rope_store_ok:
  assumes "rope_ok r" "s \<noteq> []" "str_len s \<le> 128"
  shows "\<exists>r'. stree_push chunk_sum r (canon s) = Some r' \<and> rope_ok r' \<and> rope_text r' = rope_text r @ s \<and>
     height r' \<le> Suc (height r)"
proof -
  have "chunks_ok (tree_items r @ [canon s])" using rope_okD(2)[OF assms(1)] assms(3) by simp
  from rope_laws.stree_push_ok[OF rope_okD(1)[OF assms(1)] this] show ?thesis
    using assms by (auto simp: rope_ok_def rope_text_def)
qed

lemma rope_push_chunk_ok:
  assumes "rope_ok r" "str_len s \<le> 128"
  shows "\<exists>r'. rope_push_chunk r (canon s) = Some r' \<and> rope_ok r' \<and> rope_text r' = rope_text r @ s \<and>
     height r' \<le> Suc (height r)"
proof (cases "tree_items r" rule: rev_cases)
  case Nil
  show ?thesis
  proof (cases "s = []")
    case True
    then show ?thesis using Nil assms by (simp add: rope_push_chunk_def rope_last_ok)
  next
    case False
    then show ?thesis using Nil rope_store_ok[OF assms(1) False assms(2)] assms
      by (simp add: rope_push_chunk_def rope_last_ok chunk_into_def)
  qed
next
  case (snoc ks k)
  then have k: "chunk_ok k" "ck_text k \<noteq> []" using assms(1) by (auto simp: rope_ok_def)
  obtain a where a: "k = canon a" "str_len a \<le> 128" using k(1) by (rule chunk_okE)
  obtain j where j: "push_split_ix k s = Some j" "str_is_char_boundary s j" "str_len a + j \<le> 128"
    using push_split_ix_ok[of k s] a by auto
  obtain p q where pq: "str_split_at s j = Some (p, q)" "s = p @ q" "str_len p = j" by (rule boundary_split[OF j(2)])
  have split: "chunk_split_at (canon s) j = Some (canon p, canon q)"
  proof (cases "j = 128")
    case True
    then have "q = []" using assms(2) pq by simp
    then show ?thesis using True pq chunk_split_at_ok[OF assms(2), of j] by simp
  next
    case False
    then show ?thesis using pq chunk_split_at_ok[OF assms(2), of j] by simp
  qed
  have app: "chunk_append k (canon p) = Some (canon (a @ p))"
    using a j(3) pq(3) by (simp add: chunk_append_ok)
  obtain r1 where r1: "stree_update_last chunk_sum (\<lambda>_. canon (a @ p)) r = Some r1" "rope_ok r1"
    "tree_items r1 = ks @ [canon (a @ p)]" "height r1 = height r"
    using rope_update_last[OF assms(1) snoc, of "canon (a @ p)"] k(2) a j(3) pq(3) by auto
  have t1: "rope_text r1 = rope_text r @ p" using r1(3) snoc a by (simp add: rope_text_def)
  have q: "str_len q \<le> 128" using pq assms(2) by simp
  have eq: "rope_push_chunk r (canon s) = (if q = [] then Some r1 else stree_push chunk_sum r1 (canon q))"
    using snoc j(1) split app r1(1) q
    by (simp add: rope_push_chunk_def rope_last_ok[OF assms(1)] last_opt_iff chunk_split_ix_eq[OF assms(2)] chunk_into_def)
  show ?thesis
  proof (cases "q = []")
    case True
    then show ?thesis using eq r1(2,4) t1 pq(2) by simp
  next
    case False
    then show ?thesis using eq rope_store_ok[OF r1(2) False q] r1(4) t1 pq(2) by auto
  qed
qed

section \<open>Appending\<close>

text \<open>A slice of a tree that is one leaf is one leaf.\<close>

lemma seek_items_slice_tree:
  "seek_items D target bias (slice_aggregate S) (pos, g, i) its = Some ((pos', g', i'), b) \<Longrightarrow> sl_tree g' = sl_tree g"
proof (induction its arbitrary: pos g i)
  case (Cons x its)
  then show ?case
    by (cases x) (auto simp: Let_def slice_aggregate_def slice_push_item_def bind_eq_Some_conv split: if_splits)
qed simp

lemma leaf_slice_height:
  assumes "cursor_at D S c pre post" "cursor_slice S D target bias c = Some (m, c')" "height (c_tree c) = 0"
  shows "height m = 0"
proof (cases "c_stack c")
  case Nil
  then show ?thesis using assms(1,2)
    by (auto simp: cursor_slice_def seek_internal_def cursor_at_def slice_new_def stree_new_def bind_eq_Some_conv Let_def)
next
  case (Cons e es)
  then obtain s xs xss pre0 post0 where e: "se_tree e = Leaf s xs xss"
    "cursor_ctx D S (c_tree c) es (Leaf s xs xss) pre0 post0"
    using assms(1) by (auto simp: cursor_at_def stack_at_def)
  have "tree_items (c_tree c) \<noteq> []"
    using assms(1) Cons stack_at_items[of D S "c_tree c" "c_stack c" pre post] stack_at_empty[of D S "c_tree c" "c_stack c" pre post]
    by (auto simp: cursor_at_def)
  then have "wf_node S (c_tree c)" using assms(1) by (auto simp: cursor_at_def wf_tree_def stree_new_def)
  then have "es = []" using cursor_ctx_wf[OF e(2)] assms(3) by simp
  then have st: "c_stack c = [e]" using Cons by simp
  have "\<exists>st pos g. seek_loop D target bias (slice_aggregate S) [e] (c_position c) (slice_new S) False = Some (st, pos, g) \<and> sl_tree g = m"
    using assms(1,2) st by (auto simp: cursor_slice_def seek_internal_def cursor_at_def bind_eq_Some_conv Let_def)
  then obtain st pos g where g: "seek_loop D target bias (slice_aggregate S) [e] (c_position c) (slice_new S) False = Some (st, pos, g)"
    "sl_tree g = m" by blast
  have leaf: "height (sl_tree g2) = 0" if "sl_tree g1 = stree_new S" "ag_end_leaf (slice_aggregate S) g1 = Some g2" for g1 g2
    using that by (auto simp: slice_aggregate_def slice_end_leaf_def stree_append_def is_empty_def stree_new_def bind_eq_Some_conv)
  show ?thesis using g seek_items_slice_tree
    by (fastforce simp: seek_loop.simps e(1) slice_new_def split: option.splits prod.splits if_splits intro: leaf)
qed

lemma rope_join_ok:
  assumes "rope_ok a" "rope_ok b"
  shows "\<exists>r. stree_append chunk_sum a b = Some r \<and> rope_ok r \<and> rope_text r = rope_text a @ rope_text b \<and>
     height r \<le> Suc (max (height a) (height b))"
proof -
  have "chunks_ok (tree_items a @ tree_items b)" using assms rope_okD by simp
  from rope_laws.stree_append_ok[OF rope_okD(1)[OF assms(1)] rope_okD(1)[OF assms(2)] this] show ?thesis
    using assms by (auto simp: rope_ok_def rope_text_def)
qed

text \<open>What is left of a rope behind its first chunk.\<close>

lemma rope_rest_ok:
  assumes "rope_ok r" "height r < STACK_CAP" "tree_items r = k # ks"
  shows "\<exists>c1 c2 u c3. cursor_next unit_dim (cursor_new unit_dim r) = Some c1 \<and> cursor_next unit_dim c1 = Some c2 \<and>
     cursor_suffix chunk_sum unit_dim c2 = Some (u, c3) \<and> rope_ok u \<and> tree_items u = ks \<and>
     (height r = 0 \<longrightarrow> height u = 0)"
proof -
  let ?c = "cursor_new unit_dim r"
  have t: "c_tree ?c = r" by (simp add: cursor_new_def)
  have ok: "chunks_ok (k # ks)" using rope_okD(2)[OF assms(1)] assms(3) by simp
  have "cursor_start unit_dim chunk_sum ?c"
    by (intro cursor_fresh_start cursor_new_fresh rope_okD assms)
  from rope_laws.unit_dim.cursor_next_start_ok[OF this] obtain c1 where
    c1: "cursor_next unit_dim ?c = Some c1" "cursor_at unit_dim chunk_sum c1 [] (k # ks)" "c_tree c1 = r"
    using ok t assms(3) by auto
  from rope_laws.unit_dim.cursor_next_at_ok[OF c1(2)] obtain c2 where
    c2: "cursor_next unit_dim c1 = Some c2" "cursor_at unit_dim chunk_sum c2 [k] ks" "c_tree c2 = r"
    using ok c1(3) by auto
  have "cursor_ready unit_dim chunk_sum c2 [k] ks" using c2(2) by (simp add: cursor_ready_def)
  from rope_laws.unit_dim.cursor_suffix_ok[OF this] obtain u c3 where
    u: "cursor_suffix chunk_sum unit_dim c2 = Some (u, c3)" "wf_tree chunk_sum u" "tree_items u = ks" using ok by auto
  have "rope_ok u" using u(2,3) assms(1,3) by (auto simp: rope_ok_def)
  moreover have "height r = 0 \<longrightarrow> height u = 0"
    using leaf_slice_height[of unit_dim chunk_sum c2 "[k]" ks seek_end Right u c3] c2(2) u(1) c1(3) c2(3)
    by (simp add: cursor_suffix_def)
  ultimately show ?thesis using c1(1) c2(1) u(1,3)
    by (intro exI[of _ c1] exI[of _ c2] exI[of _ u] exI[of _ c3]) simp
qed

lemma rope_append_ok:
  assumes "rope_ok r" "rope_ok other" "height other < STACK_CAP"
  shows "\<exists>r'. rope_append r other = Some r' \<and> rope_ok r' \<and> rope_text r' = rope_text r @ rope_text other \<and>
     (height other = 0 \<longrightarrow> height r' \<le> height r + 2)"
proof (cases "tree_items other")
  case Nil
  then show ?thesis using rope_join_ok[OF assms(1,2)] by (auto simp: rope_append_def rope_first_ok[OF assms(2)])
next
  case (Cons k ks)
  obtain s where s: "k = canon s" "str_len s \<le> 128"
    using assms(2) Cons by (metis chunk_okE list.set_intros(1) rope_ok_def)
  let ?small = "(case last_opt (tree_items r) of Some l \<Rightarrow> small_chunk l | None \<Rightarrow> False) \<or> small_chunk k"
  show ?thesis
  proof (cases ?small)
    case True
    obtain r1 where r1: "rope_push_chunk r k = Some r1" "rope_ok r1" "rope_text r1 = rope_text r @ s" "height r1 \<le> Suc (height r)"
      using rope_push_chunk_ok[OF assms(1) s(2)] s(1) by blast
    obtain c1 c2 u c3 where u: "cursor_next unit_dim (cursor_new unit_dim other) = Some c1" "cursor_next unit_dim c1 = Some c2"
      "cursor_suffix chunk_sum unit_dim c2 = Some (u, c3)" "rope_ok u" "tree_items u = ks" "height other = 0 \<longrightarrow> height u = 0"
      using rope_rest_ok[OF assms(2,3) Cons] by auto
    have eq: "rope_append r other = stree_append chunk_sum r1 u"
      using True Cons r1(1) u(1-3)
      by (simp add: rope_append_def rope_first_ok[OF assms(2)] rope_last_ok[OF assms(1)])
    have "rope_text other = s @ rope_text u" using Cons u(5) s(1) by (simp add: rope_text_def)
    then show ?thesis using eq rope_join_ok[OF r1(2) u(4)] r1(3,4) u(6) by auto
  next
    case False
    then have "rope_append r other = stree_append chunk_sum r other"
      using Cons by (simp add: rope_append_def rope_first_ok[OF assms(2)] rope_last_ok[OF assms(1)])
    then show ?thesis using rope_join_ok[OF assms(1,2)] by auto
  qed
qed

lemma rope_is_empty_ok: "rope_ok r \<Longrightarrow> rope_is_empty r \<longleftrightarrow> rope_text r = []"
  by (simp add: rope_is_empty_def rope_len_ok)

lemma rope_from_str_ok:
  "list_all is_scalar s \<Longrightarrow> \<exists>r. rope_from_str s = Some r \<and> rope_ok r \<and> rope_text r = s"
  using rope_push_ok[OF rope_new_ok(1), of s] by (simp add: rope_from_str_def)

lemma rope_push_front_ok:
  assumes "rope_ok r" "list_all is_scalar s" "height r < STACK_CAP"
  shows "\<exists>r'. rope_push_front r s = Some r' \<and> rope_ok r' \<and> rope_text r' = s @ rope_text r"
proof (cases "s = [] \<or> rope_text r = []")
  case True
  then show ?thesis using assms rope_push_ok[OF assms(1,2)]
    by (auto simp: rope_push_front_def rope_is_empty_ok)
next
  case False
  then obtain k ks where k: "tree_items r = k # ks" using rope_text_empty[OF assms(1)] by (cases "tree_items r") auto
  then have kok: "chunk_ok k" "ck_text k \<noteq> []" using assms(1) by (auto simp: rope_ok_def)
  obtain a where a: "k = canon a" "str_len a \<le> 128" using kok(1) by (rule chunk_okE)
  obtain new where new: "rope_from_str s = Some new" "rope_ok new" "rope_text new = s"
    using rope_from_str_ok[OF assms(2)] by blast
  show ?thesis
  proof (cases "str_len a + str_len s \<le> 128")
    case True
    have pre: "chunk_prepend_str k s = Some (canon (s @ a))"
      using a assms(2) True by (simp add: chunk_prepend_str_def chunk_new_ok chunk_prepend_ok)
    have "canon (s @ a) = canon (s @ a)" "chunk_ok (canon (s @ a))" "ck_text (canon (s @ a)) \<noteq> []"
      using True False by simp_all
    from rope_update_first[OF assms(1) k this(2,3)] obtain r' where
      r': "stree_update_first chunk_sum (\<lambda>_. canon (s @ a)) r = Some r'" "rope_ok r'" "tree_items r' = canon (s @ a) # ks"
      by blast
    then show ?thesis using False True k a kok(2) pre
      by (simp add: rope_push_front_def rope_is_empty_ok[OF assms(1)] rope_first_ok[OF assms(1)] rope_text_def)
  next
    case notfit: False
    then have "rope_push_front r s = rope_append new r"
      using False k a new(1)
      by (simp add: rope_push_front_def rope_is_empty_ok[OF assms(1)] rope_first_ok[OF assms(1)])
    then show ?thesis using rope_append_ok[OF new(2) assms(1,3)] new(3) by auto
  qed
qed

end
