(* ===== verification/RopeCursor.thy ===== *)
theory RopeCursor
  imports RopeEdit
begin

text \<open>
  The cursor of a rope stands at a byte offset inside, or at the end of, the chunk under its tree
  cursor. Its slices are the substrings between its offsets, and its summaries are their
  measures.
\<close>

section \<open>Seeking to an offset\<close>

lemma bytes_dpos: "chunks_ok ks \<Longrightarrow> dpos bytes_dim chunk_sum ks = str_len (chunks_text ks)"
  by (rule bytes.dpos_measure)

lemma bytes_target_mono: "chunks_ok ks \<Longrightarrow> mono_target bytes_dim chunk_sum (cmp_of n) ks"
  by (auto simp: mono_target_def bytes_dpos cmp_of_def)

lemma bytes_passed:
  "chunks_ok ks \<Longrightarrow> passed bytes_dim chunk_sum (cmp_of n) Right ks \<longleftrightarrow> str_len (chunks_text ks) \<le> n"
  by (auto simp: passed_def passes_def bytes_dpos cmp_of_def)

text \<open>Where a seek for the offset \<open>n\<close> stops.\<close>

lemma bytes_scan:
  assumes "chunks_ok (pre @ post)" "str_len (chunks_text pre) \<le> n"
  obtains p r where "seek_scan bytes_dim chunk_sum (cmp_of n) Right pre post = (p, r)" "p @ r = pre @ post"
    "str_len (chunks_text p) \<le> n" "\<And>k ks. r = k # ks \<Longrightarrow> n < str_len (chunks_text p) + str_len (ck_text k)"
    "\<exists>q. p = pre @ q"
proof -
  obtain p r where pr: "seek_scan bytes_dim chunk_sum (cmp_of n) Right pre post = (p, r)" by force
  have items: "p @ r = pre @ post" using pr by (simp add: seek_scan_def scan_append_items)
  then have ok: "chunks_ok (p @ r)" using assms(1) by simp
  have le: "str_len (chunks_text p) \<le> n"
  proof (cases "p = pre")
    case False
    then have "passed bytes_dim chunk_sum (cmp_of n) Right p" using scan_passed pr unfolding seek_scan_def by metis
    then show ?thesis using bytes_passed[of p n] ok by simp
  qed (use assms(2) in simp)
  have lt: "n < str_len (chunks_text p) + str_len (ck_text k)" if "r = k # ks" for k ks
  proof -
    have "\<not> passed bytes_dim chunk_sum (cmp_of n) Right (p @ [k])"
      using scan_stop pr that unfolding seek_scan_def by metis
    then show ?thesis using bytes_passed[of "p @ [k]" n] ok that by simp
  qed
  have "\<exists>q. p = pre @ q" using pr unfolding seek_scan_def by (rule scan_prefix)
  then show ?thesis using pr items le lt by (intro that)
qed

text \<open>The state of a rope cursor: the chunks before it, and those from the one under it on.\<close>

definition rope_cursor_at :: "rope_cursor \<Rightarrow> chunk list \<Rightarrow> chunk list \<Rightarrow> bool" where
  "rope_cursor_at c pre post \<longleftrightarrow>
     rope_ok (rc_rope c) \<and> c_tree (rc_chunks c) = rc_rope c \<and> cursor_at bytes_dim chunk_sum (rc_chunks c) pre post \<and>
     str_len (chunks_text pre) \<le> rc_offset c \<and>
     rc_offset c \<le> str_len (chunks_text (pre @ take 1 post))"

lemma rope_cursor_atD:
  assumes "rope_cursor_at c pre post"
  shows "pre @ post = tree_items (rc_rope c)" "chunks_ok (pre @ post)" "rope_text (rc_rope c) = chunks_text pre @ chunks_text post"
proof -
  show i: "pre @ post = tree_items (rc_rope c)"
    using assms cursor_at_items[of bytes_dim chunk_sum "rc_chunks c" pre post] by (simp add: rope_cursor_at_def)
  show "chunks_ok (pre @ post)" using assms i rope_okD(2) by (simp add: rope_cursor_at_def)
  show "rope_text (rc_rope c) = chunks_text pre @ chunks_text post"
    using i[symmetric] by (simp add: rope_text_def)
qed

lemma rope_cursor_atI:
  assumes "rope_ok r" "cursor_at bytes_dim chunk_sum c p q" "c_tree c = r" "str_len (chunks_text p) \<le> n" "n \<le> str_len (rope_text r)"
    "p @ q = tree_items r" "\<And>k ks. q = k # ks \<Longrightarrow> n < str_len (chunks_text p) + str_len (ck_text k)"
  shows "rope_cursor_at \<lparr>rc_rope = r, rc_chunks = c, rc_offset = n\<rparr> p q"
proof -
  have "rope_text r = chunks_text (p @ q)" using assms(6) by (simp add: rope_text_def)
  then show ?thesis using assms by (cases q) (auto simp: rope_cursor_at_def less_imp_le)
qed

lemma rope_cursor_new_ok:
  assumes "rope_ok r" "height r < STACK_CAP" "n \<le> str_len (rope_text r)"
  shows "\<exists>c pre post. rope_cursor_new r n = Some c \<and> rope_cursor_at c pre post \<and> rc_offset c = n \<and> rc_rope c = r"
proof -
  let ?c = "cursor_new bytes_dim r"
  have t: "c_tree ?c = r" by (simp add: cursor_new_def)
  obtain p q where pq: "seek_scan bytes_dim chunk_sum (cmp_of n) Right [] (tree_items r) = (p, q)" "p @ q = tree_items r"
    "str_len (chunks_text p) \<le> n" "\<And>k ks. q = k # ks \<Longrightarrow> n < str_len (chunks_text p) + str_len (ck_text k)"
    using bytes_scan[of "[]" "tree_items r" n] rope_okD(2)[OF assms(1)] by auto
  have "cmp_of n (dm_zero bytes_dim) \<noteq> Less" by (simp add: bytes_dim_def)
  then obtain b c where c: "cursor_seek bytes_dim (cmp_of n) Right ?c = Some (b, c)" "cursor_at bytes_dim chunk_sum c p q" "c_tree c = r"
    using bytes_seek.cursor_seek_ok[of ?c "cmp_of n" Right p q] t pq(1) assms(2) rope_okD[OF assms(1)] bytes_target_mono by auto
  have "rope_cursor_at \<lparr>rc_rope = r, rc_chunks = c, rc_offset = n\<rparr> p q"
    by (rule rope_cursor_atI[OF assms(1) c(2,3) pq(3) assms(3) pq(2,4)])
  then show ?thesis using c(1) by (auto simp: rope_cursor_new_def)
qed

lemma rope_cursor_seek_forward_ok:
  assumes "rope_cursor_at c pre post" "rc_offset c \<le> n" "n \<le> str_len (rope_text (rc_rope c))"
  shows "\<exists>c' pre post. rope_cursor_seek_forward c n = Some c' \<and> rope_cursor_at c' pre post \<and> rc_offset c' = n \<and> rc_rope c' = rc_rope c"
proof -
  note d = rope_cursor_atD[OF assms(1)]
  have at: "cursor_at bytes_dim chunk_sum (rc_chunks c) pre post" "c_tree (rc_chunks c) = rc_rope c" "rope_ok (rc_rope c)"
    using assms(1) by (simp_all add: rope_cursor_at_def)
  have le: "str_len (chunks_text pre) \<le> n" using assms(1,2) by (simp add: rope_cursor_at_def)
  obtain p q where pq: "seek_scan bytes_dim chunk_sum (cmp_of n) Right pre post = (p, q)" "p @ q = pre @ post"
    "str_len (chunks_text p) \<le> n" "\<And>k ks. q = k # ks \<Longrightarrow> n < str_len (chunks_text p) + str_len (ck_text k)"
    using bytes_scan[OF d(2) le] by metis
  have "cmp_of n (dpos bytes_dim chunk_sum pre) \<noteq> Less" using le d(2) by (simp add: bytes_dpos)
  then obtain b cs where c: "cursor_seek_forward bytes_dim (cmp_of n) Right (rc_chunks c) = Some (b, cs)"
    "cursor_at bytes_dim chunk_sum cs p q" "c_tree cs = rc_rope c"
    using bytes_seek.cursor_seek_forward_ok[OF _ d(2) bytes_target_mono[OF d(2)] _ pq(1), of "rc_chunks c"] at
    by (auto simp: cursor_ready_def)
  have "p @ q = tree_items (rc_rope c)" using pq(2) d(1) by simp
  from rope_cursor_atI[OF at(3) c(2,3) pq(3) assms(3) this pq(4)]
  have "rope_cursor_at (c\<lparr>rc_chunks := cs, rc_offset := n\<rparr>) p q" by (simp add: rope_cursor_at_def)
  then show ?thesis using c(1) assms(2,3)
    by (auto simp: rope_cursor_seek_forward_def assert_opt_def rope_len_ok[OF at(3)])
qed

section \<open>Slices\<close>

lemma str_prefix_split:
  assumes "x @ y = u @ v" "str_len x \<le> str_len u"
  obtains w where "u = x @ w" "y = w @ v"
proof -
  obtain us where "x = u @ us \<and> us @ y = v \<or> x @ us = u \<and> y = us @ v"
    using assms(1) by (auto simp: append_eq_append_conv2)
  then show ?thesis
  proof
    assume *: "x = u @ us \<and> us @ y = v"
    then have "us = []" using assms(2) by simp
    then show ?thesis using that[of "[]"] * by simp
  qed (use that in auto)
qed

text \<open>The part of the chunk under the cursor, and what is left behind that chunk. With no chunk
  under the cursor, both are empty.\<close>

lemma cursor_chunk_part_ok:
  assumes "rope_cursor_at c pre post" "rope_text (rc_rope c) = a @ b @ t" "str_len a = rc_offset c"
    "n = str_len a + str_len b"
  shows "\<exists>chunk_end b1 b2. b = b1 @ b2 \<and> str_len b1 \<le> 128 \<and>
     cursor_end bytes_dim (rc_chunks c) = Some chunk_end \<and> chunk_end = str_len (chunks_text (pre @ take 1 post)) \<and>
     cursor_chunk_part c n = Some (if post = [] then None else Some (canon b1)) \<and> (post = [] \<longrightarrow> b = []) \<and>
     (b2 \<noteq> [] \<longrightarrow> n > chunk_end) \<and> (n > chunk_end \<longrightarrow> a @ b1 = chunks_text (pre @ take 1 post)) \<and> (n \<le> chunk_end \<longrightarrow> b2 = [])"
proof -
  note d = rope_cursor_atD[OF assms(1)]
  have at: "cursor_at bytes_dim chunk_sum (rc_chunks c) pre post" "str_len (chunks_text pre) \<le> str_len a"
    "str_len a \<le> str_len (chunks_text (pre @ take 1 post))"
    using assms(1,3) by (simp_all add: rope_cursor_at_def)
  have pos: "c_position (rc_chunks c) = str_len (chunks_text pre)"
    using at(1) bytes_dpos[of pre] d(2) by (simp add: cursor_at_def)
  note item = cursor_item_ok[OF at(1)]
  have eq: "chunks_text pre @ chunks_text post = a @ (b @ t)" using d(3) assms(2) by simp
  show ?thesis
  proof (cases post)
    case Nil
    then have "str_len a = str_len (chunks_text pre)" using at(2,3) by simp
    then have "a = chunks_text pre" "b @ t = []" using str_prefix_split[OF eq] Nil by auto
    then show ?thesis using Nil item pos assms(3,4)
      by (intro exI[of _ "str_len (chunks_text pre)"] exI[of _ "[]"]) (simp add: cursor_chunk_part_def cursor_end_def)
  next
    case (Cons k ks)
    then have k: "chunk_ok k" using d(2) by simp
    obtain s where s: "k = canon s" "str_len s \<le> 128" using k by (rule chunk_okE)
    obtain a1 where a1: "a = chunks_text pre @ a1" "chunks_text post = a1 @ b @ t"
      by (rule str_prefix_split[OF eq at(2)])
    have in_s: "str_len a1 \<le> str_len s" using at(3) Cons s a1(1) by simp
    have "a1 @ (b @ t) = s @ chunks_text ks" using a1(2) Cons s by simp
    then obtain s2 where s2: "s = a1 @ s2" "b @ t = s2 @ chunks_text ks" using in_s by (rule str_prefix_split)
    let ?stop = "str_len (chunks_text pre) + str_len s"
    have cend: "cursor_end bytes_dim (rc_chunks c) = Some ?stop"
      using item Cons pos s by (simp add: cursor_end_def chunk_sum_def chunk_text_summary_ok bytes_dim_def text_of_fields)
    show ?thesis
    proof (cases "n \<le> ?stop")
      case True
      then have "str_len b \<le> str_len s2" using assms(4) a1(1) s2(1) by simp
      with s2(2) obtain s3 where s3: "s2 = b @ s3" "t = s3 @ chunks_text ks" by (rule str_prefix_split)
      have "cursor_chunk_part c n = Some (Some (canon b))"
        using item Cons pos cend s s2(1) s3(1) True a1(1) assms(3)[symmetric] assms(4)
          chunk_slice_parts[of a1 b s3]
        by (simp add: cursor_chunk_part_def csub_def min_absorb1)
      then show ?thesis using Cons True cend s s2(1) s3(1)
        by (intro exI[of _ ?stop] exI[of _ b] exI[of _ "[]"]) simp
    next
      case False
      then have "str_len s2 \<le> str_len b" using assms(4) a1(1) s2(1) by simp
      with s2(2)[symmetric] obtain b2 where b2: "b = s2 @ b2" "chunks_text ks = b2 @ t" by (rule str_prefix_split)
      have "cursor_chunk_part c n = Some (Some (canon s2))"
        using item Cons pos cend s s2(1) False a1(1) assms(3)[symmetric] assms(4)
          chunk_slice_parts[of a1 s2 "[]"]
        by (simp add: cursor_chunk_part_def csub_def min_absorb2)
      then show ?thesis using Cons False cend s s2(1) b2 a1(1)
        by (intro exI[of _ ?stop] exI[of _ s2] exI[of _ b2]) simp
    qed
  qed
qed

text \<open>Over the end of a chunk: the whole chunks \<open>ys\<close> behind it that end by \<open>n\<close>, and the part of the
  next one.\<close>

lemma rope_cursor_over_ok:
  assumes "rope_cursor_at c pre post" "rope_text (rc_rope c) = a @ b @ t" "a = chunks_text (pre @ take 1 post)"
    "n = str_len a + str_len b"
  shows "\<exists>c1 ys r. cursor_next bytes_dim (rc_chunks c) = Some c1 \<and> c_tree c1 = rc_rope c \<and>
     cursor_at bytes_dim chunk_sum c1 (pre @ take 1 post) (tl post) \<and>
     seek_scan bytes_dim chunk_sum (cmp_of n) Right (pre @ take 1 post) (tl post) = (pre @ take 1 post @ ys, r) \<and>
     tl post = ys @ r \<and> str_len (chunks_text (pre @ take 1 post @ ys)) \<le> n \<and>
     (r = [] \<longrightarrow> b = chunks_text ys) \<and>
     (\<forall>k ks. r = k # ks \<longrightarrow> n < str_len (chunks_text (pre @ take 1 post @ ys)) + str_len (ck_text k) \<and>
        (\<exists>e e'. k = canon (e @ e') \<and> str_len (e @ e') \<le> 128 \<and> b = chunks_text ys @ e))"
proof -
  let ?pre = "pre @ take 1 post"
  note d = rope_cursor_atD[OF assms(1)]
  have items: "?pre @ tl post = pre @ post" by (cases post) simp_all
  have ok: "chunks_ok (?pre @ tl post)" unfolding items by (rule d(2))
  have at: "cursor_at bytes_dim chunk_sum (rc_chunks c) pre post" "c_tree (rc_chunks c) = rc_rope c"
    using assms(1) by (simp_all add: rope_cursor_at_def)
  obtain c1 where c1: "cursor_next bytes_dim (rc_chunks c) = Some c1" "c_tree c1 = rc_rope c"
    "cursor_at bytes_dim chunk_sum c1 ?pre (tl post)"
    using bytes_seek.cursor_next_at_ok[OF at(1) d(2)] at(2) by auto
  have le: "str_len (chunks_text ?pre) \<le> n" using assms(3,4) by simp
  obtain p r where pr: "seek_scan bytes_dim chunk_sum (cmp_of n) Right ?pre (tl post) = (p, r)" "p @ r = ?pre @ tl post"
    "str_len (chunks_text p) \<le> n" "\<And>k ks. r = k # ks \<Longrightarrow> n < str_len (chunks_text p) + str_len (ck_text k)" "\<exists>q. p = ?pre @ q"
    by (rule bytes_scan[OF ok le]) (rule that)
  then obtain ys where ys: "p = ?pre @ ys" by blast
  then have tl: "tl post = ys @ r" using pr(2) by simp
  have "a @ b @ t = chunks_text (?pre @ tl post)" using assms(2) d(3) items chunks_text_simps(3) by metis
  then have bt: "b @ t = chunks_text ys @ chunks_text r" using assms(3) tl by simp
  have ys_le: "str_len (chunks_text ys) \<le> str_len b" using pr(3) ys assms(3,4) by simp
  obtain e where e: "b = chunks_text ys @ e" "chunks_text r = e @ t" by (rule str_prefix_split[OF bt[symmetric] ys_le])
  have last: "\<exists>e e'. k = canon (e @ e') \<and> str_len (e @ e') \<le> 128 \<and> b = chunks_text ys @ e" if r: "r = k # ks" for k ks
  proof -
    have k: "chunk_ok k" using ok tl r by simp
    obtain s where s: "k = canon s" "str_len s \<le> 128" using k by (rule chunk_okE)
    have "str_len e \<le> str_len s" using pr(4)[OF r] ys s e(1) assms(3,4) by simp
    moreover have "e @ t = s @ chunks_text ks" using e(2) r s by simp
    ultimately have "\<exists>e'. s = e @ e'" by (metis str_prefix_split)
    then show ?thesis using s e(1) by auto
  qed
  have "r = [] \<longrightarrow> b = chunks_text ys" using e by auto
  then show ?thesis using c1 pr ys tl last by (intro exI[of _ c1] exI[of _ ys] exI[of _ r]) simp
qed

text \<open>The tree of the whole chunks that a slice takes behind the first one has to fit the stack of a
  cursor, since \<open>append\<close> walks over it.\<close>

definition slice_middle :: "rope_cursor \<Rightarrow> nat \<Rightarrow> rope option" where
  "slice_middle c n = do {
     chunk_end \<leftarrow> cursor_end bytes_dim (rc_chunks c);
     _ \<leftarrow> assert_opt (n > chunk_end);
     chunks \<leftarrow> cursor_next bytes_dim (rc_chunks c);
     (middle, _) \<leftarrow> cursor_slice chunk_sum bytes_dim (cmp_of n) Right chunks;
     Some middle
   }"

definition slice_fits :: "rope_cursor \<Rightarrow> nat \<Rightarrow> bool" where
  "slice_fits c n \<longleftrightarrow> pred_option (\<lambda>m. height m < STACK_CAP) (slice_middle c n)"

text \<open>Where a slice or a summary that goes over the end of the chunk leaves the cursor.\<close>

lemma rope_cursor_left_at:
  assumes "rope_cursor_at c pre post" "cursor_at bytes_dim chunk_sum c2 p r" "c_tree c2 = rc_rope c" "p @ r = pre @ post"
    "str_len (chunks_text p) \<le> n" "n \<le> str_len (rope_text (rc_rope c))"
    "\<And>k ks. r = k # ks \<Longrightarrow> n < str_len (chunks_text p) + str_len (ck_text k)"
  shows "rope_cursor_at (c\<lparr>rc_chunks := c2, rc_offset := n\<rparr>) p r"
proof -
  have "rope_ok (rc_rope c)" using assms(1) by (simp add: rope_cursor_at_def)
  moreover have "p @ r = tree_items (rc_rope c)" using assms(4) rope_cursor_atD(1)[OF assms(1)] by simp
  ultimately show ?thesis
    using rope_cursor_atI[OF _ assms(2,3,5,6) _ assms(7)] by (simp add: rope_cursor_at_def)
qed

lemma rope_cursor_stay:
  assumes "rope_cursor_at c pre post" "rc_offset c \<le> n" "n \<le> str_len (chunks_text (pre @ take 1 post))"
  shows "rope_cursor_at (c\<lparr>rc_chunks := rc_chunks c, rc_offset := n\<rparr>) pre post"
  using assms by (simp add: rope_cursor_at_def)

lemma rope_cursor_slice_ok:
  assumes "rope_cursor_at c pre post" "rope_text (rc_rope c) = a @ b @ t" "rc_offset c = str_len a"
    "n = str_len a + str_len b" "slice_fits c n"
  shows "\<exists>s c' pre' post'. rope_cursor_slice c n = Some (s, c') \<and> rope_ok s \<and> rope_text s = b \<and>
     rope_cursor_at c' pre' post' \<and> rc_offset c' = n \<and> rc_rope c' = rc_rope c \<and>
     (height (rc_rope c) = 0 \<longrightarrow> height s \<le> 4)"
proof -
  note d = rope_cursor_atD[OF assms(1)]
  have rok: "rope_ok (rc_rope c)" using assms(1) by (simp add: rope_cursor_at_def)
  obtain cend b1 b2 where part: "b = b1 @ b2" "str_len b1 \<le> 128" "cursor_end bytes_dim (rc_chunks c) = Some cend"
    "cend = str_len (chunks_text (pre @ take 1 post))"
    "cursor_chunk_part c n = Some (if post = [] then None else Some (canon b1))"
    "post = [] \<longrightarrow> b = []" "n > cend \<longrightarrow> a @ b1 = chunks_text (pre @ take 1 post)" "n \<le> cend \<longrightarrow> b2 = []"
    using cursor_chunk_part_ok[OF assms(1,2) assms(3)[symmetric] assms(4)] by auto
  have range: "rc_offset c \<le> n" "n \<le> rope_len (rc_rope c)" using assms(2-4) rope_len_ok[OF rok] by simp_all
  obtain s1 where s1: "(case (if post = [] then None else Some (canon b1)) of None \<Rightarrow> Some rope_new
      | Some k \<Rightarrow> rope_push_chunk rope_new k) = Some s1" "rope_ok s1" "rope_text s1 = b1" "height s1 \<le> 1"
    using rope_push_chunk_ok[OF rope_new_ok(1) part(2)] part(1,6) by (cases "post = []") auto
  show ?thesis
  proof (cases "n \<le> cend")
    case True
    have "rope_cursor_slice c n = Some (s1, c\<lparr>rc_chunks := rc_chunks c, rc_offset := n\<rparr>)"
      using range part(3,5) s1(1) True by (simp add: rope_cursor_slice_def assert_opt_def)
    moreover have "rope_text s1 = b" using s1(3) part(1,8) True by simp
    ultimately show ?thesis using rope_cursor_stay[OF assms(1) range(1)] True part(4) s1(2,4)
      by (intro exI[of _ s1] exI[of _ "c\<lparr>rc_chunks := rc_chunks c, rc_offset := n\<rparr>"] exI[of _ pre] exI[of _ post]) simp
  next
    case False
    have whole: "rope_text (rc_rope c) = (a @ b1) @ b2 @ t" using assms(2) part(1) by simp
    have n: "n = str_len (a @ b1) + str_len b2" using assms(4) part(1) by simp
    have ab1: "a @ b1 = chunks_text (pre @ take 1 post)" using part(7) False by simp
    obtain c1 ys r where over: "cursor_next bytes_dim (rc_chunks c) = Some c1" "c_tree c1 = rc_rope c"
      "cursor_at bytes_dim chunk_sum c1 (pre @ take 1 post) (tl post)"
      "seek_scan bytes_dim chunk_sum (cmp_of n) Right (pre @ take 1 post) (tl post) = (pre @ take 1 post @ ys, r)"
      "tl post = ys @ r" "str_len (chunks_text (pre @ take 1 post @ ys)) \<le> n" "r = [] \<longrightarrow> b2 = chunks_text ys"
      "\<forall>k ks. r = k # ks \<longrightarrow> n < str_len (chunks_text (pre @ take 1 post @ ys)) + str_len (ck_text k) \<and>
        (\<exists>e e'. k = canon (e @ e') \<and> str_len (e @ e') \<le> 128 \<and> b2 = chunks_text ys @ e)"
      using rope_cursor_over_ok[OF assms(1) whole ab1 n] by blast
    have items: "(pre @ take 1 post) @ tl post = pre @ post" by (cases post) simp_all
    have ok: "chunks_ok ((pre @ take 1 post) @ tl post)" unfolding items by (rule d(2))
    have tgt: "cmp_of n (dpos bytes_dim chunk_sum (pre @ take 1 post)) \<noteq> Less"
      using False part(4) ok by (simp add: bytes_dpos)
    have ready: "cursor_ready bytes_dim chunk_sum c1 (pre @ take 1 post) (tl post)"
      using over(3) by (simp add: cursor_ready_def)
    obtain m c2 where m: "cursor_slice chunk_sum bytes_dim (cmp_of n) Right c1 = Some (m, c2)" "wf_tree chunk_sum m"
      "pre @ take 1 post @ ys = (pre @ take 1 post) @ tree_items m"
      "cursor_at bytes_dim chunk_sum c2 (pre @ take 1 post @ ys) r" "c_tree c2 = rc_rope c"
      using bytes_seek.cursor_slice_ok[OF ready ok bytes_target_mono[OF ok] tgt over(4)] over(2) by auto
    have mi: "tree_items m = ys" using m(3) by simp
    have sub: "set ys \<subseteq> set (tree_items (rc_rope c))" using d(1)[symmetric] items over(5) by (metis set_append Un_iff subsetI)
    have mok: "rope_ok m" using m(2) mi sub rok by (auto simp: rope_ok_def)
    have "height m < STACK_CAP" using assms(5) over(1) m(1) part(3) False
      by (simp add: slice_fits_def slice_middle_def assert_opt_def)
    then obtain s2 where s2: "rope_append s1 m = Some s2" "rope_ok s2" "rope_text s2 = b1 @ chunks_text ys"
      "height m = 0 \<longrightarrow> height s2 \<le> 3"
      using rope_append_ok[OF s1(2) mok] s1(3,4) mi by (fastforce simp: rope_text_def)
    have m0: "height (rc_rope c) = 0 \<longrightarrow> height m = 0"
      using leaf_slice_height[OF over(3) m(1)] over(2) by simp
    note item = cursor_item_ok(1)[OF m(4)]
    have pos: "c_position c2 = str_len (chunks_text (pre @ take 1 post @ ys))"
      using m(4) bytes_dpos[of "pre @ take 1 post @ ys"] ok over(5) by (simp add: cursor_at_def)
    let ?c' = "c\<lparr>rc_chunks := c2, rc_offset := n\<rparr>"
    have at': "rope_cursor_at ?c' (pre @ take 1 post @ ys) r"
      using over(5,6,8) items range(2) rope_len_ok[OF rok]
      by (intro rope_cursor_left_at[OF assms(1) m(4,5)]) auto
    have run: "\<exists>s. rope_cursor_slice c n = Some (s, ?c') \<and> rope_ok s \<and> rope_text s = b \<and>
        (height (rc_rope c) = 0 \<longrightarrow> height s \<le> 4)"
    proof (cases r)
      case Nil
      then have "rope_cursor_slice c n = Some (s2, ?c')"
        using range part(3,5) s1(1) False over(1) m(1) s2(1) item by (simp add: rope_cursor_slice_def assert_opt_def)
      then show ?thesis using s2 over(7) Nil part(1) m0 by auto
    next
      case (Cons k ks)
      then obtain e e' where e: "k = canon (e @ e')" "str_len (e @ e') \<le> 128" "b2 = chunks_text ys @ e" using over(8) by blast
      have ne: "n - c_position c2 = str_len e" "c_position c2 \<le> n" using pos n ab1 e(3) over(6) by simp_all
      have sl: "chunk_slice k 0 (n - c_position c2) = Some (canon e)"
        using chunk_slice_parts[of "[]" e e'] e(1,2) ne(1) by simp
      obtain s3 where s3: "rope_push_chunk s2 (canon e) = Some s3" "rope_ok s3" "rope_text s3 = rope_text s2 @ e" "height s3 \<le> Suc (height s2)"
        using rope_push_chunk_ok[OF s2(2), of e] e(2) by auto
      have "rope_cursor_slice c n = Some (s3, ?c')"
        using range part(3,5) s1(1) False over(1) m(1) s2(1) item Cons ne(2) sl s3(1)
        by (simp add: rope_cursor_slice_def assert_opt_def csub_le)
      moreover have "height (rc_rope c) = 0 \<longrightarrow> height s3 \<le> 4"
      proof
        assume "height (rc_rope c) = 0"
        then have "height s2 \<le> 3" using m0 s2(4) by blast
        then show "height s3 \<le> 4" using s3(4) by linarith
      qed
      moreover have "rope_text s3 = b" using s2(3) s3(3) e(3) part(1) by simp
      ultimately show ?thesis using s3(2) by (intro exI[of _ s3] conjI) assumption+
    qed
    then obtain s where "rope_cursor_slice c n = Some (s, ?c')" "rope_ok s" "rope_text s = b"
      "height (rc_rope c) = 0 \<longrightarrow> height s \<le> 4" by (elim exE conjE) (rule that)
    then show ?thesis using at'
      by (intro exI[of _ s] exI[of _ ?c'] exI[of _ "pre @ take 1 post @ ys"] exI[of _ r]) simp
  qed
qed

text \<open>The slices of a rope of one leaf fit.\<close>

lemma slice_fits_leaf:
  assumes "rope_cursor_at c pre post" "height (rc_rope c) = 0"
  shows "slice_fits c n"
proof -
  have at: "cursor_at bytes_dim chunk_sum (rc_chunks c) pre post" "c_tree (rc_chunks c) = rc_rope c"
    using assms(1) by (simp_all add: rope_cursor_at_def)
  obtain c1 where c1: "cursor_next bytes_dim (rc_chunks c) = Some c1" "c_tree c1 = rc_rope c"
    "cursor_at bytes_dim chunk_sum c1 (pre @ take 1 post) (tl post)"
    using bytes_seek.cursor_next_at_ok[OF at(1) rope_cursor_atD(2)[OF assms(1)]] at(2) by auto
  have "height m = 0" if "cursor_slice chunk_sum bytes_dim (cmp_of n) Right c1 = Some (m, c2)" for m c2
    using leaf_slice_height[OF c1(3) that] c1(2) assms(2) by simp
  then show ?thesis using c1(1)
    by (auto simp: slice_fits_def slice_middle_def pred_option_def bind_eq_Some_conv STACK_CAP_def)
qed

end
