(* ===== verification/RopeSummary.thy ===== *)
theory RopeSummary
  imports RopeCursor
begin

text \<open>
  The text dimensions (\<open>TextDimension\<close> in \<open>crates/rope/src/rope.rs\<close>): each measures whole
  summaries, parts of chunks and sums of measures. The summary a cursor computes is the measure
  of the substring between its offsets, in every dimension.
\<close>

section \<open>The dimensions\<close>

definition usize_td :: "nat text_dimension" where
  "usize_td = \<lparr>td_dim = bytes_dim, td_from_chunk = chunk_len, td_add = (+)\<rparr>"

definition offset16_td :: "offset16 text_dimension" where
  "offset16_td = \<lparr>td_dim = utf16_dim, td_from_chunk = (\<lambda>k. Offset16 (chunk_len_utf16 k)), td_add = offset16_add\<rparr>"

definition point_td :: "point text_dimension" where
  "point_td = \<lparr>td_dim = point_dim, td_from_chunk = chunk_lines, td_add = point_add\<rparr>"

definition point16_td :: "point16 text_dimension" where
  "point16_td = \<lparr>td_dim = point16_dim,
     td_from_chunk = (\<lambda>k. Point16 (row (chunk_lines k)) (chunk_last_line_len_utf16 k)), td_add = point16_add\<rparr>"

definition text_summary_td :: "text_summary text_dimension" where
  "text_summary_td = \<lparr>td_dim = text_dim, td_from_chunk = chunk_text_summary, td_add = text_add\<rparr>"

definition pair_td :: "'d text_dimension \<Rightarrow> 'e text_dimension \<Rightarrow> ('d \<times> 'e) text_dimension" where
  "pair_td D E = \<lparr>td_dim = pair_dim (td_dim D) (td_dim E),
     td_from_chunk = (\<lambda>k. (td_from_chunk D k, td_from_chunk E k)),
     td_add = (\<lambda>x y. (td_add D (fst x) (fst y), td_add E (snd x) (snd y)))\<rparr>"

text \<open>A \<open>DimensionPair\<close> is compared by its key; its value may be missing, and a sum with a missing
  value loses it.\<close>

record ('k, 'v) dimension_pair =
  dp_key :: 'k
  dp_value :: "'v option"

definition dp_default :: "'k \<Rightarrow> 'v \<Rightarrow> ('k, 'v) dimension_pair" where
  "dp_default k v = \<lparr>dp_key = k, dp_value = Some v\<rparr>"

definition dp_cmp :: "('k \<Rightarrow> 'k \<Rightarrow> ordering) \<Rightarrow> ('k, 'v) dimension_pair \<Rightarrow> ('k, 'v) dimension_pair \<Rightarrow> ordering" where
  "dp_cmp cmp a b = cmp (dp_key a) (dp_key b)"

definition dp_eq :: "('k, 'v) dimension_pair \<Rightarrow> ('k, 'v) dimension_pair \<Rightarrow> bool" where
  "dp_eq a b \<longleftrightarrow> dp_key a = dp_key b"

definition dp_sub :: "('k \<Rightarrow> 'k \<Rightarrow> 'r option) \<Rightarrow> ('v \<Rightarrow> 'v \<Rightarrow> 'q option) \<Rightarrow>
    ('k, 'v) dimension_pair \<Rightarrow> ('k, 'v) dimension_pair \<Rightarrow> ('r, 'q) dimension_pair option" where
  "dp_sub sub_key sub_value a b = do {
     k \<leftarrow> sub_key (dp_key a) (dp_key b);
     v \<leftarrow> (case (dp_value a, dp_value b) of
            (Some x, Some y) \<Rightarrow> map_option Some (sub_value x y)
          | _ \<Rightarrow> Some None);
     Some \<lparr>dp_key = k, dp_value = v\<rparr>
   }"

definition dp_add :: "('k \<Rightarrow> 'r \<Rightarrow> 'k) \<Rightarrow> ('v \<Rightarrow> 'q \<Rightarrow> 'v) \<Rightarrow>
    ('k, 'v) dimension_pair \<Rightarrow> ('r, 'q) dimension_pair \<Rightarrow> ('k, 'v) dimension_pair" where
  "dp_add add_key add_value a b =
     \<lparr>dp_key = add_key (dp_key a) (dp_key b),
      dp_value = (case dp_value a of
          None \<Rightarrow> None
        | Some x \<Rightarrow> (case dp_value b of Some y \<Rightarrow> Some (add_value x y) | None \<Rightarrow> None))\<rparr>"

definition dp_dim :: "('k, 's) dim_ops \<Rightarrow> ('v, 's) dim_ops \<Rightarrow> (('k, 'v) dimension_pair, 's) dim_ops" where
  "dp_dim D E = \<lparr>dm_zero = \<lparr>dp_key = dm_zero D, dp_value = Some (dm_zero E)\<rparr>,
     dm_add = (\<lambda>p s. p\<lparr>dp_key := dm_add D (dp_key p) s, dp_value := map_option (\<lambda>v. dm_add E v s) (dp_value p)\<rparr>)\<rparr>"

definition dp_td :: "'k text_dimension \<Rightarrow> 'v text_dimension \<Rightarrow> ('k, 'v) dimension_pair text_dimension" where
  "dp_td D E = \<lparr>td_dim = dp_dim (td_dim D) (td_dim E),
     td_from_chunk = (\<lambda>k. \<lparr>dp_key = td_from_chunk D k, dp_value = Some (td_from_chunk E k)\<rparr>),
     td_add = dp_add (td_add D) (td_add E)\<rparr>"

section \<open>Their contract\<close>

locale text_dimension_laws = text_measure "td_dim E" measure
  for E :: "'d text_dimension" and measure :: "str \<Rightarrow> 'd" +
  assumes measure_chunk: "str_len s \<le> 128 \<Longrightarrow> td_from_chunk E (canon s) = measure s"
    and measure_sum: "td_add E (measure s) (measure t) = measure (s @ t)"

interpretation usize_td: text_dimension_laws usize_td str_len
proof (unfold_locales, goal_cases)
  case 3
  then show ?case by (simp add: usize_td_def chunk_len_def)
qed (simp_all add: usize_td_def bytes.measure_zero bytes.measure_add)

interpretation offset16_td: text_dimension_laws offset16_td "\<lambda>s. Offset16 (utf16 s)"
proof (unfold_locales, goal_cases)
  case (3 s)
  then show ?case by (simp add: offset16_td_def chunk_len_utf16_ok)
qed (simp_all add: offset16_td_def utf16_units.measure_zero utf16_units.measure_add offset16_add_def)

interpretation point_td: text_dimension_laws point_td point_parse_str
proof (unfold_locales, goal_cases)
  case (3 s)
  then show ?case by (simp add: point_td_def chunk_lines_ok)
next
  case (4 s t)
  then show ?case using points.measure_add[of s t] by (simp add: point_td_def point_dim_def text_of_fields)
qed (simp_all add: point_td_def points.measure_zero points.measure_add)

interpretation point16_td: text_dimension_laws point16_td "\<lambda>s. lines_utf16 (text_of s)"
proof (unfold_locales, goal_cases)
  case (3 s)
  then show ?case
    by (simp add: point16_td_def chunk_lines_ok chunk_last_line_len_utf16_ok lines_utf16_def text_of_fields)
next
  case (4 s t)
  then show ?case using points16.measure_add[of s t] by (simp add: point16_td_def point16_dim_def)
qed (simp_all add: point16_td_def points16.measure_zero points16.measure_add)

interpretation text_summary_td: text_dimension_laws text_summary_td text_of
proof (unfold_locales, goal_cases)
  case (3 s)
  then show ?case by (simp add: text_summary_td_def chunk_text_summary_ok)
qed (simp_all add: text_summary_td_def texts.measure_zero texts.measure_add text_of_append)

lemma pair_td_laws:
  "text_dimension_laws D f \<Longrightarrow> text_dimension_laws E g \<Longrightarrow> text_dimension_laws (pair_td D E) (\<lambda>s. (f s, g s))"
  by (simp add: text_dimension_laws_def text_dimension_laws_axioms_def pair_td_def pair_measure)

lemma dp_td_laws:
  "text_dimension_laws D f \<Longrightarrow> text_dimension_laws E g \<Longrightarrow>
   text_dimension_laws (dp_td D E) (\<lambda>s. \<lparr>dp_key = f s, dp_value = Some (g s)\<rparr>)"
  by (simp add: text_dimension_laws_def text_dimension_laws_axioms_def dp_td_def dp_dim_def dp_add_def text_measure_def)

section \<open>Summaries of substrings\<close>

context text_dimension_laws
begin

lemma rope_cursor_summary_ok:
  assumes "rope_cursor_at c pre post" "rope_text (rc_rope c) = a @ b @ t" "rc_offset c = str_len a"
    "n = str_len a + str_len b"
  shows "\<exists>c' pre' post'. rope_cursor_summary E c n = Some (measure b, c') \<and>
     rope_cursor_at c' pre' post' \<and> rc_offset c' = n \<and> rc_rope c' = rc_rope c"
proof -
  note d = rope_cursor_atD[OF assms(1)]
  have rok: "rope_ok (rc_rope c)" using assms(1) by (simp add: rope_cursor_at_def)
  obtain cend b1 b2 where part: "b = b1 @ b2" "str_len b1 \<le> 128" "cursor_end bytes_dim (rc_chunks c) = Some cend"
    "cend = str_len (chunks_text (pre @ take 1 post))"
    "cursor_chunk_part c n = Some (if post = [] then None else Some (canon b1))"
    "post = [] \<longrightarrow> b = []" "n > cend \<longrightarrow> a @ b1 = chunks_text (pre @ take 1 post)" "n \<le> cend \<longrightarrow> b2 = []"
    using cursor_chunk_part_ok[OF assms(1,2) assms(3)[symmetric] assms(4)] by auto
  have range: "rc_offset c \<le> n" "n \<le> rope_len (rc_rope c)" using assms(2-4) rope_len_ok[OF rok] by simp_all
  have s1: "(case (if post = [] then None else Some (canon b1)) of None \<Rightarrow> dm_zero (td_dim E)
      | Some k \<Rightarrow> td_add E (dm_zero (td_dim E)) (td_from_chunk E k)) = measure b1"
    using part(1,2,6) measure_zero measure_chunk measure_sum[of "[]" b1] by (cases "post = []") auto
  show ?thesis
  proof (cases "n \<le> cend")
    case True
    have "rope_cursor_summary E c n = Some (measure b1, c\<lparr>rc_chunks := rc_chunks c, rc_offset := n\<rparr>)"
      using range part(3,5) s1 True by (simp add: rope_cursor_summary_def assert_opt_def Let_def)
    then show ?thesis using rope_cursor_stay[OF assms(1) range(1)] True part(1,4,8)
      by (intro exI[of _ "c\<lparr>rc_chunks := rc_chunks c, rc_offset := n\<rparr>"] exI[of _ pre] exI[of _ post]) simp
  next
    case False
    have whole: "rope_text (rc_rope c) = (a @ b1) @ b2 @ t" using assms(2) part(1) by simp
    have n: "n = str_len (a @ b1) + str_len b2" using assms(4) part(1) by simp
    have ab1: "a @ b1 = chunks_text (pre @ take 1 post)" using part(7) False by simp
    obtain c1 ys r where over: "cursor_next bytes_dim (rc_chunks c) = Some c1" "c_tree c1 = rc_rope c"
      "cursor_at bytes_dim chunk_sum c1 (pre @ take 1 post) (tl post)"
      "seek_scan bytes_dim chunk_sum (cmp_of n) Right (pre @ take 1 post) (tl post) = (pre @ take 1 post @ ys, r)"
      "tl post = ys @ r" "str_len (chunks_text (pre @ take 1 post @ ys)) \<le> n" "r = [] \<longrightarrow> b2 = chunks_text ys"
      "\<forall>k ks. r = k # ks \<longrightarrow> n < str_len (chunks_text (pre @ take 1 post @ ys)) + str_len (ck_text k) \<and>
        (\<exists>e e'. k = canon (e @ e') \<and> str_len (e @ e') \<le> 128 \<and> b2 = chunks_text ys @ e)"
      using rope_cursor_over_ok[OF assms(1) whole ab1 n] by blast
    have items: "(pre @ take 1 post) @ tl post = pre @ post" by (cases post) simp_all
    have ok: "chunks_ok ((pre @ take 1 post) @ tl post)" unfolding items by (rule d(2))
    have tgt: "cmp_of n (dpos bytes_dim chunk_sum (pre @ take 1 post)) \<noteq> Less"
      using False part(4) ok by (simp add: bytes_dpos)
    have ready: "cursor_ready bytes_dim chunk_sum c1 (pre @ take 1 post) (tl post)"
      using over(3) by (simp add: cursor_ready_def)
    have sums: "summarizing chunk_sum chunks_ok bytes_dim (td_dim E)"
      using bytes.measure_dim_laws measure_dim_laws by (rule summarizing.intro)
    obtain c2 where m: "cursor_summary (td_dim E) bytes_dim (cmp_of n) Right c1 = Some (measure (chunks_text ys), c2)"
      "cursor_at bytes_dim chunk_sum c2 (pre @ take 1 post @ ys) r" "c_tree c2 = rc_rope c"
      using summarizing.cursor_summary_ok[OF sums ready ok bytes_target_mono[OF ok] tgt over(4)] over(2,5) ok
      by (auto simp: dpos_measure)
    note item = cursor_item_ok(1)[OF m(2)]
    have pos: "c_position c2 = str_len (chunks_text (pre @ take 1 post @ ys))"
      using m(2) bytes_dpos[of "pre @ take 1 post @ ys"] ok over(5) by (simp add: cursor_at_def)
    let ?c' = "c\<lparr>rc_chunks := c2, rc_offset := n\<rparr>"
    have at': "rope_cursor_at ?c' (pre @ take 1 post @ ys) r"
      using over(5,6,8) items range(2) rope_len_ok[OF rok]
      by (intro rope_cursor_left_at[OF assms(1) m(2,3)]) auto
    have run: "rope_cursor_summary E c n = Some (measure b, ?c')"
    proof (cases r)
      case Nil
      then show ?thesis using range part(1,3,5) s1 False over(1,7) m(1) item
        by (simp add: rope_cursor_summary_def assert_opt_def Let_def measure_sum)
    next
      case (Cons k ks)
      then obtain e e' where e: "k = canon (e @ e')" "str_len (e @ e') \<le> 128" "b2 = chunks_text ys @ e" using over(8) by blast
      have ne: "n - c_position c2 = str_len e" "c_position c2 \<le> n" using pos n ab1 e(3) over(6) by simp_all
      have sl: "chunk_slice k 0 (n - c_position c2) = Some (canon e)"
        using chunk_slice_parts[of "[]" e e'] e(1,2) ne(1) by simp
      have "td_add E (td_add E (measure b1) (measure (chunks_text ys))) (td_from_chunk E (canon e)) = measure b"
        using measure_chunk[of e] e(2,3) part(1) by (simp add: measure_sum)
      then show ?thesis
        using range part(3,5) s1 False over(1) m(1) item Cons ne(2) sl
        by (simp add: rope_cursor_summary_def assert_opt_def csub_le Let_def)
    qed
    then show ?thesis using at'
      by (intro exI[of _ ?c'] exI[of _ "pre @ take 1 post @ ys"] exI[of _ r]) simp
  qed
qed

end

end
