(* ===== verification/RopeClaims.thy ===== *)
theory RopeClaims
  imports RopeSummary
begin

text \<open>
  The properties of ropes: editing does to the text what the operations say and keeps the
  invariant, and the summaries of a cursor are those of the substrings.
\<close>

section \<open>Slices and replacements\<close>

text \<open>Slices are appended by walking over their trees, which have to fit the stack of a cursor.\<close>

definition rope_slice_fits :: "rope \<Rightarrow> nat \<Rightarrow> nat \<Rightarrow> bool" where
  "rope_slice_fits r i j \<longleftrightarrow>
     pred_option (\<lambda>c. pred_option (\<lambda>c. slice_fits c j) (rope_cursor_seek_forward c i)) (rope_cursor_new r 0)"

definition rope_replace_fits :: "rope \<Rightarrow> nat \<Rightarrow> nat \<Rightarrow> bool" where
  "rope_replace_fits r i j \<longleftrightarrow>
     pred_option (\<lambda>c. slice_fits c i \<and>
       pred_option (\<lambda>(prefix, c). height prefix < STACK_CAP \<and>
         pred_option (\<lambda>c. slice_fits c (rope_len r) \<and>
             pred_option (\<lambda>(suffix, c). height suffix < STACK_CAP) (rope_cursor_slice c (rope_len r)))
           (rope_cursor_seek_forward c j))
         (rope_cursor_slice c i))
     (rope_cursor_new r 0)"

lemma rope_slice_ok:
  assumes "rope_ok r" "height r < STACK_CAP" "rope_text r = a @ b @ t" "rope_slice_fits r (str_len a) (str_len a + str_len b)"
  shows "\<exists>s. rope_slice r (str_len a) (str_len a + str_len b) = Some s \<and> rope_ok s \<and> rope_text s = b"
proof -
  obtain c0 p0 q0 where c0: "rope_cursor_new r 0 = Some c0" "rope_cursor_at c0 p0 q0" "rc_offset c0 = 0" "rc_rope c0 = r"
    using rope_cursor_new_ok[OF assms(1,2), of 0] by auto
  obtain c1 p1 q1 where c1: "rope_cursor_seek_forward c0 (str_len a) = Some c1" "rope_cursor_at c1 p1 q1"
    "rc_offset c1 = str_len a" "rc_rope c1 = r"
    using rope_cursor_seek_forward_ok[OF c0(2), of "str_len a"] c0(3,4) assms(3) by auto
  have "slice_fits c1 (str_len a + str_len b)" using assms(4) c0(1) c1(1) by (simp add: rope_slice_fits_def)
  then obtain s c2 where "rope_cursor_slice c1 (str_len a + str_len b) = Some (s, c2)" "rope_ok s" "rope_text s = b"
    using rope_cursor_slice_ok[OF c1(2), of a b t] c1(3,4) assms(3) by auto
  then show ?thesis using c0(1) c1(1) by (simp add: rope_slice_def)
qed

lemma rope_replace_ok:
  assumes "rope_ok r" "height r < STACK_CAP" "rope_text r = a @ b @ t" "list_all is_scalar s"
    "rope_replace_fits r (str_len a) (str_len a + str_len b)"
  shows "\<exists>r'. rope_replace r (str_len a) (str_len a + str_len b) s = Some r' \<and> rope_ok r' \<and> rope_text r' = a @ s @ t"
proof -
  let ?i = "str_len a" and ?j = "str_len a + str_len b" and ?n = "str_len (a @ b @ t)"
  have len: "rope_len r = ?n" using rope_len_ok[OF assms(1)] assms(3) by simp
  obtain c0 p0 q0 where c0: "rope_cursor_new r 0 = Some c0" "rope_cursor_at c0 p0 q0" "rc_offset c0 = 0" "rc_rope c0 = r"
    using rope_cursor_new_ok[OF assms(1,2), of 0] by auto
  have "slice_fits c0 ?i" using assms(5) c0(1) by (simp add: rope_replace_fits_def)
  then obtain p c1 p1 q1 where c1: "rope_cursor_slice c0 ?i = Some (p, c1)" "rope_ok p" "rope_text p = a"
    "rope_cursor_at c1 p1 q1" "rc_offset c1 = ?i" "rc_rope c1 = r"
    using rope_cursor_slice_ok[OF c0(2), of "[]" a "b @ t" ?i] c0(3,4) assms(3) by auto
  have "height p < STACK_CAP" using assms(5) c0(1) c1(1) by (simp add: rope_replace_fits_def)
  then obtain n1 where n1: "rope_append rope_new p = Some n1" "rope_ok n1" "rope_text n1 = a"
    using rope_append_ok[OF rope_new_ok(1) c1(2)] c1(3) by auto
  obtain c2 p2 q2 where c2: "rope_cursor_seek_forward c1 ?j = Some c2" "rope_cursor_at c2 p2 q2"
    "rc_offset c2 = ?j" "rc_rope c2 = r"
    using rope_cursor_seek_forward_ok[OF c1(4), of ?j] c1(5,6) assms(3) by auto
  obtain n2 where n2: "rope_push n1 s = Some n2" "rope_ok n2" "rope_text n2 = a @ s"
    using rope_push_ok[OF n1(2) assms(4)] n1(3) by auto
  have "slice_fits c2 ?n" using assms(5) c0(1) c1(1) c2(1) len by (simp add: rope_replace_fits_def)
  then obtain u c3 where u: "rope_cursor_slice c2 ?n = Some (u, c3)" "rope_ok u" "rope_text u = t"
    using rope_cursor_slice_ok[OF c2(2), of "a @ b" t "[]" ?n] c2(3,4) assms(3) by auto
  have "height u < STACK_CAP" using assms(5) c0(1) c1(1) c2(1) u(1) len by (simp add: rope_replace_fits_def)
  then obtain n3 where n3: "rope_append n2 u = Some n3" "rope_ok n3" "rope_text n3 = (a @ s) @ t"
    using rope_append_ok[OF n2(2) u(2)] n2(3) u(3) by auto
  have "rope_cursor_suffix c2 = Some u" using u(1) len c2(4) by (simp add: rope_cursor_suffix_def rope_len_def)
  then have "rope_replace r ?i ?j s = Some n3"
    using c0(1) c1(1) n1(1) c2(1) n2(1) n3(1) by (simp add: rope_replace_def)
  then show ?thesis using n3(2,3) by simp
qed

lemma rope_summary_between:
  assumes "text_dimension_laws E f" "rope_ok r" "height r < STACK_CAP" "rope_text r = a @ b @ t"
  shows "\<exists>c c'. rope_cursor_new r (str_len a) = Some c \<and>
     rope_cursor_summary E c (str_len a + str_len b) = Some (f b, c') \<and> rc_offset c' = str_len a + str_len b"
proof -
  obtain c p q where c: "rope_cursor_new r (str_len a) = Some c" "rope_cursor_at c p q" "rc_offset c = str_len a" "rc_rope c = r"
    using rope_cursor_new_ok[OF assms(2,3), of "str_len a"] assms(4) by auto
  then show ?thesis using text_dimension_laws.rope_cursor_summary_ok[OF assms(1) c(2), of a b t] assms(4) by auto
qed

text \<open>Ropes of one leaf, with up to twelve chunks, fit.\<close>

lemma rope_slice_fits_leaf:
  assumes "rope_ok r" "height r = 0" "i \<le> str_len (rope_text r)"
  shows "rope_slice_fits r i j"
proof -
  obtain c0 p0 q0 where c0: "rope_cursor_new r 0 = Some c0" "rope_cursor_at c0 p0 q0" "rc_offset c0 = 0" "rc_rope c0 = r"
    using rope_cursor_new_ok[OF assms(1), of 0] assms(2) by (auto simp: STACK_CAP_def)
  obtain c1 p1 q1 where c1: "rope_cursor_seek_forward c0 i = Some c1" "rope_cursor_at c1 p1 q1" "rc_rope c1 = r"
    using rope_cursor_seek_forward_ok[OF c0(2), of i] c0(3,4) assms(3) by auto
  show ?thesis using c0(1) c1 slice_fits_leaf[OF c1(2)] assms(2) by (simp add: rope_slice_fits_def)
qed

lemma rope_replace_fits_leaf:
  assumes "rope_ok r" "height r = 0" "rope_text r = a @ b @ t"
  shows "rope_replace_fits r (str_len a) (str_len a + str_len b)"
proof -
  let ?i = "str_len a" and ?j = "str_len a + str_len b" and ?n = "str_len (a @ b @ t)"
  have len: "rope_len r = ?n" using rope_len_ok[OF assms(1)] assms(3) by simp
  obtain c0 p0 q0 where c0: "rope_cursor_new r 0 = Some c0" "rope_cursor_at c0 p0 q0" "rc_offset c0 = 0" "rc_rope c0 = r"
    using rope_cursor_new_ok[OF assms(1), of 0] assms(2) by (auto simp: STACK_CAP_def)
  have f0: "slice_fits c0 ?i" using slice_fits_leaf[OF c0(2)] c0(4) assms(2) by simp
  obtain p c1 p1 q1 where c1: "rope_cursor_slice c0 ?i = Some (p, c1)" "height p \<le> 4"
    "rope_cursor_at c1 p1 q1" "rc_offset c1 = ?i" "rc_rope c1 = r"
    using rope_cursor_slice_ok[OF c0(2), of "[]" a "b @ t" ?i] c0(3,4) assms(2,3) f0 by auto
  obtain c2 p2 q2 where c2: "rope_cursor_seek_forward c1 ?j = Some c2" "rope_cursor_at c2 p2 q2"
    "rc_offset c2 = ?j" "rc_rope c2 = r"
    using rope_cursor_seek_forward_ok[OF c1(3), of ?j] c1(4,5) assms(3) by auto
  have f2: "slice_fits c2 ?n" using slice_fits_leaf[OF c2(2)] c2(4) assms(2) by simp
  obtain u c3 where u: "rope_cursor_slice c2 ?n = Some (u, c3)" "height u \<le> 4"
    using rope_cursor_slice_ok[OF c2(2), of "a @ b" t "[]" ?n] c2(3,4) assms(2,3) f2 by auto
  show ?thesis using c0(1) c1(1,2) c2(1) u f0 f2 len by (simp add: rope_replace_fits_def STACK_CAP_def)
qed

section \<open>A sample rope\<close>

definition sample_chunks :: "chunk list" where
  "sample_chunks = [canon [104, 105], canon [10, 0xE9], canon [33]]"

definition sample_rope :: rope where
  "sample_rope = Leaf (sumof chunk_sum sample_chunks) sample_chunks (map chunk_text_summary sample_chunks)"

lemma sample_rope_ok: "rope_ok sample_rope" "height sample_rope = 0" "rope_text sample_rope = [104, 105, 10, 0xE9, 33]"
  by (simp_all add: sample_rope_def sample_chunks_def rope_ok_def rope_text_def wf_tree_def chunk_sum_def
      TREE_BASE_def len_utf8_def)


section \<open>Properties\<close>

text \<open>C31: Pushing text at the end or the front of a rope, and building a rope from text, never panic
  (for any text of scalar values and any rope that fits a cursor's stack), give a rope with the
  concatenated text, and keep the invariant: a well-formed tree of non-empty chunks whose bitmaps
  are those of their texts.\<close>

theorem rope_push_correct:
  assumes "rope_ok r" "list_all is_scalar s" "height r < STACK_CAP"
  shows "(\<exists>u. rope_push r s = Some u \<and> rope_ok u \<and> rope_text u = rope_text r @ s) \<and>
    (\<exists>u. rope_push_front r s = Some u \<and> rope_ok u \<and> rope_text u = s @ rope_text r) \<and>
    (\<exists>u. rope_from_str s = Some u \<and> rope_ok u \<and> rope_text u = s)"
  using rope_push_ok[OF assms(1,2)] rope_push_front_ok[OF assms] rope_from_str_ok[OF assms(2)] by blast

theorem rope_push_correct_witness:
  "\<exists>u. rope_push_front sample_rope [63, 0x1F600] = Some u \<and> rope_ok u \<and>
     rope_text u = [63, 0x1F600, 104, 105, 10, 0xE9, 33]"
  using rope_push_correct[OF sample_rope_ok(1), of "[63, 0x1F600]"] sample_rope_ok(2,3)
  by (simp add: is_scalar_def STACK_CAP_def)

text \<open>C32: Appending a rope that fits a cursor's stack gives the concatenated text and keeps the
  invariant, whether the first chunk is merged into the last one or not.\<close>

theorem rope_append_correct:
  assumes "rope_ok r" "rope_ok other" "height other < STACK_CAP"
  shows "\<exists>u. rope_append r other = Some u \<and> rope_ok u \<and> rope_text u = rope_text r @ rope_text other"
  using rope_append_ok[OF assms] by blast

theorem rope_append_correct_witness:
  "\<exists>u. rope_append sample_rope sample_rope = Some u \<and>
     rope_text u = [104, 105, 10, 0xE9, 33, 104, 105, 10, 0xE9, 33]"
  using rope_append_correct[OF sample_rope_ok(1,1)] sample_rope_ok(2,3) by (auto simp: STACK_CAP_def)

text \<open>C33: Cutting out or replacing a range between characters gives the substring or the text with
  the range replaced, and keeps the invariant. The trees of the intermediate slices have to fit
  the stack of a cursor, since \<open>append\<close> walks over them; for a rope of one leaf they always do.\<close>

theorem rope_replace_correct:
  assumes "rope_ok r" "height r < STACK_CAP" "rope_text r = a @ b @ t" "list_all is_scalar s"
    "i = str_len a" "j = str_len (a @ b)" "height r = 0 \<or> (rope_slice_fits r i j \<and> rope_replace_fits r i j)"
  shows "(\<exists>u. rope_slice r i j = Some u \<and> rope_ok u \<and> rope_text u = b) \<and>
    (\<exists>u. rope_replace r i j s = Some u \<and> rope_ok u \<and> rope_text u = a @ s @ t)"
proof -
  have j: "j = str_len a + str_len b" using assms(6) by simp
  have fits: "rope_slice_fits r i j" "rope_replace_fits r i j"
    using assms(7) rope_slice_fits_leaf[OF assms(1), of i j] rope_replace_fits_leaf[OF assms(1) _ assms(3)] assms(3,5) j
    by auto
  show ?thesis
    using rope_slice_ok[OF assms(1-3)] rope_replace_ok[OF assms(1-4)] fits assms(5) j by simp
qed

theorem rope_replace_correct_witness:
  "\<exists>u. rope_replace sample_rope 1 5 [0x1F600] = Some u \<and> rope_ok u \<and> rope_text u = [104, 0x1F600, 33]"
  using rope_replace_correct[OF sample_rope_ok(1), of "[104]" "[105, 10, 0xE9]" "[33]" "[0x1F600]" 1 5]
    sample_rope_ok(2,3) by (simp add: is_scalar_def STACK_CAP_def len_utf8_def)

text \<open>C34: The summary a cursor computes between two offsets is the measure of the substring in every
  text dimension: lengths in bytes and UTF-16 units, points in both, whole summaries and pairs.\<close>

theorem rope_cursor_summary_correct:
  assumes "rope_ok r" "height r < STACK_CAP" "rope_text r = a @ b @ t" "i = str_len a" "j = str_len (a @ b)"
  shows "\<exists>c. rope_cursor_new r i = Some c \<and>
    map_option fst (rope_cursor_summary usize_td c j) = Some (str_len b) \<and>
    map_option fst (rope_cursor_summary offset16_td c j) = Some (Offset16 (sum_list (map len_utf16 b))) \<and>
    map_option fst (rope_cursor_summary point_td c j) = Some (point_parse_str b) \<and>
    map_option fst (rope_cursor_summary point16_td c j) = Some (lines_utf16 (text_of b)) \<and>
    map_option fst (rope_cursor_summary text_summary_td c j) = Some (text_of b) \<and>
    map_option fst (rope_cursor_summary (dp_td point_td usize_td) c j) =
      Some \<lparr>dp_key = point_parse_str b, dp_value = Some (str_len b)\<rparr>"
proof -
  note L = usize_td.text_dimension_laws_axioms offset16_td.text_dimension_laws_axioms
    point_td.text_dimension_laws_axioms point16_td.text_dimension_laws_axioms
    text_summary_td.text_dimension_laws_axioms
    dp_td_laws[OF point_td.text_dimension_laws_axioms usize_td.text_dimension_laws_axioms]
  have j: "j = str_len a + str_len b" using assms(5) by simp
  show ?thesis
    unfolding assms(4) j
    using rope_summary_between[OF L(1) assms(1-3)] rope_summary_between[OF L(2) assms(1-3)]
      rope_summary_between[OF L(3) assms(1-3)] rope_summary_between[OF L(4) assms(1-3)]
      rope_summary_between[OF L(5) assms(1-3)] rope_summary_between[OF L(6) assms(1-3)]
    by auto
qed

theorem rope_cursor_summary_correct_witness:
  "\<exists>c. rope_cursor_new sample_rope 1 = Some c \<and>
     map_option fst (rope_cursor_summary point_td c 5) = Some (point_parse_str [105, 10, 0xE9])"
  using rope_cursor_summary_correct[OF sample_rope_ok(1), of "[104]" "[105, 10, 0xE9]" "[33]" 1 5]
    sample_rope_ok(2,3) by (auto simp: STACK_CAP_def len_utf8_def)

end
