(* ===== verification/RopePos.thy ===== *)
theory RopePos
  imports RopeClaims
begin

text \<open>
  Positions in a rope (\<open>crates/rope/src/rope.rs\<close>): character boundaries, the conversions between
  byte offsets, points and UTF-16 positions, and clipping. Each finds the chunk that holds the position
  and converts what is left over in that chunk. An underflow of unsigned subtraction is \<open>None\<close>.
\<close>

section \<open>Character boundaries\<close>

definition rope_is_char_boundary :: "rope \<Rightarrow> nat \<Rightarrow> bool option" where
  "rope_is_char_boundary r offset =
     (if is_empty r then Some (offset = 0)
      else do {
        let (start, _, item) = stree_find bytes_dim r (cmp_of offset) Left;
        chunk_offset \<leftarrow> csub offset start;
        Some (case item of Some c \<Rightarrow> chunk_is_char_boundary c chunk_offset | None \<Rightarrow> False)
      })"

definition rope_assert_char_boundary :: "bool \<Rightarrow> rope \<Rightarrow> nat \<Rightarrow> bool option" where
  "rope_assert_char_boundary panic r offset =
     (if is_empty r \<and> offset = 0 then Some True
      else do {
        let (start, _, item) = stree_find bytes_dim r (cmp_of offset) Left;
        case item of
          Some c \<Rightarrow> do { chunk_offset \<leftarrow> csub offset start; assert_char_boundary panic c chunk_offset }
        | None \<Rightarrow> if panic then None else Some False
      })"

definition rope_floor_char_boundary :: "rope \<Rightarrow> nat \<Rightarrow> nat option" where
  "rope_floor_char_boundary r index =
     (if index \<ge> rope_len r then Some (rope_len r)
      else do {
        let (start, _, item) = stree_find bytes_dim r (cmp_of index) Left;
        chunk_offset \<leftarrow> csub index start;
        Some (case item of
            Some c \<Rightarrow> start + str_floor_char_boundary (ck_text c) chunk_offset
          | None \<Rightarrow> rope_len r)
      })"

definition rope_ceil_char_boundary :: "rope \<Rightarrow> nat \<Rightarrow> nat option" where
  "rope_ceil_char_boundary r index =
     (if index > rope_len r then Some (rope_len r)
      else do {
        let (start, _, item) = stree_find bytes_dim r (cmp_of index) Left;
        chunk_offset \<leftarrow> csub index start;
        Some (case item of
            Some c \<Rightarrow> start + str_ceil_char_boundary (ck_text c) chunk_offset
          | None \<Rightarrow> rope_len r)
      })"

section \<open>Conversions\<close>

text \<open>A comparison of UTF-16 offsets is one of their numbers.\<close>

definition offset16_cmp :: "offset16 \<Rightarrow> offset16 \<Rightarrow> ordering" where
  "offset16_cmp a b = cmp_of (units a) (units b)"

definition rope_offset_to_offset_utf16 :: "rope \<Rightarrow> nat \<Rightarrow> offset16 option" where
  "rope_offset_to_offset_utf16 r offset =
     (if offset \<ge> ts_len (rope_summary r) then Some (Offset16 (ts_len_utf16 (rope_summary r)))
      else do {
        let (start, _, item) = stree_find (pair_dim bytes_dim utf16_dim) r (\<lambda>d. cmp_of offset (fst d)) Left;
        overshoot \<leftarrow> csub offset (fst start);
        Some (offset16_add (snd start)
          (case item of None \<Rightarrow> Offset16 0 | Some c \<Rightarrow> Offset16 (chunk_offset_to_offset_utf16 c overshoot)))
      })"

definition rope_offset_utf16_to_offset :: "rope \<Rightarrow> offset16 \<Rightarrow> nat option" where
  "rope_offset_utf16_to_offset r offset =
     (if offset16_cmp offset (Offset16 (ts_len_utf16 (rope_summary r))) \<noteq> Less then Some (ts_len (rope_summary r))
      else do {
        let (start, _, item) = stree_find (pair_dim utf16_dim bytes_dim) r (\<lambda>d. offset16_cmp offset (fst d)) Left;
        overshoot \<leftarrow> offset16_sub offset (fst start);
        Some (snd start + (case item of None \<Rightarrow> 0 | Some c \<Rightarrow> chunk_offset_utf16_to_offset c (units overshoot)))
      })"

definition rope_offset_to_point :: "rope \<Rightarrow> nat \<Rightarrow> point option" where
  "rope_offset_to_point r offset =
     (if offset \<ge> ts_len (rope_summary r) then Some (ts_lines (rope_summary r))
      else do {
        let (start, _, item) = stree_find (pair_dim bytes_dim point_dim) r (\<lambda>d. cmp_of offset (fst d)) Left;
        overshoot \<leftarrow> csub offset (fst start);
        Some (point_add (snd start)
          (case item of None \<Rightarrow> point_zero | Some c \<Rightarrow> chunk_offset_to_point c overshoot))
      })"

definition rope_offset_to_point_utf16 :: "rope \<Rightarrow> nat \<Rightarrow> point16 option" where
  "rope_offset_to_point_utf16 r offset =
     (if offset \<ge> ts_len (rope_summary r) then Some (lines_utf16 (rope_summary r))
      else do {
        let (start, _, item) = stree_find (pair_dim bytes_dim point16_dim) r (\<lambda>d. cmp_of offset (fst d)) Left;
        overshoot \<leftarrow> csub offset (fst start);
        Some (point16_add (snd start)
          (case item of None \<Rightarrow> point16_zero | Some c \<Rightarrow> chunk_offset_to_point_utf16 c overshoot))
      })"

definition rope_point_to_point_utf16 :: "rope \<Rightarrow> point \<Rightarrow> point16 option" where
  "rope_point_to_point_utf16 r p =
     (if point_cmp p (ts_lines (rope_summary r)) \<noteq> Less then Some (lines_utf16 (rope_summary r))
      else do {
        let (start, _, item) = stree_find (pair_dim point_dim point16_dim) r (\<lambda>d. point_cmp p (fst d)) Left;
        overshoot \<leftarrow> point_sub p (fst start);
        Some (point16_add (snd start)
          (case item of None \<Rightarrow> point16_zero | Some c \<Rightarrow> chunk_point_to_point_utf16 c overshoot))
      })"

text \<open>Some of the conversions move a cursor instead.\<close>

definition rope_point_utf16_to_point :: "rope \<Rightarrow> point16 \<Rightarrow> point option" where
  "rope_point_utf16_to_point r p =
     (if point16_cmp p (lines_utf16 (rope_summary r)) \<noteq> Less then Some (ts_lines (rope_summary r))
      else do {
        let D = pair_dim point16_dim point_dim;
        (_, c) \<leftarrow> cursor_seek D (\<lambda>d. point16_cmp p (fst d)) Left (cursor_new D r);
        overshoot \<leftarrow> point16_sub p (fst (c_position c));
        item \<leftarrow> cursor_item c;
        part \<leftarrow> (case item of
            None \<Rightarrow> Some point_zero
          | Some k \<Rightarrow> map_option (chunk_offset_to_point k) (chunk_point_utf16_to_offset k overshoot));
        Some (point_add (snd (c_position c)) part)
      })"

definition rope_point_to_offset :: "rope \<Rightarrow> point \<Rightarrow> nat option" where
  "rope_point_to_offset r p =
     (if point_cmp p (ts_lines (rope_summary r)) \<noteq> Less then Some (ts_len (rope_summary r))
      else do {
        let (start, _, item) = stree_find (pair_dim point_dim bytes_dim) r (\<lambda>d. point_cmp p (fst d)) Left;
        overshoot \<leftarrow> point_sub p (fst start);
        Some (snd start + (case item of None \<Rightarrow> 0 | Some c \<Rightarrow> chunk_point_to_offset c overshoot))
      })"

definition rope_point_to_offset_utf16 :: "rope \<Rightarrow> point \<Rightarrow> offset16 option" where
  "rope_point_to_offset_utf16 r p =
     (if point_cmp p (ts_lines (rope_summary r)) \<noteq> Less then Some (Offset16 (ts_len_utf16 (rope_summary r)))
      else do {
        let D = pair_dim point_dim utf16_dim;
        (_, c) \<leftarrow> cursor_seek D (\<lambda>d. point_cmp p (fst d)) Left (cursor_new D r);
        overshoot \<leftarrow> point_sub p (fst (c_position c));
        item \<leftarrow> cursor_item c;
        Some (offset16_add (snd (c_position c))
          (case item of None \<Rightarrow> Offset16 0 | Some k \<Rightarrow> Offset16 (chunk_point_to_offset_utf16 k overshoot)))
      })"

text \<open>The flag \<open>clip\<close> only decides whether an invalid position is logged.\<close>

definition rope_point_utf16_to_offset :: "rope \<Rightarrow> point16 \<Rightarrow> nat option" where
  "rope_point_utf16_to_offset r p =
     (if point16_cmp p (lines_utf16 (rope_summary r)) \<noteq> Less then Some (ts_len (rope_summary r))
      else do {
        let (start, _, item) = stree_find (pair_dim point16_dim bytes_dim) r (\<lambda>d. point16_cmp p (fst d)) Left;
        overshoot \<leftarrow> point16_sub p (fst start);
        part \<leftarrow> (case item of None \<Rightarrow> Some 0 | Some c \<Rightarrow> chunk_point_utf16_to_offset c overshoot);
        Some (snd start + part)
      })"

definition rope_unclipped_point_utf16_to_offset :: "rope \<Rightarrow> point16 unclipped \<Rightarrow> nat option" where
  "rope_unclipped_point_utf16_to_offset r p = rope_point_utf16_to_offset r (clipped p)"

definition rope_point_utf16_to_offset_utf16 :: "rope \<Rightarrow> point16 \<Rightarrow> offset16 option" where
  "rope_point_utf16_to_offset_utf16 r p =
     (if point16_cmp p (lines_utf16 (rope_summary r)) \<noteq> Less then Some (Offset16 (ts_len_utf16 (rope_summary r)))
      else do {
        let D = pair_dim point16_dim utf16_dim;
        (_, c) \<leftarrow> cursor_seek D (\<lambda>d. point16_cmp p (fst d)) Left (cursor_new D r);
        overshoot \<leftarrow> point16_sub p (fst (c_position c));
        item \<leftarrow> cursor_item c;
        part \<leftarrow> (case item of
            None \<Rightarrow> Some 0
          | Some k \<Rightarrow> map_option (chunk_offset_to_offset_utf16 k) (chunk_point_utf16_to_offset k overshoot));
        Some (offset16_add (snd (c_position c)) (Offset16 part))
      })"

definition rope_unclipped_point_utf16_to_point :: "rope \<Rightarrow> point16 unclipped \<Rightarrow> point option" where
  "rope_unclipped_point_utf16_to_point r p =
     (if point16_cmp (clipped p) (lines_utf16 (rope_summary r)) \<noteq> Less then Some (ts_lines (rope_summary r))
      else do {
        let (start, _, item) = stree_find (pair_dim point16_dim point_dim) r (\<lambda>d. point16_cmp (clipped p) (fst d)) Left;
        overshoot \<leftarrow> point16_sub (clipped p) (fst start);
        part \<leftarrow> (case item of
            None \<Rightarrow> Some point_zero
          | Some c \<Rightarrow> chunk_unclipped_point_utf16_to_point c (Unclipped overshoot));
        Some (point_add (snd start) part)
      })"

section \<open>Clipping\<close>

definition rope_clip_offset :: "rope \<Rightarrow> nat \<Rightarrow> bias \<Rightarrow> nat option" where
  "rope_clip_offset r offset b =
     (case b of Left \<Rightarrow> rope_floor_char_boundary r offset | Right \<Rightarrow> rope_ceil_char_boundary r offset)"

definition rope_clip_offset_utf16 :: "rope \<Rightarrow> offset16 \<Rightarrow> bias \<Rightarrow> offset16 option" where
  "rope_clip_offset_utf16 r offset b =
     (let (start, _, item) = stree_find utf16_dim r (offset16_cmp offset) Right in
      case item of
        Some c \<Rightarrow> do {
          overshoot \<leftarrow> offset16_sub offset start;
          part \<leftarrow> chunk_clip_offset_utf16 c (units overshoot) b;
          Some (offset16_add start (Offset16 part))
        }
      | None \<Rightarrow> Some (Offset16 (ts_len_utf16 (rope_summary r))))"

definition rope_clip_point :: "(str \<Rightarrow> nat \<Rightarrow> bool) \<Rightarrow> rope \<Rightarrow> point \<Rightarrow> bias \<Rightarrow> point option" where
  "rope_clip_point grapheme r p b =
     (let (start, _, item) = stree_find point_dim r (point_cmp p) Right in
      case item of
        Some c \<Rightarrow> do {
          overshoot \<leftarrow> point_sub p start;
          part \<leftarrow> chunk_clip_point grapheme c overshoot b;
          Some (point_add start part)
        }
      | None \<Rightarrow> Some (ts_lines (rope_summary r)))"

definition rope_clip_point_utf16 :: "rope \<Rightarrow> point16 unclipped \<Rightarrow> bias \<Rightarrow> point16 option" where
  "rope_clip_point_utf16 r p b =
     (let (start, _, item) = stree_find point16_dim r (point16_cmp (clipped p)) Right in
      case item of
        Some c \<Rightarrow> do {
          overshoot \<leftarrow> point16_sub (clipped p) start;
          part \<leftarrow> chunk_clip_point_utf16 c (Unclipped overshoot) b;
          Some (point16_add start part)
        }
      | None \<Rightarrow> Some (lines_utf16 (rope_summary r)))"

definition rope_line_len :: "(str \<Rightarrow> nat \<Rightarrow> bool) \<Rightarrow> rope \<Rightarrow> nat \<Rightarrow> nat option" where
  "rope_line_len grapheme r i = map_option column (rope_clip_point grapheme r (Point i (2 ^ 32 - 1)) Left)"

definition rope_slice_rows :: "rope \<Rightarrow> nat \<times> nat \<Rightarrow> rope option" where
  "rope_slice_rows r rows = do {
     start \<leftarrow> rope_point_to_offset r (Point (fst rows) 0);
     end_offset \<leftarrow> rope_point_to_offset r (Point (snd rows) 0);
     rope_slice r start end_offset
   }"

end
