(* ===== verification/RopePosProps.thy ===== *)
theory RopePosProps
  imports RopePos
begin

text \<open>
  Positions in a rope agree with the text: what a position means is decided by the chunk that holds
  it, and the sums over the chunks before it are its start. Positions of the same text are ordered
  as its prefixes are; the comparison of points packs row and column into a word, so the texts
  have fewer than \<open>2 ^ 32\<close> bytes.
\<close>

instantiation offset16 :: linorder
begin

definition less_eq_offset16 :: "offset16 \<Rightarrow> offset16 \<Rightarrow> bool" where
  "less_eq_offset16 a b \<longleftrightarrow> units a \<le> units b"

definition less_offset16 :: "offset16 \<Rightarrow> offset16 \<Rightarrow> bool" where
  "less_offset16 a b \<longleftrightarrow> units a < units b"

instance
proof
  show "(x < y) = (x \<le> y \<and> \<not> y \<le> x)" "x \<le> x" "x \<le> y \<Longrightarrow> y \<le> z \<Longrightarrow> x \<le> z" "x \<le> y \<or> y \<le> x" for x y z :: offset16
    by (auto simp: less_eq_offset16_def less_offset16_def)
  show "x \<le> y \<Longrightarrow> y \<le> x \<Longrightarrow> x = y" for x y :: offset16
    by (cases x; cases y) (simp add: less_eq_offset16_def)
qed

end

lemmas offset16_order = less_eq_offset16_def less_offset16_def

section \<open>Positions are ordered\<close>

locale text_position = text_measure D measure
  for D :: "('d :: linorder, text_summary) dim_ops" and measure :: "str \<Rightarrow> 'd" +
  fixes compare :: "'d \<Rightarrow> 'd \<Rightarrow> ordering" and fits :: "'d \<Rightarrow> bool"
  assumes measure_less: "s \<noteq> [] \<Longrightarrow> measure p < measure (p @ s)"
    and measure_least: "measure [] \<le> d"
    and measure_fits: "str_len s < 2 ^ 32 \<Longrightarrow> fits (measure s)"
    and compare_eq: "fits d \<Longrightarrow> fits e \<Longrightarrow> compare d e = cmp_of d e"

interpretation byte_positions: text_position bytes_dim str_len cmp_of "\<lambda>_. True"
proof (unfold_locales, goal_cases)
  case (1 s p)
  then show ?case using str_len_0[of s] by (simp del: str_len_0)
qed simp_all

lemma utf16_pos: "s \<noteq> [] \<Longrightarrow> 0 < utf16 s"
  by (cases s) (auto simp: len_utf16_def)

interpretation utf16_positions: text_position utf16_dim "\<lambda>s. Offset16 (utf16 s)" offset16_cmp "\<lambda>_. True"
proof (unfold_locales, goal_cases)
  case (1 s p)
  then show ?case using utf16_pos by (simp add: less_offset16_def)
next
  case (4 d e)
  then show ?case by (cases d; cases e) (auto simp: offset16_cmp_def cmp_of_def less_offset16_def)
qed (simp_all add: less_eq_offset16_def)

lemma point_parse_append: "point_parse_str (s @ t) = point_add (point_parse_str s) (point_parse_str t)"
  using points.measure_add[of s t] by (simp add: point_dim_def text_of_fields)

lemma row_of_text:
  "\<exists>r a l. s = a @ l \<and> point_parse_str s = Point r (str_len l) \<and> lines_utf16 (text_of s) = Point16 r (utf16 l)"
proof (rule row_of_prefix[of s s "[]"])
  fix r a l1 l2 b
  assume "row_at s r a (l1 @ l2) b" "s = a @ l1" "point_parse_str s = Point r (str_len l1)"
    "lines_utf16 (text_of s) = Point16 r (utf16 l1)"
  then show ?thesis by blast
qed simp

lemma point_parse_column: "column (point_parse_str s) \<le> str_len s"
  using row_of_text[of s] by auto

lemma lines_utf16_column:
  "column16 (lines_utf16 (text_of s)) \<le> utf16 s" "row16 (lines_utf16 (text_of s)) = row (point_parse_str s)"
  using row_of_text[of s] by auto

lemma utf16_le: "utf16 s \<le> str_len s"
proof (induction s)
  case (Cons c s)
  have "len_utf16 c \<le> len_utf8 c" by (simp add: len_utf16_def len_utf8_def)
  then show ?case using Cons by simp
qed simp

lemma lines_utf16_append: "lines_utf16 (text_of (s @ t)) = point16_add (lines_utf16 (text_of s)) (lines_utf16 (text_of t))"
  using points16.measure_add[of s t] by (simp add: point16_dim_def)

lemma point_parse_pos: "s \<noteq> [] \<Longrightarrow> point_zero < point_parse_str s"
proof -
  assume "s \<noteq> []"
  then obtain c t where s: "s = c # t" by (cases s) auto
  have c: "point_zero < point_parse_str [c]"
    by (auto simp: point_parse_str_eq point_zero_def less_point_def)
  have "point_parse_str s = point_add (point_parse_str [c]) (point_parse_str t)"
    using point_parse_append[of "[c]" t] s by simp
  then show ?thesis using order.strict_trans2[OF c point_le_add] by simp
qed

lemma point_add_strict: "point_zero < q \<Longrightarrow> p < point_add p q"
  by (auto simp: point_add_def point_zero_def less_point_def)

lemma point16_add_strict: "point16_zero < q \<Longrightarrow> p < point16_add p q"
  by (auto simp: point16_add_def point16_zero_def less_point16_def)

lemma lines_utf16_pos: "s \<noteq> [] \<Longrightarrow> point16_zero < lines_utf16 (text_of s)"
proof -
  assume s: "s \<noteq> []"
  obtain r a l where r: "s = a @ l" "point_parse_str s = Point r (str_len l)" "lines_utf16 (text_of s) = Point16 r (utf16 l)"
    using row_of_text by blast
  have "r = 0 \<Longrightarrow> l \<noteq> []" using point_parse_pos[OF s] r(2) by (auto simp: less_point_def point_zero_def)
  then show ?thesis using r(3) utf16_pos[of l] by (cases "r = 0") (auto simp: less_point16_def point16_zero_def)
qed

interpretation point_positions: text_position point_dim point_parse_str point_cmp "\<lambda>p. column p < 2 ^ 32"
proof (unfold_locales, goal_cases)
  case (1 s p)
  then show ?case by (simp add: point_parse_append point_add_strict point_parse_pos)
next
  case (2 d)
  show ?case by (auto simp: point_parse_str_eq less_eq_point_def)
next
  case (3 s)
  then show ?case using point_parse_column[of s] by linarith
qed (rule point_cmp_eq)

interpretation point16_positions: text_position point16_dim "\<lambda>s. lines_utf16 (text_of s)" point16_cmp "\<lambda>p. column16 p < 2 ^ 32"
proof (unfold_locales, goal_cases)
  case (1 s p)
  then show ?case by (simp add: lines_utf16_append point16_add_strict lines_utf16_pos)
next
  case (2 d)
  show ?case by (auto simp: lines_utf16_def text_zero_def point_zero_def less_eq_point16_def)
next
  case (3 s)
  then show ?case using lines_utf16_column(1)[of s] utf16_le[of s] by linarith
qed (rule point16_cmp_eq)

section \<open>Finding the chunk\<close>

text \<open>What a search sees of a dimension \<open>F\<close>, from which it reads the position by \<open>key\<close>.\<close>

definition reads_position :: "('f, text_summary) dim_ops \<Rightarrow> (str \<Rightarrow> 'f) \<Rightarrow> ('f \<Rightarrow> 'd) \<Rightarrow> (str \<Rightarrow> 'd) \<Rightarrow> bool" where
  "reads_position F h key f \<longleftrightarrow> text_measure F h \<and> (\<forall>s. key (h s) = f s)"

lemma reads_self: "text_measure D f \<Longrightarrow> reads_position D f (\<lambda>d. d) f"
  by (simp add: reads_position_def)

lemma reads_pair: "text_measure D f \<Longrightarrow> text_measure E g \<Longrightarrow> reads_position (pair_dim D E) (\<lambda>s. (f s, g s)) fst f"
  by (simp add: reads_position_def pair_measure)

context text_position
begin

lemma measure_le: "measure p \<le> measure (p @ s)"
  using measure_less[of s p] by (cases "s = []") auto

lemma measure_prefix:
  assumes "x @ u = y @ v" "measure x \<le> measure y" shows "\<exists>w. y = x @ w \<and> u = w @ v"
proof -
  obtain us where "x = y @ us \<and> us @ u = v \<or> x @ us = y \<and> u = us @ v"
    using assms(1) by (auto simp: append_eq_append_conv2)
  then show ?thesis
  proof
    assume *: "x = y @ us \<and> us @ u = v"
    have "us = []" using measure_less[of us y] assms(2) * by (cases "us = []") auto
    then show ?thesis using * by simp
  qed auto
qed

lemma compare_measure:
  assumes "reads_position F h key measure" "chunks_ok ks" "str_len (chunks_text ks) < 2 ^ 32" "fits n"
  shows "compare n (key (dpos F chunk_sum ks)) = cmp_of n (measure (chunks_text ks))"
  using assms text_measure.dpos_measure[of F h ks] compare_eq measure_fits by (simp add: reads_position_def)

lemma position_mono:
  assumes "reads_position F h key measure" "chunks_ok ks" "str_len (chunks_text ks) < 2 ^ 32" "fits n"
  shows "mono_target F chunk_sum (\<lambda>d. compare n (key d)) ks"
proof -
  have "cmp_rank (compare n (key (dpos F chunk_sum (p @ q)))) \<le> cmp_rank (compare n (key (dpos F chunk_sum p)))"
    if "ks = p @ q @ r" for p q r
  proof -
    have "measure (chunks_text p) \<le> measure (chunks_text (p @ q))" using measure_le by simp
    moreover have "compare n (key (dpos F chunk_sum (p @ q))) = cmp_of n (measure (chunks_text (p @ q)))"
      "compare n (key (dpos F chunk_sum p)) = cmp_of n (measure (chunks_text p))"
      using compare_measure[OF assms(1), of "p @ q" n] compare_measure[OF assms(1), of p n] assms(2-4) that by simp_all
    ultimately show ?thesis by (auto simp: cmp_of_def)
  qed
  then show ?thesis by (simp add: mono_target_def)
qed

lemma position_passed:
  assumes "reads_position F h key measure" "chunks_ok ks" "str_len (chunks_text ks) < 2 ^ 32" "fits n"
  shows "passed F chunk_sum (\<lambda>d. compare n (key d)) bias ks \<longleftrightarrow>
     (if bias = Left then measure (chunks_text ks) < n else measure (chunks_text ks) \<le> n)"
  using compare_measure[OF assms] by (cases bias) (auto simp: passed_def passes_def)

text \<open>Where the scan for a position stops.\<close>

lemma position_scan:
  assumes "reads_position F h key measure" "rope_ok r" "str_len (rope_text r) < 2 ^ 32" "fits n"
    "seek_scan F chunk_sum (\<lambda>d. compare n (key d)) bias [] (tree_items r) = (p, q)"
  shows "p @ q = tree_items r" "measure (chunks_text p) \<le> n"
    "p \<noteq> [] \<Longrightarrow> bias = Left \<Longrightarrow> measure (chunks_text p) < n"
    "q = k # ks \<Longrightarrow> if bias = Left then n \<le> measure (chunks_text (p @ [k])) else n < measure (chunks_text (p @ [k]))"
proof -
  show items: "p @ q = tree_items r" using assms(5) by (simp add: seek_scan_def scan_append_items)
  then have ok: "chunks_ok (p @ q)" "str_len (chunks_text (p @ q)) < 2 ^ 32"
    using rope_okD(2)[OF assms(2)] assms(3) by (simp_all add: rope_text_def)
  have pass: "p \<noteq> [] \<Longrightarrow> if bias = Left then measure (chunks_text p) < n else measure (chunks_text p) \<le> n"
    using scan_passed[of "passed F chunk_sum (\<lambda>d. compare n (key d)) bias" "[]" "tree_items r" p q] assms(5)
      position_passed[OF assms(1) _ _ assms(4), of p bias] ok by (simp add: seek_scan_def)
  show "measure (chunks_text p) \<le> n"
    using pass measure_least[of n] by (cases "p = []") (auto split: if_splits)
  show "p \<noteq> [] \<Longrightarrow> bias = Left \<Longrightarrow> measure (chunks_text p) < n" using pass by simp
  show "if bias = Left then n \<le> measure (chunks_text (p @ [k])) else n < measure (chunks_text (p @ [k]))" if "q = k # ks"
    using scan_stop[of "passed F chunk_sum (\<lambda>d. compare n (key d)) bias" "[]" "tree_items r" p k ks] assms(5) that
      position_passed[OF assms(1) _ _ assms(4), of "p @ [k]" bias] ok by (auto simp: seek_scan_def split: if_splits)
qed

text \<open>The tree search and a fresh cursor find the same chunk.\<close>

lemma position_find:
  assumes "reads_position F h key measure" "rope_ok r" "str_len (rope_text r) < 2 ^ 32" "fits n"
    "seek_scan F chunk_sum (\<lambda>d. compare n (key d)) bias [] (tree_items r) = (p, q)"
  shows "stree_find F r (\<lambda>d. compare n (key d)) bias =
     (case q of [] \<Rightarrow> (h (chunks_text p), h (chunks_text p), None)
      | k # _ \<Rightarrow> (h (chunks_text p), h (chunks_text (p @ [k])), Some k))"
proof -
  have F: "text_measure F h" using assms(1) by (simp add: reads_position_def)
  have ok: "chunks_ok (tree_items r)" "str_len (chunks_text (tree_items r)) < 2 ^ 32"
    using rope_okD(2)[OF assms(2)] assms(3) by (simp_all add: rope_text_def)
  have "p @ q = tree_items r" using assms(5) by (simp add: seek_scan_def scan_append_items)
  then have "chunks_ok (p @ q)" using ok(1) by simp
  then have "\<And>k ks. q = k # ks \<Longrightarrow> dpos F chunk_sum (p @ [k]) = h (chunks_text (p @ [k]))" "dpos F chunk_sum p = h (chunks_text p)"
    by (intro text_measure.dpos_measure[OF F]; simp)+
  then show ?thesis
    using seek_laws.stree_find_ok[OF text_measure.measure_seek_laws[OF F] rope_okD(1)[OF assms(2)] ok(1)
        position_mono[OF assms(1) ok assms(4)]] assms(5)
    by (simp split: list.split)
qed

lemma position_seek:
  assumes "reads_position F h key measure" "rope_ok r" "str_len (rope_text r) < 2 ^ 32" "fits n" "height r < STACK_CAP"
    "seek_scan F chunk_sum (\<lambda>d. compare n (key d)) bias [] (tree_items r) = (p, q)"
  shows "\<exists>b c. cursor_seek F (\<lambda>d. compare n (key d)) bias (cursor_new F r) = Some (b, c) \<and>
     c_position c = h (chunks_text p) \<and> cursor_item c = Some (first_opt q)"
proof -
  have F: "text_measure F h" using assms(1) by (simp add: reads_position_def)
  have ok: "chunks_ok (tree_items r)" "str_len (chunks_text (tree_items r)) < 2 ^ 32"
    using rope_okD(2)[OF assms(2)] assms(3) by (simp_all add: rope_text_def)
  have "p @ q = tree_items r" using assms(6) by (simp add: seek_scan_def scan_append_items)
  then have okp: "chunks_ok p" using ok(1) by (metis chunks_ok_simps(3))
  have t: "c_tree (cursor_new F r) = r" by (simp add: cursor_new_def)
  have "dm_zero F = h []" using F by (simp add: text_measure_def)
  then have "compare n (key (dm_zero F)) = cmp_of n (measure [])"
    using assms(1,4) compare_eq measure_fits by (simp add: reads_position_def)
  then have "compare n (key (dm_zero F)) \<noteq> Less" using measure_least[of n] by (simp add: not_less)
  from dim_laws.cursor_seek_ok[OF text_measure.measure_dim_laws[OF F], of "cursor_new F r" "\<lambda>d. compare n (key d)" bias p q]
  obtain b c where c: "cursor_seek F (\<lambda>d. compare n (key d)) bias (cursor_new F r) = Some (b, c)" "cursor_at F chunk_sum c p q"
    using t rope_okD(1)[OF assms(2)] assms(5,6) ok(1) position_mono[OF assms(1) ok assms(4)]
      \<open>compare n (key (dm_zero F)) \<noteq> Less\<close> by auto
  then show ?thesis using cursor_item_ok(1)[OF c(2)] text_measure.dpos_measure[OF F okp]
    by (auto simp: cursor_at_def)
qed

text \<open>At a position that is inside the text, the chunk holds it.\<close>

lemma position_at:
  assumes "reads_position F h key measure" "rope_ok r" "str_len (rope_text r) < 2 ^ 32" "rope_text r = a @ b" "b \<noteq> []"
    "seek_scan F chunk_sum (\<lambda>d. compare (measure a) (key d)) bias [] (tree_items r) = (p, q)"
  shows "\<exists>a1 a2 ks. a = chunks_text p @ a1 \<and> q = canon (a1 @ a2) # ks \<and> str_len (a1 @ a2) \<le> 128"
proof -
  have fits: "fits (measure a)" using assms(3,4) by (intro measure_fits) simp
  note s = position_scan[OF assms(1-3) fits assms(6)]
  have all: "chunks_text p @ chunks_text q = a @ b" using s(1) assms(4) by (simp add: rope_text_def flip: chunks_text_simps(3))
  obtain a1 where a1: "a = chunks_text p @ a1" using measure_prefix[OF all s(2)] by blast
  have "q \<noteq> []"
  proof
    assume "q = []"
    then have "chunks_text p = a @ b" using all by simp
    then show False using s(2) measure_less[OF assms(5), of a] by simp
  qed
  then obtain k ks where q: "q = k # ks" by (cases q) auto
  have "k \<in> set (tree_items r)" using s(1) q by (metis in_set_conv_decomp)
  then have "chunk_ok k" using assms(2) by (simp add: rope_ok_def)
  then obtain t where t: "k = canon t" "str_len t \<le> 128" by (rule chunk_okE)
  have "measure a \<le> measure (chunks_text p @ t)" using s(4)[OF q] t(1) by (auto split: if_splits)
  moreover have "a @ b = (chunks_text p @ t) @ chunks_text ks" using all q t(1) by simp
  ultimately have "\<exists>w. chunks_text p @ t = a @ w" using measure_prefix by metis
  then show ?thesis using a1 q t by auto
qed

lemma find_at:
  assumes "reads_position F h key measure" "rope_ok r" "str_len (rope_text r) < 2 ^ 32" "rope_text r = a @ b" "b \<noteq> []"
  shows "\<exists>p a1 a2 x. a = p @ a1 \<and> str_len (a1 @ a2) \<le> 128 \<and>
     stree_find F r (\<lambda>d. compare (measure a) (key d)) bias = (h p, x, Some (canon (a1 @ a2)))"
proof -
  obtain p q where pq: "seek_scan F chunk_sum (\<lambda>d. compare (measure a) (key d)) bias [] (tree_items r) = (p, q)" by force
  obtain a1 a2 ks where a: "a = chunks_text p @ a1" "q = canon (a1 @ a2) # ks" "str_len (a1 @ a2) \<le> 128"
    using position_at[OF assms pq] by blast
  have "fits (measure a)" using assms(3,4) by (intro measure_fits) simp
  then show ?thesis using position_find[OF assms(1-3) _ pq] a by auto
qed

lemma seek_at:
  assumes "reads_position F h key measure" "rope_ok r" "str_len (rope_text r) < 2 ^ 32" "rope_text r = a @ b" "b \<noteq> []"
    "height r < STACK_CAP"
  shows "\<exists>p a1 a2 x c. a = p @ a1 \<and> str_len (a1 @ a2) \<le> 128 \<and>
     cursor_seek F (\<lambda>d. compare (measure a) (key d)) bias (cursor_new F r) = Some (x, c) \<and>
     c_position c = h p \<and> cursor_item c = Some (Some (canon (a1 @ a2)))"
proof -
  obtain p q where pq: "seek_scan F chunk_sum (\<lambda>d. compare (measure a) (key d)) bias [] (tree_items r) = (p, q)" by force
  obtain a1 a2 ks where a: "a = chunks_text p @ a1" "q = canon (a1 @ a2) # ks" "str_len (a1 @ a2) \<le> 128"
    using position_at[OF assms(1-5) pq] by blast
  have "fits (measure a)" using assms(3,4) by (intro measure_fits) simp
  then obtain x c where "cursor_seek F (\<lambda>d. compare (measure a) (key d)) bias (cursor_new F r) = Some (x, c)"
    "c_position c = h (chunks_text p)" "cursor_item c = Some (first_opt q)"
    using position_seek[OF assms(1-3) _ assms(6) pq] by blast
  then show ?thesis using a
    by (intro exI[of _ "chunks_text p"] exI[of _ a1] exI[of _ a2] exI[of _ x] exI[of _ c]) simp
qed

lemma compare_before: "str_len (a @ b) < 2 ^ 32 \<Longrightarrow> compare (measure a) (measure (a @ b)) = Less \<longleftrightarrow> b \<noteq> []"
  using measure_less[of b a] compare_eq[of "measure a" "measure (a @ b)"] measure_fits[of a] measure_fits[of "a @ b"]
  by (cases "b = []") auto

end

end
