(* ===== verification/RopeConvert.thy ===== *)
theory RopeConvert
  imports RopePosProps
begin

text \<open>
  The conversions of a rope: at every character boundary each gives the length of the text before it
  in the unit it converts to.
\<close>

section \<open>Summaries\<close>

lemma rope_ends:
  assumes "rope_ok r"
  shows "ts_len (rope_summary r) = str_len (rope_text r)" "ts_len_utf16 (rope_summary r) = utf16 (rope_text r)"
    "ts_lines (rope_summary r) = point_parse_str (rope_text r)"
    "lines_utf16 (rope_summary r) = lines_utf16 (text_of (rope_text r))"
  using rope_summary_ok[OF assms] by (simp_all add: text_of_fields)

text \<open>What is left over behind the start of a chunk.\<close>

lemma left_over:
  "csub (str_len (p @ a)) (str_len p) = Some (str_len a)"
  "offset16_sub (Offset16 (utf16 (p @ a))) (Offset16 (utf16 p)) = Some (Offset16 (utf16 a))"
  "point_sub (point_parse_str (p @ a)) (point_parse_str p) = Some (point_parse_str a)"
  "point16_sub (lines_utf16 (text_of (p @ a))) (lines_utf16 (text_of p)) = Some (lines_utf16 (text_of a))"
  by (simp_all add: csub_def offset16_sub_def point_parse_append point_sub_add lines_utf16_append point16_sub_add)

text \<open>The positions of a prefix of a chunk.\<close>

lemma chunk_prefix:
  assumes "str_len (p @ q) \<le> 128"
  shows "chunk_offset_to_point (canon (p @ q)) (str_len p) = point_parse_str p"
    "chunk_point_to_offset (canon (p @ q)) (point_parse_str p) = str_len p"
    "chunk_offset_to_offset_utf16 (canon (p @ q)) (str_len p) = utf16 p"
    "chunk_offset_utf16_to_offset (canon (p @ q)) (utf16 p) = str_len p"
    "chunk_offset_to_point_utf16 (canon (p @ q)) (str_len p) = lines_utf16 (text_of p)"
    "chunk_point_utf16_to_offset (canon (p @ q)) (lines_utf16 (text_of p)) = Some (str_len p)"
    "chunk_unclipped_point_utf16_to_point (canon (p @ q)) (Unclipped (lines_utf16 (text_of p))) = Some (point_parse_str p)"
    "chunk_point_to_point_utf16 (canon (p @ q)) (point_parse_str p) = lines_utf16 (text_of p)"
    "chunk_point_to_offset_utf16 (canon (p @ q)) (point_parse_str p) = utf16 p"
proof -
  have ok: "chunk_ok (canon (p @ q))" "ck_text (canon (p @ q)) = p @ q" using assms by simp_all
  note * = chunk_prefix_positions[OF ok]
  show "chunk_offset_to_point (canon (p @ q)) (str_len p) = point_parse_str p"
    "chunk_point_to_offset (canon (p @ q)) (point_parse_str p) = str_len p"
    "chunk_offset_to_offset_utf16 (canon (p @ q)) (str_len p) = utf16 p"
    "chunk_offset_utf16_to_offset (canon (p @ q)) (utf16 p) = str_len p"
    "chunk_offset_to_point_utf16 (canon (p @ q)) (str_len p) = lines_utf16 (text_of p)"
    "chunk_point_utf16_to_offset (canon (p @ q)) (lines_utf16 (text_of p)) = Some (str_len p)"
    "chunk_unclipped_point_utf16_to_point (canon (p @ q)) (Unclipped (lines_utf16 (text_of p))) = Some (point_parse_str p)"
    "chunk_point_to_point_utf16 (canon (p @ q)) (point_parse_str p) = lines_utf16 (text_of p)"
    using * by (simp_all add: chunk_point_to_point_utf16_def)
  have "row (point_parse_str p) \<le> row (point_parse_str (p @ q))"
    by (simp add: point_parse_append point_add_def)
  then show "chunk_point_to_offset_utf16 (canon (p @ q)) (point_parse_str p) = utf16 p"
    using * chunk_lines_ok[OF assms] by (simp add: chunk_point_to_offset_utf16_def)
qed

section \<open>The conversions\<close>

lemmas from_bytes = byte_positions.find_at[OF reads_pair[OF bytes.text_measure_axioms]]
lemmas from_utf16 = utf16_positions.find_at[OF reads_pair[OF utf16_units.text_measure_axioms]]
lemmas from_point = point_positions.find_at[OF reads_pair[OF points.text_measure_axioms]]
lemmas from_point16 = point16_positions.find_at[OF reads_pair[OF points16.text_measure_axioms]]
lemmas seek_point = point_positions.seek_at[OF reads_pair[OF points.text_measure_axioms]]
lemmas seek_point16 = point16_positions.seek_at[OF reads_pair[OF points16.text_measure_axioms]]

lemmas guards = utf16_positions.compare_before point_positions.compare_before point16_positions.compare_before

lemma rope_offset_to_offset_utf16_at:
  assumes "rope_ok r" "rope_text r = a @ b" "str_len (a @ b) < 2 ^ 32"
  shows "rope_offset_to_offset_utf16 r (str_len a) = Some (Offset16 (utf16 a))"
proof (cases "b = []")
  case True
  then show ?thesis using assms guards[of a b] by (simp add: rope_offset_to_offset_utf16_def rope_ends)
next
  case False
  have l: "str_len (rope_text r) < 2 ^ 32" using assms by simp
  obtain p a1 a2 x where f: "a = p @ a1" "str_len (a1 @ a2) \<le> 128"
    "stree_find (pair_dim bytes_dim utf16_dim) r (\<lambda>d. cmp_of (str_len a) (fst d)) Left =
       ((str_len p, Offset16 (utf16 p)), x, Some (canon (a1 @ a2)))"
    using from_bytes[OF utf16_units.text_measure_axioms assms(1) l assms(2) False] by blast
  have *: "Offset16 (utf16 (p @ a1)) = offset16_add (Offset16 (utf16 p)) (Offset16 (utf16 a1))"
    by (simp add: offset16_add_def)
  show ?thesis using False assms f(3) chunk_prefix[OF f(2)] left_over[of p a1] guards[of a b] byte_positions.measure_less[OF False, of a] *
    unfolding f(1) by (simp add: rope_offset_to_offset_utf16_def rope_ends del: str_len_simps)
qed

lemma rope_offset_utf16_to_offset_at:
  assumes "rope_ok r" "rope_text r = a @ b" "str_len (a @ b) < 2 ^ 32"
  shows "rope_offset_utf16_to_offset r (Offset16 (utf16 a)) = Some (str_len a)"
proof (cases "b = []")
  case True
  then show ?thesis using assms guards[of a b] by (simp add: rope_offset_utf16_to_offset_def rope_ends)
next
  case False
  have l: "str_len (rope_text r) < 2 ^ 32" using assms by simp
  obtain p a1 a2 x where f: "a = p @ a1" "str_len (a1 @ a2) \<le> 128"
    "stree_find (pair_dim utf16_dim bytes_dim) r (\<lambda>d. offset16_cmp (Offset16 (utf16 a)) (fst d)) Left =
       ((Offset16 (utf16 p), str_len p), x, Some (canon (a1 @ a2)))"
    using from_utf16[OF bytes.text_measure_axioms assms(1) l assms(2) False] by blast
  have *: "str_len (p @ a1) = str_len p + str_len a1"
    by (simp add: str_len_simps)
  show ?thesis using False assms f(3) chunk_prefix[OF f(2)] left_over[of p a1] guards[of a b] byte_positions.measure_less[OF False, of a] *
    unfolding f(1) by (simp add: rope_offset_utf16_to_offset_def rope_ends del: str_len_simps)
qed

lemma rope_offset_to_point_at:
  assumes "rope_ok r" "rope_text r = a @ b" "str_len (a @ b) < 2 ^ 32"
  shows "rope_offset_to_point r (str_len a) = Some (point_parse_str a)"
proof (cases "b = []")
  case True
  then show ?thesis using assms guards[of a b] by (simp add: rope_offset_to_point_def rope_ends)
next
  case False
  have l: "str_len (rope_text r) < 2 ^ 32" using assms by simp
  obtain p a1 a2 x where f: "a = p @ a1" "str_len (a1 @ a2) \<le> 128"
    "stree_find (pair_dim bytes_dim point_dim) r (\<lambda>d. cmp_of (str_len a) (fst d)) Left =
       ((str_len p, point_parse_str p), x, Some (canon (a1 @ a2)))"
    using from_bytes[OF points.text_measure_axioms assms(1) l assms(2) False] by blast
  have *: "point_parse_str (p @ a1) = point_add (point_parse_str p) (point_parse_str a1)"
    by (simp add: point_parse_append)
  show ?thesis using False assms f(3) chunk_prefix[OF f(2)] left_over[of p a1] guards[of a b] byte_positions.measure_less[OF False, of a] *
    unfolding f(1) by (simp add: rope_offset_to_point_def rope_ends del: str_len_simps)
qed

lemma rope_offset_to_point_utf16_at:
  assumes "rope_ok r" "rope_text r = a @ b" "str_len (a @ b) < 2 ^ 32"
  shows "rope_offset_to_point_utf16 r (str_len a) = Some (lines_utf16 (text_of a))"
proof (cases "b = []")
  case True
  then show ?thesis using assms guards[of a b] by (simp add: rope_offset_to_point_utf16_def rope_ends)
next
  case False
  have l: "str_len (rope_text r) < 2 ^ 32" using assms by simp
  obtain p a1 a2 x where f: "a = p @ a1" "str_len (a1 @ a2) \<le> 128"
    "stree_find (pair_dim bytes_dim point16_dim) r (\<lambda>d. cmp_of (str_len a) (fst d)) Left =
       ((str_len p, lines_utf16 (text_of p)), x, Some (canon (a1 @ a2)))"
    using from_bytes[OF points16.text_measure_axioms assms(1) l assms(2) False] by blast
  have *: "lines_utf16 (text_of (p @ a1)) = point16_add (lines_utf16 (text_of p)) (lines_utf16 (text_of a1))"
    by (simp add: lines_utf16_append)
  show ?thesis using False assms f(3) chunk_prefix[OF f(2)] left_over[of p a1] guards[of a b] byte_positions.measure_less[OF False, of a] *
    unfolding f(1) by (simp add: rope_offset_to_point_utf16_def rope_ends del: str_len_simps)
qed

lemma rope_point_to_point_utf16_at:
  assumes "rope_ok r" "rope_text r = a @ b" "str_len (a @ b) < 2 ^ 32"
  shows "rope_point_to_point_utf16 r (point_parse_str a) = Some (lines_utf16 (text_of a))"
proof (cases "b = []")
  case True
  then show ?thesis using assms guards[of a b] by (simp add: rope_point_to_point_utf16_def rope_ends)
next
  case False
  have l: "str_len (rope_text r) < 2 ^ 32" using assms by simp
  obtain p a1 a2 x where f: "a = p @ a1" "str_len (a1 @ a2) \<le> 128"
    "stree_find (pair_dim point_dim point16_dim) r (\<lambda>d. point_cmp (point_parse_str a) (fst d)) Left =
       ((point_parse_str p, lines_utf16 (text_of p)), x, Some (canon (a1 @ a2)))"
    using from_point[OF points16.text_measure_axioms assms(1) l assms(2) False] by blast
  have *: "lines_utf16 (text_of (p @ a1)) = point16_add (lines_utf16 (text_of p)) (lines_utf16 (text_of a1))"
    by (simp add: lines_utf16_append)
  show ?thesis using False assms f(3) chunk_prefix[OF f(2)] left_over[of p a1] guards[of a b] byte_positions.measure_less[OF False, of a] *
    unfolding f(1) by (simp add: rope_point_to_point_utf16_def rope_ends del: str_len_simps)
qed

lemma rope_point_to_offset_at:
  assumes "rope_ok r" "rope_text r = a @ b" "str_len (a @ b) < 2 ^ 32"
  shows "rope_point_to_offset r (point_parse_str a) = Some (str_len a)"
proof (cases "b = []")
  case True
  then show ?thesis using assms guards[of a b] by (simp add: rope_point_to_offset_def rope_ends)
next
  case False
  have l: "str_len (rope_text r) < 2 ^ 32" using assms by simp
  obtain p a1 a2 x where f: "a = p @ a1" "str_len (a1 @ a2) \<le> 128"
    "stree_find (pair_dim point_dim bytes_dim) r (\<lambda>d. point_cmp (point_parse_str a) (fst d)) Left =
       ((point_parse_str p, str_len p), x, Some (canon (a1 @ a2)))"
    using from_point[OF bytes.text_measure_axioms assms(1) l assms(2) False] by blast
  have *: "str_len (p @ a1) = str_len p + str_len a1"
    by (simp add: str_len_simps)
  show ?thesis using False assms f(3) chunk_prefix[OF f(2)] left_over[of p a1] guards[of a b] byte_positions.measure_less[OF False, of a] *
    unfolding f(1) by (simp add: rope_point_to_offset_def rope_ends del: str_len_simps)
qed

lemma rope_point_utf16_to_offset_at:
  assumes "rope_ok r" "rope_text r = a @ b" "str_len (a @ b) < 2 ^ 32"
  shows "rope_point_utf16_to_offset r (lines_utf16 (text_of a)) = Some (str_len a)"
proof (cases "b = []")
  case True
  then show ?thesis using assms guards[of a b] by (simp add: rope_point_utf16_to_offset_def rope_ends)
next
  case False
  have l: "str_len (rope_text r) < 2 ^ 32" using assms by simp
  obtain p a1 a2 x where f: "a = p @ a1" "str_len (a1 @ a2) \<le> 128"
    "stree_find (pair_dim point16_dim bytes_dim) r (\<lambda>d. point16_cmp (lines_utf16 (text_of a)) (fst d)) Left =
       ((lines_utf16 (text_of p), str_len p), x, Some (canon (a1 @ a2)))"
    using from_point16[OF bytes.text_measure_axioms assms(1) l assms(2) False] by blast
  have *: "str_len (p @ a1) = str_len p + str_len a1"
    by (simp add: str_len_simps)
  show ?thesis using False assms f(3) chunk_prefix[OF f(2)] left_over[of p a1] guards[of a b] byte_positions.measure_less[OF False, of a] *
    unfolding f(1) by (simp add: rope_point_utf16_to_offset_def rope_ends del: str_len_simps)
qed

lemma rope_unclipped_point_utf16_to_point_at:
  assumes "rope_ok r" "rope_text r = a @ b" "str_len (a @ b) < 2 ^ 32"
  shows "rope_unclipped_point_utf16_to_point r (Unclipped (lines_utf16 (text_of a))) = Some (point_parse_str a)"
proof (cases "b = []")
  case True
  then show ?thesis using assms guards[of a b] by (simp add: rope_unclipped_point_utf16_to_point_def rope_ends)
next
  case False
  have l: "str_len (rope_text r) < 2 ^ 32" using assms by simp
  obtain p a1 a2 x where f: "a = p @ a1" "str_len (a1 @ a2) \<le> 128"
    "stree_find (pair_dim point16_dim point_dim) r (\<lambda>d. point16_cmp (lines_utf16 (text_of a)) (fst d)) Left =
       ((lines_utf16 (text_of p), point_parse_str p), x, Some (canon (a1 @ a2)))"
    using from_point16[OF points.text_measure_axioms assms(1) l assms(2) False] by blast
  have *: "point_parse_str (p @ a1) = point_add (point_parse_str p) (point_parse_str a1)"
    by (simp add: point_parse_append)
  show ?thesis using False assms f(3) chunk_prefix[OF f(2)] left_over[of p a1] guards[of a b] byte_positions.measure_less[OF False, of a] *
    unfolding f(1) by (simp add: rope_unclipped_point_utf16_to_point_def rope_ends del: str_len_simps)
qed

lemma rope_point_utf16_to_point_at:
  assumes "rope_ok r" "rope_text r = a @ b" "str_len (a @ b) < 2 ^ 32" "height r < STACK_CAP"
  shows "rope_point_utf16_to_point r (lines_utf16 (text_of a)) = Some (point_parse_str a)"
proof (cases "b = []")
  case True
  then show ?thesis using assms guards[of a b] by (simp add: rope_point_utf16_to_point_def rope_ends)
next
  case False
  have l: "str_len (rope_text r) < 2 ^ 32" using assms by simp
  obtain p a1 a2 x c where f: "a = p @ a1" "str_len (a1 @ a2) \<le> 128"
    "cursor_seek (pair_dim point16_dim point_dim) (\<lambda>d. point16_cmp (lines_utf16 (text_of a)) (fst d)) Left
       (cursor_new (pair_dim point16_dim point_dim) r) = Some (x, c)"
    "c_position c = (lines_utf16 (text_of p), point_parse_str p)" "cursor_item c = Some (Some (canon (a1 @ a2)))"
    using seek_point16[OF points.text_measure_axioms assms(1) l assms(2) False assms(4)] by blast
  have *: "point_parse_str (p @ a1) = point_add (point_parse_str p) (point_parse_str a1)"
    by (simp add: point_parse_append)
  show ?thesis using False assms f(3-5) chunk_prefix[OF f(2)] left_over[of p a1] guards[of a b] *
    unfolding f(1) by (simp add: rope_point_utf16_to_point_def rope_ends Let_def del: str_len_simps)
qed

lemma rope_point_to_offset_utf16_at:
  assumes "rope_ok r" "rope_text r = a @ b" "str_len (a @ b) < 2 ^ 32" "height r < STACK_CAP"
  shows "rope_point_to_offset_utf16 r (point_parse_str a) = Some (Offset16 (utf16 a))"
proof (cases "b = []")
  case True
  then show ?thesis using assms guards[of a b] by (simp add: rope_point_to_offset_utf16_def rope_ends)
next
  case False
  have l: "str_len (rope_text r) < 2 ^ 32" using assms by simp
  obtain p a1 a2 x c where f: "a = p @ a1" "str_len (a1 @ a2) \<le> 128"
    "cursor_seek (pair_dim point_dim utf16_dim) (\<lambda>d. point_cmp (point_parse_str a) (fst d)) Left
       (cursor_new (pair_dim point_dim utf16_dim) r) = Some (x, c)"
    "c_position c = (point_parse_str p, Offset16 (utf16 p))" "cursor_item c = Some (Some (canon (a1 @ a2)))"
    using seek_point[OF utf16_units.text_measure_axioms assms(1) l assms(2) False assms(4)] by blast
  have *: "Offset16 (utf16 (p @ a1)) = offset16_add (Offset16 (utf16 p)) (Offset16 (utf16 a1))"
    by (simp add: offset16_add_def)
  show ?thesis using False assms f(3-5) chunk_prefix[OF f(2)] left_over[of p a1] guards[of a b] *
    unfolding f(1) by (simp add: rope_point_to_offset_utf16_def rope_ends Let_def del: str_len_simps)
qed

lemma rope_point_utf16_to_offset_utf16_at:
  assumes "rope_ok r" "rope_text r = a @ b" "str_len (a @ b) < 2 ^ 32" "height r < STACK_CAP"
  shows "rope_point_utf16_to_offset_utf16 r (lines_utf16 (text_of a)) = Some (Offset16 (utf16 a))"
proof (cases "b = []")
  case True
  then show ?thesis using assms guards[of a b] by (simp add: rope_point_utf16_to_offset_utf16_def rope_ends)
next
  case False
  have l: "str_len (rope_text r) < 2 ^ 32" using assms by simp
  obtain p a1 a2 x c where f: "a = p @ a1" "str_len (a1 @ a2) \<le> 128"
    "cursor_seek (pair_dim point16_dim utf16_dim) (\<lambda>d. point16_cmp (lines_utf16 (text_of a)) (fst d)) Left
       (cursor_new (pair_dim point16_dim utf16_dim) r) = Some (x, c)"
    "c_position c = (lines_utf16 (text_of p), Offset16 (utf16 p))" "cursor_item c = Some (Some (canon (a1 @ a2)))"
    using seek_point16[OF utf16_units.text_measure_axioms assms(1) l assms(2) False assms(4)] by blast
  have *: "Offset16 (utf16 (p @ a1)) = offset16_add (Offset16 (utf16 p)) (Offset16 (utf16 a1))"
    by (simp add: offset16_add_def)
  show ?thesis using False assms f(3-5) chunk_prefix[OF f(2)] left_over[of p a1] guards[of a b] *
    unfolding f(1) by (simp add: rope_point_utf16_to_offset_utf16_def rope_ends Let_def del: str_len_simps)
qed

end
