(* ===== verification/RopeClip.thy ===== *)
theory RopeClip
  imports RopeConvert
begin

text \<open>
  Clipping: a position that is not one of the text is moved to a near one. Offsets move to the
  nearest character boundary, points to a boundary of the graphemes of a line; rows are kept and
  lines are not left.
\<close>

section \<open>Boundaries inside a part of a text\<close>

lemma boundary_inner:
  assumes "str_len p \<le> i" "i \<le> str_len p + str_len s"
  shows "str_is_char_boundary (p @ s @ q) i \<longleftrightarrow> str_is_char_boundary s (i - str_len p)"
proof
  assume "str_is_char_boundary (p @ s @ q) i"
  then obtain a b where ab: "a @ b = p @ s @ q" "i = str_len a" by (auto simp: str_boundary_iff)
  obtain u where u: "a = p @ u" "s @ q = u @ b" by (rule str_prefix_split[of p "s @ q" a b]) (use ab assms in auto)
  have "str_len u \<le> str_len s" using u(1) ab(2) assms(2) by simp
  with u(2)[symmetric] obtain w where "s = u @ w" by (rule str_prefix_split)
  then show "str_is_char_boundary s (i - str_len p)" using u(1) ab(2) by (auto simp: str_boundary_iff)
next
  assume "str_is_char_boundary s (i - str_len p)"
  then obtain a b where ab: "s = a @ b" "i - str_len p = str_len a" by (auto simp: str_boundary_iff)
  then have "i = str_len (p @ a)" using assms(1) by simp
  then show "str_is_char_boundary (p @ s @ q) i" using ab(1) unfolding str_boundary_iff
    by (intro exI[of _ "p @ a"] exI[of _ "b @ q"]) simp
qed

lemma floor_inner:
  assumes "str_len p \<le> i" "i \<le> str_len p + str_len s"
  shows "str_floor_char_boundary (p @ s @ q) i = str_len p + str_floor_char_boundary s (i - str_len p)"
proof (rule antisym)
  let ?f = "str_floor_char_boundary (p @ s @ q) i" and ?g = "str_floor_char_boundary s (i - str_len p)"
  have p: "str_is_char_boundary (p @ s @ q) (str_len p)" using boundary_inner[of p "str_len p" s q] by simp
  have f: "str_is_char_boundary (p @ s @ q) ?f" "?f \<le> i" "str_len p \<le> ?f"
    using floor_boundary(1,2)[of "p @ s @ q" i] floor_boundary(3)[OF p assms(1)] by auto
  then have "str_is_char_boundary s (?f - str_len p)" using boundary_inner[of p ?f s q] assms by simp
  moreover have "?f - str_len p \<le> i - str_len p" using f(2) by simp
  ultimately have "?f - str_len p \<le> ?g" by (rule floor_boundary(3))
  then show "?f \<le> str_len p + ?g" by simp
  have g: "str_is_char_boundary s ?g" "?g \<le> i - str_len p" using floor_boundary(1,2) by auto
  then have "str_is_char_boundary (p @ s @ q) (str_len p + ?g)" using boundary_inner[of p "str_len p + ?g" s q] assms by simp
  moreover have "str_len p + ?g \<le> i" using g(2) assms(1) by simp
  ultimately show "str_len p + ?g \<le> ?f" by (rule floor_boundary(3))
qed

lemma ceil_inner:
  assumes "str_len p \<le> i" "i \<le> str_len p + str_len s"
  shows "str_ceil_char_boundary (p @ s @ q) i = str_len p + str_ceil_char_boundary s (i - str_len p)"
proof (rule antisym)
  let ?f = "str_ceil_char_boundary (p @ s @ q) i" and ?g = "str_ceil_char_boundary s (i - str_len p)"
  have in_s: "i - str_len p \<le> str_len s" and in_all: "i \<le> str_len (p @ s @ q)" using assms by simp_all
  note f = ceil_boundary(1)[of "p @ s @ q" i] ceil_boundary(2)[OF in_all] ceil_boundary(3)[of "p @ s @ q" _ i]
    and g = ceil_boundary(1)[of s "i - str_len p"] ceil_boundary(2)[OF in_s] ceil_boundary(3)[of s _ "i - str_len p"]
  have "str_is_char_boundary (p @ s @ q) (str_len p + str_len s)" using boundary_inner[of p "str_len p + str_len s" s q] by simp
  then have le: "?f \<le> str_len p + str_len s" using f(3) assms(2) by blast
  then have "str_is_char_boundary s (?f - str_len p)" using boundary_inner[of p ?f s q] f(1,2) assms(1) by simp
  moreover have "i - str_len p \<le> ?f - str_len p" using f(2) by simp
  ultimately have "?g \<le> ?f - str_len p" by (rule g(3))
  then show "str_len p + ?g \<le> ?f" using f(2) assms(1) by simp
  have "?g \<le> str_len s" using g(1) boundary_le by blast
  then have "str_is_char_boundary (p @ s @ q) (str_len p + ?g)" using boundary_inner[of p "str_len p + ?g" s q] g(1) by simp
  moreover have "i \<le> str_len p + ?g" using g(2) by simp
  ultimately show "?f \<le> str_len p + ?g" by (rule f(3))
qed

section \<open>Offsets\<close>

text \<open>The chunk found for an offset.\<close>

lemma find_offset:
  assumes "rope_ok r" "i \<le> str_len (rope_text r)" "rope_text r \<noteq> []" "str_len (rope_text r) < 2 ^ 32"
  obtains p s q x where "rope_text r = p @ s @ q" "str_len s \<le> 128" "str_len p \<le> i" "i \<le> str_len p + str_len s"
    "stree_find bytes_dim r (cmp_of i) Left = (str_len p, x, Some (canon s))"
proof -
  note R = reads_self[OF bytes.text_measure_axioms]
  obtain p q where pq: "seek_scan bytes_dim chunk_sum (\<lambda>d. cmp_of i d) Left [] (tree_items r) = (p, q)" by force
  note s = byte_positions.position_scan[OF R assms(1,4) TrueI pq]
  note f = byte_positions.position_find[OF R assms(1,4) TrueI pq]
  have all: "rope_text r = chunks_text p @ chunks_text q" using s(1) by (simp add: rope_text_def flip: chunks_text_simps(3))
  have "q \<noteq> []"
  proof
    assume "q = []"
    then have "rope_text r = chunks_text p" using all by simp
    moreover from this have "p \<noteq> []" using assms(3) by auto
    ultimately show False using s(3) assms(2) by simp
  qed
  then obtain k ks where q: "q = k # ks" by (cases q) auto
  have "k \<in> set (tree_items r)" using s(1) q by (metis in_set_conv_decomp)
  then have "chunk_ok k" using assms(1) by (simp add: rope_ok_def)
  then obtain t where t: "k = canon t" "str_len t \<le> 128" by (rule chunk_okE)
  show ?thesis
    by (rule that[of "chunks_text p" t "chunks_text ks" "str_len (chunks_text (p @ [k]))"])
      (use all q t s(2,4) f in auto)
qed

lemma find_beyond:
  assumes "rope_ok r" "str_len (rope_text r) < i" "str_len (rope_text r) < 2 ^ 32"
  shows "stree_find bytes_dim r (cmp_of i) Left = (str_len (rope_text r), str_len (rope_text r), None)"
proof -
  note R = reads_self[OF bytes.text_measure_axioms]
  obtain p q where pq: "seek_scan bytes_dim chunk_sum (\<lambda>d. cmp_of i d) Left [] (tree_items r) = (p, q)" by force
  note s = byte_positions.position_scan[OF R assms(1,3) TrueI pq]
  note f = byte_positions.position_find[OF R assms(1,3) TrueI pq]
  have all: "rope_text r = chunks_text p @ chunks_text q" using s(1) by (simp add: rope_text_def flip: chunks_text_simps(3))
  have "q = []" using s(4) all assms(2) by (cases q) auto
  then show ?thesis using f all by auto
qed

lemma find_empty:
  assumes "rope_ok r" "rope_text r = []"
  shows "stree_find bytes_dim r (cmp_of i) Left = (0, 0, None)"
proof -
  have "tree_items r = []" using rope_text_empty[OF assms(1)] assms(2) by simp
  then have "seek_scan bytes_dim chunk_sum (\<lambda>d. cmp_of i d) Left [] (tree_items r) = ([], [])"
    by (simp add: seek_scan_def)
  from byte_positions.position_find[OF reads_self[OF bytes.text_measure_axioms] assms(1) _ TrueI this] assms(2)
  show ?thesis by simp
qed

lemma rope_empty_iff: "rope_ok r \<Longrightarrow> is_empty r \<longleftrightarrow> rope_text r = []"
  using wf_tree_is_empty[of chunk_sum r] rope_text_empty[of r] rope_okD(1)[of r] by simp

lemma rope_is_char_boundary_ok:
  assumes "rope_ok r" "str_len (rope_text r) < 2 ^ 32"
  shows "rope_is_char_boundary r i = Some (str_is_char_boundary (rope_text r) i)"
proof (cases "rope_text r = []")
  case True
  then have "str_is_char_boundary (rope_text r) i \<longleftrightarrow> i = 0" by (simp add: str_boundary_iff)
  then show ?thesis using rope_empty_iff[OF assms(1)] True by (simp add: rope_is_char_boundary_def)
next
  case ne: False
  show ?thesis
  proof (cases "i \<le> str_len (rope_text r)")
    case True
    obtain p s q x where f: "rope_text r = p @ s @ q" "str_len s \<le> 128" "str_len p \<le> i" "i \<le> str_len p + str_len s"
      "stree_find bytes_dim r (cmp_of i) Left = (str_len p, x, Some (canon s))"
      using find_offset[OF assms(1) True ne assms(2)] .
    have "\<not> is_empty r" using rope_empty_iff[OF assms(1)] ne by simp
    then show ?thesis using f(5) f(3) boundary_inner[OF f(3,4), of q]
      unfolding f(1) by (simp add: rope_is_char_boundary_def csub_def chunk_is_char_boundary_ok[OF f(2)])
  next
    case False
    then have "\<not> str_is_char_boundary (rope_text r) i" using boundary_le by blast
    then show ?thesis using find_beyond[OF assms(1) _ assms(2), of i] False rope_empty_iff[OF assms(1)] ne
      by (simp add: rope_is_char_boundary_def csub_def)
  qed
qed

lemma rope_assert_char_boundary_ok:
  assumes "rope_ok r" "str_len (rope_text r) < 2 ^ 32"
  shows "rope_assert_char_boundary panic r i =
    (if str_is_char_boundary (rope_text r) i then Some True else if panic then None else Some False)"
proof (cases "rope_text r = []")
  case True
  then have "str_is_char_boundary (rope_text r) i \<longleftrightarrow> i = 0" by (simp add: str_boundary_iff)
  then show ?thesis using rope_empty_iff[OF assms(1)] True find_beyond[OF assms(1) _ assms(2), of i]
    by (simp add: rope_assert_char_boundary_def)
next
  case ne: False
  show ?thesis
  proof (cases "i \<le> str_len (rope_text r)")
    case True
    obtain p s q x where f: "rope_text r = p @ s @ q" "str_len s \<le> 128" "str_len p \<le> i" "i \<le> str_len p + str_len s"
      "stree_find bytes_dim r (cmp_of i) Left = (str_len p, x, Some (canon s))"
      using find_offset[OF assms(1) True ne assms(2)] .
    have "\<not> is_empty r" using rope_empty_iff[OF assms(1)] ne by simp
    then show ?thesis using f(5) f(3) boundary_inner[OF f(3,4), of q]
      unfolding f(1)
      by (simp add: rope_assert_char_boundary_def assert_char_boundary_def csub_def chunk_is_char_boundary_ok[OF f(2)])
  next
    case False
    then have "\<not> str_is_char_boundary (rope_text r) i" using boundary_le by blast
    then show ?thesis using find_beyond[OF assms(1) _ assms(2), of i] False rope_empty_iff[OF assms(1)] ne
      by (simp add: rope_assert_char_boundary_def csub_def)
  qed
qed

lemma rope_clip_offset_ok:
  assumes "rope_ok r" "str_len (rope_text r) < 2 ^ 32"
  shows "rope_clip_offset r i bias = Some (if i > str_len (rope_text r) then str_len (rope_text r)
     else if bias = Left then str_floor_char_boundary (rope_text r) i else str_ceil_char_boundary (rope_text r) i)"
proof (cases "i < str_len (rope_text r)")
  case True
  then have ne: "rope_text r \<noteq> []" and le: "i \<le> str_len (rope_text r)" by auto
  obtain p s q x where f: "rope_text r = p @ s @ q" "str_len s \<le> 128" "str_len p \<le> i" "i \<le> str_len p + str_len s"
    "stree_find bytes_dim r (cmp_of i) Left = (str_len p, x, Some (canon s))"
    using find_offset[OF assms(1) le ne assms(2)] .
  have "rope_floor_char_boundary r i = Some (str_floor_char_boundary (rope_text r) i)"
    "rope_ceil_char_boundary r i = Some (str_ceil_char_boundary (rope_text r) i)"
    using True f(3,5) floor_inner[OF f(3,4)] ceil_inner[OF f(3,4)] unfolding f(1)
    by (simp_all add: rope_floor_char_boundary_def rope_ceil_char_boundary_def rope_len_ok[OF assms(1)] csub_def f(1))
  then show ?thesis using True by (cases bias) (simp_all add: rope_clip_offset_def)
next
  case False
  have ends: "str_floor_char_boundary (rope_text r) (str_len (rope_text r)) = str_len (rope_text r)"
    "str_ceil_char_boundary (rope_text r) (str_len (rope_text r)) = str_len (rope_text r)"
    using floor_beyond[of "rope_text r" "str_len (rope_text r)"] ceil_boundary(2)[of "str_len (rope_text r)" "rope_text r"]
      ceil_boundary(3)[of "rope_text r" "str_len (rope_text r)" "str_len (rope_text r)"] by simp_all
  show ?thesis
  proof (cases bias)
    case Left
    then show ?thesis using False ends
      by (auto simp: rope_clip_offset_def rope_floor_char_boundary_def rope_len_ok[OF assms(1)])
  next
    case Right
    have "rope_ceil_char_boundary r (str_len (rope_text r)) = Some (str_len (rope_text r))"
    proof (cases "rope_text r = []")
      case True
      then show ?thesis using find_empty[OF assms(1)]
        by (simp add: rope_ceil_char_boundary_def rope_len_ok[OF assms(1)] csub_def)
    next
      case ne: False
      obtain p s q x where f: "rope_text r = p @ s @ q" "str_len s \<le> 128" "str_len p \<le> str_len (rope_text r)"
        "str_len (rope_text r) \<le> str_len p + str_len s"
        "stree_find bytes_dim r (cmp_of (str_len (rope_text r))) Left = (str_len p, x, Some (canon s))"
        using find_offset[OF assms(1) order.refl ne assms(2)] .
      then show ?thesis using ends(2) ceil_inner[OF f(3,4), of q]
        by (simp add: rope_ceil_char_boundary_def rope_len_ok[OF assms(1)] csub_def)
    qed
    then show ?thesis using False Right ends
      by (cases "i = str_len (rope_text r)") (auto simp: rope_clip_offset_def rope_ceil_char_boundary_def rope_len_ok[OF assms(1)])
  qed
qed

end
