(* ===== verification/RopeClipPoint.thy ===== *)
theory RopeClipPoint
  imports RopeClip
begin

text \<open>
  Clipping points and UTF-16 positions in a rope, the length of a line, and the properties of
  positions.
\<close>

section \<open>The chunk that a position falls into\<close>

context text_position
begin

lemma find_right:
  assumes "reads_position F h key measure" "rope_ok r" "str_len (rope_text r) < 2 ^ 32" "fits n" "n < measure (rope_text r)"
  obtains p s q x where "rope_text r = p @ s @ q" "str_len s \<le> 128" "measure p \<le> n" "n < measure (p @ s)"
    "stree_find F r (\<lambda>d. compare n (key d)) Right = (h p, x, Some (canon s))"
proof -
  obtain p q where pq: "seek_scan F chunk_sum (\<lambda>d. compare n (key d)) Right [] (tree_items r) = (p, q)" by force
  note s = position_scan[OF assms(1-4) pq]
  note f = position_find[OF assms(1-4) pq]
  have all: "rope_text r = chunks_text p @ chunks_text q" using s(1) by (simp add: rope_text_def flip: chunks_text_simps(3))
  have "q \<noteq> []" using s(2) all assms(5) by auto
  then obtain k ks where q: "q = k # ks" by (cases q) auto
  have "k \<in> set (tree_items r)" using s(1) q by (metis in_set_conv_decomp)
  then have "chunk_ok k" using assms(2) by (simp add: rope_ok_def)
  then obtain t where t: "k = canon t" "str_len t \<le> 128" by (rule chunk_okE)
  show ?thesis
    by (rule that[of "chunks_text p" t "chunks_text ks" "h (chunks_text (p @ [k]))"])
      (use all q t s(2,4) f in auto)
qed

lemma find_right_end:
  assumes "reads_position F h key measure" "rope_ok r" "str_len (rope_text r) < 2 ^ 32" "fits n" "measure (rope_text r) \<le> n"
  shows "stree_find F r (\<lambda>d. compare n (key d)) Right = (h (rope_text r), h (rope_text r), None)"
proof -
  obtain p q where pq: "seek_scan F chunk_sum (\<lambda>d. compare n (key d)) Right [] (tree_items r) = (p, q)" by force
  note s = position_scan[OF assms(1-4) pq]
  note f = position_find[OF assms(1-4) pq]
  have all: "rope_text r = chunks_text (p @ q)" using s(1) by (simp add: rope_text_def)
  have "q = []"
  proof (cases q)
    case (Cons k ks)
    then have "n < measure (chunks_text (p @ [k]))" using s(4)[OF Cons] by simp
    moreover have "measure (chunks_text (p @ [k])) \<le> measure (rope_text r)"
      using measure_le[of "chunks_text (p @ [k])" "chunks_text ks"] all Cons by simp
    ultimately show ?thesis using assms(5) by simp
  qed simp
  then show ?thesis using f all by simp
qed

end

lemmas find_point = point_positions.find_right[OF reads_self[OF points.text_measure_axioms]]
lemmas find_point_end = point_positions.find_right_end[OF reads_self[OF points.text_measure_axioms]]
lemmas find_point16 = point16_positions.find_right[OF reads_self[OF points16.text_measure_axioms]]
lemmas find_point16_end = point16_positions.find_right_end[OF reads_self[OF points16.text_measure_axioms]]
lemmas find_utf16 = utf16_positions.find_right[OF reads_self[OF utf16_units.text_measure_axioms]]
lemmas find_utf16_end = utf16_positions.find_right_end[OF reads_self[OF utf16_units.text_measure_axioms]]

section \<open>Points\<close>

text \<open>A point before the end of a text falls into one of its rows.\<close>

lemma point_row:
  assumes "p < point_parse_str s"
  obtains a l b where "row_at s (row p) a l b" "b = [] \<Longrightarrow> column p < str_len l"
proof -
  let ?ls = "split_nl s"
  have "row p \<le> length ?ls - 1" using assms by (auto simp: point_parse_str_eq less_point_def)
  then have "row p < length ?ls" using split_nl_ne[of s] by (cases ?ls) auto
  then obtain a b where r: "row_at s (row p) a (?ls ! row p) b" using row_at_exists by blast
  have "column p < str_len (?ls ! row p)" if "b = []"
  proof -
    have "point_parse_str (a @ ?ls ! row p) = Point (row p) (str_len (?ls ! row p))"
      using row_prefix_point[OF r, of "?ls ! row p" "[]"] by simp
    moreover have "s = a @ ?ls ! row p" using r that by (simp add: row_at_def)
    ultimately show ?thesis using assms by (simp add: less_point_def)
  qed
  then show ?thesis using that r by blast
qed

definition clipped_point :: "str \<Rightarrow> point \<Rightarrow> bias \<Rightarrow> point \<Rightarrow> bool" where
  "clipped_point s p bias c \<longleftrightarrow>
     (\<exists>a b. s = a @ b \<and> c = point_parse_str a \<and> (p < point_parse_str s \<longrightarrow> row c = row p) \<and>
        (case bias of Left \<Rightarrow> c \<le> p | Right \<Rightarrow> p \<le> c \<or> b = [] \<or> hd b = NEWLINE))"

lemma chunk_clip_point_ok:
  assumes "str_len s \<le> 128" "list_all is_scalar s" "p < point_parse_str s" "\<And>l. list_all is_scalar l \<Longrightarrow> NEWLINE \<notin> set l \<Longrightarrow> graphemes_ok g l"
  shows "\<exists>a b. chunk_clip_point g (canon s) p bias = Some (point_parse_str a) \<and> s = a @ b \<and>
    row (point_parse_str a) = row p \<and>
    (case bias of Left \<Rightarrow> point_parse_str a \<le> p | Right \<Rightarrow> p \<le> point_parse_str a \<or> (b \<noteq> [] \<and> hd b = NEWLINE))"
proof -
  obtain a l b where r: "row_at s (row p) a l b" "b = [] \<Longrightarrow> column p < str_len l"
    using point_row[OF assms(3)] by blast
  have s: "s = a @ l @ b" "b = [] \<or> hd b = NEWLINE" "NEWLINE \<notin> set l" using r(1) by (simp_all add: row_at_def)
  then have "list_all is_scalar l" using assms(2) by simp
  then obtain c where c: "chunk_clip_point g (canon s) (Point (row p) (column p)) bias = Some (Point (row p) c)"
    "clipped_to (clip_stop g l) bias (min (column p) (str_len l)) c"
    using chunk_clip_point_row[OF r(1) assms(1) assms(4)] s(3) by blast
  have "str_is_char_boundary l c" using c(2) by (simp add: clipped_to_def clip_stop_def)
  then obtain l1 l2 where l: "l = l1 @ l2" "c = str_len l1" by (auto simp: str_boundary_iff)
  have pt: "point_parse_str (a @ l1) = Point (row p) c" using row_prefix_point[OF r(1) l(1)] l(2) by simp
  have ends: "l2 @ b \<noteq> [] \<and> hd (l2 @ b) = NEWLINE" if "c < column p" "bias = Right"
  proof -
    have "min (column p) (str_len l) \<le> c" using c(2) that(2) by (simp add: clipped_to_def)
    then have "str_len l2 = 0" "str_len l \<le> column p" using that(1) l by (simp_all add: min_def split: if_splits)
    then show ?thesis using s(2) r(2) by auto
  qed
  have le: "c \<le> column p" if "bias = Left" using c(2) that by (simp add: clipped_to_def)
  show ?thesis
    by (rule exI[of _ "a @ l1"], rule exI[of _ "l2 @ b"])
      (use c(1) pt s(1) l(1) ends le in \<open>cases bias; auto simp: less_eq_point_def not_le\<close>)
qed

lemma rope_clip_point_ok:
  assumes "rope_ok r" "str_len (rope_text r) < 2 ^ 32" "list_all is_scalar (rope_text r)" "column p < 2 ^ 32"
    "\<And>l. list_all is_scalar l \<Longrightarrow> NEWLINE \<notin> set l \<Longrightarrow> graphemes_ok g l"
  shows "\<exists>c. rope_clip_point g r p bias = Some c \<and> clipped_point (rope_text r) p bias c"
proof (cases "p < point_parse_str (rope_text r)")
  case True
  obtain u s v x where f: "rope_text r = u @ s @ v" "str_len s \<le> 128" "point_parse_str u \<le> p" "p < point_parse_str (u @ s)"
    "stree_find point_dim r (\<lambda>d. point_cmp p d) Right = (point_parse_str u, x, Some (canon s))"
    using find_point[OF assms(1,2,4) True] by blast
  obtain o1 where o1: "point_sub p (point_parse_str u) = Some o1" "point_add (point_parse_str u) o1 = p"
    using point_sub_ok[OF f(3)] by blast
  have lt: "o1 < point_parse_str s"
  proof (rule ccontr)
    assume "\<not> o1 < point_parse_str s"
    then have "point_add (point_parse_str u) (point_parse_str s) \<le> point_add (point_parse_str u) o1"
      unfolding point_add_mono by simp
    then show False using f(4) o1(2) by (simp add: point_parse_append)
  qed
  have sc: "list_all is_scalar s" using assms(3) f(1) by simp
  obtain a b where ab: "chunk_clip_point g (canon s) o1 bias = Some (point_parse_str a)" "s = a @ b"
    "row (point_parse_str a) = row o1"
    "case bias of Left \<Rightarrow> point_parse_str a \<le> o1 | Right \<Rightarrow> o1 \<le> point_parse_str a \<or> (b \<noteq> [] \<and> hd b = NEWLINE)"
    using chunk_clip_point_ok[OF f(2) sc lt assms(5)] by blast
  have clip: "rope_clip_point g r p bias = Some (point_parse_str (u @ a))"
    using f(5) o1(1) ab(1) by (simp add: rope_clip_point_def point_parse_append)
  have row: "row (point_parse_str (u @ a)) = row p"
    unfolding o1(2)[symmetric] using ab(3) by (simp add: point_parse_append point_add_def)
  have "case bias of Left \<Rightarrow> point_parse_str (u @ a) \<le> p | Right \<Rightarrow> p \<le> point_parse_str (u @ a) \<or> b @ v = [] \<or> hd (b @ v) = NEWLINE"
    unfolding o1(2)[symmetric] using ab(4) by (cases bias) (auto simp: point_parse_append point_add_mono)
  then have "clipped_point (rope_text r) p bias (point_parse_str (u @ a))"
    unfolding clipped_point_def by (intro exI[of _ "u @ a"] exI[of _ "b @ v"]) (simp add: row f(1) ab(2))
  then show ?thesis using clip by simp
next
  case False
  then have final: "stree_find point_dim r (\<lambda>d. point_cmp p d) Right =
      (point_parse_str (rope_text r), point_parse_str (rope_text r), None)"
    using find_point_end[OF assms(1,2,4)] by simp
  have "clipped_point (rope_text r) p bias (point_parse_str (rope_text r))"
    unfolding clipped_point_def
    by (rule exI[of _ "rope_text r"], rule exI[of _ "[]"]) (use False in \<open>auto simp: not_less split: bias.split\<close>)
  then show ?thesis using final rope_ends[OF assms(1)] by (simp add: rope_clip_point_def)
qed

text \<open>A point beyond the end of its line, so also the one with the largest column, is clipped to the
  end of the line.\<close>

lemma rope_clip_beyond:
  assumes "rope_ok r" "str_len (rope_text r) < 2 ^ 32" "row_at (rope_text r) i a l b" "str_len l \<le> col" "col < 2 ^ 32"
  shows "rope_clip_point g r (Point i col) bias = Some (Point i (str_len l))"
proof -
  let ?p = "Point i col"
  have s: "rope_text r = (a @ l) @ b" "b = [] \<or> hd b = NEWLINE" using assms(3) by (simp_all add: row_at_def)
  have pt: "point_parse_str (a @ l) = Point i (str_len l)" using row_prefix_point[OF assms(3), of l "[]"] by simp
  have le: "point_parse_str (a @ l) \<le> ?p" using pt assms(4) by (simp add: less_eq_point_def)
  have fits: "column ?p < 2 ^ 32" using assms(5) by simp
  show ?thesis
  proof (cases "b = []")
    case True
    then have "point_parse_str (rope_text r) \<le> ?p" using s(1) le by simp
    from find_point_end[OF assms(1,2) fits this] show ?thesis
      using rope_ends[OF assms(1)] True s(1) pt by (simp add: rope_clip_point_def)
  next
    case False
    then obtain b' where b: "b = NEWLINE # b'" using s(2) by (cases b) auto
    have "point_parse_str ((a @ l) @ [NEWLINE]) = Point (i + 1) 0"
      unfolding point_parse_append[of "a @ l"] pt by (simp add: point_add_def point_parse_str_eq)
    then have nl: "?p < point_parse_str ((a @ l) @ [NEWLINE])" by (simp add: less_point_def)
    then have "?p < point_parse_str (rope_text r)"
      using point_positions.measure_le[of "(a @ l) @ [NEWLINE]" b'] s(1) b by simp
    then obtain u t v x where f: "rope_text r = u @ t @ v" "str_len t \<le> 128" "point_parse_str u \<le> ?p" "?p < point_parse_str (u @ t)"
      "stree_find point_dim r (\<lambda>d. point_cmp ?p d) Right = (point_parse_str u, x, Some (canon t))"
      using find_point[OF assms(1,2) fits] by blast
    have "\<not> point_parse_str ((a @ l) @ [NEWLINE]) \<le> point_parse_str u" using nl f(3) by simp
    then have "\<exists>w. (a @ l) @ [NEWLINE] = u @ w \<and> t @ v = w @ b'"
      using point_positions.measure_prefix[of u "t @ v" "(a @ l) @ [NEWLINE]" b'] f(1) s(1) b by simp
    then obtain w where w: "(a @ l) @ [NEWLINE] = u @ w" "t @ v = w @ b'" by blast
    have "w \<noteq> []" using w(1) \<open>\<not> point_parse_str ((a @ l) @ [NEWLINE]) \<le> point_parse_str u\<close> by auto
    then obtain w' where w': "w = w' @ [NEWLINE]" "a @ l = u @ w'" using w(1) by (cases w rule: rev_cases) auto
    have "\<not> point_parse_str (u @ t) \<le> point_parse_str (a @ l)" using f(4) le by simp
    then have "\<exists>z. u @ t = (a @ l) @ z \<and> b = z @ v \<and> z \<noteq> []"
      using point_positions.measure_prefix[of "a @ l" b "u @ t" v] f(1) s(1) by (force simp: not_le)
    then obtain z where z: "u @ t = (a @ l) @ z" "b = z @ v" "z \<noteq> []" by blast
    then obtain z' where t: "t = w' @ NEWLINE # z'" using w'(2) b by (cases z) auto
    obtain c d where cd: "w' = c @ d" "NEWLINE \<notin> set d" "c = [] \<or> last c = NEWLINE"
    proof (cases w' rule: last_line)
      case 1
      then show ?thesis using that[of "[]" w'] by simp
    next
      case (2 x y)
      then show ?thesis using that[of "x @ [NEWLINE]" y] by simp
    qed
    then obtain j where row: "row_at t j c d (NEWLINE # z')" using t by (simp add: row_at_def)
    have pw: "point_parse_str w' = Point j (str_len d)" using row_prefix_point[OF row, of d "[]"] cd(1) by simp
    have sum: "point_add (point_parse_str u) (Point j (str_len d)) = Point i (str_len l)"
      using pt w'(2) pw by (simp add: point_parse_append)
    have "\<exists>c'. point_sub ?p (point_parse_str u) = Some (Point j c') \<and> str_len d \<le> c'"
      using sum assms(4) by (cases "point_parse_str u") (auto simp: point_sub_def point_add_def csub_def split: if_splits)
    then obtain c' where c': "point_sub ?p (point_parse_str u) = Some (Point j c')" "str_len d \<le> c'" by blast
    have "chunk_clip_point g (canon t) (Point j c') bias = Some (Point j (str_len d))"
      using chunk_clip_point_line[OF row f(2)] c'(2) by (cases "c' = 0") auto
    then show ?thesis using f(5) c'(1) sum by (simp add: rope_clip_point_def)
  qed
qed

lemma rope_line_len_ok:
  assumes "rope_ok r" "str_len (rope_text r) < 2 ^ 32"
  shows "rope_line_len g r i =
     Some (if i < length (split_nl (rope_text r)) then str_len (split_nl (rope_text r) ! i)
           else str_len (last (split_nl (rope_text r))))"
proof (cases "i < length (split_nl (rope_text r))")
  case True
  then obtain a b where row: "row_at (rope_text r) i a (split_nl (rope_text r) ! i) b" using row_at_exists by blast
  then have "rope_text r = a @ (split_nl (rope_text r) ! i) @ b" by (simp add: row_at_def)
  then have "str_len (rope_text r) = str_len a + (str_len (split_nl (rope_text r) ! i) + str_len b)"
    by (metis str_len_simps(3))
  then have "str_len (split_nl (rope_text r) ! i) \<le> 2 ^ 32 - 1" using assms(2) by simp
  from rope_clip_beyond[OF assms row this] show ?thesis using True by (simp add: rope_line_len_def)
next
  case False
  have "point_parse_str (rope_text r) \<le> Point i (2 ^ 32 - 1)"
    using False split_nl_ne[of "rope_text r"]
    by (cases "split_nl (rope_text r)") (auto simp: point_parse_str_eq less_eq_point_def)
  from find_point_end[OF assms _ this] show ?thesis using False rope_ends[OF assms(1)]
    by (simp add: rope_line_len_def rope_clip_point_def point_parse_str_eq)
qed

section \<open>UTF-16 positions\<close>

lemma utf16_clip_prefix: "\<exists>p q. s = p @ q \<and> utf16_clip s t b = utf16 p"
proof (cases "t \<le> utf16 s")
  case True
  then show ?thesis
  proof (cases rule: utf16_cases)
    case (at p q)
    then show ?thesis by (intro exI[of _ p] exI[of _ q]) (simp add: utf16_clip_def utf16_prefix_at)
  next
    case (inside p c q)
    have pre: "utf16_prefix s t = p" using utf16_prefix_inside[OF inside(3)] inside(1,2) by simp
    show ?thesis
    proof (cases b)
      case Left
      then show ?thesis using pre inside(1) by (intro exI[of _ p] exI[of _ "c # q"]) (simp add: utf16_clip_def)
    next
      case Right
      then show ?thesis using pre inside
        by (intro exI[of _ "p @ [c]"] exI[of _ q]) (simp add: utf16_clip_def)
    qed
  qed
next
  case False
  then show ?thesis by (intro exI[of _ s] exI[of _ "[]"]) (simp add: utf16_clip_def utf16_prefix_all)
qed

lemma rope_clip_offset_utf16_ok:
  assumes "rope_ok r" "str_len (rope_text r) < 2 ^ 32"
  shows "\<exists>a b. rope_text r = a @ b \<and> rope_clip_offset_utf16 r (Offset16 n) bias = Some (Offset16 (utf16 a))"
proof (cases "Offset16 n < Offset16 (utf16 (rope_text r))")
  case True
  obtain u s v x where f: "rope_text r = u @ s @ v" "str_len s \<le> 128" "Offset16 (utf16 u) \<le> Offset16 n"
    "Offset16 n < Offset16 (utf16 (u @ s))"
    "stree_find utf16_dim r (\<lambda>d. offset16_cmp (Offset16 n) d) Right = (Offset16 (utf16 u), x, Some (canon s))"
    by (rule find_utf16[OF assms TrueI True]) (rule that)
  obtain p q where pq: "s = p @ q" "utf16_clip s (n - utf16 u) bias = utf16 p" using utf16_clip_prefix by blast
  have "rope_clip_offset_utf16 r (Offset16 n) bias = Some (Offset16 (utf16 (u @ p)))"
    using f(3,5) pq(2) chunk_clip_offset_utf16_ok[OF f(2)]
    by (simp add: rope_clip_offset_utf16_def offset16_sub_def csub_def offset16_add_def less_eq_offset16_def)
  then show ?thesis using f(1) pq(1) by (intro exI[of _ "u @ p"] exI[of _ "q @ v"]) simp
next
  case False
  then have "Offset16 (utf16 (rope_text r)) \<le> Offset16 n" by simp
  from find_utf16_end[OF assms TrueI this] show ?thesis using rope_ends[OF assms(1)]
    by (intro exI[of _ "rope_text r"] exI[of _ "[]"]) (simp add: rope_clip_offset_utf16_def)
qed

lemma point16_row:
  assumes "p < lines_utf16 (text_of s)"
  obtains a l b where "row_at s (row16 p) a l b"
proof -
  let ?ls = "split_nl s"
  have "row16 p \<le> length ?ls - 1"
    using assms by (auto simp: lines_utf16_def text_of_fields point_parse_str_eq less_point16_def)
  then have "row16 p < length ?ls" using split_nl_ne[of s] by (cases ?ls) auto
  then show ?thesis using row_at_exists that by blast
qed

lemma row_prefix_point16:
  assumes "row_at s r a (l1 @ l2) b" shows "lines_utf16 (text_of (a @ l1)) = Point16 r (utf16 l1)"
proof -
  have "NEWLINE \<notin> set l1" "a = [] \<or> last a = NEWLINE" using assms by (auto simp: row_at_def)
  then have "last (split_nl (a @ l1)) = l1"
    by (cases a rule: rev_cases) (auto simp: split_nl_line split_nl_append)
  then show ?thesis using row_prefix_point[OF assms refl] by (simp add: lines_utf16_def text_of_fields)
qed

lemma rope_clip_point_utf16_ok:
  assumes "rope_ok r" "str_len (rope_text r) < 2 ^ 32" "column16 p < 2 ^ 32"
  shows "\<exists>a b. rope_text r = a @ b \<and> rope_clip_point_utf16 r (Unclipped p) bias = Some (lines_utf16 (text_of a)) \<and>
    (p < lines_utf16 (text_of (rope_text r)) \<longrightarrow> row16 (lines_utf16 (text_of a)) = row16 p)"
proof (cases "p < lines_utf16 (text_of (rope_text r))")
  case True
  obtain u s v x where f: "rope_text r = u @ s @ v" "str_len s \<le> 128" "lines_utf16 (text_of u) \<le> p" "p < lines_utf16 (text_of (u @ s))"
    "stree_find point16_dim r (\<lambda>d. point16_cmp p d) Right = (lines_utf16 (text_of u), x, Some (canon s))"
    by (rule find_point16[OF assms True]) (rule that)
  obtain o1 where o1: "point16_sub p (lines_utf16 (text_of u)) = Some o1" "point16_add (lines_utf16 (text_of u)) o1 = p"
    using point16_sub_ok[OF f(3)] by blast
  have "o1 < lines_utf16 (text_of s)"
    using f(4) unfolding o1(2)[symmetric] lines_utf16_append by (auto simp: point16_add_def less_point16_def split: if_splits)
  then obtain a l b where r: "row_at s (row16 o1) a l b" using point16_row by blast
  obtain l1 l2 where l: "l = l1 @ l2" "utf16_clip l (column16 o1) bias = utf16 l1" using utf16_clip_prefix by blast
  have pt: "lines_utf16 (text_of (a @ l1)) = Point16 (row16 o1) (utf16 l1)" using row_prefix_point16 r l(1) by simp
  have "chunk_clip_point_utf16 (canon s) (Unclipped o1) bias = Some (lines_utf16 (text_of (a @ l1)))"
    using chunk_clip_point_utf16_row[OF r f(2), of "column16 o1" bias] l(2) pt by simp
  then have clip: "rope_clip_point_utf16 r (Unclipped p) bias = Some (lines_utf16 (text_of (u @ a @ l1)))"
    using f(5) o1(1) lines_utf16_append[of u "a @ l1"] by (simp add: rope_clip_point_utf16_def)
  have "row16 (lines_utf16 (text_of (u @ a @ l1))) = row16 p"
    unfolding o1(2)[symmetric] lines_utf16_append[of u "a @ l1"] pt by (simp add: point16_add_def)
  moreover have "rope_text r = (u @ a @ l1) @ (l2 @ b @ v)" using f(1) r l(1) by (simp add: row_at_def)
  ultimately show ?thesis using clip by blast
next
  case False
  then have "lines_utf16 (text_of (rope_text r)) \<le> p" by (simp add: not_less)
  from find_point16_end[OF assms this] show ?thesis using rope_ends[OF assms(1)] False
    by (intro exI[of _ "rope_text r"] exI[of _ "[]"]) (simp add: rope_clip_point_utf16_def)
qed

section \<open>Properties\<close>

text \<open>C35: At every character boundary, each conversion of a rope gives the length of the text before it
  in the unit it converts to: byte offsets, UTF-16 offsets, points and UTF-16 points all denote the
  same place, and converting back and forth returns to it.\<close>

theorem rope_positions_correct:
  assumes "rope_ok r" "height r < STACK_CAP" "rope_text r = a @ b" "str_len (a @ b) < 2 ^ 32"
    and "o16 = Offset16 (sum_list (map len_utf16 a))" "p = point_parse_str a" "p16 = lines_utf16 (text_of a)"
  shows "rope_offset_to_offset_utf16 r (str_len a) = Some o16 \<and> rope_offset_utf16_to_offset r o16 = Some (str_len a) \<and>
    rope_offset_to_point r (str_len a) = Some p \<and> rope_point_to_offset r p = Some (str_len a) \<and>
    rope_offset_to_point_utf16 r (str_len a) = Some p16 \<and> rope_point_utf16_to_offset r p16 = Some (str_len a) \<and>
    rope_point_to_point_utf16 r p = Some p16 \<and> rope_point_utf16_to_point r p16 = Some p \<and>
    rope_point_to_offset_utf16 r p = Some o16 \<and> rope_point_utf16_to_offset_utf16 r p16 = Some o16 \<and>
    rope_unclipped_point_utf16_to_point r (Unclipped p16) = Some p \<and>
    rope_unclipped_point_utf16_to_offset r (Unclipped p16) = Some (str_len a)"
  unfolding assms(5-7)
  using rope_offset_to_offset_utf16_at[OF assms(1,3,4)] rope_offset_utf16_to_offset_at[OF assms(1,3,4)]
    rope_offset_to_point_at[OF assms(1,3,4)] rope_point_to_offset_at[OF assms(1,3,4)]
    rope_offset_to_point_utf16_at[OF assms(1,3,4)] rope_point_utf16_to_offset_at[OF assms(1,3,4)]
    rope_point_to_point_utf16_at[OF assms(1,3,4)] rope_point_utf16_to_point_at[OF assms(1,3,4,2)]
    rope_point_to_offset_utf16_at[OF assms(1,3,4,2)] rope_point_utf16_to_offset_utf16_at[OF assms(1,3,4,2)]
    rope_unclipped_point_utf16_to_point_at[OF assms(1,3,4)]
  by (simp add: rope_unclipped_point_utf16_to_offset_def)

theorem rope_positions_correct_witness:
  "rope_point_utf16_to_offset sample_rope (Point16 1 1) = Some 5 \<and>
   rope_offset_to_point sample_rope 5 = Some (Point 1 2)"
proof -
  let ?a = "[104, 105, 10, 0xE9]"
  have pts: "point_parse_str ?a = Point 1 2" "lines_utf16 (text_of ?a) = Point16 1 1" "str_len ?a = 5"
    by (simp_all add: point_parse_str_eq lines_utf16_def text_of_fields len_utf16_def len_utf8_def)
  have "height sample_rope < STACK_CAP" "rope_text sample_rope = ?a @ [33]" "str_len (?a @ [33]) < 2 ^ 32"
    using sample_rope_ok(2,3) by (simp_all add: STACK_CAP_def len_utf8_def)
  from rope_positions_correct[OF sample_rope_ok(1) this refl refl refl] show ?thesis
    unfolding pts by blast
qed

text \<open>For any offset, the tests and clippings of a rope are those of its text: an offset beyond the
  end becomes the end, one inside a character moves to the nearest boundary on the side of the
  bias, and the asserting test panics only off a boundary.\<close>

theorem rope_boundaries_correct:
  assumes "rope_ok r" "str_len (rope_text r) < 2 ^ 32"
  shows "rope_is_char_boundary r i = Some (str_is_char_boundary (rope_text r) i) \<and>
    rope_assert_char_boundary panic r i =
      (if str_is_char_boundary (rope_text r) i then Some True else if panic then None else Some False) \<and>
    rope_clip_offset r i bias = Some (if i > str_len (rope_text r) then str_len (rope_text r)
      else if bias = Left then str_floor_char_boundary (rope_text r) i else str_ceil_char_boundary (rope_text r) i) \<and>
    (\<exists>a b. rope_text r = a @ b \<and> rope_clip_offset_utf16 r n bias = Some (Offset16 (sum_list (map len_utf16 a))))"
  using rope_is_char_boundary_ok[OF assms] rope_assert_char_boundary_ok[OF assms] rope_clip_offset_ok[OF assms]
    rope_clip_offset_utf16_ok[OF assms, of "units n"] by simp

theorem rope_boundaries_correct_witness: "rope_clip_offset sample_rope 4 Right = Some 5"
proof -
  have "str_ceil_char_boundary [104, 105, 10, 0xE9, 33] 4 = 5" by (simp add: str_ceil_char_boundary_def len_utf8_def)
  then show ?thesis
    using rope_boundaries_correct[OF sample_rope_ok(1), of 4 False Right "Offset16 0"] sample_rope_ok(3)
    by (simp add: len_utf8_def)
qed

text \<open>C36: Clipping a point ends at the position of a character boundary (a grapheme boundary of the
  line within its chunk): the row stays, the bias decides the side unless the line ends first, a
  point beyond the end becomes the end, and the length of a line is that of its text. Of graphemes it
  is assumed that in a text without newlines both ends, and the places between two ASCII characters, are boundaries.\<close>

theorem rope_clip_point_correct:
  assumes "rope_ok r" "str_len (rope_text r) < 2 ^ 32" "list_all is_scalar (rope_text r)"
    and "column p < 2 ^ 32" "column16 q < 2 ^ 32" "\<And>l. list_all is_scalar l \<Longrightarrow> NEWLINE \<notin> set l \<Longrightarrow> graphemes_ok g l"
  shows "(\<exists>a b. rope_text r = a @ b \<and> rope_clip_point g r p bias = Some (point_parse_str a) \<and>
      (p < point_parse_str (rope_text r) \<longrightarrow> row (point_parse_str a) = row p) \<and>
      (case bias of Left \<Rightarrow> point_parse_str a \<le> p | Right \<Rightarrow> p \<le> point_parse_str a \<or> b = [] \<or> hd b = NEWLINE)) \<and>
    (\<exists>a b. rope_text r = a @ b \<and> rope_clip_point_utf16 r (Unclipped q) bias = Some (lines_utf16 (text_of a)) \<and>
      (q < lines_utf16 (text_of (rope_text r)) \<longrightarrow> row16 (lines_utf16 (text_of a)) = row16 q)) \<and>
    (let ls = split_nl (rope_text r) in
     rope_line_len g r i = Some (if i < length ls then str_len (ls ! i) else str_len (last ls)))"
proof -
  obtain c where c: "rope_clip_point g r p bias = Some c" "clipped_point (rope_text r) p bias c"
    using rope_clip_point_ok[OF assms(1-4,6)] by blast
  then show ?thesis
    using rope_clip_point_utf16_ok[OF assms(1,2,5), of bias] rope_line_len_ok[OF assms(1,2), of g i]
    unfolding Let_def clipped_point_def by blast
qed

text \<open>A grapheme predicate that, as the standard asks, does not break between a carriage return and a newline.\<close>

definition sample_graphemes :: "str \<Rightarrow> nat \<Rightarrow> bool" where
  "sample_graphemes l i \<longleftrightarrow> \<not> (0 < i \<and> i < str_len l \<and> as_bytes l ! (i - 1) = 13 \<and> as_bytes l ! i = NEWLINE)"

lemma newline_byte:
  assumes "list_all is_scalar l" "NEWLINE \<notin> set l" "i < str_len l"
  shows "as_bytes l ! i \<noteq> NEWLINE"
proof
  assume n: "as_bytes l ! i = NEWLINE"
  have none: "\<not> b" if "b \<in> set (flags (eflags NEWLINE) l)" for b
    using that assms(2) by (induction l) (auto simp: eflags_def)
  have "flags (eflags NEWLINE) l ! i \<in> set (flags (eflags NEWLINE) l)"
    using assms(3) by (intro nth_mem) (simp add: length_flags)
  then have "\<not> flags (eflags NEWLINE) l ! i" by (rule none)
  then have "\<not> map (\<lambda>b. b = NEWLINE) (as_bytes l) ! i" unfolding bytes_flags(3)[OF assms(1)] .
  then show False using n assms(3) by (simp add: length_as_bytes)
qed

lemma sample_graphemes_ok:
  "list_all is_scalar l \<Longrightarrow> NEWLINE \<notin> set l \<Longrightarrow> graphemes_ok sample_graphemes l" "\<not> graphemes_ok sample_graphemes [13, NEWLINE]"
proof -
  show "list_all is_scalar l \<Longrightarrow> NEWLINE \<notin> set l \<Longrightarrow> graphemes_ok sample_graphemes l"
    using newline_byte[of l] by (auto simp: graphemes_ok_def sample_graphemes_def)
  show "\<not> graphemes_ok sample_graphemes [13, NEWLINE]"
    by (auto simp: graphemes_ok_def sample_graphemes_def as_bytes_def utf8_def len_utf8_def intro!: exI[of _ 1])
qed

theorem rope_clip_point_correct_witness:
  "rope_line_len sample_graphemes sample_rope 0 = Some 2 \<and>
   (\<exists>a b. rope_text sample_rope = a @ b \<and>
     rope_clip_point sample_graphemes sample_rope (Point 1 1) Left = Some (point_parse_str a) \<and> point_parse_str a \<le> Point 1 1)"
proof -
  have "list_all is_scalar (rope_text sample_rope)" by (simp add: sample_rope_ok(3) is_scalar_def)
  then show ?thesis
    using rope_clip_point_correct[OF sample_rope_ok(1), where p = "Point 1 1" and q = "Point16 0 0" and g = sample_graphemes
        and bias = Left and i = 0] sample_rope_ok(3) sample_graphemes_ok(1)
    by (auto simp: len_utf8_def)
qed

end
