(* ===== verification/RopeChunks.thy ===== *)
theory RopeChunks
  imports RopeClipPoint "HOL-Library.Sublist"
begin

text \<open>
  The iterators over a rope (\<open>crates/rope/src/rope.rs\<close>): over the pieces of chunks in a range of byte
  offsets, in either direction, with or without their bitmaps; over its bytes; and over its
  lines. A \<open>for\<close> loop over an iterator calls \<open>next\<close> until it returns nothing.
\<close>

section \<open>Strings\<close>

text \<open>\<open>find\<close> and \<open>rfind\<close> of a character return the byte offset of its first and last occurrence.\<close>

fun str_find :: "uchar \<Rightarrow> str \<Rightarrow> nat option" where
  "str_find c [] = None"
| "str_find c (d # s) = (if d = c then Some 0 else map_option (\<lambda>i. len_utf8 d + i) (str_find c s))"

fun str_rfind :: "uchar \<Rightarrow> str \<Rightarrow> nat option" where
  "str_rfind c [] = None"
| "str_rfind c (d # s) =
     (case str_rfind c s of
        Some i \<Rightarrow> Some (len_utf8 d + i)
      | None \<Rightarrow> if d = c then Some 0 else None)"

section \<open>Pieces of chunks\<close>

record chunks_iter =
  ch_chunks :: "(chunk, text_summary, nat) cursor"
  ch_start :: nat
  ch_end :: nat
  ch_offset :: nat
  ch_reversed :: bool

definition chunks_iter_new :: "rope \<Rightarrow> nat \<times> nat \<Rightarrow> bool \<Rightarrow> chunks_iter option" where
  "chunks_iter_new r rng reversed = do {
     let chunks = cursor_new bytes_dim r;
     (offset, chunks) \<leftarrow>
       (if reversed then do {
          (_, chunks) \<leftarrow> cursor_seek bytes_dim (cmp_of (snd rng)) Left chunks;
          Some (snd rng, chunks)
        } else do {
          (_, chunks) \<leftarrow> cursor_seek bytes_dim (cmp_of (fst rng)) Right chunks;
          Some (fst rng, chunks)
        });
     chunk_offset \<leftarrow> csub offset (c_position chunks);
     item \<leftarrow> cursor_item chunks;
     _ \<leftarrow> (case item of None \<Rightarrow> Some True | Some k \<Rightarrow> assert_char_boundary True k chunk_offset);
     Some \<lparr>ch_chunks = chunks, ch_start = fst rng, ch_end = snd rng, ch_offset = offset, ch_reversed = reversed\<rparr>
   }"

definition offset_is_valid :: "chunks_iter \<Rightarrow> bool" where
  "offset_is_valid it \<longleftrightarrow>
     (if ch_reversed it then \<not> (ch_offset it \<le> ch_start it \<or> ch_offset it > ch_end it)
      else \<not> (ch_offset it < ch_start it \<or> ch_offset it \<ge> ch_end it))"

text \<open>\<open>clamp\<close> panics on an empty interval.\<close>

definition clamp :: "nat \<Rightarrow> nat \<Rightarrow> nat \<Rightarrow> nat option" where
  "clamp lo hi n = do { _ \<leftarrow> assert_opt (lo \<le> hi); Some (if n < lo then lo else if n > hi then hi else n) }"

definition chunks_seek :: "chunks_iter \<Rightarrow> nat \<Rightarrow> chunks_iter option" where
  "chunks_seek it offset = do {
     offset \<leftarrow> clamp (ch_start it) (ch_end it) offset;
     chunks_end \<leftarrow> cursor_end bytes_dim (ch_chunks it);
     let start = c_position (ch_chunks it);
     chunks \<leftarrow>
       (if ch_reversed it then
          if offset > chunks_end then
            map_option snd (cursor_seek_forward bytes_dim (cmp_of offset) Left (ch_chunks it))
          else if offset \<le> start then
            map_option snd (cursor_seek bytes_dim (cmp_of offset) Left (ch_chunks it))
          else Some (ch_chunks it)
        else
          if offset \<ge> chunks_end then
            map_option snd (cursor_seek_forward bytes_dim (cmp_of offset) Right (ch_chunks it))
          else if offset < start then
            map_option snd (cursor_seek bytes_dim (cmp_of offset) Right (ch_chunks it))
          else Some (ch_chunks it));
     Some (it\<lparr>ch_chunks := chunks, ch_offset := offset\<rparr>)
   }"

definition chunks_set_range :: "chunks_iter \<Rightarrow> nat \<times> nat \<Rightarrow> chunks_iter option" where
  "chunks_set_range it rng = chunks_seek (it\<lparr>ch_start := fst rng, ch_end := snd rng\<rparr>) (fst rng)"

text \<open>The range of the chunk that is left of the piece at the offset.\<close>

definition piece_range :: "chunks_iter \<Rightarrow> (nat \<times> nat) option" where
  "piece_range it = do {
     let chunk_start = c_position (ch_chunks it);
     if ch_reversed it then do {
       i \<leftarrow> csub (max chunk_start (ch_start it)) chunk_start;
       j \<leftarrow> csub (ch_offset it) chunk_start;
       Some (i, j)
     } else do {
       i \<leftarrow> csub (ch_offset it) chunk_start;
       chunks_end \<leftarrow> cursor_end bytes_dim (ch_chunks it);
       j \<leftarrow> csub (min chunks_end (ch_end it)) chunk_start;
       Some (i, j)
     }
   }"

definition chunks_peek :: "chunks_iter \<Rightarrow> str option option" where
  "chunks_peek it =
     (if \<not> offset_is_valid it then Some None
      else do {
        item \<leftarrow> cursor_item (ch_chunks it);
        case item of
          None \<Rightarrow> Some None
        | Some k \<Rightarrow> do {
            (i, j) \<leftarrow> piece_range it;
            map_option Some (str_slice (ck_text k) i j)
          }
      })"

record chunk_bitmaps =
  cb_text :: str
  cb_chars :: bitmap
  cb_tabs :: bitmap
  cb_newlines :: bitmap

definition peek_with_bitmaps :: "chunks_iter \<Rightarrow> chunk_bitmaps option option" where
  "peek_with_bitmaps it =
     (if \<not> offset_is_valid it then Some None
      else do {
        item \<leftarrow> cursor_item (ch_chunks it);
        case item of
          None \<Rightarrow> Some None
        | Some k \<Rightarrow> do {
            (i, j) \<leftarrow> piece_range it;
            s \<leftarrow> str_slice (ck_text k) i j;
            Some (Some \<lparr>cb_text = s, cb_chars = shr (ck_chars k) i, cb_tabs = shr (ck_tabs k) i,
              cb_newlines = shr (ck_newlines k) i\<rparr>)
          }
      })"

text \<open>What \<open>next\<close> does once a piece of length \<open>n\<close> is taken.\<close>

definition chunks_advance :: "chunks_iter \<Rightarrow> nat \<Rightarrow> chunks_iter option" where
  "chunks_advance it n =
     (if ch_reversed it then do {
        offset \<leftarrow> csub (ch_offset it) n;
        chunks \<leftarrow> (if offset \<le> c_position (ch_chunks it) then cursor_prev bytes_dim (ch_chunks it) else Some (ch_chunks it));
        Some (it\<lparr>ch_chunks := chunks, ch_offset := offset\<rparr>)
      } else do {
        let offset = ch_offset it + n;
        chunks_end \<leftarrow> cursor_end bytes_dim (ch_chunks it);
        chunks \<leftarrow> (if offset \<ge> chunks_end then cursor_next bytes_dim (ch_chunks it) else Some (ch_chunks it));
        Some (it\<lparr>ch_chunks := chunks, ch_offset := offset\<rparr>)
      })"

definition chunks_next :: "chunks_iter \<Rightarrow> (str option \<times> chunks_iter) option" where
  "chunks_next it = do {
     p \<leftarrow> chunks_peek it;
     case p of
       None \<Rightarrow> Some (None, it)
     | Some s \<Rightarrow> do { it \<leftarrow> chunks_advance it (str_len s); Some (Some s, it) }
   }"

definition chunk_with_bitmaps_next :: "chunks_iter \<Rightarrow> (chunk_bitmaps option \<times> chunks_iter) option" where
  "chunk_with_bitmaps_next it = do {
     p \<leftarrow> peek_with_bitmaps it;
     case p of
       None \<Rightarrow> Some (None, it)
     | Some b \<Rightarrow> do { it \<leftarrow> chunks_advance it (str_len (cb_text b)); Some (Some b, it) }
   }"

text \<open>A loop over an iterator, with the pieces it takes.\<close>

partial_function (option) chunks_collect :: "chunks_iter \<Rightarrow> str list option" where
  "chunks_collect it =
     (case chunks_next it of
        None \<Rightarrow> None
      | Some (None, _) \<Rightarrow> Some []
      | Some (Some s, it) \<Rightarrow> do { ss \<leftarrow> chunks_collect it; Some (s # ss) })"

definition rope_chunks_in_range :: "rope \<Rightarrow> nat \<times> nat \<Rightarrow> chunks_iter option" where
  "rope_chunks_in_range r rng = chunks_iter_new r rng False"

definition rope_reversed_chunks_in_range :: "rope \<Rightarrow> nat \<times> nat \<Rightarrow> chunks_iter option" where
  "rope_reversed_chunks_in_range r rng = chunks_iter_new r rng True"

definition rope_chunks :: "rope \<Rightarrow> chunks_iter option" where
  "rope_chunks r = rope_chunks_in_range r (0, rope_len r)"

definition rope_chars_at :: "rope \<Rightarrow> nat \<Rightarrow> uchar list option" where
  "rope_chars_at r start = do {
     it \<leftarrow> rope_chunks_in_range r (start, rope_len r);
     map_option concat (chunks_collect it)
   }"

definition rope_reversed_chars_at :: "rope \<Rightarrow> nat \<Rightarrow> uchar list option" where
  "rope_reversed_chars_at r start = do {
     it \<leftarrow> rope_reversed_chunks_in_range r (0, start);
     map_option (\<lambda>ss. concat (map rev ss)) (chunks_collect it)
   }"

section \<open>Comparing with a string\<close>

text \<open>The loops over the pieces, with the offset in the other string.\<close>

partial_function (option) equals_forward :: "str \<Rightarrow> chunks_iter \<Rightarrow> nat \<Rightarrow> bool option" where
  "equals_forward other it offset =
     (case chunks_next it of
        None \<Rightarrow> None
      | Some (None, _) \<Rightarrow> Some (offset = str_len other)
      | Some (Some s, it) \<Rightarrow>
          if offset \<ge> str_len other then Some False
          else do {
            rest \<leftarrow> str_slice other offset (str_len other);
            if prefix s rest then equals_forward other it (offset + str_len s) else Some False
          })"

partial_function (option) equals_backward :: "str \<Rightarrow> chunks_iter \<Rightarrow> nat \<Rightarrow> bool option" where
  "equals_backward other it offset =
     (case chunks_next it of
        None \<Rightarrow> None
      | Some (None, _) \<Rightarrow> Some (offset = 0)
      | Some (Some s, it) \<Rightarrow> do {
          rest \<leftarrow> str_slice other 0 offset;
          if suffix s rest then do { offset \<leftarrow> csub offset (str_len s); equals_backward other it offset }
          else Some False
        })"

definition chunks_equals_str :: "chunks_iter \<Rightarrow> str \<Rightarrow> bool option" where
  "chunks_equals_str it other =
     (if ch_reversed it then equals_backward other it (str_len other) else equals_forward other it 0)"

partial_function (option) starts_with_loop :: "chunks_iter \<Rightarrow> str \<Rightarrow> bool option" where
  "starts_with_loop it remaining =
     (case chunks_next it of
        None \<Rightarrow> None
      | Some (None, _) \<Rightarrow> Some (remaining = [])
      | Some (Some s, it) \<Rightarrow>
          (case str_slice s 0 (min (str_len remaining) (str_len s)) of
             None \<Rightarrow> Some False
           | Some s \<Rightarrow>
               if prefix s remaining then do {
                 remaining \<leftarrow> str_slice remaining (str_len s) (str_len remaining);
                 if remaining = [] then Some True else starts_with_loop it remaining
               } else Some False))"

definition rope_starts_with :: "rope \<Rightarrow> str \<Rightarrow> bool option" where
  "rope_starts_with r pat =
     (if str_len pat > rope_len r then Some False
      else do { it \<leftarrow> rope_chunks_in_range r (0, rope_len r); starts_with_loop it pat })"

partial_function (option) ends_with_loop :: "chunks_iter \<Rightarrow> str \<Rightarrow> bool option" where
  "ends_with_loop it remaining =
     (case chunks_next it of
        None \<Rightarrow> None
      | Some (None, _) \<Rightarrow> Some (remaining = [])
      | Some (Some s, it) \<Rightarrow>
          (case str_slice s (str_len s - min (str_len remaining) (str_len s)) (str_len s) of
             None \<Rightarrow> Some False
           | Some s \<Rightarrow>
               if suffix s remaining then do {
                 n \<leftarrow> csub (str_len remaining) (str_len s);
                 remaining \<leftarrow> str_slice remaining 0 n;
                 if remaining = [] then Some True else ends_with_loop it remaining
               } else Some False))"

definition rope_ends_with :: "rope \<Rightarrow> str \<Rightarrow> bool option" where
  "rope_ends_with r pat =
     (if str_len pat > rope_len r then Some False
      else do { it \<leftarrow> rope_reversed_chunks_in_range r (0, rope_len r); ends_with_loop it pat })"

section \<open>Moving by lines\<close>

text \<open>The summaries with a newline.\<close>

definition has_newline :: "text_summary \<Rightarrow> bool" where
  "has_newline s \<longleftrightarrow> row (ts_lines s) > 0"

text \<open>\<open>next_line\<close> first moves past the next newline, or to the end of the chunks that were searched.\<close>

definition next_line_move :: "chunks_iter \<Rightarrow> str \<Rightarrow> (chunks_iter \<times> bool) option" where
  "next_line_move it chunk =
     (case str_find NEWLINE chunk of
        Some ix \<Rightarrow>
          (let it = it\<lparr>ch_offset := ch_offset it + (ix + 1)\<rparr> in Some (it, ch_offset it \<le> ch_end it))
      | None \<Rightarrow> do {
          chunks \<leftarrow> search_forward bytes_dim has_newline (ch_chunks it);
          let it = it\<lparr>ch_chunks := chunks, ch_offset := c_position chunks\<rparr>;
          p \<leftarrow> chunks_peek it;
          case Option.bind p (str_find NEWLINE) of
            Some ix \<Rightarrow>
              (let it = it\<lparr>ch_offset := ch_offset it + (ix + 1)\<rparr> in Some (it, ch_offset it \<le> ch_end it))
          | None \<Rightarrow> do {
              chunks_end \<leftarrow> cursor_end bytes_dim chunks;
              Some (it\<lparr>ch_offset := chunks_end\<rparr>, False)
            }
        })"

text \<open>Behind a newline: at the end of a chunk, the iterator moves to the next one.\<close>

definition step_over :: "chunks_iter \<Rightarrow> chunks_iter option" where
  "step_over it = do {
     chunks_end \<leftarrow> cursor_end bytes_dim (ch_chunks it);
     if ch_offset it = chunks_end then map_option snd (chunks_next it) else Some it
   }"

text \<open>Beyond the end of the range, the iterator is put at its end.\<close>

definition step_back :: "chunks_iter \<Rightarrow> chunks_iter option" where
  "step_back it =
     (if ch_offset it > ch_end it then do {
        let offset = min (ch_offset it) (ch_end it);
        (_, chunks) \<leftarrow> cursor_seek bytes_dim (cmp_of offset) Right (ch_chunks it);
        Some (it\<lparr>ch_offset := offset, ch_chunks := chunks\<rparr>)
      } else Some it)"

definition chunks_next_line :: "chunks_iter \<Rightarrow> (bool \<times> chunks_iter) option" where
  "chunks_next_line it = do {
     _ \<leftarrow> assert_opt (\<not> ch_reversed it);
     p \<leftarrow> chunks_peek it;
     (it, found) \<leftarrow>
       (case p of
          None \<Rightarrow> Some (it, False)
        | Some chunk \<Rightarrow> do { (it, found) \<leftarrow> next_line_move it chunk; it \<leftarrow> step_over it; Some (it, found) });
     it \<leftarrow> step_back it;
     Some (found, it)
   }"

text \<open>\<open>prev_line\<close> looks in the chunk before the offset first: a newline right before it does not count.\<close>

definition prev_line_near :: "chunks_iter \<Rightarrow> (chunks_iter \<times> bool) option" where
  "prev_line_near it = do {
     item \<leftarrow> cursor_item (ch_chunks it);
     case item of
       None \<Rightarrow> Some (it, False)
     | Some k \<Rightarrow> do {
         end_ix \<leftarrow> csub (ch_offset it) (c_position (ch_chunks it));
         last_ix \<leftarrow> csub end_ix 1;
         byte \<leftarrow> nth_opt (as_bytes (ck_text k)) last_ix;
         let end_ix = (if byte = 10 then last_ix else end_ix);
         before \<leftarrow> str_slice (ck_text k) 0 end_ix;
         case str_rfind NEWLINE before of
           None \<Rightarrow> Some (it, False)
         | Some ix \<Rightarrow>
             (let it = it\<lparr>ch_offset := c_position (ch_chunks it) + ix + 1\<rparr> in Some (it, offset_is_valid it))
       }
   }"

definition prev_line_far :: "chunks_iter \<Rightarrow> (chunks_iter \<times> bool) option" where
  "prev_line_far it = do {
     chunks \<leftarrow> search_backward bytes_dim has_newline (ch_chunks it);
     let it = it\<lparr>ch_chunks := chunks, ch_offset := c_position chunks\<rparr>;
     item \<leftarrow> cursor_item chunks;
     case Option.bind item (\<lambda>k. str_rfind NEWLINE (ck_text k)) of
       None \<Rightarrow> Some (it, False)
     | Some ix \<Rightarrow> do {
         let it = it\<lparr>ch_offset := ch_offset it + (ix + 1)\<rparr>;
         if offset_is_valid it then do {
           chunks_end \<leftarrow> cursor_end bytes_dim chunks;
           chunks \<leftarrow> (if ch_offset it = chunks_end then cursor_next bytes_dim chunks else Some chunks);
           Some (it\<lparr>ch_chunks := chunks\<rparr>, True)
         } else Some (it, False)
       }
   }"

text \<open>Without a newline before it, the iterator goes to the start of its range.\<close>

definition to_start :: "nat \<Rightarrow> chunks_iter \<Rightarrow> (bool \<times> chunks_iter) option" where
  "to_start initial it = do {
     item \<leftarrow> cursor_item (ch_chunks it);
     it \<leftarrow>
       (if \<not> offset_is_valid it \<or> item = None then do {
          (_, chunks) \<leftarrow> cursor_seek bytes_dim (cmp_of (ch_start it)) Right (ch_chunks it);
          Some (it\<lparr>ch_offset := ch_start it, ch_chunks := chunks\<rparr>)
        } else Some it);
     Some (ch_offset it < initial \<and> ch_offset it = 0, it)
   }"

definition chunks_prev_line :: "chunks_iter \<Rightarrow> (bool \<times> chunks_iter) option" where
  "chunks_prev_line it = do {
     _ \<leftarrow> assert_opt (\<not> ch_reversed it);
     let initial_offset = ch_offset it;
     chunks \<leftarrow> (if ch_offset it = c_position (ch_chunks it) then cursor_prev bytes_dim (ch_chunks it) else Some (ch_chunks it));
     (it, found) \<leftarrow> prev_line_near (it\<lparr>ch_chunks := chunks\<rparr>);
     if found then Some (True, it)
     else do {
       (it, found) \<leftarrow> prev_line_far it;
       if found then Some (True, it) else to_start initial_offset it
     }
   }"

section \<open>Lines\<close>

record lines_iter =
  li_chunks :: chunks_iter
  li_current :: str
  li_done :: bool
  li_reversed :: bool

definition chunks_lines :: "chunks_iter \<Rightarrow> lines_iter" where
  "chunks_lines it = \<lparr>li_chunks = it, li_current = [], li_done = False, li_reversed = ch_reversed it\<rparr>"

text \<open>The loop of \<open>next\<close>: the line of the piece next to the offset is added to the current line,
  and ends it when the piece has another line.\<close>

partial_function (option) lines_loop :: "lines_iter \<Rightarrow> (str option \<times> lines_iter) option" where
  "lines_loop l =
     (case chunks_peek (li_chunks l) of
        None \<Rightarrow> None
      | Some None \<Rightarrow> Some (Some (li_current l), l\<lparr>li_done := True\<rparr>)
      | Some (Some chunk) \<Rightarrow>
          (let ls = split_nl chunk;
               line = (if li_reversed l then last ls else hd ls);
               fin = length ls > 1;
               offset = ch_offset (li_chunks l) in
           if fin then do {
             target \<leftarrow> (if li_reversed l then do { o1 \<leftarrow> csub offset (str_len line); csub o1 1 }
                       else Some (offset + str_len line + 1));
             chunks \<leftarrow> chunks_seek (li_chunks l) target;
             let l = l\<lparr>li_chunks := chunks\<rparr>;
             if li_current l = [] then Some (Some line, l)
             else do {
               let current = (if li_reversed l then line @ li_current l else li_current l @ line);
               Some (Some current, l\<lparr>li_current := current\<rparr>)
             }
           } else do {
             let current = (if li_reversed l then line @ li_current l else li_current l @ line);
             (_, chunks) \<leftarrow> chunks_next (li_chunks l);
             lines_loop (l\<lparr>li_chunks := chunks, li_current := current\<rparr>)
           }))"

definition lines_next :: "lines_iter \<Rightarrow> (str option \<times> lines_iter) option" where
  "lines_next l = (if li_done l then Some (None, l) else lines_loop (l\<lparr>li_current := []\<rparr>))"

definition lines_seek :: "lines_iter \<Rightarrow> nat \<Rightarrow> lines_iter option" where
  "lines_seek l offset = do {
     chunks \<leftarrow> chunks_seek (li_chunks l) offset;
     Some (l\<lparr>li_chunks := chunks, li_current := [], li_done := False\<rparr>)
   }"

definition lines_offset :: "lines_iter \<Rightarrow> nat" where
  "lines_offset l = ch_offset (li_chunks l)"

partial_function (option) lines_collect :: "lines_iter \<Rightarrow> str list option" where
  "lines_collect l =
     (case lines_next l of
        None \<Rightarrow> None
      | Some (None, _) \<Rightarrow> Some []
      | Some (Some s, l) \<Rightarrow> do { ss \<leftarrow> lines_collect l; Some (s # ss) })"

section \<open>Bytes\<close>

record bytes_iter =
  by_chunks :: "(chunk, text_summary, nat) cursor"
  by_start :: nat
  by_end :: nat
  by_reversed :: bool

definition bytes_iter_new :: "rope \<Rightarrow> nat \<times> nat \<Rightarrow> bool \<Rightarrow> bytes_iter option" where
  "bytes_iter_new r rng reversed = do {
     (_, chunks) \<leftarrow>
       (if reversed then cursor_seek bytes_dim (cmp_of (snd rng)) Left (cursor_new bytes_dim r)
        else cursor_seek bytes_dim (cmp_of (fst rng)) Right (cursor_new bytes_dim r));
     Some \<lparr>by_chunks = chunks, by_start = fst rng, by_end = snd rng, by_reversed = reversed\<rparr>
   }"

definition bytes_peek :: "bytes_iter \<Rightarrow> nat list option option" where
  "bytes_peek it = do {
     item \<leftarrow> cursor_item (by_chunks it);
     case item of
       None \<Rightarrow> Some None
     | Some k \<Rightarrow> do {
         chunks_end \<leftarrow> cursor_end bytes_dim (by_chunks it);
         let chunk_start = c_position (by_chunks it);
         if by_reversed it \<and> by_start it \<ge> chunks_end then Some None
         else if by_end it \<le> chunk_start then Some None
         else do {
           let i = by_start it - chunk_start;
           j \<leftarrow> csub (by_end it) chunk_start;
           let j = min (str_len (ck_text k)) j;
           _ \<leftarrow> assert_opt (i \<le> j);
           Some (Some (take (j - i) (drop i (as_bytes (ck_text k)))))
         }
       }
   }"

definition bytes_move :: "bytes_iter \<Rightarrow> bytes_iter option" where
  "bytes_move it = do {
     chunks \<leftarrow> (if by_reversed it then cursor_prev bytes_dim (by_chunks it) else cursor_next bytes_dim (by_chunks it));
     Some (it\<lparr>by_chunks := chunks\<rparr>)
   }"

definition bytes_next :: "bytes_iter \<Rightarrow> (nat list option \<times> bytes_iter) option" where
  "bytes_next it = do {
     result \<leftarrow> bytes_peek it;
     it \<leftarrow> (if result \<noteq> None then bytes_move it else Some it);
     Some (result, it)
   }"

text \<open>\<open>read\<close> fills a buffer of length \<open>n\<close> as far as the current piece goes.\<close>

definition bytes_read :: "bytes_iter \<Rightarrow> nat \<Rightarrow> (nat list \<times> bytes_iter) option" where
  "bytes_read it n = do {
     p \<leftarrow> bytes_peek it;
     case p of
       None \<Rightarrow> Some ([], it)
     | Some chunk \<Rightarrow> do {
         let len = min n (length chunk);
         (buf, it) \<leftarrow>
           (if by_reversed it then do {
              e \<leftarrow> csub (by_end it) len;
              Some (rev (drop (length chunk - len) chunk), it\<lparr>by_end := e\<rparr>)
            } else Some (take len chunk, it\<lparr>by_start := by_start it + len\<rparr>));
         it \<leftarrow> (if len = length chunk then bytes_move it else Some it);
         Some (buf, it)
       }
   }"

end
