(* ===== verification/RopeChunksProps.thy ===== *)
theory RopeChunksProps
  imports RopeChunks
begin

text \<open>
  The pieces that an iterator over a range returns are the text of the range, forward or backward.
  A state of an iterator is described by the text before its offset, the text it still has to
  return, and the text behind it.
\<close>

section \<open>The cursor of an iterator\<close>

lemma bytes_cursor:
  assumes "cursor_at bytes_dim chunk_sum c pre post" "chunks_ok (pre @ post)"
  shows "c_position c = str_len (chunks_text pre)" "cursor_item c = Some (first_opt post)"
    "cursor_end bytes_dim c = Some (str_len (chunks_text (pre @ take 1 post)))"
proof -
  show p: "c_position c = str_len (chunks_text pre)" using assms bytes_dpos[of pre] by (simp add: cursor_at_def)
  show "cursor_item c = Some (first_opt post)" using cursor_item_ok(1)[OF assms(1)] .
  show "cursor_end bytes_dim c = Some (str_len (chunks_text (pre @ take 1 post)))"
  proof (cases post)
    case (Cons k ks)
    then have k: "chunk_ok k" using assms(2) by simp
    then show ?thesis using cursor_item_ok(2)[OF assms(1)] Cons p
      by (simp add: cursor_end_def chunk_sum_def chunk_ok_summary bytes_dim_def text_of_fields)
  qed (use cursor_item_ok(2)[OF assms(1)] p in \<open>simp add: cursor_end_def\<close>)
qed

text \<open>Where a search for the offset \<open>n\<close> stops, with either bias, and the cursor there.\<close>

definition fits :: "bias \<Rightarrow> nat \<Rightarrow> chunk list \<Rightarrow> chunk list \<Rightarrow> bool" where
  "fits b n p q \<longleftrightarrow>
     (if b = Right then str_len (chunks_text p) \<le> n else p = [] \<or> str_len (chunks_text p) < n) \<and>
     (case q of [] \<Rightarrow> True
      | k # _ \<Rightarrow> (if b = Right then n < str_len (chunks_text p) + str_len (ck_text k)
                 else n \<le> str_len (chunks_text p) + str_len (ck_text k)))"

definition stands :: "bias \<Rightarrow> rope \<Rightarrow> nat \<Rightarrow> (chunk, text_summary, nat) cursor \<Rightarrow> bool" where
  "stands b r n c \<longleftrightarrow> c_tree c = r \<and>
     (\<exists>p q. cursor_at bytes_dim chunk_sum c p q \<and> p @ q = tree_items r \<and> fits b n p q)"

lemma standsI:
  "c_tree c = r \<Longrightarrow> cursor_at bytes_dim chunk_sum c p q \<Longrightarrow> p @ q = tree_items r \<Longrightarrow> fits b n p q \<Longrightarrow> stands b r n c"
  unfolding stands_def by blast

lemma standsE:
  assumes "stands b r n c"
  obtains p q where "c_tree c = r" "cursor_at bytes_dim chunk_sum c p q" "p @ q = tree_items r" "fits b n p q"
  using assms unfolding stands_def by blast

lemma scan_fits:
  assumes "chunks_ok (pre @ post)" "fits b n pre []"
  obtains p q where "seek_scan bytes_dim chunk_sum (cmp_of n) b pre post = (p, q)" "p @ q = pre @ post" "fits b n p q"
proof -
  obtain p q where pq: "seek_scan bytes_dim chunk_sum (cmp_of n) b pre post = (p, q)" by force
  have items: "p @ q = pre @ post" using pq by (simp add: seek_scan_def scan_append_items)
  have ok: "chunks_ok p" "chunks_ok q" using assms(1) unfolding items[symmetric] by simp_all
  have passed: "passed bytes_dim chunk_sum (cmp_of n) b ks \<longleftrightarrow>
      (if b = Right then str_len (chunks_text ks) \<le> n else str_len (chunks_text ks) < n)" if "chunks_ok ks" for ks
    using that by (cases b) (auto simp: passed_def passes_def bytes_dpos cmp_of_def)
  have "fits b n p []"
    using scan_passed[OF pq[unfolded seek_scan_def]] passed[OF ok(1)] assms(2) by (cases "p = pre") (auto simp: fits_def)
  moreover have "\<not> passed bytes_dim chunk_sum (cmp_of n) b (p @ [k])" if "q = k # ks" for k ks
    using scan_stop[OF pq[unfolded seek_scan_def that]] .
  ultimately have "fits b n p q" using passed[of "p @ [hd q]"] ok by (cases q) (auto simp: fits_def not_le not_less)
  then show ?thesis using that pq items by blast
qed

lemma seek_stands:
  assumes "rope_ok r" "height r < STACK_CAP" "c_tree c = r"
  shows "\<exists>x c'. cursor_seek bytes_dim (cmp_of n) b c = Some (x, c') \<and> stands b r n c'"
proof -
  have "chunks_ok ([] @ tree_items r)" "fits b n [] []" using rope_okD(2)[OF assms(1)] by (simp_all add: fits_def)
  then obtain p q where pq: "seek_scan bytes_dim chunk_sum (cmp_of n) b [] (tree_items r) = (p, q)" "p @ q = [] @ tree_items r" "fits b n p q"
    by (rule scan_fits)
  have "cmp_of n (dm_zero bytes_dim) \<noteq> Less" by (simp add: bytes_dim_def)
  then obtain x c' where c': "cursor_seek bytes_dim (cmp_of n) b c = Some (x, c')" "c_tree c' = r" "cursor_at bytes_dim chunk_sum c' p q"
    using bytes_seek.cursor_seek_ok[of c "cmp_of n" b p q] pq(1) assms(2,3) rope_okD[OF assms(1)] bytes_target_mono by auto
  have "stands b r n c'" using c'(2,3) pq(2,3) by (intro standsI) simp_all
  then show ?thesis using c'(1) by blast
qed

lemma seek_forward_stands:
  assumes "rope_ok r" "cursor_at bytes_dim chunk_sum c pre post" "pre @ post = tree_items r" "c_tree c = r"
    "fits b n pre []"
  shows "\<exists>x c'. cursor_seek_forward bytes_dim (cmp_of n) b c = Some (x, c') \<and> stands b r n c'"
proof -
  have ok: "chunks_ok (pre @ post)" using rope_okD(2)[OF assms(1)] assms(3) by simp
  obtain p q where pq: "seek_scan bytes_dim chunk_sum (cmp_of n) b pre post = (p, q)" "p @ q = pre @ post" "fits b n p q"
    by (rule scan_fits[OF ok assms(5)])
  have "str_len (chunks_text pre) \<le> n" using assms(5) by (auto simp: fits_def split: if_splits)
  then have "cmp_of n (dpos bytes_dim chunk_sum pre) \<noteq> Less" using ok by (simp add: bytes_dpos)
  then obtain x c' where c': "cursor_seek_forward bytes_dim (cmp_of n) b c = Some (x, c')" "c_tree c' = r" "cursor_at bytes_dim chunk_sum c' p q"
    using bytes_seek.cursor_seek_forward_ok[OF _ ok bytes_target_mono[OF ok] _ pq(1), of c] assms(2,4) by (auto simp: cursor_ready_def)
  have "stands b r n c'" using c'(2,3) pq(2,3) assms(3) by (intro standsI) simp_all
  then show ?thesis using c'(1) by blast
qed

text \<open>The chunk after the offset, and the chunk before it.\<close>

lemma stands_right:
  assumes "rope_ok r" "stands Right r (str_len a) c" "rope_text r = a @ w"
  obtains pre post where "cursor_at bytes_dim chunk_sum c pre post" "pre @ post = tree_items r" "chunks_ok (pre @ post)"
    "post = [] \<and> w = [] \<and> a = chunks_text pre \<or>
     (\<exists>u s ks. post = canon (u @ s) # ks \<and> s \<noteq> [] \<and> str_len (u @ s) \<le> 128 \<and> a = chunks_text pre @ u \<and> w = s @ chunks_text ks)"
proof -
  obtain pre post where p: "cursor_at bytes_dim chunk_sum c pre post" "pre @ post = tree_items r" "fits Right (str_len a) pre post"
    using assms(2) by (rule standsE)
  have ok: "chunks_ok (pre @ post)" using rope_okD(2)[OF assms(1)] p(2) by simp
  have all: "chunks_text pre @ chunks_text post = a @ w" using assms(3) p(2)[symmetric] by (simp add: rope_text_def)
  have "str_len (chunks_text pre) \<le> str_len a" using p(3) by (simp add: fits_def)
  with all obtain u where u: "a = chunks_text pre @ u" "chunks_text post = u @ w" by (rule str_prefix_split)
  show ?thesis
  proof (cases post)
    case Nil
    then show ?thesis using that[OF p(1,2) ok] u by simp
  next
    case (Cons k ks)
    then have k: "chunk_ok k" using ok by simp
    obtain s where s: "k = canon s" "str_len s \<le> 128" using k by (rule chunk_okE)
    have lt: "str_len u < str_len s" using p(3) Cons u(1) s by (simp add: fits_def)
    have "u @ w = s @ chunks_text ks" using u(2) Cons s by simp
    then obtain s' where s': "s = u @ s'" "w = s' @ chunks_text ks" using less_imp_le[OF lt] by (rule str_prefix_split)
    have "s' \<noteq> []" using lt s'(1) by (cases s') auto
    then show ?thesis using that[OF p(1,2) ok] Cons s u(1) s' by auto
  qed
qed

lemma stands_left:
  assumes "rope_ok r" "stands Left r (str_len a) c" "rope_text r = a @ w" "a \<noteq> []"
  obtains pre s u ks where "cursor_at bytes_dim chunk_sum c pre (canon (s @ u) # ks)" "pre @ canon (s @ u) # ks = tree_items r"
    "chunks_ok (pre @ canon (s @ u) # ks)" "s \<noteq> []" "str_len (s @ u) \<le> 128" "a = chunks_text pre @ s" "w = u @ chunks_text ks"
proof -
  obtain pre post where p: "cursor_at bytes_dim chunk_sum c pre post" "pre @ post = tree_items r" "fits Left (str_len a) pre post"
    using assms(2) by (rule standsE)
  have ok: "chunks_ok (pre @ post)" using rope_okD(2)[OF assms(1)] p(2) by simp
  have all: "chunks_text pre @ chunks_text post = a @ w" using assms(3) p(2)[symmetric] by (simp add: rope_text_def)
  have a: "0 < str_len a" using assms(4) str_len_0[of a] by (simp del: str_len_0)
  have lt: "str_len (chunks_text pre) < str_len a" using p(3) a by (auto simp: fits_def)
  obtain s where s: "a = chunks_text pre @ s" "chunks_text post = s @ w" by (rule str_prefix_split[OF all less_imp_le[OF lt]])
  have sne: "s \<noteq> []" using lt s(1) by (cases s) auto
  show ?thesis
  proof (cases post)
    case Nil
    then show ?thesis using s(2) sne by simp
  next
    case (Cons k ks)
    then have k: "chunk_ok k" using ok by simp
    obtain v where v: "k = canon v" "str_len v \<le> 128" using k by (rule chunk_okE)
    have le: "str_len s \<le> str_len v" using p(3) Cons s(1) v by (simp add: fits_def)
    have "s @ w = v @ chunks_text ks" using s(2) Cons v by simp
    then obtain u where u: "v = s @ u" "w = u @ chunks_text ks" using le by (rule str_prefix_split)
    show ?thesis using that[of pre s u ks] p(1,2) ok Cons v u s(1) sne by simp
  qed
qed

lemma stands_boundary:
  assumes "rope_ok r" "stands b r (str_len a) c" "rope_text r = a @ w"
  shows "\<exists>n i. csub (str_len a) (c_position c) = Some n \<and> cursor_item c = Some i \<and>
     (\<forall>k. i = Some k \<longrightarrow> chunk_is_char_boundary k n)"
proof -
  obtain pre post where p: "cursor_at bytes_dim chunk_sum c pre post" "pre @ post = tree_items r" "fits b (str_len a) pre post"
    using assms(2) by (rule standsE)
  have ok: "chunks_ok (pre @ post)" using rope_okD(2)[OF assms(1)] p(2) by simp
  have le: "str_len (chunks_text pre) \<le> str_len a" using p(3) by (auto simp: fits_def split: if_splits)
  have bd: "str_is_char_boundary (rope_text r) (str_len a)" using assms(3) by (auto simp: str_boundary_iff)
  have "chunk_is_char_boundary k (str_len a - str_len (chunks_text pre))" if k: "post = k # ks" for k ks
  proof -
    have kok: "chunk_ok k" using ok k by simp
    obtain s where s: "k = canon s" "str_len s \<le> 128" using kok by (rule chunk_okE)
    have le': "str_len a \<le> str_len (chunks_text pre) + str_len s" using p(3) k s(1) by (auto simp: fits_def split: if_splits)
    have "rope_text r = chunks_text pre @ s @ chunks_text ks" using p(2)[symmetric] k s(1) by (simp add: rope_text_def)
    then have "str_is_char_boundary s (str_len a - str_len (chunks_text pre))"
      using boundary_inner[OF le le', of "chunks_text ks"] bd by simp
    then show ?thesis using s by (simp add: chunk_is_char_boundary_ok)
  qed
  then show ?thesis using bytes_cursor[OF p(1) ok] le by (cases post) (simp_all add: csub_def)
qed

section \<open>Both directions\<close>

text \<open>The iterator over a range has the text \<open>a\<close> of the rope before what it still returns, \<open>b\<close>, and
  \<open>t\<close> behind it.\<close>

definition fwd_rest :: "rope \<Rightarrow> chunks_iter \<Rightarrow> str \<Rightarrow> str \<Rightarrow> str \<Rightarrow> bool" where
  "fwd_rest r it a b t \<longleftrightarrow>
     rope_ok r \<and> height r < STACK_CAP \<and> \<not> ch_reversed it \<and> rope_text r = a @ b @ t \<and>
     ch_offset it = str_len a \<and> ch_end it = str_len (a @ b) \<and> ch_start it \<le> str_len a \<and>
     (\<exists>d. stands d r (str_len a) (ch_chunks it) \<and> (b \<noteq> [] \<longrightarrow> d = Right))"

definition bwd_rest :: "rope \<Rightarrow> chunks_iter \<Rightarrow> str \<Rightarrow> str \<Rightarrow> str \<Rightarrow> bool" where
  "bwd_rest r it a b t \<longleftrightarrow>
     rope_ok r \<and> height r < STACK_CAP \<and> ch_reversed it \<and> rope_text r = a @ b @ t \<and>
     ch_offset it = str_len (a @ b) \<and> ch_start it = str_len a \<and> str_len (a @ b) \<le> ch_end it \<and>
     (b \<noteq> [] \<longrightarrow> stands Left r (str_len (a @ b)) (ch_chunks it))"

lemma chunks_iter_new_fwd:
  assumes "rope_ok r" "height r < STACK_CAP" "rope_text r = a @ b @ t"
  shows "\<exists>it. chunks_iter_new r (str_len a, str_len (a @ b)) False = Some it \<and> fwd_rest r it a b t \<and> ch_start it = str_len a"
proof -
  have tree: "c_tree (cursor_new bytes_dim r) = r" by (simp add: cursor_new_def)
  obtain x c where c: "cursor_seek bytes_dim (cmp_of (str_len a)) Right (cursor_new bytes_dim r) = Some (x, c)"
    "stands Right r (str_len a) c" using seek_stands[OF assms(1,2) tree] by blast
  let ?it = "\<lparr>ch_chunks = c, ch_start = str_len a, ch_end = str_len (a @ b), ch_offset = str_len a, ch_reversed = False\<rparr>"
  have rest: "fwd_rest r ?it a b t" using assms c(2) by (auto simp: fwd_rest_def)
  obtain n i where n: "csub (str_len a) (c_position c) = Some n" "cursor_item c = Some i"
    "\<forall>k. i = Some k \<longrightarrow> chunk_is_char_boundary k n" using stands_boundary[OF assms(1) c(2) assms(3)] by blast
  have "chunks_iter_new r (str_len a, str_len (a @ b)) False = Some ?it"
    using c(1) n by (cases i) (simp_all add: chunks_iter_new_def assert_char_boundary_def)
  then show ?thesis using rest by auto
qed

lemma chunks_iter_new_bwd:
  assumes "rope_ok r" "height r < STACK_CAP" "rope_text r = a @ b @ t"
  shows "\<exists>it. chunks_iter_new r (str_len a, str_len (a @ b)) True = Some it \<and> bwd_rest r it a b t \<and> ch_end it = str_len (a @ b)"
proof -
  have tree: "c_tree (cursor_new bytes_dim r) = r" by (simp add: cursor_new_def)
  obtain x c where c: "cursor_seek bytes_dim (cmp_of (str_len (a @ b))) Left (cursor_new bytes_dim r) = Some (x, c)"
    "stands Left r (str_len (a @ b)) c" using seek_stands[OF assms(1,2) tree] by blast
  let ?it = "\<lparr>ch_chunks = c, ch_start = str_len a, ch_end = str_len (a @ b), ch_offset = str_len (a @ b), ch_reversed = True\<rparr>"
  have rest: "bwd_rest r ?it a b t" using assms c(2) by (simp add: bwd_rest_def)
  have "rope_text r = (a @ b) @ t" using assms(3) by simp
  then obtain n i where n: "csub (str_len (a @ b)) (c_position c) = Some n" "cursor_item c = Some i"
    "\<forall>k. i = Some k \<longrightarrow> chunk_is_char_boundary k n" using stands_boundary[OF assms(1) c(2)] by blast
  have "chunks_iter_new r (str_len a, str_len (a @ b)) True = Some ?it"
    using c(1) n by (cases i) (simp_all add: chunks_iter_new_def assert_char_boundary_def del: str_len_simps)
  then show ?thesis using rest by auto
qed

text \<open>The next piece, and the state once it is taken.\<close>

lemma fwd_peek_end: "fwd_rest r it a [] t \<Longrightarrow> chunks_peek it = Some None"
  by (simp add: fwd_rest_def chunks_peek_def offset_is_valid_def)

lemma bwd_peek_end: "bwd_rest r it a [] t \<Longrightarrow> chunks_peek it = Some None"
  by (simp add: bwd_rest_def chunks_peek_def offset_is_valid_def)

lemma items_nonempty:
  assumes "rope_ok r" "pre @ k # ks = tree_items r" shows "0 < str_len (ck_text k)"
proof -
  have "k \<in> set (tree_items r)" unfolding assms(2)[symmetric] by simp
  then have "ck_text k \<noteq> []" using assms(1) by (simp add: rope_ok_def)
  then show ?thesis using str_len_0[of "ck_text k"] by (simp del: str_len_0)
qed

text \<open>The piece at the offset ends with the range or with its chunk.\<close>

lemma fwd_piece:
  assumes "fwd_rest r it a b t" "b \<noteq> []"
  obtains pre u s ks where "cursor_at bytes_dim chunk_sum (ch_chunks it) pre (canon (u @ s) # ks)"
    "pre @ canon (u @ s) # ks = tree_items r" "chunks_ok (pre @ canon (u @ s) # ks)" "s \<noteq> []" "a = chunks_text pre @ u"
    "b @ t = s @ chunks_text ks"
    "str_len b < str_len s \<and> chunks_peek it = Some (Some b) \<and> (\<exists>s2. s = b @ s2) \<or>
     str_len s \<le> str_len b \<and> chunks_peek it = Some (Some s) \<and> (\<exists>b2. b = s @ b2 \<and> chunks_text ks = b2 @ t)"
proof -
  have r: "rope_ok r" "\<not> ch_reversed it" "rope_text r = a @ b @ t" "ch_offset it = str_len a"
    "ch_end it = str_len (a @ b)" "ch_start it \<le> str_len a" "stands Right r (str_len a) (ch_chunks it)"
    using assms by (auto simp: fwd_rest_def)
  obtain pre post where p: "cursor_at bytes_dim chunk_sum (ch_chunks it) pre post" "pre @ post = tree_items r" "chunks_ok (pre @ post)"
    "post = [] \<and> b @ t = [] \<and> a = chunks_text pre \<or>
     (\<exists>u s ks. post = canon (u @ s) # ks \<and> s \<noteq> [] \<and> str_len (u @ s) \<le> 128 \<and> a = chunks_text pre @ u \<and>
        b @ t = s @ chunks_text ks)"
    by (rule stands_right[OF r(1,7,3)])
  then obtain u s ks where k: "post = canon (u @ s) # ks" "s \<noteq> []" "a = chunks_text pre @ u"
    "b @ t = s @ chunks_text ks" using assms(2) by auto
  note cur = bytes_cursor[OF p(1,3)]
  have valid: "offset_is_valid it" using r(2,4-6) assms(2) by (simp add: offset_is_valid_def)
  let ?stop = "str_len (chunks_text pre) + str_len (u @ s)"
  have piece: "piece_range it = Some (str_len u, min ?stop (str_len (a @ b)) - str_len (chunks_text pre))"
    using r(2,4,5) cur(1,3) k(1,3) by (simp add: piece_range_def csub_def Let_def)
  have "str_len b < str_len s \<and> chunks_peek it = Some (Some b) \<and> (\<exists>s2. s = b @ s2) \<or>
     str_len s \<le> str_len b \<and> chunks_peek it = Some (Some s) \<and> (\<exists>b2. b = s @ b2 \<and> chunks_text ks = b2 @ t)"
  proof (cases "str_len b < str_len s")
    case True
    obtain s2 where s2: "s = b @ s2" by (rule str_prefix_split[OF k(4) less_imp_le[OF True]])
    have "str_slice (u @ s) (str_len u) (min ?stop (str_len (a @ b)) - str_len (chunks_text pre)) = Some b"
      unfolding str_slice_Some using True k(3) by (intro exI[of _ u] exI[of _ s2]) (simp add: s2 min_def)
    then show ?thesis using True s2 valid cur(2) k(1) piece by (simp add: chunks_peek_def)
  next
    case False
    then have sle: "str_len s \<le> str_len b" by simp
    obtain b2 where b2: "b = s @ b2" "chunks_text ks = b2 @ t" by (rule str_prefix_split[OF k(4)[symmetric] sle])
    have "str_slice (u @ s) (str_len u) (min ?stop (str_len (a @ b)) - str_len (chunks_text pre)) = Some s"
      unfolding str_slice_Some using k(3) by (intro exI[of _ u] exI[of _ "[]"]) (simp add: b2(1) min_def)
    then have "chunks_peek it = Some (Some s)" using valid cur(2) k(1) piece by (simp add: chunks_peek_def)
    then show ?thesis using sle b2 by blast
  qed
  then show ?thesis using that[of pre u s ks] p(1-3) k by simp
qed

lemma fits_end: "rope_ok r \<Longrightarrow> p @ q = tree_items r \<Longrightarrow> fits Right (str_len (chunks_text p)) p q"
  using items_nonempty[of r p] by (cases q) (auto simp: fits_def simp del: str_len_0)

lemma fwd_peek:
  assumes "fwd_rest r it a b t" "b \<noteq> []"
  shows "\<exists>b1 b2 it'. b = b1 @ b2 \<and> b1 \<noteq> [] \<and> chunks_peek it = Some (Some b1) \<and> chunks_advance it (str_len b1) = Some it' \<and>
    fwd_rest r it' (a @ b1) b2 t \<and> ch_start it' = ch_start it"
proof -
  have r: "rope_ok r" "height r < STACK_CAP" "\<not> ch_reversed it" "rope_text r = a @ b @ t" "ch_offset it = str_len a"
    "ch_end it = str_len (a @ b)" "ch_start it \<le> str_len a" "c_tree (ch_chunks it) = r"
    using assms(1) by (auto simp: fwd_rest_def stands_def)
  obtain pre u s ks where p: "cursor_at bytes_dim chunk_sum (ch_chunks it) pre (canon (u @ s) # ks)"
    "pre @ canon (u @ s) # ks = tree_items r" "chunks_ok (pre @ canon (u @ s) # ks)" "s \<noteq> []" "a = chunks_text pre @ u"
    "b @ t = s @ chunks_text ks"
    "str_len b < str_len s \<and> chunks_peek it = Some (Some b) \<and> (\<exists>s2. s = b @ s2) \<or>
     str_len s \<le> str_len b \<and> chunks_peek it = Some (Some s) \<and> (\<exists>b2. b = s @ b2 \<and> chunks_text ks = b2 @ t)"
    by (rule fwd_piece[OF assms])
  note cur = bytes_cursor[OF p(1,3)]
  from p(7) show ?thesis
  proof (elim disjE conjE exE)
    fix s2 assume b: "str_len b < str_len s" "chunks_peek it = Some (Some b)" "s = b @ s2"
    let ?it = "it\<lparr>ch_offset := str_len (a @ b)\<rparr>"
    have adv: "chunks_advance it (str_len b) = Some ?it"
      using r(3,5) cur(3) p(5) b(1) by (simp add: chunks_advance_def)
    have "stands Right r (str_len (a @ b)) (ch_chunks it)"
      using r(8) p(1,2) by (rule standsI) (use p(5) b(1) in \<open>simp add: fits_def\<close>)
    then have "fwd_rest r ?it (a @ b) [] t" using r(1-7) by (auto simp: fwd_rest_def)
    then show ?thesis using b(2) adv assms(2) by (intro exI[of _ b] exI[of _ "[]"] exI[of _ ?it]) simp
  next
    fix b2 assume b: "chunks_peek it = Some (Some s)" "b = s @ b2"
    obtain c' where c': "cursor_next bytes_dim (ch_chunks it) = Some c'" "c_tree c' = r"
      "cursor_at bytes_dim chunk_sum c' (pre @ [canon (u @ s)]) ks"
      using bytes_seek.cursor_next_at_ok[OF p(1,3)] r(8) by auto
    let ?it = "it\<lparr>ch_chunks := c', ch_offset := str_len (a @ s)\<rparr>"
    have adv: "chunks_advance it (str_len s) = Some ?it"
      using r(3,5) cur(3) p(5) c'(1) by (simp add: chunks_advance_def)
    have "stands Right r (str_len (a @ s)) c'"
      using c'(2,3) p(2,5) fits_end[OF r(1), of "pre @ [canon (u @ s)]" ks] by (intro standsI) simp_all
    then have "fwd_rest r ?it (a @ s) b2 t" using r(1-7) b(2) by (auto simp: fwd_rest_def)
    then show ?thesis using b adv p(4) by (intro exI[of _ s] exI[of _ b2] exI[of _ ?it]) simp
  qed
qed

lemma bwd_peek:
  assumes "bwd_rest r it a b t" "b \<noteq> []"
  shows "\<exists>b1 b2 it'. b = b1 @ b2 \<and> b2 \<noteq> [] \<and> chunks_peek it = Some (Some b2) \<and> chunks_advance it (str_len b2) = Some it' \<and>
    bwd_rest r it' a b1 (b2 @ t) \<and> ch_end it' = ch_end it"
proof -
  have r: "rope_ok r" "height r < STACK_CAP" "ch_reversed it" "rope_text r = (a @ b) @ t" "ch_offset it = str_len (a @ b)"
    "ch_start it = str_len a" "str_len (a @ b) \<le> ch_end it" "stands Left r (str_len (a @ b)) (ch_chunks it)" "c_tree (ch_chunks it) = r"
    using assms by (simp_all add: bwd_rest_def stands_def)
  have abne: "a @ b \<noteq> []" using assms(2) by simp
  obtain pre s u ks where p: "cursor_at bytes_dim chunk_sum (ch_chunks it) pre (canon (s @ u) # ks)"
    "pre @ canon (s @ u) # ks = tree_items r" "chunks_ok (pre @ canon (s @ u) # ks)" "s \<noteq> []" "str_len (s @ u) \<le> 128"
    "a @ b = chunks_text pre @ s" "t = u @ chunks_text ks"
    by (rule stands_left[OF r(1,8,4) abne])
  note cur = bytes_cursor[OF p(1,3)]
  have valid: "offset_is_valid it" using r(3,5-7) assms(2) by (simp add: offset_is_valid_def)
  have piece: "piece_range it = Some (str_len a - str_len (chunks_text pre), str_len s)"
    using r(3,5,6) cur(1) p(6) by (simp add: piece_range_def csub_def Let_def del: str_len_simps) (simp add: max_def)
  show ?thesis
  proof (cases "str_len a \<le> str_len (chunks_text pre)")
    case True
    obtain b1 where b1: "chunks_text pre = a @ b1" "b = b1 @ s" by (rule str_prefix_split[OF p(6) True])
    have "str_slice (s @ u) (str_len a - str_len (chunks_text pre)) (str_len s) = Some s"
      unfolding str_slice_Some using True by (intro exI[of _ "[]"] exI[of _ u]) simp
    then have peek: "chunks_peek it = Some (Some s)" using valid cur(2) piece by (simp add: chunks_peek_def)
    obtain c' where c': "cursor_prev bytes_dim (ch_chunks it) = Some c'" "c_tree c' = r"
      "pre \<noteq> [] \<Longrightarrow> cursor_at bytes_dim chunk_sum c' (butlast pre) (last pre # canon (s @ u) # ks)"
      using bytes_seek.cursor_prev_at_ok[OF p(1,3)] r(9) by auto
    let ?it = "it\<lparr>ch_chunks := c', ch_offset := str_len (a @ b1)\<rparr>"
    have adv: "chunks_advance it (str_len s) = Some ?it"
      using r(3,5) cur(1) c'(1) b1 by (simp add: chunks_advance_def csub_def)
    have "stands Left r (str_len (a @ b1)) c'" if "b1 \<noteq> []"
    proof -
      have pre: "pre = butlast pre @ [last pre]" using that b1(1) by (cases pre rule: rev_cases) auto
      have items: "butlast pre @ last pre # canon (s @ u) # ks = tree_items r" using p(2) pre by (metis append_Cons append_Nil append_assoc)
      have len: "str_len (a @ b1) = str_len (chunks_text (butlast pre)) + str_len (ck_text (last pre))"
        using arg_cong[OF pre, of chunks_text] b1(1) by (metis chunks_text_simps append_Nil2 str_len_simps(3))
      have "0 < str_len (ck_text (last pre))" using items_nonempty[OF r(1) items] .
      then have "fits Left (str_len (a @ b1)) (butlast pre) (last pre # canon (s @ u) # ks)"
        unfolding fits_def len by simp
      moreover have "pre \<noteq> []" using pre by auto
      ultimately show ?thesis using c'(2) c'(3) items by (intro standsI) simp_all
    qed
    then have "bwd_rest r ?it a b1 (s @ t)" using r(1-7) b1(2) by (simp add: bwd_rest_def)
    then show ?thesis using peek adv p(4) b1(2) by (intro exI[of _ b1] exI[of _ s] exI[of _ ?it]) simp
  next
    case False
    then have le: "str_len (chunks_text pre) \<le> str_len a" by simp
    obtain v where v: "a = chunks_text pre @ v" "s = v @ b" by (rule str_prefix_split[OF p(6)[symmetric] le])
    have "str_slice (s @ u) (str_len a - str_len (chunks_text pre)) (str_len s) = Some b"
      unfolding str_slice_Some using v by (intro exI[of _ v] exI[of _ u]) simp
    then have peek: "chunks_peek it = Some (Some b)" using valid cur(2) piece by (simp add: chunks_peek_def)
    let ?it = "it\<lparr>ch_offset := str_len a\<rparr>"
    have adv: "chunks_advance it (str_len b) = Some ?it"
      using r(3,5) cur(1) False by (simp add: chunks_advance_def csub_def)
    have "bwd_rest r ?it a [] (b @ t)" using r(1-7) by (simp add: bwd_rest_def)
    then show ?thesis using peek adv assms(2) by (intro exI[of _ "[]"] exI[of _ b] exI[of _ ?it]) simp
  qed
qed

text \<open>The pieces that a loop takes.\<close>

inductive yields :: "chunks_iter \<Rightarrow> str list \<Rightarrow> bool" where
  yields_nil: "chunks_next it = Some (None, it') \<Longrightarrow> yields it []"
| yields_cons: "chunks_next it = Some (Some s, it') \<Longrightarrow> yields it' ss \<Longrightarrow> yields it (s # ss)"

lemma fwd_yields: "fwd_rest r it a b t \<Longrightarrow> \<exists>ss. yields it ss \<and> concat ss = b \<and> [] \<notin> set ss"
proof (induction "length b" arbitrary: it a b rule: less_induct)
  case less
  show ?case
  proof (cases "b = []")
    case True
    then have "chunks_next it = Some (None, it)" using fwd_peek_end less.prems by (simp add: chunks_next_def)
    then show ?thesis using True yields_nil by (intro exI[of _ "[]"]) auto
  next
    case False
    obtain b1 b2 it' where b: "b = b1 @ b2" "b1 \<noteq> []" "chunks_peek it = Some (Some b1)" "chunks_advance it (str_len b1) = Some it'"
      "fwd_rest r it' (a @ b1) b2 t" using fwd_peek[OF less.prems False] by blast
    obtain ss where ss: "yields it' ss" "concat ss = b2" "[] \<notin> set ss" using less.hyps[OF _ b(5)] b(1,2) by auto
    have "chunks_next it = Some (Some b1, it')" using b(3,4) by (simp add: chunks_next_def)
    then have "yields it (b1 # ss)" using ss(1) by (rule yields_cons)
    then show ?thesis using ss b(1,2) by (intro exI[of _ "b1 # ss"]) simp
  qed
qed

lemma bwd_yields: "bwd_rest r it a b t \<Longrightarrow> \<exists>ss. yields it ss \<and> concat (rev ss) = b \<and> [] \<notin> set ss"
proof (induction "length b" arbitrary: it b t rule: less_induct)
  case less
  show ?case
  proof (cases "b = []")
    case True
    then have "chunks_next it = Some (None, it)" using bwd_peek_end less.prems by (simp add: chunks_next_def)
    then show ?thesis using True yields_nil by (intro exI[of _ "[]"]) auto
  next
    case False
    obtain b1 b2 it' where b: "b = b1 @ b2" "b2 \<noteq> []" "chunks_peek it = Some (Some b2)" "chunks_advance it (str_len b2) = Some it'"
      "bwd_rest r it' a b1 (b2 @ t)" using bwd_peek[OF less.prems False] by blast
    obtain ss where ss: "yields it' ss" "concat (rev ss) = b1" "[] \<notin> set ss" using less.hyps[OF _ b(5)] b(1,2) by auto
    have "chunks_next it = Some (Some b2, it')" using b(3,4) by (simp add: chunks_next_def)
    then have "yields it (b2 # ss)" using ss(1) by (rule yields_cons)
    then show ?thesis using ss b(1,2) by (intro exI[of _ "b2 # ss"]) simp
  qed
qed

end
