(* ===== verification/RopeCompare.thy ===== *)
theory RopeCompare
  imports RopeChunksProps
begin

text \<open>
  The loops over the pieces of a range: their concatenation, and the comparisons of a range and of
  a rope with a string, which agree with those of strings.
\<close>

section \<open>The loops\<close>

lemma yields_collect: "yields it ss \<Longrightarrow> chunks_collect it = Some ss"
  by (induction rule: yields.induct) (subst chunks_collect.simps, simp)+

lemma yields_equals_forward:
  "yields it ss \<Longrightarrow> [] \<notin> set ss \<Longrightarrow> equals_forward (p @ q) it (str_len p) = Some (q = concat ss)"
proof (induction arbitrary: p q rule: yields.induct)
  case (yields_nil it it')
  then show ?case by (subst equals_forward.simps) simp
next
  case (yields_cons it s it' ss)
  have slice: "str_slice (p @ q) (str_len p) (str_len (p @ q)) = Some q"
    unfolding str_slice_Some by (intro exI[of _ p] exI[of _ "[]"]) simp
  show ?case
  proof (cases "prefix s q")
    case True
    then obtain q' where q': "q = s @ q'" by (auto simp: prefix_def)
    have "s \<noteq> []" using yields_cons.prems by auto
    moreover have "equals_forward ((p @ s) @ q') it' (str_len (p @ s)) = Some (q' = concat ss)"
      by (rule yields_cons.IH) (use yields_cons.prems in simp)
    ultimately show ?thesis using yields_cons.hyps(1) slice q' by (subst equals_forward.simps) simp
  next
    case False
    then have "q \<noteq> s @ concat ss" by auto
    then show ?thesis using yields_cons.hyps(1) slice False by (subst equals_forward.simps) simp
  qed
qed

lemma yields_equals_backward:
  "yields it ss \<Longrightarrow> equals_backward (p @ q) it (str_len p) = Some (p = concat (rev ss))"
proof (induction arbitrary: p q rule: yields.induct)
  case (yields_nil it it')
  then show ?case by (subst equals_backward.simps) simp
next
  case (yields_cons it s it' ss)
  have slice: "str_slice (p @ q) 0 (str_len p) = Some p"
    unfolding str_slice_Some by (intro exI[of _ "[]"] exI[of _ q]) simp
  show ?case
  proof (cases "suffix s p")
    case True
    then obtain p' where p': "p = p' @ s" by (auto simp: suffix_def)
    have "equals_backward (p' @ (s @ q)) it' (str_len p') = Some (p' = concat (rev ss))" by (rule yields_cons.IH)
    then show ?thesis using yields_cons.hyps(1) slice p' by (subst equals_backward.simps) (simp add: csub_def suffix_def)
  next
    case False
    then have "p \<noteq> concat (rev ss) @ s" by (auto simp: suffix_def)
    then show ?thesis using yields_cons.hyps(1) slice False by (subst equals_backward.simps) simp
  qed
qed

text \<open>A piece is cut to the length of the pattern; a cut inside a character is no match.\<close>

lemma prefix_cut:
  "(case str_slice s 0 (min (str_len p) (str_len s)) of None \<Rightarrow> \<not> prefix p (s @ w)
    | Some u \<Rightarrow> (if prefix u p then
        (u = s \<and> (\<exists>p'. p = s @ p' \<and> str_slice p (str_len u) (str_len p) = Some p')) \<or> (u = p \<and> prefix p s)
        else \<not> prefix p (s @ w)))"
proof (cases "str_len s \<le> str_len p")
  case True
  then have m: "min (str_len p) (str_len s) = str_len s" by simp
  have u: "str_slice s 0 (str_len s) = Some s" unfolding str_slice_Some by (intro exI[of _ "[]"]) simp
  have "\<exists>p'. p = s @ p' \<and> str_slice p (str_len s) (str_len p) = Some p'" if sp: "prefix s p"
  proof -
    obtain p' where "p = s @ p'" using sp by (auto simp: prefix_def)
    moreover have "str_slice (s @ p') (str_len s) (str_len (s @ p')) = Some p'"
      unfolding str_slice_Some by (intro exI[of _ s] exI[of _ "[]"]) simp
    ultimately show ?thesis by blast
  qed
  moreover have "prefix s p" if ps: "prefix p (s @ w)"
  proof -
    obtain v where "s @ w = p @ v" using ps by (auto simp: prefix_def)
    from str_prefix_split[OF this True] show ?thesis by (metis prefixI)
  qed
  ultimately show ?thesis unfolding m u by auto
next
  case False
  then have m: "min (str_len p) (str_len s) = str_len p" by simp
  have split: "\<exists>v. s = p @ v" if ps: "prefix p (s @ w)"
  proof -
    obtain v where "p @ v = s @ w" using ps by (auto simp: prefix_def)
    then show ?thesis using False str_prefix_split[of p v s w] by (metis nat_le_linear)
  qed
  have slice: "str_slice (p @ v) 0 (str_len p) = Some p" for v
    unfolding str_slice_Some by (intro exI[of _ "[]"] exI[of _ v]) simp
  show ?thesis
  proof (cases "str_slice s 0 (str_len p)")
    case None
    then show ?thesis unfolding m using split slice by auto
  next
    case (Some u)
    then obtain v where v: "s = u @ v" "str_len u = str_len p" by (auto simp: str_slice_Some)
    have up: "u = p" if "prefix u p" using that v(2) by (auto simp: prefix_def)
    moreover have "prefix u p" if "prefix p (s @ w)" using split[OF that] slice Some by auto
    ultimately show ?thesis unfolding m Some using v(1) by auto
  qed
qed

lemma yields_starts_with:
  "yields it ss \<Longrightarrow> starts_with_loop it p = Some (prefix p (concat ss))"
proof (induction arbitrary: p rule: yields.induct)
  case (yields_nil it it')
  then show ?case by (subst starts_with_loop.simps) simp
next
  case (yields_cons it s it' ss)
  note cut = prefix_cut[where s = s and p = p and w = "concat ss"]
  show ?case
  proof (cases "str_slice s 0 (min (str_len p) (str_len s))")
    case None
    then show ?thesis using yields_cons.hyps(1) cut by (subst starts_with_loop.simps) simp
  next
    case (Some u)
    show ?thesis
    proof (cases "prefix u p")
      case False
      then show ?thesis using yields_cons.hyps(1) cut Some by (subst starts_with_loop.simps) simp
    next
      case True
      then consider (all) p' where "u = s" "p = s @ p'" "str_slice p (str_len u) (str_len p) = Some p'"
        | (part) "u = p" "prefix p s" using cut Some by auto
      then show ?thesis
      proof cases
        case all
        then show ?thesis using yields_cons Some by (subst starts_with_loop.simps) auto
      next
        case part
        have "str_slice p (str_len p) (str_len p) = Some []"
          unfolding str_slice_Some by (intro exI[of _ p] exI[of _ "[]"]) simp
        then show ?thesis using yields_cons.hyps(1) Some part by (subst starts_with_loop.simps) (auto simp: prefix_def)
      qed
    qed
  qed
qed

text \<open>The same from the back.\<close>

lemma str_suffix_split:
  assumes "x @ y = u @ v" "str_len y \<le> str_len v"
  obtains w where "v = w @ y" "x = u @ w"
proof -
  have "str_len u \<le> str_len x" using arg_cong[OF assms(1), of str_len] assms(2) by simp
  with assms(1)[symmetric] obtain w where "x = u @ w" "v = w @ y" by (rule str_prefix_split)
  then show ?thesis using that by blast
qed

lemma suffix_cut:
  "(case str_slice s (str_len s - min (str_len p) (str_len s)) (str_len s) of None \<Rightarrow> \<not> suffix p (w @ s)
    | Some u \<Rightarrow> (if suffix u p then
        (u = s \<and> (\<exists>p'. p = p' @ s \<and> str_slice p 0 (str_len p - str_len u) = Some p')) \<or> (u = p \<and> suffix p s)
        else \<not> suffix p (w @ s)))"
proof (cases "str_len s \<le> str_len p")
  case True
  then have m: "str_len s - min (str_len p) (str_len s) = 0" by simp
  have u: "str_slice s 0 (str_len s) = Some s" unfolding str_slice_Some by (intro exI[of _ "[]"]) simp
  have "\<exists>p'. p = p' @ s \<and> str_slice p 0 (str_len p - str_len s) = Some p'" if sp: "suffix s p"
  proof -
    obtain p' where "p = p' @ s" using sp by (auto simp: suffix_def)
    moreover have "str_slice (p' @ s) 0 (str_len (p' @ s) - str_len s) = Some p'"
      unfolding str_slice_Some by (intro exI[of _ "[]"] exI[of _ s]) simp
    ultimately show ?thesis by blast
  qed
  moreover have "suffix s p" if ps: "suffix p (w @ s)"
  proof -
    obtain v where "w @ s = v @ p" using ps by (auto simp: suffix_def)
    then show ?thesis using True by (rule str_suffix_split) (simp add: suffix_def)
  qed
  ultimately show ?thesis unfolding m u by auto
next
  case False
  then have m: "str_len s - min (str_len p) (str_len s) = str_len s - str_len p" by simp
  have split: "\<exists>v. s = v @ p" if ps: "suffix p (w @ s)"
  proof -
    obtain v where "v @ p = w @ s" using ps by (auto simp: suffix_def)
    moreover have "str_len p \<le> str_len s" using False by simp
    ultimately show ?thesis by (rule str_suffix_split) blast
  qed
  have slice: "str_slice (v @ p) (str_len (v @ p) - str_len p) (str_len (v @ p)) = Some p" for v
    unfolding str_slice_Some by (intro exI[of _ v] exI[of _ "[]"]) simp
  show ?thesis
  proof (cases "str_slice s (str_len s - str_len p) (str_len s)")
    case None
    then show ?thesis unfolding m using split slice by auto
  next
    case (Some u)
    then obtain v v' where v: "s = v @ u @ v'" "str_len v = str_len s - str_len p" "str_len (v @ u) = str_len s"
      by (auto simp: str_slice_Some)
    then have v': "v' = []" "str_len u = str_len p" using False by auto
    have up: "u = p" if us: "suffix u p" using us v'(2) by (auto simp: suffix_def)
    moreover have "suffix u p" if ps: "suffix p (w @ s)" using split[OF ps] slice Some by auto
    ultimately show ?thesis unfolding m Some using v(1) v'(1) by (auto simp: suffix_def)
  qed
qed

lemma yields_ends_with:
  "yields it ss \<Longrightarrow> ends_with_loop it p = Some (suffix p (concat (rev ss)))"
proof (induction arbitrary: p rule: yields.induct)
  case (yields_nil it it')
  then show ?case by (subst ends_with_loop.simps) simp
next
  case (yields_cons it s it' ss)
  note cut = suffix_cut[where s = s and p = p and w = "concat (rev ss)"]
  show ?case
  proof (cases "str_slice s (str_len s - min (str_len p) (str_len s)) (str_len s)")
    case None
    then show ?thesis using yields_cons.hyps(1) cut by (subst ends_with_loop.simps) simp
  next
    case (Some u)
    show ?thesis
    proof (cases "suffix u p")
      case False
      then show ?thesis using yields_cons.hyps(1) cut Some by (subst ends_with_loop.simps) simp
    next
      case True
      then have le: "csub (str_len p) (str_len u) = Some (str_len p - str_len u)" by (auto simp: suffix_def csub_def)
      from True consider (all) p' where "u = s" "p = p' @ s" "str_slice p 0 (str_len p - str_len u) = Some p'"
        | (part) "u = p" "suffix p s" using cut Some by auto
      then show ?thesis
      proof cases
        case all
        then show ?thesis using yields_cons Some le True by (subst ends_with_loop.simps) auto
      next
        case part
        have "str_slice p 0 0 = Some []" unfolding str_slice_Some by (intro exI[of _ "[]"] exI[of _ p]) simp
        then show ?thesis using yields_cons.hyps(1) Some part le True by (subst ends_with_loop.simps) (auto simp: suffix_def)
      qed
    qed
  qed
qed

section \<open>Ranges and ropes\<close>

text \<open>The pieces of a range are non-empty and concatenate to it, in the order of the direction.\<close>

definition range_pieces :: "rope \<Rightarrow> nat \<times> nat \<Rightarrow> bool \<Rightarrow> str list option" where
  "range_pieces r rng reversed = Option.bind (chunks_iter_new r rng reversed) chunks_collect"

lemma iter_yields:
  assumes "rope_ok r" "height r < STACK_CAP" "rope_text r = a @ b @ t"
  shows "\<exists>it ss. chunks_iter_new r (str_len a, str_len (a @ b)) reversed = Some it \<and> ch_reversed it = reversed \<and>
     yields it ss \<and> [] \<notin> set ss \<and> concat (if reversed then rev ss else ss) = b"
proof (cases reversed)
  case True
  obtain it where it: "chunks_iter_new r (str_len a, str_len (a @ b)) True = Some it" "bwd_rest r it a b t"
    using chunks_iter_new_bwd[OF assms] by blast
  then show ?thesis using bwd_yields[OF it(2)] True by (auto simp: bwd_rest_def)
next
  case False
  obtain it where it: "chunks_iter_new r (str_len a, str_len (a @ b)) False = Some it" "fwd_rest r it a b t"
    using chunks_iter_new_fwd[OF assms] by blast
  then show ?thesis using fwd_yields[OF it(2)] False by (auto simp: fwd_rest_def)
qed

text \<open>C37: a loop over the pieces of a range takes non-empty strings that concatenate to the text of
  the range, a loop over its reversed pieces takes those of the same text from the back; so the
  characters from an offset, and those before it in reverse, are those of the text.\<close>

theorem chunks_iteration_correct:
  assumes "rope_ok r" "height r < STACK_CAP" "rope_text r = a @ b @ t"
  shows "pred_option (\<lambda>ss. concat ss = b \<and> [] \<notin> set ss) (range_pieces r (str_len a, str_len (a @ b)) False) \<and>
    pred_option (\<lambda>ss. concat (rev ss) = b \<and> [] \<notin> set ss) (range_pieces r (str_len a, str_len (a @ b)) True) \<and>
    range_pieces r (str_len a, str_len (a @ b)) False \<noteq> None \<and> range_pieces r (str_len a, str_len (a @ b)) True \<noteq> None \<and>
    rope_chars_at r (str_len a) = Some (b @ t) \<and> rope_reversed_chars_at r (str_len a) = Some (rev a)"
proof -
  have all: "rope_text r = a @ (b @ t) @ []" "rope_text r = [] @ a @ (b @ t)" using assms(3) by simp_all
  have rc: "concat (map rev ss) = rev (concat (rev ss))" for ss :: "str list" by (induction ss) auto
  have "rope_chars_at r (str_len a) = Some (b @ t)"
    using iter_yields[OF assms(1,2) all(1), of False] rope_len_ok[OF assms(1)] assms(3) yields_collect
    by (auto simp: rope_chars_at_def rope_chunks_in_range_def)
  moreover have "rope_reversed_chars_at r (str_len a) = Some (rev a)"
    using iter_yields[OF assms(1,2) all(2), of True] yields_collect
    by (auto simp: rope_reversed_chars_at_def rope_reversed_chunks_in_range_def rc)
  ultimately show ?thesis
    using iter_yields[OF assms, of False] iter_yields[OF assms, of True] yields_collect by (auto simp: range_pieces_def)
qed

lemma sample_range:
  "height sample_rope < STACK_CAP" "rope_text sample_rope = [104] @ [105, 10, 0xE9] @ [33]"
  "str_len [104] = 1" "str_len ([104] @ [105, 10, 0xE9]) = 5"
  using sample_rope_ok(2,3) by (simp_all add: STACK_CAP_def len_utf8_def)

theorem chunks_iteration_correct_witness:
  "rope_chars_at sample_rope 1 = Some [105, 10, 0xE9, 33] \<and> rope_reversed_chars_at sample_rope 1 = Some [104] \<and>
   pred_option (\<lambda>ss. concat ss = [105, 10, 0xE9] \<and> [] \<notin> set ss) (range_pieces sample_rope (1, 5) False)"
  using chunks_iteration_correct[OF sample_rope_ok(1) sample_range(1,2)] unfolding sample_range(3,4) by simp

text \<open>comparing a range with a string, in either direction, decides whether the text of the range
  is the string, and \<open>starts_with\<close> and \<open>ends_with\<close> of a rope decide whether the pattern is a prefix
  or a suffix of its text. None of them panics, whatever the string.\<close>

theorem rope_compare_correct:
  assumes "rope_ok r" "height r < STACK_CAP" "rope_text r = a @ b @ t"
  shows "Option.bind (chunks_iter_new r (str_len a, str_len (a @ b)) reversed) (\<lambda>it. chunks_equals_str it other) = Some (other = b) \<and>
    rope_starts_with r pat = Some (prefix pat (rope_text r)) \<and> rope_ends_with r pat = Some (suffix pat (rope_text r))"
proof -
  have eq: "Option.bind (chunks_iter_new r (str_len a, str_len (a @ b)) reversed) (\<lambda>it. chunks_equals_str it other) = Some (other = b)"
    using iter_yields[OF assms, of reversed] yields_equals_forward[where p = "[]" and q = other]
      yields_equals_backward[where p = other and q = "[]"] by (auto simp: chunks_equals_str_def)
  have whole: "rope_text r = [] @ rope_text r @ []" by simp
  have longer: "\<not> prefix pat (rope_text r) \<and> \<not> suffix pat (rope_text r)" if "rope_len r < str_len pat"
    using that rope_len_ok[OF assms(1)] by (auto simp: prefix_def suffix_def)
  show ?thesis
    using eq longer iter_yields[OF assms(1,2) whole, of False] iter_yields[OF assms(1,2) whole, of True] rope_len_ok[OF assms(1)]
      yields_starts_with yields_ends_with
    by (auto simp: rope_starts_with_def rope_ends_with_def rope_chunks_in_range_def rope_reversed_chunks_in_range_def)
qed


theorem rope_compare_correct_witness:
  "rope_starts_with sample_rope [104, 105] = Some True \<and> rope_ends_with sample_rope [104, 105] = Some False \<and>
   Option.bind (chunks_iter_new sample_rope (1, 5) True) (\<lambda>it. chunks_equals_str it [105, 10, 0xE9]) = Some True"
  using rope_compare_correct[OF sample_rope_ok(1) sample_range(1,2), of True "[105, 10, 0xE9]" "[104, 105]"]
  unfolding sample_range(2-4) by (auto simp: suffix_def Cons_eq_append_conv)

end
