(* ===== verification/RopeBitmaps.thy ===== *)
theory RopeBitmaps
  imports RopeCompare
begin

text \<open>
  The pieces with their bitmaps: the same pieces, and every bitmap read up to the length of its
  piece is the one a chunk of that text alone has. The bits behind the piece, of the rest of the
  chunk, stay in the bitmap.
\<close>

definition described :: "chunk_bitmaps \<Rightarrow> bool" where
  "described m \<longleftrightarrow>
     (let n = str_len (cb_text m); k = canon (cb_text m) in
      n \<le> 128 \<and> cb_chars m AND mask n = ck_chars k \<and> cb_tabs m AND mask n = ck_tabs k \<and> cb_newlines m AND mask n = ck_newlines k)"

partial_function (option) bitmaps_collect :: "chunks_iter \<Rightarrow> chunk_bitmaps list option" where
  "bitmaps_collect it =
     (case chunk_with_bitmaps_next it of
        None \<Rightarrow> None
      | Some (None, _) \<Rightarrow> Some []
      | Some (Some m, it) \<Rightarrow> do { ms \<leftarrow> bitmaps_collect it; Some (m # ms) })"

definition iter_rest :: "rope \<Rightarrow> chunks_iter \<Rightarrow> str \<Rightarrow> bool" where
  "iter_rest r it b \<longleftrightarrow> (\<exists>a t. fwd_rest r it a b t \<or> bwd_rest r it a b t)"

lemma rest_end: "iter_rest r it [] \<Longrightarrow> chunks_peek it = Some None"
  using fwd_peek_end bwd_peek_end by (auto simp: iter_rest_def)

lemma rest_step:
  assumes "iter_rest r it b" "b \<noteq> []"
  shows "\<exists>p it' b'. p \<noteq> [] \<and> chunks_peek it = Some (Some p) \<and> chunks_advance it (str_len p) = Some it' \<and> iter_rest r it' b' \<and>
    length b' < length b"
proof -
  obtain a t where "fwd_rest r it a b t \<or> bwd_rest r it a b t" using assms(1) by (auto simp: iter_rest_def)
  then show ?thesis
  proof
    assume "fwd_rest r it a b t"
    from fwd_peek[OF this assms(2)] obtain b1 b2 it' where "b = b1 @ b2" "b1 \<noteq> []" "chunks_peek it = Some (Some b1)"
      "chunks_advance it (str_len b1) = Some it'" "fwd_rest r it' (a @ b1) b2 t" by blast
    then show ?thesis by (intro exI[of _ b1] exI[of _ it'] exI[of _ b2]) (auto simp: iter_rest_def)
  next
    assume "bwd_rest r it a b t"
    from bwd_peek[OF this assms(2)] obtain b1 b2 it' where "b = b1 @ b2" "b2 \<noteq> []" "chunks_peek it = Some (Some b2)"
      "chunks_advance it (str_len b2) = Some it'" "bwd_rest r it' a b1 (b2 @ t)" by blast
    then show ?thesis by (intro exI[of _ b2] exI[of _ it'] exI[of _ b1]) (auto simp: iter_rest_def)
  qed
qed

lemma rest_item:
  assumes "iter_rest r it b" "b \<noteq> []" "cursor_item (ch_chunks it) = Some (Some k)"
  shows "chunk_ok k"
proof -
  obtain d n where "rope_ok r" "stands d r n (ch_chunks it)" using assms(1,2) by (auto simp: iter_rest_def fwd_rest_def bwd_rest_def)
  moreover from this(2) obtain p q where pq: "cursor_at bytes_dim chunk_sum (ch_chunks it) p q" "p @ q = tree_items r" by (rule standsE)
  ultimately have ok: "chunks_ok (p @ q)" using rope_okD(2) by simp
  have "first_opt q = Some k" using assms(3) bytes_cursor(2)[OF pq(1) ok] by simp
  then show ?thesis using ok by (cases q) simp_all
qed

lemma shifted_bits:
  assumes "str_len (a @ p @ c) \<le> 128" "p \<noteq> []" "\<And>c. length (f c) = len_utf8 c"
  shows "shr (bits (flags f (a @ p @ c))) (str_len a) AND mask (str_len p) = bits (flags f p)"
proof -
  have len: "length (flags f s) = str_len s" for s using assms(3) by (induction s) simp_all
  have "0 < str_len p" using assms(2) str_len_0[of p] by (simp del: str_len_0)
  then have "str_len a < 128" using assms(1) by simp
  then show ?thesis using assms(1) by (simp add: shr_bits bits_take len)
qed

lemma peek_described:
  assumes "iter_rest r it b" "b \<noteq> []" "chunks_peek it = Some (Some p)" "p \<noteq> []"
  shows "\<exists>m. peek_with_bitmaps it = Some (Some m) \<and> cb_text m = p \<and> described m"
proof -
  obtain k i j where k: "offset_is_valid it" "cursor_item (ch_chunks it) = Some (Some k)" "piece_range it = Some (i, j)"
    "str_slice (ck_text k) i j = Some p"
    using assms(3) by (auto simp: chunks_peek_def bind_eq_Some_conv split: if_splits option.splits)
  have "chunk_ok k" by (rule rest_item[OF assms(1,2) k(2)])
  then obtain s where s: "k = canon s" "str_len s \<le> 128" by (rule chunk_okE)
  obtain a c where ac: "s = a @ p @ c" "i = str_len a" using k(4) s(1) by (auto simp: str_slice_Some)
  let ?m = "\<lparr>cb_text = p, cb_chars = shr (ck_chars k) i, cb_tabs = shr (ck_tabs k) i, cb_newlines = shr (ck_newlines k) i\<rparr>"
  have "peek_with_bitmaps it = Some (Some ?m)" using k by (simp add: peek_with_bitmaps_def)
  moreover have "described ?m"
    using shifted_bits[OF _ assms(4), of a c] s ac by (simp add: described_def Let_def canon_def)
  ultimately show ?thesis by (intro exI[of _ ?m]) simp
qed

lemma rest_collect:
  "iter_rest r it b \<Longrightarrow> \<exists>ms. bitmaps_collect it = Some ms \<and> chunks_collect it = Some (map cb_text ms) \<and> list_all described ms"
proof (induction "length b" arbitrary: it b rule: less_induct)
  case less
  show ?case
  proof (cases "b = []")
    case True
    then have "chunks_peek it = Some None" using rest_end less.prems by simp
    moreover from this have "peek_with_bitmaps it = Some None"
      by (auto simp: chunks_peek_def peek_with_bitmaps_def bind_eq_Some_conv split: if_splits option.splits)
    ultimately show ?thesis
      by (subst bitmaps_collect.simps, subst chunks_collect.simps) (simp add: chunks_next_def chunk_with_bitmaps_next_def)
  next
    case False
    obtain p it' b' where p: "p \<noteq> []" "chunks_peek it = Some (Some p)" "chunks_advance it (str_len p) = Some it'" "iter_rest r it' b'"
      "length b' < length b" using rest_step[OF less.prems False] by blast
    obtain m where m: "peek_with_bitmaps it = Some (Some m)" "cb_text m = p" "described m"
      using peek_described[OF less.prems False p(2,1)] by blast
    obtain ms where ms: "bitmaps_collect it' = Some ms" "chunks_collect it' = Some (map cb_text ms)" "list_all described ms"
      using less.hyps[OF p(5,4)] by blast
    show ?thesis using p m ms
      by (subst bitmaps_collect.simps, subst chunks_collect.simps) (simp add: chunks_next_def chunk_with_bitmaps_next_def)
  qed
qed

text \<open>an iterator over a range with bitmaps returns the pieces of the plain iterator, in either
  direction; each piece comes with bitmaps whose bits up to its length are the character starts,
  tabs and newlines of the piece.\<close>

theorem chunk_bitmaps_correct:
  assumes "rope_ok r" "height r < STACK_CAP" "rope_text r = a @ b @ t"
  shows "\<exists>ms. Option.bind (chunks_iter_new r (str_len a, str_len (a @ b)) reversed) bitmaps_collect = Some ms \<and>
    range_pieces r (str_len a, str_len (a @ b)) reversed = Some (map cb_text ms) \<and> list_all described ms"
proof -
  obtain it where it: "chunks_iter_new r (str_len a, str_len (a @ b)) reversed = Some it" "iter_rest r it b"
    using chunks_iter_new_fwd[OF assms] chunks_iter_new_bwd[OF assms] unfolding iter_rest_def by (cases reversed) auto
  from rest_collect[OF it(2)] show ?thesis using it(1) by (simp add: range_pieces_def)
qed


theorem chunk_bitmaps_correct_witness:
  "\<exists>ms. Option.bind (chunks_iter_new sample_rope (1, 5) True) bitmaps_collect = Some ms \<and> list_all described ms"
  using chunk_bitmaps_correct[OF sample_rope_ok(1) sample_range(1,2), of True] unfolding sample_range(3,4) by blast

end
