(* ===== verification/RopeLines.thy ===== *)
theory RopeLines
  imports RopeCompare
begin

text \<open>
  The lines of a range: a seek of an iterator within its range, and the loops that gather a line
  from several pieces. The iterators return the lines of the text, forward or from the last one.
\<close>

section \<open>Seeking within the range\<close>

lemma fits_next: "fits d m p q \<Longrightarrow> str_len (chunks_text (p @ take 1 q)) \<le> n \<Longrightarrow> fits Right n p []"
  by (cases q) (auto simp: fits_def)

lemma fits_before: "fits d m p q \<Longrightarrow> str_len (chunks_text (p @ take 1 q)) < n \<Longrightarrow> fits Left n p []"
  by (cases q) (auto simp: fits_def)

lemma fits_here:
  "str_len (chunks_text p) \<le> n \<Longrightarrow> n < str_len (chunks_text (p @ take 1 q)) \<Longrightarrow> fits Right n p q"
  "str_len (chunks_text p) < n \<Longrightarrow> n \<le> str_len (chunks_text (p @ take 1 q)) \<Longrightarrow> fits Left n p q"
  by (cases q; simp add: fits_def)+

lemma fwd_seek:
  assumes "fwd_rest r it a b t" "a @ b = a2 @ b2" "ch_start it \<le> str_len a2"
  shows "\<exists>it'. chunks_seek it (str_len a2) = Some it' \<and> fwd_rest r it' a2 b2 t \<and> ch_start it' = ch_start it"
proof -
  let ?c = "ch_chunks it" let ?n = "str_len a2"
  have r: "rope_ok r" "height r < STACK_CAP" "\<not> ch_reversed it" "rope_text r = a2 @ b2 @ t" "ch_end it = str_len (a2 @ b2)"
    using assms(1,2) by (auto simp: fwd_rest_def simp flip: append_assoc)
  obtain d where d: "stands d r (str_len a) ?c" using assms(1) by (auto simp: fwd_rest_def)
  then obtain p q where pq: "c_tree ?c = r" "cursor_at bytes_dim chunk_sum ?c p q" "p @ q = tree_items r" "fits d (str_len a) p q"
    by (rule standsE)
  have ok: "chunks_ok (p @ q)" using rope_okD(2)[OF r(1)] pq(3) by simp
  note cur = bytes_cursor[OF pq(2) ok]
  let ?stop = "str_len (chunks_text (p @ take 1 q))"
  have "\<exists>c'. (if ?stop \<le> ?n then map_option snd (cursor_seek_forward bytes_dim (cmp_of ?n) Right ?c)
      else if ?n < c_position ?c then map_option snd (cursor_seek bytes_dim (cmp_of ?n) Right ?c) else Some ?c) = Some c' \<and>
      stands Right r ?n c'"
  proof (cases "?stop \<le> ?n")
    case True
    then show ?thesis using seek_forward_stands[OF r(1) pq(2,3,1) fits_next[OF pq(4) True]] by auto
  next
    case False
    then show ?thesis using seek_stands[OF r(1,2) pq(1), of ?n Right] standsI[OF pq(1-3) fits_here(1)] cur(1) by auto
  qed
  then obtain c' where c': "(if ?stop \<le> ?n then map_option snd (cursor_seek_forward bytes_dim (cmp_of ?n) Right ?c)
      else if ?n < c_position ?c then map_option snd (cursor_seek bytes_dim (cmp_of ?n) Right ?c) else Some ?c) = Some c'"
    "stands Right r ?n c'" by blast
  have clamp: "clamp (ch_start it) (ch_end it) ?n = Some ?n" using assms(3) r(5) by (simp add: clamp_def assert_opt_def)
  let ?it = "it\<lparr>ch_chunks := c', ch_offset := ?n\<rparr>"
  have "chunks_seek it ?n = Some ?it" using clamp c'(1) cur(3) r(3) by (simp add: chunks_seek_def)
  moreover have "fwd_rest r ?it a2 b2 t" using r assms(3) c'(2) by (auto simp: fwd_rest_def)
  ultimately show ?thesis by (intro exI[of _ ?it]) simp
qed

lemma bwd_seek:
  assumes "bwd_rest r it a b t" "b \<noteq> []" "b @ t = b2 @ t2" "str_len (a @ b2) \<le> ch_end it"
  shows "\<exists>it'. chunks_seek it (str_len (a @ b2)) = Some it' \<and> bwd_rest r it' a b2 t2 \<and> ch_end it' = ch_end it"
proof -
  let ?c = "ch_chunks it" let ?n = "str_len (a @ b2)"
  have r: "rope_ok r" "height r < STACK_CAP" "ch_reversed it" "rope_text r = a @ b2 @ t2" "ch_start it = str_len a"
    using assms(1,3) by (auto simp: bwd_rest_def)
  have "stands Left r (str_len (a @ b)) ?c" using assms(1,2) by (auto simp: bwd_rest_def)
  then obtain p q where pq: "c_tree ?c = r" "cursor_at bytes_dim chunk_sum ?c p q" "p @ q = tree_items r" "fits Left (str_len (a @ b)) p q"
    by (rule standsE)
  have ok: "chunks_ok (p @ q)" using rope_okD(2)[OF r(1)] pq(3) by simp
  note cur = bytes_cursor[OF pq(2) ok]
  let ?stop = "str_len (chunks_text (p @ take 1 q))"
  have "\<exists>c'. (if ?stop < ?n then map_option snd (cursor_seek_forward bytes_dim (cmp_of ?n) Left ?c)
      else if ?n \<le> c_position ?c then map_option snd (cursor_seek bytes_dim (cmp_of ?n) Left ?c) else Some ?c) = Some c' \<and>
      stands Left r ?n c'"
  proof (cases "?stop < ?n")
    case True
    then show ?thesis using seek_forward_stands[OF r(1) pq(2,3,1) fits_before[OF pq(4) True]] by auto
  next
    case False
    then show ?thesis using seek_stands[OF r(1,2) pq(1), of ?n Left] standsI[OF pq(1-3) fits_here(2)] cur(1) by auto
  qed
  then obtain c' where c': "(if ?stop < ?n then map_option snd (cursor_seek_forward bytes_dim (cmp_of ?n) Left ?c)
      else if ?n \<le> c_position ?c then map_option snd (cursor_seek bytes_dim (cmp_of ?n) Left ?c) else Some ?c) = Some c'"
    "stands Left r ?n c'" by blast
  have clamp: "clamp (ch_start it) (ch_end it) ?n = Some ?n" using assms(4) r(5) by (simp add: clamp_def assert_opt_def)
  let ?it = "it\<lparr>ch_chunks := c', ch_offset := ?n\<rparr>"
  have "chunks_seek it ?n = Some ?it" using clamp c'(1) cur(3) r(3) by (simp add: chunks_seek_def del: str_len_simps chunks_text_simps(3))
  moreover have "bwd_rest r ?it a b2 t2" using r assms(4) c'(2) by (simp add: bwd_rest_def)
  ultimately show ?thesis by (intro exI[of _ ?it]) simp
qed

section \<open>The next line\<close>

lemma split_nl_lines:
  "NEWLINE \<notin> set l \<Longrightarrow> split_nl (l @ NEWLINE # b) = l # split_nl b"
  "NEWLINE \<notin> set l \<Longrightarrow> split_nl (b @ NEWLINE # l) = split_nl b @ [l]"
  by (simp_all add: split_nl_append split_nl_line)

lemma lines_loop_fwd_end:
  assumes "fwd_rest r (li_chunks l) a [] t"
  shows "lines_loop l = Some (Some (li_current l), l\<lparr>li_done := True\<rparr>)"
  by (subst lines_loop.simps) (simp add: fwd_peek_end[OF assms])

lemma newline_len [simp]: "len_utf8 NEWLINE = 1"
  by (simp add: len_utf8_def)

text \<open>The text up to the first newline, and the text behind it.\<close>

abbreviation head_line :: "str \<Rightarrow> str" where "head_line \<equiv> takeWhile (\<lambda>c. c \<noteq> NEWLINE)"

abbreviation behind_line :: "str \<Rightarrow> str" where "behind_line b \<equiv> tl (dropWhile (\<lambda>c. c \<noteq> NEWLINE) b)"

lemma head_line_simps:
  "NEWLINE \<notin> set l \<Longrightarrow> head_line (l @ NEWLINE # b) = l" "NEWLINE \<notin> set l \<Longrightarrow> behind_line (l @ NEWLINE # b) = b"
  "NEWLINE \<notin> set l \<Longrightarrow> head_line (l @ s) = l @ head_line s" "NEWLINE \<notin> set l \<Longrightarrow> behind_line (l @ s) = behind_line s"
  "NEWLINE \<notin> set l \<Longrightarrow> head_line l = l"
  by (induction l) auto

lemma lines_loop_fwd:
  assumes "fwd_rest r (li_chunks l) a b t" "\<not> li_reversed l"
  shows "\<exists>l'. lines_loop l = Some (Some (li_current l @ head_line b), l') \<and>
    (if NEWLINE \<in> set b then li_done l' = li_done l \<and> \<not> li_reversed l' \<and>
       fwd_rest r (li_chunks l') (a @ head_line b @ [NEWLINE]) (behind_line b) t
     else li_done l')"
  using assms
proof (induction "length b" arbitrary: l a b rule: less_induct)
  case less
  show ?case
  proof (cases "b = []")
    case True
    then show ?thesis using lines_loop_fwd_end less.prems by auto
  next
    case False
    obtain b1 b2 it' where b: "b = b1 @ b2" "b1 \<noteq> []" "chunks_peek (li_chunks l) = Some (Some b1)"
      "chunks_advance (li_chunks l) (str_len b1) = Some it'" "fwd_rest r it' (a @ b1) b2 t"
      using fwd_peek[OF less.prems(1) False] by blast
    have off: "ch_offset (li_chunks l) = str_len a" "ch_start (li_chunks l) \<le> str_len a"
      using less.prems(1) by (auto simp: fwd_rest_def)
    show ?thesis
    proof (cases rule: first_line[of b1])
      case 1
      let ?l = "l\<lparr>li_chunks := it', li_current := li_current l @ b1\<rparr>"
      have "lines_loop l = lines_loop ?l"
        using b(3,4) less.prems(2) 1 by (subst lines_loop.simps) (simp add: split_nl_line chunks_next_def)
      moreover have "length b2 < length b" using b(1,2) by simp
      from less.hyps[OF this, of ?l "a @ b1"] obtain l' where "lines_loop ?l = Some (Some (li_current ?l @ head_line b2), l')"
        "if NEWLINE \<in> set b2 then li_done l' = li_done ?l \<and> \<not> li_reversed l' \<and>
           fwd_rest r (li_chunks l') ((a @ b1) @ head_line b2 @ [NEWLINE]) (behind_line b2) t else li_done l'"
        using b(5) less.prems(2) by auto
      ultimately show ?thesis using b(1) 1 by (intro exI[of _ l']) (simp add: head_line_simps split: if_splits)
    next
      case (2 x1 y1)
      have sp: "split_nl b1 = x1 # split_nl y1" using 2 by (simp add: split_nl_lines)
      have ab: "a @ b = (a @ x1 @ [NEWLINE]) @ (y1 @ b2)" using b(1) 2(1) by simp
      obtain it2 where it2: "chunks_seek (li_chunks l) (str_len (a @ x1 @ [NEWLINE])) = Some it2"
        "fwd_rest r it2 (a @ x1 @ [NEWLINE]) (y1 @ b2) t" using fwd_seek[OF less.prems(1) ab] off(2) by auto
      have target: "ch_offset (li_chunks l) + str_len x1 + 1 = str_len (a @ x1 @ [NEWLINE])" using off(1) by simp
      have fin: "length (split_nl b1) > 1" "hd (split_nl b1) = x1" using sp by simp_all
      obtain l' where "lines_loop l = Some (Some (li_current l @ x1), l')" "li_done l' = li_done l" "\<not> li_reversed l'" "li_chunks l' = it2"
        using b(3) less.prems(2) it2(1) target fin by (subst (asm) lines_loop.simps) (cases "li_current l = []"; simp add: Let_def)
      moreover have "head_line b = x1" "behind_line b = y1 @ b2" "NEWLINE \<in> set b"
        using b(1) 2 head_line_simps(1,2)[of x1 "y1 @ b2"] by simp_all
      ultimately show ?thesis using it2(2) by (intro exI[of _ l']) simp
    qed
  qed
qed

text \<open>From the back, the current line grows at its front.\<close>

abbreviation last_line_of :: "str \<Rightarrow> str" where "last_line_of b \<equiv> rev (head_line (rev b))"

abbreviation before_line :: "str \<Rightarrow> str" where "before_line b \<equiv> rev (behind_line (rev b))"

lemma lines_loop_bwd:
  assumes "bwd_rest r (li_chunks l) a b t" "li_reversed l"
  shows "\<exists>l' t'. lines_loop l = Some (Some (last_line_of b @ li_current l), l') \<and>
    (if NEWLINE \<in> set b then li_done l' = li_done l \<and> li_reversed l' \<and> bwd_rest r (li_chunks l') a (before_line b) t'
     else li_done l')"
  using assms
proof (induction "length b" arbitrary: l b t rule: less_induct)
  case less
  show ?case
  proof (cases "b = []")
    case True
    then show ?thesis using bwd_peek_end less.prems(1) by (subst lines_loop.simps) simp
  next
    case False
    obtain b1 b2 it' where b: "b = b1 @ b2" "b2 \<noteq> []" "chunks_peek (li_chunks l) = Some (Some b2)"
      "chunks_advance (li_chunks l) (str_len b2) = Some it'" "bwd_rest r it' a b1 (b2 @ t)"
      using bwd_peek[OF less.prems(1) False] by blast
    have off: "ch_offset (li_chunks l) = str_len (a @ b)" "str_len (a @ b) \<le> ch_end (li_chunks l)"
      using less.prems(1) by (auto simp: bwd_rest_def)
    show ?thesis
    proof (cases rule: last_line[of b2])
      case 1
      let ?l = "l\<lparr>li_chunks := it', li_current := b2 @ li_current l\<rparr>"
      have "lines_loop l = lines_loop ?l"
        using b(3,4) less.prems(2) 1 by (subst lines_loop.simps) (simp add: split_nl_line chunks_next_def)
      moreover have "length b1 < length b" using b(1,2) by simp
      from less.hyps[OF this, of ?l "b2 @ t"] obtain l' t' where "lines_loop ?l = Some (Some (last_line_of b1 @ li_current ?l), l')"
        "if NEWLINE \<in> set b1 then li_done l' = li_done ?l \<and> li_reversed l' \<and> bwd_rest r (li_chunks l') a (before_line b1) t' else li_done l'"
        using b(5) less.prems(2) by auto
      ultimately show ?thesis using b(1) 1 by (intro exI[of _ l'] exI[of _ t']) (simp add: head_line_simps split: if_splits)
    next
      case (2 y1 x1)
      have bt: "b @ t = (b1 @ y1) @ (NEWLINE # x1 @ t)" using b(1) 2(1) by simp
      obtain it2 where it2: "chunks_seek (li_chunks l) (str_len (a @ b1 @ y1)) = Some it2"
        "bwd_rest r it2 a (b1 @ y1) (NEWLINE # x1 @ t)" using bwd_seek[OF less.prems(1) False bt] off(2) b(1) 2(1) by auto
      have target: "csub (ch_offset (li_chunks l)) (str_len x1) = Some (str_len (a @ b1 @ y1) + 1)"
        "csub (str_len (a @ b1 @ y1) + 1) 1 = Some (str_len (a @ b1 @ y1))"
        using off(1) b(1) 2(1) by (simp_all add: csub_def)
      have fin: "length (split_nl b2) > 1" "last (split_nl b2) = x1" using 2 by (simp_all add: split_nl_lines)
      obtain l' where "lines_loop l = Some (Some (x1 @ li_current l), l')" "li_done l' = li_done l" "li_reversed l'" "li_chunks l' = it2"
        using b(3) less.prems(2) it2(1) target fin by (subst (asm) lines_loop.simps) (cases "li_current l = []"; simp add: Let_def)
      moreover have "last_line_of b = x1" "before_line b = b1 @ y1" "NEWLINE \<in> set b"
        using b(1) 2 head_line_simps(1,2)[of "rev x1" "rev (b1 @ y1)"] by simp_all
      ultimately show ?thesis using it2(2) by (intro exI[of _ l'] exI[of _ "NEWLINE # x1 @ t"]) simp
    qed
  qed
qed

text \<open>All lines, until the iterator is done.\<close>

lemma lines_collect_done: "li_done l \<Longrightarrow> lines_collect l = Some []"
  by (subst lines_collect.simps) (simp add: lines_next_def)

lemma split_nl_head: "split_nl b = head_line b # (if NEWLINE \<in> set b then split_nl (behind_line b) else [])"
  by (cases rule: first_line[of b]) (simp_all add: split_nl_line split_nl_lines head_line_simps)

lemma split_nl_last: "split_nl b = (if NEWLINE \<in> set b then split_nl (before_line b) else []) @ [last_line_of b]"
proof (cases rule: last_line[of b])
  case (2 y x)
  then show ?thesis using head_line_simps(1,2)[of "rev x" "rev y"] by (simp add: split_nl_lines)
next
  case 1
  then have "last_line_of b = b" using head_line_simps(5)[of "rev b"] by (simp del: takeWhile_eq_all_conv)
  then show ?thesis using 1 by (simp add: split_nl_line)
qed

lemma behind_line_shorter: "NEWLINE \<in> set b \<Longrightarrow> length (behind_line b) < length b"
  by (cases rule: first_line[of b]) (auto simp: head_line_simps)

lemma lines_collect_fwd:
  "fwd_rest r (li_chunks l) a b t \<Longrightarrow> \<not> li_reversed l \<Longrightarrow> \<not> li_done l \<Longrightarrow> lines_collect l = Some (split_nl b)"
proof (induction "length b" arbitrary: l a b rule: less_induct)
  case less
  obtain l' where l': "lines_loop (l\<lparr>li_current := []\<rparr>) = Some (Some (head_line b), l')"
    "if NEWLINE \<in> set b then \<not> li_done l' \<and> \<not> li_reversed l' \<and>
       fwd_rest r (li_chunks l') (a @ head_line b @ [NEWLINE]) (behind_line b) t else li_done l'"
    using lines_loop_fwd[of r "l\<lparr>li_current := []\<rparr>" a b t] less.prems by (auto split: if_splits)
  have "lines_collect l' = Some (if NEWLINE \<in> set b then split_nl (behind_line b) else [])"
    using l'(2) less.hyps[OF behind_line_shorter] lines_collect_done by auto
  then show ?case using l'(1) less.prems(3) split_nl_head[of b] by (subst lines_collect.simps) (simp add: lines_next_def)
qed

lemma lines_collect_bwd:
  "bwd_rest r (li_chunks l) a b t \<Longrightarrow> li_reversed l \<Longrightarrow> \<not> li_done l \<Longrightarrow> lines_collect l = Some (rev (split_nl b))"
proof (induction "length b" arbitrary: l b t rule: less_induct)
  case less
  obtain l' t' where l': "lines_loop (l\<lparr>li_current := []\<rparr>) = Some (Some (last_line_of b), l')"
    "if NEWLINE \<in> set b then \<not> li_done l' \<and> li_reversed l' \<and> bwd_rest r (li_chunks l') a (before_line b) t' else li_done l'"
    using lines_loop_bwd[of r "l\<lparr>li_current := []\<rparr>" a b t] less.prems by (auto split: if_splits)
  have "NEWLINE \<in> set b \<Longrightarrow> length (before_line b) < length b" using behind_line_shorter[of "rev b"] by simp
  then have "lines_collect l' = Some (rev (if NEWLINE \<in> set b then split_nl (before_line b) else []))"
    using l'(2) less.hyps[of "before_line b" l' t'] lines_collect_done by auto
  then show ?case using l'(1) less.prems(3) split_nl_last[of b] by (subst lines_collect.simps) (simp add: lines_next_def)
qed

text \<open>C38: the lines iterator over a range returns the lines of its text, from the first to the last, or
  from the last to the first when it is reversed; a trailing newline is followed by an empty line.\<close>

theorem rope_lines_correct:
  assumes "rope_ok r" "height r < STACK_CAP" "rope_text r = a @ b @ t"
  shows "Option.bind (chunks_iter_new r (str_len a, str_len (a @ b)) reversed) (\<lambda>it. lines_collect (chunks_lines it)) =
    Some (if reversed then rev (split_nl b) else split_nl b)"
proof (cases reversed)
  case True
  obtain it where it: "chunks_iter_new r (str_len a, str_len (a @ b)) True = Some it" "bwd_rest r it a b t"
    using chunks_iter_new_bwd[OF assms] by blast
  then have "ch_reversed it" by (simp add: bwd_rest_def)
  then show ?thesis using it True lines_collect_bwd[of r "chunks_lines it" a b t] by (simp add: chunks_lines_def)
next
  case False
  obtain it where it: "chunks_iter_new r (str_len a, str_len (a @ b)) False = Some it" "fwd_rest r it a b t"
    using chunks_iter_new_fwd[OF assms] by blast
  then have "\<not> ch_reversed it" by (simp add: fwd_rest_def)
  then show ?thesis using it False lines_collect_fwd[of r "chunks_lines it" a b t] by (simp add: chunks_lines_def)
qed


theorem rope_lines_correct_witness:
  "Option.bind (chunks_iter_new sample_rope (0, 6) True) (\<lambda>it. lines_collect (chunks_lines it)) = Some [[0xE9, 33], [104, 105]]"
  using rope_lines_correct[OF sample_rope_ok(1), of "[]" "[104, 105, 10, 0xE9, 33]" "[]" True] sample_rope_ok(2,3)
  by (simp add: STACK_CAP_def len_utf8_def)

end
