(* ===== verification/RopeLineMoves.thy ===== *)
theory RopeLineMoves
  imports RopeLines
begin

text \<open>
  Moving an iterator by lines: \<open>next_line\<close> looks for a newline in the current piece and then skips
  the chunks without one, by the summaries of the tree. The iterator ends behind the next newline
  of the range, or at the end of the range.
\<close>

section \<open>Chunks without newlines\<close>

lemma has_newline_text: "has_newline (text_of s) \<longleftrightarrow> NEWLINE \<in> set s"
proof -
  have "length (split_nl s) = 1 \<longleftrightarrow> NEWLINE \<notin> set s"
    by (cases rule: first_line[of s]) (auto simp: split_nl_line split_nl_lines)
  moreover have "0 < length (split_nl s)" by simp
  ultimately have "0 < length (split_nl s) - 1 \<longleftrightarrow> NEWLINE \<in> set s" by linarith
  then show ?thesis by (simp add: has_newline_def text_of_fields point_parse_str_eq)
qed

lemma newline_rejected: "chunk_ok k \<Longrightarrow> rejected chunk_sum has_newline k \<longleftrightarrow> NEWLINE \<notin> set (ck_text k)"
  by (simp add: rejected_def chunk_sum_def chunk_ok_summary has_newline_text)

lemma newline_filter_ok: "chunks_ok ks \<Longrightarrow> filter_ok chunk_sum has_newline ks"
proof -
  assume ok: "chunks_ok ks"
  have "has_newline (sumof chunk_sum xs)" if split: "ks = p @ xs @ q" and x: "x \<in> set xs" "has_newline (sm_item chunk_sum x)" for p xs q x
  proof -
    have xs: "chunks_ok xs" using ok split by simp
    then have k: "chunk_ok x" using x(1) by (auto simp: chunks_ok_def list_all_iff)
    have "NEWLINE \<in> set (ck_text x)" using newline_rejected[OF k] x(2) by (simp add: rejected_def)
    then have "NEWLINE \<in> set (chunks_text xs)" using x(1) by (auto simp: chunks_text_def)
    then show ?thesis using sumof_text[OF xs] by (simp add: has_newline_text)
  qed
  then show ?thesis unfolding filter_ok_def by blast
qed

lemma rejected_text: "chunks_ok ks \<Longrightarrow> (\<forall>k \<in> set ks. rejected chunk_sum has_newline k) \<longleftrightarrow> NEWLINE \<notin> set (chunks_text ks)"
  by (induction ks) (auto simp: newline_rejected)

lemma str_find_newline: "str_find NEWLINE s = (if NEWLINE \<in> set s then Some (str_len (head_line s)) else None)"
  by (induction s) auto

section \<open>The next line\<close>

text \<open>Behind a newline: at the end of a chunk, the iterator moves to the next one.\<close>

lemma step_over_rest:
  assumes "rope_ok r" "height r < STACK_CAP" "\<not> ch_reversed it" "rope_text r = a @ b @ t" "ch_offset it = str_len a"
    "ch_end it = str_len (a @ b)" "ch_start it \<le> str_len a" "c_tree (ch_chunks it) = r"
    "cursor_at bytes_dim chunk_sum (ch_chunks it) pre (canon (u @ s) # ks)" "pre @ canon (u @ s) # ks = tree_items r"
    "a = chunks_text pre @ u" "u \<noteq> []"
  shows "\<exists>it'. step_over it = Some it' \<and> fwd_rest r it' a b t \<and> ch_start it' = ch_start it"
proof -
  have ok: "chunks_ok (pre @ canon (u @ s) # ks)" using rope_okD(2)[OF assms(1)] assms(10) by simp
  note cur = bytes_cursor[OF assms(9) ok]
  have u: "0 < str_len u" using assms(12) str_len_0[of u] by (simp del: str_len_0)
  show ?thesis
  proof (cases "s = []")
    case False
    then have s: "0 < str_len s" using str_len_0[of s] by (simp del: str_len_0)
    then have "stands Right r (str_len a) (ch_chunks it)"
      using assms(8-10) by (intro standsI[where p = pre and q = "canon (u @ s) # ks"]) (simp_all add: fits_def assms(11) del: str_len_0)
    then have "fwd_rest r it a b t" using assms(1-7) by (auto simp: fwd_rest_def)
    moreover have "step_over it = Some it" using cur(3) assms(5,11) False by (simp add: step_over_def)
    ultimately show ?thesis by blast
  next
    case True
    then have e: "cursor_end bytes_dim (ch_chunks it) = Some (ch_offset it)" using cur(3) assms(5,11) by simp
    show ?thesis
    proof (cases "b = []")
      case True
      have "stands Left r (str_len a) (ch_chunks it)"
        using assms(8-10) u by (intro standsI[where p = pre and q = "canon (u @ s) # ks"]) (simp_all add: fits_def assms(11) \<open>s = []\<close> del: str_len_0)
      then have "fwd_rest r it a b t" using assms(1-7) True by (auto simp: fwd_rest_def)
      moreover have "chunks_next it = Some (None, it)" using fwd_peek_end calculation True by (simp add: chunks_next_def)
      ultimately show ?thesis using e by (simp add: step_over_def)
    next
      case False
      then have "offset_is_valid it" using assms(3,5-7) by (simp add: offset_is_valid_def)
      moreover have "piece_range it = Some (str_len u, str_len u)"
        using assms(3,5,6,11) cur(1) e by (simp add: piece_range_def csub_def Let_def)
      moreover have "str_slice u (str_len u) (str_len u) = Some []" unfolding str_slice_Some by (intro exI[of _ u] exI[of _ "[]"]) simp
      ultimately have peek: "chunks_peek it = Some (Some [])" using cur(2) True by (simp add: chunks_peek_def)
      obtain c' where c': "cursor_next bytes_dim (ch_chunks it) = Some c'" "c_tree c' = r"
        "cursor_at bytes_dim chunk_sum c' (pre @ [canon (u @ s)]) ks"
        using bytes_seek.cursor_next_at_ok[OF assms(9) ok] assms(8) by auto
      let ?it = "it\<lparr>ch_chunks := c'\<rparr>"
      have "chunks_next it = Some (Some [], ?it)" using peek e c'(1) assms(3) by (simp add: chunks_next_def chunks_advance_def)
      then have "step_over it = Some ?it" using e by (simp add: step_over_def)
      moreover have "stands Right r (str_len a) c'"
        using c'(2,3) assms(10) fits_end[OF assms(1), of "pre @ [canon (u @ s)]" ks] assms(11) True by (intro standsI) simp_all
      then have "fwd_rest r ?it a b t" using assms(1-7) by (auto simp: fwd_rest_def)
      ultimately show ?thesis by (intro exI[of _ ?it]) simp
    qed
  qed
qed

text \<open>No newline was found: the iterator stands behind some chunk that reaches the end of the range.\<close>

lemma step_over_invalid: "cursor_end bytes_dim (ch_chunks it) = Some e \<Longrightarrow> \<not> offset_is_valid it \<Longrightarrow> step_over it = Some it"
  by (simp add: step_over_def chunks_next_def chunks_peek_def)

lemma next_line_missed:
  assumes "rope_ok r" "height r < STACK_CAP" "\<not> ch_reversed it" "rope_text r = w @ t" "ch_end it = str_len w"
    "ch_start it \<le> str_len w" "c_tree (ch_chunks it) = r" "cursor_at bytes_dim chunk_sum (ch_chunks it) p q" "p @ q = tree_items r"
    "str_len w \<le> str_len (chunks_text (p @ take 1 q))" "ch_offset it = str_len (chunks_text (p @ take 1 q))"
  shows "\<exists>it'. step_over it = Some it \<and> step_back it = Some it' \<and> fwd_rest r it' w [] t \<and> ch_start it' = ch_start it"
proof -
  let ?e = "str_len (chunks_text (p @ take 1 q))"
  have ok: "chunks_ok (p @ q)" using rope_okD(2)[OF assms(1)] assms(9) by simp
  have "\<not> offset_is_valid it" using assms(3,5,10,11) by (simp add: offset_is_valid_def)
  with bytes_cursor(3)[OF assms(8) ok] have over: "step_over it = Some it" by (rule step_over_invalid)
  show ?thesis
  proof (cases "ch_offset it = str_len w")
    case True
    have "\<exists>d. fits d ?e p q"
    proof (cases q)
      case (Cons k ks)
      then have "0 < str_len (ck_text k)" using items_nonempty[OF assms(1), of p k ks] assms(9) by simp
      then have "fits Left ?e p q" using Cons by (simp add: fits_def del: str_len_0)
      then show ?thesis by blast
    qed (auto simp: fits_def intro!: exI[of _ Right])
    then obtain d where "fits d (str_len w) p q" using True assms(11) by auto
    then have "stands d r (str_len w) (ch_chunks it)" using assms(7-9) by (intro standsI)
    then have "fwd_rest r it w [] t" using assms(1-6) True by (auto simp: fwd_rest_def)
    then show ?thesis using over True assms(5) by (simp add: step_back_def)
  next
    case False
    then have gt: "str_len w < ch_offset it" using assms(10,11) by simp
    obtain x c' where c': "cursor_seek bytes_dim (cmp_of (str_len w)) Right (ch_chunks it) = Some (x, c')" "stands Right r (str_len w) c'"
      using seek_stands[OF assms(1,2,7), of "str_len w" Right] by blast
    let ?it = "it\<lparr>ch_offset := str_len w, ch_chunks := c'\<rparr>"
    have "step_back it = Some ?it" using gt assms(5) c'(1) by (simp add: step_back_def)
    moreover have "fwd_rest r ?it w [] t" using assms(1-6) c'(2) by (auto simp: fwd_rest_def)
    ultimately show ?thesis using over by (intro exI[of _ ?it]) simp
  qed
qed

text \<open>A newline in the piece at the offset.\<close>

lemma next_line_found:
  assumes "fwd_rest r it a b t" "cursor_at bytes_dim chunk_sum (ch_chunks it) pre (canon (u @ s) # ks)"
    "pre @ canon (u @ s) # ks = tree_items r" "a = chunks_text pre @ u" "b @ t = s @ chunks_text ks"
    "NEWLINE \<in> set b" "NEWLINE \<in> set s"
  shows "\<exists>it'. step_over (it\<lparr>ch_offset := ch_offset it + (str_len (head_line b) + 1)\<rparr>) = Some it' \<and> step_back it' = Some it' \<and>
    fwd_rest r it' (a @ head_line b @ [NEWLINE]) (behind_line b) t \<and> ch_start it' = ch_start it"
proof -
  obtain x y where xy: "b = x @ NEWLINE # y" "NEWLINE \<notin> set x" using assms(6) by (cases rule: first_line[of b]) auto
  obtain v w where vw: "s = v @ NEWLINE # w" "NEWLINE \<notin> set v" using assms(7) by (cases rule: first_line[of s]) auto
  have "x = v" using arg_cong[OF assms(5), of head_line] xy vw by (simp add: head_line_simps)
  then have s: "s = x @ NEWLINE # w" using vw(1) by simp
  have r: "rope_ok r" "height r < STACK_CAP" "\<not> ch_reversed it" "rope_text r = a @ b @ t" "ch_offset it = str_len a"
    "ch_end it = str_len (a @ b)" "ch_start it \<le> str_len a" "c_tree (ch_chunks it) = r"
    using assms(1) by (auto simp: fwd_rest_def stands_def)
  let ?a = "a @ x @ [NEWLINE]" let ?it = "it\<lparr>ch_offset := str_len ?a\<rparr>" let ?u = "u @ x @ [NEWLINE]"
  have "\<exists>it'. step_over ?it = Some it' \<and> fwd_rest r it' ?a y t \<and> ch_start it' = ch_start ?it"
    using r assms(2-4) xy(1) s by (intro step_over_rest[where pre = pre and u = ?u and s = w and ks = ks]) simp_all
  then obtain it' where it': "step_over ?it = Some it'" "fwd_rest r it' ?a y t" "ch_start it' = ch_start it" by auto
  have "step_back it' = Some it'" using it'(2) by (simp add: fwd_rest_def step_back_def)
  moreover have "head_line b = x" "behind_line b = y" using xy by (simp_all add: head_line_simps)
  moreover have "ch_offset it + (str_len x + 1) = str_len ?a" using r(5) by simp
  ultimately show ?thesis using it' by (intro exI[of _ it']) simp
qed

text \<open>The search skips the chunks without a newline.\<close>

lemma skip_chunks:
  assumes "cursor_at bytes_dim chunk_sum c pre (canon (u @ s) # ks)" "chunks_ok (pre @ canon (u @ s) # ks)"
  shows "\<exists>c' p q m. search_forward bytes_dim has_newline c = Some c' \<and> c_tree c' = c_tree c \<and>
    cursor_at bytes_dim chunk_sum c' p q \<and> p @ q = pre @ canon (u @ s) # ks \<and>
    chunks_text p = chunks_text pre @ u @ s @ m \<and> NEWLINE \<notin> set m \<and> (\<forall>k \<in> set (take 1 q). NEWLINE \<in> set (ck_text k))"
proof -
  let ?rej = "rejected chunk_sum has_newline"
  obtain c' where c': "search_forward bytes_dim has_newline c = Some c'" "c_tree c' = c_tree c"
    "cursor_at bytes_dim chunk_sum c' (pre @ canon (u @ s) # takeWhile ?rej ks) (dropWhile ?rej ks)"
    using bytes_seek.search_forward_at_ok[OF assms newline_filter_ok[OF assms(2)]] by auto
  have "chunks_ok (takeWhile ?rej ks)" using assms(2) by (auto simp: chunks_ok_def list_all_iff dest: set_takeWhileD)
  from rejected_text[OF this] have mid: "NEWLINE \<notin> set (chunks_text (takeWhile ?rej ks))" by (auto dest: set_takeWhileD)
  have "NEWLINE \<in> set (ck_text k)" if "dropWhile ?rej ks = k # far" for k far
  proof -
    have "k \<in> set ks" using set_dropWhileD[of k ?rej ks] that by simp
    then have "chunk_ok k" using assms(2) by (auto simp: chunks_ok_def list_all_iff)
    moreover have "\<not> ?rej k" using hd_dropWhile[of ?rej ks] that by simp
    ultimately show ?thesis by (simp add: newline_rejected)
  qed
  then have "\<forall>k \<in> set (take 1 (dropWhile ?rej ks)). NEWLINE \<in> set (ck_text k)"
    by (cases "dropWhile ?rej ks") (simp_all del: dropWhile_eq_Nil_conv)
  then show ?thesis using c' mid
    by (intro exI[of _ c'] exI[of _ "pre @ canon (u @ s) # takeWhile ?rej ks"] exI[of _ "dropWhile ?rej ks"]
        exI[of _ "chunks_text (takeWhile ?rej ks)"] conjI) simp_all
qed

text \<open>The rest of a call once the search has stopped at a chunk: the newline is in it and in the range,
  or the range has none.\<close>

definition finish_line :: "chunks_iter \<times> bool \<Rightarrow> (bool \<times> chunks_iter) option" where
  "finish_line = (\<lambda>(it, found). do { it \<leftarrow> step_over it; it \<leftarrow> step_back it; Some (found, it) })"

definition line_moved :: "rope \<Rightarrow> chunks_iter \<Rightarrow> str \<Rightarrow> str \<Rightarrow> str \<Rightarrow> (bool \<times> chunks_iter) option \<Rightarrow> bool" where
  "line_moved r it a b t res \<longleftrightarrow> (\<exists>it'. res = Some (NEWLINE \<in> set b, it') \<and> ch_start it' = ch_start it \<and>
    (if NEWLINE \<in> set b then fwd_rest r it' (a @ head_line b @ [NEWLINE]) (behind_line b) t else fwd_rest r it' (a @ b) [] t))"

lemma head_line_le: "NEWLINE \<in> set b \<Longrightarrow> str_len (head_line b) + 1 \<le> str_len b"
  by (cases rule: first_line[of b]) (auto simp: head_line_simps)

lemma finish_found:
  assumes "fwd_rest r it a b t" "cursor_at bytes_dim chunk_sum (ch_chunks it) pre (canon (u @ s) # ks)"
    "pre @ canon (u @ s) # ks = tree_items r" "a = chunks_text pre @ u" "b @ t = s @ chunks_text ks"
    "NEWLINE \<in> set b" "NEWLINE \<in> set s"
  shows "line_moved r it a b t (finish_line
    (let it = it\<lparr>ch_offset := ch_offset it + (str_len (head_line b) + 1)\<rparr> in (it, ch_offset it \<le> ch_end it)))"
proof -
  let ?it = "it\<lparr>ch_offset := ch_offset it + (str_len (head_line b) + 1)\<rparr>"
  have "ch_offset ?it \<le> ch_end ?it" using assms(1) head_line_le[OF assms(6)] by (simp add: fwd_rest_def)
  moreover obtain it' where "step_over ?it = Some it'" "step_back it' = Some it'"
    "fwd_rest r it' (a @ head_line b @ [NEWLINE]) (behind_line b) t" "ch_start it' = ch_start it" using next_line_found[OF assms] by blast
  ultimately show ?thesis using assms(6) by (simp add: finish_line_def line_moved_def)
qed

lemma finish_missed:
  assumes "rope_ok r" "height r < STACK_CAP" "\<not> ch_reversed it" "rope_text r = (a @ b) @ t" "ch_end it = str_len (a @ b)"
    "ch_start it \<le> str_len (a @ b)" "c_tree c = r" "cursor_at bytes_dim chunk_sum c p q" "p @ q = tree_items r"
    "str_len (a @ b) \<le> str_len (chunks_text (p @ take 1 q))" "NEWLINE \<notin> set b"
  shows "line_moved r it a b t (finish_line (it\<lparr>ch_chunks := c, ch_offset := str_len (chunks_text (p @ take 1 q))\<rparr>, False))"
  using next_line_missed[of r "it\<lparr>ch_chunks := c, ch_offset := str_len (chunks_text (p @ take 1 q))\<rparr>" "a @ b" t p q] assms
  by (auto simp: finish_line_def line_moved_def simp del: chunks_text_simps)

text \<open>The search has stopped inside the range.\<close>

lemma next_line_inside:
  assumes "fwd_rest r it a b t" "b \<noteq> []" "cursor_at bytes_dim chunk_sum (ch_chunks it) p q" "p @ q = tree_items r" "a = chunks_text p"
    "\<forall>k \<in> set (take 1 q). NEWLINE \<in> set (ck_text k)"
  shows "(\<exists>b5. NEWLINE \<in> set b \<and> chunks_peek it = Some (Some b5) \<and> NEWLINE \<in> set b5 \<and> head_line b5 = head_line b \<and>
      line_moved r it a b t (finish_line
        (let it = it\<lparr>ch_offset := ch_offset it + (str_len (head_line b) + 1)\<rparr> in (it, ch_offset it \<le> ch_end it)))) \<or>
    (NEWLINE \<notin> set b \<and> chunks_peek it = Some (Some b) \<and> str_len (a @ b) \<le> str_len (chunks_text (p @ take 1 q)))"
proof -
  have r: "rope_ok r" using assms(1) by (simp add: fwd_rest_def)
  obtain pre u s ks where k: "cursor_at bytes_dim chunk_sum (ch_chunks it) pre (canon (u @ s) # ks)"
    "pre @ canon (u @ s) # ks = tree_items r" "chunks_ok (pre @ canon (u @ s) # ks)" "s \<noteq> []" "a = chunks_text pre @ u"
    "b @ t = s @ chunks_text ks"
    "str_len b < str_len s \<and> chunks_peek it = Some (Some b) \<and> (\<exists>s2. s = b @ s2) \<or>
     str_len s \<le> str_len b \<and> chunks_peek it = Some (Some s) \<and> (\<exists>b2. b = s @ b2 \<and> chunks_text ks = b2 @ t)"
    by (rule fwd_piece[OF assms(1,2)])
  have ok: "chunks_ok (p @ q)" using assms(4) rope_okD(2)[OF r] by simp
  note cur = bytes_cursor[OF assms(3) ok] bytes_cursor[OF k(1,3)]
  have "str_len u = 0" using cur(1,4) assms(5) arg_cong[OF k(5), of str_len] by simp
  then have u: "u = []" by simp
  obtain far where far: "q = canon s # far" using cur(2,5) u by (cases q) auto
  then have s: "NEWLINE \<in> set s" using assms(6) by simp
  show ?thesis
  proof (cases "NEWLINE \<in> set b")
    case True
    have "\<exists>b5. chunks_peek it = Some (Some b5) \<and> NEWLINE \<in> set b5 \<and> head_line b5 = head_line b" using k(7) s True by auto
    then show ?thesis using finish_found[OF assms(1) k(1,2,5,6) True s] True by blast
  next
    case False
    then have "chunks_peek it = Some (Some b)" "str_len b < str_len s" using k(7) s by auto
    then show ?thesis using False far assms(5) by simp
  qed
qed

lemma next_line_skip:
  assumes "fwd_rest r it a b t" "cursor_at bytes_dim chunk_sum (ch_chunks it) pre (canon (u @ s) # ks)"
    "pre @ canon (u @ s) # ks = tree_items r" "a = chunks_text pre @ u" "NEWLINE \<notin> set b1" "b1 = b \<or> b1 = s" "prefix b1 b" "prefix b1 s"
  shows "line_moved r it a b t (Option.bind (next_line_move it b1) finish_line)"
proof -
  have r: "rope_ok r" "height r < STACK_CAP" "\<not> ch_reversed it" "rope_text r = (a @ b) @ t" "ch_end it = str_len (a @ b)"
    "ch_start it \<le> str_len a" "c_tree (ch_chunks it) = r"
    using assms(1) by (auto simp: fwd_rest_def stands_def)
  have ok0: "chunks_ok (pre @ canon (u @ s) # ks)" using assms(3) rope_okD(2)[OF r(1)] by simp
  obtain c' p q m where c': "search_forward bytes_dim has_newline (ch_chunks it) = Some c'" "c_tree c' = r"
    "cursor_at bytes_dim chunk_sum c' p q" "p @ q = tree_items r"
    "chunks_text p = a @ s @ m" "NEWLINE \<notin> set m" "\<forall>k \<in> set (take 1 q). NEWLINE \<in> set (ck_text k)"
    using skip_chunks[OF assms(2) ok0] assms(3,4) r(7) by auto
  have ok: "chunks_ok (p @ q)" using c'(4) rope_okD(2)[OF r(1)] by simp
  note cur = bytes_cursor[OF c'(3) ok]
  have all: "(a @ b) @ t = chunks_text p @ chunks_text q" using r(4) c'(4)[symmetric] by (simp add: rope_text_def)
  let ?it = "it\<lparr>ch_chunks := c', ch_offset := str_len (chunks_text p)\<rparr>"
  let ?it2 = "it\<lparr>ch_chunks := c', ch_offset := str_len (chunks_text (p @ take 1 q))\<rparr>"
  have missed: "line_moved r it a b t (finish_line (?it2, False))"
    if "NEWLINE \<notin> set b" "str_len (a @ b) \<le> str_len (chunks_text (p @ take 1 q))"
    using finish_missed[OF r(1-5) _ c'(2-4) that(2,1)] r(6) by simp
  show ?thesis
  proof (cases "str_len (a @ b) \<le> str_len (chunks_text p)")
    case True
    obtain w where "chunks_text p = (a @ b) @ w" by (rule str_prefix_split[OF all True])
    then have nl: "NEWLINE \<notin> set b" using c'(5,6) assms(5-7) by (auto simp: append_eq_append_conv2)
    have "chunks_peek ?it = Some None" using True r(3,5) by (simp add: chunks_peek_def offset_is_valid_def)
    then have "next_line_move it b1 = Some (?it2, False)"
      using assms(5) c'(1) cur(1,3) by (simp add: next_line_move_def str_find_newline Let_def)
    then show ?thesis using missed[OF nl] True by simp
  next
    case False
    then obtain b3 where b3: "a @ b = chunks_text p @ b3" "chunks_text q = b3 @ t"
      by (rule str_prefix_split[OF all[symmetric], OF less_imp_le, OF not_le_imp_less])
    have b3ne: "b3 \<noteq> []" using False b3(1) by auto
    have b: "b = s @ m @ b3" using b3(1) c'(5) by simp
    have "b1 = s" using assms(6-8) b by (auto simp: prefix_def)
    then have s: "NEWLINE \<notin> set s" using assms(5) by simp
    have lines: "head_line b = s @ m @ head_line b3" "behind_line b = behind_line b3" "NEWLINE \<in> set b \<longleftrightarrow> NEWLINE \<in> set b3"
      unfolding b using s c'(6) by (simp_all add: head_line_simps)
    have "stands Right r (str_len (chunks_text p)) c'" using c'(2-4) fits_end[OF r(1) c'(4)] by (intro standsI)
    then have rest: "fwd_rest r ?it (chunks_text p) b3 t"
      using r(1-6) b3(1) c'(5) by (auto simp: fwd_rest_def simp flip: append_assoc)
    have moved: "line_moved r it a b t res" if "line_moved r ?it (chunks_text p) b3 t res" for res
      using that unfolding line_moved_def lines(2,3) using lines(1) c'(5) b3(1) by (auto split: if_splits)
    have cur': "cursor_at bytes_dim chunk_sum (ch_chunks ?it) p q" using c'(3) by simp
    from next_line_inside[OF rest b3ne cur' c'(4) refl c'(7)] show ?thesis
    proof (elim disjE exE conjE)
      fix b5 assume *: "NEWLINE \<in> set b3" "chunks_peek ?it = Some (Some b5)" "NEWLINE \<in> set b5" "head_line b5 = head_line b3"
        "line_moved r ?it (chunks_text p) b3 t (finish_line
          (let it = ?it\<lparr>ch_offset := ch_offset ?it + (str_len (head_line b3) + 1)\<rparr> in (it, ch_offset it \<le> ch_end it)))"
      have "next_line_move it b1 =
          Some (let it = ?it\<lparr>ch_offset := ch_offset ?it + (str_len (head_line b3) + 1)\<rparr> in (it, ch_offset it \<le> ch_end it))"
        using assms(5) c'(1) cur(1) *(2-4) by (simp add: next_line_move_def str_find_newline Let_def)
      then show ?thesis using moved[OF *(5)] by simp
    next
      assume *: "NEWLINE \<notin> set b3" "chunks_peek ?it = Some (Some b3)" "str_len (chunks_text p @ b3) \<le> str_len (chunks_text (p @ take 1 q))"
      have "next_line_move it b1 = Some (?it2, False)"
        using assms(5) c'(1) cur(1,3) *(1,2) by (simp add: next_line_move_def str_find_newline Let_def)
      then show ?thesis using missed lines(3) *(1,3) b3(1) by simp
    qed
  qed
qed

lemma next_line_rest:
  assumes "fwd_rest r it a b t"
  shows "line_moved r it a b t (chunks_next_line it)"
proof (cases "b = []")
  case True
  then have "chunks_peek it = Some None" using assms fwd_peek_end by simp
  then show ?thesis using assms True
    by (auto simp: chunks_next_line_def fwd_rest_def step_back_def assert_opt_def line_moved_def)
next
  case False
  obtain pre u s ks where p: "cursor_at bytes_dim chunk_sum (ch_chunks it) pre (canon (u @ s) # ks)"
    "pre @ canon (u @ s) # ks = tree_items r" "chunks_ok (pre @ canon (u @ s) # ks)" "s \<noteq> []" "a = chunks_text pre @ u"
    "b @ t = s @ chunks_text ks"
    "str_len b < str_len s \<and> chunks_peek it = Some (Some b) \<and> (\<exists>s2. s = b @ s2) \<or>
     str_len s \<le> str_len b \<and> chunks_peek it = Some (Some s) \<and> (\<exists>b2. b = s @ b2 \<and> chunks_text ks = b2 @ t)"
    by (rule fwd_piece[OF assms False])
  obtain b1 where b1: "chunks_peek it = Some (Some b1)" "prefix b1 b" "prefix b1 s" "b1 = b \<or> b1 = s"
    using p(7) by (auto simp: prefix_def)
  have start: "chunks_next_line it = Option.bind (next_line_move it b1) finish_line"
    using assms b1(1) by (auto simp: chunks_next_line_def assert_opt_def finish_line_def fwd_rest_def split_def bind_eq_Some_conv
        split: Option.bind_splits)
  show ?thesis
  proof (cases "NEWLINE \<in> set b1")
    case True
    have nl: "NEWLINE \<in> set b" "NEWLINE \<in> set s" "head_line b1 = head_line b" using True b1(2,3) by (auto simp: prefix_def)
    have "next_line_move it b1 =
        Some (let it = it\<lparr>ch_offset := ch_offset it + (str_len (head_line b) + 1)\<rparr> in (it, ch_offset it \<le> ch_end it))"
      using True nl(3) by (simp add: next_line_move_def str_find_newline Let_def)
    then show ?thesis using finish_found[OF assms p(1,2,5,6) nl(1,2)] start by simp
  next
    case False
    show ?thesis unfolding start by (rule next_line_skip[OF assms p(1,2,5) False b1(4,2,3)])
  qed
qed

end
