(* ===== verification/RopePrevLine.thy ===== *)
theory RopePrevLine
  imports RopeLineMoves
begin

text \<open>
  Moving an iterator back by lines: \<open>prev_line\<close> looks for a newline before the offset, one right
  before it left aside, first in the chunk under the cursor and then in the chunks before it that
  have one. The iterator goes behind that newline, or to the start of its range.
\<close>

section \<open>The line to go to\<close>

text \<open>The text up to the last newline, and the text before an offset without the newline there.\<close>

definition up_to_newline :: "str \<Rightarrow> str" where
  "up_to_newline s = rev (dropWhile (\<lambda>c. c \<noteq> NEWLINE) (rev s))"

definition strip_newline :: "str \<Rightarrow> str" where
  "strip_newline s = (if s \<noteq> [] \<and> last s = NEWLINE then butlast s else s)"

definition prev_line_start :: "str \<Rightarrow> str" where
  "prev_line_start a = up_to_newline (strip_newline a)"

lemma up_to_newline_simps:
  "NEWLINE \<notin> set s \<Longrightarrow> up_to_newline s = []" "NEWLINE \<notin> set s \<Longrightarrow> up_to_newline (a @ s) = up_to_newline a"
  "NEWLINE \<notin> set s \<Longrightarrow> up_to_newline (a @ NEWLINE # s) = a @ [NEWLINE]"
  by (auto simp: up_to_newline_def dropWhile_append)

lemma up_to_newline_append: "NEWLINE \<in> set s \<Longrightarrow> up_to_newline (a @ s) = a @ up_to_newline s"
  by (cases rule: last_line[of s]) (auto simp: up_to_newline_simps simp flip: append_assoc)

lemma up_to_newline_split: obtains z where "s = up_to_newline s @ z" "NEWLINE \<notin> set z"
  by (cases rule: last_line[of s]) (auto simp: up_to_newline_simps)

lemma str_rfind_newline: "str_rfind NEWLINE s = (if NEWLINE \<in> set s then Some (str_len (up_to_newline s) - 1) else None)"
proof (induction s)
  case (Cons c s)
  show ?case
  proof (cases "NEWLINE \<in> set s")
    case True
    then have up: "up_to_newline (c # s) = c # up_to_newline s" using up_to_newline_append[of s "[c]"] by simp
    obtain a where "up_to_newline s = a @ [NEWLINE]" using True by (cases rule: last_line[of s]) (auto simp: up_to_newline_simps)
    then show ?thesis using Cons.IH True up by simp
  next
    case False
    then show ?thesis using Cons.IH up_to_newline_simps(3)[of s "[]"] by auto
  qed
qed simp

lemma strip_newline_append: "s \<noteq> [] \<Longrightarrow> strip_newline (a @ s) = a @ strip_newline s"
  by (simp add: strip_newline_def butlast_append)

lemma last_byte:
  assumes "s \<noteq> []"
  shows "nth_opt (as_bytes (s @ u)) (str_len s - 1) = Some (last (as_bytes s))" "last (as_bytes s) = 10 \<longleftrightarrow> last s = NEWLINE"
proof -
  have ne: "as_bytes s \<noteq> []" using assms length_as_bytes[of s] str_len_0[of s] by (metis list.size(3))
  have lt: "0 < str_len s" using assms str_len_0[of s] by (simp del: str_len_0)
  have "as_bytes (s @ u) = as_bytes s @ as_bytes u" by (simp add: as_bytes_def)
  then show "nth_opt (as_bytes (s @ u)) (str_len s - 1) = Some (last (as_bytes s))"
    using ne lt by (simp add: nth_opt_def nth_append last_conv_nth del: str_len_0)
  obtain v c where s: "s = v @ [c]" using assms by (cases s rule: rev_cases) auto
  have "last (as_bytes s) = last (utf8 c)" unfolding s by (simp add: as_bytes_def utf8_def)
  moreover have "last (utf8 c) = 10 \<longleftrightarrow> c = NEWLINE" by (simp add: utf8_def)
  ultimately show "last (as_bytes s) = 10 \<longleftrightarrow> last s = NEWLINE" using s by simp
qed

section \<open>The cursor before the offset\<close>

lemma cursor_start_facts:
  assumes "cursor_start bytes_dim chunk_sum c" "c_did_seek c"
  shows "cursor_item c = Some None" "c_position c = 0"
    "\<exists>c'. search_backward bytes_dim F c = Some c' \<and> c_tree c' = c_tree c \<and> c_did_seek c' \<and> cursor_start bytes_dim chunk_sum c'"
  using assms by (auto simp: cursor_start_def cursor_item_def assert_opt_def bytes_dim_def search_backward_def Let_def)

lemma first_back:
  assumes "fwd_rest r it a b t"
  shows "\<exists>c. (if ch_offset it = c_position (ch_chunks it) then cursor_prev bytes_dim (ch_chunks it) else Some (ch_chunks it)) = Some c \<and>
    c_tree c = r \<and>
    (if a = [] then cursor_start bytes_dim chunk_sum c \<and> c_did_seek c else stands Left r (str_len a) c)"
proof -
  have r: "rope_ok r" "rope_text r = a @ b @ t" "ch_offset it = str_len a" using assms by (simp_all add: fwd_rest_def)
  obtain d where d: "stands d r (str_len a) (ch_chunks it)" using assms by (auto simp: fwd_rest_def)
  then obtain p q where pq: "c_tree (ch_chunks it) = r" "cursor_at bytes_dim chunk_sum (ch_chunks it) p q" "p @ q = tree_items r"
    "fits d (str_len a) p q" by (rule standsE)
  have ok: "chunks_ok (p @ q)" using rope_okD(2)[OF r(1)] pq(3) by simp
  note cur = bytes_cursor[OF pq(2) ok]
  have le: "str_len (chunks_text p) \<le> str_len a" "\<And>k ks. q = k # ks \<Longrightarrow> str_len a \<le> str_len (chunks_text p) + str_len (ck_text k)"
    using pq(4) by (auto simp: fits_def split: if_splits)
  have ne: "0 < str_len (ck_text k)" if "p = ps @ [k]" for ps k
    using items_nonempty[OF r(1), of ps k q] pq(3) that by simp
  show ?thesis
  proof (cases "str_len a = str_len (chunks_text p)")
    case True
    obtain c where c: "cursor_prev bytes_dim (ch_chunks it) = Some c" "c_tree c = r" "c_did_seek c"
      "if p = [] then cursor_start bytes_dim chunk_sum c else cursor_at bytes_dim chunk_sum c (butlast p) (last p # q)"
      using bytes_seek.cursor_prev_at_ok[OF pq(2) ok] pq(1) by auto
    show ?thesis
    proof (cases p rule: rev_cases)
      case Nil
      then have "a = []" using True by simp
      then show ?thesis using c True r(3) cur(1) Nil by simp
    next
      case (snoc ps k)
      have "fits Left (str_len a) ps (k # q)" using True snoc ne[OF snoc] by (simp add: fits_def del: str_len_0)
      then have "stands Left r (str_len a) c" using c(2,4) snoc pq(3) by (intro standsI[where p = ps and q = "k # q"]) simp_all
      moreover have "a \<noteq> []" using True snoc ne[OF snoc] by auto
      ultimately show ?thesis using c(1,2) True r(3) cur(1) by simp
    qed
  next
    case False
    then have lt: "str_len (chunks_text p) < str_len a" using le(1) by simp
    then have "fits Left (str_len a) p q" using le(2) by (cases q) (auto simp: fits_def)
    then have "stands Left r (str_len a) (ch_chunks it)" using pq(1-3) by (intro standsI)
    moreover have "a \<noteq> []" using lt by auto
    ultimately show ?thesis using False r(3) cur(1) pq(1) by simp
  qed
qed

section \<open>The newline in the chunk before the offset\<close>

lemma near_search:
  assumes "rope_ok r" "stands Left r (str_len a) c" "rope_text r = a @ w" "a \<noteq> []" "ch_chunks it = c" "ch_offset it = str_len a"
  obtains pre s u ks where "cursor_at bytes_dim chunk_sum c pre (canon (s @ u) # ks)" "pre @ canon (s @ u) # ks = tree_items r"
    "chunks_ok (pre @ canon (s @ u) # ks)" "s \<noteq> []" "a = chunks_text pre @ s"
    "prev_line_near it =
      (if NEWLINE \<in> set (strip_newline s) then
         let it = it\<lparr>ch_offset := str_len (chunks_text pre @ up_to_newline (strip_newline s))\<rparr> in Some (it, offset_is_valid it)
       else Some (it, False))"
proof -
  obtain pre s u ks where p: "cursor_at bytes_dim chunk_sum c pre (canon (s @ u) # ks)" "pre @ canon (s @ u) # ks = tree_items r"
    "chunks_ok (pre @ canon (s @ u) # ks)" "s \<noteq> []" "str_len (s @ u) \<le> 128" "a = chunks_text pre @ s" "w = u @ chunks_text ks"
    by (rule stands_left[OF assms(1-4)])
  note cur = bytes_cursor[OF p(1,3)]
  have lt: "0 < str_len s" using p(4) str_len_0[of s] by (simp del: str_len_0)
  have ix: "csub (ch_offset it) (c_position (ch_chunks it)) = Some (str_len s)" "csub (str_len s) 1 = Some (str_len s - 1)"
    using cur(1) assms(5,6) p(6) lt by (simp_all add: csub_def)
  have cut: "(if last (as_bytes s) = 10 then str_len s - 1 else str_len s) = str_len (strip_newline s)"
    using p(4) last_byte(2)[OF p(4)] by (cases s rule: rev_cases) (auto simp: strip_newline_def)
  have "\<exists>v. s = strip_newline s @ v" by (cases s rule: rev_cases) (auto simp: strip_newline_def)
  then obtain v where v: "s @ u = strip_newline s @ v @ u" by auto
  have slice: "str_slice (s @ u) 0 (str_len (strip_newline s)) = Some (strip_newline s)"
    unfolding v str_slice_Some by (intro exI[of _ "[]"] exI[of _ "v @ u"]) simp
  have up: "0 < str_len (up_to_newline x)" if "NEWLINE \<in> set x" for x
    using that by (cases rule: last_line[of x]) (auto simp: up_to_newline_simps)
  have "prev_line_near it =
      (if NEWLINE \<in> set (strip_newline s) then
         let it = it\<lparr>ch_offset := str_len (chunks_text pre @ up_to_newline (strip_newline s))\<rparr> in Some (it, offset_is_valid it)
       else Some (it, False))"
  proof (cases "NEWLINE \<in> set (strip_newline s)")
    case True
    then obtain n where n: "str_len (up_to_newline (strip_newline s)) = Suc n" using up gr0_conv_Suc by blast
    show ?thesis using cur(1,2) ix assms(5) last_byte(1)[OF p(4), of u] slice cut True
      by (cases "last (as_bytes s) = 10") (simp_all add: prev_line_near_def str_rfind_newline Let_def n)
  next
    case False
    then show ?thesis using cur(1,2) ix assms(5) last_byte(1)[OF p(4), of u] slice cut
      by (cases "last (as_bytes s) = 10") (simp_all add: prev_line_near_def str_rfind_newline Let_def)
  qed
  then show ?thesis using that[of pre s u ks] p by blast
qed

section \<open>The chunks before\<close>

lemma skip_back:
  assumes "cursor_at bytes_dim chunk_sum c pre post" "chunks_ok (pre @ post)"
  shows "\<exists>c'. search_backward bytes_dim has_newline c = Some c' \<and> c_tree c' = c_tree c \<and> c_did_seek c' \<and>
    (NEWLINE \<notin> set (chunks_text pre) \<and> cursor_start bytes_dim chunk_sum c' \<or>
     (\<exists>p k ks. cursor_at bytes_dim chunk_sum c' p (k # ks) \<and> p @ k # ks = pre @ post \<and> NEWLINE \<in> set (ck_text k) \<and>
        up_to_newline (chunks_text pre) = chunks_text p @ up_to_newline (ck_text k)))"
proof -
  let ?rej = "rejected chunk_sum has_newline"
  obtain p q where pq: "bsplit chunk_sum has_newline pre = (p, q)" by force
  have items: "p @ q = pre" using bsplit_items[OF pq] .
  have ok: "chunks_ok p" "chunks_ok q" using assms(2) items by auto
  have q: "\<forall>k \<in> set q. ?rej k" using pq by (auto simp: bsplit_def dest: set_takeWhileD)
  then have nq: "NEWLINE \<notin> set (chunks_text q)" using rejected_text[OF ok(2)] by simp
  obtain c' where c': "search_backward bytes_dim has_newline c = Some c'" "c_tree c' = c_tree c" "c_did_seek c'"
    "if p = [] then cursor_start bytes_dim chunk_sum c' else cursor_at bytes_dim chunk_sum c' (butlast p) (last p # q @ post)"
    using bytes_seek.search_backward_at_ok[OF assms newline_filter_ok[OF assms(2)] pq] by blast
  show ?thesis
  proof (cases p rule: rev_cases)
    case Nil
    then show ?thesis using c' nq items by auto
  next
    case (snoc ps k)
    have "\<not> ?rej k" using pq snoc hd_dropWhile[of ?rej "rev pre"] by (auto simp: bsplit_def rev_swap)
    then have k: "NEWLINE \<in> set (ck_text k)" using ok(1) snoc by (simp add: newline_rejected)
    have "chunks_text pre = (chunks_text ps @ ck_text k) @ chunks_text q" using items[symmetric] snoc by simp
    then have "up_to_newline (chunks_text pre) = chunks_text ps @ up_to_newline (ck_text k)"
      by (simp only: up_to_newline_simps(2)[OF nq] up_to_newline_append[OF k])
    moreover have "cursor_at bytes_dim chunk_sum c' ps (k # q @ post)" "ps @ k # q @ post = pre @ post"
      using c'(4) snoc items by auto
    ultimately show ?thesis using c'(1-3) k by blast
  qed
qed

text \<open>The newline found may be before the range.\<close>

lemma far_found:
  assumes "rope_ok r" "height r < STACK_CAP" "\<not> ch_reversed it" "rope_text r = g @ b @ t" "ch_end it = str_len (g @ b)" "b \<noteq> []"
    "search_backward bytes_dim has_newline (ch_chunks it) = Some c" "c_tree c = r" "cursor_at bytes_dim chunk_sum c p (k # ks)"
    "p @ k # ks = tree_items r" "NEWLINE \<in> set (ck_text k)" "g = chunks_text p @ up_to_newline (ck_text k)"
  shows "\<exists>it'. prev_line_far it = Some (it', ch_start it \<le> str_len g) \<and> ch_start it' = ch_start it \<and> ch_end it' = ch_end it \<and>
    \<not> ch_reversed it' \<and> c_tree (ch_chunks it') = r \<and> cursor_item (ch_chunks it') \<noteq> None \<and>
    (if ch_start it \<le> str_len g then fwd_rest r it' g b t else \<not> offset_is_valid it')"
proof -
  have ok: "chunks_ok (p @ k # ks)" using rope_okD(2)[OF assms(1)] assms(10) by simp
  note cur = bytes_cursor[OF assms(9) ok]
  have up: "0 < str_len (up_to_newline (ck_text k))"
    using assms(11) by (cases rule: last_line[of "ck_text k"]) (auto simp: up_to_newline_simps)
  obtain z where z: "ck_text k = up_to_newline (ck_text k) @ z" by (rule up_to_newline_split)
  let ?it = "it\<lparr>ch_chunks := c, ch_offset := str_len g\<rparr>"
  have far: "prev_line_far it = (if offset_is_valid ?it then do {
       chunks_end \<leftarrow> cursor_end bytes_dim c;
       chunks \<leftarrow> (if str_len g = chunks_end then cursor_next bytes_dim c else Some c);
       Some (?it\<lparr>ch_chunks := chunks\<rparr>, True) } else Some (?it, False))"
    using assms(7,11,12) cur(1,2) up by (simp add: prev_line_far_def str_rfind_newline Let_def del: str_len_0)
  have b: "0 < str_len b" using assms(6) str_len_0[of b] by (simp del: str_len_0)
  then have valid: "offset_is_valid ?it \<longleftrightarrow> ch_start it \<le> str_len g"
    using assms(3,5) by (auto simp: offset_is_valid_def simp del: str_len_0)
  show ?thesis
  proof (cases "ch_start it \<le> str_len g")
    case False
    then show ?thesis using far valid assms(3,8) cur(2) by (intro exI[of _ ?it]) simp
  next
    case True
    have "\<exists>c2. (if str_len g = str_len (chunks_text (p @ take 1 (k # ks))) then cursor_next bytes_dim c else Some c) = Some c2 \<and>
        stands Right r (str_len g) c2 \<and> cursor_item c2 \<noteq> None"
    proof (cases "z = []")
      case True
      then have "ck_text k = up_to_newline (ck_text k)" using z by simp
      then have g: "g = chunks_text (p @ [k])" using assms(12) by simp
      obtain c2 where c2: "cursor_next bytes_dim c = Some c2" "c_tree c2 = r" "cursor_at bytes_dim chunk_sum c2 (p @ [k]) ks"
        using bytes_seek.cursor_next_at_ok[OF assms(9) ok] assms(8) by auto
      have "stands Right r (str_len g) c2"
        unfolding g using c2(2,3) assms(10) fits_end[OF assms(1), of "p @ [k]" ks] by (intro standsI) simp_all
      moreover have "cursor_item c2 \<noteq> None" using bytes_cursor(2)[OF c2(3)] ok by simp
      ultimately show ?thesis using c2(1) g by simp
    next
      case False
      have zl: "0 < str_len z" using False str_len_0[of z] by (simp del: str_len_0)
      have k: "str_len (ck_text k) = str_len (up_to_newline (ck_text k)) + str_len z" using arg_cong[OF z, of str_len] by simp
      have "stands Right r (str_len g) c" using assms(8-10) zl k
        by (intro standsI[where p = p and q = "k # ks"]) (simp_all add: fits_def assms(12) del: str_len_0)
      then show ?thesis using zl k cur(2) assms(12) by (simp del: str_len_0)
    qed
    then obtain c2 where c2: "(if str_len g = str_len (chunks_text (p @ take 1 (k # ks))) then cursor_next bytes_dim c else Some c) = Some c2"
      "stands Right r (str_len g) c2" "cursor_item c2 \<noteq> None" by blast
    let ?it2 = "?it\<lparr>ch_chunks := c2\<rparr>"
    have "prev_line_far it = Some (?it2, True)" using far valid True cur(3) c2(1) by (simp del: chunks_text_simps)
    moreover have "fwd_rest r ?it2 g b t" using assms(1-6) True c2(2) by (auto simp: fwd_rest_def)
    moreover have "c_tree c2 = r" using c2(2) by (simp add: stands_def)
    ultimately show ?thesis using True assms(3) c2(3) by (intro exI[of _ ?it2]) simp
  qed
qed

section \<open>The start of the range\<close>

lemma prev_line_steps:
  assumes "\<not> ch_reversed it"
    "(if ch_offset it = c_position (ch_chunks it) then cursor_prev bytes_dim (ch_chunks it) else Some (ch_chunks it)) = Some c"
    "prev_line_near (it\<lparr>ch_chunks := c\<rparr>) = Some (it1, near)"
  shows "chunks_prev_line it =
    (if near then Some (True, it1)
     else do { (it2, far) \<leftarrow> prev_line_far it1; if far then Some (True, it2) else to_start (ch_offset it) it2 })"
  using assms by (simp add: chunks_prev_line_def assert_opt_def to_start_def Let_def)

lemma to_start_rest:
  assumes "rope_ok r" "height r < STACK_CAP" "\<not> ch_reversed it" "rope_text r = a0 @ w @ t" "ch_start it = str_len a0"
    "ch_end it = str_len (a0 @ w)" "c_tree (ch_chunks it) = r" "cursor_item (ch_chunks it) \<noteq> None"
    "\<not> offset_is_valid it \<or> cursor_item (ch_chunks it) = Some None"
  shows "\<exists>it'. to_start n it = Some (a0 = [] \<and> 0 < n, it') \<and> fwd_rest r it' a0 w t \<and> ch_start it' = str_len a0"
proof -
  obtain x c where c: "cursor_seek bytes_dim (cmp_of (str_len a0)) Right (ch_chunks it) = Some (x, c)" "stands Right r (str_len a0) c"
    using seek_stands[OF assms(1,2,7)] by blast
  let ?it = "it\<lparr>ch_offset := str_len a0, ch_chunks := c\<rparr>"
  have "to_start n it = Some (str_len a0 < n \<and> str_len a0 = 0, ?it)"
    using assms(5,8,9) c(1) by (auto simp: to_start_def)
  moreover have "fwd_rest r ?it a0 w t" using assms(1-6) c(2) by (auto simp: fwd_rest_def)
  ultimately show ?thesis using assms(5) by (intro exI[of _ ?it]) auto
qed

section \<open>The previous line\<close>

text \<open>The far search, and the start of the range when it fails.\<close>

definition goes_to :: "rope \<Rightarrow> str \<Rightarrow> str \<Rightarrow> str \<Rightarrow> bool \<Rightarrow> (bool \<times> chunks_iter) option \<Rightarrow> bool" where
  "goes_to r a0 g t found res \<longleftrightarrow>
     (\<exists>it' w. res = Some (found, it') \<and> fwd_rest r it' g w t \<and> ch_start it' = str_len a0)"

lemma far_rest:
  assumes "rope_ok r" "height r < STACK_CAP" "\<not> ch_reversed it" "rope_text r = a0 @ w @ t" "ch_start it = str_len a0"
    "ch_end it = str_len (a0 @ w)" "c_tree (ch_chunks it) = r" "cursor_at bytes_dim chunk_sum (ch_chunks it) pre post"
    "pre @ post = tree_items r" "a0 @ w = chunks_text pre @ v" "v \<noteq> []"
  shows "goes_to r a0 (if str_len a0 \<le> str_len (up_to_newline (chunks_text pre)) then up_to_newline (chunks_text pre) else a0) t
    (if up_to_newline (chunks_text pre) \<noteq> [] \<and> str_len a0 \<le> str_len (up_to_newline (chunks_text pre)) then True else a0 = [] \<and> 0 < n)
    (do { (it2, far) \<leftarrow> prev_line_far it; if far then Some (True, it2) else to_start n it2 })"
proof -
  let ?g = "up_to_newline (chunks_text pre)"
  have ok: "chunks_ok (pre @ post)" using rope_okD(2)[OF assms(1)] assms(9) by simp
  obtain c' where c': "search_backward bytes_dim has_newline (ch_chunks it) = Some c'" "c_tree c' = r" "c_did_seek c'"
    "NEWLINE \<notin> set (chunks_text pre) \<and> cursor_start bytes_dim chunk_sum c' \<or>
     (\<exists>p k ks. cursor_at bytes_dim chunk_sum c' p (k # ks) \<and> p @ k # ks = pre @ post \<and> NEWLINE \<in> set (ck_text k) \<and>
        ?g = chunks_text p @ up_to_newline (ck_text k))"
    using skip_back[OF assms(8) ok] assms(7) by auto
  from c'(4) show ?thesis
  proof (elim disjE exE conjE)
    assume none: "NEWLINE \<notin> set (chunks_text pre)" "cursor_start bytes_dim chunk_sum c'"
    note st = cursor_start_facts(1,2)[OF none(2) c'(3)]
    let ?it = "it\<lparr>ch_chunks := c', ch_offset := 0\<rparr>"
    have far: "prev_line_far it = Some (?it, False)" using c'(1) st by (simp add: prev_line_far_def Let_def)
    have g: "?g = []" using none(1) by (simp add: up_to_newline_simps)
    have "\<exists>it'. to_start n ?it = Some (a0 = [] \<and> 0 < n, it') \<and> fwd_rest r it' a0 w t \<and> ch_start it' = str_len a0"
      by (rule to_start_rest) (use assms(1-6) c'(2) st in simp_all)
    then show ?thesis using far g by (auto simp: goes_to_def)
  next
    fix p k ks assume k: "cursor_at bytes_dim chunk_sum c' p (k # ks)" "p @ k # ks = pre @ post" "NEWLINE \<in> set (ck_text k)"
      "?g = chunks_text p @ up_to_newline (ck_text k)"
    obtain z where z: "chunks_text pre = ?g @ z" by (rule up_to_newline_split)
    have gne: "?g \<noteq> []" unfolding k(4) using k(3) by (cases rule: last_line[of "ck_text k"]) (auto simp: up_to_newline_simps)
    have w: "a0 @ w = ?g @ (z @ v)" using assms(10) arg_cong[OF z, of "\<lambda>x. x @ v"] by simp
    have "rope_text r = ?g @ (z @ v) @ t" using assms(4) arg_cong[OF w, of "\<lambda>x. x @ t"] by simp
    moreover have "ch_end it = str_len (?g @ z @ v)" using assms(6) w by simp
    ultimately obtain it' where far: "prev_line_far it = Some (it', str_len a0 \<le> str_len ?g)" "ch_start it' = str_len a0"
      "ch_end it' = ch_end it" "\<not> ch_reversed it'" "c_tree (ch_chunks it') = r" "cursor_item (ch_chunks it') \<noteq> None"
      "if str_len a0 \<le> str_len ?g then fwd_rest r it' ?g (z @ v) t else \<not> offset_is_valid it'"
      using far_found[OF assms(1-3) _ _ _ c'(1,2) k(1) k(2)[folded assms(9)[symmetric]] k(3,4), of "z @ v" t] assms(5,9,11) by auto
    show ?thesis
    proof (cases "str_len a0 \<le> str_len ?g")
      case True
      then show ?thesis using far(1,2,7) gne by (auto simp: goes_to_def)
    next
      case False
      have "\<exists>it2. to_start n it' = Some (a0 = [] \<and> 0 < n, it2) \<and> fwd_rest r it2 a0 w t \<and> ch_start it2 = str_len a0"
        by (rule to_start_rest) (use assms(1,2,4,6) far False in auto)
      then show ?thesis using far(1) False by (auto simp: goes_to_def)
    qed
  qed
qed

lemma strip_newline_shorter: "s \<noteq> [] \<Longrightarrow> \<exists>v. s = up_to_newline (strip_newline s) @ v \<and> v \<noteq> []"
proof -
  assume ne: "s \<noteq> []"
  obtain z where z: "strip_newline s = up_to_newline (strip_newline s) @ z" by (rule up_to_newline_split)
  show ?thesis
  proof (cases "last s = NEWLINE")
    case True
    then have "s = strip_newline s @ [NEWLINE]" using ne by (simp add: strip_newline_def) (metis append_butlast_last_id)
    then show ?thesis using z by (metis append_assoc Nil_is_append_conv list.distinct(1))
  next
    case False
    then have s: "strip_newline s = s" by (simp add: strip_newline_def)
    have "z \<noteq> []"
    proof
      assume "z = []"
      then have up: "s = up_to_newline s" using z s by simp
      have "last s = NEWLINE"
        using ne up by (cases rule: last_line[of s]) (auto simp: up_to_newline_simps)
      then show False using False by simp
    qed
    then show ?thesis using z s by metis
  qed
qed

lemma prev_line_rest:
  assumes "fwd_rest r it (a0 @ a1) b t" "ch_start it = str_len a0"
  defines "g \<equiv> prev_line_start (a0 @ a1)"
  shows "goes_to r a0 (if str_len a0 \<le> str_len g then g else a0) t
    (if g \<noteq> [] \<and> str_len a0 \<le> str_len g then True else a0 = [] \<and> a1 \<noteq> []) (chunks_prev_line it)"
proof -
  let ?a = "a0 @ a1" let ?w = "a1 @ b"
  have r: "rope_ok r" "height r < STACK_CAP" "\<not> ch_reversed it" "rope_text r = a0 @ ?w @ t" "ch_offset it = str_len ?a"
    "ch_end it = str_len (a0 @ ?w)" "rope_text r = ?a @ (b @ t)"
    using assms(1) by (auto simp: fwd_rest_def)
  obtain c where c: "(if ch_offset it = c_position (ch_chunks it) then cursor_prev bytes_dim (ch_chunks it) else Some (ch_chunks it)) = Some c"
    "c_tree c = r" "if ?a = [] then cursor_start bytes_dim chunk_sum c \<and> c_did_seek c else stands Left r (str_len ?a) c"
    using first_back[OF assms(1)] by blast
  let ?it1 = "it\<lparr>ch_chunks := c\<rparr>"
  have pos: "0 < ch_offset it \<longleftrightarrow> ?a \<noteq> []" unfolding r(5) using str_len_0[of ?a] neq0_conv[of "str_len ?a"] by blast
  show ?thesis
  proof (cases "?a = []")
    case True
    then have st: "cursor_start bytes_dim chunk_sum c" "c_did_seek c" using c(3) by simp_all
    note facts = cursor_start_facts[OF st]
    have near: "prev_line_near ?it1 = Some (?it1, False)" using facts(1) by (simp add: prev_line_near_def)
    obtain c' where c': "search_backward bytes_dim has_newline c = Some c'" "c_tree c' = r" "c_did_seek c'"
      "cursor_start bytes_dim chunk_sum c'" using facts(3) c(2) by auto
    note facts' = cursor_start_facts(1,2)[OF c'(4,3)]
    let ?it2 = "it\<lparr>ch_chunks := c', ch_offset := 0\<rparr>"
    have far: "prev_line_far ?it1 = Some (?it2, False)" using c'(1) facts' by (simp add: prev_line_far_def Let_def)
    have "\<exists>it'. to_start (ch_offset it) ?it2 = Some (a0 = [] \<and> 0 < ch_offset it, it') \<and> fwd_rest r it' a0 ?w t \<and> ch_start it' = str_len a0"
      by (rule to_start_rest) (use r(1-4,6) assms(2) c'(2) facts' in simp_all)
    moreover have "g = []" using True by (simp add: g_def prev_line_start_def strip_newline_def up_to_newline_simps)
    ultimately show ?thesis using prev_line_steps[OF r(3) c(1) near] far True pos by (auto simp: goes_to_def)
  next
    case False
    then have st: "stands Left r (str_len ?a) c" using c(3) by (auto split: if_splits)
    obtain pre s u ks where p: "cursor_at bytes_dim chunk_sum c pre (canon (s @ u) # ks)" "pre @ canon (s @ u) # ks = tree_items r"
      "chunks_ok (pre @ canon (s @ u) # ks)" "s \<noteq> []" "?a = chunks_text pre @ s"
      "prev_line_near ?it1 =
        (if NEWLINE \<in> set (strip_newline s) then
           let it = ?it1\<lparr>ch_offset := str_len (chunks_text pre @ up_to_newline (strip_newline s))\<rparr> in Some (it, offset_is_valid it)
         else Some (?it1, False))"
      by (rule near_search[OF r(1) st r(7) False, of ?it1]) (use r(5) in simp_all)
    let ?h = "up_to_newline (chunks_text pre)" let ?k = "\<lambda>n it1. do { (it2, far) \<leftarrow> prev_line_far it1; if far then Some (True, it2) else to_start n it2 }"
    have far: "goes_to r a0 (if str_len a0 \<le> str_len ?h then ?h else a0) t
        (if ?h \<noteq> [] \<and> str_len a0 \<le> str_len ?h then True else a0 = [] \<and> 0 < ch_offset it) (?k (ch_offset it) (?it1\<lparr>ch_offset := n\<rparr>))" for n
      by (rule far_rest[where w = ?w and v = "s @ b" and pre = pre and post = "canon (s @ u) # ks"])
        (use r(1-6) assms(2) c(2) p(1,2,4,5) in simp_all)
    have g: "g = up_to_newline (chunks_text pre @ strip_newline s)"
      unfolding g_def prev_line_start_def p(5) strip_newline_append[OF p(4)] ..
    show ?thesis
    proof (cases "NEWLINE \<in> set (strip_newline s)")
      case True
      then have g': "g = chunks_text pre @ up_to_newline (strip_newline s)" unfolding g by (rule up_to_newline_append)
      obtain v where v: "s = up_to_newline (strip_newline s) @ v" "v \<noteq> []" using strip_newline_shorter[OF p(4)] by blast
      have vl: "0 < str_len v" using v(2) str_len_0[of v] by (simp del: str_len_0)
      have a: "?a = g @ v" using p(5) v(1) g' by simp
      let ?it2 = "?it1\<lparr>ch_offset := str_len g\<rparr>"
      have near: "prev_line_near ?it1 = Some (?it2, offset_is_valid ?it2)" using p(6) True g' by (simp add: Let_def)
      have len: "ch_end it = str_len g + (str_len v + str_len b)" using r(6) arg_cong[OF a, of str_len] by simp
      have valid: "offset_is_valid ?it2 \<longleftrightarrow> str_len a0 \<le> str_len g"
        using r(3) len assms(2) vl by (auto simp: offset_is_valid_def simp del: str_len_0)
      have gne: "g \<noteq> []" unfolding g' using True by (cases rule: last_line[of "strip_newline s"]) (auto simp: up_to_newline_simps)
      show ?thesis
      proof (cases "str_len a0 \<le> str_len g")
        case in_range: True
        have "stands Right r (str_len g) c"
          using c(2) p(1,2) by (rule standsI) (use g' arg_cong[OF v(1), of str_len] vl in \<open>simp add: fits_def\<close>)
        then have "fwd_rest r ?it2 g (v @ b) t"
          using r(1-4) arg_cong[OF a, of "\<lambda>x. x @ b @ t"] len in_range assms(2) by (auto simp: fwd_rest_def)
        then show ?thesis using prev_line_steps[OF r(3) c(1) near] valid in_range gne assms(2) by (auto simp: goes_to_def)
      next
        case out: False
        have "str_len ?h \<le> str_len (chunks_text pre)" by (rule up_to_newline_split[of "chunks_text pre"]) (metis str_len_simps(3) le_add1)
        then have "\<not> str_len a0 \<le> str_len ?h" using out g' by simp
        moreover have "a0 \<noteq> []" using out by auto
        ultimately show ?thesis using far[of "str_len g"] prev_line_steps[OF r(3) c(1) near] valid out by simp
      qed
    next
      case False
      then have "g = ?h" unfolding g by (rule up_to_newline_simps(2))
      moreover have "chunks_prev_line it = ?k (ch_offset it) ?it1"
        using prev_line_steps[OF r(3) c(1), of ?it1 False] p(6) False by simp
      moreover have "?it1\<lparr>ch_offset := ch_offset it\<rparr> = ?it1" by simp
      ultimately show ?thesis using far[of "ch_offset it"] pos \<open>?a \<noteq> []\<close> by auto
    qed
  qed
qed

section \<open>Claims\<close>

text \<open>C39: moving an iterator by lines. \<open>next_line\<close> leaves it behind the next newline of the range and
  says so, or at the end of the range. \<open>prev_line\<close>, from an offset with \<open>a0 @ a1\<close> before it in
  the rope and \<open>a1\<close> in the range, goes behind the last newline before the offset, one right before
  it left aside, when that is in the range, and else to the start of the range; it reports a line
  found, and also the start of the range when that is the start of the rope and it moved.\<close>

theorem line_moves_correct:
  assumes "fwd_rest r it (a0 @ a1) b t" "ch_start it = str_len a0"
  shows "(\<exists>it'. chunks_next_line it = Some (NEWLINE \<in> set b, it') \<and>
      (if NEWLINE \<in> set b then fwd_rest r it' (a0 @ a1 @ head_line b @ [NEWLINE]) (behind_line b) t
       else fwd_rest r it' (a0 @ a1 @ b) [] t)) \<and>
    (\<exists>it' w. chunks_prev_line it = Some
        (if str_len a0 \<le> str_len (prev_line_start (a0 @ a1)) \<and> prev_line_start (a0 @ a1) \<noteq> [] then True else a0 = [] \<and> a1 \<noteq> [], it') \<and>
      fwd_rest r it' (if str_len a0 \<le> str_len (prev_line_start (a0 @ a1)) then prev_line_start (a0 @ a1) else a0) w t)"
  using next_line_rest[OF assms(1)] prev_line_rest[OF assms] unfolding line_moved_def goes_to_def
  by (intro conjI) (auto split: if_splits)


theorem line_moves_correct_witness:
  "\<exists>it it'. chunks_iter_new sample_rope (0, 6) False = Some it \<and> chunks_next_line it = Some (True, it') \<and> ch_offset it' = 3"
proof -
  have "height sample_rope < STACK_CAP" "rope_text sample_rope = [] @ [104, 105, 10, 0xE9, 33] @ []"
    using sample_rope_ok(2,3) by (simp_all add: STACK_CAP_def)
  from chunks_iter_new_fwd[OF sample_rope_ok(1) this] obtain it where
    it: "chunks_iter_new sample_rope (0, 6) False = Some it" "fwd_rest sample_rope it ([] @ []) [104, 105, 10, 0xE9, 33] []" "ch_start it = str_len []"
    by (auto simp: len_utf8_def)
  then show ?thesis using line_moves_correct[OF it(2,3)] by (auto simp: fwd_rest_def len_utf8_def)
qed

end
