(* ===== verification/RopeBytes.thy ===== *)
theory RopeBytes
  imports RopeChunksProps
begin

text \<open>
  The bytes of a range, as an iterator over slices of the chunks and as a reader that fills a buffer.
  The offsets of the range need not be character boundaries.
\<close>

partial_function (option) bytes_collect :: "bytes_iter \<Rightarrow> nat list list option" where
  "bytes_collect it =
     (case bytes_next it of
        None \<Rightarrow> None
      | Some (None, _) \<Rightarrow> Some []
      | Some (Some b, it) \<Rightarrow> do { bs \<leftarrow> bytes_collect it; Some (b # bs) })"

text \<open>A caller of \<open>read\<close> stops when it returns 0.\<close>

partial_function (option) reads_collect :: "nat \<Rightarrow> bytes_iter \<Rightarrow> nat list list option" where
  "reads_collect n it =
     (case bytes_read it n of
        None \<Rightarrow> None
      | Some (b, it) \<Rightarrow> if b = [] then Some [] else do { bs \<leftarrow> reads_collect n it; Some (b # bs) })"

section \<open>Parts of the bytes\<close>

definition part :: "nat \<Rightarrow> nat \<Rightarrow> 'a list \<Rightarrow> 'a list" where
  "part i j xs = take (j - i) (drop i xs)"

lemma length_part: "j \<le> length xs \<Longrightarrow> length (part i j xs) = j - i"
  by (simp add: part_def)

lemma part_empty [simp]: "j \<le> i \<Longrightarrow> part i j xs = []"
  by (simp add: part_def)

lemma part_split: "i \<le> m \<Longrightarrow> m \<le> j \<Longrightarrow> part i j xs = part i m xs @ part m j xs"
proof -
  assume "i \<le> m" "m \<le> j"
  then have "j - i = (m - i) + (j - m)" "drop m xs = drop (m - i) (drop i xs)" by simp_all
  then show ?thesis by (simp only: part_def take_add)
qed

lemma part_inner:
  assumes "length ps \<le> i" "j \<le> length ps + length ks"
  shows "part i j (ps @ ks @ rs) = part (i - length ps) (j - length ps) ks"
proof -
  have "j - i \<le> length ks - (i - length ps)" using assms by linarith
  then show ?thesis using assms by (simp add: part_def)
qed

lemma as_bytes_append [simp]: "as_bytes (s @ u) = as_bytes s @ as_bytes u"
  by (simp add: as_bytes_def)

text \<open>The bytes of a chunk between two offsets of the rope.\<close>

lemma chunk_part:
  assumes "rope_ok r" "p @ k # ks = tree_items r" "str_len (chunks_text p) \<le> i" "j \<le> str_len (chunks_text p) + str_len (ck_text k)"
  shows "part i j (as_bytes (rope_text r)) = part (i - str_len (chunks_text p)) (j - str_len (chunks_text p)) (as_bytes (ck_text k))"
proof -
  have "as_bytes (rope_text r) = as_bytes (chunks_text p) @ as_bytes (ck_text k) @ as_bytes (chunks_text ks)"
    using assms(2)[symmetric] by (simp add: rope_text_def)
  then show ?thesis using part_inner[of "as_bytes (chunks_text p)" i j "as_bytes (ck_text k)" "as_bytes (chunks_text ks)"] assms(3,4)
    by simp
qed

section \<open>Forward\<close>

text \<open>The bytes \<open>w\<close> are left, from the chunks \<open>q\<close>; \<open>fresh\<close> tells that the start of the range has kept
  up with the cursor.\<close>

definition fwd_bytes :: "rope \<Rightarrow> bytes_iter \<Rightarrow> bool \<Rightarrow> chunk list \<Rightarrow> nat list \<Rightarrow> bool" where
  "fwd_bytes r it fresh q w \<longleftrightarrow> rope_ok r \<and> \<not> by_reversed it \<and> c_tree (by_chunks it) = r \<and>
     by_start it \<le> by_end it \<and> by_end it \<le> str_len (rope_text r) \<and>
     (\<exists>p. cursor_at bytes_dim chunk_sum (by_chunks it) p q \<and> p @ q = tree_items r \<and>
        w = part (max (by_start it) (str_len (chunks_text p))) (by_end it) (as_bytes (rope_text r)) \<and>
        (\<forall>k \<in> set (take 1 q). by_start it < str_len (chunks_text p) + str_len (ck_text k)) \<and>
        (fresh \<longrightarrow> str_len (chunks_text p) \<le> by_start it \<or> w = []))"

lemma fwd_bytes_peek:
  assumes "fwd_bytes r it fresh q w"
  shows "(bytes_peek it = Some None \<and> w = []) \<or>
    (\<exists>k ks b w' c p. q = k # ks \<and> bytes_peek it = Some (Some b) \<and> w = b @ w' \<and> cursor_next bytes_dim (by_chunks it) = Some c \<and>
      cursor_at bytes_dim chunk_sum (by_chunks it) p q \<and> p @ q = tree_items r \<and>
      by_start it < str_len (chunks_text p) + str_len (ck_text k) \<and> (fresh \<longrightarrow> str_len (chunks_text p) \<le> by_start it \<or> w = []) \<and>
      b = part (max (by_start it) (str_len (chunks_text p))) (min (str_len (chunks_text (p @ [k]))) (by_end it)) (as_bytes (rope_text r)) \<and>
      w' = part (str_len (chunks_text (p @ [k]))) (by_end it) (as_bytes (rope_text r)) \<and>
      c_tree c = r \<and> cursor_at bytes_dim chunk_sum c (p @ [k]) ks)"
proof -
  let ?B = "as_bytes (rope_text r)"
  have r: "rope_ok r" "\<not> by_reversed it" "c_tree (by_chunks it) = r" "by_start it \<le> by_end it" "by_end it \<le> str_len (rope_text r)"
    using assms by (simp_all add: fwd_bytes_def)
  obtain p where p: "cursor_at bytes_dim chunk_sum (by_chunks it) p q" "p @ q = tree_items r"
    "w = part (max (by_start it) (str_len (chunks_text p))) (by_end it) ?B"
    "\<forall>k \<in> set (take 1 q). by_start it < str_len (chunks_text p) + str_len (ck_text k)"
    "fresh \<longrightarrow> str_len (chunks_text p) \<le> by_start it \<or> w = []"
    using assms unfolding fwd_bytes_def by blast
  have ok: "chunks_ok (p @ q)" using rope_okD(2)[OF r(1)] p(2) by simp
  note cur = bytes_cursor[OF p(1) ok]
  show ?thesis
  proof (cases q)
    case Nil
    then have "rope_text r = chunks_text p" using p(2)[symmetric] by (simp add: rope_text_def)
    then have "w = []" using p(3) r(5) by simp
    then show ?thesis using cur(2) Nil by (simp add: bytes_peek_def)
  next
    case (Cons k ks)
    let ?m = "max (by_start it) (str_len (chunks_text p))" let ?e = "str_len (chunks_text (p @ [k]))"
    show ?thesis
    proof (cases "by_end it \<le> str_len (chunks_text p)")
      case True
      then show ?thesis using cur p(3) Cons r(2) by (simp add: bytes_peek_def)
    next
      case False
      have lt: "by_start it < ?e" using p(4) Cons by simp
      let ?b = "part ?m (min ?e (by_end it)) ?B"
      have "?b = part (by_start it - str_len (chunks_text p)) (min (str_len (ck_text k)) (by_end it - str_len (chunks_text p))) (as_bytes (ck_text k))"
        using chunk_part[OF r(1) p(2)[unfolded Cons], of ?m "min ?e (by_end it)"] False by (simp add: min_def max_def)
      moreover have "by_start it - str_len (chunks_text p) \<le> min (str_len (ck_text k)) (by_end it - str_len (chunks_text p))"
        using lt r(4) by (auto simp: diff_le_mono)
      ultimately have peek: "bytes_peek it = Some (Some ?b)"
        using cur Cons r(2) False by (simp add: bytes_peek_def csub_def assert_opt_def part_def Let_def)
      have w: "w = ?b @ part ?e (by_end it) ?B"
      proof (cases "?e \<le> by_end it")
        case True
        then show ?thesis using p(3) part_split[of ?m ?e "by_end it" ?B] lt by (simp add: min_def)
      next
        case False
        then show ?thesis using p(3) by (simp add: min_def)
      qed
      obtain c where "cursor_next bytes_dim (by_chunks it) = Some c" "c_tree c = r" "cursor_at bytes_dim chunk_sum c (p @ [k]) ks"
        using bytes_seek.cursor_next_at_ok[OF p(1) ok] r(3) Cons by auto
      then show ?thesis using peek w Cons p(1,2,5) lt by auto
    qed
  qed
qed

lemma fwd_bytes_next:
  assumes "fwd_bytes r it fresh q w"
  shows "(bytes_next it = Some (None, it) \<and> w = []) \<or>
    (\<exists>k ks b w' it'. q = k # ks \<and> bytes_next it = Some (Some b, it') \<and> w = b @ w' \<and> fwd_bytes r it' False ks w')"
  using fwd_bytes_peek[OF assms]
proof (elim disjE exE conjE)
  assume "bytes_peek it = Some None" "w = []"
  then show ?thesis by (simp add: bytes_next_def)
next
  fix k ks b w' c p
  assume *: "q = k # ks" "bytes_peek it = Some (Some b)" "w = b @ w'" "cursor_next bytes_dim (by_chunks it) = Some c"
    "p @ q = tree_items r" "by_start it < str_len (chunks_text p) + str_len (ck_text k)"
    "w' = part (str_len (chunks_text (p @ [k]))) (by_end it) (as_bytes (rope_text r))"
    "c_tree c = r" "cursor_at bytes_dim chunk_sum c (p @ [k]) ks"
  have r: "rope_ok r" "\<not> by_reversed it" "by_start it \<le> by_end it" "by_end it \<le> str_len (rope_text r)"
    using assms by (simp_all add: fwd_bytes_def)
  let ?it = "it\<lparr>by_chunks := c\<rparr>"
  have "bytes_next it = Some (Some b, ?it)" using *(2,4) r(2) by (simp add: bytes_next_def bytes_move_def)
  moreover have "fwd_bytes r ?it False ks w'"
    unfolding fwd_bytes_def using r * by (intro conjI exI[of _ "p @ [k]"]) (auto simp: max_def)
  ultimately show ?thesis using *(1,3) by blast
qed

lemma fwd_bytes_collect:
  "fwd_bytes r it fresh q w \<Longrightarrow> \<exists>bs. bytes_collect it = Some bs \<and> concat bs = w"
proof (induction q arbitrary: it fresh w)
  case Nil
  then show ?case using fwd_bytes_next[OF Nil] by (intro exI[of _ "[]"]) (subst bytes_collect.simps, auto)
next
  case (Cons k ks)
  from fwd_bytes_next[OF Cons.prems] show ?case
  proof (elim disjE exE conjE)
    assume "bytes_next it = Some (None, it)" "w = []"
    then show ?thesis by (intro exI[of _ "[]"]) (subst bytes_collect.simps, simp)
  next
    fix k' ks' b w' it' assume *: "k # ks = k' # ks'" "bytes_next it = Some (Some b, it')" "w = b @ w'" "fwd_bytes r it' False ks' w'"
    obtain bs where "bytes_collect it' = Some bs" "concat bs = w'" using Cons.IH *(1,4) by blast
    then show ?thesis using *(2,3) by (intro exI[of _ "b # bs"]) (subst bytes_collect.simps, simp)
  qed
qed

text \<open>A read takes what it can from the current slice.\<close>

lemma fwd_bytes_read:
  assumes "fwd_bytes r it True q w"
  shows "\<exists>b w' it' q'. bytes_read it n = Some (b, it') \<and> w = b @ w' \<and> length b \<le> n \<and> (0 < n \<and> w \<noteq> [] \<longrightarrow> b \<noteq> []) \<and>
    (b \<noteq> [] \<longrightarrow> fwd_bytes r it' True q' w')"
  using fwd_bytes_peek[OF assms]
proof (elim disjE exE conjE)
  assume "bytes_peek it = Some None" "w = []"
  then show ?thesis by (simp add: bytes_read_def)
next
  fix k ks b w' c p
  assume *: "q = k # ks" "bytes_peek it = Some (Some b)" "w = b @ w'" "cursor_next bytes_dim (by_chunks it) = Some c"
    "cursor_at bytes_dim chunk_sum (by_chunks it) p q" "p @ q = tree_items r"
    "by_start it < str_len (chunks_text p) + str_len (ck_text k)"
    "True \<longrightarrow> str_len (chunks_text p) \<le> by_start it \<or> w = []"
    "b = part (max (by_start it) (str_len (chunks_text p))) (min (str_len (chunks_text (p @ [k]))) (by_end it)) (as_bytes (rope_text r))"
    "w' = part (str_len (chunks_text (p @ [k]))) (by_end it) (as_bytes (rope_text r))"
    "c_tree c = r" "cursor_at bytes_dim chunk_sum c (p @ [k]) ks"
  let ?B = "as_bytes (rope_text r)" let ?s = "by_start it" let ?e = "str_len (chunks_text (p @ [k]))"
  have r: "rope_ok r" "\<not> by_reversed it" "c_tree (by_chunks it) = r" "?s \<le> by_end it" "by_end it \<le> str_len (rope_text r)"
    using assms by (simp_all add: fwd_bytes_def)
  show ?thesis
  proof (cases "w = []")
    case True
    then show ?thesis using *(2,3,4) r(2) by (simp add: bytes_read_def bytes_move_def)
  next
    case False
    then have start: "str_len (chunks_text p) \<le> ?s" using *(8) by simp
    then have m: "max ?s (str_len (chunks_text p)) = ?s" by simp
    have b: "b = part ?s (min ?e (by_end it)) ?B" using *(9) m by simp
    have "min ?e (by_end it) \<le> length ?B" using r(5) by simp
    then have len: "length b = min ?e (by_end it) - ?s" unfolding b by (rule length_part)
    show ?thesis
    proof (cases "n < length b")
      case True
      let ?it = "it\<lparr>by_start := ?s + n\<rparr>" let ?w = "part (?s + n) (min ?e (by_end it)) ?B @ w'"
      have n: "?s + n < min ?e (by_end it)" using True len by linarith
      have m': "max (?s + n) (str_len (chunks_text p)) = ?s + n" using start by simp
      have split: "b = part ?s (?s + n) ?B @ part (?s + n) (min ?e (by_end it)) ?B"
        unfolding b by (rule part_split) (use n in simp_all)
      have b1: "take n b = part ?s (?s + n) ?B" unfolding b part_def using n by (simp add: min_def)
      have w: "part (?s + n) (by_end it) ?B = ?w"
      proof (cases "?e \<le> by_end it")
        case True
        then show ?thesis using part_split[of "?s + n" ?e "by_end it" ?B] n *(10) by (simp add: min_def)
      qed (use *(10) in \<open>simp add: min_def\<close>)
      have "bytes_read it n = Some (take n b, ?it)" using *(2) r(2) True by (simp add: bytes_read_def)
      moreover have "fwd_bytes r ?it True q ?w"
        unfolding fwd_bytes_def w[symmetric] using r *(1,5,6) start n m' by (intro conjI exI[of _ p]) auto
      moreover have "w = take n b @ ?w" using *(3) split b1 by simp
      moreover have "length (take n b) \<le> n" by simp
      moreover have "0 < n \<longrightarrow> take n b \<noteq> []" using True by auto
      ultimately show ?thesis by blast
    next
      case False
      then have min: "min n (length b) = length b" by simp
      let ?it = "it\<lparr>by_start := ?s + length b, by_chunks := c\<rparr>"
      have "bytes_read it n = Some (b, ?it)" using *(2,4) r(2) min by (simp add: bytes_read_def bytes_move_def)
      moreover have "b \<noteq> []"
        using len *(3,7,10) r(4) \<open>w \<noteq> []\<close> by (cases "?e \<le> by_end it") auto
      moreover have "fwd_bytes r ?it True ks w'"
      proof (cases "?e \<le> by_end it")
        case True
        then have "?s + length b = ?e" using len *(7) by simp
        moreover have "\<forall>k' \<in> set (take 1 ks). 0 < str_len (ck_text k')"
          using items_nonempty[OF r(1), of "p @ [k]"] *(1,6) by (cases ks) (auto simp del: str_len_0)
        ultimately show ?thesis unfolding fwd_bytes_def using r *(1,6,10-12) True by (intro conjI exI[of _ "p @ [k]"]) (auto simp: max_def)
      next
        case False
        then have "?s + length b = by_end it" "w' = []" using len r(4) *(10) by simp_all
        then show ?thesis unfolding fwd_bytes_def using r *(1,6,11,12) False by (intro conjI exI[of _ "p @ [k]"]) (auto simp: max_def)
      qed
      moreover have "length b \<le> n" using False by simp
      ultimately show ?thesis using *(3) by blast
    qed
  qed
qed

lemma fwd_bytes_reads:
  "fwd_bytes r it True q w \<Longrightarrow> 0 < n \<Longrightarrow> \<exists>bs. reads_collect n it = Some bs \<and> concat bs = w \<and> (\<forall>b \<in> set bs. length b \<le> n)"
proof (induction "length w" arbitrary: it q w rule: less_induct)
  case less
  obtain b w' it' q' where b: "bytes_read it n = Some (b, it')" "w = b @ w'" "length b \<le> n" "w \<noteq> [] \<longrightarrow> b \<noteq> []"
    "b \<noteq> [] \<longrightarrow> fwd_bytes r it' True q' w'" using fwd_bytes_read[OF less.prems(1), of n] less.prems(2) by blast
  show ?case
  proof (cases "b = []")
    case True
    then have "reads_collect n it = Some []" using b(1) by (subst reads_collect.simps) simp
    then show ?thesis using b(4) True by auto
  next
    case False
    then have "length w' < length w" using b(2) by simp
    from less.hyps[OF this _ less.prems(2)] obtain bs where "reads_collect n it' = Some bs" "concat bs = w'" "\<forall>b \<in> set bs. length b \<le> n"
      using b(5) False by blast
    then show ?thesis using b(1-3) False by (intro exI[of _ "b # bs"]) (subst reads_collect.simps, simp)
  qed
qed

section \<open>Reversed\<close>

text \<open>A reversed iterator stands at a chunk, or before the first one.\<close>

definition bwd_bytes :: "rope \<Rightarrow> bytes_iter \<Rightarrow> bool \<Rightarrow> nat \<Rightarrow> nat list \<Rightarrow> bool" where
  "bwd_bytes r it fresh n w \<longleftrightarrow> rope_ok r \<and> by_reversed it \<and> by_start it \<le> by_end it \<and>
     (cursor_item (by_chunks it) = Some None \<and> n = 0 \<and> w = [] \<or>
      (\<exists>p k ks. cursor_at bytes_dim chunk_sum (by_chunks it) p (k # ks) \<and> p @ k # ks = tree_items r \<and> n = Suc (length p) \<and>
        (p = [] \<or> str_len (chunks_text p) < by_end it \<or> w = []) \<and>
        w = part (by_start it) (min (by_end it) (str_len (chunks_text (p @ [k])))) (as_bytes (rope_text r)) \<and>
        (fresh \<longrightarrow> by_end it \<le> str_len (chunks_text (p @ [k])) \<or> w = [])))"

lemma bwd_bytesI:
  assumes "rope_ok r" "by_reversed it" "by_start it \<le> by_end it"
    "cursor_at bytes_dim chunk_sum (by_chunks it) p (k # ks)" "p @ k # ks = tree_items r" "n = Suc (length p)"
    "p = [] \<or> str_len (chunks_text p) < by_end it \<or> w = []"
    "w = part (by_start it) (min (by_end it) (str_len (chunks_text (p @ [k])))) (as_bytes (rope_text r))"
    "fresh \<longrightarrow> by_end it \<le> str_len (chunks_text (p @ [k])) \<or> w = []"
  shows "bwd_bytes r it fresh n w"
  unfolding bwd_bytes_def using assms by blast

lemma bwd_bytes_peek:
  assumes "bwd_bytes r it fresh n w"
  shows "(bytes_peek it = Some None \<and> w = []) \<or>
    (\<exists>p k ks b w' c m. n = Suc m \<and> bytes_peek it = Some (Some b) \<and> w = w' @ b \<and> cursor_prev bytes_dim (by_chunks it) = Some c \<and>
      cursor_at bytes_dim chunk_sum (by_chunks it) p (k # ks) \<and> p @ k # ks = tree_items r \<and> m = length p \<and>
      by_start it < str_len (chunks_text (p @ [k])) \<and> str_len (chunks_text p) < by_end it \<and>
      (fresh \<longrightarrow> by_end it \<le> str_len (chunks_text (p @ [k])) \<or> w = []) \<and>
      b = part (max (by_start it) (str_len (chunks_text p))) (min (by_end it) (str_len (chunks_text (p @ [k])))) (as_bytes (rope_text r)) \<and>
      w' = part (by_start it) (str_len (chunks_text p)) (as_bytes (rope_text r)) \<and>
      (\<forall>e e'. by_start it \<le> e' \<and> part (by_start it) (min e' (str_len (chunks_text p))) (as_bytes (rope_text r)) = w' \<and>
         (e \<longrightarrow> e' \<le> str_len (chunks_text p) \<or> w' = []) \<and> (str_len (chunks_text (butlast p)) < e' \<or> w' = []) \<longrightarrow>
         bwd_bytes r (it\<lparr>by_chunks := c, by_end := e'\<rparr>) e m w'))"
proof -
  let ?B = "as_bytes (rope_text r)" let ?s = "by_start it"
  have r: "rope_ok r" "by_reversed it" "?s \<le> by_end it" using assms by (simp_all add: bwd_bytes_def)
  from assms consider (none) "cursor_item (by_chunks it) = Some None" "w = []"
    | (chunk) p k ks where "cursor_at bytes_dim chunk_sum (by_chunks it) p (k # ks)" "p @ k # ks = tree_items r" "n = Suc (length p)"
      "p = [] \<or> str_len (chunks_text p) < by_end it \<or> w = []" "w = part ?s (min (by_end it) (str_len (chunks_text (p @ [k])))) ?B"
      "fresh \<longrightarrow> by_end it \<le> str_len (chunks_text (p @ [k])) \<or> w = []"
    unfolding bwd_bytes_def by blast
  then show ?thesis
  proof cases
    case none
    then show ?thesis by (simp add: bytes_peek_def)
  next
    case chunk
    let ?p = "str_len (chunks_text p)" let ?e = "str_len (chunks_text (p @ [k]))" let ?j = "min (by_end it) ?e" let ?m = "max ?s ?p"
    have ok: "chunks_ok (p @ k # ks)" using rope_okD(2)[OF r(1)] chunk(2) by simp
    note cur = bytes_cursor[OF chunk(1) ok]
    show ?thesis
    proof (cases "?e \<le> ?s \<or> by_end it \<le> ?p")
      case True
      then have "w = []" using chunk(4,5) by auto
      moreover have "bytes_peek it = Some None" using True cur r(2) by (auto simp: bytes_peek_def Let_def)
      ultimately show ?thesis by blast
    next
      case False
      then have lt: "?s < ?e" "?p < by_end it" by simp_all
      let ?b = "part ?m ?j ?B" let ?w = "part ?s ?p ?B"
      have ends: "?m - ?p = ?s - ?p" "?j - ?p = min (str_len (ck_text k)) (by_end it - ?p)" using lt(2) by auto
      have "?b = part (?s - ?p) (min (str_len (ck_text k)) (by_end it - ?p)) (as_bytes (ck_text k))"
        using chunk_part[OF r(1) chunk(2), of ?m ?j] unfolding ends by simp
      moreover have "?s - ?p \<le> min (str_len (ck_text k)) (by_end it - ?p)" using lt r(3) by (auto simp: diff_le_mono)
      ultimately have peek: "bytes_peek it = Some (Some ?b)"
        using cur lt by (simp add: bytes_peek_def csub_def assert_opt_def part_def Let_def)
      have w: "w = ?w @ ?b"
      proof (cases "?s \<le> ?p")
        case True
        then show ?thesis using chunk(5) part_split[of ?s ?p ?j ?B] lt(2) by (simp add: max_def)
      qed (use chunk(5) in \<open>simp add: max_def\<close>)
      obtain c where c: "cursor_prev bytes_dim (by_chunks it) = Some c" "c_did_seek c"
        "if p = [] then cursor_start bytes_dim chunk_sum c else cursor_at bytes_dim chunk_sum c (butlast p) (last p # k # ks)"
        using bytes_seek.cursor_prev_at_ok[OF chunk(1) ok] by blast
      have moved: "bwd_bytes r (it\<lparr>by_chunks := c, by_end := e'\<rparr>) e (length p) ?w"
        if e: "?s \<le> e'" "part ?s (min e' ?p) ?B = ?w" "e \<longrightarrow> e' \<le> ?p \<or> ?w = []" "str_len (chunks_text (butlast p)) < e' \<or> ?w = []" for e e'
      proof (cases p rule: rev_cases)
        case Nil
        then have "cursor_item c = Some None" using c(2,3) by (simp add: cursor_start_def cursor_item_def assert_opt_def)
        then show ?thesis using r e(1) Nil by (simp add: bwd_bytes_def)
      next
        case (snoc ps k')
        then have "cursor_at bytes_dim chunk_sum c ps (k' # k # ks)" "ps @ k' # k # ks = tree_items r" using c(3) chunk(2) by simp_all
        then show ?thesis using r e snoc by (intro bwd_bytesI[of _ _ ps k' "k # ks"]) auto
      qed
      show ?thesis
        using peek w c(1) chunk(1-3,6) lt moved
        by (intro disjI2 exI[of _ p] exI[of _ k] exI[of _ ks] exI[of _ ?b] exI[of _ ?w] exI[of _ c] exI[of _ "length p"]) simp
    qed
  qed
qed

lemma bwd_bytes_next:
  assumes "bwd_bytes r it fresh n w"
  shows "(bytes_next it = Some (None, it) \<and> w = []) \<or>
    (\<exists>m b w' it'. n = Suc m \<and> bytes_next it = Some (Some b, it') \<and> w = w' @ b \<and> bwd_bytes r it' False m w')"
  using bwd_bytes_peek[OF assms]
proof (elim disjE exE conjE)
  assume "bytes_peek it = Some None" "w = []"
  then show ?thesis by (simp add: bytes_next_def)
next
  fix p k ks b w' c m
  assume *: "n = Suc m" "bytes_peek it = Some (Some b)" "w = w' @ b" "cursor_prev bytes_dim (by_chunks it) = Some c"
    "str_len (chunks_text p) < by_end it" "w' = part (by_start it) (str_len (chunks_text p)) (as_bytes (rope_text r))"
  assume moved: "\<forall>e e'. by_start it \<le> e' \<and> part (by_start it) (min e' (str_len (chunks_text p))) (as_bytes (rope_text r)) = w' \<and>
         (e \<longrightarrow> e' \<le> str_len (chunks_text p) \<or> w' = []) \<and> (str_len (chunks_text (butlast p)) < e' \<or> w' = []) \<longrightarrow>
         bwd_bytes r (it\<lparr>by_chunks := c, by_end := e'\<rparr>) e m w'"
  have r: "by_reversed it" "by_start it \<le> by_end it" using assms by (simp_all add: bwd_bytes_def)
  have "str_len (chunks_text (butlast p)) \<le> str_len (chunks_text p)" by (cases p rule: rev_cases) simp_all
  then have "bwd_bytes r (it\<lparr>by_chunks := c, by_end := by_end it\<rparr>) False m w'"
    using r(2) *(5,6) by (intro moved[rule_format]) simp
  moreover have "bytes_next it = Some (Some b, it\<lparr>by_chunks := c, by_end := by_end it\<rparr>)"
    using *(2,4) r(1) by (simp add: bytes_next_def bytes_move_def)
  ultimately show ?thesis using *(1,3) by blast
qed

lemma bwd_bytes_collect:
  "bwd_bytes r it fresh n w \<Longrightarrow> \<exists>bs. bytes_collect it = Some bs \<and> concat (rev bs) = w"
proof (induction n arbitrary: it fresh w)
  case 0
  then have "bytes_next it = Some (None, it) \<and> w = []" using bwd_bytes_next[OF 0] by simp
  then show ?case by (intro exI[of _ "[]"]) (subst bytes_collect.simps, simp)
next
  case (Suc n)
  from bwd_bytes_next[OF Suc.prems] show ?case
  proof (elim disjE exE conjE)
    assume "bytes_next it = Some (None, it)" "w = []"
    then show ?thesis by (intro exI[of _ "[]"]) (subst bytes_collect.simps, simp)
  next
    fix m b w' it' assume *: "Suc n = Suc m" "bytes_next it = Some (Some b, it')" "w = w' @ b" "bwd_bytes r it' False m w'"
    then obtain bs where "bytes_collect it' = Some bs" "concat (rev bs) = w'" using Suc.IH by blast
    then show ?thesis using *(2,3) by (intro exI[of _ "b # bs"]) (subst bytes_collect.simps, simp)
  qed
qed

text \<open>A read of a reversed iterator returns bytes from the back, the last one first.\<close>

lemma bwd_bytes_read:
  assumes "bwd_bytes r it True m w" "by_end it \<le> str_len (rope_text r)"
  shows "\<exists>b w' it' m'. bytes_read it n = Some (b, it') \<and> w = w' @ rev b \<and> length b \<le> n \<and> (0 < n \<and> w \<noteq> [] \<longrightarrow> b \<noteq> []) \<and>
    (b \<noteq> [] \<longrightarrow> bwd_bytes r it' True m' w' \<and> by_end it' \<le> str_len (rope_text r))"
  using bwd_bytes_peek[OF assms(1)]
proof (elim disjE exE conjE)
  assume "bytes_peek it = Some None" "w = []"
  then show ?thesis by (simp add: bytes_read_def)
next
  let ?B = "as_bytes (rope_text r)" let ?s = "by_start it"
  fix p k ks b w' c i
  assume *: "m = Suc i" "bytes_peek it = Some (Some b)" "w = w' @ b" "cursor_prev bytes_dim (by_chunks it) = Some c"
    "cursor_at bytes_dim chunk_sum (by_chunks it) p (k # ks)" "p @ k # ks = tree_items r" "i = length p"
    "?s < str_len (chunks_text (p @ [k]))" "str_len (chunks_text p) < by_end it"
    "True \<longrightarrow> by_end it \<le> str_len (chunks_text (p @ [k])) \<or> w = []"
    "b = part (max ?s (str_len (chunks_text p))) (min (by_end it) (str_len (chunks_text (p @ [k])))) ?B"
    "w' = part ?s (str_len (chunks_text p)) ?B"
  assume moved: "\<forall>e e'. ?s \<le> e' \<and> part ?s (min e' (str_len (chunks_text p))) ?B = w' \<and>
         (e \<longrightarrow> e' \<le> str_len (chunks_text p) \<or> w' = []) \<and> (str_len (chunks_text (butlast p)) < e' \<or> w' = []) \<longrightarrow>
         bwd_bytes r (it\<lparr>by_chunks := c, by_end := e'\<rparr>) e i w'"
  have r: "rope_ok r" "by_reversed it" "?s \<le> by_end it" using assms(1) by (simp_all add: bwd_bytes_def)
  show ?thesis
  proof (cases "w = []")
    case True
    then have "b = []" using *(3) by simp
    then have "bytes_read it n = Some ([], it\<lparr>by_chunks := c\<rparr>)" using *(2,4) r(2) by (simp add: bytes_read_def bytes_move_def csub_def)
    then show ?thesis using True by simp
  next
    case False
    let ?m = "max ?s (str_len (chunks_text p))"
    have last: "by_end it \<le> str_len (chunks_text (p @ [k]))" using *(10) False by simp
    then have b: "b = part ?m (by_end it) ?B" using *(11) by (simp add: min_def)
    have len: "length b = by_end it - ?m" unfolding b by (rule length_part) (use assms(2) in simp)
    show ?thesis
    proof (cases "n < length b")
      case True
      let ?j = "by_end it - n" let ?it = "it\<lparr>by_end := ?j\<rparr>" let ?b = "drop (length b - n) b"
      have j: "?m < ?j" "?j \<le> by_end it" "length b - n = ?j - ?m" using True len by linarith+
      have split: "b = part ?m ?j ?B @ part ?j (by_end it) ?B" unfolding b by (rule part_split) (use j(1,2) in simp_all)
      have "length (part ?m ?j ?B) = ?j - ?m" by (rule length_part) (use assms(2) in simp)
      then have b2: "?b = part ?j (by_end it) ?B" unfolding j(3) by (subst split) simp
      have w: "w' @ part ?m ?j ?B = part ?s ?j ?B"
      proof (cases "?s \<le> str_len (chunks_text p)")
        case True
        then show ?thesis using part_split[of ?s "str_len (chunks_text p)" ?j ?B] j(1) *(12) by (simp add: max_def)
      qed (use *(12) in \<open>simp add: max_def\<close>)
      have "bytes_read it n = Some (rev ?b, ?it)" using *(2) r(2) True len by (simp add: bytes_read_def csub_def)
      moreover have "w = part ?s ?j ?B @ rev (rev ?b)" using *(3) split b2 w by (metis append_assoc rev_rev_ident)
      moreover have "bwd_bytes r ?it True m (part ?s ?j ?B)"
        by (rule bwd_bytesI[of _ _ p k ks]) (use r *(1,5-7) j last in \<open>auto simp: min_def\<close>)
      moreover have "length (rev ?b) \<le> n" "0 < n \<longrightarrow> rev ?b \<noteq> []" using True by auto
      moreover have "by_end ?it \<le> str_len (rope_text r)" using assms(2) by simp
      ultimately show ?thesis by blast
    next
      case False
      then have min: "min n (length b) = length b" by simp
      have le: "length b \<le> by_end it" using len by simp
      let ?j = "by_end it - length b" let ?it = "it\<lparr>by_chunks := c, by_end := ?j\<rparr>"
      have j: "?j = ?m" using len *(9) r(3) by simp
      have "bytes_read it n = Some (rev b, ?it)"
        using *(2,4) r(2) min le by (simp add: bytes_read_def bytes_move_def csub_def Let_def)
      moreover have "b \<noteq> []" using len *(3,9,12) r(3) False \<open>w \<noteq> []\<close> by (cases "?s \<le> str_len (chunks_text p)") (auto simp: max_def)
      moreover have "bwd_bytes r ?it True i w'"
      proof (rule moved[rule_format], intro conjI impI)
        show "?s \<le> ?j" using j by simp
        show "part ?s (min ?j (str_len (chunks_text p))) ?B = w'" using j *(12) by (simp add: min_def max_def)
        show "?j \<le> str_len (chunks_text p) \<or> w' = []" using j *(12) by (auto simp: max_def)
        show "str_len (chunks_text (butlast p)) < ?j \<or> w' = []"
        proof (cases p rule: rev_cases)
          case (snoc ps k')
          then have "0 < str_len (ck_text k')" using items_nonempty[OF r(1), of ps k' "k # ks"] *(6) by simp
          then show ?thesis using j snoc by (simp add: max_def del: str_len_0)
        qed (use *(12) in simp)
      qed
      moreover have "length (rev b) \<le> n" using False by simp
      moreover have "by_end ?it \<le> str_len (rope_text r)" using assms(2) by simp
      ultimately show ?thesis using *(3) by (metis rev_rev_ident rev_is_Nil_conv)
    qed
  qed
qed

lemma bwd_bytes_reads:
  "bwd_bytes r it True m w \<Longrightarrow> by_end it \<le> str_len (rope_text r) \<Longrightarrow> 0 < n \<Longrightarrow>
   \<exists>bs. reads_collect n it = Some bs \<and> concat bs = rev w \<and> (\<forall>b \<in> set bs. length b \<le> n)"
proof (induction "length w" arbitrary: it m w rule: less_induct)
  case less
  obtain b w' it' m' where b: "bytes_read it n = Some (b, it')" "w = w' @ rev b" "length b \<le> n" "w \<noteq> [] \<longrightarrow> b \<noteq> []"
    "b \<noteq> [] \<longrightarrow> bwd_bytes r it' True m' w' \<and> by_end it' \<le> str_len (rope_text r)"
    using bwd_bytes_read[OF less.prems(1,2), of n] less.prems(3) by blast
  show ?case
  proof (cases "b = []")
    case True
    then have "reads_collect n it = Some []" using b(1) by (subst reads_collect.simps) simp
    then show ?thesis using b(4) True by auto
  next
    case False
    then have "length w' < length w" using b(2) by simp
    from less.hyps[OF this _ _ less.prems(3)] obtain bs where "reads_collect n it' = Some bs" "concat bs = rev w'" "\<forall>b \<in> set bs. length b \<le> n"
      using b(5) False by blast
    then show ?thesis using b(1-3) False by (intro exI[of _ "b # bs"]) (subst reads_collect.simps, simp)
  qed
qed

section \<open>The iterators of a rope\<close>

lemma bytes_iter_fwd:
  assumes "rope_ok r" "height r < STACK_CAP" "i \<le> j" "j \<le> str_len (rope_text r)"
  shows "\<exists>it q. bytes_iter_new r (i, j) False = Some it \<and> fwd_bytes r it True q (part i j (as_bytes (rope_text r)))"
proof -
  have tree: "c_tree (cursor_new bytes_dim r) = r" by (simp add: cursor_new_def)
  obtain x c where c: "cursor_seek bytes_dim (cmp_of i) Right (cursor_new bytes_dim r) = Some (x, c)" "stands Right r i c"
    using seek_stands[OF assms(1,2) tree] by blast
  from c(2) obtain p q where pq: "c_tree c = r" "cursor_at bytes_dim chunk_sum c p q" "p @ q = tree_items r" "fits Right i p q" by (rule standsE)
  let ?it = "\<lparr>by_chunks = c, by_start = i, by_end = j, by_reversed = False\<rparr>"
  have fit: "str_len (chunks_text p) \<le> i" "\<forall>k \<in> set (take 1 q). i < str_len (chunks_text p) + str_len (ck_text k)"
    using pq(4) by (simp add: fits_def, cases q) (simp_all add: fits_def)
  then have m: "max i (str_len (chunks_text p)) = i" by simp
  have "fwd_bytes r ?it True q (part i j (as_bytes (rope_text r)))"
    unfolding fwd_bytes_def using assms pq(1-3) fit m by (intro conjI exI[of _ p]) simp_all
  then show ?thesis using c(1) by (intro exI[of _ ?it] exI[of _ q]) (simp add: bytes_iter_new_def)
qed

lemma bytes_iter_bwd:
  assumes "rope_ok r" "height r < STACK_CAP" "i \<le> j" "j \<le> str_len (rope_text r)"
  shows "\<exists>it n. bytes_iter_new r (i, j) True = Some it \<and> bwd_bytes r it True n (part i j (as_bytes (rope_text r))) \<and> by_end it = j"
proof -
  have tree: "c_tree (cursor_new bytes_dim r) = r" by (simp add: cursor_new_def)
  obtain x c where c: "cursor_seek bytes_dim (cmp_of j) Left (cursor_new bytes_dim r) = Some (x, c)" "stands Left r j c"
    using seek_stands[OF assms(1,2) tree] by blast
  from c(2) obtain p q where pq: "c_tree c = r" "cursor_at bytes_dim chunk_sum c p q" "p @ q = tree_items r" "fits Left j p q" by (rule standsE)
  let ?it = "\<lparr>by_chunks = c, by_start = i, by_end = j, by_reversed = True\<rparr>" let ?w = "part i j (as_bytes (rope_text r))"
  have "\<exists>n. bwd_bytes r ?it True n ?w"
  proof (cases q)
    case Nil
    have ok: "chunks_ok (p @ q)" using rope_okD(2)[OF assms(1)] pq(3) by simp
    have whole: "rope_text r = chunks_text p" using pq(3)[symmetric] Nil by (simp add: rope_text_def)
    have "j \<le> str_len (chunks_text p)" using assms(4) whole by simp
    then have "p = []" using pq(4) by (auto simp: fits_def)
    then have "j = 0" using assms(4) whole by simp
    then have "bwd_bytes r ?it True 0 ?w" using assms(1,3) bytes_cursor(2)[OF pq(2) ok] Nil by (simp add: bwd_bytes_def)
    then show ?thesis by blast
  next
    case (Cons k ks)
    then have le: "j \<le> str_len (chunks_text (p @ [k]))" "p = [] \<or> str_len (chunks_text p) < j" using pq(4) by (simp_all add: fits_def)
    have "bwd_bytes r ?it True (Suc (length p)) ?w"
      by (rule bwd_bytesI[of _ _ p k ks]) (use assms pq(2,3) Cons le in \<open>auto simp: min_def\<close>)
    then show ?thesis by blast
  qed
  then obtain n where "bwd_bytes r ?it True n ?w" by blast
  then show ?thesis using c(1) by (intro exI[of _ ?it] exI[of _ n]) (simp add: bytes_iter_new_def)
qed

text \<open>C40: for any range of bytes within a rope, inside characters too: the slices of the bytes iterator
  concatenate to the bytes of the range, those of the reversed one from the back; reading into a
  buffer of \<open>n > 0\<close> bytes until nothing is read gives the bytes of the range, reversed when the
  iterator is, in pieces of at most \<open>n\<close> bytes.\<close>

theorem rope_bytes_correct:
  assumes "rope_ok r" "height r < STACK_CAP" "i \<le> j" "j \<le> str_len (rope_text r)" "0 < n"
  defines "w \<equiv> take (j - i) (drop i (as_bytes (rope_text r)))"
  shows "\<exists>it bs rs. bytes_iter_new r (i, j) reversed = Some it \<and> bytes_collect it = Some bs \<and>
    concat (if reversed then rev bs else bs) = w \<and>
    reads_collect n it = Some rs \<and> concat rs = (if reversed then rev w else w) \<and> (\<forall>b \<in> set rs. length b \<le> n)"
proof (cases reversed)
  case True
  obtain it m where it: "bytes_iter_new r (i, j) True = Some it" "bwd_bytes r it True m w" "by_end it = j"
    using bytes_iter_bwd[OF assms(1-4)] unfolding w_def part_def by blast
  then show ?thesis using bwd_bytes_collect[OF it(2)] bwd_bytes_reads[OF it(2) _ assms(5)] assms(4) True by auto
next
  case False
  obtain it q where it: "bytes_iter_new r (i, j) False = Some it" "fwd_bytes r it True q w"
    using bytes_iter_fwd[OF assms(1-4)] unfolding w_def part_def by blast
  then show ?thesis using fwd_bytes_collect[OF it(2)] fwd_bytes_reads[OF it(2) assms(5)] False by auto
qed


theorem rope_bytes_correct_witness:
  "\<exists>it rs. bytes_iter_new sample_rope (1, 4) True = Some it \<and> reads_collect 2 it = Some rs \<and> concat rs = [195, 10, 105]"
proof -
  have "as_bytes [104, 105, 10, 0xE9, 33] = [104, 105, 10, 195, 169, 33]" by (simp add: as_bytes_def utf8_def)
  then show ?thesis
    using rope_bytes_correct[OF sample_rope_ok(1), of 1 4 2 True] sample_rope_ok(2,3) by (auto simp: STACK_CAP_def len_utf8_def)
qed

end
