(* ===== verification/Fragment.thy ===== *)
theory Fragment
  imports UndoMap Locator TreeSet
begin

text \<open>
  The fragments of a buffer (\<open>crates/text/src/text.rs\<close>): the pieces of insertions, in the order of
  their locators, visible or deleted. This theory has the fragment, its summary and the dimensions
  that cursors over fragments measure, the index of fragments by insertion, the set of insertion
  slices, and the builder that collects fragments into a new tree.
\<close>

section \<open>Unsigned 32-bit lengths\<close>

text \<open>Offsets and lengths of fragments are \<open>u32\<close>: \<open>as u32\<close> truncates, and addition wraps around.\<close>

definition as_u32 :: "nat \<Rightarrow> nat" where
  "as_u32 n = n mod 2 ^ 32"

definition add_u32 :: "nat \<Rightarrow> nat \<Rightarrow> nat" where
  "add_u32 a b = (a + b) mod 2 ^ 32"

lemma u32_small [simp]:
  "n < 2 ^ 32 \<Longrightarrow> as_u32 n = n" "a + b < 2 ^ 32 \<Longrightarrow> add_u32 a b = a + b"
  by (simp_all add: as_u32_def add_u32_def)

section \<open>Fragments\<close>

record fragment =
  fr_id :: locator
  fr_timestamp :: lamport
  fr_insertion_offset :: nat
  fr_len :: nat
  fr_visible :: bool
  fr_deletions :: "lamport list"
  fr_max_undos :: global

text \<open>\<open>all\<close> stops at the first deletion that is not undone.\<close>

fun all_undone :: "(lamport \<Rightarrow> bool option) \<Rightarrow> lamport list \<Rightarrow> bool option" where
  "all_undone undone [] = Some True"
| "all_undone undone (d # ds) = do { b \<leftarrow> undone d; if b then all_undone undone ds else Some False }"

definition fragment_is_visible :: "fragment \<Rightarrow> undo_map \<Rightarrow> bool option" where
  "fragment_is_visible f undos = do {
     u \<leftarrow> um_is_undone undos (fr_timestamp f);
     if u then Some False else all_undone (um_is_undone undos) (fr_deletions f)
   }"

definition fragment_was_visible :: "fragment \<Rightarrow> global \<Rightarrow> undo_map \<Rightarrow> bool option" where
  "fragment_was_visible f version undos =
     (if global_observed version (fr_timestamp f) then do {
        u \<leftarrow> um_was_undone undos (fr_timestamp f) version;
        if u then Some False
        else all_undone (\<lambda>d. if global_observed version d then um_was_undone undos d version else Some True)
               (fr_deletions f)
      } else Some False)"

section \<open>Summaries of fragments\<close>

record frag_text =
  ft_visible :: nat
  ft_deleted :: nat

record fragment_summary =
  fs_text :: frag_text
  fs_max_id :: locator
  fs_max_version :: global
  fs_min_insertion_version :: global
  fs_max_insertion_version :: global

definition fragment_summary_zero :: fragment_summary where
  "fragment_summary_zero = \<lparr>fs_text = \<lparr>ft_visible = 0, ft_deleted = 0\<rparr>, fs_max_id = locator_min,
     fs_max_version = global_new, fs_min_insertion_version = global_new, fs_max_insertion_version = global_new\<rparr>"

definition frag_text_add :: "frag_text \<Rightarrow> frag_text \<Rightarrow> frag_text" where
  "frag_text_add a b = \<lparr>ft_visible = ft_visible a + ft_visible b, ft_deleted = ft_deleted a + ft_deleted b\<rparr>"

text \<open>\<open>assign\<close> copies the other locator; it never panics (\<open>locator_assign_eq\<close>).\<close>

definition fragment_summary_add :: "fragment_summary \<Rightarrow> fragment_summary \<Rightarrow> fragment_summary" where
  "fragment_summary_add a b =
     \<lparr>fs_text = frag_text_add (fs_text a) (fs_text b),
      fs_max_id = (case locator_assign (fs_max_id a) (fs_max_id b) of Some l \<Rightarrow> l | None \<Rightarrow> fs_max_id a),
      fs_max_version = global_join (fs_max_version a) (fs_max_version b),
      fs_min_insertion_version = global_meet (fs_min_insertion_version a) (fs_min_insertion_version b),
      fs_max_insertion_version = global_join (fs_max_insertion_version a) (fs_max_insertion_version b)\<rparr>"

definition fragment_item_summary :: "fragment \<Rightarrow> fragment_summary" where
  "fragment_item_summary f =
     (let max_version = global_join (foldl global_observe (global_observe global_new (fr_timestamp f)) (fr_deletions f))
            (fr_max_undos f);
          min_insertion_version = global_observe global_new (fr_timestamp f) in
      \<lparr>fs_text = (if fr_visible f then \<lparr>ft_visible = fr_len f, ft_deleted = 0\<rparr>
                  else \<lparr>ft_visible = 0, ft_deleted = fr_len f\<rparr>),
       fs_max_id = fr_id f, fs_max_version = max_version,
       fs_min_insertion_version = min_insertion_version, fs_max_insertion_version = min_insertion_version\<rparr>)"

definition fragment_sum :: "(fragment, fragment_summary) summary_ops" where
  "fragment_sum = \<lparr>sm_zero = fragment_summary_zero, sm_add = fragment_summary_add, sm_item = fragment_item_summary\<rparr>"

type_synonym fragment_tree = "(fragment, fragment_summary) stree"

lemma locator_assign_eq: "locator_assign a b = Some b"
  by (auto simp: locator_assign_def)

section \<open>Dimensions\<close>

definition frag_text_dim :: "(frag_text, fragment_summary) dim_ops" where
  "frag_text_dim = \<lparr>dm_zero = \<lparr>ft_visible = 0, ft_deleted = 0\<rparr>, dm_add = (\<lambda>d s. frag_text_add d (fs_text s))\<rparr>"

text \<open>\<open>usize\<close>: the visible length; \<open>Option<&Locator>\<close>: the last identifier.\<close>

definition visible_dim :: "(nat, fragment_summary) dim_ops" where
  "visible_dim = \<lparr>dm_zero = 0, dm_add = (\<lambda>d s. d + ft_visible (fs_text s))\<rparr>"

definition locator_dim :: "(locator option, fragment_summary) dim_ops" where
  "locator_dim = \<lparr>dm_zero = None, dm_add = (\<lambda>_ s. Some (fs_max_id s))\<rparr>"

definition full_offset_dim :: "(nat, fragment_summary) dim_ops" where
  "full_offset_dim = \<lparr>dm_zero = 0, dm_add = (\<lambda>d s. d + ft_visible (fs_text s) + ft_deleted (fs_text s))\<rparr>"

text \<open>A visible offset as a target among \<open>FragmentTextSummary\<close> positions.\<close>

definition visible_target :: "nat \<Rightarrow> frag_text seek_target" where
  "visible_target n d = cmp_of n (ft_visible d)"

text \<open>\<open>VersionedFullOffset\<close>: the full offset as of a version, unless fragments were concurrent to it.\<close>

datatype versioned_full_offset = Offset nat | Invalid

definition versioned_dim :: "global \<Rightarrow> (versioned_full_offset, fragment_summary) dim_ops" where
  "versioned_dim version = \<lparr>dm_zero = Offset 0, dm_add = (\<lambda>d s.
     case d of
       Invalid \<Rightarrow> Invalid
     | Offset n \<Rightarrow>
         if global_observed_all version (fs_max_insertion_version s)
         then Offset (n + ft_visible (fs_text s) + ft_deleted (fs_text s))
         else if global_observed_any version (fs_min_insertion_version s) then Invalid
         else Offset n)\<rparr>"

fun full_offset :: "versioned_full_offset \<Rightarrow> nat option" where
  "full_offset (Offset n) = Some n"
| "full_offset Invalid = None"

text \<open>The comparison is unreachable for an invalid target; targets of the program are offsets.\<close>

definition versioned_target :: "nat \<Rightarrow> versioned_full_offset seek_target" where
  "versioned_target n d = (case d of Offset b \<Rightarrow> cmp_of n b | Invalid \<Rightarrow> Less)"

section \<open>Fragments by insertion\<close>

record insertion_fragment =
  if_timestamp :: lamport
  if_split_offset :: nat
  if_fragment_id :: locator

type_synonym insertion_key = "lamport \<times> nat"

definition insertion_key :: "insertion_fragment \<Rightarrow> insertion_key" where
  "insertion_key i = (if_timestamp i, if_split_offset i)"

definition insertion_sum :: "(insertion_fragment, insertion_key) summary_ops" where
  "insertion_sum = \<lparr>sm_zero = (LAMPORT_MIN, 0), sm_add = (\<lambda>_ s. s), sm_item = insertion_key\<rparr>"

definition insertion_dim :: "(insertion_key, insertion_key) dim_ops" where
  "insertion_dim = \<lparr>dm_zero = (LAMPORT_MIN, 0), dm_add = (\<lambda>_ s. s)\<rparr>"

type_synonym insertion_tree = "(insertion_fragment, insertion_key) stree"

definition insertion_fragment_new :: "fragment \<Rightarrow> insertion_fragment" where
  "insertion_fragment_new f =
     \<lparr>if_timestamp = fr_timestamp f, if_split_offset = fr_insertion_offset f, if_fragment_id = fr_id f\<rparr>"

definition insert_new :: "fragment \<Rightarrow> (insertion_fragment, insertion_key) edit" where
  "insert_new f = Insert (insertion_fragment_new f)"

section \<open>Insertion slices\<close>

text \<open>The timestamps are inlined into the structure.\<close>

datatype insertion_slice = InsertionSlice (sl_edit_value: seq) (sl_edit_replica: replica_id)
  (sl_insertion_value: seq) (sl_insertion_replica: replica_id) (sl_start: nat) (sl_end: nat)

definition slice_edit_id :: "insertion_slice \<Rightarrow> lamport" where
  "slice_edit_id s = Lamport (sl_edit_value s) (sl_edit_replica s)"

definition slice_insertion_id :: "insertion_slice \<Rightarrow> lamport" where
  "slice_insertion_id s = Lamport (sl_insertion_value s) (sl_insertion_replica s)"

definition slice_cmp :: "insertion_slice \<Rightarrow> insertion_slice \<Rightarrow> ordering" where
  "slice_cmp a b =
     then_with (then_with (then_with (lamport_cmp (slice_edit_id a) (slice_edit_id b))
        (lamport_cmp (slice_insertion_id a) (slice_insertion_id b)))
        (cmp_of (sl_start a) (sl_start b)))
        (cmp_of (sl_end a) (sl_end b))"

definition slice_from_fragment :: "lamport \<Rightarrow> fragment \<Rightarrow> insertion_slice" where
  "slice_from_fragment edit_id f =
     InsertionSlice (lvalue edit_id) (lreplica edit_id) (lvalue (fr_timestamp f)) (lreplica (fr_timestamp f))
       (fr_insertion_offset f) (add_u32 (fr_insertion_offset f) (fr_len f))"

definition slice_key :: "insertion_slice \<Rightarrow> lamport \<times> lamport \<times> nat \<times> nat" where
  "slice_key s = (slice_edit_id s, slice_insertion_id s, sl_start s, sl_end s)"

lemma slice_key_inj: "slice_key a = slice_key b \<Longrightarrow> a = b"
  by (cases a; cases b) (simp add: slice_key_def slice_edit_id_def slice_insertion_id_def)

lemma slice_cmp_eq: "slice_cmp a b = cmp_of (slice_key a) (slice_key b)"
  by (auto simp: slice_cmp_def slice_key_def lamport_cmp_eq cmp_of_def less_prod_def split: if_splits)

instantiation insertion_slice :: linorder
begin

definition less_eq_insertion_slice :: "insertion_slice \<Rightarrow> insertion_slice \<Rightarrow> bool" where
  "less_eq_insertion_slice a b \<longleftrightarrow> slice_cmp a b \<noteq> Greater"

definition less_insertion_slice :: "insertion_slice \<Rightarrow> insertion_slice \<Rightarrow> bool" where
  "less_insertion_slice a b \<longleftrightarrow> slice_cmp a b = Less"

instance
proof
  fix a b c :: insertion_slice
  note [simp] = less_eq_insertion_slice_def less_insertion_slice_def slice_cmp_eq
  show "a < b \<longleftrightarrow> a \<le> b \<and> \<not> b \<le> a" by auto
  show "a \<le> a" by simp
  show "a \<le> b \<Longrightarrow> b \<le> c \<Longrightarrow> a \<le> c" by auto
  show "a \<le> b \<Longrightarrow> b \<le> a \<Longrightarrow> a = b" by (auto intro: slice_key_inj)
  show "a \<le> b \<or> b \<le> a" by auto
qed

end

lemma less_slice_key: "a < b \<longleftrightarrow> slice_key a < slice_key b" "a \<le> b \<longleftrightarrow> slice_key a \<le> slice_key b"
  by (simp_all add: less_eq_insertion_slice_def less_insertion_slice_def slice_cmp_eq not_less)

end
