(* ===== verification/FragmentProps.thy ===== *)
theory FragmentProps
  imports Fragment TextSummary
begin

text \<open>
  The contracts of the fragment tree: summaries add up along the fragments, every dimension
  measures them, and the index of insertions is sorted by its keys. Seeks are described by the
  visible and deleted lengths of lists of fragments.
\<close>

section \<open>Version vectors in normal form\<close>

lemma wf_global_eqI:
  assumes "wf_global g" "wf_global h" "\<And>i. nth0 (gvalues g) i = nth0 (gvalues h) i"
  shows "g = h"
proof -
  have le: "length (gvalues a) \<le> length (gvalues b)"
    if "wf_global a" "\<And>i. nth0 (gvalues a) i = nth0 (gvalues b) i" for a b
  proof (rule ccontr)
    assume "\<not> length (gvalues a) \<le> length (gvalues b)"
    then have l: "gvalues a \<noteq> []" "length (gvalues b) \<le> length (gvalues a) - 1" by auto
    have "nth0 (gvalues b) (length (gvalues a) - 1) = 0" using l(2) by (simp add: nth0_out)
    then show False using wf_global_last[OF that(1) l(1)] that(2) by simp
  qed
  have len: "length (gvalues g) = length (gvalues h)" using le[of g h] le[of h g] assms by (simp add: antisym)
  have "gvalues g = gvalues h"
  proof (rule nth_equalityI[OF len])
    fix i assume "i < length (gvalues g)"
    then show "gvalues g ! i = gvalues h ! i" using assms(3)[of i] len by (simp add: nth0_def)
  qed
  then show ?thesis by simp
qed

lemma nth0_join: "nth0 (gvalues (global_join g h)) i = max (nth0 (gvalues g) i) (nth0 (gvalues h) i)"
proof (cases "i < 2 ^ 16")
  case True
  show ?thesis
    by (auto simp: global_join_def Let_def nth0_zip_update nth0_resize) (auto simp: nth0_def)
next
  case False
  show ?thesis
    by (auto simp: global_join_def Let_def nth0_zip_update nth0_resize) (auto simp: nth0_def)
qed

lemma meet_entry_assoc: "meet_entry (meet_entry x y) z = meet_entry x (meet_entry y z)"
  by (auto simp: meet_entry_def min_def)

lemma global_join_assoc:
  "wf_global a \<Longrightarrow> wf_global b \<Longrightarrow> wf_global c \<Longrightarrow> global_join (global_join a b) c = global_join a (global_join b c)"
  by (rule wf_global_eqI) (simp_all add: wf_global_join nth0_join max.assoc)

lemma global_meet_assoc:
  "wf_global a \<Longrightarrow> wf_global b \<Longrightarrow> wf_global c \<Longrightarrow> global_meet (global_meet a b) c = global_meet a (global_meet b c)"
  by (rule wf_global_eqI) (simp_all add: wf_global_meet nth0_meet meet_entry_assoc)

lemma nth0_new [simp]: "nth0 (gvalues global_new) i = 0"
  by (simp add: global_new_def nth0_def)

lemma global_join_new: "wf_global g \<Longrightarrow> global_join global_new g = g"
  by (rule wf_global_eqI) (simp_all add: wf_global_join nth0_join)

lemma global_meet_new: "wf_global g \<Longrightarrow> global_meet global_new g = g"
  by (rule wf_global_eqI) (simp_all add: wf_global_meet nth0_meet)

section \<open>Summaries of fragments\<close>

definition frag_wf :: "fragment \<Rightarrow> bool" where
  "frag_wf f \<longleftrightarrow> wf_global (fr_max_undos f)"

abbreviation frags_wf :: "fragment list \<Rightarrow> bool" where
  "frags_wf \<equiv> list_all frag_wf"

definition summary_wf :: "fragment_summary \<Rightarrow> bool" where
  "summary_wf s \<longleftrightarrow> wf_global (fs_max_version s) \<and> wf_global (fs_min_insertion_version s)
     \<and> wf_global (fs_max_insertion_version s)"

lemma summary_wf_zero: "summary_wf fragment_summary_zero"
  by (simp add: summary_wf_def fragment_summary_zero_def)

lemma summary_wf_add: "summary_wf a \<Longrightarrow> summary_wf b \<Longrightarrow> summary_wf (fragment_summary_add a b)"
  by (simp add: summary_wf_def fragment_summary_add_def wf_global_join wf_global_meet)

lemma wf_observe_all: "wf_global g \<Longrightarrow> wf_global (foldl global_observe g ts)"
  by (induction ts arbitrary: g) (auto intro: wf_global_observe)

lemma summary_wf_item: "frag_wf f \<Longrightarrow> summary_wf (fragment_item_summary f)"
  by (simp add: summary_wf_def fragment_item_summary_def Let_def frag_wf_def wf_global_join wf_observe_all wf_global_observe)

lemma fragment_summary_add_assoc:
  "summary_wf a \<Longrightarrow> summary_wf b \<Longrightarrow> summary_wf c \<Longrightarrow>
   fragment_summary_add (fragment_summary_add a b) c = fragment_summary_add a (fragment_summary_add b c)"
  by (simp add: fragment_summary_add_def summary_wf_def global_join_assoc global_meet_assoc locator_assign_eq frag_text_add_def)

lemma fragment_summary_add_zero: "summary_wf s \<Longrightarrow> fragment_summary_add fragment_summary_zero s = s"
  by (simp add: fragment_summary_add_def fragment_summary_zero_def summary_wf_def global_join_new global_meet_new
        locator_assign_eq frag_text_add_def)

lemma sumof_frags_snoc: "sumof fragment_sum (xs @ [x]) = fragment_summary_add (sumof fragment_sum xs) (fragment_item_summary x)"
  by (simp add: sumof_def sums_snoc fragment_sum_def)

lemma sumof_frags_Nil: "sumof fragment_sum [] = fragment_summary_zero"
  by (simp add: sumof_def sums_def fragment_sum_def)

lemma sumof_frags_wf: "frags_wf xs \<Longrightarrow> summary_wf (sumof fragment_sum xs)"
  by (induction xs rule: rev_induct)
     (simp_all add: sumof_frags_snoc sumof_frags_Nil summary_wf_zero summary_wf_add summary_wf_item)

lemma sumof_frags_append:
  assumes "ys \<noteq> []" "frags_wf (xs @ ys)"
  shows "fragment_summary_add (sumof fragment_sum xs) (sumof fragment_sum ys) = sumof fragment_sum (xs @ ys)"
  using assms
proof (induction ys rule: rev_nonempty_induct)
  case (single y)
  have "sumof fragment_sum [y] = fragment_item_summary y"
    using sumof_frags_snoc[of "[]" y] single summary_wf_item fragment_summary_add_zero by (simp add: sumof_frags_Nil)
  then show ?case by (simp add: sumof_frags_snoc)
next
  case (snoc y ys)
  then show ?case
    unfolding append.assoc[symmetric] sumof_frags_snoc
    by (simp add: fragment_summary_add_assoc[symmetric] sumof_frags_wf summary_wf_item)
qed

section \<open>Lengths\<close>

definition vis_len :: "fragment list \<Rightarrow> nat" where
  "vis_len fs = sum_list (map (\<lambda>f. if fr_visible f then fr_len f else 0) fs)"

definition del_len :: "fragment list \<Rightarrow> nat" where
  "del_len fs = sum_list (map (\<lambda>f. if fr_visible f then 0 else fr_len f) fs)"

lemma vis_len_simps [simp]:
  "vis_len [] = 0" "vis_len (f # fs) = (if fr_visible f then fr_len f else 0) + vis_len fs"
  "vis_len (xs @ ys) = vis_len xs + vis_len ys"
  by (simp_all add: vis_len_def)

lemma del_len_simps [simp]:
  "del_len [] = 0" "del_len (f # fs) = (if fr_visible f then 0 else fr_len f) + del_len fs"
  "del_len (xs @ ys) = del_len xs + del_len ys"
  by (simp_all add: del_len_def)

lemma sumof_frags_text: "fs_text (sumof fragment_sum xs) = \<lparr>ft_visible = vis_len xs, ft_deleted = del_len xs\<rparr>"
  by (induction xs rule: rev_induct)
     (simp_all add: sumof_frags_Nil sumof_frags_snoc fragment_summary_zero_def fragment_summary_add_def frag_text_add_def
        fragment_item_summary_def Let_def)

lemma sumof_frags_max_id: "fs_max_id (sumof fragment_sum xs) = (if xs = [] then locator_min else fr_id (last xs))"
  by (cases xs rule: rev_cases)
     (simp_all add: sumof_frags_Nil sumof_frags_snoc fragment_summary_zero_def fragment_summary_add_def locator_assign_eq
        fragment_item_summary_def Let_def)

lemma sm_fragment [simp]:
  "sm_zero fragment_sum = fragment_summary_zero" "sm_add fragment_sum = fragment_summary_add"
  "sm_item fragment_sum = fragment_item_summary"
  by (simp_all add: fragment_sum_def)

interpretation frags: summary_laws fragment_sum frags_wf
proof unfold_locales
  show "frags_wf (xs @ ys) \<Longrightarrow> frags_wf xs \<and> frags_wf ys" for xs ys by simp
  show "frags_wf (xs @ ys) \<Longrightarrow> ys \<noteq> [] \<Longrightarrow>
    sm_add fragment_sum (sumof fragment_sum xs) (sumof fragment_sum ys) = sumof fragment_sum (xs @ ys)" for xs ys
    by (simp add: sumof_frags_append del: list_all_append)
  show "frags_wf [x] \<Longrightarrow> sm_add fragment_sum (sm_zero fragment_sum) (sm_item fragment_sum x) = sm_item fragment_sum x" for x
    by (simp add: fragment_summary_add_zero summary_wf_item)
qed

section \<open>Dimensions\<close>

lemma dpos_frag_text: "dpos frag_text_dim fragment_sum xs = \<lparr>ft_visible = vis_len xs, ft_deleted = del_len xs\<rparr>"
  by (simp add: dpos_def frag_text_dim_def sumof_frags_text frag_text_add_def)

lemma dpos_visible: "dpos visible_dim fragment_sum xs = vis_len xs"
  by (simp add: dpos_def visible_dim_def sumof_frags_text)

lemma dpos_full_offset: "dpos full_offset_dim fragment_sum xs = vis_len xs + del_len xs"
  by (simp add: dpos_def full_offset_dim_def sumof_frags_text)

lemma dpos_locator: "dpos locator_dim fragment_sum xs = (if xs = [] then None else Some (fr_id (last xs)))"
  by (simp add: dpos_def locator_dim_def sumof_frags_max_id)

interpretation ft: seek_laws fragment_sum frags_wf frag_text_dim
proof unfold_locales
  show "frags_wf (xs @ ys) \<Longrightarrow> ys \<noteq> [] \<Longrightarrow>
    dm_add frag_text_dim (dpos frag_text_dim fragment_sum xs) (sumof fragment_sum ys) = dpos frag_text_dim fragment_sum (xs @ ys)"
    for xs ys unfolding dpos_frag_text by (simp add: frag_text_dim_def sumof_frags_text frag_text_add_def)
qed (simp add: frag_text_dim_def fragment_summary_zero_def frag_text_add_def)

interpretation vis: seek_laws fragment_sum frags_wf visible_dim
proof unfold_locales
  show "frags_wf (xs @ ys) \<Longrightarrow> ys \<noteq> [] \<Longrightarrow>
    dm_add visible_dim (dpos visible_dim fragment_sum xs) (sumof fragment_sum ys) = dpos visible_dim fragment_sum (xs @ ys)"
    for xs ys unfolding dpos_visible by (simp add: visible_dim_def sumof_frags_text)
qed (simp add: visible_dim_def fragment_summary_zero_def)

interpretation full: seek_laws fragment_sum frags_wf full_offset_dim
proof unfold_locales
  show "frags_wf (xs @ ys) \<Longrightarrow> ys \<noteq> [] \<Longrightarrow>
    dm_add full_offset_dim (dpos full_offset_dim fragment_sum xs) (sumof fragment_sum ys) = dpos full_offset_dim fragment_sum (xs @ ys)"
    for xs ys unfolding dpos_full_offset by (simp add: full_offset_dim_def sumof_frags_text)
qed (simp add: full_offset_dim_def fragment_summary_zero_def)

text \<open>The last identifier is a dimension of cursors only: an empty tree reads as the least locator.\<close>

interpretation loc: dim_laws fragment_sum frags_wf locator_dim
proof unfold_locales
  show "frags_wf (xs @ ys) \<Longrightarrow> ys \<noteq> [] \<Longrightarrow>
    dm_add locator_dim (dpos locator_dim fragment_sum xs) (sumof fragment_sum ys) = dpos locator_dim fragment_sum (xs @ ys)"
    for xs ys unfolding dpos_locator by (simp add: locator_dim_def sumof_frags_max_id)
qed

lemma dpos_pair: "dpos (pair_dim D E) S xs = (dpos D S xs, dpos E S xs)"
  by (simp add: dpos_def pair_dim_def)

lemma pair_dim_laws: "dim_laws S ok D \<Longrightarrow> dim_laws S ok E \<Longrightarrow> dim_laws S ok (pair_dim D E)"
  unfolding dim_laws_def dim_laws_axioms_def dpos_pair by (simp add: pair_dim_def)

interpretation loc_vis: dim_laws fragment_sum frags_wf "pair_dim locator_dim visible_dim"
  by (rule pair_dim_laws[OF loc.dim_laws_axioms vis.dim_laws_axioms])

section \<open>The index of insertions\<close>

lemma sumof_insertions: "sumof insertion_sum xs = (if xs = [] then (LAMPORT_MIN, 0) else insertion_key (last xs))"
  by (cases xs rule: rev_cases) (simp_all add: sumof_def sums_snoc insertion_sum_def sums_def)

lemma dpos_insertions: "dpos insertion_dim insertion_sum xs = (if xs = [] then (LAMPORT_MIN, 0) else insertion_key (last xs))"
  by (simp add: dpos_def insertion_dim_def sumof_insertions)

interpretation ins: keyed_laws insertion_sum insertion_key "\<lambda>_. True" insertion_dim
proof unfold_locales
  show "key_sorted insertion_key (\<lambda>_. True) (xs @ ys) \<Longrightarrow>
    key_sorted insertion_key (\<lambda>_. True) xs \<and> key_sorted insertion_key (\<lambda>_. True) ys" for xs ys
    by (simp add: key_sorted_append)
  show "ys \<noteq> [] \<Longrightarrow> sm_add insertion_sum (sumof insertion_sum xs) (sumof insertion_sum ys) = sumof insertion_sum (xs @ ys)"
    for xs ys by (simp add: sumof_insertions) (simp add: insertion_sum_def)
  show "sm_add insertion_sum (sm_zero insertion_sum) (sm_item insertion_sum x) = sm_item insertion_sum x" for x
    by (simp add: insertion_sum_def)
  show "ys \<noteq> [] \<Longrightarrow> dm_add insertion_dim (dpos insertion_dim insertion_sum xs) (sumof insertion_sum ys)
     = dpos insertion_dim insertion_sum (xs @ ys)" for xs ys
    by (simp add: dpos_insertions sumof_insertions) (simp add: insertion_dim_def)
  show "dm_add insertion_dim (dm_zero insertion_dim) (sm_zero insertion_sum) = dm_zero insertion_dim"
    by (simp add: insertion_dim_def insertion_sum_def)
  show "xs \<noteq> [] \<Longrightarrow> dpos insertion_dim insertion_sum xs = insertion_key (last xs)" for xs
    by (simp add: dpos_insertions)
  show "dm_zero insertion_dim \<le> k" for k
    using LAMPORT_MIN_least[of "fst k"] by (cases k) (auto simp: insertion_dim_def order_le_less)
qed

end
