(* ===== verification/LineEndings.thy ===== *)
theory LineEndings
  imports RopeChunks RopeCursor
begin

text \<open>
  Line endings (\<open>LineEnding\<close> in \<open>crates/text/src/text.rs\<close>): detection, normalization and
  conversion of texts. The default is that of a Unix build. The regular expression \<open>\r\n|\r\<close> is
  matched from the left, the longer alternative first.
\<close>

abbreviation CR :: uchar where "CR \<equiv> 13"

datatype line_ending = Unix | Windows

definition line_ending_default :: line_ending where
  "line_ending_default = Unix"

fun line_ending_as_str :: "line_ending \<Rightarrow> str" where
  "line_ending_as_str Unix = [NEWLINE]"
| "line_ending_as_str Windows = [CR, NEWLINE]"

fun line_ending_label :: "line_ending \<Rightarrow> string" where
  "line_ending_label Unix = ''LF''"
| "line_ending_label Windows = ''CRLF''"

text \<open>The loop that moves back to a character boundary.\<close>

fun back_to_boundary :: "str \<Rightarrow> nat \<Rightarrow> nat" where
  "back_to_boundary s i = (if str_is_char_boundary s i \<or> i = 0 then i else back_to_boundary s (i - 1))"

declare back_to_boundary.simps [simp del]

definition line_ending_detect :: "str \<Rightarrow> line_ending option" where
  "line_ending_detect s = do {
     let max_ix = back_to_boundary s (min (str_len s) 1000);
     (head, _) \<leftarrow> str_split_at s max_ix;
     case str_find NEWLINE head of
       Some ix \<Rightarrow> Some (if 0 < ix \<and> as_bytes s ! (ix - 1) = 13 then Windows else Unix)
     | None \<Rightarrow> Some line_ending_default
   }"

fun line_ending_normalize :: "str \<Rightarrow> str" where
  "line_ending_normalize [] = []"
| "line_ending_normalize [c] = [if c = CR then NEWLINE else c]"
| "line_ending_normalize (c # d # s) =
     (if c = CR \<and> d = NEWLINE then NEWLINE # line_ending_normalize s
      else if c = CR then NEWLINE # line_ending_normalize (d # s)
      else c # line_ending_normalize (d # s))"

definition replace_newlines :: "str \<Rightarrow> str \<Rightarrow> str" where
  "replace_newlines r s = concat (map (\<lambda>c. if c = NEWLINE then r else [c]) s)"

definition line_ending_apply :: "line_ending \<Rightarrow> str \<Rightarrow> str option" where
  "line_ending_apply e s = do {
     d \<leftarrow> line_ending_detect s;
     Some (case (d, e) of
         (Unix, Unix) \<Rightarrow> s
       | (Windows, Windows) \<Rightarrow> s
       | (Unix, Windows) \<Rightarrow> replace_newlines [CR, NEWLINE] s
       | (Windows, Unix) \<Rightarrow> line_ending_normalize s)
   }"

section \<open>Normalized texts\<close>

lemma normalize_no_CR: "CR \<notin> set (line_ending_normalize s)"
  by (induction s rule: line_ending_normalize.induct) auto

lemma normalize_id: "CR \<notin> set s \<Longrightarrow> line_ending_normalize s = s"
  by (induction s rule: line_ending_normalize.induct) auto

abbreviation to_crlf :: "str \<Rightarrow> str" where
  "to_crlf \<equiv> replace_newlines [CR, NEWLINE]"

lemma to_crlf_simps [simp]:
  "to_crlf [] = []" "to_crlf (c # s) = (if c = NEWLINE then [CR, NEWLINE] else [c]) @ to_crlf s"
  "to_crlf (s @ t) = to_crlf s @ to_crlf t"
  by (simp_all add: replace_newlines_def)

lemma to_crlf_id: "NEWLINE \<notin> set s \<Longrightarrow> to_crlf s = s"
  by (induction s) auto

lemma normalize_Cons: "c \<noteq> CR \<Longrightarrow> line_ending_normalize (c # s) = c # line_ending_normalize s"
  by (cases s) auto

lemma normalize_to_crlf: "CR \<notin> set s \<Longrightarrow> line_ending_normalize (to_crlf s) = s"
proof (induction s)
  case (Cons c s)
  then show ?case by (cases "c = NEWLINE") (simp_all add: normalize_Cons)
qed simp

section \<open>Detection\<close>

lemma back_to_boundary_eq: "back_to_boundary s i = str_floor_char_boundary s i"
proof (induction s i rule: back_to_boundary.induct)
  case (1 s i)
  note floor = floor_boundary[of s]
  show ?case
  proof (cases "str_is_char_boundary s i \<or> i = 0")
    case True
    then have "str_is_char_boundary s i" by (cases s) (auto simp: str_is_char_boundary_def)
    then have "str_floor_char_boundary s i = i" using floor(2)[of i] floor(3)[of i i] by simp
    then show ?thesis using True by (subst back_to_boundary.simps) simp
  next
    case False
    have "str_floor_char_boundary s i \<noteq> i" using floor(1)[of i] False by metis
    then have le: "str_floor_char_boundary s i \<le> i - 1" using floor(2)[of i] by linarith
    have "str_floor_char_boundary s i = str_floor_char_boundary s (i - 1)"
      using floor(3)[OF floor(1) le] floor(3)[of "str_floor_char_boundary s (i - 1)" i] floor(1,2)[of "i - 1"]
      by linarith
    moreover have "back_to_boundary s i = back_to_boundary s (i - 1)" using False by (subst back_to_boundary.simps) simp
    ultimately show ?thesis using "1.IH" False by simp
  qed
qed

lemma str_find_none: "c \<notin> set a \<Longrightarrow> str_find c a = None"
  by (induction a) auto

lemma str_find_first: "c \<notin> set a \<Longrightarrow> str_find c (a @ c # b) = Some (str_len a)"
  by (induction a) auto

lemma byte_before:
  assumes "a \<noteq> []"
  shows "as_bytes (a @ b) ! (str_len a - 1) = 13 \<longleftrightarrow> last a = CR"
proof -
  obtain a' c where a: "a = a' @ [c]" using assms by (cases a rule: rev_cases) auto
  have ne: "as_bytes a \<noteq> []" using a by (auto simp: as_bytes_def utf8_def)
  have "as_bytes (a @ b) ! (str_len a - 1) = last (as_bytes a)"
  proof -
    have "str_len a - 1 < length (as_bytes a)" using ne length_as_bytes[of a] by (cases "as_bytes a") auto
    moreover have "as_bytes (a @ b) = as_bytes a @ as_bytes b" by (simp add: as_bytes_def)
    ultimately show ?thesis using last_conv_nth[OF ne] length_as_bytes[of a] by (simp add: nth_append)
  qed
  also have "last (as_bytes a) = last (utf8 c)" unfolding a by (simp add: as_bytes_def utf8_def)
  finally have "as_bytes (a @ b) ! (str_len a - 1) = last (utf8 c)" .
  moreover have "last (utf8 c) = 13 \<longleftrightarrow> c = CR" by (simp add: utf8_def)
  ultimately show ?thesis using a by simp
qed

text \<open>Up to 1000 bytes are searched for the first newline.\<close>

lemma detect_head:
  obtains h t where "s = h @ t" "str_len h \<le> 1000" "\<forall>b u. s = b @ u \<and> str_len b \<le> 1000 \<longrightarrow> str_len b \<le> str_len h"
    "line_ending_detect s = (case str_find NEWLINE h of
       Some ix \<Rightarrow> Some (if 0 < ix \<and> as_bytes s ! (ix - 1) = 13 then Windows else Unix) | None \<Rightarrow> Some Unix)"
proof -
  let ?m = "back_to_boundary s (min (str_len s) 1000)"
  have b: "str_is_char_boundary s ?m" "?m \<le> min (str_len s) 1000"
    unfolding back_to_boundary_eq by (rule floor_boundary)+
  obtain h t where ht: "s = h @ t" "?m = str_len h" using b(1) by (auto simp: str_boundary_iff)
  have top: "str_len b \<le> str_len h" if "s = b @ u" "str_len b \<le> 1000" for b u
  proof -
    have "str_is_char_boundary s (str_len b)" using that(1) by (auto simp: str_boundary_iff)
    moreover have "str_len b \<le> min (str_len s) 1000" using that by simp
    ultimately show ?thesis using floor_boundary(3) ht(2) unfolding back_to_boundary_eq by metis
  qed
  have "line_ending_detect s = (case str_find NEWLINE h of
       Some ix \<Rightarrow> Some (if 0 < ix \<and> as_bytes s ! (ix - 1) = 13 then Windows else Unix) | None \<Rightarrow> Some Unix)"
    unfolding line_ending_detect_def Let_def ht(2) line_ending_default_def by (simp add: ht(1) str_split_at_append)
  then show ?thesis using that[of h t] ht b(2) top by simp
qed

lemma detect_found:
  assumes "NEWLINE \<notin> set a" "str_len a < 1000"
  shows "line_ending_detect (a @ NEWLINE # b) = Some (if a \<noteq> [] \<and> last a = CR then Windows else Unix)"
proof -
  let ?s = "a @ NEWLINE # b"
  obtain h t where h: "?s = h @ t" "str_len h \<le> 1000" "\<forall>b u. ?s = b @ u \<and> str_len b \<le> 1000 \<longrightarrow> str_len b \<le> str_len h"
    "line_ending_detect ?s = (case str_find NEWLINE h of
       Some ix \<Rightarrow> Some (if 0 < ix \<and> as_bytes ?s ! (ix - 1) = 13 then Windows else Unix) | None \<Rightarrow> Some Unix)"
    by (rule detect_head[of ?s])
  have "(a @ [NEWLINE]) @ b = h @ t" using h(1) by simp
  moreover have "str_len (a @ [NEWLINE]) \<le> str_len h" using h(3)[rule_format, of "a @ [NEWLINE]" b] assms(2) by (simp add: len_utf8_def)
  ultimately obtain w where "h = (a @ [NEWLINE]) @ w" by (rule str_prefix_split)
  then have "str_find NEWLINE h = Some (str_len a)" using str_find_first[OF assms(1), of w] by simp
  then show ?thesis using h(4) byte_before[of a "NEWLINE # b"] by (cases "a = []") simp_all
qed

lemma detect_default:
  assumes "NEWLINE \<notin> set a" "1000 \<le> str_len a \<or> b = []"
  shows "line_ending_detect (a @ b) = Some Unix"
proof -
  obtain h t where h: "a @ b = h @ t" "str_len h \<le> 1000"
    "\<forall>c u. a @ b = c @ u \<and> str_len c \<le> 1000 \<longrightarrow> str_len c \<le> str_len h"
    "line_ending_detect (a @ b) = (case str_find NEWLINE h of
       Some ix \<Rightarrow> Some (if 0 < ix \<and> as_bytes (a @ b) ! (ix - 1) = 13 then Windows else Unix) | None \<Rightarrow> Some Unix)"
    by (rule detect_head[of "a @ b"])
  have "str_len h \<le> str_len a" using assms(2) h(1,2) arg_cong[OF h(1), of str_len] by auto
  with h(1)[symmetric] obtain w where "a = h @ w" by (rule str_prefix_split)
  then have "str_find NEWLINE h = None" using assms(1) by (intro str_find_none) auto
  then show ?thesis using h(4) by simp
qed

text \<open>C24: normalized texts have no carriage return, texts without one are normalized, and converting
  such a text, whose first line is shorter than 1000 bytes, to either line ending and back to the
  other gives the text with these endings, whichever it had before.\<close>

theorem line_endings_correct:
  "CR \<notin> set (line_ending_normalize s) \<and>
   (CR \<notin> set s \<longrightarrow> line_ending_normalize s = s \<and> line_ending_normalize (to_crlf s) = s \<and>
     (s = a @ NEWLINE # b \<and> NEWLINE \<notin> set a \<and> str_len a < 999 \<longrightarrow>
        line_ending_apply Unix s = Some s \<and> line_ending_apply Windows s = Some (to_crlf s) \<and>
        line_ending_apply Windows (to_crlf s) = Some (to_crlf s) \<and> line_ending_apply Unix (to_crlf s) = Some s))"
proof (intro conjI impI)
  show "CR \<notin> set (line_ending_normalize s)" by (rule normalize_no_CR)
  assume cr: "CR \<notin> set s"
  show "line_ending_normalize s = s" using cr by (rule normalize_id)
  show n: "line_ending_normalize (to_crlf s) = s" using cr by (rule normalize_to_crlf)
  assume a: "s = a @ NEWLINE # b \<and> NEWLINE \<notin> set a \<and> str_len a < 999"
  have "\<not> (a \<noteq> [] \<and> last a = CR)" using a cr by (metis UnI1 last_in_set set_append)
  then have u: "line_ending_detect s = Some Unix" using detect_found[of a b] a by auto
  have "to_crlf s = (a @ [CR]) @ NEWLINE # to_crlf b" using a by (simp add: to_crlf_id)
  then have w: "line_ending_detect (to_crlf s) = Some Windows"
    using detect_found[of "a @ [CR]" "to_crlf b"] a by (simp add: len_utf8_def)
  show "line_ending_apply Unix s = Some s" "line_ending_apply Windows s = Some (to_crlf s)"
    "line_ending_apply Windows (to_crlf s) = Some (to_crlf s)" "line_ending_apply Unix (to_crlf s) = Some s"
    using u w n by (simp_all add: line_ending_apply_def)
qed

theorem line_endings_correct_witness:
  "line_ending_apply Windows [97, 10, 98] = Some [97, 13, 10, 98] \<and> line_ending_apply Unix [97, 13, 10, 98] = Some [97, 10, 98]"
  using line_endings_correct[of "[97, 10, 98]" "[97]" "[98]"] by (simp add: len_utf8_def)

text \<open>a text whose first line is longer than 1000 bytes is taken for one with Unix endings: the
  conversion to Windows endings doubles the carriage returns it has, and the conversion to Unix
  endings leaves them.\<close>

theorem long_first_line:
  assumes "NEWLINE \<notin> set a" "1000 \<le> str_len a"
  shows "line_ending_apply Windows (a @ CR # NEWLINE # b) = Some (a @ CR # CR # NEWLINE # to_crlf b) \<and>
    line_ending_apply Unix (a @ CR # NEWLINE # b) = Some (a @ CR # NEWLINE # b)"
  using detect_default[OF assms(1), of "CR # NEWLINE # b"] assms
  by (simp add: line_ending_apply_def to_crlf_id)

theorem long_first_line_witness:
  "line_ending_apply Windows (replicate 1000 97 @ CR # NEWLINE # []) = Some (replicate 1000 97 @ CR # CR # NEWLINE # [])"
  using long_first_line[of "replicate 1000 97" "[]"] by (simp add: str_len_def sum_list_replicate len_utf8_def)

end
