(* ===== verification/History.thy ===== *)
theory History
  imports UndoMap TreeMapProps Chunk
begin

text \<open>
  Operations, transactions and the history of a buffer (\<open>crates/text/src/text.rs\<close>): the edits and
  undos that replicas exchange, the operations applied so far, and the two stacks of transactions
  that undo and redo work on. Points in time and durations are in nanoseconds; the difference of
  two points in time is zero when the second one is later, as for \<open>Instant\<close>. The base text, a rope,
  is kept as the text it holds.
\<close>

section \<open>Operations\<close>

record edit_operation =
  eo_timestamp :: lamport
  eo_version :: global
  eo_ranges :: "(nat \<times> nat) list"
  eo_new_text :: "str list"

datatype operation = Edit_op edit_operation | Undo_op undo_operation

fun operation_timestamp :: "operation \<Rightarrow> lamport" where
  "operation_timestamp (Edit_op e) = eo_timestamp e"
| "operation_timestamp (Undo_op u) = uo_timestamp u"

fun operation_version :: "operation \<Rightarrow> global" where
  "operation_version (Edit_op e) = eo_version e"
| "operation_version (Undo_op u) = uo_version u"

fun is_edit :: "operation \<Rightarrow> bool" where
  "is_edit (Edit_op _) = True"
| "is_edit _ = False"

section \<open>Transactions and the two stacks\<close>

type_synonym transaction_id = lamport

record transaction =
  tn_id :: transaction_id
  tn_edit_ids :: "lamport list"
  tn_start :: global

definition transaction_merge_in :: "transaction \<Rightarrow> transaction \<Rightarrow> transaction" where
  "transaction_merge_in t other = t\<lparr>tn_edit_ids := tn_edit_ids t @ tn_edit_ids other\<rparr>"

record history_entry =
  he_transaction :: transaction
  he_first_edit_at :: nat
  he_last_edit_at :: nat
  he_suppress_grouping :: bool

definition transaction_id :: "history_entry \<Rightarrow> transaction_id" where
  "transaction_id e = tn_id (he_transaction e)"

record history =
  hi_base_text :: str
  hi_operations :: "(lamport, operation) tree_map"
  hi_undo_stack :: "history_entry list"
  hi_redo_stack :: "history_entry list"
  hi_transaction_depth :: nat
  hi_group_interval :: nat

definition history_new :: "str \<Rightarrow> history" where
  "history_new base_text = \<lparr>hi_base_text = base_text, hi_operations = tm_new, hi_undo_stack = [],
     hi_redo_stack = [], hi_transaction_depth = 0, hi_group_interval = 300 * 1000000\<rparr>"

definition history_push :: "history \<Rightarrow> operation \<Rightarrow> history option" where
  "history_push h op = do {
     ops \<leftarrow> tm_insert (hi_operations h) (operation_timestamp op) op;
     Some (h\<lparr>hi_operations := ops\<rparr>)
   }"

text \<open>Entries are pushed with both times set to the present one.\<close>

definition entry_at :: "transaction \<Rightarrow> nat \<Rightarrow> history_entry" where
  "entry_at t now = \<lparr>he_transaction = t, he_first_edit_at = now, he_last_edit_at = now, he_suppress_grouping = False\<rparr>"

definition start_transaction ::
  "history \<Rightarrow> global \<Rightarrow> nat \<Rightarrow> lamport \<Rightarrow> transaction_id option \<times> history \<times> lamport" where
  "start_transaction h start now clock =
     (let h = h\<lparr>hi_transaction_depth := hi_transaction_depth h + 1\<rparr> in
      if hi_transaction_depth h = 1 then
        let (tid, clock) = tick clock;
            e = entry_at \<lparr>tn_id = tid, tn_edit_ids = [], tn_start = start\<rparr> now
        in (Some tid, h\<lparr>hi_undo_stack := hi_undo_stack h @ [e]\<rparr>, clock)
      else (None, h, clock))"

definition end_transaction :: "history \<Rightarrow> nat \<Rightarrow> (history_entry option \<times> history) option" where
  "end_transaction h now = do {
     assert_opt (hi_transaction_depth h \<noteq> 0);
     let h = h\<lparr>hi_transaction_depth := hi_transaction_depth h - 1\<rparr>;
     if hi_transaction_depth h = 0 then do {
       e \<leftarrow> last_opt (hi_undo_stack h);
       if tn_edit_ids (he_transaction e) = []
       then Some (None, h\<lparr>hi_undo_stack := butlast (hi_undo_stack h)\<rparr>)
       else let e = e\<lparr>he_last_edit_at := now\<rparr>
            in Some (Some e, h\<lparr>hi_redo_stack := [], hi_undo_stack := butlast (hi_undo_stack h) @ [e]\<rparr>)
     } else Some (None, h)
   }"

section \<open>Grouping\<close>

definition group_trailing :: "history \<Rightarrow> nat \<Rightarrow> (transaction_id option \<times> history) option" where
  "group_trailing h n = do {
     new_len \<leftarrow> csub (length (hi_undo_stack h)) n;
     let keep = take new_len (hi_undo_stack h);
     let merge = drop new_len (hi_undo_stack h);
     let keep =
       (case last_opt keep of
          None \<Rightarrow> keep
        | Some last_entry \<Rightarrow>
            let t = he_transaction last_entry;
                t = t\<lparr>tn_edit_ids := tn_edit_ids t @ concat (map (\<lambda>e. tn_edit_ids (he_transaction e)) merge)\<rparr>;
                last_entry = last_entry\<lparr>he_transaction := t\<rparr>;
                last_entry = (case last_opt merge of
                    None \<Rightarrow> last_entry
                  | Some e \<Rightarrow> last_entry\<lparr>he_last_edit_at := he_last_edit_at e\<rparr>)
            in butlast keep @ [last_entry]);
     Some (map_option transaction_id (last_opt keep), h\<lparr>hi_undo_stack := keep\<rparr>)
   }"

text \<open>The loops walk down the stack, here given from its top.\<close>

fun group_count :: "nat \<Rightarrow> history_entry \<Rightarrow> history_entry list \<Rightarrow> nat" where
  "group_count interval e [] = 0"
| "group_count interval e (prev # es) =
     (if \<not> he_suppress_grouping prev \<and> he_first_edit_at e - he_last_edit_at prev < interval
      then group_count interval prev es + 1
      else 0)"

definition history_group :: "history \<Rightarrow> (transaction_id option \<times> history) option" where
  "history_group h =
     (let count = (case rev (hi_undo_stack h) of [] \<Rightarrow> 0 | e # es \<Rightarrow> group_count (hi_group_interval h) e es)
      in group_trailing h count)"

fun group_until_count :: "transaction_id \<Rightarrow> nat \<Rightarrow> history_entry list \<Rightarrow> nat option" where
  "group_until_count tid count [] = None"
| "group_until_count tid count (e # es) =
     (if transaction_id e = tid then Some count
      else if he_suppress_grouping e then None
      else group_until_count tid (count + 1) es)"

definition history_group_until :: "history \<Rightarrow> transaction_id \<Rightarrow> history option" where
  "history_group_until h tid =
     (case group_until_count tid 0 (rev (hi_undo_stack h)) of
        None \<Rightarrow> Some h
      | Some count \<Rightarrow> map_option snd (group_trailing h count))"

definition finalize_last_transaction :: "history \<Rightarrow> transaction option \<times> history" where
  "finalize_last_transaction h =
     (case last_opt (hi_undo_stack h) of
        None \<Rightarrow> (None, h)
      | Some e \<Rightarrow> (Some (he_transaction e),
          h\<lparr>hi_undo_stack := butlast (hi_undo_stack h) @ [e\<lparr>he_suppress_grouping := True\<rparr>]\<rparr>))"

section \<open>Moving entries between the stacks\<close>

definition push_transaction :: "history \<Rightarrow> transaction \<Rightarrow> nat \<Rightarrow> history option" where
  "push_transaction h t now = do {
     assert_opt (hi_transaction_depth h = 0);
     Some (h\<lparr>hi_undo_stack := hi_undo_stack h @ [entry_at t now]\<rparr>)
   }"

definition push_empty_transaction ::
  "history \<Rightarrow> global \<Rightarrow> nat \<Rightarrow> lamport \<Rightarrow> (transaction_id \<times> history \<times> lamport) option" where
  "push_empty_transaction h start now clock = do {
     assert_opt (hi_transaction_depth h = 0);
     let (tid, clock) = tick clock;
     let e = entry_at \<lparr>tn_id = tid, tn_edit_ids = [], tn_start = start\<rparr> now;
     Some (tid, h\<lparr>hi_undo_stack := hi_undo_stack h @ [e]\<rparr>, clock)
   }"

definition push_undo :: "history \<Rightarrow> lamport \<Rightarrow> history option" where
  "push_undo h op_id = do {
     assert_opt (hi_transaction_depth h \<noteq> 0);
     case tm_get (hi_operations h) op_id of
       Some (Edit_op _) \<Rightarrow> do {
         e \<leftarrow> last_opt (hi_undo_stack h);
         let t = he_transaction e;
         let e = e\<lparr>he_transaction := t\<lparr>tn_edit_ids := tn_edit_ids t @ [op_id]\<rparr>\<rparr>;
         Some (h\<lparr>hi_undo_stack := butlast (hi_undo_stack h) @ [e]\<rparr>)
       }
     | _ \<Rightarrow> Some h
   }"

definition pop_undo :: "history \<Rightarrow> (history_entry option \<times> history) option" where
  "pop_undo h = do {
     assert_opt (hi_transaction_depth h = 0);
     case last_opt (hi_undo_stack h) of
       None \<Rightarrow> Some (None, h)
     | Some e \<Rightarrow> Some (Some e,
         h\<lparr>hi_undo_stack := butlast (hi_undo_stack h), hi_redo_stack := hi_redo_stack h @ [e]\<rparr>)
   }"

definition pop_redo :: "history \<Rightarrow> (history_entry option \<times> history) option" where
  "pop_redo h = do {
     assert_opt (hi_transaction_depth h = 0);
     case last_opt (hi_redo_stack h) of
       None \<Rightarrow> Some (None, h)
     | Some e \<Rightarrow> Some (Some e,
         h\<lparr>hi_redo_stack := butlast (hi_redo_stack h), hi_undo_stack := hi_undo_stack h @ [e]\<rparr>)
   }"

text \<open>\<open>rposition\<close> and \<open>rfind\<close> of the standard library, and \<open>Vec::remove\<close> at an index in range.\<close>

fun rposition :: "('a \<Rightarrow> bool) \<Rightarrow> 'a list \<Rightarrow> nat option" where
  "rposition P [] = None"
| "rposition P (x # xs) =
     (case rposition P xs of Some i \<Rightarrow> Some (Suc i) | None \<Rightarrow> if P x then Some 0 else None)"

definition remove_at :: "nat \<Rightarrow> 'a list \<Rightarrow> 'a list" where
  "remove_at i xs = take i xs @ drop (Suc i) xs"

definition remove_from_undo :: "history \<Rightarrow> transaction_id \<Rightarrow> (history_entry option \<times> history) option" where
  "remove_from_undo h tid = do {
     assert_opt (hi_transaction_depth h = 0);
     case rposition (\<lambda>e. transaction_id e = tid) (hi_undo_stack h) of
       None \<Rightarrow> Some (None, h)
     | Some i \<Rightarrow> let e = hi_undo_stack h ! i
         in Some (Some e, h\<lparr>hi_undo_stack := remove_at i (hi_undo_stack h), hi_redo_stack := hi_redo_stack h @ [e]\<rparr>)
   }"

definition remove_from_undo_until :: "history \<Rightarrow> transaction_id \<Rightarrow> (history_entry list \<times> history) option" where
  "remove_from_undo_until h tid = do {
     assert_opt (hi_transaction_depth h = 0);
     let start_len = length (hi_redo_stack h);
     let h = (case rposition (\<lambda>e. transaction_id e = tid) (hi_undo_stack h) of
         None \<Rightarrow> h
       | Some i \<Rightarrow> h\<lparr>hi_undo_stack := take i (hi_undo_stack h),
                     hi_redo_stack := hi_redo_stack h @ rev (drop i (hi_undo_stack h))\<rparr>);
     Some (drop start_len (hi_redo_stack h), h)
   }"

definition remove_from_redo :: "history \<Rightarrow> transaction_id \<Rightarrow> (history_entry list \<times> history) option" where
  "remove_from_redo h tid = do {
     assert_opt (hi_transaction_depth h = 0);
     let start_len = length (hi_undo_stack h);
     let h = (case rposition (\<lambda>e. transaction_id e = tid) (hi_redo_stack h) of
         None \<Rightarrow> h
       | Some i \<Rightarrow> h\<lparr>hi_redo_stack := take i (hi_redo_stack h),
                     hi_undo_stack := hi_undo_stack h @ rev (drop i (hi_redo_stack h))\<rparr>);
     Some (drop start_len (hi_undo_stack h), h)
   }"

definition history_forget :: "history \<Rightarrow> transaction_id \<Rightarrow> (transaction option \<times> history) option" where
  "history_forget h tid = do {
     assert_opt (hi_transaction_depth h = 0);
     case rposition (\<lambda>e. transaction_id e = tid) (hi_undo_stack h) of
       Some i \<Rightarrow> Some (Some (he_transaction (hi_undo_stack h ! i)), h\<lparr>hi_undo_stack := remove_at i (hi_undo_stack h)\<rparr>)
     | None \<Rightarrow>
         (case rposition (\<lambda>e. transaction_id e = tid) (hi_redo_stack h) of
            Some i \<Rightarrow> Some (Some (he_transaction (hi_redo_stack h ! i)), h\<lparr>hi_redo_stack := remove_at i (hi_redo_stack h)\<rparr>)
          | None \<Rightarrow> Some (None, h))
   }"

definition find_last_entry :: "transaction_id \<Rightarrow> history_entry list \<Rightarrow> history_entry option" where
  "find_last_entry tid es = find (\<lambda>e. transaction_id e = tid) (rev es)"

definition history_transaction :: "history \<Rightarrow> transaction_id \<Rightarrow> transaction option" where
  "history_transaction h tid = map_option he_transaction
     (case find_last_entry tid (hi_undo_stack h) of
        Some e \<Rightarrow> Some e
      | None \<Rightarrow> find_last_entry tid (hi_redo_stack h))"

text \<open>\<open>transaction_mut\<close> and the change \<open>f\<close> made through the reference it returns.\<close>

definition transaction_mut :: "history \<Rightarrow> transaction_id \<Rightarrow> (transaction \<Rightarrow> transaction) \<Rightarrow> history option" where
  "transaction_mut h tid f =
     (let upd = (\<lambda>i es. es[i := (es ! i)\<lparr>he_transaction := f (he_transaction (es ! i))\<rparr>]) in
      case rposition (\<lambda>e. transaction_id e = tid) (hi_undo_stack h) of
        Some i \<Rightarrow> Some (h\<lparr>hi_undo_stack := upd i (hi_undo_stack h)\<rparr>)
      | None \<Rightarrow>
          (case rposition (\<lambda>e. transaction_id e = tid) (hi_redo_stack h) of
             Some i \<Rightarrow> Some (h\<lparr>hi_redo_stack := upd i (hi_redo_stack h)\<rparr>)
           | None \<Rightarrow> None))"

definition history_merge_transactions :: "history \<Rightarrow> transaction_id \<Rightarrow> transaction_id \<Rightarrow> history option" where
  "history_merge_transactions h tid destination = do {
     (t, h) \<leftarrow> history_forget h tid;
     case t of
       None \<Rightarrow> Some h
     | Some t \<Rightarrow>
         (case transaction_mut h destination (\<lambda>d. d\<lparr>tn_edit_ids := tn_edit_ids d @ tn_edit_ids t\<rparr>) of
            None \<Rightarrow> Some h
          | Some h \<Rightarrow> Some h)
   }"

end
