(* ===== verification/BufferEdit.thy ===== *)
theory BufferEdit
  imports FragmentProps LineEndings History Patch
begin

text \<open>
  Local edits of a buffer (\<open>BufferSnapshot::apply_edit_internal\<close> in \<open>crates/text/src/text.rs\<close>): the
  builders of the new fragment tree and of the new texts, and the walk over the old fragments that
  splits them at the edited ranges, inserts the new ones and marks the covered ones deleted.
  A rope is represented here by the text it holds, and a rope cursor by that text and the offset:
  the operations used (slicing, appending, pushing, the suffix) do to the texts of real ropes what
  these do, which is proved in the theories of ropes. A slice that is not between two character
  boundaries of the text has no value.
\<close>

section \<open>The builder of the fragment tree\<close>

datatype fragment_chunk = Tree_chunk fragment_tree | Loose_chunk "fragment list"

record fragment_builder =
  fb_chunks :: "fragment_chunk list"
  fb_summary :: fragment_summary

definition fb_new :: "fragment_tree \<Rightarrow> fragment_builder" where
  "fb_new init = \<lparr>fb_chunks = (if is_empty init then [] else [Tree_chunk init]), fb_summary = summary init\<rparr>"

definition fb_append :: "fragment_builder \<Rightarrow> fragment_tree \<Rightarrow> fragment_builder" where
  "fb_append b items =
     (if is_empty items then b
      else \<lparr>fb_chunks = fb_chunks b @ [Tree_chunk items],
            fb_summary = fragment_summary_add (fb_summary b) (summary items)\<rparr>)"

definition fb_push :: "fragment_builder \<Rightarrow> fragment \<Rightarrow> fragment_builder" where
  "fb_push b f =
     \<lparr>fb_chunks = (case last_opt (fb_chunks b) of
          Some (Loose_chunk fs) \<Rightarrow> butlast (fb_chunks b) @ [Loose_chunk (fs @ [f])]
        | _ \<Rightarrow> fb_chunks b @ [Loose_chunk [f]]),
      fb_summary = fragment_summary_add (fb_summary b) (fragment_item_summary f)\<rparr>"

fun fb_collect :: "fragment_tree \<Rightarrow> fragment_chunk list \<Rightarrow> fragment_tree option" where
  "fb_collect t [] = Some t"
| "fb_collect t (Tree_chunk s # cs) = do { t \<leftarrow> stree_append fragment_sum t s; fb_collect t cs }"
| "fb_collect t (Loose_chunk fs # cs) = do {
     s \<leftarrow> (if 1024 < length fs then stree_from_par_iter fragment_sum fs else stree_from_iter fragment_sum fs);
     t \<leftarrow> stree_append fragment_sum t s;
     fb_collect t cs
   }"

definition fb_to_sum_tree :: "fragment_builder \<Rightarrow> fragment_tree option" where
  "fb_to_sum_tree b = fb_collect (stree_new fragment_sum) (fb_chunks b)"

section \<open>The builder of the texts\<close>

record text_cursor =
  tc_text :: str
  tc_offset :: nat

definition text_cursor_new :: "str \<Rightarrow> text_cursor" where
  "text_cursor_new s = \<lparr>tc_text = s, tc_offset = 0\<rparr>"

definition text_cursor_slice :: "text_cursor \<Rightarrow> nat \<Rightarrow> (str \<times> text_cursor) option" where
  "text_cursor_slice c end_offset = do {
     s \<leftarrow> str_slice (tc_text c) (tc_offset c) end_offset;
     Some (s, c\<lparr>tc_offset := end_offset\<rparr>)
   }"

definition text_cursor_suffix :: "text_cursor \<Rightarrow> str option" where
  "text_cursor_suffix c = map_option fst (text_cursor_slice c (str_len (tc_text c)))"

record rope_builder =
  rb_old_visible :: text_cursor
  rb_old_deleted :: text_cursor
  rb_new_visible :: str
  rb_new_deleted :: str

definition rb_new :: "text_cursor \<Rightarrow> text_cursor \<Rightarrow> rope_builder" where
  "rb_new old_visible old_deleted =
     \<lparr>rb_old_visible = old_visible, rb_old_deleted = old_deleted, rb_new_visible = [], rb_new_deleted = []\<rparr>"

definition rb_push :: "rope_builder \<Rightarrow> nat \<Rightarrow> bool \<Rightarrow> bool \<Rightarrow> rope_builder option" where
  "rb_push b n was_visible is_visible = do {
     (s, b) \<leftarrow> (if was_visible then do {
          (s, c) \<leftarrow> text_cursor_slice (rb_old_visible b) (tc_offset (rb_old_visible b) + n);
          Some (s, b\<lparr>rb_old_visible := c\<rparr>)
        } else do {
          (s, c) \<leftarrow> text_cursor_slice (rb_old_deleted b) (tc_offset (rb_old_deleted b) + n);
          Some (s, b\<lparr>rb_old_deleted := c\<rparr>)
        });
     Some (if is_visible then b\<lparr>rb_new_visible := rb_new_visible b @ s\<rparr>
           else b\<lparr>rb_new_deleted := rb_new_deleted b @ s\<rparr>)
   }"

definition rb_append :: "rope_builder \<Rightarrow> frag_text \<Rightarrow> rope_builder option" where
  "rb_append b n = do {
     b \<leftarrow> rb_push b (ft_visible n) True True;
     rb_push b (ft_deleted n) False False
   }"

definition rb_push_fragment :: "rope_builder \<Rightarrow> fragment \<Rightarrow> bool \<Rightarrow> rope_builder option" where
  "rb_push_fragment b f was_visible = rb_push b (fr_len f) was_visible (fr_visible f)"

definition rb_push_str :: "rope_builder \<Rightarrow> str \<Rightarrow> rope_builder" where
  "rb_push_str b s = b\<lparr>rb_new_visible := rb_new_visible b @ s\<rparr>"

definition rb_finish :: "rope_builder \<Rightarrow> (str \<times> str) option" where
  "rb_finish b = do {
     v \<leftarrow> text_cursor_suffix (rb_old_visible b);
     d \<leftarrow> text_cursor_suffix (rb_old_deleted b);
     Some (rb_new_visible b @ v, rb_new_deleted b @ d)
   }"

section \<open>The state of an edit\<close>

text \<open>The variables of the walk: the cursor over the old fragments, the start of what is left of the
  fragment under it, the builders, and the edits of the index, the slices, the offset in the
  insertion and the patch that are collected on the way.\<close>

record 'd edit_state =
  ed_cursor :: "(fragment, fragment_summary, 'd) cursor"
  ed_fragment_start :: nat
  ed_fragments :: fragment_builder
  ed_ropes :: rope_builder
  ed_insertions :: "(insertion_fragment, insertion_key) edit list"
  ed_slices :: "insertion_slice list"
  ed_insertion_offset :: nat
  ed_patch :: patch

text \<open>A fragment rewritten by the walk is pushed to the index, the texts and the fragments.\<close>

definition push_rewritten :: "fragment \<Rightarrow> bool \<Rightarrow> 'd edit_state \<Rightarrow> 'd edit_state option" where
  "push_rewritten f was_visible st = do {
     ropes \<leftarrow> rb_push_fragment (ed_ropes st) f was_visible;
     Some (st\<lparr>ed_insertions := ed_insertions st @ [insert_new f], ed_ropes := ropes,
              ed_fragments := fb_push (ed_fragments st) f\<rparr>)
   }"

definition append_old :: "fragment_tree \<Rightarrow> 'd edit_state \<Rightarrow> 'd edit_state option" where
  "append_old piece st = do {
     ropes \<leftarrow> rb_append (ed_ropes st) (fs_text (summary piece));
     Some (st\<lparr>ed_ropes := ropes, ed_fragments := fb_append (ed_fragments st) piece\<rparr>)
   }"

text \<open>If the current fragment has been partially consumed, the rest of it is consumed; \<open>pos\<close> reads
  the offset of a position of the cursor.\<close>

definition consume_rest ::
  "('d, fragment_summary) dim_ops \<Rightarrow> ('d \<Rightarrow> nat option) \<Rightarrow> 'd edit_state \<Rightarrow> 'd edit_state option" where
  "consume_rest D pos st = do {
     start \<leftarrow> pos (c_position (ed_cursor st));
     if start < ed_fragment_start st then do {
       e \<leftarrow> cursor_end D (ed_cursor st);
       fragment_end \<leftarrow> pos e;
       st \<leftarrow> (if ed_fragment_start st < fragment_end then do {
            item \<leftarrow> cursor_item (ed_cursor st);
            f \<leftarrow> item;
            let suffix = f\<lparr>fr_len := as_u32 (fragment_end - ed_fragment_start st),
              fr_insertion_offset := add_u32 (fr_insertion_offset f) (as_u32 (ed_fragment_start st - start))\<rparr>;
            push_rewritten suffix (fr_visible suffix) st
          } else Some st);
       c \<leftarrow> cursor_next D (ed_cursor st);
       Some (st\<lparr>ed_cursor := c\<rparr>)
     } else Some st
   }"

section \<open>Inserting text\<close>

definition MAX_INSERTION_LEN :: nat where
  "MAX_INSERTION_LEN = 2 ^ 32 - 1"

function push_insertion_loop ::
  "str \<Rightarrow> lamport \<Rightarrow> locator \<Rightarrow> lamport \<Rightarrow> nat \<Rightarrow> 'd edit_state \<Rightarrow> 'd edit_state option" where
  "push_insertion_loop new_text timestamp next_fragment_id edit_timestamp text_offset st =
     (if text_offset < str_len new_text then
        let target_end = min (str_len new_text) (text_offset + MAX_INSERTION_LEN);
            chunk_end = (if target_end = str_len new_text then target_end
                         else str_floor_char_boundary new_text target_end) in
        if chunk_end = text_offset then Some st
        else
          (case csub chunk_end text_offset of
             None \<Rightarrow> None
           | Some len_of_chunk \<Rightarrow>
               let f = \<lparr>fr_id = locator_between (fs_max_id (fb_summary (ed_fragments st))) next_fragment_id,
                        fr_timestamp = timestamp, fr_insertion_offset = ed_insertion_offset st,
                        fr_len = as_u32 len_of_chunk, fr_visible = True, fr_deletions = [],
                        fr_max_undos = global_new\<rparr> in
               push_insertion_loop new_text timestamp next_fragment_id edit_timestamp chunk_end
                 (st\<lparr>ed_slices := ed_slices st @ [slice_from_fragment edit_timestamp f],
                     ed_insertions := ed_insertions st @ [insert_new f],
                     ed_fragments := fb_push (ed_fragments st) f,
                     ed_insertion_offset := add_u32 (ed_insertion_offset st) (as_u32 len_of_chunk)\<rparr>))
      else Some st)"
  by pat_completeness auto
termination
  by (relation "measure (\<lambda>(new_text, _, _, _, text_offset, _). str_len new_text - text_offset)")
     (auto simp: csub_def split: if_splits)

declare push_insertion_loop.simps [simp del]

definition push_fragments_for_insertion ::
  "str \<Rightarrow> lamport \<Rightarrow> locator \<Rightarrow> lamport \<Rightarrow> 'd edit_state \<Rightarrow> 'd edit_state option" where
  "push_fragments_for_insertion new_text timestamp next_fragment_id edit_timestamp st = do {
     st \<leftarrow> push_insertion_loop new_text timestamp next_fragment_id edit_timestamp 0 st;
     Some (st\<lparr>ed_ropes := rb_push_str (ed_ropes st) new_text\<rparr>)
   }"

section \<open>Local edits\<close>

record buffer_snapshot =
  bs_visible_text :: str
  bs_deleted_text :: str
  bs_fragments :: fragment_tree
  bs_insertions :: insertion_tree
  bs_insertion_slices :: "insertion_slice tree_set"
  bs_undo_map :: undo_map
  bs_version :: global
  bs_remote_id :: nat
  bs_replica_id :: replica_id
  bs_line_ending :: line_ending

definition visible_pos :: "frag_text \<Rightarrow> nat option" where
  "visible_pos d = Some (ft_visible d)"

text \<open>Jump ahead to the fragment that holds the start of the range.\<close>

definition edit_jump :: "nat \<Rightarrow> frag_text edit_state \<Rightarrow> frag_text edit_state option" where
  "edit_jump range_start st = do {
     e \<leftarrow> cursor_end frag_text_dim (ed_cursor st);
     if ft_visible e < range_start then do {
       st \<leftarrow> consume_rest frag_text_dim visible_pos st;
       (piece, c) \<leftarrow> cursor_slice fragment_sum frag_text_dim (visible_target range_start) Right (ed_cursor st);
       st \<leftarrow> append_old piece (st\<lparr>ed_cursor := c\<rparr>);
       Some (st\<lparr>ed_fragment_start := ft_visible (c_position c)\<rparr>)
     } else Some st
   }"

text \<open>Keep the part of the current fragment before the range.\<close>

definition edit_prefix :: "nat \<Rightarrow> frag_text edit_state \<Rightarrow> frag_text edit_state option" where
  "edit_prefix range_start st =
     (if ed_fragment_start st < range_start then do {
        item \<leftarrow> cursor_item (ed_cursor st);
        f \<leftarrow> item;
        let start = ft_visible (c_position (ed_cursor st));
        n \<leftarrow> csub (ed_fragment_start st) start;
        let prefix = f\<lparr>fr_len := as_u32 (range_start - ed_fragment_start st),
          fr_insertion_offset := add_u32 (fr_insertion_offset f) (as_u32 n),
          fr_id := locator_between (fs_max_id (fb_summary (ed_fragments st))) (fr_id f)\<rparr>;
        st \<leftarrow> push_rewritten prefix (fr_visible prefix) st;
        Some (st\<lparr>ed_fragment_start := range_start\<rparr>)
      } else Some st)"

definition edit_insert :: "str \<Rightarrow> lamport \<Rightarrow> frag_text edit_state \<Rightarrow> frag_text edit_state option" where
  "edit_insert new_text timestamp st =
     (if new_text \<noteq> [] then do {
        let new_start = ft_visible (fs_text (fb_summary (ed_fragments st)));
        item \<leftarrow> cursor_item (ed_cursor st);
        let next_fragment_id = (case item of None \<Rightarrow> locator_max | Some f \<Rightarrow> fr_id f);
        st \<leftarrow> push_fragments_for_insertion new_text timestamp next_fragment_id timestamp st;
        Some (st\<lparr>ed_patch := patch_push (ed_patch st)
          \<lparr>old_start = ed_fragment_start st, old_end = ed_fragment_start st,
           new_start = new_start, new_end = new_start + str_len new_text\<rparr>\<rparr>)
      } else Some st)"

text \<open>One step of the loop that marks the fragments of the range deleted.\<close>

definition edit_delete_step :: "nat \<Rightarrow> lamport \<Rightarrow> frag_text edit_state \<Rightarrow> frag_text edit_state option" where
  "edit_delete_step range_end timestamp st = do {
     item \<leftarrow> cursor_item (ed_cursor st);
     f \<leftarrow> item;
     e \<leftarrow> cursor_end frag_text_dim (ed_cursor st);
     let fragment_end = ft_visible e;
     let intersection_end = min range_end fragment_end;
     intersection \<leftarrow> (if fr_visible f then do {
          n \<leftarrow> csub intersection_end (ed_fragment_start st);
          k \<leftarrow> csub (ed_fragment_start st) (ft_visible (c_position (ed_cursor st)));
          Some (f\<lparr>fr_len := as_u32 n,
                  fr_insertion_offset := add_u32 (fr_insertion_offset f) (as_u32 k),
                  fr_id := locator_between (fs_max_id (fb_summary (ed_fragments st))) (fr_id f),
                  fr_deletions := fr_deletions f @ [timestamp], fr_visible := False\<rparr>)
        } else Some f);
     st \<leftarrow> (if 0 < fr_len intersection then do {
          let st = (if fr_visible f \<and> \<not> fr_visible intersection then
              let new_start = ft_visible (fs_text (fb_summary (ed_fragments st))) in
              st\<lparr>ed_patch := patch_push (ed_patch st)
                   \<lparr>old_start = ed_fragment_start st, old_end = intersection_end,
                    new_start = new_start, new_end = new_start\<rparr>,
                 ed_slices := ed_slices st @ [slice_from_fragment timestamp intersection]\<rparr>
            else st);
          st \<leftarrow> push_rewritten intersection (fr_visible f) st;
          Some (st\<lparr>ed_fragment_start := intersection_end\<rparr>)
        } else Some st);
     if fragment_end \<le> range_end then do {
       c \<leftarrow> cursor_next frag_text_dim (ed_cursor st);
       Some (st\<lparr>ed_cursor := c\<rparr>)
     } else Some st
   }"

partial_function (option) edit_delete_loop ::
  "nat \<Rightarrow> lamport \<Rightarrow> frag_text edit_state \<Rightarrow> frag_text edit_state option" where
  "edit_delete_loop range_end timestamp st =
     (if ed_fragment_start st < range_end then
        (case edit_delete_step range_end timestamp st of
           None \<Rightarrow> None
         | Some st' \<Rightarrow> edit_delete_loop range_end timestamp st')
      else Some st)"

text \<open>One edit: the range in full offsets, and the new text in normalized form, go to the operation.\<close>

definition edit_range ::
  "lamport \<Rightarrow> (nat \<times> nat) \<times> str \<Rightarrow> edit_operation \<times> frag_text edit_state
   \<Rightarrow> (edit_operation \<times> frag_text edit_state) option" where
  "edit_range timestamp e s =
     (case (e, s) of (((range_start, range_end), new_text), (op, st)) \<Rightarrow> do {
        let new_text = line_ending_normalize new_text;
        st \<leftarrow> edit_jump range_start st;
        let full_range_start = range_start + ft_deleted (c_position (ed_cursor st));
        st \<leftarrow> edit_prefix range_start st;
        st \<leftarrow> edit_insert new_text timestamp st;
        st \<leftarrow> edit_delete_loop range_end timestamp st;
        let full_range_end = range_end + ft_deleted (c_position (ed_cursor st));
        Some (op\<lparr>eo_ranges := eo_ranges op @ [(full_range_start, full_range_end)],
                 eo_new_text := eo_new_text op @ [new_text]\<rparr>, st)
      })"

fun edit_ranges ::
  "lamport \<Rightarrow> ((nat \<times> nat) \<times> str) list \<Rightarrow> edit_operation \<times> frag_text edit_state
   \<Rightarrow> (edit_operation \<times> frag_text edit_state) option" where
  "edit_ranges timestamp [] s = Some s"
| "edit_ranges timestamp (e # es) s = do { s \<leftarrow> edit_range timestamp e s; edit_ranges timestamp es s }"

text \<open>The first jump starts the builders, and the last one takes what is left of the old fragments.\<close>

definition edit_start :: "buffer_snapshot \<Rightarrow> nat \<Rightarrow> frag_text edit_state option" where
  "edit_start b first_start = do {
     (piece, c) \<leftarrow> cursor_slice fragment_sum frag_text_dim (visible_target first_start) Right
        (cursor_new frag_text_dim (bs_fragments b));
     let fragments = fb_new piece;
     ropes \<leftarrow> rb_append (rb_new (text_cursor_new (bs_visible_text b)) (text_cursor_new (bs_deleted_text b)))
        (fs_text (fb_summary fragments));
     Some \<lparr>ed_cursor = c, ed_fragment_start = ft_visible (c_position c), ed_fragments = fragments,
       ed_ropes = ropes, ed_insertions = [], ed_slices = [], ed_insertion_offset = 0, ed_patch = []\<rparr>
   }"

definition edit_finish ::
  "('d, fragment_summary) dim_ops \<Rightarrow> ('d \<Rightarrow> nat option) \<Rightarrow> 'd edit_state \<Rightarrow> ('d edit_state \<times> fragment_tree \<times> str \<times> str) option" where
  "edit_finish D pos st = do {
     st \<leftarrow> consume_rest D pos st;
     (suffix, c) \<leftarrow> cursor_suffix fragment_sum D (ed_cursor st);
     st \<leftarrow> append_old suffix (st\<lparr>ed_cursor := c\<rparr>);
     (v, d) \<leftarrow> rb_finish (ed_ropes st);
     t \<leftarrow> fb_to_sum_tree (ed_fragments st);
     Some (st, t, v, d)
   }"

text \<open>The new fragments, texts, index and slices replace the old ones.\<close>

definition edit_commit ::
  "buffer_snapshot \<Rightarrow> 'd edit_state \<times> fragment_tree \<times> str \<times> str \<Rightarrow> buffer_snapshot option" where
  "edit_commit b r =
     (case r of (st, t, v, d) \<Rightarrow> do {
        (insertions, _) \<leftarrow> keyed_edit insertion_sum insertion_dim insertion_key (bs_insertions b) (ed_insertions st);
        slices \<leftarrow> ts_extend (bs_insertion_slices b) (ed_slices st);
        Some (b\<lparr>bs_fragments := t, bs_insertions := insertions, bs_visible_text := v, bs_deleted_text := d,
                bs_insertion_slices := slices\<rparr>)
      })"

definition apply_edit_internal ::
  "buffer_snapshot \<Rightarrow> ((nat \<times> nat) \<times> str) list \<Rightarrow> lamport
   \<Rightarrow> (edit_operation \<times> patch \<times> buffer_snapshot) option" where
  "apply_edit_internal b edits timestamp =
     (let op = \<lparr>eo_timestamp = timestamp, eo_version = bs_version b, eo_ranges = [], eo_new_text = []\<rparr> in
      case edits of
        [] \<Rightarrow> Some (op, [], b)
      | ((first_start, _), _) # _ \<Rightarrow> do {
          st \<leftarrow> edit_start b first_start;
          (op, st) \<leftarrow> edit_ranges timestamp edits (op, st);
          r \<leftarrow> edit_finish frag_text_dim visible_pos st;
          b \<leftarrow> edit_commit b r;
          Some (op, ed_patch st, b)
        })"

end
