(* ===== verification/Undo.thy ===== *)
theory Undo
  imports BufferEdit
begin

text \<open>
  Undo operations on a buffer (\<open>crates/text/src/text.rs\<close>): which fragments a set of edits has
  changed, by the slices of insertions and the index, and how their visibility is set anew.
\<close>

section \<open>The fragments that edits have changed\<close>

definition edit_slices :: "insertion_slice tree_set \<Rightarrow> lamport \<Rightarrow> insertion_slice list option" where
  "edit_slices slices edit_id = do {
     ss \<leftarrow> ts_iter_from slices (InsertionSlice (lvalue edit_id) (lreplica edit_id)
        (lvalue LAMPORT_MIN) (lreplica LAMPORT_MIN) 0 0);
     Some (takeWhile (\<lambda>s. slice_edit_id s = edit_id) ss)
   }"

fun all_edit_slices :: "insertion_slice tree_set \<Rightarrow> lamport list \<Rightarrow> insertion_slice list option" where
  "all_edit_slices slices [] = Some []"
| "all_edit_slices slices (d # ds) = do {
     ss \<leftarrow> edit_slices slices d;
     rest \<leftarrow> all_edit_slices slices ds;
     Some (ss @ rest)
   }"

text \<open>The key the slices are sorted by; \<open>Reverse\<close> of the end is its negation.\<close>

definition slice_sort_key :: "insertion_slice \<Rightarrow> lamport \<times> nat \<times> int" where
  "slice_sort_key s = (slice_insertion_id s, sl_start s, - int (sl_end s))"

type_synonym insertion_cursor = "(insertion_fragment, insertion_key, insertion_key) cursor"

partial_function (option) collect_slice_ids ::
  "insertion_slice \<Rightarrow> insertion_cursor \<Rightarrow> locator list \<Rightarrow> (insertion_cursor \<times> locator list) option" where
  "collect_slice_ids s c ids =
     (case cursor_item c of
        None \<Rightarrow> None
      | Some None \<Rightarrow> Some (c, ids)
      | Some (Some item) \<Rightarrow>
          if if_timestamp item \<noteq> slice_insertion_id s \<or> sl_end s \<le> if_split_offset item then Some (c, ids)
          else
            (case cursor_next insertion_dim c of
               None \<Rightarrow> None
             | Some c \<Rightarrow> collect_slice_ids s c (ids @ [if_fragment_id item])))"

fun collect_ids :: "insertion_slice list \<Rightarrow> insertion_cursor \<Rightarrow> locator list \<Rightarrow> locator list option" where
  "collect_ids [] c ids = Some ids"
| "collect_ids (s # ss) c ids = do {
     c \<leftarrow> (if slice_insertion_id s \<noteq> fst (c_position c) \<or> snd (c_position c) < sl_start s
           then map_option snd (cursor_seek_forward insertion_dim (cmp_of (slice_insertion_id s, sl_start s)) Left c)
           else Some c);
     (c, ids) \<leftarrow> collect_slice_ids s c ids;
     collect_ids ss c ids
   }"

definition fragment_ids_for_edits :: "buffer_snapshot \<Rightarrow> lamport list \<Rightarrow> locator list option" where
  "fragment_ids_for_edits b edit_ids = do {
     ss \<leftarrow> all_edit_slices (bs_insertion_slices b) edit_ids;
     ids \<leftarrow> collect_ids (sort_key slice_sort_key ss) (cursor_new insertion_dim (bs_insertions b)) [];
     Some (sort ids)
   }"

section \<open>Applying an undo operation\<close>

text \<open>The variables of the loop; positions of the cursor pair the last identifier with the visible
  length.\<close>

record undo_state =
  us_cursor :: "(fragment, fragment_summary, locator option \<times> nat) cursor"
  us_fragments :: fragment_tree
  us_ropes :: rope_builder
  us_patch :: patch

abbreviation undo_dim_pair :: "(locator option \<times> nat, fragment_summary) dim_ops" where
  "undo_dim_pair \<equiv> pair_dim locator_dim visible_dim"

definition undo_append :: "fragment_tree \<Rightarrow> undo_state \<Rightarrow> undo_state option" where
  "undo_append piece st = do {
     ropes \<leftarrow> rb_append (us_ropes st) (fs_text (summary piece));
     fragments \<leftarrow> stree_append fragment_sum (us_fragments st) piece;
     Some (st\<lparr>us_ropes := ropes, us_fragments := fragments\<rparr>)
   }"

text \<open>The target \<open>Some(id)\<close> compares with the first component of the position, where \<open>None\<close> is least.\<close>

definition locator_target :: "locator \<Rightarrow> (locator option \<times> nat) seek_target" where
  "locator_target l d = (case fst d of None \<Rightarrow> Greater | Some m \<Rightarrow> cmp_of l m)"

definition undo_fragment :: "undo_operation \<Rightarrow> undo_map \<Rightarrow> fragment \<Rightarrow> undo_state \<Rightarrow> undo_state option" where
  "undo_fragment undo undos f st = do {
     visible \<leftarrow> fragment_is_visible f undos;
     let g = f\<lparr>fr_visible := visible, fr_max_undos := global_observe (fr_max_undos f) (uo_timestamp undo)\<rparr>;
     let old_start = snd (c_position (us_cursor st));
     let new_start = ft_visible (fs_text (summary (us_fragments st)));
     let patch =
       (if fr_visible f \<and> \<not> visible
        then patch_push (us_patch st)
          \<lparr>old_start = old_start, old_end = old_start + fr_len g, new_start = new_start, new_end = new_start\<rparr>
        else if \<not> fr_visible f \<and> visible
        then patch_push (us_patch st)
          \<lparr>old_start = old_start, old_end = old_start, new_start = new_start, new_end = new_start + fr_len g\<rparr>
        else us_patch st);
     ropes \<leftarrow> rb_push_fragment (us_ropes st) g (fr_visible f);
     fragments \<leftarrow> stree_push fragment_sum (us_fragments st) g;
     c \<leftarrow> cursor_next undo_dim_pair (us_cursor st);
     Some \<lparr>us_cursor = c, us_fragments = fragments, us_ropes = ropes, us_patch = patch\<rparr>
   }"

fun undo_loop :: "undo_operation \<Rightarrow> undo_map \<Rightarrow> locator list \<Rightarrow> undo_state \<Rightarrow> undo_state option" where
  "undo_loop undo undos [] st = Some st"
| "undo_loop undo undos (i # is) st = do {
     (piece, c) \<leftarrow> cursor_slice fragment_sum undo_dim_pair (locator_target i) Left (us_cursor st);
     st \<leftarrow> undo_append piece (st\<lparr>us_cursor := c\<rparr>);
     item \<leftarrow> cursor_item (us_cursor st);
     st \<leftarrow> (case item of None \<Rightarrow> Some st | Some f \<Rightarrow> undo_fragment undo undos f st);
     undo_loop undo undos is st
   }"

definition apply_undo :: "buffer_snapshot \<Rightarrow> undo_operation \<Rightarrow> (patch \<times> buffer_snapshot) option" where
  "apply_undo b undo = do {
     undos \<leftarrow> um_insert (bs_undo_map b) undo;
     let b = b\<lparr>bs_undo_map := undos\<rparr>;
     ids \<leftarrow> fragment_ids_for_edits b (map fst (uo_counts undo));
     st \<leftarrow> undo_loop undo undos ids
        \<lparr>us_cursor = cursor_new undo_dim_pair (bs_fragments b), us_fragments = stree_new fragment_sum,
         us_ropes = rb_new (text_cursor_new (bs_visible_text b)) (text_cursor_new (bs_deleted_text b)), us_patch = []\<rparr>;
     (suffix, c) \<leftarrow> cursor_suffix fragment_sum undo_dim_pair (us_cursor st);
     st \<leftarrow> undo_append suffix (st\<lparr>us_cursor := c\<rparr>);
     (v, d) \<leftarrow> rb_finish (us_ropes st);
     Some (us_patch st, b\<lparr>bs_fragments := us_fragments st, bs_visible_text := v, bs_deleted_text := d\<rparr>)
   }"

end
