(* ===== verification/Buffer.thy ===== *)
theory Buffer
  imports Undo Subscription OperationQueue "HOL-Library.AList"
begin

text \<open>
  The buffer (\<open>crates/text/src/text.rs\<close>): a snapshot with its history, its clock, the queue of
  deferred operations and the subscriptions to its edits, and the local operations on it: making a
  buffer, editing, transactions, undo and redo. The addresses of the cells of subscriptions and the
  points in time are arguments. The channels of tasks that wait for an edit or a version have no
  effect on the rest of the buffer, and are left out. A buffer holds texts where the program holds ropes.
\<close>

record buffer =
  bf_snapshot :: buffer_snapshot
  bf_history :: history
  bf_deferred_ops :: "operation op_queue"
  bf_deferred_replicas :: "replica_id list"
  bf_clock :: lamport
  bf_topic :: topic
  bf_cells :: sub_store

section \<open>New buffers\<close>

text \<open>The loop over the base text, cut into fragments of at most \<open>MAX_INSERTION_LEN\<close> bytes.\<close>

partial_function (option) base_loop ::
  "str \<Rightarrow> lamport \<Rightarrow> nat \<Rightarrow> nat \<Rightarrow> locator \<Rightarrow> fragment_tree \<times> insertion_tree \<Rightarrow> (fragment_tree \<times> insertion_tree) option" where
  "base_loop base_text timestamp insertion_offset text_offset prev trees =
     (if text_offset < str_len base_text then
        let target_end = min (str_len base_text) (text_offset + MAX_INSERTION_LEN);
            chunk_end = (if target_end = str_len base_text then target_end
                         else str_floor_char_boundary base_text target_end) in
        case csub chunk_end text_offset of
          None \<Rightarrow> None
        | Some len_of_chunk \<Rightarrow>
            let f = \<lparr>fr_id = locator_between prev locator_max, fr_timestamp = timestamp,
                     fr_insertion_offset = insertion_offset, fr_len = as_u32 len_of_chunk, fr_visible = True,
                     fr_deletions = [], fr_max_undos = global_new\<rparr> in
            (case stree_push insertion_sum (snd trees) (insertion_fragment_new f) of
               None \<Rightarrow> None
             | Some insertions \<Rightarrow>
                 (case stree_push fragment_sum (fst trees) f of
                    None \<Rightarrow> None
                  | Some fragments \<Rightarrow>
                      base_loop base_text timestamp (add_u32 insertion_offset (as_u32 len_of_chunk)) chunk_end
                        (fr_id f) (fragments, insertions)))
      else Some trees)"

definition new_normalized :: "replica_id \<Rightarrow> nat \<Rightarrow> line_ending \<Rightarrow> str \<Rightarrow> buffer option" where
  "new_normalized replica_id remote_id ending normalized = do {
     let history = history_new normalized;
     let clock = lamport_new replica_id;
     let text = hi_base_text history;
     (clock, version, fragments, insertions) \<leftarrow>
       (if text \<noteq> [] then do {
          let timestamp = lamport_new REPLICA_LOCAL;
          trees \<leftarrow> base_loop text timestamp 0 0 locator_min (stree_new fragment_sum, stree_new insertion_sum);
          Some (lamport_observe clock timestamp, global_observe global_new timestamp, trees)
        } else Some (clock, global_new, stree_new fragment_sum, stree_new insertion_sum));
     Some \<lparr>bf_snapshot =
         \<lparr>bs_visible_text = text, bs_deleted_text = [], bs_fragments = fragments, bs_insertions = insertions,
          bs_insertion_slices = tm_new, bs_undo_map = um_new, bs_version = version, bs_remote_id = remote_id,
          bs_replica_id = replica_id, bs_line_ending = ending\<rparr>,
       bf_history = history, bf_deferred_ops = oq_new operation_timestamp, bf_deferred_replicas = [],
       bf_clock = clock, bf_topic = topic_new, bf_cells = Map.empty\<rparr>
   }"

definition buffer_new :: "replica_id \<Rightarrow> nat \<Rightarrow> str \<Rightarrow> buffer option" where
  "buffer_new replica_id remote_id base_text = do {
     ending \<leftarrow> line_ending_detect base_text;
     new_normalized replica_id remote_id ending (line_ending_normalize base_text)
   }"

definition buffer_branch :: "buffer \<Rightarrow> buffer" where
  "buffer_branch b = \<lparr>bf_snapshot = bf_snapshot b, bf_history = history_new (hi_base_text (bf_history b)),
     bf_deferred_ops = oq_new operation_timestamp, bf_deferred_replicas = [],
     bf_clock = lamport_new REPLICA_LOCAL_BRANCH, bf_topic = topic_new, bf_cells = Map.empty\<rparr>"

definition set_line_ending :: "buffer \<Rightarrow> line_ending \<Rightarrow> buffer" where
  "set_line_ending b e = b\<lparr>bf_snapshot := (bf_snapshot b)\<lparr>bs_line_ending := e\<rparr>\<rparr>"

definition buffer_subscribe :: "sub_id \<Rightarrow> buffer \<Rightarrow> buffer" where
  "buffer_subscribe fresh b =
     (let (topic, cells) = topic_subscribe fresh (bf_topic b) (bf_cells b) in b\<lparr>bf_topic := topic, bf_cells := cells\<rparr>)"

section \<open>Transactions\<close>

definition buffer_start_transaction_at :: "buffer \<Rightarrow> nat \<Rightarrow> transaction_id option \<times> buffer" where
  "buffer_start_transaction_at b now =
     (let (tid, h, clock) = start_transaction (bf_history b) (bs_version (bf_snapshot b)) now (bf_clock b)
      in (tid, b\<lparr>bf_history := h, bf_clock := clock\<rparr>))"

definition buffer_end_transaction_at :: "buffer \<Rightarrow> nat \<Rightarrow> ((transaction_id \<times> global) option \<times> buffer) option" where
  "buffer_end_transaction_at b now = do {
     (entry, h) \<leftarrow> end_transaction (bf_history b) now;
     case entry of
       Some e \<Rightarrow> do {
         let since = tn_start (he_transaction e);
         (tid, h) \<leftarrow> history_group h;
         tid \<leftarrow> tid;
         Some (Some (tid, since), b\<lparr>bf_history := h\<rparr>)
       }
     | None \<Rightarrow> Some (None, b\<lparr>bf_history := h\<rparr>)
   }"

section \<open>Local edits\<close>

text \<open>\<open>to_offset\<close> of an offset: a floor when it is not on a character boundary.\<close>

definition usize_to_offset :: "buffer_snapshot \<Rightarrow> nat \<Rightarrow> nat" where
  "usize_to_offset b i =
     (if str_is_char_boundary (bs_visible_text b) i then i else str_floor_char_boundary (bs_visible_text b) i)"

definition publish_edits :: "patch \<Rightarrow> buffer \<Rightarrow> buffer option" where
  "publish_edits p b = do {
     (topic, cells) \<leftarrow> topic_publish p (bf_topic b) (bf_cells b);
     Some (b\<lparr>bf_topic := topic, bf_cells := cells\<rparr>)
   }"

definition apply_local_edit ::
  "((nat \<times> nat) \<times> str) list \<Rightarrow> lamport \<Rightarrow> buffer \<Rightarrow> (edit_operation \<times> buffer) option" where
  "apply_local_edit edits timestamp b = do {
     let edits = map (\<lambda>((s, e), t). ((usize_to_offset (bf_snapshot b) s, usize_to_offset (bf_snapshot b) e), t)) edits;
     (op, p, snapshot) \<leftarrow> apply_edit_internal (bf_snapshot b) edits timestamp;
     b \<leftarrow> publish_edits p (b\<lparr>bf_snapshot := snapshot\<rparr>);
     Some (op, b)
   }"

definition observe_version :: "lamport \<Rightarrow> buffer \<Rightarrow> buffer" where
  "observe_version t b =
     b\<lparr>bf_snapshot := (bf_snapshot b)\<lparr>bs_version := global_observe (bs_version (bf_snapshot b)) t\<rparr>\<rparr>"

definition buffer_edit :: "((nat \<times> nat) \<times> str) list \<Rightarrow> nat \<Rightarrow> nat \<Rightarrow> buffer \<Rightarrow> (operation \<times> buffer) option" where
  "buffer_edit edits started ended b = do {
     let (_, b) = buffer_start_transaction_at b started;
     let (timestamp, clock) = tick (bf_clock b);
     (op, b) \<leftarrow> apply_local_edit edits timestamp (b\<lparr>bf_clock := clock\<rparr>);
     h \<leftarrow> history_push (bf_history b) (Edit_op op);
     h \<leftarrow> push_undo h (eo_timestamp op);
     let b = observe_version (eo_timestamp op) (b\<lparr>bf_history := h\<rparr>);
     (_, b) \<leftarrow> buffer_end_transaction_at b ended;
     Some (Edit_op op, b)
   }"

section \<open>Undo and redo\<close>

definition undo_operations :: "(lamport \<times> seq) list \<Rightarrow> buffer \<Rightarrow> (operation \<times> buffer) option" where
  "undo_operations counts b = do {
     let (timestamp, clock) = tick (bf_clock b);
     let undo = \<lparr>uo_timestamp = timestamp, uo_version = bs_version (bf_snapshot b), uo_counts = counts\<rparr>;
     let b = observe_version timestamp (b\<lparr>bf_clock := clock\<rparr>);
     (p, snapshot) \<leftarrow> apply_undo (bf_snapshot b) undo;
     b \<leftarrow> publish_edits p (b\<lparr>bf_snapshot := snapshot\<rparr>);
     Some (Undo_op undo, b)
   }"

text \<open>The counts of the edits of a transaction, one up: later entries of an edit replace earlier ones.\<close>

fun next_counts :: "undo_map \<Rightarrow> lamport list \<Rightarrow> (lamport \<times> seq) list \<Rightarrow> (lamport \<times> seq) list option" where
  "next_counts undos [] counts = Some counts"
| "next_counts undos (d # ds) counts = do {
     n \<leftarrow> um_undo_count undos d;
     next_counts undos ds (AList.update d (if n = - 1 then n else n + 1) counts)
   }"

definition undo_or_redo :: "transaction \<Rightarrow> buffer \<Rightarrow> (operation \<times> buffer) option" where
  "undo_or_redo t b = do {
     counts \<leftarrow> next_counts (bs_undo_map (bf_snapshot b)) (tn_edit_ids t) [];
     (op, b) \<leftarrow> undo_operations counts b;
     h \<leftarrow> history_push (bf_history b) op;
     Some (op, b\<lparr>bf_history := h\<rparr>)
   }"

fun undo_or_redo_all :: "transaction list \<Rightarrow> buffer \<Rightarrow> (operation list \<times> buffer) option" where
  "undo_or_redo_all [] b = Some ([], b)"
| "undo_or_redo_all (t # ts) b = do {
     (op, b) \<leftarrow> undo_or_redo t b;
     (ops, b) \<leftarrow> undo_or_redo_all ts b;
     Some (op # ops, b)
   }"

definition buffer_undo :: "buffer \<Rightarrow> ((transaction_id \<times> operation) option \<times> buffer) option" where
  "buffer_undo b = do {
     (entry, h) \<leftarrow> pop_undo (bf_history b);
     case entry of
       Some e \<Rightarrow> do {
         (op, b) \<leftarrow> undo_or_redo (he_transaction e) (b\<lparr>bf_history := h\<rparr>);
         Some (Some (transaction_id e, op), b)
       }
     | None \<Rightarrow> Some (None, b\<lparr>bf_history := h\<rparr>)
   }"

definition buffer_redo :: "buffer \<Rightarrow> ((transaction_id \<times> operation) option \<times> buffer) option" where
  "buffer_redo b = do {
     (entry, h) \<leftarrow> pop_redo (bf_history b);
     case entry of
       Some e \<Rightarrow> do {
         (op, b) \<leftarrow> undo_or_redo (he_transaction e) (b\<lparr>bf_history := h\<rparr>);
         Some (Some (transaction_id e, op), b)
       }
     | None \<Rightarrow> Some (None, b\<lparr>bf_history := h\<rparr>)
   }"

definition undo_transaction :: "transaction_id \<Rightarrow> buffer \<Rightarrow> (operation option \<times> buffer) option" where
  "undo_transaction tid b = do {
     (entry, h) \<leftarrow> remove_from_undo (bf_history b) tid;
     case entry of
       Some e \<Rightarrow> do {
         (op, b) \<leftarrow> undo_or_redo (he_transaction e) (b\<lparr>bf_history := h\<rparr>);
         Some (Some op, b)
       }
     | None \<Rightarrow> Some (None, b\<lparr>bf_history := h\<rparr>)
   }"

definition undo_to_transaction :: "transaction_id \<Rightarrow> buffer \<Rightarrow> (operation list \<times> buffer) option" where
  "undo_to_transaction tid b = do {
     (entries, h) \<leftarrow> remove_from_undo_until (bf_history b) tid;
     undo_or_redo_all (map he_transaction entries) (b\<lparr>bf_history := h\<rparr>)
   }"

definition redo_to_transaction :: "transaction_id \<Rightarrow> buffer \<Rightarrow> (operation list \<times> buffer) option" where
  "redo_to_transaction tid b = do {
     (entries, h) \<leftarrow> remove_from_redo (bf_history b) tid;
     undo_or_redo_all (map he_transaction entries) (b\<lparr>bf_history := h\<rparr>)
   }"

end
