(* ===== verification/Anchors.thy ===== *)
theory Anchors
  imports Buffer RopeSummary
begin

text \<open>
  Anchors (\<open>crates/text/src/anchor.rs\<close> and the methods of \<open>BufferSnapshot\<close> in \<open>text.rs\<close>): positions
  that stay with the text they are next to. An anchor names an insertion and an offset into its
  text; it is found by way of the index of insertions and the order of the fragments. A measure of texts is a text
  dimension of ropes, read off the summary of a string.
\<close>

record anchor =
  an_replica :: replica_id
  an_value :: seq
  an_offset :: nat
  an_bias :: bias
  an_buffer :: nat

abbreviation U32_MAX :: nat where
  "U32_MAX \<equiv> 4294967295"

definition anchor_new :: "lamport \<Rightarrow> nat \<Rightarrow> bias \<Rightarrow> nat \<Rightarrow> anchor" where
  "anchor_new timestamp off bias buffer_id =
     \<lparr>an_replica = lreplica timestamp, an_value = lvalue timestamp, an_offset = off, an_bias = bias, an_buffer = buffer_id\<rparr>"

definition min_for_buffer :: "nat \<Rightarrow> anchor" where
  "min_for_buffer buffer_id = \<lparr>an_replica = lreplica LAMPORT_MIN, an_value = lvalue LAMPORT_MIN, an_offset = 0,
     an_bias = Left, an_buffer = buffer_id\<rparr>"

definition max_for_buffer :: "nat \<Rightarrow> anchor" where
  "max_for_buffer buffer_id = \<lparr>an_replica = lreplica LAMPORT_MAX, an_value = lvalue LAMPORT_MAX, an_offset = U32_MAX,
     an_bias = Right, an_buffer = buffer_id\<rparr>"

definition min_min_range_for_buffer :: "nat \<Rightarrow> anchor \<times> anchor" where
  "min_min_range_for_buffer buffer_id = (let m = min_for_buffer buffer_id in (m, m))"

definition max_max_range_for_buffer :: "nat \<Rightarrow> anchor \<times> anchor" where
  "max_max_range_for_buffer buffer_id = (let m = max_for_buffer buffer_id in (m, m))"

definition min_max_range_for_buffer :: "nat \<Rightarrow> anchor \<times> anchor" where
  "min_max_range_for_buffer buffer_id = (min_for_buffer buffer_id, max_for_buffer buffer_id)"

definition an_timestamp :: "anchor \<Rightarrow> lamport" where
  "an_timestamp a = Lamport (an_value a) (an_replica a)"

definition an_is_min :: "anchor \<Rightarrow> bool" where
  "an_is_min a \<longleftrightarrow> an_timestamp a = LAMPORT_MIN \<and> an_offset a = 0 \<and> an_bias a = Left"

definition an_is_max :: "anchor \<Rightarrow> bool" where
  "an_is_max a \<longleftrightarrow> an_timestamp a = LAMPORT_MAX \<and> an_offset a = U32_MAX \<and> an_bias a = Right"

text \<open>The bytes of an anchor, each number in little-endian order.\<close>

definition le_bytes :: "nat \<Rightarrow> nat \<Rightarrow> nat list" where
  "le_bytes k n = map (\<lambda>i. n div 256 ^ i mod 256) [0..<k]"

fun bias_num :: "bias \<Rightarrow> nat" where
  "bias_num Left = 0"
| "bias_num Right = 1"

definition opaque_id :: "anchor \<Rightarrow> nat list" where
  "opaque_id a = le_bytes 8 (an_buffer a) @ le_bytes 4 (an_offset a) @ le_bytes 4 (unat (an_value a)) @
     le_bytes 2 (unat (an_replica a)) @ [bias_num (an_bias a)] @ [0]"

section \<open>Finding the fragment of an anchor\<close>

definition try_find_fragment :: "buffer_snapshot \<Rightarrow> anchor \<Rightarrow> insertion_fragment option option" where
  "try_find_fragment b a = do {
     let anchor_key = (an_timestamp a, an_offset a);
     (_, _, found) \<leftarrow> stree_find_with_prev insertion_dim (bs_insertions b) (cmp_of anchor_key) (an_bias a);
     case found of
       Some (prev, i) \<Rightarrow>
         (let comparison = cmp_of (insertion_key i) anchor_key in
          Some (if comparison = Greater \<or> (an_bias a = Left \<and> comparison = Equal \<and> 0 < an_offset a)
                then prev else Some i))
     | None \<Rightarrow> stree_last (bs_insertions b)
   }"

definition try_fragment_id_for_anchor :: "buffer_snapshot \<Rightarrow> anchor \<Rightarrow> locator option option" where
  "try_fragment_id_for_anchor b a =
     (if an_is_min a then Some (Some locator_min)
      else if an_is_max a then Some (Some locator_max)
      else map_option (map_option if_fragment_id) (try_find_fragment b a))"

definition fragment_id_for_anchor :: "buffer_snapshot \<Rightarrow> anchor \<Rightarrow> locator option" where
  "fragment_id_for_anchor b a = do { i \<leftarrow> try_fragment_id_for_anchor b a; i }"

definition find_fragment_at :: "buffer_snapshot \<Rightarrow> locator \<Rightarrow> (locator option \<times> nat) \<times> fragment option" where
  "find_fragment_at b i =
     (let (start, _, item) = stree_find undo_dim_pair (bs_fragments b) (locator_target i) Left in (start, item))"

definition offset_for_anchor :: "buffer_snapshot \<Rightarrow> anchor \<Rightarrow> nat option" where
  "offset_for_anchor b a =
     (if an_is_min a then Some 0
      else if an_is_max a then Some (str_len (bs_visible_text b))
      else do {
        item \<leftarrow> try_find_fragment b a;
        insertion \<leftarrow> item;
        assert_opt (if_timestamp insertion = an_timestamp a);
        let (start, item) = find_fragment_at b (if_fragment_id insertion);
        f \<leftarrow> item;
        let fragment_offset = snd start;
        if fr_visible f then do {
          k \<leftarrow> csub (an_offset a) (if_split_offset insertion);
          Some (fragment_offset + k)
        } else Some fragment_offset
      })"

text \<open>True when the anchor is located inside a visible fragment.\<close>

definition an_is_valid :: "buffer_snapshot \<Rightarrow> anchor \<Rightarrow> bool option" where
  "an_is_valid b a =
     (if an_buffer a \<noteq> bs_remote_id b then Some False
      else if an_is_min a \<or> an_is_max a then Some True
      else do {
        i \<leftarrow> try_fragment_id_for_anchor b a;
        case i of
          None \<Rightarrow> Some False
        | Some i \<Rightarrow> Some (case snd (find_fragment_at b i) of None \<Rightarrow> False | Some f \<Rightarrow> fr_visible f)
      })"

definition can_resolve :: "buffer_snapshot \<Rightarrow> anchor \<Rightarrow> bool" where
  "can_resolve b a \<longleftrightarrow> bs_remote_id b = an_buffer a \<and>
     (an_is_min a \<or> an_is_max a \<or> global_observed (bs_version b) (an_timestamp a))"

section \<open>Comparing anchors\<close>

definition an_cmp :: "buffer_snapshot \<Rightarrow> anchor \<Rightarrow> anchor \<Rightarrow> ordering option" where
  "an_cmp b x y = do {
     ids \<leftarrow> (if an_timestamp x = an_timestamp y then Some Equal
             else do {
               i \<leftarrow> fragment_id_for_anchor b x;
               j \<leftarrow> fragment_id_for_anchor b y;
               Some (cmp_of i j)
             });
     Some (then_with (then_with ids (cmp_of (an_offset x) (an_offset y))) (cmp_of (bias_num (an_bias x)) (bias_num (an_bias y))))
   }"

definition an_min :: "buffer_snapshot \<Rightarrow> anchor \<Rightarrow> anchor \<Rightarrow> anchor option" where
  "an_min b x y = do { c \<leftarrow> an_cmp b x y; Some (if c \<noteq> Greater then x else y) }"

definition an_max :: "buffer_snapshot \<Rightarrow> anchor \<Rightarrow> anchor \<Rightarrow> anchor option" where
  "an_max b x y = do { c \<leftarrow> an_cmp b x y; Some (if c \<noteq> Less then x else y) }"

definition an_range_cmp :: "buffer_snapshot \<Rightarrow> anchor \<times> anchor \<Rightarrow> anchor \<times> anchor \<Rightarrow> ordering option" where
  "an_range_cmp b x y = do {
     c \<leftarrow> an_cmp b (fst x) (fst y);
     if c = Equal then an_cmp b (snd y) (snd x) else Some c
   }"

definition an_range_overlaps :: "buffer_snapshot \<Rightarrow> anchor \<times> anchor \<Rightarrow> anchor \<times> anchor \<Rightarrow> bool option" where
  "an_range_overlaps b x y = do {
     c \<leftarrow> an_cmp b (fst x) (snd y);
     if c = Less then do { d \<leftarrow> an_cmp b (fst y) (snd x); Some (d = Less) } else Some False
   }"

definition contains_anchor :: "buffer_snapshot \<Rightarrow> anchor \<times> anchor \<Rightarrow> anchor \<Rightarrow> bool option" where
  "contains_anchor b x y = do {
     c \<leftarrow> an_cmp b (fst x) y;
     if c \<noteq> Greater then do { d \<leftarrow> an_cmp b (snd x) y; Some (d \<noteq> Less) } else Some False
   }"

section \<open>Making anchors\<close>

definition anchor_at_offset :: "buffer_snapshot \<Rightarrow> nat \<Rightarrow> bias \<Rightarrow> anchor option" where
  "anchor_at_offset b off bias =
     (if bias = Left \<and> off = 0 then Some (min_for_buffer (bs_remote_id b))
      else if bias = Right \<and> str_len (bs_visible_text b) \<le> off then Some (max_for_buffer (bs_remote_id b))
      else
        let off = (if str_is_char_boundary (bs_visible_text b) off then off
                   else case bias of Left \<Rightarrow> str_floor_char_boundary (bs_visible_text b) off
                                   | Right \<Rightarrow> str_ceil_char_boundary (bs_visible_text b) off);
            (start, _, item) = stree_find visible_dim (bs_fragments b) (cmp_of off) bias in
        case item of
          None \<Rightarrow> Some (max_for_buffer (bs_remote_id b))
        | Some f \<Rightarrow> do {
            overshoot \<leftarrow> csub off start;
            Some (anchor_new (fr_timestamp f) (add_u32 (fr_insertion_offset f) (as_u32 overshoot)) bias (bs_remote_id b))
          })"

text \<open>A position is what can be turned into an offset (the trait \<open>ToOffset\<close>): a number, by a floor to a
  character boundary, or an anchor.\<close>

type_synonym 'p to_offset = "buffer_snapshot \<Rightarrow> 'p \<Rightarrow> nat option"

definition number_to_offset :: "nat to_offset" where
  "number_to_offset b i = Some (usize_to_offset b i)"

definition anchor_at :: "'p to_offset \<Rightarrow> buffer_snapshot \<Rightarrow> 'p \<Rightarrow> bias \<Rightarrow> anchor option" where
  "anchor_at to_offset b p bias = do { off \<leftarrow> to_offset b p; anchor_at_offset b off bias }"

definition anchor_before :: "'p to_offset \<Rightarrow> buffer_snapshot \<Rightarrow> 'p \<Rightarrow> anchor option" where
  "anchor_before to_offset b p = anchor_at to_offset b p Left"

definition anchor_after :: "'p to_offset \<Rightarrow> buffer_snapshot \<Rightarrow> 'p \<Rightarrow> anchor option" where
  "anchor_after to_offset b p = anchor_at to_offset b p Right"

definition anchor_range_inside :: "'p to_offset \<Rightarrow> buffer_snapshot \<Rightarrow> 'p \<times> 'p \<Rightarrow> (anchor \<times> anchor) option" where
  "anchor_range_inside to_offset b r =
     do { s \<leftarrow> anchor_after to_offset b (fst r); e \<leftarrow> anchor_before to_offset b (snd r); Some (s, e) }"

definition anchor_range_outside :: "'p to_offset \<Rightarrow> buffer_snapshot \<Rightarrow> 'p \<times> 'p \<Rightarrow> (anchor \<times> anchor) option" where
  "anchor_range_outside to_offset b r =
     do { s \<leftarrow> anchor_before to_offset b (fst r); e \<leftarrow> anchor_after to_offset b (snd r); Some (s, e) }"

definition bias_left :: "buffer_snapshot \<Rightarrow> anchor \<Rightarrow> anchor option" where
  "bias_left b a = (case an_bias a of Left \<Rightarrow> Some a | Right \<Rightarrow> anchor_before offset_for_anchor b a)"

definition bias_right :: "buffer_snapshot \<Rightarrow> anchor \<Rightarrow> anchor option" where
  "bias_right b a = (case an_bias a of Left \<Rightarrow> anchor_after offset_for_anchor b a | Right \<Rightarrow> Some a)"

definition with_bias :: "buffer_snapshot \<Rightarrow> anchor \<Rightarrow> bias \<Rightarrow> anchor option" where
  "with_bias b a bias = (case bias of Left \<Rightarrow> bias_left b a | Right \<Rightarrow> bias_right b a)"

section \<open>Summaries of anchors\<close>

text \<open>Every text dimension reads a summary by adding it to its zero.\<close>

definition from_text_summary :: "'d text_dimension \<Rightarrow> text_summary \<Rightarrow> 'd" where
  "from_text_summary E s = dm_add (td_dim E) (dm_zero (td_dim E)) s"

definition text_cursor_summary :: "'d text_dimension \<Rightarrow> text_cursor \<Rightarrow> nat \<Rightarrow> ('d \<times> text_cursor) option" where
  "text_cursor_summary E c end_offset = do {
     (s, c) \<leftarrow> text_cursor_slice c end_offset;
     Some (from_text_summary E (text_of s), c)
   }"

definition text_summary_for_range :: "'d text_dimension \<Rightarrow> 'p to_offset \<Rightarrow> buffer_snapshot \<Rightarrow> 'p \<times> 'p \<Rightarrow> 'd option" where
  "text_summary_for_range E to_offset b r = do {
     start \<leftarrow> to_offset b (fst r);
     (_, c) \<leftarrow> text_cursor_slice (text_cursor_new (bs_visible_text b)) start;
     end_offset \<leftarrow> to_offset b (snd r);
     (d, _) \<leftarrow> text_cursor_summary E c end_offset;
     Some d
   }"

definition summary_for_anchor :: "'d text_dimension \<Rightarrow> buffer_snapshot \<Rightarrow> anchor \<Rightarrow> 'd option" where
  "summary_for_anchor E b a = do { off \<leftarrow> offset_for_anchor b a; text_summary_for_range E number_to_offset b (0, off) }"

text \<open>The iterator over anchors keeps a cursor over the fragments, one over the text, and the summary so far.\<close>

fun summaries_loop ::
  "'d text_dimension \<Rightarrow> buffer_snapshot \<Rightarrow> (anchor \<times> 'p) list
   \<Rightarrow> (fragment, fragment_summary, locator option \<times> nat) cursor \<Rightarrow> text_cursor \<Rightarrow> 'd \<Rightarrow> ('d \<times> 'p) list option" where
  "summaries_loop E b [] c tc position = Some []"
| "summaries_loop E b ((a, payload) # as) c tc position =
     (if an_is_min a then map_option (Cons (dm_zero (td_dim E), payload)) (summaries_loop E b as c tc position)
      else if an_is_max a
      then map_option (Cons (from_text_summary E (text_of (bs_visible_text b)), payload)) (summaries_loop E b as c tc position)
      else do {
        item \<leftarrow> try_find_fragment b a;
        insertion \<leftarrow> item;
        assert_opt (if_timestamp insertion = an_timestamp a);
        (_, c) \<leftarrow> cursor_seek_forward undo_dim_pair (locator_target (if_fragment_id insertion)) Left c;
        item \<leftarrow> cursor_item c;
        f \<leftarrow> item;
        let fragment_offset = snd (c_position c);
        fragment_offset \<leftarrow> (if fr_visible f then do {
             k \<leftarrow> csub (an_offset a) (if_split_offset insertion);
             Some (fragment_offset + k)
           } else Some fragment_offset);
        (d, tc) \<leftarrow> text_cursor_summary E tc fragment_offset;
        let position = td_add E position d;
        map_option (Cons (position, payload)) (summaries_loop E b as c tc position)
      })"

definition summaries_for_anchors_with_payload ::
  "'d text_dimension \<Rightarrow> buffer_snapshot \<Rightarrow> (anchor \<times> 'p) list \<Rightarrow> ('d \<times> 'p) list option" where
  "summaries_for_anchors_with_payload E b as =
     summaries_loop E b as (cursor_new undo_dim_pair (bs_fragments b)) (text_cursor_new (bs_visible_text b)) (dm_zero (td_dim E))"

definition summaries_for_anchors :: "'d text_dimension \<Rightarrow> buffer_snapshot \<Rightarrow> anchor list \<Rightarrow> 'd list option" where
  "summaries_for_anchors E b as =
     map_option (map fst) (summaries_for_anchors_with_payload E b (map (\<lambda>a. (a, ())) as))"

end
