(* ===== verification/BufferInv.thy ===== *)
theory BufferInv
  imports BufferEdit
begin

text \<open>
  The invariant of a buffer. \<open>ins\<close> gives every insertion its text; a fragment stands for a part of
  it. The visible and the deleted text are those of the visible and the deleted fragments in the
  order of their locators, fragments of one insertion do not overlap, the index has one entry per
  fragment, every change of a fragment is recorded by an insertion slice that covers it, and the
  flag of a fragment is the visibility that the undo map gives it.
\<close>

section \<open>The text of a fragment\<close>

type_synonym insertions = "lamport \<Rightarrow> str"

definition frag_str :: "insertions \<Rightarrow> fragment \<Rightarrow> str option" where
  "frag_str ins f = str_slice (ins (fr_timestamp f)) (fr_insertion_offset f) (fr_insertion_offset f + fr_len f)"

definition fstr :: "insertions \<Rightarrow> fragment \<Rightarrow> str" where
  "fstr ins f = (case frag_str ins f of Some s \<Rightarrow> s | None \<Rightarrow> [])"

definition vtext :: "insertions \<Rightarrow> fragment list \<Rightarrow> str" where
  "vtext ins fs = concat (map (fstr ins) (filter fr_visible fs))"

definition dtext :: "insertions \<Rightarrow> fragment list \<Rightarrow> str" where
  "dtext ins fs = concat (map (fstr ins) (filter (\<lambda>f. \<not> fr_visible f) fs))"

lemma vtext_simps [simp]:
  "vtext ins [] = []" "vtext ins (f # fs) = (if fr_visible f then fstr ins f else []) @ vtext ins fs"
  "vtext ins (xs @ ys) = vtext ins xs @ vtext ins ys"
  by (simp_all add: vtext_def)

lemma dtext_simps [simp]:
  "dtext ins [] = []" "dtext ins (f # fs) = (if fr_visible f then [] else fstr ins f) @ dtext ins fs"
  "dtext ins (xs @ ys) = dtext ins xs @ dtext ins ys"
  by (simp_all add: dtext_def)

lemma frag_str_Some:
  "frag_str ins f = Some t \<longleftrightarrow>
   (\<exists>a b. ins (fr_timestamp f) = a @ t @ b \<and> str_len a = fr_insertion_offset f \<and> str_len t = fr_len f)"
  unfolding frag_str_def str_slice_Some by auto

lemma str_len_fstr:
  assumes "frag_str ins f \<noteq> None"
  shows "str_len (fstr ins f) = fr_len f"
proof -
  obtain t where t: "frag_str ins f = Some t" using assms by blast
  then have "str_len t = fr_len f" by (auto simp: frag_str_Some)
  then show ?thesis using t by (simp add: fstr_def)
qed

definition readable :: "insertions \<Rightarrow> fragment list \<Rightarrow> bool" where
  "readable ins fs \<longleftrightarrow> (\<forall>f \<in> set fs. frag_str ins f \<noteq> None)"

lemma readable_simps [simp]:
  "readable ins []" "readable ins (f # fs) \<longleftrightarrow> frag_str ins f \<noteq> None \<and> readable ins fs"
  "readable ins (xs @ ys) \<longleftrightarrow> readable ins xs \<and> readable ins ys"
  by (auto simp: readable_def)

lemma str_len_texts:
  "readable ins fs \<Longrightarrow> str_len (vtext ins fs) = vis_len fs"
  "readable ins fs \<Longrightarrow> str_len (dtext ins fs) = del_len fs"
  by (induction fs) (auto simp: str_len_fstr)

text \<open>The two parts of a fragment that is split inside.\<close>

definition take_frag :: "nat \<Rightarrow> fragment \<Rightarrow> fragment" where
  "take_frag k f = f\<lparr>fr_len := k\<rparr>"

definition drop_frag :: "nat \<Rightarrow> fragment \<Rightarrow> fragment" where
  "drop_frag k f = f\<lparr>fr_insertion_offset := fr_insertion_offset f + k, fr_len := fr_len f - k\<rparr>"

lemma frag_parts_sel [simp]:
  "fr_id (take_frag k f) = fr_id f" "fr_id (drop_frag k f) = fr_id f"
  "fr_timestamp (take_frag k f) = fr_timestamp f" "fr_timestamp (drop_frag k f) = fr_timestamp f"
  "fr_insertion_offset (take_frag k f) = fr_insertion_offset f"
  "fr_insertion_offset (drop_frag k f) = fr_insertion_offset f + k"
  "fr_len (take_frag k f) = k" "fr_len (drop_frag k f) = fr_len f - k"
  "fr_visible (take_frag k f) = fr_visible f" "fr_visible (drop_frag k f) = fr_visible f"
  "fr_deletions (take_frag k f) = fr_deletions f" "fr_deletions (drop_frag k f) = fr_deletions f"
  "fr_max_undos (take_frag k f) = fr_max_undos f" "fr_max_undos (drop_frag k f) = fr_max_undos f"
  by (simp_all add: take_frag_def drop_frag_def)

lemma frag_str_split:
  assumes "frag_str ins f = Some (s @ t)" "str_len s = k"
  shows "frag_str ins (take_frag k f) = Some s" "frag_str ins (drop_frag k f) = Some t"
proof -
  obtain a b where ab: "ins (fr_timestamp f) = a @ (s @ t) @ b" "str_len a = fr_insertion_offset f"
    "str_len (s @ t) = fr_len f" using assms(1) by (auto simp: frag_str_Some)
  show "frag_str ins (take_frag k f) = Some s" unfolding frag_str_Some
    using ab assms(2) by (intro exI[of _ a] exI[of _ "t @ b"]) simp
  have "ins (fr_timestamp f) = (a @ s) @ t @ b" "str_len (a @ s) = fr_insertion_offset f + k" "str_len t = fr_len f - k"
    using ab assms(2) by auto
  then show "frag_str ins (drop_frag k f) = Some t" unfolding frag_str_Some by (metis frag_parts_sel(4,6,8))
qed

lemma fstr_Some [simp]: "frag_str ins f = Some t \<Longrightarrow> fstr ins f = t"
  by (simp add: fstr_def)

text \<open>The text depends on the insertion and the interval only.\<close>

lemma frag_str_cong:
  "fr_timestamp f = fr_timestamp g \<Longrightarrow> fr_insertion_offset f = fr_insertion_offset g \<Longrightarrow> fr_len f = fr_len g \<Longrightarrow>
   frag_str ins f = frag_str ins g \<and> fstr ins f = fstr ins g"
  by (simp add: frag_str_def fstr_def)

section \<open>Fragments of one insertion are in its order\<close>

definition apart :: "fragment \<Rightarrow> fragment \<Rightarrow> bool" where
  "apart f g \<longleftrightarrow> (fr_timestamp f = fr_timestamp g \<longrightarrow>
     fr_insertion_offset f + fr_len f \<le> fr_insertion_offset g)"

definition frag_key :: "fragment \<Rightarrow> insertion_key" where
  "frag_key f = (fr_timestamp f, fr_insertion_offset f)"

lemma insertion_key_new [simp]: "insertion_key (insertion_fragment_new f) = frag_key f"
  by (simp add: insertion_key_def insertion_fragment_new_def frag_key_def)

lemma apart_key: "apart f g \<Longrightarrow> 0 < fr_len f \<Longrightarrow> 0 < fr_len g \<Longrightarrow> frag_key f \<noteq> frag_key g"
  by (auto simp: apart_def frag_key_def)

text \<open>Parts of a fragment are apart from whatever the fragment is apart from.\<close>

definition within_frag :: "fragment \<Rightarrow> fragment \<Rightarrow> bool" where
  "within_frag n f \<longleftrightarrow> fr_timestamp n = fr_timestamp f \<and> fr_insertion_offset f \<le> fr_insertion_offset n
     \<and> fr_insertion_offset n + fr_len n \<le> fr_insertion_offset f + fr_len f"

lemma apart_within: "apart f g \<Longrightarrow> within_frag n f \<Longrightarrow> apart n g" "apart g f \<Longrightarrow> within_frag n f \<Longrightarrow> apart g n"
  by (auto simp: apart_def within_frag_def)

lemma within_parts [simp]:
  "k \<le> fr_len f \<Longrightarrow> within_frag (take_frag k f) f" "k \<le> fr_len f \<Longrightarrow> within_frag (drop_frag k f) f"
  by (simp_all add: within_frag_def)

lemma apart_parts: "apart (take_frag k f) (drop_frag k f)"
  by (simp add: apart_def)

section \<open>Recorded changes\<close>

text \<open>The base text is inserted by the first timestamp of the local replica; it has no slice.\<close>

definition BASE_STAMP :: lamport where
  "BASE_STAMP = lamport_new REPLICA_LOCAL"

definition changes_of :: "fragment \<Rightarrow> lamport set" where
  "changes_of f = set (fr_deletions f) \<union> (if fr_timestamp f = BASE_STAMP then {} else {fr_timestamp f})"

definition covered :: "insertion_slice set \<Rightarrow> lamport \<Rightarrow> fragment \<Rightarrow> bool" where
  "covered S d f \<longleftrightarrow> (\<exists>s \<in> S. slice_edit_id s = d \<and> slice_insertion_id s = fr_timestamp f
     \<and> sl_start s \<le> fr_insertion_offset f \<and> fr_insertion_offset f + fr_len f \<le> sl_end s)"

lemma covered_mono: "covered S d f \<Longrightarrow> S \<subseteq> T \<Longrightarrow> covered T d f"
  by (auto simp: covered_def)

lemma covered_within: "covered S d f \<Longrightarrow> within_frag n f \<Longrightarrow> covered S d n"
  by (fastforce simp: covered_def within_frag_def)

lemma slice_from_fragment_sel [simp]:
  "slice_edit_id (slice_from_fragment d f) = d" "slice_insertion_id (slice_from_fragment d f) = fr_timestamp f"
  "sl_start (slice_from_fragment d f) = fr_insertion_offset f"
  "fr_insertion_offset f + fr_len f < 2 ^ 32 \<Longrightarrow> sl_end (slice_from_fragment d f) = fr_insertion_offset f + fr_len f"
  by (simp_all add: slice_from_fragment_def slice_edit_id_def slice_insertion_id_def)

lemma covered_slice: "fr_insertion_offset f + fr_len f < 2 ^ 32 \<Longrightarrow> slice_from_fragment d f \<in> S \<Longrightarrow> covered S d f"
  unfolding covered_def by (rule bexI) auto

lemma slice_from_fragment_inj: "slice_from_fragment d f = slice_from_fragment d g \<Longrightarrow> frag_key f = frag_key g"
  by (cases "fr_timestamp f"; cases "fr_timestamp g") (simp add: slice_from_fragment_def frag_key_def)

section \<open>Sound fragments\<close>

text \<open>What holds of each fragment, for the slices \<open>S\<close>, the undo map and the version of the buffer.\<close>

definition sound :: "insertions \<Rightarrow> insertion_slice set \<Rightarrow> undo_map \<Rightarrow> global \<Rightarrow> fragment \<Rightarrow> bool" where
  "sound ins S undos ver f \<longleftrightarrow> frag_wf f \<and> lvalue (fr_timestamp f) \<noteq> 0 \<and> 0 < fr_len f \<and> fr_insertion_offset f + fr_len f < 2 ^ 32 \<and>
     frag_str ins f \<noteq> None \<and> (\<forall>d \<in> changes_of f. covered S d f) \<and>
     fragment_is_visible f undos = Some (fr_visible f) \<and>
     global_observed ver (fr_timestamp f) \<and> (\<forall>d \<in> set (fr_deletions f). global_observed ver d)"

definition id_ok :: "fragment \<Rightarrow> bool" where
  "id_ok f \<longleftrightarrow> locator_min < fr_id f \<and> fr_id f < locator_max \<and> last (fr_id f) \<noteq> 0"

definition ids_ok :: "fragment list \<Rightarrow> bool" where
  "ids_ok fs \<longleftrightarrow> (\<forall>f \<in> set fs. id_ok f) \<and> sorted_wrt (\<lambda>f g. fr_id f < fr_id g) fs"

abbreviation apart_list :: "fragment list \<Rightarrow> bool" where
  "apart_list \<equiv> sorted_wrt apart"

definition frags_ok :: "insertions \<Rightarrow> insertion_slice set \<Rightarrow> undo_map \<Rightarrow> global \<Rightarrow> fragment list \<Rightarrow> bool" where
  "frags_ok ins S undos ver fs \<longleftrightarrow> (\<forall>f \<in> set fs. sound ins S undos ver f) \<and> apart_list fs"

lemma sound_mono: "sound ins S undos ver f \<Longrightarrow> S \<subseteq> T \<Longrightarrow> sound ins T undos ver f"
  by (auto simp: sound_def intro: covered_mono)

lemma fragment_is_visible_cong:
  "fr_timestamp f = fr_timestamp g \<Longrightarrow> fr_deletions f = fr_deletions g \<Longrightarrow>
   fragment_is_visible f undos = fragment_is_visible g undos"
  by (simp only: fragment_is_visible_def)

lemma sound_part:
  assumes "sound ins S undos ver f" "within_frag n f" "0 < fr_len n" "frag_str ins n \<noteq> None"
    "fr_deletions n = fr_deletions f" "fr_max_undos n = fr_max_undos f" "fr_visible n = fr_visible f"
  shows "sound ins S undos ver n"
proof -
  have "changes_of n = changes_of f" "fr_timestamp n = fr_timestamp f"
    using assms(2,5) by (simp_all add: changes_of_def within_frag_def)
  moreover have "fr_insertion_offset n + fr_len n < 2 ^ 32" using assms(1,2) by (simp add: sound_def within_frag_def)
  ultimately show ?thesis using assms covered_within[OF _ assms(2)] fragment_is_visible_cong[of n f undos]
    by (simp add: sound_def frag_wf_def)
qed

lemma sound_readable: "\<forall>f \<in> set fs. sound ins S undos ver f \<Longrightarrow> readable ins fs"
  by (auto simp: readable_def sound_def)

lemma frags_ok_readable: "frags_ok ins S undos ver fs \<Longrightarrow> readable ins fs"
  unfolding frags_ok_def using sound_readable by blast

lemma frags_ok_wf: "frags_ok ins S undos ver fs \<Longrightarrow> frags_wf fs"
  by (auto simp: frags_ok_def sound_def list_all_iff)

text \<open>Different places of a list of sound fragments have different keys.\<close>

lemma apart_list_keys: "apart_list fs \<Longrightarrow> \<forall>f \<in> set fs. 0 < fr_len f \<Longrightarrow> distinct (map frag_key fs)"
  by (induction fs) (auto dest: apart_key)

section \<open>The invariant of a snapshot\<close>

definition snapshot_ok :: "insertions \<Rightarrow> buffer_snapshot \<Rightarrow> bool" where
  "snapshot_ok ins b \<longleftrightarrow>
     wf_tree fragment_sum (bs_fragments b) \<and>
     (let fs = tree_items (bs_fragments b) in
        ids_ok fs \<and> frags_ok ins (ts_elems (bs_insertion_slices b)) (bs_undo_map b) (bs_version b) fs \<and>
        bs_visible_text b = vtext ins fs \<and> bs_deleted_text b = dtext ins fs \<and>
        set (tree_items (bs_insertions b)) = insertion_fragment_new ` set fs) \<and>
     wf_tree insertion_sum (bs_insertions b) \<and> key_sorted insertion_key (\<lambda>_. True) (tree_items (bs_insertions b)) \<and>
     tm_inv (bs_insertion_slices b) \<and> um_inv (bs_undo_map b) \<and>
     (\<forall>s \<in> ts_elems (bs_insertion_slices b). sl_insertion_value s \<noteq> 0) \<and>
     (\<forall>k \<in> dom (um_map (bs_undo_map b)). global_observed (bs_version b) (fst k)) \<and>
     wf_global (bs_version b)"

text \<open>The trees of the buffer fit the stack of a cursor.\<close>

definition snapshot_room :: "buffer_snapshot \<Rightarrow> bool" where
  "snapshot_room b \<longleftrightarrow> height (bs_fragments b) < STACK_CAP \<and> height (bs_insertions b) < STACK_CAP
     \<and> tm_room (bs_insertion_slices b)"

text \<open>A timestamp the buffer has not observed is not undone.\<close>

lemma fresh_not_undone:
  assumes "um_inv m" "\<forall>k \<in> dom (um_map m). global_observed ver (fst k)" "\<not> global_observed ver t"
  shows "um_is_undone m t = Some False"
proof -
  have "counts_of (um_map m) t (\<lambda>_. True) = {}"
    using assms(2,3) by (fastforce simp: counts_of_def dom_def)
  then have "max_count (um_map m) t (\<lambda>_. True) = 0" by (simp add: max_count_def)
  then show ?thesis using um_counts_ok(2)[OF assms(1), of t] by simp
qed

end
