(* ===== verification/BufferBuild.thy ===== *)
theory BufferBuild
  imports BufferInv
begin

text \<open>
  The builders of an edit: a fragment builder stands for the list of the fragments given to it,
  and a rope builder has read the texts of the fragments consumed so far and written those of the
  new ones.
\<close>

section \<open>The fragment builder\<close>

fun chunk_frags :: "fragment_chunk \<Rightarrow> fragment list" where
  "chunk_frags (Tree_chunk t) = tree_items t"
| "chunk_frags (Loose_chunk fs) = fs"

fun frag_chunk_ok :: "fragment_chunk \<Rightarrow> bool" where
  "frag_chunk_ok (Tree_chunk t) \<longleftrightarrow> wf_tree fragment_sum t"
| "frag_chunk_ok (Loose_chunk fs) \<longleftrightarrow> True"

definition built :: "fragment_builder \<Rightarrow> fragment list \<Rightarrow> bool" where
  "built b fs \<longleftrightarrow> (\<forall>c \<in> set (fb_chunks b). frag_chunk_ok c) \<and> concat (map chunk_frags (fb_chunks b)) = fs \<and>
     fb_summary b = sumof fragment_sum fs \<and> frags_wf fs"

lemma built_summary:
  assumes "built b fs"
  shows "fs_text (fb_summary b) = \<lparr>ft_visible = vis_len fs, ft_deleted = del_len fs\<rparr>"
    "fs_max_id (fb_summary b) = (if fs = [] then locator_min else fr_id (last fs))"
  using assms by (simp_all add: built_def sumof_frags_text sumof_frags_max_id)

lemma fb_new_ok:
  assumes "wf_tree fragment_sum t" "frags_wf (tree_items t)"
  shows "built (fb_new t) (tree_items t)"
  using assms wf_tree_summary[OF assms(1)] wf_tree_is_empty[OF assms(1)] by (auto simp: built_def fb_new_def)

lemma fb_append_ok:
  assumes "built b fs" "wf_tree fragment_sum t" "frags_wf (tree_items t)"
  shows "built (fb_append b t) (fs @ tree_items t)"
  using assms wf_tree_summary[OF assms(2)] wf_tree_is_empty[OF assms(2)] sumof_frags_append[of "tree_items t" fs]
  by (auto simp: built_def fb_append_def)

lemma fb_push_ok:
  assumes "built b fs" "frag_wf f"
  shows "built (fb_push b f) (fs @ [f])"
proof -
  have s: "fragment_summary_add (sumof fragment_sum fs) (fragment_item_summary f) = sumof fragment_sum (fs @ [f])"
    by (simp add: sumof_frags_snoc)
  show ?thesis
  proof (cases "fb_chunks b" rule: rev_cases)
    case Nil
    then show ?thesis using assms s by (simp add: built_def fb_push_def)
  next
    case (snoc cs c)
    then show ?thesis using assms s by (cases c) (auto simp: built_def fb_push_def last_opt_iff)
  qed
qed

lemma fb_collect_ok:
  assumes "\<forall>c \<in> set cs. frag_chunk_ok c" "wf_tree fragment_sum t" "frags_wf (tree_items t @ concat (map chunk_frags cs))"
  shows "\<exists>t'. fb_collect t cs = Some t' \<and> wf_tree fragment_sum t' \<and> tree_items t' = tree_items t @ concat (map chunk_frags cs)"
  using assms
proof (induction t cs rule: fb_collect.induct)
  case (2 t s cs)
  then obtain u where u: "stree_append fragment_sum t s = Some u" "wf_tree fragment_sum u"
    "tree_items u = tree_items t @ tree_items s"
    using frags.stree_append_ok[of t s] by auto
  show ?case using "2.IH"[of u] u "2.prems" by auto
next
  case (3 t fs cs)
  have fs: "frags_wf fs" using "3.prems"(3) by simp
  obtain s where s: "stree_from_iter fragment_sum fs = Some s" "wf_tree fragment_sum s" "tree_items s = fs"
    using frags.stree_from_iter_ok[OF fs] by auto
  then have s': "(if 1024 < length fs then stree_from_par_iter fragment_sum fs else stree_from_iter fragment_sum fs) = Some s"
    using frags.stree_from_par_iter_eq[OF fs] by simp
  obtain u where u: "stree_append fragment_sum t s = Some u" "wf_tree fragment_sum u" "tree_items u = tree_items t @ fs"
    using frags.stree_append_ok[of t s] "3.prems" s by auto
  show ?case using "3.IH"[OF s' u(1)] s' u "3.prems" by auto
qed simp

lemma fb_to_sum_tree_ok:
  assumes "built b fs"
  shows "\<exists>t. fb_to_sum_tree b = Some t \<and> wf_tree fragment_sum t \<and> tree_items t = fs"
  using fb_collect_ok[of "fb_chunks b" "stree_new fragment_sum"] assms
  by (auto simp: fb_to_sum_tree_def built_def wf_tree_def stree_new_def)

section \<open>The rope builder\<close>

definition reads_on :: "text_cursor \<Rightarrow> str \<Rightarrow> str \<Rightarrow> bool" where
  "reads_on c V rest \<longleftrightarrow> tc_text c = V \<and> (\<exists>p. V = p @ rest \<and> tc_offset c = str_len p)"

lemma text_cursor_slice_ok:
  assumes "reads_on c V (x @ rest)" "n = str_len x"
  shows "\<exists>c'. text_cursor_slice c (tc_offset c + n) = Some (x, c') \<and> reads_on c' V rest"
proof -
  obtain p where p: "V = p @ x @ rest" "tc_offset c = str_len p" "tc_text c = V" using assms(1) by (auto simp: reads_on_def)
  have "str_slice V (str_len p) (str_len p + str_len x) = Some x"
    unfolding str_slice_Some using p(1) by blast
  then have "text_cursor_slice c (tc_offset c + n) = Some (x, c\<lparr>tc_offset := str_len p + str_len x\<rparr>)"
    using p(2,3) assms(2) by (simp add: text_cursor_slice_def)
  moreover have "reads_on (c\<lparr>tc_offset := str_len p + str_len x\<rparr>) V rest"
    unfolding reads_on_def using p(1,3) by (intro conjI exI[of _ "p @ x"]) simp_all
  ultimately show ?thesis by blast
qed

definition ropes_at :: "insertions \<Rightarrow> rope_builder \<Rightarrow> str \<Rightarrow> str \<Rightarrow> fragment list \<Rightarrow> fragment list \<Rightarrow> bool" where
  "ropes_at ins b V D ns rem \<longleftrightarrow> reads_on (rb_old_visible b) V (vtext ins rem) \<and> reads_on (rb_old_deleted b) D (dtext ins rem) \<and>
     rb_new_visible b = vtext ins ns \<and> rb_new_deleted b = dtext ins ns"

lemma rb_new_ok: "ropes_at ins (rb_new (text_cursor_new (vtext ins fs)) (text_cursor_new (dtext ins fs))) (vtext ins fs) (dtext ins fs) [] fs"
  by (simp add: ropes_at_def rb_new_def text_cursor_new_def reads_on_def)

lemma rb_append_ok:
  assumes "ropes_at ins b V D ns (xs @ rem)" "readable ins xs"
  shows "\<exists>b'. rb_append b \<lparr>ft_visible = vis_len xs, ft_deleted = del_len xs\<rparr> = Some b' \<and> ropes_at ins b' V D (ns @ xs) rem"
proof -
  have r: "reads_on (rb_old_visible b) V (vtext ins xs @ vtext ins rem)" "reads_on (rb_old_deleted b) D (dtext ins xs @ dtext ins rem)"
    "rb_new_visible b = vtext ins ns" "rb_new_deleted b = dtext ins ns"
    using assms(1) by (simp_all add: ropes_at_def)
  obtain c where c: "text_cursor_slice (rb_old_visible b) (tc_offset (rb_old_visible b) + vis_len xs) = Some (vtext ins xs, c)"
    "reads_on c V (vtext ins rem)" using text_cursor_slice_ok[OF r(1)] str_len_texts(1)[OF assms(2)] by metis
  obtain d where d: "text_cursor_slice (rb_old_deleted b) (tc_offset (rb_old_deleted b) + del_len xs) = Some (dtext ins xs, d)"
    "reads_on d D (dtext ins rem)" using text_cursor_slice_ok[OF r(2)] str_len_texts(2)[OF assms(2)] by metis
  show ?thesis using c d r(3,4) by (simp add: rb_append_def rb_push_def ropes_at_def)
qed

lemma rb_push_fragment_ok:
  assumes "ropes_at ins b V D ns (r # rem)" "frag_str ins r \<noteq> None" "frag_str ins n = frag_str ins r"
  shows "\<exists>b'. rb_push_fragment b n (fr_visible r) = Some b' \<and> ropes_at ins b' V D (ns @ [n]) rem"
proof -
  have n: "fstr ins n = fstr ins r" "fr_len n = str_len (fstr ins r)"
    using assms(2,3) str_len_fstr[of ins n] by (simp_all add: fstr_def)
  show ?thesis
  proof (cases "fr_visible r")
    case True
    then have r: "reads_on (rb_old_visible b) V (fstr ins r @ vtext ins rem)" "reads_on (rb_old_deleted b) D (dtext ins rem)"
      "rb_new_visible b = vtext ins ns" "rb_new_deleted b = dtext ins ns"
      using assms(1) by (simp_all add: ropes_at_def)
    obtain c where c: "text_cursor_slice (rb_old_visible b) (tc_offset (rb_old_visible b) + fr_len n) = Some (fstr ins r, c)"
      "reads_on c V (vtext ins rem)" using text_cursor_slice_ok[OF r(1)] n(2) by metis
    show ?thesis using c r(2-4) True n(1) by (simp add: rb_push_fragment_def rb_push_def ropes_at_def)
  next
    case False
    then have r: "reads_on (rb_old_deleted b) D (fstr ins r @ dtext ins rem)" "reads_on (rb_old_visible b) V (vtext ins rem)"
      "rb_new_visible b = vtext ins ns" "rb_new_deleted b = dtext ins ns"
      using assms(1) by (simp_all add: ropes_at_def)
    obtain c where c: "text_cursor_slice (rb_old_deleted b) (tc_offset (rb_old_deleted b) + fr_len n) = Some (fstr ins r, c)"
      "reads_on c D (dtext ins rem)" using text_cursor_slice_ok[OF r(1)] n(2) by metis
    show ?thesis using c r(2-4) False n(1) by (simp add: rb_push_fragment_def rb_push_def ropes_at_def)
  qed
qed

text \<open>A fragment split in two reads the same texts.\<close>

lemma ropes_at_split:
  assumes "ropes_at ins b V D ns (r # rem)" "fstr ins r = fstr ins r1 @ fstr ins r2"
    "fr_visible r1 = fr_visible r" "fr_visible r2 = fr_visible r"
  shows "ropes_at ins b V D ns (r1 # r2 # rem)"
  using assms by (auto simp: ropes_at_def)

lemma rb_push_str_ok:
  "ropes_at ins b V D ns rem \<Longrightarrow> vtext ins xs = s \<Longrightarrow> dtext ins xs = [] \<Longrightarrow> ropes_at ins (rb_push_str b s) V D (ns @ xs) rem"
  by (simp add: ropes_at_def rb_push_str_def)

lemma rb_finish_ok:
  assumes "ropes_at ins b V D ns []"
  shows "rb_finish b = Some (vtext ins ns, dtext ins ns)"
proof -
  have r: "reads_on (rb_old_visible b) V ([] @ [])" "reads_on (rb_old_deleted b) D ([] @ [])"
    "rb_new_visible b = vtext ins ns" "rb_new_deleted b = dtext ins ns"
    using assms by (simp_all add: ropes_at_def)
  have e: "text_cursor_suffix c = Some []" if "reads_on c W ([] @ [])" for c W
  proof -
    have "str_len (tc_text c) = tc_offset c + 0" using that by (auto simp: reads_on_def)
    then show ?thesis using text_cursor_slice_ok[OF that, of 0] by (auto simp: text_cursor_suffix_def)
  qed
  show ?thesis using e[OF r(1)] e[OF r(2)] r(3,4) by (simp add: rb_finish_def)
qed

section \<open>Pushing rewritten fragments and old ones\<close>

lemma push_rewritten_ok:
  assumes "built (ed_fragments st) ns" "ropes_at ins (ed_ropes st) V D ns (r # rem)" "frag_str ins r \<noteq> None"
    "frag_str ins n = frag_str ins r" "frag_wf n"
  shows "\<exists>ropes. push_rewritten n (fr_visible r) st = Some (st\<lparr>ed_insertions := ed_insertions st @ [insert_new n],
      ed_ropes := ropes, ed_fragments := fb_push (ed_fragments st) n\<rparr>) \<and>
    built (fb_push (ed_fragments st) n) (ns @ [n]) \<and> ropes_at ins ropes V D (ns @ [n]) rem"
  using rb_push_fragment_ok[OF assms(2-4)] fb_push_ok[OF assms(1,5)] by (auto simp: push_rewritten_def)

lemma append_old_ok:
  assumes "built (ed_fragments st) ns" "ropes_at ins (ed_ropes st) V D ns (tree_items t @ rem)"
    "readable ins (tree_items t)" "wf_tree fragment_sum t" "frags_wf (tree_items t)"
  shows "\<exists>ropes. append_old t st = Some (st\<lparr>ed_ropes := ropes, ed_fragments := fb_append (ed_fragments st) t\<rparr>) \<and>
    built (fb_append (ed_fragments st) t) (ns @ tree_items t) \<and> ropes_at ins ropes V D (ns @ tree_items t) rem"
  using rb_append_ok[OF assms(2,3)] fb_append_ok[OF assms(1,4,5)] wf_tree_summary[OF assms(4)]
  by (auto simp: append_old_def sumof_frags_text)

end
