(* ===== verification/BufferWalk.thy ===== *)
theory BufferWalk
  imports BufferBuild RopeProps RopeCursor RopeBytes
begin

text \<open>
  The invariant of the walk of an edit over the old fragments, and its parts: where the cursor
  stands, what has been built, how the new identifiers are ordered, what has been recorded for the
  index and the slices, and what the patch says so far.
\<close>

section \<open>Seeking a visible offset\<close>

lemma ft_target_mono: "mono_target frag_text_dim fragment_sum (visible_target n) fs"
  by (auto simp: mono_target_def dpos_frag_text visible_target_def cmp_of_def)

lemma ft_scan:
  obtains xs r where "seek_scan frag_text_dim fragment_sum (visible_target n) Right pre post = (pre @ xs, r)"
    "post = xs @ r" "vis_len pre \<le> n \<Longrightarrow> vis_len (pre @ xs) \<le> n" "\<And>f fs. r = f # fs \<Longrightarrow> n < vis_len (pre @ xs @ [f])"
proof -
  obtain p r where pr: "seek_scan frag_text_dim fragment_sum (visible_target n) Right pre post = (p, r)" by force
  then obtain xs where xs: "p = pre @ xs" by (auto simp: seek_scan_def dest: scan_prefix)
  have "p @ r = pre @ post" using pr by (simp add: seek_scan_def scan_append_items)
  then have post: "post = xs @ r" using xs by simp
  have passed: "passed frag_text_dim fragment_sum (visible_target n) Right ys \<longleftrightarrow> vis_len ys \<le> n" for ys
    by (auto simp: passed_def passes_def dpos_frag_text visible_target_def cmp_of_def)
  have "vis_len (pre @ xs) \<le> n" if "vis_len pre \<le> n"
  proof (cases "p = pre")
    case False
    then have "passed frag_text_dim fragment_sum (visible_target n) Right p" using scan_passed pr unfolding seek_scan_def by metis
    then show ?thesis using passed xs by simp
  qed (use that xs in simp)
  moreover have "n < vis_len (pre @ xs @ [f])" if "r = f # fs" for f fs
  proof -
    have "\<not> passed frag_text_dim fragment_sum (visible_target n) Right (p @ [f])"
      using scan_stop pr that unfolding seek_scan_def by metis
    then show ?thesis using passed[of "p @ [f]"] xs by simp
  qed
  ultimately show thesis using that[of xs r] pr xs post by blast
qed

section \<open>What is left of the old fragments\<close>

definition rest_of :: "nat \<Rightarrow> fragment list \<Rightarrow> fragment list \<Rightarrow> fragment list \<Rightarrow> bool" where
  "rest_of s pre post rem \<longleftrightarrow> (s = vis_len pre \<and> rem = post) \<or>
     (\<exists>f post' k. post = f # post' \<and> fr_visible f \<and> 0 < k \<and> k \<le> fr_len f \<and> s = vis_len pre + k \<and>
        rem = (if k = fr_len f then post' else drop_frag k f # post'))"

lemma rest_of_vis_len: "rest_of s pre post rem \<Longrightarrow> s + vis_len rem = vis_len (pre @ post) \<and> vis_len pre \<le> s"
  by (auto simp: rest_of_def)

lemma rest_of_bound: "rest_of s pre post rem \<Longrightarrow> s \<le> vis_len (pre @ take 1 post)"
  by (auto simp: rest_of_def)

lemma drop_drop_frag: "drop_frag j (drop_frag k f) = drop_frag (k + j) f"
  by (simp add: drop_frag_def)

lemma drop_frag_0 [simp]: "drop_frag 0 f = f" and take_frag_len [simp]: "take_frag (fr_len f) f = f"
  by (simp_all add: drop_frag_def take_frag_def)

text \<open>The part of a visible fragment under the cursor that is left.\<close>

lemma rest_of_head:
  assumes "rest_of s pre (f # post) rem" "fr_visible f" "s < vis_len pre + fr_len f"
  shows "rem = drop_frag (s - vis_len pre) f # post \<and> vis_len pre \<le> s"
  using assms by (auto simp: rest_of_def)

definition after_part :: "nat \<Rightarrow> fragment \<Rightarrow> fragment list \<Rightarrow> fragment list" where
  "after_part k r rem = (if k = fr_len r then rem else drop_frag k r # rem)"

lemma rest_of_advance:
  assumes "rest_of s pre (f # post) rem" "fr_visible f" "s < e" "e \<le> vis_len pre + fr_len f"
  shows "rest_of e pre (f # post) (after_part (e - s) (drop_frag (s - vis_len pre) f) post)"
proof -
  have le: "vis_len pre \<le> s" using rest_of_vis_len[OF assms(1)] by simp
  let ?k = "e - vis_len pre"
  have "after_part (e - s) (drop_frag (s - vis_len pre) f) post
     = (if ?k = fr_len f then post else drop_frag ?k f # post)"
    using assms(3,4) le by (auto simp: after_part_def drop_drop_frag)
  then have "f # post = f # post \<and> fr_visible f \<and> 0 < ?k \<and> ?k \<le> fr_len f \<and> e = vis_len pre + ?k \<and>
    after_part (e - s) (drop_frag (s - vis_len pre) f) post = (if ?k = fr_len f then post else drop_frag ?k f # post)"
    using assms(2-4) le by auto
  then show ?thesis unfolding rest_of_def by blast
qed

lemma rest_of_done:
  assumes "rest_of s pre (f # post) rem" "fr_visible f" "s = vis_len pre + fr_len f" "0 < fr_len f"
  shows "rem = post"
  using assms by (auto simp: rest_of_def)

section \<open>Fragments built and left\<close>

lemma apart_around:
  assumes "frags_ok ins S u v (ns @ r # rem)" "within_frag n r"
  shows "\<forall>x \<in> set ns. apart x n" "\<forall>x \<in> set rem. apart n x"
proof -
  have a: "\<forall>x \<in> set ns. apart x r" "\<forall>x \<in> set rem. apart r x"
    using assms(1) by (simp_all add: frags_ok_def sorted_wrt_append)
  show "\<forall>x \<in> set ns. apart x n" using a(1) apart_within(2)[OF _ assms(2)] by blast
  show "\<forall>x \<in> set rem. apart n x" using a(2) apart_within(1)[OF _ assms(2)] by blast
qed

lemma sound_monos: "\<forall>f \<in> A. sound ins S u v f \<Longrightarrow> S \<subseteq> T \<Longrightarrow> \<forall>f \<in> A. sound ins T u v f"
  using sound_mono by blast

lemma frags_ok_replace:
  assumes "frags_ok ins S u v (ns @ r # rem)" "within_frag n r" "sound ins T u v n" "S \<subseteq> T"
  shows "frags_ok ins T u v (ns @ n # rem)"
  using apart_around[OF assms(1,2)] assms(1,3) sound_monos[OF _ assms(4), of "set (ns @ r # rem)" ins u v]
  by (simp add: frags_ok_def sorted_wrt_append)

lemma frags_ok_split:
  assumes "frags_ok ins S u v (ns @ r # rem)" "frag_str ins r = Some (s @ t)" "str_len s = k" "0 < k" "k < fr_len r"
  shows "frags_ok ins S u v (ns @ take_frag k r # drop_frag k r # rem)"
proof -
  let ?a = "take_frag k r" and ?b = "drop_frag k r"
  have w: "within_frag ?a r" "within_frag ?b r" using assms(5) by simp_all
  have r: "sound ins S u v r" using assms(1) by (simp add: frags_ok_def)
  have sa: "sound ins S u v ?a" and sb: "sound ins S u v ?b"
    using sound_part[OF r w(1)] sound_part[OF r w(2)] frag_str_split[OF assms(2,3)] assms(4,5) by simp_all
  show ?thesis using apart_around[OF assms(1) w(1)] apart_around[OF assms(1) w(2)] assms(1) sa sb apart_parts
    by (simp add: frags_ok_def sorted_wrt_append)
qed

lemma frags_ok_insert:
  assumes "frags_ok ins S u v (ns @ rem)" "sound ins T u v n" "S \<subseteq> T" "\<forall>x \<in> set ns. apart x n" "\<forall>x \<in> set rem. apart n x"
  shows "frags_ok ins T u v (ns @ n # rem)"
  using assms(1,2,4,5) sound_monos[OF _ assms(3), of "set (ns @ rem)" ins u v]
  by (simp add: frags_ok_def sorted_wrt_append)

text \<open>The head of what is left, cut after \<open>m\<close> bytes.\<close>

lemma cut_head:
  assumes "frags_ok ins S u v (ns @ r # rem)" "ropes_at ins b V D ns (r # rem)" "fr_visible r"
    "fstr ins r = x @ y" "str_len x = m" "0 < m" "m \<le> fr_len r"
  shows "frags_ok ins S u v (ns @ take_frag m r # after_part m r rem) \<and>
    ropes_at ins b V D ns (take_frag m r # after_part m r rem) \<and> frag_str ins (take_frag m r) = Some x"
proof -
  have "frag_str ins r \<noteq> None" using assms(1) by (simp add: frags_ok_def sound_def)
  then have r: "frag_str ins r = Some (x @ y)" using assms(4) by (auto simp: fstr_def)
  note s = frag_str_split[OF r assms(5)]
  show ?thesis
  proof (cases "m = fr_len r")
    case True
    then have "y = []" using r assms(5) by (auto simp: frag_str_Some)
    then show ?thesis using True assms r by (simp add: after_part_def)
  next
    case False
    then show ?thesis
      using frags_ok_split[OF assms(1) r assms(5,6)] ropes_at_split[OF assms(2), of "take_frag m r" "drop_frag m r"] s assms(3,4,7)
      by (simp add: after_part_def)
  qed
qed

section \<open>Identifiers\<close>

lemma ids_ok_snoc: "ids_ok ns \<Longrightarrow> id_ok n \<Longrightarrow> \<forall>m \<in> set ns. fr_id m < fr_id n \<Longrightarrow> ids_ok (ns @ [n])"
  by (auto simp: ids_ok_def sorted_wrt_append)

lemma fresh_id:
  assumes "built b ns" "ids_ok ns" "\<forall>n \<in> set ns. fr_id n < x" "locator_min < x" "x \<le> locator_max" "last x \<noteq> 0"
    "i = locator_between (fs_max_id (fb_summary b)) x"
  shows "\<forall>n \<in> set ns. fr_id n < i" "i < x" "locator_min < i" "i < locator_max" "last i \<noteq> 0"
proof -
  have m: "fs_max_id (fb_summary b) = (if ns = [] then locator_min else fr_id (last ns))"
    by (rule built_summary(2)[OF assms(1)])
  have "fs_max_id (fb_summary b) < x" using assms(3,4) m by simp
  then have i: "fs_max_id (fb_summary b) < i" "i < x" "last i \<noteq> 0"
    using between_greater[of "fs_max_id (fb_summary b)" x] between_less[of "fs_max_id (fb_summary b)" x]
      between_last[of "fs_max_id (fb_summary b)" x] assms(6,7) by simp_all
  have last: "fr_id n \<le> fr_id (last ns)" if "n \<in> set ns" for n
  proof -
    have "ns \<noteq> []" using that by auto
    then obtain ys y where "ns = ys @ [y]" by (metis append_butlast_last_id)
    then show ?thesis using assms(2) that by (auto simp: ids_ok_def sorted_wrt_append)
  qed
  show n: "\<forall>n \<in> set ns. fr_id n < i"
  proof
    fix n assume n: "n \<in> set ns"
    then have "fs_max_id (fb_summary b) = fr_id (last ns)" using m by (auto split: if_splits)
    then show "fr_id n < i" using last[OF n] i(1) by simp
  qed
  show "i < x" "last i \<noteq> 0" by (rule i)+
  show "i < locator_max" using i(2) assms(5) by simp
  show "locator_min < i"
  proof (cases "ns = []")
    case False
    then have "last ns \<in> set ns" by simp
    then have "locator_min < fr_id (last ns)" "fr_id (last ns) < i" using assms(2) n by (auto simp: ids_ok_def id_ok_def)
    then show ?thesis by (rule less_trans)
  qed (use i(1) m in simp)
qed

section \<open>Patches between texts\<close>

definition patched :: "str \<Rightarrow> str \<Rightarrow> patch \<Rightarrow> nat \<Rightarrow> nat \<Rightarrow> bool" where
  "patched V B p i j \<longleftrightarrow> patch_seg (as_bytes V) (as_bytes B) 0 0 p i j \<and> patch_normal p"

lemma patched_keep:
  assumes "patched V B p (str_len a) (str_len c)" "V = a @ x @ b" "B = c @ x @ d"
  shows "patched V B p (str_len a + str_len x) (str_len c + str_len x)"
proof -
  have "kept (as_bytes V) (as_bytes B) (str_len a) (str_len c) (str_len a + str_len x) (str_len c + str_len x)"
    using assms(2,3) by (intro keptI[where n = "str_len x"]) (simp_all add: nth_append)
  then show ?thesis using assms(1) patch_seg_extend unfolding patched_def by blast
qed

lemma patched_push:
  assumes "patched V B p i j" "i \<le> i'" "j \<le> j'" "i' \<le> str_len V" "j' \<le> str_len B"
  shows "patched V B (patch_push p \<lparr>old_start = i, old_end = i', new_start = j, new_end = j'\<rparr>) i' j'"
  using patch_push_ok[of "as_bytes V" "as_bytes B" p "\<lparr>old_start = i, old_end = i', new_start = j, new_end = j'\<rparr>"] assms
  by (simp add: patched_def edit_ordered_def)

section \<open>The index and the slices\<close>

text \<open>\<open>N\<close> are the fragments given to the index, \<open>F\<close> those given to the slices.\<close>

definition recorded ::
  "lamport \<Rightarrow> 'd edit_state \<Rightarrow> fragment list \<Rightarrow> fragment list \<Rightarrow> fragment list \<Rightarrow> fragment list \<Rightarrow> fragment list \<Rightarrow> bool" where
  "recorded ts st pre cur ns N F \<longleftrightarrow>
     ed_insertions st = map insert_new N \<and> distinct (map frag_key N) \<and> set N \<subseteq> set ns \<and> set ns - set N \<subseteq> set pre \<and>
     (\<forall>f \<in> set pre. f \<in> set ns \<or> frag_key f \<in> frag_key ` set N) \<and> (\<forall>f \<in> set cur. frag_key f \<in> frag_key ` set N) \<and>
     ed_slices st = map (slice_from_fragment ts) F \<and> distinct (map frag_key F) \<and> set F \<subseteq> set ns"

lemma frags_ok_new_key:
  assumes "frags_ok ins S u v (ns @ n # rem)" "m \<in> set ns"
  shows "frag_key m \<noteq> frag_key n"
proof -
  have "apart m n" "0 < fr_len m" "0 < fr_len n" using assms by (auto simp: frags_ok_def sound_def sorted_wrt_append)
  then show ?thesis by (rule apart_key)
qed

lemma recorded_push:
  assumes "recorded ts st pre cur ns N F" "frags_ok ins S u v (ns @ n # rem)"
    "ed_insertions st' = ed_insertions st @ [insert_new n]"
    "ed_slices st' = ed_slices st @ (if sliced then [slice_from_fragment ts n] else [])"
    "\<forall>f \<in> set cur'. f \<in> set cur \<or> frag_key f = frag_key n"
  shows "recorded ts st' pre cur' (ns @ [n]) (N @ [n]) (F @ (if sliced then [n] else []))"
proof -
  have "frag_key n \<notin> frag_key ` set ns" using frags_ok_new_key[OF assms(2)] by force
  then have "frag_key n \<notin> frag_key ` set N" "frag_key n \<notin> frag_key ` set F" using assms(1) by (auto simp: recorded_def)
  moreover have "\<forall>f \<in> set cur'. frag_key f \<in> frag_key ` set (N @ [n])" using assms(1,5) by (auto simp: recorded_def)
  moreover have "\<forall>f \<in> set pre. f \<in> set (ns @ [n]) \<or> frag_key f \<in> frag_key ` set (N @ [n])" using assms(1) by (auto simp: recorded_def)
  ultimately show ?thesis using assms(1,3,4) by (auto simp: recorded_def)
qed

lemma recorded_keep:
  assumes "recorded ts st pre [] ns N F" "ed_insertions st' = ed_insertions st" "ed_slices st' = ed_slices st"
  shows "recorded ts st' (pre @ xs) [] (ns @ xs) N F"
  using assms by (auto simp: recorded_def)

lemma recorded_next:
  assumes "recorded ts st pre [f] ns N F" "ed_insertions st' = ed_insertions st" "ed_slices st' = ed_slices st"
  shows "recorded ts st' (pre @ [f]) [] ns N F"
  using assms by (auto simp: recorded_def)

lemma recorded_same:
  assumes "recorded ts st pre cur ns N F" "ed_insertions st' = ed_insertions st" "ed_slices st' = ed_slices st"
  shows "recorded ts st' pre cur ns N F"
  using assms by (simp add: recorded_def)

end
