(* ===== verification/BufferSteps.thy ===== *)
theory BufferSteps
  imports BufferWalk
begin

text \<open>
  The steps of a local edit keep the invariant of the walk: jumping over fragments, cutting one at
  the start of a range, inserting text, marking fragments deleted and consuming the rest.
\<close>

section \<open>The invariant of the walk\<close>

text \<open>The buffer an edit starts from; \<open>ins\<close> has the text of the new insertion already.\<close>

abbreviation old_frags :: "buffer_snapshot \<Rightarrow> fragment list" where
  "old_frags b \<equiv> tree_items (bs_fragments b)"

definition new_version :: "buffer_snapshot \<Rightarrow> lamport \<Rightarrow> global" where
  "new_version b ts = global_observe (bs_version b) ts"

definition edit_base :: "insertions \<Rightarrow> buffer_snapshot \<Rightarrow> lamport \<Rightarrow> bool" where
  "edit_base ins b ts \<longleftrightarrow> wf_tree fragment_sum (bs_fragments b) \<and> height (bs_fragments b) < STACK_CAP \<and>
     ids_ok (old_frags b) \<and>
     frags_ok ins (ts_elems (bs_insertion_slices b)) (bs_undo_map b) (new_version b ts) (old_frags b) \<and>
     bs_visible_text b = vtext ins (old_frags b) \<and> bs_deleted_text b = dtext ins (old_frags b) \<and>
     (\<forall>f \<in> set (old_frags b). fr_timestamp f \<noteq> ts \<and> ts \<notin> set (fr_deletions f)) \<and> lvalue ts \<noteq> 0 \<and> um_is_undone (bs_undo_map b) ts = Some False \<and>
     global_observed (new_version b ts) ts"

definition walk_slices :: "buffer_snapshot \<Rightarrow> 'd edit_state \<Rightarrow> insertion_slice set" where
  "walk_slices b st = ts_elems (bs_insertion_slices b) \<union> set (ed_slices st)"

lemma edit_state_upd [simp]:
  "walk_slices b (st\<lparr>ed_cursor := c\<rparr>) = walk_slices b st" "walk_slices b (st\<lparr>ed_fragment_start := i\<rparr>) = walk_slices b st"
  "walk_slices b (st\<lparr>ed_fragments := fb\<rparr>) = walk_slices b st" "walk_slices b (st\<lparr>ed_ropes := rb\<rparr>) = walk_slices b st"
  "walk_slices b (st\<lparr>ed_insertions := is\<rparr>) = walk_slices b st" "walk_slices b (st\<lparr>ed_patch := p\<rparr>) = walk_slices b st"
  "walk_slices b (st\<lparr>ed_insertion_offset := i\<rparr>) = walk_slices b st"
  "recorded ts (st\<lparr>ed_cursor := c\<rparr>) = recorded ts st" "recorded ts (st\<lparr>ed_fragment_start := i\<rparr>) = recorded ts st"
  "recorded ts (st\<lparr>ed_fragments := fb\<rparr>) = recorded ts st" "recorded ts (st\<lparr>ed_ropes := rb\<rparr>) = recorded ts st"
  "recorded ts (st\<lparr>ed_patch := p\<rparr>) = recorded ts st" "recorded ts (st\<lparr>ed_insertion_offset := i\<rparr>) = recorded ts st"
  by (simp_all add: walk_slices_def recorded_def fun_eq_iff)

definition stamped :: "lamport \<Rightarrow> nat \<Rightarrow> fragment list \<Rightarrow> bool" where
  "stamped ts n ns \<longleftrightarrow> (\<forall>f \<in> set ns. fr_timestamp f = ts \<longrightarrow> fr_insertion_offset f + fr_len f \<le> n)"

lemma stamped_append [simp]: "stamped ts n (xs @ ys) \<longleftrightarrow> stamped ts n xs \<and> stamped ts n ys"
  by (auto simp: stamped_def)

lemma stamped_other: "\<forall>f \<in> set xs. fr_timestamp f \<noteq> ts \<Longrightarrow> stamped ts n xs"
  by (simp add: stamped_def)

text \<open>What the text would be without the edit: the fragments that are visible if it is undone are
  those of the old text.\<close>

definition visible_without :: "undo_map \<Rightarrow> lamport \<Rightarrow> fragment \<Rightarrow> bool" where
  "visible_without u ts f \<longleftrightarrow> fr_timestamp f \<noteq> ts \<and>
     fragment_is_visible (f\<lparr>fr_deletions := removeAll ts (fr_deletions f)\<rparr>) u = Some True"

definition text_without :: "insertions \<Rightarrow> undo_map \<Rightarrow> lamport \<Rightarrow> fragment list \<Rightarrow> str" where
  "text_without ins u ts fs = concat (map (fstr ins) (filter (visible_without u ts) fs))"

text \<open>The bytes of insertions, in the order of the fragments; an edit leaves those of the old fragments
  where they are.\<close>

definition frag_bytes :: "fragment \<Rightarrow> insertion_key list" where
  "frag_bytes f = map (Pair (fr_timestamp f)) [fr_insertion_offset f..<fr_insertion_offset f + fr_len f]"

definition all_bytes :: "fragment list \<Rightarrow> insertion_key list" where
  "all_bytes fs = concat (map frag_bytes fs)"

definition bytes_without :: "lamport \<Rightarrow> fragment list \<Rightarrow> insertion_key list" where
  "bytes_without ts fs = all_bytes (filter (\<lambda>f. fr_timestamp f \<noteq> ts) fs)"

lemma all_bytes_simps [simp]:
  "all_bytes [] = []" "all_bytes (f # fs) = frag_bytes f @ all_bytes fs" "all_bytes (xs @ ys) = all_bytes xs @ all_bytes ys"
  by (simp_all add: all_bytes_def)

lemma bytes_without_simps [simp]:
  "bytes_without ts [] = []" "bytes_without ts (f # fs) = (if fr_timestamp f = ts then [] else frag_bytes f) @ bytes_without ts fs"
  "bytes_without ts (xs @ ys) = bytes_without ts xs @ bytes_without ts ys"
  by (simp_all add: bytes_without_def)

lemma bytes_without_other: "\<forall>f \<in> set xs. fr_timestamp f \<noteq> ts \<Longrightarrow> bytes_without ts xs = all_bytes xs"
  by (induction xs) auto

definition retained :: "insertions \<Rightarrow> buffer_snapshot \<Rightarrow> lamport \<Rightarrow> fragment list \<Rightarrow> fragment list \<Rightarrow> bool" where
  "retained ins b ts ns rem \<longleftrightarrow> bs_visible_text b = text_without ins (bs_undo_map b) ts ns @ vtext ins rem \<and>
     bytes_without ts ns @ all_bytes rem = all_bytes (old_frags b)"

lemma visible_without_cong:
  "fr_timestamp f = fr_timestamp g \<Longrightarrow> removeAll ts (fr_deletions f) = removeAll ts (fr_deletions g) \<Longrightarrow>
   visible_without u ts f = visible_without u ts g"
proof -
  assume a: "fr_timestamp f = fr_timestamp g" "removeAll ts (fr_deletions f) = removeAll ts (fr_deletions g)"
  have "fragment_is_visible (f\<lparr>fr_deletions := removeAll ts (fr_deletions f)\<rparr>) u
      = fragment_is_visible (g\<lparr>fr_deletions := removeAll ts (fr_deletions g)\<rparr>) u"
    by (rule fragment_is_visible_cong) (use a in simp_all)
  then show ?thesis using a(1) by (simp add: visible_without_def)
qed

lemma text_without_simps [simp]:
  "text_without ins u ts [] = []"
  "text_without ins u ts (f # fs) = (if visible_without u ts f then fstr ins f else []) @ text_without ins u ts fs"
  "text_without ins u ts (xs @ ys) = text_without ins u ts xs @ text_without ins u ts ys"
  by (simp_all add: text_without_def)

lemma text_without_same:
  "\<forall>f \<in> set xs. visible_without u ts f = fr_visible f \<Longrightarrow> text_without ins u ts xs = vtext ins xs"
  by (induction xs) auto

lemma retained_append:
  assumes "retained ins b ts ns (xs @ rem)" "\<forall>f \<in> set xs. visible_without (bs_undo_map b) ts f = fr_visible f"
    and "\<forall>f \<in> set xs. fr_timestamp f \<noteq> ts"
  shows "retained ins b ts (ns @ xs) rem"
  using assms(1) text_without_same[OF assms(2), of ins] bytes_without_other[OF assms(3)] by (simp add: retained_def)

lemma retained_part:
  assumes "retained ins b ts ns rem" "vtext ins rem = x @ y" "frag_str ins n = Some x" "vtext ins rem2 = y"
    "visible_without (bs_undo_map b) ts n" "all_bytes rem = frag_bytes n @ all_bytes rem2"
  shows "retained ins b ts (ns @ [n]) rem2"
proof -
  have "fr_timestamp n \<noteq> ts" using assms(5) by (simp add: visible_without_def)
  then show ?thesis using assms by (simp add: retained_def)
qed

lemma retained_new: "retained ins b ts ns rem \<Longrightarrow> fr_timestamp n = ts \<Longrightarrow> retained ins b ts (ns @ [n]) rem"
  by (simp add: retained_def visible_without_def)

definition before :: "fragment list \<Rightarrow> fragment list \<Rightarrow> bool" where
  "before ns post \<longleftrightarrow> (\<forall>n \<in> set ns. \<forall>f \<in> set post. fr_id n < fr_id f)"

definition walking ::
  "insertions \<Rightarrow> buffer_snapshot \<Rightarrow> lamport \<Rightarrow> str \<Rightarrow> frag_text edit_state \<Rightarrow> fragment list \<Rightarrow> fragment list
   \<Rightarrow> fragment list \<Rightarrow> fragment list \<Rightarrow> fragment list \<Rightarrow> fragment list \<Rightarrow> bool" where
  "walking ins b ts B st pre post rem ns N F \<longleftrightarrow>
     cursor_at frag_text_dim fragment_sum (ed_cursor st) pre post \<and> c_tree (ed_cursor st) = bs_fragments b \<and>
     rest_of (ed_fragment_start st) pre post rem \<and> built (ed_fragments st) ns \<and>
     ropes_at ins (ed_ropes st) (bs_visible_text b) (bs_deleted_text b) ns rem \<and>
     frags_ok ins (walk_slices b st) (bs_undo_map b) (new_version b ts) (ns @ rem) \<and>
     ids_ok ns \<and> before ns post \<and> stamped ts (ed_insertion_offset st) ns \<and>
     recorded ts st pre (if ed_fragment_start st = vis_len pre then [] else take 1 post) ns N F \<and>
     patched (bs_visible_text b) B (ed_patch st) (ed_fragment_start st) (vis_len ns) \<and> retained ins b ts ns rem"

text \<open>\<open>unbuilt\<close>: the new text goes on with the old one up to \<open>s\<close>, and then with \<open>R\<close>.\<close>

definition unbuilt :: "insertions \<Rightarrow> str \<Rightarrow> nat \<Rightarrow> fragment list \<Rightarrow> fragment list \<Rightarrow> nat \<Rightarrow> str \<Rightarrow> bool" where
  "unbuilt ins B start rem ns s R \<longleftrightarrow>
     (\<exists>x y. start \<le> s \<and> vtext ins rem = x @ y \<and> str_len x = s - start \<and> B = vtext ins ns @ x @ R)"

lemma unbuilt_now: "unbuilt ins B s rem ns s R \<longleftrightarrow> B = vtext ins ns @ R"
  by (auto simp: unbuilt_def)

lemma walking_items:
  "walking ins b ts B st pre post rem ns N F \<Longrightarrow> pre @ post = old_frags b"
  using cursor_at_items by (fastforce simp: walking_def)

lemma old_sound:
  assumes "edit_base ins b ts" "pre @ post = old_frags b"
  shows "\<forall>f \<in> set (pre @ post). sound ins (ts_elems (bs_insertion_slices b)) (bs_undo_map b) (new_version b ts) f"
    "frags_wf (pre @ post)" "ids_ok post" "readable ins (pre @ post)" "\<forall>f \<in> set (pre @ post). fr_timestamp f \<noteq> ts \<and> 0 < fr_len f \<and> id_ok f"
    "\<forall>f \<in> set (pre @ post). visible_without (bs_undo_map b) ts f = fr_visible f"
proof -
  show s: "\<forall>f \<in> set (pre @ post). sound ins (ts_elems (bs_insertion_slices b)) (bs_undo_map b) (new_version b ts) f"
    using assms unfolding assms(2) by (simp add: edit_base_def frags_ok_def)
  then show "frags_wf (pre @ post)" "readable ins (pre @ post)" by (auto simp: sound_def list_all_iff readable_def)
  have ids: "ids_ok (pre @ post)" using assms by (simp add: edit_base_def)
  then show "ids_ok post" by (simp add: ids_ok_def sorted_wrt_append)
  have ts: "\<forall>f \<in> set (pre @ post). fr_timestamp f \<noteq> ts \<and> ts \<notin> set (fr_deletions f)" using assms by (simp add: edit_base_def)
  then have "f\<lparr>fr_deletions := removeAll ts (fr_deletions f)\<rparr> = f" if "f \<in> set (pre @ post)" for f
    using that ts removeAll_id[of ts "fr_deletions f"] by simp
  then show "\<forall>f \<in> set (pre @ post). visible_without (bs_undo_map b) ts f = fr_visible f"
    using s ts by (auto simp: visible_without_def sound_def)
  show "\<forall>f \<in> set (pre @ post). fr_timestamp f \<noteq> ts \<and> 0 < fr_len f \<and> id_ok f"
    using s ids ts by (auto simp: ids_ok_def sound_def)
qed

lemma visible_len:
  assumes "edit_base ins b ts" "pre @ post = old_frags b"
  shows "str_len (bs_visible_text b) = vis_len (pre @ post)"
  using old_sound(4)[OF assms] str_len_texts(1)[of ins "pre @ post"] assms by (simp add: edit_base_def)

text \<open>The visible text is split where the walk stands.\<close>

lemma walking_text:
  assumes "edit_base ins b ts" "walking ins b ts B st pre post rem ns N F"
  obtains p where "bs_visible_text b = p @ vtext ins rem" "str_len p = ed_fragment_start st"
proof -
  have r: "ropes_at ins (ed_ropes st) (bs_visible_text b) (bs_deleted_text b) ns rem" "rest_of (ed_fragment_start st) pre post rem"
    "readable ins (ns @ rem)" using assms(2) unfolding walking_def by (blast intro: frags_ok_readable)+
  obtain p where p: "bs_visible_text b = p @ vtext ins rem" using r(1) by (auto simp: ropes_at_def reads_on_def)
  have "str_len p + vis_len rem = vis_len (pre @ post)"
    using visible_len[OF assms(1) walking_items[OF assms(2)]] p str_len_texts(1)[of ins rem] r(3) by simp
  then show thesis using that[OF p] rest_of_vis_len[OF r(2)] by simp
qed

section \<open>Jumping over fragments\<close>

lemma walking_slice:
  assumes base: "edit_base ins b ts" and w: "walking ins b ts B (st\<lparr>ed_fragment_start := vis_len pre\<rparr>) pre post post ns N F"
    and p: "unbuilt ins B (vis_len pre) post ns s R"
    and sl: "cursor_slice fragment_sum frag_text_dim target Right (ed_cursor st) = Some (t, c)"
    "wf_tree fragment_sum t" "post = tree_items t @ post'" "cursor_at frag_text_dim fragment_sum c (pre @ tree_items t) post'"
    "c_tree c = bs_fragments b" "vis_len (pre @ tree_items t) \<le> s"
  shows "\<exists>st'. append_old t (st\<lparr>ed_cursor := c\<rparr>) = Some st' \<and>
     walking ins b ts B (st'\<lparr>ed_fragment_start := vis_len (pre @ tree_items t)\<rparr>) (pre @ tree_items t) post' post' (ns @ tree_items t) N F \<and>
     ed_insertion_offset st' = ed_insertion_offset st \<and> ed_cursor st' = c \<and>
     unbuilt ins B (vis_len (pre @ tree_items t)) post' (ns @ tree_items t) s R"
proof -
  let ?xs = "tree_items t"
  note items = walking_items[OF w]
  note old = old_sound[OF base items]
  have wf: "frags_wf ?xs" "readable ins ?xs" using old(2,4) by (simp_all add: sl(3))
  have b: "built (ed_fragments st) ns" "ropes_at ins (ed_ropes st) (bs_visible_text b) (bs_deleted_text b) ns (?xs @ post')"
    "frags_ok ins (walk_slices b st) (bs_undo_map b) (new_version b ts) (ns @ ?xs @ post')" "ids_ok ns" "before ns post"
    "stamped ts (ed_insertion_offset st) ns" "recorded ts st pre [] ns N F"
    "patched (bs_visible_text b) B (ed_patch st) (vis_len pre) (vis_len ns)" "retained ins b ts ns (?xs @ post')"
    using w by (simp_all add: walking_def sl(3))
  obtain ropes where a: "append_old t (st\<lparr>ed_cursor := c\<rparr>) = Some (st\<lparr>ed_cursor := c, ed_ropes := ropes, ed_fragments := fb_append (ed_fragments st) t\<rparr>)"
    "built (fb_append (ed_fragments st) t) (ns @ ?xs)" "ropes_at ins ropes (bs_visible_text b) (bs_deleted_text b) (ns @ ?xs) post'"
    using append_old_ok[of "st\<lparr>ed_cursor := c\<rparr>" ns ins "bs_visible_text b" "bs_deleted_text b" t post'] b(1,2) wf sl(2) by auto
  let ?st = "st\<lparr>ed_cursor := c, ed_ropes := ropes, ed_fragments := fb_append (ed_fragments st) t\<rparr>"
  obtain x y where xy: "vis_len pre \<le> s" "vtext ins ?xs @ vtext ins post' = x @ y" "str_len x = s - vis_len pre" "B = vtext ins ns @ x @ R"
    using p by (auto simp: unbuilt_def sl(3))
  have "str_len (vtext ins ?xs) \<le> str_len x" using sl(6) xy(3) str_len_texts(1)[OF wf(2)] by simp
  with xy(2) obtain z where z: "x = vtext ins ?xs @ z" "vtext ins post' = z @ y" by (rule str_prefix_split)
  have pend: "unbuilt ins B (vis_len (pre @ ?xs)) post' (ns @ ?xs) s R"
    unfolding unbuilt_def using z xy sl(6) str_len_texts(1)[OF wf(2)] by (intro exI[of _ z] exI[of _ y]) simp
  obtain q where q: "bs_visible_text b = q @ vtext ins post" "str_len q = vis_len pre" using walking_text[OF base w] by auto
  have rn: "readable ins ns" using b(3) frags_ok_readable by fastforce
  have "patched (bs_visible_text b) B (ed_patch st) (str_len q + str_len (vtext ins ?xs)) (str_len (vtext ins ns) + str_len (vtext ins ?xs))"
    using b(8) q z xy(4) str_len_texts(1)[OF rn] by (intro patched_keep[where b = "vtext ins post'" and d = "z @ R"]) (simp_all add: sl(3))
  then have patch: "patched (bs_visible_text b) B (ed_patch st) (vis_len (pre @ ?xs)) (vis_len (ns @ ?xs))"
    using q(2) str_len_texts(1)[OF rn] str_len_texts(1)[OF wf(2)] by simp
  have ids: "ids_ok (ns @ ?xs)" "before (ns @ ?xs) post'" using b(4,5) old(3) by (auto simp: ids_ok_def before_def sl(3) sorted_wrt_append)
  have "stamped ts (ed_insertion_offset st) ?xs" using old(5) by (intro stamped_other) (simp add: sl(3))
  moreover have "retained ins b ts (ns @ ?xs) post'"
    by (rule retained_append[OF b(9)]) (use old(5,6) in \<open>auto simp: sl(3)\<close>)
  moreover have "recorded ts ?st (pre @ ?xs) [] (ns @ ?xs) N F" by (rule recorded_keep[OF b(7)]) simp_all
  ultimately have "walking ins b ts B (?st\<lparr>ed_fragment_start := vis_len (pre @ ?xs)\<rparr>) (pre @ ?xs) post' post' (ns @ ?xs) N F"
    unfolding walking_def using sl(4,5) a(2,3) b(3,6) ids patch
    by (simp add: rest_of_def)
  then show ?thesis using a(1) pend by auto
qed

section \<open>Pushing a part of the fragment under the cursor\<close>

lemma walking_part:
  assumes base: "edit_base ins b ts" and w: "walking ins b ts B st pre (f # post) rem ns N F"
    and f: "fr_visible f" and s: "s = ed_fragment_start st" "s < e" "e \<le> vis_len pre + fr_len f"
    and x: "vtext ins rem = x @ y" "str_len x = e - s"
    and n: "fr_timestamp n = fr_timestamp f" "fr_insertion_offset n = fr_insertion_offset f + (s - vis_len pre)" "fr_len n = e - s"
    and snd: "sound ins (walk_slices b st2) (bs_undo_map b) (new_version b ts) n"
    and ids: "id_ok n" "\<forall>m \<in> set ns. fr_id m < fr_id n"
    and st2: "ed_ropes st2 = ed_ropes st" "ed_fragments st2 = ed_fragments st" "ed_insertions st2 = ed_insertions st"
    "ed_slices st2 = ed_slices st @ (if sliced then [slice_from_fragment ts n] else [])"
  shows "\<exists>st3 rem2. push_rewritten n True st2 = Some st3 \<and>
    st3 = st2\<lparr>ed_insertions := ed_insertions st3, ed_ropes := ed_ropes st3, ed_fragments := ed_fragments st3\<rparr> \<and>
    rest_of e pre (f # post) rem2 \<and> built (ed_fragments st3) (ns @ [n]) \<and>
    ropes_at ins (ed_ropes st3) (bs_visible_text b) (bs_deleted_text b) (ns @ [n]) rem2 \<and>
    frags_ok ins (walk_slices b st3) (bs_undo_map b) (new_version b ts) ((ns @ [n]) @ rem2) \<and> ids_ok (ns @ [n]) \<and>
    recorded ts st3 pre [f] (ns @ [n]) (N @ [n]) (F @ (if sliced then [n] else [])) \<and>
    frag_str ins n = Some x \<and> vtext ins rem2 = y"
proof -
  let ?V = "bs_visible_text b" and ?D = "bs_deleted_text b" and ?u = "bs_undo_map b" and ?v = "new_version b ts"
  let ?r = "drop_frag (s - vis_len pre) f"
  have wk: "rest_of s pre (f # post) rem" "built (ed_fragments st) ns" "ropes_at ins (ed_ropes st) ?V ?D ns rem"
    "frags_ok ins (walk_slices b st) ?u ?v (ns @ rem)" "ids_ok ns"
    "recorded ts st pre (if s = vis_len pre then [] else [f]) ns N F"
    using w unfolding walking_def s(1) by (blast, blast, blast, blast, blast, auto split: if_splits)
  have head: "rem = ?r # post" "vis_len pre \<le> s" using rest_of_head[OF wk(1) f] s(2,3) by simp_all
  let ?rem2 = "after_part (e - s) ?r post"
  have rest: "rest_of e pre (f # post) ?rem2" by (rule rest_of_advance[OF wk(1) f s(2,3)])
  have r: "frag_str ins ?r \<noteq> None" using wk(4) by (simp add: head(1) frags_ok_def sound_def)
  have "x @ y = fstr ins ?r @ vtext ins post" using x(1) f by (simp add: head(1))
  moreover have "str_len x \<le> str_len (fstr ins ?r)" using x(2) s(3) head(2) str_len_fstr[OF r] by simp
  ultimately obtain z where z: "fstr ins ?r = x @ z" "y = z @ vtext ins post" by (metis str_prefix_split)
  have cut: "frags_ok ins (walk_slices b st) ?u ?v (ns @ take_frag (e - s) ?r # ?rem2)"
    "ropes_at ins (ed_ropes st) ?V ?D ns (take_frag (e - s) ?r # ?rem2)" "frag_str ins (take_frag (e - s) ?r) = Some x"
    using cut_head[of ins "walk_slices b st" ?u ?v ns ?r post "ed_ropes st" ?V ?D x z "e - s"] wk(3,4) f z(1) x(2) s(2,3) head
    by auto
  have same: "fr_timestamp n = fr_timestamp (take_frag (e - s) ?r)" "fr_insertion_offset n = fr_insertion_offset (take_frag (e - s) ?r)"
    "fr_len n = fr_len (take_frag (e - s) ?r)" using n by simp_all
  then have n_str: "frag_str ins n = Some x" using cut(3) frag_str_cong[OF same] by simp
  have sub: "walk_slices b st \<subseteq> walk_slices b st2" using st2(4) by (auto simp: walk_slices_def)
  have "within_frag n (take_frag (e - s) ?r)" using same by (simp add: within_frag_def)
  from frags_ok_replace[OF cut(1) this snd sub] have fo: "frags_ok ins (walk_slices b st2) ?u ?v (ns @ n # ?rem2)" .
  have nwf: "frag_wf n" using snd by (simp add: sound_def)
  obtain ropes where pr: "push_rewritten n True st2 = Some (st2\<lparr>ed_insertions := ed_insertions st2 @ [insert_new n],
      ed_ropes := ropes, ed_fragments := fb_push (ed_fragments st2) n\<rparr>)"
    "built (fb_push (ed_fragments st2) n) (ns @ [n])" "ropes_at ins ropes ?V ?D (ns @ [n]) ?rem2"
    using push_rewritten_ok[of st2 ns ins ?V ?D "take_frag (e - s) ?r" ?rem2 n] wk(2) cut(2,3) n_str nwf st2 f by auto
  let ?st3 = "st2\<lparr>ed_insertions := ed_insertions st2 @ [insert_new n], ed_ropes := ropes, ed_fragments := fb_push (ed_fragments st2) n\<rparr>"
  have "recorded ts ?st3 pre [f] (ns @ [n]) (N @ [n]) (F @ (if sliced then [n] else []))"
    using n(1,2) st2(3,4) by (intro recorded_push[OF wk(6) fo]) (auto simp: frag_key_def)
  moreover have "vtext ins ?rem2 = y"
  proof -
    have "vtext ins (take_frag (e - s) ?r # ?rem2) = x @ vtext ins ?rem2" using cut(3) f by simp
    moreover have "vtext ins (take_frag (e - s) ?r # ?rem2) = vtext ins (?r # post)"
    proof -
      obtain p where p: "?V = p @ vtext ins (take_frag (e - s) ?r # ?rem2)" "str_len p = tc_offset (rb_old_visible (ed_ropes st))"
        using cut(2) by (auto simp: ropes_at_def reads_on_def)
      obtain q where q: "?V = q @ vtext ins (?r # post)" "str_len q = tc_offset (rb_old_visible (ed_ropes st))"
        using wk(3) head(1) by (auto simp: ropes_at_def reads_on_def)
      show ?thesis using str_len_inj[of p _ q] p q by metis
    qed
    ultimately show ?thesis using f z by simp
  qed
  moreover have "ids_ok (ns @ [n])" by (rule ids_ok_snoc[OF wk(5) ids])
  ultimately show ?thesis using pr rest fo n_str
    by (intro exI[of _ ?st3] exI[of _ ?rem2]) simp
qed

end
