(* ===== verification/BufferSteps2.thy ===== *)
theory BufferSteps2
  imports BufferSteps
begin

section \<open>Positions of the cursor\<close>

lemma ft_position: "cursor_at frag_text_dim fragment_sum c pre post \<Longrightarrow> c_position c = \<lparr>ft_visible = vis_len pre, ft_deleted = del_len pre\<rparr>"
  by (simp add: cursor_at_def dpos_frag_text)

lemma ft_end:
  assumes "cursor_at frag_text_dim fragment_sum c pre post" "frags_wf (pre @ post)"
  shows "cursor_end frag_text_dim c = Some \<lparr>ft_visible = vis_len (pre @ take 1 post), ft_deleted = del_len (pre @ take 1 post)\<rparr>"
proof (cases post)
  case Nil
  then show ?thesis using cursor_item_ok(2)[OF assms(1)] ft_position[OF assms(1)] by (simp add: cursor_end_def)
next
  case (Cons f fs)
  have "dm_add frag_text_dim (dpos frag_text_dim fragment_sum pre) (sm_item fragment_sum f) = dpos frag_text_dim fragment_sum (pre @ [f])"
    using assms(2) Cons by (intro ft.dim_item) simp
  moreover have "c_position c = dpos frag_text_dim fragment_sum pre" using assms(1) by (simp add: cursor_at_def)
  ultimately show ?thesis using cursor_item_ok(2)[OF assms(1)] Cons
    by (simp add: cursor_end_def dpos_frag_text)
qed

text \<open>When all of the fragment under the cursor has been consumed, the cursor moves on.\<close>

lemma walking_next:
  assumes base: "edit_base ins b ts" and c: "cursor_at frag_text_dim fragment_sum (ed_cursor st) pre (f # post)" "c_tree (ed_cursor st) = bs_fragments b"
    and w: "built (ed_fragments st) ns" "ropes_at ins (ed_ropes st) (bs_visible_text b) (bs_deleted_text b) ns post"
    "frags_ok ins (walk_slices b st) (bs_undo_map b) (new_version b ts) (ns @ post)" "ids_ok ns" "before ns post"
    "stamped ts (ed_insertion_offset st) ns" "recorded ts st pre [f] ns N F"
    "patched (bs_visible_text b) B (ed_patch st) (vis_len (pre @ [f])) (vis_len ns)" "retained ins b ts ns post"
  shows "\<exists>c. cursor_next frag_text_dim (ed_cursor st) = Some c \<and>
    walking ins b ts B (st\<lparr>ed_cursor := c, ed_fragment_start := vis_len (pre @ [f])\<rparr>) (pre @ [f]) post post ns N F"
proof -
  have items: "pre @ f # post = old_frags b" using cursor_at_items[OF c(1)] c(2) by simp
  obtain c' where c': "cursor_next frag_text_dim (ed_cursor st) = Some c'" "c_tree c' = bs_fragments b"
    "cursor_at frag_text_dim fragment_sum c' (pre @ [f]) post"
    using ft.cursor_next_at_ok[OF c(1) old_sound(2)[OF base items]] c(2) by auto
  have "recorded ts st (pre @ [f]) [] ns N F" by (rule recorded_next[OF w(7)]) simp_all
  then show ?thesis using c' w by (simp add: walking_def rest_of_def)
qed

section \<open>Consuming the rest of a fragment\<close>

lemma rewritten_u32:
  assumes "fr_insertion_offset f + fr_len f < 2 ^ 32" "k + n \<le> fr_len f"
  shows "as_u32 n = n" "add_u32 (fr_insertion_offset f) (as_u32 k) = fr_insertion_offset f + k"
  using assms by simp_all

lemma consume_rest_ok:
  assumes base: "edit_base ins b ts" and w: "walking ins b ts B st pre post rem ns N F"
    and s: "vis_len pre < ed_fragment_start st"
    and p: "unbuilt ins B (ed_fragment_start st) rem ns e R" "vis_len (pre @ take 1 post) \<le> e"
  shows "\<exists>st' f post' ns' N'. post = f # post' \<and> consume_rest frag_text_dim visible_pos st = Some st' \<and>
    walking ins b ts B (st'\<lparr>ed_fragment_start := vis_len (pre @ [f])\<rparr>) (pre @ [f]) post' post' ns' N' F \<and>
    ed_insertion_offset st' = ed_insertion_offset st \<and> ed_patch st' = ed_patch st \<and> unbuilt ins B (vis_len (pre @ [f])) post' ns' e R"
proof -
  let ?s = "ed_fragment_start st"
  have r: "rest_of ?s pre post rem" using w by (simp add: walking_def)
  then obtain f post' where f: "post = f # post'" "fr_visible f" "?s \<le> vis_len pre + fr_len f" using s by (auto simp: rest_of_def)
  note w = w[unfolded f(1)] and r = r[unfolded f(1)]
  have c: "cursor_at frag_text_dim fragment_sum (ed_cursor st) pre (f # post')" "c_tree (ed_cursor st) = bs_fragments b"
    using w by (simp_all add: walking_def)
  have items: "pre @ f # post' = old_frags b" using cursor_at_items[OF c(1)] c(2) by simp
  note old = old_sound[OF base items]
  let ?e = "vis_len (pre @ [f])"
  have pos: "c_position (ed_cursor st) = \<lparr>ft_visible = vis_len pre, ft_deleted = del_len pre\<rparr>"
    "cursor_end frag_text_dim (ed_cursor st) = Some \<lparr>ft_visible = ?e, ft_deleted = del_len (pre @ [f])\<rparr>"
    "cursor_item (ed_cursor st) = Some (Some f)"
    using ft_position[OF c(1)] ft_end[OF c(1) old(2)] cursor_item_ok(1)[OF c(1)] by simp_all
  have flen: "fr_insertion_offset f + fr_len f < 2 ^ 32" "0 < fr_len f" using old(1) by (simp_all add: sound_def)
  show ?thesis
  proof (cases "?s = ?e")
    case True
    have rem: "rem = post'" using rest_of_done[OF r f(2)] True f(2) flen(2) by simp
    have "\<exists>c. cursor_next frag_text_dim (ed_cursor st) = Some c \<and>
      walking ins b ts B (st\<lparr>ed_cursor := c, ed_fragment_start := ?e\<rparr>) (pre @ [f]) post' post' ns N F"
      using w rem True s by (intro walking_next[OF base c]) (auto simp: walking_def before_def)
    then obtain c' where "cursor_next frag_text_dim (ed_cursor st) = Some c'"
      "walking ins b ts B (st\<lparr>ed_cursor := c', ed_fragment_start := ?e\<rparr>) (pre @ [f]) post' post' ns N F" by blast
    moreover have "unbuilt ins B ?e post' ns e R" using p(1) rem True by simp
    ultimately have "consume_rest frag_text_dim visible_pos st = Some (st\<lparr>ed_cursor := c'\<rparr>) \<and>
        walking ins b ts B (st\<lparr>ed_cursor := c', ed_fragment_start := ?e\<rparr>) (pre @ [f]) post' post' ns N F \<and>
        unbuilt ins B ?e post' ns e R"
      using pos s True by (simp add: consume_rest_def visible_pos_def)
    then show ?thesis using f(1) by (intro exI[of _ "st\<lparr>ed_cursor := c'\<rparr>"] exI[of _ f] exI[of _ post'] exI[of _ ns] exI[of _ N]) simp
  next
    case False
    then have lt: "?s < ?e" using f(2,3) by simp
    let ?n = "drop_frag (?s - vis_len pre) f"
    have head: "rem = ?n # post'" using rest_of_head[OF r f(2)] lt f(2) by simp
    have wk: "frags_ok ins (walk_slices b st) (bs_undo_map b) (new_version b ts) (ns @ rem)" "before ns (f # post')"
      "stamped ts (ed_insertion_offset st) ns" "patched (bs_visible_text b) B (ed_patch st) ?s (vis_len ns)"
      using w by (simp_all add: walking_def)
    have n: "sound ins (walk_slices b st) (bs_undo_map b) (new_version b ts) ?n" using wk(1) by (simp add: head frags_ok_def)
    then have nr: "frag_str ins ?n \<noteq> None" by (simp add: sound_def)
    have x: "vtext ins rem = fstr ins ?n @ vtext ins post'" "str_len (fstr ins ?n) = ?e - ?s"
      using f(2) lt s str_len_fstr[OF nr] by (simp_all add: head)
    have part: "\<exists>st3 rem2. push_rewritten ?n True st = Some st3 \<and>
      st3 = st\<lparr>ed_insertions := ed_insertions st3, ed_ropes := ed_ropes st3, ed_fragments := ed_fragments st3\<rparr> \<and>
      rest_of ?e pre (f # post') rem2 \<and> built (ed_fragments st3) (ns @ [?n]) \<and>
      ropes_at ins (ed_ropes st3) (bs_visible_text b) (bs_deleted_text b) (ns @ [?n]) rem2 \<and>
      frags_ok ins (walk_slices b st3) (bs_undo_map b) (new_version b ts) ((ns @ [?n]) @ rem2) \<and> ids_ok (ns @ [?n]) \<and>
      recorded ts st3 pre [f] (ns @ [?n]) (N @ [?n]) (F @ (if False then [?n] else [])) \<and>
      frag_str ins ?n = Some (fstr ins ?n) \<and> vtext ins rem2 = vtext ins post'"
      using f(2,3) lt s n old(5) wk(2)
      by (intro walking_part[OF base w f(2) refl lt _ x]) (auto simp: before_def id_ok_def)
    then obtain st3 rem2 where st3: "push_rewritten ?n True st = Some st3"
      "st3 = st\<lparr>ed_insertions := ed_insertions st3, ed_ropes := ed_ropes st3, ed_fragments := ed_fragments st3\<rparr>"
      "rest_of ?e pre (f # post') rem2" "built (ed_fragments st3) (ns @ [?n])"
      "ropes_at ins (ed_ropes st3) (bs_visible_text b) (bs_deleted_text b) (ns @ [?n]) rem2"
      "frags_ok ins (walk_slices b st3) (bs_undo_map b) (new_version b ts) ((ns @ [?n]) @ rem2)" "ids_ok (ns @ [?n])"
      "recorded ts st3 pre [f] (ns @ [?n]) (N @ [?n]) F" by auto
    have rem2: "rem2 = post'" using rest_of_done[OF st3(3) f(2)] f(2) flen(2) by simp
    have fields: "ed_cursor st3 = ed_cursor st" "ed_fragment_start st3 = ed_fragment_start st" "ed_patch st3 = ed_patch st"
      "ed_insertion_offset st3 = ed_insertion_offset st" by (subst st3(2), simp)+
    obtain x0 y0 where xy: "?s \<le> e" "vtext ins rem = x0 @ y0" "str_len x0 = e - ?s" "B = vtext ins ns @ x0 @ R"
      using p(1) by (auto simp: unbuilt_def)
    have "fstr ins ?n @ vtext ins post' = x0 @ y0" "str_len (fstr ins ?n) \<le> str_len x0" using x xy(2,3) p(2) f(1) by simp_all
    then obtain z where z: "x0 = fstr ins ?n @ z" "vtext ins post' = z @ y0" by (rule str_prefix_split)
    have pend: "unbuilt ins B ?e post' (ns @ [?n]) e R"
      unfolding unbuilt_def using z xy x(2) f p(2) lt by (intro exI[of _ z] exI[of _ y0]) auto
    obtain q where q: "bs_visible_text b = q @ vtext ins rem" "str_len q = ?s" using walking_text[OF base w] by auto
    have rn: "readable ins ns" using wk(1) frags_ok_readable by fastforce
    have "patched (bs_visible_text b) B (ed_patch st) (str_len q + str_len (fstr ins ?n)) (str_len (vtext ins ns) + str_len (fstr ins ?n))"
      using wk(4) q z xy(2,4) x str_len_texts(1)[OF rn]
      by (intro patched_keep[where b = "vtext ins post'" and d = "z @ R"]) simp_all
    moreover have "str_len q + str_len (fstr ins ?n) = ?e" "str_len (vtext ins ns) + str_len (fstr ins ?n) = vis_len (ns @ [?n])"
      using q(2) x(2) lt f(2) s str_len_texts(1)[OF rn] by auto
    ultimately have patch: "patched (bs_visible_text b) B (ed_patch st) ?e (vis_len (ns @ [?n]))" by simp
    have "visible_without (bs_undo_map b) ts ?n = visible_without (bs_undo_map b) ts f" by (rule visible_without_cong) simp_all
    then have vw: "visible_without (bs_undo_map b) ts ?n" using old(6) f(2) by simp
    have ret: "retained ins b ts (ns @ [?n]) post'"
      by (rule retained_part[OF _ x(1) _ refl vw]) (use w nr in \<open>auto simp: walking_def fstr_def head\<close>)
    have stp: "stamped ts (ed_insertion_offset st) (ns @ [?n])" using wk(3) old(5) by (simp add: stamped_def)
    have bef: "before (ns @ [?n]) post'"
    proof -
      have "ids_ok (f # post')" by (rule old(3))
      then show ?thesis using wk(2) by (auto simp: before_def ids_ok_def)
    qed
    have "\<exists>c. cursor_next frag_text_dim (ed_cursor st3) = Some c \<and>
      walking ins b ts B (st3\<lparr>ed_cursor := c, ed_fragment_start := ?e\<rparr>) (pre @ [f]) post' post' (ns @ [?n]) (N @ [?n]) F"
      using c st3(4-8) rem2 fields bef stp patch ret by (intro walking_next[OF base]) simp_all
    then obtain c' where c': "cursor_next frag_text_dim (ed_cursor st3) = Some c'"
      "walking ins b ts B (st3\<lparr>ed_cursor := c', ed_fragment_start := ?e\<rparr>) (pre @ [f]) post' post' (ns @ [?n]) (N @ [?n]) F" by blast
    have code: "f\<lparr>fr_len := as_u32 (vis_len pre + fr_len f - ?s), fr_insertion_offset := add_u32 (fr_insertion_offset f) (as_u32 (?s - vis_len pre))\<rparr> = ?n"
      using rewritten_u32[OF flen(1), of "?s - vis_len pre" "vis_len pre + fr_len f - ?s"] lt s f(2,3) by (simp add: drop_frag_def)
    have "consume_rest frag_text_dim visible_pos st = Some (st3\<lparr>ed_cursor := c'\<rparr>)"
      using pos s lt st3(1) c'(1) f(2) unfolding consume_rest_def visible_pos_def by (simp add: code Let_def)
    then show ?thesis using c'(2) pend fields f(1)
      by (intro exI[of _ "st3\<lparr>ed_cursor := c'\<rparr>"] exI[of _ f] exI[of _ post'] exI[of _ "ns @ [?n]"] exI[of _ "N @ [?n]"]) simp
  qed
qed

end
