(* ===== verification/BufferSteps3.thy ===== *)
theory BufferSteps3
  imports BufferSteps2
begin

text \<open>
  The jump to the fragment that holds the start of a range, and the part of it that is kept.
\<close>

lemma same_start: "s = ed_fragment_start st \<Longrightarrow> st\<lparr>ed_fragment_start := s\<rparr> = st"
  by (cases st) simp

lemma walking_start:
  assumes "walking ins b ts B st pre post rem ns N F" "ed_fragment_start st \<le> vis_len pre"
  shows "ed_fragment_start st = vis_len pre" "rem = post"
  using assms by (auto simp: walking_def rest_of_def)

lemma walking_state:
  assumes "edit_base ins b ts" "walking ins b ts B st pre post rem ns N F"
  shows "c_position (ed_cursor st) = \<lparr>ft_visible = vis_len pre, ft_deleted = del_len pre\<rparr>"
    "cursor_end frag_text_dim (ed_cursor st) = Some \<lparr>ft_visible = vis_len (pre @ take 1 post), ft_deleted = del_len (pre @ take 1 post)\<rparr>"
    "cursor_item (ed_cursor st) = Some (first_opt post)"
proof -
  have c: "cursor_at frag_text_dim fragment_sum (ed_cursor st) pre post" using assms(2) by (simp add: walking_def)
  show "c_position (ed_cursor st) = \<lparr>ft_visible = vis_len pre, ft_deleted = del_len pre\<rparr>" by (rule ft_position[OF c])
  show "cursor_end frag_text_dim (ed_cursor st) = Some \<lparr>ft_visible = vis_len (pre @ take 1 post), ft_deleted = del_len (pre @ take 1 post)\<rparr>"
    by (rule ft_end[OF c old_sound(2)[OF assms(1) walking_items[OF assms(2)]]])
  show "cursor_item (ed_cursor st) = Some (first_opt post)" by (rule cursor_item_ok(1)[OF c])
qed

lemma consume_rest_start:
  assumes "c_position (ed_cursor st) = \<lparr>ft_visible = vis_len pre, ft_deleted = d\<rparr>" "ed_fragment_start st \<le> vis_len pre"
  shows "consume_rest frag_text_dim visible_pos st = Some st"
  using assms by (simp add: consume_rest_def visible_pos_def)

section \<open>The jump\<close>

lemma edit_jump_ok:
  assumes base: "edit_base ins b ts" and w: "walking ins b ts B st pre post rem ns N F"
    and p: "unbuilt ins B (ed_fragment_start st) rem ns s R" and s: "s \<le> str_len (bs_visible_text b)"
  shows "\<exists>st' pre' post' rem' ns' N'. edit_jump s st = Some st' \<and> walking ins b ts B st' pre' post' rem' ns' N' F \<and>
    unbuilt ins B (ed_fragment_start st') rem' ns' s R \<and> s \<le> vis_len (pre' @ take 1 post') \<and>
    ed_insertion_offset st' = ed_insertion_offset st"
proof (cases "vis_len (pre @ take 1 post) < s")
  case False
  then have "edit_jump s st = Some st" using walking_state(2)[OF base w] by (simp add: edit_jump_def)
  then show ?thesis using w p False not_less by blast
next
  case True
  have "\<exists>st1 pre1 post1 ns1 N1. consume_rest frag_text_dim visible_pos st = Some st1 \<and>
    walking ins b ts B (st1\<lparr>ed_fragment_start := vis_len pre1\<rparr>) pre1 post1 post1 ns1 N1 F \<and>
    ed_insertion_offset st1 = ed_insertion_offset st \<and> unbuilt ins B (vis_len pre1) post1 ns1 s R"
  proof (cases "vis_len pre < ed_fragment_start st")
    case gt: True
    obtain st' f post' ns' N' where "consume_rest frag_text_dim visible_pos st = Some st'"
      "walking ins b ts B (st'\<lparr>ed_fragment_start := vis_len (pre @ [f])\<rparr>) (pre @ [f]) post' post' ns' N' F"
      "ed_insertion_offset st' = ed_insertion_offset st" "unbuilt ins B (vis_len (pre @ [f])) post' ns' s R"
      using consume_rest_ok[OF base w gt p less_imp_le[OF True]] by auto
    then show ?thesis by (intro exI[of _ st'] exI[of _ "pre @ [f]"] exI[of _ post'] exI[of _ ns'] exI[of _ N']) simp
  next
    case False
    then have st: "ed_fragment_start st = vis_len pre" "rem = post" using walking_start[OF w] by simp_all
    have "consume_rest frag_text_dim visible_pos st = Some st"
      using consume_rest_start walking_state(1)[OF base w] False by (metis not_le)
    moreover have "walking ins b ts B (st\<lparr>ed_fragment_start := vis_len pre\<rparr>) pre post post ns N F"
      using w unfolding same_start[OF st(1)[symmetric]] st(2) .
    ultimately show ?thesis using p st by auto
  qed
  then obtain st1 pre1 post1 ns1 N1 where c: "consume_rest frag_text_dim visible_pos st = Some st1"
    and w1: "walking ins b ts B (st1\<lparr>ed_fragment_start := vis_len pre1\<rparr>) pre1 post1 post1 ns1 N1 F"
    and o1: "ed_insertion_offset st1 = ed_insertion_offset st" and p1: "unbuilt ins B (vis_len pre1) post1 ns1 s R" by blast
  have le: "vis_len pre1 \<le> s" using p1 by (auto simp: unbuilt_def)
  have items: "pre1 @ post1 = old_frags b" by (rule walking_items[OF w1])
  have cur: "cursor_at frag_text_dim fragment_sum (ed_cursor st1) pre1 post1" "c_tree (ed_cursor st1) = bs_fragments b"
    using w1 by (simp_all add: walking_def)
  obtain xs r where xr: "seek_scan frag_text_dim fragment_sum (visible_target s) Right pre1 post1 = (pre1 @ xs, r)"
    "post1 = xs @ r" "vis_len pre1 \<le> s \<Longrightarrow> vis_len (pre1 @ xs) \<le> s" "\<And>f fs. r = f # fs \<Longrightarrow> s < vis_len (pre1 @ xs @ [f])"
    using ft_scan[of s pre1 post1] by metis
  have "visible_target s (dpos frag_text_dim fragment_sum pre1) \<noteq> Less"
    using le by (simp add: visible_target_def dpos_frag_text)
  then obtain t c' where t: "cursor_slice fragment_sum frag_text_dim (visible_target s) Right (ed_cursor st1) = Some (t, c')"
    "wf_tree fragment_sum t" "xs = tree_items t" "cursor_at frag_text_dim fragment_sum c' (pre1 @ xs) r" "c_tree c' = bs_fragments b"
    using ft.cursor_slice_ok[OF _ old_sound(2)[OF base items] ft_target_mono _ xr(1), of "ed_cursor st1"] cur
    by (auto simp: cursor_ready_def)
  obtain st2 where st2: "append_old t (st1\<lparr>ed_cursor := c'\<rparr>) = Some st2"
    "walking ins b ts B (st2\<lparr>ed_fragment_start := vis_len (pre1 @ xs)\<rparr>) (pre1 @ xs) r r (ns1 @ xs) N1 F"
    "ed_insertion_offset st2 = ed_insertion_offset st1" "ed_cursor st2 = c'" "unbuilt ins B (vis_len (pre1 @ xs)) r (ns1 @ xs) s R"
    using walking_slice[OF base w1 p1 t(1,2), of r] t(3-5) xr(2,3) le by auto
  have "ft_visible (c_position c') = vis_len (pre1 @ xs)" using ft_position[OF t(4)] by simp
  then have "edit_jump s st = Some (st2\<lparr>ed_fragment_start := vis_len (pre1 @ xs)\<rparr>)"
    using True walking_state(2)[OF base w] c t(1) st2(1) by (simp add: edit_jump_def)
  moreover have "s \<le> vis_len ((pre1 @ xs) @ take 1 r)"
  proof (cases r)
    case Nil
    then show ?thesis using s visible_len[OF base items] xr(2) by simp
  next
    case (Cons f fs)
    then show ?thesis using xr(4)[of f fs] by simp
  qed
  ultimately show ?thesis using st2(2,3,5) o1
    by (intro exI[of _ "st2\<lparr>ed_fragment_start := vis_len (pre1 @ xs)\<rparr>"] exI[of _ "pre1 @ xs"] exI[of _ r] exI[of _ "ns1 @ xs"] exI[of _ N1]) simp
qed

section \<open>Parts of the fragment under the cursor\<close>

text \<open>The part of a visible fragment from where the walk stands to \<open>e\<close>, and its text.\<close>

definition part_of :: "fragment list \<Rightarrow> nat \<Rightarrow> nat \<Rightarrow> fragment \<Rightarrow> fragment" where
  "part_of pre s e f = take_frag (e - s) (drop_frag (s - vis_len pre) f)"

lemma rest_bytes:
  assumes "rest_of s pre (f # post) rem" "fr_visible f" "s \<le> vis_len pre + fr_len f"
  shows "all_bytes rem = map (Pair (fr_timestamp f)) [fr_insertion_offset f + (s - vis_len pre)..<fr_insertion_offset f + fr_len f] @ all_bytes post"
  using assms by (auto simp: rest_of_def frag_bytes_def)

lemma rest_part_bytes:
  assumes "rest_of s pre (f # post) rem" "rest_of e pre (f # post) rem2" "fr_visible f" "s < e" "e \<le> vis_len pre + fr_len f"
    and n: "fr_timestamp n = fr_timestamp f" "fr_insertion_offset n = fr_insertion_offset f + (s - vis_len pre)" "fr_len n = e - s"
  shows "all_bytes rem = frag_bytes n @ all_bytes rem2"
proof -
  have "vis_len pre \<le> s" using assms(1) by (auto simp: rest_of_def)
  then have "fr_insertion_offset f + fr_len f = (fr_insertion_offset f + (e - vis_len pre)) + (vis_len pre + fr_len f - e)"
    "fr_insertion_offset f + (e - vis_len pre) = (fr_insertion_offset f + (s - vis_len pre)) + (e - s)" using assms(4,5) by simp_all
  then have "[fr_insertion_offset f + (s - vis_len pre)..<fr_insertion_offset f + fr_len f] =
    [fr_insertion_offset f + (s - vis_len pre)..<fr_insertion_offset f + (e - vis_len pre)] @
    [fr_insertion_offset f + (e - vis_len pre)..<fr_insertion_offset f + fr_len f]"
    by (metis le_add1 upt_add_eq_append)
  then show ?thesis using rest_bytes[OF assms(1,3)] rest_bytes[OF assms(2,3,5)] assms(4,5) n \<open>vis_len pre \<le> s\<close>
    by (simp add: frag_bytes_def)
qed

lemma part_sound:
  assumes w: "walking ins b ts B st pre (f # post) rem ns N F" and f: "fr_visible f"
    and s: "s = ed_fragment_start st" "s < e" "e \<le> vis_len pre + fr_len f"
    and x: "vtext ins rem = x @ y" "str_len x = e - s"
  shows "sound ins (walk_slices b st) (bs_undo_map b) (new_version b ts) (part_of pre s e f)"
    "frag_str ins (part_of pre s e f) = Some x" "vis_len pre \<le> s"
proof -
  let ?r = "drop_frag (s - vis_len pre) f"
  have wk: "rest_of s pre (f # post) rem" "frags_ok ins (walk_slices b st) (bs_undo_map b) (new_version b ts) (ns @ rem)"
    using w by (simp_all add: walking_def s(1))
  have head: "rem = ?r # post" "vis_len pre \<le> s" using rest_of_head[OF wk(1) f] s(2,3) by simp_all
  have r: "sound ins (walk_slices b st) (bs_undo_map b) (new_version b ts) ?r" using wk(2) by (simp add: head(1) frags_ok_def)
  then have rn: "frag_str ins ?r \<noteq> None" by (simp add: sound_def)
  then have rs: "frag_str ins ?r = Some (fstr ins ?r)" by (auto simp: fstr_def)
  have "x @ y = fstr ins ?r @ vtext ins post" using x(1) f by (simp add: head(1))
  moreover have "str_len x \<le> str_len (fstr ins ?r)"
    unfolding str_len_fstr[OF rn] using x(2) s(3) head(2) by simp
  ultimately obtain z where z: "fstr ins ?r = x @ z" "y = z @ vtext ins post" by (rule str_prefix_split)
  have str: "frag_str ins (take_frag (e - s) ?r) = Some x" using frag_str_split(1)[of ins ?r x z "e - s"] rs z x(2) by simp
  then show "frag_str ins (part_of pre s e f) = Some x" by (simp add: part_of_def)
  show "sound ins (walk_slices b st) (bs_undo_map b) (new_version b ts) (part_of pre s e f)"
    unfolding part_of_def using str s(2,3) head(2) by (intro sound_part[OF r]) auto
  show "vis_len pre \<le> s" by (rule head(2))
qed

lemma sound_id: "sound ins S u v (f\<lparr>fr_id := i\<rparr>) \<longleftrightarrow> sound ins S u v f"
proof -
  let ?g = "f\<lparr>fr_id := i\<rparr>"
  have "fragment_is_visible ?g u = fragment_is_visible f u" by (rule fragment_is_visible_cong) simp_all
  then show ?thesis by (simp add: sound_def frag_wf_def frag_str_def changes_of_def covered_def)
qed

section \<open>The part before the range\<close>

lemma edit_prefix_ok:
  assumes base: "edit_base ins b ts" and w: "walking ins b ts B st pre post rem ns N F"
    and p: "unbuilt ins B (ed_fragment_start st) rem ns s R" and s: "s \<le> vis_len (pre @ take 1 post)"
  shows "\<exists>st' rem' ns' N'. edit_prefix s st = Some st' \<and> walking ins b ts B st' pre post rem' ns' N' F \<and>
    ed_fragment_start st' = s \<and> B = vtext ins ns' @ R \<and> ed_insertion_offset st' = ed_insertion_offset st"
proof (cases "ed_fragment_start st < s")
  case False
  then have "ed_fragment_start st = s" using p by (auto simp: unbuilt_def)
  moreover from this have "edit_prefix s st = Some st" by (simp add: edit_prefix_def)
  ultimately show ?thesis using w p unbuilt_now by blast
next
  case lt: True
  let ?s = "ed_fragment_start st"
  have r: "rest_of ?s pre post rem" using w by (simp add: walking_def)
  have ge: "vis_len pre \<le> ?s" using rest_of_vis_len[OF r] by simp
  obtain f post' where f: "post = f # post'" "fr_visible f" "s \<le> vis_len pre + fr_len f"
  proof (cases post)
    case (Cons f post')
    then show thesis using that[of f post'] s lt ge by (auto split: if_splits)
  qed (use s lt ge in simp)
  note w = w[unfolded f(1)] and r = r[unfolded f(1)]
  obtain x y where xy: "vtext ins rem = x @ y" "str_len x = s - ?s" "B = vtext ins ns @ x @ R" using p by (auto simp: unbuilt_def)
  note part = part_sound[OF w f(2) refl lt f(3) xy(1,2)]
  have items: "pre @ f # post' = old_frags b" by (rule walking_items[OF w])
  note old = old_sound[OF base items]
  have wk: "built (ed_fragments st) ns" "ids_ok ns" "before ns (f # post')" "stamped ts (ed_insertion_offset st) ns"
    "patched (bs_visible_text b) B (ed_patch st) ?s (vis_len ns)"
    "cursor_at frag_text_dim fragment_sum (ed_cursor st) pre (f # post')" "c_tree (ed_cursor st) = bs_fragments b"
    "frags_ok ins (walk_slices b st) (bs_undo_map b) (new_version b ts) (ns @ rem)"
    using w by (simp_all add: walking_def)
  define i where "i = locator_between (fs_max_id (fb_summary (ed_fragments st))) (fr_id f)"
  have fid: "id_ok f" using old(5) by simp
  have below: "\<forall>n \<in> set ns. fr_id n < fr_id f" using wk(3) by (simp add: before_def)
  have i: "\<forall>n \<in> set ns. fr_id n < i" "i < fr_id f" "locator_min < i" "i < locator_max" "last i \<noteq> 0"
    using fresh_id[OF wk(1,2) below _ _ _ i_def] fid less_imp_le[of "fr_id f"] unfolding id_ok_def by blast+
  let ?n = "(part_of pre ?s s f)\<lparr>fr_id := i\<rparr>"
  have n: "sound ins (walk_slices b st) (bs_undo_map b) (new_version b ts) ?n" using part(1) by (simp add: sound_id)
  have "\<exists>st3 rem2. push_rewritten ?n True st = Some st3 \<and>
      st3 = st\<lparr>ed_insertions := ed_insertions st3, ed_ropes := ed_ropes st3, ed_fragments := ed_fragments st3\<rparr> \<and>
      rest_of s pre (f # post') rem2 \<and> built (ed_fragments st3) (ns @ [?n]) \<and>
      ropes_at ins (ed_ropes st3) (bs_visible_text b) (bs_deleted_text b) (ns @ [?n]) rem2 \<and>
      frags_ok ins (walk_slices b st3) (bs_undo_map b) (new_version b ts) ((ns @ [?n]) @ rem2) \<and> ids_ok (ns @ [?n]) \<and>
      recorded ts st3 pre [f] (ns @ [?n]) (N @ [?n]) (F @ (if False then [?n] else [])) \<and>
      frag_str ins ?n = Some x \<and> vtext ins rem2 = y"
    using n i by (intro walking_part[OF base w f(2) refl lt f(3) xy(1,2)]) (auto simp: part_of_def id_ok_def)
  then obtain st3 rem2 where st3: "push_rewritten ?n True st = Some st3"
    "st3 = st\<lparr>ed_insertions := ed_insertions st3, ed_ropes := ed_ropes st3, ed_fragments := ed_fragments st3\<rparr>"
    "rest_of s pre (f # post') rem2" "built (ed_fragments st3) (ns @ [?n])"
    "ropes_at ins (ed_ropes st3) (bs_visible_text b) (bs_deleted_text b) (ns @ [?n]) rem2"
    "frags_ok ins (walk_slices b st3) (bs_undo_map b) (new_version b ts) ((ns @ [?n]) @ rem2)" "ids_ok (ns @ [?n])"
    "recorded ts st3 pre [f] (ns @ [?n]) (N @ [?n]) F" "frag_str ins ?n = Some x" "vtext ins rem2 = y" by auto
  have fields: "ed_cursor st3 = ed_cursor st" "ed_patch st3 = ed_patch st" "ed_insertion_offset st3 = ed_insertion_offset st"
    by (subst st3(2), simp)+
  have vis: "fr_visible ?n" "fr_len ?n = s - ?s" "fstr ins ?n = x" using f(2) st3(9) by (simp_all add: part_of_def)
  obtain q where q: "bs_visible_text b = q @ vtext ins rem" "str_len q = ?s" using walking_text[OF base w] by auto
  have rn: "readable ins ns" using wk(8) frags_ok_readable by fastforce
  have "patched (bs_visible_text b) B (ed_patch st) (str_len q + str_len x) (str_len (vtext ins ns) + str_len x)"
    using wk(5) q xy(1,3) str_len_texts(1)[OF rn] by (intro patched_keep[where b = y and d = R]) simp_all
  moreover have "str_len q + str_len x = s" "str_len (vtext ins ns) + str_len x = vis_len (ns @ [?n])"
    using q(2) xy(2) lt str_len_texts(1)[OF rn] vis by simp_all
  ultimately have patch: "patched (bs_visible_text b) B (ed_patch st) s (vis_len (ns @ [?n]))" by simp
  have "visible_without (bs_undo_map b) ts ?n = visible_without (bs_undo_map b) ts f"
    by (rule visible_without_cong) (simp_all add: part_of_def)
  then have vw: "visible_without (bs_undo_map b) ts ?n" using old(6) f(2) by simp
  have ret: "retained ins b ts (ns @ [?n]) rem2"
    by (rule retained_part[OF _ xy(1) st3(9,10) vw rest_part_bytes[OF r st3(3) f(2) lt f(3)]])
      (use w in \<open>simp_all add: walking_def part_of_def\<close>)
  have "before (ns @ [?n]) (f # post')"
  proof -
    have "ids_ok (f # post')" by (rule old(3))
    then show ?thesis using wk(3) i(2) by (auto simp: before_def ids_ok_def)
  qed
  moreover have "stamped ts (ed_insertion_offset st) (ns @ [?n])" using wk(4) old(5) by (simp add: stamped_def part_of_def)
  ultimately have "walking ins b ts B (st3\<lparr>ed_fragment_start := s\<rparr>) pre (f # post') rem2 (ns @ [?n]) (N @ [?n]) F"
    unfolding walking_def using st3(3-8) wk(6,7) fields patch lt ge ret by simp
  moreover have "edit_prefix s st = Some (st3\<lparr>ed_fragment_start := s\<rparr>)"
  proof -
    have "fr_insertion_offset f + fr_len f < 2 ^ 32" using old(1) by (simp add: sound_def)
    then have "f\<lparr>fr_len := as_u32 (s - ?s), fr_insertion_offset := add_u32 (fr_insertion_offset f) (as_u32 (?s - vis_len pre)), fr_id := i\<rparr> = ?n"
      using rewritten_u32[of f "?s - vis_len pre" "s - ?s"] lt ge f(3) by (simp add: part_of_def drop_frag_def take_frag_def)
    then show ?thesis using walking_state[OF base w] lt ge st3(1) f(2)
      by (simp add: edit_prefix_def csub_def i_def[symmetric] Let_def part_of_def)
  qed
  moreover have "B = vtext ins (ns @ [?n]) @ R" using xy(3) vis by simp
  ultimately show ?thesis using f(1) fields
    by (intro exI[of _ "st3\<lparr>ed_fragment_start := s\<rparr>"] exI[of _ rem2] exI[of _ "ns @ [?n]"] exI[of _ "N @ [?n]"]) simp
qed

end
