(* ===== verification/BufferSteps4.thy ===== *)
theory BufferSteps4
  imports BufferSteps3
begin

text \<open>Inserting text: one fragment, since the insertion is shorter than \<open>2 ^ 32\<close>.\<close>

definition inserted_frag :: "lamport \<Rightarrow> nat \<Rightarrow> nat \<Rightarrow> locator \<Rightarrow> fragment" where
  "inserted_frag ts off n i = \<lparr>fr_id = i, fr_timestamp = ts, fr_insertion_offset = off, fr_len = n,
     fr_visible = True, fr_deletions = [], fr_max_undos = global_new\<rparr>"

lemma inserted_frag_sel [simp]:
  "fr_id (inserted_frag ts off n i) = i" "fr_timestamp (inserted_frag ts off n i) = ts"
  "fr_insertion_offset (inserted_frag ts off n i) = off" "fr_len (inserted_frag ts off n i) = n"
  "fr_visible (inserted_frag ts off n i)" "fr_deletions (inserted_frag ts off n i) = []"
  "fr_max_undos (inserted_frag ts off n i) = global_new"
  by (simp_all add: inserted_frag_def)

lemma push_insertion_once:
  assumes "t \<noteq> []" "str_len t < 2 ^ 32"
  shows "push_insertion_loop t ts next_id es 0 st =
    (let n = inserted_frag ts (ed_insertion_offset st) (str_len t) (locator_between (fs_max_id (fb_summary (ed_fragments st))) next_id) in
     Some (st\<lparr>ed_slices := ed_slices st @ [slice_from_fragment es n], ed_insertions := ed_insertions st @ [insert_new n],
             ed_fragments := fb_push (ed_fragments st) n,
             ed_insertion_offset := add_u32 (ed_insertion_offset st) (as_u32 (str_len t))\<rparr>))"
proof -
  have stop: "push_insertion_loop t ts next_id es (str_len t) s = Some s" for s :: "'a edit_state"
    by (simp add: push_insertion_loop.simps)
  have m: "min (str_len t) (0 + MAX_INSERTION_LEN) = str_len t" using assms(2) by (simp add: MAX_INSERTION_LEN_def)
  have pos: "0 < str_len t" using assms(1) str_len_0 by fastforce
  have u: "as_u32 (str_len t) = str_len t" using assms(2) by simp
  show ?thesis
    unfolding push_insertion_loop.simps[of t ts next_id es 0 st] m
    using pos assms(1) by (simp add: stop csub_def Let_def u inserted_frag_def)
qed

lemma rest_of_stamps:
  assumes "rest_of s pre post rem" "x \<in> set rem"
  shows "\<exists>f \<in> set post. fr_timestamp x = fr_timestamp f"
proof -
  have "rem = post \<or> (\<exists>f post' k. post = f # post' \<and> (rem = post' \<or> rem = drop_frag k f # post'))"
    using assms(1) unfolding rest_of_def by metis
  then show ?thesis using assms(2) by auto
qed

lemma inserted_sound:
  assumes base: "edit_base ins b ts" and t: "ins ts = Td @ t @ Tr" "t \<noteq> []" "str_len Td + str_len t < 2 ^ 32"
    and S: "slice_from_fragment ts (inserted_frag ts (str_len Td) (str_len t) i) \<in> S"
  shows "sound ins S (bs_undo_map b) (new_version b ts) (inserted_frag ts (str_len Td) (str_len t) i)"
    "frag_str ins (inserted_frag ts (str_len Td) (str_len t) i) = Some t"
proof -
  let ?n = "inserted_frag ts (str_len Td) (str_len t) i"
  show s: "frag_str ins ?n = Some t" unfolding frag_str_Some
    using t(1) by (intro exI[of _ Td] exI[of _ Tr]) simp
  have "covered S ts ?n" using t(3) S by (intro covered_slice) simp_all
  moreover have "um_is_undone (bs_undo_map b) ts = Some False" "global_observed (new_version b ts) ts" "lvalue ts \<noteq> 0"
    using base by (simp_all add: edit_base_def)
  moreover have "0 < str_len t" using t(2) str_len_0 by fastforce
  ultimately show "sound ins S (bs_undo_map b) (new_version b ts) ?n"
    using s t(3) by (auto simp: sound_def frag_wf_def changes_of_def fragment_is_visible_def)
qed

lemma walking_inserted:
  assumes base: "edit_base ins b ts" and w: "walking ins b ts B st pre post rem ns N F"
    and B: "B = vtext ins ns @ t @ R" and t: "ins ts = Td @ t @ Tr" "str_len Td = ed_insertion_offset st" "t \<noteq> []"
    "str_len Td + str_len t < 2 ^ 32"
    and n: "n = inserted_frag ts (str_len Td) (str_len t)
      (locator_between (fs_max_id (fb_summary (ed_fragments st))) (case first_opt post of None \<Rightarrow> locator_max | Some f \<Rightarrow> fr_id f))"
  shows "walking ins b ts B
     (st\<lparr>ed_slices := ed_slices st @ [slice_from_fragment ts n], ed_insertions := ed_insertions st @ [insert_new n],
         ed_fragments := fb_push (ed_fragments st) n, ed_insertion_offset := str_len Td + str_len t,
         ed_ropes := rb_push_str (ed_ropes st) t,
         ed_patch := patch_push (ed_patch st) \<lparr>old_start = ed_fragment_start st, old_end = ed_fragment_start st,
           new_start = vis_len ns, new_end = vis_len ns + str_len t\<rparr>\<rparr>) pre post rem (ns @ [n]) (N @ [n]) (F @ [n])
     \<and> vtext ins (ns @ [n]) = vtext ins ns @ t"
    (is "walking ins b ts B ?st pre post rem _ _ _ \<and> _")
proof -
  let ?T = "walk_slices b st \<union> {slice_from_fragment ts n}"
  have wk: "cursor_at frag_text_dim fragment_sum (ed_cursor st) pre post" "c_tree (ed_cursor st) = bs_fragments b"
    "rest_of (ed_fragment_start st) pre post rem" "built (ed_fragments st) ns"
    "ropes_at ins (ed_ropes st) (bs_visible_text b) (bs_deleted_text b) ns rem"
    "frags_ok ins (walk_slices b st) (bs_undo_map b) (new_version b ts) (ns @ rem)"
    "ids_ok ns" "before ns post" "stamped ts (ed_insertion_offset st) ns"
    "recorded ts st pre (if ed_fragment_start st = vis_len pre then [] else take 1 post) ns N F"
    "patched (bs_visible_text b) B (ed_patch st) (ed_fragment_start st) (vis_len ns)" "retained ins b ts ns rem"
    using w by (simp_all add: walking_def)
  have items: "pre @ post = old_frags b" by (rule walking_items[OF w])
  note old = old_sound[OF base items]
  have nf: "fr_timestamp n = ts" "fr_insertion_offset n = str_len Td" "fr_len n = str_len t" "fr_visible n" by (simp_all add: n)
  note ins_ok = inserted_sound[OF base t(1,3,4), of "locator_between (fs_max_id (fb_summary (ed_fragments st)))
      (case first_opt post of None \<Rightarrow> locator_max | Some f \<Rightarrow> fr_id f)" ?T, folded n]
  have snd: "sound ins ?T (bs_undo_map b) (new_version b ts) n" and str: "frag_str ins n = Some t"
    by (rule ins_ok; simp)+
  define x where "x = (case first_opt post of None \<Rightarrow> locator_max | Some f \<Rightarrow> fr_id f)"
  have fid: "fr_id n = locator_between (fs_max_id (fb_summary (ed_fragments st))) x" by (simp add: n x_def)
  have x: "locator_min < x" "x \<le> locator_max" "last x \<noteq> 0" "\<forall>m \<in> set ns. fr_id m < x" "\<forall>f \<in> set post. x \<le> fr_id f"
  proof -
    have "locator_min < x \<and> x \<le> locator_max \<and> last x \<noteq> 0 \<and> (\<forall>m \<in> set ns. fr_id m < x) \<and> (\<forall>f \<in> set post. x \<le> fr_id f)"
    proof (cases post)
      case Nil
      have "\<forall>m \<in> set ns. fr_id m < locator_max" using wk(7) by (simp add: ids_ok_def id_ok_def)
      then show ?thesis using Nil by (simp add: x_def locator_min_def locator_max_def word_gt_0)
    next
      case (Cons f fs)
      then have "id_ok f" "\<forall>m \<in> set ns. fr_id m < fr_id f" "ids_ok (f # fs)" using old(3) wk(8) by (simp_all add: before_def ids_ok_def)
      then show ?thesis using Cons by (auto simp: x_def id_ok_def ids_ok_def less_imp_le)
    qed
    then show "locator_min < x" "x \<le> locator_max" "last x \<noteq> 0" "\<forall>m \<in> set ns. fr_id m < x" "\<forall>f \<in> set post. x \<le> fr_id f" by blast+
  qed
  note i = fresh_id[OF wk(4,7) x(4,1,2,3) fid]
  have ids: "ids_ok (ns @ [n])" using i by (intro ids_ok_snoc[OF wk(7)]) (simp_all add: id_ok_def)
  have bef: "before (ns @ [n]) post" using wk(8) i(2) x(5) unfolding before_def by (auto intro: less_le_trans)
  have apart: "\<forall>y \<in> set ns. apart y n" using wk(9) t(2) nf by (auto simp: stamped_def apart_def)
  have "fr_timestamp y \<noteq> ts" if "y \<in> set rem" for y using rest_of_stamps[OF wk(3) that] old(5) by auto
  then have apart_rem: "\<forall>y \<in> set rem. apart n y" unfolding apart_def nf(1) by metis
  have fo: "frags_ok ins ?T (bs_undo_map b) (new_version b ts) (ns @ n # rem)"
    by (rule frags_ok_insert[OF wk(6) snd _ apart apart_rem]) blast
  have sl: "walk_slices b ?st = ?T" by (auto simp: walk_slices_def)
  have rec: "recorded ts ?st pre (if ed_fragment_start st = vis_len pre then [] else take 1 post) (ns @ [n]) (N @ [n]) (F @ (if True then [n] else []))"
    by (rule recorded_push[OF wk(10) fo]) simp_all
  have rn: "readable ins ns" using frags_ok_readable[OF wk(6)] by simp
  obtain q where q: "bs_visible_text b = q @ vtext ins rem" "str_len q = ed_fragment_start st" using walking_text[OF base w] by auto
  have vt: "vtext ins (ns @ [n]) = vtext ins ns @ t" "dtext ins [n] = []" "vtext ins [n] = t" using nf str by simp_all
  have p: "patched (bs_visible_text b) B (patch_push (ed_patch st) \<lparr>old_start = ed_fragment_start st,
      old_end = ed_fragment_start st, new_start = vis_len ns, new_end = vis_len ns + str_len t\<rparr>)
      (ed_fragment_start st) (vis_len ns + str_len t)"
    using q B str_len_texts(1)[OF rn] by (intro patched_push[OF wk(11)]) simp_all
  have st: "stamped ts (str_len Td + str_len t) (ns @ [n])" using wk(9) t(2) nf by (auto simp: stamped_def)
  have ro: "ropes_at ins (rb_push_str (ed_ropes st) t) (bs_visible_text b) (bs_deleted_text b) (ns @ [n]) rem"
    by (rule rb_push_str_ok[OF wk(5) vt(3,2)])
  have bu: "built (fb_push (ed_fragments st) n) (ns @ [n])" using snd by (intro fb_push_ok[OF wk(4)]) (simp add: sound_def)
  show ?thesis unfolding walking_def sl
    using wk(1-3) bu ro fo ids bef st rec p vt(1) nf retained_new[OF wk(12) nf(1)] by simp
qed

lemma edit_insert_ok:
  assumes base: "edit_base ins b ts" and w: "walking ins b ts B st pre post rem ns N F"
    and B: "B = vtext ins ns @ t @ R" and t: "ins ts = Td @ t @ Tr" "str_len Td = ed_insertion_offset st"
    "str_len Td + str_len t < 2 ^ 32"
  shows "\<exists>st' ns' N' F'. edit_insert t ts st = Some st' \<and> walking ins b ts B st' pre post rem ns' N' F' \<and>
    ed_fragment_start st' = ed_fragment_start st \<and> B = vtext ins ns' @ R \<and>
    ed_insertion_offset st' = ed_insertion_offset st + str_len t"
proof (cases "t = []")
  case True
  then have "edit_insert t ts st = Some st" by (simp add: edit_insert_def)
  then show ?thesis using w B True by auto
next
  case False
  define n where "n = inserted_frag ts (str_len Td) (str_len t)
    (locator_between (fs_max_id (fb_summary (ed_fragments st))) (case first_opt post of None \<Rightarrow> locator_max | Some f \<Rightarrow> fr_id f))"
  note wi = walking_inserted[OF base w B t(1,2) False t(3) n_def]
  have "built (ed_fragments st) ns" using w by (simp add: walking_def)
  note sm = built_summary(1)[OF this]
  have u: "add_u32 (ed_insertion_offset st) (as_u32 (str_len t)) = str_len Td + str_len t" "str_len t < 2 ^ 32" using t by simp_all
  let ?st' = "st\<lparr>ed_slices := ed_slices st @ [slice_from_fragment ts n], ed_insertions := ed_insertions st @ [insert_new n],
         ed_fragments := fb_push (ed_fragments st) n, ed_insertion_offset := str_len Td + str_len t,
         ed_ropes := rb_push_str (ed_ropes st) t,
         ed_patch := patch_push (ed_patch st) \<lparr>old_start = ed_fragment_start st, old_end = ed_fragment_start st,
           new_start = vis_len ns, new_end = vis_len ns + str_len t\<rparr>\<rparr>"
  have "edit_insert t ts st = Some ?st'"
    using False walking_state(3)[OF base w] sm u t(2)
    by (simp add: edit_insert_def push_fragments_for_insertion_def n_def Let_def push_insertion_once)
  moreover have "ed_fragment_start ?st' = ed_fragment_start st" "ed_insertion_offset ?st' = ed_insertion_offset st + str_len t"
    using t(2) by simp_all
  moreover have "B = vtext ins (ns @ [n]) @ R" using B unfolding conjunct2[OF wi] by simp
  ultimately show ?thesis using conjunct1[OF wi] by blast
qed

end
