(* ===== verification/BufferSteps5.thy ===== *)
theory BufferSteps5
  imports BufferSteps4
begin

text \<open>Marking the fragments of a range deleted.\<close>

definition deleted_frag :: "lamport \<Rightarrow> locator \<Rightarrow> fragment \<Rightarrow> fragment" where
  "deleted_frag ts i f = f\<lparr>fr_id := i, fr_deletions := fr_deletions f @ [ts], fr_visible := False\<rparr>"

lemma deleted_frag_sel [simp]:
  "fr_id (deleted_frag ts i f) = i" "fr_timestamp (deleted_frag ts i f) = fr_timestamp f"
  "fr_insertion_offset (deleted_frag ts i f) = fr_insertion_offset f" "fr_len (deleted_frag ts i f) = fr_len f"
  "fr_deletions (deleted_frag ts i f) = fr_deletions f @ [ts]" "\<not> fr_visible (deleted_frag ts i f)"
  "fr_max_undos (deleted_frag ts i f) = fr_max_undos f"
  by (simp_all add: deleted_frag_def)

lemma deleted_sound:
  assumes base: "edit_base ins b ts" and f: "sound ins S (bs_undo_map b) (new_version b ts) f" "fr_visible f"
    and S: "slice_from_fragment ts (deleted_frag ts i f) \<in> T" "S \<subseteq> T"
  shows "sound ins T (bs_undo_map b) (new_version b ts) (deleted_frag ts i f)"
proof -
  let ?n = "deleted_frag ts i f" and ?u = "bs_undo_map b"
  have ts: "um_is_undone ?u ts = Some False" "global_observed (new_version b ts) ts" using base by (simp_all add: edit_base_def)
  have s: "sound ins T ?u (new_version b ts) f" by (rule sound_mono[OF f(1) S(2)])
  have "fragment_is_visible f ?u = Some True" using f by (simp add: sound_def)
  then have vis: "fragment_is_visible ?n ?u = Some False"
  proof -
    have a: "all_undone g (xs @ [ts]) = Some False" if "all_undone g xs = Some True" "g ts = Some False" for g xs
      using that by (induction xs) (auto split: if_splits bind_splits simp: bind_eq_Some_conv)
    assume "fragment_is_visible f ?u = Some True"
    then have "um_is_undone ?u (fr_timestamp f) = Some False" "all_undone (um_is_undone ?u) (fr_deletions f) = Some True"
      by (auto simp: fragment_is_visible_def bind_eq_Some_conv split: if_splits)
    then show ?thesis using a[of "um_is_undone ?u"] ts(1) by (simp add: fragment_is_visible_def)
  qed
  have len: "fr_insertion_offset ?n + fr_len ?n < 2 ^ 32" using s by (simp add: sound_def)
  have cov: "\<forall>d \<in> changes_of ?n. covered T d ?n"
  proof
    fix d assume d: "d \<in> changes_of ?n"
    show "covered T d ?n"
    proof (cases "d = ts")
      case True
      then show ?thesis using covered_slice[OF len S(1)] by simp
    next
      case False
      then have "d \<in> changes_of f" using d by (auto simp: changes_of_def)
      then have "covered T d f" using s by (simp add: sound_def)
      then show ?thesis by (simp add: covered_def)
    qed
  qed
  have "frag_str ins ?n = frag_str ins f" using frag_str_cong[of ?n f] by simp
  then show ?thesis using s vis cov ts(2) by (auto simp: sound_def frag_wf_def)
qed

section \<open>The fragment under the cursor\<close>

lemma fresh_part_id:
  assumes base: "edit_base ins b ts" and w: "walking ins b ts B st pre (f # post) rem ns N F"
    and i: "i = locator_between (fs_max_id (fb_summary (ed_fragments st))) (fr_id f)"
  shows "\<forall>n \<in> set ns. fr_id n < i" "i < fr_id f" "fr_id n = i \<Longrightarrow> id_ok n"
proof -
  have wk: "built (ed_fragments st) ns" "ids_ok ns" "\<forall>n \<in> set ns. fr_id n < fr_id f"
    using w by (simp_all add: walking_def before_def)
  have "id_ok f" using old_sound(5)[OF base walking_items[OF w]] by simp
  then have f: "locator_min < fr_id f" "fr_id f \<le> locator_max" "last (fr_id f) \<noteq> 0" unfolding id_ok_def using less_imp_le by blast+
  note fi = fresh_id[OF wk f i]
  show "\<forall>n \<in> set ns. fr_id n < i" "i < fr_id f" by (rule fi)+
  show "fr_id n = i \<Longrightarrow> id_ok n" using fi by (simp add: id_ok_def)
qed

lemma before_snoc:
  assumes "before ns (f # post)" "ids_ok (f # post)" "fr_id n \<le> fr_id f"
  shows "before (ns @ [n]) post"
proof -
  have "\<forall>g \<in> set post. fr_id f < fr_id g" using assms(2) by (simp add: ids_ok_def)
  then have "\<forall>g \<in> set post. fr_id n < fr_id g" using assms(3) by (auto intro: le_less_trans)
  then show ?thesis using assms(1) by (auto simp: before_def)
qed

lemma delete_invisible:
  assumes base: "edit_base ins b ts" and w: "walking ins b ts B st pre (f # post) rem ns N F"
    and f: "\<not> fr_visible f" and lt: "ed_fragment_start st < e"
  shows "\<exists>st'. edit_delete_step e ts st = Some st' \<and> walking ins b ts B st' (pre @ [f]) post post (ns @ [f]) (N @ [f]) F \<and>
    rem = f # post \<and> ed_fragment_start st' = ed_fragment_start st \<and> ed_insertion_offset st' = ed_insertion_offset st"
proof -
  have wk: "cursor_at frag_text_dim fragment_sum (ed_cursor st) pre (f # post)" "c_tree (ed_cursor st) = bs_fragments b"
    "rest_of (ed_fragment_start st) pre (f # post) rem" "built (ed_fragments st) ns"
    "ropes_at ins (ed_ropes st) (bs_visible_text b) (bs_deleted_text b) ns rem"
    "frags_ok ins (walk_slices b st) (bs_undo_map b) (new_version b ts) (ns @ rem)"
    "ids_ok ns" "before ns (f # post)" "stamped ts (ed_insertion_offset st) ns"
    "patched (bs_visible_text b) B (ed_patch st) (ed_fragment_start st) (vis_len ns)" "retained ins b ts ns rem"
    using w by (simp_all add: walking_def)
  have s: "ed_fragment_start st = vis_len pre" and rem: "rem = f # post" using wk(3) f by (auto simp: rest_of_def)
  have rec: "recorded ts st pre [] ns N F" using w s by (simp add: walking_def)
  note old = old_sound[OF base walking_items[OF w]]
  have fo: "frags_ok ins (walk_slices b st) (bs_undo_map b) (new_version b ts) (ns @ f # post)" using wk(6) rem by simp
  then have fs: "frag_str ins f \<noteq> None" "frag_wf f" by (simp_all add: frags_ok_def sound_def)
  obtain ropes where pr: "push_rewritten f (fr_visible f) st = Some (st\<lparr>ed_insertions := ed_insertions st @ [insert_new f],
      ed_ropes := ropes, ed_fragments := fb_push (ed_fragments st) f\<rparr>)"
    "built (fb_push (ed_fragments st) f) (ns @ [f])" "ropes_at ins ropes (bs_visible_text b) (bs_deleted_text b) (ns @ [f]) post"
    using push_rewritten_ok[OF wk(4) wk(5)[unfolded rem] fs(1) refl fs(2)] by auto
  let ?st = "st\<lparr>ed_insertions := ed_insertions st @ [insert_new f], ed_ropes := ropes, ed_fragments := fb_push (ed_fragments st) f\<rparr>"
  have rec': "recorded ts ?st pre [f] (ns @ [f]) (N @ [f]) (F @ (if False then [f] else []))"
    by (rule recorded_push[OF rec fo]) simp_all
  have ids: "ids_ok (ns @ [f])" "before (ns @ [f]) post"
    using before_snoc[OF wk(8) old(3)] wk(8) old(5) by (auto intro!: ids_ok_snoc[OF wk(7)] simp: before_def)
  have sl: "walk_slices b ?st = walk_slices b st" by (simp add: walk_slices_def)
  have stp: "stamped ts (ed_insertion_offset ?st) (ns @ [f])" using wk(9) old(5) by (simp add: stamped_def)
  have ret: "retained ins b ts (ns @ [f]) post"
    by (rule retained_append) (use wk(11) rem old(5,6) in auto)
  have pat: "patched (bs_visible_text b) B (ed_patch ?st) (vis_len (pre @ [f])) (vis_len (ns @ [f]))"
    using wk(10) s f by simp
  have "\<exists>c. cursor_next frag_text_dim (ed_cursor ?st) = Some c \<and>
      walking ins b ts B (?st\<lparr>ed_cursor := c, ed_fragment_start := vis_len (pre @ [f])\<rparr>) (pre @ [f]) post post (ns @ [f]) (N @ [f]) F"
    using wk(1,2) pr(2,3) fo rec' stp ids pat ret by (intro walking_next[OF base]) (simp_all add: sl)
  then obtain c where c: "cursor_next frag_text_dim (ed_cursor ?st) = Some c"
    "walking ins b ts B (?st\<lparr>ed_cursor := c, ed_fragment_start := vis_len (pre @ [f])\<rparr>) (pre @ [f]) post post (ns @ [f]) (N @ [f]) F" by blast
  have pos: "0 < fr_len f" using old(5) by simp
  have m: "min e (vis_len pre) = vis_len pre" using lt s by simp
  have "edit_delete_step e ts st = Some (?st\<lparr>ed_cursor := c, ed_fragment_start := vis_len (pre @ [f])\<rparr>)"
    using walking_state[OF base w] f pos pr(1) c(1) lt s m by (simp add: edit_delete_step_def Let_def)
  then show ?thesis using c(2) rem s f by (intro exI[of _ "?st\<lparr>ed_cursor := c, ed_fragment_start := vis_len (pre @ [f])\<rparr>"]) simp
qed

lemma delete_consumed:
  assumes base: "edit_base ins b ts" and w: "walking ins b ts B st pre (f # post) rem ns N F"
    and f: "fr_visible f" and s: "ed_fragment_start st = vis_len (pre @ [f])" "ed_fragment_start st < e"
  shows "\<exists>st'. edit_delete_step e ts st = Some st' \<and> walking ins b ts B st' (pre @ [f]) post post ns N F \<and>
    rem = post \<and> ed_fragment_start st' = ed_fragment_start st \<and> ed_insertion_offset st' = ed_insertion_offset st"
proof -
  have pos: "0 < fr_len f" using old_sound(5)[OF base walking_items[OF w]] by simp
  have r: "rest_of (ed_fragment_start st) pre (f # post) rem" using w by (simp add: walking_def)
  have rem: "rem = post" by (rule rest_of_done[OF r f _ pos]) (use s f in simp)
  have "\<exists>c. cursor_next frag_text_dim (ed_cursor st) = Some c \<and>
      walking ins b ts B (st\<lparr>ed_cursor := c, ed_fragment_start := vis_len (pre @ [f])\<rparr>) (pre @ [f]) post post ns N F"
    using w rem s f pos by (intro walking_next[OF base]) (auto simp: walking_def before_def)
  then obtain c where c: "cursor_next frag_text_dim (ed_cursor st) = Some c"
    "walking ins b ts B (st\<lparr>ed_cursor := c, ed_fragment_start := vis_len (pre @ [f])\<rparr>) (pre @ [f]) post post ns N F" by blast
  have m: "min e (vis_len (pre @ [f])) = vis_len (pre @ [f])" using s by simp
  have "edit_delete_step e ts st = Some (st\<lparr>ed_cursor := c\<rparr>)"
    using walking_state[OF base w] f c(1) s m unfolding edit_delete_step_def by (simp add: csub_def Let_def del: min_less_iff_conj)
  moreover have "st\<lparr>ed_cursor := c, ed_fragment_start := vis_len (pre @ [f])\<rparr> = st\<lparr>ed_cursor := c\<rparr>" unfolding s(1)[symmetric] by simp
  ultimately show ?thesis using c(2) rem by auto
qed

end
