(* ===== verification/BufferSteps6.thy ===== *)
theory BufferSteps6
  imports BufferSteps5
begin

text \<open>Deleting the part of a visible fragment that lies in the range, and the whole loop.\<close>

text \<open>The text of what is left, split where the part under the cursor ends.\<close>

lemma part_text:
  assumes w: "walking ins b ts B st pre (f # post) rem ns N F" and f: "fr_visible f"
    and s: "ed_fragment_start st < e'" "e' \<le> vis_len pre + fr_len f" "e' = min e (vis_len pre + fr_len f)"
    and x: "vtext ins rem = x @ y" "str_len x = e - ed_fragment_start st"
  obtains x1 x2 where "x = x1 @ x2" "str_len x1 = e' - ed_fragment_start st"
proof (cases "e \<le> vis_len pre + fr_len f")
  case True
  then show thesis using that[of x "[]"] x(2) s(3) by simp
next
  case False
  let ?r = "drop_frag (ed_fragment_start st - vis_len pre) f"
  have wk: "rest_of (ed_fragment_start st) pre (f # post) rem"
    "frags_ok ins (walk_slices b st) (bs_undo_map b) (new_version b ts) (ns @ rem)" using w by (simp_all add: walking_def)
  have head: "rem = ?r # post" "vis_len pre \<le> ed_fragment_start st" using rest_of_head[OF wk(1) f] s(1,2) by simp_all
  have rn: "frag_str ins ?r \<noteq> None" using wk(2) by (simp add: head(1) frags_ok_def sound_def)
  have l: "str_len (fstr ins ?r) = e' - ed_fragment_start st" unfolding str_len_fstr[OF rn] using False s(3) head(2) by simp
  have "fstr ins ?r @ vtext ins post = x @ y" using x(1) f by (simp add: head(1))
  moreover have "str_len (fstr ins ?r) \<le> str_len x" unfolding l x(2) using s(3) by simp
  ultimately obtain z where "x = fstr ins ?r @ z" "vtext ins post = z @ y" by (rule str_prefix_split)
  then show thesis using that l by blast
qed

lemma delete_part:
  assumes base: "edit_base ins b ts" and w: "walking ins b ts B st pre (f # post) rem ns N F"
    and f: "fr_visible f" and s: "ed_fragment_start st < e'" "e' \<le> vis_len pre + fr_len f"
    and x: "vtext ins rem = x @ y" "str_len x = e' - ed_fragment_start st" and B: "vis_len ns \<le> str_len B"
    and i: "i = locator_between (fs_max_id (fb_summary (ed_fragments st))) (fr_id f)"
    and n: "n = deleted_frag ts i (part_of pre (ed_fragment_start st) e' f)"
  shows "\<exists>st3 rem2. push_rewritten n True
        (st\<lparr>ed_patch := patch_push (ed_patch st) \<lparr>old_start = ed_fragment_start st, old_end = e', new_start = vis_len ns, new_end = vis_len ns\<rparr>,
            ed_slices := ed_slices st @ [slice_from_fragment ts n]\<rparr>) = Some st3 \<and>
      walking ins b ts B (st3\<lparr>ed_fragment_start := e'\<rparr>) pre (f # post) rem2 (ns @ [n]) (N @ [n]) (F @ [n]) \<and>
      vtext ins rem2 = y \<and> ed_cursor st3 = ed_cursor st \<and> ed_insertion_offset st3 = ed_insertion_offset st \<and>
      recorded ts st3 pre [f] (ns @ [n]) (N @ [n]) (F @ [n]) \<and> rest_of e' pre (f # post) rem2"
proof -
  let ?s = "ed_fragment_start st"
  let ?p = "patch_push (ed_patch st) \<lparr>old_start = ?s, old_end = e', new_start = vis_len ns, new_end = vis_len ns\<rparr>"
  let ?st2 = "st\<lparr>ed_patch := ?p, ed_slices := ed_slices st @ [slice_from_fragment ts n]\<rparr>"
  note part = part_sound[OF w f refl s x]
  note fi = fresh_part_id[OF base w i]
  note old = old_sound[OF base walking_items[OF w]]
  have wk: "before ns (f # post)" "stamped ts (ed_insertion_offset st) ns"
    "patched (bs_visible_text b) B (ed_patch st) ?s (vis_len ns)"
    "cursor_at frag_text_dim fragment_sum (ed_cursor st) pre (f # post)" "c_tree (ed_cursor st) = bs_fragments b"
    using w by (simp_all add: walking_def)
  have T: "slice_from_fragment ts n \<in> walk_slices b ?st2" "walk_slices b st \<subseteq> walk_slices b ?st2" by (auto simp: walk_slices_def)
  have "fr_visible (part_of pre ?s e' f)" using f by (simp add: part_of_def)
  then have snd: "sound ins (walk_slices b ?st2) (bs_undo_map b) (new_version b ts) n"
    by (rule deleted_sound[OF base part(1) _ T(1)[unfolded n] T(2)[unfolded n], folded n])
  have "\<exists>st3 rem2. push_rewritten n True ?st2 = Some st3 \<and>
    st3 = ?st2\<lparr>ed_insertions := ed_insertions st3, ed_ropes := ed_ropes st3, ed_fragments := ed_fragments st3\<rparr> \<and>
    rest_of e' pre (f # post) rem2 \<and> built (ed_fragments st3) (ns @ [n]) \<and>
    ropes_at ins (ed_ropes st3) (bs_visible_text b) (bs_deleted_text b) (ns @ [n]) rem2 \<and>
    frags_ok ins (walk_slices b st3) (bs_undo_map b) (new_version b ts) ((ns @ [n]) @ rem2) \<and> ids_ok (ns @ [n]) \<and>
    recorded ts st3 pre [f] (ns @ [n]) (N @ [n]) (F @ (if True then [n] else [])) \<and>
    frag_str ins n = Some x \<and> vtext ins rem2 = y"
    using fi by (intro walking_part[OF base w f refl s x _ _ _ snd]) (simp_all add: n part_of_def)
  then obtain st3 rem2 where st3: "push_rewritten n True ?st2 = Some st3"
    "st3 = ?st2\<lparr>ed_insertions := ed_insertions st3, ed_ropes := ed_ropes st3, ed_fragments := ed_fragments st3\<rparr>"
    "rest_of e' pre (f # post) rem2" "built (ed_fragments st3) (ns @ [n])"
    "ropes_at ins (ed_ropes st3) (bs_visible_text b) (bs_deleted_text b) (ns @ [n]) rem2"
    "frags_ok ins (walk_slices b st3) (bs_undo_map b) (new_version b ts) ((ns @ [n]) @ rem2)" "ids_ok (ns @ [n])"
    "recorded ts st3 pre [f] (ns @ [n]) (N @ [n]) (F @ [n])" "vtext ins rem2 = y" "frag_str ins n = Some x" by auto
  have fields: "ed_cursor st3 = ed_cursor st" "ed_patch st3 = ?p" "ed_insertion_offset st3 = ed_insertion_offset st"
    by (subst st3(2), simp)+
  have nv: "vis_len (ns @ [n]) = vis_len ns" by (simp add: n)
  obtain q where q: "bs_visible_text b = q @ vtext ins rem" "str_len q = ?s" using walking_text[OF base w] by auto
  have "e' \<le> str_len (bs_visible_text b)" using q x s(1) by simp
  then have pat: "patched (bs_visible_text b) B (ed_patch st3) e' (vis_len (ns @ [n]))"
    unfolding nv fields(2) using s(1) B by (intro patched_push[OF wk(3)]) simp_all
  have "ids_ok (f # post)" by (rule old(3))
  then have bef: "before (ns @ [n]) (f # post)" using wk(1) fi(2) by (auto simp: before_def ids_ok_def n)
  have stp: "stamped ts (ed_insertion_offset st3) (ns @ [n])" using wk(2) old(5) by (simp add: stamped_def part_of_def n fields(3))
  have "ts \<notin> set (fr_deletions f)" using base walking_items[OF w, symmetric] by (simp add: edit_base_def)
  then have "removeAll ts (fr_deletions n) = removeAll ts (fr_deletions f)" by (simp add: n part_of_def)
  then have "visible_without (bs_undo_map b) ts n = visible_without (bs_undo_map b) ts f"
    by (intro visible_without_cong) (simp_all add: n part_of_def)
  then have vw: "visible_without (bs_undo_map b) ts n" using old(6) f by simp
  have ret: "retained ins b ts (ns @ [n]) rem2"
    by (rule retained_part[OF _ x(1) st3(10,9) vw rest_part_bytes[OF _ st3(3) f s]])
      (use w in \<open>simp_all add: walking_def n part_of_def\<close>)
  have ne: "e' \<noteq> vis_len pre" using s(1) part(3) by simp
  have "walking ins b ts B (st3\<lparr>ed_fragment_start := e'\<rparr>) pre (f # post) rem2 (ns @ [n]) (N @ [n]) (F @ [n])"
    unfolding walking_def using st3(3-8) wk(4,5) fields(1) pat bef stp ne ret by simp
  then show ?thesis using st3(1,3,8,9) fields(1,3) by blast
qed

lemma start_cursor: "st\<lparr>ed_fragment_start := a, ed_cursor := c\<rparr> = st\<lparr>ed_cursor := c, ed_fragment_start := a\<rparr>"
  by (cases st) simp

lemma delete_visible:
  assumes base: "edit_base ins b ts" and w: "walking ins b ts B st pre (f # post) rem ns N F"
    and f: "fr_visible f" and s: "ed_fragment_start st < vis_len (pre @ [f])" "ed_fragment_start st < e"
    and x: "vtext ins rem = x @ y" "str_len x = e - ed_fragment_start st" and B: "B = vtext ins ns @ R"
  shows "\<exists>st' pre' post' rem' ns' N' F' x'. edit_delete_step e ts st = Some st' \<and>
    walking ins b ts B st' pre' post' rem' ns' N' F' \<and> ed_fragment_start st' \<le> e \<and>
    (ed_fragment_start st' = e \<or> length post' < length (f # post)) \<and>
    vtext ins rem' = x' @ y \<and> str_len x' = e - ed_fragment_start st' \<and> B = vtext ins ns' @ R \<and>
    ed_insertion_offset st' = ed_insertion_offset st"
proof -
  let ?s = "ed_fragment_start st" and ?e = "vis_len (pre @ [f])"
  define e' where "e' = min e ?e"
  have e': "?s < e'" "e' \<le> vis_len pre + fr_len f" "e' = min e (vis_len pre + fr_len f)" using s f by (simp_all add: e'_def)
  obtain x1 x2 where x12: "x = x1 @ x2" "str_len x1 = e' - ?s" by (rule part_text[OF w f e' x])
  have rem: "vtext ins rem = x1 @ x2 @ y" using x(1) x12(1) by simp
  have rn: "readable ins ns" using w frags_ok_readable unfolding walking_def by fastforce
  have Bl: "vis_len ns \<le> str_len B" using B str_len_texts(1)[OF rn] by simp
  define i where "i = locator_between (fs_max_id (fb_summary (ed_fragments st))) (fr_id f)"
  define n where "n = deleted_frag ts i (part_of pre ?s e' f)"
  let ?st2 = "st\<lparr>ed_patch := patch_push (ed_patch st) \<lparr>old_start = ?s, old_end = e', new_start = vis_len ns, new_end = vis_len ns\<rparr>,
            ed_slices := ed_slices st @ [slice_from_fragment ts n]\<rparr>"
  from delete_part[OF base w f e'(1,2) rem x12(2) Bl i_def n_def]
  obtain st3 rem2 where st3: "push_rewritten n True ?st2 = Some st3"
    "walking ins b ts B (st3\<lparr>ed_fragment_start := e'\<rparr>) pre (f # post) rem2 (ns @ [n]) (N @ [n]) (F @ [n])"
    "vtext ins rem2 = x2 @ y" "ed_cursor st3 = ed_cursor st" "ed_insertion_offset st3 = ed_insertion_offset st"
    "recorded ts st3 pre [f] (ns @ [n]) (N @ [n]) (F @ [n])" "rest_of e' pre (f # post) rem2" by blast
  have old: "\<forall>g \<in> set (pre @ f # post). sound ins (ts_elems (bs_insertion_slices b)) (bs_undo_map b) (new_version b ts) g"
    "ids_ok (f # post)" using old_sound(1,3)[OF base walking_items[OF w]] by simp_all
  have flen: "fr_insertion_offset f + fr_len f < 2 ^ 32" "0 < fr_len f" using old(1) by (simp_all add: sound_def)
  have r: "rest_of ?s pre (f # post) rem" "built (ed_fragments st) ns" using w by (simp_all add: walking_def)
  have ge: "vis_len pre \<le> ?s" using rest_of_vis_len[OF r(1)] by simp
  have len: "e' - vis_len pre - (?s - vis_len pre) = e' - ?s" using ge by simp
  have code: "f\<lparr>fr_len := as_u32 (e' - ?s), fr_insertion_offset := add_u32 (fr_insertion_offset f) (as_u32 (?s - vis_len pre)),
      fr_id := i, fr_deletions := fr_deletions f @ [ts], fr_visible := False\<rparr> = n"
    using rewritten_u32[OF flen(1), of "?s - vis_len pre" "e' - ?s"] e'(1,2) ge
    by (simp add: n_def part_of_def drop_frag_def take_frag_def deleted_frag_def)
  have nf: "0 < fr_len n" "\<not> fr_visible n" using e'(1) by (simp_all add: n_def part_of_def)
  note pos = walking_state[OF base w]
  note sm = built_summary(1)[OF r(2)]
  have me: "min e (ft_visible \<lparr>ft_visible = vis_len (pre @ take 1 (f # post)), ft_deleted = d\<rparr>) = e'" for d by (simp add: e'_def)
  have step: "edit_delete_step e ts st =
     (if ?e \<le> e then do { c \<leftarrow> cursor_next frag_text_dim (ed_cursor st); Some (st3\<lparr>ed_cursor := c, ed_fragment_start := e'\<rparr>) }
      else Some (st3\<lparr>ed_fragment_start := e'\<rparr>))"
    unfolding edit_delete_step_def pos(2,3) Let_def first_opt.simps bind.bind_lunit me
    using f nf st3(1,4) e'(1) ge sm pos(1) by (simp add: csub_def i_def[symmetric] code less_imp_le start_cursor)
  have Bn: "B = vtext ins (ns @ [n]) @ R" using B nf(2) by simp
  show ?thesis
  proof (cases "?e \<le> e")
    case False
    then have "e' = e" by (simp add: e'_def)
    then have x2: "x2 = []" using x(2) x12 by (simp add: str_len_0)
    have "edit_delete_step e ts st = Some (st3\<lparr>ed_fragment_start := e'\<rparr>)" using step False by simp
    then show ?thesis using st3(2,3,5) Bn x2 \<open>e' = e\<close> by fastforce
  next
    case True
    then have ee: "e' = ?e" by (simp add: e'_def)
    have rem2: "rem2 = post" by (rule rest_of_done[OF st3(7) f _ flen(2)]) (use ee f in simp)
    have wk: "cursor_at frag_text_dim fragment_sum (ed_cursor st3) pre (f # post)" "c_tree (ed_cursor st3) = bs_fragments b"
      "built (ed_fragments st3) (ns @ [n])" "ropes_at ins (ed_ropes st3) (bs_visible_text b) (bs_deleted_text b) (ns @ [n]) post"
      "frags_ok ins (walk_slices b st3) (bs_undo_map b) (new_version b ts) ((ns @ [n]) @ post)" "ids_ok (ns @ [n])"
      "before (ns @ [n]) post" "stamped ts (ed_insertion_offset st3) (ns @ [n])"
      "patched (bs_visible_text b) B (ed_patch st3) (vis_len (pre @ [f])) (vis_len (ns @ [n]))"
      "retained ins b ts (ns @ [n]) post"
      using st3(2) unfolding walking_def rem2 ee by (simp_all add: before_def)
    obtain c where c: "cursor_next frag_text_dim (ed_cursor st3) = Some c"
      "walking ins b ts B (st3\<lparr>ed_cursor := c, ed_fragment_start := vis_len (pre @ [f])\<rparr>) (pre @ [f]) post post (ns @ [n]) (N @ [n]) (F @ [n])"
      using walking_next[OF base wk(1-8) st3(6) wk(9,10)] by blast
    have "edit_delete_step e ts st = Some (st3\<lparr>ed_cursor := c, ed_fragment_start := e'\<rparr>)" using step True c(1) st3(4) by simp
    moreover have "str_len x2 = e - e'" using x(2) x12 e'(1) by simp
    moreover define st' where "st' = st3\<lparr>ed_cursor := c, ed_fragment_start := ?e\<rparr>"
    moreover from this have "ed_fragment_start st' = ?e" "ed_insertion_offset st' = ed_insertion_offset st" using st3(5) by simp_all
    ultimately have "edit_delete_step e ts st = Some st'" "ed_fragment_start st' \<le> e"
      "length post < length (f # post)" "vtext ins post = x2 @ y" "str_len x2 = e - ed_fragment_start st'"
      "ed_insertion_offset st' = ed_insertion_offset st" "walking ins b ts B st' (pre @ [f]) post post (ns @ [n]) (N @ [n]) (F @ [n])"
      using c(2) st3(3) rem2 True ee by simp_all
    then show ?thesis using Bn by blast
  qed
qed

end
