(* ===== verification/BufferSteps7.thy ===== *)
theory BufferSteps7
  imports BufferSteps6
begin

text \<open>The loop over a range, the edit of a range and the edits of all ranges.\<close>

section \<open>The loop of deletions\<close>

lemma delete_step_ok:
  assumes base: "edit_base ins b ts" and w: "walking ins b ts B st pre post rem ns N F" and lt: "ed_fragment_start st < e"
    and x: "vtext ins rem = x @ y" "str_len x = e - ed_fragment_start st" and B: "B = vtext ins ns @ R"
  shows "\<exists>st' pre' post' rem' ns' N' F' x'. edit_delete_step e ts st = Some st' \<and>
    walking ins b ts B st' pre' post' rem' ns' N' F' \<and> ed_fragment_start st' \<le> e \<and>
    (ed_fragment_start st' = e \<or> length post' < length post) \<and>
    vtext ins rem' = x' @ y \<and> str_len x' = e - ed_fragment_start st' \<and> B = vtext ins ns' @ R \<and>
    ed_insertion_offset st' = ed_insertion_offset st"
proof -
  have r: "rest_of (ed_fragment_start st) pre post rem" using w by (simp add: walking_def)
  have "rem \<noteq> []" using x lt by auto
  then obtain f post' where post: "post = f # post'" using r by (cases post) (auto simp: rest_of_def)
  note w = w[unfolded post] and r = r[unfolded post]
  consider "\<not> fr_visible f" | "fr_visible f" "ed_fragment_start st = vis_len (pre @ [f])"
    | "fr_visible f" "ed_fragment_start st < vis_len (pre @ [f])"
    using rest_of_bound[OF r] by fastforce
  then show ?thesis
  proof cases
    case 1
    obtain st' where st': "edit_delete_step e ts st = Some st'" "walking ins b ts B st' (pre @ [f]) post' post' (ns @ [f]) (N @ [f]) F"
      "rem = f # post'" "ed_fragment_start st' = ed_fragment_start st" "ed_insertion_offset st' = ed_insertion_offset st"
      using delete_invisible[OF base w 1 lt] by blast
    then have "vtext ins post' = x @ y" "str_len x = e - ed_fragment_start st'" "ed_fragment_start st' \<le> e"
      "length post' < length post" "B = vtext ins (ns @ [f]) @ R" using 1 x B lt post by simp_all
    then show ?thesis using st'(1,2,5) by blast
  next
    case 2
    obtain st' where st': "edit_delete_step e ts st = Some st'" "walking ins b ts B st' (pre @ [f]) post' post' ns N F"
      "rem = post'" "ed_fragment_start st' = ed_fragment_start st" "ed_insertion_offset st' = ed_insertion_offset st"
      using delete_consumed[OF base w 2 lt] by blast
    then have "vtext ins post' = x @ y" "str_len x = e - ed_fragment_start st'" "ed_fragment_start st' \<le> e"
      "length post' < length post" using x lt post by simp_all
    then show ?thesis using st'(1,2,5) B by blast
  next
    case 3
    show ?thesis unfolding post by (rule delete_visible[OF base w 3 lt x B])
  qed
qed

lemma edit_delete_loop_ok:
  assumes "edit_base ins b ts" "walking ins b ts B st pre post rem ns N F" "ed_fragment_start st \<le> e"
    "vtext ins rem = x @ y" "str_len x = e - ed_fragment_start st" "B = vtext ins ns @ R"
  shows "\<exists>st' pre' post' rem' ns' N' F'. edit_delete_loop e ts st = Some st' \<and>
    walking ins b ts B st' pre' post' rem' ns' N' F' \<and> ed_fragment_start st' = e \<and>
    vtext ins rem' = y \<and> B = vtext ins ns' @ R \<and> ed_insertion_offset st' = ed_insertion_offset st"
  using assms(2-)
proof (induction "length post" arbitrary: st pre post rem ns N F x rule: less_induct)
  case less
  show ?case
  proof (cases "ed_fragment_start st < e")
    case False
    then have e: "ed_fragment_start st = e" using less.prems(2) by simp
    then have "x = []" using less.prems(4) by (simp add: str_len_0)
    moreover have "edit_delete_loop e ts st = Some st" using False by (simp add: edit_delete_loop.simps)
    moreover from calculation have "vtext ins rem = y" using less.prems(3) by simp
    ultimately show ?thesis using less.prems(1,5) e by blast
  next
    case True
    obtain st' pre' post' rem' ns' N' F' x' where s: "edit_delete_step e ts st = Some st'"
      "walking ins b ts B st' pre' post' rem' ns' N' F'" "ed_fragment_start st' \<le> e"
      "ed_fragment_start st' = e \<or> length post' < length post"
      "vtext ins rem' = x' @ y" "str_len x' = e - ed_fragment_start st'" "B = vtext ins ns' @ R"
      "ed_insertion_offset st' = ed_insertion_offset st"
      using delete_step_ok[OF assms(1) less.prems(1) True less.prems(3,4,5)] by blast
    have l: "edit_delete_loop e ts st = edit_delete_loop e ts st'" using True s(1) by (simp add: edit_delete_loop.simps)
    from s(4) show ?thesis
    proof
      assume e: "ed_fragment_start st' = e"
      then have "x' = []" using s(6) by (simp add: str_len_0)
      then have "vtext ins rem' = y" using s(5) by simp
      moreover have "edit_delete_loop e ts st = Some st'" unfolding l using e by (simp add: edit_delete_loop.simps)
      ultimately show ?thesis using s(2,7,8) e by blast
    next
      assume "length post' < length post"
      from less.hyps[OF this s(2,3,5,6,7)] show ?thesis using l s(8) by simp
    qed
  qed
qed

section \<open>What edits do to a text\<close>

text \<open>The text from \<open>i\<close> on after the edits: no value when a bound is not a character boundary, or
  the ranges are not in order.\<close>

fun edits_apply :: "str \<Rightarrow> nat \<Rightarrow> ((nat \<times> nat) \<times> str) list \<Rightarrow> str option" where
  "edits_apply V i [] = str_slice V i (str_len V)"
| "edits_apply V i (((s, e), t) # es) = do {
     kept \<leftarrow> str_slice V i s;
     _ \<leftarrow> str_slice V s e;
     r \<leftarrow> edits_apply V e es;
     Some (kept @ line_ending_normalize t @ r)
   }"

definition new_texts :: "((nat \<times> nat) \<times> str) list \<Rightarrow> str list" where
  "new_texts es = map (\<lambda>e. line_ending_normalize (snd e)) es"

lemma slice_at:
  assumes "V = p @ q" "str_slice V (str_len p) j = Some a"
  obtains c where "q = a @ c" "j = str_len p + str_len a"
proof -
  obtain a0 c where ac: "V = a0 @ a @ c" "str_len p = str_len a0" "j = str_len a0 + str_len a"
    using assms(2) by (auto simp: str_slice_Some)
  have "p @ q = a0 @ (a @ c)" using assms(1) ac(1) by simp
  from str_len_inj[OF this ac(2)] show thesis using that ac(2,3) by simp
qed

section \<open>The edit of a range\<close>

lemma walk_to_start:
  assumes base: "edit_base ins b ts" and w: "walking ins b ts B st pre post rem ns N F"
    and sl: "str_slice (bs_visible_text b) (ed_fragment_start st) s = Some a" and B: "B = vtext ins ns @ a @ R"
  shows "\<exists>st1 st' pre' post' rem' ns' N'. edit_jump s st = Some st1 \<and> edit_prefix s st1 = Some st' \<and>
    walking ins b ts B st' pre' post' rem' ns' N' F \<and> ed_fragment_start st' = s \<and> B = vtext ins ns' @ R \<and>
    ed_insertion_offset st' = ed_insertion_offset st"
proof -
  obtain p where p: "bs_visible_text b = p @ vtext ins rem" "str_len p = ed_fragment_start st" using walking_text[OF base w] by auto
  obtain c where c: "vtext ins rem = a @ c" "s = str_len p + str_len a" by (rule slice_at[OF p(1) sl[folded p(2)]])
  have pend: "unbuilt ins B (ed_fragment_start st) rem ns s R"
    unfolding unbuilt_def using c p(2) B by (intro exI[of _ a] exI[of _ c]) simp
  have "s \<le> str_len (bs_visible_text b)" using p c by simp
  from edit_jump_ok[OF base w pend this] obtain st1 pre1 post1 rem1 ns1 N1 where 1: "edit_jump s st = Some st1"
    "walking ins b ts B st1 pre1 post1 rem1 ns1 N1 F" "unbuilt ins B (ed_fragment_start st1) rem1 ns1 s R"
    "s \<le> vis_len (pre1 @ take 1 post1)" "ed_insertion_offset st1 = ed_insertion_offset st" by blast
  from edit_prefix_ok[OF base 1(2-4)] 1(1,5) show ?thesis by force
qed

lemma edit_range_ok:
  assumes base: "edit_base ins b ts" and w: "walking ins b ts B st pre post rem ns N F"
    and ap: "edits_apply (bs_visible_text b) (ed_fragment_start st) (((s, e), t) # es) = Some R" and B: "B = vtext ins ns @ R"
    and t: "ins ts = Td @ line_ending_normalize t @ Tr" "str_len Td = ed_insertion_offset st"
      "str_len Td + str_len (line_ending_normalize t) < 2 ^ 32"
  shows "\<exists>op' st' pre' post' rem' ns' N' F' R'. edit_range ts ((s, e), t) (op, st) = Some (op', st') \<and>
    walking ins b ts B st' pre' post' rem' ns' N' F' \<and> edits_apply (bs_visible_text b) (ed_fragment_start st') es = Some R' \<and>
    B = vtext ins ns' @ R' \<and> ed_insertion_offset st' = ed_insertion_offset st + str_len (line_ending_normalize t) \<and>
    eo_new_text op' = eo_new_text op @ [line_ending_normalize t] \<and> eo_timestamp op' = eo_timestamp op \<and>
    eo_version op' = eo_version op \<and> length (eo_ranges op') = Suc (length (eo_ranges op))"
proof -
  let ?V = "bs_visible_text b" and ?t = "line_ending_normalize t"
  obtain a d r where ar: "str_slice ?V (ed_fragment_start st) s = Some a" "str_slice ?V s e = Some d"
    "edits_apply ?V e es = Some r" "R = a @ ?t @ r" using ap by (auto simp: bind_eq_Some_conv)
  obtain st1 st2 pre2 post2 rem2 ns2 N2 where 2: "edit_jump s st = Some st1" "edit_prefix s st1 = Some st2"
    "walking ins b ts B st2 pre2 post2 rem2 ns2 N2 F" "ed_fragment_start st2 = s" "B = vtext ins ns2 @ ?t @ r"
    "ed_insertion_offset st2 = ed_insertion_offset st"
    using walk_to_start[OF base w ar(1) B[unfolded ar(4)]] by blast
  obtain st3 ns3 N3 F3 where 3: "edit_insert ?t ts st2 = Some st3" "walking ins b ts B st3 pre2 post2 rem2 ns3 N3 F3"
    "ed_fragment_start st3 = s" "B = vtext ins ns3 @ r" "ed_insertion_offset st3 = ed_insertion_offset st + str_len ?t"
    using edit_insert_ok[OF base 2(3,5) t(1) _ t(3)] t(2) 2(4,6) by auto
  obtain p where p: "?V = p @ vtext ins rem2" "str_len p = s" using walking_text[OF base 3(2)] 3(3) by auto
  obtain c where c: "vtext ins rem2 = d @ c" "e = str_len p + str_len d" by (rule slice_at[OF p(1) ar(2)[folded p(2)]])
  have se: "ed_fragment_start st3 \<le> e" "str_len d = e - ed_fragment_start st3" using c(2) p(2) 3(3) by simp_all
  obtain st4 pre4 post4 rem4 ns4 N4 F4 where 4: "edit_delete_loop e ts st3 = Some st4"
    "walking ins b ts B st4 pre4 post4 rem4 ns4 N4 F4" "ed_fragment_start st4 = e" "B = vtext ins ns4 @ r"
    "ed_insertion_offset st4 = ed_insertion_offset st3"
    using edit_delete_loop_ok[OF base 3(2) se(1) c(1) se(2) 3(4)] by blast
  define op' where "op' = op\<lparr>eo_ranges := eo_ranges op @ [(s + ft_deleted (c_position (ed_cursor st1)), e + ft_deleted (c_position (ed_cursor st4)))],
      eo_new_text := eo_new_text op @ [?t]\<rparr>"
  have "edit_range ts ((s, e), t) (op, st) = Some (op', st4)" using 2(1,2) 3(1) 4(1) by (simp add: edit_range_def op'_def Let_def)
  moreover have "eo_new_text op' = eo_new_text op @ [?t]" "eo_timestamp op' = eo_timestamp op" "eo_version op' = eo_version op"
    "length (eo_ranges op') = Suc (length (eo_ranges op))" by (simp_all add: op'_def)
  moreover have "edits_apply ?V (ed_fragment_start st4) es = Some r" using ar(3) 4(3) by simp
  moreover have "ed_insertion_offset st4 = ed_insertion_offset st + str_len ?t" using 3(5) 4(5) by simp
  ultimately show ?thesis using 4(2,4) by blast
qed

lemma edit_ranges_ok:
  assumes base: "edit_base ins b ts"
  shows "walking ins b ts B st pre post rem ns N F \<Longrightarrow> edits_apply (bs_visible_text b) (ed_fragment_start st) es = Some R \<Longrightarrow>
    B = vtext ins ns @ R \<Longrightarrow> ins ts = Td @ concat (new_texts es) \<Longrightarrow> str_len Td = ed_insertion_offset st \<Longrightarrow>
    str_len (ins ts) < 2 ^ 32 \<Longrightarrow>
    \<exists>op' st' pre' post' rem' ns' N' F'. edit_ranges ts es (op, st) = Some (op', st') \<and>
      walking ins b ts B st' pre' post' rem' ns' N' F' \<and> B = vtext ins ns' @ vtext ins rem' \<and>
      eo_new_text op' = eo_new_text op @ new_texts es \<and> eo_timestamp op' = eo_timestamp op \<and>
      eo_version op' = eo_version op \<and> length (eo_ranges op') = length (eo_ranges op) + length es"
proof (induction es arbitrary: op st pre post rem ns N F R Td)
  case Nil
  obtain p where p: "bs_visible_text b = p @ vtext ins rem" "str_len p = ed_fragment_start st" using walking_text[OF base Nil.prems(1)] by auto
  have sl: "str_slice (bs_visible_text b) (str_len p) (str_len (bs_visible_text b)) = Some R" using Nil.prems(2) p(2) by simp
  obtain c where c: "vtext ins rem = R @ c" "str_len (bs_visible_text b) = str_len p + str_len R" by (rule slice_at[OF p(1) sl])
  have "str_len c = 0" using arg_cong[OF p(1), of str_len] c by simp
  then have "vtext ins rem = R" using c(1) by (simp add: str_len_0)
  then have "B = vtext ins ns @ vtext ins rem" using Nil.prems(3) by simp
  moreover have "edit_ranges ts [] (op, st) = Some (op, st)" "eo_new_text op = eo_new_text op @ new_texts []"
    "length (eo_ranges op) = length (eo_ranges op) + length ([] :: ((nat \<times> nat) \<times> str) list)" by (simp_all add: new_texts_def)
  ultimately show ?case using Nil.prems(1) by blast
next
  case (Cons x es)
  obtain s e t where x: "x = ((s, e), t)" by (metis prod.collapse)
  let ?t = "line_ending_normalize t"
  have i: "ins ts = Td @ ?t @ concat (new_texts es)" using Cons.prems(4) x by (simp add: new_texts_def)
  have l: "str_len Td + str_len ?t < 2 ^ 32" using Cons.prems(6) i by simp
  obtain op1 st1 pre1 post1 rem1 ns1 N1 F1 R1 where 1: "edit_range ts ((s, e), t) (op, st) = Some (op1, st1)"
    "walking ins b ts B st1 pre1 post1 rem1 ns1 N1 F1" "edits_apply (bs_visible_text b) (ed_fragment_start st1) es = Some R1"
    "B = vtext ins ns1 @ R1" "ed_insertion_offset st1 = ed_insertion_offset st + str_len ?t"
    "eo_new_text op1 = eo_new_text op @ [?t]" "eo_timestamp op1 = eo_timestamp op" "eo_version op1 = eo_version op"
    "length (eo_ranges op1) = Suc (length (eo_ranges op))"
    using edit_range_ok[OF base Cons.prems(1) Cons.prems(2)[unfolded x] Cons.prems(3) i Cons.prems(5) l] by blast
  have "ins ts = (Td @ ?t) @ concat (new_texts es)" "str_len (Td @ ?t) = ed_insertion_offset st1" using i 1(5) Cons.prems(5) by simp_all
  from Cons.IH[OF 1(2-4) this Cons.prems(6), of op1]
  obtain op2 st2 pre2 post2 rem2 ns2 N2 F2 where 2: "edit_ranges ts es (op1, st1) = Some (op2, st2)"
    "walking ins b ts B st2 pre2 post2 rem2 ns2 N2 F2" "B = vtext ins ns2 @ vtext ins rem2"
    "eo_new_text op2 = eo_new_text op1 @ new_texts es" "eo_timestamp op2 = eo_timestamp op1"
    "eo_version op2 = eo_version op1" "length (eo_ranges op2) = length (eo_ranges op1) + length es" by blast
  have "edit_ranges ts (x # es) (op, st) = Some (op2, st2)" using 1(1) 2(1) x by simp
  moreover have "eo_new_text op2 = eo_new_text op @ new_texts (x # es)" using 1(6) 2(4) x by (simp add: new_texts_def)
  moreover have "eo_timestamp op2 = eo_timestamp op" "eo_version op2 = eo_version op"
    "length (eo_ranges op2) = length (eo_ranges op) + length (x # es)" using 1(7-9) 2(5-7) by simp_all
  ultimately show ?case using 2(2,3) by blast
qed

end
