(* ===== verification/BufferEnds.thy ===== *)
theory BufferEnds
  imports BufferSteps7
begin

text \<open>The start and the end of a local edit, and the commit of what the walk has collected.\<close>

section \<open>The start\<close>

lemma edit_start_ok:
  assumes base: "edit_base ins b ts" and ap: "edits_apply (bs_visible_text b) 0 (((s, e), t) # es) = Some B"
  shows "\<exists>st pre post R. edit_start b s = Some st \<and> walking ins b ts B st pre post post pre [] [] \<and>
    edits_apply (bs_visible_text b) (ed_fragment_start st) (((s, e), t) # es) = Some R \<and> B = vtext ins pre @ R \<and>
    ed_insertion_offset st = 0"
proof -
  let ?V = "bs_visible_text b" and ?D = "bs_deleted_text b" and ?fs = "old_frags b"
  note old = old_sound[OF base append_Nil]
  have b: "wf_tree fragment_sum (bs_fragments b)" "height (bs_fragments b) < STACK_CAP" "ids_ok ?fs"
    "frags_ok ins (ts_elems (bs_insertion_slices b)) (bs_undo_map b) (new_version b ts) ?fs" "?V = vtext ins ?fs" "?D = dtext ins ?fs"
    using base by (simp_all add: edit_base_def)
  obtain xs r where xr: "seek_scan frag_text_dim fragment_sum (visible_target s) Right [] ?fs = ([] @ xs, r)"
    "?fs = xs @ r" "vis_len [] \<le> s \<Longrightarrow> vis_len ([] @ xs) \<le> s" using ft_scan[of s "[]" ?fs] by metis
  let ?c = "cursor_new frag_text_dim (bs_fragments b)"
  have "cursor_ready frag_text_dim fragment_sum ?c [] ?fs"
    using cursor_new_fresh[OF b(1,2), of frag_text_dim] by (simp add: cursor_ready_def cursor_new_def)
  moreover have "visible_target s (dpos frag_text_dim fragment_sum []) \<noteq> Less"
    by (simp add: visible_target_def dpos_frag_text)
  moreover have "frags_wf ([] @ ?fs)" using frags_ok_wf[OF b(4)] by simp
  ultimately obtain p c where p: "cursor_slice fragment_sum frag_text_dim (visible_target s) Right ?c = Some (p, c)"
    "wf_tree fragment_sum p" "xs = tree_items p" "cursor_at frag_text_dim fragment_sum c xs r" "c_tree c = bs_fragments b"
    using ft.cursor_slice_ok[OF _ _ ft_target_mono _ xr(1)] by (fastforce simp: cursor_new_def)
  have wf: "frags_wf xs" "readable ins xs" "readable ins ?fs" using frags_ok_wf[OF b(4)] frags_ok_readable[OF b(4)] xr(2) by simp_all
  have bu: "built (fb_new p) xs" using fb_new_ok[OF p(2)] wf(1) p(3) by simp
  have "ropes_at ins (rb_new (text_cursor_new ?V) (text_cursor_new ?D)) ?V ?D [] (xs @ r)"
    using rb_new_ok[of ins ?fs] b(5,6) xr(2) by simp
  from rb_append_ok[OF this wf(2)] obtain ropes where ro: "rb_append (rb_new (text_cursor_new ?V) (text_cursor_new ?D))
      (fs_text (fb_summary (fb_new p))) = Some ropes" "ropes_at ins ropes ?V ?D xs r"
    unfolding built_summary(1)[OF bu] by auto
  define st where "st = \<lparr>ed_cursor = c, ed_fragment_start = ft_visible (c_position c), ed_fragments = fb_new p,
       ed_ropes = ropes, ed_insertions = [], ed_slices = [], ed_insertion_offset = 0, ed_patch = []\<rparr>"
  have es: "edit_start b s = Some st" using p(1) ro(1) by (simp add: edit_start_def st_def Let_def)
  have start: "ed_fragment_start st = vis_len xs" using ft_position[OF p(4)] by (simp add: st_def)
  obtain a d q where ad: "str_slice ?V 0 s = Some a" "str_slice ?V s e = Some d" "edits_apply ?V e es = Some q"
    "B = a @ line_ending_normalize t @ q" using ap by (auto simp: bind_eq_Some_conv)
  obtain w where w: "?V = a @ w" "s = str_len a" using slice_at[of ?V "[]" ?V s a] ad(1) by auto
  have "vtext ins xs @ vtext ins r = a @ w" using w(1) b(5) xr(2) by simp
  moreover have "str_len (vtext ins xs) \<le> str_len a" using xr(3) w(2) str_len_texts(1)[OF wf(2)] by simp
  ultimately obtain z where z: "a = vtext ins xs @ z" "vtext ins r = z @ w" by (rule str_prefix_split)
  have "str_slice ?V (vis_len xs) s = Some z" unfolding str_slice_Some
    using w z str_len_texts(1)[OF wf(2)] by (intro exI[of _ "vtext ins xs"] exI[of _ w]) simp
  then have ap': "edits_apply ?V (ed_fragment_start st) (((s, e), t) # es) = Some (z @ line_ending_normalize t @ q)"
    using ad(2,3) start by simp
  have "patched ?V B [] (str_len ([] :: str) + str_len (vtext ins xs)) (str_len ([] :: str) + str_len (vtext ins xs))"
    using w z ad(4) by (intro patched_keep[where b = "vtext ins r" and d = "z @ line_ending_normalize t @ q"])
      (simp_all add: patched_def kept_refl)
  then have pat: "patched ?V B [] (vis_len xs) (vis_len xs)" using str_len_texts(1)[OF wf(2)] by simp
  have fo: "frags_ok ins (walk_slices b st) (bs_undo_map b) (new_version b ts) (xs @ r)"
    using b(4) xr(2) by (simp add: walk_slices_def st_def)
  have ids: "ids_ok xs" "before xs r" using b(3) xr(2) by (auto simp: ids_ok_def before_def sorted_wrt_append)
  have "\<forall>f \<in> set xs. fr_timestamp f \<noteq> ts" using base xr(2) by (auto simp: edit_base_def)
  then have stp: "stamped ts 0 xs" by (rule stamped_other)
  have "retained ins b ts [] (xs @ r)" using b(5) xr(2) by (simp add: retained_def)
  then have ret: "retained ins b ts xs r" using retained_append[of ins b ts "[]" xs r] old(5,6) xr(2) by auto
  have rec: "recorded ts st xs [] xs [] []" by (simp add: recorded_def st_def)
  have "walking ins b ts B st xs r r xs [] []"
    unfolding walking_def start using p(4,5) bu ro(2) fo ids stp rec pat ret by (simp add: rest_of_def st_def)
  moreover have "B = vtext ins xs @ (z @ line_ending_normalize t @ q)" using ad(4) z(1) by simp
  moreover have "ed_insertion_offset st = 0" by (simp add: st_def)
  ultimately show ?thesis using es ap' by blast
qed

section \<open>The end\<close>

lemma walking_rest:
  assumes base: "edit_base ins b ts" and w: "walking ins b ts B st pre post rem ns N F" and B: "B = vtext ins ns @ vtext ins rem"
  shows "unbuilt ins B (ed_fragment_start st) rem ns (str_len (bs_visible_text b)) []"
    "patched (bs_visible_text b) B (ed_patch st) (str_len (bs_visible_text b)) (str_len B)"
proof -
  obtain p where p: "bs_visible_text b = p @ vtext ins rem" "str_len p = ed_fragment_start st" using walking_text[OF base w] by auto
  show "unbuilt ins B (ed_fragment_start st) rem ns (str_len (bs_visible_text b)) []"
    unfolding unbuilt_def using p B by (intro exI[of _ "vtext ins rem"] exI[of _ "[]"]) simp
  have rn: "readable ins ns" using w frags_ok_readable unfolding walking_def by fastforce
  have "patched (bs_visible_text b) B (ed_patch st) (str_len p) (str_len (vtext ins ns))"
    using w p(2) str_len_texts(1)[OF rn] by (simp add: walking_def)
  from patched_keep[OF this, of "vtext ins rem" "[]" "[]"]
  show "patched (bs_visible_text b) B (ed_patch st) (str_len (bs_visible_text b)) (str_len B)" using p(1) B by simp
qed

lemma walk_to_end:
  assumes base: "edit_base ins b ts" and w: "walking ins b ts B st pre post rem ns N F" and B: "B = vtext ins ns @ vtext ins rem"
  shows "\<exists>st' pre' post' ns' N'. consume_rest frag_text_dim visible_pos st = Some st' \<and>
    walking ins b ts B (st'\<lparr>ed_fragment_start := vis_len pre'\<rparr>) pre' post' post' ns' N' F \<and> B = vtext ins ns' @ vtext ins post'"
proof (cases "vis_len pre < ed_fragment_start st")
  case True
  have "pre @ post = old_frags b" by (rule walking_items[OF w])
  then have "str_len (bs_visible_text b) = vis_len (pre @ post)" by (rule visible_len[OF base])
  then have "vis_len (pre @ take 1 post) \<le> str_len (bs_visible_text b)" by (cases post) simp_all
  from consume_rest_ok[OF base w True walking_rest(1)[OF base w B] this]
  obtain st' f post' ns' N' where c: "consume_rest frag_text_dim visible_pos st = Some st'"
    "walking ins b ts B (st'\<lparr>ed_fragment_start := vis_len (pre @ [f])\<rparr>) (pre @ [f]) post' post' ns' N' F"
    "unbuilt ins B (vis_len (pre @ [f])) post' ns' (str_len (bs_visible_text b)) []" by blast
  obtain p where p: "bs_visible_text b = p @ vtext ins post'" "str_len p = vis_len (pre @ [f])" using walking_text[OF base c(2)] by auto
  obtain x y where xy: "vtext ins post' = x @ y" "str_len x = str_len (bs_visible_text b) - vis_len (pre @ [f])" "B = vtext ins ns' @ x"
    using c(3) by (auto simp: unbuilt_def)
  have "str_len (bs_visible_text b) = vis_len (pre @ [f]) + str_len x + str_len y"
    using arg_cong[OF p(1), of str_len] p(2) arg_cong[OF xy(1), of str_len] by (simp del: vis_len_simps)
  then have "str_len y = 0" using xy(2) by linarith
  then have "B = vtext ins ns' @ vtext ins post'" using xy by (simp add: str_len_0)
  then show ?thesis using c(1,2) by blast
next
  case False
  then have st: "ed_fragment_start st = vis_len pre" "rem = post" using walking_start[OF w] by simp_all
  have "consume_rest frag_text_dim visible_pos st = Some st"
    using consume_rest_start walking_state(1)[OF base w] False by (metis not_le)
  moreover have "walking ins b ts B (st\<lparr>ed_fragment_start := vis_len pre\<rparr>) pre post post ns N F"
    using w unfolding same_start[OF st(1)[symmetric]] st(2) .
  ultimately show ?thesis using B st(2) by blast
qed

lemma edit_finish_ok:
  assumes base: "edit_base ins b ts" and w: "walking ins b ts B st pre post rem ns N F" and B: "B = vtext ins ns @ vtext ins rem"
  shows "\<exists>st' t ns' N'. edit_finish frag_text_dim visible_pos st = Some (st', t, B, dtext ins ns') \<and>
    wf_tree fragment_sum t \<and> tree_items t = ns' \<and> B = vtext ins ns' \<and> ids_ok ns' \<and>
    frags_ok ins (walk_slices b st') (bs_undo_map b) (new_version b ts) ns' \<and> recorded ts st' (old_frags b) [] ns' N' F \<and>
    bs_visible_text b = text_without ins (bs_undo_map b) ts ns' \<and> bytes_without ts ns' = all_bytes (old_frags b)"
proof -
  obtain st1 pre1 post1 ns1 N1 where 1: "consume_rest frag_text_dim visible_pos st = Some st1"
    "walking ins b ts B (st1\<lparr>ed_fragment_start := vis_len pre1\<rparr>) pre1 post1 post1 ns1 N1 F" "B = vtext ins ns1 @ vtext ins post1"
    using walk_to_end[OF base w B] by blast
  have items: "pre1 @ post1 = old_frags b" by (rule walking_items[OF 1(2)])
  have cur: "cursor_at frag_text_dim fragment_sum (ed_cursor st1) pre1 post1" "c_tree (ed_cursor st1) = bs_fragments b"
    using 1(2) by (simp_all add: walking_def)
  have "cursor_ready frag_text_dim fragment_sum (ed_cursor st1) pre1 post1" using cur(1) by (simp add: cursor_ready_def)
  from ft.cursor_slice_ok[OF this old_sound(2)[OF base items] ft.mono_target_end _ ft.seek_scan_end, of Right]
  obtain p c where p: "cursor_slice fragment_sum frag_text_dim seek_end Right (ed_cursor st1) = Some (p, c)" "wf_tree fragment_sum p"
    "post1 = tree_items p" "cursor_at frag_text_dim fragment_sum c (pre1 @ post1) []" "c_tree c = bs_fragments b"
    using cur(2) by (auto simp: seek_end_def)
  have pend: "unbuilt ins B (vis_len pre1) post1 ns1 (str_len (bs_visible_text b)) []"
    using walking_rest(1)[OF base 1(2,3)] by simp
  have le: "vis_len (pre1 @ tree_items p) \<le> str_len (bs_visible_text b)" using visible_len[OF base items] p(3) by simp
  from walking_slice[OF base 1(2) pend p(1,2), of "[]"] p(3-5) le
  obtain st2 where 2: "append_old p (st1\<lparr>ed_cursor := c\<rparr>) = Some st2"
    "walking ins b ts B (st2\<lparr>ed_fragment_start := vis_len (pre1 @ post1)\<rparr>) (pre1 @ post1) [] [] (ns1 @ post1) N1 F"
    by auto
  have wk: "built (ed_fragments st2) (ns1 @ post1)" "ropes_at ins (ed_ropes st2) (bs_visible_text b) (bs_deleted_text b) (ns1 @ post1) []"
    "frags_ok ins (walk_slices b st2) (bs_undo_map b) (new_version b ts) (ns1 @ post1)" "ids_ok (ns1 @ post1)"
    "recorded ts st2 (pre1 @ post1) [] (ns1 @ post1) N1 F"
    "retained ins b ts (ns1 @ post1) []"
    using 2(2) by (simp_all add: walking_def)
  have wo: "bs_visible_text b = text_without ins (bs_undo_map b) ts (ns1 @ post1)" "bytes_without ts (ns1 @ post1) = all_bytes (old_frags b)"
    using wk(6) by (simp_all add: retained_def)
  obtain t where t: "fb_to_sum_tree (ed_fragments st2) = Some t" "wf_tree fragment_sum t" "tree_items t = ns1 @ post1"
    using fb_to_sum_tree_ok[OF wk(1)] by blast
  have Bn: "B = vtext ins (ns1 @ post1)" using 1(3) by simp
  have "edit_finish frag_text_dim visible_pos st = Some (st2, t, B, dtext ins (ns1 @ post1))"
    using 1(1) p(1) 2(1) rb_finish_ok[OF wk(2)] t(1) Bn by (simp add: edit_finish_def cursor_suffix_def)
  then show ?thesis using t(2,3) Bn wk(3-5) wo items by metis
qed

section \<open>The commit\<close>

lemma inserted_new [simp]: "inserted (map insert_new N) = map insertion_fragment_new N"
  by (induction N) (simp_all add: insert_new_def)

lemma edit_key_new [simp]: "edit_key insertion_key (insert_new f) = frag_key f"
  by (simp add: insert_new_def)

lemma edit_keys_new: "edit_keys insertion_key (map insert_new N) = frag_key ` set N"
  by (simp add: edit_keys_def image_image)

text \<open>The new index has one entry for each of the new fragments.\<close>

lemma index_of_recorded:
  assumes "recorded ts st old [] ns N F" "distinct (map frag_key ns)"
  shows "{x \<in> insertion_fragment_new ` set old. insertion_key x \<notin> frag_key ` set N} \<union> insertion_fragment_new ` set N
     = insertion_fragment_new ` set ns"
proof -
  have r: "set N \<subseteq> set ns" "set ns - set N \<subseteq> set old" "\<forall>f \<in> set old. f \<in> set ns \<or> frag_key f \<in> frag_key ` set N"
    using assms(1) by (simp_all add: recorded_def)
  have "frag_key f \<notin> frag_key ` set N" if "f \<in> set ns" "f \<notin> set N" for f
    using that r(1) assms(2) by (auto simp: distinct_map dest: inj_onD)
  then have "insertion_fragment_new f \<in> {x \<in> insertion_fragment_new ` set old. insertion_key x \<notin> frag_key ` set N} \<union> insertion_fragment_new ` set N"
    if "f \<in> set ns" for f using that r(2) by (cases "f \<in> set N") auto
  then have "insertion_fragment_new ` set ns \<subseteq>
      {x \<in> insertion_fragment_new ` set old. insertion_key x \<notin> frag_key ` set N} \<union> insertion_fragment_new ` set N"
    by (rule image_subsetI)
  moreover have "{x \<in> insertion_fragment_new ` set old. insertion_key x \<notin> frag_key ` set N} \<union> insertion_fragment_new ` set N
      \<subseteq> insertion_fragment_new ` set ns" using r(1,3) by auto
  ultimately show ?thesis by (rule equalityI[rotated])
qed

lemma edit_commit_ok:
  assumes idx: "wf_tree insertion_sum (bs_insertions b)" "height (bs_insertions b) < STACK_CAP"
    "key_sorted insertion_key (\<lambda>_. True) (tree_items (bs_insertions b))"
    "set (tree_items (bs_insertions b)) = insertion_fragment_new ` set (old_frags b)"
    and sl: "tm_inv (bs_insertion_slices b)" "tm_room (bs_insertion_slices b)"
    and r: "recorded ts st (old_frags b) [] (tree_items t) N F" "frags_ok ins S u v' (tree_items t)"
  shows "\<exists>idx' slices. edit_commit b (st, t, v, d) = Some (b\<lparr>bs_fragments := t, bs_insertions := idx', bs_visible_text := v,
      bs_deleted_text := d, bs_insertion_slices := slices\<rparr>) \<and>
    wf_tree insertion_sum idx' \<and> key_sorted insertion_key (\<lambda>_. True) (tree_items idx') \<and>
    set (tree_items idx') = insertion_fragment_new ` set (tree_items t) \<and>
    tm_inv slices \<and> ts_elems slices = walk_slices b st"
proof -
  have rc: "ed_insertions st = map insert_new N" "distinct (map frag_key N)" "ed_slices st = map (slice_from_fragment ts) F"
    "distinct (map frag_key F)" using r(1) by (simp_all add: recorded_def)
  have keys: "distinct (map frag_key (tree_items t))" using r(2) by (intro apart_list_keys) (auto simp: frags_ok_def sound_def)
  have "distinct (map (edit_key insertion_key) (map insert_new N))" using rc(2) by (simp add: o_def)
  from ins.keyed_edit_ok[OF idx(1-3) this] obtain idx' rm where i: "keyed_edit insertion_sum insertion_dim insertion_key
      (bs_insertions b) (map insert_new N) = Some (idx', rm)" "wf_tree insertion_sum idx'"
    "key_sorted insertion_key (\<lambda>_. True) (tree_items idx')"
    "set (tree_items idx') = {x \<in> set (tree_items (bs_insertions b)). insertion_key x \<notin> edit_keys insertion_key (map insert_new N)}
       \<union> set (inserted (map insert_new N))" by auto
  have "set (tree_items idx') = insertion_fragment_new ` set (tree_items t)"
    using i(4) index_of_recorded[OF r(1) keys] by (simp add: idx(4) edit_keys_new)
  moreover have "distinct (map (slice_from_fragment ts) F)"
    using rc(4) by (auto simp: distinct_map inj_on_def dest: slice_from_fragment_inj)
  then obtain s' where "ts_extend (bs_insertion_slices b) (ed_slices st) = Some s'" "tm_inv s'"
    "ts_elems s' = ts_elems (bs_insertion_slices b) \<union> set (ed_slices st)"
    using ts_extend_ok[OF sl] rc(3) by metis
  ultimately show ?thesis unfolding edit_commit_def walk_slices_def
    using i(1-3) rc(1) by (intro exI[of _ idx'] exI[of _ s']) simp
qed

end
