(* ===== verification/BufferEditProps.thy ===== *)
theory BufferEditProps
  imports BufferEnds
begin

text \<open>
  A local edit of a buffer does to its text what the edits say, and keeps the invariant.
\<close>

section \<open>A new insertion\<close>

text \<open>The text of an insertion the buffer has no fragment of does not matter.\<close>

lemma frag_str_upd: "fr_timestamp f \<noteq> ts \<Longrightarrow> frag_str (ins(ts := t)) f = frag_str ins f \<and> fstr (ins(ts := t)) f = fstr ins f"
  by (simp add: frag_str_def fstr_def)

lemma texts_upd:
  "\<forall>f \<in> set fs. fr_timestamp f \<noteq> ts \<Longrightarrow> vtext (ins(ts := t)) fs = vtext ins fs \<and> dtext (ins(ts := t)) fs = dtext ins fs"
  by (induction fs) (auto simp: frag_str_upd)

lemma sound_upd:
  "fr_timestamp f \<noteq> ts \<Longrightarrow> sound (ins(ts := t)) S u v f \<longleftrightarrow> sound ins S u v f"
  by (simp add: sound_def frag_str_upd)

lemma sound_observe: "sound ins S u v f \<Longrightarrow> sound ins S u (global_observe v ts) f"
  by (auto simp: sound_def global_observed_observe)

lemma frags_ok_new:
  assumes "frags_ok ins S u v fs" "\<not> global_observed v ts"
  shows "frags_ok (ins(ts := t)) S u (global_observe v ts) fs" "\<forall>f \<in> set fs. fr_timestamp f \<noteq> ts"
    "\<forall>f \<in> set fs. ts \<notin> set (fr_deletions f)"
proof -
  show "\<forall>f \<in> set fs. ts \<notin> set (fr_deletions f)" using assms by (auto simp: frags_ok_def sound_def)
  show ne: "\<forall>f \<in> set fs. fr_timestamp f \<noteq> ts" using assms by (auto simp: frags_ok_def sound_def)
  then show "frags_ok (ins(ts := t)) S u (global_observe v ts) fs"
    using assms(1) sound_observe by (auto simp: frags_ok_def sound_upd)
qed

lemma edit_base_new:
  assumes "snapshot_ok ins b" "snapshot_room b" "\<not> global_observed (bs_version b) ts"
  shows "edit_base (ins(ts := t)) b ts"
proof -
  have b: "frags_ok ins (ts_elems (bs_insertion_slices b)) (bs_undo_map b) (bs_version b) (old_frags b)"
    "um_inv (bs_undo_map b)" "\<forall>k \<in> dom (um_map (bs_undo_map b)). global_observed (bs_version b) (fst k)"
    using assms(1) by (simp_all add: snapshot_ok_def Let_def)
  note f = frags_ok_new[OF b(1) assms(3)]
  have "um_is_undone (bs_undo_map b) ts = Some False" by (rule fresh_not_undone[OF b(2,3) assms(3)])
  moreover have "global_observed (new_version b ts) ts" by (simp add: new_version_def global_observed_observe)
  moreover have "lvalue ts \<noteq> 0" using assms(3) by (auto simp: global_observed_def)
  ultimately show ?thesis using assms(1,2) f texts_upd[OF f(2)]
    by (simp add: edit_base_def snapshot_ok_def snapshot_room_def Let_def new_version_def)
qed

lemma apply_edit_ok:
  assumes "snapshot_ok ins b" "snapshot_room b" "\<not> global_observed (bs_version b) ts"
    and "str_len (concat (new_texts edits)) < 2 ^ 32" "edits_apply (bs_visible_text b) 0 edits = Some V"
  shows "\<exists>op p b'. apply_edit_internal b edits ts = Some (op, p, b') \<and>
    snapshot_ok (ins(ts := concat (new_texts edits))) (b'\<lparr>bs_version := global_observe (bs_version b') ts\<rparr>) \<and>
    bs_visible_text b' = V \<and> patch_between (as_bytes (bs_visible_text b)) (as_bytes V) p \<and> patch_normal p \<and>
    eo_new_text op = new_texts edits \<and> eo_timestamp op = ts \<and> eo_version op = bs_version b \<and>
    length (eo_ranges op) = length edits \<and> bs_undo_map b' = bs_undo_map b \<and> bs_version b' = bs_version b \<and>
    bs_visible_text b = text_without (ins(ts := concat (new_texts edits))) (bs_undo_map b) ts (old_frags b') \<and>
    bytes_without ts (old_frags b') = all_bytes (old_frags b)"
proof -
  let ?ins = "ins(ts := concat (new_texts edits))"
  have b: "wf_tree fragment_sum (bs_fragments b)" "ids_ok (old_frags b)"
    "frags_ok ins (ts_elems (bs_insertion_slices b)) (bs_undo_map b) (bs_version b) (old_frags b)"
    "bs_visible_text b = vtext ins (old_frags b)" "bs_deleted_text b = dtext ins (old_frags b)"
    "set (tree_items (bs_insertions b)) = insertion_fragment_new ` set (old_frags b)"
    "wf_tree insertion_sum (bs_insertions b)" "key_sorted insertion_key (\<lambda>_. True) (tree_items (bs_insertions b))"
    "tm_inv (bs_insertion_slices b)" "um_inv (bs_undo_map b)"
    "\<forall>k \<in> dom (um_map (bs_undo_map b)). global_observed (bs_version b) (fst k)" "wf_global (bs_version b)"
    "\<forall>s \<in> ts_elems (bs_insertion_slices b). sl_insertion_value s \<noteq> 0"
    using assms(1) by (simp_all add: snapshot_ok_def Let_def)
  have u: "\<forall>k \<in> dom (um_map (bs_undo_map b)). global_observed (global_observe (bs_version b) ts) (fst k)"
    using b(11) by (auto simp: global_observed_observe)
  show ?thesis
  proof (cases edits)
    case Nil
    have V: "V = bs_visible_text b" using assms(5) Nil slice_at[of "bs_visible_text b" "[]" "bs_visible_text b" "str_len (bs_visible_text b)" V]
      by (auto simp: str_len_0)
    note f = frags_ok_new[OF b(3) assms(3)]
    have "snapshot_ok ?ins (b\<lparr>bs_version := global_observe (bs_version b) ts\<rparr>)"
      using b(1,2,4-10,13) u f(1)[of "concat (new_texts edits)"] texts_upd[OF f(2), of ins "concat (new_texts edits)"] wf_global_observe[OF b(12)]
      by (simp add: snapshot_ok_def)
    moreover have "\<forall>f \<in> set (old_frags b). visible_without (bs_undo_map b) ts f = fr_visible f"
      using old_sound(6)[OF edit_base_new[OF assms(1-3), of "concat (new_texts edits)"] append_Nil] by simp
    then have "bs_visible_text b = text_without ?ins (bs_undo_map b) ts (old_frags b)"
      using text_without_same b(4) texts_upd[OF f(2), of ins "concat (new_texts edits)"] by simp
    moreover have "patch_between (as_bytes (bs_visible_text b)) (as_bytes V) []" "patch_normal []"
      using V by (simp_all add: patch_between_def kept_def)
    moreover have "bytes_without ts (old_frags b) = all_bytes (old_frags b)" using f(2) by (rule bytes_without_other)
    ultimately show ?thesis using Nil V by (simp add: apply_edit_internal_def new_texts_def)
  next
    case (Cons x es)
    obtain s e t where x: "x = ((s, e), t)" by (metis prod.collapse)
    have ed: "edits = ((s, e), t) # es" using Cons x by simp
    note base = edit_base_new[OF assms(1-3), of "concat (new_texts edits)"]
    obtain st pre post R where 1: "edit_start b s = Some st" "walking ?ins b ts V st pre post post pre [] []"
      "edits_apply (bs_visible_text b) (ed_fragment_start st) edits = Some R" "V = vtext ?ins pre @ R" "ed_insertion_offset st = 0"
      using edit_start_ok[OF base assms(5)[unfolded ed]] unfolding ed[symmetric] by blast
    let ?op = "\<lparr>eo_timestamp = ts, eo_version = bs_version b, eo_ranges = [], eo_new_text = []\<rparr>"
    have "?ins ts = [] @ concat (new_texts edits)" "str_len [] = ed_insertion_offset st" "str_len (?ins ts) < 2 ^ 32"
      using assms(4) 1(5) by simp_all
    from edit_ranges_ok[OF base 1(2-4) this, of ?op]
    obtain op st2 pre2 post2 rem2 ns2 N2 F2 where 2: "edit_ranges ts edits (?op, st) = Some (op, st2)"
      "walking ?ins b ts V st2 pre2 post2 rem2 ns2 N2 F2" "V = vtext ?ins ns2 @ vtext ?ins rem2"
      and op: "eo_new_text op = eo_new_text ?op @ new_texts edits" "eo_timestamp op = eo_timestamp ?op" "eo_version op = eo_version ?op"
        "length (eo_ranges op) = length (eo_ranges ?op) + length edits"
      by blast
    obtain st3 tr ns N where 3: "edit_finish frag_text_dim visible_pos st2 = Some (st3, tr, V, dtext ?ins ns)"
      "wf_tree fragment_sum tr" "tree_items tr = ns" "V = vtext ?ins ns" "ids_ok ns"
      "frags_ok ?ins (walk_slices b st3) (bs_undo_map b) (new_version b ts) ns" "recorded ts st3 (old_frags b) [] ns N F2"
      "bs_visible_text b = text_without ?ins (bs_undo_map b) ts ns" "bytes_without ts ns = all_bytes (old_frags b)"
      using edit_finish_ok[OF base 2(2,3)] by blast
    have rm: "height (bs_insertions b) < STACK_CAP" "tm_room (bs_insertion_slices b)" using assms(2) by (simp_all add: snapshot_room_def)
    obtain idx' sl where 4: "edit_commit b (st3, tr, V, dtext ?ins ns) = Some (b\<lparr>bs_fragments := tr, bs_insertions := idx',
        bs_visible_text := V, bs_deleted_text := dtext ?ins ns, bs_insertion_slices := sl\<rparr>)"
      "wf_tree insertion_sum idx'" "key_sorted insertion_key (\<lambda>_. True) (tree_items idx')"
      "set (tree_items idx') = insertion_fragment_new ` set ns" "tm_inv sl" "ts_elems sl = walk_slices b st3"
      using edit_commit_ok[OF b(7) rm(1) b(8,6,9) rm(2), of ts st3 tr N F2] 3(3,6,7) by blast
    define b' where "b' = b\<lparr>bs_fragments := tr, bs_insertions := idx', bs_visible_text := V, bs_deleted_text := dtext ?ins ns,
      bs_insertion_slices := sl\<rparr>"
    have ap: "apply_edit_internal b edits ts = Some (op, ed_patch st2, b')"
      using 1(1) 2(1) 3(1) 4(1) by (simp add: apply_edit_internal_def b'_def ed del: edit_ranges.simps)
    have "\<forall>s \<in> walk_slices b st3. sl_insertion_value s \<noteq> 0"
    proof -
      have "\<forall>f \<in> set F2. lvalue (fr_timestamp f) \<noteq> 0" using 3(6,7) by (auto simp: recorded_def frags_ok_def sound_def)
      then show ?thesis using b(13) 3(7) by (auto simp: walk_slices_def recorded_def slice_from_fragment_def)
    qed
    then have "snapshot_ok ?ins (b'\<lparr>bs_version := global_observe (bs_version b') ts\<rparr>)"
      using 3(2-6) 4(2-6) b(10) u wf_global_observe[OF b(12)] by (simp add: snapshot_ok_def b'_def new_version_def)
    moreover have "patch_between (as_bytes (bs_visible_text b)) (as_bytes V) (ed_patch st2)" "patch_normal (ed_patch st2)"
      using walking_rest(2)[OF base 2(2,3)] by (simp_all add: patched_def patch_between_def)
    moreover have "bs_visible_text b' = V" "bs_undo_map b' = bs_undo_map b" "bs_version b' = bs_version b"
      "bs_visible_text b = text_without ?ins (bs_undo_map b) ts (old_frags b')" "bytes_without ts (old_frags b') = all_bytes (old_frags b)" using 3(3,8,9) by (simp_all add: b'_def)
    ultimately show ?thesis using ap op by auto
  qed
qed

end
