(* ===== verification/HistoryProps.thy ===== *)
theory HistoryProps
  imports History
begin

text \<open>
  What the history guarantees: undoing down to a transaction and redoing gives the history back,
  nested transactions become one entry, and grouping joins the longest run of close entries
  without losing an edit.
\<close>

section \<open>The last matching position\<close>

lemma rposition_None: "rposition P xs = None \<longleftrightarrow> (\<forall>x \<in> set xs. \<not> P x)"
  by (induction xs) (auto split: option.splits)

lemma rposition_append:
  "rposition P (xs @ ys) = (case rposition P ys of Some i \<Rightarrow> Some (length xs + i) | None \<Rightarrow> rposition P xs)"
  by (induction xs) (auto split: option.splits)

lemma rposition_last: "P x \<Longrightarrow> \<forall>y \<in> set ys. \<not> P y \<Longrightarrow> rposition P (xs @ x # ys) = Some (length xs)"
  using rposition_None[of P ys] by (simp add: rposition_append)

lemma rposition_SomeE:
  assumes "rposition P xs = Some i"
  obtains us x vs where "xs = us @ x # vs" "length us = i" "P x" "\<forall>y \<in> set vs. \<not> P y"
proof -
  from assms have "\<exists>us x vs. xs = us @ x # vs \<and> length us = i \<and> P x \<and> (\<forall>y \<in> set vs. \<not> P y)"
  proof (induction xs arbitrary: i)
    case (Cons a xs)
    show ?case
    proof (cases "rposition P xs")
      case None
      then have "a # xs = [] @ a # xs \<and> length ([] :: 'a list) = i \<and> P a \<and> (\<forall>y \<in> set xs. \<not> P y)"
        using Cons.prems None by (auto simp: rposition_None[symmetric] split: if_splits)
      then show ?thesis by blast
    next
      case (Some j)
      then obtain us x vs where "xs = us @ x # vs" "length us = j" "P x" "\<forall>y \<in> set vs. \<not> P y"
        using Cons.IH by blast
      moreover have "i = Suc j" using Cons.prems Some by simp
      ultimately have "a # xs = (a # us) @ x # vs \<and> length (a # us) = i \<and> P x \<and> (\<forall>y \<in> set vs. \<not> P y)" by simp
      then show ?thesis by blast
    qed
  qed simp
  then show ?thesis using that by blast
qed

section \<open>Undoing and redoing\<close>

abbreviation entry_ids :: "history_entry list \<Rightarrow> transaction_id list" where
  "entry_ids \<equiv> map transaction_id"

lemma remove_from_undo_until_ok:
  assumes "hi_transaction_depth h = 0" "hi_undo_stack h = us @ e # vs" "tid \<notin> set (entry_ids vs)" "transaction_id e = tid"
  shows "remove_from_undo_until h tid = Some (rev (e # vs),
     h\<lparr>hi_undo_stack := us, hi_redo_stack := hi_redo_stack h @ rev (e # vs)\<rparr>)"
proof -
  have "rposition (\<lambda>e. transaction_id e = tid) (us @ e # vs) = Some (length us)"
    using assms(3,4) by (intro rposition_last) (auto simp: image_iff)
  then show ?thesis using assms(1,2) by (simp add: remove_from_undo_until_def assert_opt_def)
qed

lemma remove_from_redo_ok:
  assumes "hi_transaction_depth h = 0" "hi_redo_stack h = us @ e # vs" "tid \<notin> set (entry_ids vs)" "transaction_id e = tid"
  shows "remove_from_redo h tid = Some (rev (e # vs),
     h\<lparr>hi_redo_stack := us, hi_undo_stack := hi_undo_stack h @ rev (e # vs)\<rparr>)"
proof -
  have "rposition (\<lambda>e. transaction_id e = tid) (us @ e # vs) = Some (length us)"
    using assms(3,4) by (intro rposition_last) (auto simp: image_iff)
  then show ?thesis using assms(1,2) by (simp add: remove_from_redo_def assert_opt_def)
qed

text \<open>C22: undoing down to a transaction moves it and everything above it to the redo stack, latest
  first, and redoing the entry that was on top gives back the history as it was; a single undo is
  undone by a single redo.\<close>

theorem undo_redo_roundtrip:
  assumes "hi_transaction_depth h = 0" "distinct (entry_ids (hi_undo_stack h))" "tid \<in> set (entry_ids (hi_undo_stack h))"
  shows "(\<exists>es h'. remove_from_undo_until h tid = Some (es, h') \<and> es \<noteq> [] \<and> transaction_id (last es) = tid
           \<and> hi_undo_stack h = hi_undo_stack h' @ rev es \<and> hi_redo_stack h' = hi_redo_stack h @ es
           \<and> remove_from_redo h' (transaction_id (hd es)) = Some (rev es, h))
    \<and> (\<exists>e h'. pop_undo h = Some (Some e, h') \<and> pop_redo h' = Some (Some e, h) \<and> remove_from_undo h (transaction_id e) = Some (Some e, h'))"
proof -
  obtain us e vs where s: "hi_undo_stack h = us @ e # vs" "transaction_id e = tid"
    using assms(3) by (auto dest: split_list)
  have vs: "tid \<notin> set (entry_ids vs)" using assms(2) s by auto
  let ?h = "h\<lparr>hi_undo_stack := us, hi_redo_stack := hi_redo_stack h @ rev (e # vs)\<rparr>"
  obtain ws t where ws: "e # vs = ws @ [t]" by (metis append_butlast_last_id list.discI)
  have d: "distinct (entry_ids (ws @ [t]))" using assms(2) s(1) ws by simp
  have "remove_from_redo ?h (transaction_id t) = Some (rev (t # rev ws),
     ?h\<lparr>hi_redo_stack := hi_redo_stack h, hi_undo_stack := hi_undo_stack ?h @ rev (t # rev ws)\<rparr>)"
    using assms(1) d by (intro remove_from_redo_ok) (auto simp: ws)
  moreover have "us @ ws @ [t] = hi_undo_stack h" using s(1) ws by simp
  ultimately have "remove_from_redo ?h (transaction_id (hd (rev (e # vs)))) = Some (rev (rev (e # vs)), h)"
    by (simp add: ws)
  then have A: "\<exists>es h'. remove_from_undo_until h tid = Some (es, h') \<and> es \<noteq> [] \<and> transaction_id (last es) = tid
       \<and> hi_undo_stack h = hi_undo_stack h' @ rev es \<and> hi_redo_stack h' = hi_redo_stack h @ es
       \<and> remove_from_redo h' (transaction_id (hd es)) = Some (rev es, h)"
    using remove_from_undo_until_ok[OF assms(1) s(1) vs s(2)] s by (intro exI conjI) auto
  have t: "hi_undo_stack h = (us @ ws) @ [t]" using s(1) ws by simp
  have "rposition (\<lambda>e. transaction_id e = transaction_id t) ((us @ ws) @ t # []) = Some (length (us @ ws))"
    by (rule rposition_last) auto
  then have "remove_from_undo h (transaction_id t)
      = Some (Some t, h\<lparr>hi_undo_stack := us @ ws, hi_redo_stack := hi_redo_stack h @ [t]\<rparr>)"
    using assms(1) by (simp add: remove_from_undo_def remove_at_def assert_opt_def t nth_append)
  then have B: "\<exists>e h'. pop_undo h = Some (Some e, h') \<and> pop_redo h' = Some (Some e, h) \<and> remove_from_undo h (transaction_id e) = Some (Some e, h')"
    using assms(1) t by (auto simp: pop_undo_def pop_redo_def assert_opt_def last_opt_iff butlast_append)
  from A B show ?thesis by (rule conjI)
qed

definition sample_entry :: "nat \<Rightarrow> history_entry" where
  "sample_entry n = entry_at \<lparr>tn_id = Lamport (of_nat n) 0, tn_edit_ids = [Lamport (of_nat (n + 1)) 0], tn_start = global_new\<rparr> n"

definition sample_history :: history where
  "sample_history = (history_new [])\<lparr>hi_undo_stack := [sample_entry 1, sample_entry 3, sample_entry 5]\<rparr>"

theorem undo_redo_roundtrip_witness:
  "\<exists>es h'. remove_from_undo_until sample_history (Lamport 3 0) = Some (es, h')
     \<and> hi_redo_stack h' = es \<and> remove_from_redo h' (transaction_id (hd es)) = Some (rev es, sample_history)"
  using undo_redo_roundtrip[of sample_history "Lamport 3 0"]
  by (auto simp: sample_history_def history_new_def sample_entry_def entry_at_def transaction_id_def)

section \<open>Nested transactions\<close>

datatype history_step = Start global nat | End nat | Edited lamport

fun history_run :: "history_step list \<Rightarrow> history \<times> lamport \<Rightarrow> (history \<times> lamport) option" where
  "history_run [] s = Some s"
| "history_run (Start g now # steps) (h, clock) =
     (let (_, h, clock) = start_transaction h g now clock in history_run steps (h, clock))"
| "history_run (End now # steps) (h, clock) = do {
     (_, h) \<leftarrow> end_transaction h now;
     history_run steps (h, clock)
   }"
| "history_run (Edited op_id # steps) (h, clock) = do {
     h \<leftarrow> push_undo h op_id;
     history_run steps (h, clock)
   }"

text \<open>Steps inside a transaction: \<open>n\<close> transactions are open inside it, and none is at the end.\<close>

fun inside :: "nat \<Rightarrow> history_step list \<Rightarrow> bool" where
  "inside n [] \<longleftrightarrow> n = 0"
| "inside n (Start _ _ # steps) \<longleftrightarrow> inside (Suc n) steps"
| "inside n (End _ # steps) \<longleftrightarrow> 0 < n \<and> inside (n - 1) steps"
| "inside n (Edited _ # steps) \<longleftrightarrow> inside n steps"

definition edit_known :: "history \<Rightarrow> lamport \<Rightarrow> bool" where
  "edit_known h op_id \<longleftrightarrow> pred_option is_edit (tm_get (hi_operations h) op_id) \<and> tm_get (hi_operations h) op_id \<noteq> None"

definition edits_made :: "history \<Rightarrow> history_step list \<Rightarrow> lamport list" where
  "edits_made h steps = concat (map (\<lambda>s. case s of Edited i \<Rightarrow> if edit_known h i then [i] else [] | _ \<Rightarrow> []) steps)"

lemma edits_made_Cons:
  "edits_made h (s # steps) = (case s of Edited i \<Rightarrow> if edit_known h i then [i] else [] | _ \<Rightarrow> []) @ edits_made h steps"
  by (simp add: edits_made_def)

text \<open>The history while the outermost transaction, with entry \<open>e\<close>, is open.\<close>

definition opened :: "history \<Rightarrow> history_entry \<Rightarrow> lamport list \<Rightarrow> nat \<Rightarrow> history" where
  "opened h e ids n = h\<lparr>hi_transaction_depth := Suc n,
     hi_undo_stack := hi_undo_stack h @ [e\<lparr>he_transaction := (he_transaction e)\<lparr>tn_edit_ids := ids\<rparr>\<rparr>]\<rparr>"

lemma opened_sel [simp]:
  "hi_operations (opened h e ids n) = hi_operations h" "hi_transaction_depth (opened h e ids n) = Suc n"
  by (simp_all add: opened_def)

lemma push_undo_opened:
  "push_undo (opened h e ids n) i = Some (opened h e (ids @ (if edit_known h i then [i] else [])) n)"
proof (cases "tm_get (hi_operations h) i")
  case (Some op)
  then show ?thesis
    by (cases op) (simp_all add: push_undo_def assert_opt_def edit_known_def opened_def last_opt_iff butlast_append)
qed (simp add: push_undo_def assert_opt_def edit_known_def)

lemma run_inside:
  "inside n steps \<Longrightarrow> history_run (steps @ rest) (opened h e ids n, clock)
     = history_run rest (opened h e (ids @ edits_made h steps) 0, clock)"
proof (induction n steps arbitrary: ids rule: inside.induct)
  case (1 n)
  then show ?case by (simp add: edits_made_def)
next
  case (2 n g t steps)
  have "start_transaction (opened h e ids n) g t clock = (None, opened h e ids (Suc n), clock)"
    by (simp add: start_transaction_def opened_def)
  then show ?case using 2 by (simp add: edits_made_Cons)
next
  case (3 n t steps)
  then obtain m where m: "n = Suc m" by (cases n) auto
  have "end_transaction (opened h e ids n) t = Some (None, opened h e ids m)"
    by (simp add: end_transaction_def opened_def m assert_opt_def)
  then show ?case using 3 by (simp add: edits_made_Cons m)
next
  case (4 n i steps)
  then show ?case by (simp add: edits_made_Cons push_undo_opened)
qed

text \<open>C21: whatever transactions are opened and closed inside an outermost one, it becomes one entry
  of the undo stack, with a fresh id, the edits made in their order, and its times; the redo stack
  is then empty. Without edits, the history is as before. Nothing panics.\<close>

theorem transactions_nest:
  assumes "hi_transaction_depth h = 0" "inside 0 steps"
  shows "\<exists>h'. history_run (Start start t1 # steps @ [End t2]) (h, clock) = Some (h', snd (tick clock)) \<and>
     (if edits_made h steps = [] then h' = h
      else h' = h\<lparr>hi_redo_stack := [], hi_undo_stack := hi_undo_stack h @
        [\<lparr>he_transaction = \<lparr>tn_id = fst (tick clock), tn_edit_ids = edits_made h steps, tn_start = start\<rparr>,
          he_first_edit_at = t1, he_last_edit_at = t2, he_suppress_grouping = False\<rparr>]\<rparr>)"
proof -
  let ?e = "entry_at \<lparr>tn_id = fst (tick clock), tn_edit_ids = [], tn_start = start\<rparr> t1"
  have "start_transaction h start t1 clock = (Some (fst (tick clock)), opened h ?e [] 0, snd (tick clock))"
    using assms(1) by (simp add: start_transaction_def opened_def entry_at_def split: prod.splits)
  then have "history_run (Start start t1 # steps @ [End t2]) (h, clock)
    = history_run [End t2] (opened h ?e (edits_made h steps) 0, snd (tick clock))"
    using run_inside[OF assms(2), of "[End t2]" h ?e "[]" "snd (tick clock)"] by simp
  moreover have "end_transaction (opened h ?e (edits_made h steps) 0) t2 = (if edits_made h steps = [] then Some (None, h)
     else Some (Some (?e\<lparr>he_transaction := (he_transaction ?e)\<lparr>tn_edit_ids := edits_made h steps\<rparr>, he_last_edit_at := t2\<rparr>),
       h\<lparr>hi_redo_stack := [], hi_undo_stack := hi_undo_stack h @
          [?e\<lparr>he_transaction := (he_transaction ?e)\<lparr>tn_edit_ids := edits_made h steps\<rparr>, he_last_edit_at := t2\<rparr>]\<rparr>))"
    using assms(1)
    by (cases "edits_made h steps = []") (simp_all add: end_transaction_def opened_def assert_opt_def last_opt_iff Let_def butlast_append)
  ultimately show ?thesis by (cases "edits_made h steps = []") (simp_all add: entry_at_def)
qed

definition sample_edit :: edit_operation where
  "sample_edit = \<lparr>eo_timestamp = Lamport 4 0, eo_version = global_new, eo_ranges = [(0, 0)], eo_new_text = [[104]]\<rparr>"

lemma history_push_ok:
  assumes "tm_inv (hi_operations h)" "tm_room (hi_operations h)"
  shows "\<exists>ops. history_push h op = Some (h\<lparr>hi_operations := ops\<rparr>) \<and> tm_inv ops
    \<and> tm_map ops = (tm_map (hi_operations h))(operation_timestamp op \<mapsto> op)"
  using tm_insert_ok[OF assms, of "operation_timestamp op" op] by (auto simp: history_push_def)

theorem transactions_nest_witness:
  "\<exists>h h'. history_push (history_new []) (Edit_op sample_edit) = Some h \<and>
     history_run (Start global_new 1 # [Start global_new 2, Edited (Lamport 4 0), End 3] @ [End 5]) (h, Lamport 9 0)
       = Some (h', Lamport 10 0) \<and>
     hi_undo_stack h' = [\<lparr>he_transaction = \<lparr>tn_id = Lamport 9 0, tn_edit_ids = [Lamport 4 0], tn_start = global_new\<rparr>,
          he_first_edit_at = 1, he_last_edit_at = 5, he_suppress_grouping = False\<rparr>]"
proof -
  obtain ops where ops: "history_push (history_new []) (Edit_op sample_edit) = Some ((history_new [])\<lparr>hi_operations := ops\<rparr>)"
    "tm_inv ops" "tm_map ops = [Lamport 4 0 \<mapsto> Edit_op sample_edit]"
    using history_push_ok[of "history_new []" "Edit_op sample_edit"] by (auto simp: history_new_def tm_inv_new sample_edit_def)
  let ?h = "(history_new [])\<lparr>hi_operations := ops\<rparr>"
  have "edits_made ?h [Start global_new 2, Edited (Lamport 4 0), End 3] = [Lamport 4 0]"
    using tm_get_ok[OF ops(2)] ops(3) by (simp add: edits_made_def edit_known_def)
  then show ?thesis
    using transactions_nest[of ?h "[Start global_new 2, Edited (Lamport 4 0), End 3]" global_new 1 5 "Lamport 9 0"] ops(1)
    by (auto simp: history_new_def tick_def)
qed

section \<open>Grouping\<close>

text \<open>When an entry is joined to the one before it.\<close>

definition joins :: "nat \<Rightarrow> history_entry \<Rightarrow> history_entry \<Rightarrow> bool" where
  "joins interval prev e \<longleftrightarrow>
     \<not> he_suppress_grouping prev \<and> he_first_edit_at e - he_last_edit_at prev < interval"

text \<open>An entry that took in the edits of those above it.\<close>

definition merged_entry :: "history_entry \<Rightarrow> history_entry list \<Rightarrow> history_entry" where
  "merged_entry e vs = e\<lparr>
     he_transaction := (he_transaction e)\<lparr>tn_edit_ids := concat (map (\<lambda>e. tn_edit_ids (he_transaction e)) (e # vs))\<rparr>,
     he_last_edit_at := he_last_edit_at (last (e # vs))\<rparr>"

lemma merged_entry_Nil [simp]: "merged_entry e [] = e"
  by (simp add: merged_entry_def)

lemma group_trailing_ok:
  assumes "hi_undo_stack h = us @ e # vs"
  shows "group_trailing h (length vs) = Some (Some (transaction_id e), h\<lparr>hi_undo_stack := us @ [merged_entry e vs]\<rparr>)"
proof -
  have "csub (length (hi_undo_stack h)) (length vs) = Some (length us + 1)"
    using assms by (simp add: csub_def)
  then show ?thesis
    by (cases "vs = []")
       (simp_all add: group_trailing_def assms last_opt_iff butlast_append merged_entry_def transaction_id_def Let_def)
qed

text \<open>Seen from the top of the stack, the count is the length of the longest run of joined entries.\<close>

lemma group_count_run:
  assumes "group_count i e es = n"
  shows "n \<le> length es \<and> successively (\<lambda>y x. joins i x y) (e # take n es)
    \<and> (n < length es \<longrightarrow> \<not> joins i (es ! n) (last (e # take n es)))"
  using assms
proof (induction i e es arbitrary: n rule: group_count.induct)
  case (2 i e prev es)
  show ?case
  proof (cases "joins i prev e")
    case True
    then obtain m where m: "group_count i prev es = m" "n = Suc m"
      using 2(2) by (simp add: joins_def)
    then show ?thesis using 2(1)[OF _ m(1)] True by (simp add: joins_def)
  next
    case False
    then show ?thesis using 2(2) by (auto simp: joins_def)
  qed
qed simp

lemma group_split:
  assumes "group_count i e es = n"
  shows "\<exists>us f vs. rev es @ [e] = us @ f # vs \<and> n = length vs \<and> successively (joins i) (f # vs)
    \<and> (us \<noteq> [] \<longrightarrow> \<not> joins i (last us) f)"
proof -
  note r = group_count_run[OF assms]
  let ?w = "rev (e # take n es)" and ?us = "rev (drop n es)"
  have eq: "rev es @ [e] = ?us @ ?w"
    by (simp add: rev_append[symmetric] del: rev_append)
  have w: "?w = last (e # take n es) # tl ?w" by (simp add: hd_rev[symmetric] del: rev.simps)
  have "successively (joins i) ?w" using r by (simp only: successively_rev)
  moreover have "length (tl ?w) = n" using r by simp
  moreover have "?us \<noteq> [] \<longrightarrow> last ?us = es ! n" by (auto simp: last_rev hd_drop_conv_nth)
  ultimately show ?thesis using eq w r by (metis drop_eq_Nil2 length_rev length_greater_0_conv not_le rev_is_Nil_conv)
qed

text \<open>The entries that grouping up to a transaction joins.\<close>

definition mergeable :: "transaction_id \<Rightarrow> history_entry \<Rightarrow> history_entry list \<Rightarrow> bool" where
  "mergeable tid e vs \<longleftrightarrow>
     transaction_id e = tid \<and> (\<forall>x \<in> set vs. transaction_id x \<noteq> tid \<and> \<not> he_suppress_grouping x)"

lemma group_until_found:
  "transaction_id e = tid \<Longrightarrow> \<forall>x \<in> set vs. transaction_id x \<noteq> tid \<and> \<not> he_suppress_grouping x \<Longrightarrow>
   group_until_count tid n (vs @ e # us) = Some (n + length vs)"
  by (induction vs arbitrary: n) auto

lemma group_until_split:
  "group_until_count tid n es = Some m \<Longrightarrow>
   \<exists>us e vs. rev es = us @ e # vs \<and> m = n + length vs \<and> transaction_id e = tid
     \<and> (\<forall>x \<in> set vs. transaction_id x \<noteq> tid \<and> \<not> he_suppress_grouping x)"
proof (induction tid n es rule: group_until_count.induct)
  case (2 tid n e es)
  show ?case
  proof (cases "transaction_id e = tid")
    case True
    then have "rev (e # es) = rev es @ e # [] \<and> m = n + length ([] :: history_entry list)" using 2(2) by simp
    then show ?thesis using True by fastforce
  next
    case False
    then have s: "\<not> he_suppress_grouping e" "group_until_count tid (n + 1) es = Some m"
      using 2(2) by (auto split: if_splits)
    then obtain us f vs where "rev es = us @ f # vs" "m = n + 1 + length vs" "transaction_id f = tid"
      "\<forall>x \<in> set vs. transaction_id x \<noteq> tid \<and> \<not> he_suppress_grouping x"
      using 2(1)[OF False] by auto
    then have "rev (e # es) = us @ f # (vs @ [e]) \<and> m = n + length (vs @ [e]) \<and> transaction_id f = tid
      \<and> (\<forall>x \<in> set (vs @ [e]). transaction_id x \<noteq> tid \<and> \<not> he_suppress_grouping x)"
      using False s(1) by simp
    then show ?thesis by blast
  qed
qed simp

lemma merged_entry_id: "transaction_id (merged_entry e vs) = transaction_id e"
  by (simp add: merged_entry_def transaction_id_def)

lemma history_group_ok:
  "\<exists>h'. history_group h = Some (map_option transaction_id (last_opt (hi_undo_stack h')), h') \<and>
     (hi_undo_stack h = [] \<longrightarrow> h' = h) \<and>
     (hi_undo_stack h \<noteq> [] \<longrightarrow> (\<exists>us e vs. hi_undo_stack h = us @ e # vs
        \<and> successively (joins (hi_group_interval h)) (e # vs)
        \<and> (us \<noteq> [] \<longrightarrow> \<not> joins (hi_group_interval h) (last us) e)
        \<and> h' = h\<lparr>hi_undo_stack := us @ [merged_entry e vs]\<rparr>))"
proof (cases "rev (hi_undo_stack h)")
  case Nil
  then show ?thesis by (simp add: history_group_def group_trailing_def csub_def)
next
  case (Cons e es)
  then have s: "hi_undo_stack h = rev es @ [e]" by (metis rev_rev_ident rev.simps(2))
  obtain us f vs where r: "rev es @ [e] = us @ f # vs" "group_count (hi_group_interval h) e es = length vs"
    "successively (joins (hi_group_interval h)) (f # vs)" "us \<noteq> [] \<longrightarrow> \<not> joins (hi_group_interval h) (last us) f"
    using group_split[OF refl] by blast
  have "hi_undo_stack h = us @ f # vs" using s r(1) by simp
  note g = group_trailing_ok[OF this]
  have "history_group h = Some (Some (transaction_id f), h\<lparr>hi_undo_stack := us @ [merged_entry f vs]\<rparr>)"
    using Cons r(2) g by (simp add: history_group_def)
  then show ?thesis using s r by (intro exI[of _ "h\<lparr>hi_undo_stack := us @ [merged_entry f vs]\<rparr>"])
    (auto simp: merged_entry_id last_opt_iff)
qed

text \<open>C23: grouping joins exactly the longest run of entries at the top of the undo stack that follow
  each other within the interval, and grouping up to a transaction the entries above it unless
  one of them, above the transaction, was finalized; the joined entry keeps the id and the start of
  the earliest one, has all their edits in their order and the time of the last one. Neither panics.\<close>

theorem grouping_correct:
  "(\<exists>h'. history_group h = Some (map_option transaction_id (last_opt (hi_undo_stack h')), h') \<and>
     (hi_undo_stack h = [] \<longrightarrow> h' = h) \<and>
     (hi_undo_stack h \<noteq> [] \<longrightarrow> (\<exists>us e vs. hi_undo_stack h = us @ e # vs
        \<and> successively (joins (hi_group_interval h)) (e # vs)
        \<and> (us \<noteq> [] \<longrightarrow> \<not> joins (hi_group_interval h) (last us) e)
        \<and> h' = h\<lparr>hi_undo_stack := us @ [merged_entry e vs]\<rparr>)))
   \<and> (\<forall>us e vs. hi_undo_stack h = us @ e # vs \<and> mergeable tid e vs
        \<longrightarrow> history_group_until h tid = Some (h\<lparr>hi_undo_stack := us @ [merged_entry e vs]\<rparr>))
   \<and> ((\<nexists>us e vs. hi_undo_stack h = us @ e # vs \<and> mergeable tid e vs) \<longrightarrow> history_group_until h tid = Some h)"
proof (rule conjI[OF history_group_ok])
  have merge: "history_group_until h tid = Some (h\<lparr>hi_undo_stack := us @ [merged_entry e vs]\<rparr>)"
    if "hi_undo_stack h = us @ e # vs" "mergeable tid e vs" for us e vs
  proof -
    have "group_until_count tid 0 (rev (hi_undo_stack h)) = Some (length vs)"
      using group_until_found[of e tid "rev vs" 0 "rev us"] that by (simp add: mergeable_def)
    then show ?thesis using group_trailing_ok[OF that(1)] by (simp add: history_group_until_def)
  qed
  have "history_group_until h tid = Some h" if none: "\<nexists>us e vs. hi_undo_stack h = us @ e # vs \<and> mergeable tid e vs"
  proof (cases "group_until_count tid 0 (rev (hi_undo_stack h))")
    case (Some n)
    then have "\<exists>us e vs. hi_undo_stack h = us @ e # vs \<and> mergeable tid e vs"
      using group_until_split[of tid 0 "rev (hi_undo_stack h)" n] by (auto simp: mergeable_def)
    then show ?thesis using none by blast
  qed (simp add: history_group_until_def)
  then show "(\<forall>us e vs. hi_undo_stack h = us @ e # vs \<and> mergeable tid e vs
        \<longrightarrow> history_group_until h tid = Some (h\<lparr>hi_undo_stack := us @ [merged_entry e vs]\<rparr>))
   \<and> ((\<nexists>us e vs. hi_undo_stack h = us @ e # vs \<and> mergeable tid e vs) \<longrightarrow> history_group_until h tid = Some h)"
    using merge by blast
qed

theorem grouping_correct_witness:
  "\<exists>h'. history_group sample_history = Some (map_option transaction_id (last_opt (hi_undo_stack h')), h')
     \<and> history_group_until sample_history (Lamport 3 0)
       = Some (sample_history\<lparr>hi_undo_stack := [sample_entry 1] @ [merged_entry (sample_entry 3) [sample_entry 5]]\<rparr>)"
proof -
  have "hi_undo_stack sample_history = [sample_entry 1] @ sample_entry 3 # [sample_entry 5]"
    "mergeable (Lamport 3 0) (sample_entry 3) [sample_entry 5]"
    by (simp_all add: sample_history_def mergeable_def sample_entry_def entry_at_def transaction_id_def)
  then show ?thesis using grouping_correct[of sample_history "Lamport 3 0"] by blast
qed

end
