(* ===== verification/BufferProps.thy ===== *)
theory BufferProps
  imports Buffer BufferEditProps HistoryProps
begin

text \<open>
  The invariant of a buffer: that of its snapshot, a clock ahead of what the version has observed
  of the replica, subscriptions that follow the text, an undo stack with the open transaction. A new
  buffer has it, and a local edit keeps it.
\<close>

section \<open>The invariant\<close>

definition clock_ahead :: "global \<Rightarrow> lamport \<Rightarrow> bool" where
  "clock_ahead ver c \<longleftrightarrow> 0 < lvalue c \<and> (\<forall>t. global_observed ver t \<and> lreplica t = lreplica c \<longrightarrow> lvalue t < lvalue c)"

definition history_ok :: "history \<Rightarrow> bool" where
  "history_ok h \<longleftrightarrow> tm_inv (hi_operations h) \<and> (0 < hi_transaction_depth h \<longrightarrow> hi_undo_stack h \<noteq> [])"

abbreviation buffer_text :: "buffer \<Rightarrow> str" where
  "buffer_text b \<equiv> bs_visible_text (bf_snapshot b)"

definition buffer_ok :: "insertions \<Rightarrow> (sub_id \<Rightarrow> nat list) \<Rightarrow> buffer \<Rightarrow> bool" where
  "buffer_ok ins seen b \<longleftrightarrow> snapshot_ok ins (bf_snapshot b) \<and> clock_ahead (bs_version (bf_snapshot b)) (bf_clock b) \<and>
     follows seen (as_bytes (buffer_text b)) (bf_topic b) (bf_cells b) \<and> history_ok (bf_history b)"

text \<open>Room for one more operation: the trees fit a cursor, and the clock is not at its end.\<close>

definition buffer_room :: "buffer \<Rightarrow> bool" where
  "buffer_room b \<longleftrightarrow> snapshot_room (bf_snapshot b) \<and> tm_room (hi_operations (bf_history b)) \<and>
     lvalue (bf_clock b) < - 3"

lemma clock_ahead_fresh: "clock_ahead ver c \<Longrightarrow> \<not> global_observed ver c"
  by (auto simp: clock_ahead_def)

lemma seq_Suc: "v < - 3 \<Longrightarrow> v < v + 1 \<and> v + 1 < v + 2 \<and> v + 1 < - 2 \<and> v + 2 < - 1" for v :: seq
  by (simp add: word_less_nat_alt unat_word_ariths unsigned_minus_1_eq_mask mask_eq_exp_minus_1)

lemma clock_ahead_tick:
  assumes "clock_ahead ver c" "lvalue c < lvalue c + 1"
  shows "clock_ahead ver (snd (tick c))" "clock_ahead (global_observe ver c) (snd (tick c))"
proof -
  have "lvalue t < lvalue c + 1" if "lvalue t < lvalue c \<or> lvalue t \<le> lvalue c" for t
    using that assms(2) by (auto intro: less_trans le_less_trans)
  then show "clock_ahead ver (snd (tick c))" "clock_ahead (global_observe ver c) (snd (tick c))"
    using assms by (auto simp: clock_ahead_def tick_def global_observed_observe intro: less_trans)
qed

lemma global_new_observed: "global_observed global_new t \<longleftrightarrow> lvalue t = 0"
  by (simp add: global_observed_def)

section \<open>New buffers\<close>

lemma base_once:
  assumes "t \<noteq> []" "str_len t < 2 ^ 32"
  shows "base_loop t ts 0 0 locator_min (stree_new fragment_sum, stree_new insertion_sum) =
    (let f = inserted_frag ts 0 (str_len t) (locator_between locator_min locator_max) in do {
       insertions \<leftarrow> stree_push insertion_sum (stree_new insertion_sum) (insertion_fragment_new f);
       fragments \<leftarrow> stree_push fragment_sum (stree_new fragment_sum) f;
       Some (fragments, insertions)
     })"
proof -
  have stop: "base_loop t ts off (str_len t) prev trees = Some trees" for off prev trees
    by (simp add: base_loop.simps)
  have m: "min (str_len t) (0 + MAX_INSERTION_LEN) = str_len t" using assms(2) by (simp add: MAX_INSERTION_LEN_def)
  have pos: "0 < str_len t" using assms(1) str_len_0 by fastforce
  have u: "as_u32 (str_len t) = str_len t" using assms(2) by simp
  show ?thesis
    unfolding base_loop.simps[of t ts 0 0] m
    using pos by (simp add: stop csub_def Let_def u inserted_frag_def split: option.splits)
qed

text \<open>The snapshot of a new buffer.\<close>

lemma um_new_not_undone: "um_is_undone um_new t = Some False"
  using um_counts_ok(2)[OF um_new_ok(1), of t] by (simp add: um_new_ok(2) max_count_def counts_of_def)

lemma frag_str_whole: "ins ts = t \<Longrightarrow> frag_str ins (inserted_frag ts 0 (str_len t) i) = Some t"
  by (auto simp: frag_str_Some intro!: exI[of _ "[]"])

lemma new_snapshot_ok:
  assumes fs: "fs = [] \<and> t = [] \<and> ver = global_new \<or>
      fs = [inserted_frag BASE_STAMP 0 (str_len t) (locator_between locator_min locator_max)] \<and> t \<noteq> [] \<and>
      ver = global_observe global_new BASE_STAMP \<and> ins BASE_STAMP = t \<and> str_len t < 2 ^ 32"
    and tr: "wf_tree fragment_sum ft" "tree_items ft = fs" "wf_tree insertion_sum it" "tree_items it = map insertion_fragment_new fs"
  shows "snapshot_ok ins \<lparr>bs_visible_text = t, bs_deleted_text = [], bs_fragments = ft, bs_insertions = it,
    bs_insertion_slices = tm_new, bs_undo_map = um_new, bs_version = ver, bs_remote_id = r, bs_replica_id = rp, bs_line_ending = e\<rparr>"
proof -
  have elems: "ts_elems (tm_new :: insertion_slice tree_set) = {}" by (simp add: ts_elems_def tm_inv_new)
  have fr: "ids_ok fs \<and> frags_ok ins {} um_new ver fs \<and> t = vtext ins fs \<and> dtext ins fs = [] \<and> wf_global ver"
  proof (cases "t = []")
    case True
    then show ?thesis using fs by (auto simp: ids_ok_def frags_ok_def)
  next
    case False
    let ?i = "locator_between locator_min locator_max"
    let ?f = "inserted_frag BASE_STAMP 0 (str_len t) ?i"
    have f: "fs = [?f]" "ver = global_observe global_new BASE_STAMP" "ins BASE_STAMP = t" "str_len t < 2 ^ 32"
      using fs False by auto
    have lt: "locator_min < locator_max" "last locator_max \<noteq> 0"
      by (simp_all add: locator_min_def locator_max_def word_gt_0)
    have i: "id_ok ?f" using between_greater[of locator_min locator_max] between_less[OF lt] between_last by (simp add: id_ok_def)
    have "0 < str_len t" using False str_len_0 by fastforce
    then have "sound ins {} um_new ver ?f"
      unfolding sound_def using frag_str_whole[of ins BASE_STAMP t, OF f(3)] f(2,4)
      by (auto simp: frag_wf_def changes_of_def fragment_is_visible_def um_new_not_undone global_observed_observe
          BASE_STAMP_def lamport_new_def)
    then show ?thesis using i f(1,2) fstr_Some[OF frag_str_whole[of ins BASE_STAMP t, OF f(3)]]
      by (simp add: ids_ok_def frags_ok_def wf_global_observe)
  qed
  have "key_sorted insertion_key (\<lambda>_. True) (map insertion_fragment_new fs)" using fs by (auto simp: key_sorted_def)
  then show ?thesis using fr tr elems um_new_ok tm_inv_new(1)
    by (simp add: snapshot_ok_def um_new_ok(2))
qed

text \<open>A new buffer, with room for a first operation.\<close>

lemma small_trees: "height (t :: ('a, 's) stree) \<le> Suc (height (stree_new S)) \<Longrightarrow> height t < STACK_CAP"
  by (simp add: stree_new_def STACK_CAP_def)

lemma stree_new_room [simp]: "height (stree_new S) < STACK_CAP"
  by (simp add: stree_new_def STACK_CAP_def)

lemma tm_new_room: "tm_room tm_new"
  by (simp add: tm_room_def tm_new_def)

lemma small_clocks: "(1 :: seq) < - 3" "(2 :: seq) < - 3"
  by (simp_all add: word_less_nat_alt unsigned_minus_1_eq_mask mask_eq_exp_minus_1)

lemma new_normalized_ok:
  assumes "str_len t < 2 ^ 32" "ins BASE_STAMP = t"
  shows "\<exists>b. new_normalized replica remote e t = Some b \<and> buffer_ok ins seen b \<and> buffer_room b \<and> buffer_text b = t \<and>
    bs_line_ending (bf_snapshot b) = e \<and> hi_transaction_depth (bf_history b) = 0 \<and> hi_undo_stack (bf_history b) = []"
proof -
  have fl: "follows seen (as_bytes t) topic_new Map.empty" by (simp add: follows_def topic_new_def)
  have h: "history_ok (history_new t)" by (simp add: history_ok_def history_new_def tm_inv_new)
  have tr: "tm_room (hi_operations (history_new t))" by (simp add: history_new_def tm_new_room)
  show ?thesis
  proof (cases "t = []")
    case True
    have "clock_ahead global_new (lamport_new replica)"
      by (auto simp: clock_ahead_def lamport_new_def global_observed_def)
    then show ?thesis using True fl h tr tm_new_room small_clocks new_snapshot_ok[of "[]" t global_new ins "stree_new fragment_sum" "stree_new insertion_sum"]
      by (simp add: new_normalized_def buffer_ok_def history_new_def buffer_room_def snapshot_room_def lamport_new_def)
  next
    case False
    let ?f = "inserted_frag BASE_STAMP 0 (str_len t) (locator_between locator_min locator_max)"
    obtain it where it: "stree_push insertion_sum (stree_new insertion_sum) (insertion_fragment_new ?f) = Some it"
      "wf_tree insertion_sum it" "tree_items it = [insertion_fragment_new ?f]" "height it < STACK_CAP"
      using ins.stree_push_ok[of "stree_new insertion_sum" "insertion_fragment_new ?f"] small_trees by auto
    obtain ft where ft: "stree_push fragment_sum (stree_new fragment_sum) ?f = Some ft" "wf_tree fragment_sum ft"
      "tree_items ft = [?f]" "height ft < STACK_CAP"
      using frags.stree_push_ok[of "stree_new fragment_sum" ?f] small_trees by (auto simp: frag_wf_def)
    have b: "base_loop t (lamport_new REPLICA_LOCAL) 0 0 locator_min (stree_new fragment_sum, stree_new insertion_sum) = Some (ft, it)"
      using base_once[OF False assms(1), of "lamport_new REPLICA_LOCAL"] it(1) ft(1) by (simp add: BASE_STAMP_def)
    have c: "clock_ahead (global_observe global_new (lamport_new REPLICA_LOCAL)) (lamport_observe (lamport_new replica) (lamport_new REPLICA_LOCAL))"
      "lvalue (lamport_observe (lamport_new replica) (lamport_new REPLICA_LOCAL)) < - 3"
      using small_clocks by (auto simp: clock_ahead_def lamport_new_def lamport_observe_def global_observed_observe global_new_observed
          intro: le_less_trans[of _ 1 2])
    show ?thesis using False b c fl h assms(2) it(2-4) ft(2-4) assms(1) tr tm_new_room
        new_snapshot_ok[of "[?f]" t "global_observe global_new BASE_STAMP" ins ft it]
      by (simp add: new_normalized_def buffer_ok_def history_new_def BASE_STAMP_def Let_def buffer_room_def snapshot_room_def)
  qed
qed

end
