(* ===== verification/BufferEditing.thy ===== *)
theory BufferEditing
  imports BufferProps
begin

text \<open>Editing a buffer: the transaction around the edit, and the edit as a whole.\<close>

section \<open>The transaction around an edit\<close>

definition last_edit :: "history \<Rightarrow> lamport option" where
  "last_edit h = (case last_opt (hi_undo_stack h) of None \<Rightarrow> None | Some e \<Rightarrow> last_opt (tn_edit_ids (he_transaction e)))"

lemma last_edit_snoc: "hi_undo_stack h = us @ [e] \<Longrightarrow> last_edit h = last_opt (tn_edit_ids (he_transaction e))"
  by (simp add: last_edit_def last_opt_iff)

lemma start_transaction_ok:
  obtains tid us e where "start_transaction h ver now c =
      (tid, h\<lparr>hi_transaction_depth := Suc (hi_transaction_depth h), hi_undo_stack := us @ [e]\<rparr>,
       if hi_transaction_depth h = 0 then snd (tick c) else c)" | "0 < hi_transaction_depth h" "hi_undo_stack h = []"
proof (cases "hi_transaction_depth h")
  case 0
  then show thesis using that(1) by (fastforce simp: start_transaction_def tick_def)
next
  case (Suc n)
  show thesis
  proof (cases "hi_undo_stack h" rule: rev_cases)
    case Nil
    then show thesis using that(2) Suc by simp
  next
    case (snoc us e)
    have "h\<lparr>hi_transaction_depth := Suc (hi_transaction_depth h)\<rparr>
      = h\<lparr>hi_transaction_depth := Suc (hi_transaction_depth h), hi_undo_stack := us @ [e]\<rparr>"
      using snoc by (cases h) simp
    then show thesis using that(1) Suc by (simp add: start_transaction_def)
  qed
qed

lemma push_undo_last:
  assumes "hi_undo_stack h = us @ [e]" "hi_transaction_depth h \<noteq> 0" "tm_get (hi_operations h) i = Some (Edit_op op)"
  shows "push_undo h i = Some (h\<lparr>hi_undo_stack := us @ [e\<lparr>he_transaction :=
     (he_transaction e)\<lparr>tn_edit_ids := tn_edit_ids (he_transaction e) @ [i]\<rparr>\<rparr>]\<rparr>)"
  using assms by (simp add: push_undo_def assert_opt_def last_opt_iff Let_def)

lemma last_merged:
  assumes "us @ [e] = us' @ f # vs" "tn_edit_ids (he_transaction e) = ids @ [i]"
  shows "last_opt (tn_edit_ids (he_transaction (merged_entry f vs))) = Some i"
proof (cases vs rule: rev_cases)
  case Nil
  then show ?thesis using assms by (simp add: last_opt_iff)
next
  case (snoc ws g)
  then have "us @ [e] = (us' @ f # ws) @ [g]" using assms(1) by simp
  then have "g = e" by simp
  then show ?thesis using assms(2) snoc by (simp add: merged_entry_def last_opt_iff)
qed

lemma end_transaction_ok:
  assumes "hi_undo_stack (bf_history b) = us @ [e]" "hi_transaction_depth (bf_history b) = Suc n"
    "tn_edit_ids (he_transaction e) = ids @ [i]"
  shows "\<exists>r h. buffer_end_transaction_at b now = Some (r, b\<lparr>bf_history := h\<rparr>) \<and> hi_transaction_depth h = n \<and>
    hi_operations h = hi_operations (bf_history b) \<and> last_edit h = Some i \<and> (n = 0 \<longrightarrow> hi_redo_stack h = [])"
proof (cases n)
  case (Suc m)
  let ?h = "(bf_history b)\<lparr>hi_transaction_depth := n\<rparr>"
  have "buffer_end_transaction_at b now = Some (None, b\<lparr>bf_history := ?h\<rparr>)"
    using assms(2) Suc by (simp add: buffer_end_transaction_at_def end_transaction_def assert_opt_def Let_def)
  moreover have "last_edit ?h = Some i" using last_edit_snoc[of ?h us e] assms(1,3) by (simp add: last_opt_iff)
  ultimately show ?thesis using Suc by auto
next
  case 0
  let ?e = "e\<lparr>he_last_edit_at := now\<rparr>"
  let ?h = "(bf_history b)\<lparr>hi_transaction_depth := 0, hi_redo_stack := [], hi_undo_stack := us @ [?e]\<rparr>"
  have et: "end_transaction (bf_history b) now = Some (Some ?e, ?h)"
    using assms 0 by (simp add: end_transaction_def assert_opt_def last_opt_iff Let_def)
  obtain h' where g: "history_group ?h = Some (map_option transaction_id (last_opt (hi_undo_stack h')), h')"
    "\<exists>us' f vs. us @ [?e] = us' @ f # vs \<and> h' = ?h\<lparr>hi_undo_stack := us' @ [merged_entry f vs]\<rparr>"
    using history_group_ok[of ?h] by auto
  then obtain us' f vs where m: "us @ [?e] = us' @ f # vs" "h' = ?h\<lparr>hi_undo_stack := us' @ [merged_entry f vs]\<rparr>" by blast
  have "last_opt (tn_edit_ids (he_transaction (merged_entry f vs))) = Some i"
    by (rule last_merged[OF m(1), where ids = ids]) (use assms(3) in simp)
  then have "last_edit h' = Some i" using last_edit_snoc[of h' us' "merged_entry f vs"] m(2) by simp
  moreover have "\<exists>tid. last_opt (hi_undo_stack h') = Some tid" using m(2) by (simp add: last_opt_iff)
  then have "\<exists>r. buffer_end_transaction_at b now = Some (r, b\<lparr>bf_history := h'\<rparr>)"
    using et g(1) by (auto simp: buffer_end_transaction_at_def)
  moreover have "hi_transaction_depth h' = n" "hi_operations h' = hi_operations (bf_history b)" "hi_redo_stack h' = []"
    using m(2) 0 by simp_all
  ultimately show ?thesis by blast
qed

section \<open>Publishing\<close>

lemma publish_edits_ok:
  assumes "follows seen (as_bytes V) (bf_topic b) (bf_cells b)" "patch_between (as_bytes V) (as_bytes W) p"
  shows "\<exists>t cs. publish_edits p b = Some (b\<lparr>bf_topic := t, bf_cells := cs\<rparr>) \<and> follows seen (as_bytes W) t cs"
proof -
  obtain t cs where "topic_publish p (bf_topic b) (bf_cells b) = Some (t, cs)" "follows seen (as_bytes W) t cs"
    using topic_publish_ok[OF assms] by blast
  then show ?thesis unfolding publish_edits_def by (intro exI[of _ t] exI[of _ cs]) simp
qed

section \<open>The edit\<close>

definition to_offsets :: "buffer \<Rightarrow> ((nat \<times> nat) \<times> str) list \<Rightarrow> ((nat \<times> nat) \<times> str) list" where
  "to_offsets b edits =
     map (\<lambda>((s, e), t). ((usize_to_offset (bf_snapshot b) s, usize_to_offset (bf_snapshot b) e), t)) edits"

lemma new_texts_offsets [simp]: "new_texts (to_offsets b edits) = new_texts edits"
  by (simp add: new_texts_def to_offsets_def split_def)

lemma buffer_edit_ok:
  assumes ok: "buffer_ok ins seen b" and room: "buffer_room b"
    and "str_len (concat (new_texts edits)) < 2 ^ 32" "edits_apply (buffer_text b) 0 (to_offsets b edits) = Some V"
  shows "\<exists>op b'. buffer_edit edits started ended b = Some (Edit_op op, b') \<and>
    buffer_ok (ins(eo_timestamp op := concat (new_texts edits))) seen b' \<and> buffer_text b' = V \<and>
    eo_new_text op = new_texts edits \<and> eo_version op = bs_version (bf_snapshot b) \<and>
    \<not> global_observed (bs_version (bf_snapshot b)) (eo_timestamp op) \<and>
    hi_transaction_depth (bf_history b') = hi_transaction_depth (bf_history b) \<and>
    last_edit (bf_history b') = Some (eo_timestamp op) \<and>
    (hi_transaction_depth (bf_history b) = 0 \<longrightarrow> hi_redo_stack (bf_history b') = []) \<and>
    tm_map (hi_operations (bf_history b')) = (tm_map (hi_operations (bf_history b)))(eo_timestamp op \<mapsto> Edit_op op) \<and>
    bs_undo_map (bf_snapshot b') = bs_undo_map (bf_snapshot b) \<and>
    buffer_text b = text_without (ins(eo_timestamp op := concat (new_texts edits))) (bs_undo_map (bf_snapshot b))
      (eo_timestamp op) (old_frags (bf_snapshot b')) \<and>
    bytes_without (eo_timestamp op) (old_frags (bf_snapshot b')) = all_bytes (old_frags (bf_snapshot b))"
proof -
  let ?s = "bf_snapshot b" and ?h = "bf_history b"
  have b: "snapshot_ok ins ?s" "clock_ahead (bs_version ?s) (bf_clock b)" "follows seen (as_bytes (buffer_text b)) (bf_topic b) (bf_cells b)"
    "tm_inv (hi_operations ?h)" "0 < hi_transaction_depth ?h \<Longrightarrow> hi_undo_stack ?h \<noteq> []"
    using ok by (simp_all add: buffer_ok_def history_ok_def)
  have rm: "snapshot_room ?s" "tm_room (hi_operations ?h)" "lvalue (bf_clock b) < - 3" using room by (simp_all add: buffer_room_def)
  note sq = seq_Suc[OF rm(3)]
  obtain tid us e where st: "start_transaction ?h (bs_version ?s) started (bf_clock b) =
      (tid, ?h\<lparr>hi_transaction_depth := Suc (hi_transaction_depth ?h), hi_undo_stack := us @ [e]\<rparr>,
       if hi_transaction_depth ?h = 0 then snd (tick (bf_clock b)) else bf_clock b)"
    by (rule start_transaction_ok[of ?h "bs_version ?s" started "bf_clock b"]) (use b(5) in auto)
  define ts where "ts = (if hi_transaction_depth ?h = 0 then snd (tick (bf_clock b)) else bf_clock b)"
  have ts: "clock_ahead (bs_version ?s) ts" "lvalue ts < lvalue ts + 1"
    using b(2) clock_ahead_tick(1)[OF b(2)] sq by (auto simp: ts_def tick_def add.commute)
  note fresh = clock_ahead_fresh[OF ts(1)]
  have "str_len (concat (new_texts (to_offsets b edits))) < 2 ^ 32" using assms(3) by simp
  from apply_edit_ok[OF b(1) rm(1) fresh this assms(4)]
  obtain op p s' where ap: "apply_edit_internal ?s (to_offsets b edits) ts = Some (op, p, s')"
    "snapshot_ok (ins(ts := concat (new_texts edits))) (s'\<lparr>bs_version := global_observe (bs_version s') ts\<rparr>)"
    "bs_visible_text s' = V" "patch_between (as_bytes (buffer_text b)) (as_bytes V) p"
    "eo_new_text op = new_texts edits" "eo_timestamp op = ts" "eo_version op = bs_version ?s"
    "bs_undo_map s' = bs_undo_map ?s" "bs_version s' = bs_version ?s"
    "buffer_text b = text_without (ins(ts := concat (new_texts edits))) (bs_undo_map ?s) ts (old_frags s')"
    "bytes_without ts (old_frags s') = all_bytes (old_frags ?s)"
    unfolding new_texts_offsets by blast
  define c' where "c' = snd (tick ts)"
  have tk: "tick ts = (ts, c')" and ca: "clock_ahead (global_observe (bs_version ?s) ts) c'"
    using clock_ahead_tick(2)[OF ts] by (simp_all add: c'_def) (simp add: tick_def)
  let ?h1 = "?h\<lparr>hi_transaction_depth := Suc (hi_transaction_depth ?h), hi_undo_stack := us @ [e]\<rparr>"
  define b1 where "b1 = b\<lparr>bf_history := ?h1, bf_clock := c', bf_snapshot := s'\<rparr>"
  obtain t cs where pb: "publish_edits p b1 = Some (b1\<lparr>bf_topic := t, bf_cells := cs\<rparr>)" "follows seen (as_bytes V) t cs"
    using publish_edits_ok[of seen "buffer_text b" b1 V p] b(3) ap(4) by (auto simp: b1_def)
  have al: "apply_local_edit edits ts (b\<lparr>bf_history := ?h1, bf_clock := c'\<rparr>) = Some (op, b1\<lparr>bf_topic := t, bf_cells := cs\<rparr>)"
    using ap(1) pb(1) by (simp add: apply_local_edit_def to_offsets_def b1_def Let_def)
  obtain ops where ops: "history_push ?h1 (Edit_op op) = Some (?h1\<lparr>hi_operations := ops\<rparr>)" "tm_inv ops"
    "tm_map ops = (tm_map (hi_operations ?h))(ts \<mapsto> Edit_op op)"
    using history_push_ok[of ?h1 "Edit_op op"] b(4) rm(2) ap(6) by auto
  let ?e = "e\<lparr>he_transaction := (he_transaction e)\<lparr>tn_edit_ids := tn_edit_ids (he_transaction e) @ [ts]\<rparr>\<rparr>"
  let ?h2 = "?h1\<lparr>hi_operations := ops, hi_undo_stack := us @ [?e]\<rparr>"
  have "tm_get ops ts = Some (Edit_op op)" using tm_get_ok[OF ops(2)] ops(3) by simp
  then have pu: "push_undo (?h1\<lparr>hi_operations := ops\<rparr>) ts = Some ?h2"
    using push_undo_last[of "?h1\<lparr>hi_operations := ops\<rparr>" us e ts op] by simp
  define b2 where "b2 = b\<lparr>bf_history := ?h2, bf_clock := c',
    bf_snapshot := s'\<lparr>bs_version := global_observe (bs_version s') ts\<rparr>, bf_topic := t, bf_cells := cs\<rparr>"
  have ov: "observe_version ts (b1\<lparr>bf_topic := t, bf_cells := cs, bf_history := ?h2\<rparr>) = b2"
    by (simp add: observe_version_def b1_def b2_def)
  obtain r h where en: "buffer_end_transaction_at b2 ended = Some (r, b2\<lparr>bf_history := h\<rparr>)"
    "hi_transaction_depth h = hi_transaction_depth ?h" "hi_operations h = ops" "last_edit h = Some ts"
    "hi_transaction_depth ?h = 0 \<longrightarrow> hi_redo_stack h = []"
    using end_transaction_ok[of b2 us ?e "hi_transaction_depth ?h" "tn_edit_ids (he_transaction e)" ts ended]
    by (auto simp: b2_def)
  have be: "buffer_edit edits started ended b = Some (Edit_op op, b2\<lparr>bf_history := h\<rparr>)"
    unfolding buffer_edit_def buffer_start_transaction_at_def st ts_def[symmetric] Let_def prod.case
    using al ops(1) pu ov en(1) ap(6) by (simp add: tk b1_def)
  have "hi_undo_stack h \<noteq> []" using en(4) by (auto simp: last_edit_def)
  then have "buffer_ok (ins(ts := concat (new_texts edits))) seen (b2\<lparr>bf_history := h\<rparr>)"
    using ap(2,3,9) pb(2) ops(2) en(3) ca by (simp add: buffer_ok_def history_ok_def b2_def)
  moreover have "buffer_text (b2\<lparr>bf_history := h\<rparr>) = V" "bs_undo_map (bf_snapshot (b2\<lparr>bf_history := h\<rparr>)) = bs_undo_map ?s"
    "old_frags (bf_snapshot (b2\<lparr>bf_history := h\<rparr>)) = old_frags s'" "bf_history (b2\<lparr>bf_history := h\<rparr>) = h"
    using ap(3,8) by (simp_all add: b2_def)
  ultimately show ?thesis using be ap(5-7,10,11) fresh en(2-5) ops(3)
    by (intro exI[of _ op] exI[of _ "b2\<lparr>bf_history := h\<rparr>"]) simp
qed

end
