(* ===== verification/UndoIds.thy ===== *)
theory UndoIds
  imports Undo BufferInv
begin

text \<open>
  The identifiers that \<open>fragment_ids_for_edits\<close> collects: each at most once, and that of every
  fragment one of the edits has changed.
\<close>

section \<open>The slices of edits\<close>

lemma slices_of_edit:
  assumes "sorted_wrt (<) ss" "k = InsertionSlice (lvalue d) (lreplica d) (lvalue LAMPORT_MIN) (lreplica LAMPORT_MIN) 0 0"
  shows "set (takeWhile (\<lambda>s. slice_edit_id s = d) (filter (\<lambda>s. k \<le> s) ss)) = {s \<in> set ss. slice_edit_id s = d}"
proof -
  have k: "slice_key k = (d, LAMPORT_MIN, 0, 0)"
    using assms(2) by (cases d) (simp add: slice_key_def slice_edit_id_def slice_insertion_id_def LAMPORT_MIN_def)
  have ge: "k \<le> s \<longleftrightarrow> d \<le> slice_edit_id s" for s
  proof -
    have "k \<le> s \<longleftrightarrow> (d, LAMPORT_MIN, 0, 0) \<le> (slice_edit_id s, slice_insertion_id s, sl_start s, sl_end s)"
      by (simp only: less_slice_key(2) k) (simp only: slice_key_def)
    then show ?thesis using LAMPORT_MIN_least[of "slice_insertion_id s"]
      by (simp add: less_eq_prod_def) (auto simp: order_le_less)
  qed
  have "set (takeWhile (\<lambda>s. slice_edit_id s = d) xs) = {s \<in> set xs. slice_edit_id s = d}"
    if "sorted_wrt (<) xs" "\<forall>s \<in> set xs. d \<le> slice_edit_id s" for xs
    using that
  proof (induction xs)
    case (Cons s xs)
    show ?case
    proof (cases "slice_edit_id s = d")
      case False
      then have "d < slice_edit_id s" using Cons.prems(2) by (auto simp: order_le_less)
      moreover have "slice_edit_id s \<le> slice_edit_id x" if "x \<in> set xs" for x
      proof -
        have "s < x" using Cons.prems(1) that by simp
        then have "slice_key s < slice_key x" by (simp only: less_slice_key(1))
        then show ?thesis unfolding slice_key_def by (auto simp: less_prod_def)
      qed
      ultimately have "slice_edit_id x \<noteq> d" if "x \<in> set xs" for x using that by (metis less_le_not_le)
      then show ?thesis using False by auto
    qed (use Cons in auto)
  qed simp
  then show ?thesis using assms(1) ge by (simp add: sorted_wrt_filter) blast
qed

lemma edit_slices_ok:
  assumes "tm_inv S" "tm_room S"
  shows "\<exists>ss. edit_slices S d = Some ss \<and> set ss = {s \<in> ts_elems S. slice_edit_id s = d}"
  using slices_of_edit[OF _ refl, of "map fst (tm_list S)" d] ts_iter_from_ok[OF assms] assms(1)
  by (simp add: edit_slices_def ts_elems_list tm_inv_def entries_sorted_keys tm_list_def pair_of_def o_def)

lemma all_edit_slices_ok:
  assumes "tm_inv S" "tm_room S"
  shows "\<exists>ss. all_edit_slices S ds = Some ss \<and> set ss = {s \<in> ts_elems S. slice_edit_id s \<in> set ds}"
proof (induction ds)
  case (Cons d ds)
  then show ?case using edit_slices_ok[OF assms, of d] by auto
qed simp

section \<open>The walk over the index\<close>

abbreviation ins_sorted :: "insertion_fragment list \<Rightarrow> bool" where
  "ins_sorted \<equiv> key_sorted insertion_key (\<lambda>_. True)"

definition in_slice :: "insertion_slice \<Rightarrow> insertion_fragment \<Rightarrow> bool" where
  "in_slice s i \<longleftrightarrow> if_timestamp i = slice_insertion_id s \<and> sl_start s \<le> if_split_offset i \<and> if_split_offset i < sl_end s"

definition slice_from_key :: "insertion_slice \<Rightarrow> insertion_key" where
  "slice_from_key s = (slice_insertion_id s, sl_start s)"

lemma collect_slice_ids_ok:
  assumes "cursor_at insertion_dim insertion_sum c pre post" "ins_sorted (pre @ post)" "c_tree c = t"
  shows "\<exists>c'. collect_slice_ids s c ids = Some (c', ids @ map if_fragment_id
       (takeWhile (\<lambda>i. if_timestamp i = slice_insertion_id s \<and> if_split_offset i < sl_end s) post)) \<and>
     cursor_at insertion_dim insertion_sum c'
       (pre @ takeWhile (\<lambda>i. if_timestamp i = slice_insertion_id s \<and> if_split_offset i < sl_end s) post)
       (dropWhile (\<lambda>i. if_timestamp i = slice_insertion_id s \<and> if_split_offset i < sl_end s) post) \<and> c_tree c' = t"
  using assms
proof (induction post arbitrary: c pre ids)
  case Nil
  then show ?case using cursor_item_ok(1)[OF Nil(1)] by (auto simp: collect_slice_ids.simps)
next
  case (Cons i post)
  have item: "cursor_item c = Some (Some i)" using cursor_item_ok(1)[OF Cons.prems(1)] by simp
  show ?case
  proof (cases "if_timestamp i = slice_insertion_id s \<and> if_split_offset i < sl_end s")
    case False
    then have "if_timestamp i \<noteq> slice_insertion_id s \<or> sl_end s \<le> if_split_offset i" by auto
    then have "collect_slice_ids s c ids = Some (c, ids)" using item by (simp add: collect_slice_ids.simps)
    then show ?thesis using Cons.prems False by auto
  next
    case True
    obtain c1 where c1: "cursor_next insertion_dim c = Some c1" "c_tree c1 = t"
      "cursor_at insertion_dim insertion_sum c1 (pre @ [i]) post"
      using ins.cursor_next_at_ok[OF Cons.prems(1,2)] Cons.prems(3) by auto
    have "collect_slice_ids s c ids = collect_slice_ids s c1 (ids @ [if_fragment_id i])"
      using item True c1(1) by (simp add: collect_slice_ids.simps)
    then show ?thesis using Cons.IH[OF c1(3) _ c1(2), of "ids @ [if_fragment_id i]"] Cons.prems(2) True by simp
  qed
qed

text \<open>The state between slices: \<open>xs\<close> are the entries taken so far; those passed and not taken are
  before the start \<open>k\<close> of the last slice.\<close>

definition collecting ::
  "insertion_cursor \<Rightarrow> insertion_fragment list \<Rightarrow> insertion_fragment list \<Rightarrow> insertion_fragment list \<Rightarrow> insertion_key \<Rightarrow> bool" where
  "collecting c pre post xs k \<longleftrightarrow> cursor_ready insertion_dim insertion_sum c pre post \<and> ins_sorted (pre @ post) \<and>
     (cursor_at insertion_dim insertion_sum c pre post \<or> pre = []) \<and> c_position c = dpos insertion_dim insertion_sum pre \<and>
     distinct xs \<and> set xs \<subseteq> set pre \<and> (\<forall>i \<in> set pre - set xs. insertion_key i < k) \<and> fst (c_position c) \<le> fst k"

text \<open>The seek to the start of a slice, when it is made.\<close>

lemma seek_slice_ok:
  assumes w: "collecting c pre post xs k" and k: "k \<le> slice_from_key s" and ne: "slice_insertion_id s \<noteq> LAMPORT_MIN"
  shows "\<exists>c' pre' post'. (if slice_insertion_id s \<noteq> fst (c_position c) \<or> snd (c_position c) < sl_start s
       then map_option snd (cursor_seek_forward insertion_dim (cmp_of (slice_insertion_id s, sl_start s)) Left c)
       else Some c) = Some c' \<and> pre' @ post' = pre @ post \<and>
     cursor_at insertion_dim insertion_sum c' pre' post' \<and> distinct xs \<and> set xs \<subseteq> set pre' \<and>
     (\<forall>i \<in> set pre' - set xs. insertion_key i < slice_from_key s) \<and> (\<forall>i \<in> set post'. slice_from_key s \<le> insertion_key i) \<and>
     fst (dpos insertion_dim insertion_sum pre') \<le> slice_insertion_id s"
proof -
  let ?k = "slice_from_key s"
  have c: "cursor_ready insertion_dim insertion_sum c pre post" "ins_sorted (pre @ post)"
    "c_position c = dpos insertion_dim insertion_sum pre" "distinct xs" "set xs \<subseteq> set pre"
    "\<forall>i \<in> set pre - set xs. insertion_key i < k" "fst (c_position c) \<le> fst k"
    using w unfolding collecting_def by blast+
  have fk: "fst k \<le> slice_insertion_id s" using k by (cases k) (auto simp: slice_from_key_def less_eq_prod_def)
  have lt: "\<forall>i \<in> set pre - set xs. insertion_key i < ?k" using c(6) k by (auto intro: less_le_trans)
  have last: "insertion_key i \<le> dpos insertion_dim insertion_sum pre" if "i \<in> set pre" for i
  proof -
    have "pre \<noteq> []" using that by auto
    then obtain ys y where y: "pre = ys @ [y]" by (metis append_butlast_last_id)
    then have "insertion_key i \<le> insertion_key y"
      using c(2) that by (auto simp: key_sorted_append key_sorted_Cons less_imp_le)
    then show ?thesis using y by (simp add: dpos_insertions)
  qed
  show ?thesis
  proof (cases "slice_insertion_id s \<noteq> fst (c_position c) \<or> snd (c_position c) < sl_start s")
    case True
    have le: "c_position c \<le> ?k"
    proof (cases "slice_insertion_id s = fst (c_position c)")
      case True2: True
      then show ?thesis using True by (cases "c_position c") (auto simp: slice_from_key_def less_eq_prod_def)
    next
      case False
      then have "fst (c_position c) < slice_insertion_id s" using c(7) fk by (auto simp: order_le_less)
      then show ?thesis by (cases "c_position c") (auto simp: slice_from_key_def less_eq_prod_def)
    qed
    let ?p = "takeWhile (\<lambda>i. insertion_key i < ?k) post" and ?q = "dropWhile (\<lambda>i. insertion_key i < ?k) post"
    have sc: "seek_scan insertion_dim insertion_sum (cmp_of ?k) Left pre post = (pre @ ?p, ?q)"
      using ins.key_scan[OF c(2), of "cmp_of ?k" Left] by (simp add: ins.passes_Left_key)
    have nl: "cmp_of ?k (dpos insertion_dim insertion_sum pre) \<noteq> Less" using le c(3) by (auto simp: cmp_of_def)
    obtain c' where c': "map_option snd (cursor_seek_forward insertion_dim (cmp_of ?k) Left c) = Some c'"
      "cursor_at insertion_dim insertion_sum c' (pre @ ?p) ?q"
      using ins.cursor_seek_forward_ok[OF c(1,2) ins.key_target_mono[OF c(2) ins.cmp_of_anti] nl sc] by auto
    have "ins_sorted post" using c(2) by (simp add: key_sorted_append)
    then have q: "\<forall>i \<in> set ?q. ?k \<le> insertion_key i" using key_sorted_split(2)[of insertion_key "\<lambda>_. True" post ?k] by auto
    have p: "\<forall>i \<in> set ?p. insertion_key i < ?k" using set_takeWhileD by fastforce
    have "fst (dpos insertion_dim insertion_sum (pre @ ?p)) \<le> slice_insertion_id s"
    proof (cases "?p = []")
      case True
      then show ?thesis using c(3,7) fk by simp
    next
      case False
      then have "insertion_key (last ?p) < ?k" using p last_in_set by blast
      then show ?thesis using False by (auto simp: dpos_insertions slice_from_key_def less_prod_def)
    qed
    moreover have "(if slice_insertion_id s \<noteq> fst (c_position c) \<or> snd (c_position c) < sl_start s
        then map_option snd (cursor_seek_forward insertion_dim (cmp_of (slice_insertion_id s, sl_start s)) Left c)
        else Some c) = Some c'" using True c'(1) by (simp add: slice_from_key_def)
    moreover have "(pre @ ?p) @ ?q = pre @ post" by simp
    moreover have "set xs \<subseteq> set (pre @ ?p)" "\<forall>i \<in> set (pre @ ?p) - set xs. insertion_key i < ?k" using c(5) lt p by auto
    ultimately show ?thesis using c'(2) c(4) q by blast
  next
    case False
    then have ge: "?k \<le> c_position c" by (cases "c_position c") (auto simp: slice_from_key_def less_eq_prod_def)
    have "pre \<noteq> []" using False ne c(3) by (auto simp: dpos_insertions)
    then have at: "cursor_at insertion_dim insertion_sum c pre post" using w by (simp add: collecting_def)
    have "?k \<le> insertion_key i" if "i \<in> set post" for i
    proof -
      have "dpos insertion_dim insertion_sum pre = insertion_key (last pre)" using \<open>pre \<noteq> []\<close> by (simp add: dpos_insertions)
      moreover have "insertion_key (last pre) < insertion_key i"
        using c(2) that \<open>pre \<noteq> []\<close> last_in_set[of pre] by (auto simp: key_sorted_def sorted_wrt_append)
      ultimately show ?thesis using ge c(3) by simp
    qed
    moreover have "fst (dpos insertion_dim insertion_sum pre) \<le> slice_insertion_id s" using c(3,7) fk by simp
    ultimately show ?thesis unfolding if_not_P[OF False] using at c(4,5) lt by blast
  qed
qed

lemma ins_sorted_split:
  assumes "ins_sorted (pre @ post)"
  shows "distinct (pre @ post)" "i \<in> set pre \<Longrightarrow> j \<in> set post \<Longrightarrow> insertion_key i < insertion_key j"
proof -
  have s: "sorted_wrt (\<lambda>i j. insertion_key i < insertion_key j) (pre @ post)" using assms by (simp add: key_sorted_def)
  have "sorted_wrt (\<lambda>i j. insertion_key i < insertion_key j) xs \<Longrightarrow> distinct xs" for xs
    by (induction xs) auto
  then show "distinct (pre @ post)" using s by blast
  show "i \<in> set pre \<Longrightarrow> j \<in> set post \<Longrightarrow> insertion_key i < insertion_key j" using s by (simp add: sorted_wrt_append)
qed

text \<open>The entries taken for a slice are those in it.\<close>

lemma taken_in_slice:
  assumes "ins_sorted post" "\<forall>i \<in> set post. slice_from_key s \<le> insertion_key i" "i \<in> set post" "in_slice s i"
  shows "i \<in> set (takeWhile (\<lambda>i. if_timestamp i = slice_insertion_id s \<and> if_split_offset i < sl_end s) post)"
  using assms(1-3)
proof (induction post)
  case (Cons j post)
  show ?case
  proof (cases "i = j")
    case True
    then show ?thesis using assms(4) by (simp add: in_slice_def)
  next
    case False
    then have i: "i \<in> set post" using Cons.prems(3) by simp
    then have "insertion_key j < insertion_key i" using Cons.prems(1) by (simp add: key_sorted_Cons)
    moreover have "slice_from_key s \<le> insertion_key j" using Cons.prems(2) by simp
    ultimately have "if_timestamp j = slice_insertion_id s" "if_split_offset j < sl_end s"
      using assms(4) by (auto simp: insertion_key_def slice_from_key_def in_slice_def less_prod_def less_eq_prod_def)
    moreover have "ins_sorted post" using Cons.prems(1) by (simp add: key_sorted_Cons)
    ultimately show ?thesis using Cons.IH Cons.prems(2) i by simp
  qed
qed simp

lemma collect_step:
  assumes w: "collecting c pre post xs k" and k: "k \<le> slice_from_key s" and ne: "slice_insertion_id s \<noteq> LAMPORT_MIN"
  shows "\<exists>c1 c2 pre2 post2 ys. (if slice_insertion_id s \<noteq> fst (c_position c) \<or> snd (c_position c) < sl_start s
       then map_option snd (cursor_seek_forward insertion_dim (cmp_of (slice_insertion_id s, sl_start s)) Left c)
       else Some c) = Some c1 \<and> collect_slice_ids s c1 ids = Some (c2, ids @ map if_fragment_id ys) \<and>
     collecting c2 pre2 post2 (xs @ ys) (slice_from_key s) \<and> pre2 @ post2 = pre @ post \<and>
     (\<forall>i \<in> set (pre @ post). in_slice s i \<longrightarrow> i \<in> set (xs @ ys))"
proof -
  let ?P = "\<lambda>i. if_timestamp i = slice_insertion_id s \<and> if_split_offset i < sl_end s"
  let ?k = "slice_from_key s"
  obtain c1 pre1 post1 where 1: "(if slice_insertion_id s \<noteq> fst (c_position c) \<or> snd (c_position c) < sl_start s
       then map_option snd (cursor_seek_forward insertion_dim (cmp_of (slice_insertion_id s, sl_start s)) Left c)
       else Some c) = Some c1" "pre1 @ post1 = pre @ post" "cursor_at insertion_dim insertion_sum c1 pre1 post1"
    "distinct xs" "set xs \<subseteq> set pre1" "\<forall>i \<in> set pre1 - set xs. insertion_key i < ?k"
    "\<forall>i \<in> set post1. ?k \<le> insertion_key i" "fst (dpos insertion_dim insertion_sum pre1) \<le> slice_insertion_id s"
    using seek_slice_ok[OF w k ne] by blast
  have srt: "ins_sorted (pre1 @ post1)" using w 1(2) by (simp add: collecting_def)
  then have srt1: "ins_sorted post1" by (simp add: key_sorted_append)
  let ?ys = "takeWhile ?P post1" and ?zs = "dropWhile ?P post1"
  obtain c2 where 2: "collect_slice_ids s c1 ids = Some (c2, ids @ map if_fragment_id ?ys)"
    "cursor_at insertion_dim insertion_sum c2 (pre1 @ ?ys) ?zs"
    using collect_slice_ids_ok[OF 1(3) srt refl, of s ids] by blast
  have items: "(pre1 @ ?ys) @ ?zs = pre @ post" using 1(2) by simp
  have d: "distinct (pre1 @ ?ys @ ?zs)" using ins_sorted_split(1)[OF srt] by simp
  have "set xs \<inter> set ?ys = {}" using ins_sorted_split(1)[OF srt] 1(5) set_takeWhileD by fastforce
  then have "distinct (xs @ ?ys)" using d 1(4) by simp
  moreover have "set (xs @ ?ys) \<subseteq> set (pre1 @ ?ys)" "\<forall>i \<in> set (pre1 @ ?ys) - set (xs @ ?ys). insertion_key i < ?k"
    using 1(5,6) by auto
  moreover have "fst (dpos insertion_dim insertion_sum (pre1 @ ?ys)) \<le> slice_insertion_id s"
  proof (cases "?ys = []")
    case True
    then show ?thesis using 1(8) by simp
  next
    case False
    then have "last ?ys \<in> set ?ys" by simp
    then have "if_timestamp (last ?ys) = slice_insertion_id s" using set_takeWhileD by fastforce
    then show ?thesis using False by (simp add: dpos_insertions insertion_key_def)
  qed
  ultimately have "collecting c2 (pre1 @ ?ys) ?zs (xs @ ?ys) ?k"
    using 2(2) srt by (simp add: collecting_def cursor_ready_def cursor_at_def slice_from_key_def)
  moreover have "i \<in> set (xs @ ?ys)" if "i \<in> set (pre @ post)" "in_slice s i" for i
  proof (cases "i \<in> set pre1")
    case True
    have "?k \<le> insertion_key i" using that(2) by (auto simp: in_slice_def slice_from_key_def insertion_key_def less_eq_prod_def)
    then show ?thesis using True 1(6) by (auto simp: not_less[symmetric])
  next
    case False
    then have "i \<in> set post1" using that(1) 1(2) by (metis Un_iff set_append)
    then show ?thesis using taken_in_slice[OF srt1 1(7) _ that(2)] by simp
  qed
  ultimately show ?thesis using 1(1) 2(1) items by blast
qed

lemma collect_ids_ok:
  assumes "collecting c pre post xs k" "sorted_wrt (\<lambda>s t. slice_from_key s \<le> slice_from_key t) ss"
    "\<forall>s \<in> set ss. k \<le> slice_from_key s \<and> slice_insertion_id s \<noteq> LAMPORT_MIN"
  shows "\<exists>ys. collect_ids ss c ids = Some (ids @ map if_fragment_id ys) \<and> distinct (xs @ ys) \<and> set ys \<subseteq> set (pre @ post) \<and>
    (\<forall>s \<in> set ss. \<forall>i \<in> set (pre @ post). in_slice s i \<longrightarrow> i \<in> set (xs @ ys))"
  using assms
proof (induction ss arbitrary: c pre post xs k ids)
  case Nil
  have "distinct xs" using Nil.prems(1) by (simp add: collecting_def)
  then show ?case by (intro exI[of _ "[]"]) simp
next
  case (Cons s ss)
  have ks: "k \<le> slice_from_key s" "slice_insertion_id s \<noteq> LAMPORT_MIN" using Cons.prems(3) by simp_all
  obtain c1 c2 pre2 post2 ys where 1: "(if slice_insertion_id s \<noteq> fst (c_position c) \<or> snd (c_position c) < sl_start s
       then map_option snd (cursor_seek_forward insertion_dim (cmp_of (slice_insertion_id s, sl_start s)) Left c)
       else Some c) = Some c1" "collect_slice_ids s c1 ids = Some (c2, ids @ map if_fragment_id ys)"
     "collecting c2 pre2 post2 (xs @ ys) (slice_from_key s)" "pre2 @ post2 = pre @ post"
     "\<forall>i \<in> set (pre @ post). in_slice s i \<longrightarrow> i \<in> set (xs @ ys)"
    using collect_step[OF Cons.prems(1) ks] by blast
  have "sorted_wrt (\<lambda>s t. slice_from_key s \<le> slice_from_key t) ss"
    "\<forall>t \<in> set ss. slice_from_key s \<le> slice_from_key t \<and> slice_insertion_id t \<noteq> LAMPORT_MIN"
    using Cons.prems(2,3) by simp_all
  from Cons.IH[OF 1(3) this, of "ids @ map if_fragment_id ys"]
  obtain zs where zs: "collect_ids ss c2 (ids @ map if_fragment_id ys) = Some ((ids @ map if_fragment_id ys) @ map if_fragment_id zs)"
    "distinct ((xs @ ys) @ zs)" "set zs \<subseteq> set (pre2 @ post2)"
    "\<forall>s \<in> set ss. \<forall>i \<in> set (pre2 @ post2). in_slice s i \<longrightarrow> i \<in> set ((xs @ ys) @ zs)" by blast
  have ys: "set ys \<subseteq> set (pre @ post)" using 1(3) unfolding 1(4)[symmetric] by (auto simp: collecting_def)
  have "collect_ids (s # ss) c ids = Some (ids @ map if_fragment_id (ys @ zs))" using 1(1,2) zs(1) by simp
  moreover have "set (ys @ zs) \<subseteq> set (pre @ post)" using ys zs(3) unfolding 1(4) by simp
  moreover have "\<forall>t \<in> set (s # ss). \<forall>i \<in> set (pre @ post). in_slice t i \<longrightarrow> i \<in> set (xs @ ys @ zs)"
    using 1(5) zs(4) unfolding 1(4) by auto
  ultimately show ?case using zs(2) by (intro exI[of _ "ys @ zs"]) simp
qed

section \<open>All of them\<close>

lemma sort_key_from: "sorted_wrt (\<lambda>s t. slice_from_key s \<le> slice_from_key t) (sort_key slice_sort_key ss)"
proof -
  have "sorted (map slice_sort_key (sort_key slice_sort_key ss))" by simp
  then have "sorted_wrt (\<lambda>s t. slice_sort_key s \<le> slice_sort_key t) (sort_key slice_sort_key ss)" by (simp add: sorted_wrt_map)
  then show ?thesis
    by (rule sorted_wrt_mono_rel[rotated]) (auto simp: slice_sort_key_def slice_from_key_def less_eq_prod_def)
qed

lemma fragment_ids_ok:
  assumes ok: "snapshot_ok ins b" and room: "snapshot_room b"
  shows "\<exists>ids. fragment_ids_for_edits b ds = Some ids \<and> sorted_wrt (<) ids \<and>
    set ids \<subseteq> fr_id ` set (tree_items (bs_fragments b)) \<and>
    (\<forall>f \<in> set (tree_items (bs_fragments b)). changes_of f \<inter> set ds \<noteq> {} \<longrightarrow> fr_id f \<in> set ids)"
proof -
  let ?fs = "tree_items (bs_fragments b)" and ?S = "bs_insertion_slices b" and ?I = "bs_insertions b"
  have b: "ids_ok ?fs" "frags_ok ins (ts_elems ?S) (bs_undo_map b) (bs_version b) ?fs"
    "set (tree_items ?I) = insertion_fragment_new ` set ?fs" "wf_tree insertion_sum ?I" "ins_sorted (tree_items ?I)" "tm_inv ?S"
    "\<forall>s \<in> ts_elems ?S. sl_insertion_value s \<noteq> 0"
    using ok by (simp_all add: snapshot_ok_def Let_def)
  have rm: "height ?I < STACK_CAP" "tm_room ?S" using room by (simp_all add: snapshot_room_def)
  obtain ss where ss: "all_edit_slices ?S ds = Some ss" "set ss = {s \<in> ts_elems ?S. slice_edit_id s \<in> set ds}"
    using all_edit_slices_ok[OF b(6) rm(2)] by blast
  let ?c = "cursor_new insertion_dim ?I"
  have "cursor_ready insertion_dim insertion_sum ?c [] (tree_items ?I)" by (rule ins.key_start[OF b(4) rm(1)])
  then have w: "collecting ?c [] (tree_items ?I) [] (LAMPORT_MIN, 0)"
    using b(5) by (simp add: collecting_def cursor_new_def dpos_insertions) (simp add: insertion_dim_def)
  have "LAMPORT_MIN \<noteq> slice_insertion_id s" if "s \<in> set ss" for s
    using b(7) ss(2) that by (auto simp: slice_insertion_id_def LAMPORT_MIN_def)
  then have k: "\<forall>s \<in> set (sort_key slice_sort_key ss). (LAMPORT_MIN, 0) \<le> slice_from_key s \<and> slice_insertion_id s \<noteq> LAMPORT_MIN"
    using LAMPORT_MIN_least by (fastforce simp: slice_from_key_def less_eq_prod_def order_le_less)
  obtain ys where ys: "collect_ids (sort_key slice_sort_key ss) ?c [] = Some (map if_fragment_id ys)" "distinct ys"
    "set ys \<subseteq> set (tree_items ?I)" "\<forall>s \<in> set ss. \<forall>i \<in> set (tree_items ?I). in_slice s i \<longrightarrow> i \<in> set ys"
    using collect_ids_ok[OF w sort_key_from k, of "[]"] by auto
  have inj: "inj_on fr_id (set ?fs)"
  proof -
    have "sorted_wrt (<) (map fr_id ?fs)" using b(1) by (simp add: ids_ok_def sorted_wrt_map)
    then have "distinct (map fr_id ?fs)" by (simp add: strict_sorted_iff)
    then show ?thesis by (simp add: distinct_map)
  qed
  have "inj_on if_fragment_id (insertion_fragment_new ` set ?fs)"
    using inj by (auto simp: inj_on_def insertion_fragment_new_def)
  then have "inj_on if_fragment_id (set ys)" using ys(3) b(3) by (auto intro: inj_on_subset)
  then have "distinct (map if_fragment_id ys)" using ys(2) by (simp add: distinct_map)
  then have "sorted_wrt (<) (sort (map if_fragment_id ys))" by (simp add: strict_sorted_iff)
  moreover have "set (sort (map if_fragment_id ys)) \<subseteq> fr_id ` set ?fs"
    using ys(3) b(3) by (auto simp: insertion_fragment_new_def)
  moreover have "fr_id f \<in> set (sort (map if_fragment_id ys))" if f: "f \<in> set ?fs" "changes_of f \<inter> set ds \<noteq> {}" for f
  proof -
    obtain d where d: "d \<in> changes_of f" "d \<in> set ds" using f(2) by blast
    have snd: "sound ins (ts_elems ?S) (bs_undo_map b) (bs_version b) f" using b(2) f(1) by (simp add: frags_ok_def)
    then have "covered (ts_elems ?S) d f" using d(1) by (simp add: sound_def)
    then obtain s where s: "s \<in> ts_elems ?S" "slice_edit_id s = d" "slice_insertion_id s = fr_timestamp f"
      "sl_start s \<le> fr_insertion_offset f" "fr_insertion_offset f + fr_len f \<le> sl_end s" by (auto simp: covered_def)
    have "0 < fr_len f" using snd by (simp add: sound_def)
    then have "in_slice s (insertion_fragment_new f)" using s by (simp add: in_slice_def insertion_fragment_new_def)
    moreover have "s \<in> set ss" using s(1,2) d(2) ss(2) by simp
    moreover have "insertion_fragment_new f \<in> set (tree_items ?I)" using f(1) b(3) by simp
    ultimately have "insertion_fragment_new f \<in> set ys" using ys(4) by blast
    then show ?thesis by (force simp: insertion_fragment_new_def)
  qed
  ultimately show ?thesis using ss(1) ys(1) by (simp add: fragment_ids_for_edits_def)
qed

end
