(* ===== verification/UndoWalk.thy ===== *)
theory UndoWalk
  imports UndoIds BufferWalk
begin

text \<open>The walk of an undo operation over the fragments.\<close>

section \<open>Refreshed fragments\<close>

definition shown :: "undo_map \<Rightarrow> fragment \<Rightarrow> bool" where
  "shown u f \<longleftrightarrow> fragment_is_visible f u = Some True"

definition text_under :: "insertions \<Rightarrow> undo_map \<Rightarrow> fragment list \<Rightarrow> str" where
  "text_under ins u fs = concat (map (fstr ins) (filter (shown u) fs))"

definition refreshed :: "undo_map \<Rightarrow> lamport \<Rightarrow> locator set \<Rightarrow> fragment \<Rightarrow> fragment" where
  "refreshed u ts I f = (if fr_id f \<in> I
     then f\<lparr>fr_visible := shown u f, fr_max_undos := global_observe (fr_max_undos f) ts\<rparr> else f)"

lemma refreshed_sel [simp]:
  "fr_id (refreshed u ts I f) = fr_id f" "fr_timestamp (refreshed u ts I f) = fr_timestamp f"
  "fr_insertion_offset (refreshed u ts I f) = fr_insertion_offset f" "fr_len (refreshed u ts I f) = fr_len f"
  "fr_deletions (refreshed u ts I f) = fr_deletions f"
  "fr_visible (refreshed u ts I f) = (if fr_id f \<in> I then shown u f else fr_visible f)"
  "fr_max_undos (refreshed u ts I f) = (if fr_id f \<in> I then global_observe (fr_max_undos f) ts else fr_max_undos f)"
  by (simp_all add: refreshed_def)

lemma refreshed_wf [simp]: "frag_wf f \<Longrightarrow> frag_wf (refreshed u ts I f)"
  by (simp add: frag_wf_def wf_global_observe)

lemma refreshed_str [simp]:
  "frag_str ins (refreshed u ts I f) = frag_str ins f" "fstr ins (refreshed u ts I f) = fstr ins f"
  using frag_str_cong[of "refreshed u ts I f" f] by simp_all

lemma refreshed_readable [simp]: "readable ins (map (refreshed u ts I) fs) \<longleftrightarrow> readable ins fs"
  by (simp add: readable_def)

lemma shown_cong: "fr_timestamp f = fr_timestamp g \<Longrightarrow> fr_deletions f = fr_deletions g \<Longrightarrow> shown u f = shown u g"
  using fragment_is_visible_cong[of f g u] by (simp add: shown_def)

lemma text_under_map:
  "text_under ins v (map (refreshed u ts I) fs) = text_under ins v fs"
proof -
  have "shown v (refreshed u ts I f) = shown v f" for f by (rule shown_cong) simp_all
  then show ?thesis by (induction fs) (simp_all add: text_under_def)
qed

lemma text_under_flags: "\<forall>f \<in> set fs. fr_visible f = shown u f \<Longrightarrow> text_under ins u fs = vtext ins fs"
  by (induction fs) (auto simp: text_under_def)

text \<open>Under an undo map that fits a cursor, every fragment has a visibility.\<close>

lemma all_undone_total: "um_inv u \<Longrightarrow> \<exists>b. all_undone (um_is_undone u) ds = Some b"
  by (induction ds) (auto simp: um_counts_ok(2))

lemma is_visible_total: "um_inv u \<Longrightarrow> fragment_is_visible f u = Some (shown u f)"
  using all_undone_total[of u "fr_deletions f"] by (auto simp: shown_def fragment_is_visible_def um_counts_ok(2))

section \<open>Seeking a locator\<close>

lemma dpos_undo_pair: "dpos undo_dim_pair fragment_sum xs = (if xs = [] then None else Some (fr_id (last xs)), vis_len xs)"
  by (simp add: dpos_pair dpos_locator dpos_visible)

lemma locator_mono:
  assumes "ids_ok fs"
  shows "mono_target undo_dim_pair fragment_sum (locator_target i) fs"
  unfolding mono_target_def
proof (intro allI impI)
  fix p q r assume a: "fs = p @ q @ r \<and> p \<noteq> []"
  then have "fr_id (last p) \<le> fr_id (last (p @ q))"
  proof (cases "q = []")
    case False
    then have "last p \<in> set p" "last q \<in> set q" using a by simp_all
    then have "fr_id (last p) < fr_id (last q)" using a assms by (auto simp: ids_ok_def sorted_wrt_append)
    then show ?thesis using False by simp
  qed simp
  then show "cmp_rank (locator_target i (dpos undo_dim_pair fragment_sum (p @ q)))
      \<le> cmp_rank (locator_target i (dpos undo_dim_pair fragment_sum p))"
    using a by (auto simp: dpos_undo_pair locator_target_def cmp_of_def)
qed

lemma locator_scan:
  "ids_ok (pre @ xs @ f # rest) \<Longrightarrow> fr_id f = i \<Longrightarrow>
   seek_scan undo_dim_pair fragment_sum (locator_target i) Left pre (xs @ f # rest) = (pre @ xs, f # rest)"
proof (induction xs arbitrary: pre)
  case Nil
  then show ?case by (simp add: seek_scan_def passed_def passes_def dpos_undo_pair locator_target_def)
next
  case (Cons x xs)
  have "fr_id x < i" using Cons.prems by (simp add: ids_ok_def sorted_wrt_append)
  then have "passed undo_dim_pair fragment_sum (locator_target i) Left (pre @ [x])"
    by (auto simp: passed_def passes_def dpos_undo_pair locator_target_def cmp_of_def)
  then show ?case using Cons.IH[of "pre @ [x]"] Cons.prems by (simp add: seek_scan_def)
qed

section \<open>The invariant of the walk\<close>

definition undoing ::
  "insertions \<Rightarrow> str \<Rightarrow> str \<Rightarrow> str \<Rightarrow> (fragment \<Rightarrow> fragment) \<Rightarrow> fragment_tree \<Rightarrow> undo_state
   \<Rightarrow> fragment list \<Rightarrow> fragment list \<Rightarrow> bool" where
  "undoing ins V D B new t st pre post \<longleftrightarrow>
     cursor_ready undo_dim_pair fragment_sum (us_cursor st) pre post \<and> c_tree (us_cursor st) = t \<and> pre @ post = tree_items t \<and>
     wf_tree fragment_sum (us_fragments st) \<and> tree_items (us_fragments st) = map new pre \<and>
     ropes_at ins (us_ropes st) V D (map new pre) post \<and>
     patched V B (us_patch st) (vis_len pre) (vis_len (map new pre))"

definition undo_base ::
  "insertions \<Rightarrow> str \<Rightarrow> str \<Rightarrow> str \<Rightarrow> (fragment \<Rightarrow> fragment) \<Rightarrow> fragment list \<Rightarrow> bool" where
  "undo_base ins V D B new fs \<longleftrightarrow> ids_ok fs \<and> frags_wf fs \<and> readable ins fs \<and> V = vtext ins fs \<and> D = dtext ins fs \<and>
     B = vtext ins (map new fs) \<and> (\<forall>f. frag_wf f \<longrightarrow> frag_wf (new f)) \<and>
     (\<forall>f. frag_str ins (new f) = frag_str ins f \<and> fstr ins (new f) = fstr ins f \<and> fr_len (new f) = fr_len f)"

lemma undo_baseD:
  assumes "undo_base ins V D B new fs" "fs = pre @ post"
  shows "ids_ok (pre @ post)" "frags_wf (pre @ post)" "readable ins (pre @ post)" "frags_wf (map new (pre @ post))"
    "readable ins (map new (pre @ post))" "V = vtext ins pre @ vtext ins post" "B = vtext ins (map new pre) @ vtext ins (map new post)"
    "fstr ins (new f) = fstr ins f" "frag_str ins (new f) = frag_str ins f" "fr_len (new f) = fr_len f"
  using assms by (auto simp: undo_base_def readable_def list_all_iff)

text \<open>A piece in which nothing changes.\<close>

lemma undo_append_ok:
  assumes base: "undo_base ins V D B new (tree_items t)" and w: "undoing ins V D B new t st pre (xs @ post)"
    and p: "wf_tree fragment_sum p" "tree_items p = xs" "\<forall>f \<in> set xs. new f = f"
    and c: "cursor_at undo_dim_pair fragment_sum c (pre @ xs) post" "c_tree c = t"
  shows "\<exists>st'. undo_append p (st\<lparr>us_cursor := c\<rparr>) = Some st' \<and> us_cursor st' = c \<and> undoing ins V D B new t st' (pre @ xs) post"
proof -
  have wk: "pre @ xs @ post = tree_items t" "wf_tree fragment_sum (us_fragments st)" "tree_items (us_fragments st) = map new pre"
    "ropes_at ins (us_ropes st) V D (map new pre) (xs @ post)" "patched V B (us_patch st) (vis_len pre) (vis_len (map new pre))"
    using w by (simp_all add: undoing_def)
  note b = undo_baseD[OF base wk(1)[symmetric]]
  have mx: "map new xs = xs" using p(3) by (simp add: map_idI)
  have rx: "readable ins xs" "readable ins pre" "readable ins (map new pre)" using b(3,5) by simp_all
  obtain ropes where ro: "rb_append (us_ropes st) \<lparr>ft_visible = vis_len xs, ft_deleted = del_len xs\<rparr> = Some ropes"
    "ropes_at ins ropes V D (map new pre @ xs) post" using rb_append_ok[OF wk(4) rx(1)] by blast
  obtain u where u: "stree_append fragment_sum (us_fragments st) p = Some u" "wf_tree fragment_sum u"
    "tree_items u = map new pre @ xs"
    using frags.stree_append_ok[OF wk(2) p(1)] wk(3) p(2) b(4) mx by auto
  have sm: "fs_text (summary p) = \<lparr>ft_visible = vis_len xs, ft_deleted = del_len xs\<rparr>"
    using wf_tree_summary[OF p(1)] p(2) by (simp add: sumof_frags_text)
  have "patched V B (us_patch st) (str_len (vtext ins pre) + str_len (vtext ins xs)) (str_len (vtext ins (map new pre)) + str_len (vtext ins xs))"
    using wk(5) b(6,7) mx str_len_texts(1)[OF rx(2)] str_len_texts(1)[OF rx(3)]
    by (intro patched_keep[where b = "vtext ins post" and d = "vtext ins (map new post)"]) simp_all
  then have pat: "patched V B (us_patch st) (vis_len (pre @ xs)) (vis_len (map new (pre @ xs)))"
    using mx str_len_texts(1)[OF rx(1)] str_len_texts(1)[OF rx(2)] str_len_texts(1)[OF rx(3)] by simp
  let ?st = "st\<lparr>us_cursor := c, us_ropes := ropes, us_fragments := u\<rparr>"
  have "undo_append p (st\<lparr>us_cursor := c\<rparr>) = Some ?st" using ro(1) u(1) sm by (simp add: undo_append_def)
  moreover have "undoing ins V D B new t ?st (pre @ xs) post"
    using c wk(1) u(2,3) ro(2) pat mx by (simp add: undoing_def cursor_ready_def)
  ultimately show ?thesis by (intro exI[of _ ?st]) simp
qed

text \<open>The fragment whose visibility is set anew.\<close>

lemma undo_fragment_ok:
  assumes base: "undo_base ins V D B (refreshed u (uo_timestamp undo) I) (tree_items t)"
    and w: "undoing ins V D B (refreshed u (uo_timestamp undo) I) t st pre (f # post)"
    and c: "cursor_at undo_dim_pair fragment_sum (us_cursor st) pre (f # post)" and f: "fr_id f \<in> I" and u: "um_inv u"
  shows "\<exists>st'. undo_fragment undo u f st = Some st' \<and> undoing ins V D B (refreshed u (uo_timestamp undo) I) t st' (pre @ [f]) post
    \<and> cursor_at undo_dim_pair fragment_sum (us_cursor st') (pre @ [f]) post"
proof -
  let ?new = "refreshed u (uo_timestamp undo) I"
  have wk: "pre @ f # post = tree_items t" "wf_tree fragment_sum (us_fragments st)" "tree_items (us_fragments st) = map ?new pre"
    "ropes_at ins (us_ropes st) V D (map ?new pre) (f # post)" "patched V B (us_patch st) (vis_len pre) (vis_len (map ?new pre))"
    "c_tree (us_cursor st) = t"
    using w by (simp_all add: undoing_def)
  note b = undo_baseD[OF base wk(1)[symmetric]]
  have rx: "readable ins pre" "readable ins (map ?new pre)" "frag_str ins f \<noteq> None" using b(3,5) by simp_all
  have g: "f\<lparr>fr_visible := shown u f, fr_max_undos := global_observe (fr_max_undos f) (uo_timestamp undo)\<rparr> = ?new f"
    using f by (simp add: refreshed_def)
  have vis: "fr_visible (?new f) = shown u f" using f by simp
  obtain ropes where ro: "rb_push_fragment (us_ropes st) (?new f) (fr_visible f) = Some ropes"
    "ropes_at ins ropes V D (map ?new pre @ [?new f]) post"
    using rb_push_fragment_ok[OF wk(4) rx(3), of "?new f"] by auto
  obtain tr where tr: "stree_push fragment_sum (us_fragments st) (?new f) = Some tr" "wf_tree fragment_sum tr"
    "tree_items tr = map ?new pre @ [?new f]"
    using frags.stree_push_ok[OF wk(2), of "?new f"] wk(3) b(4) by auto
  obtain c' where c': "cursor_next undo_dim_pair (us_cursor st) = Some c'" "c_tree c' = t"
    "cursor_at undo_dim_pair fragment_sum c' (pre @ [f]) post"
    using loc_vis.cursor_next_at_ok[OF c b(2)] wk(6) by auto
  have pos: "snd (c_position (us_cursor st)) = vis_len pre" using c by (simp add: cursor_at_def dpos_undo_pair)
  have ns: "ft_visible (fs_text (summary (us_fragments st))) = vis_len (map ?new pre)"
    using wf_tree_summary[OF wk(2)] wk(3) by (simp add: sumof_frags_text)
  define p where "p = (if fr_visible f \<and> \<not> shown u f
        then patch_push (us_patch st) \<lparr>old_start = vis_len pre, old_end = vis_len pre + fr_len f,
          new_start = vis_len (map ?new pre), new_end = vis_len (map ?new pre)\<rparr>
        else if \<not> fr_visible f \<and> shown u f
        then patch_push (us_patch st) \<lparr>old_start = vis_len pre, old_end = vis_len pre,
          new_start = vis_len (map ?new pre), new_end = vis_len (map ?new pre) + fr_len f\<rparr>
        else us_patch st)"
  have l: "str_len (fstr ins f) = fr_len f" by (rule str_len_fstr[OF rx(3)])
  note sl = str_len_texts(1)[OF rx(1)] str_len_texts(1)[OF rx(2)]
  have pat: "patched V B p (vis_len (pre @ [f])) (vis_len (map ?new (pre @ [f])))"
  proof (cases "fr_visible f = shown u f")
    case False
    have "vis_len (pre @ [f]) \<le> str_len V" "vis_len (map ?new (pre @ [f])) \<le> str_len B"
      using b(6,7) sl l vis by simp_all
    then show ?thesis using patched_push[OF wk(5), of "vis_len (pre @ [f])" "vis_len (map ?new (pre @ [f]))"] False vis f
      by (auto simp: p_def)
  next
    case same: True
    show ?thesis
    proof (cases "shown u f")
      case True
      have "patched V B (us_patch st) (str_len (vtext ins pre) + str_len (fstr ins f)) (str_len (vtext ins (map ?new pre)) + str_len (fstr ins f))"
        using wk(5) b(6,7) sl same True f
        by (intro patched_keep[where b = "vtext ins post" and d = "vtext ins (map ?new post)"]) simp_all
      then show ?thesis using same True sl l f by (simp add: p_def)
    qed (use wk(5) same f in \<open>simp add: p_def\<close>)
  qed
  let ?st = "\<lparr>us_cursor = c', us_fragments = tr, us_ropes = ropes, us_patch = p\<rparr>"
  have "undo_fragment undo u f st = Some ?st"
    unfolding undo_fragment_def is_visible_total[OF u] Let_def bind.bind_lunit g pos ns
    using ro(1) tr(1) c'(1) by (simp add: p_def)
  moreover have "undoing ins V D B ?new t ?st (pre @ [f]) post"
    using c' wk(1) tr(2,3) ro(2) pat by (simp add: undoing_def cursor_ready_def)
  ultimately show ?thesis using c'(3) by (intro exI[of _ ?st]) simp
qed

end
