(* ===== verification/UndoProps.thy ===== *)
theory UndoProps
  imports UndoWalk BufferEditing
begin

text \<open>
  An undo operation shows exactly the fragments that the undo map, with the counts of the
  operation, makes visible, and keeps the invariant.
\<close>

section \<open>The loop\<close>

lemma ids_ok_tail: "ids_ok (pre @ xs @ f # post) \<Longrightarrow> g \<in> set pre \<or> g \<in> set xs \<Longrightarrow> fr_id g < fr_id f"
  by (auto simp: ids_ok_def sorted_wrt_append)

lemma undo_step_ok:
  assumes base: "undo_base ins V D B (refreshed u (uo_timestamp undo) I) (tree_items t)"
    and w: "undoing ins V D B (refreshed u (uo_timestamp undo) I) t st pre post" and u: "um_inv u"
    and i: "i \<in> I" "\<exists>f \<in> set post. fr_id f = i" "\<forall>f \<in> set post. fr_id f \<in> I \<longrightarrow> i \<le> fr_id f" "\<forall>f \<in> set pre. fr_id f < i"
  shows "\<exists>st' xs f post'. undo_loop undo u (i # is) st = undo_loop undo u is st' \<and> post = xs @ f # post' \<and> fr_id f = i \<and>
    undoing ins V D B (refreshed u (uo_timestamp undo) I) t st' (pre @ xs @ [f]) post'"
proof -
  let ?new = "refreshed u (uo_timestamp undo) I"
  obtain xs f post' where post: "post = xs @ f # post'" "fr_id f = i" using i(2) by (metis split_list)
  have wk: "cursor_ready undo_dim_pair fragment_sum (us_cursor st) pre (xs @ f # post')" "c_tree (us_cursor st) = t"
    "pre @ xs @ f # post' = tree_items t" using w by (simp_all add: undoing_def post(1))
  note b = undo_baseD[OF base wk(3)[symmetric]]
  have lt: "\<forall>x \<in> set xs. fr_id x < i" using ids_ok_tail[OF b(1)] post(2) by blast
  have "\<forall>x \<in> set xs. fr_id x \<notin> I" using lt i(3) post(1) by (auto simp: not_less[symmetric])
  then have same: "\<forall>x \<in> set xs. ?new x = x" by (simp add: refreshed_def)
  have nl: "locator_target i (dpos undo_dim_pair fragment_sum pre) \<noteq> Less"
  proof (cases "pre = []")
    case False
    then have "fr_id (last pre) < i" using i(4) by simp
    then show ?thesis using False by (auto simp: dpos_undo_pair locator_target_def cmp_of_def)
  qed (simp add: dpos_undo_pair locator_target_def)
  obtain p c where p: "cursor_slice fragment_sum undo_dim_pair (locator_target i) Left (us_cursor st) = Some (p, c)"
    "wf_tree fragment_sum p" "xs = tree_items p" "cursor_at undo_dim_pair fragment_sum c (pre @ xs) (f # post')" "c_tree c = t"
    using loc_vis.cursor_slice_ok[OF wk(1) b(2) locator_mono[OF b(1)] nl locator_scan[OF b(1) post(2)]] wk(2) by auto
  obtain st1 where 1: "undo_append p (st\<lparr>us_cursor := c\<rparr>) = Some st1" "us_cursor st1 = c"
    "undoing ins V D B ?new t st1 (pre @ xs) (f # post')"
    using undo_append_ok[OF base w[unfolded post(1)] p(2) p(3)[symmetric] same p(4,5)] by blast
  have c1: "cursor_at undo_dim_pair fragment_sum (us_cursor st1) (pre @ xs) (f # post')" using p(4) 1(2) by simp
  obtain st2 where 2: "undo_fragment undo u f st1 = Some st2" "undoing ins V D B ?new t st2 ((pre @ xs) @ [f]) post'"
    using undo_fragment_ok[OF base 1(3) c1 _ u] i(1) post(2) by blast
  have "undo_loop undo u (i # is) st = undo_loop undo u is st2"
    using p(1) 1(1,2) 2(1) cursor_item_ok(1)[OF c1] by simp
  then show ?thesis using post 2(2) by (intro exI[of _ st2] exI[of _ xs] exI[of _ f] exI[of _ post']) simp
qed

lemma undo_loop_ok:
  assumes base: "undo_base ins V D B (refreshed u (uo_timestamp undo) I) (tree_items t)" and u: "um_inv u"
  shows "undoing ins V D B (refreshed u (uo_timestamp undo) I) t st pre post \<Longrightarrow> sorted_wrt (<) is \<Longrightarrow> set is \<subseteq> I \<Longrightarrow>
    set is \<subseteq> fr_id ` set post \<Longrightarrow> \<forall>f \<in> set post. fr_id f \<in> I \<longrightarrow> fr_id f \<in> set is \<Longrightarrow>
    \<exists>st' pre' post'. undo_loop undo u is st = Some st' \<and>
      undoing ins V D B (refreshed u (uo_timestamp undo) I) t st' pre' post' \<and> (\<forall>f \<in> set post'. fr_id f \<notin> I)"
proof (induction "is" arbitrary: st pre post)
  case Nil
  then show ?case by auto
next
  case (Cons i "is")
  have ids: "ids_ok (pre @ post)" using undo_baseD(1)[OF base, of pre post] Cons.prems(1) by (simp add: undoing_def)
  have min: "\<forall>f \<in> set post. fr_id f \<in> I \<longrightarrow> i \<le> fr_id f" using Cons.prems(2,5) by (auto simp: less_imp_le)
  have ex: "\<exists>f \<in> set post. fr_id f = i" using Cons.prems(4) by auto
  then have "\<forall>f \<in> set pre. fr_id f < i" using ids by (auto simp: ids_ok_def sorted_wrt_append)
  moreover have "i \<in> I" using Cons.prems(3) by simp
  ultimately obtain st' xs f post' where s: "undo_loop undo u (i # is) st = undo_loop undo u is st'" "post = xs @ f # post'" "fr_id f = i"
    "undoing ins V D B (refreshed u (uo_timestamp undo) I) t st' (pre @ xs @ [f]) post'"
    using undo_step_ok[OF base Cons.prems(1) u _ ex min] by blast
  have srt: "sorted_wrt (<) is" "set is \<subseteq> I" "\<forall>j \<in> set is. i < j" using Cons.prems(2,3) by simp_all
  have lt: "\<forall>x \<in> set xs. fr_id x < i" "\<forall>x \<in> set post'. i < fr_id x"
    using ids s(2,3) by (auto simp: ids_ok_def sorted_wrt_append)
  have "set is \<subseteq> fr_id ` set post'"
  proof
    fix j assume j: "j \<in> set is"
    then have "j \<in> fr_id ` set post" "i < j" using Cons.prems(4) srt(3) by auto
    then show "j \<in> fr_id ` set post'" using s(2,3) lt(1) by (auto dest: less_asym)
  qed
  moreover have "\<forall>g \<in> set post'. fr_id g \<in> I \<longrightarrow> fr_id g \<in> set is"   proof (intro ballI impI)
    fix g assume g: "g \<in> set post'" "fr_id g \<in> I"
    then have "fr_id g \<in> set (i # is)" using Cons.prems(5) s(2) by simp
    moreover have "i < fr_id g" using lt(2) g(1) by blast
    ultimately show "fr_id g \<in> set is" by auto
  qed
  ultimately show ?case using Cons.IH[OF s(4) srt(1,2)] s(1) by simp
qed

section \<open>What the operation changes\<close>

lemma counts_other: "d \<notin> fst ` set (uo_counts undo) \<Longrightarrow> counts_of (f ++ undo_counts undo) d P = counts_of f d P"
proof -
  assume "d \<notin> fst ` set (uo_counts undo)"
  then have "undo_counts undo (d, t) = None" for t
    by (force simp: undo_counts_def map_of_eq_None_iff)
  then show ?thesis by (simp add: counts_of_def map_add_def)
qed

lemma is_undone_other:
  assumes "um_inv m" "um_inv u" "um_map u = um_map m ++ undo_counts undo" "d \<notin> fst ` set (uo_counts undo)"
  shows "um_is_undone u d = um_is_undone m d"
  using um_counts_ok(2)[OF assms(1), of d] um_counts_ok(2)[OF assms(2), of d] counts_other[OF assms(4)]
  by (simp add: assms(3) max_count_def)

lemma visible_other:
  assumes "\<forall>d \<in> insert (fr_timestamp f) (set (fr_deletions f)). um_is_undone u d = um_is_undone m d"
  shows "fragment_is_visible f u = fragment_is_visible f m"
proof -
  have "all_undone (um_is_undone u) ds = all_undone (um_is_undone m) ds"
    if "\<forall>d \<in> set ds. um_is_undone u d = um_is_undone m d" for ds
    using that by (induction ds) (simp_all cong: if_cong)
  from this[of "fr_deletions f"] have "all_undone (um_is_undone u) (fr_deletions f) = all_undone (um_is_undone m) (fr_deletions f)"
    using assms by simp
  then show ?thesis using assms by (simp add: fragment_is_visible_def cong: if_cong)
qed

lemma refreshed_flags:
  assumes m: "um_inv m" "um_inv u" "um_map u = um_map m ++ undo_counts undo" "BASE_STAMP \<notin> fst ` set (uo_counts undo)"
    and f: "sound ins S m v f" and I: "changes_of f \<inter> fst ` set (uo_counts undo) \<noteq> {} \<Longrightarrow> fr_id f \<in> I"
  shows "sound ins S u v (refreshed u ts I f)" "fr_visible (refreshed u ts I f) = shown u f"
proof -
  let ?g = "refreshed u ts I f"
  have same: "fragment_is_visible ?g u = fragment_is_visible f u" by (rule fragment_is_visible_cong) simp_all
  show vis: "fr_visible ?g = shown u f"
  proof (cases "fr_id f \<in> I")
    case False
    then have "changes_of f \<inter> fst ` set (uo_counts undo) = {}" using I by blast
    then have no: "d \<notin> fst ` set (uo_counts undo)" if "d \<in> insert (fr_timestamp f) (set (fr_deletions f))" for d
    proof -
      have "d = BASE_STAMP \<or> d \<in> changes_of f" using that by (auto simp: changes_of_def)
      then show ?thesis using \<open>changes_of f \<inter> fst ` set (uo_counts undo) = {}\<close> m(4) by (metis disjoint_iff)
    qed
    have "\<forall>d \<in> insert (fr_timestamp f) (set (fr_deletions f)). um_is_undone u d = um_is_undone m d"
      by (intro ballI is_undone_other[OF m(1-3)] no)
    from visible_other[OF this] show ?thesis using False f by (simp add: shown_def sound_def)
  qed simp
  have "changes_of ?g = changes_of f" by (simp add: changes_of_def)
  moreover have "covered S d ?g = covered S d f" for d by (simp add: covered_def)
  moreover have "fragment_is_visible ?g u = Some (fr_visible ?g)" unfolding same vis by (rule is_visible_total[OF m(2)])
  ultimately show "sound ins S u v ?g" using f refreshed_wf[of f u ts I] by (simp add: sound_def)
qed

section \<open>The operation\<close>

lemma refreshed_sorted:
  "ids_ok fs \<Longrightarrow> ids_ok (map (refreshed u ts I) fs)" "apart_list fs \<Longrightarrow> apart_list (map (refreshed u ts I) fs)"
proof -
  have a: "apart (refreshed u ts I f) (refreshed u ts I g) = apart f g" for f g by (simp add: apart_def)
  show "ids_ok fs \<Longrightarrow> ids_ok (map (refreshed u ts I) fs)" by (simp add: ids_ok_def sorted_wrt_map id_ok_def)
  show "apart_list fs \<Longrightarrow> apart_list (map (refreshed u ts I) fs)" by (simp add: sorted_wrt_map a)
qed

lemma apply_undo_ok:
  assumes ok: "snapshot_ok ins b" and room: "snapshot_room b"
    and c: "distinct (map fst (uo_counts undo))" "BASE_STAMP \<notin> fst ` set (uo_counts undo)"
      "\<forall>d \<in> fst ` set (uo_counts undo). global_observed (bs_version b) d"
    and u: "um_insert (bs_undo_map b) undo = Some u" "height u < STACK_CAP"
  shows "\<exists>p b'. apply_undo b undo = Some (p, b') \<and> snapshot_ok ins b' \<and>
    bs_visible_text b' = text_under ins u (old_frags b) \<and>
    patch_between (as_bytes (bs_visible_text b)) (as_bytes (bs_visible_text b')) p \<and> patch_normal p \<and>
    bs_undo_map b' = u \<and> bs_version b' = bs_version b \<and> bs_insertions b' = bs_insertions b \<and>
    bs_insertion_slices b' = bs_insertion_slices b \<and> um_map u = um_map (bs_undo_map b) ++ undo_counts undo \<and>
    (\<forall>v. text_under ins v (old_frags b') = text_under ins v (old_frags b)) \<and>
    all_bytes (old_frags b') = all_bytes (old_frags b)"
proof -
  let ?fs = "old_frags b" and ?S = "ts_elems (bs_insertion_slices b)" and ?m = "bs_undo_map b" and ?ts = "uo_timestamp undo"
  have b: "wf_tree fragment_sum (bs_fragments b)" "ids_ok ?fs" "frags_ok ins ?S ?m (bs_version b) ?fs"
    "bs_visible_text b = vtext ins ?fs" "bs_deleted_text b = dtext ins ?fs"
    "set (tree_items (bs_insertions b)) = insertion_fragment_new ` set ?fs" "um_inv ?m"
    "\<forall>k \<in> dom (um_map ?m). global_observed (bs_version b) (fst k)"
    using ok by (simp_all add: snapshot_ok_def Let_def)
  have um: "um_inv u" "um_map u = um_map ?m ++ undo_counts undo"
    using um_insert_ok[OF b(7) c(1)] u by (auto simp: um_inv_def)
  obtain ids where ids: "fragment_ids_for_edits b (map fst (uo_counts undo)) = Some ids" "sorted_wrt (<) ids"
    "set ids \<subseteq> fr_id ` set ?fs" "\<forall>f \<in> set ?fs. changes_of f \<inter> fst ` set (uo_counts undo) \<noteq> {} \<longrightarrow> fr_id f \<in> set ids"
    using fragment_ids_ok[OF ok room, of "map fst (uo_counts undo)"] by auto
  let ?new = "refreshed u ?ts (set ids)"
  have snd: "sound ins ?S ?m (bs_version b) f" if "f \<in> set ?fs" for f using b(3) that by (simp add: frags_ok_def)
  have flags: "sound ins ?S u (bs_version b) (?new f)" "fr_visible (?new f) = shown u f" if "f \<in> set ?fs" for f
    using refreshed_flags[OF b(7) um c(2) snd[OF that], of "set ids"] ids(4) that by blast+
  define B where "B = vtext ins (map ?new ?fs)"
  have base: "undo_base ins (bs_visible_text b) (bs_deleted_text b) B ?new ?fs"
    using b(2,4,5) frags_ok_wf[OF b(3)] frags_ok_readable[OF b(3)] by (simp add: undo_base_def B_def)
  let ?st0 = "\<lparr>us_cursor = cursor_new undo_dim_pair (bs_fragments b), us_fragments = stree_new fragment_sum,
         us_ropes = rb_new (text_cursor_new (bs_visible_text b)) (text_cursor_new (bs_deleted_text b)), us_patch = []\<rparr>"
  have "height (bs_fragments b) < STACK_CAP" using room by (simp add: snapshot_room_def)
  then have "cursor_ready undo_dim_pair fragment_sum (cursor_new undo_dim_pair (bs_fragments b)) [] ?fs"
    using cursor_new_fresh[OF b(1), of undo_dim_pair] by (simp add: cursor_ready_def cursor_new_def)
  moreover have "ropes_at ins (rb_new (text_cursor_new (bs_visible_text b)) (text_cursor_new (bs_deleted_text b)))
      (bs_visible_text b) (bs_deleted_text b) [] ?fs" using rb_new_ok[of ins ?fs] b(4,5) by simp
  ultimately have w0: "undoing ins (bs_visible_text b) (bs_deleted_text b) B ?new (bs_fragments b) ?st0 [] ?fs"
    by (simp add: undoing_def cursor_new_def patched_def kept_refl)
  obtain st1 pre post where 1: "undo_loop undo u ids ?st0 = Some st1"
    "undoing ins (bs_visible_text b) (bs_deleted_text b) B ?new (bs_fragments b) st1 pre post" "\<forall>f \<in> set post. fr_id f \<notin> set ids"
    using undo_loop_ok[OF base um(1) w0 ids(2) subset_refl ids(3)] by blast
  have wk: "cursor_ready undo_dim_pair fragment_sum (us_cursor st1) pre post" "pre @ post = ?fs" "c_tree (us_cursor st1) = bs_fragments b"
    using 1(2) by (simp_all add: undoing_def)
  have wf: "frags_wf (pre @ post)" using wk(2) frags_ok_wf[OF b(3)] by simp
  obtain p c' where p: "cursor_slice fragment_sum undo_dim_pair seek_end Right (us_cursor st1) = Some (p, c')"
    "wf_tree fragment_sum p" "post = tree_items p" "cursor_at undo_dim_pair fragment_sum c' (pre @ post) []" "c_tree c' = bs_fragments b"
    using loc_vis.cursor_slice_ok[OF wk(1) wf loc_vis.mono_target_end _ loc_vis.seek_scan_end, of Right] wk(3) by (auto simp: seek_end_def)
  have same: "\<forall>f \<in> set post. ?new f = f" using 1(3) by (simp add: refreshed_def)
  have "undoing ins (bs_visible_text b) (bs_deleted_text b) B ?new (bs_fragments b) st1 pre (post @ [])" using 1(2) by simp
  from undo_append_ok[OF base this p(2) p(3)[symmetric] same p(4,5)]
  obtain st2 where 2: "undo_append p (st1\<lparr>us_cursor := c'\<rparr>) = Some st2"
    "undoing ins (bs_visible_text b) (bs_deleted_text b) B ?new (bs_fragments b) st2 (pre @ post) []" by blast
  have w2: "wf_tree fragment_sum (us_fragments st2)" "tree_items (us_fragments st2) = map ?new ?fs"
    "ropes_at ins (us_ropes st2) (bs_visible_text b) (bs_deleted_text b) (map ?new ?fs) []"
    "patched (bs_visible_text b) B (us_patch st2) (vis_len ?fs) (vis_len (map ?new ?fs))"
    using 2(2) unfolding undoing_def wk(2) by simp_all
  define b' where "b' = b\<lparr>bs_undo_map := u, bs_fragments := us_fragments st2, bs_visible_text := B, bs_deleted_text := dtext ins (map ?new ?fs)\<rparr>"
  have "fragment_ids_for_edits (b\<lparr>bs_undo_map := u\<rparr>) (map fst (uo_counts undo)) = Some ids"
    using ids(1) by (simp add: fragment_ids_for_edits_def)
  then have ap: "apply_undo b undo = Some (us_patch st2, b')"
    using u(1) 1(1) p(1) 2(1) rb_finish_ok[OF w2(3)] by (simp add: apply_undo_def cursor_suffix_def b'_def B_def)
  have "insertion_fragment_new (?new f) = insertion_fragment_new f" for f by (simp add: insertion_fragment_new_def)
  then have img: "insertion_fragment_new ` set (map ?new ?fs) = insertion_fragment_new ` set ?fs" by (simp add: image_image)
  have fo: "frags_ok ins ?S u (bs_version b) (map ?new ?fs)"
    using flags(1) b(3) refreshed_sorted(2)[of ?fs] by (auto simp: frags_ok_def)
  have "\<forall>k \<in> dom (um_map u). global_observed (bs_version b) (fst k)"
    using b(8) c(3) unfolding um(2) by (auto simp: undo_counts_def dom_map_of_conv_image_fst)
  then have "snapshot_ok ins b'"
    using ok fo w2(1,2) refreshed_sorted(1)[OF b(2)] img um(1) by (simp add: snapshot_ok_def b'_def Let_def B_def)
  moreover have "B = text_under ins u ?fs"
    using text_under_flags[of "map ?new ?fs" u ins] flags(2) shown_cong[of "?new _" _ u]
    by (simp add: text_under_map B_def)
  moreover have "patch_between (as_bytes (bs_visible_text b)) (as_bytes B) (us_patch st2) \<and> patch_normal (us_patch st2)"
    using w2(4) str_len_texts(1)[OF frags_ok_readable[OF b(3)]] str_len_texts(1)[OF frags_ok_readable[OF fo]]
    by (simp add: patched_def patch_between_def b(4) B_def)
  moreover have "\<forall>v. text_under ins v (old_frags b') = text_under ins v ?fs" using w2(2) by (simp add: b'_def text_under_map)
  moreover have "frag_bytes (?new f) = frag_bytes f" for f by (simp add: frag_bytes_def)
  then have "all_bytes (map ?new xs) = all_bytes xs" for xs by (induction xs) simp_all
  then have "all_bytes (old_frags b') = all_bytes ?fs" using w2(2) by (simp add: b'_def)
  ultimately show ?thesis using ap um(2) by (intro exI[of _ "us_patch st2"] exI[of _ b']) (simp add: b'_def)
qed

end
