(* ===== verification/BufferUndo.thy ===== *)
theory BufferUndo
  imports BufferEditing UndoProps
begin

text \<open>Undo and redo on a buffer: the counts of the edits go one up, so what is undone flips.\<close>

section \<open>Flipping what is undone\<close>

definition undone :: "undo_map \<Rightarrow> lamport \<Rightarrow> bool" where
  "undone m d \<longleftrightarrow> um_is_undone m d = Some True"

definition flipped :: "undo_map \<Rightarrow> lamport set \<Rightarrow> undo_map \<Rightarrow> bool" where
  "flipped m D u \<longleftrightarrow> (\<forall>d. undone u d = (if d \<in> D then \<not> undone m d else undone m d))"

definition next_count :: "undo_map \<Rightarrow> lamport \<Rightarrow> seq" where
  "next_count m d = (let n = max_count (um_map m) d (\<lambda>_. True) in if n = - 1 then n else n + 1)"

lemma undone_count: "um_inv m \<Longrightarrow> undone m d \<longleftrightarrow> odd (max_count (um_map m) d (\<lambda>_. True))"
  by (simp add: undone_def um_counts_ok odd_iff_mod_2_eq_one)

lemma shown_iff:
  assumes "um_inv m"
  shows "shown m f \<longleftrightarrow> \<not> undone m (fr_timestamp f) \<and> (\<forall>d \<in> set (fr_deletions f). undone m d)"
proof -
  have "all_undone (um_is_undone m) ds = Some (\<forall>d \<in> set ds. undone m d)" for ds
    by (induction ds) (simp_all add: um_counts_ok(2)[OF assms] undone_def)
  then show ?thesis by (simp add: shown_def fragment_is_visible_def um_counts_ok(2)[OF assms] undone_def)
qed

lemma next_counts_ok:
  assumes "um_inv m" "distinct (map fst acc)"
  shows "\<exists>cs. next_counts m ds acc = Some cs \<and> distinct (map fst cs) \<and>
    map_of cs = (\<lambda>d. if d \<in> set ds then Some (next_count m d) else map_of acc d)"
  using assms(2)
proof (induction ds arbitrary: acc)
  case (Cons d ds)
  have "distinct (map fst (AList.update d (next_count m d) acc))" using Cons.prems by (rule distinct_update)
  from Cons.IH[OF this] obtain cs where cs: "next_counts m ds (AList.update d (next_count m d) acc) = Some cs"
    "distinct (map fst cs)" "map_of cs = (\<lambda>e. if e \<in> set ds then Some (next_count m e) else map_of (AList.update d (next_count m d) acc) e)"
    by blast
  have "next_counts m (d # ds) acc = Some cs"
    using cs(1) um_counts_ok(1)[OF assms(1), of d] by (simp add: next_count_def Let_def)
  moreover have "map_of cs = (\<lambda>e. if e \<in> set (d # ds) then Some (next_count m e) else map_of acc e)"
    unfolding cs(3) by (auto simp: update_conv')
  ultimately show ?case using cs(2) by blast
qed simp

lemma seq_up:
  fixes n :: seq
  assumes "n \<noteq> - 1"
  shows "n < n + 1"
proof -
  have "unat n \<noteq> unat (- 1 :: seq)" using assms unsigned_word_eqI by blast
  moreover have "unat (- 1 :: seq) = 4294967295" by (simp add: unsigned_minus_1_eq_mask mask_eq_exp_minus_1)
  moreover have "unat n < 4294967296" using unsigned_less[of n] by simp
  ultimately show ?thesis by (simp add: word_less_nat_alt unat_plus_if_size word_size)
qed

lemma flip_counts:
  assumes m: "um_inv m" "um_inv u" "um_map u = um_map m ++ undo_counts undo"
    and cs: "distinct (map fst (uo_counts undo))" "map_of (uo_counts undo) = (\<lambda>d. if d \<in> D then Some (next_count m d) else None)"
    and lim: "\<forall>d \<in> D. max_count (um_map m) d (\<lambda>_. True) \<noteq> - 1"
  shows "flipped m D u"
proof -
  have keys: "fst ` set (uo_counts undo) = D" unfolding dom_map_of_conv_image_fst[symmetric] cs(2) by (auto split: if_splits)
  have "undone u d = (\<not> undone m d)" if d: "d \<in> D" for d
  proof -
    let ?n = "max_count (um_map m) d (\<lambda>_. True)"
    have "(d, ?n + 1) \<in> set (uo_counts undo)" using map_of_SomeD[of "uo_counts undo" d "?n + 1"] cs(2) d lim by (simp add: next_count_def Let_def)
    then have new: "undo_counts undo (d, uo_timestamp undo) = Some (?n + 1)"
      unfolding undo_counts_def by (intro map_of_is_SomeI) (use cs(1) in \<open>force simp: distinct_map inj_on_def split_def\<close>)+
    have other: "undo_counts undo (d, t) = None" if "t \<noteq> uo_timestamp undo" for t
      using that by (force simp: undo_counts_def map_of_eq_None_iff)
    have le: "v \<le> ?n" if "um_map m (d, t) = Some v" for t v
      using that finite[of "insert 0 (counts_of (um_map m) d (\<lambda>_. True))"] unfolding max_count_def
      by (intro Max_ge) (auto simp: counts_of_def)
    have up: "?n < ?n + 1" using lim d by (intro seq_up) blast
    have mu: "max_count (um_map u) d (\<lambda>_. True) = Max (insert 0 (counts_of (um_map m ++ undo_counts undo) d (\<lambda>_. True)))"
      by (simp add: max_count_def m(3))
    have "max_count (um_map u) d (\<lambda>_. True) = ?n + 1"
      unfolding mu
    proof (rule Max_eqI)
      show "finite (insert 0 (counts_of (um_map m ++ undo_counts undo) d (\<lambda>_. True)))" by (rule finite)
      show "?n + 1 \<in> insert 0 (counts_of (um_map m ++ undo_counts undo) d (\<lambda>_. True))"
        using new by (auto simp: counts_of_def map_add_Some_iff)
      fix v assume v: "v \<in> insert 0 (counts_of (um_map m ++ undo_counts undo) d (\<lambda>_. True))"
      have "v = 0 \<or> v = ?n + 1 \<or> (\<exists>t. um_map m (d, t) = Some v)"
        using v new other by (auto simp: counts_of_def map_add_Some_iff) (metis option.inject option.distinct(1))
      then show "v \<le> ?n + 1" using order_trans[OF le less_imp_le[OF up]] by auto
    qed
    then show ?thesis by (simp add: undone_count[OF m(1)] undone_count[OF m(2)])
  qed
  moreover have "undone u d = undone m d" if "d \<notin> D" for d
    using is_undone_other[OF m(1-3)] keys that by (simp add: undone_def)
  ultimately show ?thesis by (simp add: flipped_def)
qed

text \<open>Flipping one edit that counts shows what is visible without it, and flipping it back what was shown.\<close>

lemma flipped_without:
  assumes "um_inv m" "um_inv u" "flipped m {ts} u" "\<not> undone m ts"
  shows "text_under ins u fs = text_without ins m ts fs"
proof -
  have "visible_without m ts f = shown u f" for f
  proof -
    have "visible_without m ts f = (fr_timestamp f \<noteq> ts \<and> shown m (f\<lparr>fr_deletions := removeAll ts (fr_deletions f)\<rparr>))"
      by (simp add: visible_without_def shown_def)
    then show ?thesis using assms by (auto simp: shown_iff flipped_def split: if_splits)
  qed
  then have "visible_without m ts = shown u" by blast
  then show ?thesis by (simp add: text_under_def text_without_def)
qed

lemma flipped_twice:
  assumes "um_inv m" "um_inv v" "flipped m D u" "flipped u D v"
  shows "text_under ins v fs = text_under ins m fs"
proof -
  have "shown v f = shown m f" for f using assms by (simp add: shown_iff flipped_def cong: ball_cong)
  then have "shown v = shown m" by blast
  then show ?thesis by (simp add: text_under_def)
qed

lemma text_under_visible: "snapshot_ok ins b \<Longrightarrow> text_under ins (bs_undo_map b) (old_frags b) = bs_visible_text b"
  by (subst text_under_flags) (auto simp: snapshot_ok_def Let_def frags_ok_def sound_def shown_def)

section \<open>The operations\<close>

lemma snapshot_observe: "snapshot_ok ins b \<Longrightarrow> snapshot_ok ins (b\<lparr>bs_version := global_observe (bs_version b) ts\<rparr>)"
  by (auto simp: snapshot_ok_def Let_def frags_ok_def wf_global_observe global_observed_observe intro: sound_observe)

definition next_undo :: "buffer \<Rightarrow> (lamport \<times> seq) list \<Rightarrow> undo_operation" where
  "next_undo b cs = \<lparr>uo_timestamp = bf_clock b, uo_version = bs_version (bf_snapshot b), uo_counts = cs\<rparr>"

text \<open>Undoing the edits \<open>D\<close> is possible: the edits are known, none has the greatest count, and there
  is room in the trees, also in that of the new undo map.\<close>

definition undo_ready :: "lamport list \<Rightarrow> buffer \<Rightarrow> bool" where
  "undo_ready ids b \<longleftrightarrow> buffer_room b \<and>
     (\<forall>d \<in> set ids. d \<noteq> BASE_STAMP \<and> global_observed (bs_version (bf_snapshot b)) d \<and>
        um_undo_count (bs_undo_map (bf_snapshot b)) d \<noteq> Some (- 1)) \<and>
     (case next_counts (bs_undo_map (bf_snapshot b)) ids [] of None \<Rightarrow> False
      | Some cs \<Rightarrow> (case um_insert (bs_undo_map (bf_snapshot b)) (next_undo b cs) of None \<Rightarrow> False
                    | Some u \<Rightarrow> height u < STACK_CAP))"

lemma undo_or_redo_ok:
  assumes ok: "buffer_ok ins seen b" and ready: "undo_ready (tn_edit_ids t) b"
  shows "\<exists>undo b'. undo_or_redo t b = Some (Undo_op undo, b') \<and> buffer_ok ins seen b' \<and>
    buffer_text b' = text_under ins (bs_undo_map (bf_snapshot b')) (old_frags (bf_snapshot b)) \<and>
    um_inv (bs_undo_map (bf_snapshot b')) \<and>
    flipped (bs_undo_map (bf_snapshot b)) (set (tn_edit_ids t)) (bs_undo_map (bf_snapshot b')) \<and>
    (\<forall>v. text_under ins v (old_frags (bf_snapshot b')) = text_under ins v (old_frags (bf_snapshot b))) \<and>
    all_bytes (old_frags (bf_snapshot b')) = all_bytes (old_frags (bf_snapshot b)) \<and>
    hi_undo_stack (bf_history b') = hi_undo_stack (bf_history b) \<and> hi_redo_stack (bf_history b') = hi_redo_stack (bf_history b) \<and>
    hi_transaction_depth (bf_history b') = hi_transaction_depth (bf_history b)"
proof -
  let ?s = "bf_snapshot b" and ?h = "bf_history b" and ?m = "bs_undo_map (bf_snapshot b)" and ?ids = "tn_edit_ids t"
  have b: "snapshot_ok ins ?s" "clock_ahead (bs_version ?s) (bf_clock b)" "follows seen (as_bytes (buffer_text b)) (bf_topic b) (bf_cells b)"
    "tm_inv (hi_operations ?h)" "history_ok ?h" "um_inv ?m"
    using ok by (auto simp: buffer_ok_def history_ok_def snapshot_ok_def)
  have rm: "snapshot_room ?s" "tm_room (hi_operations ?h)" "lvalue (bf_clock b) < - 3"
    using ready by (simp_all add: buffer_room_def undo_ready_def)
  obtain cs where cs: "next_counts ?m ?ids [] = Some cs" "distinct (map fst cs)"
    "map_of cs = (\<lambda>d. if d \<in> set ?ids then Some (next_count ?m d) else None)"
    using next_counts_ok[OF b(6), of "[]" ?ids] by (simp cong: if_cong) blast
  have keys: "fst ` set cs = set ?ids" unfolding dom_map_of_conv_image_fst[symmetric] cs(3) by (auto split: if_splits)
  define un where "un = next_undo b cs"
  have un: "uo_counts un = cs" by (simp add: un_def next_undo_def)
  obtain u where u: "um_insert ?m un = Some u" "height u < STACK_CAP"
    using ready cs(1) by (auto simp: undo_ready_def un_def split: option.splits)
  define s where "s = ?s\<lparr>bs_version := global_observe (bs_version ?s) (bf_clock b)\<rparr>"
  have s: "snapshot_ok ins s" "snapshot_room s" "um_insert (bs_undo_map s) un = Some u" "bs_undo_map s = ?m"
    "old_frags s = old_frags ?s" "bs_visible_text s = buffer_text b"
    using snapshot_observe[OF b(1)] rm(1) u(1) by (simp_all add: s_def snapshot_room_def)
  have d: "distinct (map fst (uo_counts un))" "BASE_STAMP \<notin> fst ` set (uo_counts un)"
    "\<forall>d \<in> fst ` set (uo_counts un). global_observed (bs_version s) d"
    unfolding un using cs(2) ready by (auto simp: keys undo_ready_def s_def global_observed_observe simp del: set_map)
  from apply_undo_ok[OF s(1,2) d s(3) u(2)]
  obtain p s' where ap: "apply_undo s un = Some (p, s')" "snapshot_ok ins s'" "bs_visible_text s' = text_under ins u (old_frags ?s)"
    "patch_between (as_bytes (buffer_text b)) (as_bytes (bs_visible_text s')) p" "bs_undo_map s' = u"
    "bs_version s' = bs_version s" "um_map u = um_map ?m ++ undo_counts un"
    "\<forall>v. text_under ins v (old_frags s') = text_under ins v (old_frags ?s)" "all_bytes (old_frags s') = all_bytes (old_frags ?s)"
    unfolding s(4-6) by blast
  have ui: "um_inv u" using ap(2,5) by (simp add: snapshot_ok_def)
  have "\<forall>d \<in> set ?ids. max_count (um_map ?m) d (\<lambda>_. True) \<noteq> - 1"
    using ready um_counts_ok(1)[OF b(6)] by (auto simp: undo_ready_def)
  then have fl: "flipped ?m (set ?ids) u" using flip_counts[OF b(6) ui ap(7)] cs(2,3) un by simp
  define c' where "c' = snd (tick (bf_clock b))"
  have "lvalue (bf_clock b) < lvalue (bf_clock b) + 1" using seq_Suc[OF rm(3)] by blast
  then have ca: "clock_ahead (bs_version s') c'"
    using clock_ahead_tick(2)[OF b(2)] by (simp add: c'_def ap(6) s_def)
  have tk: "tick (bf_clock b) = (bf_clock b, c')" by (simp add: c'_def tick_def)
  define b1 where "b1 = b\<lparr>bf_clock := c', bf_snapshot := s'\<rparr>"
  obtain tp cl where pb: "publish_edits p b1 = Some (b1\<lparr>bf_topic := tp, bf_cells := cl\<rparr>)"
    "follows seen (as_bytes (bs_visible_text s')) tp cl"
    using publish_edits_ok[of seen "buffer_text b" b1 "bs_visible_text s'" p] b(3) ap(4) by (auto simp: b1_def)
  have "observe_version (bf_clock b) (b\<lparr>bf_clock := c'\<rparr>) = b\<lparr>bf_clock := c', bf_snapshot := s\<rparr>"
    by (simp add: observe_version_def s_def)
  then have uop: "undo_operations cs b = Some (Undo_op un, b1\<lparr>bf_topic := tp, bf_cells := cl\<rparr>)"
    using ap(1) pb(1) by (simp add: undo_operations_def tk un_def[unfolded next_undo_def, symmetric] b1_def)
  obtain ops where ops: "history_push ?h (Undo_op un) = Some (?h\<lparr>hi_operations := ops\<rparr>)" "tm_inv ops"
    using history_push_ok[OF b(4) rm(2), of "Undo_op un"] by blast
  define b' where "b' = b1\<lparr>bf_topic := tp, bf_cells := cl, bf_history := ?h\<lparr>hi_operations := ops\<rparr>\<rparr>"
  have res: "undo_or_redo t b = Some (Undo_op un, b')"
    using cs(1) uop ops(1) by (simp add: undo_or_redo_def b'_def b1_def)
  have "buffer_ok ins seen b'"
    using ap(2) ca pb(2) ops(2) b(5) by (simp add: buffer_ok_def history_ok_def b'_def b1_def)
  then show ?thesis using res ap(3,5,8,9) ui fl by (intro exI[of _ un] exI[of _ b']) (simp add: b'_def b1_def)
qed

end
