(* ===== verification/AnchorProps.thy ===== *)
theory AnchorProps
  imports Anchors BufferUndo "HOL-Library.Sublist"
begin

text \<open>What anchors resolve to.\<close>

section \<open>The fragment of an anchor\<close>

text \<open>The byte an anchor is attached to, before it or after it, is in the fragment.\<close>

definition attached :: "anchor \<Rightarrow> fragment \<Rightarrow> bool" where
  "attached a f \<longleftrightarrow> an_timestamp a = fr_timestamp f \<and>
     (case an_bias a of
        Left \<Rightarrow> fr_insertion_offset f < an_offset a \<and> an_offset a \<le> fr_insertion_offset f + fr_len f
      | Right \<Rightarrow> fr_insertion_offset f \<le> an_offset a \<and> an_offset a < fr_insertion_offset f + fr_len f)"

lemma sorted_wrt_pair: "sorted_wrt R xs \<Longrightarrow> x \<in> set xs \<Longrightarrow> y \<in> set xs \<Longrightarrow> x \<noteq> y \<Longrightarrow> R x y \<or> R y x"
  by (induction xs) auto

lemma sorted_wrt_conj2: "sorted_wrt P xs \<Longrightarrow> sorted_wrt Q xs \<Longrightarrow> sorted_wrt (\<lambda>x y. P x y \<and> Q x y) xs"
  by (induction xs) auto

lemma snapshot_frags:
  assumes "snapshot_ok ins b"
  shows "wf_tree fragment_sum (bs_fragments b)" "ids_ok (old_frags b)" "apart_list (old_frags b)"
    "f \<in> set (old_frags b) \<Longrightarrow> sound ins (ts_elems (bs_insertion_slices b)) (bs_undo_map b) (bs_version b) f"
    "frags_wf (old_frags b)" "bs_visible_text b = vtext ins (old_frags b)"
    "set (tree_items (bs_insertions b)) = insertion_fragment_new ` set (old_frags b)"
    "wf_tree insertion_sum (bs_insertions b)" "ins_sorted (tree_items (bs_insertions b))"
  using assms frags_ok_wf by (auto simp: snapshot_ok_def Let_def frags_ok_def)

lemma index_gap:
  assumes ok: "snapshot_ok ins b" and x: "x \<in> set (old_frags b)" and i: "i \<in> set (tree_items (bs_insertions b))"
    and gt: "frag_key x < insertion_key i"
  shows "(fr_timestamp x, fr_insertion_offset x + fr_len x) \<le> insertion_key i"
proof -
  obtain g where g: "g \<in> set (old_frags b)" "i = insertion_fragment_new g" using i snapshot_frags(7)[OF ok] by auto
  have "0 < fr_len g" using snapshot_frags(4)[OF ok g(1)] by (simp add: sound_def)
  moreover have "apart x g \<or> apart g x" using sorted_wrt_pair[OF snapshot_frags(3)[OF ok] x g(1)] gt g(2) by auto
  ultimately show ?thesis using gt g(2) by (auto simp: apart_def frag_key_def less_prod_def less_eq_prod_def)
qed

lemma try_find_ok:
  assumes ok: "snapshot_ok ins b" and x: "x \<in> set (old_frags b)" and a: "attached a x"
  shows "try_find_fragment b a = Some (Some (insertion_fragment_new x))"
proof -
  let ?is = "tree_items (bs_insertions b)" and ?k = "(an_timestamp a, an_offset a)" and ?x = "insertion_fragment_new x"
  note wf = snapshot_frags(8,9)[OF ok]
  have "?x \<in> set ?is" using x snapshot_frags(7)[OF ok] by simp
  then obtain pre post where split: "?is = pre @ ?x # post" by (meson split_list)
  have srt: "\<forall>i \<in> set pre. insertion_key i < frag_key x" "\<forall>i \<in> set post. frag_key x < insertion_key i"
    using wf(2) unfolding split by (auto simp: key_sorted_append key_sorted_Cons)
  let ?P = "\<lambda>i. passes (an_bias a) (cmp_of ?k (insertion_key i))"
  have P: "passes (an_bias a) (cmp_of ?k k) \<longleftrightarrow> (if an_bias a = Left then k < ?k else k \<le> ?k)" for k
    by (cases "an_bias a") (auto simp: passes_def cmp_of_def)
  have px: "?P ?x" using a unfolding P insertion_key_new by (auto simp: attached_def frag_key_def less_eq_prod_def split: bias.splits)
  have pre: "\<forall>i \<in> set pre. ?P i"
    using srt(1) px unfolding P insertion_key_new by (auto split: if_splits intro: less_trans less_imp_le less_le_trans)
  have post: "\<not> ?P i \<and> cmp_of (insertion_key i) ?k \<noteq> Less \<and> (cmp_of (insertion_key i) ?k = Equal \<longrightarrow> an_bias a = Left \<and> 0 < an_offset a)"
    if i: "i \<in> set post" for i
  proof -
    have "(fr_timestamp x, fr_insertion_offset x + fr_len x) \<le> insertion_key i"
      using index_gap[OF ok x] split srt(2) i by auto
    then show ?thesis using a unfolding P
      by (cases "insertion_key i") (auto simp: attached_def less_eq_prod_def cmp_of_def split: bias.splits)
  qed
  have sc: "seek_scan insertion_dim insertion_sum (cmp_of ?k) (an_bias a) [] ?is = (pre @ [?x], post)"
  proof -
    have "takeWhile ?P ?is = pre @ [?x]" "dropWhile ?P ?is = post"
      using pre px post unfolding split by (cases post; auto)+
    then show ?thesis using ins.key_scan[of "[]" ?is "cmp_of ?k" "an_bias a"] wf(2) by simp
  qed
  have mono: "mono_target insertion_dim insertion_sum (cmp_of ?k) ?is" by (rule ins.key_target_mono[OF wf(2) ins.cmp_of_anti])
  have fp: "stree_find_with_prev insertion_dim (bs_insertions b) (cmp_of ?k) (an_bias a) = Some
    (case post of [] \<Rightarrow> (dpos insertion_dim insertion_sum (pre @ [?x]), dpos insertion_dim insertion_sum (pre @ [?x]), None)
     | y # r \<Rightarrow> (dpos insertion_dim insertion_sum (pre @ [?x]), dpos insertion_dim insertion_sum ((pre @ [?x]) @ [y]), Some (Some ?x, y)))"
    using ins.stree_find_with_prev_ok[OF wf mono, of "an_bias a"]
    unfolding sc by (simp add: last_opt_iff split: list.splits)
  show ?thesis
  proof (cases post)
    case Nil
    then show ?thesis using fp stree_last_ok[OF wf(1)] by (simp add: try_find_fragment_def split last_opt_iff)
  next
    case (Cons y r)
    then have "cmp_of (insertion_key y) ?k = Greater \<or> an_bias a = Left \<and> cmp_of (insertion_key y) ?k = Equal \<and> 0 < an_offset a"
      using post[of y] by (cases "cmp_of (insertion_key y) ?k") auto
    then show ?thesis using fp Cons by (simp add: try_find_fragment_def Let_def)
  qed
qed

section \<open>Its place in the text\<close>

lemma find_fragment_ok:
  assumes ok: "snapshot_ok ins b" and fs: "old_frags b = pre @ x # post"
  shows "find_fragment_at b (fr_id x) = ((if pre = [] then None else Some (fr_id (last pre)), vis_len pre), Some x)"
proof -
  have ids: "ids_ok ([] @ pre @ x # post)" using snapshot_frags(2)[OF ok] fs by simp
  have "stree_find undo_dim_pair (bs_fragments b) (locator_target (fr_id x)) Left =
    (dpos undo_dim_pair fragment_sum pre, dpos undo_dim_pair fragment_sum (pre @ [x]), Some x)"
    using loc_vis.stree_find_items[OF snapshot_frags(1,5)[OF ok] locator_mono[OF snapshot_frags(2)[OF ok]], of "fr_id x" Left]
      locator_scan[OF ids refl] by (simp add: fs)
  then show ?thesis by (simp add: find_fragment_at_def dpos_undo_pair)
qed

text \<open>An anchor resolves to the number of visible bytes up to its own place.\<close>

definition place :: "fragment list \<Rightarrow> fragment \<Rightarrow> nat \<Rightarrow> nat" where
  "place pre f k = vis_len pre + (if fr_visible f then k else 0)"

lemma offset_for_anchor_ok:
  assumes ok: "snapshot_ok ins b" and fs: "old_frags b = pre @ x # post" and a: "attached a x"
    and nm: "\<not> an_is_min a" "\<not> an_is_max a"
  shows "offset_for_anchor b a = Some (place pre x (an_offset a - fr_insertion_offset x))"
proof -
  have "x \<in> set (old_frags b)" using fs by simp
  from try_find_ok[OF ok this a] have f: "try_find_fragment b a = Some (Some (insertion_fragment_new x))" .
  have "fr_insertion_offset x \<le> an_offset a" "an_timestamp a = fr_timestamp x" using a by (auto simp: attached_def split: bias.splits)
  then show ?thesis using nm f find_fragment_ok[OF ok fs]
    by (simp add: offset_for_anchor_def assert_opt_def insertion_fragment_new_def place_def csub_def)
qed

section \<open>Making an anchor\<close>

lemma visible_mono: "mono_target visible_dim fragment_sum (cmp_of n) fs"
  by (auto simp: mono_target_def dpos_visible cmp_of_def)

lemma visible_passed:
  "passed visible_dim fragment_sum (cmp_of n) bias xs \<longleftrightarrow> (if bias = Left then vis_len xs < n else vis_len xs \<le> n)"
  by (cases bias) (auto simp: passed_def passes_def dpos_visible cmp_of_def)

lemma find_visible_ok:
  assumes ok: "snapshot_ok ins b" and n: "if bias = Left then 0 < n \<and> n \<le> vis_len (old_frags b) else n < vis_len (old_frags b)"
  obtains pre x post where "old_frags b = pre @ x # post" "fr_visible x" "vis_len pre \<le> n" "n \<le> vis_len pre + fr_len x"
    "bias = Left \<longrightarrow> vis_len pre < n" "bias = Right \<longrightarrow> n < vis_len pre + fr_len x"
    "stree_find visible_dim (bs_fragments b) (cmp_of n) bias = (vis_len pre, vis_len (pre @ [x]), Some x)"
proof -
  obtain p r where sc: "seek_scan visible_dim fragment_sum (cmp_of n) bias [] (old_frags b) = (p, r)" by force
  then have pr: "p @ r = old_frags b" and sc': "scan (passed visible_dim fragment_sum (cmp_of n) bias) [] (old_frags b) = (p, r)"
    using scan_append_items[of _ "[]" "old_frags b" p r] by (simp_all add: seek_scan_def)
  have p: "if bias = Left then vis_len p < n else vis_len p \<le> n"
    using scan_passed[OF sc'] n by (cases "p = []") (auto simp: visible_passed)
  have "r \<noteq> []" using p pr n by (auto split: if_splits)
  then obtain x post where r: "r = x # post" by (cases r) auto
  have "\<not> passed visible_dim fragment_sum (cmp_of n) bias (p @ [x])" using scan_stop sc' r by metis
  then have q: "if bias = Left then n \<le> vis_len (p @ [x]) else n < vis_len (p @ [x])" by (auto simp: visible_passed)
  have vis: "fr_visible x" using p q by (auto split: if_splits)
  have "stree_find visible_dim (bs_fragments b) (cmp_of n) bias = (vis_len p, vis_len (p @ [x]), Some x)"
    using vis.stree_find_ok[OF snapshot_frags(1,5)[OF ok] visible_mono, of n bias] sc r by (simp add: dpos_visible)
  then show thesis using that[of p x post] pr r vis p q by (auto split: if_splits)
qed

lemma anchor_at_offset_ok:
  assumes ok: "snapshot_ok ins b" and o: "str_is_char_boundary (bs_visible_text b) n"
  obtains (ends) "anchor_at_offset b n bias = Some (if bias = Left then min_for_buffer (bs_remote_id b) else max_for_buffer (bs_remote_id b))"
      "n = (if bias = Left then 0 else str_len (bs_visible_text b))"
  | (inside) pre x post a where "anchor_at_offset b n bias = Some a" "old_frags b = pre @ x # post" "attached a x" "fr_visible x"
      "an_bias a = bias" "an_buffer a = bs_remote_id b" "an_offset a = fr_insertion_offset x + (n - vis_len pre)" "vis_len pre \<le> n"
      "\<not> an_is_min a" "\<not> an_is_max a"
proof -
  have "readable ins (old_frags b)" using ok unfolding snapshot_ok_def Let_def by (blast intro: frags_ok_readable)
  then have len: "str_len (bs_visible_text b) = vis_len (old_frags b)" using str_len_texts(1) snapshot_frags(6)[OF ok] by simp
  have le: "n \<le> str_len (bs_visible_text b)" using o by (rule boundary_le)
  show thesis
  proof (cases "n = (if bias = Left then 0 else str_len (bs_visible_text b))")
    case True
    then show ?thesis using ends by (cases bias) (simp_all add: anchor_at_offset_def)
  next
    case False
    then have n: "if bias = Left then 0 < n \<and> n \<le> vis_len (old_frags b) else n < vis_len (old_frags b)"
      using le len by (cases bias) auto
    from find_visible_ok[OF ok this]
    obtain pre x post where x: "old_frags b = pre @ x # post" "fr_visible x" "vis_len pre \<le> n" "n \<le> vis_len pre + fr_len x"
      "bias = Left \<longrightarrow> vis_len pre < n" "bias = Right \<longrightarrow> n < vis_len pre + fr_len x"
      "stree_find visible_dim (bs_fragments b) (cmp_of n) bias = (vis_len pre, vis_len (pre @ [x]), Some x)" by blast
    have snd: "sound ins (ts_elems (bs_insertion_slices b)) (bs_undo_map b) (bs_version b) x" using snapshot_frags(4)[OF ok] x(1) by simp
    define a where "a = anchor_new (fr_timestamp x) (fr_insertion_offset x + (n - vis_len pre)) bias (bs_remote_id b)"
    have k: "n - vis_len pre \<le> fr_len x" "fr_insertion_offset x + fr_len x < 4294967296" using snd x(4) by (simp_all add: sound_def)
    then have "fr_insertion_offset x + (n - vis_len pre) < 4294967296" by linarith
    then have "add_u32 (fr_insertion_offset x) (as_u32 (n - vis_len pre)) = fr_insertion_offset x + (n - vis_len pre)"
      by (simp add: add_u32_def as_u32_def)
    then have at: "anchor_at_offset b n bias = Some a"
      using False le o x(3,7) by (cases bias) (auto simp: anchor_at_offset_def a_def csub_def)
    have att: "attached a x" using x(3-6) by (cases bias) (auto simp: attached_def a_def anchor_new_def an_timestamp_def)
    have "fr_timestamp x \<noteq> LAMPORT_MIN" using snd by (auto simp: sound_def LAMPORT_MIN_def)
    then have nmin: "\<not> an_is_min a" using att by (simp add: attached_def an_is_min_def)
    have "an_offset a \<noteq> U32_MAX" if "bias = Right" using that x(3,6) k by (auto simp: a_def anchor_new_def)
    then have nmax: "\<not> an_is_max a" by (auto simp: an_is_max_def a_def anchor_new_def)
    show ?thesis by (rule inside[OF at x(1) att x(2) _ _ _ x(3) nmin nmax]) (simp_all add: a_def anchor_new_def)
  qed
qed

text \<open>The round trip, and the order of anchors.\<close>

lemma anchor_roundtrip:
  assumes "snapshot_ok ins b" "str_is_char_boundary (bs_visible_text b) n"
  shows "\<exists>a. anchor_at_offset b n bias = Some a \<and> an_bias a = bias \<and> offset_for_anchor b a = Some n \<and> can_resolve b a"
  using assms
proof (cases rule: anchor_at_offset_ok[where bias = bias])
  case ends
  let ?a = "if bias = Left then min_for_buffer (bs_remote_id b) else max_for_buffer (bs_remote_id b)"
  have "an_is_min ?a \<or> an_is_max ?a" "an_is_min ?a \<longleftrightarrow> bias = Left" "an_bias ?a = bias" "an_buffer ?a = bs_remote_id b"
    by (cases bias; simp add: min_for_buffer_def max_for_buffer_def an_is_min_def an_is_max_def an_timestamp_def)+
  then show ?thesis using ends by (auto simp: offset_for_anchor_def can_resolve_def)
next
  case (inside pre x post a)
  have "sound ins (ts_elems (bs_insertion_slices b)) (bs_undo_map b) (bs_version b) x"
    using snapshot_frags(4)[OF assms(1)] inside(2) by simp
  then have "can_resolve b a" using inside(3,6) by (simp add: can_resolve_def attached_def sound_def)
  then show ?thesis using offset_for_anchor_ok[OF assms(1) inside(2,3,9,10)] inside by (auto simp: place_def)
qed

lemma place_le:
  assumes ok: "snapshot_ok ins b" and s: "old_frags b = pre @ x # post" "old_frags b = pre' @ y # post'"
    and lt: "fr_id x < fr_id y" and k: "k \<le> fr_len x"
  shows "place pre x k \<le> place pre' y k'"
proof -
  have "x \<in> set pre'"
  proof (rule ccontr)
    assume "x \<notin> set pre'"
    moreover have "x \<noteq> y" using lt by auto
    moreover have "x \<in> set (pre' @ y # post')" using s by (metis in_set_conv_decomp)
    ultimately have "x \<in> set post'" by auto
    then have "fr_id y < fr_id x" using snapshot_frags(2)[OF ok] s(2) by (simp add: ids_ok_def sorted_wrt_append)
    then show False using lt by simp
  qed
  then obtain m1 m2 where m: "pre' = m1 @ x # m2" by (meson split_list)
  have "x \<notin> set pre" "x \<notin> set post" using snapshot_frags(2)[OF ok] s(1) by (auto simp: ids_ok_def sorted_wrt_append)
  moreover have "pre @ x # post = m1 @ x # (m2 @ y # post')" using s m by simp
  ultimately have "pre = m1" using append_Cons_eq_iff[of x pre post m1 "m2 @ y # post'"] by simp
  then show ?thesis using k by (auto simp: place_def m)
qed

section \<open>Anchors and the bytes of insertions\<close>

definition anchor_byte :: "anchor \<Rightarrow> insertion_key" where
  "anchor_byte a = (an_timestamp a, case an_bias a of Left \<Rightarrow> an_offset a - 1 | Right \<Rightarrow> an_offset a)"

text \<open>Anchors of a snapshot: the two ends, and those attached to a byte of an insertion it has.\<close>

definition resolvable :: "buffer_snapshot \<Rightarrow> anchor \<Rightarrow> bool" where
  "resolvable b a \<longleftrightarrow> an_is_min a \<or> an_is_max a \<or>
     (an_bias a = Left \<longrightarrow> 0 < an_offset a) \<and> anchor_byte a \<in> set (all_bytes (old_frags b))"

lemma set_all_bytes: "set (all_bytes fs) = (\<Union>f \<in> set fs. set (frag_bytes f))"
  by (simp add: all_bytes_def)

lemma set_frag_bytes: "k \<in> set (frag_bytes f) \<longleftrightarrow> fst k = fr_timestamp f \<and> fr_insertion_offset f \<le> snd k \<and> snd k < fr_insertion_offset f + fr_len f"
  by (cases k) (auto simp: frag_bytes_def)

lemma attached_byte:
  "attached a f \<longleftrightarrow> (an_bias a = Left \<longrightarrow> 0 < an_offset a) \<and> anchor_byte a \<in> set (frag_bytes f)"
  by (cases "an_bias a") (auto simp: attached_def anchor_byte_def set_frag_bytes)

lemma attached_not_ends:
  assumes "snapshot_ok ins b" "f \<in> set (old_frags b)" "attached a f"
  shows "\<not> an_is_min a" "\<not> an_is_max a" "an_timestamp a = fr_timestamp f"
proof -
  have s: "fr_insertion_offset f + fr_len f < 4294967296" "lvalue (fr_timestamp f) \<noteq> 0"
    using snapshot_frags(4)[OF assms(1,2)] by (simp_all add: sound_def)
  show t: "an_timestamp a = fr_timestamp f" using assms(3) by (simp add: attached_def)
  then show "\<not> an_is_min a" using s(2) by (auto simp: an_is_min_def LAMPORT_MIN_def)
  show "\<not> an_is_max a" using assms(3) s(1) by (auto simp: an_is_max_def attached_def)
qed

lemma resolvable_cases:
  assumes "snapshot_ok ins b" "resolvable b a"
  obtains "an_is_min a" | "an_is_max a" | pre f post where "old_frags b = pre @ f # post" "attached a f"
    "\<not> an_is_min a" "\<not> an_is_max a" "f \<in> set (old_frags b)"
proof -
  have "an_is_min a \<or> an_is_max a \<or> (\<exists>f \<in> set (old_frags b). attached a f)"
    using assms(2) by (auto simp: resolvable_def attached_byte set_all_bytes)
  then show thesis using that attached_not_ends[OF assms(1)] by (metis split_list)
qed

lemma resolvable_attached: "f \<in> set (old_frags b) \<Longrightarrow> attached a f \<Longrightarrow> resolvable b a"
  by (auto simp: resolvable_def attached_byte set_all_bytes)

lemma ends_disjoint: "\<not> (an_is_min a \<and> an_is_max a)"
  by (auto simp: an_is_min_def an_is_max_def)

lemma resolves:
  assumes "snapshot_ok ins b" "resolvable b a"
  shows "\<exists>n. offset_for_anchor b a = Some n \<and> n \<le> str_len (bs_visible_text b)"
proof -
  have "readable ins (old_frags b)" using assms(1) unfolding snapshot_ok_def Let_def by (blast intro: frags_ok_readable)
  then have len: "str_len (bs_visible_text b) = vis_len (old_frags b)" using str_len_texts(1) snapshot_frags(6)[OF assms(1)] by simp
  show ?thesis using assms
  proof (cases rule: resolvable_cases)
    case (3 pre f post)
    from offset_for_anchor_ok[OF assms(1) 3(1-4)] show ?thesis using 3(2) len
      by (auto simp: place_def 3(1) attached_def split: bias.splits)
  qed (auto simp: offset_for_anchor_def)
qed

section \<open>The order of anchors\<close>

lemma frag_id_ok:
  assumes "snapshot_ok ins b" "f \<in> set (old_frags b)" "attached a f"
  shows "fragment_id_for_anchor b a = Some (fr_id f)" "try_fragment_id_for_anchor b a = Some (Some (fr_id f))"
  using try_find_ok[OF assms] attached_not_ends[OF assms]
  by (simp_all add: fragment_id_for_anchor_def try_fragment_id_for_anchor_def insertion_fragment_new_def)

lemma ends_id:
  "an_is_min a \<Longrightarrow> fragment_id_for_anchor b a = Some locator_min"
  "an_is_max a \<Longrightarrow> fragment_id_for_anchor b a = Some locator_max"
  using ends_disjoint by (auto simp: fragment_id_for_anchor_def try_fragment_id_for_anchor_def)

lemma same_frag:
  assumes "snapshot_ok ins b" "f \<in> set (old_frags b)" "g \<in> set (old_frags b)" "fr_id f = fr_id g"
  shows "f = g"
  using sorted_wrt_pair[of "\<lambda>f g. fr_id f < fr_id g" "old_frags b" f g] snapshot_frags(2)[OF assms(1)] assms(2-4)
  by (auto simp: ids_ok_def)

text \<open>Comparing the anchors of two bytes of fragments \<open>x\<close> and \<open>y\<close>.\<close>

lemma an_cmp_attached:
  assumes ok: "snapshot_ok ins b" and x: "x \<in> set (old_frags b)" "attached a x" and y: "y \<in> set (old_frags b)" "attached c y"
  shows "an_cmp b a c = Some (if fr_timestamp x = fr_timestamp y
      then then_with (cmp_of (an_offset a) (an_offset c)) (cmp_of (bias_num (an_bias a)) (bias_num (an_bias c)))
      else cmp_of (fr_id x) (fr_id y))"
proof -
  have "an_timestamp a = fr_timestamp x" "an_timestamp c = fr_timestamp y" using x(2) y(2) by (simp_all add: attached_def)
  moreover have "fr_id x \<noteq> fr_id y" if "fr_timestamp x \<noteq> fr_timestamp y" using same_frag[OF ok x(1) y(1)] that by auto
  ultimately show ?thesis using frag_id_ok(1)[OF ok x] frag_id_ok(1)[OF ok y] by (auto simp: an_cmp_def cmp_of_def)
qed

fun rev_ord :: "ordering \<Rightarrow> ordering" where
  "rev_ord Less = Greater"
| "rev_ord Equal = Equal"
| "rev_ord Greater = Less"

lemma rev_ord_simps [simp]:
  "rev_ord (cmp_of i j) = cmp_of j i" "rev_ord (then_with r q) = then_with (rev_ord r) (rev_ord q)"
  by (auto simp: cmp_of_def) (cases r; simp)+

lemma an_cmp_flip: "an_cmp b c a = map_option rev_ord (an_cmp b a c)"
  by (cases "fragment_id_for_anchor b a"; cases "fragment_id_for_anchor b c") (auto simp: an_cmp_def)

lemma an_cmp_frag:
  assumes ok: "snapshot_ok ins b" and x: "x \<in> set (old_frags b)" "attached a x" and y: "y \<in> set (old_frags b)" "attached c y"
    and ng: "an_cmp b a c \<noteq> Some Greater"
  shows "fr_id x \<le> fr_id y"
proof (rule ccontr)
  assume "\<not> fr_id x \<le> fr_id y"
  then have lt: "fr_id y < fr_id x" "x \<noteq> y" by auto
  note cmp = an_cmp_attached[OF ok x y]
  have ts: "fr_timestamp x = fr_timestamp y" using ng lt(1) unfolding cmp by (auto simp: cmp_of_def split: if_splits)
  have "sorted_wrt (\<lambda>f g. fr_id f < fr_id g \<and> apart f g) (old_frags b)"
    using snapshot_frags(2,3)[OF ok] by (simp add: ids_ok_def sorted_wrt_conj2)
  from sorted_wrt_pair[OF this x(1) y(1)] lt have "apart y x" by auto
  then have "an_offset c \<le> fr_insertion_offset x" "fr_insertion_offset x \<le> an_offset a"
    "an_offset c = fr_insertion_offset x \<longrightarrow> an_bias c = Left" "an_offset a = fr_insertion_offset x \<longrightarrow> an_bias a = Right"
    using ts x(2) y(2) by (auto simp: apart_def attached_def split: bias.splits)
  then show False using ng ts unfolding cmp by (auto simp: cmp_of_def split: if_splits)
qed

text \<open>Anchors of a snapshot compare, and those that do not compare greater do not resolve behind.\<close>

lemma an_cmp_order:
  assumes ok: "snapshot_ok ins b" and a: "resolvable b a" and c: "resolvable b c"
  shows "\<exists>r m n. an_cmp b a c = Some r \<and> offset_for_anchor b a = Some m \<and> offset_for_anchor b c = Some n \<and>
    (r \<noteq> Greater \<longrightarrow> m \<le> n)"
proof -
  obtain m n where off: "offset_for_anchor b a = Some m" "offset_for_anchor b c = Some n" "m \<le> str_len (bs_visible_text b)"
    "n \<le> str_len (bs_visible_text b)" using resolves[OF ok a] resolves[OF ok c] by auto
  have below: "locator_min < fr_id f" "fr_id f < locator_max" if "f \<in> set (old_frags b)" for f
    using snapshot_frags(2)[OF ok] that by (auto simp: ids_ok_def id_ok_def)
  have ids: "\<exists>i. fragment_id_for_anchor b x = Some i" if "resolvable b x" for x
    using ok that
  proof (cases rule: resolvable_cases)
    case (3 pre f post)
    then show ?thesis using frag_id_ok(1)[OF ok 3(5,2)] by blast
  qed (auto simp: ends_id)
  obtain i j where "fragment_id_for_anchor b a = Some i" "fragment_id_for_anchor b c = Some j" using ids[OF a] ids[OF c] by blast
  then have "\<exists>r. an_cmp b a c = Some r" by (cases "an_timestamp a = an_timestamp c") (simp_all add: an_cmp_def)
  then obtain r where r: "an_cmp b a c = Some r" by blast
  have "m \<le> n" if ng: "r \<noteq> Greater"
    using ok a
  proof (cases rule: resolvable_cases)
    case 1
    then show ?thesis using off(1) by (simp add: offset_for_anchor_def)
  next
    case amax: 2
    show ?thesis using ok c
    proof (cases rule: resolvable_cases)
      case 1
      have "an_timestamp a \<noteq> an_timestamp c"
        using amax 1 by (simp add: an_is_min_def an_is_max_def LAMPORT_MIN_def LAMPORT_MAX_def)
      moreover have "locator_min < locator_max" by (simp add: locator_min_def locator_max_def word_gt_0)
      ultimately have "r = Greater" using r ends_id(2)[OF amax, of b] ends_id(1)[OF 1, of b] by (auto simp: an_cmp_def cmp_of_def)
      then show ?thesis using ng by simp
    next
      case 2
      then have "\<not> an_is_min c" using ends_disjoint by blast
      then show ?thesis using off(2,3) 2 by (simp add: offset_for_anchor_def)
    next
      case (3 pre f post)
      have "fr_insertion_offset f + fr_len f < 4294967296" using snapshot_frags(4)[OF ok 3(5)] by (simp add: sound_def)
      then have "an_offset c < U32_MAX \<or> an_offset c = U32_MAX \<and> an_bias c = Left"
        using 3(2) by (auto simp: attached_def split: bias.splits)
      then have "r = Greater" using r amax ends_id(2)[OF amax, of b] frag_id_ok(1)[OF ok 3(5,2)] below(2)[OF 3(5)]
        by (auto simp: an_cmp_def cmp_of_def an_is_max_def split: if_splits)
      then show ?thesis using ng by simp
    qed
  next
    case x: (3 pre x post)
    show ?thesis using ok c
    proof (cases rule: resolvable_cases)
      case 1
      have "lvalue (fr_timestamp x) \<noteq> 0" using snapshot_frags(4)[OF ok x(5)] by (simp add: sound_def)
      then have "an_timestamp a \<noteq> an_timestamp c"
        using attached_not_ends(3)[OF ok x(5,2)] 1 by (auto simp: an_is_min_def LAMPORT_MIN_def)
      then have "r = Greater" using r frag_id_ok(1)[OF ok x(5,2)] ends_id(1)[OF 1, of b] below(1)[OF x(5)]
        by (auto simp: an_cmp_def cmp_of_def)
      then show ?thesis using ng by simp
    next
      case 2
      then have "\<not> an_is_min c" using ends_disjoint by blast
      then show ?thesis using off(2,3) 2 by (simp add: offset_for_anchor_def)
    next
      case y: (3 pre' y post')
      have mn: "m = place pre x (an_offset a - fr_insertion_offset x)" "n = place pre' y (an_offset c - fr_insertion_offset y)"
        using offset_for_anchor_ok[OF ok x(1-4)] offset_for_anchor_ok[OF ok y(1-4)] off(1,2) by simp_all
      have k: "an_offset a - fr_insertion_offset x \<le> fr_len x" using x(2) by (auto simp: attached_def split: bias.splits)
      have rr: "r = (if fr_timestamp x = fr_timestamp y
          then then_with (cmp_of (an_offset a) (an_offset c)) (cmp_of (bias_num (an_bias a)) (bias_num (an_bias c)))
          else cmp_of (fr_id x) (fr_id y))" using an_cmp_attached[OF ok x(5,2) y(5,2)] r by simp
      consider "x = y" | "x \<noteq> y" "fr_id x < fr_id y" | "x \<noteq> y" "fr_id y < fr_id x"
        using same_frag[OF ok x(5) y(5)] by fastforce
      then show ?thesis
      proof cases
        case 1
        have "an_offset a \<le> an_offset c" using ng rr 1 by (auto simp: cmp_of_def split: if_splits)
        moreover have "pre = pre'"
        proof -
          have "x \<notin> set pre" "x \<notin> set post" using snapshot_frags(2)[OF ok] x(1) by (auto simp: ids_ok_def sorted_wrt_append)
          then show ?thesis using x(1) y(1) 1 append_Cons_eq_iff[of x pre post pre' post'] by simp
        qed
        ultimately show ?thesis using mn 1 by (auto simp: place_def)
      next
        case 2
        show ?thesis unfolding mn by (rule place_le[OF ok x(1) y(1) 2(2) k])
      next
        case 3
        then show ?thesis using an_cmp_frag[OF ok x(5,2) y(5,2)] r ng by simp
      qed
    qed
  qed
  then show ?thesis using r off by blast
qed

section \<open>Anchors are in the order of their keys\<close>

definition an_key :: "buffer_snapshot \<Rightarrow> anchor \<Rightarrow> locator \<times> nat \<times> nat" where
  "an_key b a = (the (fragment_id_for_anchor b a), an_offset a, bias_num (an_bias a))"

lemma bias_num_inject [simp]: "bias_num p = bias_num q \<longleftrightarrow> p = q"
  by (cases p; cases q) simp_all

lemma then_with_cmp [simp]: "then_with (cmp_of i j) (cmp_of k l) = cmp_of (i, k) (j, l)"
  by (auto simp: cmp_of_def less_prod_def)

lemma cmp_of_assoc [simp]: "cmp_of ((i, k), l) ((j, m), n) = cmp_of (i, k, l) (j, m, n)"
  by (auto simp: cmp_of_def less_prod_def)

lemma ends_cases:
  assumes "snapshot_ok ins b" "resolvable b a"
  obtains (min) "an_is_min a" "fragment_id_for_anchor b a = Some locator_min" "an_timestamp a = LAMPORT_MIN"
  | (max) "an_is_max a" "fragment_id_for_anchor b a = Some locator_max" "an_timestamp a = LAMPORT_MAX"
  | (attached) pre f post where "old_frags b = pre @ f # post" "attached a f" "f \<in> set (old_frags b)" "fragment_id_for_anchor b a = Some (fr_id f)"
      "an_timestamp a = fr_timestamp f" "an_timestamp a \<noteq> LAMPORT_MIN" "an_offset a < U32_MAX \<or> an_offset a = U32_MAX \<and> an_bias a = Left"
      "locator_min < fr_id f" "fr_id f < locator_max"
  using assms
proof (cases rule: resolvable_cases)
  case (3 pre f post)
  have s: "fr_insertion_offset f + fr_len f < 4294967296" "lvalue (fr_timestamp f) \<noteq> 0"
    using snapshot_frags(4)[OF assms(1) 3(5)] by (simp_all add: sound_def)
  have "an_offset a < U32_MAX \<or> an_offset a = U32_MAX \<and> an_bias a = Left"
    using 3(2) s(1) by (auto simp: attached_def split: bias.splits)
  moreover have "an_timestamp a \<noteq> LAMPORT_MIN" using attached_not_ends(3)[OF assms(1) 3(5,2)] s(2) by (auto simp: LAMPORT_MIN_def)
  moreover have "locator_min < fr_id f" "fr_id f < locator_max"
    using snapshot_frags(2)[OF assms(1)] 3(5) by (auto simp: ids_ok_def id_ok_def)
  ultimately show thesis
    using attached[OF 3(1,2,5) frag_id_ok(1)[OF assms(1) 3(5,2)] attached_not_ends(3)[OF assms(1) 3(5,2)]] by blast
qed (use min max in \<open>auto simp: ends_id an_is_min_def an_is_max_def\<close>)

text \<open>Fragments of one insertion are in its order, so that comparing offsets suffices.\<close>

lemma same_insertion:
  assumes ok: "snapshot_ok ins b" and x: "x \<in> set (old_frags b)" "attached a x" and y: "y \<in> set (old_frags b)" "attached c y"
    and ts: "an_timestamp a = an_timestamp c"
  shows "cmp_of (an_offset a, bias_num (an_bias a)) (an_offset c, bias_num (an_bias c)) =
    cmp_of (fr_id x, an_offset a, bias_num (an_bias a)) (fr_id y, an_offset c, bias_num (an_bias c))"
proof -
  have fts: "fr_timestamp x = fr_timestamp y" using x(2) y(2) ts by (simp add: attached_def)
  have cmp: "an_cmp b a c = Some (cmp_of (an_offset a, bias_num (an_bias a)) (an_offset c, bias_num (an_bias c)))"
    "an_cmp b c a = Some (cmp_of (an_offset c, bias_num (an_bias c)) (an_offset a, bias_num (an_bias a)))"
    using ts by (simp_all add: an_cmp_def)
  show ?thesis
  proof (cases "fr_id x" "fr_id y" rule: linorder_cases)
    case less
    then have "an_cmp b c a = Some Greater" using an_cmp_frag[OF ok y x] less leD by blast
    then show ?thesis using less cmp(2) by (auto simp: cmp_of_def split: if_splits)
  next
    case greater
    then have "an_cmp b a c = Some Greater" using an_cmp_frag[OF ok x y] greater leD by blast
    then show ?thesis using greater cmp(1) by (auto simp: cmp_of_def split: if_splits)
  qed (simp add: cmp_of_def)
qed

lemma an_cmp_key:
  assumes ok: "snapshot_ok ins b" and a: "resolvable b a" and c: "resolvable b c"
  shows "an_cmp b a c = Some (cmp_of (an_key b a) (an_key b c))"
proof (cases "an_timestamp a = an_timestamp c")
  case ts: True
  have ne: "LAMPORT_MIN \<noteq> LAMPORT_MAX" by (simp add: LAMPORT_MIN_def LAMPORT_MAX_def)
  have "cmp_of (an_offset a, bias_num (an_bias a)) (an_offset c, bias_num (an_bias c)) = cmp_of (an_key b a) (an_key b c)"
    using ok a
  proof (cases rule: ends_cases)
    case x: min
    show ?thesis using ok c by (cases rule: ends_cases) (use x ts ne in \<open>auto simp: an_key_def an_is_min_def an_is_max_def cmp_of_def\<close>)
  next
    case x: max
    show ?thesis using ok c
    proof (cases rule: ends_cases)
      case (attached pre f post)
      then show ?thesis using x by (auto simp: an_key_def cmp_of_def an_is_max_def)
    qed (use x ts ne in \<open>auto simp: an_key_def an_is_min_def an_is_max_def cmp_of_def\<close>)
  next
    case x: (attached pre f post)
    show ?thesis using ok c
    proof (cases rule: ends_cases)
      case max
      then show ?thesis using x by (auto simp: an_key_def cmp_of_def an_is_max_def)
    next
      case y: (attached pre' g post')
      show ?thesis using same_insertion[OF ok x(3,2) y(3,2) ts] x(4) y(4) by (simp add: an_key_def)
    qed (use x ts in auto)
  qed
  then show ?thesis using ts by (simp add: an_cmp_def)
next
  case False
  have ids: "\<exists>i. fragment_id_for_anchor b z = Some i" if "resolvable b z" for z
    using ok that by (cases rule: ends_cases) simp_all
  obtain i j where "fragment_id_for_anchor b a = Some i" "fragment_id_for_anchor b c = Some j" using ids a c by blast
  then show ?thesis using False by (simp add: an_cmp_def an_key_def)
qed

lemma an_key_inject:
  assumes ok: "snapshot_ok ins b" and a: "resolvable b a" and c: "resolvable b c" and k: "an_key b a = an_key b c"
  shows "an_timestamp a = an_timestamp c \<and> an_offset a = an_offset c \<and> an_bias a = an_bias c"
proof -
  have ne: "locator_min \<noteq> locator_max" by (simp add: locator_min_def locator_max_def)
  have "an_timestamp a = an_timestamp c"
    using ok a
  proof (cases rule: ends_cases)
    case x: (attached pre f post)
    show ?thesis using ok c
    proof (cases rule: ends_cases)
      case y: (attached pre' g post')
      then show ?thesis using k x same_frag[OF ok x(3) y(3)] by (simp add: an_key_def)
    qed (use k x in \<open>auto simp: an_key_def\<close>)
  next
    case x: min
    show ?thesis using ok c by (cases rule: ends_cases) (use k x ne in \<open>auto simp: an_key_def\<close>)
  next
    case x: max
    show ?thesis using ok c by (cases rule: ends_cases) (use k x ne in \<open>auto simp: an_key_def\<close>)
  qed
  then show ?thesis using k by (simp add: an_key_def)
qed

section \<open>Anchors and changes of the buffer\<close>

lemma subseq_two:
  assumes "p \<in> set xs" "q \<in> set ys"
  shows "subseq [p, q] (xs @ ys)"
proof -
  have "subseq [p] xs" "subseq [q] ys" using assms by (simp_all add: subseq_singleton_left)
  then have "subseq ([p] @ [q]) (xs @ ys)" by (rule list_emb_append_mono)
  then show ?thesis by simp
qed

lemma subseq_set: "subseq xs ys \<Longrightarrow> set xs \<subseteq> set ys"
  using set_nths_subset by (fastforce simp: subseq_conv_nths)

lemma subseq_two_set: "subseq [p, q] xs \<Longrightarrow> p \<in> set xs \<and> q \<in> set xs"
  using subseq_set[of "[p, q]" xs] by simp

lemma subseq_asym: "distinct zs \<Longrightarrow> subseq [p, q] zs \<Longrightarrow> \<not> subseq [q, p] zs"
proof (induction zs)
  case (Cons z zs)
  show ?case
  proof
    assume qp: "subseq [q, p] (z # zs)"
    show False using Cons qp subseq_two_set[of p q zs] subseq_two_set[of q p zs]
      by (auto simp: subseq_Cons2_iff subseq_singleton_left split: if_splits)
  qed
qed simp

lemma distinct_bytes: "apart_list fs \<Longrightarrow> distinct (all_bytes fs)"
proof (induction fs)
  case (Cons f fs)
  have "set (frag_bytes f) \<inter> set (frag_bytes g) = {}" if "g \<in> set fs" for g
    using Cons.prems that by (fastforce simp: set_frag_bytes apart_def)
  moreover have "distinct (frag_bytes f)" by (simp add: frag_bytes_def distinct_map inj_on_def)
  ultimately show ?case using Cons by (auto simp: set_all_bytes)
qed simp

lemma bytes_before:
  assumes "snapshot_ok ins b" "x \<in> set (old_frags b)" "y \<in> set (old_frags b)" "fr_id x < fr_id y"
    and "p \<in> set (frag_bytes x)" "q \<in> set (frag_bytes y)"
  shows "subseq [p, q] (all_bytes (old_frags b))"
proof -
  obtain l r where lr: "old_frags b = l @ x # r" using assms(2) by (meson split_list)
  have "y \<notin> set l" using snapshot_frags(2)[OF assms(1)] assms(4) lr by (auto simp: ids_ok_def sorted_wrt_append)
  moreover have "y \<noteq> x" using assms(4) by auto
  ultimately have "y \<in> set r" using assms(3) lr by auto
  then have "subseq [p, q] (frag_bytes x @ all_bytes r)" using assms(5,6) by (intro subseq_two) (auto simp: set_all_bytes)
  then show ?thesis by (simp add: lr list_emb_append2)
qed

lemma resolvable_kept:
  "subseq (all_bytes (old_frags b)) (all_bytes (old_frags b')) \<Longrightarrow> resolvable b a \<Longrightarrow> resolvable b' a"
  using subseq_set by (auto simp: resolvable_def)

lemma an_cmp_kept:
  assumes ok: "snapshot_ok ins b" "snapshot_ok ins' b'" and s: "subseq (all_bytes (old_frags b)) (all_bytes (old_frags b'))"
    and a: "resolvable b a" and c: "resolvable b c"
  shows "an_cmp b' a c = an_cmp b a c"
proof -
  note a' = resolvable_kept[OF s a] and c' = resolvable_kept[OF s c]
  have below: "locator_min < fr_id f \<and> fr_id f < locator_max" if "snapshot_ok ins b" "f \<in> set (old_frags b)" for f ins b
    using snapshot_frags(2)[OF that(1)] that(2) by (auto simp: ids_ok_def id_ok_def)
  have att: "\<exists>i. fragment_id_for_anchor b x = Some i \<and> (locator_min < i \<and> i < locator_max)"
    if "snapshot_ok ins b" "resolvable b x" "\<not> an_is_min x" "\<not> an_is_max x" for x ins b
    using that(1,2)
  proof (cases rule: resolvable_cases)
    case (3 pre f post)
    then show ?thesis using frag_id_ok(1)[OF that(1) 3(5,2)] below[OF that(1) 3(5)] by blast
  qed (use that in simp_all)
  show ?thesis
  proof (cases "an_is_min a \<or> an_is_max a \<or> an_is_min c \<or> an_is_max c")
    case True
    have lt: "locator_min < locator_max" by (simp add: locator_min_def locator_max_def word_gt_0)
    have i: "(an_is_min x \<and> fragment_id_for_anchor b x = Some locator_min \<and> fragment_id_for_anchor b' x = Some locator_min) \<or>
      (an_is_max x \<and> fragment_id_for_anchor b x = Some locator_max \<and> fragment_id_for_anchor b' x = Some locator_max) \<or>
      (\<not> an_is_min x \<and> \<not> an_is_max x \<and> (\<exists>i j. fragment_id_for_anchor b x = Some i \<and> fragment_id_for_anchor b' x = Some j \<and>
        locator_min < i \<and> i < locator_max \<and> locator_min < j \<and> j < locator_max))" if "resolvable b x" for x
      using ends_id[of x b] ends_id[of x b'] att[OF ok(1) that] att[OF ok(2) resolvable_kept[OF s that]] by blast
    show ?thesis using True i[OF a] i[OF c] lt ends_disjoint by (auto simp: an_cmp_def cmp_of_def)
  next
    case False
    have frag: "\<exists>f \<in> set (old_frags b). attached x f" if "snapshot_ok ins b" "resolvable b x" "\<not> an_is_min x" "\<not> an_is_max x" for x ins b
      using that by (cases rule: resolvable_cases[OF that(1,2)]) auto
    obtain x where x: "x \<in> set (old_frags b)" "attached a x" using frag[OF ok(1) a] False by blast
    obtain y where y: "y \<in> set (old_frags b)" "attached c y" using frag[OF ok(1) c] False by blast
    obtain x' where x': "x' \<in> set (old_frags b')" "attached a x'" using frag[OF ok(2) a'] False by blast
    obtain y' where y': "y' \<in> set (old_frags b')" "attached c y'" using frag[OF ok(2) c'] False by blast
    have ts: "fr_timestamp x' = fr_timestamp x" "fr_timestamp y' = fr_timestamp y"
      using x(2) y(2) x'(2) y'(2) by (simp_all add: attached_def)
    have bt: "anchor_byte a \<in> set (frag_bytes x)" "anchor_byte c \<in> set (frag_bytes y)"
      "anchor_byte a \<in> set (frag_bytes x')" "anchor_byte c \<in> set (frag_bytes y')"
      using x y x' y' by (simp_all add: attached_byte)
    have dis: "distinct (all_bytes (old_frags b'))" using snapshot_frags(3)[OF ok(2)] by (rule distinct_bytes)
    have "cmp_of (fr_id x') (fr_id y') = cmp_of (fr_id x) (fr_id y)" if ne: "fr_timestamp x \<noteq> fr_timestamp y"
    proof -
      have d: "x \<noteq> y" "x' \<noteq> y'" using ne ts by auto
      consider "fr_id x < fr_id y" | "fr_id y < fr_id x" using same_frag[OF ok(1) x(1) y(1)] d(1) by fastforce
      then show ?thesis
      proof cases
        case 1
        have "subseq [anchor_byte a, anchor_byte c] (all_bytes (old_frags b'))"
          using subseq_order.trans[OF bytes_before[OF ok(1) x(1) y(1) 1 bt(1,2)] s] by simp
        then have "\<not> fr_id y' < fr_id x'" using subseq_asym[OF dis] bytes_before[OF ok(2) y'(1) x'(1) _ bt(4,3)] by blast
        then have "fr_id x' < fr_id y'" using same_frag[OF ok(2) x'(1) y'(1)] d(2) by fastforce
        then show ?thesis using 1 by (simp add: cmp_of_def)
      next
        case 2
        have "subseq [anchor_byte c, anchor_byte a] (all_bytes (old_frags b'))"
          using subseq_order.trans[OF bytes_before[OF ok(1) y(1) x(1) 2 bt(2,1)] s] by simp
        then have "\<not> fr_id x' < fr_id y'" using subseq_asym[OF dis] bytes_before[OF ok(2) x'(1) y'(1) _ bt(3,4)] by blast
        then have "fr_id y' < fr_id x'" using same_frag[OF ok(2) x'(1) y'(1)] d(2) by fastforce
        then show ?thesis using 2 by (auto simp: cmp_of_def)
      qed
    qed
    then show ?thesis using an_cmp_attached[OF ok(1) x y] an_cmp_attached[OF ok(2) x' y'] ts by simp
  qed
qed

section \<open>The text beside an anchor\<close>

text \<open>The byte of the visible text on the side of the anchor that its bias names.\<close>

definition beside :: "buffer_snapshot \<Rightarrow> anchor \<Rightarrow> nat option" where
  "beside b a = map_option (\<lambda>n. as_bytes (bs_visible_text b) ! (case an_bias a of Left \<Rightarrow> n - 1 | Right \<Rightarrow> n))
     (offset_for_anchor b a)"

lemma visible_byte:
  assumes ok: "snapshot_ok ins b" and fs: "old_frags b = pre @ x # post" and v: "fr_visible x" and k: "k < fr_len x"
  shows "as_bytes (bs_visible_text b) ! (vis_len pre + k) = as_bytes (ins (fr_timestamp x)) ! (fr_insertion_offset x + k)"
proof -
  have "readable ins (old_frags b)" using ok unfolding snapshot_ok_def Let_def by (blast intro: frags_ok_readable)
  then have r: "str_len (vtext ins pre) = vis_len pre" "frag_str ins x \<noteq> None" using str_len_texts(1) by (auto simp: fs)
  then obtain p t q where t: "frag_str ins x = Some t" "ins (fr_timestamp x) = p @ t @ q" "str_len p = fr_insertion_offset x"
    "str_len t = fr_len x" using frag_str_Some by blast
  have "bs_visible_text b = vtext ins pre @ t @ vtext ins post" using snapshot_frags(6)[OF ok] fs v t(1) by simp
  then show ?thesis using t k r(1) by (simp add: nth_append)
qed

lemma valid_visible:
  assumes ok: "snapshot_ok ins b" and fs: "old_frags b = pre @ x # post" and a: "attached a x" and v: "an_is_valid b a = Some True"
  shows "fr_visible x"
proof -
  have x: "x \<in> set (old_frags b)" using fs by simp
  show ?thesis using v attached_not_ends[OF ok x a] frag_id_ok(2)[OF ok x a] find_fragment_ok[OF ok fs]
    by (auto simp: an_is_valid_def split: if_splits)
qed

lemma beside_ok:
  assumes ok: "snapshot_ok ins b" and a: "resolvable b a" "\<not> an_is_min a" "\<not> an_is_max a" and v: "an_is_valid b a = Some True"
  shows "beside b a = Some (as_bytes (ins (an_timestamp a)) ! snd (anchor_byte a))"
  using ok a(1)
proof (cases rule: resolvable_cases)
  case (3 pre x post)
  have vx: "fr_visible x" by (rule valid_visible[OF ok 3(1,2) v])
  show ?thesis
  proof (cases "an_bias a")
    case Left
    then have "fr_insertion_offset x < an_offset a" "an_offset a - fr_insertion_offset x - 1 < fr_len x" "an_timestamp a = fr_timestamp x"
      using 3(2) by (auto simp: attached_def)
    then show ?thesis using visible_byte[OF ok 3(1) vx, of "an_offset a - fr_insertion_offset x - 1"] vx Left
      by (simp add: beside_def offset_for_anchor_ok[OF ok 3(1-4)] place_def anchor_byte_def)
  next
    case Right
    then have "fr_insertion_offset x \<le> an_offset a" "an_offset a - fr_insertion_offset x < fr_len x" "an_timestamp a = fr_timestamp x"
      using 3(2) by (auto simp: attached_def)
    then show ?thesis using visible_byte[OF ok 3(1) vx, of "an_offset a - fr_insertion_offset x"] vx Right
      by (simp add: beside_def offset_for_anchor_ok[OF ok 3(1-4)] place_def anchor_byte_def)
  qed
qed (use a in simp_all)

lemma resolvable_observed:
  assumes "snapshot_ok ins b" "resolvable b a" "\<not> an_is_min a" "\<not> an_is_max a"
  shows "global_observed (bs_version b) (an_timestamp a)"
  using assms(1,2)
proof (cases rule: resolvable_cases)
  case (3 pre x post)
  then show ?thesis using snapshot_frags(4)[OF assms(1) 3(5)] by (simp add: sound_def attached_def)
qed (use assms in simp_all)

text \<open>What a change of the buffer keeps that keeps the bytes of insertions and their texts.\<close>

definition anchors_kept :: "buffer_snapshot \<Rightarrow> buffer_snapshot \<Rightarrow> anchor \<Rightarrow> anchor \<Rightarrow> bool" where
  "anchors_kept b b' a c \<longleftrightarrow> an_cmp b' a c = an_cmp b a c \<and>
     (\<exists>r m n. an_cmp b a c = Some r \<and> offset_for_anchor b' a = Some m \<and> offset_for_anchor b' c = Some n \<and>
        (r \<noteq> Greater \<longrightarrow> m \<le> n) \<and> (r \<noteq> Less \<longrightarrow> n \<le> m)) \<and>
     (\<not> an_is_min a \<and> \<not> an_is_max a \<and> an_is_valid b a = Some True \<and> an_is_valid b' a = Some True \<longrightarrow> beside b' a = beside b a)"

lemma anchors_keptI:
  assumes ok: "snapshot_ok ins b" "snapshot_ok ins' b'" and s: "subseq (all_bytes (old_frags b)) (all_bytes (old_frags b'))"
    and a: "resolvable b a" and c: "resolvable b c" and i: "\<And>t. global_observed (bs_version b) t \<Longrightarrow> ins' t = ins t"
  shows "anchors_kept b b' a c"
proof -
  note a' = resolvable_kept[OF s a] and c' = resolvable_kept[OF s c]
  have cmp: "an_cmp b' a c = an_cmp b a c" by (rule an_cmp_kept[OF ok s a c])
  from an_cmp_order[OF ok(2) a' c'] obtain r m n where o: "an_cmp b' a c = Some r" "offset_for_anchor b' a = Some m"
    "offset_for_anchor b' c = Some n" "r \<noteq> Greater \<longrightarrow> m \<le> n" by blast
  have "r \<noteq> Less \<longrightarrow> n \<le> m"
    using an_cmp_order[OF ok(2) c' a'] o(1-3) an_cmp_flip[of b' c a] by (cases r) auto
  moreover have "beside b' a = beside b a"
    if "\<not> an_is_min a" "\<not> an_is_max a" "an_is_valid b a = Some True" "an_is_valid b' a = Some True"
    using beside_ok[OF ok(1) a that(1-3)] beside_ok[OF ok(2) a' that(1,2,4)] i[OF resolvable_observed[OF ok(1) a that(1,2)]] by simp
  moreover have "an_cmp b a c = Some r" using cmp o(1) by simp
  ultimately show ?thesis unfolding anchors_kept_def using cmp o(2-4) by blast
qed

lemma subseq_bytes_without: "subseq (bytes_without ts fs) (all_bytes fs)"
  by (induction fs) (auto simp: bytes_without_def list_emb_append2 list_emb_append_mono)

section \<open>The bytes of an anchor\<close>

lemma le_bytes_Suc: "le_bytes (Suc k) n = n mod 256 # le_bytes k (n div 256)"
  by (simp add: le_bytes_def map_upt_Suc div_mult2_eq del: upt_Suc)

lemma le_bytes_inject: "n < 256 ^ k \<Longrightarrow> m < 256 ^ k \<Longrightarrow> le_bytes k n = le_bytes k m \<Longrightarrow> n = m"
proof (induction k arbitrary: n m)
  case (Suc k)
  then have "n div 256 = m div 256" "n mod 256 = m mod 256"
    using Suc.IH[of "n div 256" "m div 256"] by (auto simp: le_bytes_Suc less_mult_imp_div_less mult.commute)
  then show ?case by (metis div_mult_mod_eq)
qed simp

lemma length_le_bytes [simp]: "length (le_bytes k n) = k"
  by (simp add: le_bytes_def)

text \<open>The twenty bytes identify an anchor.\<close>

lemma opaque_id_inject:
  assumes "an_offset a < 2 ^ 32" "an_offset c < 2 ^ 32" "an_buffer a < 2 ^ 64" "an_buffer c < 2 ^ 64" "opaque_id a = opaque_id c"
  shows "a = c"
proof -
  have e: "le_bytes 8 (an_buffer a) = le_bytes 8 (an_buffer c)" "le_bytes 4 (an_offset a) = le_bytes 4 (an_offset c)"
    "le_bytes 4 (unat (an_value a)) = le_bytes 4 (unat (an_value c))"
    "le_bytes 2 (unat (an_replica a)) = le_bytes 2 (unat (an_replica c))" "an_bias a = an_bias c"
    using assms(5) by (simp_all add: opaque_id_def)
  have u: "unat (v :: 32 word) < 256 ^ 4" "unat (r :: 16 word) < 256 ^ 2" for v r
    using unsigned_less[of v, where ?'a = nat] unsigned_less[of r, where ?'a = nat] by simp_all
  have "an_buffer a = an_buffer c" "an_offset a = an_offset c" "an_value a = an_value c" "an_replica a = an_replica c"
    using assms(1-4) le_bytes_inject[OF _ _ e(1)] le_bytes_inject[OF _ _ e(2)] le_bytes_inject[OF u(1) u(1) e(3)]
      le_bytes_inject[OF u(2) u(2) e(4)] by (simp_all add: word_unat_eq_iff)
  then show ?thesis using e(5) by (simp add: anchor.equality)
qed

end
