(* ===== verification/AnchorSummaries.thy ===== *)
theory AnchorSummaries
  imports AnchorProps
begin

text \<open>
  Summaries of many anchors: one walk over the fragments and one over the text give what resolving
  each anchor by itself gives.
\<close>

section \<open>Summaries of ranges\<close>

context text_dimension_laws
begin

lemma from_text_summary_ok [simp]: "from_text_summary E (text_of s) = measure s"
  using measure_add[of "[]" s] by (simp add: from_text_summary_def measure_zero)

lemma text_cursor_summary_ok:
  assumes "reads_on c V (x @ rest)" "n = tc_offset c + str_len x"
  shows "\<exists>c'. text_cursor_summary E c n = Some (measure x, c') \<and> reads_on c' V rest"
  using text_cursor_slice_ok[OF assms(1) refl] assms(2) by (auto simp: text_cursor_summary_def)

lemma text_summary_for_range_ok:
  assumes "bs_visible_text b = p @ x @ q"
  shows "text_summary_for_range E number_to_offset b (str_len p, str_len p + str_len x) = Some (measure x)"
proof -
  have "reads_on (text_cursor_new (bs_visible_text b)) (bs_visible_text b) (p @ x @ q)"
    by (simp add: reads_on_def text_cursor_new_def assms)
  from text_cursor_slice_ok[OF this refl] obtain c where c: "text_cursor_slice (text_cursor_new (bs_visible_text b)) (str_len p) = Some (p, c)"
    "reads_on c (bs_visible_text b) (x @ q)" by (auto simp: text_cursor_new_def)
  have o: "tc_offset c = str_len p"
    using c(2) by (auto simp: reads_on_def assms)
  have "str_is_char_boundary (bs_visible_text b) (str_len p)" "str_is_char_boundary (bs_visible_text b) (str_len p + str_len x)"
    unfolding assms str_boundary_iff by (metis, metis append.assoc str_len_simps(3))
  then have "number_to_offset b (str_len p) = Some (str_len p)" "number_to_offset b (str_len p + str_len x) = Some (str_len p + str_len x)"
    by (simp_all add: number_to_offset_def usize_to_offset_def)
  then show ?thesis using text_cursor_summary_ok[OF c(2) refl] c(1) o by (auto simp: text_summary_for_range_def)
qed

text \<open>Of an anchor: the measure of the text before it.\<close>

lemma summary_for_anchor_ok:
  assumes "offset_for_anchor b a = Some n" "bs_visible_text b = p @ q" "n = str_len p"
  shows "summary_for_anchor E b a = Some (measure p)"
  using text_summary_for_range_ok[of b "[]" p q] assms by (simp add: summary_for_anchor_def)

section \<open>The walk over anchors\<close>

lemma summaries_loop_ok:
  assumes ok: "snapshot_ok ins b" and c: "cursor_ready undo_dim_pair fragment_sum c pre post" "pre @ post = old_frags b"
    and tc: "reads_on tc (bs_visible_text b) rest" "bs_visible_text b = p @ rest"
    and as: "\<forall>a \<in> fst ` set as. resolvable b a \<and> (\<exists>n. offset_for_anchor b a = Some n \<and> str_is_char_boundary (bs_visible_text b) n)"
      "sorted_wrt (\<lambda>a c. an_cmp b (fst a) (fst c) \<noteq> Some Greater) as"
    and ahead: "\<forall>a \<in> fst ` set as. \<not> an_is_min a \<longrightarrow> \<not> an_is_max a \<longrightarrow>
      (\<exists>x \<in> set post. attached a x) \<and> (\<forall>n. offset_for_anchor b a = Some n \<longrightarrow> str_len p \<le> n)"
  shows "summaries_loop E b as c tc (measure p) = those (map (\<lambda>(a, y). map_option (\<lambda>d. (d, y)) (summary_for_anchor E b a)) as)"
  using c tc as ahead
proof (induction as arbitrary: c pre post tc rest p)
  case (Cons ay as)
  obtain a y where ay: "ay = (a, y)" by force
  note pm = Cons.prems
  have a: "resolvable b a" using pm(5) ay by simp
  show ?case
  proof (cases "an_is_min a \<or> an_is_max a")
    case True
    have "summaries_loop E b as c tc (measure p) = those (map (\<lambda>(a, y). map_option (\<lambda>d. (d, y)) (summary_for_anchor E b a)) as)"
      using pm by (intro Cons.IH[OF pm(1-4)]) auto
    moreover have "an_is_min a \<Longrightarrow> summary_for_anchor E b a = Some (measure [])"
      using summary_for_anchor_ok[of b a 0 "[]" "bs_visible_text b"] by (simp add: offset_for_anchor_def)
    moreover have "an_is_max a \<Longrightarrow> summary_for_anchor E b a = Some (measure (bs_visible_text b))"
    proof -
      assume "an_is_max a"
      then have "offset_for_anchor b a = Some (str_len (bs_visible_text b))" using ends_disjoint by (auto simp: offset_for_anchor_def)
      from summary_for_anchor_ok[OF this, of "bs_visible_text b" "[]"] show ?thesis by simp
    qed
    ultimately show ?thesis using True by (auto simp: ay measure_zero)
  next
    case False
    then have nm: "\<not> an_is_min a" "\<not> an_is_max a" by simp_all
    obtain x where x: "x \<in> set post" "attached a x" using pm(7) nm ay by auto
    then obtain xs post' where post: "post = xs @ x # post'" by (meson split_list)
    have fs: "old_frags b = (pre @ xs) @ x # post'" "old_frags b = pre @ xs @ x # post'" using pm(2) post by simp_all
    have xin: "x \<in> set (old_frags b)" by (simp add: fs)
    have ids: "ids_ok (pre @ xs @ x # post')" using snapshot_frags(2)[OF ok] fs(2) by simp
    have nl: "locator_target (fr_id x) (dpos undo_dim_pair fragment_sum pre) \<noteq> Less"
    proof (cases "pre = []")
      case False
      then have "fr_id (last pre) < fr_id x" using ids by (auto simp: ids_ok_def sorted_wrt_append)
      then show ?thesis using False by (auto simp: dpos_undo_pair locator_target_def cmp_of_def)
    qed (simp add: dpos_undo_pair locator_target_def)
    obtain c' f where c': "cursor_seek_forward undo_dim_pair (locator_target (fr_id x)) Left c = Some (f, c')"
      "cursor_at undo_dim_pair fragment_sum c' (pre @ xs) (x # post')"
      using loc_vis.cursor_seek_forward_ok[OF pm(1)[unfolded post] snapshot_frags(5)[OF ok, unfolded fs(2)] locator_mono[OF ids] nl
        locator_scan[OF ids refl]] by auto
    have it: "cursor_item c' = Some (Some x)" using cursor_item_ok(1)[OF c'(2)] by simp
    have ps: "snd (c_position c') = vis_len (pre @ xs)" using c'(2) by (simp add: cursor_at_def dpos_undo_pair)
    obtain n where n: "offset_for_anchor b a = Some n" "str_is_char_boundary (bs_visible_text b) n" "str_len p \<le> n"
      using pm(5,7) nm ay by auto
    have nn: "n = place (pre @ xs) x (an_offset a - fr_insertion_offset x)" using offset_for_anchor_ok[OF ok fs(1) x(2) nm] n(1) by simp
    obtain r v where r: "bs_visible_text b = (p @ r) @ v" "n = str_len (p @ r)"
    proof -
      obtain u v where u: "bs_visible_text b = u @ v" "n = str_len u" using n(2) str_boundary_iff by blast
      have "u @ v = p @ rest" using u(1) pm(4) by simp
      then have "\<exists>r. u = p @ r" using n(3) u(2) by (auto simp: append_eq_append_conv2)
      then show thesis using that u by auto
    qed
    have rest: "rest = r @ v" using r(1) pm(4) by (metis append.assoc same_append_eq)
    have to: "tc_offset tc = str_len p" using pm(3,4) by (auto simp: reads_on_def)
    obtain tc' where tc': "text_cursor_summary E tc n = Some (measure r, tc')" "reads_on tc' (bs_visible_text b) v"
      using text_cursor_summary_ok[of tc "bs_visible_text b" r v n] pm(3) rest to r(2) by auto
    have later: "(\<exists>z \<in> set (x # post'). attached a' z) \<and> (\<forall>m. offset_for_anchor b a' = Some m \<longrightarrow> str_len (p @ r) \<le> m)"
      if a': "a' \<in> fst ` set as" "\<not> an_is_min a'" "\<not> an_is_max a'" for a'
    proof -
      obtain z where z: "z \<in> set post" "attached a' z" using pm(7) a' by auto
      have zin: "z \<in> set (old_frags b)" using z(1) pm(2) by (metis Un_iff set_append)
      have cmp: "an_cmp b a a' \<noteq> Some Greater" "resolvable b a'" using pm(5,6) a'(1) ay by auto
      have "fr_id x \<le> fr_id z" by (rule an_cmp_frag[OF ok xin x(2) zin z(2) cmp(1)])
      then have "z \<notin> set xs" using ids by (auto simp: ids_ok_def sorted_wrt_append)
      then have "z \<in> set (x # post')" using z(1) post by auto
      moreover have "n \<le> m" if "offset_for_anchor b a' = Some m" for m
        using an_cmp_order[OF ok a cmp(2)] cmp(1) n(1) that by auto
      ultimately show ?thesis using z(2) r(2) by auto
    qed
    have "summaries_loop E b as c' tc' (measure (p @ r)) = those (map (\<lambda>(a, y). map_option (\<lambda>d. (d, y)) (summary_for_anchor E b a)) as)"
    proof (rule Cons.IH[OF _ _ tc'(2) r(1)])
      show "cursor_ready undo_dim_pair fragment_sum c' (pre @ xs) (x # post')" using c'(2) by (simp add: cursor_ready_def)
    qed (use fs(1) pm(5,6) later ay in auto)
    moreover have "summary_for_anchor E b a = Some (measure (p @ r))" by (rule summary_for_anchor_ok[OF n(1) r])
    moreover have "fr_visible x \<Longrightarrow> csub (an_offset a) (fr_insertion_offset x) = Some (an_offset a - fr_insertion_offset x)"
      "an_timestamp a = fr_timestamp x" using x(2) by (auto simp: attached_def csub_def split: bias.splits)
    ultimately show ?thesis
      using nm try_find_ok[OF ok xin x(2)] c'(1) it ps tc'(1) nn
      by (cases "fr_visible x") (simp_all add: ay assert_opt_def insertion_fragment_new_def place_def measure_sum Let_def)
  qed
qed simp

lemma summaries_walk:
  assumes ok: "snapshot_ok ins b" "height (bs_fragments b) < STACK_CAP"
    and as: "\<forall>a \<in> fst ` set as. resolvable b a \<and> (\<exists>n. offset_for_anchor b a = Some n \<and> str_is_char_boundary (bs_visible_text b) n)"
      "sorted_wrt (\<lambda>a c. an_cmp b (fst a) (fst c) \<noteq> Some Greater) as"
  shows "summaries_for_anchors_with_payload E b as = those (map (\<lambda>(a, y). map_option (\<lambda>d. (d, y)) (summary_for_anchor E b a)) as)"
proof -
  have "cursor_ready undo_dim_pair fragment_sum (cursor_new undo_dim_pair (bs_fragments b)) [] (old_frags b)"
    using cursor_new_fresh[OF snapshot_frags(1)[OF ok(1)] ok(2), of undo_dim_pair] by (simp add: cursor_ready_def cursor_new_def)
  moreover have "(\<exists>x \<in> set (old_frags b). attached a x)" if "a \<in> fst ` set as" "\<not> an_is_min a" "\<not> an_is_max a" for a
    using ok(1) as(1) that resolvable_cases[OF ok(1), of a] by metis
  ultimately show ?thesis
    using summaries_loop_ok[OF ok(1), of _ "[]" "old_frags b" "text_cursor_new (bs_visible_text b)" "bs_visible_text b" "[]" as] as
    by (simp add: summaries_for_anchors_with_payload_def measure_zero reads_on_def text_cursor_new_def)
qed

end

end
