(* ===== verification/BufferClaims.thy ===== *)
theory BufferClaims
  imports BufferUndo "HOL-Library.Code_Target_Nat"
begin

text \<open>
  The properties of the buffer: making one, editing it, and undoing and redoing edits.
\<close>

section \<open>Evaluation\<close>

text \<open>Equations with which the kernel evaluates the model on examples: numbers are binary, and a
  step of a computation that may fail is evaluated before what follows it.\<close>

lemma bind_case [code_unfold]: "Option.bind x f = (case x of None \<Rightarrow> None | Some y \<Rightarrow> f y)"
  by (cases x) simp_all

lemma str_split_at_code [code]:
  "str_split_at s n = (if n = 0 then Some ([], s) else case s of [] \<Rightarrow> None
     | c # s \<Rightarrow> if len_utf8 c \<le> n then map_option (\<lambda>(a, b). (c # a, b)) (str_split_at s (n - len_utf8 c)) else None)"
  by (cases n; cases s) simp_all

declare base_loop.simps [code] collect_cursor.simps [code] um_count_loop.simps [code] edit_delete_loop.simps [code] collect_slice_ids.simps [code]

section \<open>New buffers\<close>

text \<open>C5: A buffer made from a text of fewer than \<open>2 ^ 32\<close> bytes holds the text in normalized form with
  the line ending that was detected, and the invariant of buffers holds: the whole text is one
  fragment, inserted under the first timestamp of the local replica, which the version has observed
  and the clock is ahead of. No transaction is open, nothing can be undone, and there is room for an
  operation.\<close>

theorem buffer_new_correct:
  assumes "line_ending_detect base = Some e" "str_len (line_ending_normalize base) < 2 ^ 32"
    and "ins BASE_STAMP = line_ending_normalize base"
  shows "\<exists>b. buffer_new replica remote base = Some b \<and> buffer_ok ins seen b \<and> buffer_room b \<and>
    buffer_text b = line_ending_normalize base \<and> bs_line_ending (bf_snapshot b) = e \<and>
    hi_transaction_depth (bf_history b) = 0 \<and> hi_undo_stack (bf_history b) = []"
  using new_normalized_ok[of "line_ending_normalize base" ins] assms by (simp add: buffer_new_def)

section \<open>Local edits\<close>

text \<open>C2: A local edit of a buffer, of ranges that (once rounded to character boundaries) are in order,
  succeeds: the text is the old one with every range replaced by its text in normalized form. The
  operation is stamped with a time the version had not observed, is stored in the history, and is the
  last edit of the last transaction that can be undone; outside an open transaction nothing can be redone
  any more. The invariant holds again, so the version has observed the operation and the
  subscriptions describe the new text.\<close>

theorem buffer_edit_correct:
  assumes "buffer_ok ins seen b" "buffer_room b"
    and "str_len (concat (new_texts edits)) < 2 ^ 32" "edits_apply (buffer_text b) 0 (to_offsets b edits) = Some V"
  shows "\<exists>op b'. buffer_edit edits started ended b = Some (Edit_op op, b') \<and>
    buffer_ok (ins(eo_timestamp op := concat (new_texts edits))) seen b' \<and> buffer_text b' = V \<and>
    eo_new_text op = new_texts edits \<and> eo_version op = bs_version (bf_snapshot b) \<and>
    \<not> global_observed (bs_version (bf_snapshot b)) (eo_timestamp op) \<and>
    hi_transaction_depth (bf_history b') = hi_transaction_depth (bf_history b) \<and>
    last_edit (bf_history b') = Some (eo_timestamp op) \<and>
    (hi_transaction_depth (bf_history b) = 0 \<longrightarrow> hi_redo_stack (bf_history b') = []) \<and>
    tm_map (hi_operations (bf_history b')) = (tm_map (hi_operations (bf_history b)))(eo_timestamp op \<mapsto> Edit_op op)"
  using buffer_edit_ok[OF assms, of started ended] by (elim exE conjE) (intro exI conjI; assumption)

section \<open>Undo and redo\<close>

lemma undo_ready_history:
  "hi_operations h = hi_operations (bf_history b) \<Longrightarrow> undo_ready ids (b\<lparr>bf_history := h\<rparr>) = undo_ready ids b"
  by (simp add: undo_ready_def buffer_room_def next_undo_def cong: option.case_cong)

lemma buffer_ok_stacks:
  "buffer_ok ins seen b \<Longrightarrow> hi_transaction_depth (bf_history b) = 0 \<Longrightarrow>
   buffer_ok ins seen (b\<lparr>bf_history := (bf_history b)\<lparr>hi_undo_stack := us, hi_redo_stack := rs\<rparr>\<rparr>)"
  by (simp add: buffer_ok_def history_ok_def)

lemma buffer_undo_ok:
  assumes "buffer_ok ins seen b" "hi_transaction_depth (bf_history b) = 0" "hi_undo_stack (bf_history b) = us @ [e]"
    and "undo_ready (tn_edit_ids (he_transaction e)) b"
  shows "\<exists>undo b'. buffer_undo b = Some (Some (transaction_id e, Undo_op undo), b') \<and> buffer_ok ins seen b' \<and>
    buffer_text b' = text_under ins (bs_undo_map (bf_snapshot b')) (old_frags (bf_snapshot b)) \<and>
    um_inv (bs_undo_map (bf_snapshot b')) \<and>
    flipped (bs_undo_map (bf_snapshot b)) (set (tn_edit_ids (he_transaction e))) (bs_undo_map (bf_snapshot b')) \<and>
    (\<forall>v. text_under ins v (old_frags (bf_snapshot b')) = text_under ins v (old_frags (bf_snapshot b))) \<and>
    all_bytes (old_frags (bf_snapshot b')) = all_bytes (old_frags (bf_snapshot b)) \<and>
    hi_undo_stack (bf_history b') = us \<and> hi_redo_stack (bf_history b') = hi_redo_stack (bf_history b) @ [e] \<and>
    hi_transaction_depth (bf_history b') = 0"
proof -
  let ?h = "(bf_history b)\<lparr>hi_undo_stack := us, hi_redo_stack := hi_redo_stack (bf_history b) @ [e]\<rparr>"
  have pop: "pop_undo (bf_history b) = Some (Some e, ?h)"
    using assms(2,3) by (simp add: pop_undo_def assert_opt_def last_opt_iff)
  have ready: "undo_ready (tn_edit_ids (he_transaction e)) (b\<lparr>bf_history := ?h\<rparr>)"
    using assms(4) undo_ready_history[of ?h b] by simp
  show ?thesis
    using undo_or_redo_ok[OF buffer_ok_stacks[OF assms(1,2)] ready] assms(2) by (auto simp: buffer_undo_def pop)
qed

lemma buffer_redo_ok:
  assumes "buffer_ok ins seen b" "hi_transaction_depth (bf_history b) = 0" "hi_redo_stack (bf_history b) = rs @ [e]"
    and "undo_ready (tn_edit_ids (he_transaction e)) b"
  shows "\<exists>undo b'. buffer_redo b = Some (Some (transaction_id e, Undo_op undo), b') \<and> buffer_ok ins seen b' \<and>
    buffer_text b' = text_under ins (bs_undo_map (bf_snapshot b')) (old_frags (bf_snapshot b)) \<and>
    um_inv (bs_undo_map (bf_snapshot b')) \<and>
    flipped (bs_undo_map (bf_snapshot b)) (set (tn_edit_ids (he_transaction e))) (bs_undo_map (bf_snapshot b')) \<and>
    (\<forall>v. text_under ins v (old_frags (bf_snapshot b')) = text_under ins v (old_frags (bf_snapshot b))) \<and>
    hi_redo_stack (bf_history b') = rs \<and> hi_undo_stack (bf_history b') = hi_undo_stack (bf_history b) @ [e] \<and>
    hi_transaction_depth (bf_history b') = 0"
proof -
  let ?h = "(bf_history b)\<lparr>hi_redo_stack := rs, hi_undo_stack := hi_undo_stack (bf_history b) @ [e]\<rparr>"
  have pop: "pop_redo (bf_history b) = Some (Some e, ?h)"
    using assms(2,3) by (simp add: pop_redo_def assert_opt_def last_opt_iff)
  have ready: "undo_ready (tn_edit_ids (he_transaction e)) (b\<lparr>bf_history := ?h\<rparr>)"
    using assms(4) undo_ready_history[of ?h b] by simp
  have "?h = (bf_history b)\<lparr>hi_undo_stack := hi_undo_stack (bf_history b) @ [e], hi_redo_stack := rs\<rparr>" by simp
  then have "buffer_ok ins seen (b\<lparr>bf_history := ?h\<rparr>)" using buffer_ok_stacks[OF assms(1,2)] by metis
  from undo_or_redo_ok[OF this ready] show ?thesis using assms(2) by (auto simp: buffer_redo_def pop)
qed

text \<open>C4: Undoing, on a buffer with no open transaction, takes the last transaction from the undo stack and puts it on the
  redo stack, and flips exactly its edits: those that counted are undone, those that were undone count
  again, whether they are the buffer's own or another replica's. The text is then that of the fragments
  that are shown under the new undo map: inserted by an edit that counts, and deleted by none that
  counts. The invariant holds again, so the flags of all fragments agree with the undo map, and
  subscriptions describe the new text.\<close>

theorem buffer_undo_correct:
  assumes "buffer_ok ins seen b" "hi_transaction_depth (bf_history b) = 0" "hi_undo_stack (bf_history b) = us @ [e]"
    and "undo_ready (tn_edit_ids (he_transaction e)) b"
  shows "\<exists>undo b'. buffer_undo b = Some (Some (transaction_id e, Undo_op undo), b') \<and> buffer_ok ins seen b' \<and>
    buffer_text b' = text_under ins (bs_undo_map (bf_snapshot b')) (old_frags (bf_snapshot b)) \<and>
    flipped (bs_undo_map (bf_snapshot b)) (set (tn_edit_ids (he_transaction e))) (bs_undo_map (bf_snapshot b')) \<and>
    hi_undo_stack (bf_history b') = us \<and> hi_redo_stack (bf_history b') = hi_redo_stack (bf_history b) @ [e]"
  using buffer_undo_ok[OF assms] by (elim exE conjE) (intro exI conjI; assumption)

text \<open>C3: Undoing a local edit restores the text before it, and redoing it restores the text after it. After an
  edit outside a transaction that is not grouped with an earlier one, \<open>undo\<close> finds the
  transaction of the edit: the buffer has the old text again and keeps its invariant, with the transaction on the
  redo stack; from there \<open>redo\<close> leads to the text the edit made, with the transaction on the undo
  stack again. Both give an operation for the other replicas.\<close>

theorem edit_undo_redo:
  assumes "buffer_ok ins seen b" "buffer_room b" "hi_transaction_depth (bf_history b) = 0"
    and "str_len (concat (new_texts edits)) < 2 ^ 32" "edits_apply (buffer_text b) 0 (to_offsets b edits) = Some V"
    and "buffer_edit edits started ended b = Some (op, b1)" "hi_undo_stack (bf_history b1) = us @ [e]"
    and "tn_edit_ids (he_transaction e) = [ts]" "undo_ready [ts] b1"
  shows "\<exists>undo b2. buffer_undo b1 = Some (Some (transaction_id e, Undo_op undo), b2) \<and>
    (\<exists>ins'. buffer_ok ins' seen b2) \<and> buffer_text b1 = V \<and> buffer_text b2 = buffer_text b \<and>
    hi_undo_stack (bf_history b2) = us \<and> hi_redo_stack (bf_history b2) = [e] \<and>
    (undo_ready [ts] b2 \<longrightarrow> (\<exists>redo b3. buffer_redo b2 = Some (Some (transaction_id e, Undo_op redo), b3) \<and>
      (\<exists>ins'. buffer_ok ins' seen b3) \<and> buffer_text b3 = V \<and> hi_undo_stack (bf_history b3) = us @ [e]))"
proof -
  let ?m = "bs_undo_map (bf_snapshot b)"
  obtain eop where op: "op = Edit_op eop" "\<not> global_observed (bs_version (bf_snapshot b)) (eo_timestamp eop)"
    "buffer_ok (ins(eo_timestamp eop := concat (new_texts edits))) seen b1" "buffer_text b1 = V"
    "hi_transaction_depth (bf_history b1) = 0" "last_edit (bf_history b1) = Some (eo_timestamp eop)"
    "hi_redo_stack (bf_history b1) = []" "bs_undo_map (bf_snapshot b1) = ?m"
    "buffer_text b = text_without (ins(eo_timestamp eop := concat (new_texts edits))) ?m (eo_timestamp eop) (old_frags (bf_snapshot b1))"
    using buffer_edit_ok[OF assms(1,2,4,5), of started ended] assms(3,6) by auto
  have ts: "eo_timestamp eop = ts" using last_edit_snoc[OF assms(7)] op(6) assms(8) by (simp add: last_opt_iff)
  let ?ins = "ins(ts := concat (new_texts edits))"
  have m: "um_inv ?m" "\<forall>k \<in> dom (um_map ?m). global_observed (bs_version (bf_snapshot b)) (fst k)"
    using assms(1) by (simp_all add: buffer_ok_def snapshot_ok_def Let_def)
  have nu: "\<not> undone ?m ts" using fresh_not_undone[OF m op(2)] by (simp add: undone_def ts)
  have ready: "undo_ready (tn_edit_ids (he_transaction e)) b1" using assms(8,9) by simp
  from buffer_undo_ok[OF op(3,5) assms(7) ready]
  obtain un b2 where 2: "buffer_undo b1 = Some (Some (transaction_id e, Undo_op un), b2)" "buffer_ok ?ins seen b2"
    "buffer_text b2 = text_under ?ins (bs_undo_map (bf_snapshot b2)) (old_frags (bf_snapshot b1))"
    "um_inv (bs_undo_map (bf_snapshot b2))" "flipped ?m {ts} (bs_undo_map (bf_snapshot b2))"
    "\<forall>v. text_under ?ins v (old_frags (bf_snapshot b2)) = text_under ?ins v (old_frags (bf_snapshot b1))"
    "hi_undo_stack (bf_history b2) = us" "hi_redo_stack (bf_history b2) = [e]" "hi_transaction_depth (bf_history b2) = 0"
    by (auto simp: op(7,8) ts assms(8))
  have old: "buffer_text b2 = buffer_text b"
    using flipped_without[OF m(1) 2(4,5) nu] op(9) 2(3) by (simp add: ts)
  have redo: "\<exists>redo b3. buffer_redo b2 = Some (Some (transaction_id e, Undo_op redo), b3) \<and>
      (\<exists>ins'. buffer_ok ins' seen b3) \<and> buffer_text b3 = V \<and> hi_undo_stack (bf_history b3) = us @ [e]"
    if r: "undo_ready [ts] b2"
  proof -
    have st: "hi_redo_stack (bf_history b2) = [] @ [e]" and rd: "undo_ready (tn_edit_ids (he_transaction e)) b2"
      using 2(8) r assms(8) by simp_all
    from buffer_redo_ok[OF 2(2,9) st rd]
    obtain re b3 where 3: "buffer_redo b2 = Some (Some (transaction_id e, Undo_op re), b3)" "buffer_ok ?ins seen b3"
      "buffer_text b3 = text_under ?ins (bs_undo_map (bf_snapshot b3)) (old_frags (bf_snapshot b2))"
      "um_inv (bs_undo_map (bf_snapshot b3))" "flipped (bs_undo_map (bf_snapshot b2)) {ts} (bs_undo_map (bf_snapshot b3))"
      "hi_undo_stack (bf_history b3) = us @ [e]"
      by (auto simp: 2(7) assms(8))
    have "snapshot_ok ?ins (bf_snapshot b1)" using op(3) by (simp add: buffer_ok_def ts)
    from text_under_visible[OF this] have "buffer_text b3 = V"
      using flipped_twice[OF m(1) 3(4) 2(5) 3(5)] 3(3) 2(6) op(4,8) by simp
    with 3 show ?thesis by blast
  qed
  show ?thesis using 2(1,2,7,8) op(4) old redo by blast
qed

section \<open>An example\<close>

definition abc :: buffer where
  "abc = the (new_normalized 1 7 Unix [97, 98, 99])"

definition abc_edits :: "((nat \<times> nat) \<times> str) list" where
  "abc_edits = [((1, 2), [120, 13, 10])]"

definition abc_edited :: buffer where
  "abc_edited = snd (the (buffer_edit abc_edits 5 6 abc))"

definition abc_undone :: buffer where
  "abc_undone = snd (the (buffer_undo abc_edited))"

lemma abc_ok: "buffer_ok (\<lambda>_. [97, 98, 99]) (\<lambda>_. []) abc" "buffer_room abc" "buffer_text abc = [97, 98, 99]"
  "hi_transaction_depth (bf_history abc) = 0"
  using new_normalized_ok[of "[97, 98, 99]" "\<lambda>_. [97, 98, 99]" 1 7 Unix "\<lambda>_. []"] by (auto simp: abc_def len_utf8_def)

lemma abc_texts: "str_len (concat (new_texts abc_edits)) < 2 ^ 32" "concat (new_texts abc_edits) = [120, 10]"
  by code_simp+

lemma abc_apply: "edits_apply (buffer_text abc) 0 (to_offsets abc abc_edits) = Some [97, 120, 10, 99]"
  by code_simp

lemma abc_steps:
  "map (tn_edit_ids \<circ> he_transaction) (hi_undo_stack (bf_history abc_edited)) = [[Lamport 3 1]]"
  "undo_ready [Lamport 3 1] abc_edited"
  by code_simp+

lemma abc_again: "undo_ready [Lamport 3 1] abc_undone"
  by code_simp

text \<open>The edit of the example, from the properties of edits.\<close>

lemma abc_edit:
  obtains eop e where "buffer_edit abc_edits 5 6 abc = Some (Edit_op eop, abc_edited)"
    "buffer_ok ((\<lambda>_. [97, 98, 99])(Lamport 3 1 := [120, 10])) (\<lambda>_. []) abc_edited"
    "hi_transaction_depth (bf_history abc_edited) = 0" "buffer_text abc_edited = [97, 120, 10, 99]" "eo_timestamp eop = Lamport 3 1"
    "hi_undo_stack (bf_history abc_edited) = [] @ [e]" "tn_edit_ids (he_transaction e) = [Lamport 3 1]"
proof -
  obtain e where e: "hi_undo_stack (bf_history abc_edited) = [] @ [e]" "tn_edit_ids (he_transaction e) = [Lamport 3 1]"
    using abc_steps(1) by (auto simp: map_eq_Cons_conv)
  obtain eop b' where b': "buffer_edit abc_edits 5 6 abc = Some (Edit_op eop, b')"
    "buffer_ok ((\<lambda>_. [97, 98, 99])(eo_timestamp eop := concat (new_texts abc_edits))) (\<lambda>_. []) b'"
    "hi_transaction_depth (bf_history b') = 0" "buffer_text b' = [97, 120, 10, 99]" "last_edit (bf_history b') = Some (eo_timestamp eop)"
    using buffer_edit_ok[OF abc_ok(1,2) abc_texts(1) abc_apply, of 5 6] abc_ok(4) by auto
  have eq: "abc_edited = b'" using b'(1) by (simp add: abc_edited_def)
  then have "eo_timestamp eop = Lamport 3 1" using b'(5) last_edit_snoc[OF e(1)] e(2) by (simp add: last_opt_iff)
  with that[OF _ _ _ _ _ e] b' abc_texts(2) show thesis by (simp add: eq)
qed

theorem buffer_new_correct_witness:
  "\<exists>b. buffer_new 1 7 [97, 13, 10, 98] = Some b \<and> buffer_text b = [97, 10, 98] \<and> bs_line_ending (bf_snapshot b) = Windows"
proof -
  have d: "line_ending_detect [97, 13, 10, 98] = Some Windows" by code_simp
  have n: "line_ending_normalize [97, 13, 10, 98] = [97, 10, 98]" by code_simp
  have l: "str_len [97, 10, 98] < 2 ^ 32" by (simp add: len_utf8_def)
  show ?thesis
    using buffer_new_correct[OF d, of "\<lambda>_. [97, 10, 98]" 1 7 "\<lambda>_. []"] l unfolding n by auto
qed

theorem buffer_edit_correct_witness:
  "\<exists>op b'. buffer_text abc = [97, 98, 99] \<and> buffer_edit abc_edits 5 6 abc = Some (Edit_op op, b') \<and>
     buffer_text b' = [97, 120, 10, 99] \<and> last_edit (bf_history b') = Some (eo_timestamp op)"
  using buffer_edit_correct[OF abc_ok(1,2) abc_texts(1) abc_apply, of 5 6] abc_ok(3) by blast

theorem buffer_undo_correct_witness:
  "\<exists>e undo b'. buffer_undo abc_edited = Some (Some (transaction_id e, Undo_op undo), b') \<and>
     flipped (bs_undo_map (bf_snapshot abc_edited)) {Lamport 3 1} (bs_undo_map (bf_snapshot b')) \<and>
     hi_redo_stack (bf_history b') = hi_redo_stack (bf_history abc_edited) @ [e]"
proof -
  obtain eop e where e: "buffer_ok ((\<lambda>_. [97, 98, 99])(Lamport 3 1 := [120, 10])) (\<lambda>_. []) abc_edited"
    "hi_transaction_depth (bf_history abc_edited) = 0"
    "hi_undo_stack (bf_history abc_edited) = [] @ [e]" "tn_edit_ids (he_transaction e) = [Lamport 3 1]"
    by (rule abc_edit)
  have "undo_ready (tn_edit_ids (he_transaction e)) abc_edited" unfolding e(4) by (rule abc_steps(2))
  from buffer_undo_correct[OF e(1-3) this] e(4) show ?thesis by auto
qed

theorem edit_undo_redo_witness:
  "\<exists>r2 r3 b3. buffer_text abc_edited = [97, 120, 10, 99] \<and> buffer_undo abc_edited = Some (r2, abc_undone) \<and>
     buffer_text abc_undone = [97, 98, 99] \<and> buffer_redo abc_undone = Some (r3, b3) \<and> buffer_text b3 = [97, 120, 10, 99]"
proof -
  obtain eop e where e: "buffer_edit abc_edits 5 6 abc = Some (Edit_op eop, abc_edited)"
    "hi_undo_stack (bf_history abc_edited) = [] @ [e]" "tn_edit_ids (he_transaction e) = [Lamport 3 1]"
    by (rule abc_edit)
  from edit_undo_redo[OF abc_ok(1,2,4) abc_texts(1) abc_apply e abc_steps(2)]
  obtain un b2 where 2: "buffer_undo abc_edited = Some (Some (transaction_id e, Undo_op un), b2)"
    "buffer_text abc_edited = [97, 120, 10, 99]" "buffer_text b2 = [97, 98, 99]"
    "undo_ready [Lamport 3 1] b2 \<longrightarrow> (\<exists>redo b3. buffer_redo b2 = Some (Some (transaction_id e, Undo_op redo), b3) \<and>
      buffer_text b3 = [97, 120, 10, 99])"
    unfolding abc_ok(3) by blast
  have "b2 = abc_undone" using 2(1) by (simp add: abc_undone_def)
  with 2 abc_again show ?thesis by blast
qed

end
