(* ===== verification/AnchorClaims.thy ===== *)
theory AnchorClaims
  imports AnchorSummaries BufferClaims
begin

text \<open>
  The properties of anchors: they are made at a position and resolve to it, they are ordered, they
  stay with their text when the buffer is edited and when edits are undone, and many of them can be
  resolved in one walk.
\<close>

section \<open>Making and resolving\<close>

lemma made_resolvable:
  assumes "snapshot_ok ins b" "str_is_char_boundary (bs_visible_text b) n" "anchor_at_offset b n bias = Some a"
  shows "resolvable b a" "an_buffer a = bs_remote_id b" "an_is_valid b a = Some True"
proof -
  have "resolvable b a \<and> an_buffer a = bs_remote_id b \<and> an_is_valid b a = Some True"
    using assms(1,2)
  proof (cases rule: anchor_at_offset_ok[where bias = bias])
    case ends
    then show ?thesis using assms(3)
      by (cases bias) (auto simp: resolvable_def an_is_valid_def min_for_buffer_def max_for_buffer_def an_is_min_def an_is_max_def an_timestamp_def)
  next
    case (inside pre x post a')
    have x: "x \<in> set (old_frags b)" using inside(2) by simp
    have "an_is_valid b a' = Some True"
      using inside(4,6,9,10) frag_id_ok(2)[OF assms(1) x inside(3)] find_fragment_ok[OF assms(1) inside(2)] by (simp add: an_is_valid_def)
    then show ?thesis using inside assms(3) resolvable_attached[OF x inside(3)] by simp
  qed
  then show "resolvable b a" "an_buffer a = bs_remote_id b" "an_is_valid b a = Some True" by simp_all
qed

text \<open>C9: An anchor made at a character boundary of the text, with either bias, belongs to the buffer, is
  valid, and resolves to the very position it was made at; turning it to either bias gives an anchor
  of that bias that resolves to the same position.\<close>

theorem anchors_round_trip:
  assumes "snapshot_ok ins b" "str_is_char_boundary (bs_visible_text b) n"
  shows "\<exists>a. anchor_at_offset b n bias = Some a \<and> an_bias a = bias \<and> an_buffer a = bs_remote_id b \<and> can_resolve b a \<and>
    an_is_valid b a = Some True \<and> offset_for_anchor b a = Some n \<and>
    (\<forall>q. \<exists>c. with_bias b a q = Some c \<and> an_bias c = q \<and> offset_for_anchor b c = Some n)"
proof -
  obtain a where a: "anchor_at_offset b n bias = Some a" "an_bias a = bias" "offset_for_anchor b a = Some n" "can_resolve b a"
    using anchor_roundtrip[OF assms, of bias] by blast
  have "\<exists>c. with_bias b a q = Some c \<and> an_bias c = q \<and> offset_for_anchor b c = Some n" for q
    using a(3) anchor_roundtrip[OF assms, of q]
    by (cases q; cases "an_bias a") (auto simp: with_bias_def bias_left_def bias_right_def anchor_before_def anchor_after_def anchor_at_def)
  then show ?thesis using a made_resolvable[OF assms a(1)] by blast
qed

section \<open>Order\<close>

text \<open>C8: Comparing two anchors of a snapshot (the ends, and anchors attached to bytes of its insertions) never
  fails, and is the lexicographic order of the locators of their fragments, their offsets and their
  biases: a linear order, in which only anchors with the same timestamp, offset and bias are equal,
  although offsets alone are compared within an insertion. Resolving preserves the order.\<close>

theorem anchors_ordered:
  assumes "snapshot_ok ins b" "resolvable b a" "resolvable b c"
  shows "an_cmp b a c = Some (cmp_of (an_key b a) (an_key b c)) \<and>
    (an_key b a = an_key b c \<longleftrightarrow> an_timestamp a = an_timestamp c \<and> an_offset a = an_offset c \<and> an_bias a = an_bias c) \<and>
    (\<exists>m n. offset_for_anchor b a = Some m \<and> offset_for_anchor b c = Some n \<and> (an_key b a \<le> an_key b c \<longrightarrow> m \<le> n))"
proof -
  have k: "an_cmp b a c = Some (cmp_of (an_key b a) (an_key b c))" by (rule an_cmp_key[OF assms])
  moreover have "an_key b a = an_key b c"
    if t: "an_timestamp a = an_timestamp c" "an_offset a = an_offset c" "an_bias a = an_bias c"
  proof -
    have "an_cmp b a c = Some Equal" using t by (simp add: an_cmp_def cmp_of_def)
    then show ?thesis using k by (auto simp: cmp_of_def split: if_splits)
  qed
  moreover have "an_key b a \<le> an_key b c \<Longrightarrow> cmp_of (an_key b a) (an_key b c) \<noteq> Greater" by (auto simp: cmp_of_def)
  ultimately show ?thesis using an_key_inject[OF assms] an_cmp_order[OF assms] by auto
qed

section \<open>Anchors and changes\<close>

text \<open>An edit adds bytes of its own insertion to those there were.\<close>

lemma edit_keeps_bytes:
  assumes "buffer_ok ins seen b" "buffer_room b"
    and "str_len (concat (new_texts edits)) < 2 ^ 32" "edits_apply (buffer_text b) 0 (to_offsets b edits) = Some V"
  shows "\<exists>op b' ins'. buffer_edit edits started ended b = Some (op, b') \<and> snapshot_ok ins' (bf_snapshot b') \<and>
    subseq (all_bytes (old_frags (bf_snapshot b))) (all_bytes (old_frags (bf_snapshot b'))) \<and>
    (\<forall>t. global_observed (bs_version (bf_snapshot b)) t \<longrightarrow> ins' t = ins t)"
proof -
  obtain op b' where e: "buffer_edit edits started ended b = Some (Edit_op op, b')"
    "buffer_ok (ins(eo_timestamp op := concat (new_texts edits))) seen b'"
    "\<not> global_observed (bs_version (bf_snapshot b)) (eo_timestamp op)"
    "bytes_without (eo_timestamp op) (old_frags (bf_snapshot b')) = all_bytes (old_frags (bf_snapshot b))"
    using buffer_edit_ok[OF assms, of started ended] by (elim exE conjE) blast
  have "subseq (all_bytes (old_frags (bf_snapshot b))) (all_bytes (old_frags (bf_snapshot b')))"
    using subseq_bytes_without e(4) by metis
  moreover have "\<forall>t. global_observed (bs_version (bf_snapshot b)) t \<longrightarrow> (ins(eo_timestamp op := concat (new_texts edits))) t = ins t"
    using e(3) by auto
  ultimately show ?thesis using e(1,2) unfolding buffer_ok_def by blast
qed

text \<open>C6: Anchors survive local edits. After an edit, anchors of the buffer still resolve; any two of them
  compare as they did, and their positions are in the order of that comparison; and an anchor whose
  text is visible before and after the edit is still beside the same byte, on the side of its bias.\<close>

theorem anchors_survive_edit:
  assumes "buffer_ok ins seen b" "buffer_room b"
    and "str_len (concat (new_texts edits)) < 2 ^ 32" "edits_apply (buffer_text b) 0 (to_offsets b edits) = Some V"
    and "resolvable (bf_snapshot b) a" "resolvable (bf_snapshot b) c"
  shows "\<exists>op b'. buffer_edit edits started ended b = Some (op, b') \<and> resolvable (bf_snapshot b') a \<and> resolvable (bf_snapshot b') c \<and>
    anchors_kept (bf_snapshot b) (bf_snapshot b') a c"
proof -
  obtain op b' ins' where e: "buffer_edit edits started ended b = Some (op, b')" "snapshot_ok ins' (bf_snapshot b')"
    "subseq (all_bytes (old_frags (bf_snapshot b))) (all_bytes (old_frags (bf_snapshot b')))"
    "\<forall>t. global_observed (bs_version (bf_snapshot b)) t \<longrightarrow> ins' t = ins t"
    using edit_keeps_bytes[OF assms(1-4), of started ended] by blast
  have "snapshot_ok ins (bf_snapshot b)" using assms(1) by (simp add: buffer_ok_def)
  then have "anchors_kept (bf_snapshot b) (bf_snapshot b') a c" by (rule anchors_keptI[OF _ e(2,3) assms(5,6)]) (use e(4) in blast)
  then show ?thesis using e(1) resolvable_kept[OF e(3)] assms(5,6) by blast
qed

text \<open>C7: Anchors survive undoing, in the same way: undoing the last transaction keeps how anchors compare,
  the order of their positions, and the byte beside those that are visible before and after.\<close>

theorem anchors_survive_undo:
  assumes "buffer_ok ins seen b" "hi_transaction_depth (bf_history b) = 0" "hi_undo_stack (bf_history b) = us @ [e]"
    and "undo_ready (tn_edit_ids (he_transaction e)) b"
    and "resolvable (bf_snapshot b) a" "resolvable (bf_snapshot b) c"
  shows "\<exists>op b'. buffer_undo b = Some (op, b') \<and> resolvable (bf_snapshot b') a \<and> resolvable (bf_snapshot b') c \<and>
    anchors_kept (bf_snapshot b) (bf_snapshot b') a c"
proof -
  obtain op b' where e: "buffer_undo b = Some (op, b')" "buffer_ok ins seen b'"
    "all_bytes (old_frags (bf_snapshot b')) = all_bytes (old_frags (bf_snapshot b))"
    using buffer_undo_ok[OF assms(1-4)] by (elim exE conjE) blast
  have s: "subseq (all_bytes (old_frags (bf_snapshot b))) (all_bytes (old_frags (bf_snapshot b')))" using e(3) by simp
  have ok: "snapshot_ok ins (bf_snapshot b)" "snapshot_ok ins (bf_snapshot b')"
    using assms(1) e(2) by (simp_all add: buffer_ok_def)
  show ?thesis using e(1) resolvable_kept[OF s] assms(5,6) anchors_keptI[OF ok s assms(5,6) refl] by blast
qed

section \<open>Summaries\<close>

text \<open>C10: Resolving many anchors at once, each with a payload, in a walk over the fragments and the text that
  only goes forward, gives for every anchor the measure of the text before it, as resolving it by
  itself does, in every text dimension; the anchors have to be in order and to resolve to character
  boundaries. The ends may stand anywhere the order allows.\<close>

theorem summaries_correct:
  assumes "text_dimension_laws E m" "snapshot_ok ins b" "height (bs_fragments b) < STACK_CAP"
    and "\<forall>a \<in> fst ` set as. resolvable b a \<and> (\<exists>n. offset_for_anchor b a = Some n \<and> str_is_char_boundary (bs_visible_text b) n)"
    and "sorted_wrt (\<lambda>a c. an_cmp b (fst a) (fst c) \<noteq> Some Greater) as"
  shows "summaries_for_anchors_with_payload E b as = those (map (\<lambda>(a, y). map_option (\<lambda>d. (d, y)) (summary_for_anchor E b a)) as) \<and>
    (\<forall>a \<in> fst ` set as. \<exists>p q. bs_visible_text b = p @ q \<and> offset_for_anchor b a = Some (str_len p) \<and>
       summary_for_anchor E b a = Some (m p))"
proof (intro conjI ballI)
  fix a assume "a \<in> fst ` set as"
  then obtain n where n: "offset_for_anchor b a = Some n" "str_is_char_boundary (bs_visible_text b) n" using assms(4) by blast
  then obtain p q where p: "bs_visible_text b = p @ q" "n = str_len p" using str_boundary_iff by blast
  show "\<exists>p q. bs_visible_text b = p @ q \<and> offset_for_anchor b a = Some (str_len p) \<and> summary_for_anchor E b a = Some (m p)"
    using text_dimension_laws.summary_for_anchor_ok[OF assms(1) n(1) p] p n(1) by blast
qed (rule text_dimension_laws.summaries_walk[OF assms])

section \<open>An example\<close>

text \<open>In the edit of the example, the second of three letters is replaced by two bytes: an anchor before
  the third letter moves with it.\<close>

definition abc_first :: anchor where
  "abc_first = the (anchor_before number_to_offset (bf_snapshot abc) 1)"

definition abc_third :: anchor where
  "abc_third = the (anchor_after number_to_offset (bf_snapshot abc) 2)"

lemma abc_snapshot: "snapshot_ok (\<lambda>_. [97, 98, 99]) (bf_snapshot abc)"
  using abc_ok(1) by (simp add: buffer_ok_def)

lemma abc_boundary: "str_is_char_boundary (bs_visible_text (bf_snapshot abc)) 1" "str_is_char_boundary (bs_visible_text (bf_snapshot abc)) 2"
  by code_simp+

lemma abc_floor: "number_to_offset (bf_snapshot abc) 1 = Some 1" "number_to_offset (bf_snapshot abc) 2 = Some 2"
  using abc_boundary by (simp_all add: number_to_offset_def usize_to_offset_def)

lemma abc_anchors: "anchor_at_offset (bf_snapshot abc) 1 Left = Some abc_first" "anchor_at_offset (bf_snapshot abc) 2 Right = Some abc_third"
  "resolvable (bf_snapshot abc) abc_first" "resolvable (bf_snapshot abc) abc_third"
proof -
  show a: "anchor_at_offset (bf_snapshot abc) 1 Left = Some abc_first" "anchor_at_offset (bf_snapshot abc) 2 Right = Some abc_third"
    using anchor_roundtrip[OF abc_snapshot abc_boundary(1), of Left] anchor_roundtrip[OF abc_snapshot abc_boundary(2), of Right]
    by (auto simp: abc_first_def abc_third_def anchor_before_def anchor_after_def anchor_at_def abc_floor abc_floor(1)[simplified])
  show "resolvable (bf_snapshot abc) abc_first" "resolvable (bf_snapshot abc) abc_third"
    by (rule made_resolvable(1)[OF abc_snapshot abc_boundary(1) a(1)], rule made_resolvable(1)[OF abc_snapshot abc_boundary(2) a(2)])
qed

lemma abc_anchor_values:
  "abc_first = \<lparr>an_replica = lreplica BASE_STAMP, an_value = lvalue BASE_STAMP, an_offset = 1, an_bias = Left, an_buffer = 7\<rparr>"
  "abc_third = \<lparr>an_replica = lreplica BASE_STAMP, an_value = lvalue BASE_STAMP, an_offset = 2, an_bias = Right, an_buffer = 7\<rparr>"
  by code_simp+

lemma abc_cmp: "an_cmp b abc_first abc_third = Some Less"
  by (simp add: an_cmp_def abc_anchor_values an_timestamp_def cmp_of_def)

lemma abc_offsets:
  "offset_for_anchor (bf_snapshot abc) abc_third = Some 2" "offset_for_anchor (bf_snapshot abc_edited) abc_first = Some 1"
  "offset_for_anchor (bf_snapshot abc_edited) abc_third = Some 3"
  by code_simp+

lemma abc_still: "resolvable (bf_snapshot abc_edited) abc_first" "resolvable (bf_snapshot abc_edited) abc_third"
proof -
  have "subseq (all_bytes (old_frags (bf_snapshot abc))) (all_bytes (old_frags (bf_snapshot abc_edited)))"
    using edit_keeps_bytes[OF abc_ok(1,2) abc_texts(1) abc_apply, of 5 6] by (auto simp: abc_edited_def)
  note kept = resolvable_kept[OF this]
  show "resolvable (bf_snapshot abc_edited) abc_first" "resolvable (bf_snapshot abc_edited) abc_third"
    by (rule kept[OF abc_anchors(3)], rule kept[OF abc_anchors(4)])
qed

theorem anchors_round_trip_witness:
  "\<exists>c. offset_for_anchor (bf_snapshot abc) abc_third = Some 2 \<and> with_bias (bf_snapshot abc) abc_third Left = Some c \<and>
     an_bias c = Left \<and> offset_for_anchor (bf_snapshot abc) c = Some 2"
  using anchors_round_trip[OF abc_snapshot abc_boundary(2), of Right] abc_anchors(2) by auto

theorem anchors_ordered_witness:
  "an_cmp (bf_snapshot abc) abc_first abc_third = Some (cmp_of (an_key (bf_snapshot abc) abc_first) (an_key (bf_snapshot abc) abc_third)) \<and>
   an_cmp (bf_snapshot abc) abc_first abc_third = Some Less"
  using anchors_ordered[OF abc_snapshot abc_anchors(3,4)] abc_cmp by simp

theorem anchors_survive_edit_witness:
  "anchors_kept (bf_snapshot abc) (bf_snapshot abc_edited) abc_third abc_first \<and>
   offset_for_anchor (bf_snapshot abc) abc_third = Some 2 \<and> offset_for_anchor (bf_snapshot abc_edited) abc_third = Some 3"
proof -
  from anchors_survive_edit[OF abc_ok(1,2) abc_texts(1) abc_apply abc_anchors(4,3), of 5 6]
  obtain op b' where e: "buffer_edit abc_edits 5 6 abc = Some (op, b')" "anchors_kept (bf_snapshot abc) (bf_snapshot b') abc_third abc_first"
    by blast
  have "b' = abc_edited" using e(1) by (simp add: abc_edited_def)
  then show ?thesis using e(2) abc_offsets by simp
qed

theorem anchors_survive_undo_witness:
  "anchors_kept (bf_snapshot abc_edited) (bf_snapshot abc_undone) abc_third abc_first \<and>
   offset_for_anchor (bf_snapshot abc_edited) abc_third = Some 3"
proof -
  obtain eop e where e: "buffer_ok ((\<lambda>_. [97, 98, 99])(Lamport 3 1 := [120, 10])) (\<lambda>_. []) abc_edited"
    "hi_transaction_depth (bf_history abc_edited) = 0"
    "hi_undo_stack (bf_history abc_edited) = [] @ [e]" "tn_edit_ids (he_transaction e) = [Lamport 3 1]"
    by (rule abc_edit)
  have "undo_ready (tn_edit_ids (he_transaction e)) abc_edited" unfolding e(4) by (rule abc_steps(2))
  from anchors_survive_undo[OF e(1-3) this abc_still(2,1)]
  obtain op b' where u: "buffer_undo abc_edited = Some (op, b')" "anchors_kept (bf_snapshot abc_edited) (bf_snapshot b') abc_third abc_first"
    by blast
  have "b' = abc_undone" using u(1) by (simp add: abc_undone_def)
  then show ?thesis using u(2) abc_offsets by simp
qed

theorem summaries_correct_witness:
  "summaries_for_anchors_with_payload point_td (bf_snapshot abc_edited) [(abc_first, True), (abc_third, False)] =
     those [map_option (\<lambda>d. (d, True)) (summary_for_anchor point_td (bf_snapshot abc_edited) abc_first),
       map_option (\<lambda>d. (d, False)) (summary_for_anchor point_td (bf_snapshot abc_edited) abc_third)] \<and>
   summary_for_anchor point_td (bf_snapshot abc_edited) abc_third = Some (Point 1 0)"
proof -
  let ?s = "bf_snapshot abc_edited"
  have ok: "snapshot_ok ((\<lambda>_. [97, 98, 99])(Lamport 3 1 := [120, 10])) ?s" and t: "bs_visible_text ?s = [97, 120, 10, 99]"
    by (rule abc_edit, simp add: buffer_ok_def)+
  have h: "height (bs_fragments ?s) < STACK_CAP"
    using abc_steps(2) by (simp add: undo_ready_def buffer_room_def snapshot_room_def)
  have b: "str_is_char_boundary (bs_visible_text ?s) 1" "str_is_char_boundary (bs_visible_text ?s) 3" unfolding t by code_simp+
  have "text_summary_for_range point_td number_to_offset ?s (0, 3) = Some (Point 1 0)"
    unfolding text_summary_for_range_def number_to_offset_def usize_to_offset_def t by code_simp
  then have p: "summary_for_anchor point_td ?s abc_third = Some (Point 1 0)" by (simp add: summary_for_anchor_def abc_offsets)
  show ?thesis
    using summaries_correct[OF point_td.text_dimension_laws_axioms ok h, of "[(abc_first, True), (abc_third, False)]"]
      b p abc_offsets abc_still abc_cmp by simp
qed

end
