(* ===== verification/Spec2Isabelle.thy ===== *)
theory Spec2Isabelle
  imports Clock TreeClaims Locator UndoMap OperationQueue Patch Selection Subscription RopeClipPoint RopeBitmaps RopePrevLine RopeBytes AnchorClaims
begin

text \<open>
  A verification library for the text core of the editor: the data structures that hold and change
  text (\<open>crates/sum_tree\<close>, \<open>crates/rope\<close>) and those with which replicas agree on it
  (\<open>crates/clock\<close>, \<open>crates/text\<close>).

  \<^bold>\<open>How the parts fit together.\<close> A \<open>SumTree\<close> is a B-tree whose nodes cache a summary of their
  items; a \<open>Cursor\<close> moves over it along a dimension, a measure of summaries. Everything else is a sum
  tree with its own items: \<open>TreeMap\<close> and \<open>TreeSet\<close> hold entries sorted by key, the \<open>UndoMap\<close> and the
  \<open>OperationQueue\<close> hold undo counts and deferred operations, and a \<open>Rope\<close> holds chunks of text. A
  \<open>Chunk\<close> is a string of at most 128 bytes with bitmaps of its characters, UTF-16 units, newlines and
  tabs, on which the conversions between byte offsets, points and UTF-16 positions are computed. A
  \<open>Lamport\<close> timestamp orders operations, a \<open>Global\<close> version says which of them were seen, a
  \<open>Locator\<close> gives a fragment of text a place between two others, a \<open>Patch\<close> lists the edits between two
  texts, and a \<open>Subscription\<close> collects patches for its owner. A \<open>Buffer\<close> puts them together: its
  fragments are a sum tree in the order of their locators, each a part of an insertion with the edits
  that deleted it, its visible and deleted texts are ropes, an index leads from insertions to
  fragments, and a \<open>History\<close> keeps operations and transactions. An edit cuts fragments, adds
  new ones and marks others deleted; an undo only flips what counts and refreshes the flags.

  \<^bold>\<open>Conventions.\<close> A computation that may panic has an \<open>option\<close> type and \<open>None\<close> is the panic: an
  \<open>unwrap\<close> of nothing, an index out of range, a subtraction of unsigned numbers below zero, a push into a
  full \<open>ArrayVec\<close>, a failed \<open>assert!\<close>. The model is that of a release build: \<open>debug_assert!\<close> and
  \<open>debug_panic!\<close> have no effect and the Lamport clock wraps at 32 bits. A \<open>usize\<close> or a \<open>u32\<close> that only
  counts what is in memory is a natural number; words are kept where the code computes with their bits
  (\<open>Bitmap\<close> is a 128-bit word, locator digits are 64-bit words, timestamps are words).
  Shared pointers and clones are values. A closure that is passed to filter or compare is a pure function.
  Loops without an obvious measure are \<open>partial_function (option)\<close>, so that not returning is \<open>None\<close>, and
  every theorem about them shows that they return.

  \<^bold>\<open>The theories.\<close>

  \<^item> \<open>Prelude\<close>: the result of comparisons, checked operations, list lemmas.
  \<^item> \<open>Clock\<close> (\<open>clock.rs\<close>): \<open>Lamport\<close>, \<open>Global\<close>; versions form a join semilattice and ticks are later
    than everything observed.
  \<^item> \<open>SumTree\<close>, \<open>SumTreeOps\<close> (\<open>sum_tree.rs\<close>): nodes, append, push, construction (sequential and
    parallel), first and last items, \<open>find\<close>. The locale \<open>summary_laws\<close> states what a summary promises (it
    adds up along well-formed lists of items); the invariant \<open>wf_tree\<close> is uniform height, at most
    \<open>2 * TREE_BASE\<close> children and correct cached summaries.
  \<^item> \<open>Seek\<close>: the locale \<open>seek_laws\<close> of dimensions, the scan of a list of items that every search refines.
  \<^item> \<open>Cursor\<close>, \<open>CursorSeek\<close>, \<open>CursorOps\<close>, \<open>CursorWalk\<close>, \<open>CursorBack\<close> (\<open>cursor.rs\<close>): the cursor with its
    stack of sixteen entries, seeking, slicing, summing, filtered movement in both directions and the
    iterators. \<open>cursor_at\<close> relates the stack to the items before and after the cursor. The stack has a fixed
    capacity, so the theorems ask for a height below \<open>STACK_CAP\<close>.
  \<^item> \<open>Keyed\<close>: insert, remove, get and edit of items sorted by key (locale \<open>keyed_laws\<close>). \<open>edit\<close> sorts its
    edits by an unstable sort: \<open>keyed_edit\<close> takes the stable order, which is the only one if no key is repeated, and
    \<open>keyed_edit_sorted\<close> is the rest of \<open>edit\<close> for edits in any sorted order.
  \<^item> \<open>TreeMap\<close>, \<open>TreeMapProps\<close>, \<open>TreeSet\<close> (\<open>tree_map.rs\<close>): maps and sets, as refinements of finite maps
    and sets (locale \<open>ordered_map\<close>).
  \<^item> \<open>TreeClaims\<close>: the properties of trees, cursors and maps, and batches that repeat a key, for every order of
    equal keys (locale \<open>keyed_repeats\<close>).
  \<^item> \<open>Locator\<close>, \<open>UndoMap\<close>, \<open>OperationQueue\<close>, \<open>Patch\<close>, \<open>Selection\<close>, \<open>Subscription\<close> (\<open>crates/text\<close>): one
    component each, with its properties.
  \<^item> \<open>Points\<close>, \<open>TextSummary\<close> (\<open>point.rs\<close>, \<open>point_utf16.rs\<close>, \<open>offset_utf16.rs\<close>, \<open>rope.rs\<close>): positions and
    the summary of a string, a homomorphism from strings. Their \<open>u32\<close> fields are natural numbers, at most the length of
    the text in bytes, so that none wraps for a text of fewer than \<open>2 ^ 32\<close> bytes.
  \<^item> \<open>BitSelect\<close>, \<open>Bitmap\<close>, \<open>Chunk\<close>, \<open>ChunkSummary\<close>, \<open>ChunkPos\<close>, \<open>ChunkPosProps\<close> (\<open>chunk.rs\<close>): the
    branchless search for a set bit, bitmaps as lists of flags, chunks with \<open>canon s\<close> the chunk of the
    string \<open>s\<close>, their summaries and positions.
  \<^item> \<open>Rope\<close>, \<open>RopeProps\<close>, \<open>RopeEdit\<close>, \<open>RopeCursor\<close>, \<open>RopeSummary\<close>, \<open>RopeClaims\<close> (\<open>rope.rs\<close>): ropes.
    \<open>rope_ok\<close> is the invariant, \<open>rope_text\<close> the abstraction to a string; the locales
    \<open>text_measure\<close> and \<open>text_dimension_laws\<close> state what a text dimension promises, and give the
    contracts of the sum tree for ropes.

  \<^item> \<open>RopePos\<close>, \<open>RopePosProps\<close>, \<open>RopeConvert\<close>, \<open>RopeClip\<close>, \<open>RopeClipPoint\<close> (\<open>rope.rs\<close>): conversions between
    byte offsets, UTF-16 offsets and points, and clipping. The locale \<open>text_position\<close> states what a
    kind of position promises (an order, a sum, and a position for every prefix of a text); it is
    interpreted for the four kinds.

  \<^item> \<open>RopeChunks\<close>, \<open>RopeChunksProps\<close>, \<open>RopeCompare\<close>, \<open>RopeBitmaps\<close>, \<open>RopeLines\<close>, \<open>RopeLineMoves\<close>,
    \<open>RopePrevLine\<close>, \<open>RopeBytes\<close> (\<open>rope.rs\<close>): the iterators \<open>Chunks\<close>, \<open>ChunkWithBitmaps\<close>, \<open>Lines\<close> and
    \<open>Bytes\<close>. \<open>fwd_rest\<close> and \<open>bwd_rest\<close> describe an iterator by the text before it and the text it
    still has; each step keeps them, and the loops over an iterator (\<open>partial_function\<close>s) are proved
    to return.

  \<^item> \<open>LineEndings\<close> (\<open>LineEnding\<close> of \<open>text.rs\<close>): detection, normalization and conversion.
  \<^item> \<open>History\<close>, \<open>HistoryProps\<close> (\<open>History\<close> of \<open>text.rs\<close>): operations, nested transactions, grouping, and the
    undo and redo stacks.
  \<^item> \<open>Fragment\<close>, \<open>FragmentProps\<close>: fragments, entries of the index and insertion slices, with their
    summaries and dimensions; they meet the contracts of the sum tree and, by the weaker locale
    \<open>dim_laws\<close>, those of the cursor for dimensions whose zero is not a unit.
  \<^item> \<open>BufferEdit\<close> (\<open>apply_edit_internal\<close>): the snapshot, the builders and a local edit, step by step. \<open>BufferInv\<close> has the
    invariant \<open>snapshot_ok\<close>: each fragment is \<open>sound\<close> (its text is part of its
    insertion's text, its flag agrees with the undo map, slices cover its changes), the two texts are those of the
    shown and of the other fragments, and the index lists every fragment. \<open>BufferBuild\<close>, \<open>BufferWalk\<close>, \<open>BufferSteps\<close> to
    \<open>BufferSteps7\<close>, \<open>BufferEnds\<close> and \<open>BufferEditProps\<close> prove that an edit keeps it: \<open>walking\<close> relates the
    state of the walk to the fragments built so far and those still ahead, and each step keeps it.
  \<^item> \<open>Undo\<close>, \<open>UndoIds\<close>, \<open>UndoWalk\<close>, \<open>UndoProps\<close> (\<open>apply_undo\<close>, \<open>fragment_ids_for_edits\<close>): the fragments that an edit
    changed are found by way of the slices, and refreshing them gives the text under the new undo map.
  \<^item> \<open>Buffer\<close>, \<open>BufferProps\<close>, \<open>BufferEditing\<close>, \<open>BufferUndo\<close>, \<open>BufferClaims\<close>: buffers with their history, clock and
    subscriptions; \<open>buffer_ok\<close> is their invariant, and undo and redo flip exactly the edits of a transaction.
  \<^item> \<open>Anchors\<close>, \<open>AnchorProps\<close>, \<open>AnchorSummaries\<close>, \<open>AnchorClaims\<close> (\<open>anchor.rs\<close> and the anchors of \<open>text.rs\<close>):
    positions that stay with their text. \<open>attached\<close> says which fragment an anchor belongs to, \<open>resolvable\<close> which
    anchors a snapshot knows; changes of a buffer keep the bytes of insertions in their order (\<open>all_bytes\<close>), and with them the
    order of anchors. Positions pass through a function \<open>to_offset\<close>, as the trait \<open>ToOffset\<close> has it; its instances are
    byte offsets (\<open>number_to_offset\<close>) and anchors (\<open>offset_for_anchor\<close>).

  A snapshot holds its two texts where the program holds ropes: \<open>text_cursor\<close> takes the place of the
  cursor over a rope, and a slice outside the text or inside a character is \<open>None\<close>. The theorems on ropes show
  that pushing, appending and slicing ropes do this to their texts. \<open>ins\<close>, in the invariants, is a ghost map from
  timestamps to the texts that were inserted.

  \<^bold>\<open>Bounds.\<close> A tree of height \<open>h\<close> that was built from a list has up to \<open>12 ^ (h + 1)\<close> items, so the bound
  \<open>STACK_CAP = 16\<close> leaves room for any text in memory. The trees that slices build are not shown to stay as
  low as the tree they come from; the theorems on ropes name the intermediate trees whose height they need.
  In the same way \<open>snapshot_room\<close>, \<open>buffer_room\<close> and \<open>undo_ready\<close> say that the trees of a buffer fit a cursor, and that its
  clock and its undo counts are not at their ends. Insertions are shorter than \<open>2 ^ 32\<close> bytes.
  Points are compared as packed words, which is the lexicographic order for columns below \<open>2 ^ 32\<close>.

  \<^bold>\<open>Not modelled.\<close> Atomic reference counts, logging, formatting, serialisation and the random generators of
  tests. Of buffers: remote edits, the edits since a version, marked texts, indentation of lines
  and the tasks that wait for operations. Grapheme boundaries come from an external crate and are a parameter; what is assumed
  of it is only said of texts without newlines (it has no boundary between CR and LF). The rest of the
  repository is the user interface, the clients of external processes (language servers, debug adapters,
  git, terminals), storage and settings: asynchronous glue over services that are not part of the sources.
\<close>

end
